(* ===== verification/Prelude.thy ===== *)
theory Prelude
  imports Main "HOL-Library.Word" "HOL-Library.AList" "HOL-Library.Multiset"
begin

unbundle bit_operations_syntax

section \<open>Shared vocabulary of the model\<close>

text \<open>
  What every component of the NextTrace model uses.

  \<^item> Bytes and byte strings: a Go \<open>byte\<close> is an \<open>8 word\<close>, a \<open>[]byte\<close> is a list of them.
    Reads that the Go run time checks (\<open>data[i]\<close>, \<open>data[a:b]\<close>, \<open>s.Hops[k]\<close>) are
    \<open>go_index\<close> and \<open>go_slice\<close>, whose failure is the value \<open>Inl Panic\<close>; a theorem that a
    function never panics is then a theorem about its result.
  \<^item> Go's \<open>error\<close> results are the left side of a sum, beside \<open>Panic\<close>.
  \<^item> Go's maps are association lists without duplicate keys; the order of the list is the
    order in which one run iterates over the map.
  \<^item> Transition systems: \<open>reaches\<close> is the reflexive transitive closure of a step relation,
    and the locale \<open>step_invariant\<close> proves the invariant rule once.
\<close>

named_theorems nt_defs \<open>definitions a component's proofs unfold together\<close>
named_theorems nt_inv \<open>preservation lemmas of the components' invariants\<close>

subsection \<open>Bytes and faults\<close>

type_synonym byte = "8 word"

datatype 'e fault = Panic | Err 'e

type_synonym ('e, 'a) res = "'e fault + 'a"

definition rbind :: "'x + 'a \<Rightarrow> ('a \<Rightarrow> 'x + 'b) \<Rightarrow> 'x + 'b" where
  "rbind m f = (case m of Inl e \<Rightarrow> Inl e | Inr x \<Rightarrow> f x)"

lemma rbind_simps [simp]:
  "rbind (Inl e) f = Inl e"
  "rbind (Inr x) f = f x"
  by (simp_all add: rbind_def)

lemma rbind_eq_Inr: "rbind m f = Inr y \<longleftrightarrow> (\<exists>x. m = Inr x \<and> f x = Inr y)"
  by (cases m) auto

lemma rbind_eq_Inl: "rbind m f = Inl e \<longleftrightarrow> m = Inl e \<or> (\<exists>x. m = Inr x \<and> f x = Inl e)"
  by (cases m) auto

text \<open>\<open>if err != nil { return }\<close> in a function without a result: an error ends it, a run-time fault does
  not become an error.\<close>

definition or_return :: "('e, 'a) res \<Rightarrow> ('a \<Rightarrow> ('f, 'b option) res) \<Rightarrow> ('f, 'b option) res" where
  "or_return m f = (case m of Inl Panic \<Rightarrow> Inl Panic | Inl (Err e) \<Rightarrow> Inr None | Inr x \<Rightarrow> f x)"

lemma or_return_simps [simp]:
  "or_return (Inl Panic) f = Inl Panic" "or_return (Inl (Err e)) f = Inr None" "or_return (Inr x) f = f x"
  by (simp_all add: or_return_def)

definition go_index :: "'a list \<Rightarrow> nat \<Rightarrow> ('e, 'a) res" where
  "go_index xs i = (if i < length xs then Inr (xs ! i) else Inl Panic)"

definition go_slice :: "'a list \<Rightarrow> nat \<Rightarrow> nat \<Rightarrow> ('e, 'a list) res" where
  "go_slice xs a b = (if a \<le> b \<and> b \<le> length xs then Inr (take (b - a) (drop a xs)) else Inl Panic)"

lemma go_index_in [simp]: "i < length xs \<Longrightarrow> go_index xs i = Inr (xs ! i)"
  by (simp add: go_index_def)

lemma go_slice_in [simp]:
  "a \<le> b \<Longrightarrow> b \<le> length xs \<Longrightarrow> go_slice xs a b = Inr (take (b - a) (drop a xs))"
  by (simp add: go_slice_def)

text \<open>\<open>binary.BigEndian.Uint16\<close> and \<open>Uint32\<close> read a slice of at least two or four bytes.\<close>

definition be16 :: "byte list \<Rightarrow> nat" where
  "be16 bs = unat (bs ! 0) * 256 + unat (bs ! 1)"

definition be32 :: "byte list \<Rightarrow> nat" where
  "be32 bs = unat (bs ! 0) * 16777216 + unat (bs ! 1) * 65536 + unat (bs ! 2) * 256 + unat (bs ! 3)"

lemma unat_byte_less [simp]: "unat (b :: byte) < 256"
proof -
  have "unat b < 2 ^ LENGTH(8)" by (rule unsigned_less)
  then show ?thesis by simp
qed

lemma unat_byte_le [simp]: "unat (b :: byte) \<le> 255"
  using unat_byte_less [of b] by linarith

text \<open>The two-byte encoding of a number, as a packet carries it.\<close>

definition enc16 :: "nat \<Rightarrow> byte list" where
  "enc16 n = [word_of_nat (n div 256), word_of_nat (n mod 256)]"

lemma length_enc16 [simp]: "length (enc16 n) = 2"
  by (simp add: enc16_def)

lemma unat_byte_of_nat [simp]: "unat (word_of_nat n :: byte) = n mod 256"
  by (simp add: unat_of_nat)

lemma be16_enc16 [simp]: "n < 65536 \<Longrightarrow> be16 (enc16 n) = n"
  by (simp add: be16_def enc16_def)

lemma be16_bound: "be16 bs < 65536"
  unfolding be16_def using unat_byte_less [of "bs ! 0"] unat_byte_less [of "bs ! 1"] by linarith

lemma be16_take2 [simp]: "be16 (take 2 xs) = be16 xs"
  by (simp add: be16_def)

lemma take2_conv: "2 \<le> length xs \<Longrightarrow> take 2 xs = [xs ! 0, xs ! 1]"
  by (cases xs; cases "tl xs") (auto simp: numeral_2_eq_2)

lemma enc16_be16: "2 \<le> length xs \<Longrightarrow> enc16 (be16 xs) = take 2 xs"
  by (simp add: enc16_def be16_def take2_conv)

lemma uint_of_int_small:
  "0 \<le> x \<Longrightarrow> x < 4294967296 \<Longrightarrow> uint (word_of_int x :: 32 word) = x"
  by (simp add: unsigned_of_int take_bit_int_eq_self)

lemma uint_pos: "t \<noteq> 0 \<Longrightarrow> 0 < uint (t :: 'a::len word)"
  by (metis uint_0_iff unsigned_greater_eq order_le_less)

lemma uint_minus_one:
  assumes "t \<noteq> 0"
  shows "uint (t - 1) = uint (t :: 'a::len word) - 1"
proof -
  have "1 \<le> t" using uint_pos [OF assms] by (simp add: word_le_def)
  then show ?thesis by (simp add: uint_minus_simple_alt)
qed

subsection \<open>Lists updated in place\<close>

lemma map_update_same [simp]: "(map f xs)[k := f (xs ! k)] = map f xs"
  by (metis list_update_id map_update)

subsection \<open>Runs of a transition system\<close>

inductive reaches :: "('s \<Rightarrow> 's \<Rightarrow> bool) \<Rightarrow> 's \<Rightarrow> 's \<Rightarrow> bool" for step :: "'s \<Rightarrow> 's \<Rightarrow> bool" where
  reaches_refl [simp, intro]: "reaches step s s"
| reaches_step: "reaches step s t \<Longrightarrow> step t u \<Longrightarrow> reaches step s u"

locale step_invariant =
  fixes step :: "'s \<Rightarrow> 's \<Rightarrow> bool" and inv :: "'s \<Rightarrow> bool"
  assumes preserved: "inv s \<Longrightarrow> step s t \<Longrightarrow> inv t"
begin

lemma reachable_inv: "reaches step s t \<Longrightarrow> inv s \<Longrightarrow> inv t"
  by (induction rule: reaches.induct) (auto intro: preserved)

end

text \<open>A measure that no step increases, hence monotone along runs.\<close>

locale step_monotone = step_invariant step inv for step :: "'s \<Rightarrow> 's \<Rightarrow> bool" and inv +
  fixes rank :: "'s \<Rightarrow> 'r::preorder"
  assumes rank_step: "inv s \<Longrightarrow> step s t \<Longrightarrow> rank t \<le> rank s"
begin

lemma rank_reaches: "reaches step s t \<Longrightarrow> inv s \<Longrightarrow> rank t \<le> rank s"
proof (induction rule: reaches.induct)
  case (reaches_step s t u)
  then show ?case using rank_step reachable_inv by (blast intro: order_trans)
qed simp

end

subsection \<open>Labelled transition systems\<close>

text \<open>A system given by an executable function from labels: its steps, and the run of a list of labels.\<close>

definition exec_step :: "('l \<Rightarrow> 's \<Rightarrow> 's option) \<Rightarrow> 's \<Rightarrow> 's \<Rightarrow> bool" where
  "exec_step f s t \<longleftrightarrow> (\<exists>l. f l s = Some t)"

fun exec_run :: "('l \<Rightarrow> 's \<Rightarrow> 's option) \<Rightarrow> 'l list \<Rightarrow> 's \<Rightarrow> 's option" where
  "exec_run f [] s = Some s"
| "exec_run f (l # ls) s = Option.bind (f l s) (exec_run f ls)"

lemma exec_run_reaches: "exec_run f ls s = Some t \<Longrightarrow> reaches (exec_step f) s t"
proof -
  have "exec_run f ls t = Some u \<Longrightarrow> reaches (exec_step f) s t \<Longrightarrow> reaches (exec_step f) s u" for s t u
  proof (induction ls arbitrary: t)
    case (Cons l ls)
    then obtain v where "f l t = Some v" "exec_run f ls v = Some u" by (auto simp: bind_eq_Some_conv)
    then show ?case using Cons by (metis exec_step_def reaches_step)
  qed simp
  then show "exec_run f ls s = Some t \<Longrightarrow> reaches (exec_step f) s t" by blast
qed

lemma exec_inv:
  assumes "reaches (exec_step f) s t" "I s" "\<And>l s t. f l s = Some t \<Longrightarrow> I s \<Longrightarrow> I t"
  shows "I t"
  using assms(1,2) by (induction rule: reaches.induct) (auto simp: exec_step_def intro: assms(3))

end
