(* ===== verification/Ext_Headers.thy ===== *)
theory Ext_Headers
  imports Prelude
begin

section \<open>IPv6 extension-header chains: the contract of a header walk\<close>

text \<open>
  Two routines of the program walk the extension headers of a quoted IPv6 packet:
  \<open>extractIPv6Payload\<close> of \<open>util/trace.go\<close> and \<open>parseEmbeddedIPv6UDP\<close> of
  \<open>trace/mtu/decode.go\<close>. This theory describes such chains independently of either
  routine, and the locale \<open>ext_walk\<close> states what a walk must do with one header; the
  behaviour on a whole chain is proved once, inside the locale.

  An extension header is its type and the bytes that follow its next-header byte.
\<close>

type_synonym ext_header = "byte \<times> byte list"

definition ext_types :: "byte set" where
  "ext_types = {0, 43, 60, 44, 51}"

fun wf_ext :: "ext_header \<Rightarrow> bool" where
  "wf_ext (t, []) = False"
| "wf_ext (t, l # rest) =
     (if t = 0 \<or> t = 43 \<or> t = 60 then length rest + 2 = (unat l + 1) * 8
      else if t = 44 then length rest = 6
      else if t = 51 then length rest + 2 = (unat l + 2) * 4
      else False)"

fun first_type :: "ext_header list \<Rightarrow> byte \<Rightarrow> byte" where
  "first_type [] up = up"
| "first_type ((t, b) # es) up = t"

fun encode_chain :: "ext_header list \<Rightarrow> byte \<Rightarrow> byte list" where
  "encode_chain [] up = []"
| "encode_chain ((t, b) # es) up = first_type es up # b @ encode_chain es up"

lemma wf_ext_type: "wf_ext (t, b) \<Longrightarrow> t \<in> ext_types"
  by (cases b) (auto simp: ext_types_def split: if_splits)

lemma wf_ext_length: "wf_ext (t, b) \<Longrightarrow> 7 \<le> length b"
  by (cases b) (auto split: if_splits)

locale ext_walk =
  fixes walk :: "byte list \<Rightarrow> nat \<Rightarrow> byte \<Rightarrow> 'r"
    and finish :: "byte list \<Rightarrow> nat \<Rightarrow> byte \<Rightarrow> 'r"
  assumes walk_upper:
      "up \<notin> ext_types \<Longrightarrow> off \<le> length data \<Longrightarrow> walk data off up = finish data off up"
    and walk_ext:
      "wf_ext (t, b) \<Longrightarrow> drop off data = n # b @ rest \<Longrightarrow>
       walk data off t = walk data (off + 1 + length b) n"
begin

lemma walk_chain:
  assumes "\<forall>e \<in> set es. wf_ext e" and "up \<notin> ext_types"
    and "drop off data = encode_chain es up @ payload" and "off \<le> length data"
  shows "walk data off (first_type es up) = finish data (off + length (encode_chain es up)) up"
  using assms
proof (induction es arbitrary: off)
  case Nil
  then show ?case by (simp add: walk_upper)
next
  case (Cons e es)
  obtain t b where e: "e = (t, b)" by (cases e)
  let ?off = "off + 1 + length b"
  have d: "drop off data = first_type es up # b @ encode_chain es up @ payload"
    using Cons.prems(3) by (simp add: e)
  have len: "length data - off = 1 + length b + length (encode_chain es up @ payload)"
    using arg_cong [OF d, of length] by simp
  have "drop ?off data = drop (1 + length b) (drop off data)"
    by (simp add: add.commute add.left_commute)
  then have d': "drop ?off data = encode_chain es up @ payload"
    by (simp add: d)
  have "walk data off t = walk data ?off (first_type es up)"
    using Cons.prems(1) d by (intro walk_ext) (auto simp: e)
  also have "\<dots> = finish data (?off + length (encode_chain es up)) up"
    using Cons.prems d' len by (intro Cons.IH) auto
  finally show ?case by (simp add: e add.assoc)
qed

end

end
