(* ===== verification/Ip_Header.thy ===== *)
theory Ip_Header
  imports Ext_Headers
begin

unbundle bit_operations_syntax

section \<open>Reading IP headers: \<open>util/trace.go\<close>\<close>

datatype hdr_error =
    Invalid_IP_header | Invalid_IHL | Unknown_IP_version
  | Inner_v4_short | Inner_v6_short
  | V6_ext_short | V6_ext_overflow | V6_frag_short | V6_AH_short | V6_AH_overflow | V6_ESP
  | V6_offset_range | ICMP_short_ID | ICMP_short_seq | TCP_short_ports | TCP_short_seq
  | UDP_short_ports | V4_short_seq | UDP_short_seq

definition GetIPHeaderLength :: "byte list \<Rightarrow> (hdr_error, nat) res" where
  "GetIPHeaderLength data =
     (if length data < 1 then Inl (Err Invalid_IP_header)
      else rbind (go_index data 0) (\<lambda>b0.
        let version = drop_bit 4 b0 in
        if version = 4 then
          (let ihl = unat (b0 AND 0x0F) in
           if ihl < 5 then Inl (Err Invalid_IHL) else Inr (ihl * 4))
        else if version = 6 then Inr 40
        else Inl (Err Unknown_IP_version)))"

definition extractIPv4Payload :: "byte list \<Rightarrow> nat \<Rightarrow> (hdr_error, byte list) res" where
  "extractIPv4Payload data hdrLen =
     (if length data < hdrLen then Inl (Err Inner_v4_short)
      else go_slice data hdrLen (length data))"

definition nextIPv6PayloadOffset ::
    "byte list \<Rightarrow> nat \<Rightarrow> byte \<Rightarrow> (hdr_error, nat \<times> byte) res" where
  "nextIPv6PayloadOffset data offset nxt =
     (if nxt = 0 \<or> nxt = 43 \<or> nxt = 60 then
        (if offset + 2 > length data then Inl (Err V6_ext_short)
         else rbind (go_index data (offset + 1)) (\<lambda>l.
           let extLen = (unat l + 1) * 8 in
           if offset + extLen > length data then Inl (Err V6_ext_overflow)
           else rbind (go_index data offset) (\<lambda>n. Inr (offset + extLen, n))))
      else if nxt = 44 then
        (if offset + 8 > length data then Inl (Err V6_frag_short)
         else rbind (go_index data offset) (\<lambda>n. Inr (offset + 8, n)))
      else if nxt = 51 then
        (if offset + 2 > length data then Inl (Err V6_AH_short)
         else rbind (go_index data (offset + 1)) (\<lambda>l.
           let extLen = (unat l + 2) * 4 in
           if offset + extLen > length data then Inl (Err V6_AH_overflow)
           else rbind (go_index data offset) (\<lambda>n. Inr (offset + extLen, n))))
      else if nxt = 50 then Inl (Err V6_ESP)
      else Inr (offset, nxt))"

text \<open>A step that moves, moves forward and stays inside the packet.\<close>

lemma nextIPv6PayloadOffset_progress:
  "nextIPv6PayloadOffset data offset nxt = Inr (offset', nxt') \<Longrightarrow>
   offset' = offset \<and> nxt' = nxt \<or> offset + 8 \<le> offset' \<and> offset' \<le> length data"
  by (auto simp: nextIPv6PayloadOffset_def rbind_eq_Inr Let_def split: if_splits)

lemma nextIPv6PayloadOffset_no_panic: "nextIPv6PayloadOffset data offset nxt \<noteq> Inl Panic"
  by (auto simp: nextIPv6PayloadOffset_def Let_def)

function extractIPv6_loop :: "byte list \<Rightarrow> nat \<Rightarrow> byte \<Rightarrow> (hdr_error, byte list) res" where
  "extractIPv6_loop data offset nxt =
     (case nextIPv6PayloadOffset data offset nxt of
        Inl e \<Rightarrow> Inl e
      | Inr (nextOffset, nextHeader) \<Rightarrow>
          if nextOffset = offset then
            (if offset > length data then Inl (Err V6_offset_range)
             else go_slice data offset (length data))
          else extractIPv6_loop data nextOffset nextHeader)"
  by pat_completeness auto
termination
  by (relation "measure (\<lambda>(data, offset, nxt). length data - offset)")
    (auto dest!: nextIPv6PayloadOffset_progress)

declare extractIPv6_loop.simps [simp del]

definition extractIPv6Payload :: "byte list \<Rightarrow> nat \<Rightarrow> (hdr_error, byte list) res" where
  "extractIPv6Payload data hdrLen =
     (if length data < hdrLen then Inl (Err Inner_v6_short)
      else rbind (go_index data 6) (\<lambda>nxt. extractIPv6_loop data hdrLen nxt))"

definition GetICMPResponsePayload :: "byte list \<Rightarrow> (hdr_error, byte list) res" where
  "GetICMPResponsePayload data =
     (if length data < 1 then Inl (Err Invalid_IP_header)
      else rbind (go_index data 0) (\<lambda>b0.
        let version = drop_bit 4 b0 in
        rbind (GetIPHeaderLength data) (\<lambda>hdrLen.
          if version = 4 then extractIPv4Payload data hdrLen
          else if version = 6 then extractIPv6Payload data hdrLen
          else Inl (Err Unknown_IP_version))))"

definition GetICMPID :: "byte list \<Rightarrow> (hdr_error, nat) res" where
  "GetICMPID data =
     (if length data < 6 then Inl (Err ICMP_short_ID)
      else rbind (go_slice data 4 6) (\<lambda>s. Inr (be16 s)))"

definition GetICMPSeq :: "byte list \<Rightarrow> (hdr_error, nat) res" where
  "GetICMPSeq data =
     (if length data < 8 then Inl (Err ICMP_short_seq)
      else rbind (go_slice data 6 8) (\<lambda>s. Inr (be16 s)))"

definition GetTCPPorts :: "byte list \<Rightarrow> (hdr_error, nat \<times> nat) res" where
  "GetTCPPorts data =
     (if length data < 4 then Inl (Err TCP_short_ports)
      else rbind (go_slice data 0 2) (\<lambda>a. rbind (go_slice data 2 4) (\<lambda>b. Inr (be16 a, be16 b))))"

definition GetTCPSeq :: "byte list \<Rightarrow> (hdr_error, nat) res" where
  "GetTCPSeq data =
     (if length data < 8 then Inl (Err TCP_short_seq)
      else rbind (go_slice data 4 8) (\<lambda>s. Inr (be32 s)))"

definition GetUDPPorts :: "byte list \<Rightarrow> (hdr_error, nat \<times> nat) res" where
  "GetUDPPorts data =
     (if length data < 4 then Inl (Err UDP_short_ports)
      else rbind (go_slice data 0 2) (\<lambda>a. rbind (go_slice data 2 4) (\<lambda>b. Inr (be16 a, be16 b))))"

definition GetUDPSeq :: "byte list \<Rightarrow> (hdr_error, nat) res" where
  "GetUDPSeq data =
     (if length data < 1 then Inl (Err Invalid_IP_header)
      else rbind (GetIPHeaderLength data) (\<lambda>hdrLen.
        if length data < hdrLen then Inl (Err V4_short_seq)
        else rbind (go_slice data 4 6) (\<lambda>s. Inr (be16 s))))"

definition GetUDPSeqv6 :: "byte list \<Rightarrow> (hdr_error, nat) res" where
  "GetUDPSeqv6 data =
     (if length data < 8 then Inl (Err UDP_short_seq)
      else rbind (go_slice data 6 8) (\<lambda>s. Inr (be16 s)))"

subsection \<open>The walk over extension headers meets its contract\<close>

definition ipv6_rest :: "byte list \<Rightarrow> nat \<Rightarrow> byte \<Rightarrow> (hdr_error, byte list) res" where
  "ipv6_rest data off up = (if up = 50 then Inl (Err V6_ESP) else Inr (drop off data))"

lemma drop_nth_simps:
  "drop off data = n # l # rest \<Longrightarrow>
   data ! off = n \<and> data ! (off + 1) = l \<and> length data = off + 2 + length rest"
proof -
  assume d: "drop off data = n # l # rest"
  then have len: "length data - off = 2 + length rest"
    by (metis add_2_eq_Suc length_Cons length_drop)
  have "data ! off = drop off data ! 0" and "data ! (off + 1) = drop off data ! 1"
    using len by (simp_all add: nth_drop)
  with d len show ?thesis by simp
qed

lemma next_ext:
  assumes wf: "wf_ext (t, b)" and d: "drop off data = n # b @ rest"
  shows "nextIPv6PayloadOffset data off t = Inr (off + 1 + length b, n)"
proof -
  obtain l bs where b: "b = l # bs" using wf by (cases b) auto
  have "data ! off = n" "data ! (off + 1) = l" "length data = off + 2 + length bs + length rest"
    using drop_nth_simps [of off data n l "bs @ rest"] d by (simp_all add: b)
  with wf show ?thesis
    by (auto simp: b nextIPv6PayloadOffset_def split: if_splits)
qed

interpretation payload_walk: ext_walk extractIPv6_loop ipv6_rest
proof unfold_locales
  fix up :: byte and off :: nat and data :: "byte list"
  assume "up \<notin> ext_types" and "off \<le> length data"
  then show "extractIPv6_loop data off up = ipv6_rest data off up"
    by (subst extractIPv6_loop.simps)
      (auto simp: nextIPv6PayloadOffset_def ipv6_rest_def ext_types_def)
next
  fix t n :: byte and b data rest :: "byte list" and off :: nat
  assume "wf_ext (t, b)" and "drop off data = n # b @ rest"
  then show "extractIPv6_loop data off t = extractIPv6_loop data (off + 1 + length b) n"
    by (subst extractIPv6_loop.simps) (simp add: next_ext)
qed

subsection \<open>No read is out of range\<close>

lemma GetIPHeaderLength_cases:
  "GetIPHeaderLength data = Inr n \<Longrightarrow>
   0 < length data \<and>
   (drop_bit 4 (data ! 0) = 4 \<and> 20 \<le> n \<and> n \<le> 60 \<or> drop_bit 4 (data ! 0) = 6 \<and> n = 40)"
proof -
  have "unat (b AND 0x0F :: byte) \<le> 15" for b :: byte
    using word_and_le1 [of b "0x0F"] by (simp add: word_le_nat_alt)
  then show "GetIPHeaderLength data = Inr n \<Longrightarrow> ?thesis"
    by (auto simp: GetIPHeaderLength_def Let_def rbind_eq_Inr split: if_splits)
qed

lemma GetIPHeaderLength_no_panic: "GetIPHeaderLength data \<noteq> Inl Panic"
  by (auto simp: GetIPHeaderLength_def Let_def)

lemma extractIPv6_loop_suffix:
  "extractIPv6_loop data offset nxt \<noteq> Inl Panic \<and>
   (\<forall>p. extractIPv6_loop data offset nxt = Inr p \<longrightarrow>
        (\<exists>k. offset \<le> k \<and> k \<le> length data \<and> p = drop k data))"
proof (induction data offset nxt rule: extractIPv6_loop.induct)
  case (1 data offset nxt)
  show ?case
  proof (cases "nextIPv6PayloadOffset data offset nxt")
    case (Inl e)
    then show ?thesis
      using nextIPv6PayloadOffset_no_panic [of data offset nxt]
      by (subst extractIPv6_loop.simps, subst (2) extractIPv6_loop.simps) auto
  next
    case (Inr r)
    obtain o' n' where r: "r = (o', n')" by (cases r)
    show ?thesis
    proof (cases "o' = offset")
      case True
      with Inr r show ?thesis
        by (subst extractIPv6_loop.simps, subst (2) extractIPv6_loop.simps) auto
    next
      case False
      with Inr r have "offset \<le> o'"
        using nextIPv6PayloadOffset_progress [of data offset nxt o' n'] by auto
      moreover have "extractIPv6_loop data offset nxt = extractIPv6_loop data o' n'"
        by (subst extractIPv6_loop.simps) (simp add: Inr r False)
      ultimately show ?thesis
        using "1" [OF Inr r [symmetric] False] by (metis le_trans)
    qed
  qed
qed

text \<open>The fixed headers of a quoted packet, as a sender writes them.\<close>

definition ipv4_header :: "byte list \<Rightarrow> nat \<Rightarrow> byte \<Rightarrow> byte list \<Rightarrow> bool" where
  "ipv4_header h ihl proto dst \<longleftrightarrow>
     5 \<le> ihl \<and> ihl \<le> 15 \<and> length h = ihl * 4 \<and> h ! 0 = 64 + word_of_nat ihl \<and> h ! 9 = proto \<and>
     take 4 (drop 16 h) = dst"

definition ipv6_header :: "byte list \<Rightarrow> byte \<Rightarrow> byte list \<Rightarrow> bool" where
  "ipv6_header h nxt dst \<longleftrightarrow>
     length h = 40 \<and> drop_bit 4 (h ! 0) = 6 \<and> h ! 6 = nxt \<and> drop 24 h = dst"

lemma ipv4_first_byte:
  assumes "5 \<le> ihl" "ihl \<le> 15"
  shows "drop_bit 4 (64 + word_of_nat ihl :: byte) = 4"
    and "unat ((64 + word_of_nat ihl :: byte) AND 0x0F) = ihl"
proof -
  have "ihl = 5 \<or> ihl = 6 \<or> ihl = 7 \<or> ihl = 8 \<or> ihl = 9 \<or> ihl = 10 \<or> ihl = 11 \<or> ihl = 12 \<or>
    ihl = 13 \<or> ihl = 14 \<or> ihl = 15"
    using assms by presburger
  then show "drop_bit 4 (64 + word_of_nat ihl :: byte) = 4"
    and "unat ((64 + word_of_nat ihl :: byte) AND 0x0F) = ihl" by auto
qed

lemma GetIPHeaderLength_ipv4:
  assumes "ipv4_header h ihl proto dst"
  shows "GetIPHeaderLength (h @ p) = Inr (length h)" and "drop_bit 4 ((h @ p) ! 0) = 4"
proof -
  have "0 < length h" and h0: "(h @ p) ! 0 = 64 + word_of_nat ihl" and b: "5 \<le> ihl" "ihl \<le> 15"
    and len: "length h = ihl * 4"
    using assms by (auto simp: ipv4_header_def nth_append)
  then show "GetIPHeaderLength (h @ p) = Inr (length h)"
    using ipv4_first_byte [OF b] by (auto simp: GetIPHeaderLength_def Let_def)
  show "drop_bit 4 ((h @ p) ! 0) = 4" using ipv4_first_byte [OF b] h0 by simp
qed

lemma GetICMPResponsePayload_ipv4:
  "ipv4_header h ihl proto dst \<Longrightarrow> GetICMPResponsePayload (h @ p) = Inr p"
  using GetIPHeaderLength_ipv4 [of h ihl proto dst p]
  by (auto simp: GetICMPResponsePayload_def extractIPv4Payload_def ipv4_header_def)

lemma GetICMPResponsePayload_ipv6:
  assumes h: "ipv6_header h (first_type es up) dst"
    and es: "\<forall>e \<in> set es. wf_ext e" and up: "up \<notin> ext_types"
  shows "GetICMPResponsePayload (h @ encode_chain es up @ p) =
    (if up = 50 then Inl (Err V6_ESP) else Inr p)"
proof -
  let ?d = "h @ encode_chain es up @ p"
  have len: "length h = 40" and ver: "drop_bit 4 (?d ! 0) = 6" and nxt: "?d ! 6 = first_type es up"
    using h by (auto simp: ipv6_header_def nth_append)
  have "extractIPv6_loop ?d 40 (first_type es up) = ipv6_rest ?d (40 + length (encode_chain es up)) up"
    by (rule payload_walk.walk_chain) (use es up len in auto)
  then show ?thesis
    using len ver nxt
    by (simp add: GetICMPResponsePayload_def GetIPHeaderLength_def extractIPv6Payload_def
        ipv6_rest_def)
qed

subsection \<open>Properties\<close>

text \<open>Unwrapping a quoted IPv6 packet: whatever chain of well-formed hop-by-hop, routing,
  destination-options, fragment and authentication headers the packet carries,
  \<open>GetICMPResponsePayload\<close> returns exactly the bytes after the chain.\<close>

theorem ipv6_payload_after_chain:
  assumes "ipv6_header h (first_type es up) dst" and "\<forall>e \<in> set es. wf_ext e"
    and "up \<notin> ext_types" and "up \<noteq> 50"
  shows "GetICMPResponsePayload (h @ encode_chain es up @ payload) = Inr payload"
  using GetICMPResponsePayload_ipv6 [OF assms(1-3)] assms(4) by simp

theorem ipv6_payload_after_chain_witness:
  "GetICMPResponsePayload
     ((0x60 # replicate 5 0 @ [0] @ replicate 33 0) @
      encode_chain [(0, 0 # replicate 6 0), (44, replicate 7 0)] 58 @ [128, 0, 1, 2]) =
   Inr [128, 0, 1, 2]"
  by (rule ipv6_payload_after_chain [where dst = "replicate 16 0"])
    (code_simp+)

text \<open>Robustness of the unwrapping: on any input, however malformed, it neither reads out of
  range nor loops, and a payload it returns is a suffix of the packet that starts after a
  complete fixed header.\<close>

theorem payload_is_suffix:
  "GetICMPResponsePayload data \<noteq> Inl Panic \<and>
   (\<forall>p. GetICMPResponsePayload data = Inr p \<longrightarrow>
        (\<exists>k. 20 \<le> k \<and> k \<le> length data \<and> p = drop k data))"
proof (cases "GetIPHeaderLength data")
  case (Inl e)
  then show ?thesis
    using GetIPHeaderLength_no_panic [of data]
    by (auto simp: GetICMPResponsePayload_def Let_def)
next
  case (Inr n)
  note n = GetIPHeaderLength_cases [OF Inr]
  have "\<exists>k. 20 \<le> k \<and> k \<le> length data \<and> p = drop k data"
    if q: "extractIPv6_loop data n (data ! 6) = Inr p" for p
  proof -
    obtain k where "n \<le> k" "k \<le> length data" "p = drop k data"
      using extractIPv6_loop_suffix [of data n "data ! 6"] q by auto
    moreover have "20 \<le> n" using n by auto
    ultimately show ?thesis by (intro exI [of _ k]) auto
  qed
  with n show ?thesis
    using extractIPv6_loop_suffix [of data n "data ! 6"]
    by (auto simp: GetICMPResponsePayload_def Inr extractIPv4Payload_def extractIPv6Payload_def
        split: if_splits)
qed

theorem payload_is_suffix_witness:
  "\<exists>k. 20 \<le> k \<and> k \<le> 24 \<and>
     [1, 2, 3, 4 :: byte] = drop k ((0x45 # replicate 19 0) @ [1, 2, 3, 4])"
proof -
  let ?d = "(0x45 # replicate 19 0) @ [1, 2, 3, 4 :: byte]"
  have "GetICMPResponsePayload ?d = Inr [1, 2, 3, 4]" by code_simp
  with payload_is_suffix [of ?d] obtain k where "20 \<le> k" "k \<le> length ?d" "[1, 2, 3, 4] = drop k ?d"
    by metis
  then show ?thesis by auto
qed

text \<open>The field readers (ICMP identifier and sequence, TCP and UDP ports and sequence numbers)
  never read out of range on any input, and the ports and 16-bit fields they return are in range.\<close>

theorem field_readers_total:
  "GetICMPID d \<noteq> Inl Panic \<and> GetICMPSeq d \<noteq> Inl Panic \<and> GetTCPPorts d \<noteq> Inl Panic \<and>
   GetTCPSeq d \<noteq> Inl Panic \<and> GetUDPPorts d \<noteq> Inl Panic \<and> GetUDPSeq d \<noteq> Inl Panic \<and>
   GetUDPSeqv6 d \<noteq> Inl Panic \<and> GetIPHeaderLength d \<noteq> Inl Panic"
proof -
  have "GetUDPSeq d \<noteq> Inl Panic"
    using GetIPHeaderLength_no_panic [of d] GetIPHeaderLength_cases [of d]
    by (cases "GetIPHeaderLength d") (auto simp: GetUDPSeq_def)
  then show ?thesis
    using GetIPHeaderLength_no_panic [of d]
    by (simp add: GetICMPID_def GetICMPSeq_def GetTCPPorts_def GetTCPSeq_def GetUDPPorts_def
        GetUDPSeqv6_def)
qed

end
