(* ===== verification/Go_Text.thy ===== *)
theory Go_Text
  imports Prelude
begin

section \<open>Strings, as the program uses them\<close>

text \<open>
  A Go string is a sequence of bytes; here it is a \<open>char list\<close>. These are the functions of
  Go's \<open>strings\<close> and \<open>strconv\<close> packages that the modelled code calls, and the number
  formats of \<open>fmt.Sprintf\<close> it uses. \<open>TrimSpace\<close> trims the white space of \<open>unicode.IsSpace\<close>, in its
  UTF-8 encoding; no encoding of a rune begins or ends inside another one, so trimming bytes is
  trimming runes.
\<close>

definition HasPrefix :: "string \<Rightarrow> string \<Rightarrow> bool" where
  "HasPrefix s p \<longleftrightarrow> take (length p) s = p"

definition space_encodings :: "string list" where
  "space_encodings = map (map char_of) [[9], [10], [11], [12], [13], [32], [0xC2, 0x85], [0xC2, 0xA0], [0xE1, 0x9A, 0x80],
     [0xE2, 0x80, 0x80], [0xE2, 0x80, 0x81], [0xE2, 0x80, 0x82], [0xE2, 0x80, 0x83], [0xE2, 0x80, 0x84],
     [0xE2, 0x80, 0x85], [0xE2, 0x80, 0x86], [0xE2, 0x80, 0x87], [0xE2, 0x80, 0x88], [0xE2, 0x80, 0x89],
     [0xE2, 0x80, 0x8A], [0xE2, 0x80, 0xA8], [0xE2, 0x80, 0xA9], [0xE2, 0x80, 0xAF], [0xE2, 0x81, 0x9F],
     [0xE3, 0x80, 0x80 :: nat]]"

text \<open>Drop prefixes from a list for as long as there are some.\<close>

function strip_all :: "string list \<Rightarrow> string \<Rightarrow> string" where
  "strip_all ws s = (case find (\<lambda>w. w \<noteq> [] \<and> HasPrefix s w) ws of None \<Rightarrow> s | Some w \<Rightarrow> strip_all ws (drop (length w) s))"
  by auto
termination
proof (relation "measure (length \<circ> snd)")
  fix ws s w
  assume "find (\<lambda>w. w \<noteq> [] \<and> HasPrefix s w) ws = Some w"
  then have "w \<noteq> []" "take (length w) s = w" by (auto simp: find_Some_iff HasPrefix_def)
  then show "((ws, drop (length w) s), ws, s) \<in> measure (length \<circ> snd)" by (cases s) auto
qed simp

declare strip_all.simps [simp del]

definition TrimSpace :: "string \<Rightarrow> string" where
  "TrimSpace s = rev (strip_all (map rev space_encodings) (rev (strip_all space_encodings s)))"

definition TrimSuffix :: "string \<Rightarrow> string \<Rightarrow> string" where
  "TrimSuffix s suf =
     (if length suf \<le> length s \<and> drop (length s - length suf) s = suf
      then take (length s - length suf) s else s)"

definition lower_char :: "char \<Rightarrow> char" where
  "lower_char c =
     (let n = of_char c :: nat in if 65 \<le> n \<and> n \<le> 90 then char_of (n + 32) else c)"

definition ToLower :: "string \<Rightarrow> string" where
  "ToLower s = map lower_char s"

text \<open>\<open>strings.EqualFold(s, t)\<close> for a \<open>t\<close> of lower-case ASCII letters: besides the capitals, the long s (U+017F) folds
  to s and the Kelvin sign (U+212A) to k.\<close>

fun fold_text :: "string \<Rightarrow> string" where
  "fold_text [] = []"
| "fold_text (c # s) =
     (if c = CHR 0xC5 \<and> s \<noteq> [] \<and> hd s = CHR 0xBF then CHR ''s'' # fold_text (tl s)
      else if c = CHR 0xE2 \<and> 2 \<le> length s \<and> s ! 0 = CHR 0x84 \<and> s ! 1 = CHR 0xAA then CHR ''k'' # fold_text (drop 2 s)
      else lower_char c # fold_text s)"

definition EqualFold :: "string \<Rightarrow> string \<Rightarrow> bool" where
  "EqualFold s t \<longleftrightarrow> fold_text s = t"

text \<open>\<open>strings.Split\<close> at a byte.\<close>

fun split_on :: "char \<Rightarrow> string \<Rightarrow> string list" where
  "split_on c [] = [[]]"
| "split_on c (x # s) =
     (if x = c then [] # split_on c s
      else case split_on c s of [] \<Rightarrow> [[x]] | p # ps \<Rightarrow> (x # p) # ps)"

definition Trim :: "string \<Rightarrow> string \<Rightarrow> string" where
  "Trim s cutset = rev (dropWhile (\<lambda>c. c \<in> set cutset) (rev (dropWhile (\<lambda>c. c \<in> set cutset) s)))"

definition TrimRight :: "string \<Rightarrow> string \<Rightarrow> string" where
  "TrimRight s cutset = rev (dropWhile (\<lambda>c. c \<in> set cutset) (rev s))"

text \<open>\<open>strings.IndexByte\<close> and \<open>strings.LastIndexByte\<close>, with \<open>None\<close> for -1.\<close>

definition IndexByte :: "string \<Rightarrow> char \<Rightarrow> nat option" where
  "IndexByte s c = find (\<lambda>i. s ! i = c) [0..<length s]"

definition LastIndexByte :: "string \<Rightarrow> char \<Rightarrow> nat option" where
  "LastIndexByte s c = find (\<lambda>i. s ! i = c) (rev [0..<length s])"

text \<open>The host that \<open>net.SplitHostPort\<close> returns, \<open>None\<close> for an error.\<close>

definition split_host :: "string \<Rightarrow> string option" where
  "split_host hostport =
     (case LastIndexByte hostport (CHR '':'') of
        None \<Rightarrow> None
      | Some i \<Rightarrow>
          if hostport ! 0 = CHR ''['' then
            (case IndexByte hostport (CHR '']'') of
               None \<Rightarrow> None
             | Some stop \<Rightarrow>
                 if stop + 1 \<noteq> i then None
                 else if CHR ''['' \<in> set (drop 1 hostport) \<or> CHR '']'' \<in> set (drop (stop + 1) hostport) then None
                 else Some (take (stop - 1) (drop 1 hostport)))
          else
            let host = take i hostport in
            if CHR '':'' \<in> set host then None
            else if CHR ''['' \<in> set hostport \<or> CHR '']'' \<in> set hostport then None
            else Some host)"

definition digit_char :: "nat \<Rightarrow> char" where
  "digit_char d = char_of (if d < 10 then 48 + d else 87 + d)"

text \<open>Digits of a number in a base, most significant first, without leading zeros.\<close>

fun base_digits :: "nat \<Rightarrow> nat \<Rightarrow> string" where
  "base_digits b n =
     (if b < 2 \<or> n < b then [digit_char n] else base_digits b (n div b) @ [digit_char (n mod b)])"

declare base_digits.simps [simp del]

definition nat_dec :: "nat \<Rightarrow> string" where
  "nat_dec n = base_digits 10 n"

definition nat_hex :: "nat \<Rightarrow> string" where
  "nat_hex n = base_digits 16 n"

definition int_dec :: "int \<Rightarrow> string" where
  "int_dec i = (if i < 0 then ''-'' @ nat_dec (nat (- i)) else nat_dec (nat i))"

fun join :: "string \<Rightarrow> string list \<Rightarrow> string" where
  "join sep [] = []"
| "join sep [x] = x"
| "join sep (x # y # xs) = x @ sep @ join sep (y # xs)"

subsection \<open>Trimming\<close>

definition none_prefix :: "string list \<Rightarrow> string \<Rightarrow> bool" where
  "none_prefix ws s \<longleftrightarrow> (\<forall>w\<in>set ws. w = [] \<or> \<not> HasPrefix s w)"

lemma strip_all_done: "none_prefix ws s \<Longrightarrow> strip_all ws s = s"
proof -
  assume "none_prefix ws s"
  then have "find (\<lambda>w. w \<noteq> [] \<and> HasPrefix s w) ws = None" by (auto simp: none_prefix_def find_None_iff)
  then show ?thesis by (subst strip_all.simps) simp
qed

lemma strip_Nil [simp]: "strip_all ws [] = []"
  by (rule strip_all_done) (auto simp: none_prefix_def HasPrefix_def)

lemma strip_all_none: "none_prefix ws (strip_all ws s)"
proof (induction ws s rule: strip_all.induct)
  case (1 ws s)
  then show ?case
    by (subst strip_all.simps) (auto simp: none_prefix_def find_None_iff split: option.split)
qed

lemma strip_all_suffix: "\<exists>n. strip_all ws s = drop n s"
proof (induction ws s rule: strip_all.induct)
  case (1 ws s)
  show ?case
  proof (cases "find (\<lambda>w. w \<noteq> [] \<and> HasPrefix s w) ws")
    case None
    then show ?thesis by (subst strip_all.simps) (auto intro: exI [of _ 0])
  next
    case (Some w)
    then obtain n where "strip_all ws (drop (length w) s) = drop n (drop (length w) s)" using 1 by blast
    then show ?thesis using Some by (subst strip_all.simps) (auto intro: exI [of _ "n + length w"])
  qed
qed

lemma none_prefix_take: "none_prefix ws s \<Longrightarrow> none_prefix ws (take n s)"
proof -
  have "HasPrefix s w" if "HasPrefix (take n s) w" for w
  proof -
    have "take (min (length w) n) s = w" using that by (simp add: HasPrefix_def)
    moreover from this have "length w \<le> n" by (metis length_take min.bounded_iff order_refl min.cobounded2 le_trans)
    ultimately show ?thesis by (simp add: HasPrefix_def min_def)
  qed
  then show "none_prefix ws s \<Longrightarrow> none_prefix ws (take n s)" by (auto simp: none_prefix_def)
qed

lemma TrimSpace_idem [simp]: "TrimSpace (TrimSpace s) = TrimSpace s"
proof -
  let ?r = "map rev space_encodings" and ?t = "strip_all space_encodings s"
  obtain n where n: "strip_all ?r (rev ?t) = drop n (rev ?t)" using strip_all_suffix by blast
  have "none_prefix space_encodings (rev (strip_all ?r (rev ?t)))"
    unfolding n rev_drop by (simp add: none_prefix_take strip_all_none)
  moreover have "none_prefix ?r (strip_all ?r (rev ?t))" by (rule strip_all_none)
  ultimately show ?thesis by (simp add: TrimSpace_def strip_all_done)
qed

lemma TrimSpace_Nil [simp]: "TrimSpace [] = []"
  by (simp add: TrimSpace_def)

text \<open>A text that neither begins nor ends with the first or last byte of some white space.\<close>

definition space_edge :: "char \<Rightarrow> bool" where
  "space_edge c \<longleftrightarrow> (let n = of_char c :: nat in (9 \<le> n \<and> n \<le> 13) \<or> n = 32 \<or> 128 \<le> n)"

lemma space_encodings_edge: "w \<in> set space_encodings \<Longrightarrow> w \<noteq> [] \<and> space_edge (hd w) \<and> space_edge (last w)"
  by (auto simp: space_encodings_def space_edge_def)

lemma TrimSpace_id:
  assumes "s = [] \<or> \<not> space_edge (hd s) \<and> \<not> space_edge (last s)"
  shows "TrimSpace s = s"
proof (cases s)
  case (Cons c t)
  have "\<not> HasPrefix s w" if "w \<in> set space_encodings" for w
    using space_encodings_edge [OF that] assms Cons by (cases w) (auto simp: HasPrefix_def)
  then have l: "none_prefix space_encodings s" by (simp add: none_prefix_def)
  have "\<not> HasPrefix (rev s) (rev w)" if "w \<in> set space_encodings" for w
  proof
    assume "HasPrefix (rev s) (rev w)"
    then have "hd (rev w) = hd (rev s)" using space_encodings_edge [OF that]
      by (metis HasPrefix_def hd_take length_greater_0_conv rev_is_Nil_conv)
    then have "last w = last s" by (simp add: hd_rev)
    then show False using space_encodings_edge [OF that] assms Cons by auto
  qed
  then have "none_prefix (map rev space_encodings) (rev s)" by (simp add: none_prefix_def)
  then show ?thesis using l by (simp add: TrimSpace_def strip_all_done)
qed simp


subsection \<open>Splitting and joining\<close>

lemma split_on_not_Nil [simp]: "split_on c s \<noteq> []"
  by (induction s) (auto split: list.splits)

lemma split_on_free: "c \<notin> set p \<Longrightarrow> split_on c p = [p]"
  by (induction p) auto

lemma split_on_append: "c \<notin> set p \<Longrightarrow> split_on c (p @ c # s) = p # split_on c s"
  by (induction p) auto

lemma split_on_join:
  assumes "ps \<noteq> []" "\<And>p. p \<in> set ps \<Longrightarrow> c \<notin> set p"
  shows "split_on c (join [c] ps) = ps"
  using assms
proof (induction "[c]" ps rule: join.induct)
  case (3 x y xs)
  then show ?case using split_on_append [of c x] by simp
qed (auto simp: split_on_free)

end
