(* ===== verification/Net_Addr.thy ===== *)
theory Net_Addr
  imports Go_Text
begin

section \<open>IP addresses and network addresses\<close>

text \<open>
  \<open>net.IP\<close> is a byte slice: four bytes, sixteen bytes, or something invalid; the \<open>nil\<close>
  address is the empty list. The methods of \<open>net.IP\<close> the program calls are modelled after
  Go's standard library. \<open>net.Addr\<close> is an interface; its dynamic types that occur here
  are the constructors of \<open>addr\<close>, and an address of another type is what its \<open>String\<close>
  method returns; the second field of an \<open>IPNet\<close> is its printed form. A \<open>nil\<close> interface value is \<open>None\<close>.
\<close>

type_synonym ip = "byte list"

definition v4InV6Prefix :: "byte list" where
  "v4InV6Prefix = replicate 10 0 @ [0xFF, 0xFF]"

definition To4 :: "ip \<Rightarrow> ip" where
  "To4 p = (if length p = 4 then p
            else if length p = 16 \<and> take 12 p = v4InV6Prefix then drop 12 p else [])"

definition To16 :: "ip \<Rightarrow> ip" where
  "To16 p = (if length p = 4 then v4InV6Prefix @ p else if length p = 16 then p else [])"

definition ip_Equal :: "ip \<Rightarrow> ip \<Rightarrow> bool" where
  "ip_Equal p q =
     (if length p = length q then p = q
      else if length p = 4 \<and> length q = 16 then take 12 q = v4InV6Prefix \<and> p = drop 12 q
      else if length p = 16 \<and> length q = 4 then take 12 p = v4InV6Prefix \<and> drop 12 p = q
      else False)"

text \<open>\<open>util.IsIPv6\<close>\<close>

definition IsIPv6 :: "ip \<Rightarrow> bool" where
  "IsIPv6 p \<longleftrightarrow> p \<noteq> [] \<and> To4 p = [] \<and> To16 p \<noteq> []"

datatype addr =
    IPNet ip string
  | IPAddr ip string
  | TCPAddr ip nat string
  | UDPAddr ip nat string
  | OtherAddr string

text \<open>\<open>util.AddrIP\<close>\<close>

fun AddrIP :: "addr option \<Rightarrow> ip" where
  "AddrIP (Some (IPNet p m)) = p"
| "AddrIP (Some (IPAddr p z)) = p"
| "AddrIP (Some (TCPAddr p n z)) = p"
| "AddrIP (Some (UDPAddr p n z)) = p"
| "AddrIP (Some (OtherAddr s)) = []"
| "AddrIP None = []"

text \<open>\<open>addressIP\<close> and \<open>matchInterfaceIP\<close> of \<open>util/frag.go\<close>\<close>

fun addressIP :: "addr option \<Rightarrow> ip" where
  "addressIP (Some (IPNet p m)) = p"
| "addressIP (Some (IPAddr p z)) = p"
| "addressIP _ = []"

definition matchInterfaceIP :: "ip \<Rightarrow> ip \<Rightarrow> bool \<Rightarrow> bool" where
  "matchInterfaceIP candidate target isIPv6 =
     (if candidate = [] then False
      else if isIPv6 then To16 candidate \<noteq> [] \<and> IsIPv6 candidate \<and> ip_Equal (To16 candidate) target
      else To4 candidate \<noteq> [] \<and> ip_Equal (To4 candidate) target)"

text \<open>\<open>util.filterByFamily\<close>: the first address of the family asked for, or all of them.\<close>

fun first_of_family :: "ip list \<Rightarrow> string \<Rightarrow> ip list" where
  "first_of_family [] ver = []"
| "first_of_family (p # ps) ver =
     (if p = [] then first_of_family ps ver
      else if ver = ''4'' \<and> To4 p \<noteq> [] then [p]
      else if ver = ''6'' \<and> To4 p = [] then [p]
      else first_of_family ps ver)"

definition filterByFamily :: "ip list \<Rightarrow> string \<Rightarrow> ip list" where
  "filterByFamily ips ver = (if ver = ''all'' then ips else first_of_family ips ver)"

subsection \<open>Printing addresses\<close>

definition dotted :: "ip \<Rightarrow> string" where
  "dotted p = join ''.'' (map (\<lambda>b. nat_dec (unat b)) p)"

definition v6_groups :: "ip \<Rightarrow> nat list" where
  "v6_groups p = map (\<lambda>i. be16 (drop (2 * i) p)) [0..<8]"

text \<open>The longest run of zero groups, of at least two, the leftmost of equals: its bounds.\<close>

definition zero_run :: "nat list \<Rightarrow> nat \<Rightarrow> nat" where
  "zero_run gs i = length (takeWhile (\<lambda>g. g = 0) (drop i gs))"

definition best_zero_run :: "nat list \<Rightarrow> nat \<times> nat" where
  "best_zero_run gs =
     fold (\<lambda>i (s, e). let l = zero_run gs i in if 2 \<le> l \<and> e - s < l then (i, i + l) else (s, e))
       [0..<8] (255, 255)"

fun render_groups :: "nat list \<Rightarrow> nat \<Rightarrow> nat \<Rightarrow> nat \<Rightarrow> nat \<Rightarrow> string" where
  "render_groups gs s e i 0 = []"
| "render_groups gs s e i (Suc fuel) =
     (if 8 \<le> i then []
      else if i = s then
        ''::'' @ (if 8 \<le> e then [] else nat_hex (gs ! e) @ render_groups gs s e (e + 1) fuel)
      else (if 0 < i then '':'' else []) @ nat_hex (gs ! i) @ render_groups gs s e (i + 1) fuel)"

definition v6_string :: "ip \<Rightarrow> string" where
  "v6_string p =
     (let gs = v6_groups p; r = best_zero_run gs in render_groups gs (fst r) (snd r) 0 8)"

definition hex_byte :: "byte \<Rightarrow> string" where
  "hex_byte b = [digit_char (unat b div 16), digit_char (unat b mod 16)]"

definition hex_string :: "byte list \<Rightarrow> string" where
  "hex_string bs = concat (map hex_byte bs)"

definition ip_string :: "ip \<Rightarrow> string" where
  "ip_string p =
     (if p = [] then ''<nil>''
      else if To4 p \<noteq> [] then dotted (To4 p)
      else if length p = 16 then v6_string p
      else ''?'' @ hex_string p)"

text \<open>\<open>ipEmptyString\<close>, \<open>net.JoinHostPort\<close> and the \<open>String\<close> methods of the address types.\<close>

definition ip_empty_string :: "ip \<Rightarrow> string" where
  "ip_empty_string p = (if p = [] then [] else ip_string p)"

definition with_zone :: "ip \<Rightarrow> string \<Rightarrow> string" where
  "with_zone p z = (if z = [] then ip_empty_string p else ip_empty_string p @ ''%'' @ z)"

definition JoinHostPort :: "string \<Rightarrow> nat \<Rightarrow> string" where
  "JoinHostPort h n =
     (if CHR '':'' \<in> set h then ''['' @ h @ '']:'' @ nat_dec n else h @ '':'' @ nat_dec n)"

fun addr_String :: "addr \<Rightarrow> string" where
  "addr_String (IPNet p s) = s"
| "addr_String (IPAddr p z) = with_zone p z"
| "addr_String (TCPAddr p n z) = JoinHostPort (with_zone p z) n"
| "addr_String (UDPAddr p n z) = JoinHostPort (with_zone p z) n"
| "addr_String (OtherAddr s) = s"

text \<open>\<open>mtrAddrToIP\<close>, \<open>mtrPeerIP\<close> and \<open>mtrAddrString\<close> of the \<open>trace\<close> package\<close>

fun mtrAddrToIP :: "addr option \<Rightarrow> ip" where
  "mtrAddrToIP (Some (IPAddr p z)) = p"
| "mtrAddrToIP (Some (UDPAddr p n z)) = p"
| "mtrAddrToIP (Some (TCPAddr p n z)) = p"
| "mtrAddrToIP _ = []"

fun mtrPeerIP :: "addr option \<Rightarrow> ip" where
  "mtrPeerIP (Some (IPAddr p z)) = p"
| "mtrPeerIP (Some (UDPAddr p n z)) = p"
| "mtrPeerIP (Some (TCPAddr p n z)) = p"
| "mtrPeerIP _ = []"

definition mtrAddrString :: "addr option \<Rightarrow> string" where
  "mtrAddrString a =
     (if mtrAddrToIP a \<noteq> [] then ip_string (mtrAddrToIP a)
      else (case a of None \<Rightarrow> [] | Some x \<Rightarrow> addr_String x))"

subsection \<open>Equality of addresses does not depend on their form\<close>

lemma v4InV6Prefix_length [simp]: "length v4InV6Prefix = 12"
  by (simp add: v4InV6Prefix_def)

lemma To16_length: "To16 p \<noteq> [] \<Longrightarrow> length (To16 p) = 16"
  by (auto simp: To16_def split: if_splits)

lemma ip_Equal_iff_To16:
  assumes "length p \<in> {4, 16}" and "length q \<in> {4, 16}"
  shows "ip_Equal p q \<longleftrightarrow> To16 p = To16 q"
proof -
  have "take 12 r = v4InV6Prefix \<and> s = drop 12 r \<longleftrightarrow> v4InV6Prefix @ s = r"
    if "length r = 16" "length s = 4" for r s :: "byte list"
  proof
    assume "take 12 r = v4InV6Prefix \<and> s = drop 12 r"
    then show "v4InV6Prefix @ s = r" by (metis append_take_drop_id)
  next
    assume "v4InV6Prefix @ s = r"
    then show "take 12 r = v4InV6Prefix \<and> s = drop 12 r" by auto
  qed
  with assms show ?thesis unfolding ip_Equal_def To16_def by (simp; metis)
qed

lemma ip_Equal_refl [simp]: "ip_Equal p p"
  by (simp add: ip_Equal_def)

lemma ip_Equal_sym: "ip_Equal p q \<longleftrightarrow> ip_Equal q p"
  by (auto simp: ip_Equal_def)

end
