(* ===== verification/Icmp_Decode.thy ===== *)
theory Icmp_Decode
  imports Ip_Header Net_Addr
begin

unbundle bit_operations_syntax

section \<open>Matching ICMP responses to probes: \<open>trace/internal\<close> and \<open>trace/tcp_match.go\<close>\<close>

text \<open>
  The outer ICMP message is parsed by \<open>golang.org/x/net/icmp\<close>, which is not part of the
  repository: the parser is a parameter \<open>ParseMessage\<close> of the definitions, from the protocol
  number and the bytes to the message or a failure. A message is its type and its typed body.
\<close>

datatype icmp_type =
    V4_EchoReply | V4_DestinationUnreachable | V4_TimeExceeded
  | V6_EchoReply | V6_DestinationUnreachable | V6_PacketTooBig | V6_TimeExceeded
  | Other_type nat

datatype icmp_body =
    Echo nat nat
  | TimeExceeded "byte list"
  | DstUnreach "byte list"
  | PacketTooBig nat "byte list"
  | Other_body

record icmp_message =
  msg_Type :: icmp_type
  msg_Body :: icmp_body

record received_message =
  rm_Peer :: "addr option"
  rm_Msg :: "byte list"
  rm_Err :: bool

definition parseSocketICMPMessage ::
    "(nat \<Rightarrow> byte list \<Rightarrow> icmp_message option) \<Rightarrow> nat \<Rightarrow> byte list \<Rightarrow> icmp_message option" where
  "parseSocketICMPMessage ParseMessage ipVersion raw =
     ParseMessage (if ipVersion = 6 then 58 else 1) raw"

definition isSocketICMPEchoReply :: "nat \<Rightarrow> icmp_message \<Rightarrow> bool" where
  "isSocketICMPEchoReply ipVersion rm =
     (if ipVersion = 4 then msg_Type rm = V4_EchoReply
      else if ipVersion = 6 then msg_Type rm = V6_EchoReply
      else False)"

definition matchSocketICMPEchoReply ::
    "nat \<Rightarrow> icmp_message \<Rightarrow> ip \<Rightarrow> ip \<Rightarrow> nat \<Rightarrow> nat option" where
  "matchSocketICMPEchoReply ipVersion rm peerIP dstIP echoID =
     (if peerIP = [] \<or> \<not> ip_Equal peerIP dstIP then None
      else if \<not> isSocketICMPEchoReply ipVersion rm then None
      else case msg_Body rm of
        Echo eid sq \<Rightarrow> if eid \<noteq> echoID then None else Some sq
      | _ \<Rightarrow> None)"

fun icmpTimeExceededData :: "icmp_body \<Rightarrow> byte list option" where
  "icmpTimeExceededData (TimeExceeded d) = Some d"
| "icmpTimeExceededData _ = None"

fun icmpDstUnreachData :: "icmp_body \<Rightarrow> byte list option" where
  "icmpDstUnreachData (DstUnreach d) = Some d"
| "icmpDstUnreachData _ = None"

fun icmpPacketTooBigData :: "icmp_body \<Rightarrow> byte list option" where
  "icmpPacketTooBigData (PacketTooBig m d) = Some d"
| "icmpPacketTooBigData _ = None"

definition extractSocketICMPv4Body :: "icmp_message \<Rightarrow> byte list option" where
  "extractSocketICMPv4Body rm =
     (case msg_Type rm of
        V4_TimeExceeded \<Rightarrow> icmpTimeExceededData (msg_Body rm)
      | V4_DestinationUnreachable \<Rightarrow> icmpDstUnreachData (msg_Body rm)
      | _ \<Rightarrow> None)"

definition extractSocketICMPv6Body :: "icmp_message \<Rightarrow> byte list option" where
  "extractSocketICMPv6Body rm =
     (case msg_Type rm of
        V6_TimeExceeded \<Rightarrow> icmpTimeExceededData (msg_Body rm)
      | V6_PacketTooBig \<Rightarrow> icmpPacketTooBigData (msg_Body rm)
      | V6_DestinationUnreachable \<Rightarrow> icmpDstUnreachData (msg_Body rm)
      | _ \<Rightarrow> None)"

definition extractSocketICMPErrorBody :: "nat \<Rightarrow> icmp_message \<Rightarrow> byte list option" where
  "extractSocketICMPErrorBody ipVersion rm =
     (if ipVersion = 4 then extractSocketICMPv4Body rm
      else if ipVersion = 6 then extractSocketICMPv6Body rm
      else None)"

definition extractEmbeddedDstIP :: "nat \<Rightarrow> byte list \<Rightarrow> ip option" where
  "extractEmbeddedDstIP ipVersion data =
     (if ipVersion = 4 then
        (if length data < 20 \<or> drop_bit 4 (data ! 0) \<noteq> 4 then None
         else Some (take 4 (drop 16 data)))
      else if ipVersion = 6 then
        (if length data < 40 \<or> drop_bit 4 (data ! 0) \<noteq> 6 then None
         else Some (take 16 (drop 24 data)))
      else None)"

definition matchesEmbeddedDstIP :: "nat \<Rightarrow> byte list \<Rightarrow> ip \<Rightarrow> bool" where
  "matchesEmbeddedDstIP ipVersion data dstIP =
     (case extractEmbeddedDstIP ipVersion data of
        None \<Rightarrow> False
      | Some embeddedDstIP \<Rightarrow> ip_Equal embeddedDstIP dstIP)"

definition extractSocketICMPPayload :: "nat \<Rightarrow> icmp_message \<Rightarrow> ip \<Rightarrow> byte list option" where
  "extractSocketICMPPayload ipVersion rm dstIP =
     (case extractSocketICMPErrorBody ipVersion rm of
        None \<Rightarrow> None
      | Some data \<Rightarrow> if \<not> matchesEmbeddedDstIP ipVersion data dstIP then None else Some data)"

definition extractEmbeddedICMPSeq :: "byte list \<Rightarrow> nat \<Rightarrow> nat option" where
  "extractEmbeddedICMPSeq data echoID =
     (case GetICMPResponsePayload data of
        Inl e \<Rightarrow> None
      | Inr header \<Rightarrow>
          (case GetICMPID header of
             Inl e \<Rightarrow> None
           | Inr i \<Rightarrow>
               if i \<noteq> echoID then None
               else (case GetICMPSeq header of Inl e \<Rightarrow> None | Inr sq \<Rightarrow> Some sq)))"

text \<open>
  \<open>ICMPSpec.decodeICMPSocketMessage\<close> and the identical methods of \<open>TCPSpec\<close> and
  \<open>UDPSpec\<close>; the reception time they also return is read off the clock on entry.
\<close>

definition decodeICMPSocketMessage ::
    "(nat \<Rightarrow> byte list \<Rightarrow> icmp_message option) \<Rightarrow> nat \<Rightarrow> ip \<Rightarrow> nat \<Rightarrow> received_message \<Rightarrow> nat option" where
  "decodeICMPSocketMessage ParseMessage ipVersion dstIP echoID msg =
     (if rm_Err msg then None
      else case parseSocketICMPMessage ParseMessage ipVersion (rm_Msg msg) of
        None \<Rightarrow> None
      | Some rm \<Rightarrow>
          (case matchSocketICMPEchoReply ipVersion rm (AddrIP (rm_Peer msg)) dstIP echoID of
             Some sq \<Rightarrow> Some sq
           | None \<Rightarrow>
               (case extractSocketICMPPayload ipVersion rm dstIP of
                  None \<Rightarrow> None
                | Some data \<Rightarrow> extractEmbeddedICMPSeq data echoID)))"

definition tcp_decodeICMPSocketMessage ::
    "(nat \<Rightarrow> byte list \<Rightarrow> icmp_message option) \<Rightarrow> nat \<Rightarrow> ip \<Rightarrow> received_message \<Rightarrow> byte list option" where
  "tcp_decodeICMPSocketMessage ParseMessage ipVersion dstIP msg =
     (if rm_Err msg then None
      else case parseSocketICMPMessage ParseMessage ipVersion (rm_Msg msg) of
        None \<Rightarrow> None
      | Some rm \<Rightarrow> extractSocketICMPPayload ipVersion rm dstIP)"

definition udp_decodeICMPSocketMessage ::
    "(nat \<Rightarrow> byte list \<Rightarrow> icmp_message option) \<Rightarrow> nat \<Rightarrow> ip \<Rightarrow> received_message \<Rightarrow> byte list option" where
  "udp_decodeICMPSocketMessage ParseMessage ipVersion dstIP msg =
     (if rm_Err msg then None
      else case parseSocketICMPMessage ParseMessage ipVersion (rm_Msg msg) of
        None \<Rightarrow> None
      | Some rm \<Rightarrow> extractSocketICMPPayload ipVersion rm dstIP)"

subsection \<open>TCP replies\<close>

record tcp_layer =
  tcp_SrcPort :: nat
  tcp_DstPort :: nat
  tcp_SYN :: bool
  tcp_ACK :: bool
  tcp_RST :: bool
  tcp_Ack :: "32 word"

text \<open>The pair is (sequence number, acknowledgement); Go's \<open>int\<close> holds the difference exactly.\<close>

definition tcpProbeReply :: "tcp_layer option \<Rightarrow> (int \<times> int) option" where
  "tcpProbeReply t =
     (case t of
        None \<Rightarrow> None
      | Some tcp \<Rightarrow>
          if tcp_ACK tcp \<and> tcp_RST tcp then Some (0, uint (tcp_Ack tcp))
          else if tcp_ACK tcp \<and> tcp_SYN tcp then Some (uint (tcp_Ack tcp) - 1, 0)
          else None)"

definition decodeTCPProbePacket ::
    "int \<Rightarrow> tcp_layer option \<Rightarrow> ip option \<Rightarrow> (nat \<times> int \<times> int \<times> addr) option" where
  "decodeTCPProbePacket dstPort layer peer =
     (case layer of
        None \<Rightarrow> None
      | Some tcp \<Rightarrow>
          if int (tcp_SrcPort tcp) \<noteq> dstPort then None
          else case tcpProbeReply (Some tcp) of
            None \<Rightarrow> None
          | Some (sq, ack) \<Rightarrow>
              (case peer of
                 None \<Rightarrow> None
               | Some p \<Rightarrow> Some (tcp_DstPort tcp, sq, ack, IPAddr p [])))"

record sentInfo =
  si_ttl :: int
  si_i :: int
  si_srcPort :: nat
  si_payloadSize :: int
  si_start :: int

definition tcpReplyAckForProbe :: "int \<Rightarrow> int \<Rightarrow> int" where
  "tcpReplyAckForProbe sq payloadSize =
     uint ((word_of_int sq :: 32 word) + 1 + (word_of_int payloadSize :: 32 word))"

fun lookupTCPSentByAck :: "(int \<times> sentInfo) list \<Rightarrow> nat \<Rightarrow> int \<Rightarrow> (int \<times> int) option" where
  "lookupTCPSentByAck [] srcPort ack = None"
| "lookupTCPSentByAck ((candidateSeq, info) # sentAt) srcPort ack =
     (if si_srcPort info \<noteq> srcPort then lookupTCPSentByAck sentAt srcPort ack
      else if tcpReplyAckForProbe candidateSeq (si_payloadSize info) \<noteq> ack
        then lookupTCPSentByAck sentAt srcPort ack
      else Some (candidateSeq, si_start info))"

subsection \<open>Properties\<close>

text \<open>The ICMP echo request a probe sends, as it comes back quoted: type, code, checksum, identifier, sequence.\<close>

definition echo_request :: "nat \<Rightarrow> nat \<Rightarrow> byte list \<Rightarrow> byte list" where
  "echo_request eid sq rest = [8, 0, 0, 0] @ enc16 eid @ enc16 sq @ rest"

lemma echo_request_fields:
  "eid < 65536 \<Longrightarrow> GetICMPID (echo_request eid sq rest) = Inr eid"
  "sq < 65536 \<Longrightarrow> GetICMPSeq (echo_request eid sq rest) = Inr sq"
  by (simp_all add: GetICMPID_def GetICMPSeq_def echo_request_def enc16_def be16_def)

lemma extractEmbeddedICMPSeq_echo:
  assumes "GetICMPResponsePayload data = Inr (echo_request eid sq rest)" "eid < 65536" "sq < 65536"
  shows "extractEmbeddedICMPSeq data echoID = (if eid = echoID then Some sq else None)"
  using assms by (simp add: extractEmbeddedICMPSeq_def echo_request_fields)

lemma matchesEmbeddedDstIP_ipv4:
  assumes "ipv4_header h ihl proto dst"
  shows "matchesEmbeddedDstIP 4 (h @ p) dst"
proof -
  have "20 \<le> length h" and "take 4 (drop 16 (h @ p)) = dst"
    using assms by (auto simp: ipv4_header_def)
  then show ?thesis
    using GetIPHeaderLength_ipv4(2) [OF assms, of p]
    by (simp add: matchesEmbeddedDstIP_def extractEmbeddedDstIP_def)
qed

text \<open>A router's ICMP time-exceeded message is attributed to the right probe: when it quotes an
  IPv4 echo request to the target, the decoder returns the quoted sequence number if the
  quoted identifier is this tracer's, and drops the message otherwise.\<close>

theorem quoted_echo_v4:
  assumes "ParseMessage 1 raw =
      Some \<lparr>msg_Type = V4_TimeExceeded, msg_Body = TimeExceeded (h @ echo_request eid sq rest)\<rparr>"
    and "ipv4_header h ihl 1 dst" and "eid < 65536" and "sq < 65536"
  shows "decodeICMPSocketMessage ParseMessage 4 dst echoID \<lparr>rm_Peer = peer, rm_Msg = raw, rm_Err = False\<rparr> =
    (if eid = echoID then Some sq else None)"
proof -
  let ?d = "h @ echo_request eid sq rest"
  have "matchesEmbeddedDstIP 4 ?d dst" using assms(2) by (rule matchesEmbeddedDstIP_ipv4)
  moreover have "extractEmbeddedICMPSeq ?d echoID = (if eid = echoID then Some sq else None)"
    by (rule extractEmbeddedICMPSeq_echo [OF GetICMPResponsePayload_ipv4 [OF assms(2)] assms(3,4)])
  ultimately show ?thesis
    using assms(1)
    by (cases "eid = echoID")
      (auto simp: decodeICMPSocketMessage_def parseSocketICMPMessage_def matchSocketICMPEchoReply_def
        isSocketICMPEchoReply_def extractSocketICMPPayload_def extractSocketICMPErrorBody_def
        extractSocketICMPv4Body_def)
qed

theorem quoted_echo_v4_witness:
  "decodeICMPSocketMessage
     (\<lambda>_ _. Some \<lparr>msg_Type = V4_TimeExceeded,
        msg_Body = TimeExceeded ((0x45 # replicate 8 0 @ [1] @ replicate 6 0 @ [192, 0, 2, 1]) @
          echo_request 4660 1281 [])\<rparr>)
     4 [192, 0, 2, 1] 4660 \<lparr>rm_Peer = None, rm_Msg = [11], rm_Err = False\<rparr> = Some 1281"
  by (subst quoted_echo_v4 [where ihl = 5 and eid = 4660 and sq = 1281 and rest = "[]" and
        h = "0x45 # replicate 8 0 @ [1] @ replicate 6 0 @ [192, 0, 2, 1]"])
    (simp_all, code_simp)

lemma lookupTCPSentByAck_unique:
  assumes "(sq, info) \<in> set sentAt" and "si_srcPort info = srcPort"
    and "tcpReplyAckForProbe sq (si_payloadSize info) = ack"
    and "\<forall>(s', i') \<in> set sentAt. si_srcPort i' = srcPort \<longrightarrow>
      tcpReplyAckForProbe s' (si_payloadSize i') = ack \<longrightarrow> (s', i') = (sq, info)"
  shows "lookupTCPSentByAck sentAt srcPort ack = Some (sq, si_start info)"
  using assms by (induction sentAt srcPort ack rule: lookupTCPSentByAck.induct) auto

text \<open>A TCP reset is matched back to the probe that caused it. The target acknowledges the
  probe's sequence number, its SYN and its \<open>n\<close> payload bytes modulo \<open>2^32\<close>; the decoder then
  yields an acknowledgement for which the reverse lookup finds that probe, whatever the
  iteration order of the map, when no other registered probe expects the same one.\<close>

theorem tcp_reset_matched:
  assumes "(sq, info) \<in> set sentAt" and "si_srcPort info = tcp_DstPort tcp"
    and "tcp_ACK tcp" and "tcp_RST tcp" and "tcp_SrcPort tcp = dport"
    and "tcp_Ack tcp = word_of_int (sq + 1 + si_payloadSize info)"
    and "\<forall>(s', i') \<in> set sentAt. si_srcPort i' = si_srcPort info \<longrightarrow>
      tcpReplyAckForProbe s' (si_payloadSize i') = tcpReplyAckForProbe sq (si_payloadSize info) \<longrightarrow>
      (s', i') = (sq, info)"
  shows "\<exists>ack. decodeTCPProbePacket (int dport) (Some tcp) (Some peer) =
      Some (si_srcPort info, 0, ack, IPAddr peer []) \<and>
    lookupTCPSentByAck sentAt (si_srcPort info) ack = Some (sq, si_start info)"
proof -
  have "uint (tcp_Ack tcp) = tcpReplyAckForProbe sq (si_payloadSize info)"
    by (simp add: assms(6) tcpReplyAckForProbe_def)
  moreover have "lookupTCPSentByAck sentAt (si_srcPort info)
      (tcpReplyAckForProbe sq (si_payloadSize info)) = Some (sq, si_start info)"
    using assms(1,7) by (intro lookupTCPSentByAck_unique) auto
  ultimately show ?thesis
    using assms(2-5) by (simp add: decodeTCPProbePacket_def tcpProbeReply_def)
qed

theorem tcp_reset_matched_witness:
  "\<exists>ack. decodeTCPProbePacket 80
       (Some \<lparr>tcp_SrcPort = 80, tcp_DstPort = 40000, tcp_SYN = False, tcp_ACK = True,
          tcp_RST = True, tcp_Ack = 3\<rparr>) (Some [192, 0, 2, 1]) =
     Some (40000, 0, ack, IPAddr [192, 0, 2, 1] []) \<and>
   lookupTCPSentByAck
     [(7, \<lparr>si_ttl = 1, si_i = 0, si_srcPort = 40000, si_payloadSize = 4, si_start = 10\<rparr>),
      (4294967295, \<lparr>si_ttl = 2, si_i = 0, si_srcPort = 40000, si_payloadSize = 3, si_start = 20\<rparr>)]
     40000 ack = Some (4294967295, 20)"
  using tcp_reset_matched
    [where sq = 4294967295 and dport = 80 and peer = "[192, 0, 2, 1]" and
      info = "\<lparr>si_ttl = 2, si_i = 0, si_srcPort = 40000, si_payloadSize = 3, si_start = 20\<rparr>" and
      tcp = "\<lparr>tcp_SrcPort = 80, tcp_DstPort = 40000, tcp_SYN = False, tcp_ACK = True,
          tcp_RST = True, tcp_Ack = 3\<rparr>" and
      sentAt = "[(7, \<lparr>si_ttl = 1, si_i = 0, si_srcPort = 40000, si_payloadSize = 4, si_start = 10\<rparr>),
      (4294967295, \<lparr>si_ttl = 2, si_i = 0, si_srcPort = 40000, si_payloadSize = 3, si_start = 20\<rparr>)]"]
  by (simp add: tcpReplyAckForProbe_def)

end
