(* ===== verification/Mtu_Decode.thy ===== *)
theory Mtu_Decode
  imports Icmp_Decode
begin

unbundle bit_operations_syntax

section \<open>Decoding the answers to path-MTU probes: \<open>trace/mtu/decode.go\<close>\<close>

text \<open>
  The events of a probe (\<open>trace/mtu/types.go\<close>), the parser of the UDP packet an ICMP error
  quotes, and the classification of an ICMP message. As in \<open>Icmp_Decode\<close>, the parser of the
  outer message belongs to \<open>golang.org/x/net\<close> and is the parameter \<open>ParseMessage\<close>.
\<close>

datatype Event =
    EventTimeExceeded | EventPacketTooBig | EventFragNeeded | EventDestination | EventTimeout

record probeResponse =
  resp_Event :: Event
  resp_IP :: ip
  resp_RTT :: int
  resp_PMTU :: int

record embeddedUDPPacket =
  emb_dstIP :: ip
  emb_srcPort :: nat
  emb_dstPort :: nat

definition probePayloadMinLen :: int where
  "probePayloadMinLen = 8"

definition buildProbePayload :: "int \<Rightarrow> byte list" where
  "buildProbePayload n =
     replicate (nat (if n < probePayloadMinLen then probePayloadMinLen else n)) 0"

definition parseEmbeddedUDPFromOffsets :: "byte list \<Rightarrow> nat \<Rightarrow> ip \<Rightarrow> embeddedUDPPacket option" where
  "parseEmbeddedUDPFromOffsets data udpOffset dstIP =
     (if length data < udpOffset + 8 then None
      else Some \<lparr>emb_dstIP = dstIP,
                 emb_srcPort = be16 (drop udpOffset data),
                 emb_dstPort = be16 (drop (udpOffset + 2) data)\<rparr>)"

text \<open>The \<open>for\<close> loop of \<open>parseEmbeddedIPv6UDP\<close>; every turn that continues moves \<open>offset\<close> on
  by at least eight bytes and stays in the packet.\<close>

function parseEmbeddedIPv6_loop :: "ip \<Rightarrow> byte list \<Rightarrow> nat \<Rightarrow> byte \<Rightarrow> embeddedUDPPacket option" where
  "parseEmbeddedIPv6_loop dstIP data offset nextHeader =
     (if nextHeader = 17 then parseEmbeddedUDPFromOffsets data offset dstIP
      else if nextHeader = 0 \<or> nextHeader = 43 \<or> nextHeader = 60 then
        (if length data < offset + 2 then None
         else let hdrLen = (unat (data ! (offset + 1)) + 1) * 8 in
           if hdrLen < 8 \<or> length data < offset + hdrLen then None
           else parseEmbeddedIPv6_loop dstIP data (offset + hdrLen) (data ! offset))
      else if nextHeader = 44 then
        (if length data < offset + 8 then None
         else parseEmbeddedIPv6_loop dstIP data (offset + 8) (data ! offset))
      else if nextHeader = 51 then
        (if length data < offset + 2 then None
         else let hdrLen = (unat (data ! (offset + 1)) + 2) * 4 in
           if hdrLen < 8 \<or> length data < offset + hdrLen then None
           else parseEmbeddedIPv6_loop dstIP data (offset + hdrLen) (data ! offset))
      else None)"
  by pat_completeness auto
termination
  by (relation "measure (\<lambda>(dstIP, data, offset, nextHeader). length data - offset)") auto

declare parseEmbeddedIPv6_loop.simps [simp del]

definition parseEmbeddedIPv6UDP :: "byte list \<Rightarrow> embeddedUDPPacket option" where
  "parseEmbeddedIPv6UDP data =
     parseEmbeddedIPv6_loop (take 16 (drop 24 data)) data 40 (data ! 6)"

definition parseEmbeddedUDPPacket :: "byte list \<Rightarrow> nat \<Rightarrow> embeddedUDPPacket option" where
  "parseEmbeddedUDPPacket data ipVersion =
     (if ipVersion = 4 then
        (if length data < 28 \<or> drop_bit 4 (data ! 0) \<noteq> 4 then None
         else let ihl = unat (data ! 0 AND 0x0F) * 4 in
           if ihl < 20 \<or> length data < ihl + 8 then None
           else if data ! 9 \<noteq> 17 then None
           else parseEmbeddedUDPFromOffsets data ihl (take 4 (drop 16 data)))
      else if ipVersion = 6 then
        (if length data < 48 \<or> drop_bit 4 (data ! 0) \<noteq> 6 then None
         else parseEmbeddedIPv6UDP data)
      else None)"

definition matchesEmbeddedUDP :: "byte list \<Rightarrow> nat \<Rightarrow> ip \<Rightarrow> nat \<Rightarrow> nat \<Rightarrow> bool" where
  "matchesEmbeddedUDP data ipVersion dstIP dstPort srcPort =
     (case parseEmbeddedUDPPacket data ipVersion of
        None \<Rightarrow> False
      | Some packet \<Rightarrow> ip_Equal (emb_dstIP packet) dstIP \<and> emb_srcPort packet = srcPort \<and>
          emb_dstPort packet = dstPort)"

text \<open>The two \<open>switch\<close> statements over the message type: the event, the quoted data and the MTU.\<close>

definition classify_v4 :: "icmp_message \<Rightarrow> byte list \<Rightarrow> ip \<Rightarrow> ip \<Rightarrow> (Event \<times> byte list \<times> int) option" where
  "classify_v4 rm raw peerIP dstIP =
     (case msg_Type rm of
        V4_TimeExceeded \<Rightarrow>
          (case msg_Body rm of TimeExceeded d \<Rightarrow> Some (EventTimeExceeded, d, 0) | _ \<Rightarrow> None)
      | V4_DestinationUnreachable \<Rightarrow>
          (case msg_Body rm of
             DstUnreach d \<Rightarrow>
               if 8 \<le> length raw \<and> raw ! 1 = 4 then Some (EventFragNeeded, d, int (be16 (drop 6 raw)))
               else if peerIP \<noteq> [] \<and> ip_Equal peerIP dstIP then Some (EventDestination, d, 0)
               else None
           | _ \<Rightarrow> None)
      | _ \<Rightarrow> None)"

definition classify_v6 :: "icmp_message \<Rightarrow> ip \<Rightarrow> ip \<Rightarrow> (Event \<times> byte list \<times> int) option" where
  "classify_v6 rm peerIP dstIP =
     (case msg_Type rm of
        V6_TimeExceeded \<Rightarrow>
          (case msg_Body rm of TimeExceeded d \<Rightarrow> Some (EventTimeExceeded, d, 0) | _ \<Rightarrow> None)
      | V6_PacketTooBig \<Rightarrow>
          (case msg_Body rm of PacketTooBig m d \<Rightarrow> Some (EventPacketTooBig, d, int m) | _ \<Rightarrow> None)
      | V6_DestinationUnreachable \<Rightarrow>
          (case msg_Body rm of
             DstUnreach d \<Rightarrow>
               if peerIP = [] \<or> \<not> ip_Equal peerIP dstIP then None else Some (EventDestination, d, 0)
           | _ \<Rightarrow> None)
      | _ \<Rightarrow> None)"

definition parseICMPProbeResult ::
    "(nat \<Rightarrow> byte list \<Rightarrow> icmp_message option) \<Rightarrow> nat \<Rightarrow> byte list \<Rightarrow> ip \<Rightarrow> ip \<Rightarrow> nat \<Rightarrow> nat \<Rightarrow>
     probeResponse option" where
  "parseICMPProbeResult ParseMessage ipVersion raw peerIP dstIP dstPort srcPort =
     (case ParseMessage (if ipVersion = 6 then 58 else 1) raw of
        None \<Rightarrow> None
      | Some rm \<Rightarrow>
          (case (if ipVersion = 4 then classify_v4 rm raw peerIP dstIP
                 else if ipVersion = 6 then classify_v6 rm peerIP dstIP else None) of
             None \<Rightarrow> None
           | Some (event, data, pmtu) \<Rightarrow>
               if \<not> matchesEmbeddedUDP data ipVersion dstIP dstPort srcPort then None
               else Some \<lparr>resp_Event = event, resp_IP = peerIP, resp_RTT = 0, resp_PMTU = pmtu\<rparr>))"

text \<open>\<open>probeDstPort\<close> of \<open>trace/mtu/socket_prober.go\<close>: the port that carries the probe's token.\<close>

definition probeDstPort :: "int \<Rightarrow> 32 word \<Rightarrow> int" where
  "probeDstPort base0 token0 =
     (let base = (if base0 \<le> 0 \<or> 65535 < base0 then 33494 else base0);
          token = (if token0 = 0 then 1 else token0);
          maxOffset = 65535 - base in
      if maxOffset \<le> 0 then base
      else base + uint ((token - 1) mod word_of_int (maxOffset + 1)))"

subsection \<open>The walk meets the contract of header walks\<close>

definition udp_at :: "ip \<Rightarrow> byte list \<Rightarrow> nat \<Rightarrow> byte \<Rightarrow> embeddedUDPPacket option" where
  "udp_at dst data off up = (if up = 17 then parseEmbeddedUDPFromOffsets data off dst else None)"

interpretation udp_walk: ext_walk "parseEmbeddedIPv6_loop dst" "udp_at dst" for dst
proof unfold_locales
  fix up :: byte and off :: nat and data :: "byte list"
  assume "up \<notin> ext_types"
  then show "parseEmbeddedIPv6_loop dst data off up = udp_at dst data off up"
    by (subst parseEmbeddedIPv6_loop.simps) (auto simp: udp_at_def ext_types_def)
next
  fix t n :: byte and b data rest :: "byte list" and off :: nat
  assume wf: "wf_ext (t, b)" and d: "drop off data = n # b @ rest"
  obtain l bs where b: "b = l # bs" using wf by (cases b) auto
  have d': "data ! off = n" "data ! (off + 1) = l" "length data = off + 1 + length b + length rest"
    using drop_nth_simps [of off data n l "bs @ rest"] d by (simp_all add: b)
  consider (opt) "t = 0 \<or> t = 43 \<or> t = 60" and "off + (unat l + 1) * 8 = off + 1 + length b"
    | (frag) "t = 44" and "off + 8 = off + 1 + length b"
    | (auth) "t = 51" and "off + (unat l + 2) * 4 = off + 1 + length b"
    using wf by (auto simp: b split: if_splits)
  then show "parseEmbeddedIPv6_loop dst data off t =
      parseEmbeddedIPv6_loop dst data (off + 1 + length b) n"
  proof cases
    case opt
    then show ?thesis using d'(3) wf_ext_length [OF wf]
      by (subst parseEmbeddedIPv6_loop.simps, simp only: Let_def d'(1,2) opt(2)) auto
  next
    case frag
    then show ?thesis using d'(3) wf_ext_length [OF wf]
      by (subst parseEmbeddedIPv6_loop.simps, simp only: Let_def d'(1,2) frag(2)) auto
  next
    case auth
    then show ?thesis using d'(3) wf_ext_length [OF wf]
      by (subst parseEmbeddedIPv6_loop.simps, simp only: Let_def d'(1,2) auth(2)) auto
  qed
qed

subsection \<open>Properties\<close>

text \<open>The UDP header a probe carries: ports, length, checksum.\<close>

definition udp_header :: "nat \<Rightarrow> nat \<Rightarrow> byte list \<Rightarrow> byte list" where
  "udp_header sport dport rest = enc16 sport @ enc16 dport @ rest"

lemma parse_udp_header:
  assumes "sport < 65536" "dport < 65536" "4 \<le> length rest"
  shows "parseEmbeddedUDPFromOffsets (h @ udp_header sport dport rest) (length h) dst =
    Some \<lparr>emb_dstIP = dst, emb_srcPort = sport, emb_dstPort = dport\<rparr>"
  using assms by (simp add: parseEmbeddedUDPFromOffsets_def udp_header_def enc16_def be16_def)

text \<open>The quoted probe is recognised through any chain of IPv6 extension headers: the parser
  returns the destination address and the ports of the packet that was sent.\<close>

theorem quoted_udp_v6:
  assumes "ipv6_header h (first_type es 17) dst" and "\<forall>e \<in> set es. wf_ext e"
    and "sport < 65536" and "dport < 65536" and "4 \<le> length rest"
  shows "parseEmbeddedUDPPacket (h @ encode_chain es 17 @ udp_header sport dport rest) 6 =
    Some \<lparr>emb_dstIP = dst, emb_srcPort = sport, emb_dstPort = dport\<rparr>"
proof -
  let ?u = "udp_header sport dport rest"
  let ?d = "h @ encode_chain es 17 @ ?u"
  have h: "length h = 40" "drop_bit 4 (?d ! 0) = 6" "?d ! 6 = first_type es 17"
      "take 16 (drop 24 ?d) = dst"
    using assms(1) by (auto simp: ipv6_header_def nth_append)
  have len: "48 \<le> length ?d" using h(1) assms(5) by (simp add: udp_header_def)
  have "parseEmbeddedIPv6_loop dst ?d 40 (first_type es 17) =
      udp_at dst ?d (40 + length (encode_chain es 17)) 17"
    using assms(2) h(1) by (intro udp_walk.walk_chain) (auto simp: ext_types_def)
  also have "\<dots> = parseEmbeddedUDPFromOffsets ((h @ encode_chain es 17) @ ?u)
      (length (h @ encode_chain es 17)) dst"
    using h(1) by (simp add: udp_at_def)
  also have "\<dots> = Some \<lparr>emb_dstIP = dst, emb_srcPort = sport, emb_dstPort = dport\<rparr>"
    using assms(3-5) by (rule parse_udp_header)
  finally have "parseEmbeddedIPv6UDP ?d =
      Some \<lparr>emb_dstIP = dst, emb_srcPort = sport, emb_dstPort = dport\<rparr>"
    by (simp only: parseEmbeddedIPv6UDP_def h)
  then show ?thesis
    using h(2) len by (simp add: parseEmbeddedUDPPacket_def)
qed

theorem quoted_udp_v6_witness:
  "parseEmbeddedUDPPacket
     ((0x60 # replicate 5 0 @ [43] @ replicate 17 0 @ replicate 16 7) @
      encode_chain [(43, 0 # replicate 6 0)] 17 @ udp_header 40000 33494 [0, 8, 0, 0]) 6 =
   Some \<lparr>emb_dstIP = replicate 16 7, emb_srcPort = 40000, emb_dstPort = 33494\<rparr>"
proof (rule quoted_udp_v6)
  show "ipv6_header (0x60 # replicate 5 0 @ [43] @ replicate 17 0 @ replicate 16 7)
      (first_type [(43, 0 # replicate 6 0)] 17) (replicate 16 7)" by code_simp
  show "\<forall>e \<in> set [(43, 0 # replicate 6 0)]. wf_ext e" by simp
qed simp_all

text \<open>Only an answer to this probe is accepted, and an answer is classified by what was
  received: a response is produced exactly when the message is of a known kind and quotes a
  UDP packet with the probe's destination and ports, and a destination event only comes from
  the target itself.\<close>

theorem mtu_response_sound:
  assumes "parseICMPProbeResult ParseMessage ipVersion raw peerIP dstIP dstPort srcPort = Some r"
  shows "(\<exists>data packet. parseEmbeddedUDPPacket data ipVersion = Some packet \<and>
      ip_Equal (emb_dstIP packet) dstIP \<and> emb_srcPort packet = srcPort \<and> emb_dstPort packet = dstPort) \<and>
    resp_Event r \<noteq> EventTimeout \<and> resp_IP r = peerIP \<and>
    (resp_Event r = EventDestination \<longrightarrow> peerIP \<noteq> [] \<and> ip_Equal peerIP dstIP) \<and>
    (resp_Event r = EventFragNeeded \<longrightarrow>
      ipVersion = 4 \<and> raw ! 1 = 4 \<and> resp_PMTU r = int (be16 (drop 6 raw))) \<and>
    (resp_Event r \<notin> {EventFragNeeded, EventPacketTooBig} \<longrightarrow> resp_PMTU r = 0)"
proof -
  obtain rm event data pmtu where c: "(if ipVersion = 4 then classify_v4 rm raw peerIP dstIP
        else if ipVersion = 6 then classify_v6 rm peerIP dstIP else None) = Some (event, data, pmtu)"
    and m: "matchesEmbeddedUDP data ipVersion dstIP dstPort srcPort"
    and r: "r = \<lparr>resp_Event = event, resp_IP = peerIP, resp_RTT = 0, resp_PMTU = pmtu\<rparr>"
    using assms by (auto simp: parseICMPProbeResult_def split: option.splits if_splits)
  from m have "\<exists>data packet. parseEmbeddedUDPPacket data ipVersion = Some packet \<and>
      ip_Equal (emb_dstIP packet) dstIP \<and> emb_srcPort packet = srcPort \<and> emb_dstPort packet = dstPort"
    by (auto simp: matchesEmbeddedUDP_def split: option.splits)
  moreover have "event \<noteq> EventTimeout \<and> (event = EventDestination \<longrightarrow> peerIP \<noteq> [] \<and> ip_Equal peerIP dstIP) \<and>
      (event = EventFragNeeded \<longrightarrow> ipVersion = 4 \<and> raw ! 1 = 4 \<and> pmtu = int (be16 (drop 6 raw))) \<and>
      (event \<notin> {EventFragNeeded, EventPacketTooBig} \<longrightarrow> pmtu = 0)"
    using c by (auto simp: classify_v4_def classify_v6_def
        split: if_splits icmp_type.splits icmp_body.splits)
  ultimately show ?thesis by (simp add: r)
qed

theorem mtu_response_sound_witness:
  "\<exists>r. resp_Event r = EventFragNeeded \<and> resp_PMTU r = 1400 \<and>
     parseICMPProbeResult
       (\<lambda>_ _. Some \<lparr>msg_Type = V4_DestinationUnreachable,
          msg_Body = DstUnreach ((0x45 # replicate 8 0 @ [17] @ replicate 6 0 @ [192, 0, 2, 1]) @
            udp_header 300 400 [0, 8, 0, 0])\<rparr>)
       4 [3, 4, 0, 0, 0, 0, 5, 120] [10, 0, 0, 1] [192, 0, 2, 1] 400 300 = Some r \<and>
     resp_IP r = [10, 0, 0, 1]"
proof -
  let ?r = "\<lparr>resp_Event = EventFragNeeded, resp_IP = [10, 0, 0, 1], resp_RTT = 0, resp_PMTU = 1400\<rparr>"
  have "parseICMPProbeResult
       (\<lambda>_ _. Some \<lparr>msg_Type = V4_DestinationUnreachable,
          msg_Body = DstUnreach ((0x45 # replicate 8 0 @ [17] @ replicate 6 0 @ [192, 0, 2, 1]) @
            udp_header 300 400 [0, 8, 0, 0])\<rparr>)
       4 [3, 4, 0, 0, 0, 0, 5, 120] [10, 0, 0, 1] [192, 0, 2, 1] 400 300 = Some ?r"
    by code_simp
  from this mtu_response_sound [OF this] show ?thesis by (intro exI [of _ ?r]) simp
qed

text \<open>The destination port of a probe is a valid port not below the base, and within one
  window of tokens different probes use different ports, so the quoted port identifies the probe.\<close>

theorem probe_port_injective:
  assumes "0 < base" and "base < 65535" and "token \<noteq> 0" and "token' \<noteq> 0"
    and "uint token \<le> 65536 - base" and "uint token' \<le> 65536 - base"
  shows "base \<le> probeDstPort base token \<and> probeDstPort base token \<le> 65535 \<and>
    (probeDstPort base token = probeDstPort base token' \<longrightarrow> token = token')"
proof -
  have q: "probeDstPort base t = base + (uint t - 1)" if t: "t \<noteq> 0" "uint t \<le> 65536 - base" for t
  proof -
    have "uint (word_of_int (65535 - base + 1) :: 32 word) = 65536 - base"
      using assms(1,2) by (subst uint_of_int_small) auto
    moreover have "0 < uint t" using t(1) by (rule uint_pos)
    ultimately have "uint ((t - 1) mod word_of_int (65535 - base + 1)) = uint t - 1"
      using t by (simp only: uint_mod uint_minus_one [OF t(1)]) simp
    then show ?thesis using assms(1,2) t(1) by (simp only: probeDstPort_def Let_def) simp
  qed
  have "0 < uint token" using assms(3) by (rule uint_pos)
  then show ?thesis using assms q [of token] q [of token']
    by (auto simp: word_uint_eq_iff)
qed

theorem probe_port_injective_witness:
  "33494 \<le> probeDstPort 33494 7 \<and> probeDstPort 33494 7 \<le> 65535 \<and>
   probeDstPort 33494 7 \<noteq> probeDstPort 33494 9"
  using probe_port_injective [of 33494 7 9] by auto

end
