(* ===== verification/Ip_Fragment.thy ===== *)
theory Ip_Fragment
  imports Prelude
begin

unbundle bit_operations_syntax

section \<open>IPv4 fragmentation: \<open>util/frag.go\<close>\<close>

text \<open>
  \<open>ipv4.Header\<close> is a struct of \<open>golang.org/x/net\<close>; the fields \<open>IPv4Fragmentize\<close> touches are
  the fields of the record below, and the others (version, identifier, addresses, options)
  are whatever extends it, which every fragment inherits.
\<close>

record Header =
  Len :: int
  TotalLen :: int
  Flags :: int
  FragOff :: int
  Checksum :: int

definition MoreFragments :: int where
  "MoreFragments = 1"

definition DontFragment :: int where
  "DontFragment = 2"

definition ipOffsetMask :: int where
  "ipOffsetMask = 0x1FFF"

record 'a IPv4Fragment =
  Hdr :: "'a Header_scheme"
  Body :: "byte list"

datatype frag_error = MTU_too_small | DF_set

text \<open>One turn of the loop: the header of the fragment at \<open>off\<close>.\<close>

definition frag_header :: "'a Header_scheme \<Rightarrow> nat \<Rightarrow> nat \<Rightarrow> bool \<Rightarrow> 'a Header_scheme" where
  "frag_header base off fragLen mf =
     (let h = base\<lparr>TotalLen := Len base + int fragLen\<rparr>;
          h = h\<lparr>Flags := Flags h AND NOT MoreFragments\<rparr>;
          h = h\<lparr>FragOff := FragOff h AND NOT ipOffsetMask\<rparr>;
          h = h\<lparr>FragOff := FragOff h OR (int (off div 8) AND ipOffsetMask)\<rparr>;
          h = (if mf then h\<lparr>Flags := Flags h OR MoreFragments\<rparr> else h)
      in h\<lparr>Checksum := 0\<rparr>)"

text \<open>
  The loop. It is entered with \<open>aligned > 0\<close> only: with \<open>aligned = 0\<close> the capacity
  computed before it divides by zero.
\<close>

function frag_loop :: "'a Header_scheme \<Rightarrow> byte list \<Rightarrow> nat \<Rightarrow> nat \<Rightarrow> 'a IPv4Fragment list" where
  "frag_loop base body aligned off =
     (if off < length body \<and> 0 < aligned then
        (let mf = off + aligned < length body;
             fragLen = (if mf then aligned else length body - off)
         in \<lparr>Hdr = frag_header base off fragLen mf, Body = take fragLen (drop off body)\<rparr> #
            frag_loop base body aligned (off + fragLen))
      else [])"
  by pat_completeness auto
termination
  by (relation "measure (\<lambda>(base, body, aligned, off). length body - off)") (auto simp: Let_def)

declare frag_loop.simps [simp del]

definition IPv4Fragmentize ::
    "'a Header_scheme \<Rightarrow> byte list \<Rightarrow> int \<Rightarrow> (frag_error, 'a IPv4Fragment list) res" where
  "IPv4Fragmentize base body mtu =
     (let ihl = Len base in
      if mtu \<le> ihl then Inl (Err MTU_too_small)
      else let maxFragBody = mtu - ihl in
        if Flags base AND DontFragment \<noteq> 0 then Inl (Err DF_set)
        else let aligned = nat (maxFragBody div 8 * 8) in
          if aligned = 0 then Inl Panic
          else Inr (frag_loop base body aligned 0))"

subsection \<open>What one fragment carries\<close>

definition frag_offset :: "'a IPv4Fragment \<Rightarrow> int" where
  "frag_offset f = (FragOff (Hdr f) AND ipOffsetMask) * 8"

lemma frag_header_fields [simp]:
  "Len (frag_header base off n mf) = Len base"
  "TotalLen (frag_header base off n mf) = Len base + int n"
  "Checksum (frag_header base off n mf) = 0"
  "Header.more (frag_header base off n mf) = Header.more base"
  by (simp_all add: frag_header_def Let_def)

lemma mf_bit:
  "(Flags (frag_header base off n mf) AND MoreFragments \<noteq> 0) = mf"
proof -
  have "(x AND - 2) AND 1 = 0" for x :: int by (simp add: and.assoc)
  moreover have "(y OR 1) AND 1 = 1" for y :: int by (rule bit_eqI) (auto simp: bit_simps)
  ultimately show ?thesis by (simp add: frag_header_def MoreFragments_def Let_def)
qed

lemma and_ipOffsetMask: "i AND ipOffsetMask = i mod 8192"
proof -
  have "(ipOffsetMask :: int) = mask 13" by (simp add: ipOffsetMask_def mask_eq_exp_minus_1)
  then have "i AND ipOffsetMask = take_bit 13 i" by (simp only: take_bit_eq_mask)
  then show ?thesis by (simp add: take_bit_eq_mod)
qed

lemma frag_off_bits:
  "FragOff (frag_header base off n mf) AND ipOffsetMask = int (off div 8) AND ipOffsetMask"
  by (auto simp: frag_header_def Let_def bit_eq_iff bit_simps)

lemma frag_offset_header:
  assumes "8 dvd off" and "off < 65536"
  shows "(FragOff (frag_header base off n mf) AND ipOffsetMask) * 8 = int off"
proof -
  have "off div 8 < 8192" using assms(2) by linarith
  then have "int (off div 8) mod 8192 = int (off div 8)" by simp
  then have "FragOff (frag_header base off n mf) AND ipOffsetMask = int (off div 8)"
    by (simp only: frag_off_bits) (simp only: and_ipOffsetMask)
  then show ?thesis using assms(1) by auto
qed

subsection \<open>Invariants of the loop\<close>

lemma frag_loop_body:
  "0 < aligned \<Longrightarrow> concat (map Body (frag_loop base body aligned off)) = drop off body"
proof (induction base body aligned off rule: frag_loop.induct)
  case (1 base body aligned off)
  let ?m = "off + aligned < length body"
  let ?n = "if ?m then aligned else length body - off"
  show ?case
  proof (cases "off < length body")
    case True
    then have "concat (map Body (frag_loop base body aligned (off + ?n))) = drop (off + ?n) body"
      using "1.IH" [of ?m ?n] "1.prems" by simp
    then have "concat (map Body (frag_loop base body aligned off)) =
        take ?n (drop off body) @ drop (?n + off) body"
      using True "1.prems" by (subst frag_loop.simps) (simp add: Let_def add.commute)
    then show ?thesis by (metis append_take_drop_id drop_drop)
  qed (subst frag_loop.simps, simp)
qed

text \<open>What every fragment of the list from \<open>off\<close> on satisfies; the list's last one ends the packet.\<close>

definition frag_ok :: "'a Header_scheme \<Rightarrow> byte list \<Rightarrow> nat \<Rightarrow> 'a IPv4Fragment \<Rightarrow> bool" where
  "frag_ok base body aligned f \<longleftrightarrow>
     Body f \<noteq> [] \<and> length (Body f) \<le> aligned \<and>
     Len (Hdr f) = Len base \<and> TotalLen (Hdr f) = Len base + int (length (Body f)) \<and>
     Checksum (Hdr f) = 0 \<and> Header.more (Hdr f) = Header.more base \<and>
     take (length (Body f)) (drop (nat (frag_offset f)) body) = Body f \<and>
     (if Flags (Hdr f) AND MoreFragments \<noteq> 0
      then length (Body f) = aligned
      else nat (frag_offset f) + length (Body f) = length body)"

lemma frag_loop_ok:
  "0 < aligned \<Longrightarrow> 8 dvd aligned \<Longrightarrow> 8 dvd off \<Longrightarrow> length body \<le> 65536 \<Longrightarrow>
   \<forall>f \<in> set (frag_loop base body aligned off). frag_ok base body aligned f"
proof (induction base body aligned off rule: frag_loop.induct)
  case (1 base body aligned off)
  let ?m = "off + aligned < length body"
  let ?n = "if ?m then aligned else length body - off"
  let ?f = "\<lparr>Hdr = frag_header base off ?n ?m, Body = take ?n (drop off body)\<rparr>"
  show ?case
  proof (cases "off < length body")
    case True
    have rest: "\<forall>f \<in> set (frag_loop base body aligned (off + ?n)). frag_ok base body aligned f"
    proof (cases ?m)
      case True
      then show ?thesis using "1.IH" [of ?m ?n] "1.prems" by simp
    next
      case False
      then show ?thesis using True by (subst frag_loop.simps) simp
    qed
    have "frag_offset ?f = int off"
      using frag_offset_header [of off base ?n ?m] "1.prems" True
      by (simp only: frag_offset_def IPv4Fragment.simps)
    then have "frag_ok base body aligned ?f"
      using True "1.prems" mf_bit [of base off ?n ?m] by (auto simp: frag_ok_def)
    with rest show ?thesis
      using True "1.prems" by (subst frag_loop.simps) (simp add: Let_def)
  next
    case False
    then show ?thesis by (subst frag_loop.simps) simp
  qed
qed

lemma IPv4Fragmentize_Inr:
  assumes "IPv4Fragmentize base body mtu = Inr frags"
  obtains aligned where "0 < aligned" "8 dvd aligned" "Len base + int aligned \<le> mtu"
    "frags = frag_loop base body aligned 0"
proof -
  let ?a = "nat ((mtu - Len base) div 8 * 8)"
  have "0 < ?a" and "frags = frag_loop base body ?a 0" and gt: "Len base < mtu"
    using assms by (auto simp: IPv4Fragmentize_def Let_def split: if_splits)
  moreover have "8 dvd ?a" using gt by (simp add: nat_mult_distrib)
  moreover have "Len base + int ?a \<le> mtu" using gt by simp
  ultimately show ?thesis using that by blast
qed

subsection \<open>Properties\<close>

text \<open>C23. Fragmentation loses nothing: the bodies of the fragments, in order, are the packet's
  body, and no fragment is larger than the MTU.\<close>

theorem fragments_reassemble:
  assumes "IPv4Fragmentize base body mtu = Inr frags" and "length body \<le> 65536"
  shows "concat (map Body frags) = body \<and> (\<forall>f \<in> set frags. TotalLen (Hdr f) \<le> mtu)"
proof -
  from assms(1) obtain a where a: "0 < a" "8 dvd a" "Len base + int a \<le> mtu"
    and frags: "frags = frag_loop base body a 0" by (rule IPv4Fragmentize_Inr)
  have "\<forall>f \<in> set frags. frag_ok base body a f"
    using a assms(2) unfolding frags by (intro frag_loop_ok) auto
  moreover have "concat (map Body frags) = body"
    using a by (simp add: frags frag_loop_body)
  ultimately show ?thesis using a by (auto simp: frag_ok_def)
qed

definition sample_header :: Header where
  "sample_header = \<lparr>Len = 20, TotalLen = 50, Flags = 0, FragOff = 0, Checksum = 99\<rparr>"

lemma sample_fragments:
  "\<exists>frags. IPv4Fragmentize sample_header (replicate 30 7) 45 = Inr frags"
  by (simp add: IPv4Fragmentize_def sample_header_def)

theorem fragments_reassemble_witness:
  "\<exists>frags. IPv4Fragmentize sample_header (replicate 30 7) 45 = Inr frags \<and>
     concat (map Body frags) = replicate 30 7 \<and> list_all (\<lambda>f. TotalLen (Hdr f) \<le> 45) frags"
  using sample_fragments fragments_reassemble [of sample_header "replicate 30 7" 45]
  by (fastforce simp: list_all_iff)

text \<open>A receiver can place every fragment: its offset field times eight is where its bytes
  come from, every fragment with the more-fragments bit carries a full multiple of eight
  bytes, and the one without it ends the packet.\<close>

theorem fragment_offsets:
  assumes "IPv4Fragmentize base body mtu = Inr frags" and "length body \<le> 65536"
    and "f \<in> set frags"
  shows "take (length (Body f)) (drop (nat (frag_offset f)) body) = Body f \<and> Body f \<noteq> [] \<and>
    (if Flags (Hdr f) AND MoreFragments \<noteq> 0 then 8 dvd length (Body f)
     else nat (frag_offset f) + length (Body f) = length body)"
proof -
  from assms(1) obtain a where a: "0 < a" "8 dvd a"
    and frags: "frags = frag_loop base body a 0" by (rule IPv4Fragmentize_Inr)
  have "\<forall>f \<in> set frags. frag_ok base body a f"
    using a assms(2) unfolding frags by (intro frag_loop_ok) auto
  with assms(3) have "frag_ok base body a f" by blast
  with a show ?thesis by (auto simp: frag_ok_def split: if_splits)
qed

theorem fragment_offsets_witness:
  "\<exists>frags f. IPv4Fragmentize sample_header (replicate 30 7) 45 = Inr frags \<and> f \<in> set frags \<and>
     Body f \<noteq> [] \<and> take (length (Body f)) (drop (nat (frag_offset f)) (replicate 30 7)) = Body f"
proof -
  obtain frags where frags: "IPv4Fragmentize sample_header (replicate 30 7) 45 = Inr frags"
    using sample_fragments by blast
  then have "concat (map Body frags) = replicate 30 7"
    by (elim IPv4Fragmentize_Inr) (simp add: frag_loop_body)
  then obtain f where "f \<in> set frags" by (cases frags) auto
  then show ?thesis using fragment_offsets [OF frags, of f] frags by auto
qed

text \<open>The error branches, all of them: an MTU that does not exceed the header, the
  don't-fragment bit, and the one the code does not check, an MTU that leaves fewer than eight
  bytes for the body, which divides by zero.\<close>

theorem fragment_errors:
  "(IPv4Fragmentize base body mtu = Inl (Err MTU_too_small) \<longleftrightarrow> mtu \<le> Len base) \<and>
   (IPv4Fragmentize base body mtu = Inl (Err DF_set) \<longleftrightarrow>
      Len base < mtu \<and> Flags base AND DontFragment \<noteq> 0) \<and>
   (IPv4Fragmentize base body mtu = Inl Panic \<longleftrightarrow>
      Len base < mtu \<and> mtu < Len base + 8 \<and> Flags base AND DontFragment = 0)"
proof -
  have "nat ((mtu - Len base) div 8 * 8) = 0 \<longleftrightarrow> mtu < Len base + 8" if "Len base < mtu"
    using that by (simp add: pos_imp_zdiv_nonneg_iff) linarith
  then show ?thesis by (auto simp: IPv4Fragmentize_def Let_def)
qed

end
