(* ===== verification/Udp_Checksum.thy ===== *)
theory Udp_Checksum
  imports Net_Addr
begin

unbundle bit_operations_syntax

section \<open>Choosing a UDP checksum: \<open>util/util.go\<close>\<close>

text \<open>
  On IPv6 the UDP tracer carries its sequence number in the UDP checksum: it writes a fudge
  word into the first two payload bytes so that the checksum of the datagram becomes the
  number it wants. The code computes in \<open>uint32\<close> and \<open>uint16\<close>, here \<open>32 word\<close> and
  \<open>16 word\<close>.
\<close>

function fold16 :: "32 word \<Rightarrow> 16 word" where
  "fold16 s =
     (if drop_bit 16 s \<noteq> 0 then fold16 ((s AND 0xFFFF) + drop_bit 16 s)
      else ucast (s AND 0xFFFF))"
  by pat_completeness auto

text \<open>One round of folding, on numbers.\<close>

lemma unat_drop16: "unat (drop_bit 16 (s :: 32 word)) = unat s div 65536"
  by (simp add: drop_bit_eq_div unat_div)

lemma unat_and16: "unat (s AND 0xFFFF :: 32 word) = unat s mod 65536"
proof -
  have "(0xFFFF :: 32 word) = mask 16" by (simp add: mask_eq_exp_minus_1)
  then have "s AND 0xFFFF = take_bit 16 s" by (simp only: take_bit_eq_mask)
  then show ?thesis by (simp add: take_bit_eq_mod unat_mod)
qed

lemma unat_fold_step:
  "unat ((s AND 0xFFFF) + drop_bit 16 (s :: 32 word)) = unat s mod 65536 + unat s div 65536"
proof -
  have "unat s < 2 ^ LENGTH(32)" by (rule unsigned_less)
  then have "unat s div 65536 < 65536" by auto
  then show ?thesis
    by (simp add: unat_word_ariths unat_drop16 unat_and16)
qed

termination fold16
proof (relation "measure unat")
  fix s :: "32 word"
  assume "drop_bit 16 s \<noteq> 0"
  then have "0 < unat s div 65536" by (metis unat_drop16 unat_gt_0)
  then have "unat s mod 65536 + unat s div 65536 < unat s"
    using div_mult_mod_eq [of "unat s" 65536] by linarith
  then show "((s AND 0xFFFF) + drop_bit 16 s, s) \<in> measure unat"
    by (simp only: in_measure unat_fold_step)
qed simp

declare fold16.simps [simp del]

fun addBytes :: "32 word \<Rightarrow> byte list \<Rightarrow> 32 word" where
  "addBytes s [] = s"
| "addBytes s [a] = s + push_bit 8 (ucast a)"
| "addBytes s (a # b # data) = addBytes (s + (push_bit 8 (ucast a) OR ucast b)) data"

definition UDPBaseSum :: "ip \<Rightarrow> ip \<Rightarrow> int \<Rightarrow> int \<Rightarrow> int \<Rightarrow> byte list \<Rightarrow> 16 word" where
  "UDPBaseSum srcIP dstIP srcPort dstPort udpLen payload =
     (let s = (if To4 srcIP \<noteq> [] then
                 (let s = addBytes 0 (To4 srcIP);
                      s = addBytes s (To4 dstIP);
                      s = s + 0x0011
                  in s + word_of_int (udpLen AND 0xFFFF))
               else
                 (let s = addBytes 0 (To16 srcIP);
                      s = addBytes s (To16 dstIP);
                      uLen = (word_of_int udpLen :: 32 word);
                      s = s + (drop_bit 16 uLen AND 0xFFFF);
                      s = s + (uLen AND 0xFFFF)
                  in s + 0x0011));
          s = s + word_of_int (srcPort AND 0xFFFF);
          s = s + word_of_int (dstPort AND 0xFFFF);
          s = s + word_of_int (udpLen AND 0xFFFF)
      in fold16 (addBytes s payload))"

definition FudgeWordForSeq :: "16 word \<Rightarrow> 16 word \<Rightarrow> 16 word" where
  "FudgeWordForSeq S0 targetChecksum =
     (let targetSum = NOT targetChecksum;
          x = (ucast targetSum :: 32 word) + ucast (NOT S0)
      in fold16 x)"

datatype checksum_error = Payload_too_short | IP_version_mismatch

text \<open>The payload is modified in place; the model returns it.\<close>

definition MakePayloadWithTargetChecksum ::
    "byte list \<Rightarrow> ip \<Rightarrow> ip \<Rightarrow> int \<Rightarrow> int \<Rightarrow> 16 word \<Rightarrow> (checksum_error, byte list) res" where
  "MakePayloadWithTargetChecksum payload srcIP dstIP srcPort dstPort targetChecksum =
     (if length payload < 2 then Inl (Err Payload_too_short)
      else if (To4 srcIP = []) \<noteq> (To4 dstIP = []) then Inl (Err IP_version_mismatch)
      else let payload = payload[0 := 0, 1 := 0];
               udpLen = 8 + int (length payload);
               S0 = UDPBaseSum srcIP dstIP srcPort dstPort udpLen payload;
               fudge = FudgeWordForSeq S0 targetChecksum
           in Inr (payload[0 := ucast (drop_bit 8 fudge), 1 := ucast fudge]))"

subsection \<open>One's complement sums as numbers\<close>

text \<open>The one's complement value of a sum: zero only for zero, otherwise between 1 and 65535.\<close>

definition oc :: "nat \<Rightarrow> nat" where
  "oc n = (if n = 0 then 0 else Suc ((n - 1) mod 65535))"

lemma oc_le: "oc n \<le> 65535"
  by (simp add: oc_def Suc_le_eq)

lemma oc_small: "n \<le> 65535 \<Longrightarrow> oc n = n"
  by (simp add: oc_def)

lemma oc_cong: "n mod 65535 = m mod 65535 \<Longrightarrow> 0 < n \<Longrightarrow> 0 < m \<Longrightarrow> oc n = oc m"
proof -
  assume h: "n mod 65535 = m mod 65535" "0 < n" "0 < m"
  obtain n' m' where n: "n = Suc n'" and m: "m = Suc m'"
    using h(2,3) by (metis gr0_implies_Suc)
  have "(int n - 1) mod 65535 = (int m - 1) mod 65535"
    using arg_cong [OF h(1), of int] by (intro mod_diff_cong) (simp_all add: zmod_int)
  then have "int (n' mod 65535) = int (m' mod 65535)" by (simp add: n m zmod_int)
  then show ?thesis by (simp only: of_nat_eq_iff) (simp add: oc_def n m)
qed

lemma oc_mod: "oc n mod 65535 = n mod 65535"
proof (cases n)
  case (Suc m)
  have "Suc (m mod 65535) mod 65535 = Suc m mod 65535" by (rule mod_Suc_eq)
  then show ?thesis by (simp add: oc_def Suc)
qed (simp add: oc_def)

lemma oc_fold: "oc (n mod 65536 + n div 65536) = oc n"
proof (cases "n = 0")
  case False
  have "n = (n div 65536) * 65535 + (n mod 65536 + n div 65536)"
    using div_mult_mod_eq [of n 65536] by linarith
  then have "n mod 65535 = (n mod 65536 + n div 65536) mod 65535"
    by (metis mod_mult_self3)
  moreover have "0 < n mod 65536 + n div 65536"
    using False by (metis add_is_0 gr0I div_mult_mod_eq mult_0)
  ultimately show ?thesis using False by (intro oc_cong) auto
qed simp

lemma unat_fold16: "unat (fold16 s) = oc (unat s)"
proof (induction s rule: fold16.induct)
  case (1 s)
  show ?case
  proof (cases "drop_bit 16 s = 0")
    case True
    then have d: "unat s div 65536 = 0" by (metis unat_0 unat_drop16)
    then have "unat (s AND 0xFFFF) = unat s" by (simp add: unat_and16)
    moreover have "unat (ucast (s AND 0xFFFF) :: 16 word) = unat (s AND 0xFFFF)"
      by (simp add: unat_and16 unsigned_ucast_eq take_bit_eq_mod)
    ultimately show ?thesis
      using True d by (subst fold16.simps) (simp add: oc_small)
  next
    case False
    then show ?thesis
      using "1.IH" by (subst fold16.simps) (simp only: unat_fold_step oc_fold if_True not_False_eq_True)
  qed
qed

text \<open>The 16-bit big-endian words of a byte string, an odd last byte padded with zero.\<close>

fun sum16 :: "byte list \<Rightarrow> nat" where
  "sum16 [] = 0"
| "sum16 [a] = unat a * 256"
| "sum16 (a # b # data) = unat a * 256 + unat b + sum16 data"

lemma byte_pair: "push_bit 8 (ucast a) OR ucast b = (word_of_nat (unat a * 256 + unat b) :: 32 word)"
  for a b :: byte
proof -
  have "\<not> bit (push_bit 8 (ucast a) :: 32 word) n \<or> \<not> bit (ucast b :: 32 word) n" for n
    by (auto simp: bit_simps dest: bit_imp_le_length)
  then have "push_bit 8 (ucast a) OR ucast b = push_bit 8 (ucast a) + (ucast b :: 32 word)"
    by (intro disjunctive_add [symmetric]) auto
  then show ?thesis by (simp add: push_bit_eq_mult)
qed

lemma addBytes_sum16: "addBytes s data = s + word_of_nat (sum16 data)"
proof (induction s data rule: addBytes.induct)
  case (2 s a)
  show ?case by (simp add: push_bit_eq_mult)
next
  case (3 s a b data)
  then show ?case by (simp add: byte_pair)
qed simp

lemma sum16_le: "sum16 d \<le> 65535 * ((length d + 1) div 2)"
proof (induction d rule: sum16.induct)
  case (2 a)
  have "unat a * 256 \<le> 65535" using unat_byte_less [of a] by linarith
  then show ?case by simp
next
  case (3 a b data)
  moreover have "unat a * 256 + unat b \<le> 65535"
    using unat_byte_less [of a] unat_byte_less [of b] by linarith
  ultimately show ?case by simp
qed simp

lemma sum16_append: "even (length xs) \<Longrightarrow> sum16 (xs @ ys) = sum16 xs + sum16 ys"
  by (induction xs rule: sum16.induct) auto

lemma sum16_enc16 [simp]: "n < 65536 \<Longrightarrow> sum16 (enc16 n @ d) = n + sum16 d"
  by (simp add: enc16_def)

lemma sum16_enc16_only [simp]: "n < 65536 \<Longrightarrow> sum16 (enc16 n) = n"
  using sum16_enc16 [of n "[]"] by (simp del: sum16_enc16)

subsection \<open>The checksum a receiver verifies\<close>

text \<open>
  What RFC 768 and RFC 8200 sum up: the pseudo header, the UDP header with a zero checksum
  field, and the payload. The checksum is the complement of the one's complement sum.
\<close>

definition udp_segment :: "ip \<Rightarrow> ip \<Rightarrow> nat \<Rightarrow> nat \<Rightarrow> byte list \<Rightarrow> byte list" where
  "udp_segment src dst sport dport payload =
     (let n = 8 + length payload in
      (if length src = 4 then src @ dst @ [0, 17] @ enc16 n
       else src @ dst @ [0, 0] @ enc16 n @ [0, 0, 0, 17]) @
      enc16 sport @ enc16 dport @ enc16 n @ [0, 0] @ payload)"

definition udp_checksum :: "byte list \<Rightarrow> nat" where
  "udp_checksum seg = 65535 - oc (sum16 seg)"

definition same_family :: "ip \<Rightarrow> ip \<Rightarrow> bool" where
  "same_family src dst \<longleftrightarrow>
     length src = 4 \<and> length dst = 4 \<or>
     length src = 16 \<and> length dst = 16 \<and> To4 src = [] \<and> To4 dst = []"

lemma sum16_segment:
  assumes "same_family src dst" "sport < 65536" "dport < 65536" "length payload < 65528"
  shows "sum16 (udp_segment src dst sport dport payload) =
    sum16 src + sum16 dst + 17 + 2 * (8 + length payload) + sport + dport + sum16 payload"
  using assms by (auto simp: udp_segment_def same_family_def Let_def sum16_append)

lemma sum16_segment_bound:
  assumes "same_family src dst" "sport < 65536" "dport < 65536" "length payload < 65528"
  shows "sum16 (udp_segment src dst sport dport payload) < 4294967296"
proof -
  have "length src \<le> 16" "length dst \<le> 16" using assms(1) by (auto simp: same_family_def)
  then have "(length src + 1) div 2 \<le> 8" "(length dst + 1) div 2 \<le> 8" by linarith+
  moreover have "(length payload + 1) div 2 \<le> 32764" using assms(4) by linarith
  ultimately have "sum16 src + sum16 dst + sum16 payload \<le> 2148237300"
    using sum16_le [of src] sum16_le [of dst] sum16_le [of payload] by linarith
  moreover have "2 * (8 + length payload) \<le> 131072" "sport + dport \<le> 131072"
    using assms(2-4) by auto
  ultimately show ?thesis unfolding sum16_segment [OF assms] by simp
qed

lemma and_FFFF: "0 \<le> i \<Longrightarrow> i < 65536 \<Longrightarrow> i AND 0xFFFF = (i :: int)"
proof -
  have "(0xFFFF :: int) = mask 16" by (simp add: mask_eq_exp_minus_1)
  then have "i AND 0xFFFF = take_bit 16 i" by (simp only: take_bit_eq_mask)
  then show "0 \<le> i \<Longrightarrow> i < 65536 \<Longrightarrow> ?thesis" by (simp add: take_bit_int_eq_self)
qed

lemma word_low16:
  assumes "n < 65536"
  shows "drop_bit 16 (word_of_nat n :: 32 word) = 0"
    and "(word_of_nat n :: 32 word) AND 0xFFFF = word_of_nat n"
proof -
  have n: "unat (word_of_nat n :: 32 word) = n" using assms by (simp add: unat_of_nat)
  show "drop_bit 16 (word_of_nat n :: 32 word) = 0"
    using assms by (simp add: unat_eq_zero [symmetric] unat_drop16 n del: unat_eq_zero)
  show "(word_of_nat n :: 32 word) AND 0xFFFF = word_of_nat n"
    by (rule word_unat_eq_iff [THEN iffD2], unfold unat_and16 n) (use assms in simp)
qed

lemma UDPBaseSum_spec:
  assumes "same_family src dst" "sport < 65536" "dport < 65536" "length payload < 65528"
  shows "unat (UDPBaseSum src dst (int sport) (int dport) (8 + int (length payload)) payload) =
    oc (sum16 (udp_segment src dst sport dport payload))"
proof -
  let ?n = "8 + length payload" and ?t = "sum16 (udp_segment src dst sport dport payload)"
  have n: "8 + int (length payload) = int ?n" by simp
  have a: "(8 + int (length payload)) AND 0xFFFF = int ?n" "int sport AND 0xFFFF = int sport"
      "int dport AND 0xFFFF = int dport"
    using assms by (simp_all only: n) (auto intro!: and_FFFF)
  have w: "drop_bit 16 (word_of_nat ?n :: 32 word) = 0"
      "(word_of_nat ?n :: 32 word) AND 0xFFFF = word_of_nat ?n"
    using assms(4) by (intro word_low16; simp)+
  have u: "(word_of_int (8 + int (length payload)) :: 32 word) = word_of_nat ?n"
    by (simp only: n of_int_of_nat_eq)
  have "UDPBaseSum src dst (int sport) (int dport) (8 + int (length payload)) payload =
      fold16 (word_of_nat ?t)"
  proof (cases "length src = 4")
    case True
    then have "To4 src = src" "To4 dst = dst" "src \<noteq> []"
      using assms(1) by (auto simp: same_family_def To4_def)
    then show ?thesis
      unfolding UDPBaseSum_def Let_def sum16_segment [OF assms] a addBytes_sum16
      by (simp add: algebra_simps)
  next
    case False
    then have "To4 src = []" "To16 src = src" "To16 dst = dst"
      using assms(1) by (auto simp: same_family_def To16_def)
    then show ?thesis
      unfolding UDPBaseSum_def Let_def sum16_segment [OF assms] a u w addBytes_sum16
      by (simp add: algebra_simps)
  qed
  moreover have "unat (word_of_nat ?t :: 32 word) = ?t"
    using sum16_segment_bound [OF assms] by (simp add: unat_of_nat)
  ultimately show ?thesis by (simp add: unat_fold16)
qed

lemma unat_not16: "unat (NOT w :: 16 word) = 65535 - unat w"
proof -
  have "NOT w = 0xFFFF - w" by (simp add: not_eq_complement)
  moreover have "w \<le> 0xFFFF"
    using unsigned_less [of w, where 'a = nat] by (simp add: word_le_nat_alt)
  ultimately show ?thesis by (simp add: unat_sub)
qed

lemma unat_FudgeWordForSeq:
  "unat (FudgeWordForSeq s c) = oc ((65535 - unat c) + (65535 - unat s))"
proof -
  have "unat ((ucast (NOT c) :: 32 word) + ucast (NOT s)) = (65535 - unat c) + (65535 - unat s)"
    by (simp add: unat_word_ariths unsigned_ucast_eq take_bit_eq_mod unat_not16)
  then show ?thesis by (simp add: FudgeWordForSeq_def Let_def unat_fold16)
qed

text \<open>The receiver's sum once the fudge word \<open>f\<close> makes the total congruent to \<open>- c\<close>.\<close>

lemma oc_fudged:
  assumes "0 < t" "c \<le> 65535"
  shows "65535 - oc (t + oc ((65535 - c) + (65535 - oc t))) = (if c = 65535 then 0 else c)"
proof -
  let ?f = "oc ((65535 - c) + (65535 - oc t))"
  have "(t + ?f) mod 65535 = (oc t + ((65535 - c) + (65535 - oc t))) mod 65535"
    by (rule mod_add_cong) (simp_all add: oc_mod)
  also have "oc t + ((65535 - c) + (65535 - oc t)) = (65535 - c) + 65535"
    using oc_le [of t] by simp
  finally have m: "(t + ?f) mod 65535 = (65535 - c) mod 65535" by simp
  show ?thesis
  proof (cases "c = 65535")
    case True
    then have "oc (t + ?f) = oc 65535" using m assms(1) by (intro oc_cong) auto
    then show ?thesis using True by (simp add: oc_small)
  next
    case False
    then have "oc (t + ?f) = oc (65535 - c)" using m assms by (intro oc_cong) auto
    then show ?thesis using False assms(2) by (simp add: oc_small)
  qed
qed

lemma first_word_sum16:
  assumes "2 \<le> length p"
  shows "sum16 (p[0 := 0, 1 := 0, 0 := ucast (drop_bit 8 f), 1 := ucast (f :: 16 word)]) =
    unat f + sum16 (p[0 := 0, 1 := 0])"
proof -
  obtain a b q where p: "p = a # b # q"
    using assms by (cases p; cases "tl p") auto
  have "unat (ucast (drop_bit 8 f) :: byte) * 256 + unat (ucast f :: byte) = unat f"
  proof -
    have "unat f < 65536" using unsigned_less [of f, where 'a = nat] by simp
    then have "unat f div 256 mod 256 = unat f div 256" by simp
    then show ?thesis
      by (simp add: unsigned_ucast_eq take_bit_eq_mod drop_bit_eq_div unat_div)
  qed
  then show ?thesis by (simp add: p)
qed

lemma steered_checksum:
  assumes "same_family src dst" "sport < 65536" "dport < 65536"
    "2 \<le> length payload" "length payload < 65528"
  shows "\<exists>p. MakePayloadWithTargetChecksum payload src dst (int sport) (int dport) c = Inr p \<and>
    length p = length payload \<and> drop 2 p = drop 2 payload \<and>
    udp_checksum (udp_segment src dst sport dport p) = (if c = 0xFFFF then 0 else unat c)"
proof -
  let ?p0 = "payload[0 := 0, 1 := 0]"
  let ?t = "sum16 (udp_segment src dst sport dport ?p0)"
  define f where "f = FudgeWordForSeq
      (UDPBaseSum src dst (int sport) (int dport) (8 + int (length payload)) ?p0) c"
  define p where "p = ?p0[0 := ucast (drop_bit 8 f), 1 := ucast f]"
  have len: "length p = length payload" by (simp add: p_def)
  have base: "unat (UDPBaseSum src dst (int sport) (int dport) (8 + int (length payload)) ?p0) = oc ?t"
    using UDPBaseSum_spec [of src dst sport dport ?p0] assms by simp
  have f: "unat f = oc ((65535 - unat c) + (65535 - oc ?t))"
    by (simp only: f_def unat_FudgeWordForSeq base)
  have fam: "(To4 src = []) = (To4 dst = [])"
    using assms(1) by (auto simp: same_family_def To4_def)
  have ok: "MakePayloadWithTargetChecksum payload src dst (int sport) (int dport) c = Inr p"
    using assms(4) fam
    by (simp add: MakePayloadWithTargetChecksum_def Let_def p_def f_def)
  have "sum16 p = unat f + sum16 ?p0"
    unfolding p_def by (rule first_word_sum16 [OF assms(4)])
  then have "sum16 (udp_segment src dst sport dport p) = ?t + unat f"
    using sum16_segment [of src dst sport dport p] sum16_segment [of src dst sport dport ?p0] assms
    by (simp add: len)
  moreover have "0 < ?t"
    using sum16_segment [of src dst sport dport ?p0] assms by simp
  moreover have "unat c \<le> 65535" using unsigned_less [of c, where 'a = nat] by simp
  ultimately have "udp_checksum (udp_segment src dst sport dport p) =
      (if unat c = 65535 then 0 else unat c)"
    unfolding udp_checksum_def by (simp only: f) (rule oc_fudged)
  moreover have "(unat c = 65535) = (c = 0xFFFF)" by (simp add: word_unat_eq_iff)
  moreover have "drop 2 p = drop 2 payload" by (simp add: p_def)
  ultimately show ?thesis using ok len by (intro exI [of _ p]) simp
qed

text \<open>C24. When the payload has room for the fudge word and the two addresses are of one
  family, \<open>MakePayloadWithTargetChecksum\<close> succeeds, changes no byte beyond the first two, and
  the datagram with the returned payload carries the requested checksum, with one exception the
  one's complement arithmetic forces: for the target 0xFFFF the datagram's checksum is 0.\<close>

theorem target_checksum:
  assumes "same_family src dst" "sport < 65536" "dport < 65536"
    "2 \<le> length payload" "length payload < 65528"
  shows "\<exists>p. MakePayloadWithTargetChecksum payload src dst (int sport) (int dport) c = Inr p \<and>
    length p = length payload \<and> drop 2 p = drop 2 payload \<and>
    udp_checksum (udp_segment src dst sport dport p) = (if c = 0xFFFF then 0 else unat c)"
  by (rule steered_checksum [OF assms])

theorem target_checksum_witness:
  "\<exists>p. MakePayloadWithTargetChecksum [1, 2, 3] [10,0,0,1] [10,0,0,2] (int 300) (int 400) 7 = Inr p \<and>
    length p = length [1, 2, 3 :: byte] \<and> drop 2 p = drop 2 [1, 2, 3] \<and>
    udp_checksum (udp_segment [10,0,0,1] [10,0,0,2] 300 400 p) =
      (if (7 :: 16 word) = 0xFFFF then 0 else unat (7 :: 16 word))"
  by (rule target_checksum) (simp_all add: same_family_def)

end
