(* ===== verification/Trace_Config.thy ===== *)
theory Trace_Config
  imports Net_Addr Complex_Main
begin

section \<open>Configuration, hops and their defaults: \<open>trace/trace.go\<close>\<close>

text \<open>
  The data the tracers share: \<open>ipgeo.IPGeoData\<close>, \<open>Hop\<close> and \<open>Config\<close>, and the functions that
  normalise a configuration before a trace starts. Durations are nanoseconds, as in Go's
  \<open>time.Duration\<close>. Pointers to \<open>IPGeoData\<close> are options (\<open>nil\<close> is \<open>None\<close>). The geo source is a
  function value; a call to it is indexed by its number, since a network service may answer
  the same question differently the next time.
\<close>

record geo_data =
  geo_IP :: string
  Asnumber :: string
  Country :: string
  CountryEn :: string
  Prov :: string
  ProvEn :: string
  City :: string
  CityEn :: string
  District :: string
  Owner :: string
  Isp :: string
  Domain :: string
  Whois :: string
  Lat :: real
  Lng :: real
  Prefix :: string
  Router :: "(string \<times> string list) list"
  Source :: string

definition empty_geo :: geo_data where
  "empty_geo = \<lparr>geo_IP = [], Asnumber = [], Country = [], CountryEn = [], Prov = [], ProvEn = [],
     City = [], CityEn = [], District = [], Owner = [], Isp = [], Domain = [], Whois = [],
     Lat = 0, Lng = 0, Prefix = [], Router = [], Source = []\<rparr>"

type_synonym geo_source = "nat \<Rightarrow> string \<Rightarrow> int \<Rightarrow> string \<Rightarrow> bool \<Rightarrow> string + geo_data option"

datatype hop_error = HopTimeout | OtherError string

record hop =
  Success :: bool
  Address :: "addr option"
  Hostname :: string
  TTL :: int
  RTT :: int
  Error :: "hop_error option"
  Geo :: "geo_data option"
  Lang :: string
  MPLS :: "string list"

text \<open>The fields of \<open>Config\<close> that the modelled code reads; the printers are callbacks into the
  front ends.\<close>

record Config =
  ICMPMode :: int
  SourceDevice :: string
  BeginHop :: int
  MaxHops :: int
  NumMeasurements :: int
  MaxAttempts :: int
  ParallelRequests :: int
  Timeout :: int
  DstIP :: ip
  DstPort :: int
  IPGeoSource :: "geo_source option"
  GeoLookupOffset :: int
  RDNS :: bool
  AlwaysWaitRDNS :: bool
  cfg_Lang :: string
  DN42 :: bool
  PktSize :: int
  RandomPacketSize :: bool
  Maptrace :: bool
  DisableMPLS :: bool

text \<open>The package variables of \<open>util\<close> that the environment sets.\<close>

record env =
  EnvICMPMode :: int
  EnvMaxAttempts :: int
  SrcDev :: string

subsection \<open>Pending and timed-out geo data\<close>

definition PendingGeoSource :: string where "PendingGeoSource = ''pending''"

definition timeoutGeoSource :: string where "timeoutGeoSource = ''timeout''"

definition isPendingGeo :: "geo_data option \<Rightarrow> bool" where
  "isPendingGeo geo = (case geo of None \<Rightarrow> False | Some g \<Rightarrow> Source g = PendingGeoSource)"

definition pendingGeo :: geo_data where
  "pendingGeo = empty_geo\<lparr>Source := PendingGeoSource\<rparr>"

text \<open>The Chinese name in \<open>timeoutGeo\<close>, as the UTF-8 bytes of the Go literal.\<close>

definition network_error_zh :: string where
  "network_error_zh = map char_of
     [0xE7, 0xBD, 0x91, 0xE7, 0xBB, 0x9C, 0xE6, 0x95, 0x85, 0xE9, 0x9A, 0x9C :: nat]"

definition timeoutGeo :: geo_data where
  "timeoutGeo = empty_geo\<lparr>Country := network_error_zh, CountryEn := ''Network Error'',
     Source := timeoutGeoSource\<rparr>"

lemma pending_not_timeout [simp]:
  "isPendingGeo (Some pendingGeo)" "\<not> isPendingGeo (Some timeoutGeo)" "\<not> isPendingGeo None"
  by (simp_all add: isPendingGeo_def pendingGeo_def timeoutGeo_def PendingGeoSource_def
      timeoutGeoSource_def)

subsection \<open>Defaults\<close>

definition applyTracerouteDefaults :: "Config \<Rightarrow> Config" where
  "applyTracerouteDefaults config =
     (let config = (if MaxHops config = 0 then config\<lparr>MaxHops := 30\<rparr> else config);
          config = (if NumMeasurements config = 0 then config\<lparr>NumMeasurements := 3\<rparr> else config)
      in if ParallelRequests config = 0
         then config\<lparr>ParallelRequests := NumMeasurements config * 5\<rparr> else config)"

definition normalizeICMPMode :: "env \<Rightarrow> Config \<Rightarrow> Config" where
  "normalizeICMPMode e config =
     (let config = (if ICMPMode config \<le> 0 \<and> 0 < EnvICMPMode e
                    then config\<lparr>ICMPMode := EnvICMPMode e\<rparr> else config)
      in if ICMPMode config \<in> {0, 1, 2} then config else config\<lparr>ICMPMode := 0\<rparr>)"

definition deriveMaxAttempts :: "env \<Rightarrow> Config \<Rightarrow> Config" where
  "deriveMaxAttempts e config =
     (let config = (if MaxAttempts config \<le> 0 \<and> 0 < EnvMaxAttempts e
                    then config\<lparr>MaxAttempts := EnvMaxAttempts e\<rparr> else config)
      in if 0 < MaxAttempts config \<and> NumMeasurements config \<le> MaxAttempts config then config
         else let n = NumMeasurements config in
           if n \<le> 2 \<or> 10 \<le> n then config\<lparr>MaxAttempts := n\<rparr>
           else if n \<le> 6 then config\<lparr>MaxAttempts := n + 3\<rparr>
           else config\<lparr>MaxAttempts := 10\<rparr>)"

definition normalizeRuntimeConfig :: "env \<Rightarrow> Config \<Rightarrow> Config" where
  "normalizeRuntimeConfig e config =
     (if SourceDevice config = [] \<and> SrcDev e \<noteq> [] then config\<lparr>SourceDevice := SrcDev e\<rparr> else config)"

datatype Method = ICMPTrace | UDPTrace | TCPTrace | OtherMethod string

datatype tracer = ICMPTracer | ICMPTracerv6 | UDPTracer | UDPTracerIPv6 | TCPTracer | TCPTracerIPv6

fun selectTracer :: "Method \<Rightarrow> Config \<Rightarrow> tracer option" where
  "selectTracer ICMPTrace c = Some (if To4 (DstIP c) \<noteq> [] then ICMPTracer else ICMPTracerv6)"
| "selectTracer UDPTrace c = Some (if To4 (DstIP c) \<noteq> [] then UDPTracer else UDPTracerIPv6)"
| "selectTracer TCPTrace c = Some (if To4 (DstIP c) \<noteq> [] then TCPTracer else TCPTracerIPv6)"
| "selectTracer (OtherMethod m) c = None"

text \<open>What \<open>Traceroute\<close> does to the configuration before it selects the tracer.\<close>

definition prepared :: "env \<Rightarrow> Config \<Rightarrow> Config" where
  "prepared e config =
     deriveMaxAttempts e (normalizeICMPMode e (applyTracerouteDefaults (normalizeRuntimeConfig e config)))"

text \<open>The configurations a trace can start with; every stage leaves them alone and establishes
  its own part of them.\<close>

definition ready :: "env \<Rightarrow> Config \<Rightarrow> bool" where
  "ready e c \<longleftrightarrow> 0 < MaxHops c \<and> 0 < NumMeasurements c \<and> 0 < ParallelRequests c \<and>
     ICMPMode c \<in> {0, 1, 2} \<and> NumMeasurements c \<le> MaxAttempts c \<and>
     (SourceDevice c = [] \<longrightarrow> SrcDev e = []) \<and>
     (ICMPMode c = 0 \<longrightarrow> EnvICMPMode e \<le> 0 \<or> EnvICMPMode e \<notin> {0, 1, 2})"

lemma deriveMaxAttempts_frame [simp]:
  "MaxHops (deriveMaxAttempts e c) = MaxHops c"
  "NumMeasurements (deriveMaxAttempts e c) = NumMeasurements c"
  "ParallelRequests (deriveMaxAttempts e c) = ParallelRequests c"
  "ICMPMode (deriveMaxAttempts e c) = ICMPMode c"
  "SourceDevice (deriveMaxAttempts e c) = SourceDevice c"
  by (simp_all add: deriveMaxAttempts_def Let_def)

lemma deriveMaxAttempts_ge:
  "NumMeasurements c \<le> MaxAttempts (deriveMaxAttempts e c)"
  by (simp add: deriveMaxAttempts_def Let_def)

lemma normalizeICMPMode_frame [simp]:
  "MaxHops (normalizeICMPMode e c) = MaxHops c"
  "NumMeasurements (normalizeICMPMode e c) = NumMeasurements c"
  "ParallelRequests (normalizeICMPMode e c) = ParallelRequests c"
  "SourceDevice (normalizeICMPMode e c) = SourceDevice c"
  by (simp_all add: normalizeICMPMode_def Let_def)

lemma normalizeICMPMode_mode:
  "ICMPMode (normalizeICMPMode e c) \<in> {0, 1, 2}"
  "ICMPMode c \<le> 2 \<Longrightarrow> ICMPMode (normalizeICMPMode e c) = 0 \<Longrightarrow>
     EnvICMPMode e \<le> 0 \<or> EnvICMPMode e \<notin> {0, 1, 2}"
  by (auto simp: normalizeICMPMode_def Let_def split: if_splits)

lemma applyTracerouteDefaults_frame [simp]:
  "SourceDevice (applyTracerouteDefaults c) = SourceDevice c"
  by (simp add: applyTracerouteDefaults_def Let_def)

lemma applyTracerouteDefaults_pos:
  "0 \<le> MaxHops c \<Longrightarrow> 0 < MaxHops (applyTracerouteDefaults c)"
  "0 \<le> NumMeasurements c \<Longrightarrow> 0 < NumMeasurements (applyTracerouteDefaults c)"
  "0 \<le> NumMeasurements c \<Longrightarrow> 0 \<le> ParallelRequests c \<Longrightarrow>
     0 < ParallelRequests (applyTracerouteDefaults c)"
  "ICMPMode (applyTracerouteDefaults c) = ICMPMode c"
  by (simp_all add: applyTracerouteDefaults_def Let_def)

lemma normalizeRuntimeConfig_frame [simp]:
  "MaxHops (normalizeRuntimeConfig e c) = MaxHops c"
  "NumMeasurements (normalizeRuntimeConfig e c) = NumMeasurements c"
  "ParallelRequests (normalizeRuntimeConfig e c) = ParallelRequests c"
  "ICMPMode (normalizeRuntimeConfig e c) = ICMPMode c"
  by (simp_all add: normalizeRuntimeConfig_def)

lemma prepared_stages:
  assumes "0 \<le> MaxHops c" "0 \<le> NumMeasurements c" "0 \<le> ParallelRequests c"
  shows "0 < MaxHops (prepared e c) \<and> 0 < NumMeasurements (prepared e c) \<and>
    0 < ParallelRequests (prepared e c) \<and> ICMPMode (prepared e c) \<in> {0, 1, 2} \<and>
    NumMeasurements (prepared e c) \<le> MaxAttempts (prepared e c)"
proof -
  define d where "d = normalizeICMPMode e (applyTracerouteDefaults (normalizeRuntimeConfig e c))"
  have "prepared e c = deriveMaxAttempts e d" by (simp add: prepared_def d_def)
  moreover have "0 < MaxHops d" "0 < NumMeasurements d" "0 < ParallelRequests d"
    using assms by (simp_all add: d_def applyTracerouteDefaults_pos)
  moreover have "ICMPMode d \<in> {0, 1, 2}" unfolding d_def by (rule normalizeICMPMode_mode)
  ultimately show ?thesis using deriveMaxAttempts_ge [of d e] by simp
qed

lemma prepared_ready:
  assumes "0 \<le> MaxHops c" "0 \<le> NumMeasurements c" "0 \<le> ParallelRequests c" "ICMPMode c \<le> 2"
  shows "ready e (prepared e c)"
proof -
  have "SourceDevice (prepared e c) = [] \<Longrightarrow> SrcDev e = []"
    by (simp add: prepared_def) (auto simp: normalizeRuntimeConfig_def split: if_splits)
  moreover have "ICMPMode (prepared e c) = 0 \<Longrightarrow> EnvICMPMode e \<le> 0 \<or> EnvICMPMode e \<notin> {0, 1, 2}"
    unfolding prepared_def deriveMaxAttempts_frame
    by (rule normalizeICMPMode_mode) (simp_all add: applyTracerouteDefaults_pos assms(4))
  ultimately show ?thesis
    using prepared_stages [OF assms(1-3), of e] by (simp only: ready_def) blast
qed

lemma ready_fixed: "ready e c \<Longrightarrow> prepared e c = c"
proof -
  assume r: "ready e c"
  have "normalizeRuntimeConfig e c = c" using r by (auto simp: ready_def normalizeRuntimeConfig_def)
  moreover have "applyTracerouteDefaults c = c"
    using r by (simp add: ready_def applyTracerouteDefaults_def)
  moreover have "deriveMaxAttempts e c = c"
    using r by (simp add: ready_def deriveMaxAttempts_def)
  moreover have "normalizeICMPMode e c = c"
    using r by (auto simp: ready_def normalizeICMPMode_def Let_def)
  ultimately show ?thesis by (simp add: prepared_def)
qed

text \<open>Whatever the caller and the environment configured (with non-negative counts), the
  configuration a trace starts with has a positive number of hops, at least one measurement per
  hop, at least as many attempts as measurements, a positive number of parallel requests and an
  ICMP mode among 0, 1 and 2. Preparing it again changes nothing, unless the caller asked for an
  unknown mode above 2, which the first pass turns into 0 and a second pass would replace by the
  mode of the environment.\<close>

theorem prepared_config:
  assumes "0 \<le> MaxHops c" "0 \<le> NumMeasurements c" "0 \<le> ParallelRequests c"
  shows "0 < MaxHops (prepared e c) \<and> 0 < NumMeasurements (prepared e c) \<and>
    0 < ParallelRequests (prepared e c) \<and> ICMPMode (prepared e c) \<in> {0, 1, 2} \<and>
    NumMeasurements (prepared e c) \<le> MaxAttempts (prepared e c) \<and>
    (ICMPMode c \<le> 2 \<longrightarrow> prepared e (prepared e c) = prepared e c)"
  using prepared_stages [OF assms, of e] prepared_ready [OF assms, of e]
    ready_fixed [of e "prepared e c"] by blast

definition sample_config :: Config where
  "sample_config = \<lparr>ICMPMode = 0, SourceDevice = [], BeginHop = 1, MaxHops = 0, NumMeasurements = 3,
     MaxAttempts = 0, ParallelRequests = 0, Timeout = 1000000000, DstIP = [8, 8, 8, 8], DstPort = 80,
     IPGeoSource = None, GeoLookupOffset = 0, RDNS = False, AlwaysWaitRDNS = False,
     cfg_Lang = ''en'', DN42 = False, PktSize = 52, RandomPacketSize = False, Maptrace = False,
     DisableMPLS = False\<rparr>"

definition sample_env :: env where
  "sample_env = \<lparr>EnvICMPMode = 0, EnvMaxAttempts = 0, SrcDev = []\<rparr>"

theorem prepared_config_witness:
  "MaxHops (prepared sample_env sample_config) = 30 \<and>
   MaxAttempts (prepared sample_env sample_config) = 6 \<and>
   prepared sample_env (prepared sample_env sample_config) = prepared sample_env sample_config"
proof -
  have "prepared sample_env (prepared sample_env sample_config) = prepared sample_env sample_config"
    using prepared_config [of sample_config sample_env] by (simp add: sample_config_def)
  then show ?thesis
    by (simp add: prepared_def sample_config_def sample_env_def normalizeRuntimeConfig_def
        applyTracerouteDefaults_def normalizeICMPMode_def deriveMaxAttempts_def)
qed

end
