(* ===== verification/Trace_Result.thy ===== *)
theory Trace_Result
  imports Trace_Config "HOL-Library.Sublist"
begin

section \<open>The result of a trace: \<open>Result\<close> in \<open>trace/trace.go\<close>\<close>

text \<open>
  \<open>Result\<close> collects, per TTL, the hops the probes of a trace produced. \<open>add\<close> is the audited
  insertion every tracer uses; the other operations cut the result at the final hop and fill in
  geo data that arrives later. The mutex makes each operation atomic, so an operation is one
  function on the state. The state leaves out the mutex, the wait group and the map URL.
\<close>

record trace_result =
  Hops :: "hop list list"
  tailDone :: "bool list"
  geoWait :: int
  geoCanceled :: bool

text \<open>What \<open>Execute\<close> allocates.\<close>

definition init_result :: "int \<Rightarrow> trace_result" where
  "init_result maxHops = \<lparr>Hops = replicate (nat maxHops) [], tailDone = replicate (nat maxHops) False,
     geoWait = 0, geoCanceled = False\<rparr>"

text \<open>\<open>geoWaitForMeasurements\<close>: how long the printer waits for the geo data of a TTL, the sum of the
  timeouts of all lookup attempts, in nanoseconds; \<open>setGeoWait\<close> stores it.\<close>

definition geoWaitForMeasurements :: "int \<Rightarrow> int" where
  "geoWaitForMeasurements numMeasurements =
     (let n = (if numMeasurements \<le> 0 then 1 else numMeasurements);
          maxRetries = (if n - 1 > 5 then 5 else n - 1)
      in sum_list (map (\<lambda>attempt. if 2 + attempt > 6 then 6 else 2 + attempt) [0..maxRetries]) * 1000000000)"

definition setGeoWait :: "trace_result \<Rightarrow> int \<Rightarrow> trace_result" where
  "setGeoWait s numMeasurements = s\<lparr>geoWait := geoWaitForMeasurements numMeasurements\<rparr>"

definition isValidHop :: "hop \<Rightarrow> bool" where
  "isValidHop h \<longleftrightarrow> Success h \<and> Address h \<noteq> None"

definition add :: "trace_result \<Rightarrow> hop \<Rightarrow> int \<Rightarrow> int \<Rightarrow> int \<Rightarrow> (unit, trace_result \<times> bool \<times> int) res" where
  "add s hop attemptIdx numMeasurements maxAttempts =
     (let k = nat (TTL hop - 1); n = numMeasurements in
      if TTL hop - 1 < 0 then Inl Panic
      else rbind (go_index (Hops s) k) (\<lambda>bucket.
        if attemptIdx < n - 1 then
          Inr (s\<lparr>Hops := (Hops s)[k := bucket @ [hop]]\<rparr>, True, int (length bucket))
        else if int (length bucket) \<ge> n then Inr (s, False, -1)
        else rbind (go_index (tailDone s) k) (\<lambda>done.
          if done then Inr (s, False, -1)
          else
            let hasValid = list_ex isValidHop bucket in
            if hasValid \<or> isValidHop hop \<or> attemptIdx \<ge> maxAttempts - 1 then
              Inr (s\<lparr>Hops := (Hops s)[k := bucket @ [hop]], tailDone := (tailDone s)[k := True]\<rparr>,
                   True, int (length bucket))
            else Inr (s, False, -1))))"

definition reduce :: "trace_result \<Rightarrow> int \<Rightarrow> trace_result" where
  "reduce s final =
     (if 0 < final \<and> final < int (length (Hops s)) then s\<lparr>Hops := take (nat final) (Hops s)\<rparr> else s)"

text \<open>\<open>updateHop\<close> merges the host name, the geo data and the language of a hop whose metadata
  was looked up in the background.\<close>

definition merge_hop :: "hop \<Rightarrow> hop \<Rightarrow> hop" where
  "merge_hop updated h =
     (let h = (if Hostname updated \<noteq> [] then h\<lparr>Hostname := Hostname updated\<rparr> else h);
          h = (if Geo updated \<noteq> None then h\<lparr>Geo := Geo updated\<rparr> else h)
      in if Lang updated \<noteq> [] then h\<lparr>Lang := Lang updated\<rparr> else h)"

definition updateHop :: "trace_result \<Rightarrow> int \<Rightarrow> int \<Rightarrow> hop \<Rightarrow> trace_result" where
  "updateHop s ttl idx updated =
     (let k = ttl - 1 in
      if k < 0 \<or> int (length (Hops s)) \<le> k then s
      else let bucket = Hops s ! nat k in
        if idx < 0 \<or> int (length bucket) \<le> idx then s
        else s\<lparr>Hops := (Hops s)[nat k := bucket[nat idx := merge_hop updated (bucket ! nat idx)]]\<rparr>)"

definition is_pending :: "hop \<Rightarrow> bool" where
  "is_pending h \<longleftrightarrow> Address h \<noteq> None \<and> isPendingGeo (Geo h)"

definition hasPendingGeo :: "trace_result \<Rightarrow> int \<Rightarrow> bool" where
  "hasPendingGeo s ttlIdx =
     (if ttlIdx < 0 \<or> int (length (Hops s)) \<le> ttlIdx then False
      else list_ex is_pending (Hops s ! nat ttlIdx))"

definition time_out :: "hop \<Rightarrow> hop" where
  "time_out h = (if Address h = None \<or> \<not> isPendingGeo (Geo h) then h else h\<lparr>Geo := Some timeoutGeo\<rparr>)"

definition markPendingGeoTimeout :: "trace_result \<Rightarrow> int \<Rightarrow> trace_result" where
  "markPendingGeoTimeout s ttlIdx =
     (if ttlIdx < 0 \<or> int (length (Hops s)) \<le> ttlIdx then s
      else s\<lparr>Hops := (Hops s)[nat ttlIdx := map time_out (Hops s ! nat ttlIdx)]\<rparr>)"

definition markAllPendingGeoTimeout :: "trace_result \<Rightarrow> trace_result" where
  "markAllPendingGeoTimeout s = s\<lparr>Hops := map (map time_out) (Hops s)\<rparr>"

text \<open>\<open>addWithGeoAsync\<close> adds the hop and, when metadata is wanted, starts a goroutine that looks it
  up. The model returns that goroutine's arguments (TTL, index in the bucket, hop), and
  \<open>geo_goroutine\<close> is its effect on the result once \<open>fetchIPData\<close> has turned the hop into
  \<open>h\<close>.\<close>

definition addWithGeoAsync ::
    "trace_result \<Rightarrow> hop \<Rightarrow> int \<Rightarrow> int \<Rightarrow> int \<Rightarrow> Config \<Rightarrow>
     (unit, trace_result \<times> (int \<times> int \<times> hop) option) res" where
  "addWithGeoAsync s hop attemptIdx numMeasurements maxAttempts cfg =
     (let needsMetadata = IPGeoSource cfg \<noteq> None \<or> RDNS cfg;
          hop = (if IPGeoSource cfg = None then hop
                 else case Geo hop of
                   None \<Rightarrow> hop\<lparr>Geo := Some pendingGeo\<rparr>
                 | Some g \<Rightarrow> if Source g = [] then hop\<lparr>Geo := Some (g\<lparr>Source := PendingGeoSource\<rparr>)\<rparr>
                             else hop);
          hop = (if Lang hop = [] then hop\<lparr>Lang := cfg_Lang cfg\<rparr> else hop)
      in rbind (add s hop attemptIdx numMeasurements maxAttempts) (\<lambda>(s, added, idx).
           Inr (s, if \<not> added then None
                   else if \<not> needsMetadata then None
                   else Some (TTL hop, idx, hop))))"

definition geo_goroutine :: "trace_result \<Rightarrow> int \<Rightarrow> int \<Rightarrow> hop \<Rightarrow> trace_result" where
  "geo_goroutine s ttl idx h = (if \<not> geoCanceled s then updateHop s ttl idx h else s)"

text \<open>The end of \<open>waitForPendingGeoData\<close>.\<close>

definition finish_geo :: "trace_result \<Rightarrow> trace_result" where
  "finish_geo s = markAllPendingGeoTimeout (s\<lparr>geoCanceled := True\<rparr>)"

subsection \<open>One bucket\<close>

text \<open>
  The audit of \<open>add\<close> looks only at the bucket of the hop's TTL and its flag. \<open>bucket_add\<close> is that
  decision on a bucket alone; \<open>add_bucket\<close> shows that \<open>add\<close> is \<open>bucket_add\<close> on its TTL's
  component and the identity on the others.
\<close>

definition bucket_add :: "int \<Rightarrow> int \<Rightarrow> hop list \<times> bool \<Rightarrow> int \<times> hop \<Rightarrow> hop list \<times> bool" where
  "bucket_add n m = (\<lambda>(bucket, done) (i, hop).
     if i < n - 1 then (bucket @ [hop], done)
     else if int (length bucket) \<ge> n \<or> done then (bucket, done)
     else if list_ex isValidHop bucket \<or> isValidHop hop \<or> i \<ge> m - 1 then (bucket @ [hop], True)
     else (bucket, done))"

definition wf_result :: "trace_result \<Rightarrow> bool" where
  "wf_result s \<longleftrightarrow> length (tailDone s) = length (Hops s)"

definition slot :: "trace_result \<Rightarrow> nat \<Rightarrow> hop list \<times> bool" where
  "slot s k = (Hops s ! k, tailDone s ! k)"

lemma init_result_wf [simp]: "wf_result (init_result m)"
  by (simp add: wf_result_def init_result_def)

lemma slot_init [simp]: "k < nat m \<Longrightarrow> slot (init_result m) k = ([], False)"
  by (simp add: slot_def init_result_def)

lemma add_bucket:
  assumes "wf_result s" "1 \<le> TTL hop" "TTL hop \<le> int (length (Hops s))"
  shows "\<exists>s' b idx. add s hop i n m = Inr (s', b, idx) \<and> wf_result s' \<and>
    length (Hops s') = length (Hops s) \<and>
    slot s' (nat (TTL hop - 1)) = bucket_add n m (slot s (nat (TTL hop - 1))) (i, hop) \<and>
    (\<forall>k. k \<noteq> nat (TTL hop - 1) \<longrightarrow> slot s' k = slot s k)"
proof -
  have k: "nat (TTL hop - 1) < length (Hops s)" "nat (TTL hop - 1) < length (tailDone s)"
      "\<not> TTL hop - 1 < 0"
    using assms by (auto simp: wf_result_def)
  show ?thesis
    using k assms(1)
    by (intro exI [of _ "fst (projr (add s hop i n m))"] exI [of _ "fst (snd (projr (add s hop i n m)))"]
          exI [of _ "snd (snd (projr (add s hop i n m)))"])
      (auto simp: add_def slot_def bucket_add_def wf_result_def Let_def)
qed

definition feed :: "int \<Rightarrow> int \<Rightarrow> (int \<times> hop) list \<Rightarrow> hop list \<times> bool" where
  "feed n m ops = fold (\<lambda>op b. bucket_add n m b op) ops ([], False)"

lemma feed_Nil [simp]: "feed n m [] = ([], False)"
  by (simp add: feed_def)

lemma feed_snoc [simp]: "feed n m (ops @ [op]) = bucket_add n m (feed n m ops) op"
  by (simp add: feed_def)

text \<open>The unconditional attempts, and how the length of the bucket counts them.\<close>

definition heads :: "int \<Rightarrow> (int \<times> hop) list \<Rightarrow> nat" where
  "heads n ops = length (filter (\<lambda>op. fst op < n - 1) ops)"

lemma feed_length: "length (fst (feed n m ops)) = heads n ops + of_bool (snd (feed n m ops))"
  by (induction ops rule: rev_induct)
    (auto simp: heads_def bucket_add_def split: prod.splits)

lemma bucket_add_grows:
  "fst (bucket_add n m b op) = fst b \<or> fst (bucket_add n m b op) = fst b @ [snd op]"
  "snd b \<Longrightarrow> snd (bucket_add n m b op)"
  by (auto simp: bucket_add_def split: prod.splits)

lemma feed_append_Cons: "feed n m (xs @ ys @ [y]) = bucket_add n m (feed n m (xs @ ys)) y"
  using feed_snoc [of n m "xs @ ys" y] by simp

lemma feed_done_mono: "snd (feed n m xs) \<Longrightarrow> snd (feed n m (xs @ ys))"
  by (induction ys rule: rev_induct) (simp_all only: append_Nil2 feed_append_Cons bucket_add_grows)

lemma feed_valid_mono:
  "list_ex isValidHop (fst (feed n m xs)) \<Longrightarrow> list_ex isValidHop (fst (feed n m (xs @ ys)))"
proof (induction ys rule: rev_induct)
  case (snoc y ys)
  then show ?case
    using bucket_add_grows(1) [of n m "feed n m (xs @ ys)" y] by (auto simp only: feed_append_Cons list_ex_append)
qed simp

lemma feed_subseq: "subseq (fst (feed n m ops)) (map snd ops)"
proof (induction ops rule: rev_induct)
  case (snoc op ops)
  then show ?case
    using bucket_add_grows(1) [of n m "feed n m ops" op]
    by (auto intro: list_emb_append_mono list_emb_append2)
qed simp

text \<open>Distinct attempt numbers: at most \<open>n - 1\<close> of them are unconditional.\<close>

lemma heads_le:
  assumes "distinct (map fst ops)" "\<forall>op\<in>set ops. 0 \<le> fst op"
  shows "int (heads n ops) \<le> max 0 (n - 1)"
proof -
  let ?f = "filter (\<lambda>op. fst op < n - 1) ops"
  have d: "distinct (map fst ?f)" using assms(1) by (rule distinct_map_filter)
  have "card (set (map fst ?f)) \<le> card {0..<n - 1}"
    using assms(2) by (intro card_mono) auto
  then show ?thesis using distinct_card [OF d] by (simp add: heads_def)
qed

lemma heads_all:
  assumes "distinct (map fst ops)" "set (map fst ops) = {0..<m}" "n \<le> m" "1 \<le> n"
  shows "int (heads n ops) = n - 1"
proof -
  let ?f = "filter (\<lambda>op. fst op < n - 1) ops"
  have d: "distinct (map fst ?f)" using assms(1) by (rule distinct_map_filter)
  have "set (map fst ?f) = {i \<in> set (map fst ops). i < n - 1}" by auto
  also have "\<dots> = {0..<n - 1}" using assms(2,3) by auto
  finally show ?thesis using distinct_card [OF d] assms(4) by (simp add: heads_def)
qed

lemma feed_done_last:
  assumes "(i, h) \<in> set ops" "m - 1 \<le> i" "n \<le> m"
    and heads: "int (heads n ops) < n"
  shows "snd (feed n m ops)"
proof -
  obtain xs ys where ops: "ops = (xs @ [(i, h)]) @ ys" using assms(1) by (auto simp: in_set_conv_decomp)
  have "snd (feed n m (xs @ [(i, h)]))"
  proof (cases "snd (feed n m xs)")
    case True
    then show ?thesis by (rule feed_done_mono)
  next
    case False
    have "heads n xs \<le> heads n ops" by (simp add: ops heads_def)
    then have "int (length (fst (feed n m xs))) < n" using heads feed_length [of n m xs] False by simp
    then show ?thesis using False assms(2,3) by (auto simp: bucket_add_def split: prod.splits)
  qed
  then show ?thesis unfolding ops by (rule feed_done_mono)
qed

lemma feed_done_valid:
  assumes "snd (feed n m ops)" "\<forall>op\<in>set ops. fst op < m - 1"
  shows "list_ex isValidHop (fst (feed n m ops))"
  using assms by (induction ops rule: rev_induct) (auto simp: bucket_add_def split: prod.splits if_splits)

lemma feed_keeps_valid:
  assumes "(i, h) \<in> set ops" "isValidHop h" "\<forall>op\<in>set ops. fst op < m - 1"
    "int (heads n ops) < n"
  shows "list_ex isValidHop (fst (feed n m ops))"
proof -
  obtain xs ys where ops: "ops = (xs @ [(i, h)]) @ ys" using assms(1) by (auto simp: in_set_conv_decomp)
  have "list_ex isValidHop (fst (feed n m (xs @ [(i, h)])))"
  proof (cases "snd (feed n m xs)")
    case True
    then have "list_ex isValidHop (fst (feed n m xs))"
      using assms(3) by (intro feed_done_valid) (auto simp: ops)
    then show ?thesis by (rule feed_valid_mono)
  next
    case False
    have "heads n xs \<le> heads n ops" by (simp add: ops heads_def)
    then have "int (length (fst (feed n m xs))) < n" using assms(4) feed_length [of n m xs] False by simp
    then show ?thesis using False assms(2) by (auto simp: bucket_add_def split: prod.splits)
  qed
  then show ?thesis unfolding ops by (rule feed_valid_mono)
qed

text \<open>When the last attempt reports last, a valid hop among the attempts is not lost.\<close>

lemma feed_last_valid:
  assumes lt: "\<forall>op\<in>set xs. fst op < m - 1"
    and v: "list_ex isValidHop (map snd (xs @ [(m - 1, h)]))"
    and heads: "int (heads n xs) < n"
    and len: "int (length (fst (feed n m (xs @ [(m - 1, h)])))) = n"
  shows "list_ex isValidHop (fst (feed n m (xs @ [(m - 1, h)])))"
proof (cases "list_ex isValidHop (fst (feed n m xs))")
  case True
  then show ?thesis by (rule feed_valid_mono)
next
  case False
  then have "\<not> list_ex isValidHop (map snd xs)"
    using feed_keeps_valid [OF _ _ lt heads] by (auto simp: list_ex_iff)
  then have h: "isValidHop h" using v by simp
  have "\<not> snd (feed n m xs)" using False feed_done_valid [OF _ lt] by blast
  then have "length (fst (feed n m (xs @ [(m - 1, h)]))) \<noteq> length (fst (feed n m xs))"
    using len heads feed_length [of n m xs] by simp
  then have "fst (feed n m (xs @ [(m - 1, h)])) = fst (feed n m xs) @ [h]"
    using bucket_add_grows(1) [of n m "feed n m xs" "(m - 1, h)"] by auto
  then show ?thesis using h by simp
qed

subsection \<open>All the insertions of a trace\<close>

fun adds :: "int \<Rightarrow> int \<Rightarrow> (int \<times> hop) list \<Rightarrow> trace_result \<Rightarrow> (unit, trace_result) res" where
  "adds n m [] s = Inr s"
| "adds n m ((i, h) # ops) s = rbind (add s h i n m) (\<lambda>(s, added, idx). adds n m ops s)"

definition of_ttl :: "nat \<Rightarrow> (int \<times> hop) list \<Rightarrow> (int \<times> hop) list" where
  "of_ttl k ops = filter (\<lambda>op. TTL (snd op) = int k + 1) ops"

definition in_range :: "nat \<Rightarrow> (int \<times> hop) list \<Rightarrow> bool" where
  "in_range len ops \<longleftrightarrow> (\<forall>op\<in>set ops. 1 \<le> TTL (snd op) \<and> TTL (snd op) \<le> int len)"

lemma of_ttl_Cons:
  "1 \<le> TTL h \<Longrightarrow>
   of_ttl k ((i, h) # ops) = (if k = nat (TTL h - 1) then (i, h) # of_ttl k ops else of_ttl k ops)"
  by (auto simp: of_ttl_def)

lemma adds_slots:
  assumes "wf_result s" "in_range (length (Hops s)) ops"
  shows "\<exists>s'. adds n m ops s = Inr s' \<and> wf_result s' \<and> length (Hops s') = length (Hops s) \<and>
    (\<forall>k. slot s' k = fold (\<lambda>op b. bucket_add n m b op) (of_ttl k ops) (slot s k))"
  using assms
proof (induction ops arbitrary: s)
  case Nil
  then show ?case by (simp add: of_ttl_def)
next
  case (Cons op ops)
  obtain i h where op: "op = (i, h)" by (cases op)
  have h: "1 \<le> TTL h" "TTL h \<le> int (length (Hops s))" using Cons.prems by (auto simp: in_range_def op)
  obtain s' b idx where
    s': "add s h i n m = Inr (s', b, idx)" "wf_result s'" "length (Hops s') = length (Hops s)"
      "slot s' (nat (TTL h - 1)) = bucket_add n m (slot s (nat (TTL h - 1))) (i, h)"
      "\<And>k. k \<noteq> nat (TTL h - 1) \<Longrightarrow> slot s' k = slot s k"
    using add_bucket [OF Cons.prems(1) h, of i n m] by blast
  have "in_range (length (Hops s')) ops" using Cons.prems by (simp add: in_range_def s')
  from Cons.IH [OF s'(2) this] obtain u where u: "adds n m ops s' = Inr u" "wf_result u"
      "length (Hops u) = length (Hops s')"
      "\<And>k. slot u k = fold (\<lambda>op b. bucket_add n m b op) (of_ttl k ops) (slot s' k)"
    by blast
  have "slot u k = fold (\<lambda>op b. bucket_add n m b op) (of_ttl k (op # ops)) (slot s k)" for k
    unfolding op of_ttl_Cons [OF h(1)] u(4) using s'(4) s'(5) [of k]
    by (cases "k = nat (TTL h - 1)") simp_all
  then show ?case using u(1-3) s'(1,3) by (intro exI [of _ u]) (simp add: op)
qed

lemma adds_feed:
  assumes "in_range (nat maxHops) ops"
  obtains s where "adds n m ops (init_result maxHops) = Inr s" "wf_result s"
    "length (Hops s) = nat maxHops"
    "\<And>k. k < nat maxHops \<Longrightarrow> Hops s ! k = fst (feed n m (of_ttl k ops))"
proof -
  have l: "length (Hops (init_result maxHops)) = nat maxHops" by (simp add: init_result_def)
  with adds_slots [of "init_result maxHops" ops n m] assms obtain s where s:
    "adds n m ops (init_result maxHops) = Inr s" "wf_result s" "length (Hops s) = nat maxHops"
    "\<And>k. slot s k = fold (\<lambda>op b. bucket_add n m b op) (of_ttl k ops) (slot (init_result maxHops) k)"
    by auto
  have "Hops s ! k = fst (feed n m (of_ttl k ops))" if "k < nat maxHops" for k
    using arg_cong [OF s(4) [of k], of fst] that by (simp add: slot_def [of s] feed_def)
  then show thesis using s that by blast
qed

definition attempts :: "nat \<Rightarrow> (int \<times> hop) list \<Rightarrow> int list" where
  "attempts k ops = map fst (of_ttl k ops)"

text \<open>However the replies and timeouts of a trace interleave, as long as every attempt of a
  TTL reports at most once, the insertions never panic and no TTL ends up with more than the
  configured number of hops; each bucket holds hops of its own TTL, in the order they came.\<close>

theorem adds_bounded:
  assumes "in_range (nat maxHops) ops" "1 \<le> n"
    and once: "\<And>k. distinct (attempts k ops)" and pos: "\<forall>op\<in>set ops. 0 \<le> fst op"
  shows "\<exists>s. adds n m ops (init_result maxHops) = Inr s \<and> length (Hops s) = nat maxHops \<and>
    (\<forall>k < nat maxHops. int (length (Hops s ! k)) \<le> n \<and>
       subseq (Hops s ! k) (map snd (of_ttl k ops)))"
proof -
  obtain s where s: "adds n m ops (init_result maxHops) = Inr s" "length (Hops s) = nat maxHops"
      "\<And>k. k < nat maxHops \<Longrightarrow> Hops s ! k = fst (feed n m (of_ttl k ops))"
    by (rule adds_feed [OF assms(1), of n m]) blast
  have "int (length (fst (feed n m (of_ttl k ops)))) \<le> n" for k
  proof -
    have "int (heads n (of_ttl k ops)) \<le> n - 1"
      using heads_le [of "of_ttl k ops" n] once [of k] pos assms(2) by (auto simp: attempts_def of_ttl_def)
    then show ?thesis by (simp add: feed_length)
  qed
  then show ?thesis using s feed_subseq by auto
qed

text \<open>Once all attempts of a TTL have reported, in whatever order, its bucket holds exactly the
  configured number of hops, so the printer's completion test fires; and if the last attempt
  reported last and any attempt got a valid reply, the bucket shows a valid hop.\<close>

theorem adds_complete:
  assumes "in_range (nat maxHops) ops" "1 \<le> n" "n \<le> m" "k < nat maxHops"
    and all: "distinct (attempts k ops)" "set (attempts k ops) = {0..<m}"
  shows "\<exists>s. adds n m ops (init_result maxHops) = Inr s \<and> int (length (Hops s ! k)) = n \<and>
    (\<forall>xs h. of_ttl k ops = xs @ [(m - 1, h)] \<and> list_ex isValidHop (map snd (of_ttl k ops)) \<longrightarrow>
       list_ex isValidHop (Hops s ! k))"
proof -
  let ?f = "of_ttl k ops"
  obtain s where s: "adds n m ops (init_result maxHops) = Inr s"
      "\<And>k. k < nat maxHops \<Longrightarrow> Hops s ! k = fst (feed n m (of_ttl k ops))"
    by (rule adds_feed [OF assms(1), of n m]) blast
  have heads: "int (heads n ?f) = n - 1"
    using heads_all [of ?f m n] assms by (simp add: attempts_def)
  have "m - 1 \<in> set (attempts k ops)" using assms(2,3) all(2) by simp
  then obtain h where "(m - 1, h) \<in> set ?f" by (auto simp: attempts_def)
  then have "snd (feed n m ?f)" using heads assms(3) by (intro feed_done_last) auto
  then have len: "int (length (fst (feed n m ?f))) = n" using heads by (simp add: feed_length)
  have "list_ex isValidHop (fst (feed n m ?f))"
    if f: "?f = xs @ [(m - 1, h)]" and v: "list_ex isValidHop (map snd ?f)" for xs h
  proof -
    have "\<forall>op\<in>set xs. fst op < m - 1"
    proof
      fix op assume "op \<in> set xs"
      then have "fst op \<in> set (attempts k ops)" "fst op \<noteq> m - 1"
        using all(1) by (auto simp: attempts_def f rev_image_eqI)
      then show "fst op < m - 1" using all(2) by auto
    qed
    then show ?thesis
      using v len heads assms(2) unfolding f by (intro feed_last_valid) (auto simp: heads_def)
  qed
  then have "\<forall>xs h. ?f = xs @ [(m - 1, h)] \<and> list_ex isValidHop (map snd ?f) \<longrightarrow>
      list_ex isValidHop (fst (feed n m ?f))" by blast
  then show ?thesis using s(1) len by (intro exI [of _ s]) (simp only: s(2) [OF assms(4)])
qed

definition sample_hop :: "int \<Rightarrow> bool \<Rightarrow> hop" where
  "sample_hop ttl ok = \<lparr>Success = ok, Address = (if ok then Some (IPAddr [10, 0, 0, 1] []) else None),
     Hostname = [], TTL = ttl, RTT = 0, Error = (if ok then None else Some HopTimeout),
     Geo = None, Lang = [], MPLS = []\<rparr>"

text \<open>Two of three wanted hops are answered out of order, one attempt of five times out last.\<close>

definition sample_ops :: "(int \<times> hop) list" where
  "sample_ops = [(2, sample_hop 1 False), (3, sample_hop 1 True), (0, sample_hop 1 False),
     (1, sample_hop 1 False), (4, sample_hop 1 False)]"

lemma of_ttl_sample: "of_ttl k sample_ops = (if k = 0 then sample_ops else [])"
  by (simp add: of_ttl_def sample_ops_def sample_hop_def)

theorem adds_bounded_witness:
  "\<exists>s. adds 3 5 sample_ops (init_result 2) = Inr s \<and> int (length (Hops s ! 0)) \<le> 3"
proof -
  have "\<exists>s. adds 3 5 sample_ops (init_result 2) = Inr s \<and> length (Hops s) = nat 2 \<and>
    (\<forall>k < nat 2. int (length (Hops s ! k)) \<le> 3 \<and>
       subseq (Hops s ! k) (map snd (of_ttl k sample_ops)))"
  proof (rule adds_bounded)
    show "in_range (nat 2) sample_ops"
      by (simp add: in_range_def sample_ops_def sample_hop_def)
    show "distinct (attempts k sample_ops)" for k
      by (simp add: attempts_def of_ttl_sample) (simp add: sample_ops_def)
    show "\<forall>op\<in>set sample_ops. 0 \<le> fst op" by (simp add: sample_ops_def)
  qed simp
  then show ?thesis by auto
qed

theorem adds_complete_witness:
  "\<exists>s. adds 3 5 sample_ops (init_result 2) = Inr s \<and> int (length (Hops s ! 0)) = 3 \<and>
    list_ex isValidHop (Hops s ! 0)"
proof -
  let ?xs = "[(2, sample_hop 1 False), (3, sample_hop 1 True), (0, sample_hop 1 False),
     (1, sample_hop 1 False)]"
  have "\<exists>s. adds 3 5 sample_ops (init_result 2) = Inr s \<and> int (length (Hops s ! 0)) = 3 \<and>
    (\<forall>xs h. of_ttl 0 sample_ops = xs @ [(5 - 1, h)] \<and>
       list_ex isValidHop (map snd (of_ttl 0 sample_ops)) \<longrightarrow> list_ex isValidHop (Hops s ! 0))"
  proof (rule adds_complete)
    show "in_range (nat 2) sample_ops"
      by (simp add: in_range_def sample_ops_def sample_hop_def)
    show "distinct (attempts 0 sample_ops)"
      by (simp add: attempts_def of_ttl_sample) (simp add: sample_ops_def)
    show "set (attempts 0 sample_ops) = {0..<5}"
      by (simp add: attempts_def of_ttl_sample) (auto simp: sample_ops_def)
  qed simp_all
  then obtain s where s: "adds 3 5 sample_ops (init_result 2) = Inr s" "int (length (Hops s ! 0)) = 3"
      "\<forall>xs h. of_ttl 0 sample_ops = xs @ [(5 - 1, h)] \<and>
       list_ex isValidHop (map snd (of_ttl 0 sample_ops)) \<longrightarrow> list_ex isValidHop (Hops s ! 0)"
    by blast
  have "of_ttl 0 sample_ops = ?xs @ [(5 - 1, sample_hop 1 False)]"
    by (simp only: of_ttl_sample) (simp add: sample_ops_def)
  moreover have "list_ex isValidHop (map snd (of_ttl 0 sample_ops))"
    by (simp only: of_ttl_sample) (simp add: sample_ops_def sample_hop_def isValidHop_def)
  ultimately have "list_ex isValidHop (Hops s ! 0)" using s(3) by blast
  then show ?thesis using s(1,2) by blast
qed

subsection \<open>Metadata that arrives later\<close>

text \<open>What the background work of a trace does to the result: a finished lookup, the printer's
  bounded wait for a TTL running out, and the end of the trace.\<close>

datatype meta_op = Lookup_done int int hop | Wait_over int | Finish

fun meta_step :: "meta_op \<Rightarrow> trace_result \<Rightarrow> trace_result" where
  "meta_step (Lookup_done ttl idx h) s = geo_goroutine s ttl idx h"
| "meta_step (Wait_over ttlIdx) s = markPendingGeoTimeout s ttlIdx"
| "meta_step Finish s = finish_geo s"

text \<open>The part of a hop that a probe measured.\<close>

definition probe_view :: "hop \<Rightarrow> bool \<times> addr option \<times> int \<times> int \<times> hop_error option \<times> string list" where
  "probe_view h = (Success h, Address h, TTL h, RTT h, Error h, MPLS h)"

definition views :: "trace_result \<Rightarrow> (bool \<times> addr option \<times> int \<times> int \<times> hop_error option \<times> string list) list list" where
  "views s = map (map probe_view) (Hops s)"

lemma probe_view_merge [simp]: "probe_view (merge_hop u h) = probe_view h"
  by (simp add: probe_view_def merge_hop_def Let_def)

lemma probe_view_time_out [simp]: "probe_view (time_out h) = probe_view h"
  by (simp add: probe_view_def time_out_def)

lemma views_update:
  "k < length (Hops s) \<Longrightarrow> map probe_view b = map probe_view (Hops s ! k) \<Longrightarrow>
   views (s\<lparr>Hops := (Hops s)[k := b]\<rparr>) = views s"
  by (simp add: views_def map_update)

lemma views_updateHop [simp]: "views (updateHop s ttl idx u) = views s"
  by (auto simp: updateHop_def Let_def map_update intro!: views_update)

lemma views_mark [simp]: "views (markPendingGeoTimeout s k) = views s"
  by (auto simp: markPendingGeoTimeout_def comp_def intro!: views_update)

lemma views_finish [simp]: "views (finish_geo s) = views s"
  by (simp add: views_def finish_geo_def markAllPendingGeoTimeout_def comp_def)

text \<open>No background metadata update, in any number and order, changes what the probes
  measured: the number of hops per TTL, and each hop's success flag, address, TTL, round-trip
  time, error and MPLS labels stay as they were.\<close>

theorem metadata_frame: "views (fold meta_step ops s) = views s"
proof -
  have "views (meta_step op t) = views t" for op t by (cases op) (simp_all add: geo_goroutine_def)
  then show ?thesis by (induction ops arbitrary: s) simp_all
qed

definition settled :: "trace_result \<Rightarrow> bool" where
  "settled s \<longleftrightarrow> geoCanceled s \<and> (\<forall>b\<in>set (Hops s). \<not> list_ex is_pending b)"

lemma not_pending_time_out [simp]: "\<not> is_pending (time_out h)"
  by (simp add: is_pending_def time_out_def)

lemma settled_finish: "settled (finish_geo s)"
  by (auto simp: settled_def finish_geo_def markAllPendingGeoTimeout_def list_ex_iff)

lemma settled_meta_step: "settled s \<Longrightarrow> settled (meta_step op s)"
proof (cases op)
  case (Wait_over k)
  assume "settled s"
  then show ?thesis
    by (auto simp: Wait_over settled_def markPendingGeoTimeout_def list_ex_iff
        dest!: set_update_subset_insert [THEN subsetD])
qed (auto simp: geo_goroutine_def settled_finish, simp add: settled_def)

interpretation settled_run: step_invariant "\<lambda>s t. \<exists>op. t = meta_step op s" settled
  by unfold_locales (auto intro: settled_meta_step)

lemma reaches_fold:
  "reaches (\<lambda>s t. \<exists>op. t = meta_step op s) s (fold meta_step ops s)"
  by (induction ops rule: rev_induct) (auto intro: reaches_step)

text \<open>Once \<open>waitForPendingGeoData\<close> has returned, no hop of any TTL is pending any more, and it
  stays so whatever lookup finishes afterwards.\<close>

theorem settled_after_finish:
  "\<not> hasPendingGeo (fold meta_step (xs @ Finish # ys) s) ttlIdx"
proof -
  have "settled (fold meta_step ys (finish_geo (fold meta_step xs s)))"
    by (rule settled_run.reachable_inv [OF reaches_fold settled_finish])
  then show ?thesis by (auto simp: settled_def hasPendingGeo_def)
qed

text \<open>\<open>reduce\<close> cuts the result at the final hop.\<close>

lemma length_reduce:
  "0 < final \<Longrightarrow> length (Hops (reduce s final)) = min (nat final) (length (Hops s))"
  by (simp add: reduce_def min_def)

lemma reduce_nth: "k < length (Hops (reduce s final)) \<Longrightarrow> Hops (reduce s final) ! k = Hops s ! k"
  by (cases "0 < final \<and> final < int (length (Hops s))") (auto simp: reduce_def)

end
