(* ===== verification/Icmp_Tracer.thy ===== *)
theory Icmp_Tracer
  imports Trace_Result
begin

unbundle bit_operations_syntax

section \<open>The ICMP tracer: \<open>trace/icmp_ipv4.go\<close> (and its IPv6 twin)\<close>

text \<open>
  One trace runs many goroutines: a launcher per TTL, a sender and a timeout guard per attempt,
  sixteen match workers, the listener, the printer and the metadata lookups. Their shared state is
  the record below; the blocking points of the code split every goroutine into segments, and a
  segment is one function on the state and one rule of \<open>icmp_step\<close>. Time is left out: a timer
  may run out at any moment after it was armed. The fields \<open>recorded\<close> and \<open>failed\<close> are
  ghosts for the theorems: the attempts that reported to \<open>Result.add\<close>, and those whose
  transmission failed. The context check that precedes each segment is the rules' premise
  \<open>\<not> finished s\<close>. Throughout, TTLs are at least 1 (for TTL 0 the code would index \<open>Hops\<close>
  at -1), which the configuration hypothesis \<open>wf_config\<close> states.
\<close>

record matchTask =
  task_seq :: int
  task_peer :: "addr option"
  task_finish :: int
  task_mpls :: "string list"

record icmp_state =
  res :: trace_result
  pending :: "int set"
  sentAt :: "int \<rightharpoonup> int"
  final :: int
  matchQ :: "matchTask list"
  taken :: "matchTask list"
  next_ttl :: int
  next_i :: "int \<rightharpoonup> int"
  spawned :: "(int \<times> int) set"
  waiting :: "(int \<times> int) set"
  sending :: "(int \<times> int) list"
  timers :: "(int \<times> int) set"
  lookups :: "(int \<times> int \<times> hop) list"
  printed :: int
  finished :: bool
  recorded :: "(int \<times> int) set"
  failed :: "(int \<times> int) set"

definition icmp_init :: "Config \<Rightarrow> icmp_state" where
  "icmp_init c = \<lparr>res = setGeoWait (init_result (MaxHops c)) (NumMeasurements c), pending = {}, sentAt = Map.empty, final = -1,
     matchQ = [], taken = [], next_ttl = BeginHop c, next_i = Map.empty, spawned = {}, waiting = {},
     sending = [], timers = {}, lookups = [], printed = BeginHop c - 1, finished = False,
     recorded = {}, failed = {}\<rparr>"

definition ttlComp :: "Config \<Rightarrow> icmp_state \<Rightarrow> int \<Rightarrow> bool" where
  "ttlComp c t ttl =
     (let idx = ttl - 1 in
      idx < int (length (Hops (res t))) \<and> int (length (Hops (res t) ! nat idx)) \<ge> NumMeasurements c)"

subsection \<open>The handlers\<close>

definition markPending :: "icmp_state \<Rightarrow> int \<Rightarrow> icmp_state" where
  "markPending t seq = t\<lparr>pending := insert seq (pending t)\<rparr>"

definition clearPending :: "icmp_state \<Rightarrow> int \<Rightarrow> icmp_state \<times> bool" where
  "clearPending t seq = (t\<lparr>pending := pending t - {seq}\<rparr>, seq \<in> pending t)"

definition storeSent :: "icmp_state \<Rightarrow> int \<Rightarrow> int \<Rightarrow> icmp_state" where
  "storeSent t seq start = t\<lparr>sentAt := (sentAt t)(seq \<mapsto> start)\<rparr>"

definition lookupSent :: "icmp_state \<Rightarrow> int \<Rightarrow> int option" where
  "lookupSent t seq = sentAt t seq"

definition dropSent :: "icmp_state \<Rightarrow> int \<Rightarrow> icmp_state" where
  "dropSent t seq = t\<lparr>sentAt := (sentAt t)(seq := None)\<rparr>"

definition past_final :: "icmp_state \<Rightarrow> int \<Rightarrow> bool" where
  "past_final t ttl \<longleftrightarrow> final t \<noteq> -1 \<and> ttl > final t"

definition addHopWithIndex ::
    "Config \<Rightarrow> icmp_state \<Rightarrow> addr option \<Rightarrow> int \<Rightarrow> int \<Rightarrow> int \<Rightarrow> string list \<Rightarrow> (unit, icmp_state) res" where
  "addHopWithIndex c t peer ttl i rtt mpls =
     (if past_final t ttl then Inr t
      else
        let ip = AddrIP peer;
            t = (if ip \<noteq> [] \<and> ip_Equal ip (DstIP c) then
                   (if final t \<noteq> -1 \<and> ttl \<ge> final t then t else t\<lparr>final := ttl\<rparr>)
                 else t);
            h = \<lparr>Success = True, Address = peer, Hostname = [], TTL = ttl, RTT = rtt, Error = None,
                 Geo = None, Lang = [], MPLS = mpls\<rparr>
        in rbind (addWithGeoAsync (res t) h i (NumMeasurements c) (MaxAttempts c) c) (\<lambda>(r, job).
             Inr (t\<lparr>res := r, lookups := lookups t @ (case job of None \<Rightarrow> [] | Some j \<Rightarrow> [j]),
                   recorded := insert (ttl, i) (recorded t)\<rparr>)))"

text \<open>One turn of a match worker, after its 10 ms pause.\<close>

definition match_task :: "Config \<Rightarrow> icmp_state \<Rightarrow> matchTask \<Rightarrow> (unit, icmp_state) res" where
  "match_task c t task =
     (case lookupSent t (task_seq task) of
        None \<Rightarrow> Inr t
      | Some start \<Rightarrow>
          let u = take_bit 16 (task_seq task);
              ttl = drop_bit 8 u AND 0xFF;
              i = u AND 0xFF;
              cl = clearPending t (task_seq task)
          in rbind (if snd cl
                    then addHopWithIndex c (fst cl) (task_peer task) ttl i (task_finish task - start)
                           (task_mpls task)
                    else Inr (fst cl))
               (\<lambda>t. Inr (dropSent t (task_seq task))))"

definition handleICMPMessage :: "icmp_state \<Rightarrow> matchTask \<Rightarrow> icmp_state" where
  "handleICMPMessage t task = (if length (matchQ t) < 60 then t\<lparr>matchQ := matchQ t @ [task]\<rparr> else t)"

definition seqOf :: "int \<Rightarrow> int \<Rightarrow> int" where
  "seqOf ttl i = push_bit 8 ttl OR (i AND 0xFF)"

text \<open>\<open>send\<close> until it calls \<open>SendICMP\<close>: the checks, \<open>markPending\<close> and the timeout guard.
  The semaphore permit is held exactly while the attempt is in \<open>sending\<close>.\<close>

definition send_enter :: "Config \<Rightarrow> icmp_state \<Rightarrow> int \<times> int \<Rightarrow> icmp_state" where
  "send_enter c t a =
     (let t = t\<lparr>waiting := waiting t - {a}\<rparr> in
      if ttlComp c t (fst a) then t
      else if past_final t (fst a) then t
      else (markPending t (seqOf (fst a) (snd a)))\<lparr>timers := insert a (timers t),
             sending := a # sending t\<rparr>)"

text \<open>\<open>send\<close> after \<open>SendICMP\<close> returned, with a start time or with an error.\<close>

definition send_ok :: "icmp_state \<Rightarrow> int \<times> int \<Rightarrow> int \<Rightarrow> icmp_state" where
  "send_ok t a start =
     (storeSent t (seqOf (fst a) (snd a)) start)\<lparr>sending := remove1 a (sending t)\<rparr>"

definition send_error :: "icmp_state \<Rightarrow> int \<times> int \<Rightarrow> icmp_state" where
  "send_error t a =
     (let cl = clearPending t (seqOf (fst a) (snd a)) in
      (fst cl)\<lparr>sending := remove1 a (sending t),
        failed := (if snd cl then insert a (failed t) else failed t)\<rparr>)"

text \<open>The timeout guard of an attempt, when its wait is over and when the context ended first.\<close>

definition timeout_fires :: "Config \<Rightarrow> icmp_state \<Rightarrow> int \<times> int \<Rightarrow> (unit, icmp_state) res" where
  "timeout_fires c t a =
     (let seq = seqOf (fst a) (snd a); ttl = fst a;
          cl = clearPending (t\<lparr>timers := timers t - {a}\<rparr>) seq;
          t = fst cl
      in if \<not> snd cl then Inr t
         else if past_final t ttl then Inr t
         else if ttlComp c t ttl then Inr t
         else
           let h = \<lparr>Success = False, Address = None, Hostname = [], TTL = ttl, RTT = 0,
                    Error = Some HopTimeout, Geo = None, Lang = [], MPLS = []\<rparr>
           in rbind (add (res t) h (snd a) (NumMeasurements c) (MaxAttempts c)) (\<lambda>(r, added, idx).
                Inr (dropSent (t\<lparr>res := r, recorded := insert a (recorded t)\<rparr>) seq)))"

definition timeout_cancelled :: "icmp_state \<Rightarrow> int \<times> int \<Rightarrow> icmp_state" where
  "timeout_cancelled t a =
     fst (clearPending (t\<lparr>timers := timers t - {a}\<rparr>) (seqOf (fst a) (snd a)))"

text \<open>The launchers: \<open>Execute\<close>'s loop starts the TTLs one by one, and the goroutine of a TTL
  starts its attempts one by one until the TTL is complete.\<close>

definition launch_ttl :: "Config \<Rightarrow> icmp_state \<Rightarrow> icmp_state" where
  "launch_ttl c t =
     (if next_ttl t \<noteq> BeginHop c \<and> (next_ttl t > MaxHops c \<or> past_final t (next_ttl t)) then t
      else t\<lparr>next_ttl := next_ttl t + 1, next_i := (next_i t)(next_ttl t \<mapsto> 0)\<rparr>)"

definition launch_attempt :: "Config \<Rightarrow> icmp_state \<Rightarrow> int \<Rightarrow> int \<Rightarrow> icmp_state" where
  "launch_attempt c t ttl i =
     (if i < MaxAttempts c \<and> \<not> ttlComp c t ttl then
        t\<lparr>spawned := insert (ttl, i) (spawned t), waiting := insert (ttl, i) (waiting t),
          next_i := (next_i t)(ttl := if i + 1 = MaxAttempts c then None else Some (i + 1))\<rparr>
      else t\<lparr>next_i := (next_i t)(ttl := None)\<rparr>)"

text \<open>One round of \<open>PrintFunc\<close>.\<close>

definition print_tick :: "Config \<Rightarrow> icmp_state \<Rightarrow> icmp_state" where
  "print_tick c t =
     (if ttlComp c t (printed t + 1) then
        let t = t\<lparr>printed := printed t + 1\<rparr> in
        if printed t = final t \<or> printed t \<ge> MaxHops c then t\<lparr>finished := True\<rparr> else t
      else t)"

text \<open>The end of \<open>Execute\<close>.\<close>

definition execute_result :: "Config \<Rightarrow> icmp_state \<Rightarrow> trace_result" where
  "execute_result c t = reduce (res t) (if final t = -1 then MaxHops c else final t)"

subsection \<open>Interleavings\<close>

inductive icmp_step :: "Config \<Rightarrow> icmp_state \<Rightarrow> icmp_state \<Rightarrow> bool" for c where
  Launch_TTL: "\<not> finished s \<Longrightarrow> icmp_step c s (launch_ttl c s)"
| Launch_Attempt: "\<not> finished s \<Longrightarrow> next_i s ttl = Some i \<Longrightarrow> icmp_step c s (launch_attempt c s ttl i)"
| Send_Enter: "\<not> finished s \<Longrightarrow> a \<in> waiting s \<Longrightarrow>
    ttlComp c s (fst a) \<or> int (length (sending s)) < ParallelRequests c \<Longrightarrow>
    icmp_step c s (send_enter c s a)"
| Send_Cancelled: "finished s \<Longrightarrow> a \<in> waiting s \<Longrightarrow> icmp_step c s (s\<lparr>waiting := waiting s - {a}\<rparr>)"
| Send_OK: "a \<in> set (sending s) \<Longrightarrow> icmp_step c s (send_ok s a start)"
| Send_Error: "a \<in> set (sending s) \<Longrightarrow> icmp_step c s (send_error s a)"
| Timeout: "\<not> finished s \<Longrightarrow> a \<in> timers s \<Longrightarrow> timeout_fires c s a = Inr t \<Longrightarrow> icmp_step c s t"
| Timeout_Cancelled: "finished s \<Longrightarrow> a \<in> timers s \<Longrightarrow> icmp_step c s (timeout_cancelled s a)"
| Message: "icmp_step c s (handleICMPMessage s task)"
| Take: "\<not> finished s \<Longrightarrow> matchQ s = task # q \<Longrightarrow> length (taken s) < 16 \<Longrightarrow>
    icmp_step c s (s\<lparr>matchQ := q, taken := taken s @ [task]\<rparr>)"
| Match: "\<not> finished s \<Longrightarrow> taken s = xs @ task # ys \<Longrightarrow>
    match_task c (s\<lparr>taken := xs @ ys\<rparr>) task = Inr t \<Longrightarrow> icmp_step c s t"
| Lookup: "lookups s = xs @ (ttl, idx, h) # ys \<Longrightarrow>
    icmp_step c s (s\<lparr>res := geo_goroutine (res s) ttl idx h', lookups := xs @ ys\<rparr>)"
| Wait_Over: "icmp_step c s (s\<lparr>res := markPendingGeoTimeout (res s) k\<rparr>)"
| Print: "\<not> finished s \<Longrightarrow> icmp_step c s (print_tick c s)"
| Cancel: "icmp_step c s (s\<lparr>finished := True\<rparr>)"

subsection \<open>Sequence numbers\<close>

definition wf_config :: "Config \<Rightarrow> bool" where
  "wf_config c \<longleftrightarrow> 1 \<le> BeginHop c \<and> BeginHop c \<le> MaxHops c \<and> MaxHops c \<le> 255 \<and>
     1 \<le> NumMeasurements c \<and> NumMeasurements c \<le> MaxAttempts c \<and> MaxAttempts c \<le> 256"

definition valid_attempt :: "Config \<Rightarrow> int \<times> int \<Rightarrow> bool" where
  "valid_attempt c a \<longleftrightarrow> BeginHop c \<le> fst a \<and> 1 \<le> fst a \<and> fst a \<le> MaxHops c \<and> 0 \<le> snd a \<and> snd a < MaxAttempts c"

lemma and_FF: "i AND 0xFF = i mod (256 :: int)"
proof -
  have "(0xFF :: int) = mask 8" by (simp add: mask_eq_exp_minus_1)
  then have "i AND 0xFF = take_bit 8 i" by (simp only: take_bit_eq_mask)
  then show ?thesis by (simp add: take_bit_eq_mod)
qed

lemma seqOf_eq: "seqOf ttl i = ttl * 256 + i mod 256"
proof -
  have "bit (push_bit 8 ttl) k \<Longrightarrow> \<not> bit (take_bit 8 i) k" for k
    by (auto simp: bit_simps)
  then have "push_bit 8 ttl OR take_bit 8 i = push_bit 8 ttl + take_bit 8 i"
    by (intro disjunctive_add [symmetric]) blast
  then show ?thesis by (simp add: seqOf_def and_FF push_bit_eq_mult take_bit_eq_mod)
qed

lemma seq_decode:
  assumes "valid_attempt c a" "wf_config c"
  shows "drop_bit 8 (take_bit 16 (seqOf (fst a) (snd a))) AND 0xFF = fst a"
    "take_bit 16 (seqOf (fst a) (snd a)) AND 0xFF = snd a"
proof -
  have r: "1 \<le> fst a" "fst a \<le> 255" "0 \<le> snd a" "snd a < 256"
    using assms by (auto simp: valid_attempt_def wf_config_def)
  then have s: "seqOf (fst a) (snd a) = fst a * 256 + snd a" by (simp add: seqOf_eq)
  have t: "take_bit 16 (fst a * 256 + snd a) = fst a * 256 + snd a"
    using r by (intro take_bit_int_eq_self) auto
  show "drop_bit 8 (take_bit 16 (seqOf (fst a) (snd a))) AND 0xFF = fst a"
    unfolding s t and_FF using r by (simp add: drop_bit_eq_div)
  show "take_bit 16 (seqOf (fst a) (snd a)) AND 0xFF = snd a"
    unfolding s t and_FF using r by simp
qed

lemma seqOf_inj:
  assumes "wf_config c" "valid_attempt c a" "valid_attempt c b"
    "seqOf (fst a) (snd a) = seqOf (fst b) (snd b)"
  shows "a = b"
  using seq_decode [OF assms(2,1)] seq_decode [OF assms(3,1)] assms(4) by (simp add: prod_eq_iff)

subsection \<open>The invariant of a trace\<close>

text \<open>\<open>recorded_heads\<close> counts the reports of a TTL that \<open>add\<close> accepts unconditionally.\<close>

definition recorded_heads :: "Config \<Rightarrow> icmp_state \<Rightarrow> nat \<Rightarrow> int set" where
  "recorded_heads c s k = {i \<in> {0..<NumMeasurements c - 1}. (int k + 1, i) \<in> recorded s}"

definition seqs :: "(int \<times> int) set \<Rightarrow> int set" where
  "seqs A = (\<lambda>a. seqOf (fst a) (snd a)) ` A"

definition entered :: "icmp_state \<Rightarrow> (int \<times> int) set" where
  "entered s = spawned s - waiting s"

text \<open>The book-keeping of attempts, the buckets of the result, and the printer.\<close>

definition inv_attempts :: "Config \<Rightarrow> icmp_state \<Rightarrow> bool" where
  "inv_attempts c s \<longleftrightarrow>
     (\<forall>a\<in>spawned s. valid_attempt c a) \<and> waiting s \<subseteq> spawned s \<and>
     set (sending s) \<subseteq> entered s \<and> timers s \<subseteq> entered s \<and>
     recorded s \<subseteq> entered s \<and> failed s \<subseteq> entered s \<and> recorded s \<inter> failed s = {} \<and>
     pending s \<subseteq> seqs (entered s - (recorded s \<union> failed s))"

definition inv_launch :: "Config \<Rightarrow> icmp_state \<Rightarrow> bool" where
  "inv_launch c s \<longleftrightarrow> BeginHop c \<le> next_ttl s \<and>
     (\<forall>ttl i. next_i s ttl = Some i \<longrightarrow> BeginHop c \<le> ttl \<and> 1 \<le> ttl \<and> ttl \<le> MaxHops c \<and> ttl < next_ttl s \<and>
        0 \<le> i \<and> i < MaxAttempts c \<and> (\<forall>j. (ttl, j) \<in> spawned s \<longrightarrow> j < i)) \<and>
     (\<forall>a\<in>spawned s. fst a < next_ttl s)"

definition inv_result :: "Config \<Rightarrow> icmp_state \<Rightarrow> bool" where
  "inv_result c s \<longleftrightarrow>
     wf_result (res s) \<and> length (Hops (res s)) = nat (MaxHops c) \<and>
     (\<forall>k < nat (MaxHops c). length (Hops (res s) ! k) =
        card (recorded_heads c s k) + of_bool (tailDone (res s) ! k))"

definition inv_final :: "Config \<Rightarrow> icmp_state \<Rightarrow> bool" where
  "inv_final c s \<longleftrightarrow> final s = -1 \<or> 1 \<le> final s \<and> final s \<le> MaxHops c \<and> (\<exists>i. (final s, i) \<in> recorded s)"

definition inv_printer :: "Config \<Rightarrow> icmp_state \<Rightarrow> bool" where
  "inv_printer c s \<longleftrightarrow> BeginHop c - 1 \<le> printed s \<and> printed s \<le> MaxHops c \<and>
     (\<forall>ttl. BeginHop c \<le> ttl \<and> ttl \<le> printed s \<longrightarrow> ttlComp c s ttl)"

definition inv_permits :: "Config \<Rightarrow> icmp_state \<Rightarrow> bool" where
  "inv_permits c s \<longleftrightarrow> int (length (sending s)) \<le> max 0 (ParallelRequests c) \<and>
     length (matchQ s) \<le> 60 \<and> length (taken s) \<le> 16"

definition icmp_inv :: "Config \<Rightarrow> icmp_state \<Rightarrow> bool" where
  "icmp_inv c s \<longleftrightarrow> inv_attempts c s \<and> inv_launch c s \<and> inv_result c s \<and> inv_final c s \<and> inv_printer c s \<and> inv_permits c s"

lemma pendingE:
  assumes "inv_attempts c s" "q \<in> pending s"
  obtains a where "a \<in> entered s" "a \<notin> recorded s" "a \<notin> failed s" "q = seqOf (fst a) (snd a)"
    "valid_attempt c a"
  using assms unfolding inv_attempts_def seqs_def entered_def by blast

lemma pending_attempt:
  assumes "wf_config c" "inv_attempts c s" "a \<in> entered s" "seqOf (fst a) (snd a) \<in> pending s"
  shows "a \<notin> recorded s" "a \<notin> failed s" "valid_attempt c a"
proof -
  obtain b where b: "b \<notin> recorded s" "b \<notin> failed s" "valid_attempt c b"
      "seqOf (fst a) (snd a) = seqOf (fst b) (snd b)"
    using pendingE [OF assms(2,4)] by metis
  show v: "valid_attempt c a" using assms(2,3) by (auto simp: inv_attempts_def entered_def)
  have "a = b" by (rule seqOf_inj [OF assms(1) v b(3,4)])
  then show "a \<notin> recorded s" "a \<notin> failed s" using b by simp_all
qed

lemma record_add:
  assumes "wf_config c" "inv_result c s" "valid_attempt c a" "a \<notin> recorded s" "TTL h = fst a"
  shows "\<exists>r b idx. add (res s) h (snd a) (NumMeasurements c) (MaxAttempts c) = Inr (r, b, idx) \<and>
    inv_result c (s\<lparr>res := r, recorded := insert a (recorded s)\<rparr>) \<and>
    (\<forall>k < nat (MaxHops c). length (Hops (res s) ! k) \<le> length (Hops r ! k))"
proof -
  let ?n = "NumMeasurements c" and ?k = "nat (fst a - 1)"
  have wf: "wf_result (res s)" and len: "length (Hops (res s)) = nat (MaxHops c)"
    using assms(2) by (auto simp: inv_result_def)
  have a: "1 \<le> TTL h" "TTL h \<le> int (length (Hops (res s)))" "0 \<le> snd a"
    using assms(3,5) len by (auto simp: valid_attempt_def)
  obtain r b idx where r: "add (res s) h (snd a) ?n (MaxAttempts c) = Inr (r, b, idx)"
      "wf_result r" "length (Hops r) = nat (MaxHops c)"
      "slot r ?k = bucket_add ?n (MaxAttempts c) (slot (res s) ?k) (snd a, h)"
      "\<And>k. k \<noteq> ?k \<Longrightarrow> slot r k = slot (res s) k"
    using add_bucket [OF wf a(1,2), of "snd a" ?n "MaxAttempts c"] assms(5) len by auto
  let ?s = "s\<lparr>res := r, recorded := insert a (recorded s)\<rparr>"
  have same: "recorded_heads c ?s k = recorded_heads c s k" if "k \<noteq> ?k" for k
    using that assms(3) by (cases a) (auto simp: recorded_heads_def valid_attempt_def)
  have k: "?k < nat (MaxHops c)" "int ?k + 1 = fst a"
    using assms(3) by (auto simp: valid_attempt_def)
  have fin: "finite (recorded_heads c s ?k)"
    by (rule finite_subset [of _ "{0..<?n - 1}"]) (auto simp: recorded_heads_def)
  have new: "recorded_heads c ?s ?k =
      (if snd a < ?n - 1 then insert (snd a) (recorded_heads c s ?k) else recorded_heads c s ?k)"
    using k a(3) by (cases a) (auto simp: recorded_heads_def)
  have "snd a \<notin> recorded_heads c s ?k" using assms(4) k by (cases a) (auto simp: recorded_heads_def)
  then have "length (Hops r ! ?k) = card (recorded_heads c ?s ?k) + of_bool (tailDone r ! ?k) \<and>
      length (Hops (res s) ! ?k) \<le> length (Hops r ! ?k)"
    using r(4) assms(2) k fin unfolding new
    by (auto simp: slot_def bucket_add_def inv_result_def split: if_splits)
  moreover have "length (Hops r ! k) = length (Hops (res s) ! k)" "tailDone r ! k = tailDone (res s) ! k"
    if "k \<noteq> ?k" for k
    using r(5) [OF that] by (simp_all add: slot_def)
  moreover have "length (Hops (res s) ! k) = card (recorded_heads c s k) + of_bool (tailDone (res s) ! k)"
    if "k < nat (MaxHops c)" for k
    using assms(2) that by (simp add: inv_result_def)
  ultimately have all: "length (Hops r ! k) = card (recorded_heads c ?s k) + of_bool (tailDone r ! k) \<and>
      length (Hops (res s) ! k) \<le> length (Hops r ! k)" if "k < nat (MaxHops c)" for k
    using that same [of k] by (cases "k = ?k") simp_all
  then have "inv_result c ?s" using r(2,3) by (simp add: inv_result_def)
  moreover have "\<forall>k < nat (MaxHops c). length (Hops (res s) ! k) \<le> length (Hops r ! k)" using all by blast
  ultimately show ?thesis using r(1) by blast
qed


lemma ttlComp_mono:
  assumes "ttlComp c s ttl" "length (Hops (res t)) = length (Hops (res s))" "1 \<le> ttl"
    "\<And>k. k < length (Hops (res s)) \<Longrightarrow> length (Hops (res s) ! k) \<le> length (Hops (res t) ! k)"
  shows "ttlComp c t ttl"
proof -
  have "nat (ttl - 1) < length (Hops (res s))" using assms(1,3) by (auto simp: ttlComp_def Let_def)
  then show ?thesis using assms(1,2) assms(4) [of "nat (ttl - 1)"] by (auto simp: ttlComp_def Let_def)
qed

lemma inv_printer_mono:
  assumes "wf_config c" "inv_printer c s" "printed t = printed s"
    "length (Hops (res t)) = length (Hops (res s))"
    "\<And>k. k < length (Hops (res s)) \<Longrightarrow> length (Hops (res s) ! k) \<le> length (Hops (res t) ! k)"
  shows "inv_printer c t"
  using assms ttlComp_mono [of c s _ t] by (auto simp: inv_printer_def wf_config_def)

text \<open>Fields the conjuncts of the invariant do not read.\<close>

lemma recorded_heads_cong: "recorded t = recorded s \<Longrightarrow> recorded_heads c t = recorded_heads c s"
  by (rule ext) (simp add: recorded_heads_def)

lemma inv_result_cong:
  "res t = res s \<Longrightarrow> recorded t = recorded s \<Longrightarrow> inv_result c t = inv_result c s"
  by (simp add: inv_result_def recorded_heads_cong [of t s])

lemma inv_printer_cong:
  "res t = res s \<Longrightarrow> printed t = printed s \<Longrightarrow> inv_printer c t = inv_printer c s"
  by (simp add: inv_printer_def ttlComp_def)

lemma inv_clear [nt_inv]: "icmp_inv c s \<Longrightarrow> icmp_inv c (s\<lparr>pending := pending s - X\<rparr>)"
  using inv_result_cong [of "s\<lparr>pending := pending s - X\<rparr>" s c]
    inv_printer_cong [of "s\<lparr>pending := pending s - X\<rparr>" s c]
  by (simp add: icmp_inv_def inv_attempts_def inv_launch_def entered_def inv_final_def inv_permits_def)
    blast

lemma seqs_remove:
  "P \<subseteq> seqs A \<Longrightarrow> P - {seqOf (fst a) (snd a)} \<subseteq> seqs (A - {a})"
  by (auto simp: seqs_def)

lemma inv_record:
  assumes "wf_config c" "icmp_inv c s" "a \<in> entered s" "seqOf (fst a) (snd a) \<in> pending s"
    "TTL h = fst a"
  shows "\<exists>r b idx. add (res s) h (snd a) (NumMeasurements c) (MaxAttempts c) = Inr (r, b, idx) \<and>
    icmp_inv c (s\<lparr>pending := pending s - {seqOf (fst a) (snd a)}, res := r, recorded := insert a (recorded s)\<rparr>)"
proof -
  note inv = assms(2) [unfolded icmp_inv_def]
  have ia: "inv_attempts c s" and ir: "inv_result c s" using inv by simp_all
  have a: "a \<notin> recorded s" "a \<notin> failed s" "valid_attempt c a"
    by (rule pending_attempt [OF assms(1) ia assms(3,4)])+
  obtain r b idx where r: "add (res s) h (snd a) (NumMeasurements c) (MaxAttempts c) = Inr (r, b, idx)"
      "inv_result c (s\<lparr>res := r, recorded := insert a (recorded s)\<rparr>)"
      "\<forall>k < nat (MaxHops c). length (Hops (res s) ! k) \<le> length (Hops r ! k)"
    using record_add [OF assms(1) ir a(3,1) assms(5)] by blast
  let ?t = "s\<lparr>pending := pending s - {seqOf (fst a) (snd a)}, res := r, recorded := insert a (recorded s)\<rparr>"
  have "inv_result c ?t"
    using r(2) inv_result_cong [of ?t "s\<lparr>res := r, recorded := insert a (recorded s)\<rparr>" c] by simp
  moreover have "inv_printer c ?t"
  proof (rule inv_printer_mono [OF assms(1), of s])
    show "inv_printer c s" using inv by simp
    show "length (Hops (res ?t)) = length (Hops (res s))" using r(2) ir by (simp add: inv_result_def)
    show "length (Hops (res s) ! k) \<le> length (Hops (res ?t) ! k)" if "k < length (Hops (res s))" for k
      using r(3) that ir by (simp add: inv_result_def)
  qed simp
  moreover have "inv_attempts c ?t"
  proof -
    have "pending s \<subseteq> seqs (entered s - (recorded s \<union> failed s))" using inv by (simp add: inv_attempts_def)
    from seqs_remove [OF this, of a]
    have "pending s - {seqOf (fst a) (snd a)} \<subseteq> seqs (entered s - (insert a (recorded s) \<union> failed s))"
      by (simp add: Diff_insert [symmetric] insert_commute)
    then show ?thesis using inv a assms(3) by (simp add: inv_attempts_def entered_def)
  qed
  moreover have "inv_launch c ?t" using inv by (simp add: inv_launch_def)
  moreover have "inv_final c ?t" using inv by (auto simp: inv_final_def)
  moreover have "inv_permits c ?t" using inv by (simp add: inv_permits_def)
  ultimately show ?thesis using r(1) by (simp add: icmp_inv_def)
qed

lemma addWithGeoAsync_add:
  assumes "\<And>h'. TTL h' = TTL h \<Longrightarrow> \<exists>r b idx. add s h' i n m = Inr (r, b, idx) \<and> P r"
  shows "\<exists>r job. addWithGeoAsync s h i n m c = Inr (r, job) \<and> P r"
proof -
  define h' where "h' = (let hop = (if IPGeoSource c = None then h
                 else case Geo h of
                   None \<Rightarrow> h\<lparr>Geo := Some pendingGeo\<rparr>
                 | Some g \<Rightarrow> if Source g = [] then h\<lparr>Geo := Some (g\<lparr>Source := PendingGeoSource\<rparr>)\<rparr>
                             else h) in if Lang hop = [] then hop\<lparr>Lang := cfg_Lang c\<rparr> else hop)"
  have "TTL h' = TTL h" by (simp add: h'_def Let_def split: option.splits)
  then obtain r b idx where "add s h' i n m = Inr (r, b, idx)" "P r" using assms by blast
  then show ?thesis by (simp add: addWithGeoAsync_def h'_def Let_def)
qed

lemma inv_final_set:
  "icmp_inv c s \<Longrightarrow> valid_attempt c (ttl, i) \<Longrightarrow> (ttl, i) \<in> recorded s \<Longrightarrow> icmp_inv c (s\<lparr>final := ttl\<rparr>)"
  using inv_result_cong [of "s\<lparr>final := ttl\<rparr>" s c] inv_printer_cong [of "s\<lparr>final := ttl\<rparr>" s c]
  by (auto simp: valid_attempt_def icmp_inv_def inv_attempts_def inv_launch_def entered_def inv_final_def inv_permits_def)

lemma inv_lookups: "icmp_inv c s \<Longrightarrow> icmp_inv c (s\<lparr>lookups := l\<rparr>)"
  using inv_result_cong [of "s\<lparr>lookups := l\<rparr>" s c] inv_printer_cong [of "s\<lparr>lookups := l\<rparr>" s c]
  by (simp add: icmp_inv_def inv_attempts_def inv_launch_def entered_def inv_final_def inv_permits_def)

lemma inv_sentAt: "icmp_inv c s \<Longrightarrow> icmp_inv c (s\<lparr>sentAt := m\<rparr>)"
  using inv_result_cong [of "s\<lparr>sentAt := m\<rparr>" s c] inv_printer_cong [of "s\<lparr>sentAt := m\<rparr>" s c]
  by (simp add: icmp_inv_def inv_attempts_def inv_launch_def entered_def inv_final_def inv_permits_def)

lemma icmp_inv_init: "wf_config c \<Longrightarrow> icmp_inv c (icmp_init c)"
  by (auto simp: icmp_inv_def icmp_init_def inv_attempts_def inv_launch_def inv_result_def inv_final_def
      inv_printer_def inv_permits_def entered_def recorded_heads_def wf_config_def init_result_def setGeoWait_def
      wf_result_def)

lemma inv_addHop:
  assumes "wf_config c" "icmp_inv c s" "a \<in> entered s" "seqOf (fst a) (snd a) \<in> pending s"
  shows "\<exists>t. addHopWithIndex c (s\<lparr>pending := pending s - {seqOf (fst a) (snd a)}\<rparr>) peer
      (fst a) (snd a) rtt mpls = Inr t \<and> icmp_inv c t"
proof (cases "past_final s (fst a)")
  case True
  then show ?thesis using inv_clear [OF assms(2)] by (simp add: addHopWithIndex_def past_final_def)
next
  case False
  let ?q = "seqOf (fst a) (snd a)"
  let ?dst = "AddrIP peer \<noteq> [] \<and> ip_Equal (AddrIP peer) (DstIP c)"
  have ia: "inv_attempts c s" using assms(2) by (simp add: icmp_inv_def)
  have v: "valid_attempt c (fst a, snd a)" using pending_attempt [OF assms(1) ia assms(3,4)] by simp
  let ?h = "\<lparr>Success = True, Address = peer, Hostname = [], TTL = fst a, RTT = rtt, Error = None,
      Geo = None, Lang = [], MPLS = mpls\<rparr>"
  let ?t = "\<lambda>r. s\<lparr>pending := pending s - {?q}, res := r, recorded := insert a (recorded s)\<rparr>"
  have "\<exists>r job. addWithGeoAsync (res s) ?h (snd a) (NumMeasurements c) (MaxAttempts c) c = Inr (r, job) \<and> icmp_inv c (?t r)"
    by (rule addWithGeoAsync_add, rule inv_record [OF assms]) simp
  then obtain r job where r: "addWithGeoAsync (res s) ?h (snd a) (NumMeasurements c) (MaxAttempts c) c = Inr (r, job)"
      "icmp_inv c (?t r)" by blast
  define t where "t = (if ?dst \<and> \<not> (final s \<noteq> -1 \<and> fst a \<ge> final s) then (?t r)\<lparr>final := fst a\<rparr> else ?t r)"
  have "icmp_inv c t" using r(2) inv_final_set [OF r(2) v] by (simp add: t_def)
  moreover have "addHopWithIndex c (s\<lparr>pending := pending s - {?q}\<rparr>) peer (fst a) (snd a) rtt mpls =
      Inr (t\<lparr>lookups := lookups t @ (case job of None \<Rightarrow> [] | Some j \<Rightarrow> [j])\<rparr>)"
    using False r(1) by (auto simp: addHopWithIndex_def Let_def past_final_def t_def)
  ultimately show ?thesis using inv_lookups by simp
qed

lemma inv_match:
  assumes "wf_config c" "icmp_inv c s"
  shows "\<exists>t. match_task c s task = Inr t \<and> icmp_inv c t"
proof (cases "lookupSent s (task_seq task)")
  case None
  then show ?thesis using assms by (simp add: match_task_def)
next
  case (Some start)
  show ?thesis
  proof (cases "task_seq task \<in> pending s")
    case False
    then show ?thesis
      using Some inv_sentAt [OF assms(2)]
      by (simp add: match_task_def Let_def clearPending_def dropSent_def)
  next
    case True
    have ia: "inv_attempts c s" using assms(2) by (simp add: icmp_inv_def)
    obtain a where a: "a \<in> entered s" "task_seq task = seqOf (fst a) (snd a)" "valid_attempt c a"
      using pendingE [OF ia True] by metis
    obtain t where t: "addHopWithIndex c (s\<lparr>pending := pending s - {seqOf (fst a) (snd a)}\<rparr>)
        (task_peer task) (fst a) (snd a) (task_finish task - start) (task_mpls task) = Inr t" "icmp_inv c t"
      using inv_addHop [OF assms a(1)] True a(2) by metis
    then show ?thesis
      using Some True a(2) inv_sentAt [OF t(2)] seq_decode [OF a(3) assms(1)]
      by (simp add: match_task_def Let_def clearPending_def dropSent_def)
  qed
qed


lemma inv_timeout:
  assumes "wf_config c" "icmp_inv c s" "a \<in> timers s"
  shows "\<exists>t. timeout_fires c s a = Inr t \<and> icmp_inv c t"
proof -
  let ?q = "seqOf (fst a) (snd a)"
  define s1 where "s1 = s\<lparr>timers := timers s - {a}\<rparr>"
  have e: "a \<in> entered s1" using assms(2,3) by (auto simp: icmp_inv_def inv_attempts_def entered_def s1_def)
  have s1: "icmp_inv c s1"
    using assms(2) inv_result_cong [of s1 s c] inv_printer_cong [of s1 s c]
    by (auto simp: s1_def icmp_inv_def inv_attempts_def inv_launch_def entered_def inv_final_def
        inv_permits_def)
  show ?thesis
  proof (cases "?q \<in> pending s1 \<and> \<not> past_final s (fst a) \<and> \<not> ttlComp c s (fst a)")
    case False
    then show ?thesis
      using inv_clear [OF s1, of "{?q}"] s1
      by (auto simp: timeout_fires_def Let_def clearPending_def s1_def past_final_def ttlComp_def)
  next
    case True
    let ?h = "\<lparr>Success = False, Address = None, Hostname = [], TTL = fst a, RTT = 0,
      Error = Some HopTimeout, Geo = None, Lang = [], MPLS = []\<rparr>"
    obtain r b idx where r: "add (res s1) ?h (snd a) (NumMeasurements c) (MaxAttempts c) = Inr (r, b, idx)"
        "icmp_inv c (s1\<lparr>pending := pending s1 - {?q}, res := r, recorded := insert a (recorded s1)\<rparr>)"
      using inv_record [OF assms(1) s1 e, of ?h] True by auto
    then show ?thesis
      using True inv_sentAt [OF r(2)]
      by (auto simp: timeout_fires_def Let_def clearPending_def s1_def past_final_def ttlComp_def
          dropSent_def)
  qed
qed

lemma inv_same_result:
  assumes "inv_result c s" "inv_printer c s" "res t = res s" "recorded t = recorded s" "printed t = printed s"
  shows "inv_result c t" "inv_printer c t"
  using assms inv_result_cong [of t s c] inv_printer_cong [of t s c] by simp_all

lemma inv_leave_waiting:
  assumes "icmp_inv c s" "a \<in> waiting s"
  shows "icmp_inv c (s\<lparr>waiting := waiting s - {a}\<rparr>)"
proof -
  let ?s = "s\<lparr>waiting := waiting s - {a}\<rparr>"
  have i: "inv_attempts c s" using assms(1) by (simp add: icmp_inv_def)
  have ent: "entered ?s = insert a (entered s)" using i assms(2) by (auto simp: entered_def inv_attempts_def)
  have "seqs (entered s - (recorded s \<union> failed s)) \<subseteq> seqs (entered ?s - (recorded s \<union> failed s))"
    by (auto simp: ent seqs_def)
  then have "inv_attempts c ?s" using i by (auto simp: inv_attempts_def ent)
  then show ?thesis
    using assms(1) inv_same_result [of c s ?s]
    by (simp add: icmp_inv_def inv_launch_def inv_final_def inv_permits_def)
qed

lemma inv_send_enter:
  assumes "icmp_inv c s" "a \<in> waiting s" "ttlComp c s (fst a) \<or> int (length (sending s)) < ParallelRequests c"
  shows "icmp_inv c (send_enter c s a)"
proof -
  let ?s = "s\<lparr>waiting := waiting s - {a}\<rparr>" and ?q = "seqOf (fst a) (snd a)"
  have i: "inv_attempts c s" using assms(1) by (simp add: icmp_inv_def)
  have na: "a \<notin> entered s" "a \<in> spawned s" using assms(2) i by (auto simp: entered_def inv_attempts_def)
  have ent: "entered ?s = insert a (entered s)" using na assms(2) by (auto simp: entered_def)
  have fresh: "a \<notin> recorded s" "a \<notin> failed s" using i na by (auto simp: inv_attempts_def)
  have s1: "icmp_inv c ?s" by (rule inv_leave_waiting [OF assms(1,2)])
  then have i1: "inv_attempts c ?s" by (simp add: icmp_inv_def)
  let ?t = "?s\<lparr>pending := insert ?q (pending s), timers := insert a (timers s), sending := a # sending s\<rparr>"
  have "?q \<in> seqs (entered ?s - (recorded s \<union> failed s))"
    using fresh by (auto simp: ent seqs_def)
  moreover have "entered ?t = entered ?s" by (simp add: entered_def)
  ultimately have "inv_attempts c ?t" using i1 by (auto simp: inv_attempts_def ent)
  then have "icmp_inv c ?t" if "int (length (sending s)) < ParallelRequests c"
    using s1 that inv_same_result [of c ?s ?t]
    by (simp add: icmp_inv_def inv_launch_def inv_final_def inv_permits_def)
  then show ?thesis
    using s1 assms(3) by (auto simp: send_enter_def Let_def markPending_def ttlComp_def)
qed

lemma inv_send_ok: "icmp_inv c s \<Longrightarrow> icmp_inv c (send_ok s a start)"
proof -
  assume i: "icmp_inv c s"
  have "inv_attempts c (send_ok s a start)"
    using i set_remove1_subset [of a "sending s"]
    by (simp add: icmp_inv_def inv_attempts_def entered_def send_ok_def storeSent_def) blast
  then show ?thesis
    using i inv_same_result [of c s "send_ok s a start"] length_remove1 [of a "sending s"]
    by (simp add: icmp_inv_def inv_launch_def inv_final_def inv_permits_def send_ok_def storeSent_def split: if_splits)
qed

lemma inv_send_error:
  assumes "wf_config c" "icmp_inv c s" "a \<in> set (sending s)"
  shows "icmp_inv c (send_error s a)"
proof -
  let ?q = "seqOf (fst a) (snd a)" and ?t = "send_error s a"
  have i: "inv_attempts c s" using assms(2) by (simp add: icmp_inv_def)
  have e: "a \<in> entered s" using i assms(3) by (auto simp: inv_attempts_def)
  have ent: "entered ?t = entered s" by (simp add: entered_def send_error_def clearPending_def Let_def)
  have "pending s - {?q} \<subseteq> seqs (entered s - (recorded s \<union> failed ?t))"
  proof -
    have "pending s \<subseteq> seqs (entered s - (recorded s \<union> failed s))" using i by (simp add: inv_attempts_def)
    from seqs_remove [OF this, of a] show ?thesis
      by (rule order_trans) (auto simp: seqs_def send_error_def clearPending_def Let_def)
  qed
  moreover have "a \<notin> recorded s" if "?q \<in> pending s" by (rule pending_attempt [OF assms(1) i e that])
  ultimately have "inv_attempts c ?t"
    using i e set_remove1_subset [of a "sending s"]
    by (simp add: inv_attempts_def ent) (auto simp: send_error_def clearPending_def Let_def)
  then show ?thesis
    using assms(2) inv_same_result [of c s ?t] length_remove1 [of a "sending s"]
    by (simp add: icmp_inv_def inv_launch_def inv_final_def inv_permits_def send_error_def clearPending_def
        Let_def split: if_splits)
qed

lemma inv_timeout_cancelled: "icmp_inv c s \<Longrightarrow> icmp_inv c (timeout_cancelled s a)"
proof -
  assume i: "icmp_inv c s"
  have "inv_attempts c (timeout_cancelled s a)"
    using i by (simp add: icmp_inv_def inv_attempts_def entered_def timeout_cancelled_def clearPending_def) blast
  then show ?thesis
    using i inv_same_result [of c s "timeout_cancelled s a"]
    by (simp add: icmp_inv_def inv_launch_def inv_final_def inv_permits_def timeout_cancelled_def clearPending_def)
qed


lemma inv_launch_ttl:
  assumes "wf_config c" "icmp_inv c s"
  shows "icmp_inv c (launch_ttl c s)"
proof -
  have l: "inv_launch c s" using assms(2) by (simp add: icmp_inv_def)
  have "inv_launch c (launch_ttl c s)"
    using l assms(1) unfolding launch_ttl_def
    by (auto simp: inv_launch_def wf_config_def past_final_def split: if_splits) (fastforce+)?
  moreover have "inv_attempts c (launch_ttl c s)"
    using assms(2) by (simp add: icmp_inv_def inv_attempts_def entered_def launch_ttl_def)
  ultimately show ?thesis
    using assms(2) inv_same_result [of c s "launch_ttl c s"]
    by (simp add: icmp_inv_def inv_final_def inv_permits_def launch_ttl_def)
qed

lemma inv_launch_attempt:
  assumes "icmp_inv c s" "next_i s ttl = Some i"
  shows "icmp_inv c (launch_attempt c s ttl i)"
proof (cases "i < MaxAttempts c \<and> \<not> ttlComp c s ttl")
  case False
  have "inv_launch c (s\<lparr>next_i := (next_i s)(ttl := None)\<rparr>)"
    using assms by (auto simp: icmp_inv_def inv_launch_def)
  then show ?thesis
    using False assms inv_same_result [of c s "s\<lparr>next_i := (next_i s)(ttl := None)\<rparr>"]
    by (auto simp: icmp_inv_def inv_attempts_def entered_def inv_final_def inv_permits_def launch_attempt_def)
next
  case True
  let ?t = "launch_attempt c s ttl i"
  have l: "inv_launch c s" and a: "inv_attempts c s" using assms(1) by (simp_all add: icmp_inv_def)
  have v: "valid_attempt c (ttl, i)" using l assms(2) by (auto simp: inv_launch_def valid_attempt_def)
  have new: "(ttl, i) \<notin> spawned s" using l assms(2) by (auto simp: inv_launch_def)
  have "entered ?t = entered s" using True new by (auto simp: launch_attempt_def entered_def)
  then have "inv_attempts c ?t" using a v True by (auto simp: inv_attempts_def launch_attempt_def)
  moreover have "inv_launch c ?t"
    using l assms(2) True by (fastforce simp: inv_launch_def launch_attempt_def split: if_splits)
  ultimately show ?thesis
    using True assms(1) inv_same_result [of c s ?t]
    by (simp add: icmp_inv_def inv_final_def inv_permits_def launch_attempt_def)
qed

lemma inv_print_tick:
  assumes "wf_config c" "icmp_inv c s"
  shows "icmp_inv c (print_tick c s)"
proof -
  have r: "inv_result c s" and p: "inv_printer c s" using assms(2) by (simp_all add: icmp_inv_def)
  have "inv_printer c (print_tick c s)"
  proof (cases "ttlComp c s (printed s + 1)")
    case True
    have "printed s + 1 \<le> MaxHops c"
      using True r p assms(1) by (simp add: ttlComp_def Let_def inv_result_def wf_config_def)
    moreover have "ttlComp c s ttl" if "BeginHop c \<le> ttl" "ttl \<le> printed s + 1" for ttl
      using that True p by (cases "ttl = printed s + 1") (auto simp: inv_printer_def)
    ultimately show ?thesis
      using p by (auto simp: print_tick_def Let_def inv_printer_def ttlComp_def True [unfolded ttlComp_def])
  next
    case False
    then show ?thesis using p by (simp add: print_tick_def)
  qed
  moreover have "inv_result c (print_tick c s)"
    using r by (subst inv_result_cong [of _ s]) (auto simp: print_tick_def Let_def)
  ultimately show ?thesis
    using assms(2)
    by (simp add: icmp_inv_def inv_attempts_def inv_launch_def entered_def inv_final_def inv_permits_def
        print_tick_def Let_def)
qed

lemma inv_meta:
  assumes "wf_config c" "icmp_inv c s" "length (Hops r) = length (Hops (res s))" "tailDone r = tailDone (res s)"
    "\<And>k. k < length (Hops (res s)) \<Longrightarrow> length (Hops r ! k) = length (Hops (res s) ! k)"
  shows "icmp_inv c (s\<lparr>res := r\<rparr>)"
proof -
  have i: "inv_result c s" "inv_printer c s" using assms(2) by (simp_all add: icmp_inv_def)
  have "inv_printer c (s\<lparr>res := r\<rparr>)"
    by (rule inv_printer_mono [OF assms(1) i(2)]) (simp_all add: assms)
  moreover have "inv_result c (s\<lparr>res := r\<rparr>)"
    using i(1) assms(3-5) recorded_heads_cong [of "s\<lparr>res := r\<rparr>" s c]
    by (simp add: inv_result_def wf_result_def)
  ultimately show ?thesis
    using assms(2) by (simp add: icmp_inv_def inv_attempts_def inv_launch_def entered_def inv_final_def inv_permits_def)
qed


lemma meta_lengths:
  assumes "views r = views s"
  shows "length (Hops r) = length (Hops s)"
    "\<And>k. k < length (Hops s) \<Longrightarrow> length (Hops r ! k) = length (Hops s ! k)"
proof -
  have v: "map (map probe_view) (Hops r) = map (map probe_view) (Hops s)" using assms by (simp add: views_def)
  then show l: "length (Hops r) = length (Hops s)" by (rule map_eq_imp_length_eq)
  show "length (Hops r ! k) = length (Hops s ! k)" if "k < length (Hops s)" for k
  proof -
    have "map probe_view (Hops r ! k) = map probe_view (Hops s ! k)"
      using arg_cong [OF v, of "\<lambda>xs. xs ! k"] that l by simp
    then show ?thesis by (rule map_eq_imp_length_eq)
  qed
qed

lemma tailDone_meta [simp]:
  "tailDone (geo_goroutine r ttl idx h) = tailDone r" "tailDone (markPendingGeoTimeout r k) = tailDone r"
  by (simp_all add: geo_goroutine_def updateHop_def markPendingGeoTimeout_def Let_def)

lemma inv_irrelevant:
  "icmp_inv c s \<Longrightarrow> length q \<le> 60 \<Longrightarrow> length w \<le> 16 \<Longrightarrow> icmp_inv c (s\<lparr>matchQ := q, taken := w\<rparr>)"
  "icmp_inv c s \<Longrightarrow> icmp_inv c (s\<lparr>finished := True\<rparr>)"
  using inv_same_result [of c s "s\<lparr>matchQ := q, taken := w\<rparr>"] inv_same_result [of c s "s\<lparr>finished := True\<rparr>"]
  by (simp_all add: icmp_inv_def inv_attempts_def inv_launch_def entered_def inv_final_def inv_permits_def)

lemma inv_step:
  assumes "icmp_step c s t" "wf_config c" "icmp_inv c s"
  shows "icmp_inv c t"
  using assms(1)
proof cases
  case Launch_TTL
  then show ?thesis using inv_launch_ttl assms by simp
next
  case (Launch_Attempt ttl i)
  then show ?thesis using inv_launch_attempt assms by simp
next
  case (Send_Enter a)
  then show ?thesis using inv_send_enter assms by simp
next
  case (Send_Cancelled a)
  then show ?thesis using inv_leave_waiting assms by simp
next
  case (Send_OK a start)
  then show ?thesis using inv_send_ok assms by simp
next
  case (Send_Error a)
  then show ?thesis using inv_send_error assms by simp
next
  case (Timeout a)
  then show ?thesis using inv_timeout [OF assms(2,3), of a] by auto
next
  case (Timeout_Cancelled a)
  then show ?thesis using inv_timeout_cancelled assms by simp
next
  case (Message task)
  then show ?thesis
    using inv_irrelevant(1) [OF assms(3), of "matchQ s @ [task]" "taken s"] assms(3)
    by (simp add: handleICMPMessage_def icmp_inv_def inv_permits_def)
next
  case (Take task q)
  then show ?thesis
    using inv_irrelevant(1) [OF assms(3), of q "taken s @ [task]"] assms(3)
    by (simp add: icmp_inv_def inv_permits_def)
next
  case (Match xs task ys)
  have "icmp_inv c (s\<lparr>matchQ := matchQ s, taken := xs @ ys\<rparr>)"
    using Match(2) assms(3) by (intro inv_irrelevant(1)) (auto simp: icmp_inv_def inv_permits_def)
  then have "icmp_inv c (s\<lparr>taken := xs @ ys\<rparr>)" by simp
  then have "\<exists>t. match_task c (s\<lparr>taken := xs @ ys\<rparr>) task = Inr t \<and> icmp_inv c t"
    by (rule inv_match [OF assms(2)])
  then show ?thesis using Match(3) by simp
next
  case (Lookup xs ttl idx h ys h')
  have "views (geo_goroutine (res s) ttl idx h') = views (res s)" by (simp add: geo_goroutine_def)
  from inv_lookups [OF inv_meta [OF assms(2,3) meta_lengths(1) [OF this] _ meta_lengths(2) [OF this]]]
  show ?thesis using Lookup by simp
next
  case (Wait_Over k)
  have "views (markPendingGeoTimeout (res s) k) = views (res s)" by simp
  from inv_meta [OF assms(2,3) meta_lengths(1) [OF this] _ meta_lengths(2) [OF this]]
  show ?thesis using Wait_Over by simp
next
  case Print
  then show ?thesis using inv_print_tick assms by simp
next
  case Cancel
  then show ?thesis using inv_irrelevant(2) assms by simp
qed

interpretation icmp_run: step_invariant "icmp_step c" "\<lambda>s. wf_config c \<and> icmp_inv c s" for c
  by unfold_locales (auto intro: inv_step)

lemma icmp_reachable_inv:
  "wf_config c \<Longrightarrow> reaches (icmp_step c) (icmp_init c) s \<Longrightarrow> icmp_inv c s"
  using icmp_run.reachable_inv icmp_inv_init by blast


end
