(* ===== verification/Icmp_Tracer_Runs.thy ===== *)
theory Icmp_Tracer_Runs
  imports Icmp_Tracer
begin

unbundle bit_operations_syntax

section \<open>Runs of the ICMP tracer\<close>

text \<open>
  The theorems about every reachable state of \<open>icmp_step\<close>, and a concrete run of it on which
  they are applied.
\<close>

subsection \<open>What every run of the tracer guarantees\<close>

lemma bucket_le:
  assumes "wf_config c" "inv_result c s" "k < nat (MaxHops c)"
  shows "int (length (Hops (res s) ! k)) \<le> NumMeasurements c"
proof -
  have "card (recorded_heads c s k) \<le> card {0..<NumMeasurements c - 1}"
    by (rule card_mono) (auto simp: recorded_heads_def)
  then show ?thesis using assms by (auto simp: inv_result_def wf_config_def)
qed

lemma icmp_inv_ok:
  assumes "wf_config c" "icmp_inv c s"
  shows "int (length (sending s)) \<le> max 0 (ParallelRequests c) \<and>
    (\<forall>k < nat (MaxHops c). int (length (Hops (res s) ! k)) \<le> NumMeasurements c) \<and>
    (\<forall>ttl. BeginHop c \<le> ttl \<and> ttl \<le> printed s \<longrightarrow>
       int (length (Hops (res s) ! nat (ttl - 1))) = NumMeasurements c) \<and>
    (final s = -1 \<or> BeginHop c \<le> final s \<and> final s \<le> MaxHops c \<and>
       (\<exists>i. (final s, i) \<in> spawned s \<inter> recorded s))"
proof -
  note i = assms(2)
  then have r: "inv_result c s" and p: "inv_printer c s" by (simp_all add: icmp_inv_def)
  have "int (length (Hops (res s) ! nat (ttl - 1))) = NumMeasurements c"
    if "BeginHop c \<le> ttl" "ttl \<le> printed s" for ttl
  proof (rule antisym)
    have "1 \<le> ttl" "ttl \<le> MaxHops c" using that p assms(1) by (auto simp: inv_printer_def wf_config_def)
    then show "int (length (Hops (res s) ! nat (ttl - 1))) \<le> NumMeasurements c"
      by (intro bucket_le [OF assms(1) r]) auto
    show "NumMeasurements c \<le> int (length (Hops (res s) ! nat (ttl - 1)))"
      using p that by (simp add: inv_printer_def ttlComp_def Let_def)
  qed
  moreover have "BeginHop c \<le> final s \<and> final s \<le> MaxHops c \<and> (\<exists>i. (final s, i) \<in> spawned s \<inter> recorded s)"
    if known: "final s \<noteq> -1"
  proof -
    have a: "inv_attempts c s" using i by (simp add: icmp_inv_def)
    obtain k where k: "(final s, k) \<in> recorded s" using i known by (auto simp: icmp_inv_def inv_final_def)
    then have "(final s, k) \<in> spawned s" using a by (auto simp: inv_attempts_def entered_def)
    then have "valid_attempt c (final s, k)" using a by (auto simp: inv_attempts_def)
    then show ?thesis using k \<open>(final s, k) \<in> spawned s\<close> by (auto simp: valid_attempt_def)
  qed
  ultimately show ?thesis
    using i bucket_le [OF assms(1) r] by (auto simp: icmp_inv_def inv_permits_def)
qed

text \<open>C1. In every reachable state of a trace, under every interleaving of launchers, senders,
  timeouts, replies, lookups and cancellation: the number of packets being sent respects the
  configured parallelism; no TTL holds more hops than configured; every TTL the printer has passed
  is complete; and the final hop, once known, lies between the first and the last hop of the configuration and is
  the TTL of an attempt that was launched and whose outcome was recorded.\<close>

theorem tracer_invariant:
  assumes "wf_config c" "reaches (icmp_step c) (icmp_init c) s"
  shows "int (length (sending s)) \<le> max 0 (ParallelRequests c) \<and>
    (\<forall>k < nat (MaxHops c). int (length (Hops (res s) ! k)) \<le> NumMeasurements c) \<and>
    (\<forall>ttl. BeginHop c \<le> ttl \<and> ttl \<le> printed s \<longrightarrow>
       int (length (Hops (res s) ! nat (ttl - 1))) = NumMeasurements c) \<and>
    (final s = -1 \<or> BeginHop c \<le> final s \<and> final s \<le> MaxHops c \<and>
       (\<exists>i. (final s, i) \<in> spawned s \<inter> recorded s))"
  using icmp_inv_ok [OF assms(1) icmp_reachable_inv [OF assms]] .

text \<open>No handler ever panics: whatever message is matched and whichever timer runs out in a
  reachable state, the handler returns a state.\<close>

theorem tracer_no_panic:
  assumes "wf_config c" "reaches (icmp_step c) (icmp_init c) s" "a \<in> timers s"
  shows "(\<exists>t. match_task c s task = Inr t) \<and> (\<exists>t. timeout_fires c s a = Inr t)"
  using icmp_reachable_inv [OF assms(1,2)] inv_match [OF assms(1)] inv_timeout [OF assms(1) _ assms(3)] by blast

text \<open>C2. An attempt that has reported to the result cannot report again: neither its timer nor
  any reply carrying its sequence number, however late or often, changes what was measured.\<close>

theorem attempt_reports_once:
  assumes "wf_config c" "reaches (icmp_step c) (icmp_init c) s" "a \<in> recorded s"
  shows "\<exists>t u. timeout_fires c s a = Inr t \<and> res t = res s \<and>
    match_task c s (task\<lparr>task_seq := seqOf (fst a) (snd a)\<rparr>) = Inr u \<and> res u = res s"
proof -
  have i: "inv_attempts c s" using icmp_reachable_inv [OF assms(1,2)] by (simp add: icmp_inv_def)
  then have "a \<in> entered s" using assms(3) by (auto simp: inv_attempts_def)
  then have "seqOf (fst a) (snd a) \<notin> pending s"
    using pending_attempt(1) [OF assms(1) i] assms(3) by blast
  then show ?thesis
    by (simp add: timeout_fires_def match_task_def clearPending_def dropSent_def Let_def split: option.splits)
qed

lemma addHop_views:
  assumes "addHopWithIndex c s peer ttl i rtt mpls = Inr t" "wf_result (res s)" "1 \<le> ttl"
    "ttl \<le> int (length (Hops (res s)))" "k \<noteq> nat (ttl - 1)"
  shows "Hops (res t) ! k = Hops (res s) ! k"
proof (cases "past_final s ttl")
  case False
  then obtain r job where r: "Hops (res t) = Hops r"
      "addWithGeoAsync (res s) \<lparr>Success = True, Address = peer, Hostname = [], TTL = ttl, RTT = rtt,
         Error = None, Geo = None, Lang = [], MPLS = mpls\<rparr> i (NumMeasurements c) (MaxAttempts c) c = Inr (r, job)"
    using assms(1) by (auto simp: addHopWithIndex_def Let_def rbind_eq_Inr split: if_splits)
  have "\<exists>r job. addWithGeoAsync (res s) \<lparr>Success = True, Address = peer, Hostname = [], TTL = ttl, RTT = rtt,
         Error = None, Geo = None, Lang = [], MPLS = mpls\<rparr> i (NumMeasurements c) (MaxAttempts c) c = Inr (r, job) \<and>
       Hops r ! k = Hops (res s) ! k"
  proof (rule addWithGeoAsync_add)
    fix h' :: hop
    assume "TTL h' = TTL \<lparr>Success = True, Address = peer, Hostname = [], TTL = ttl, RTT = rtt,
         Error = None, Geo = None, Lang = [], MPLS = mpls\<rparr>"
    then have "TTL h' = ttl" by simp
    then show "\<exists>r b idx. add (res s) h' i (NumMeasurements c) (MaxAttempts c) = Inr (r, b, idx) \<and>
        Hops r ! k = Hops (res s) ! k"
      using add_bucket [of "res s" h' i "NumMeasurements c" "MaxAttempts c"] assms(2-5)
      by (auto simp: slot_def)
  qed
  then show ?thesis using r by auto
qed (use assms in \<open>auto simp: addHopWithIndex_def\<close>)

text \<open>C3. A reply is credited to the probe that it answers: if matching a message changes the
  result at all, the message carries the sequence number of an attempt that was sent, still open
  until now, and only the bucket of that attempt's TTL changes.\<close>

theorem reply_credited:
  assumes "wf_config c" "reaches (icmp_step c) (icmp_init c) s" "match_task c s task = Inr t"
    "res t \<noteq> res s"
  shows "\<exists>a. a \<in> spawned s \<and> a \<notin> recorded s \<and> task_seq task = seqOf (fst a) (snd a) \<and>
    recorded t = insert a (recorded s) \<and>
    (\<forall>k. k \<noteq> nat (fst a - 1) \<longrightarrow> Hops (res t) ! k = Hops (res s) ! k)"
proof -
  have inv: "icmp_inv c s" by (rule icmp_reachable_inv [OF assms(1,2)])
  then have ia: "inv_attempts c s" and ir: "inv_result c s" by (simp_all add: icmp_inv_def)
  obtain start where start: "lookupSent s (task_seq task) = Some start"
    using assms(3,4) by (cases "lookupSent s (task_seq task)") (auto simp: match_task_def)
  have "task_seq task \<in> pending s"
    using assms(3,4) start by (auto simp: match_task_def Let_def clearPending_def dropSent_def split: if_splits)
  then obtain a where a: "a \<in> entered s" "a \<notin> recorded s" "task_seq task = seqOf (fst a) (snd a)"
      "valid_attempt c a" "task_seq task \<in> pending s"
    using pendingE [OF ia] by metis
  let ?s = "s\<lparr>pending := pending s - {task_seq task}\<rparr>"
  obtain u where u: "addHopWithIndex c ?s (task_peer task) (fst a) (snd a) (task_finish task - start)
        (task_mpls task) = Inr u" "t = dropSent u (task_seq task)"
    using assms(3) start a(3,5) seq_decode [OF a(4) assms(1)]
    by (auto simp: match_task_def Let_def clearPending_def rbind_eq_Inr)
  have "recorded u = insert a (recorded s)"
    using u assms(4) by (auto simp: addHopWithIndex_def Let_def rbind_eq_Inr dropSent_def split: if_splits)
  moreover have "Hops (res u) ! k = Hops (res s) ! k" if "k \<noteq> nat (fst a - 1)" for k
  proof -
    have "Hops (res u) ! k = Hops (res ?s) ! k"
      using a(4) ir that by (intro addHop_views [OF u(1)]) (auto simp: valid_attempt_def inv_result_def)
    then show ?thesis by simp
  qed
  ultimately show ?thesis using a u(2) by (intro exI [of _ a]) (auto simp: dropSent_def entered_def)
qed


text \<open>How each handler moves the final hop and the failed attempts.\<close>

definition final_moves :: "icmp_state \<Rightarrow> icmp_state \<Rightarrow> bool" where
  "final_moves s t \<longleftrightarrow> final t = final s \<or> 0 \<le> final t \<and> (final s = -1 \<or> final t < final s)"

lemma addHop_final:
  "addHopWithIndex c s peer ttl i rtt mpls = Inr t \<Longrightarrow> 0 \<le> ttl \<Longrightarrow>
   failed t = failed s \<and> final_moves s t"
  unfolding final_moves_def
  by (auto simp: addHopWithIndex_def Let_def rbind_eq_Inr split: if_splits)

lemma match_final:
  "match_task c s task = Inr t \<Longrightarrow>
   failed t = failed s \<and> final_moves s t"
  by (auto simp: match_task_def and_FF final_moves_def Let_def rbind_eq_Inr clearPending_def dropSent_def
      split: option.splits if_splits dest!: addHop_final)

lemma timeout_final:
  "timeout_fires c s a = Inr t \<Longrightarrow> failed t = failed s \<and> final t = final s"
  by (auto simp: timeout_fires_def Let_def rbind_eq_Inr clearPending_def dropSent_def split: if_splits)

lemma step_final:
  "icmp_step c s t \<Longrightarrow> failed s \<subseteq> failed t \<and> final_moves s t"
proof (induction rule: icmp_step.induct)
  case (Timeout s a t)
  then show ?case using timeout_final [of c s a t] by (simp add: final_moves_def)
next
  case (Match s xs task ys t)
  then show ?case using match_final [OF Match(3)] by (simp add: final_moves_def)
qed (auto simp: final_moves_def launch_ttl_def launch_attempt_def send_enter_def send_ok_def send_error_def markPending_def
    storeSent_def clearPending_def timeout_cancelled_def handleICMPMessage_def print_tick_def Let_def)

definition final_rank :: "Config \<Rightarrow> icmp_state \<Rightarrow> int" where
  "final_rank c s = (if final s = -1 then MaxHops c + 1 else final s)"

interpretation icmp_final: step_monotone "icmp_step c" "\<lambda>s. wf_config c \<and> icmp_inv c s" "final_rank c" for c
proof
  fix s t
  assume h: "wf_config c \<and> icmp_inv c s" "icmp_step c s t"
  then have "inv_final c s" "inv_final c t" using inv_step by (auto simp: icmp_inv_def)
  then show "final_rank c t \<le> final_rank c s"
    using step_final [OF h(2)] h(1) by (auto simp: final_rank_def final_moves_def inv_final_def wf_config_def)
qed

lemma icmp_final_down:
  assumes "wf_config c" "icmp_inv c s" "reaches (icmp_step c) s t" "final s \<noteq> -1"
  shows "final t \<noteq> -1 \<and> final t \<le> final s"
proof -
  have "final_rank c t \<le> final_rank c s" using icmp_final.rank_reaches [OF assms(3)] assms(1,2) by blast
  then show ?thesis
    using assms(2,4) by (auto simp: final_rank_def icmp_inv_def inv_final_def split: if_splits)
qed

text \<open>The final hop only moves down: once a reply of the destination has set it, it stays set
  and no later reply raises it.\<close>

theorem final_decreases:
  assumes "wf_config c" "reaches (icmp_step c) (icmp_init c) s" "reaches (icmp_step c) s t" "final s \<noteq> -1"
  shows "final t \<noteq> -1 \<and> final t \<le> final s"
  by (rule icmp_final_down [OF assms(1) icmp_reachable_inv [OF assms(1,2)] assms(3,4)])

lemma failed_mono: "reaches (icmp_step c) s t \<Longrightarrow> failed s \<subseteq> failed t"
  by (induction rule: reaches.induct) (auto dest: step_final)

lemma reaches_trans: "reaches r s t \<Longrightarrow> reaches r t u \<Longrightarrow> reaches r s u"
  by (rotate_tac 1, induction rule: reaches.induct) (auto intro: reaches_step)

lemma failed_incomplete:
  assumes "wf_config c" "icmp_inv c t" "a \<in> failed t" "snd a < NumMeasurements c - 1"
  shows "\<not> ttlComp c t (fst a)"
proof -
  have ia: "inv_attempts c t" and ir: "inv_result c t" using assms(2) by (simp_all add: icmp_inv_def)
  then have v: "valid_attempt c a" "a \<notin> recorded t" using assms(3) by (auto simp: inv_attempts_def entered_def)
  let ?k = "nat (fst a - 1)"
  have k: "?k < nat (MaxHops c)" "int ?k + 1 = fst a" using v by (auto simp: valid_attempt_def)
  have "card (recorded_heads c t ?k) \<le> card ({0..<NumMeasurements c - 1} - {snd a})"
    using v(2) k by (intro card_mono) (cases a; auto simp: recorded_heads_def)+
  also have "\<dots> = nat (NumMeasurements c - 2)"
    using v(1) assms(4) by (simp add: card_Diff_singleton_if valid_attempt_def)
  finally have "int (length (Hops (res t) ! ?k)) < NumMeasurements c"
    using ir k(1) assms(1,4) v(1) by (auto simp: inv_result_def valid_attempt_def wf_config_def)
  then show ?thesis by (simp add: ttlComp_def Let_def)
qed

text \<open>A transmission error of one of the first attempts of a TTL leaves that TTL incomplete for
  ever: its bucket never reaches the configured number of hops, the printer never passes the TTL,
  and unless a reply of the destination moves the final hop below it, no round of the printer ends
  the trace, so that \<open>Execute\<close> returns only when the caller cancels it.\<close>

theorem send_error_blocks_trace:
  assumes "wf_config c" "reaches (icmp_step c) (icmp_init c) s" "a \<in> failed s"
    "snd a < NumMeasurements c - 1" "BeginHop c \<le> fst a" "reaches (icmp_step c) s t"
  shows "\<not> ttlComp c t (fst a) \<and> printed t < fst a \<and>
    (final t = -1 \<or> fst a \<le> final t \<longrightarrow> finished (print_tick c t) = finished t)"
proof -
  have t: "reaches (icmp_step c) (icmp_init c) t" using assms(2,6) by (rule reaches_trans)
  have i: "icmp_inv c t" by (rule icmp_reachable_inv [OF assms(1) t])
  have a: "a \<in> failed t" using failed_mono [OF assms(6)] assms(3) by blast
  have n: "\<not> ttlComp c t (fst a)" by (rule failed_incomplete [OF assms(1) i a assms(4)])
  have p: "inv_printer c t" using i by (simp add: icmp_inv_def)
  then have lt: "printed t < fst a" using n assms(5) by (force simp: inv_printer_def)
  have "valid_attempt c a" using i a by (auto simp: icmp_inv_def inv_attempts_def entered_def)
  then have "finished (print_tick c t) = finished t" if "final t = -1 \<or> fst a \<le> final t"
    using that n lt p assms(1)
    by (cases "printed t + 1 = fst a")
      (auto simp: print_tick_def Let_def valid_attempt_def inv_printer_def wf_config_def)
  then show ?thesis using n lt by blast
qed

subsection \<open>A concrete run\<close>

text \<open>Two TTLs, two measurements: the first attempt of TTL 1 is launched and enters \<open>send\<close>, whose
  transmission succeeds in one run (then a reply of the destination is matched) and fails in another.\<close>

definition run_config :: Config where
  "run_config = sample_config\<lparr>MaxHops := 2, NumMeasurements := 2, MaxAttempts := 2, ParallelRequests := 10\<rparr>"

definition run_task :: matchTask where
  "run_task = \<lparr>task_seq = 256, task_peer = Some (IPAddr [8, 8, 8, 8] []), task_finish = 9, task_mpls = []\<rparr>"

definition run_sending :: icmp_state where
  "run_sending = send_enter run_config
     (launch_attempt run_config (launch_ttl run_config (icmp_init run_config)) 1 0) (1, 0)"

definition run_failed :: icmp_state where
  "run_failed = send_error run_sending (1, 0)"

lemmas run_defs = run_config_def run_task_def sample_config_def icmp_init_def launch_ttl_def past_final_def
  launch_attempt_def ttlComp_def init_result_def setGeoWait_def send_enter_def markPending_def run_sending_def Let_def

lemma wf_run_config [simp]: "wf_config run_config"
  by (simp add: run_config_def sample_config_def wf_config_def)

lemma seqOf_run: "seqOf 1 0 = 256" by (simp add: seqOf_eq)

lemma run_sending_eq:
  "run_sending = (icmp_init run_config)\<lparr>next_ttl := 2, next_i := [1 \<mapsto> 1], spawned := {(1, 0)},
     waiting := {}, pending := {256}, timers := {(1, 0)}, sending := [(1, 0)]\<rparr>"
  by (simp add: run_defs seqOf_run numeral_2_eq_2)

lemma run_sending_reachable: "reaches (icmp_step run_config) (icmp_init run_config) run_sending"
proof -
  let ?c = run_config
  let ?s1 = "launch_ttl ?c (icmp_init ?c)" and ?s2 = "launch_attempt ?c (launch_ttl ?c (icmp_init ?c)) 1 0"
  have "icmp_step ?c (icmp_init ?c) ?s1" by (rule Launch_TTL) (simp add: icmp_init_def)
  moreover have "icmp_step ?c ?s1 ?s2" by (rule Launch_Attempt) (simp_all add: run_defs)
  moreover have "icmp_step ?c ?s2 (send_enter ?c ?s2 (1, 0))"
    by (rule Send_Enter) (simp_all add: run_defs numeral_2_eq_2)
  ultimately show ?thesis unfolding run_sending_def by (blast intro: reaches_step)
qed

lemma run_failed_reachable: "reaches (icmp_step run_config) (icmp_init run_config) run_failed"
  unfolding run_failed_def
  by (rule reaches_step [OF run_sending_reachable], rule Send_Error) (simp add: run_sending_eq)

lemma run_failed_eq: "(1, 0) \<in> failed run_failed"
  by (simp add: run_failed_def send_error_def run_sending_eq clearPending_def seqOf_run Let_def)

theorem send_error_blocks_trace_witness:
  "\<not> ttlComp run_config run_failed 1 \<and> printed run_failed < 1 \<and>
    finished (print_tick run_config run_failed) = finished run_failed"
proof -
  have "final run_failed = -1"
    by (simp add: run_failed_def send_error_def run_sending_eq clearPending_def Let_def icmp_init_def)
  then show ?thesis
    using send_error_blocks_trace [OF wf_run_config run_failed_reachable run_failed_eq _ _ reaches_refl]
    by (simp add: run_config_def sample_config_def)
qed

theorem tracer_invariant_witness:
  "int (length (sending run_sending)) \<le> 10 \<and> final run_sending = -1"
  using tracer_invariant [OF wf_run_config run_sending_reachable]
  by (simp add: run_config_def sample_config_def) (simp add: run_sending_eq icmp_init_def)

theorem tracer_no_panic_witness:
  "\<exists>t. timeout_fires run_config run_sending (1, 0) = Inr t"
  using tracer_no_panic [OF wf_run_config run_sending_reachable, of "(1, 0)"] by (simp add: run_sending_eq)

definition run_sent :: icmp_state where "run_sent = send_ok run_sending (1, 0) 5"

lemma run_sent_reachable: "reaches (icmp_step run_config) (icmp_init run_config) run_sent"
  unfolding run_sent_def
  by (rule reaches_step [OF run_sending_reachable], rule Send_OK) (simp add: run_sending_eq)

lemma run_match:
  "match_task run_config run_sent run_task =
     Inr (run_sent\<lparr>pending := {}, sentAt := Map.empty, final := 1, recorded := {(1, 0)},
       res := (setGeoWait (init_result 2) 2)\<lparr>Hops := [[\<lparr>Success = True, Address = Some (IPAddr [8, 8, 8, 8] []),
         Hostname = [], TTL = 1, RTT = 4, Error = None, Geo = None, Lang = ''en'', MPLS = []\<rparr>], []]\<rparr>\<rparr>)"
  by (simp add: match_task_def run_sent_def send_ok_def run_sending_eq storeSent_def lookupSent_def seqOf_run
      run_defs clearPending_def addHopWithIndex_def ip_Equal_def addWithGeoAsync_def add_def numeral_2_eq_2
      dropSent_def)


definition run_matched :: icmp_state where
  "run_matched = projr (match_task run_config run_sent run_task)"

lemma run_matched_eq: "match_task run_config run_sent run_task = Inr run_matched"
  by (simp add: run_matched_def run_match)

lemma run_matched_facts:
  "(1, 0) \<in> recorded run_matched" "final run_matched = 1" "res run_matched \<noteq> res run_sent"
  by (simp_all add: run_matched_def run_match)
    (simp add: run_sent_def send_ok_def storeSent_def run_sending_eq icmp_init_def run_config_def sample_config_def
      init_result_def setGeoWait_def numeral_2_eq_2)

lemma run_matched_reachable: "reaches (icmp_step run_config) (icmp_init run_config) run_matched"
proof -
  let ?a = "handleICMPMessage run_sent run_task"
  let ?b = "?a\<lparr>matchQ := [], taken := taken ?a @ [run_task]\<rparr>"
  have q: "matchQ run_sent = []" "taken run_sent = []" "finished run_sent = False"
    by (simp_all add: run_sent_def send_ok_def storeSent_def run_sending_eq icmp_init_def)
  have "icmp_step run_config run_sent ?a" by (rule Message)
  moreover have "icmp_step run_config ?a ?b"
    by (rule Take [where task = run_task and q = "[]"]) (simp_all add: handleICMPMessage_def q)
  moreover have "icmp_step run_config ?b run_matched"
  proof (rule Match [where xs = "[]" and ys = "[]" and task = run_task])
    have "?b\<lparr>taken := [] @ []\<rparr> = run_sent" using q by (simp add: handleICMPMessage_def)
    then show "match_task run_config (?b\<lparr>taken := [] @ []\<rparr>) run_task = Inr run_matched"
      by (simp only: run_matched_eq)
  qed (simp_all add: handleICMPMessage_def q)
  ultimately show ?thesis using run_sent_reachable by (blast intro: reaches_step)
qed

theorem attempt_reports_once_witness:
  "\<exists>t u. timeout_fires run_config run_matched (1, 0) = Inr t \<and> res t = res run_matched \<and>
    match_task run_config run_matched (run_task\<lparr>task_seq := seqOf 1 0\<rparr>) = Inr u \<and>
    res u = res run_matched"
  using attempt_reports_once [OF wf_run_config run_matched_reachable run_matched_facts(1), of run_task]
  by simp

theorem reply_credited_witness:
  "\<exists>a. a \<in> spawned run_sent \<and> task_seq run_task = seqOf (fst a) (snd a) \<and>
    recorded run_matched = insert a (recorded run_sent)"
  using reply_credited [OF wf_run_config run_sent_reachable run_matched_eq run_matched_facts(3)] by blast

theorem final_decreases_witness: "final run_matched \<noteq> -1 \<and> final run_matched \<le> final run_matched"
  by (rule final_decreases [OF wf_run_config run_matched_reachable reaches_refl])
    (simp add: run_matched_facts)

subsection \<open>A first hop beyond the last\<close>

text \<open>\<open>Execute\<close> launches the first hop without looking at the last. With a first hop beyond the last one, the result has no list for the
  TTL, and the time-out of its first attempt panics.\<close>

definition beyond_config :: Config where
  "beyond_config = run_config\<lparr>BeginHop := 3\<rparr>"

definition beyond_sent :: icmp_state where
  "beyond_sent = send_ok (send_enter beyond_config
     (launch_attempt beyond_config (launch_ttl beyond_config (icmp_init beyond_config)) 3 0) (3, 0)) (3, 0) 5"

lemma beyond_sent_eq:
  "beyond_sent = (icmp_init beyond_config)\<lparr>next_ttl := 4, next_i := [3 \<mapsto> 1], spawned := {(3, 0)},
     waiting := {}, pending := {768}, timers := {(3, 0)}, sending := [], sentAt := [768 \<mapsto> 5]\<rparr>"
  by (simp add: beyond_sent_def send_ok_def storeSent_def seqOf_eq beyond_config_def run_defs numeral_2_eq_2)

lemma beyond_reachable: "reaches (icmp_step beyond_config) (icmp_init beyond_config) beyond_sent"
proof -
  let ?c = beyond_config
  let ?s1 = "launch_ttl ?c (icmp_init ?c)"
  let ?s2 = "launch_attempt ?c ?s1 3 0"
  let ?s3 = "send_enter ?c ?s2 (3, 0)"
  have 1: "icmp_step ?c (icmp_init ?c) ?s1" by (rule Launch_TTL) (simp add: icmp_init_def)
  have 2: "icmp_step ?c ?s1 ?s2" by (rule Launch_Attempt) (simp_all add: beyond_config_def run_defs)
  have 3: "icmp_step ?c ?s2 ?s3" by (rule Send_Enter) (simp_all add: beyond_config_def run_defs numeral_2_eq_2)
  have 4: "icmp_step ?c ?s3 beyond_sent"
    unfolding beyond_sent_def by (rule Send_OK) (simp add: beyond_config_def run_defs numeral_2_eq_2)
  note step = reaches_step [of "icmp_step ?c"]
  show ?thesis by (rule step [OF step [OF step [OF step [OF reaches_refl 1] 2] 3] 4])
qed

lemma begin_beyond_max_panics:
  "reaches (icmp_step beyond_config) (icmp_init beyond_config) beyond_sent \<and> (3, 0) \<in> timers beyond_sent \<and>
   timeout_fires beyond_config beyond_sent (3, 0) = Inl Panic"
  using beyond_reachable
  by (simp add: beyond_sent_eq timeout_fires_def clearPending_def seqOf_eq past_final_def ttlComp_def add_def go_index_def
      beyond_config_def run_defs numeral_2_eq_2)

end
