(* ===== verification/Mtr_Stats.thy ===== *)
theory Mtr_Stats
  imports Trace_Config "HOL-Library.List_Lexorder" "HOL-Library.Char_ord" "HOL-Library.Product_Lexorder"
begin

section \<open>The MTR statistics: \<open>trace/mtr_stats.go\<close> and \<open>trace/mtr_stats_helpers.go\<close>\<close>

text \<open>
  The aggregator keeps, per TTL, a map from a hop key to an accumulator of counters and sums. Maps
  are association lists without duplicate keys, and the order of the list is the order in which
  a \<open>range\<close> visits the map; Go leaves that order open, and the theorems below do not depend on it.
  A \<open>float64\<close> is a real number: sums, ratios and the variance are computed without rounding.
  \<open>math.MaxFloat64\<close>, the marker of \<open>no best time yet\<close>, is its exact value. A set of labels is a
  finite set.
\<close>

definition MaxFloat64 :: real where
  "MaxFloat64 = (2 ^ 53 - 1) * 2 ^ 971"

record mtrHopAccum =
  acc_ttl :: int
  acc_key :: string
  acc_host :: string
  acc_ip :: string
  acc_sent :: int
  acc_received :: int
  acc_sum :: real
  acc_sumSq :: real
  acc_last :: real
  acc_best :: real
  acc_worst :: real
  acc_geo :: "geo_data option"
  acc_order :: int
  acc_mplsSet :: "string set"

record MTRAggregator =
  stats :: "(int \<times> (string \<times> mtrHopAccum) list) list"
  nextOrder :: int

record mtrHopGroup =
  grp_host :: string
  grp_ip :: string
  grp_geo :: "geo_data option"
  grp_sum :: real
  grp_sumSq :: real
  grp_last :: real
  grp_best :: real
  grp_worst :: real
  grp_received :: int
  grp_count :: int
  grp_mpls :: "string set"

record MTRHopStat =
  stat_TTL :: int
  stat_Host :: string
  stat_IP :: string
  stat_Loss :: real
  stat_Snt :: int
  stat_Last :: real
  stat_Avg :: real
  stat_Best :: real
  stat_Wrst :: real
  stat_StDev :: real
  stat_Geo :: "geo_data option"
  stat_MPLS :: "string list"
  stat_Received :: int

definition NewMTRAggregator :: MTRAggregator where
  "NewMTRAggregator = \<lparr>stats = [], nextOrder = 0\<rparr>"

subsection \<open>Grouping the attempts of a TTL\<close>

definition mtrUnknownKey :: string where "mtrUnknownKey = ''unknown''"

definition mtrHopKey :: "string \<Rightarrow> string \<Rightarrow> string" where
  "mtrHopKey ip0 host0 =
     (let ip = TrimSpace ip0; host = TrimSpace host0 in
      if ip \<noteq> [] then ''ip:'' @ ip
      else if host \<noteq> [] then ''host:'' @ ToLower host
      else mtrUnknownKey)"

definition newMTRHopGroup :: "string \<Rightarrow> string \<Rightarrow> mtrHopGroup" where
  "newMTRHopGroup host ip =
     \<lparr>grp_host = host, grp_ip = ip, grp_geo = None, grp_sum = 0, grp_sumSq = 0, grp_last = 0,
      grp_best = MaxFloat64, grp_worst = 0, grp_received = 0, grp_count = 0, grp_mpls = {}\<rparr>"

definition mergeMTRLabels :: "string set \<Rightarrow> string list \<Rightarrow> string set" where
  "mergeMTRLabels dst labels = dst \<union> {val \<in> TrimSpace ` set labels. val \<noteq> []}"

definition includeAttempt :: "mtrHopGroup \<Rightarrow> hop \<Rightarrow> mtrHopGroup" where
  "includeAttempt g attempt =
     (let g = g\<lparr>grp_count := grp_count g + 1\<rparr>;
          g = (if grp_geo g = None \<and> Geo attempt \<noteq> None then g\<lparr>grp_geo := Geo attempt\<rparr> else g);
          g = g\<lparr>grp_mpls := mergeMTRLabels (grp_mpls g) (MPLS attempt)\<rparr>
      in if \<not> Success attempt then g
         else let rttMs = real_of_int (RTT attempt) / 1000000;
                  g = g\<lparr>grp_sum := grp_sum g + rttMs, grp_sumSq := grp_sumSq g + rttMs * rttMs,
                    grp_received := grp_received g + 1, grp_last := rttMs\<rparr>;
                  g = (if rttMs > grp_worst g then g\<lparr>grp_worst := rttMs\<rparr> else g)
              in if rttMs > 0 \<and> rttMs < grp_best g then g\<lparr>grp_best := rttMs\<rparr> else g)"

definition include_in :: "(string \<times> mtrHopGroup) list \<Rightarrow> hop \<Rightarrow> (string \<times> mtrHopGroup) list" where
  "include_in groups attempt =
     (let host = TrimSpace (Hostname attempt);
          ip = TrimSpace (mtrAddrString (Address attempt));
          key = mtrHopKey ip host;
          grp = (case map_of groups key of None \<Rightarrow> newMTRHopGroup host ip | Some g \<Rightarrow> g)
      in AList.update key (includeAttempt grp attempt) groups)"

definition groupMTRHopAttempts :: "hop list \<Rightarrow> (string \<times> mtrHopGroup) list" where
  "groupMTRHopAttempts attempts = fold (\<lambda>attempt groups. include_in groups attempt) attempts []"

subsection \<open>Merging\<close>

definition newHopAccum :: "int \<Rightarrow> int \<Rightarrow> string \<Rightarrow> mtrHopAccum" where
  "newHopAccum order ttl key =
     \<lparr>acc_ttl = ttl, acc_key = key, acc_host = [], acc_ip = [], acc_sent = 0, acc_received = 0,
      acc_sum = 0, acc_sumSq = 0, acc_last = 0, acc_best = MaxFloat64, acc_worst = 0, acc_geo = None,
      acc_order = order, acc_mplsSet = {}\<rparr>"

definition mergeMTRHopGroupIntoAccum :: "mtrHopAccum \<Rightarrow> mtrHopGroup \<Rightarrow> mtrHopAccum" where
  "mergeMTRHopGroupIntoAccum acc grp =
     (let acc = (if grp_ip grp \<noteq> [] then acc\<lparr>acc_ip := grp_ip grp\<rparr> else acc);
          acc = (if grp_host grp \<noteq> [] then acc\<lparr>acc_host := grp_host grp\<rparr> else acc);
          acc = (if grp_geo grp \<noteq> None then acc\<lparr>acc_geo := grp_geo grp\<rparr> else acc);
          acc = acc\<lparr>acc_sent := acc_sent acc + grp_count grp\<rparr>;
          acc = (if 0 < grp_received grp then
                   let acc = acc\<lparr>acc_sum := acc_sum acc + grp_sum grp,
                         acc_sumSq := acc_sumSq acc + grp_sumSq grp,
                         acc_received := acc_received acc + grp_received grp,
                         acc_last := grp_last grp\<rparr>;
                       acc = (if 0 < grp_best grp \<and>
                                 (acc_best acc = MaxFloat64 \<or> grp_best grp < acc_best acc)
                              then acc\<lparr>acc_best := grp_best grp\<rparr> else acc)
                   in if acc_worst acc < grp_worst grp then acc\<lparr>acc_worst := grp_worst grp\<rparr> else acc
                 else acc)
      in acc\<lparr>acc_mplsSet := acc_mplsSet acc \<union> grp_mpls grp\<rparr>)"

definition mergeMTRHopAccum :: "mtrHopAccum \<Rightarrow> mtrHopAccum \<Rightarrow> mtrHopAccum" where
  "mergeMTRHopAccum dst src =
     (let dst = dst\<lparr>acc_sent := acc_sent dst + acc_sent src, acc_received := acc_received dst + acc_received src\<rparr>;
          dst = (if 0 < acc_received src then
                   let dst = dst\<lparr>acc_sum := acc_sum dst + acc_sum src, acc_sumSq := acc_sumSq dst + acc_sumSq src,
                         acc_last := acc_last src\<rparr>;
                       dst = (if 0 < acc_best src \<and> acc_best src < acc_best dst
                              then dst\<lparr>acc_best := acc_best src\<rparr> else dst)
                   in if acc_worst dst < acc_worst src then dst\<lparr>acc_worst := acc_worst src\<rparr> else dst
                 else dst);
          dst = (if acc_geo dst = None \<and> acc_geo src \<noteq> None then dst\<lparr>acc_geo := acc_geo src\<rparr> else dst);
          dst = (if acc_host dst = [] \<and> acc_host src \<noteq> [] then dst\<lparr>acc_host := acc_host src\<rparr> else dst);
          dst = (if acc_ip dst = [] \<and> acc_ip src \<noteq> [] then dst\<lparr>acc_ip := acc_ip src\<rparr> else dst)
      in dst\<lparr>acc_mplsSet := acc_mplsSet dst \<union> acc_mplsSet src\<rparr>)"

definition capMTRHopAccum :: "int \<Rightarrow> mtrHopAccum \<Rightarrow> mtrHopAccum" where
  "capMTRHopAccum maxPerHop acc =
     (if maxPerHop \<le> 0 then acc
      else let acc = (if acc_sent acc > maxPerHop then acc\<lparr>acc_sent := maxPerHop\<rparr> else acc) in
        if acc_received acc \<le> acc_sent acc then acc
        else let nOrig = real_of_int (acc_received acc);
                 nNew = real_of_int (acc_sent acc);
                 ratio = nNew / nOrig;
                 sumNew = acc_sum acc * ratio;
                 ss0 = acc_sumSq acc - (acc_sum acc * acc_sum acc) / nOrig;
                 ss = (if ss0 < 0 then 0 else ss0);
                 sumSqNew = (if nOrig > 1 \<and> nNew > 1
                             then ss * (nNew - 1) / (nOrig - 1) + (sumNew * sumNew) / nNew
                             else (sumNew * sumNew) / nNew)
             in acc\<lparr>acc_sum := sumNew, acc_sumSq := sumSqNew, acc_received := acc_sent acc\<rparr>)"

definition mergeUnknownIntoSingleKnown :: "(string \<times> mtrHopAccum) list \<Rightarrow> (string \<times> mtrHopAccum) list" where
  "mergeUnknownIntoSingleKnown accMap =
     (case map_of accMap mtrUnknownKey of
        None \<Rightarrow> accMap
      | Some unk \<Rightarrow>
          (case filter (\<lambda>ka. fst ka \<noteq> mtrUnknownKey) accMap of
             [(k, known)] \<Rightarrow> AList.delete mtrUnknownKey (AList.update k (mergeMTRHopAccum known unk) accMap)
           | _ \<Rightarrow> accMap))"

definition accMapForTTL :: "MTRAggregator \<Rightarrow> int \<Rightarrow> (string \<times> mtrHopAccum) list" where
  "accMapForTTL agg ttl = (case map_of (stats agg) ttl of None \<Rightarrow> [] | Some m \<Rightarrow> m)"

text \<open>The state of merging the groups of one TTL: the map of the TTL and the next order number.\<close>

definition mergeGroupedHop ::
    "int \<Rightarrow> string \<times> mtrHopGroup \<Rightarrow> (string \<times> mtrHopAccum) list \<times> int \<Rightarrow> (string \<times> mtrHopAccum) list \<times> int" where
  "mergeGroupedHop ttl = (\<lambda>(key, grp) (accMap, next).
     (case map_of accMap key of
        None \<Rightarrow> (AList.update key (mergeMTRHopGroupIntoAccum (newHopAccum next ttl key) grp) accMap, next + 1)
      | Some acc \<Rightarrow> (AList.update key (mergeMTRHopGroupIntoAccum acc grp) accMap, next)))"

subsection \<open>The operations of the aggregator\<close>

definition update_ttl :: "MTRAggregator \<Rightarrow> int \<Rightarrow> hop list \<Rightarrow> MTRAggregator" where
  "update_ttl agg ttl attempts =
     (if attempts = [] then agg
      else let r = fold (mergeGroupedHop ttl) (groupMTRHopAttempts attempts)
                     (accMapForTTL agg ttl, nextOrder agg)
           in \<lparr>stats = AList.update ttl (mergeUnknownIntoSingleKnown (fst r)) (stats agg), nextOrder = snd r\<rparr>)"

definition agg_Update :: "MTRAggregator \<Rightarrow> hop list list \<Rightarrow> MTRAggregator" where
  "agg_Update agg hops = fold (\<lambda>(ttl, attempts) agg. update_ttl agg ttl attempts)
     (zip [1..int (length hops)] hops) agg"

definition agg_Reset :: "MTRAggregator \<Rightarrow> MTRAggregator" where
  "agg_Reset agg = agg\<lparr>stats := [], nextOrder := 0\<rparr>"

definition agg_ClearHop :: "MTRAggregator \<Rightarrow> int \<Rightarrow> MTRAggregator" where
  "agg_ClearHop agg ttl = agg\<lparr>stats := AList.delete ttl (stats agg)\<rparr>"

definition migrate_one ::
    "int \<Rightarrow> string \<times> mtrHopAccum \<Rightarrow> (string \<times> mtrHopAccum) list \<Rightarrow> (string \<times> mtrHopAccum) list" where
  "migrate_one toTTL = (\<lambda>(key, src) toMap.
     (case map_of toMap key of
        None \<Rightarrow> AList.update key (src\<lparr>acc_ttl := toTTL\<rparr>) toMap
      | Some dst \<Rightarrow> AList.update key (mergeMTRHopAccum dst src) toMap))"

definition agg_MigrateStats :: "MTRAggregator \<Rightarrow> int \<Rightarrow> int \<Rightarrow> int \<Rightarrow> MTRAggregator" where
  "agg_MigrateStats agg fromTTL toTTL maxPerHop =
     (let fromMap = accMapForTTL agg fromTTL in
      if fromMap = [] then agg
      else let toMap = fold (migrate_one toTTL) fromMap (accMapForTTL agg toTTL);
               toMap = map (\<lambda>(k, a). (k, capMTRHopAccum maxPerHop a)) toMap
           in agg\<lparr>stats := AList.delete fromTTL (AList.update toTTL toMap (stats agg))\<rparr>)"

definition patch_acc :: "string \<Rightarrow> string \<Rightarrow> geo_data option \<Rightarrow> mtrHopAccum \<Rightarrow> mtrHopAccum" where
  "patch_acc ip host geo acc =
     (if TrimSpace (acc_ip acc) \<noteq> ip then acc
      else let acc = (if host \<noteq> [] \<and> acc_host acc = [] then acc\<lparr>acc_host := host\<rparr> else acc)
           in if geo \<noteq> None \<and> acc_geo acc = None then acc\<lparr>acc_geo := geo\<rparr> else acc)"

definition patches :: "string \<Rightarrow> string \<Rightarrow> geo_data option \<Rightarrow> mtrHopAccum \<Rightarrow> bool" where
  "patches ip host geo acc \<longleftrightarrow> TrimSpace (acc_ip acc) = ip \<and>
     (host \<noteq> [] \<and> acc_host acc = [] \<or> geo \<noteq> None \<and> acc_geo acc = None)"

definition agg_PatchMetadataByIP ::
    "MTRAggregator \<Rightarrow> string \<Rightarrow> string \<Rightarrow> geo_data option \<Rightarrow> MTRAggregator \<times> bool" where
  "agg_PatchMetadataByIP agg ip0 host0 geo =
     (let ip = TrimSpace ip0; host = TrimSpace host0 in
      if ip = [] \<or> host = [] \<and> geo = None then (agg, False)
      else (agg\<lparr>stats := map (\<lambda>(ttl, m). (ttl, map (\<lambda>(k, a). (k, patch_acc ip host geo a)) m)) (stats agg)\<rparr>,
            list_ex (\<lambda>(ttl, m). list_ex (\<lambda>(k, a). patches ip host geo a) m) (stats agg)))"

definition buildMTRHopStat :: "mtrHopAccum \<Rightarrow> MTRHopStat" where
  "buildMTRHopStat acc =
     (let lossCount = acc_sent acc - acc_received acc;
          lossPct = (if 0 < acc_sent acc then real_of_int lossCount / real_of_int (acc_sent acc) * 100 else 0);
          best = (if acc_best acc = MaxFloat64 then 0 else acc_best acc);
          avg = (if 0 < acc_received acc then acc_sum acc / real_of_int (acc_received acc) else 0);
          n = real_of_int (acc_received acc);
          variance = (acc_sumSq acc - (acc_sum acc * acc_sum acc) / n) / (n - 1);
          stdev = (if 1 < acc_received acc \<and> 0 < variance then sqrt variance else 0)
      in \<lparr>stat_TTL = acc_ttl acc, stat_Host = acc_host acc, stat_IP = acc_ip acc, stat_Loss = lossPct,
          stat_Snt = acc_sent acc, stat_Last = acc_last acc, stat_Avg = avg, stat_Best = best,
          stat_Wrst = acc_worst acc, stat_StDev = stdev, stat_Geo = acc_geo acc,
          stat_MPLS = sorted_list_of_set (acc_mplsSet acc), stat_Received = acc_received acc\<rparr>)"

definition snapshot :: "MTRAggregator \<Rightarrow> MTRHopStat list" where
  "snapshot agg = concat (map (\<lambda>ttl.
       map buildMTRHopStat (sort_key (\<lambda>acc. (acc_order acc, acc_ip acc)) (map snd (accMapForTTL agg ttl))))
     (sort (map fst (stats agg))))"

end
