(* ===== verification/Mtr_Stats_Props.thy ===== *)
theory Mtr_Stats_Props
  imports Mtr_Stats
begin

section \<open>What the MTR statistics guarantee\<close>

text \<open>
  The invariant of the aggregator and its preservation by every operation, the conservation of
  probe counts (proved once for any additive counter, in a locale interpreted for probes sent and
  for replies), the effect of capping a row, and what a snapshot shows.
\<close>

subsection \<open>Count, sum, sum of squares, best and worst of a set of round trips\<close>

definition moments_ok :: "int \<Rightarrow> real \<Rightarrow> real \<Rightarrow> real \<Rightarrow> real \<Rightarrow> bool" where
  "moments_ok n s q b w \<longleftrightarrow> 0 \<le> n \<and> 0 \<le> w \<and> s * s \<le> n * q \<and> s \<le> n * w \<and>
     (if n = 0 then s = 0 \<and> q = 0 \<and> b = MaxFloat64 \<and> w = 0 else 0 < b \<and> b < MaxFloat64 \<and> n * b \<le> s)"

lemma MaxFloat64_pos: "0 < MaxFloat64"
  by (simp add: MaxFloat64_def)

lemma cauchy_add:
  assumes "0 < n1" "0 < n2" "s1 * s1 \<le> n1 * q1" "s2 * s2 \<le> n2 * q2"
  shows "(s1 + s2) * (s1 + s2) \<le> (n1 + n2) * (q1 + q2 :: real)"
proof -
  have "0 \<le> (n2 * s1 - n1 * s2) * (n2 * s1 - n1 * s2)" by simp
  then have "2 * (n1 * n2) * (s1 * s2) \<le> n2 * n2 * (s1 * s1) + n1 * n1 * (s2 * s2)"
    by (simp add: algebra_simps)
  also have "\<dots> \<le> n2 * n2 * (n1 * q1) + n1 * n1 * (n2 * q2)"
    using assms by (intro add_mono mult_left_mono) auto
  also have "\<dots> = n1 * n2 * (n2 * q1 + n1 * q2)" by (simp add: algebra_simps)
  finally have "n1 * n2 * (2 * (s1 * s2)) \<le> n1 * n2 * (n2 * q1 + n1 * q2)" by (simp add: algebra_simps)
  then have "2 * (s1 * s2) \<le> n2 * q1 + n1 * q2"
    using assms(1,2) by (simp add: mult_le_cancel_left)
  then show ?thesis using assms(3,4) by (simp add: algebra_simps)
qed

lemma moments_add:
  assumes "moments_ok n1 s1 q1 b1 w1" "moments_ok n2 s2 q2 b2 w2"
  shows "moments_ok (n1 + n2) (s1 + s2) (q1 + q2) (min b1 b2) (max w1 w2)"
proof (cases "n1 = 0 \<or> n2 = 0")
  case True
  have nn: "0 \<le> n1" "0 \<le> n2" "0 \<le> w1" using assms by (auto simp: moments_ok_def)
  have "n1 * w1 \<le> n1 * max w1 w2" "n2 * w2 \<le> n2 * max w1 w2"
    using nn by (auto intro!: mult_left_mono)
  then have "s1 \<le> n1 * max w1 w2" "s2 \<le> n2 * max w1 w2" using assms by (auto simp: moments_ok_def)
  moreover have "0 \<le> max w1 w2" using nn by simp
  ultimately show ?thesis
    using True assms by (auto simp: moments_ok_def min_def split: if_splits)
next
  case False
  then have n: "0 < n1" "0 < n2" using assms by (auto simp: moments_ok_def)
  have "(s1 + s2) * (s1 + s2) \<le> (n1 + n2) * (q1 + q2)"
    using cauchy_add [of n1 n2 s1 q1 s2 q2] assms n by (simp add: moments_ok_def)
  moreover have "n1 * w1 \<le> n1 * max w1 w2" "n2 * w2 \<le> n2 * max w1 w2"
      "n1 * min b1 b2 \<le> n1 * b1" "n2 * min b1 b2 \<le> n2 * b2"
    using n by (auto intro!: mult_left_mono)
  moreover have "s1 \<le> n1 * w1" "s2 \<le> n2 * w2" "n1 * b1 \<le> s1" "n2 * b2 \<le> s2"
    using assms n by (simp_all add: moments_ok_def)
  ultimately have "s1 + s2 \<le> (real_of_int n1 + n2) * max w1 w2" "(real_of_int n1 + n2) * min b1 b2 \<le> s1 + s2"
    by (simp_all only: distrib_right)
  then show ?thesis using assms n \<open>(s1 + s2) * (s1 + s2) \<le> _\<close> by (auto simp: moments_ok_def)
qed

lemma moments_one: "0 < r \<Longrightarrow> r < MaxFloat64 \<Longrightarrow> moments_ok 1 r (r * r) r r"
  by (simp add: moments_ok_def)

lemma moments_zero: "moments_ok 0 0 0 MaxFloat64 0"
  by (simp add: moments_ok_def)

definition hop_ok :: "hop \<Rightarrow> bool" where
  "hop_ok h \<longleftrightarrow> (Success h \<longrightarrow> 0 < RTT h \<and> RTT h < 2 ^ 63)"

definition grp_ok :: "mtrHopGroup \<Rightarrow> bool" where
  "grp_ok g \<longleftrightarrow> grp_received g \<le> grp_count g \<and>
     moments_ok (grp_received g) (grp_sum g) (grp_sumSq g) (grp_best g) (grp_worst g)"

definition acc_ok :: "mtrHopAccum \<Rightarrow> bool" where
  "acc_ok a \<longleftrightarrow> acc_received a \<le> acc_sent a \<and>
     moments_ok (acc_received a) (acc_sum a) (acc_sumSq a) (acc_best a) (acc_worst a)"

lemma rtt_small: "r < 2 ^ 63 \<Longrightarrow> real_of_int r / 1000000 < MaxFloat64"
proof -
  assume "r < 2 ^ 63"
  then have "real_of_int r < 2 ^ 63" by (metis of_int_less_iff of_int_numeral of_int_power)
  then show ?thesis by (simp add: MaxFloat64_def)
qed

lemma grp_ok_new: "grp_ok (newMTRHopGroup host ip)"
  by (simp add: grp_ok_def newMTRHopGroup_def moments_zero)

lemma grp_ok_include: "grp_ok g \<Longrightarrow> hop_ok h \<Longrightarrow> grp_ok (includeAttempt g h)"
proof -
  assume g: "grp_ok g" and h: "hop_ok h"
  show ?thesis
  proof (cases "Success h")
    case False
    then show ?thesis using g by (simp add: grp_ok_def includeAttempt_def Let_def)
  next
    case True
    let ?r = "real_of_int (RTT h) / 1000000"
    have r: "0 < ?r" "?r < MaxFloat64" using h True rtt_small by (auto simp: hop_ok_def)
    have "moments_ok (grp_received g + 1) (grp_sum g + ?r) (grp_sumSq g + ?r * ?r)
        (min (grp_best g) ?r) (max (grp_worst g) ?r)"
      using g moments_one [OF r] by (intro moments_add) (simp_all add: grp_ok_def)
    moreover have "grp_received (includeAttempt g h) = grp_received g + 1"
        "grp_count (includeAttempt g h) = grp_count g + 1"
        "grp_sum (includeAttempt g h) = grp_sum g + ?r" "grp_sumSq (includeAttempt g h) = grp_sumSq g + ?r * ?r"
        "grp_best (includeAttempt g h) = min (grp_best g) ?r" "grp_worst (includeAttempt g h) = max (grp_worst g) ?r"
      using True r by (simp_all add: includeAttempt_def Let_def min_def max_def)
    ultimately show ?thesis using g by (simp add: grp_ok_def)
  qed
qed

lemma grp_best_pos: "grp_ok g \<Longrightarrow> 0 < grp_best g"
  using MaxFloat64_pos by (auto simp: grp_ok_def moments_ok_def split: if_splits)

text \<open>A conditional assignment to a field, as an update of the record.\<close>

lemma acc_if_update:
  "(if b then a\<lparr>acc_ip := v\<rparr> else a) = a\<lparr>acc_ip := if b then v else acc_ip a\<rparr>"
  "(if b then a\<lparr>acc_host := v\<rparr> else a) = a\<lparr>acc_host := if b then v else acc_host a\<rparr>"
  "(if b then a\<lparr>acc_geo := g\<rparr> else a) = a\<lparr>acc_geo := if b then g else acc_geo a\<rparr>"
  "(if b then a\<lparr>acc_best := x\<rparr> else a) = a\<lparr>acc_best := if b then x else acc_best a\<rparr>"
  "(if b then a\<lparr>acc_worst := x\<rparr> else a) = a\<lparr>acc_worst := if b then x else acc_worst a\<rparr>"
  for a :: mtrHopAccum
  by simp_all

lemma merge_group_fields:
  assumes "grp_ok g" "acc_ok a"
  shows "acc_sent (mergeMTRHopGroupIntoAccum a g) = acc_sent a + grp_count g"
    "acc_received (mergeMTRHopGroupIntoAccum a g) = acc_received a + grp_received g"
    "acc_sum (mergeMTRHopGroupIntoAccum a g) = acc_sum a + grp_sum g"
    "acc_sumSq (mergeMTRHopGroupIntoAccum a g) = acc_sumSq a + grp_sumSq g"
    "acc_best (mergeMTRHopGroupIntoAccum a g) = min (acc_best a) (grp_best g)"
    "acc_worst (mergeMTRHopGroupIntoAccum a g) = max (acc_worst a) (grp_worst g)"
proof -
  have g: "0 \<le> grp_received g" "0 < grp_best g" "0 \<le> acc_worst a"
    using assms MaxFloat64_pos by (auto simp: grp_ok_def acc_ok_def moments_ok_def split: if_splits)
  have z: "grp_sum g = 0 \<and> grp_sumSq g = 0 \<and> grp_best g = MaxFloat64 \<and> grp_worst g = 0"
    if "grp_received g = 0" using assms that by (simp add: grp_ok_def moments_ok_def)
  have b: "acc_best a \<le> MaxFloat64" using assms(2) by (auto simp: acc_ok_def moments_ok_def split: if_splits)
  have "grp_best g < MaxFloat64" if "0 < grp_received g"
    using assms(1) that by (auto simp: grp_ok_def moments_ok_def split: if_splits)
  then show "acc_best (mergeMTRHopGroupIntoAccum a g) = min (acc_best a) (grp_best g)"
    using g b z by (cases "0 < grp_received g") (auto simp: mergeMTRHopGroupIntoAccum_def Let_def acc_if_update min_def)
  show "acc_worst (mergeMTRHopGroupIntoAccum a g) = max (acc_worst a) (grp_worst g)"
    using g z by (cases "0 < grp_received g") (auto simp: mergeMTRHopGroupIntoAccum_def Let_def acc_if_update max_def)
qed (use assms in \<open>auto simp: mergeMTRHopGroupIntoAccum_def Let_def acc_if_update grp_ok_def moments_ok_def split: if_splits\<close>)

lemma acc_ok_merge_group: "grp_ok g \<Longrightarrow> acc_ok a \<Longrightarrow> acc_ok (mergeMTRHopGroupIntoAccum a g)"
  using moments_add [of "acc_received a" "acc_sum a" "acc_sumSq a" "acc_best a" "acc_worst a"
      "grp_received g" "grp_sum g" "grp_sumSq g" "grp_best g" "grp_worst g"]
  by (simp add: acc_ok_def [of "mergeMTRHopGroupIntoAccum a g"] merge_group_fields) (simp add: acc_ok_def grp_ok_def)

lemma merge_acc_fields:
  assumes "acc_ok d" "acc_ok s"
  shows "acc_sent (mergeMTRHopAccum d s) = acc_sent d + acc_sent s"
    "acc_received (mergeMTRHopAccum d s) = acc_received d + acc_received s"
    "acc_sum (mergeMTRHopAccum d s) = acc_sum d + acc_sum s"
    "acc_sumSq (mergeMTRHopAccum d s) = acc_sumSq d + acc_sumSq s"
    "acc_best (mergeMTRHopAccum d s) = min (acc_best d) (acc_best s)"
    "acc_worst (mergeMTRHopAccum d s) = max (acc_worst d) (acc_worst s)"
    "acc_ttl (mergeMTRHopAccum d s) = acc_ttl d"
proof -
  have g: "0 \<le> acc_received s" "0 < acc_best s" "0 \<le> acc_worst d" "acc_best d \<le> MaxFloat64"
    using assms MaxFloat64_pos by (auto simp: acc_ok_def moments_ok_def split: if_splits)
  have z: "acc_best s = MaxFloat64 \<and> acc_worst s = 0" if "acc_received s = 0"
    using assms that by (simp add: acc_ok_def moments_ok_def)
  show "acc_best (mergeMTRHopAccum d s) = min (acc_best d) (acc_best s)"
    using g z by (cases "0 < acc_received s") (auto simp: mergeMTRHopAccum_def Let_def acc_if_update min_def)
  show "acc_worst (mergeMTRHopAccum d s) = max (acc_worst d) (acc_worst s)"
    using g z by (cases "0 < acc_received s") (auto simp: mergeMTRHopAccum_def Let_def acc_if_update max_def)
qed (use assms in \<open>auto simp: mergeMTRHopAccum_def Let_def acc_if_update acc_ok_def moments_ok_def split: if_splits\<close>)

lemma acc_ok_merge: "acc_ok d \<Longrightarrow> acc_ok s \<Longrightarrow> acc_ok (mergeMTRHopAccum d s)"
  using moments_add [of "acc_received d" "acc_sum d" "acc_sumSq d" "acc_best d" "acc_worst d"
      "acc_received s" "acc_sum s" "acc_sumSq s" "acc_best s" "acc_worst s"]
  by (simp add: acc_ok_def [of "mergeMTRHopAccum d s"] merge_acc_fields) (simp add: acc_ok_def)

lemma acc_ok_new: "acc_ok (newHopAccum order ttl key)"
  by (simp add: acc_ok_def newHopAccum_def moments_zero)

text \<open>Capping a row: mean and sample variance survive.\<close>

definition mean :: "mtrHopAccum \<Rightarrow> real" where
  "mean a = acc_sum a / acc_received a"

definition variance :: "mtrHopAccum \<Rightarrow> real" where
  "variance a = (acc_sumSq a - (acc_sum a * acc_sum a) / acc_received a) / (real_of_int (acc_received a) - 1)"

lemma square_div_le:
  assumes "0 < n" "s * s \<le> n * (q :: real)"
  shows "s * s / n \<le> q"
  using assms by (simp add: pos_divide_le_eq mult.commute)

lemma cap_cut:
  assumes "acc_ok a" "0 < m" "m < acc_received a"
  shows "acc_sent (capMTRHopAccum m a) = m" "acc_received (capMTRHopAccum m a) = m"
    "acc_sum (capMTRHopAccum m a) = acc_sum a * (m / acc_received a)"
    "acc_sumSq (capMTRHopAccum m a) = (if 1 < m then
       (acc_sumSq a - (acc_sum a * acc_sum a) / acc_received a) * (real_of_int m - 1) / (real_of_int (acc_received a) - 1)
       + (acc_sum a * (m / acc_received a)) * (acc_sum a * (m / acc_received a)) / m
     else (acc_sum a * (m / acc_received a)) * (acc_sum a * (m / acc_received a)) / m)"
    "acc_best (capMTRHopAccum m a) = acc_best a" "acc_worst (capMTRHopAccum m a) = acc_worst a"
proof -
  have le: "acc_received a \<le> acc_sent a" using assms(1) by (simp add: acc_ok_def)
  have "acc_sum a * acc_sum a / acc_received a \<le> acc_sumSq a"
    using assms by (intro square_div_le) (auto simp: acc_ok_def moments_ok_def)
  then show "acc_sumSq (capMTRHopAccum m a) = (if 1 < m then
       (acc_sumSq a - (acc_sum a * acc_sum a) / acc_received a) * (real_of_int m - 1) / (real_of_int (acc_received a) - 1)
       + (acc_sum a * (m / acc_received a)) * (acc_sum a * (m / acc_received a)) / m
     else (acc_sum a * (m / acc_received a)) * (acc_sum a * (m / acc_received a)) / m)"
    using assms(2,3) le by (auto simp: capMTRHopAccum_def Let_def)
qed (use assms in \<open>auto simp: capMTRHopAccum_def Let_def acc_ok_def\<close>)

lemma acc_ok_cap:
  assumes "acc_ok a"
  shows "acc_ok (capMTRHopAccum m a)"
proof (cases "0 < m \<and> m < acc_received a")
  case False
  then have "acc_received (capMTRHopAccum m a) = acc_received a" "acc_received a \<le> acc_sent (capMTRHopAccum m a)"
    "acc_sum (capMTRHopAccum m a) = acc_sum a" "acc_sumSq (capMTRHopAccum m a) = acc_sumSq a"
    "acc_best (capMTRHopAccum m a) = acc_best a" "acc_worst (capMTRHopAccum m a) = acc_worst a"
    using assms by (auto simp: capMTRHopAccum_def Let_def acc_ok_def)
  then show ?thesis using assms by (simp add: acc_ok_def)
next
  case True
  let ?n = "real_of_int (acc_received a)" and ?s = "acc_sum a * (m / real_of_int (acc_received a))"
  let ?q = "acc_sumSq (capMTRHopAccum m a)"
  note cut = cap_cut [OF assms] True
  have m: "0 < m" "0 < ?n" "real_of_int m \<le> ?n" using True by auto
  have a: "acc_sum a \<le> ?n * acc_worst a" "?n * acc_best a \<le> acc_sum a" "0 < acc_best a"
      "acc_best a < MaxFloat64" "acc_sum a * acc_sum a \<le> ?n * acc_sumSq a" "0 \<le> acc_worst a"
    using assms True by (auto simp: acc_ok_def moments_ok_def split: if_splits)
  have "0 \<le> acc_sumSq a - acc_sum a * acc_sum a / ?n"
    using square_div_le [OF m(2) a(5)] by simp
  then have "?s * ?s / m \<le> ?q"
    using True by (simp add: cut) (intro impI divide_nonneg_nonneg mult_nonneg_nonneg; use True in auto)
  then have "?s * ?s \<le> ?q * m" using m(1) by (simp only: pos_divide_le_eq of_int_0_less_iff)
  then have "?s * ?s \<le> m * ?q" by (simp only: mult.commute)
  moreover have "?s \<le> m * acc_worst a"
    using mult_right_mono [OF a(1), of "m / ?n"] m by (simp add: field_simps)
  moreover have "m * acc_best a \<le> ?s"
    using mult_right_mono [OF a(2), of "m / ?n"] m by (simp add: field_simps)
  ultimately show ?thesis
    using True a by (simp add: acc_ok_def moments_ok_def cap_cut [OF assms] del: times_divide_eq_right times_divide_eq_left)
qed


subsection \<open>Totals of a TTL\<close>

text \<open>
  The number of probes sent, and of replies received, are counters that start at zero, that a
  group of attempts increases, and that merging two rows adds. Every such counter is
  conserved: the rows of a TTL together count exactly the attempts reported for it.
\<close>

lemma update_same_key: "fst ` set (AList.update k v m) = insert k (fst ` set m)"
  by (simp add: dom_map_of_conv_image_fst [symmetric] update_conv')

lemma set_update_subset: "set (AList.update k v m) \<subseteq> insert (k, v) (set m)"
  by (induction m) auto

lemma set_delete_subset: "set (AList.delete k m) \<subseteq> set m"
  by (auto simp: AList.delete_eq)

locale additive_counter =
  fixes f :: "mtrHopAccum \<Rightarrow> int" and g :: "mtrHopGroup \<Rightarrow> int" and h :: "hop \<Rightarrow> int"
  assumes f_new: "f (newHopAccum ord ttl key) = 0"
    and f_group: "acc_ok a \<Longrightarrow> grp_ok grp \<Longrightarrow> f (mergeMTRHopGroupIntoAccum a grp) = f a + g grp"
    and f_merge: "acc_ok a \<Longrightarrow> acc_ok b \<Longrightarrow> f (mergeMTRHopAccum a b) = f a + f b"
    and g_new: "g (newMTRHopGroup host ip) = 0"
    and g_include: "g (includeAttempt grp attempt) = g grp + h attempt"
begin

definition total :: "(string \<times> mtrHopAccum) list \<Rightarrow> int" where
  "total m = sum_list (map (\<lambda>ka. f (snd ka)) m)"

definition gtotal :: "(string \<times> mtrHopGroup) list \<Rightarrow> int" where
  "gtotal m = sum_list (map (\<lambda>kg. g (snd kg)) m)"

lemma total_update:
  "total (AList.update k a m) = total m + f a - (case map_of m k of None \<Rightarrow> 0 | Some b \<Rightarrow> f b)"
  by (induction m) (auto simp: total_def)

lemma gtotal_update:
  "gtotal (AList.update k a m) = gtotal m + g a - (case map_of m k of None \<Rightarrow> 0 | Some b \<Rightarrow> g b)"
  by (induction m) (auto simp: gtotal_def)

lemma gtotal_include: "gtotal (include_in groups attempt) = gtotal groups + h attempt"
  by (simp add: include_in_def Let_def gtotal_update g_include g_new split: option.splits)

lemma gtotal_group: "gtotal (groupMTRHopAttempts attempts) = sum_list (map h attempts)"
proof -
  have "gtotal (fold (\<lambda>x gs. include_in gs x) attempts gs) = gtotal gs + sum_list (map h attempts)" for gs
    by (induction attempts arbitrary: gs) (simp_all add: gtotal_include)
  then show ?thesis by (simp add: groupMTRHopAttempts_def gtotal_def)
qed

lemma total_mergeGroupedHop:
  assumes "\<forall>ka\<in>set m. acc_ok (snd ka)" "grp_ok grp"
  shows "total (fst (mergeGroupedHop ttl (key, grp) (m, next))) = total m + g grp"
proof (cases "map_of m key")
  case None
  then show ?thesis
    using f_group [OF acc_ok_new assms(2)] by (simp add: mergeGroupedHop_def total_update f_new)
next
  case (Some a)
  then have "acc_ok a" using assms(1) map_of_SomeD by fastforce
  then show ?thesis using Some f_group [OF _ assms(2)] by (simp add: mergeGroupedHop_def total_update)
qed

end

context additive_counter
begin

lemma total_delete:
  "distinct (map fst m) \<Longrightarrow>
   total (AList.delete k m) = total m - (case map_of m k of None \<Rightarrow> 0 | Some b \<Rightarrow> f b)"
proof (induction m)
  case (Cons kb m)
  have n: "fst kb \<notin> fst ` set m" using Cons.prems by simp
  have "AList.delete (fst kb) m = m"
    unfolding AList.delete_eq
  proof (rule filter_True, rule ballI)
    fix x assume "x \<in> set m"
    then have "fst x \<in> fst ` set m" by (rule imageI)
    then have "fst kb \<noteq> fst x" using n by metis
    then show "case x of (k', _) \<Rightarrow> fst kb \<noteq> k'" by (simp add: split_beta)
  qed
  then show ?case using Cons by (cases kb) (auto simp: total_def AList.delete_eq)
qed (simp add: total_def)

end

interpretation sent: additive_counter acc_sent grp_count "\<lambda>_. 1"
  by unfold_locales
    (simp_all add: newHopAccum_def merge_group_fields merge_acc_fields newMTRHopGroup_def includeAttempt_def Let_def)

interpretation received: additive_counter acc_received grp_received "\<lambda>h. of_bool (Success h)"
  by unfold_locales
    (simp_all add: newHopAccum_def merge_group_fields merge_acc_fields newMTRHopGroup_def includeAttempt_def Let_def)


subsection \<open>The invariant of the aggregator\<close>

definition row_ok :: "int \<Rightarrow> mtrHopAccum \<Rightarrow> bool" where
  "row_ok ttl a \<longleftrightarrow> acc_ok a \<and> acc_ttl a = ttl"

definition map_ok :: "int \<Rightarrow> (string \<times> mtrHopAccum) list \<Rightarrow> bool" where
  "map_ok ttl m \<longleftrightarrow> distinct (map fst m) \<and> (\<forall>ka\<in>set m. row_ok ttl (snd ka))"

definition agg_ok :: "MTRAggregator \<Rightarrow> bool" where
  "agg_ok agg \<longleftrightarrow> distinct (map fst (stats agg)) \<and> (\<forall>tm\<in>set (stats agg). map_ok (fst tm) (snd tm))"

definition groups_ok :: "(string \<times> mtrHopGroup) list \<Rightarrow> bool" where
  "groups_ok gs \<longleftrightarrow> (\<forall>kg\<in>set gs. grp_ok (snd kg))"

lemma map_ok_update [nt_inv]: "map_ok ttl m \<Longrightarrow> row_ok ttl a \<Longrightarrow> map_ok ttl (AList.update k a m)"
  using set_update_subset [of k a m] by (auto simp: map_ok_def distinct_update)

lemma map_ok_lookup: "map_ok ttl m \<Longrightarrow> map_of m k = Some a \<Longrightarrow> row_ok ttl a"
  by (auto simp: map_ok_def dest!: map_of_SomeD)

lemma map_ok_delete [nt_inv]: "map_ok ttl m \<Longrightarrow> map_ok ttl (AList.delete k m)"
  using set_delete_subset [of k m] by (auto simp: map_ok_def distinct_delete)

lemma agg_ok_lookup: "agg_ok agg \<Longrightarrow> map_ok ttl (accMapForTTL agg ttl)"
  by (cases "map_of (stats agg) ttl") (auto simp: accMapForTTL_def agg_ok_def map_ok_def dest!: map_of_SomeD, fastforce)

lemma agg_ok_update:
  "agg_ok agg \<Longrightarrow> map_ok ttl m \<Longrightarrow> agg_ok (agg\<lparr>stats := AList.update ttl m (stats agg), nextOrder := n\<rparr>)"
  using set_update_subset [of ttl m "stats agg"] by (auto simp: agg_ok_def distinct_update)

lemma agg_ok_delete: "agg_ok agg \<Longrightarrow> agg_ok (agg\<lparr>stats := AList.delete ttl (stats agg)\<rparr>)"
  using set_delete_subset [of ttl "stats agg"] by (auto simp: agg_ok_def distinct_delete)

lemma groups_ok_include: "groups_ok gs \<Longrightarrow> hop_ok h \<Longrightarrow> groups_ok (include_in gs h)"
proof -
  assume gs: "groups_ok gs" and h: "hop_ok h"
  let ?k = "mtrHopKey (TrimSpace (mtrAddrString (Address h))) (TrimSpace (Hostname h))"
  have "grp_ok (case map_of gs ?k of None \<Rightarrow> newMTRHopGroup (TrimSpace (Hostname h)) (TrimSpace (mtrAddrString (Address h)))
      | Some g \<Rightarrow> g)"
    using gs grp_ok_new by (auto simp: groups_ok_def split: option.splits dest!: map_of_SomeD)
  then show ?thesis
    using gs h grp_ok_include set_update_subset unfolding include_in_def Let_def groups_ok_def by fastforce
qed

lemma groups_ok_group: "\<forall>h\<in>set hs. hop_ok h \<Longrightarrow> groups_ok (groupMTRHopAttempts hs)"
proof -
  have "groups_ok gs \<Longrightarrow> \<forall>h\<in>set hs. hop_ok h \<Longrightarrow> groups_ok (fold (\<lambda>x gs. include_in gs x) hs gs)" for gs
    by (induction hs arbitrary: gs) (simp_all add: groups_ok_include)
  moreover have "groups_ok []" by (simp add: groups_ok_def)
  ultimately show "\<forall>h\<in>set hs. hop_ok h \<Longrightarrow> ?thesis" unfolding groupMTRHopAttempts_def by blast
qed

lemma acc_ttl_merge_group [simp]: "acc_ttl (mergeMTRHopGroupIntoAccum a g) = acc_ttl a"
  by (simp add: mergeMTRHopGroupIntoAccum_def Let_def acc_if_update)

lemma map_ok_mergeGroupedHop:
  assumes "map_ok ttl m" "grp_ok g"
  shows "map_ok ttl (fst (mergeGroupedHop ttl (key, g) (m, next)))"
proof (cases "map_of m key")
  case None
  have "row_ok ttl (mergeMTRHopGroupIntoAccum (newHopAccum next ttl key) g)"
    using acc_ok_merge_group [OF assms(2) acc_ok_new] by (simp add: row_ok_def newHopAccum_def)
  then show ?thesis using None assms(1) by (simp add: mergeGroupedHop_def map_ok_update)
next
  case (Some a)
  then have "row_ok ttl (mergeMTRHopGroupIntoAccum a g)"
    using map_ok_lookup [OF assms(1) Some] acc_ok_merge_group [OF assms(2)] by (simp add: row_ok_def)
  then show ?thesis using Some assms(1) by (simp add: mergeGroupedHop_def map_ok_update)
qed

lemma map_ok_mergeGroups:
  "map_ok ttl m \<Longrightarrow> groups_ok gs \<Longrightarrow> map_ok ttl (fst (fold (mergeGroupedHop ttl) gs (m, next)))"
proof (induction gs arbitrary: m "next")
  case (Cons kg gs)
  obtain k g where kg: "kg = (k, g)" by (cases kg)
  obtain m' n' where r: "mergeGroupedHop ttl (k, g) (m, next) = (m', n')" by fastforce
  have "map_ok ttl m'"
    using map_ok_mergeGroupedHop [of ttl m g k "next"] Cons.prems by (simp add: r kg groups_ok_def)
  then show ?case using Cons.IH Cons.prems by (simp add: r kg groups_ok_def)
qed simp

text \<open>When there is one known row, the unknown row is merged into it.\<close>

lemma single_known:
  assumes "map_of m mtrUnknownKey = Some unk" "filter (\<lambda>ka. fst ka \<noteq> mtrUnknownKey) m = [(k, known)]"
    "distinct (map fst m)"
  shows "k \<noteq> mtrUnknownKey" "map_of m k = Some known"
proof -
  have "(k, known) \<in> set (filter (\<lambda>ka. fst ka \<noteq> mtrUnknownKey) m)" using assms(2) by simp
  then show "k \<noteq> mtrUnknownKey" "map_of m k = Some known"
    using assms(3) by (auto simp: map_of_eq_Some_iff)
qed

lemma map_ok_mergeUnknown: "map_ok ttl m \<Longrightarrow> map_ok ttl (mergeUnknownIntoSingleKnown m)"
proof -
  assume m: "map_ok ttl m"
  show ?thesis
  proof (cases "\<exists>unk k known. map_of m mtrUnknownKey = Some unk \<and>
      filter (\<lambda>ka. fst ka \<noteq> mtrUnknownKey) m = [(k, known)]")
    case True
    then obtain unk k known where u: "map_of m mtrUnknownKey = Some unk"
        "filter (\<lambda>ka. fst ka \<noteq> mtrUnknownKey) m = [(k, known)]" by blast
    have "map_of m k = Some known" using single_known [OF u] m by (simp add: map_ok_def)
    then have "row_ok ttl (mergeMTRHopAccum known unk)"
      using map_ok_lookup [OF m] u(1) acc_ok_merge by (auto simp: row_ok_def merge_acc_fields)
    then show ?thesis using m u by (simp add: mergeUnknownIntoSingleKnown_def map_ok_update map_ok_delete)
  next
    case False
    then have "mergeUnknownIntoSingleKnown m = m"
      by (auto simp: mergeUnknownIntoSingleKnown_def split: option.splits list.splits)
    then show ?thesis using m by simp
  qed
qed


context additive_counter
begin

lemma total_mergeUnknown: "map_ok ttl m \<Longrightarrow> total (mergeUnknownIntoSingleKnown m) = total m"
proof -
  assume m: "map_ok ttl m"
  then have d: "distinct (map fst m)" by (simp add: map_ok_def)
  show ?thesis
  proof (cases "\<exists>unk k known. map_of m mtrUnknownKey = Some unk \<and>
      filter (\<lambda>ka. fst ka \<noteq> mtrUnknownKey) m = [(k, known)]")
    case True
    then obtain unk k known where u: "map_of m mtrUnknownKey = Some unk"
        "filter (\<lambda>ka. fst ka \<noteq> mtrUnknownKey) m = [(k, known)]" by blast
    note k = single_known [OF u d]
    have "acc_ok unk" "acc_ok known"
      using map_ok_lookup [OF m] u(1) k(2) by (auto simp: row_ok_def)
    then show ?thesis
      using u k d by (simp add: mergeUnknownIntoSingleKnown_def total_delete distinct_update total_update
          update_conv' f_merge)
  next
    case False
    then have "mergeUnknownIntoSingleKnown m = m"
      by (auto simp: mergeUnknownIntoSingleKnown_def split: option.splits list.splits)
    then show ?thesis by simp
  qed
qed

lemma total_mergeGroups:
  "map_ok ttl m \<Longrightarrow> groups_ok gs \<Longrightarrow>
   total (fst (fold (mergeGroupedHop ttl) gs (m, next))) = total m + gtotal gs"
proof (induction gs arbitrary: m "next")
  case (Cons kg gs)
  obtain k g' where kg: "kg = (k, g')" by (cases kg)
  obtain m' n' where r: "mergeGroupedHop ttl (k, g') (m, next) = (m', n')" by fastforce
  have g': "grp_ok g'" using Cons.prems by (simp add: kg groups_ok_def)
  have "map_ok ttl m'"
    using map_ok_mergeGroupedHop [OF Cons.prems(1) g', of k "next"] by (simp add: r)
  moreover have "total m' = total m + g g'"
    using total_mergeGroupedHop [OF _ g', of m ttl k "next"] Cons.prems(1)
    by (simp add: r map_ok_def row_ok_def)
  ultimately show ?case using Cons.IH Cons.prems by (simp add: r kg groups_ok_def gtotal_def)
qed (simp add: gtotal_def)

lemma accMap_update [simp]:
  "accMapForTTL \<lparr>stats = AList.update ttl m st, nextOrder = n\<rparr> t =
     (if t = ttl then m else accMapForTTL \<lparr>stats = st, nextOrder = n\<rparr> t)"
  by (simp add: accMapForTTL_def update_conv')

lemma total_update_ttl:
  assumes "agg_ok agg" "\<forall>x\<in>set attempts. hop_ok x"
  shows "total (accMapForTTL (update_ttl agg ttl attempts) t) =
    total (accMapForTTL agg t) + (if t = ttl then sum_list (map h attempts) else 0)"
proof (cases "attempts = []")
  case False
  let ?gs = "groupMTRHopAttempts attempts"
  let ?r = "fold (mergeGroupedHop ttl) ?gs (accMapForTTL agg ttl, nextOrder agg)"
  have m: "map_ok ttl (accMapForTTL agg ttl)" by (rule agg_ok_lookup [OF assms(1)])
  have gs: "groups_ok ?gs" by (rule groups_ok_group [OF assms(2)])
  have "total (mergeUnknownIntoSingleKnown (fst ?r)) = total (accMapForTTL agg ttl) + sum_list (map h attempts)"
    using total_mergeUnknown [OF map_ok_mergeGroups [OF m gs]] total_mergeGroups [OF m gs]
    by (simp add: gtotal_group)
  moreover have "accMapForTTL \<lparr>stats = stats agg, nextOrder = n\<rparr> t = accMapForTTL agg t" for n
    by (simp add: accMapForTTL_def)
  ultimately show ?thesis using False by (simp add: update_ttl_def Let_def)
qed (simp add: update_ttl_def)

end

lemma agg_ok_update_ttl:
  assumes "agg_ok agg" "\<forall>h\<in>set attempts. hop_ok h"
  shows "agg_ok (update_ttl agg ttl attempts)"
proof (cases "attempts = []")
  case False
  let ?r = "fold (mergeGroupedHop ttl) (groupMTRHopAttempts attempts) (accMapForTTL agg ttl, nextOrder agg)"
  have "map_ok ttl (mergeUnknownIntoSingleKnown (fst ?r))"
    by (intro map_ok_mergeUnknown map_ok_mergeGroups agg_ok_lookup groups_ok_group assms)
  then have "agg_ok (agg\<lparr>stats := AList.update ttl (mergeUnknownIntoSingleKnown (fst ?r)) (stats agg),
      nextOrder := snd ?r\<rparr>)" using assms(1) by (rule agg_ok_update [rotated])
  then show ?thesis using False by (simp add: update_ttl_def Let_def agg_ok_def)
qed (use assms in \<open>simp add: update_ttl_def\<close>)

definition hops_ok :: "hop list list \<Rightarrow> bool" where
  "hops_ok hops \<longleftrightarrow> (\<forall>attempts\<in>set hops. \<forall>h\<in>set attempts. hop_ok h)"

lemma fold_update_ok:
  "agg_ok agg \<Longrightarrow> \<forall>ta\<in>set tas. \<forall>h\<in>set (snd ta). hop_ok h \<Longrightarrow>
   agg_ok (fold (\<lambda>(ttl, attempts) agg. update_ttl agg ttl attempts) tas agg)"
  by (induction tas arbitrary: agg) (auto simp: agg_ok_update_ttl)

lemma agg_ok_Update: "agg_ok agg \<Longrightarrow> hops_ok hops \<Longrightarrow> agg_ok (agg_Update agg hops)"
  unfolding agg_Update_def by (intro fold_update_ok) (auto simp: hops_ok_def dest!: set_zip_rightD)

lemma map_ok_migrate_one:
  assumes "map_ok ttl m" "acc_ok (snd ka)"
  shows "map_ok ttl (migrate_one ttl ka m)"
proof -
  obtain k a where ka: "ka = (k, a)" by (cases ka)
  show ?thesis
  proof (cases "map_of m k")
    case None
    have "row_ok ttl (a\<lparr>acc_ttl := ttl\<rparr>)" using assms(2) by (simp add: ka row_ok_def acc_ok_def)
    then show ?thesis using assms(1) None by (simp add: migrate_one_def ka map_ok_update)
  next
    case (Some d)
    have "row_ok ttl (mergeMTRHopAccum d a)"
      using map_ok_lookup [OF assms(1) Some] assms(2) by (simp add: ka row_ok_def merge_acc_fields acc_ok_merge)
    then show ?thesis using assms(1) Some by (simp add: migrate_one_def ka map_ok_update)
  qed
qed

lemma agg_ok_Migrate: "agg_ok agg \<Longrightarrow> agg_ok (agg_MigrateStats agg f t n)"
proof (cases "accMapForTTL agg f = []")
  case False
  assume agg: "agg_ok agg"
  have "map_ok t m \<Longrightarrow> \<forall>ka\<in>set kas. acc_ok (snd ka) \<Longrightarrow> map_ok t (fold (migrate_one t) kas m)" for kas m
    by (induction kas arbitrary: m) (simp_all add: map_ok_migrate_one)
  moreover have "\<forall>ka\<in>set (accMapForTTL agg f). acc_ok (snd ka)"
    using agg_ok_lookup [OF agg, of f] by (simp add: map_ok_def row_ok_def)
  ultimately have m: "map_ok t (fold (migrate_one t) (accMapForTTL agg f) (accMapForTTL agg t))"
    using agg_ok_lookup [OF agg] by blast
  have ttl: "acc_ttl (capMTRHopAccum n a) = acc_ttl a" for a by (simp add: capMTRHopAccum_def Let_def)
  have fst: "map fst (map (\<lambda>(k, a). (k, capMTRHopAccum n a)) xs) = map fst xs" for xs :: "(string \<times> mtrHopAccum) list"
    by (induction xs) auto
  have "map_ok t (map (\<lambda>(k, a). (k, capMTRHopAccum n a)) (fold (migrate_one t) (accMapForTTL agg f) (accMapForTTL agg t)))"
    using m unfolding map_ok_def fst by (auto simp: row_ok_def acc_ok_cap ttl)
  from agg_ok_delete [OF agg_ok_update [OF agg this, of "nextOrder agg"], of f] show ?thesis
    using False by (simp add: agg_MigrateStats_def Let_def)
qed (simp add: agg_MigrateStats_def)

lemma patch_acc_counters [simp]:
  "acc_ok (patch_acc ip host geo a) = acc_ok a" "acc_ttl (patch_acc ip host geo a) = acc_ttl a"
  by (simp_all add: patch_acc_def Let_def acc_ok_def)

lemma agg_ok_Patch: "agg_ok agg \<Longrightarrow> agg_ok (fst (agg_PatchMetadataByIP agg ip host geo))"
proof -
  assume agg: "agg_ok agg"
  have f: "map fst (map (\<lambda>(k, a). (k, patch_acc i h geo a)) m) = map fst m" for i h and m :: "(string \<times> mtrHopAccum) list"
    by (induction m) auto
  have m: "map_ok ttl m \<Longrightarrow> map_ok ttl (map (\<lambda>(k, a). (k, patch_acc i h geo a)) m)" for ttl m i h
    unfolding map_ok_def f by (auto simp: row_ok_def)
  have "agg_ok (agg\<lparr>stats := map (\<lambda>(ttl, m). (ttl, map (\<lambda>(k, a). (k, patch_acc i h geo a)) m)) (stats agg)\<rparr>)" for i h
    using agg m by (auto simp: agg_ok_def comp_def split_beta)
  then show ?thesis using agg by (simp add: agg_PatchMetadataByIP_def Let_def)
qed

subsection \<open>Histories of an aggregator\<close>

inductive agg_step :: "MTRAggregator \<Rightarrow> MTRAggregator \<Rightarrow> bool" where
  Update: "hops_ok hops \<Longrightarrow> agg_step agg (agg_Update agg hops)"
| Reset: "agg_step agg (agg_Reset agg)"
| Clear: "agg_step agg (agg_ClearHop agg ttl)"
| Migrate: "agg_step agg (agg_MigrateStats agg fromTTL toTTL maxPerHop)"
| Patch: "agg_step agg (fst (agg_PatchMetadataByIP agg ip host geo))"

lemma agg_ok_step: "agg_ok s \<Longrightarrow> agg_step s t \<Longrightarrow> agg_ok t"
proof (erule agg_step.cases)
  show "agg_ok s \<Longrightarrow> s = agg \<Longrightarrow> t = agg_Reset agg \<Longrightarrow> agg_ok t" for agg
    by (simp add: agg_Reset_def agg_ok_def)
  show "agg_ok s \<Longrightarrow> s = agg \<Longrightarrow> t = agg_ClearHop agg ttl \<Longrightarrow> agg_ok t" for agg ttl
    by (simp add: agg_ClearHop_def agg_ok_delete)
qed (simp_all add: agg_ok_Update agg_ok_Migrate agg_ok_Patch)

interpretation agg_run: step_invariant agg_step agg_ok
  by unfold_locales (rule agg_ok_step)


context additive_counter
begin

lemma total_Update:
  assumes "agg_ok agg" "hops_ok hops"
  shows "total (accMapForTTL (agg_Update agg hops) t) = total (accMapForTTL agg t) +
    (if 1 \<le> t \<and> t \<le> int (length hops) then sum_list (map h (hops ! nat (t - 1))) else 0)"
  using assms(2)
proof (induction hops rule: rev_induct)
  case Nil
  then show ?case by (simp add: agg_Update_def)
next
  case (snoc attempts hops)
  have z: "zip [1..int (length (hops @ [attempts]))] (hops @ [attempts]) =
      zip [1..int (length hops)] hops @ [(int (length hops) + 1, attempts)]"
    by (simp add: upto_rec2)
  have ok: "hops_ok hops" "\<forall>x\<in>set attempts. hop_ok x" using snoc.prems by (auto simp: hops_ok_def)
  have "agg_Update agg (hops @ [attempts]) = update_ttl (agg_Update agg hops) (int (length hops) + 1) attempts"
    unfolding agg_Update_def z by simp
  then have "total (accMapForTTL (agg_Update agg (hops @ [attempts])) t) =
      total (accMapForTTL (agg_Update agg hops) t) +
      (if t = int (length hops) + 1 then sum_list (map h attempts) else 0)"
    using total_update_ttl [OF agg_ok_Update [OF assms(1) ok(1)] ok(2)] by simp
  then show ?case using snoc.IH [OF ok(1)] by (auto simp: nth_append)
qed

end


subsection \<open>What a snapshot shows\<close>

definition stat_ok :: "MTRHopStat \<Rightarrow> bool" where
  "stat_ok r \<longleftrightarrow> 0 \<le> stat_Received r \<and> stat_Received r \<le> stat_Snt r \<and>
     0 \<le> stat_Loss r \<and> stat_Loss r \<le> 100 \<and> 0 \<le> stat_StDev r \<and>
     (if stat_Received r = 0 then stat_Best r = 0 \<and> stat_Avg r = 0 \<and> stat_Wrst r = 0
      else 0 < stat_Best r \<and> stat_Best r \<le> stat_Avg r \<and> stat_Avg r \<le> stat_Wrst r)"

lemma stat_ok_build:
  assumes "acc_ok a"
  shows "stat_ok (buildMTRHopStat a)"
proof -
  let ?n = "real_of_int (acc_received a)"
  have m: "0 \<le> acc_received a" "acc_received a \<le> acc_sent a" "acc_sum a \<le> ?n * acc_worst a"
    using assms by (simp_all add: acc_ok_def moments_ok_def)
  have loss: "0 \<le> stat_Loss (buildMTRHopStat a) \<and> stat_Loss (buildMTRHopStat a) \<le> 100"
  proof (cases "0 < acc_sent a")
    case True
    have "(real_of_int (acc_sent a) - ?n) * 100 \<le> 100 * real_of_int (acc_sent a)" using m(1) by simp
    then show ?thesis using True m by (simp add: buildMTRHopStat_def Let_def pos_divide_le_eq)
  qed (simp add: buildMTRHopStat_def Let_def)
  have rtt: "if acc_received a = 0 then stat_Best (buildMTRHopStat a) = 0 \<and> stat_Avg (buildMTRHopStat a) = 0 \<and>
        stat_Wrst (buildMTRHopStat a) = 0
      else 0 < stat_Best (buildMTRHopStat a) \<and> stat_Best (buildMTRHopStat a) \<le> stat_Avg (buildMTRHopStat a) \<and>
        stat_Avg (buildMTRHopStat a) \<le> stat_Wrst (buildMTRHopStat a)"
  proof (cases "acc_received a = 0")
    case True
    then show ?thesis using assms by (simp add: buildMTRHopStat_def acc_ok_def moments_ok_def)
  next
    case False
    then have n: "0 < ?n" "0 < acc_best a" "acc_best a < MaxFloat64" "?n * acc_best a \<le> acc_sum a"
      using assms by (auto simp: acc_ok_def moments_ok_def)
    then show ?thesis
      using False m by (simp add: buildMTRHopStat_def Let_def pos_le_divide_eq pos_divide_le_eq mult.commute)
  qed
  have "0 \<le> stat_StDev (buildMTRHopStat a)" by (simp add: buildMTRHopStat_def Let_def)
  moreover have "stat_Received (buildMTRHopStat a) = acc_received a" "stat_Snt (buildMTRHopStat a) = acc_sent a"
    by (simp_all add: buildMTRHopStat_def Let_def)
  ultimately show ?thesis using m loss rtt unfolding stat_ok_def by simp
qed

lemma sorted_concat_map:
  assumes "sorted xs" "\<And>x y. y \<in> set (f x) \<Longrightarrow> k y = x"
  shows "sorted (map k (concat (map f xs)))"
  using assms(1)
proof (induction xs)
  case (Cons x xs)
  have "map k (f x) = replicate (length (f x)) x" by (rule replicate_eqI) (auto simp: assms(2))
  then have "sorted (map k (f x))" by simp
  moreover have "a \<le> b" if a: "a \<in> set (map k (f x))" and b: "b \<in> set (map k (concat (map f xs)))" for a b
  proof -
    have "a = x" using a assms(2) by auto
    moreover have "b \<in> set xs" using b assms(2) by auto
    ultimately show ?thesis using Cons.prems by simp
  qed
  ultimately show ?case using Cons by (simp add: sorted_append)
qed simp

text \<open>Whatever sequence of rounds, resets, TTL clearings, migrations and late metadata an aggregator
  went through, its snapshot is sane: rows are ordered by TTL, no row received more than it sent, the
  loss is a percentage, and for a row with replies best, average and worst are in order and positive,
  while a row without replies shows zeros.\<close>

theorem snapshot_sane:
  assumes "reaches agg_step NewMTRAggregator agg"
  shows "sorted (map stat_TTL (snapshot agg)) \<and> list_all stat_ok (snapshot agg)"
proof -
  have "agg_ok NewMTRAggregator" by (simp add: agg_ok_def NewMTRAggregator_def)
  then have agg: "agg_ok agg" by (rule agg_run.reachable_inv [OF assms])
  have row: "row_ok ttl a" if "a \<in> snd ` set (accMapForTTL agg ttl)" for ttl a
    using agg_ok_lookup [OF agg, of ttl] that by (auto simp: map_ok_def)
  have "sorted (map stat_TTL (snapshot agg))"
    unfolding snapshot_def
  proof (rule sorted_concat_map)
    fix ttl r
    assume "r \<in> set (map buildMTRHopStat (sort_key (\<lambda>acc. (acc_order acc, acc_ip acc))
        (map snd (accMapForTTL agg ttl))))"
    then obtain a where "a \<in> snd ` set (accMapForTTL agg ttl)" "r = buildMTRHopStat a" by auto
    then show "stat_TTL r = ttl" using row [of a ttl] by (simp add: buildMTRHopStat_def Let_def row_ok_def)
  qed simp
  moreover have "stat_ok r" if "r \<in> set (snapshot agg)" for r
  proof -
    obtain ttl a where a: "a \<in> snd ` set (accMapForTTL agg ttl)" "r = buildMTRHopStat a"
      using \<open>r \<in> set (snapshot agg)\<close> by (auto simp: snapshot_def)
    show ?thesis unfolding a(2) using row [OF a(1)] by (intro stat_ok_build) (simp add: row_ok_def)
  qed
  ultimately show ?thesis by (simp add: list_all_iff)
qed

definition sent_at :: "MTRAggregator \<Rightarrow> int \<Rightarrow> int" where
  "sent_at agg ttl = sum_list (map (\<lambda>ka. acc_sent (snd ka)) (accMapForTTL agg ttl))"

definition received_at :: "MTRAggregator \<Rightarrow> int \<Rightarrow> int" where
  "received_at agg ttl = sum_list (map (\<lambda>ka. acc_received (snd ka)) (accMapForTTL agg ttl))"

lemma sent_at_Update:
  assumes "agg_ok agg" "hops_ok hops"
  shows "sent_at (agg_Update agg hops) t =
    sent_at agg t + (if 1 \<le> t \<and> t \<le> int (length hops) then int (length (hops ! nat (t - 1))) else 0)"
  using sent.total_Update [OF assms, of t] by (simp add: sent.total_def sent_at_def sum_list_triv)

text \<open>C18. No probe is lost or counted twice by a round: the rows of a TTL together count what they
  counted before plus the attempts the round reports for it, and likewise the replies, although
  attempts are grouped by address and the unknown row is merged into a single known one.\<close>

theorem update_conserves:
  assumes "reaches agg_step NewMTRAggregator agg" "hops_ok hops" "1 \<le> t" "t \<le> int (length hops)"
  shows "sent_at (agg_Update agg hops) t = sent_at agg t + int (length (hops ! nat (t - 1))) \<and>
    received_at (agg_Update agg hops) t = received_at agg t + int (length (filter Success (hops ! nat (t - 1))))"
proof -
  have "agg_ok NewMTRAggregator" by (simp add: agg_ok_def NewMTRAggregator_def)
  then have agg: "agg_ok agg" by (rule agg_run.reachable_inv [OF assms(1)])
  have c: "sum_list (map (\<lambda>h. of_bool (Success h)) xs) = int (length (filter Success xs))" for xs
    by (induction xs) auto
  show ?thesis
    using sent_at_Update [OF agg assms(2), of t] received.total_Update [OF agg assms(2), of t] assms(3,4)
    by (simp add: received.total_def received_at_def c)
qed

text \<open>Capping a row to a probe budget (when statistics move to a lower TTL) leaves its average, and
  with at least two probes its sample variance, exactly as they were, and caps the count.\<close>

theorem cap_preserves:
  assumes "acc_ok a" "0 < m" "m < acc_received a"
  shows "acc_sent (capMTRHopAccum m a) = m \<and> acc_received (capMTRHopAccum m a) = m \<and>
    mean (capMTRHopAccum m a) = mean a \<and> (if 1 < m then variance (capMTRHopAccum m a) = variance a else True)"
proof -
  have n: "real_of_int m \<noteq> 0" "real_of_int (acc_received a) \<noteq> 0" using assms by auto
  have "mean (capMTRHopAccum m a) = mean a" using n by (simp add: mean_def cap_cut [OF assms])
  moreover have "variance (capMTRHopAccum m a) = variance a" if "1 < m"
  proof -
    have "real_of_int m - 1 \<noteq> 0" using that by auto
    then show ?thesis using n that by (simp add: variance_def cap_cut [OF assms])
  qed
  ultimately show ?thesis by (simp add: cap_cut [OF assms])
qed

definition late_view :: "MTRAggregator \<Rightarrow> (int \<times> (string \<times> mtrHopAccum) list) list" where
  "late_view agg = map (\<lambda>(ttl, m). (ttl, map (\<lambda>(k, a). (k, a\<lparr>acc_host := [], acc_geo := None\<rparr>)) m)) (stats agg)"

text \<open>Late metadata changes nothing but host names and geo data of rows, and reports whether it
  changed any.\<close>

theorem patch_frame:
  "late_view (fst (agg_PatchMetadataByIP agg ip host geo)) = late_view agg \<and>
   snd (agg_PatchMetadataByIP agg ip host geo) = (fst (agg_PatchMetadataByIP agg ip host geo) \<noteq> agg)"
proof -
  have v: "(patch_acc i h geo a)\<lparr>acc_host := [], acc_geo := None\<rparr> = a\<lparr>acc_host := [], acc_geo := None\<rparr>" for i h a
    by (simp add: patch_acc_def Let_def)
  have c: "patches i h geo a = (patch_acc i h geo a \<noteq> a)" if "h \<noteq> [] \<or> geo \<noteq> None" for i h and a :: mtrHopAccum
    using that by (cases a) (auto simp: patches_def patch_acc_def Let_def)
  have l: "list_ex (\<lambda>(k, a). patches i h geo a) m = (map (\<lambda>(k, a). (k, patch_acc i h geo a)) m \<noteq> m)"
    if "h \<noteq> [] \<or> geo \<noteq> None" for i h and m :: "(string \<times> mtrHopAccum) list"
    using c [OF that, of i] by (induction m) auto
  have s: "list_ex (\<lambda>(ttl, m). list_ex (\<lambda>(k, a). patches i h geo a) m) st =
      (map (\<lambda>(ttl, m). (ttl, map (\<lambda>(k, a). (k, patch_acc i h geo a)) m)) st \<noteq> st)"
    if "h \<noteq> [] \<or> geo \<noteq> None" for i h and st :: "(int \<times> (string \<times> mtrHopAccum) list) list"
    using l [OF that, of i] by (induction st) auto
  have "late_view (agg\<lparr>stats := map (\<lambda>(ttl, m). (ttl, map (\<lambda>(k, a). (k, patch_acc i h geo a)) m)) (stats agg)\<rparr>) =
      late_view agg" for i h
    by (simp add: late_view_def v split_beta comp_def)
  then show ?thesis
    using s [of "TrimSpace host" "TrimSpace ip"]
    by (cases agg) (auto simp: agg_PatchMetadataByIP_def Let_def)
qed


text \<open>A concrete history: two rounds, a timeout and a reply at TTL 1.\<close>

definition round_hops :: "hop list list" where
  "round_hops = [[\<lparr>Success = True, Address = Some (IPAddr [10, 0, 0, 1] []), Hostname = [], TTL = 1,
     RTT = 2000000, Error = None, Geo = None, Lang = [], MPLS = []\<rparr>,
     \<lparr>Success = False, Address = None, Hostname = [], TTL = 1, RTT = 0, Error = Some HopTimeout,
      Geo = None, Lang = [], MPLS = []\<rparr>]]"

lemma round_hops_ok: "hops_ok round_hops"
  by (simp add: hops_ok_def round_hops_def hop_ok_def)

lemma round_reachable: "reaches agg_step NewMTRAggregator (agg_Update NewMTRAggregator round_hops)"
  by (rule reaches_step [OF reaches_refl], rule agg_step.Update) (rule round_hops_ok)

theorem snapshot_sane_witness:
  "sorted (map stat_TTL (snapshot (agg_Update NewMTRAggregator round_hops))) \<and>
   list_all stat_ok (snapshot (agg_Update NewMTRAggregator round_hops))"
  by (rule snapshot_sane [OF round_reachable])

theorem update_conserves_witness:
  "sent_at (agg_Update (agg_Update NewMTRAggregator round_hops) round_hops) 1 =
     sent_at (agg_Update NewMTRAggregator round_hops) 1 + 2 \<and>
   received_at (agg_Update (agg_Update NewMTRAggregator round_hops) round_hops) 1 =
     received_at (agg_Update NewMTRAggregator round_hops) 1 + 1"
  using update_conserves [OF round_reachable round_hops_ok, of 1] by (simp add: round_hops_def)

definition full_row :: mtrHopAccum where
  "full_row = (newHopAccum 0 1 ''ip:a'')\<lparr>acc_sent := 3, acc_received := 3, acc_sum := 6, acc_sumSq := 14,
     acc_best := 1, acc_worst := 3\<rparr>"

theorem cap_preserves_witness:
  "acc_sent (capMTRHopAccum 2 full_row) = 2 \<and> mean (capMTRHopAccum 2 full_row) = 2 \<and>
   variance (capMTRHopAccum 2 full_row) = 1"
proof -
  have "acc_ok full_row" by (simp add: full_row_def newHopAccum_def acc_ok_def moments_ok_def MaxFloat64_def)
  moreover have "acc_received full_row = 3" "mean full_row = 2" "variance full_row = 1"
    by (simp_all add: full_row_def newHopAccum_def mean_def variance_def)
  ultimately show ?thesis using cap_preserves [of full_row 2] by simp
qed

end
