(* ===== verification/Geo_Filter.thy ===== *)
theory Geo_Filter
  imports Trace_Config
begin

section \<open>Addresses that need no lookup: \<open>ipgeo/ipfilter.go\<close>\<close>

text \<open>
  \<open>Filter\<close> recognises reserved, private, US-DoD and non-global addresses, for which the geo sources
  are not asked. A rule's CIDR string is given by its network and prefix length, as
  \<open>net.ParseCIDR\<close> returns them; \<open>parse\<close> stands for \<open>net.ParseIP\<close> (the empty address when
  it fails), which gives 16 bytes for every address it accepts.
\<close>

record cidrFilterRule =
  rule_net :: ip
  rule_bits :: nat
  rule_whois :: string

definition v4_rule :: "byte list \<Rightarrow> nat \<Rightarrow> string \<Rightarrow> cidrFilterRule" where
  "v4_rule net bits w = \<lparr>rule_net = net, rule_bits = bits, rule_whois = w\<rparr>"

definition v6_rule :: "byte list \<Rightarrow> nat \<Rightarrow> string \<Rightarrow> cidrFilterRule" where
  "v6_rule front bits w = \<lparr>rule_net = front @ replicate (16 - length front) 0, rule_bits = bits, rule_whois = w\<rparr>"

definition reservedCIDRRules :: "cidrFilterRule list" where
  "reservedCIDRRules =
     [v4_rule [0, 0, 0, 0] 8 ''RFC1122'', v4_rule [100, 64, 0, 0] 10 ''RFC6598'',
      v4_rule [127, 0, 0, 0] 8 ''RFC1122'', v4_rule [169, 254, 0, 0] 16 ''RFC3927'',
      v4_rule [192, 0, 0, 0] 24 ''RFC6890'', v4_rule [192, 0, 2, 0] 24 ''RFC5737'',
      v4_rule [192, 88, 99, 0] 24 ''RFC3068'', v4_rule [198, 18, 0, 0] 15 ''RFC2544'',
      v4_rule [198, 51, 100, 0] 24 ''RFC5737'', v4_rule [203, 0, 113, 0] 24 ''RFC5737'',
      v4_rule [224, 0, 0, 0] 4 ''RFC5771'', v4_rule [255, 255, 255, 255] 32 ''RFC0919'',
      v4_rule [240, 0, 0, 0] 4 ''RFC1112'',
      v6_rule [0xFE, 0x80] 10 ''RFC4291'', v6_rule [0xFF] 8 ''RFC4291'',
      v6_rule [0xFE, 0xC0] 10 ''RFC3879'', v6_rule [0xFE] 9 ''RFC4291'',
      v6_rule [0x00, 0x64, 0xFF, 0x9B] 96 ''RFC6052'', v6_rule [] 96 ''RFC4291'',
      v6_rule [0x00, 0x64, 0xFF, 0x9B, 0x00, 0x01] 48 ''RFC6052'',
      v6_rule [0x20, 0x01, 0x0D, 0xB8] 32 ''RFC3849'', v6_rule [0x20, 0x02] 16 ''RFC3056'']"

definition dodCIDRRules :: "cidrFilterRule list" where
  "dodCIDRRules = map (\<lambda>b. v4_rule [b, 0, 0, 0] 8 ''DOD'')
     [6, 7, 11, 21, 22, 26, 28, 29, 30, 33, 55, 214, 215]"

text \<open>\<open>IPNet.Contains\<close> compares the bits of the mask; an address with a four-byte form is compared
  in that form.\<close>

fun same_prefix :: "nat \<Rightarrow> byte list \<Rightarrow> byte list \<Rightarrow> bool" where
  "same_prefix n [] bs = True"
| "same_prefix n (a # as) [] = True"
| "same_prefix n (a # as) (b # bs) =
     (if n = 0 then True
      else if 8 \<le> n then a = b \<and> same_prefix (n - 8) as bs
      else drop_bit (8 - n) a = drop_bit (8 - n) b)"

definition net_contains :: "ip \<Rightarrow> nat \<Rightarrow> ip \<Rightarrow> bool" where
  "net_contains net bits p =
     (let p = (if To4 p \<noteq> [] then To4 p else p) in
      length p = length net \<and> same_prefix bits net p)"

fun matchCIDRFilterRule :: "ip \<Rightarrow> cidrFilterRule list \<Rightarrow> string option" where
  "matchCIDRFilterRule p [] = None"
| "matchCIDRFilterRule p (r # rules) =
     (if net_contains (rule_net r) (rule_bits r) p then Some (rule_whois r)
      else matchCIDRFilterRule p rules)"

definition IsPrivate :: "ip \<Rightarrow> bool" where
  "IsPrivate p =
     (if To4 p \<noteq> [] then
        (let q = To4 p in q ! 0 = 10 \<or> q ! 0 = 172 \<and> q ! 1 AND 0xF0 = 16 \<or> q ! 0 = 192 \<and> q ! 1 = 168)
      else length p = 16 \<and> p ! 0 AND 0xFE = 0xFC)"

definition classifyPrivateIP :: "ip \<Rightarrow> string option" where
  "classifyPrivateIP p =
     (if p = [] \<or> \<not> IsPrivate p then None
      else if net_contains (0xFC # replicate 15 0) 7 p then Some ''RFC4193''
      else Some ''RFC1918'')"

definition isInvalidScopedIPv6 :: "ip \<Rightarrow> bool" where
  "isInvalidScopedIPv6 p \<longleftrightarrow> p \<noteq> [] \<and> To4 p = [] \<and> \<not> net_contains (0x20 # replicate 15 0) 3 p"

definition whois_geo :: "string \<Rightarrow> geo_data" where
  "whois_geo w = empty_geo\<lparr>Whois := w\<rparr>"

definition Filter :: "(string \<Rightarrow> ip) \<Rightarrow> string \<Rightarrow> geo_data option" where
  "Filter parse s =
     (let p = parse s in
      if p = [] then None
      else case matchCIDRFilterRule p reservedCIDRRules of
        Some w \<Rightarrow> Some (whois_geo w)
      | None \<Rightarrow> (case classifyPrivateIP p of
          Some w \<Rightarrow> Some (whois_geo w)
        | None \<Rightarrow> (case matchCIDRFilterRule p dodCIDRRules of
            Some w \<Rightarrow> Some (whois_geo w)
          | None \<Rightarrow> if isInvalidScopedIPv6 p then Some (whois_geo ''INVALID'') else None)))"

lemma Filter_source: "Filter parse s = Some g \<Longrightarrow> Source g = [] \<and> \<not> isPendingGeo (Some g)"
  by (auto simp: Filter_def Let_def whois_geo_def empty_geo_def isPendingGeo_def PendingGeoSource_def
      split: option.splits if_splits)

lemma same_prefix_0 [simp]: "same_prefix 0 as bs"
  by (cases as; cases bs) auto

subsection \<open>Which IPv6 addresses are looked up\<close>

lemma top3:
  assumes "drop_bit 5 (b :: byte) = 1"
  shows "32 \<le> unat b" "unat b < 64"
proof -
  have "unat (drop_bit 5 b) = unat b div 32" by (simp add: drop_bit_eq_div unat_div)
  then have "unat b div 32 = 1" using assms by simp
  then show "32 \<le> unat b" "unat b < 64" by linarith+
qed

text \<open>An IPv6 address reaches the geo sources exactly when it is global unicast (\<open>2000::/3\<close>) and
  neither a documentation address (\<open>2001:db8::/32\<close>) nor a 6to4 one (\<open>2002::/16\<close>).\<close>

theorem filter_v6:
  assumes "length (parse s) = 16" "To4 (parse s) = []"
  shows "Filter parse s = None \<longleftrightarrow>
    drop_bit 5 (parse s ! 0) = 1 \<and> take 4 (parse s) \<noteq> [0x20, 0x01, 0x0D, 0xB8] \<and>
    take 2 (parse s) \<noteq> [0x20, 0x02]"
proof -
  define p where "p = parse s"
  obtain a b c d q where p: "p = a # b # c # d # q" and q: "length q = 12"
    using assms(1) by (auto simp: p_def [symmetric] numeral_eq_Suc length_Suc_conv)
  have t4: "To4 (a # b # c # d # q) = []" using assms(2) by (simp add: p_def [symmetric] p)
  have con: "net_contains net bits (a # b # c # d # q) =
      (length net = 16 \<and> same_prefix bits net (a # b # c # d # q))" for net bits
    using q by (auto simp: net_contains_def t4 p)
  have global: "net_contains (0x20 # replicate 15 0) 3 p = (drop_bit 5 a = 1)"
  proof -
    have "drop_bit 5 (0x20 :: byte) = 1" by code_simp
    then show ?thesis by (auto simp: con p)
  qed
  show ?thesis
  proof (cases "drop_bit 5 a = 1")
    case False
    then have "isInvalidScopedIPv6 p" using global by (simp add: isInvalidScopedIPv6_def p t4)
    then have "Filter parse s \<noteq> None"
      by (auto simp: Filter_def Let_def p_def [symmetric] isInvalidScopedIPv6_def split: option.splits)
    then show ?thesis using False by (simp add: p_def [symmetric] p)
  next
    case True
    then have a: "32 \<le> unat a" "unat a < 64" by (rule top3)+
    then have ne: "a \<noteq> 0" "a \<noteq> 0xFE" "a \<noteq> 0xFF" by auto
    have "a AND 0xFE \<le> a" by (rule word_and_le1 word_and_le2)
    then have "unat (a AND 0xFE) < 64" using a(2) by (simp add: word_le_nat_alt)
    then have priv: "\<not> IsPrivate p" using q by (auto simp: IsPrivate_def p t4)
    have dod: "matchCIDRFilterRule p dodCIDRRules = None"
      by (simp add: dodCIDRRules_def v4_rule_def con p)
    have z: "replicate 16 (0 :: byte) = 0 # replicate 15 0" by (simp add: numeral_eq_Suc)
    have m6: "net_contains (front @ replicate (16 - length front) 0) bits p \<longleftrightarrow>
        same_prefix bits (front @ replicate (16 - length front) 0) p" if "length front \<le> 16" for front bits
      unfolding p con using that by simp
    have no: "\<not> same_prefix bits (x # xs) p" if "8 \<le> bits" "x \<noteq> a" for bits x xs
      using that by (simp add: p)
    have rules: "matchCIDRFilterRule p (v6_rule front bits w # rs) =
        (if same_prefix bits (front @ replicate (16 - length front) 0) p then Some w else matchCIDRFilterRule p rs)"
      if "length front \<le> 16" for front bits w rs using m6 [OF that] by (simp add: v6_rule_def)
    have skip: "matchCIDRFilterRule p (v4_rule [x, y, u, v] bits w # rs) = matchCIDRFilterRule p rs"
      for x y u v bits w rs by (simp add: v4_rule_def p con)
    have db8: "same_prefix 32 (0x20 # 0x01 # 0x0D # 0xB8 # replicate 12 0) p =
        (0x20 = a \<and> 0x01 = b \<and> 0x0D = c \<and> 0xB8 = d)" by (simp add: p)
    have s4: "same_prefix 16 (0x20 # 0x02 # replicate 14 0) p = (0x20 = a \<and> 0x02 = b)"
      by (simp add: p)
    have res: "matchCIDRFilterRule p reservedCIDRRules =
        (if 0x20 = a \<and> 0x01 = b \<and> 0x0D = c \<and> 0xB8 = d then Some ''RFC3849''
         else if 0x20 = a \<and> 0x02 = b then Some ''RFC3056'' else None)"
      unfolding reservedCIDRRules_def skip
      by (subst rules, simp)+ (use ne in \<open>simp add: no z db8 s4 del: same_prefix.simps replicate.simps\<close>)
    have cl: "classifyPrivateIP p = None" using priv by (simp add: classifyPrivateIP_def)
    have inv: "\<not> isInvalidScopedIPv6 p" using True global by (simp add: isInvalidScopedIPv6_def)
    have "Filter parse s = None \<longleftrightarrow> matchCIDRFilterRule p reservedCIDRRules = None"
      unfolding Filter_def Let_def p_def [symmetric] cl dod using inv by (simp add: p split: option.split)
    also have "\<dots> \<longleftrightarrow> \<not> (a = 0x20 \<and> b = 0x01 \<and> c = 0x0D \<and> d = 0xB8) \<and> \<not> (a = 0x20 \<and> b = 0x02)"
      by (simp add: res)
    finally show ?thesis using True by (simp add: p_def [symmetric]) (simp add: p)
  qed
qed

theorem filter_v6_witness:
  "Filter (\<lambda>_. [0x20, 0x01, 0x48, 0x60] @ replicate 12 0) ''dns'' = None"
  using filter_v6 [of "\<lambda>_. [0x20, 0x01, 0x48, 0x60] @ replicate 12 0" "''dns''"]
  by (simp add: To4_def v4InV6Prefix_def) code_simp

end
