(* ===== verification/Geo_Lookup.thy ===== *)
theory Geo_Lookup
  imports Trace_Result Geo_Filter
begin

section \<open>Looking up metadata: the geo part of \<open>trace/trace.go\<close>\<close>

text \<open>
  A geo lookup asks the configured source, attempt by attempt, with growing timeouts, and caches
  what it gets. What the world does is an argument: \<open>geo_world\<close> says whether the context of the
  caller has ended before or later in an attempt, how much of its deadline remains, and whether the
  attempt's own timeout expired before the source (reached through \<open>singleflight\<close>) answered.
  The cache is a map; PTR answers and the race between the two lookups of a hop are arguments too.
\<close>

datatype lookup_error = CtxError string | DeadlineExceeded | SourceError string | BadType | NoSpecificError

record geo_world =
  err_before :: "int \<Rightarrow> string option"
  err_after :: "int \<Rightarrow> string option"
  remaining :: "int \<Rightarrow> int option"
  attempt_expired :: "int \<Rightarrow> bool"

definition geoLookupMaxRetries :: "int \<Rightarrow> int" where
  "geoLookupMaxRetries numMeasurements =
     (let maxRetries = numMeasurements - 1 in
      if maxRetries < 0 then 0 else if maxRetries > 5 then 5 else maxRetries)"

definition normalizeGeoLookupAttempt :: "int \<Rightarrow> int" where
  "normalizeGeoLookupAttempt attempt = (if attempt < 0 then 0 else if attempt > 4 then 4 else attempt)"

definition geoTimeoutForAttempt :: "int \<Rightarrow> int" where
  "geoTimeoutForAttempt attempt =
     (let timeout = 2 + normalizeGeoLookupAttempt attempt in
      (if timeout > 6 then 6 else timeout) * 1000000000)"

type_synonym geo_cache = "string \<rightharpoonup> geo_data"

text \<open>The attempts still to make; the result carries the new cache and the timeouts of the calls
  made.\<close>

fun geo_attempts ::
    "Config \<Rightarrow> geo_source \<Rightarrow> geo_world \<Rightarrow> string \<Rightarrow> string \<Rightarrow> lookup_error option \<Rightarrow> int list \<Rightarrow> geo_cache \<Rightarrow>
     (lookup_error + geo_data) \<times> geo_cache \<times> int list" where
  "geo_attempts c src w cacheKey query lastErr [] cache =
     (Inl (case lastErr of None \<Rightarrow> NoSpecificError | Some e \<Rightarrow> e), cache, [])"
| "geo_attempts c src w cacheKey query lastErr (attempt # later) cache =
     (case err_before w attempt of
        Some e \<Rightarrow> (Inl (CtxError e), cache, [])
      | None \<Rightarrow>
          if (case remaining w attempt of None \<Rightarrow> False | Some r \<Rightarrow> r \<le> 0) then
            (Inl (case err_after w attempt of Some e \<Rightarrow> CtxError e | None \<Rightarrow> DeadlineExceeded), cache, [])
          else
            let timeout = (case remaining w attempt of
                  None \<Rightarrow> geoTimeoutForAttempt attempt
                | Some r \<Rightarrow> min r (geoTimeoutForAttempt attempt));
                reply = (if attempt_expired w attempt then Inl ''context deadline exceeded''
                         else src (nat attempt) query timeout (cfg_Lang c) (Maptrace c));
                again = (\<lambda>e. case geo_attempts c src w cacheKey query (Some e) later cache of
                    (r, cache', ts) \<Rightarrow> (r, cache', timeout # ts))
            in (case reply of
                  Inl e \<Rightarrow>
                    (case err_after w attempt of
                       Some ce \<Rightarrow> (Inl (CtxError ce), cache, [timeout])
                     | None \<Rightarrow> again (SourceError e))
                | Inr None \<Rightarrow> again BadType
                | Inr (Some geo) \<Rightarrow> (Inr geo, cache(cacheKey \<mapsto> geo), [timeout])))"

definition lookupGeoWithRetry ::
    "Config \<Rightarrow> geo_source \<Rightarrow> geo_world \<Rightarrow> string \<Rightarrow> string \<Rightarrow> geo_cache \<Rightarrow>
     (lookup_error + geo_data) \<times> geo_cache \<times> int list" where
  "lookupGeoWithRetry c src w cacheKey query cache =
     (case cache cacheKey of
        Some g \<Rightarrow> (Inr g, cache, [])
      | None \<Rightarrow>
          let startAttempt = normalizeGeoLookupAttempt (GeoLookupOffset c);
              endAttempt = startAttempt + geoLookupMaxRetries (NumMeasurements c)
          in geo_attempts c src w cacheKey query None [startAttempt..endAttempt] cache)"

subsection \<open>Host names\<close>

text \<open>\<open>idna\<close> stands for \<open>idna.Lookup.ToASCII\<close>.\<close>

definition isLDHASCII :: "string \<Rightarrow> bool" where
  "isLDHASCII label = list_all (\<lambda>ch. let b = of_char ch :: nat in
     65 \<le> b \<and> b \<le> 90 \<or> 97 \<le> b \<and> b \<le> 122 \<or> 48 \<le> b \<and> b \<le> 57 \<or> b = 45) label"

fun split_dots :: "string \<Rightarrow> string list" where
  "split_dots [] = [[]]"
| "split_dots (ch # s) =
     (if ch = CHR ''.'' then [] # split_dots s
      else case split_dots s of [] \<Rightarrow> [[ch]] | l # ls \<Rightarrow> (ch # l) # ls)"

definition canonical_label :: "(string \<Rightarrow> string option) \<Rightarrow> string \<Rightarrow> string" where
  "canonical_label idna label =
     (if label = [] then label
      else if isLDHASCII label then label
      else case idna label of Some a \<Rightarrow> if a \<noteq> [] then a else label | None \<Rightarrow> label)"

definition CanonicalHostname :: "(string \<Rightarrow> string option) \<Rightarrow> string \<Rightarrow> string" where
  "CanonicalHostname idna s =
     (if s = [] then [] else join ''.'' (map (canonical_label idna) (split_dots (TrimSuffix s ''.''))))"

subsection \<open>The metadata of a hop\<close>

text \<open>What the name service answers and in which order the two lookups of a hop finish: \<open>ptrs\<close>
  is the PTR answer (empty when it failed), \<open>ptr_first\<close> whether it arrives before the geo answer
  (or, when the code always waits for it, within its second).\<close>

record ptr_world =
  ptrs :: "string list"
  ptr_first :: bool
  idna_ToASCII :: "string \<Rightarrow> string option"

definition applyPTRResult :: "ptr_world \<Rightarrow> hop \<Rightarrow> hop" where
  "applyPTRResult pw h =
     (case ptrs pw of [] \<Rightarrow> h | p # _ \<Rightarrow> h\<lparr>Hostname := CanonicalHostname (idna_ToASCII pw) p\<rparr>)"

definition resolveDN42Metadata :: "Config \<Rightarrow> geo_world \<Rightarrow> ptr_world \<Rightarrow> string \<Rightarrow> geo_cache \<Rightarrow> hop \<Rightarrow> hop \<times> geo_cache" where
  "resolveDN42Metadata c w pw ipStr cache h =
     (let looked = RDNS c \<and> Hostname h = [];
          h = (if looked then applyPTRResult pw h else h);
          combined = (if looked \<and> Hostname h \<noteq> [] then ipStr @ '','' @ Hostname h else ipStr)
      in case IPGeoSource c of
           None \<Rightarrow> (h, cache)
         | Some src \<Rightarrow>
             (case lookupGeoWithRetry c src w combined combined cache of
                (Inl e, cache', _) \<Rightarrow> (h\<lparr>Geo := Some timeoutGeo\<rparr>, cache')
              | (Inr g, cache', _) \<Rightarrow> (h\<lparr>Geo := Some g\<rparr>, cache')))"

definition startGeoLookup ::
    "(string \<Rightarrow> ip) \<Rightarrow> Config \<Rightarrow> geo_world \<Rightarrow> string \<Rightarrow> geo_cache \<Rightarrow> hop \<Rightarrow> hop \<times> geo_cache \<times> bool" where
  "startGeoLookup parse c w ipStr cache h =
     (case IPGeoSource c of
        None \<Rightarrow> (h, cache, True)
      | Some src \<Rightarrow>
          if Geo h \<noteq> None \<and> \<not> isPendingGeo (Geo h) then (h, cache, True)
          else let h = h\<lparr>Lang := cfg_Lang c\<rparr> in
            (case Filter parse ipStr of
               Some g \<Rightarrow> (h\<lparr>Geo := Some g\<rparr>, cache, True)
             | None \<Rightarrow>
                 (case lookupGeoWithRetry c src w ipStr ipStr cache of
                    (Inl e, cache', _) \<Rightarrow> (h, cache', False)
                  | (Inr g, cache', _) \<Rightarrow> (h\<lparr>Geo := Some g\<rparr>, cache', True))))"

definition waitForGeoAndPTR :: "ptr_world \<Rightarrow> bool \<Rightarrow> bool \<Rightarrow> hop \<Rightarrow> hop" where
  "waitForGeoAndPTR pw rDNSStarted geo_ok h =
     (let h = (if rDNSStarted \<and> ptr_first pw then applyPTRResult pw h else h)
      in if geo_ok then h else h\<lparr>Geo := Some timeoutGeo\<rparr>)"

definition fetchIPData ::
    "(string \<Rightarrow> ip) \<Rightarrow> Config \<Rightarrow> geo_world \<Rightarrow> ptr_world \<Rightarrow> geo_cache \<Rightarrow> hop \<Rightarrow> hop \<times> geo_cache" where
  "fetchIPData parse c w pw cache h =
     (let ipStr = (case Address h of None \<Rightarrow> [] | Some a \<Rightarrow> addr_String a) in
      if DN42 c then resolveDN42Metadata c w pw ipStr cache h
      else let rDNSStarted = RDNS c \<and> Hostname h = [];
               r = startGeoLookup parse c w ipStr cache h
           in (waitForGeoAndPTR pw rDNSStarted (snd (snd r)) (fst r), fst (snd r)))"

subsection \<open>Retrying is bounded, caching is faithful\<close>

lemma geoTimeoutForAttempt_bounds: "2000000000 \<le> geoTimeoutForAttempt a" "geoTimeoutForAttempt a \<le> 6000000000"
  by (simp_all add: geoTimeoutForAttempt_def normalizeGeoLookupAttempt_def Let_def)

lemma geo_attempts_calls:
  "length (snd (snd (geo_attempts c src w k q e as cache))) \<le> length as"
  "i < length (snd (snd (geo_attempts c src w k q e as cache))) \<Longrightarrow>
   snd (snd (geo_attempts c src w k q e as cache)) ! i \<le> geoTimeoutForAttempt (as ! i)"
proof (induction as arbitrary: e i)
  case (Cons a as)
  { case 1
    show ?case using Cons.IH(1) by (auto simp: Let_def split_beta split: option.split sum.split)
  next
    case 2
    show ?case
    proof (cases i)
      case 0
      then show ?thesis using 2
        by (simp add: Let_def split_beta split: option.splits sum.splits if_splits)
    next
      case (Suc j)
      then show ?thesis using 2 Cons.IH(2) [of j]
        by (simp add: Let_def split_beta split: option.splits sum.splits if_splits)
    qed }
qed simp_all

lemma geo_attempts_result:
  assumes "geo_attempts c src w k q e as cache = (r, cache', ts)"
  shows "(case r of Inl _ \<Rightarrow> cache' = cache | Inr g \<Rightarrow> cache' = cache(k \<mapsto> g))"
  using assms
  by (induction as arbitrary: e ts) (auto simp: Let_def split: option.splits sum.splits if_splits prod.splits)

text \<open>\<open>mtrGeoMetadataLookupTimeoutFloor\<close> of \<open>trace/mtr_scheduler_runtime.go\<close>: the time a background
  lookup is given, the sum of the timeouts of its attempts.\<close>

definition mtrGeoMetadataLookupTimeoutFloor :: "int \<Rightarrow> int \<Rightarrow> int" where
  "mtrGeoMetadataLookupTimeoutFloor numMeasurements offset0 =
     (let offset = normalizeGeoLookupAttempt offset0;
          endAttempt = offset + geoLookupMaxRetries numMeasurements
      in sum_list (map geoTimeoutForAttempt [offset..endAttempt]))"

lemma sum_list_prefix_le:
  "length ts \<le> length as \<Longrightarrow> (\<And>i. i < length ts \<Longrightarrow> ts ! i \<le> f (as ! i)) \<Longrightarrow> (\<And>a. 0 \<le> f a) \<Longrightarrow>
   sum_list ts \<le> sum_list (map f as)" for f :: "'a \<Rightarrow> int"
proof (induction ts arbitrary: as)
  case Nil
  have "0 \<le> sum_list (map f as)" by (rule sum_list_nonneg) (use Nil.prems(3) in auto)
  then show ?case by simp
next
  case (Cons t ts)
  obtain a as' where as: "as = a # as'" using Cons.prems(1) by (cases as) auto
  have "t \<le> f a" using Cons.prems(2) [of 0] by (simp add: as)
  moreover have "sum_list ts \<le> sum_list (map f as')"
    using Cons.prems(1,3) Cons.prems(2) [of "Suc i" for i] by (intro Cons.IH) (auto simp: as)
  ultimately show ?case by (simp add: as)
qed

lemma geoLookupMaxRetries_bounds: "0 \<le> geoLookupMaxRetries n" "geoLookupMaxRetries n \<le> 5"
  by (simp_all add: geoLookupMaxRetries_def Let_def)

text \<open>A geo lookup ends after at most six calls of the source, whatever the source and the context do;
  no call is given more than six seconds and together they fit into the time a background lookup
  reserves. A success is cached under the key asked for, and a failure leaves the cache alone.\<close>

theorem geo_lookup_bounded:
  "case lookupGeoWithRetry c src w key query cache of (r, cache', timeouts) \<Rightarrow>
     length timeouts \<le> 6 \<and> list_all (\<lambda>t. t \<le> 6000000000) timeouts \<and>
     sum_list timeouts \<le> mtrGeoMetadataLookupTimeoutFloor (NumMeasurements c) (GeoLookupOffset c) \<and>
     cache' = (case r of Inl e \<Rightarrow> cache | Inr g \<Rightarrow> cache(key \<mapsto> g))"
proof (cases "cache key")
  case (Some g)
  moreover have "0 \<le> mtrGeoMetadataLookupTimeoutFloor (NumMeasurements c) (GeoLookupOffset c)"
    unfolding mtrGeoMetadataLookupTimeoutFloor_def Let_def
    by (rule sum_list_nonneg) (auto simp: geoTimeoutForAttempt_def normalizeGeoLookupAttempt_def Let_def)
  ultimately show ?thesis by (simp add: lookupGeoWithRetry_def map_upd_triv)
next
  case None
  let ?s = "normalizeGeoLookupAttempt (GeoLookupOffset c)"
  let ?as = "[?s..?s + geoLookupMaxRetries (NumMeasurements c)]"
  obtain r cache' ts where g: "geo_attempts c src w key query None ?as cache = (r, cache', ts)"
    by (metis prod_cases3)
  have ts: "length ts \<le> length ?as" "\<And>i. i < length ts \<Longrightarrow> ts ! i \<le> geoTimeoutForAttempt (?as ! i)"
    using geo_attempts_calls [where c = c and src = src and w = w and k = key and q = query and
        e = None and as = ?as and cache = cache] by (simp_all add: g)
  have "length ts \<le> 6" using ts(1) geoLookupMaxRetries_bounds [of "NumMeasurements c"] by simp
  moreover have "list_all (\<lambda>t. t \<le> 6000000000) ts"
    unfolding list_all_length using ts(2) geoTimeoutForAttempt_bounds(2) order_trans by blast
  moreover have "sum_list ts \<le> sum_list (map geoTimeoutForAttempt ?as)"
    using ts geoTimeoutForAttempt_bounds(1) by (intro sum_list_prefix_le) (auto intro: order_trans [of _ 2000000000])
  moreover have "cache' = (case r of Inl e \<Rightarrow> cache | Inr g \<Rightarrow> cache(key \<mapsto> g))"
    using geo_attempts_result [OF g] by (simp split: sum.splits)
  ultimately show ?thesis
    using None g by (simp add: lookupGeoWithRetry_def Let_def mtrGeoMetadataLookupTimeoutFloor_def)
qed

subsection \<open>Fetching metadata touches only metadata\<close>

lemma probe_view_metadata [simp]:
  "probe_view (h\<lparr>Hostname := x\<rparr>) = probe_view h" "probe_view (h\<lparr>Geo := g\<rparr>) = probe_view h"
  "probe_view (h\<lparr>Lang := l\<rparr>) = probe_view h"
  by (simp_all add: probe_view_def)

lemma applyPTRResult_frame [simp]:
  "probe_view (applyPTRResult pw h) = probe_view h" "Geo (applyPTRResult pw h) = Geo h"
  by (simp_all add: applyPTRResult_def split: list.split)

lemma fetch_views: "probe_view (fst (fetchIPData parse c w pw cache h)) = probe_view h"
  by (simp add: fetchIPData_def resolveDN42Metadata_def startGeoLookup_def waitForGeoAndPTR_def Let_def
      split: option.split sum.split prod.split)

definition sane_source :: "geo_source \<Rightarrow> bool" where
  "sane_source src \<longleftrightarrow> (\<forall>i q t l m g. src i q t l m = Inr (Some g) \<longrightarrow> \<not> isPendingGeo (Some g))"

definition sane_cache :: "geo_cache \<Rightarrow> bool" where
  "sane_cache cache \<longleftrightarrow> (\<forall>k g. cache k = Some g \<longrightarrow> \<not> isPendingGeo (Some g))"

lemma geo_attempts_sane:
  "sane_source src \<Longrightarrow> geo_attempts c src w k q e as cache = (Inr g, cache', ts) \<Longrightarrow> \<not> isPendingGeo (Some g)"
  by (induction as arbitrary: e ts)
    (auto simp: Let_def sane_source_def split: option.splits sum.splits if_splits prod.splits)

lemma lookup_sane:
  "sane_source src \<Longrightarrow> sane_cache cache \<Longrightarrow> lookupGeoWithRetry c src w k q cache = (Inr g, cache', ts) \<Longrightarrow>
   \<not> isPendingGeo (Some g)"
  by (auto simp: lookupGeoWithRetry_def sane_cache_def Let_def dest: geo_attempts_sane split: option.splits)

text \<open>Fetching the metadata of a hop changes nothing a probe measured, and when a geo source is
  configured the hop is no longer pending afterwards, whatever fails: the data are the source's, the
  filter's, the cache's, what the hop had, or the time-out marker.\<close>

theorem fetch_settles:
  assumes "IPGeoSource c = Some src" "sane_source src" "sane_cache cache"
  shows "probe_view (fst (fetchIPData parse c w pw cache h)) = probe_view h \<and>
    \<not> isPendingGeo (Geo (fst (fetchIPData parse c w pw cache h)))"
proof -
  have "\<not> isPendingGeo (Geo (fst (resolveDN42Metadata c w pw ip cache h)))" for ip
    using assms by (auto simp: resolveDN42Metadata_def Let_def dest: lookup_sane split: sum.splits prod.splits)
  moreover have "snd (snd (startGeoLookup parse c w ip cache h)) \<Longrightarrow>
      \<not> isPendingGeo (Geo (fst (startGeoLookup parse c w ip cache h)))" for ip
    using assms Filter_source
    by (auto simp: startGeoLookup_def Let_def dest: lookup_sane split: sum.splits prod.splits option.splits if_splits)
  ultimately show ?thesis
    by (simp add: fetch_views) (simp add: fetchIPData_def waitForGeoAndPTR_def Let_def)
qed

theorem fetch_settles_witness:
  "\<not> isPendingGeo (Geo (fst (fetchIPData (\<lambda>_. []) (sample_config\<lparr>IPGeoSource := Some (\<lambda>_ _ _ _ _. Inr None)\<rparr>)
     \<lparr>err_before = (\<lambda>_. None), err_after = (\<lambda>_. None), remaining = (\<lambda>_. None), attempt_expired = (\<lambda>_. False)\<rparr>
     \<lparr>ptrs = [], ptr_first = False, idna_ToASCII = (\<lambda>_. None)\<rparr> Map.empty
     ((sample_hop 1 True)\<lparr>Geo := Some pendingGeo\<rparr>))))"
  using fetch_settles [of "sample_config\<lparr>IPGeoSource := Some (\<lambda>_ _ _ _ _. Inr None)\<rparr>" "\<lambda>_ _ _ _ _. Inr None"
      Map.empty]
  by (simp add: sane_source_def sane_cache_def)

end
