(* ===== verification/Mtr_Scheduler.thy ===== *)
theory Mtr_Scheduler
  imports Mtr_Stats_Props Geo_Lookup
begin

section \<open>The per-hop MTR scheduler: \<open>trace/mtr_scheduler.go\<close>, \<open>mtr_scheduler_runtime.go\<close>, \<open>mtr_metadata.go\<close>\<close>

text \<open>
  The scheduler probes every TTL at its own pace: it launches at most \<open>parallelism\<close> probes at a time
  and at most \<open>maxInFlightHop\<close> per TTL, counts a probe when its result arrives, feeds the aggregator,
  lowers the final TTL when the destination answers, and starts background metadata lookups with
  bounded retries. All of this runs in one goroutine; probes and lookups are goroutines that
  only send a result. The ghost fields \<open>outstanding\<close> and \<open>lookup_jobs\<close> are those goroutines: the TTL
  and generation of every probe whose result the loop has not handled, and the kind, address and generation of every
  lookup. Times are nanoseconds and are passed as \<open>now\<close>; the zero time is \<open>None\<close>. The generation
  counter does not wrap (that would take \<open>2^64\<close> resets). The callbacks \<open>onSnapshot\<close> and \<open>onProbe\<close>
  only report and have no part in the state.
\<close>

record mtrProbeResult =
  pr_TTL :: int
  pr_Success :: bool
  pr_Addr :: "addr option"
  pr_RTT :: int
  pr_MPLS :: "string list"
  pr_Hostname :: string
  pr_Geo :: "geo_data option"

record mtrSchedulerConfig =
  mc_BeginHop :: int
  mc_MaxHops :: int
  mc_HopInterval :: int
  mc_Timeout :: int
  mc_MaxPerHop :: int
  mc_MaxConsecErrors :: int
  mc_MaxInFlightPerHop :: int
  mc_ParallelRequests :: int
  mc_FillGeo :: bool
  mc_AsyncMetadata :: bool
  mc_BaseConfig :: Config
  mc_DstIP :: ip

record mtrHopState =
  completed :: int
  inFlightCount :: int
  nextAt :: "int option"
  disabled :: bool
  consecutiveErrs :: int

definition fresh_hop :: mtrHopState where
  "fresh_hop = \<lparr>completed = 0, inFlightCount = 0, nextAt = None, disabled = False, consecutiveErrs = 0\<rparr>"

record mtrMetadataPatch =
  patch_ip :: string
  patch_host :: string
  patch_geo :: "geo_data option"

definition empty_patch :: mtrMetadataPatch where
  "empty_patch = \<lparr>patch_ip = [], patch_host = [], patch_geo = None\<rparr>"

datatype mtrMetadataKind = KindGeo | KindHost

text \<open>The bookkeeping of one kind of lookup: addresses in flight, attempts made, end of the cooldown.\<close>

record lookup_book =
  lk_inFlight :: "string \<rightharpoonup> nat"
  lk_attempts :: "string \<rightharpoonup> int"
  lk_retryAt :: "string \<rightharpoonup> int"

definition empty_book :: lookup_book where
  "empty_book = \<lparr>lk_inFlight = Map.empty, lk_attempts = Map.empty, lk_retryAt = Map.empty\<rparr>"

text \<open>The parameters of a run, after \<open>newMTRSchedulerRuntime\<close> has put in the defaults.\<close>

record sched_params =
  beginHop :: int
  maxHops :: int
  parallelism :: int
  hopInterval :: int
  maxConsecErrs :: int
  maxInFlightHop :: int
  maxPerHop :: int
  fillGeo :: bool
  asyncMetadata :: bool
  baseConfig :: Config
  dst_ip :: ip

record mtrSchedulerRuntime =
  agg :: MTRAggregator
  states :: "mtrHopState list"
  generation :: nat
  knownFinalTTL :: int
  inFlight :: int
  geo_book :: lookup_book
  host_book :: lookup_book
  metadataCache :: "string \<rightharpoonup> mtrMetadataPatch"
  outstanding :: "(int \<times> nat) list"
  lookup_jobs :: "(mtrMetadataKind \<times> string \<times> nat) list"

definition maxMTRHopCount :: int where "maxMTRHopCount = 255"

definition newMTRSchedulerRuntime ::
    "mtrSchedulerConfig \<Rightarrow> MTRAggregator \<Rightarrow> (string, sched_params \<times> mtrSchedulerRuntime) res" where
  "newMTRSchedulerRuntime cfg a =
     (let begin' = (if mc_BeginHop cfg \<le> 0 then 1 else mc_BeginHop cfg);
          max0 = (if mc_MaxHops cfg \<le> 0 then 30 else mc_MaxHops cfg);
          max' = (if max0 > maxMTRHopCount then maxMTRHopCount else max0)
      in if begin' > max' then Inl (Err ''mtr: beginHop > maxHops'')
         else
           let par = (if mc_ParallelRequests cfg < 1 then 1 else mc_ParallelRequests cfg);
               ival = (if mc_HopInterval cfg \<le> 0 then 1000000000 else mc_HopInterval cfg);
               errs = (if mc_MaxConsecErrors cfg \<le> 0 then 10 else mc_MaxConsecErrors cfg);
               timeout = (if mc_Timeout cfg \<le> 0 then 2000000000 else mc_Timeout cfg);
               derived = (timeout + ival - 1) div ival + 1;
               mif = (if mc_MaxInFlightPerHop cfg \<le> 0 then (if derived < 1 then 1 else derived)
                      else mc_MaxInFlightPerHop cfg)
           in Inr (\<lparr>beginHop = begin', maxHops = max', parallelism = par, hopInterval = ival,
                    maxConsecErrs = errs, maxInFlightHop = mif, maxPerHop = mc_MaxPerHop cfg,
                    fillGeo = mc_FillGeo cfg, asyncMetadata = mc_AsyncMetadata cfg,
                    baseConfig = mc_BaseConfig cfg, dst_ip = mc_DstIP cfg\<rparr>,
                   \<lparr>agg = a, states = replicate (nat max' + 1) fresh_hop, generation = 0,
                    knownFinalTTL = -1, inFlight = 0, geo_book = empty_book, host_book = empty_book,
                    metadataCache = Map.empty, outstanding = [], lookup_jobs = []\<rparr>))"

subsection \<open>Launching probes\<close>

definition hop_state :: "mtrSchedulerRuntime \<Rightarrow> int \<Rightarrow> mtrHopState" where
  "hop_state rt ttl = states rt ! nat ttl"

definition set_hop :: "mtrSchedulerRuntime \<Rightarrow> int \<Rightarrow> mtrHopState \<Rightarrow> mtrSchedulerRuntime" where
  "set_hop rt ttl st = rt\<lparr>states := (states rt)[nat ttl := st]\<rparr>"

definition effectiveMax :: "sched_params \<Rightarrow> mtrSchedulerRuntime \<Rightarrow> int" where
  "effectiveMax p rt =
     (let kf = knownFinalTTL rt in if 0 < kf \<and> kf < maxHops p then kf else maxHops p)"

text \<open>\<open>computeIteration\<close>: its loop keeps the minimum in \<open>minSnt\<close>, -1 while there is none.\<close>

definition min_step :: "mtrSchedulerRuntime \<Rightarrow> int \<Rightarrow> int \<Rightarrow> int" where
  "min_step rt ttl minSnt =
     (if disabled (hop_state rt ttl) then minSnt
      else let snt = completed (hop_state rt ttl) in if minSnt < 0 \<or> snt < minSnt then snt else minSnt)"

definition computeIteration :: "sched_params \<Rightarrow> mtrSchedulerRuntime \<Rightarrow> int" where
  "computeIteration p rt =
     (let minSnt = fold (min_step rt) [beginHop p..effectiveMax p rt] (-1) in if minSnt < 0 then 0 else minSnt)"

definition launchProbe :: "sched_params \<Rightarrow> int \<Rightarrow> mtrSchedulerRuntime \<Rightarrow> int \<Rightarrow> mtrSchedulerRuntime" where
  "launchProbe p now rt ttl =
     (let st = hop_state rt ttl;
          rt = set_hop rt ttl (st\<lparr>inFlightCount := inFlightCount st + 1, nextAt := Some (now + hopInterval p)\<rparr>)
      in rt\<lparr>inFlight := inFlight rt + 1, outstanding := (ttl, generation rt) # outstanding rt\<rparr>)"

definition canLaunchProbe :: "sched_params \<Rightarrow> int \<Rightarrow> mtrSchedulerRuntime \<Rightarrow> int \<Rightarrow> bool" where
  "canLaunchProbe p now rt ttl =
     (let state = hop_state rt ttl in
      if disabled state \<or> inFlightCount state \<ge> maxInFlightHop p then False
      else if 0 < maxPerHop p \<and> completed state + inFlightCount state \<ge> maxPerHop p then False
      else if (case nextAt state of None \<Rightarrow> False | Some t \<Rightarrow> now < t) then False
      else True)"

fun schedule_loop :: "sched_params \<Rightarrow> int \<Rightarrow> int list \<Rightarrow> mtrSchedulerRuntime \<Rightarrow> mtrSchedulerRuntime" where
  "schedule_loop p now [] rt = rt"
| "schedule_loop p now (ttl # ttls) rt =
     (if inFlight rt \<ge> parallelism p then rt
      else schedule_loop p now ttls (if canLaunchProbe p now rt ttl then launchProbe p now rt ttl else rt))"

definition scheduleReady :: "sched_params \<Rightarrow> bool \<Rightarrow> int \<Rightarrow> mtrSchedulerRuntime \<Rightarrow> mtrSchedulerRuntime" where
  "scheduleReady p paused now rt =
     (if paused then rt else schedule_loop p now [beginHop p..effectiveMax p rt] rt)"

subsection \<open>Background metadata\<close>

definition mtrAsyncMetadataMaxRetries :: int where "mtrAsyncMetadataMaxRetries = 3"

definition mtrAsyncMetadataRetryCooldown :: int where "mtrAsyncMetadataRetryCooldown = 30000000000"

definition metadataRetriesExhausted :: "int \<Rightarrow> lookup_book \<Rightarrow> string \<Rightarrow> lookup_book \<times> bool" where
  "metadataRetriesExhausted now b ip =
     (if (case lk_attempts b ip of None \<Rightarrow> 0 | Some n \<Rightarrow> n) < mtrAsyncMetadataMaxRetries + 1
      then (b\<lparr>lk_retryAt := (lk_retryAt b)(ip := None)\<rparr>, False)
      else case lk_retryAt b ip of
        Some t \<Rightarrow>
          if now < t then (b, True)
          else (b\<lparr>lk_attempts := (lk_attempts b)(ip := None), lk_retryAt := (lk_retryAt b)(ip := None)\<rparr>, False)
      | None \<Rightarrow> (b\<lparr>lk_retryAt := (lk_retryAt b)(ip \<mapsto> now + mtrAsyncMetadataRetryCooldown)\<rparr>, True))"

definition start_lookup :: "nat \<Rightarrow> string \<Rightarrow> lookup_book \<Rightarrow> lookup_book" where
  "start_lookup gen ip b =
     b\<lparr>lk_inFlight := (lk_inFlight b)(ip \<mapsto> gen),
       lk_attempts := (lk_attempts b)(ip \<mapsto> (case lk_attempts b ip of None \<Rightarrow> 0 | Some n \<Rightarrow> n) + 1)\<rparr>"

definition cached :: "mtrSchedulerRuntime \<Rightarrow> string \<Rightarrow> mtrMetadataPatch" where
  "cached rt ip = (case metadataCache rt ip of None \<Rightarrow> empty_patch | Some x \<Rightarrow> x)"

definition maybeLaunchGeoMetadataLookup ::
    "sched_params \<Rightarrow> int \<Rightarrow> string \<Rightarrow> mtrProbeResult \<Rightarrow> nat \<Rightarrow> bool \<Rightarrow> mtrSchedulerRuntime \<Rightarrow> mtrSchedulerRuntime" where
  "maybeLaunchGeoMetadataLookup p now ip result gen allowDN42IPOnly rt =
     (let cfg = baseConfig p in
      if IPGeoSource cfg = None \<or> pr_Geo result \<noteq> None then rt
      else if lk_inFlight (geo_book rt) ip \<noteq> None then rt
      else case metadataRetriesExhausted now (geo_book rt) ip of
        (b, exhausted) \<Rightarrow>
          let rt = rt\<lparr>geo_book := b\<rparr> in
          if exhausted then rt
          else let host = (if pr_Hostname result = [] then patch_host (cached rt ip) else pr_Hostname result) in
            if DN42 cfg \<and> RDNS cfg \<and> host = [] \<and> \<not> allowDN42IPOnly then rt
            else rt\<lparr>geo_book := start_lookup gen ip (geo_book rt),
                   lookup_jobs := (KindGeo, ip, gen) # lookup_jobs rt\<rparr>)"

definition maybeLaunchHostMetadataLookup ::
    "sched_params \<Rightarrow> int \<Rightarrow> string \<Rightarrow> mtrProbeResult \<Rightarrow> nat \<Rightarrow> mtrSchedulerRuntime \<Rightarrow> mtrSchedulerRuntime" where
  "maybeLaunchHostMetadataLookup p now ip result gen rt =
     (if \<not> RDNS (baseConfig p) \<or> pr_Hostname result \<noteq> [] then rt
      else if lk_inFlight (host_book rt) ip \<noteq> None then rt
      else case metadataRetriesExhausted now (host_book rt) ip of
        (b, exhausted) \<Rightarrow>
          let rt = rt\<lparr>host_book := b\<rparr> in
          if exhausted then rt
          else rt\<lparr>host_book := start_lookup gen ip (host_book rt),
                 lookup_jobs := (KindHost, ip, gen) # lookup_jobs rt\<rparr>)"

definition maybeLaunchMetadataLookup ::
    "sched_params \<Rightarrow> int \<Rightarrow> mtrProbeResult \<Rightarrow> mtrSchedulerRuntime \<Rightarrow> mtrSchedulerRuntime" where
  "maybeLaunchMetadataLookup p now result rt =
     (let ip = mtrAddrString (pr_Addr result); gen = generation rt in
      if ip = [] then rt
      else maybeLaunchHostMetadataLookup p now ip result gen
             (maybeLaunchGeoMetadataLookup p now ip result gen False rt))"

definition shouldFetchMetadataAsync :: "sched_params \<Rightarrow> mtrProbeResult \<Rightarrow> bool" where
  "shouldFetchMetadataAsync p result =
     (if \<not> fillGeo p \<or> \<not> asyncMetadata p \<or> pr_Addr result = None then False
      else if IPGeoSource (baseConfig p) = None \<and> \<not> RDNS (baseConfig p) then False
      else IPGeoSource (baseConfig p) \<noteq> None \<and> pr_Geo result = None \<or>
           RDNS (baseConfig p) \<and> pr_Hostname result = [])"

definition applyMetadataCache :: "mtrSchedulerRuntime \<Rightarrow> mtrProbeResult \<Rightarrow> mtrProbeResult" where
  "applyMetadataCache rt result =
     (let ip = mtrAddrString (pr_Addr result) in
      if ip = [] then result
      else case metadataCache rt ip of
        None \<Rightarrow> result
      | Some patch \<Rightarrow>
          let result = (if pr_Hostname result = [] \<and> patch_host patch \<noteq> []
                        then result\<lparr>pr_Hostname := patch_host patch\<rparr> else result)
          in if pr_Geo result = None \<and> patch_geo patch \<noteq> None
             then result\<lparr>pr_Geo := patch_geo patch\<rparr> else result)"

definition cacheMetadataPatch :: "mtrMetadataKind \<Rightarrow> mtrMetadataPatch \<Rightarrow> mtrSchedulerRuntime \<Rightarrow> mtrSchedulerRuntime" where
  "cacheMetadataPatch kind patch rt =
     (let ip = patch_ip patch in
      if ip = [] then rt
      else
        let c = cached rt ip;
            c = (if patch_ip c = [] then c\<lparr>patch_ip := ip\<rparr> else c);
            forget = (\<lambda>b. b\<lparr>lk_attempts := (lk_attempts b)(ip := None), lk_retryAt := (lk_retryAt b)(ip := None)\<rparr>)
        in case kind of
          KindGeo \<Rightarrow>
            if patch_geo patch \<noteq> None
            then rt\<lparr>geo_book := forget (geo_book rt), metadataCache := (metadataCache rt)(ip \<mapsto>
                   (if patch_geo c = None then c\<lparr>patch_geo := patch_geo patch\<rparr> else c))\<rparr>
            else rt\<lparr>metadataCache := (metadataCache rt)(ip \<mapsto> c)\<rparr>
        | KindHost \<Rightarrow>
            if patch_host patch \<noteq> []
            then rt\<lparr>host_book := forget (host_book rt), metadataCache := (metadataCache rt)(ip \<mapsto>
                   (if patch_host c = [] then c\<lparr>patch_host := patch_host patch\<rparr> else c))\<rparr>
            else rt\<lparr>metadataCache := (metadataCache rt)(ip \<mapsto> c)\<rparr>)"

definition clearMetadataInFlight :: "mtrMetadataKind \<Rightarrow> string \<Rightarrow> mtrSchedulerRuntime \<Rightarrow> mtrSchedulerRuntime" where
  "clearMetadataInFlight kind ip rt =
     (case kind of
        KindGeo \<Rightarrow> rt\<lparr>geo_book := (geo_book rt)\<lparr>lk_inFlight := (lk_inFlight (geo_book rt))(ip := None)\<rparr>\<rparr>
      | KindHost \<Rightarrow> rt\<lparr>host_book := (host_book rt)\<lparr>lk_inFlight := (lk_inFlight (host_book rt))(ip := None)\<rparr>\<rparr>)"

definition metadataPatchNeedsRetry :: "sched_params \<Rightarrow> mtrMetadataKind \<Rightarrow> mtrMetadataPatch \<Rightarrow> bool" where
  "metadataPatchNeedsRetry p kind patch =
     (case kind of KindGeo \<Rightarrow> IPGeoSource (baseConfig p) \<noteq> None \<and> patch_geo patch = None
      | KindHost \<Rightarrow> RDNS (baseConfig p) \<and> patch_host patch = [])"

text \<open>The probe result that a retry passes on: the parsed address and what the cache knows.\<close>

definition retry_result :: "mtrSchedulerRuntime \<Rightarrow> string \<Rightarrow> ip \<Rightarrow> mtrProbeResult" where
  "retry_result rt ip a =
     \<lparr>pr_TTL = 0, pr_Success = False, pr_Addr = Some (IPAddr a []), pr_RTT = 0, pr_MPLS = [],
      pr_Hostname = patch_host (cached rt ip), pr_Geo = patch_geo (cached rt ip)\<rparr>"

definition maybeRetryMetadataLookup ::
    "(string \<Rightarrow> ip) \<Rightarrow> sched_params \<Rightarrow> int \<Rightarrow> mtrMetadataKind \<Rightarrow> mtrMetadataPatch \<Rightarrow> nat \<Rightarrow>
     mtrSchedulerRuntime \<Rightarrow> mtrSchedulerRuntime" where
  "maybeRetryMetadataLookup parse p now kind patch gen rt =
     (let ip = patch_ip patch; cfg = baseConfig p in
      if \<not> metadataPatchNeedsRetry p kind patch then rt
      else if parse ip = [] then rt
      else let r = retry_result rt ip (parse ip) in
        case kind of
          KindGeo \<Rightarrow>
            if \<not> DN42 cfg \<or> \<not> RDNS cfg \<or> patch_host (cached rt ip) \<noteq> []
            then maybeLaunchGeoMetadataLookup p now ip r gen True rt
            else (case metadataRetriesExhausted now (host_book rt) ip of
                    (b, ex) \<Rightarrow> maybeLaunchGeoMetadataLookup p now ip r gen ex (rt\<lparr>host_book := b\<rparr>))
        | KindHost \<Rightarrow> maybeLaunchHostMetadataLookup p now ip r gen rt)"

definition maybeLaunchDN42GeoAfterHostResult ::
    "(string \<Rightarrow> ip) \<Rightarrow> sched_params \<Rightarrow> int \<Rightarrow> mtrMetadataKind \<Rightarrow> mtrMetadataPatch \<Rightarrow> nat \<Rightarrow>
     mtrSchedulerRuntime \<Rightarrow> mtrSchedulerRuntime" where
  "maybeLaunchDN42GeoAfterHostResult parse p now kind patch gen rt =
     (let cfg = baseConfig p; ip = patch_ip patch in
      if kind \<noteq> KindHost then rt
      else if \<not> DN42 cfg \<or> \<not> RDNS cfg \<or> IPGeoSource cfg = None then rt
      else if ip = [] \<or> patch_geo (cached rt ip) \<noteq> None then rt
      else
        let he = (if patch_host (cached rt ip) = [] then metadataRetriesExhausted now (host_book rt) ip
                  else (host_book rt, True));
            rt = rt\<lparr>host_book := fst he\<rparr>
        in if \<not> snd he then rt
           else if parse ip = [] then rt
           else maybeLaunchGeoMetadataLookup p now ip (retry_result rt ip (parse ip)) gen True rt)"

definition processMetadataResult ::
    "(string \<Rightarrow> ip) \<Rightarrow> sched_params \<Rightarrow> int \<Rightarrow> mtrMetadataKind \<Rightarrow> mtrMetadataPatch \<Rightarrow> nat \<Rightarrow>
     mtrSchedulerRuntime \<Rightarrow> mtrSchedulerRuntime" where
  "processMetadataResult parse p now kind patch gen rt =
     (if gen \<noteq> generation rt then rt
      else let ip = patch_ip patch in
        if ip = [] then rt
        else
          let rt = clearMetadataInFlight kind ip rt;
              rt = cacheMetadataPatch kind patch rt;
              rt = maybeRetryMetadataLookup parse p now kind patch gen rt;
              rt = maybeLaunchDN42GeoAfterHostResult parse p now kind patch gen rt
          in rt\<lparr>agg := fst (agg_PatchMetadataByIP (agg rt) ip (patch_host patch) (patch_geo patch))\<rparr>)"

text \<open>The lookups themselves, \<open>trace/mtr_metadata.go\<close>. \<open>parse\<close> is \<open>net.ParseIP\<close>.\<close>

definition lookupMTRHostMetadata :: "ptr_world \<Rightarrow> Config \<Rightarrow> addr option \<Rightarrow> mtrMetadataPatch" where
  "lookupMTRHostMetadata pw cfg a =
     (let ipStr = TrimSpace (mtrAddrString a) in
      if ipStr = [] then empty_patch
      else if \<not> RDNS cfg then empty_patch\<lparr>patch_ip := ipStr\<rparr>
      else empty_patch\<lparr>patch_ip := ipStr,
             patch_host := (case ptrs pw of [] \<Rightarrow> [] | p # _ \<Rightarrow> CanonicalHostname (idna_ToASCII pw) p)\<rparr>)"

definition lookupMTRGeoMetadata ::
    "(string \<Rightarrow> ip) \<Rightarrow> geo_world \<Rightarrow> geo_cache \<Rightarrow> Config \<Rightarrow> addr option \<Rightarrow> string \<Rightarrow> mtrMetadataPatch \<times> geo_cache" where
  "lookupMTRGeoMetadata parse w cache cfg a host =
     (let ipStr = TrimSpace (mtrAddrString a);
          asked = (\<lambda>src q. case lookupGeoWithRetry cfg src w q q cache of
              (Inl e, cache', _) \<Rightarrow> (None, cache') | (Inr g, cache', _) \<Rightarrow> (Some g, cache'));
          gc = (case IPGeoSource cfg of
              None \<Rightarrow> (None, cache)
            | Some src \<Rightarrow>
                if DN42 cfg then asked src (if TrimSpace host \<noteq> [] then ipStr @ '','' @ host else ipStr)
                else case Filter parse ipStr of Some g \<Rightarrow> (Some g, cache) | None \<Rightarrow> asked src ipStr)
      in if ipStr = [] then (empty_patch, cache)
         else (empty_patch\<lparr>patch_ip := ipStr, patch_geo := fst gc\<rparr>, snd gc))"

definition mtrMetadataLookupTimeout :: "mtrMetadataKind \<Rightarrow> int \<Rightarrow> int \<Rightarrow> int \<Rightarrow> int" where
  "mtrMetadataLookupTimeout kind probeTimeout numMeasurements geoOffset =
     (let lo = (case kind of KindGeo \<Rightarrow> mtrGeoMetadataLookupTimeoutFloor numMeasurements geoOffset
                  | KindHost \<Rightarrow> geoTimeoutForAttempt 0)
      in if probeTimeout > lo then probeTimeout else lo)"

subsection \<open>Results of probes\<close>

definition disableHigherTTLs :: "sched_params \<Rightarrow> int \<Rightarrow> mtrSchedulerRuntime \<Rightarrow> mtrSchedulerRuntime" where
  "disableHigherTTLs p fromTTL rt =
     fold (\<lambda>ttl rt. set_hop rt ttl ((hop_state rt ttl)\<lparr>disabled := True\<rparr>)) [fromTTL..maxHops p] rt"

definition detectDestination :: "sched_params \<Rightarrow> int \<Rightarrow> mtrProbeResult \<Rightarrow> mtrSchedulerRuntime \<Rightarrow> mtrSchedulerRuntime" where
  "detectDestination p ttl result rt =
     (let peerIP = mtrAddrToIP (pr_Addr result); curFinal = knownFinalTTL rt in
      if \<not> pr_Success result \<or> pr_Addr result = None then rt
      else if peerIP = [] \<or> \<not> ip_Equal peerIP (dst_ip p) then rt
      else if curFinal < 0 then disableHigherTTLs p (ttl + 1) (rt\<lparr>knownFinalTTL := ttl\<rparr>)
      else if ttl < curFinal then
        let rt = disableHigherTTLs p (ttl + 1) (rt\<lparr>knownFinalTTL := ttl\<rparr>)
        in rt\<lparr>agg := agg_ClearHop (agg rt) curFinal\<rparr>
      else rt)"

definition probeBudgetReached :: "sched_params \<Rightarrow> mtrSchedulerRuntime \<Rightarrow> int \<Rightarrow> bool" where
  "probeBudgetReached p rt ttl \<longleftrightarrow> 0 < maxPerHop p \<and> completed (hop_state rt ttl) \<ge> maxPerHop p"

definition markProbeCompleted :: "int \<Rightarrow> mtrSchedulerRuntime \<Rightarrow> mtrSchedulerRuntime" where
  "markProbeCompleted ttl rt =
     (let st = hop_state rt ttl in set_hop rt ttl (st\<lparr>consecutiveErrs := 0, completed := completed st + 1\<rparr>))"

definition resultHopCount :: "sched_params \<Rightarrow> mtrSchedulerRuntime \<Rightarrow> int" where
  "resultHopCount p rt =
     (let n = int (length (states rt)) - 1 in
      if 0 < n then n else if 0 < maxHops p then maxHops p else 0)"

definition newProbeResult :: "sched_params \<Rightarrow> mtrSchedulerRuntime \<Rightarrow> hop list list" where
  "newProbeResult p rt =
     (let hopCount = resultHopCount p rt in
      if hopCount < 0 then []
      else replicate (nat (if hopCount > maxMTRHopCount then maxMTRHopCount else hopCount)) [])"

definition put_hop :: "int \<Rightarrow> hop \<Rightarrow> hop list list \<Rightarrow> hop list list" where
  "put_hop ttl h hops =
     (let idx = ttl - 1 in if 0 \<le> idx \<and> idx < int (length hops) then hops[nat idx := [h]] else hops)"

definition timeout_hop :: "int \<Rightarrow> hop" where
  "timeout_hop ttl = \<lparr>Success = False, Address = None, Hostname = [], TTL = ttl, RTT = 0,
     Error = Some HopTimeout, Geo = None, Lang = [], MPLS = []\<rparr>"

definition timeoutProbeResult :: "sched_params \<Rightarrow> mtrSchedulerRuntime \<Rightarrow> int \<Rightarrow> hop list list" where
  "timeoutProbeResult p rt ttl = put_hop ttl (timeout_hop ttl) (newProbeResult p rt)"

definition result_hop :: "sched_params \<Rightarrow> int \<Rightarrow> mtrProbeResult \<Rightarrow> hop" where
  "result_hop p ttl result =
     \<lparr>Success = pr_Success result, Address = pr_Addr result, Hostname = pr_Hostname result, TTL = ttl,
      RTT = pr_RTT result,
      Error = (if \<not> pr_Success result \<and> pr_Addr result = None then Some HopTimeout else None),
      Geo = pr_Geo result, Lang = cfg_Lang (baseConfig p), MPLS = pr_MPLS result\<rparr>"

definition singleProbeResult :: "sched_params \<Rightarrow> mtrSchedulerRuntime \<Rightarrow> int \<Rightarrow> mtrProbeResult \<Rightarrow> hop list list" where
  "singleProbeResult p rt ttl result = put_hop ttl (result_hop p ttl result) (newProbeResult p rt)"

text \<open>\<open>mtrFillGeoRDNS\<close> of \<open>trace/mtr_runner.go\<close>; \<open>fetch\<close> is what \<open>fetchIPData\<close> makes of a hop.\<close>

definition mtrFillGeoRDNS :: "(hop \<Rightarrow> hop) \<Rightarrow> Config \<Rightarrow> hop list list \<Rightarrow> hop list list" where
  "mtrFillGeoRDNS fetch cfg hops =
     map (map (\<lambda>h. if \<not> Success h \<or> Address h = None then h else fetch (h\<lparr>Lang := cfg_Lang cfg\<rparr>))) hops"

definition recordSyntheticTimeout :: "sched_params \<Rightarrow> int \<Rightarrow> mtrSchedulerRuntime \<Rightarrow> mtrSchedulerRuntime" where
  "recordSyntheticTimeout p ttl rt = rt\<lparr>agg := agg_Update (agg rt) (timeoutProbeResult p rt ttl)\<rparr>"

definition processProbeError :: "sched_params \<Rightarrow> bool \<Rightarrow> int \<Rightarrow> mtrSchedulerRuntime \<Rightarrow> mtrSchedulerRuntime" where
  "processProbeError p ctx_ended ttl rt =
     (if ctx_ended then rt
      else
        let st = hop_state rt ttl;
            st = st\<lparr>consecutiveErrs := consecutiveErrs st + 1\<rparr>;
            rt = set_hop rt ttl st
        in if consecutiveErrs st < maxConsecErrs p then rt
           else recordSyntheticTimeout p ttl
                  (set_hop rt ttl (st\<lparr>consecutiveErrs := 0, completed := completed st + 1\<rparr>)))"

definition processProbeSuccess ::
    "(hop \<Rightarrow> hop) \<Rightarrow> sched_params \<Rightarrow> int \<Rightarrow> int \<Rightarrow> mtrProbeResult \<Rightarrow> mtrSchedulerRuntime \<Rightarrow> mtrSchedulerRuntime" where
  "processProbeSuccess fetch p now ttl result rt =
     (let rt = detectDestination p ttl result rt in
      if probeBudgetReached p rt ttl then set_hop rt ttl ((hop_state rt ttl)\<lparr>consecutiveErrs := 0\<rparr>)
      else
        let rt = markProbeCompleted ttl rt;
            result = applyMetadataCache rt result;
            single = singleProbeResult p rt ttl result;
            async = shouldFetchMetadataAsync p result;
            rt = (if async then maybeLaunchMetadataLookup p now result rt else rt);
            single = (if \<not> async \<and> fillGeo p \<and> pr_Geo result = None
                      then mtrFillGeoRDNS fetch (baseConfig p) single else single)
        in rt\<lparr>agg := agg_Update (agg rt) single\<rparr>)"

text \<open>What a probe reports: an error, or a result.\<close>

type_synonym probe_outcome = "string + mtrProbeResult"

definition processResult ::
    "(hop \<Rightarrow> hop) \<Rightarrow> sched_params \<Rightarrow> bool \<Rightarrow> int \<Rightarrow> int \<Rightarrow> probe_outcome \<Rightarrow> nat \<Rightarrow>
     mtrSchedulerRuntime \<Rightarrow> mtrSchedulerRuntime" where
  "processResult fetch p ctx_ended now ttl outcome gen rt =
     (let rt = rt\<lparr>inFlight := inFlight rt - 1, outstanding := remove1 (ttl, gen) (outstanding rt)\<rparr> in
      if gen \<noteq> generation rt then rt
      else if ttl < beginHop p \<or> ttl > maxHops p then rt
      else
        let st = hop_state rt ttl;
            rt = set_hop rt ttl (st\<lparr>inFlightCount := inFlightCount st - 1\<rparr>)
        in if disabled st then rt
           else case outcome of
             Inl err \<Rightarrow> processProbeError p ctx_ended ttl rt
           | Inr result \<Rightarrow> processProbeSuccess fetch p now ttl result rt)"

subsection \<open>The loop\<close>

definition hop_finished :: "sched_params \<Rightarrow> mtrHopState \<Rightarrow> bool" where
  "hop_finished p st \<longleftrightarrow> disabled st \<or> \<not> (completed st < maxPerHop p \<or> inFlightCount st > 0)"

definition no_keys :: "(string \<rightharpoonup> 'v) \<Rightarrow> bool" where
  "no_keys m \<longleftrightarrow> m = Map.empty"

definition isDone :: "sched_params \<Rightarrow> mtrSchedulerRuntime \<Rightarrow> bool" where
  "isDone p rt =
     (if maxPerHop p \<le> 0 then False
      else if \<not> list_all (\<lambda>ttl. hop_finished p (hop_state rt ttl)) [beginHop p..effectiveMax p rt] then False
      else if inFlight rt \<noteq> 0 then False
      else no_keys (lk_inFlight (geo_book rt)) \<and> no_keys (lk_inFlight (host_book rt)))"

definition handleReset :: "bool \<Rightarrow> mtrSchedulerRuntime \<Rightarrow> mtrSchedulerRuntime" where
  "handleReset requested rt =
     (if \<not> requested then rt
      else rt\<lparr>generation := generation rt + 1, states := map (\<lambda>_. fresh_hop) (states rt),
             geo_book := empty_book, host_book := empty_book, metadataCache := Map.empty,
             knownFinalTTL := -1, agg := agg_Reset (agg rt)\<rparr>)"

text \<open>What the loop does when its context has ended: \<open>drainInFlight\<close> throws away the results that still arrive
  (\<open>n\<close> of them before its deadline) and only counts them.\<close>

fun drainInFlight :: "nat \<Rightarrow> mtrSchedulerRuntime \<Rightarrow> mtrSchedulerRuntime" where
  "drainInFlight 0 rt = rt"
| "drainInFlight (Suc n) rt =
     (if inFlight rt > 0 then drainInFlight n (rt\<lparr>inFlight := inFlight rt - 1\<rparr>) else rt)"

definition handleCancel :: "nat \<Rightarrow> mtrSchedulerRuntime \<Rightarrow> mtrSchedulerRuntime" where
  "handleCancel n rt = drainInFlight n rt"

text \<open>
  One turn of \<open>run\<close>'s \<open>select\<close>. Every event carries the time, whether the user has paused, and what
  the goroutine that sends it reports. The status says whether the loop goes on, has returned without an
  error, or has returned the error of its context. The context may end at any moment; \<open>select\<close> may still
  take other events after that, until it takes this one. The other events come from goroutines that exist: a result from an outstanding probe, metadata from a running lookup
  about the address it was started for. A lookup of an earlier generation may end without a word,
  because its context was cancelled (\<open>Dropped\<close>).
\<close>

datatype sched_event =
    ResultReady int nat probe_outcome bool "hop \<Rightarrow> hop"
  | MetadataReady mtrMetadataKind mtrMetadataPatch nat
  | Tick bool
  | Dropped mtrMetadataKind string nat
  | CtxDone nat

datatype loop_status = Loop_Running | Loop_Done | Loop_Cancelled

fun run_event ::
    "(string \<Rightarrow> ip) \<Rightarrow> sched_params \<Rightarrow> int \<Rightarrow> bool \<Rightarrow> sched_event \<Rightarrow> mtrSchedulerRuntime \<Rightarrow>
     mtrSchedulerRuntime \<times> loop_status" where
  "run_event parse p now paused (ResultReady ttl gen outcome ctx_ended fetch) rt =
     (let rt = processResult fetch p ctx_ended now ttl outcome gen rt in
      if isDone p rt then (rt, Loop_Done) else (scheduleReady p paused now rt, Loop_Running))"
| "run_event parse p now paused (MetadataReady kind patch gen) rt =
     (let rt = processMetadataResult parse p now kind patch gen
            (rt\<lparr>lookup_jobs := remove1 (kind, patch_ip patch, gen) (lookup_jobs rt)\<rparr>)
      in (rt, if isDone p rt then Loop_Done else Loop_Running))"
| "run_event parse p now paused (Tick reset) rt =
     (let rt = scheduleReady p paused now (handleReset reset rt)
      in (rt, if isDone p rt then Loop_Done else Loop_Running))"
| "run_event parse p now paused (Dropped kind ip gen) rt =
     (rt\<lparr>lookup_jobs := remove1 (kind, ip, gen) (lookup_jobs rt)\<rparr>, Loop_Running)"
| "run_event parse p now paused (CtxDone n) rt = (handleCancel n rt, Loop_Cancelled)"

text \<open>A result the probers can report: a reply has a positive round-trip time of less than \<open>2^63\<close>
  nanoseconds, and an answer whose address prints like the destination is a reply of the destination.\<close>

definition result_ok :: "sched_params \<Rightarrow> mtrProbeResult \<Rightarrow> bool" where
  "result_ok p r \<longleftrightarrow> (pr_Success r \<longrightarrow> 0 < pr_RTT r \<and> pr_RTT r < 2 ^ 63) \<and>
     (TrimSpace (mtrAddrString (pr_Addr r)) = ip_string (dst_ip p) \<longrightarrow>
        pr_Success r \<and> mtrAddrToIP (pr_Addr r) \<noteq> [] \<and> ip_Equal (mtrAddrToIP (pr_Addr r)) (dst_ip p))"

definition fetch_ok :: "(hop \<Rightarrow> hop) \<Rightarrow> bool" where
  "fetch_ok fetch \<longleftrightarrow> (\<forall>h. probe_view (fetch h) = probe_view h)"

fun event_ok :: "sched_params \<Rightarrow> mtrSchedulerRuntime \<Rightarrow> sched_event \<Rightarrow> bool" where
  "event_ok p rt (ResultReady ttl gen outcome ctx_ended fetch) \<longleftrightarrow>
     (ttl, gen) \<in> set (outstanding rt) \<and> fetch_ok fetch \<and> (case outcome of Inl e \<Rightarrow> True | Inr r \<Rightarrow> result_ok p r)"
| "event_ok p rt (MetadataReady kind patch gen) \<longleftrightarrow>
     (kind, patch_ip patch, gen) \<in> set (lookup_jobs rt)"
| "event_ok p rt (Tick reset) \<longleftrightarrow> True"
| "event_ok p rt (Dropped kind ip gen) \<longleftrightarrow> (kind, ip, gen) \<in> set (lookup_jobs rt) \<and> gen \<noteq> generation rt"
| "event_ok p rt (CtxDone n) \<longleftrightarrow> True"

inductive sched_step ::
    "(string \<Rightarrow> ip) \<Rightarrow> sched_params \<Rightarrow> mtrSchedulerRuntime \<times> loop_status \<Rightarrow> mtrSchedulerRuntime \<times> loop_status \<Rightarrow> bool"
  for parse :: "string \<Rightarrow> ip" and p :: sched_params where
  turn: "event_ok p rt ev \<Longrightarrow> sched_step parse p (rt, Loop_Running) (run_event parse p now paused ev rt)"

definition run_start :: "sched_params \<Rightarrow> bool \<Rightarrow> int \<Rightarrow> mtrSchedulerRuntime \<Rightarrow> mtrSchedulerRuntime \<times> loop_status" where
  "run_start p paused now rt = (scheduleReady p paused now rt, Loop_Running)"

end
