(* ===== verification/Mtr_Scheduler_Inv.thy ===== *)
theory Mtr_Scheduler_Inv
  imports Mtr_Scheduler
begin

section \<open>The scheduler keeps its books\<close>

text \<open>
  The invariant has two halves. The core relates the TTL states, the running probes and the
  aggregator: the counters are the numbers of probes that run, the limits hold, the rows of
  an enabled TTL count exactly its completed probes, and a TTL is disabled just when it lies
  beyond the known destination. The metadata half relates the books to the running lookups.
  An operation that touches one half only preserves the other by a frame lemma.
\<close>

subsection \<open>Access to TTL states\<close>

definition in_range :: "sched_params \<Rightarrow> int \<Rightarrow> bool" where
  "in_range p ttl \<longleftrightarrow> beginHop p \<le> ttl \<and> ttl \<le> maxHops p"

definition params_ok :: "sched_params \<Rightarrow> bool" where
  "params_ok p \<longleftrightarrow> 1 \<le> beginHop p \<and> beginHop p \<le> maxHops p \<and> maxHops p \<le> 255 \<and>
     1 \<le> parallelism p \<and> 1 \<le> maxInFlightHop p \<and> 1 \<le> maxConsecErrs p"

lemma hop_state_set [simp]:
  "0 \<le> t \<Longrightarrow> 0 \<le> ttl \<Longrightarrow> nat ttl < length (states rt) \<Longrightarrow>
   hop_state (set_hop rt ttl st) t = (if t = ttl then st else hop_state rt t)"
  by (simp add: hop_state_def set_hop_def nat_eq_iff)

lemma set_hop_fields [simp]:
  "agg (set_hop rt ttl st) = agg rt" "length (states (set_hop rt ttl st)) = length (states rt)"
  "generation (set_hop rt ttl st) = generation rt" "knownFinalTTL (set_hop rt ttl st) = knownFinalTTL rt"
  "inFlight (set_hop rt ttl st) = inFlight rt" "geo_book (set_hop rt ttl st) = geo_book rt"
  "host_book (set_hop rt ttl st) = host_book rt" "metadataCache (set_hop rt ttl st) = metadataCache rt"
  "outstanding (set_hop rt ttl st) = outstanding rt" "lookup_jobs (set_hop rt ttl st) = lookup_jobs rt"
  by (simp_all add: set_hop_def)

lemma hop_state_frame [simp]:
  "hop_state (rt\<lparr>agg := a\<rparr>) t = hop_state rt t" "hop_state (rt\<lparr>knownFinalTTL := k\<rparr>) t = hop_state rt t"
  "hop_state (rt\<lparr>inFlight := i\<rparr>) t = hop_state rt t" "hop_state (rt\<lparr>outstanding := os\<rparr>) t = hop_state rt t"
  "hop_state (rt\<lparr>geo_book := b\<rparr>) t = hop_state rt t" "hop_state (rt\<lparr>host_book := b\<rparr>) t = hop_state rt t"
  "hop_state (rt\<lparr>metadataCache := c\<rparr>) t = hop_state rt t" "hop_state (rt\<lparr>lookup_jobs := j\<rparr>) t = hop_state rt t"
  by (simp_all add: hop_state_def)

subsection \<open>The core invariant\<close>

definition running :: "mtrSchedulerRuntime \<Rightarrow> int \<Rightarrow> int" where
  "running rt ttl = int (count (mset (outstanding rt)) (ttl, generation rt))"

definition hop_inv :: "sched_params \<Rightarrow> int \<Rightarrow> int \<Rightarrow> int \<Rightarrow> int \<Rightarrow> mtrHopState \<Rightarrow> bool" where
  "hop_inv p kf n sent ttl st \<longleftrightarrow> 0 \<le> completed st \<and> 0 \<le> consecutiveErrs st \<and> consecutiveErrs st < maxConsecErrs p \<and>
     inFlightCount st = n \<and> n \<le> maxInFlightHop p \<and> (0 < maxPerHop p \<longrightarrow> completed st + n \<le> maxPerHop p) \<and>
     (disabled st \<longleftrightarrow> 0 \<le> kf \<and> kf < ttl) \<and> (\<not> disabled st \<longrightarrow> sent = completed st)"

definition hops_inv :: "sched_params \<Rightarrow> mtrSchedulerRuntime \<Rightarrow> bool" where
  "hops_inv p rt \<longleftrightarrow> length (states rt) = nat (maxHops p) + 1 \<and>
     (\<forall>ttl. in_range p ttl \<longrightarrow>
        hop_inv p (knownFinalTTL rt) (running rt ttl) (sent_at (agg rt) ttl) ttl (hop_state rt ttl))"

definition flight_inv :: "sched_params \<Rightarrow> mtrSchedulerRuntime \<Rightarrow> bool" where
  "flight_inv p rt \<longleftrightarrow> inFlight rt = int (length (outstanding rt)) \<and> inFlight rt \<le> parallelism p \<and>
     (\<forall>tg\<in>set (outstanding rt). in_range p (fst tg) \<and> snd tg \<le> generation rt)"

definition final_inv :: "sched_params \<Rightarrow> mtrSchedulerRuntime \<Rightarrow> bool" where
  "final_inv p rt \<longleftrightarrow> knownFinalTTL rt = -1 \<or> in_range p (knownFinalTTL rt)"

text \<open>No row of the destination anywhere but at the known final TTL.\<close>

definition no_ghosts :: "string \<Rightarrow> mtrSchedulerRuntime \<Rightarrow> bool" where
  "no_ghosts dst rt \<longleftrightarrow> (\<forall>t. knownFinalTTL rt < 0 \<or> t \<noteq> knownFinalTTL rt \<longrightarrow> (\<forall>ka\<in>set (accMapForTTL (agg rt) t). acc_ip (snd ka) \<noteq> dst))"

definition core_inv :: "sched_params \<Rightarrow> mtrSchedulerRuntime \<Rightarrow> bool" where
  "core_inv p rt \<longleftrightarrow> agg_ok (agg rt) \<and> hops_inv p rt \<and> flight_inv p rt \<and> final_inv p rt \<and>
     (ip_string (dst_ip p) \<noteq> [] \<longrightarrow> no_ghosts (ip_string (dst_ip p)) rt)"

lemmas core_defs = core_inv_def hops_inv_def flight_inv_def final_inv_def no_ghosts_def

definition core :: "mtrSchedulerRuntime \<Rightarrow> mtrSchedulerRuntime" where
  "core rt = rt\<lparr>geo_book := empty_book, host_book := empty_book, metadataCache := Map.empty, lookup_jobs := []\<rparr>"

lemma core_fields [simp]:
  "agg (core rt) = agg rt" "states (core rt) = states rt" "generation (core rt) = generation rt"
  "knownFinalTTL (core rt) = knownFinalTTL rt" "inFlight (core rt) = inFlight rt"
  "outstanding (core rt) = outstanding rt" "hop_state (core rt) t = hop_state rt t"
  by (simp_all add: core_def hop_state_def)

lemma core_eq_iff:
  "core rt = core rt' \<longleftrightarrow> agg rt = agg rt' \<and> states rt = states rt' \<and> generation rt = generation rt' \<and>
     knownFinalTTL rt = knownFinalTTL rt' \<and> inFlight rt = inFlight rt' \<and> outstanding rt = outstanding rt'"
  by (cases rt; cases rt') (simp add: core_def)

lemma core_inv_core [simp]: "core_inv p (core rt) = core_inv p rt"
  by (simp add: core_defs running_def)

lemma core_inv_cong: "core rt = core rt' \<Longrightarrow> core_inv p rt \<Longrightarrow> core_inv p rt'"
  by (metis core_inv_core)

text \<open>The metadata operations do not touch the core.\<close>

lemma core_metadata [simp]:
  "core (rt\<lparr>geo_book := b\<rparr>) = core rt" "core (rt\<lparr>host_book := b\<rparr>) = core rt"
  "core (rt\<lparr>metadataCache := c\<rparr>) = core rt" "core (rt\<lparr>lookup_jobs := j\<rparr>) = core rt"
  by (simp_all add: core_def)

lemma core_geo_lookup [simp]: "core (maybeLaunchGeoMetadataLookup p now ip r gen d rt) = core rt"
  by (simp add: maybeLaunchGeoMetadataLookup_def Let_def split_beta)

lemma core_host_lookup [simp]: "core (maybeLaunchHostMetadataLookup p now ip r gen rt) = core rt"
  by (simp add: maybeLaunchHostMetadataLookup_def Let_def split_beta)

lemma core_lookup [simp]: "core (maybeLaunchMetadataLookup p now r rt) = core rt"
  by (simp add: maybeLaunchMetadataLookup_def Let_def)

lemma core_cache [simp]: "core (cacheMetadataPatch kind patch rt) = core rt"
  by (cases kind) (simp_all add: cacheMetadataPatch_def Let_def)

lemma core_clear [simp]: "core (clearMetadataInFlight kind ip rt) = core rt"
  by (simp add: clearMetadataInFlight_def split: mtrMetadataKind.split)

lemma core_retry [simp]: "core (maybeRetryMetadataLookup parse p now kind patch gen rt) = core rt"
  by (simp add: maybeRetryMetadataLookup_def Let_def split_beta split: mtrMetadataKind.split)

lemma core_dn42 [simp]: "core (maybeLaunchDN42GeoAfterHostResult parse p now kind patch gen rt) = core rt"
  by (simp add: maybeLaunchDN42GeoAfterHostResult_def Let_def)

subsection \<open>Launching probes\<close>

lemma range_nonneg: "params_ok p \<Longrightarrow> in_range p ttl \<Longrightarrow> 0 \<le> ttl"
  by (simp add: params_ok_def in_range_def)

lemma range_states: "core_inv p rt \<Longrightarrow> in_range p ttl \<Longrightarrow> nat ttl < length (states rt)"
  by (auto simp: core_defs in_range_def nat_le_iff less_Suc_eq_le intro: nat_mono)

lemma effectiveMax_range: "effectiveMax p rt \<le> maxHops p"
  by (simp add: effectiveMax_def Let_def)

lemma core_inv_launch:
  assumes "params_ok p" "core_inv p rt" "in_range p ttl" "inFlight rt < parallelism p"
    "canLaunchProbe p now rt ttl"
  shows "core_inv p (launchProbe p now rt ttl)"
proof -
  let ?rt = "launchProbe p now rt ttl"
  note range = range_nonneg [OF assms(1)] range_states [OF assms(2)]
  have h: "hop_inv p (knownFinalTTL rt) (running rt t) (sent_at (agg rt) t) t (hop_state rt t)" if "in_range p t" for t
    using assms(2) that by (simp add: core_defs)
  have n: "running ?rt t = running rt t + (if t = ttl then 1 else 0)" for t
    by (simp add: running_def launchProbe_def Let_def)
  have st: "hop_state ?rt t = (if t = ttl then (hop_state rt ttl)\<lparr>inFlightCount := inFlightCount (hop_state rt ttl) + 1,
      nextAt := Some (now + hopInterval p)\<rparr> else hop_state rt t)" if "in_range p t" for t
    using range that assms(3) by (simp add: launchProbe_def Let_def)
  have f: "agg ?rt = agg rt" "knownFinalTTL ?rt = knownFinalTTL rt" "length (states ?rt) = length (states rt)"
    "generation ?rt = generation rt" "inFlight ?rt = inFlight rt + 1"
    "outstanding ?rt = (ttl, generation rt) # outstanding rt"
    by (simp_all add: launchProbe_def Let_def)
  have "hops_inv p ?rt"
    unfolding hops_inv_def
  proof (intro conjI allI impI)
    show "length (states ?rt) = nat (maxHops p) + 1" using assms(2) f by (simp add: core_defs)
    show "hop_inv p (knownFinalTTL ?rt) (running ?rt t) (sent_at (agg ?rt) t) t (hop_state ?rt t)" if "in_range p t" for t
      using h [OF that] assms(5) st [OF that] n [of t] f
      by (cases "t = ttl") (auto simp: hop_inv_def canLaunchProbe_def Let_def split: if_splits)
  qed
  moreover have "flight_inv p ?rt" using assms(2-4) f by (simp add: core_defs)
  ultimately show ?thesis using assms(2) f by (simp add: core_inv_def final_inv_def no_ghosts_def)
qed

lemma launch_bound: "inFlight (launchProbe p now rt ttl) = inFlight rt + 1"
  by (simp add: launchProbe_def Let_def)

lemma core_inv_loop:
  "params_ok p \<Longrightarrow> core_inv p rt \<Longrightarrow> \<forall>t\<in>set ttls. in_range p t \<Longrightarrow> core_inv p (schedule_loop p now ttls rt)"
  by (induction ttls arbitrary: rt) (auto simp: core_inv_launch)

lemma core_inv_schedule [nt_inv]:
  "params_ok p \<Longrightarrow> core_inv p rt \<Longrightarrow> core_inv p (scheduleReady p paused now rt)"
  using effectiveMax_range [of p rt] by (auto simp: scheduleReady_def in_range_def intro!: core_inv_loop)

subsection \<open>Results\<close>

lemma flight_inv_take:
  assumes "flight_inv p rt" "tg \<in> set (outstanding rt)"
  shows "flight_inv p (rt\<lparr>inFlight := inFlight rt - 1, outstanding := remove1 tg (outstanding rt)\<rparr>)"
proof -
  have "0 < length (outstanding rt)" using assms(2) by auto
  then have "int (length (remove1 tg (outstanding rt))) = int (length (outstanding rt)) - 1"
    using assms(2) by (simp only: length_remove1 if_True)
  moreover have "set (remove1 tg (outstanding rt)) \<subseteq> set (outstanding rt)" by (rule set_remove1_subset)
  ultimately show ?thesis using assms(1) by (auto simp: flight_inv_def)
qed

lemma core_inv_stale:
  assumes "params_ok p" "core_inv p rt" "(ttl, gen) \<in> set (outstanding rt)" "gen \<noteq> generation rt"
  shows "core_inv p (rt\<lparr>inFlight := inFlight rt - 1, outstanding := remove1 (ttl, gen) (outstanding rt)\<rparr>)"
proof -
  let ?rt = "rt\<lparr>inFlight := inFlight rt - 1, outstanding := remove1 (ttl, gen) (outstanding rt)\<rparr>"
  have "flight_inv p ?rt" by (rule flight_inv_take [OF _ assms(3)]) (use assms(2) in \<open>simp add: core_inv_def\<close>)
  moreover have "running ?rt t = running rt t" for t using assms(4) by (simp add: running_def)
  ultimately show ?thesis using assms(2) by (simp add: core_inv_def hops_inv_def final_inv_def no_ghosts_def)
qed


text \<open>A result of the current generation: the probe no longer runs, and its TTL has room for one
  more completed probe.\<close>

definition taken :: "int \<Rightarrow> nat \<Rightarrow> mtrSchedulerRuntime \<Rightarrow> mtrSchedulerRuntime" where
  "taken ttl gen rt = (let st = hop_state rt ttl in
     set_hop (rt\<lparr>inFlight := inFlight rt - 1, outstanding := remove1 (ttl, gen) (outstanding rt)\<rparr>) ttl
       (st\<lparr>inFlightCount := inFlightCount st - 1\<rparr>))"

definition has_room :: "sched_params \<Rightarrow> int \<Rightarrow> mtrSchedulerRuntime \<Rightarrow> bool" where
  "has_room p ttl rt \<longleftrightarrow> (0 < maxPerHop p \<longrightarrow>
     completed (hop_state rt ttl) + inFlightCount (hop_state rt ttl) < maxPerHop p)"

lemma taken_fields [simp]:
  "agg (taken ttl gen rt) = agg rt" "length (states (taken ttl gen rt)) = length (states rt)"
  "generation (taken ttl gen rt) = generation rt" "knownFinalTTL (taken ttl gen rt) = knownFinalTTL rt"
  by (simp_all add: taken_def Let_def)

lemma flight_inv_set_hop: "flight_inv p (set_hop rt ttl st) = flight_inv p rt"
  by (simp add: flight_inv_def set_hop_def)

lemma hop_inv_taken:
  assumes "hop_inv p kf n s t st"
  shows "hop_inv p kf (n - 1) s t (st\<lparr>inFlightCount := inFlightCount st - 1\<rparr>)"
  using assms unfolding hop_inv_def by auto

lemma core_inv_taken:
  assumes "params_ok p" "core_inv p rt" "(ttl, generation rt) \<in> set (outstanding rt)"
  shows "core_inv p (taken ttl (generation rt) rt)" "has_room p ttl (taken ttl (generation rt) rt)"
    "in_range p ttl"
proof -
  let ?rt = "taken ttl (generation rt) rt"
  show r: "in_range p ttl" using assms(2,3) by (auto simp: core_inv_def flight_inv_def)
  note range = range_nonneg [OF assms(1)] range_states [OF assms(2)]
  have h: "hop_inv p (knownFinalTTL rt) (running rt t) (sent_at (agg rt) t) t (hop_state rt t)" if "in_range p t" for t
    using assms(2) that by (simp add: core_inv_def hops_inv_def)
  have st: "hop_state ?rt t = (if t = ttl then (hop_state rt ttl)\<lparr>inFlightCount := inFlightCount (hop_state rt ttl) - 1\<rparr>
      else hop_state rt t)" if "in_range p t" for t
    using range that r by (simp add: taken_def Let_def)
  have c: "0 < count (mset (outstanding rt)) (ttl, generation rt)" using assms(3) by simp
  have n: "running ?rt t = running rt t - (if t = ttl then 1 else 0)" for t
    using c by (auto simp: running_def taken_def Let_def)
  have "flight_inv p rt" using assms(2) unfolding core_inv_def by blast
  from flight_inv_take [OF this assms(3)] have "flight_inv p ?rt"
    by (simp only: taken_def Let_def flight_inv_set_hop)
  moreover have "hop_inv p (knownFinalTTL rt) (running ?rt t) (sent_at (agg rt) t) t (hop_state ?rt t)" if "in_range p t" for t
  proof (cases "t = ttl")
    case True
    have "hop_inv p (knownFinalTTL rt) (running rt t - 1) (sent_at (agg rt) t) t (hop_state ?rt t)"
      unfolding st [OF that] using hop_inv_taken [OF h [OF that]] True by (simp only: simp_thms if_True)
    then show ?thesis using n [of t] True by (simp only: simp_thms taken_fields if_True)
  next
    case False
    then show ?thesis using h [OF that] n [of t] unfolding st [OF that]
      by (simp only: simp_thms taken_fields if_False diff_0_right)
  qed
  ultimately show "core_inv p ?rt"
    using assms(2) by (simp add: core_inv_def hops_inv_def final_inv_def no_ghosts_def)
  show "has_room p ttl ?rt" using h [OF r] st [OF r] by (auto simp: hop_inv_def has_room_def)
qed

text \<open>Completing a probe of an enabled TTL: the state counts it and so do the rows.\<close>

lemma core_inv_complete:
  assumes "params_ok p" "core_inv p rt" "in_range p ttl" "has_room p ttl rt" "agg_ok a"
    "\<And>t. sent_at a t = sent_at (agg rt) t + (if t = ttl then 1 else 0)"
    "ip_string (dst_ip p) \<noteq> [] \<Longrightarrow> no_ghosts (ip_string (dst_ip p)) (rt\<lparr>agg := a\<rparr>)"
  shows "core_inv p ((markProbeCompleted ttl rt)\<lparr>agg := a\<rparr>)"
proof -
  let ?rt = "(markProbeCompleted ttl rt)\<lparr>agg := a\<rparr>"
  note range = range_nonneg [OF assms(1)] range_states [OF assms(2)]
  have h: "hop_inv p (knownFinalTTL rt) (running rt t) (sent_at (agg rt) t) t (hop_state rt t)" if "in_range p t" for t
    using assms(2) that by (simp add: core_inv_def hops_inv_def)
  have st: "hop_state ?rt t = (if t = ttl then (hop_state rt ttl)\<lparr>consecutiveErrs := 0, completed := completed (hop_state rt ttl) + 1\<rparr>
      else hop_state rt t)" if "in_range p t" for t
    using range that assms(3) by (simp add: markProbeCompleted_def Let_def)
  have n: "running ?rt t = running rt t" for t by (simp add: running_def markProbeCompleted_def Let_def)
  have "hop_inv p (knownFinalTTL rt) (running ?rt t) (sent_at a t) t (hop_state ?rt t)" if "in_range p t" for t
    using h [OF that] assms(1,4) st [OF that] n [of t] assms(6) [of t]
    by (cases "t = ttl") (auto simp: hop_inv_def has_room_def params_ok_def)
  then show ?thesis
    using assms(2,5,7) by (simp add: core_inv_def hops_inv_def final_inv_def flight_inv_def no_ghosts_def markProbeCompleted_def Let_def)
qed


subsection \<open>What one result adds to the rows\<close>

lemma put_hop_replicate:
  "1 \<le> ttl \<Longrightarrow> ttl \<le> int n \<Longrightarrow> put_hop ttl h (replicate n []) = (replicate n [])[nat (ttl - 1) := [h]]"
  by (simp add: put_hop_def Let_def)

lemma newProbeResult_replicate:
  "params_ok p \<Longrightarrow> length (states rt) = nat (maxHops p) + 1 \<Longrightarrow> newProbeResult p rt = replicate (nat (maxHops p)) []"
  by (simp add: newProbeResult_def resultHopCount_def params_ok_def maxMTRHopCount_def Let_def)

lemma single_hops_ok: "hop_ok h \<Longrightarrow> hops_ok ((replicate n [])[i := [h]])"
  unfolding hops_ok_def by (auto dest!: set_update_subset_insert [THEN subsetD])

lemma agg_Update_single:
  assumes "1 \<le> ttl" "ttl \<le> int n"
  shows "agg_Update a ((replicate n [])[nat (ttl - 1) := [h]]) = update_ttl a ttl [h]"
proof -
  have empty: "fold (\<lambda>(t, attempts) a. update_ttl a t attempts) (zip ts (replicate m [])) a = a" for ts m a
  proof (induction m arbitrary: ts)
    case (Suc m)
    then show ?case by (cases ts) (simp_all add: update_ttl_def)
  qed simp
  let ?i = "nat (ttl - 1)"
  have i: "?i < n" using assms by auto
  have hops: "(replicate n [])[?i := [h]] = replicate ?i [] @ [h] # replicate (n - Suc ?i) []"
    using i by (simp add: upd_conv_take_nth_drop)
  have ttls: "[1..int n] = [1..int ?i] @ ttl # [ttl + 1..int n]"
    using assms by (simp add: upto_split2 [of 1 ttl "int n"] upto_rec2 [of 1 ttl] upto_split3)
  show ?thesis
    unfolding agg_Update_def using i ttls by (simp add: hops empty)
qed


definition row_ips :: "(string \<times> mtrHopAccum) list \<Rightarrow> string set" where
  "row_ips m = (\<lambda>ka. acc_ip (snd ka)) ` set m"

lemma row_ips_update: "row_ips (AList.update k a m) \<subseteq> insert (acc_ip a) (row_ips m)"
  using set_update_subset [of k a m] by (auto simp: row_ips_def)

lemma row_ips_delete: "row_ips (AList.delete k m) \<subseteq> row_ips m"
  using set_delete_subset [of k m] by (auto simp: row_ips_def)

lemma row_ips_lookup: "map_of m k = Some a \<Longrightarrow> acc_ip a \<in> row_ips m"
  by (force simp: row_ips_def dest!: map_of_SomeD)

lemma acc_ip_merge_group: "acc_ip (mergeMTRHopGroupIntoAccum a g) = (if grp_ip g \<noteq> [] then grp_ip g else acc_ip a)"
  by (simp add: mergeMTRHopGroupIntoAccum_def Let_def acc_if_update)

lemma acc_ip_merge: "acc_ip (mergeMTRHopAccum d s) = (if acc_ip d = [] \<and> acc_ip s \<noteq> [] then acc_ip s else acc_ip d)"
  by (simp add: mergeMTRHopAccum_def Let_def acc_if_update)

lemma row_ips_mergeGroupedHop:
  "row_ips (fst (mergeGroupedHop ttl (k, g) (m, n))) \<subseteq> insert [] (insert (grp_ip g) (row_ips m))"
proof (cases "map_of m k")
  case None
  let ?a = "mergeMTRHopGroupIntoAccum (newHopAccum n ttl k) g"
  have "acc_ip ?a \<in> insert [] (insert (grp_ip g) (row_ips m))" by (simp add: acc_ip_merge_group newHopAccum_def)
  moreover have "fst (mergeGroupedHop ttl (k, g) (m, n)) = AList.update k ?a m" by (simp add: mergeGroupedHop_def None)
  ultimately show ?thesis using row_ips_update [of k ?a m] by auto
next
  case (Some a)
  let ?a = "mergeMTRHopGroupIntoAccum a g"
  have "acc_ip ?a \<in> insert [] (insert (grp_ip g) (row_ips m))"
    using row_ips_lookup [OF Some] by (simp add: acc_ip_merge_group)
  moreover have "fst (mergeGroupedHop ttl (k, g) (m, n)) = AList.update k ?a m" by (simp add: mergeGroupedHop_def Some)
  ultimately show ?thesis using row_ips_update [of k ?a m] by auto
qed

lemma row_ips_mergeUnknown: "map_ok ttl m \<Longrightarrow> row_ips (mergeUnknownIntoSingleKnown m) \<subseteq> row_ips m"
proof -
  assume m: "map_ok ttl m"
  then have d: "distinct (map fst m)" by (simp add: map_ok_def)
  show ?thesis
  proof (cases "\<exists>unk k known. map_of m mtrUnknownKey = Some unk \<and> filter (\<lambda>ka. fst ka \<noteq> mtrUnknownKey) m = [(k, known)]")
    case True
    then obtain unk k known where u: "map_of m mtrUnknownKey = Some unk"
        and f: "filter (\<lambda>ka. fst ka \<noteq> mtrUnknownKey) m = [(k, known)]" by blast
    have "acc_ip (mergeMTRHopAccum known unk) \<in> row_ips m"
      using row_ips_lookup [OF u] row_ips_lookup [OF single_known(2) [OF u f d]] by (simp add: acc_ip_merge)
    then show ?thesis
      using row_ips_delete [of mtrUnknownKey "AList.update k (mergeMTRHopAccum known unk) m"]
        row_ips_update [of k "mergeMTRHopAccum known unk" m]
      by (simp add: mergeUnknownIntoSingleKnown_def u f) blast
  next
    case False
    then show ?thesis by (auto simp: mergeUnknownIntoSingleKnown_def split: option.split list.split)
  qed
qed

lemma group_single: "groupMTRHopAttempts [h] =
   [(mtrHopKey (TrimSpace (mtrAddrString (Address h))) (TrimSpace (Hostname h)),
     includeAttempt (newMTRHopGroup (TrimSpace (Hostname h)) (TrimSpace (mtrAddrString (Address h)))) h)]"
  by (simp add: groupMTRHopAttempts_def include_in_def Let_def)

lemma grp_ip_include [simp]: "grp_ip (includeAttempt g h) = grp_ip g"
  by (simp add: includeAttempt_def Let_def)

lemma update_single:
  assumes "agg_ok a" "hop_ok h"
  shows "agg_ok (update_ttl a ttl [h])"
    "sent_at (update_ttl a ttl [h]) t = sent_at a t + (if t = ttl then 1 else 0)"
    "t \<noteq> ttl \<Longrightarrow> accMapForTTL (update_ttl a ttl [h]) t = accMapForTTL a t"
    "row_ips (accMapForTTL (update_ttl a ttl [h]) ttl) \<subseteq>
       {[], TrimSpace (mtrAddrString (Address h))} \<union> row_ips (accMapForTTL a ttl)"
proof -
  show "agg_ok (update_ttl a ttl [h])" using assms by (intro agg_ok_update_ttl) simp_all
  show "sent_at (update_ttl a ttl [h]) t = sent_at a t + (if t = ttl then 1 else 0)"
    using sent.total_update_ttl [OF assms(1), of "[h]" ttl t] assms(2) by (simp add: sent_at_def sent.total_def)
  show "t \<noteq> ttl \<Longrightarrow> accMapForTTL (update_ttl a ttl [h]) t = accMapForTTL a t"
    by (simp add: update_ttl_def Let_def) (simp add: accMapForTTL_def)
  let ?m = "accMapForTTL a ttl"
  let ?g = "hd (groupMTRHopAttempts [h])"
  have r: "accMapForTTL (update_ttl a ttl [h]) ttl =
      mergeUnknownIntoSingleKnown (fst (mergeGroupedHop ttl ?g (?m, nextOrder a)))"
    by (simp add: update_ttl_def group_single Let_def)
  have "grp_ok (snd ?g)" using assms(2) by (simp add: group_single grp_ok_include grp_ok_new)
  then have "map_ok ttl (fst (mergeGroupedHop ttl ?g (?m, nextOrder a)))"
    using map_ok_mergeGroupedHop [OF agg_ok_lookup [OF assms(1)], of "snd ?g" ttl "fst ?g"] by simp
  from row_ips_mergeUnknown [OF this] row_ips_mergeGroupedHop [of ttl "fst ?g" "snd ?g" ?m "nextOrder a"]
  show "row_ips (accMapForTTL (update_ttl a ttl [h]) ttl) \<subseteq>
       {[], TrimSpace (mtrAddrString (Address h))} \<union> row_ips ?m"
    unfolding r by (auto simp: group_single newMTRHopGroup_def)
qed


subsection \<open>The destination\<close>

lemma disable_states:
  assumes "0 \<le> from" "nat (maxHops p) < length (states rt)"
  shows "length (states (disableHigherTTLs p from rt)) = length (states rt) \<and>
    core (disableHigherTTLs p from rt) = core (rt\<lparr>states := states (disableHigherTTLs p from rt)\<rparr>) \<and>
    (0 \<le> t \<longrightarrow> hop_state (disableHigherTTLs p from rt) t =
      (if from \<le> t \<and> t \<le> maxHops p then (hop_state rt t)\<lparr>disabled := True\<rparr> else hop_state rt t))"
proof -
  let ?d = "\<lambda>ttl rt. set_hop rt ttl ((hop_state rt ttl)\<lparr>disabled := True\<rparr>)"
  have "\<forall>x\<in>set ts. 0 \<le> x \<and> nat x < length (states rt) \<Longrightarrow>
     length (states (fold ?d ts rt)) = length (states rt) \<and>
     core (fold ?d ts rt) = core (rt\<lparr>states := states (fold ?d ts rt)\<rparr>) \<and>
     (0 \<le> t \<longrightarrow> hop_state (fold ?d ts rt) t =
       (if t \<in> set ts then (hop_state rt t)\<lparr>disabled := True\<rparr> else hop_state rt t))" for ts
  proof (induction ts arbitrary: rt)
    case (Cons x ts)
    have "core (?d x rt) = core (rt\<lparr>states := states (?d x rt)\<rparr>)" by (simp add: core_eq_iff)
    then show ?case using Cons.IH [of "?d x rt"] Cons.prems by (auto simp: core_eq_iff)
  qed simp
  moreover have "\<forall>x\<in>set [from..maxHops p]. 0 \<le> x \<and> nat x < length (states rt)"
    using assms by (auto simp: nat_less_iff)
  ultimately show ?thesis unfolding disableHigherTTLs_def by simp
qed

lemma accMap_ClearHop: "accMapForTTL (agg_ClearHop a c) t = (if t = c then [] else accMapForTTL a t)"
  by (simp add: accMapForTTL_def agg_ClearHop_def delete_conv')

lemma agg_ok_ClearHop: "agg_ok a \<Longrightarrow> agg_ok (agg_ClearHop a c)"
  by (simp add: agg_ClearHop_def agg_ok_delete)

text \<open>Lowering the final TTL to an enabled TTL.\<close>

definition lowered :: "sched_params \<Rightarrow> int \<Rightarrow> MTRAggregator \<Rightarrow> mtrSchedulerRuntime \<Rightarrow> mtrSchedulerRuntime" where
  "lowered p ttl a rt = (disableHigherTTLs p (ttl + 1) (rt\<lparr>knownFinalTTL := ttl\<rparr>))\<lparr>agg := a\<rparr>"

lemma core_inv_lowered:
  assumes "params_ok p" "core_inv p rt" "in_range p ttl" "knownFinalTTL rt < 0 \<or> ttl < knownFinalTTL rt"
    "a = (if knownFinalTTL rt < 0 then agg rt else agg_ClearHop (agg rt) (knownFinalTTL rt))"
  shows "core_inv p (lowered p ttl a rt)" "hop_state (lowered p ttl a rt) ttl = hop_state rt ttl"
    "knownFinalTTL (lowered p ttl a rt) = ttl"
proof -
  let ?rt = "lowered p ttl a rt"
  note nn = range_nonneg [OF assms(1)]
  have h: "hop_inv p (knownFinalTTL rt) (running rt t) (sent_at (agg rt) t) t (hop_state rt t)" if "in_range p t" for t
    using assms(2) that by (simp add: core_inv_def hops_inv_def)
  have len: "length (states rt) = nat (maxHops p) + 1" and ok: "agg_ok (agg rt)" and fl: "flight_inv p rt"
    using assms(2) by (simp_all add: core_inv_def hops_inv_def)
  note dis = disable_states [of "ttl + 1" p "rt\<lparr>knownFinalTTL := ttl\<rparr>"]
  have st: "hop_state ?rt t = (if ttl < t then (hop_state rt t)\<lparr>disabled := True\<rparr> else hop_state rt t)" if "in_range p t" for t
    using dis [of t] nn [OF that] nn [OF assms(3)] len that by (simp add: lowered_def in_range_def)
  have f: "agg ?rt = a" "generation ?rt = generation rt" "knownFinalTTL ?rt = ttl" "inFlight ?rt = inFlight rt"
    "outstanding ?rt = outstanding rt" "length (states ?rt) = length (states rt)"
    using dis nn [OF assms(3)] len by (simp_all add: lowered_def core_eq_iff)
  have acc: "accMapForTTL a t = accMapForTTL (agg rt) t" if "t \<noteq> knownFinalTTL rt" for t
    using assms(5) that by (simp add: accMap_ClearHop)
  have aok: "agg_ok a" using ok assms(5) by (simp add: agg_ok_ClearHop)
  have "hop_inv p ttl (running ?rt t) (sent_at a t) t (hop_state ?rt t)" if "in_range p t" for t
  proof (cases "ttl < t")
    case False
    then have "accMapForTTL a t = accMapForTTL (agg rt) t" using assms(4,5) by (auto simp: accMap_ClearHop)
    then show ?thesis using h [OF that] st [OF that] False assms(4) f nn [OF that]
      by (auto simp: hop_inv_def running_def sent_at_def)
  next
    case True
    then show ?thesis using h [OF that] st [OF that] f nn [OF assms(3)] by (auto simp: hop_inv_def running_def)
  qed
  moreover have "no_ghosts d ?rt" if g: "no_ghosts d rt" for d
  proof -
    have "acc_ip (snd ka) \<noteq> d" if "ka \<in> set (accMapForTTL a t)" for ka t
      using that g acc [of t] assms(5) by (auto simp: no_ghosts_def accMap_ClearHop split: if_splits)
    then show ?thesis by (simp add: no_ghosts_def f)
  qed
  ultimately show "core_inv p ?rt" using assms(2,3) len fl aok f
    by (simp add: core_inv_def hops_inv_def flight_inv_def final_inv_def)
  show "hop_state ?rt ttl = hop_state rt ttl" using st [OF assms(3)] by simp
  show "knownFinalTTL ?rt = ttl" by (rule f(3))
qed

end
