(* ===== verification/Mtr_Scheduler_Events.thy ===== *)
theory Mtr_Scheduler_Events
  imports Mtr_Scheduler_Inv
begin

section \<open>Every event of the scheduler's loop keeps the invariant\<close>

text \<open>
  The core half of the invariant is carried through the operations that count results, detect the
  destination, patch metadata and reset; the metadata half, the books of the background lookups,
  through the operations that start and finish lookups. Each half has frame lemmas for the
  operations of the other.
\<close>

subsection \<open>Detecting the destination\<close>

lemma disable_agg [simp]: "agg (disableHigherTTLs p from rt) = agg rt"
proof -
  have "agg (fold (\<lambda>ttl rt. set_hop rt ttl (f rt ttl)) ts rt) = agg rt" for f and ts :: "int list"
    by (induction ts arbitrary: rt) simp_all
  then show ?thesis by (simp add: disableHigherTTLs_def)
qed

lemma detect_cases:
  assumes "result_ok p r"
  obtains (none) "detectDestination p ttl r rt = rt"
      "TrimSpace (mtrAddrString (pr_Addr r)) = ip_string (dst_ip p) \<Longrightarrow> \<not> (knownFinalTTL rt < 0 \<or> ttl < knownFinalTTL rt)"
    | (low) "knownFinalTTL rt < 0 \<or> ttl < knownFinalTTL rt" "detectDestination p ttl r rt =
        lowered p ttl (if knownFinalTTL rt < 0 then agg rt else agg_ClearHop (agg rt) (knownFinalTTL rt)) rt"
proof -
  let ?k = "knownFinalTTL rt" and ?ip = "mtrAddrToIP (pr_Addr r)"
  have idem: "x\<lparr>agg := a\<rparr> = x" if "agg x = a" for x :: mtrSchedulerRuntime and a using that by (cases x) simp
  show thesis
  proof (cases "pr_Success r \<and> ?ip \<noteq> [] \<and> ip_Equal ?ip (dst_ip p)")
    case False
    then have "detectDestination p ttl r rt = rt" by (auto simp: detectDestination_def Let_def)
    moreover have "TrimSpace (mtrAddrString (pr_Addr r)) \<noteq> ip_string (dst_ip p)"
      using False assms by (auto simp: result_ok_def)
    ultimately show thesis using none by blast
  next
    case True
    then have a: "pr_Addr r \<noteq> None" by (cases "pr_Addr r") auto
    show thesis
    proof (cases "?k < 0 \<or> ttl < ?k")
      case c: True
      have "detectDestination p ttl r rt =
          lowered p ttl (if ?k < 0 then agg rt else agg_ClearHop (agg rt) ?k) rt"
        using True a c by (auto simp: detectDestination_def lowered_def Let_def idem)
      then show thesis using low c by blast
    next
      case c: False
      then have "detectDestination p ttl r rt = rt" by (auto simp: detectDestination_def Let_def)
      then show thesis using none c by blast
    qed
  qed
qed

lemma core_inv_detect:
  assumes "params_ok p" "core_inv p rt" "in_range p ttl" "\<not> disabled (hop_state rt ttl)" "result_ok p r"
  shows "core_inv p (detectDestination p ttl r rt) \<and>
    hop_state (detectDestination p ttl r rt) ttl = hop_state rt ttl \<and>
    (TrimSpace (mtrAddrString (pr_Addr r)) = ip_string (dst_ip p) \<longrightarrow>
       knownFinalTTL (detectDestination p ttl r rt) = ttl)"
  using assms(5)
proof (cases rule: detect_cases [of p r ttl rt])
  case none
  have "\<not> (0 \<le> knownFinalTTL rt \<and> knownFinalTTL rt < ttl)"
    using assms(2-4) by (auto simp: core_inv_def hops_inv_def hop_inv_def)
  then show ?thesis using none assms(2) by auto
next
  case low
  then show ?thesis using core_inv_lowered [OF assms(1-3) low(1) refl] by simp
qed


subsection \<open>Counting a result\<close>

lemma core_inv_set_errs:
  assumes "params_ok p" "core_inv p rt" "in_range p ttl" "0 \<le> e" "e < maxConsecErrs p"
  shows "core_inv p (set_hop rt ttl ((hop_state rt ttl)\<lparr>consecutiveErrs := e\<rparr>))"
proof -
  let ?rt = "set_hop rt ttl ((hop_state rt ttl)\<lparr>consecutiveErrs := e\<rparr>)"
  have h: "hop_inv p (knownFinalTTL rt) (running rt t) (sent_at (agg rt) t) t (hop_state rt t)" if "in_range p t" for t
    using assms(2) that by (simp add: core_inv_def hops_inv_def)
  have "hop_inv p (knownFinalTTL rt) (running ?rt t) (sent_at (agg rt) t) t (hop_state ?rt t)" if "in_range p t" for t
    using h [OF that] assms(4,5) range_nonneg [OF assms(1)] range_states [OF assms(2)] that assms(3)
    by (cases "t = ttl") (simp_all add: hop_inv_def running_def)
  then show ?thesis using assms(2)
    by (simp add: core_inv_def hops_inv_def flight_inv_def final_inv_def no_ghosts_def)
qed

lemma no_ghosts_rows: "no_ghosts d rt \<longleftrightarrow>
   (\<forall>t. knownFinalTTL rt < 0 \<or> t \<noteq> knownFinalTTL rt \<longrightarrow> d \<notin> row_ips (accMapForTTL (agg rt) t))"
  unfolding no_ghosts_def row_ips_def by blast

text \<open>Both kinds of counted results are one attempt at their TTL.\<close>

definition one_attempt :: "sched_params \<Rightarrow> int \<Rightarrow> hop \<Rightarrow> hop list list" where
  "one_attempt p ttl h = put_hop ttl h (replicate (nat (maxHops p)) [])"

lemma core_inv_count:
  assumes "params_ok p" "core_inv p rt" "in_range p ttl" "has_room p ttl rt" "hop_ok h"
    "TrimSpace (mtrAddrString (Address h)) = ip_string (dst_ip p) \<Longrightarrow> ip_string (dst_ip p) \<noteq> [] \<Longrightarrow> knownFinalTTL rt = ttl"
  shows "core_inv p ((markProbeCompleted ttl rt)\<lparr>agg := agg_Update (agg rt) (one_attempt p ttl h)\<rparr>)"
proof -
  have t: "1 \<le> ttl" "ttl \<le> int (nat (maxHops p))" using assms(1,3) by (auto simp: params_ok_def in_range_def)
  have ok: "agg_ok (agg rt)" using assms(2) by (simp add: core_inv_def)
  have a: "agg_Update (agg rt) (one_attempt p ttl h) = update_ttl (agg rt) ttl [h]"
    unfolding one_attempt_def put_hop_replicate [OF t] by (rule agg_Update_single [OF t])
  note u = update_single [OF ok assms(5)]
  show ?thesis
    unfolding a
  proof (rule core_inv_complete [OF assms(1-4) u(1,2)])
    assume d: "ip_string (dst_ip p) \<noteq> []"
    then have g: "no_ghosts (ip_string (dst_ip p)) rt" using assms(2) by (simp add: core_inv_def)
    have "ip_string (dst_ip p) \<notin> row_ips (accMapForTTL (update_ttl (agg rt) ttl [h]) t)"
      if k: "knownFinalTTL rt < 0 \<or> t \<noteq> knownFinalTTL rt" for t
    proof (cases "t = ttl")
      case False
      then show ?thesis using g k u(3) [OF False] by (auto simp: no_ghosts_rows)
    next
      case True
      then have "ip_string (dst_ip p) \<notin> row_ips (accMapForTTL (agg rt) ttl)"
        using g k by (auto simp: no_ghosts_rows)
      moreover have "TrimSpace (mtrAddrString (Address h)) \<noteq> ip_string (dst_ip p)"
        using assms(6) d k True t by auto
      ultimately show ?thesis using u(4) [of ttl] d unfolding True by auto
    qed
    then show "no_ghosts (ip_string (dst_ip p)) (rt\<lparr>agg := update_ttl (agg rt) ttl [h]\<rparr>)"
      by (simp add: no_ghosts_rows)
  qed
qed

lemma core_inv_error:
  assumes "params_ok p" "core_inv p rt" "in_range p ttl" "has_room p ttl rt"
  shows "core_inv p (processProbeError p ctx_ended ttl rt)"
proof -
  have h: "hop_inv p (knownFinalTTL rt) (running rt ttl) (sent_at (agg rt) ttl) ttl (hop_state rt ttl)"
    and len: "length (states rt) = nat (maxHops p) + 1"
    using assms(2,3) by (simp_all add: core_inv_def hops_inv_def)
  let ?st = "hop_state rt ttl"
  let ?n = "consecutiveErrs ?st + 1"
  have twice: "set_hop (set_hop rt ttl (?st\<lparr>consecutiveErrs := ?n\<rparr>)) ttl (?st\<lparr>consecutiveErrs := 0, completed := completed ?st + 1\<rparr>) =
      markProbeCompleted ttl rt"
    by (simp add: set_hop_def markProbeCompleted_def Let_def)
  have "timeoutProbeResult p (markProbeCompleted ttl rt) ttl = one_attempt p ttl (timeout_hop ttl)"
    using assms(1) len by (simp add: timeoutProbeResult_def one_attempt_def newProbeResult_replicate markProbeCompleted_def Let_def)
  moreover have "core_inv p ((markProbeCompleted ttl rt)\<lparr>agg := agg_Update (agg rt) (one_attempt p ttl (timeout_hop ttl))\<rparr>)"
    using assms by (intro core_inv_count) (auto simp: hop_ok_def timeout_hop_def mtrAddrString_def TrimSpace_def)
  moreover have "core_inv p (set_hop rt ttl (?st\<lparr>consecutiveErrs := ?n\<rparr>))" if "?n < maxConsecErrs p"
    using core_inv_set_errs [OF assms(1-3) _ that] h by (simp add: hop_inv_def)
  ultimately show ?thesis
    using assms(2) by (simp add: processProbeError_def Let_def recordSyntheticTimeout_def twice) (simp add: markProbeCompleted_def Let_def)
qed


lemma put_hop_map: "map (map f) (put_hop ttl h (replicate n [])) = put_hop ttl (f h) (replicate n [])"
  by (simp add: put_hop_def Let_def map_update)

lemma applyMetadataCache_fields [simp]:
  "pr_Success (applyMetadataCache rt r) = pr_Success r" "pr_Addr (applyMetadataCache rt r) = pr_Addr r"
  "pr_RTT (applyMetadataCache rt r) = pr_RTT r"
  by (simp_all add: applyMetadataCache_def Let_def split: option.split)

lemma fetch_ok_fields:
  "fetch_ok fetch \<Longrightarrow> Success (fetch h) = Success h" "fetch_ok fetch \<Longrightarrow> Address (fetch h) = Address h"
  "fetch_ok fetch \<Longrightarrow> RTT (fetch h) = RTT h"
  by (simp_all add: fetch_ok_def probe_view_def)

lemma core_inv_success:
  assumes "params_ok p" "core_inv p rt" "in_range p ttl" "has_room p ttl rt" "\<not> disabled (hop_state rt ttl)"
    "result_ok p r" "fetch_ok fetch"
  shows "core_inv p (processProbeSuccess fetch p now ttl r rt)"
proof -
  define rt1 where "rt1 = detectDestination p ttl r rt"
  have d: "core_inv p rt1" "hop_state rt1 ttl = hop_state rt ttl"
    "TrimSpace (mtrAddrString (pr_Addr r)) = ip_string (dst_ip p) \<Longrightarrow> knownFinalTTL rt1 = ttl"
    using core_inv_detect [OF assms(1-3,5,6)] by (simp_all add: rt1_def)
  have room: "has_room p ttl rt1" using assms(4) d(2) by (simp add: has_room_def)
  have h: "hop_inv p (knownFinalTTL rt1) (running rt1 ttl) (sent_at (agg rt1) ttl) ttl (hop_state rt1 ttl)"
    and len: "length (states rt1) = nat (maxHops p) + 1"
    using d(1) assms(3) by (simp_all add: core_inv_def hops_inv_def)
  then have "0 \<le> inFlightCount (hop_state rt1 ttl)" by (simp add: hop_inv_def running_def)
  then have budget: "\<not> probeBudgetReached p rt1 ttl" using room by (auto simp: probeBudgetReached_def has_room_def)
  define rt2 where "rt2 = markProbeCompleted ttl rt1"
  define r2 where "r2 = applyMetadataCache rt2 r"
  define async where "async = shouldFetchMetadataAsync p r2"
  define fill where "fill = (\<lambda>h. if \<not> Success h \<or> Address h = None then h else fetch (h\<lparr>Lang := cfg_Lang (baseConfig p)\<rparr>))"
  define h2 where "h2 = (if \<not> async \<and> fillGeo p \<and> pr_Geo r2 = None then fill (result_hop p ttl r2) else result_hop p ttl r2)"
  have len2: "length (states rt2) = nat (maxHops p) + 1" using len by (simp add: rt2_def markProbeCompleted_def Let_def)
  have single: "(if \<not> async \<and> fillGeo p \<and> pr_Geo r2 = None
      then mtrFillGeoRDNS fetch (baseConfig p) (singleProbeResult p rt2 ttl r2) else singleProbeResult p rt2 ttl r2) =
      one_attempt p ttl h2"
    using assms(1) len2
    by (simp add: h2_def singleProbeResult_def newProbeResult_replicate one_attempt_def mtrFillGeoRDNS_def put_hop_map fill_def)
  have "Success h2 = pr_Success r" "Address h2 = pr_Addr r" "RTT h2 = pr_RTT r"
    by (simp_all add: h2_def fill_def fetch_ok_fields [OF assms(7)] result_hop_def r2_def)
  then have "core_inv p (rt2\<lparr>agg := agg_Update (agg rt1) (one_attempt p ttl h2)\<rparr>)"
    unfolding rt2_def using assms(6) d(3)
    by (intro core_inv_count [OF assms(1) d(1) assms(3) room]) (auto simp: hop_ok_def result_ok_def)
  moreover have "agg rt2 = agg rt1" by (simp add: rt2_def markProbeCompleted_def Let_def)
  moreover have frame: "agg (maybeLaunchMetadataLookup p now r2 rt2) = agg rt2"
    using core_lookup [of p now r2 rt2] by (simp add: core_eq_iff del: core_lookup)
  ultimately have "core_inv p ((if async then maybeLaunchMetadataLookup p now r2 rt2 else rt2)
      \<lparr>agg := agg_Update (agg (if async then maybeLaunchMetadataLookup p now r2 rt2 else rt2)) (one_attempt p ttl h2)\<rparr>)"
    using core_lookup [of p now r2 rt2]
    by (auto intro!: core_inv_cong [of "rt2\<lparr>agg := agg_Update (agg rt1) (one_attempt p ttl h2)\<rparr>"]
      simp: core_eq_iff simp del: core_lookup)
  then show ?thesis
    using budget unfolding processProbeSuccess_def Let_def rt1_def [symmetric] rt2_def [symmetric]
    unfolding r2_def [symmetric] async_def [symmetric] single by simp
qed

lemma core_inv_result [nt_inv]:
  assumes "params_ok p" "core_inv p rt" "event_ok p rt (ResultReady ttl gen outcome ctx_ended fetch)"
  shows "core_inv p (processResult fetch p ctx_ended now ttl outcome gen rt)"
proof (cases "gen = generation rt")
  case False
  then show ?thesis using core_inv_stale [OF assms(1,2), of ttl gen] assms(3)
    by (simp add: processResult_def Let_def)
next
  case True
  have t: "(ttl, generation rt) \<in> set (outstanding rt)" using assms(3) True by simp
  note taken = core_inv_taken [OF assms(1,2) t]
  let ?rt = "taken ttl (generation rt) rt"
  have nn: "0 \<le> ttl" "nat ttl < length (states rt)"
    using range_nonneg [OF assms(1) taken(3)] range_states [OF assms(2) taken(3)] by simp_all
  have dis: "disabled (hop_state ?rt ttl) = disabled (hop_state rt ttl)"
    using nn by (simp add: taken_def Let_def)
  have "processResult fetch p ctx_ended now ttl outcome gen rt =
      (if disabled (hop_state rt ttl) then ?rt
       else case outcome of Inl e \<Rightarrow> processProbeError p ctx_ended ttl ?rt
       | Inr r \<Rightarrow> processProbeSuccess fetch p now ttl r ?rt)"
    using True taken(3) by (simp add: processResult_def taken_def in_range_def Let_def split: sum.split)
  then show ?thesis
    using taken dis assms(3) core_inv_error [OF assms(1)] core_inv_success [OF assms(1)]
    by (auto split: sum.split sum.splits)
qed


subsection \<open>Metadata, reset and the loop\<close>

lemma patch_sent [simp]: "sent_at (fst (agg_PatchMetadataByIP a ip host geo)) t = sent_at a t"
proof -
  have s: "sum_list (map (\<lambda>ka. acc_sent (snd ka)) (map (\<lambda>(k, a). (k, patch_acc i h geo a)) m)) =
      sum_list (map (\<lambda>ka. acc_sent (snd ka)) m)" for i h m
    by (induction m) (auto simp: patch_acc_def Let_def)
  have m: "map_of (map (\<lambda>(ttl, m). (ttl, f m)) st) t = map_option f (map_of st t)" for f and st :: "(int \<times> (string \<times> mtrHopAccum) list) list"
    by (induction st) auto
  show ?thesis
    by (auto simp: agg_PatchMetadataByIP_def Let_def sent_at_def accMapForTTL_def m s split: option.split simp del: map_map)
qed

lemma patch_rows [simp]: "row_ips (accMapForTTL (fst (agg_PatchMetadataByIP a ip host geo)) t) = row_ips (accMapForTTL a t)"
proof -
  have s: "row_ips (map (\<lambda>(k, a). (k, patch_acc i h geo a)) m) = row_ips m" for i h m
    by (induction m) (auto simp: patch_acc_def Let_def row_ips_def)
  have m: "map_of (map (\<lambda>(ttl, m). (ttl, f m)) st) t = map_option f (map_of st t)" for f and st :: "(int \<times> (string \<times> mtrHopAccum) list) list"
    by (induction st) auto
  show ?thesis
    by (auto simp: agg_PatchMetadataByIP_def Let_def accMapForTTL_def m s split: option.split simp del: map_map)
qed

lemma core_inv_patch:
  "core_inv p rt \<Longrightarrow> core_inv p (rt\<lparr>agg := fst (agg_PatchMetadataByIP (agg rt) ip host geo)\<rparr>)"
  by (simp add: core_inv_def hops_inv_def flight_inv_def final_inv_def no_ghosts_rows agg_ok_Patch running_def)

lemma core_inv_metadata [nt_inv]:
  assumes "core_inv p rt"
  shows "core_inv p (processMetadataResult parse p now kind patch gen rt)"
proof -
  let ?rt = "maybeLaunchDN42GeoAfterHostResult parse p now kind patch gen
    (maybeRetryMetadataLookup parse p now kind patch gen
      (cacheMetadataPatch kind patch (clearMetadataInFlight kind (patch_ip patch) rt)))"
  have "core ?rt = core rt" by simp
  then have "core_inv p ?rt" using core_inv_cong [of rt ?rt p] assms by simp
  then show ?thesis using assms core_inv_patch by (auto simp: processMetadataResult_def Let_def)
qed

lemma core_inv_reset [nt_inv]:
  assumes "params_ok p" "core_inv p rt"
  shows "core_inv p (handleReset requested rt)"
proof (cases requested)
  case True
  have fl: "flight_inv p rt" and len: "length (states rt) = nat (maxHops p) + 1"
    using assms(2) by (simp_all add: core_inv_def hops_inv_def)
  let ?rt = "handleReset True rt"
  have "count (mset (outstanding rt)) (t, generation rt + 1) = 0" for t
  proof -
    have "(t, generation rt + 1) \<notin> set (outstanding rt)" using fl by (auto simp: flight_inv_def)
    then show ?thesis by (simp add: count_mset_0_iff)
  qed
  then have "running ?rt t = 0" for t by (simp add: running_def handleReset_def)
  moreover have "sent_at (agg ?rt) t = 0" for t by (simp add: handleReset_def agg_Reset_def sent_at_def accMapForTTL_def)
  moreover have "hop_state ?rt t = fresh_hop" if "in_range p t" for t
    using that len range_states [OF assms(2) that] by (simp add: handleReset_def hop_state_def)
  ultimately have "hops_inv p ?rt"
    using assms(1) len by (simp add: hops_inv_def hop_inv_def fresh_hop_def handleReset_def params_ok_def)
  then show ?thesis using True fl
    by (auto simp: core_inv_def flight_inv_def final_inv_def no_ghosts_def handleReset_def agg_Reset_def agg_ok_def accMapForTTL_def)
qed (use assms in \<open>simp add: handleReset_def\<close>)

lemma core_inv_event:
  assumes "params_ok p" "core_inv p rt" "event_ok p rt ev" "\<And>n. ev \<noteq> CtxDone n"
  shows "core_inv p (fst (run_event parse p now paused ev rt))"
proof (cases ev)
  case (ResultReady ttl gen outcome ctx_ended fetch)
  then show ?thesis using core_inv_result [OF assms(1,2), of ttl gen outcome ctx_ended fetch] assms core_inv_schedule
    by (simp add: Let_def)
next
  case (MetadataReady kind patch gen)
  have "core_inv p (rt\<lparr>lookup_jobs := j\<rparr>)" for j using core_inv_cong [of rt "rt\<lparr>lookup_jobs := j\<rparr>"] assms(2) by simp
  then show ?thesis by (simp add: MetadataReady core_inv_metadata Let_def)
next
  case (Tick reset)
  then show ?thesis using assms by (simp add: Let_def core_inv_schedule core_inv_reset)
next
  case (Dropped kind ip gen)
  then show ?thesis using core_inv_cong [of rt "rt\<lparr>lookup_jobs := j\<rparr>" p for j] assms(2) by simp
qed (use assms(4) in simp)

text \<open>A cancelled loop changes nothing but the number of probes it waits for.\<close>

lemma drain_only: "\<exists>k\<le>inFlight rt. drainInFlight n rt = rt\<lparr>inFlight := k\<rparr>"
proof (induction n rt rule: drainInFlight.induct)
  case (2 n rt)
  show ?case
  proof (cases "0 < inFlight rt")
    case True
    with 2 obtain k where "k \<le> inFlight rt - 1" "drainInFlight n (rt\<lparr>inFlight := inFlight rt - 1\<rparr>) = rt\<lparr>inFlight := k\<rparr>" by auto
    then show ?thesis using True by (intro exI [of _ k]) simp
  qed (auto intro: exI [of _ "inFlight rt"])
qed (auto intro: exI [of _ "inFlight rt"])


subsection \<open>The books of the lookups\<close>

definition book_inv :: "nat \<Rightarrow> (mtrMetadataKind \<times> string \<times> nat) list \<Rightarrow> mtrMetadataKind \<Rightarrow> lookup_book \<Rightarrow> bool" where
  "book_inv gen jobs kind b \<longleftrightarrow> (\<forall>ip.
     count (mset jobs) (kind, ip, gen) = (if lk_inFlight b ip = None then 0 else 1) \<and>
     (lk_inFlight b ip = None \<or> lk_inFlight b ip = Some gen) \<and>
     (case lk_attempts b ip of None \<Rightarrow> True | Some n \<Rightarrow> 0 \<le> n \<and> n \<le> mtrAsyncMetadataMaxRetries + 1))"

definition meta_inv :: "mtrSchedulerRuntime \<Rightarrow> bool" where
  "meta_inv rt \<longleftrightarrow> (\<forall>j\<in>set (lookup_jobs rt). fst (snd j) \<noteq> [] \<and> snd (snd j) \<le> generation rt) \<and>
     book_inv (generation rt) (lookup_jobs rt) KindGeo (geo_book rt) \<and>
     book_inv (generation rt) (lookup_jobs rt) KindHost (host_book rt)"

definition meta :: "mtrSchedulerRuntime \<Rightarrow> lookup_book \<times> lookup_book \<times> (mtrMetadataKind \<times> string \<times> nat) list \<times> nat" where
  "meta rt = (geo_book rt, host_book rt, lookup_jobs rt, generation rt)"

lemma meta_inv_cong: "meta rt = meta rt' \<Longrightarrow> meta_inv rt = meta_inv rt'"
  by (simp add: meta_def meta_inv_def)

lemma meta_core_updates [simp]:
  "meta (rt\<lparr>agg := a\<rparr>) = meta rt" "meta (rt\<lparr>knownFinalTTL := k\<rparr>) = meta rt" "meta (set_hop rt ttl st) = meta rt"
  "meta (rt\<lparr>inFlight := i, outstanding := os\<rparr>) = meta rt" "meta (rt\<lparr>metadataCache := c\<rparr>) = meta rt"
  "meta (markProbeCompleted ttl rt) = meta rt"
  by (simp_all add: meta_def markProbeCompleted_def Let_def)

lemma meta_launch [simp]: "meta (launchProbe p now rt ttl) = meta rt"
  by (simp add: launchProbe_def Let_def meta_def)

lemma meta_schedule [simp]: "meta (scheduleReady p paused now rt) = meta rt"
proof -
  have "meta (schedule_loop p now ttls rt) = meta rt" for ttls by (induction ttls arbitrary: rt) simp_all
  then show ?thesis by (simp add: scheduleReady_def)
qed

lemma meta_disable [simp]: "meta (disableHigherTTLs p from rt) = meta rt"
proof -
  have "meta (fold (\<lambda>ttl rt. set_hop rt ttl (f rt ttl)) ts rt) = meta rt" for f and ts :: "int list"
    by (induction ts arbitrary: rt) simp_all
  then show ?thesis by (simp add: disableHigherTTLs_def)
qed

lemma meta_detect [simp]: "meta (detectDestination p ttl r rt) = meta rt"
  by (simp add: detectDestination_def Let_def)

lemma meta_error [simp]: "meta (processProbeError p c ttl rt) = meta rt"
  by (simp add: processProbeError_def recordSyntheticTimeout_def Let_def)

lemma exhausted_cases:
  assumes "metadataRetriesExhausted now b ip = (b', ex)"
  shows "lk_inFlight b' = lk_inFlight b" "lk_attempts b' = lk_attempts b \<or> lk_attempts b' = (lk_attempts b)(ip := None)"
    "\<not> ex \<Longrightarrow> (case lk_attempts b' ip of None \<Rightarrow> True | Some n \<Rightarrow> n < mtrAsyncMetadataMaxRetries + 1)"
  using assms
  by (auto simp: metadataRetriesExhausted_def split: option.splits if_split_asm)

lemma exhausted_book:
  assumes "book_inv gen jobs kind b" "metadataRetriesExhausted now b ip = (b', ex)"
  shows "book_inv gen jobs kind b'"
proof -
  note c = exhausted_cases [OF assms(2)]
  have "case lk_attempts b' i of None \<Rightarrow> True | Some n \<Rightarrow> 0 \<le> n \<and> n \<le> mtrAsyncMetadataMaxRetries + 1" for i
    using assms(1) c(2) unfolding book_inv_def by (cases "i = ip") (metis fun_upd_same fun_upd_other option.simps(4))+
  then show ?thesis using assms(1) c(1) unfolding book_inv_def by simp
qed

lemma start_book:
  assumes "book_inv gen jobs kind b" "lk_inFlight b ip = None"
    "case lk_attempts b ip of None \<Rightarrow> True | Some n \<Rightarrow> n < mtrAsyncMetadataMaxRetries + 1"
  shows "book_inv gen ((kind, ip, gen) # jobs) kind (start_lookup gen ip b)"
  using assms by (auto simp: book_inv_def start_lookup_def mtrAsyncMetadataMaxRetries_def split: option.splits if_splits)

lemma other_book: "kind' \<noteq> kind \<Longrightarrow> book_inv gen ((kind', ip, g) # jobs) kind b = book_inv gen jobs kind b"
  by (simp add: book_inv_def)

lemma meta_inv_geo [nt_inv]:
  assumes "meta_inv rt" "ip \<noteq> []" "gen = generation rt"
  shows "meta_inv (maybeLaunchGeoMetadataLookup p now ip r gen d rt)"
proof -
  let ?rt = "maybeLaunchGeoMetadataLookup p now ip r gen d rt"
  obtain b ex where e: "metadataRetriesExhausted now (geo_book rt) ip = (b, ex)"
    by (cases "metadataRetriesExhausted now (geo_book rt) ip")
  have "book_inv (generation rt) (lookup_jobs rt) KindGeo (geo_book rt)" using assms(1) by (simp add: meta_inv_def)
  note x = exhausted_book [OF this e] exhausted_cases(1,3) [OF e]
  have "?rt = rt \<or> ?rt = rt\<lparr>geo_book := b\<rparr> \<or> lk_inFlight (geo_book rt) ip = None \<and> \<not> ex \<and>
      ?rt = rt\<lparr>geo_book := start_lookup gen ip b, lookup_jobs := (KindGeo, ip, gen) # lookup_jobs rt\<rparr>"
    by (simp add: maybeLaunchGeoMetadataLookup_def e Let_def)
  moreover have "meta_inv (rt\<lparr>geo_book := b\<rparr>)" using assms(1) x(1) by (simp add: meta_inv_def)
  moreover have "meta_inv (rt\<lparr>geo_book := start_lookup gen ip b, lookup_jobs := (KindGeo, ip, gen) # lookup_jobs rt\<rparr>)"
    if "lk_inFlight (geo_book rt) ip = None" "\<not> ex"
    using assms start_book [OF x(1), of ip] x(2,3) that by (simp add: meta_inv_def other_book)
  ultimately show ?thesis using assms(1) by metis
qed

lemma meta_inv_host [nt_inv]:
  assumes "meta_inv rt" "ip \<noteq> []" "gen = generation rt"
  shows "meta_inv (maybeLaunchHostMetadataLookup p now ip r gen rt)"
proof -
  let ?rt = "maybeLaunchHostMetadataLookup p now ip r gen rt"
  obtain b ex where e: "metadataRetriesExhausted now (host_book rt) ip = (b, ex)"
    by (cases "metadataRetriesExhausted now (host_book rt) ip")
  have "book_inv (generation rt) (lookup_jobs rt) KindHost (host_book rt)" using assms(1) by (simp add: meta_inv_def)
  note x = exhausted_book [OF this e] exhausted_cases(1,3) [OF e]
  have "?rt = rt \<or> ?rt = rt\<lparr>host_book := b\<rparr> \<or> lk_inFlight (host_book rt) ip = None \<and> \<not> ex \<and>
      ?rt = rt\<lparr>host_book := start_lookup gen ip b, lookup_jobs := (KindHost, ip, gen) # lookup_jobs rt\<rparr>"
    by (simp add: maybeLaunchHostMetadataLookup_def e Let_def)
  moreover have "meta_inv (rt\<lparr>host_book := b\<rparr>)" using assms(1) x(1) by (simp add: meta_inv_def)
  moreover have "meta_inv (rt\<lparr>host_book := start_lookup gen ip b, lookup_jobs := (KindHost, ip, gen) # lookup_jobs rt\<rparr>)"
    if "lk_inFlight (host_book rt) ip = None" "\<not> ex"
    using assms start_book [OF x(1), of ip] x(2,3) that by (simp add: meta_inv_def other_book)
  ultimately show ?thesis using assms(1) by metis
qed


lemma generation_meta: "meta rt = meta rt' \<Longrightarrow> generation rt = generation rt'"
  by (simp add: meta_def)

lemma generation_core: "core rt = core rt' \<Longrightarrow> generation rt = generation rt'"
  by (simp add: core_eq_iff)

lemma generation_geo [simp]: "generation (maybeLaunchGeoMetadataLookup p now ip r gen d rt) = generation rt"
  by (rule generation_core) simp

lemma meta_inv_lookup [nt_inv]: "meta_inv rt \<Longrightarrow> meta_inv (maybeLaunchMetadataLookup p now r rt)"
  by (simp add: maybeLaunchMetadataLookup_def Let_def meta_inv_geo meta_inv_host)

lemma meta_inv_success:
  assumes "meta_inv rt"
  shows "meta_inv (processProbeSuccess fetch p now ttl r rt)"
proof -
  have "meta_inv (detectDestination p ttl r rt)" using assms meta_inv_cong [OF meta_detect] by simp
  then show ?thesis
    unfolding processProbeSuccess_def Let_def
    using meta_inv_cong [OF meta_core_updates(1)] meta_inv_cong [OF meta_core_updates(3)]
      meta_inv_cong [OF meta_core_updates(6)] meta_inv_lookup by auto
qed

lemma meta_inv_result [nt_inv]:
  assumes "meta_inv rt"
  shows "meta_inv (processResult fetch p c now ttl outcome gen rt)"
proof -
  have m: "meta_inv x" if "meta x = meta rt" for x using meta_inv_cong [OF that] assms by simp
  show ?thesis
    unfolding processResult_def Let_def
    by (auto split: sum.split intro!: m meta_inv_success)
qed

lemma book_inv_remove:
  "book_inv gen jobs kind b \<Longrightarrow> g \<noteq> gen \<or> kind' \<noteq> kind \<Longrightarrow> book_inv gen (remove1 (kind', ip, g) jobs) kind b"
  by (auto simp: book_inv_def)

lemma book_inv_clear:
  assumes "book_inv gen jobs kind b" "(kind, ip, gen) \<in> set jobs"
  shows "book_inv gen (remove1 (kind, ip, gen) jobs) kind (b\<lparr>lk_inFlight := (lk_inFlight b)(ip := None)\<rparr>)"
proof -
  have "0 < count (mset jobs) (kind, ip, gen)" using assms(2) by simp
  then have "lk_inFlight b ip \<noteq> None" "count (mset jobs) (kind, ip, gen) = 1"
    using assms(1) by (auto simp: book_inv_def split: if_splits)
  then show ?thesis using assms(1) by (simp add: book_inv_def)
qed

lemma meta_inv_drop [nt_inv]:
  assumes "meta_inv rt" "gen \<noteq> generation rt"
  shows "meta_inv (rt\<lparr>lookup_jobs := remove1 (kind, ip, gen) (lookup_jobs rt)\<rparr>)"
  using assms set_remove1_subset [of "(kind, ip, gen)" "lookup_jobs rt"] by (auto simp: meta_inv_def book_inv_remove)

lemma meta_inv_clear:
  assumes "meta_inv rt" "(kind, ip, generation rt) \<in> set (lookup_jobs rt)"
  shows "meta_inv (clearMetadataInFlight kind ip (rt\<lparr>lookup_jobs := remove1 (kind, ip, generation rt) (lookup_jobs rt)\<rparr>))"
proof -
  have "set (remove1 (kind, ip, generation rt) (lookup_jobs rt)) \<subseteq> set (lookup_jobs rt)" by (rule set_remove1_subset)
  then show ?thesis
    using assms by (cases kind) (auto simp: meta_inv_def clearMetadataInFlight_def book_inv_clear book_inv_remove)
qed

lemma book_inv_forget:
  "book_inv gen jobs kind b \<Longrightarrow> book_inv gen jobs kind (b\<lparr>lk_attempts := (lk_attempts b)(ip := None), lk_retryAt := r\<rparr>)"
  by (simp add: book_inv_def)

lemma meta_inv_cache [nt_inv]: "meta_inv rt \<Longrightarrow> meta_inv (cacheMetadataPatch kind patch rt)"
  by (auto simp: cacheMetadataPatch_def Let_def meta_inv_def book_inv_forget split: mtrMetadataKind.split)

lemma meta_inv_exhausted:
  "meta_inv rt \<Longrightarrow> meta_inv (rt\<lparr>host_book := fst (metadataRetriesExhausted now (host_book rt) ip)\<rparr>)"
  using exhausted_book [of "generation rt" "lookup_jobs rt" KindHost "host_book rt" now ip]
  by (cases "metadataRetriesExhausted now (host_book rt) ip") (simp add: meta_inv_def)

lemma meta_inv_retry [nt_inv]:
  assumes "meta_inv rt" "patch_ip patch \<noteq> []" "gen = generation rt"
  shows "meta_inv (maybeRetryMetadataLookup parse p now kind patch gen rt)"
  using assms meta_inv_exhausted [OF assms(1), of now "patch_ip patch"]
  by (auto simp: maybeRetryMetadataLookup_def Let_def split_beta meta_inv_geo meta_inv_host split: mtrMetadataKind.split)

lemma meta_inv_dn42 [nt_inv]:
  assumes "meta_inv rt" "patch_ip patch \<noteq> []" "gen = generation rt"
  shows "meta_inv (maybeLaunchDN42GeoAfterHostResult parse p now kind patch gen rt)"
  using assms meta_inv_exhausted [OF assms(1), of now "patch_ip patch"]
  by (auto simp: maybeLaunchDN42GeoAfterHostResult_def Let_def meta_inv_geo)

lemma generation_metadata_ops [simp]:
  "generation (clearMetadataInFlight kind ip rt) = generation rt"
  "generation (cacheMetadataPatch kind patch rt) = generation rt"
  "generation (maybeRetryMetadataLookup parse p now kind patch gen rt) = generation rt"
  by (rule generation_core, simp)+

lemma meta_inv_metadata [nt_inv]:
  assumes "meta_inv rt" "(kind, patch_ip patch, gen) \<in> set (lookup_jobs rt)"
  shows "meta_inv (processMetadataResult parse p now kind patch gen
    (rt\<lparr>lookup_jobs := remove1 (kind, patch_ip patch, gen) (lookup_jobs rt)\<rparr>))"
proof (cases "gen = generation rt")
  case False
  then show ?thesis using meta_inv_drop [OF assms(1)] by (simp add: processMetadataResult_def)
next
  case True
  have ip: "patch_ip patch \<noteq> []" using assms by (auto simp: meta_inv_def)
  have "meta_inv (clearMetadataInFlight kind (patch_ip patch) (rt\<lparr>lookup_jobs := remove1 (kind, patch_ip patch, gen) (lookup_jobs rt)\<rparr>))"
    using meta_inv_clear [OF assms(1)] assms(2) True by simp
  then have "meta_inv (maybeLaunchDN42GeoAfterHostResult parse p now kind patch gen
      (maybeRetryMetadataLookup parse p now kind patch gen (cacheMetadataPatch kind patch
        (clearMetadataInFlight kind (patch_ip patch) (rt\<lparr>lookup_jobs := remove1 (kind, patch_ip patch, gen) (lookup_jobs rt)\<rparr>)))))"
    using ip True by (simp add: meta_inv_dn42 meta_inv_retry meta_inv_cache)
  then show ?thesis
    using ip True meta_inv_cong [OF meta_core_updates(1)] by (simp add: processMetadataResult_def Let_def)
qed

lemma meta_inv_reset [nt_inv]:
  assumes "meta_inv rt"
  shows "meta_inv (handleReset requested rt)"
proof -
  have "(kind, ip, Suc (generation rt)) \<notin> set (lookup_jobs rt)" for kind ip
    using assms by (fastforce simp: meta_inv_def)
  then have "count (mset (lookup_jobs rt)) (kind, ip, Suc (generation rt)) = 0" for kind ip
    by (simp add: count_mset_0_iff)
  then have "book_inv (Suc (generation rt)) (lookup_jobs rt) kind empty_book" for kind
    by (simp add: book_inv_def empty_book_def)
  then show ?thesis using assms by (auto simp: handleReset_def meta_inv_def)
qed

lemma meta_inv_event:
  assumes "meta_inv rt" "event_ok p rt ev"
  shows "meta_inv (fst (run_event parse p now paused ev rt))"
proof (cases ev)
  case (ResultReady ttl gen outcome ctx_ended fetch)
  then show ?thesis using meta_inv_result [OF assms(1)] meta_inv_cong [OF meta_schedule] by (simp add: Let_def)
next
  case (MetadataReady kind patch gen)
  then show ?thesis using meta_inv_metadata [OF assms(1)] assms(2) by (simp add: Let_def)
next
  case (Tick reset)
  then show ?thesis using meta_inv_reset [OF assms(1)] meta_inv_cong [OF meta_schedule] by (simp add: Let_def)
next
  case (Dropped kind ip gen)
  then show ?thesis using meta_inv_drop [OF assms(1)] assms(2) by simp
next
  case (CtxDone n)
  obtain k where "handleCancel n rt = rt\<lparr>inFlight := k\<rparr>" using drain_only [of rt n] by (auto simp: handleCancel_def)
  then show ?thesis using CtxDone assms(1) by (simp add: meta_inv_def)
qed

end
