(* ===== verification/Mtr_Scheduler_Props.thy ===== *)
theory Mtr_Scheduler_Props
  imports Mtr_Scheduler_Events
begin

section \<open>What the scheduler guarantees\<close>

text \<open>
  The invariant of a run, and what follows from it: the limits on running probes, the agreement of
  counters and rows, what it means that the loop has returned, that it does not get stuck, the
  iteration number, and the bounds on background lookups.
\<close>

subsection \<open>The invariant of a run\<close>

text \<open>After a cancellation the loop's counter may have been run down; the core invariant then holds of the state with the
  counter restored.\<close>

definition settled :: "mtrSchedulerRuntime \<Rightarrow> mtrSchedulerRuntime" where
  "settled rt = rt\<lparr>inFlight := int (length (outstanding rt))\<rparr>"

definition sched_inv :: "sched_params \<Rightarrow> mtrSchedulerRuntime \<times> loop_status \<Rightarrow> bool" where
  "sched_inv p s \<longleftrightarrow> params_ok p \<and> core_inv p (settled (fst s)) \<and> meta_inv (fst s) \<and>
     (snd s \<noteq> Loop_Cancelled \<longrightarrow> settled (fst s) = fst s) \<and> (snd s = Loop_Done \<longrightarrow> isDone p (fst s))"

lemma settled_fields [simp]:
  "agg (settled rt) = agg rt" "states (settled rt) = states rt" "generation (settled rt) = generation rt"
  "knownFinalTTL (settled rt) = knownFinalTTL rt" "outstanding (settled rt) = outstanding rt"
  "settled (rt\<lparr>inFlight := k\<rparr>) = settled rt" "hop_state (settled rt) t = hop_state rt t" "running (settled rt) t = running rt t"
  by (simp_all add: settled_def running_def)

lemma settled_core: "core_inv p rt \<Longrightarrow> settled rt = rt"
  by (simp add: settled_def core_inv_def flight_inv_def)

lemma sched_inv_parts:
  assumes "sched_inv p (rt, st)"
  shows "params_ok p" "final_inv p rt" "meta_inv rt" "int (length (outstanding rt)) \<le> parallelism p"
    "ip_string (dst_ip p) \<noteq> [] \<Longrightarrow> no_ghosts (ip_string (dst_ip p)) rt" "st = Loop_Done \<Longrightarrow> isDone p rt"
    "st \<noteq> Loop_Cancelled \<Longrightarrow> core_inv p rt"
    "in_range p ttl \<Longrightarrow> hop_inv p (knownFinalTTL rt) (running rt ttl) (sent_at (agg rt) ttl) ttl (hop_state rt ttl)"
proof -
  have i: "params_ok p" "core_inv p (settled rt)" "meta_inv rt" "st \<noteq> Loop_Cancelled \<longrightarrow> settled rt = rt"
      "st = Loop_Done \<longrightarrow> isDone p rt"
    using assms by (simp_all add: sched_inv_def)
  then have c: "hops_inv p (settled rt)" "flight_inv p (settled rt)" "final_inv p (settled rt)"
      "ip_string (dst_ip p) \<noteq> [] \<longrightarrow> no_ghosts (ip_string (dst_ip p)) (settled rt)"
    by (simp_all add: core_inv_def)
  show "params_ok p" "meta_inv rt" "st = Loop_Done \<Longrightarrow> isDone p rt" using i by simp_all
  show "final_inv p rt" using c(3) by (simp add: final_inv_def)
  show "int (length (outstanding rt)) \<le> parallelism p" using c(2) by (simp add: flight_inv_def settled_def)
  show "ip_string (dst_ip p) \<noteq> [] \<Longrightarrow> no_ghosts (ip_string (dst_ip p)) rt" using c(4) by (simp add: no_ghosts_def)
  show "core_inv p rt" if "st \<noteq> Loop_Cancelled" using i(2,4) that by simp
  show "in_range p ttl \<Longrightarrow> hop_inv p (knownFinalTTL rt) (running rt ttl) (sent_at (agg rt) ttl) ttl (hop_state rt ttl)"
    using c(1) by (simp add: hops_inv_def)
qed

inductive_cases sched_stepE: "sched_step parse p s t"

lemma run_event_done: "snd (run_event parse p now paused ev rt) = Loop_Done \<Longrightarrow> isDone p (fst (run_event parse p now paused ev rt))"
  by (cases ev) (auto simp: Let_def split: if_splits)

lemma sched_inv_step:
  assumes "sched_inv p s" "sched_step parse p s t"
  shows "sched_inv p t"
  using assms(2)
proof (rule sched_stepE)
  fix rt ev now paused
  assume s: "s = (rt, Loop_Running)" and t: "t = run_event parse p now paused ev rt" and ok: "event_ok p rt ev"
  have i: "params_ok p" "core_inv p rt" "meta_inv rt" using sched_inv_parts [of p rt Loop_Running] assms(1) s by simp_all
  show ?thesis
  proof (cases "\<exists>n. ev = CtxDone n")
    case True
    then obtain n where n: "ev = CtxDone n" by blast
    obtain k where "drainInFlight n rt = rt\<lparr>inFlight := k\<rparr>" using drain_only [of rt n] by blast
    then have "t = (rt\<lparr>inFlight := k\<rparr>, Loop_Cancelled)" by (simp add: t n handleCancel_def)
    then show ?thesis using i by (simp add: sched_inv_def settled_core meta_inv_def)
  next
    case False
    then have "core_inv p (fst t)" unfolding t by (intro core_inv_event [OF i(1,2) ok]) simp
    then show ?thesis
      using i meta_inv_event [OF i(3) ok, of parse now paused] run_event_done [of parse p now paused ev rt]
      by (simp add: sched_inv_def settled_core t)
  qed
qed

interpretation sched_run: step_invariant "sched_step parse p" "sched_inv p" for parse p
  by unfold_locales (rule sched_inv_step)

lemma new_params:
  assumes "newMTRSchedulerRuntime cfg a = Inr (p, rt)"
  shows "params_ok p" "rt = \<lparr>agg = a, states = replicate (nat (maxHops p) + 1) fresh_hop, generation = 0,
    knownFinalTTL = -1, inFlight = 0, geo_book = empty_book, host_book = empty_book,
    metadataCache = Map.empty, outstanding = [], lookup_jobs = []\<rparr>"
proof -
  let ?b = "if mc_BeginHop cfg \<le> 0 then 1 else mc_BeginHop cfg"
  let ?m0 = "if mc_MaxHops cfg \<le> 0 then 30 else mc_MaxHops cfg"
  let ?m = "if ?m0 > 255 then 255 else ?m0"
  have le: "\<not> ?b > ?m"
  proof
    assume "?b > ?m"
    then have "newMTRSchedulerRuntime cfg a = Inl (Err ''mtr: beginHop > maxHops'')"
      unfolding newMTRSchedulerRuntime_def Let_def maxMTRHopCount_def by (simp only: if_True)
    then show False using assms by simp
  qed
  have eq: "newMTRSchedulerRuntime cfg a = Inr (p', rt') \<Longrightarrow>
      beginHop p' = ?b \<and> maxHops p' = ?m \<and> 1 \<le> parallelism p' \<and> 1 \<le> maxConsecErrs p' \<and> 1 \<le> maxInFlightHop p' \<and>
      rt' = \<lparr>agg = a, states = replicate (nat ?m + 1) fresh_hop, generation = 0,
        knownFinalTTL = -1, inFlight = 0, geo_book = empty_book, host_book = empty_book,
        metadataCache = Map.empty, outstanding = [], lookup_jobs = []\<rparr>" for p' rt'
    unfolding newMTRSchedulerRuntime_def Let_def maxMTRHopCount_def
    by (simp only: le if_False sum.inject prod.inject) auto
  note e = eq [OF assms]
  have "1 \<le> ?b" "?m \<le> 255" by simp_all
  with e le show "params_ok p" unfolding params_ok_def by linarith
  show "rt = \<lparr>agg = a, states = replicate (nat (maxHops p) + 1) fresh_hop, generation = 0,
    knownFinalTTL = -1, inFlight = 0, geo_book = empty_book, host_book = empty_book,
    metadataCache = Map.empty, outstanding = [], lookup_jobs = []\<rparr>"
    by (rule e [THEN conjunct2, THEN conjunct2, THEN conjunct2, THEN conjunct2, THEN conjunct2,
      folded e [THEN conjunct2, THEN conjunct1]])
qed

lemma fresh_core_inv:
  assumes "params_ok p" "rt = \<lparr>agg = NewMTRAggregator, states = replicate (nat (maxHops p) + 1) fresh_hop, generation = 0,
    knownFinalTTL = -1, inFlight = 0, geo_book = empty_book, host_book = empty_book,
    metadataCache = Map.empty, outstanding = [], lookup_jobs = []\<rparr>"
  shows "core_inv p rt"
proof -
  have "hop_state rt t = fresh_hop" if "in_range p t" for t
    using that by (auto simp: assms(2) hop_state_def in_range_def nth_append nat_le_iff less_Suc_eq_le nth_replicate simp del: replicate_Suc intro!: nth_replicate)
  then show ?thesis
    using assms(1) unfolding core_inv_def hops_inv_def
    by (simp add: assms(2) hop_inv_def fresh_hop_def running_def flight_inv_def final_inv_def no_ghosts_def
        sent_at_def accMapForTTL_def NewMTRAggregator_def agg_ok_def params_ok_def)
qed

lemma start_inv:
  assumes "newMTRSchedulerRuntime cfg NewMTRAggregator = Inr (p, rt)"
  shows "sched_inv p (run_start p paused now rt)"
proof -
  have "meta_inv rt" by (simp add: new_params(2) [OF assms] meta_inv_def book_inv_def empty_book_def)
  then have "meta_inv (scheduleReady p paused now rt)" using meta_inv_cong [OF meta_schedule] by blast
  moreover have "core_inv p (scheduleReady p paused now rt)"
    using core_inv_schedule [OF new_params(1) [OF assms] fresh_core_inv [OF new_params [OF assms]]] .
  ultimately show ?thesis using new_params(1) [OF assms] by (simp add: sched_inv_def run_start_def settled_core)
qed

text \<open>Everything a run of the scheduler can get to.\<close>

definition sched_reach :: "(string \<Rightarrow> ip) \<Rightarrow> mtrSchedulerConfig \<Rightarrow> sched_params \<Rightarrow> mtrSchedulerRuntime \<Rightarrow> loop_status \<Rightarrow> bool" where
  "sched_reach parse cfg p rt status \<longleftrightarrow> (\<exists>rt0 paused now.
     newMTRSchedulerRuntime cfg NewMTRAggregator = Inr (p, rt0) \<and>
     reaches (sched_step parse p) (run_start p paused now rt0) (rt, status))"

lemma reach_inv: "sched_reach parse cfg p rt status \<Longrightarrow> sched_inv p (rt, status)"
  unfolding sched_reach_def using sched_run.reachable_inv start_inv by blast

lemma reach_hop:
  assumes "sched_reach parse cfg p rt status" "in_range p ttl"
  shows "hop_inv p (knownFinalTTL rt) (running rt ttl) (sent_at (agg rt) ttl) ttl (hop_state rt ttl)"
  using sched_inv_parts(8) [OF reach_inv [OF assms(1)] assms(2)] .

lemma active_range:
  assumes "params_ok p" "final_inv p rt" "beginHop p \<le> ttl" "ttl \<le> effectiveMax p rt"
  shows "in_range p ttl" "\<not> (0 \<le> knownFinalTTL rt \<and> knownFinalTTL rt < ttl)"
  using assms by (auto simp: in_range_def effectiveMax_def final_inv_def params_ok_def Let_def split: if_splits)

subsection \<open>Limits and counts\<close>

text \<open>C16. At any moment of a run no more probes are on their way than the configured parallelism,
  no TTL has more than its own limit, and completed and running probes of a TTL together never exceed
  the number of probes asked for.\<close>

theorem scheduler_limits:
  assumes "sched_reach parse cfg p rt status" "beginHop p \<le> ttl" "ttl \<le> maxHops p"
  shows "int (length (outstanding rt)) \<le> parallelism p \<and>
    running rt ttl \<le> maxInFlightHop p \<and> inFlightCount (hop_state rt ttl) = running rt ttl \<and>
    (if 0 < maxPerHop p then completed (hop_state rt ttl) + running rt ttl \<le> maxPerHop p else True)"
  using reach_hop [OF assms(1), of ttl] sched_inv_parts(4) [OF reach_inv [OF assms(1)]] assms(2,3)
  by (simp add: in_range_def hop_inv_def)

text \<open>C15. The statistics agree with the probing at any moment, in whatever order results arrive and
  however often the user resets: the rows of an active TTL count exactly its completed probes, and no
  row of the destination remains at any TTL but the final one.\<close>

theorem scheduler_rows:
  assumes "sched_reach parse cfg p rt status" "beginHop p \<le> ttl" "ttl \<le> effectiveMax p rt"
    "ip_string (dst_ip p) \<noteq> []" "t \<noteq> knownFinalTTL rt"
  shows "sent_at (agg rt) ttl = completed (hop_state rt ttl) \<and>
    list_all (\<lambda>ka. acc_ip (snd ka) \<noteq> ip_string (dst_ip p)) (accMapForTTL (agg rt) t)"
proof -
  have inv: "params_ok p" "final_inv p rt" "no_ghosts (ip_string (dst_ip p)) rt"
    using sched_inv_parts [OF reach_inv [OF assms(1)]] assms(4) by blast+
  note r = active_range [OF inv(1,2) assms(2,3)]
  show ?thesis
    using reach_hop [OF assms(1) r(1)] r(2) inv(3) assms(5) by (simp add: hop_inv_def no_ghosts_def list_all_iff)
qed

subsection \<open>The end of a run\<close>

lemma done_complete:
  assumes "sched_reach parse cfg p rt Loop_Done" "beginHop p \<le> ttl" "ttl \<le> effectiveMax p rt"
  shows "0 < maxPerHop p \<and> completed (hop_state rt ttl) = maxPerHop p \<and> sent_at (agg rt) ttl = maxPerHop p \<and>
    outstanding rt = [] \<and> (kind, ip, generation rt) \<notin> set (lookup_jobs rt)"
proof -
  note parts = sched_inv_parts [OF reach_inv [OF assms(1)]]
  have inv: "params_ok p" "final_inv p rt" "flight_inv p rt" "isDone p rt" "meta_inv rt"
    using parts(1-3) parts(6) [OF refl] parts(7) by (simp_all add: core_inv_def)
  note r = active_range [OF inv(1,2) assms(2,3)]
  have d: "0 < maxPerHop p" "hop_finished p (hop_state rt ttl)" "inFlight rt = 0"
    "lk_inFlight (geo_book rt) = Map.empty" "lk_inFlight (host_book rt) = Map.empty"
    using inv(4) assms(2,3) by (auto simp: isDone_def no_keys_def list_all_iff split: if_splits)
  have "count (mset (lookup_jobs rt)) (kind, ip, generation rt) = 0"
    using inv(5) d(4,5) by (cases kind) (simp_all add: meta_inv_def book_inv_def)
  then have "(kind, ip, generation rt) \<notin> set (lookup_jobs rt)" by (simp add: count_mset_0_iff)
  moreover have "outstanding rt = []" using d(3) inv(3) by (simp add: flight_inv_def)
  moreover from this have "running rt ttl = 0" by (simp add: running_def)
  ultimately show ?thesis
    using reach_hop [OF assms(1) r(1)] r(2) d(1,2) by (simp add: hop_inv_def hop_finished_def)
qed

lemma run_event_cancelled: "run_event parse p now paused ev rt = (t, Loop_Cancelled) \<Longrightarrow> \<exists>n. t = handleCancel n rt"
  by (cases ev) (auto simp: Let_def split: if_splits)

lemma cancelled_before:
  assumes "sched_reach parse cfg p rt Loop_Cancelled"
  shows "\<exists>rt0 n. sched_reach parse cfg p rt0 Loop_Running \<and> rt = handleCancel n rt0"
proof -
  obtain r0 paused now where r0: "newMTRSchedulerRuntime cfg NewMTRAggregator = Inr (p, r0)"
      "reaches (sched_step parse p) (run_start p paused now r0) (rt, Loop_Cancelled)"
    using assms unfolding sched_reach_def by blast
  from r0(2) show ?thesis
  proof (cases rule: reaches.cases)
    case reaches_refl
    then show ?thesis by (simp add: run_start_def)
  next
    case (reaches_step s)
    obtain rt0 now' paused' ev where "s = (rt0, Loop_Running)" "run_event parse p now' paused' ev rt0 = (rt, Loop_Cancelled)"
      using reaches_step(2) by (auto elim!: sched_stepE)
    then show ?thesis
      using run_event_cancelled reaches_step(1) r0(1) unfolding sched_reach_def by blast
  qed
qed

text \<open>C14. The loop returns in two ways. When it returns without an error, every active TTL has exactly the number of probes
  asked for, its rows count exactly these, and neither a probe nor a lookup is still running for this run. When its context
  has ended, which may happen at any point of a run, it returns the error of the context; it then throws away the
  results that still come in, and leaves the TTLs, the rows and the final TTL of the last state before, in which
  TTLs may be incomplete and probes may be running.\<close>

theorem done_means_complete:
  assumes "sched_reach parse cfg p rt status" "status \<noteq> Loop_Running" "beginHop p \<le> ttl" "ttl \<le> effectiveMax p rt"
  shows "if status = Loop_Done
    then 0 < maxPerHop p \<and> completed (hop_state rt ttl) = maxPerHop p \<and> sent_at (agg rt) ttl = maxPerHop p \<and>
      outstanding rt = [] \<and> (kind, ip, generation rt) \<notin> set (lookup_jobs rt)
    else \<exists>rt0 n. sched_reach parse cfg p rt0 Loop_Running \<and> rt = handleCancel n rt0 \<and>
      agg rt = agg rt0 \<and> states rt = states rt0 \<and> knownFinalTTL rt = knownFinalTTL rt0 \<and>
      outstanding rt = outstanding rt0 \<and> inFlight rt \<le> inFlight rt0"
proof (cases status)
  case Loop_Done
  then show ?thesis using done_complete assms by simp
next
  case Loop_Cancelled
  then obtain rt0 n where r: "sched_reach parse cfg p rt0 Loop_Running" "rt = handleCancel n rt0"
    using cancelled_before assms(1) by blast
  obtain k where "k \<le> inFlight rt0" "rt = rt0\<lparr>inFlight := k\<rparr>" using drain_only [of rt0 n] r(2) by (auto simp: handleCancel_def)
  then show ?thesis using Loop_Cancelled r by (simp, intro exI [of _ rt0] conjI exI [of _ n]) simp_all
qed (use assms(2) in simp)

lemma loop_grows: "length (outstanding rt) \<le> length (outstanding (schedule_loop p now ttls rt))"
proof (induction ttls arbitrary: rt)
  case (Cons t ts)
  have "length (outstanding rt) \<le> length (outstanding (launchProbe p now rt t))" by (simp add: launchProbe_def Let_def)
  then show ?case using Cons.IH [of rt] Cons.IH [of "launchProbe p now rt t"] by simp
qed simp

lemma loop_idle: "\<forall>t\<in>set ttls. \<not> canLaunchProbe p now rt t \<Longrightarrow> schedule_loop p now ttls rt = rt"
  by (induction ttls) simp_all

lemma loop_launches:
  "t \<in> set ttls \<Longrightarrow> canLaunchProbe p now rt t \<Longrightarrow> inFlight rt < parallelism p \<Longrightarrow> outstanding (schedule_loop p now ttls rt) \<noteq> []"
proof (induction ttls)
  case (Cons u us)
  show ?case
  proof (cases "canLaunchProbe p now rt u")
    case True
    have "outstanding (launchProbe p now rt u) \<noteq> []" by (simp add: launchProbe_def Let_def)
    then show ?thesis using loop_grows [of "launchProbe p now rt u" p now us] True Cons.prems by auto
  qed (use Cons in auto)
qed simp

lemma active_nonempty:
  assumes "params_ok p" "final_inv p rt"
  shows "beginHop p \<in> set [beginHop p..effectiveMax p rt]"
  using assms by (auto simp: effectiveMax_def final_inv_def in_range_def params_ok_def Let_def)

lemma idle_finished:
  assumes "params_ok p" "core_inv p rt" "outstanding rt = []"
    "list_all (\<lambda>st. case nextAt st of None \<Rightarrow> True | Some t \<Rightarrow> t \<le> now) (states rt)"
    "t \<in> set [beginHop p..effectiveMax p rt]" "\<not> canLaunchProbe p now rt t"
  shows "0 < maxPerHop p \<and> hop_finished p (hop_state rt t)"
proof -
  have f: "final_inv p rt" using assms(2) by (simp add: core_inv_def)
  have r: "in_range p t" "\<not> (0 \<le> knownFinalTTL rt \<and> knownFinalTTL rt < t)" using active_range [OF assms(1) f] assms(5) by simp_all
  have "hop_state rt t \<in> set (states rt)" using range_states [OF assms(2) r(1)] by (simp add: hop_state_def)
  then have "case nextAt (hop_state rt t) of None \<Rightarrow> True | Some x \<Rightarrow> x \<le> now" using assms(4) by (simp add: list_all_iff)
  moreover have "running rt t = 0" using assms(3) by (simp add: running_def)
  moreover have "hop_inv p (knownFinalTTL rt) (running rt t) (sent_at (agg rt) t) t (hop_state rt t)"
    using assms(2) r(1) by (simp add: core_inv_def hops_inv_def)
  ultimately show ?thesis
    using r(2) assms(1,6) by (auto simp: canLaunchProbe_def hop_finished_def hop_inv_def params_ok_def Let_def split: option.splits if_splits)
qed

lemma schedule_progress:
  assumes "params_ok p" "core_inv p rt" "outstanding rt = []"
    "lk_inFlight (geo_book rt) = Map.empty" "lk_inFlight (host_book rt) = Map.empty"
    "list_all (\<lambda>st. case nextAt st of None \<Rightarrow> True | Some t \<Rightarrow> t \<le> now) (states rt)"
  shows "outstanding (scheduleReady p False now rt) \<noteq> [] \<or> isDone p (scheduleReady p False now rt)"
proof -
  have inv: "final_inv p rt" "inFlight rt = 0" using assms(2,3) by (simp_all add: core_inv_def flight_inv_def)
  let ?ttls = "[beginHop p..effectiveMax p rt]"
  show ?thesis
  proof (cases "\<exists>t\<in>set ?ttls. canLaunchProbe p now rt t")
    case True
    then obtain t where t: "t \<in> set ?ttls" "canLaunchProbe p now rt t" by blast
    have "inFlight rt < parallelism p" using inv(2) assms(1) by (simp add: params_ok_def)
    from loop_launches [OF t this] show ?thesis by (simp add: scheduleReady_def)
  next
    case False
    then have f: "0 < maxPerHop p \<and> hop_finished p (hop_state rt t)" if "t \<in> set ?ttls" for t
      using idle_finished [OF assms(1-3,6) that] that by blast
    have "schedule_loop p now ?ttls rt = rt" using False by (intro loop_idle) simp
    then show ?thesis
      using f f [OF active_nonempty [OF assms(1) inv(1)]] inv(2) assms(4,5)
      by (auto simp: scheduleReady_def isDone_def no_keys_def list_all_iff)
  qed
qed

text \<open>C17. The scheduler does not get stuck. Let the user not have paused it, and let nothing be under way: no probe and
  no lookup. Then a tick at a time when no TTL waits for its interval any more either ends the run or launches a probe,
  whether or not the user asks for a reset, and whether or not the number of probes per TTL is limited (without a
  limit it always launches one). While the user pauses, a tick launches nothing by design.\<close>

theorem tick_makes_progress:
  assumes "sched_reach parse cfg p rt Loop_Running" "outstanding rt = []"
    "lk_inFlight (geo_book rt) = Map.empty" "lk_inFlight (host_book rt) = Map.empty"
    "list_all (\<lambda>st. case nextAt st of None \<Rightarrow> True | Some t \<Rightarrow> t \<le> now) (states rt)"
  shows "case run_event parse p now False (Tick reset) rt of (rt', status) \<Rightarrow>
    outstanding rt' \<noteq> [] \<or> 0 < maxPerHop p \<and> status = Loop_Done"
proof -
  let ?rt = "handleReset reset rt"
  have inv: "params_ok p" "core_inv p rt" using sched_inv_parts [OF reach_inv [OF assms(1)]] by simp_all
  have "outstanding ?rt = []" "lk_inFlight (geo_book ?rt) = Map.empty" "lk_inFlight (host_book ?rt) = Map.empty"
      "list_all (\<lambda>st. case nextAt st of None \<Rightarrow> True | Some t \<Rightarrow> t \<le> now) (states ?rt)"
    using assms(2-5) by (auto simp: handleReset_def empty_book_def fresh_hop_def list_all_iff)
  from schedule_progress [OF inv(1) core_inv_reset [OF inv] this]
  have "outstanding (scheduleReady p False now ?rt) \<noteq> [] \<or> isDone p (scheduleReady p False now ?rt)" .
  moreover have "isDone p r \<Longrightarrow> 0 < maxPerHop p" for r by (simp add: isDone_def split: if_splits)
  ultimately show ?thesis by (auto simp: Let_def)
qed

subsection \<open>The iteration number\<close>

lemma min_step_fold:
  assumes "\<forall>t\<in>set ts. \<not> disabled (hop_state rt t) \<and> 0 \<le> completed (hop_state rt t)" "0 \<le> m"
  shows "fold (min_step rt) ts m = Min (insert m ((\<lambda>t. completed (hop_state rt t)) ` set ts))"
  using assms
proof (induction ts arbitrary: m)
  case (Cons t ts)
  let ?c = "completed (hop_state rt t)"
  have s: "min_step rt t m = min m ?c" using Cons.prems by (auto simp: min_step_def Let_def)
  have "fold (min_step rt) ts (min m ?c) = Min (insert (min m ?c) ((\<lambda>t. completed (hop_state rt t)) ` set ts))"
    using Cons.prems by (intro Cons.IH) auto
  also have "\<dots> = Min (insert m (insert ?c ((\<lambda>t. completed (hop_state rt t)) ` set ts)))"
    by (cases "ts = []") (simp_all add: min.assoc)
  finally show ?case by (simp add: s)
qed simp

text \<open>The iteration number that the scheduler reports is the smallest number of completed probes of
  the active TTLs.\<close>

theorem iteration_is_minimum:
  assumes "sched_reach parse cfg p rt status"
  shows "computeIteration p rt =
    Min ((\<lambda>ttl. completed (hop_state rt ttl)) ` {beginHop p..effectiveMax p rt})"
proof -
  have inv: "params_ok p" "final_inv p rt" using sched_inv_parts [OF reach_inv [OF assms]] by blast+
  have le: "beginHop p \<le> effectiveMax p rt"
    using inv by (auto simp: effectiveMax_def final_inv_def in_range_def params_ok_def Let_def)
  let ?f = "\<lambda>ttl. completed (hop_state rt ttl)"
  have en: "\<not> disabled (hop_state rt t) \<and> 0 \<le> ?f t" if "t \<in> {beginHop p..effectiveMax p rt}" for t
    using that active_range [OF inv] reach_hop [OF assms] by (simp add: hop_inv_def)
  have b: "min_step rt (beginHop p) (-1) = ?f (beginHop p)" using en [of "beginHop p"] le by (simp add: min_step_def Let_def)
  have "fold (min_step rt) [beginHop p..effectiveMax p rt] (-1) =
      fold (min_step rt) [beginHop p + 1..effectiveMax p rt] (?f (beginHop p))"
    using le by (simp add: upto_rec1 b)
  also have "\<dots> = Min (insert (?f (beginHop p)) (?f ` set [beginHop p + 1..effectiveMax p rt]))"
    using en le by (intro min_step_fold) auto
  also have "insert (?f (beginHop p)) (?f ` set [beginHop p + 1..effectiveMax p rt]) = ?f ` {beginHop p..effectiveMax p rt}"
    using le by (simp only: set_upto image_insert [symmetric] simp_from_to [symmetric])
      (metis image_insert simp_from_to atLeastAtMost_iff order_refl atLeastatMost_empty_iff)
  finally have m: "fold (min_step rt) [beginHop p..effectiveMax p rt] (-1) = Min (?f ` {beginHop p..effectiveMax p rt})" .
  have "0 \<le> Min (?f ` {beginHop p..effectiveMax p rt})" using en le by (subst Min_ge_iff) auto
  then show ?thesis by (simp add: computeIteration_def m)
qed

subsection \<open>Background lookups\<close>

text \<open>For each address and kind at most one lookup of the current generation runs, it runs
  exactly while the book says so, and no address is asked about more than four times before its
  cooldown.\<close>

theorem lookups_bounded:
  assumes "sched_reach parse cfg p rt status"
  shows "count (mset (lookup_jobs rt)) (KindGeo, ip, generation rt) = (if lk_inFlight (geo_book rt) ip = None then 0 else 1) \<and>
    count (mset (lookup_jobs rt)) (KindHost, ip, generation rt) = (if lk_inFlight (host_book rt) ip = None then 0 else 1) \<and>
    (case lk_attempts (geo_book rt) ip of None \<Rightarrow> True | Some n \<Rightarrow> n \<le> 4) \<and>
    (case lk_attempts (host_book rt) ip of None \<Rightarrow> True | Some n \<Rightarrow> n \<le> 4)"
  using sched_inv_parts(3) [OF reach_inv [OF assms]]
  by (auto simp: meta_inv_def book_inv_def mtrAsyncMetadataMaxRetries_def split: option.splits)

subsection \<open>A sample run\<close>

definition sample_sched :: mtrSchedulerConfig where
  "sample_sched = \<lparr>mc_BeginHop = 0, mc_MaxHops = 1, mc_HopInterval = 0, mc_Timeout = 0, mc_MaxPerHop = 1,
     mc_MaxConsecErrors = 1, mc_MaxInFlightPerHop = 1, mc_ParallelRequests = 0, mc_FillGeo = False,
     mc_AsyncMetadata = False, mc_BaseConfig = sample_config, mc_DstIP = [8, 8, 8, 8]\<rparr>"

definition sample_params :: sched_params where
  "sample_params = \<lparr>beginHop = 1, maxHops = 1, parallelism = 1, hopInterval = 1000000000, maxConsecErrs = 1,
     maxInFlightHop = 1, maxPerHop = 1, fillGeo = False, asyncMetadata = False, baseConfig = sample_config,
     dst_ip = [8, 8, 8, 8]\<rparr>"

definition sample_rt :: mtrSchedulerRuntime where
  "sample_rt = \<lparr>agg = NewMTRAggregator, states = [fresh_hop, fresh_hop], generation = 0, knownFinalTTL = -1,
     inFlight = 0, geo_book = empty_book, host_book = empty_book, metadataCache = Map.empty,
     outstanding = [], lookup_jobs = []\<rparr>"

lemma sample_new: "newMTRSchedulerRuntime sample_sched NewMTRAggregator = Inr (sample_params, sample_rt)"
  by (simp add: newMTRSchedulerRuntime_def sample_sched_def sample_params_def sample_rt_def maxMTRHopCount_def numeral_2_eq_2)

definition sample_started :: mtrSchedulerRuntime where
  "sample_started = fst (run_start sample_params False 0 sample_rt)"

definition sample_finished :: mtrSchedulerRuntime where
  "sample_finished = fst (run_event (\<lambda>_. []) sample_params 5 False (ResultReady 1 0 (Inl ''send'') False id) sample_started)"

lemma sample_started_eq: "sample_started = sample_rt\<lparr>states := [fresh_hop, fresh_hop\<lparr>inFlightCount := 1, nextAt := Some 1000000000\<rparr>],
     inFlight := 1, outstanding := [(1, 0)]\<rparr>"
  by (simp add: sample_started_def run_start_def scheduleReady_def effectiveMax_def sample_params_def sample_rt_def
      canLaunchProbe_def hop_state_def fresh_hop_def launchProbe_def set_hop_def Let_def upto.simps)


lemma sample_finished_eq:
  "run_event (\<lambda>_. []) sample_params 5 False (ResultReady 1 0 (Inl ''send'') False id) sample_started =
     (sample_started\<lparr>states := [fresh_hop, fresh_hop\<lparr>nextAt := Some 1000000000, completed := 1\<rparr>],
        inFlight := 0, outstanding := [], agg := agg_Update NewMTRAggregator [[timeout_hop 1]]\<rparr>, Loop_Done)"
  by (simp add: sample_started_eq sample_params_def sample_rt_def processResult_def processProbeError_def
      recordSyntheticTimeout_def timeoutProbeResult_def newProbeResult_def resultHopCount_def put_hop_def
      maxMTRHopCount_def hop_state_def set_hop_def fresh_hop_def isDone_def effectiveMax_def hop_finished_def
      no_keys_def empty_book_def Let_def upto.simps)

lemma sample_finished_state:
  "sample_finished = sample_started\<lparr>states := [fresh_hop, fresh_hop\<lparr>nextAt := Some 1000000000, completed := 1\<rparr>],
        inFlight := 0, outstanding := [], agg := agg_Update NewMTRAggregator [[timeout_hop 1]]\<rparr>"
  unfolding sample_finished_def sample_finished_eq by simp

lemma sample_reach_start: "sched_reach (\<lambda>_. []) sample_sched sample_params sample_started Loop_Running"
  unfolding sched_reach_def sample_started_def using sample_new by (auto simp: run_start_def intro: reaches_refl)

lemma sample_reach_end: "sched_reach (\<lambda>_. []) sample_sched sample_params sample_finished Loop_Done"
proof -
  have s: "run_start sample_params False 0 sample_rt = (sample_started, Loop_Running)"
    by (simp add: sample_started_def run_start_def)
  have "event_ok sample_params sample_started (ResultReady 1 0 (Inl ''send'') False id)"
    by (simp add: sample_started_eq fetch_ok_def)
  from sched_step.turn [OF this]
  have "sched_step (\<lambda>_. []) sample_params (sample_started, Loop_Running) (sample_finished, Loop_Done)"
    unfolding sample_finished_def by (metis sample_finished_eq fst_conv)
  then show ?thesis
    unfolding sched_reach_def using sample_new s reaches_step [OF reaches_refl] by metis
qed

theorem scheduler_limits_witness:
  "int (length (outstanding sample_started)) \<le> 1 \<and> inFlightCount (hop_state sample_started 1) \<le> 1 \<and>
   completed (hop_state sample_started 1) + running sample_started 1 \<le> 1"
  using scheduler_limits [OF sample_reach_start, of 1] by (simp add: sample_params_def)

theorem scheduler_rows_witness:
  "sent_at (agg sample_finished) 1 = completed (hop_state sample_finished 1) \<and>
   list_all (\<lambda>ka. acc_ip (snd ka) \<noteq> ip_string [8, 8, 8, 8]) (accMapForTTL (agg sample_finished) 1)"
proof -
  have k: "knownFinalTTL sample_finished = -1"
    by (simp add: sample_finished_state sample_started_eq sample_rt_def)
  have "ip_string [8, 8, 8, 8] \<noteq> []" by (simp add: ip_string_def To4_def dotted_def)
  then show ?thesis
    using scheduler_rows [OF sample_reach_end, of 1 1] k by (simp add: sample_params_def effectiveMax_def)
qed

theorem done_means_complete_witness:
  "completed (hop_state sample_finished 1) = 1 \<and> sent_at (agg sample_finished) 1 = 1 \<and> outstanding sample_finished = []"
proof -
  have "knownFinalTTL sample_finished = -1"
    by (simp add: sample_finished_state sample_started_eq sample_rt_def)
  then show ?thesis
    using done_means_complete [OF sample_reach_end, of 1 KindGeo "[]"] by (simp add: sample_params_def effectiveMax_def)
qed

theorem iteration_is_minimum_witness:
  "computeIteration sample_params sample_started = Min ((\<lambda>ttl. completed (hop_state sample_started ttl)) ` {1..1})"
  using iteration_is_minimum [OF sample_reach_start] by (simp add: sample_params_def effectiveMax_def Let_def)

theorem lookups_bounded_witness:
  "count (mset (lookup_jobs sample_finished)) (KindGeo, ''8.8.8.8'', generation sample_finished) =
     (if lk_inFlight (geo_book sample_finished) ''8.8.8.8'' = None then 0 else 1)"
  using lookups_bounded [OF sample_reach_end, of "''8.8.8.8''"] by simp

definition sample_failed :: mtrSchedulerRuntime where
  "sample_failed = fst (run_event (\<lambda>_. []) sample_params 5 True (ResultReady 1 0 (Inl ''send'') True id) sample_started)"

lemma sample_failed_eq:
  "run_event (\<lambda>_. []) sample_params 5 True (ResultReady 1 0 (Inl ''send'') True id) sample_started =
     (sample_started\<lparr>states := [fresh_hop, fresh_hop\<lparr>nextAt := Some 1000000000\<rparr>],
        inFlight := 0, outstanding := []\<rparr>, Loop_Running)"
  by (simp add: sample_started_eq sample_params_def sample_rt_def processResult_def processProbeError_def
      hop_state_def set_hop_def fresh_hop_def isDone_def effectiveMax_def hop_finished_def scheduleReady_def
      Let_def upto.simps)

lemma sample_failed_state:
  "sample_failed = sample_started\<lparr>states := [fresh_hop, fresh_hop\<lparr>nextAt := Some 1000000000\<rparr>],
        inFlight := 0, outstanding := []\<rparr>"
  unfolding sample_failed_def sample_failed_eq by simp

theorem tick_makes_progress_witness:
  "case run_event (\<lambda>_. []) sample_params 2000000000 False (Tick False) sample_failed of
     (rt', status) \<Rightarrow> outstanding rt' \<noteq> [] \<or> 0 < maxPerHop sample_params \<and> status = Loop_Done"
proof (rule tick_makes_progress)
  have s: "run_start sample_params False 0 sample_rt = (sample_started, Loop_Running)"
    by (simp add: sample_started_def run_start_def)
  have "event_ok sample_params sample_started (ResultReady 1 0 (Inl ''send'') True id)"
    by (simp add: sample_started_eq fetch_ok_def)
  from sched_step.turn [OF this]
  have "sched_step (\<lambda>_. []) sample_params (sample_started, Loop_Running) (sample_failed, Loop_Running)"
    unfolding sample_failed_def by (metis sample_failed_eq fst_conv)
  then show "sched_reach (\<lambda>_. []) sample_sched sample_params sample_failed Loop_Running"
    unfolding sched_reach_def using sample_new s reaches_step [OF reaches_refl] by metis
  note e = sample_failed_state sample_started_eq sample_rt_def
  show "outstanding sample_failed = []" by (simp add: e)
  show "lk_inFlight (geo_book sample_failed) = Map.empty" by (simp add: e empty_book_def)
  show "lk_inFlight (host_book sample_failed) = Map.empty" by (simp add: e empty_book_def)
  show "list_all (\<lambda>st. case nextAt st of None \<Rightarrow> True | Some t \<Rightarrow> t \<le> 2000000000) (states sample_failed)"
    by (simp add: e fresh_hop_def)
qed

end
