(* ===== verification/Mtu_Discovery.thy ===== *)
theory Mtu_Discovery
  imports Mtu_Decode Geo_Filter
begin

section \<open>Path-MTU discovery: \<open>trace/mtu/runner.go\<close> and \<open>trace/mtu/metadata.go\<close>\<close>

text \<open>
  The runner walks the TTLs and probes with datagrams as large as it still believes to fit. A local
  size error or an ICMP message that names a smaller MTU lowers the size; an answer of the hop
  ends the TTL. The socket is the parameter \<open>probe\<close>: its argument is the number of probes
  sent before and the plan. The stream of events that the caller sees is part of the result.
  What goes on in the world while the metadata of a hop are fetched is \<open>mtu_world\<close>. A
  \<open>float64\<close> is a real number.
\<close>

record probePlan =
  plan_TTL :: int
  plan_Token :: "32 word"
  plan_PayloadSize :: int
  plan_Timeout :: int

datatype probe_error = LocalMTU int | ProbeFailed string

record mtu_config =
  mtu_Target :: string
  mtu_DstIP :: ip
  mtu_SrcIP :: ip
  mtu_DstPort :: int
  mtu_BeginHop :: int
  mtu_MaxHops :: int
  mtu_Queries :: int
  mtu_Timeout :: int
  mtu_TTLInterval :: int
  mtu_RDNS :: bool
  mtu_AlwaysWaitRDNS :: bool
  mtu_IPGeoSource :: "geo_source option"
  mtu_Lang :: string

record mtu_hop =
  mhop_TTL :: int
  mhop_Event :: "Event option"
  mhop_IP :: string
  mhop_Hostname :: string
  mhop_RTTMs :: real
  mhop_PMTU :: int
  mhop_Geo :: "geo_data option"

text \<open>\<open>Hop{TTL: ttl}\<close>; the event of a zero \<open>Hop\<close> is the empty string, here \<open>None\<close>.\<close>

definition empty_mhop :: "int \<Rightarrow> mtu_hop" where
  "empty_mhop ttl = \<lparr>mhop_TTL = ttl, mhop_Event = None, mhop_IP = [], mhop_Hostname = [], mhop_RTTMs = 0,
     mhop_PMTU = 0, mhop_Geo = None\<rparr>"

record mtu_result =
  mres_Target :: string
  mres_ResolvedIP :: string
  mres_Protocol :: string
  mres_IPVersion :: nat
  mres_StartMTU :: int
  mres_ProbeSize :: int
  mres_PathMTU :: int
  mres_Hops :: "mtu_hop list"

datatype StreamEventKind = StreamEventTTLStart | StreamEventTTLUpdate | StreamEventTTLFinal | StreamEventDone

record StreamEvent =
  ev_Kind :: StreamEventKind
  ev_TTL :: int
  ev_Hop :: mtu_hop
  ev_Target :: string
  ev_ResolvedIP :: string
  ev_Protocol :: string
  ev_IPVersion :: nat
  ev_StartMTU :: int
  ev_ProbeSize :: int
  ev_PathMTU :: int

subsection \<open>Configuration\<close>

definition ipVersion :: "mtu_config \<Rightarrow> nat" where
  "ipVersion cfg = (if IsIPv6 (mtu_DstIP cfg) then 6 else if To4 (mtu_DstIP cfg) \<noteq> [] then 4 else 0)"

definition normalizeConfig :: "mtu_config \<Rightarrow> (string, mtu_config) res" where
  "normalizeConfig cfg =
     (if mtu_DstIP cfg = [] then Inl (Err ''destination IP is required'')
      else if ipVersion cfg = 0 then Inl (Err ''destination IP is invalid'')
      else
        let cfg = (if mtu_Target cfg = [] then cfg\<lparr>mtu_Target := ip_string (mtu_DstIP cfg)\<rparr> else cfg);
            cfg = (if mtu_BeginHop cfg < 1 then cfg\<lparr>mtu_BeginHop := 1\<rparr> else cfg)
        in if mtu_MaxHops cfg < mtu_BeginHop cfg then Inl (Err ''max hops is smaller than first hop'')
           else
             let cfg = (if mtu_Queries cfg < 1 then cfg\<lparr>mtu_Queries := 1\<rparr> else cfg);
                 cfg = (if mtu_Timeout cfg \<le> 0 then cfg\<lparr>mtu_Timeout := 1000000000\<rparr> else cfg);
                 cfg = (if mtu_DstPort cfg = 0 then cfg\<lparr>mtu_DstPort := 33494\<rparr> else cfg)
             in if mtu_SrcIP cfg = [] then Inl (Err ''source IP is required'')
                else if (To4 (mtu_SrcIP cfg) = []) \<noteq> (To4 (mtu_DstIP cfg) = [])
                then Inl (Err ''source and destination IP address families do not match'')
                else Inr cfg)"

text \<open>\<open>device_mtu\<close> is the answer of \<open>util.GetMTUByIPForDevice\<close>.\<close>

definition initialPathMTU :: "int \<Rightarrow> mtu_config \<Rightarrow> int" where
  "initialPathMTU device_mtu cfg = (if device_mtu > 0 then device_mtu else if ipVersion cfg = 6 then 1280 else 1500)"

definition initialProbeMTU :: "nat \<Rightarrow> int" where
  "initialProbeMTU ver = 65000"

definition payloadSizeForMTU :: "int \<Rightarrow> nat \<Rightarrow> int" where
  "payloadSizeForMTU pathMTU ver =
     (let overhead = (if ver = 6 then 48 else 28); payload = pathMTU - overhead in
      if payload > probePayloadMinLen then payload else probePayloadMinLen)"

definition minProbeMTU :: "nat \<Rightarrow> int" where
  "minProbeMTU ver = (if ver = 6 then 48 + probePayloadMinLen else 28 + probePayloadMinLen)"

definition candidatePathMTU :: "int \<Rightarrow> int \<Rightarrow> int" where
  "candidatePathMTU current discovered =
     (if discovered \<le> 0 then current else if current = 0 \<or> discovered < current then discovered else current)"

definition nextLocalProbeMTU :: "int \<Rightarrow> int \<Rightarrow> nat \<Rightarrow> int \<times> bool" where
  "nextLocalProbeMTU currentProbeMTU reportedMTU ver =
     (let nextMTU = candidatePathMTU currentProbeMTU reportedMTU in
      if nextMTU < currentProbeMTU then (nextMTU, True)
      else if currentProbeMTU \<le> minProbeMTU ver then (0, False)
      else (currentProbeMTU - 1, True))"

lemma nextLocal_decreases: "nextLocalProbeMTU c r ver = (n, True) \<Longrightarrow> n < c \<and> 0 < n \<and> 0 < c"
  by (auto simp: nextLocalProbeMTU_def candidatePathMTU_def minProbeMTU_def probePayloadMinLen_def Let_def
      split: if_splits)

definition buildHop :: "int \<Rightarrow> probeResponse \<Rightarrow> mtu_hop" where
  "buildHop ttl resp =
     (let hop = (empty_mhop ttl)\<lparr>mhop_Event := Some (resp_Event resp), mhop_PMTU := resp_PMTU resp\<rparr>;
          hop = (if resp_IP resp \<noteq> [] then hop\<lparr>mhop_IP := ip_string (resp_IP resp)\<rparr> else hop)
      in if resp_RTT resp > 0 then hop\<lparr>mhop_RTTMs := real_of_int (resp_RTT resp) / 1000000\<rparr> else hop)"

definition emitStreamEvent :: "StreamEventKind \<Rightarrow> mtu_result \<Rightarrow> mtu_hop \<Rightarrow> StreamEvent" where
  "emitStreamEvent kind res hop =
     \<lparr>ev_Kind = kind, ev_TTL = mhop_TTL hop, ev_Hop = hop, ev_Target = mres_Target res,
      ev_ResolvedIP = mres_ResolvedIP res, ev_Protocol = mres_Protocol res, ev_IPVersion = mres_IPVersion res,
      ev_StartMTU = mres_StartMTU res, ev_ProbeSize = mres_ProbeSize res, ev_PathMTU = mres_PathMTU res\<rparr>"

subsection \<open>Metadata of a hop\<close>

datatype first_answer = GeoFirst | PTRFirst | ContextFirst

record mtu_world =
  mw_ctx_ended :: bool
  mw_ptrs :: "string list"
  mw_geo_call :: nat
  mw_ptr_in_time :: bool
  mw_geo_in_time :: bool
  mw_first :: first_answer

definition mtuTimeoutGeo :: geo_data where
  "mtuTimeoutGeo = empty_geo\<lparr>Country := network_error_zh, CountryEn := ''Network Error'', Source := ''timeout''\<rparr>"

definition normalizeMTUGeoData :: "geo_data option \<Rightarrow> geo_data option" where
  "normalizeMTUGeoData geo =
     (case geo of None \<Rightarrow> None
      | Some g \<Rightarrow>
          if Source g = ''timeout'' then geo
          else if Asnumber g = [] \<and> Country g = [] \<and> CountryEn g = [] \<and> Prov g = [] \<and> ProvEn g = [] \<and>
            City g = [] \<and> CityEn g = [] \<and> District g = [] \<and> Owner g = [] \<and> Isp g = [] \<and> Domain g = [] \<and>
            Whois g = [] \<and> Lat g = 0 \<and> Lng g = 0 \<and> Prefix g = [] \<and> Router g = [] \<and> Source g = [] then None
          else geo)"

definition applyMTUPTRResult :: "string list \<Rightarrow> mtu_hop \<Rightarrow> mtu_hop" where
  "applyMTUPTRResult ptrs h =
     (case ptrs of [] \<Rightarrow> h | p # _ \<Rightarrow> h\<lparr>mhop_Hostname := TrimSuffix (TrimSpace p) ''.''\<rparr>)"

text \<open>\<open>None\<close> is the \<open>nil\<close> channel; otherwise the geo data that the channel will deliver.\<close>

definition startMTUGeoLookup :: "(string \<Rightarrow> ip) \<Rightarrow> mtu_world \<Rightarrow> mtu_config \<Rightarrow> string \<Rightarrow> geo_data option option" where
  "startMTUGeoLookup parse w cfg ipStr =
     (case mtu_IPGeoSource cfg of
        None \<Rightarrow> if mtu_RDNS cfg then None else Some None
      | Some src \<Rightarrow>
          Some (case Filter parse ipStr of
             Some g \<Rightarrow> normalizeMTUGeoData (Some g)
           | None \<Rightarrow>
               (case src (mw_geo_call w) ipStr (mtu_Timeout cfg) (mtu_Lang cfg) False of
                  Inl e \<Rightarrow> Some mtuTimeoutGeo
                | Inr g \<Rightarrow> normalizeMTUGeoData g)))"

definition apply_geo :: "geo_data option option \<Rightarrow> mtu_hop \<Rightarrow> mtu_hop" where
  "apply_geo ch h = (case ch of Some (Some g) \<Rightarrow> h\<lparr>mhop_Geo := Some g\<rparr> | _ \<Rightarrow> h)"

definition waitForMTUGeoAndPTR :: "mtu_world \<Rightarrow> mtu_config \<Rightarrow> mtu_hop \<Rightarrow> geo_data option option \<Rightarrow> bool \<Rightarrow> mtu_hop" where
  "waitForMTUGeoAndPTR w cfg h geoCh rDNSStarted =
     (let ptr = applyMTUPTRResult (mw_ptrs w); geo = (if mw_geo_in_time w then apply_geo geoCh else id) in
      if mtu_AlwaysWaitRDNS cfg then geo (if rDNSStarted \<and> mw_ptr_in_time w then ptr h else h)
      else if rDNSStarted then
        (if geoCh = None then (if mw_ptr_in_time w then ptr h else h)
         else case mw_first w of
           GeoFirst \<Rightarrow> apply_geo geoCh h
         | PTRFirst \<Rightarrow> geo (ptr h)
         | ContextFirst \<Rightarrow> h)
      else geo h)"

definition shouldFetchHopMetadata :: "mtu_config \<Rightarrow> mtu_hop \<Rightarrow> bool" where
  "shouldFetchHopMetadata cfg h =
     (if TrimSpace (mhop_IP h) = [] \<or> mhop_Event h = Some EventTimeout then False
      else mtu_IPGeoSource cfg \<noteq> None \<or> mtu_RDNS cfg)"

definition enrichHopMetadata :: "(string \<Rightarrow> ip) \<Rightarrow> mtu_world \<Rightarrow> mtu_config \<Rightarrow> mtu_hop \<Rightarrow> mtu_hop \<times> bool" where
  "enrichHopMetadata parse w cfg h =
     (if \<not> shouldFetchHopMetadata cfg h then (h, False)
      else if mw_ctx_ended w then (h, False)
      else
        let ipStr = TrimSpace (mhop_IP h);
            geoCh = startMTUGeoLookup parse w cfg ipStr;
            rDNSStarted = mtu_RDNS cfg \<and> mhop_Hostname h = [];
            updated = waitForMTUGeoAndPTR w cfg h geoCh rDNSStarted
        in (updated, updated \<noteq> h))"

subsection \<open>The runner\<close>

type_synonym mtu_prober = "nat \<Rightarrow> probePlan \<Rightarrow> probe_error + probeResponse"

text \<open>The state of a run: \<open>probeMTU\<close>, the result so far, the events so far and the number of probes
  sent, from which the token is counted up in 32 bits.\<close>

record mtu_run =
  probeMTU :: int
  mres :: mtu_result
  events :: "StreamEvent list"
  sent :: nat

text \<open>The variables of one TTL: the hop (with \<open>gotHop\<close>), \<open>ttlPMTU\<close> and \<open>ttlSawRemote\<close>.\<close>

record ttl_vars =
  v_hop :: "mtu_hop option"
  ttlPMTU :: int
  ttlSawRemote :: bool

definition emit :: "StreamEventKind \<Rightarrow> mtu_hop \<Rightarrow> mtu_run \<Rightarrow> mtu_run" where
  "emit kind hop r = r\<lparr>events := events r @ [emitStreamEvent kind (mres r) hop]\<rparr>"

definition set_path :: "int \<Rightarrow> mtu_run \<Rightarrow> mtu_run" where
  "set_path pm r = r\<lparr>mres := (mres r)\<lparr>mres_PathMTU := pm\<rparr>\<rparr>"

definition plan_for :: "mtu_config \<Rightarrow> int \<Rightarrow> mtu_run \<Rightarrow> probePlan" where
  "plan_for cfg ttl r =
     \<lparr>plan_TTL = ttl, plan_Token = word_of_nat (sent r + 1),
      plan_PayloadSize = payloadSizeForMTU (probeMTU r) (mres_IPVersion (mres r)), plan_Timeout = mtu_Timeout cfg\<rparr>"

text \<open>A local size error: the next size to try, or the end of the run.\<close>

definition on_local_error :: "mtu_config \<Rightarrow> int \<Rightarrow> int \<Rightarrow> ttl_vars \<Rightarrow> mtu_run \<Rightarrow> (ttl_vars \<times> mtu_run) option" where
  "on_local_error cfg ttl mtu v r =
     (let reportedMTU = (if mtu \<le> 0 then mres_PathMTU (mres r) else mtu) in
      case nextLocalProbeMTU (probeMTU r) reportedMTU (mres_IPVersion (mres r)) of
        (nextMTU, ok) \<Rightarrow>
          if \<not> ok then None
          else
            let v = (if ttl = mtu_BeginHop cfg \<and> probeMTU r > mres_StartMTU (mres r) \<and>
                        nextMTU = mres_StartMTU (mres r)
                     then v\<lparr>ttlPMTU := candidatePathMTU (ttlPMTU v) nextMTU\<rparr> else v)
            in Some (v, set_path (candidatePathMTU (mres_PathMTU (mres r)) nextMTU) (r\<lparr>probeMTU := nextMTU\<rparr>)))"

text \<open>A message that names a smaller MTU.\<close>

definition on_too_big :: "mtu_hop \<Rightarrow> ttl_vars \<Rightarrow> mtu_run \<Rightarrow> ttl_vars \<times> mtu_run" where
  "on_too_big hop v r =
     (let v = v\<lparr>ttlSawRemote := True, ttlPMTU := candidatePathMTU (ttlPMTU v) (mhop_PMTU hop)\<rparr>;
          r = set_path (candidatePathMTU (mres_PathMTU (mres r)) (mhop_PMTU hop))
                (r\<lparr>probeMTU := candidatePathMTU (probeMTU r) (mhop_PMTU hop)\<rparr>);
          hop = hop\<lparr>mhop_PMTU := ttlPMTU v\<rparr>
      in (v\<lparr>v_hop := Some hop\<rparr>, emit StreamEventTTLUpdate hop r))"

text \<open>An answer that ends the TTL.\<close>

definition on_answer :: "int \<Rightarrow> mtu_hop \<Rightarrow> ttl_vars \<Rightarrow> mtu_run \<Rightarrow> ttl_vars \<times> mtu_run" where
  "on_answer ttl hop v r =
     (let res = mres r;
          hop = (if ttlPMTU v > 0 then hop\<lparr>mhop_PMTU := ttlPMTU v\<rparr>
                 else if ttl = 1 \<and> mres_ProbeSize res > mres_StartMTU res \<and> mres_StartMTU res > 0 \<and>
                         mres_PathMTU res = mres_StartMTU res
                 then hop\<lparr>mhop_PMTU := mres_StartMTU res\<rparr> else hop)
      in (v\<lparr>v_hop := Some hop\<rparr>, emit StreamEventTTLUpdate hop r))"

lemma on_local_error_decreases:
  "on_local_error cfg ttl mtu v r = Some (v', r') \<Longrightarrow> 0 < probeMTU r' \<and> probeMTU r' < probeMTU r \<and> sent r' = sent r"
  by (auto simp: on_local_error_def set_path_def Let_def split: prod.splits if_splits dest!: nextLocal_decreases)

text \<open>The loop over the attempts of a TTL. A local size error does not count as an attempt, but it
  lowers the size, so the loop ends.\<close>

function ttl_loop :: "mtu_prober \<Rightarrow> mtu_config \<Rightarrow> int \<Rightarrow> int \<Rightarrow> ttl_vars \<Rightarrow> mtu_run \<Rightarrow> probe_error + ttl_vars \<times> mtu_run" where
  "ttl_loop probe cfg ttl attempt v r =
     (if \<not> attempt < mtu_Queries cfg then Inr (v, r)
      else
        let reply = probe (sent r) (plan_for cfg ttl r); r1 = r\<lparr>sent := sent r + 1\<rparr> in
        case reply of
          Inl (LocalMTU mtu) \<Rightarrow>
            (case on_local_error cfg ttl mtu v r1 of
               None \<Rightarrow> Inl (LocalMTU mtu)
             | Some (v', r') \<Rightarrow> ttl_loop probe cfg ttl attempt v' r')
        | Inl (ProbeFailed e) \<Rightarrow> Inl (ProbeFailed e)
        | Inr resp \<Rightarrow>
            if resp_Event resp = EventTimeout then ttl_loop probe cfg ttl (attempt + 1) v r1
            else
              let hop = buildHop ttl resp in
              if resp_Event resp = EventFragNeeded \<or> resp_Event resp = EventPacketTooBig
              then (case on_too_big hop v r1 of (v', r') \<Rightarrow> ttl_loop probe cfg ttl (attempt + 1) v' r')
              else Inr (on_answer ttl hop v r1))"
  by auto

termination
proof (relation "measures [\<lambda>(_, cfg, _, attempt, _, _). nat (mtu_Queries cfg - attempt),
    \<lambda>(_, _, _, _, _, r). nat (probeMTU r)]")
qed (auto dest!: on_local_error_decreases)

text \<open>What follows the loop of a TTL.\<close>

definition finish_ttl ::
    "(string \<Rightarrow> ip) \<Rightarrow> mtu_world \<Rightarrow> mtu_config \<Rightarrow> int \<Rightarrow> ttl_vars \<times> mtu_run \<Rightarrow> mtu_hop \<times> mtu_run" where
  "finish_ttl parse w cfg ttl = (\<lambda>(v, r).
     let hr = (case v_hop v of
           None \<Rightarrow> (let hop = (empty_mhop ttl)\<lparr>mhop_Event := Some EventTimeout\<rparr> in (hop, emit StreamEventTTLUpdate hop r))
         | Some hop \<Rightarrow>
             (if ttlSawRemote v \<and> mhop_PMTU hop = 0 then hop\<lparr>mhop_PMTU := ttlPMTU v\<rparr> else hop, r));
         enriched = enrichHopMetadata parse w cfg (fst hr);
         hr = (if snd enriched then (fst enriched, emit StreamEventTTLUpdate (fst enriched) (snd hr)) else hr);
         hop = fst hr; r = snd hr;
         r = r\<lparr>mres := (mres r)\<lparr>mres_Hops := mres_Hops (mres r) @ [hop]\<rparr>\<rparr>
     in (hop, emit StreamEventTTLFinal hop r))"

text \<open>The loop over the TTLs; \<open>world ttl\<close> is the world during the metadata lookup of a TTL and
  \<open>interrupted ttl\<close> tells that the context ended in the pause after it.\<close>

fun mtu_loop ::
    "mtu_prober \<Rightarrow> (string \<Rightarrow> ip) \<Rightarrow> (int \<Rightarrow> mtu_world) \<Rightarrow> (int \<Rightarrow> bool) \<Rightarrow> mtu_config \<Rightarrow> int list \<Rightarrow> mtu_run \<Rightarrow>
     probe_error + mtu_run" where
  "mtu_loop probe parse world interrupted cfg [] r = Inr r"
| "mtu_loop probe parse world interrupted cfg (ttl # ttls) r =
     (let r = emit StreamEventTTLStart (empty_mhop ttl) r in
      case ttl_loop probe cfg ttl 0 \<lparr>v_hop = None, ttlPMTU = 0, ttlSawRemote = False\<rparr> r of
        Inl e \<Rightarrow> Inl e
      | Inr vr \<Rightarrow>
          let hr = finish_ttl parse (world ttl) cfg ttl vr in
          if mhop_Event (fst hr) = Some EventDestination then Inr (snd hr)
          else if ttl < mtu_MaxHops cfg \<and> mtu_TTLInterval cfg > 0 \<and> interrupted ttl
          then Inl (ProbeFailed ''context ended'')
          else mtu_loop probe parse world interrupted cfg ttls (snd hr))"

definition initial_run :: "int \<Rightarrow> mtu_config \<Rightarrow> mtu_run" where
  "initial_run device_mtu cfg =
     (let startMTU = initialPathMTU device_mtu cfg; probe0 = initialProbeMTU (ipVersion cfg) in
      \<lparr>probeMTU = probe0,
       mres = \<lparr>mres_Target = mtu_Target cfg, mres_ResolvedIP = ip_string (mtu_DstIP cfg), mres_Protocol = ''udp'',
         mres_IPVersion = ipVersion cfg, mres_StartMTU = startMTU, mres_ProbeSize = probe0,
         mres_PathMTU = startMTU, mres_Hops = []\<rparr>,
       events = [], sent = 0\<rparr>)"

definition runStreamWithProber ::
    "mtu_prober \<Rightarrow> (string \<Rightarrow> ip) \<Rightarrow> (int \<Rightarrow> mtu_world) \<Rightarrow> (int \<Rightarrow> bool) \<Rightarrow> int \<Rightarrow> mtu_config \<Rightarrow>
     string fault + probe_error + mtu_run" where
  "runStreamWithProber probe parse world interrupted device_mtu cfg0 =
     (case normalizeConfig cfg0 of
        Inl e \<Rightarrow> Inl e
      | Inr cfg \<Rightarrow>
          (case mtu_loop probe parse world interrupted cfg [mtu_BeginHop cfg..mtu_MaxHops cfg]
                  (initial_run device_mtu cfg) of
             Inl e \<Rightarrow> Inr (Inl e)
           | Inr r \<Rightarrow>
               let r = set_path (candidatePathMTU (mres_StartMTU (mres r)) (mres_PathMTU (mres r))) r
               in Inr (Inr (emit StreamEventDone (empty_mhop 0) r))))"

end
