(* ===== verification/Mtu_Discovery_Props.thy ===== *)
theory Mtu_Discovery_Props
  imports Mtu_Discovery
begin

section \<open>What path-MTU discovery guarantees\<close>

text \<open>
  The stream of events refines a small protocol, the path MTU only shrinks, the number of probes is
  bounded although local size errors are not counted as attempts, and on a path whose routers
  report their MTUs the result is the smallest MTU of the path.
\<close>

declare ttl_loop.simps [simp del]

subsection \<open>Invariants of the loop over attempts\<close>

text \<open>An invariant of one TTL: what every kind of reply must preserve.\<close>

locale ttl_invariant =
  fixes cfg :: mtu_config and ttl :: int and J :: "ttl_vars \<Rightarrow> mtu_run \<Rightarrow> bool"
  assumes sending: "J v r \<Longrightarrow> J v (r\<lparr>sent := n\<rparr>)"
    and local_error: "J v r \<Longrightarrow> on_local_error cfg ttl mtu v r = Some (v', r') \<Longrightarrow> J v' r'"
    and too_big: "J v r \<Longrightarrow> on_too_big (buildHop ttl resp) v r = (v', r') \<Longrightarrow> J v' r'"
    and answer: "J v r \<Longrightarrow> on_answer ttl (buildHop ttl resp) v r = (v', r') \<Longrightarrow> J v' r'"
begin

lemma loop_keeps_aux:
  "ttl_loop probe c t attempt v r = Inr (v', r') \<Longrightarrow> c = cfg \<Longrightarrow> t = ttl \<Longrightarrow> J v r \<Longrightarrow> J v' r'"
proof (induction probe c t attempt v r arbitrary: v' r' rule: ttl_loop.induct)
  case (1 probe c t attempt v r)
  let ?r = "r\<lparr>sent := sent r + 1\<rparr>" and ?reply = "probe (sent r) (plan_for c t r)"
  note eq = "1.prems"(1) [unfolded ttl_loop.simps [of probe c t attempt v r] Let_def] and ct = "1.prems"(2,3)
  have J: "J v ?r" using "1.prems"(4) by (rule sending)
  show ?case
  proof (cases "attempt < mtu_Queries c")
    case False
    then show ?thesis using eq "1.prems"(4) by simp
  next
    case True
    then have q: "\<not> \<not> attempt < mtu_Queries c" by simp
    consider (local) mtu where "?reply = Inl (LocalMTU mtu)" | (failed) e where "?reply = Inl (ProbeFailed e)"
      | (resp) resp where "?reply = Inr resp"
      by (metis probe_error.exhaust sumE)
    then show ?thesis
    proof cases
      case local
      then obtain v1 r1 where o: "on_local_error c t mtu v ?r = Some (v1, r1)"
        using eq True by (auto split: option.splits)
      have "J v1 r1" using local_error [OF J] o ct by simp
      then show ?thesis using "1.IH"(1) [OF q refl refl local refl o refl] eq True local o ct by simp
    next
      case failed
      then show ?thesis using eq True by simp
    next
      case resp
      show ?thesis
      proof (cases "resp_Event resp = EventTimeout")
        case t: True
        then show ?thesis using "1.IH"(2) [OF q refl refl resp t] eq True resp ct J by simp
      next
        case t: False
        show ?thesis
        proof (cases "resp_Event resp = EventFragNeeded \<or> resp_Event resp = EventPacketTooBig")
          case b: True
          obtain v1 r1 where o: "on_too_big (buildHop t resp) v ?r = (v1, r1)" by fastforce
          have "J v1 r1" using too_big [OF J] o ct by simp
          then show ?thesis using "1.IH"(3) [OF q refl refl resp t refl b o [symmetric]] eq True resp t b o ct by simp
        next
          case b: False
          then show ?thesis using eq True resp t answer [OF J] ct by simp
        qed
      qed
    qed
  qed
qed

lemma loop_keeps: "ttl_loop probe cfg ttl attempt v r = Inr (v', r') \<Longrightarrow> J v r \<Longrightarrow> J v' r'"
  by (rule loop_keeps_aux) simp_all

end

lemma buildHop_fields [simp]:
  "mhop_TTL (buildHop ttl resp) = ttl" "mhop_Event (buildHop ttl resp) = Some (resp_Event resp)"
  "mhop_PMTU (buildHop ttl resp) = resp_PMTU resp"
  by (simp_all add: buildHop_def empty_mhop_def Let_def)

lemma ptr_frame:
  "mhop_TTL (applyMTUPTRResult ps h) = mhop_TTL h" "mhop_Event (applyMTUPTRResult ps h) = mhop_Event h"
  "mhop_PMTU (applyMTUPTRResult ps h) = mhop_PMTU h" "mhop_RTTMs (applyMTUPTRResult ps h) = mhop_RTTMs h"
  by (simp_all add: applyMTUPTRResult_def split: list.split)

lemma geo_frame:
  "mhop_TTL (apply_geo ch h) = mhop_TTL h" "mhop_Event (apply_geo ch h) = mhop_Event h"
  "mhop_PMTU (apply_geo ch h) = mhop_PMTU h" "mhop_RTTMs (apply_geo ch h) = mhop_RTTMs h"
  by (simp_all add: apply_geo_def split: option.split)

lemma wait_frame:
  "mhop_TTL (waitForMTUGeoAndPTR w cfg h ch b) = mhop_TTL h" "mhop_Event (waitForMTUGeoAndPTR w cfg h ch b) = mhop_Event h"
  "mhop_PMTU (waitForMTUGeoAndPTR w cfg h ch b) = mhop_PMTU h" "mhop_RTTMs (waitForMTUGeoAndPTR w cfg h ch b) = mhop_RTTMs h"
  by (simp_all add: waitForMTUGeoAndPTR_def Let_def ptr_frame geo_frame split: first_answer.split)

lemma enrich_frame:
  "mhop_TTL (fst (enrichHopMetadata parse w cfg h)) = mhop_TTL h"
  "mhop_Event (fst (enrichHopMetadata parse w cfg h)) = mhop_Event h"
  "mhop_PMTU (fst (enrichHopMetadata parse w cfg h)) = mhop_PMTU h"
  "mhop_RTTMs (fst (enrichHopMetadata parse w cfg h)) = mhop_RTTMs h"
  by (simp_all add: enrichHopMetadata_def Let_def wait_frame)

lemma candidate_bounds:
  "0 < c \<Longrightarrow> 0 < candidatePathMTU c d \<and> candidatePathMTU c d \<le> c"
  by (auto simp: candidatePathMTU_def)

lemma candidate_min: "0 < c \<Longrightarrow> 0 < d \<Longrightarrow> candidatePathMTU c d = min c d"
  by (auto simp: candidatePathMTU_def)

subsection \<open>The stream protocol\<close>

text \<open>The protocol a consumer of the stream may rely on: for every TTL in turn a start, any number of
  updates and one final event, and at the very end \<open>done\<close>.\<close>

datatype phase = Between int | Inside int | Over

fun protocol :: "phase \<Rightarrow> StreamEventKind \<times> int \<Rightarrow> phase option" where
  "protocol (Between t) (StreamEventTTLStart, u) = (if u = t then Some (Inside t) else None)"
| "protocol (Between t) (StreamEventDone, u) = (if u = 0 then Some Over else None)"
| "protocol (Inside t) (StreamEventTTLUpdate, u) = (if u = t then Some (Inside t) else None)"
| "protocol (Inside t) (StreamEventTTLFinal, u) = (if u = t then Some (Between (t + 1)) else None)"
| "protocol _ _ = None"

fun protocol_run :: "phase \<Rightarrow> (StreamEventKind \<times> int) list \<Rightarrow> phase option" where
  "protocol_run ph [] = Some ph"
| "protocol_run ph (e # es) = (case protocol ph e of None \<Rightarrow> None | Some ph' \<Rightarrow> protocol_run ph' es)"

lemma protocol_run_append:
  "protocol_run ph (es @ fs) = (case protocol_run ph es of None \<Rightarrow> None | Some ph' \<Rightarrow> protocol_run ph' fs)"
  by (induction es arbitrary: ph) (auto split: option.split)

definition observed :: "mtu_run \<Rightarrow> (StreamEventKind \<times> int) list" where
  "observed r = map (\<lambda>e. (ev_Kind e, ev_TTL e)) (events r)"

lemma observed_emit [simp]: "observed (emit kind hop r) = observed r @ [(kind, mhop_TTL hop)]"
  by (simp add: observed_def emit_def emitStreamEvent_def)

lemma observed_frame [simp]:
  "observed (r\<lparr>sent := n\<rparr>) = observed r" "observed (set_path pm r) = observed r"
  "observed (r\<lparr>probeMTU := m\<rparr>) = observed r" "observed (r\<lparr>mres := x\<rparr>) = observed r"
  by (simp_all add: observed_def set_path_def)

lemma emit_frame [simp]:
  "mres (emit kind hop r) = mres r" "probeMTU (emit kind hop r) = probeMTU r" "sent (emit kind hop r) = sent r"
  by (simp_all add: emit_def)

lemma set_path_frame [simp]:
  "mres_Hops (mres (set_path pm r)) = mres_Hops (mres r)" "probeMTU (set_path pm r) = probeMTU r"
  "sent (set_path pm r) = sent r" "mres_PathMTU (mres (set_path pm r)) = pm"
  "mres_StartMTU (mres (set_path pm r)) = mres_StartMTU (mres r)"
  "mres_IPVersion (mres (set_path pm r)) = mres_IPVersion (mres r)"
  "mres_ProbeSize (mres (set_path pm r)) = mres_ProbeSize (mres r)" "events (set_path pm r) = events r"
  by (simp_all add: set_path_def)

text \<open>During a TTL: the stream is inside the TTL, and the list of hops has not changed.\<close>

definition stream_inv :: "phase \<Rightarrow> mtu_hop list \<Rightarrow> int \<Rightarrow> ttl_vars \<Rightarrow> mtu_run \<Rightarrow> bool" where
  "stream_inv ph hs ttl v r \<longleftrightarrow> protocol_run ph (observed r) = Some (Inside ttl) \<and> mres_Hops (mres r) = hs \<and>
     (\<forall>h. v_hop v = Some h \<longrightarrow> mhop_TTL h = ttl)"

interpretation stream_ttl: ttl_invariant cfg ttl "stream_inv ph hs ttl" for cfg ttl ph hs
proof unfold_locales
  fix v v' :: ttl_vars and r r' :: mtu_run and n :: nat and mtu :: int and resp :: probeResponse
  assume J: "stream_inv ph hs ttl v r"
  show "stream_inv ph hs ttl v (r\<lparr>sent := n\<rparr>)" using J by (simp add: stream_inv_def)
  show "on_local_error cfg ttl mtu v r = Some (v', r') \<Longrightarrow> stream_inv ph hs ttl v' r'"
    using J by (auto simp: stream_inv_def on_local_error_def Let_def split: prod.splits if_splits)
  show "on_too_big (buildHop ttl resp) v r = (v', r') \<Longrightarrow> stream_inv ph hs ttl v' r'"
    using J by (auto simp: stream_inv_def on_too_big_def Let_def protocol_run_append)
  show "on_answer ttl (buildHop ttl resp) v r = (v', r') \<Longrightarrow> stream_inv ph hs ttl v' r'"
    using J by (auto simp: stream_inv_def on_answer_def Let_def protocol_run_append)
qed

lemma finish_stream:
  assumes "stream_inv ph hs ttl v r" "finish_ttl parse w cfg ttl (v, r) = (h, r')"
  shows "protocol_run ph (observed r') = Some (Between (ttl + 1))" "mres_Hops (mres r') = hs @ [h]" "mhop_TTL h = ttl"
proof -
  define inside where "inside = (\<lambda>hr :: mtu_hop \<times> mtu_run. protocol_run ph (observed (snd hr)) = Some (Inside ttl) \<and>
    mres_Hops (mres (snd hr)) = hs \<and> mhop_TTL (fst hr) = ttl)"
  define hr where "hr = (case v_hop v of
           None \<Rightarrow> (let hop = (empty_mhop ttl)\<lparr>mhop_Event := Some EventTimeout\<rparr> in (hop, emit StreamEventTTLUpdate hop r))
         | Some hop \<Rightarrow>
             (if ttlSawRemote v \<and> mhop_PMTU hop = 0 then hop\<lparr>mhop_PMTU := ttlPMTU v\<rparr> else hop, r))"
  have hr: "inside hr"
    using assms(1)
    by (auto simp: hr_def Let_def inside_def stream_inv_def protocol_run_append empty_mhop_def split: option.split)
  define e where "e = enrichHopMetadata parse w cfg (fst hr)"
  define hr' where "hr' = (if snd e then (fst e, emit StreamEventTTLUpdate (fst e) (snd hr)) else hr)"
  have "mhop_TTL (fst e) = mhop_TTL (fst hr)" by (simp add: e_def enrich_frame)
  then have hr': "inside hr'"
    using hr by (simp add: hr'_def inside_def protocol_run_append)
  note f = assms(2) [unfolded finish_ttl_def prod.case hr_def [symmetric], unfolded Let_def,
      folded e_def, folded hr'_def]
  show "protocol_run ph (observed r') = Some (Between (ttl + 1))" "mres_Hops (mres r') = hs @ [h]" "mhop_TTL h = ttl"
    using hr' f by (auto simp: inside_def protocol_run_append)
qed


subsection \<open>The path MTU only shrinks\<close>

definition path_inv :: "int \<Rightarrow> nat \<Rightarrow> ttl_vars \<Rightarrow> mtu_run \<Rightarrow> bool" where
  "path_inv start ver v r \<longleftrightarrow> 0 < probeMTU r \<and> 0 < mres_PathMTU (mres r) \<and> mres_StartMTU (mres r) = start \<and>
     mres_PathMTU (mres r) \<le> start \<and> mres_IPVersion (mres r) = ver \<and>
     sorted_wrt (\<ge>) (map ev_PathMTU (events r) @ [mres_PathMTU (mres r)])"

lemma sorted_ge_lower:
  "sorted_wrt (\<ge>) (xs @ [a]) \<Longrightarrow> b \<le> a \<Longrightarrow> sorted_wrt (\<ge>) (xs @ [b :: int])"
  by (auto simp: sorted_wrt_append)

lemma sorted_ge_again:
  "sorted_wrt (\<ge>) (xs @ [a]) \<Longrightarrow> sorted_wrt (\<ge>) ((xs @ [a]) @ [a :: int])"
  by (auto simp: sorted_wrt_append)

lemma path_inv_lower:
  assumes "path_inv start ver v r" "0 < m"
  shows "path_inv start ver v' (set_path (candidatePathMTU (mres_PathMTU (mres r)) d) (r\<lparr>probeMTU := m\<rparr>))"
  using assms candidate_bounds [of "mres_PathMTU (mres r)" d]
  by (auto simp: path_inv_def intro: sorted_ge_lower)

lemma path_inv_emit: "path_inv start ver v r \<Longrightarrow> path_inv start ver v' (emit kind hop r)"
  using sorted_ge_again [of "map ev_PathMTU (events r)" "mres_PathMTU (mres r)"]
  by (simp add: path_inv_def) (simp add: emit_def emitStreamEvent_def)

interpretation path_ttl: ttl_invariant cfg ttl "path_inv start ver" for cfg ttl start ver
proof unfold_locales
  fix v v' :: ttl_vars and r r' :: mtu_run and n :: nat and mtu :: int and resp :: probeResponse
  assume J: "path_inv start ver v r"
  show "path_inv start ver v (r\<lparr>sent := n\<rparr>)" using J by (simp add: path_inv_def)
  show "path_inv start ver v' r'" if o: "on_local_error cfg ttl mtu v r = Some (v', r')"
  proof -
    have "0 < probeMTU r'" using on_local_error_decreases [OF o] by simp
    moreover obtain m d where "r' = set_path (candidatePathMTU (mres_PathMTU (mres r)) d) (r\<lparr>probeMTU := m\<rparr>)"
      using o by (auto simp: on_local_error_def Let_def split: prod.splits if_splits)
    ultimately show ?thesis using path_inv_lower [OF J, of m] by simp
  qed
  show "path_inv start ver v' r'" if o: "on_too_big (buildHop ttl resp) v r = (v', r')"
  proof -
    have "0 < probeMTU r" using J by (simp add: path_inv_def)
    then have "0 < candidatePathMTU (probeMTU r) (resp_PMTU resp)" using candidate_bounds by blast
    from path_inv_emit [OF path_inv_lower [OF J this]] show ?thesis using o by (auto simp: on_too_big_def Let_def)
  qed
  show "on_answer ttl (buildHop ttl resp) v r = (v', r') \<Longrightarrow> path_inv start ver v' r'"
    using path_inv_emit [OF J] by (auto simp: on_answer_def Let_def)
qed

lemma finish_path:
  assumes "path_inv start ver v r" "finish_ttl parse w cfg ttl (v, r) = (h, r')"
  shows "path_inv start ver v' r'" "probeMTU r' = probeMTU r" "sent r' = sent r"
    "mres_PathMTU (mres r') = mres_PathMTU (mres r)"
proof -
  let ?add = "\<lambda>x. x\<lparr>mres := (mres x)\<lparr>mres_Hops := mres_Hops (mres x) @ [h]\<rparr>\<rparr>"
  have add: "path_inv start ver u x \<Longrightarrow> path_inv start ver u' (?add x)" for u u' x by (simp add: path_inv_def)
  have "r' = emit StreamEventTTLFinal h (?add r) \<or> (\<exists>h1. r' = emit StreamEventTTLFinal h (?add (emit StreamEventTTLUpdate h1 r))) \<or>
      (\<exists>h1 h2. r' = emit StreamEventTTLFinal h (?add (emit StreamEventTTLUpdate h1 (emit StreamEventTTLUpdate h2 r))))"
    using assms(2) by (auto simp: finish_ttl_def Let_def split: option.splits if_splits)
  note d = this
  have e: "path_inv start ver v (emit kind hop x)" if "path_inv start ver v x" for kind hop x
    using that by (rule path_inv_emit)
  have "path_inv start ver v r'"
    using d by (elim disjE exE; simp only:) (intro e add [of v] assms(1))+
  then show "path_inv start ver v' r'" by (simp add: path_inv_def)
  show "probeMTU r' = probeMTU r" "sent r' = sent r" "mres_PathMTU (mres r') = mres_PathMTU (mres r)"
    using d by auto
qed

subsection \<open>The number of probes\<close>

lemma ttl_loop_probes:
  "ttl_loop probe cfg ttl attempt v r = Inr (v', r') \<Longrightarrow> 0 < probeMTU r \<Longrightarrow>
   0 < probeMTU r' \<and> int (sent r') + probeMTU r' \<le> int (sent r) + probeMTU r + max 0 (mtu_Queries cfg - attempt)"
proof (induction probe cfg ttl attempt v r arbitrary: v' r' rule: ttl_loop.induct)
  case (1 probe c t attempt v r)
  let ?r = "r\<lparr>sent := sent r + 1\<rparr>" and ?reply = "probe (sent r) (plan_for c t r)"
  note eq = "1.prems"(1) [unfolded ttl_loop.simps [of probe c t attempt v r] Let_def] and pos = "1.prems"(2)
  show ?case
  proof (cases "attempt < mtu_Queries c")
    case False
    then show ?thesis using eq pos by simp
  next
    case True
    then have q: "\<not> \<not> attempt < mtu_Queries c" by simp
    consider (local) mtu where "?reply = Inl (LocalMTU mtu)" | (failed) e where "?reply = Inl (ProbeFailed e)"
      | (resp) resp where "?reply = Inr resp"
      by (metis probe_error.exhaust sumE)
    then show ?thesis
    proof cases
      case local
      then obtain v1 r1 where o: "on_local_error c t mtu v ?r = Some (v1, r1)"
        using eq True by (auto split: option.splits)
      then show ?thesis
        using "1.IH"(1) [OF q refl refl local refl o refl] eq True local on_local_error_decreases [OF o] by simp
    next
      case failed
      then show ?thesis using eq True by simp
    next
      case resp
      show ?thesis
      proof (cases "resp_Event resp = EventTimeout")
        case t: True
        then show ?thesis using "1.IH"(2) [OF q refl refl resp t] eq True resp pos by simp
      next
        case t: False
        show ?thesis
        proof (cases "resp_Event resp = EventFragNeeded \<or> resp_Event resp = EventPacketTooBig")
          case b: True
          obtain v1 r1 where o: "on_too_big (buildHop t resp) v ?r = (v1, r1)" by fastforce
          then have "probeMTU r1 = candidatePathMTU (probeMTU r) (resp_PMTU resp)" "sent r1 = sent r + 1"
            by (auto simp: on_too_big_def Let_def)
          then show ?thesis
            using "1.IH"(3) [OF q refl refl resp t refl b o [symmetric]] eq True resp t b o
              candidate_bounds [OF pos, of "resp_PMTU resp"] by simp
        next
          case b: False
          then show ?thesis using eq True resp t pos by (auto simp: on_answer_def Let_def)
        qed
      qed
    qed
  qed
qed


subsection \<open>Runs\<close>

lemma mtu_loop_stream:
  assumes "mtu_loop probe parse world interrupted cfg ttls r = Inr r'"
    "protocol_run ph (observed r) = Some (Between a)" "ttls = [a..b]" "map mhop_TTL (mres_Hops (mres r)) = [s..a - 1]" "s \<le> a"
  shows "\<exists>c. protocol_run ph (observed r') = Some (Between c) \<and> map mhop_TTL (mres_Hops (mres r')) = [s..c - 1] \<and> a \<le> c"
  using assms
proof (induction ttls arbitrary: r a)
  case (Cons t ts)
  have "a \<le> b" using Cons.prems(3) by (cases "a \<le> b") simp_all
  then have t: "t = a" "ts = [a + 1..b]" using Cons.prems(3) upto_rec1 [of a b] by simp_all
  let ?r = "emit StreamEventTTLStart (empty_mhop t) r" and ?v = "\<lparr>v_hop = None, ttlPMTU = 0, ttlSawRemote = False\<rparr>"
  obtain v1 r1 where l: "ttl_loop probe cfg t 0 ?v ?r = Inr (v1, r1)"
    using Cons.prems(1) by (auto split: sum.splits)
  obtain h r2 where f: "finish_ttl parse (world t) cfg t (v1, r1) = (h, r2)" by fastforce
  have "stream_inv ph (mres_Hops (mres r)) t ?v ?r"
    using Cons.prems(2) t by (simp add: stream_inv_def protocol_run_append empty_mhop_def)
  from finish_stream [OF stream_ttl.loop_keeps [OF l this] f]
  have r2: "protocol_run ph (observed r2) = Some (Between (a + 1))" "map mhop_TTL (mres_Hops (mres r2)) = [s..a]"
    using Cons.prems(4,5) t by (simp_all add: upto_rec2 [of s a])
  show ?case
  proof (cases "mhop_Event h = Some EventDestination")
    case True
    then have "r' = r2" using Cons.prems(1) l f by (simp add: Let_def)
    then show ?thesis using r2 by (intro exI [of _ "a + 1"]) simp
  next
    case False
    then have "mtu_loop probe parse world interrupted cfg ts r2 = Inr r'"
      using Cons.prems(1) l f by (simp add: Let_def split: if_splits)
    from Cons.IH [OF this r2(1) t(2)] show ?thesis using r2(2) Cons.prems(5) by fastforce
  qed
qed (fastforce)

lemma mtu_loop_path:
  assumes "mtu_loop probe parse world interrupted cfg ttls r = Inr r'" "path_inv start ver v r"
  shows "path_inv start ver v r' \<and> int (sent r') + probeMTU r' \<le> int (sent r) + probeMTU r + int (length ttls) * max 0 (mtu_Queries cfg)"
  using assms
proof (induction ttls arbitrary: r)
  case (Cons t ts)
  let ?r = "emit StreamEventTTLStart (empty_mhop t) r" and ?v = "\<lparr>v_hop = None, ttlPMTU = 0, ttlSawRemote = False\<rparr>"
  obtain v1 r1 where l: "ttl_loop probe cfg t 0 ?v ?r = Inr (v1, r1)"
    using Cons.prems(1) by (auto split: sum.splits)
  obtain h r2 where f: "finish_ttl parse (world t) cfg t (v1, r1) = (h, r2)" by fastforce
  have "path_inv start ver ?v ?r" using Cons.prems(2) by (rule path_inv_emit)
  note p = finish_path [OF path_ttl.loop_keeps [OF l this] f]
  have "0 < probeMTU ?r" using Cons.prems(2) by (simp add: path_inv_def)
  from ttl_loop_probes [OF l this]
  have c: "int (sent r2) + probeMTU r2 \<le> int (sent r) + probeMTU r + max 0 (mtu_Queries cfg)"
    using p(2,3) by simp
  show ?case
  proof (cases "mhop_Event h = Some EventDestination")
    case True
    then have r': "r' = r2" using Cons.prems(1) l f by (simp add: Let_def)
    have "0 \<le> int (length ts) * max 0 (mtu_Queries cfg)" by simp
    moreover have "int (length (t # ts)) * max 0 (mtu_Queries cfg) =
        max 0 (mtu_Queries cfg) + int (length ts) * max 0 (mtu_Queries cfg)" by (simp add: distrib_right)
    ultimately have "int (sent r2) + probeMTU r2 \<le>
        int (sent r) + probeMTU r + int (length (t # ts)) * max 0 (mtu_Queries cfg)" using c by linarith
    then show ?thesis using p(1) r' by simp
  next
    case False
    then have "mtu_loop probe parse world interrupted cfg ts r2 = Inr r'"
      using Cons.prems(1) l f by (simp add: Let_def split: if_splits)
    from Cons.IH [OF this p(1)] show ?thesis using c by (simp add: distrib_right)
  qed
qed simp

lemma if_Inl_eq_Inr: "(if b then Inl e else x) = Inr y \<longleftrightarrow> \<not> b \<and> x = Inr y"
  by simp

lemma config_if_update:
  "(if b then a\<lparr>mtu_Target := v\<rparr> else a) = a\<lparr>mtu_Target := if b then v else mtu_Target a\<rparr>"
  "(if b then a\<lparr>mtu_BeginHop := i\<rparr> else a) = a\<lparr>mtu_BeginHop := if b then i else mtu_BeginHop a\<rparr>"
  "(if b then a\<lparr>mtu_Queries := i\<rparr> else a) = a\<lparr>mtu_Queries := if b then i else mtu_Queries a\<rparr>"
  "(if b then a\<lparr>mtu_Timeout := i\<rparr> else a) = a\<lparr>mtu_Timeout := if b then i else mtu_Timeout a\<rparr>"
  "(if b then a\<lparr>mtu_DstPort := i\<rparr> else a) = a\<lparr>mtu_DstPort := if b then i else mtu_DstPort a\<rparr>"
  for a :: mtu_config
  by simp_all

lemma normalize_ok:
  assumes "normalizeConfig cfg0 = Inr cfg"
  shows "1 \<le> mtu_BeginHop cfg" "mtu_BeginHop cfg \<le> mtu_MaxHops cfg" "1 \<le> mtu_Queries cfg"
    "ipVersion cfg = 4 \<or> ipVersion cfg = 6" "0 < mtu_Timeout cfg"
proof -
  have v: "ipVersion (c\<lparr>mtu_Target := x\<rparr>) = ipVersion c" "ipVersion (c\<lparr>mtu_BeginHop := i\<rparr>) = ipVersion c"
    "ipVersion (c\<lparr>mtu_Queries := i\<rparr>) = ipVersion c" "ipVersion (c\<lparr>mtu_Timeout := i\<rparr>) = ipVersion c"
    "ipVersion (c\<lparr>mtu_DstPort := i\<rparr>) = ipVersion c" for c x i by (simp_all add: ipVersion_def)
  have c: "ipVersion cfg = ipVersion cfg0 \<and> ipVersion cfg0 \<noteq> 0 \<and> 1 \<le> mtu_BeginHop cfg \<and> 1 \<le> mtu_Queries cfg
    \<and> mtu_BeginHop cfg \<le> mtu_MaxHops cfg \<and> 0 < mtu_Timeout cfg"
    using assms by (simp add: normalizeConfig_def Let_def config_if_update if_Inl_eq_Inr v) (elim conjE, hypsubst, simp add: v)
  then show "1 \<le> mtu_BeginHop cfg" "mtu_BeginHop cfg \<le> mtu_MaxHops cfg" "1 \<le> mtu_Queries cfg" "0 < mtu_Timeout cfg"
    by simp_all
  show "ipVersion cfg = 4 \<or> ipVersion cfg = 6" using c by (auto simp: ipVersion_def split: if_splits)
qed

lemma initial_path_inv: "path_inv (initialPathMTU d cfg) (ipVersion cfg) v (initial_run d cfg)"
  by (simp add: path_inv_def initial_run_def initialPathMTU_def initialProbeMTU_def Let_def)

text \<open>C20. The stream of a successful run refines the protocol: start, updates and final event for each TTL
  in turn, then \<open>done\<close>; the hops of the result are those TTLs in order, and the path MTU that the
  events report never grows and never exceeds the MTU of the local interface.\<close>

theorem stream_refines_protocol:
  assumes "runStreamWithProber probe parse world interrupted device_mtu cfg0 = Inr (Inr r)"
    "normalizeConfig cfg0 = Inr cfg"
  shows "protocol_run (Between (mtu_BeginHop cfg)) (observed r) = Some Over \<and>
    (\<exists>last. map mhop_TTL (mres_Hops (mres r)) = [mtu_BeginHop cfg..last]) \<and>
    sorted_wrt (\<ge>) (map ev_PathMTU (events r)) \<and>
    0 < mres_PathMTU (mres r) \<and> mres_PathMTU (mres r) \<le> initialPathMTU device_mtu cfg"
proof -
  let ?b = "mtu_BeginHop cfg" and ?r0 = "initial_run device_mtu cfg" and ?s = "initialPathMTU device_mtu cfg"
  obtain r1 where l: "mtu_loop probe parse world interrupted cfg [?b..mtu_MaxHops cfg] ?r0 = Inr r1"
    and r: "r = emit StreamEventDone (empty_mhop 0)
      (set_path (candidatePathMTU (mres_StartMTU (mres r1)) (mres_PathMTU (mres r1))) r1)"
    using assms by (auto simp: runStreamWithProber_def Let_def split: sum.splits)
  have "protocol_run (Between ?b) (observed ?r0) = Some (Between ?b)" "map mhop_TTL (mres_Hops (mres ?r0)) = [?b..?b - 1]"
    by (simp_all add: initial_run_def observed_def Let_def)
  from mtu_loop_stream [OF l this(1) refl this(2)] obtain c
    where c: "protocol_run (Between ?b) (observed r1) = Some (Between c)" "map mhop_TTL (mres_Hops (mres r1)) = [?b..c - 1]"
    by auto
  have p: "path_inv ?s (ipVersion cfg) v r1" for v using mtu_loop_path [OF l initial_path_inv] by blast
  then have "candidatePathMTU (mres_StartMTU (mres r1)) (mres_PathMTU (mres r1)) = mres_PathMTU (mres r1)"
    by (auto simp: path_inv_def candidatePathMTU_def)
  then have e: "r = emit StreamEventDone (empty_mhop 0) (set_path (mres_PathMTU (mres r1)) r1)" by (simp add: r)
  have "sorted_wrt (\<ge>) (map ev_PathMTU (events r))"
    using p [of undefined] by (simp add: e emit_def emitStreamEvent_def path_inv_def)
  then show ?thesis using c p [of undefined] by (auto simp: e path_inv_def protocol_run_append empty_mhop_def)
qed

text \<open>C21. Discovery ends: although a datagram too large for the local interface does not count as one of
  the attempts, a run sends at most \<open>Queries\<close> probes per TTL and 65000 more.\<close>

theorem probes_bounded:
  assumes "runStreamWithProber probe parse world interrupted device_mtu cfg0 = Inr (Inr r)"
    "normalizeConfig cfg0 = Inr cfg"
  shows "int (sent r) < (mtu_MaxHops cfg - mtu_BeginHop cfg + 1) * mtu_Queries cfg + 65000"
proof -
  let ?r0 = "initial_run device_mtu cfg"
  obtain r1 where l: "mtu_loop probe parse world interrupted cfg [mtu_BeginHop cfg..mtu_MaxHops cfg] ?r0 = Inr r1"
    and r: "sent r = sent r1"
    using assms by (auto simp: runStreamWithProber_def Let_def split: sum.splits)
  have "path_inv (initialPathMTU device_mtu cfg) (ipVersion cfg) undefined r1"
    "int (sent r1) + probeMTU r1 \<le> 65000 + int (length [mtu_BeginHop cfg..mtu_MaxHops cfg]) * max 0 (mtu_Queries cfg)"
    using mtu_loop_path [OF l initial_path_inv [of _ _ undefined]]
    by (simp_all add: initial_run_def initialProbeMTU_def Let_def)
  then show ?thesis using normalize_ok [OF assms(2)] by (simp add: r path_inv_def)
qed


subsection \<open>A path that reports its MTUs\<close>

text \<open>An idealised environment, not part of the program: a path on which every answer arrives. It has the links \<open>links\<close>, the first of which leaves the local host. A datagram that does not
  fit into a link on its way is refused by the host that should send it on: locally with the interface's
  MTU, elsewhere with an ICMP message that names the link's MTU. Otherwise the router where the TTL
  ends answers, or the destination.\<close>

definition overhead :: "nat \<Rightarrow> int" where
  "overhead ver = (if ver = 6 then 48 else 28)"

definition reporting_path :: "int list \<Rightarrow> (int \<Rightarrow> ip) \<Rightarrow> nat \<Rightarrow> mtu_prober" where
  "reporting_path links router ver n plan =
     (let size = plan_PayloadSize plan + overhead ver; hops = min (nat (plan_TTL plan)) (length links) in
      if size > links ! 0 then Inl (LocalMTU (links ! 0))
      else case find (\<lambda>k. size > links ! k) [0..<hops] of
        Some k \<Rightarrow> Inr \<lparr>resp_Event = (if ver = 6 then EventPacketTooBig else EventFragNeeded),
                   resp_IP = router (int k), resp_RTT = 1, resp_PMTU = links ! k\<rparr>
      | None \<Rightarrow> Inr \<lparr>resp_Event = (if plan_TTL plan < int (length links) then EventTimeExceeded else EventDestination),
                 resp_IP = router (plan_TTL plan), resp_RTT = 1, resp_PMTU = 0\<rparr>)"

definition path_ok :: "int list \<Rightarrow> nat \<Rightarrow> bool" where
  "path_ok links ver \<longleftrightarrow> links \<noteq> [] \<and> list_all (\<lambda>m. minProbeMTU ver \<le> m \<and> m \<le> 65000) links"

lemma size_of_plan:
  "minProbeMTU ver \<le> m \<Longrightarrow> payloadSizeForMTU m ver + overhead ver = m"
  by (auto simp: payloadSizeForMTU_def minProbeMTU_def overhead_def probePayloadMinLen_def Let_def split: if_splits)

lemma find_first:
  "find P [0..<n] = Some k \<longleftrightarrow> k < n \<and> P k \<and> (\<forall>j<k. \<not> P j)"
  by (auto simp: find_Some_iff)

lemma plan_fields [simp]:
  "plan_TTL (plan_for cfg ttl r) = ttl"
  "plan_PayloadSize (plan_for cfg ttl r) = payloadSizeForMTU (probeMTU r) (mres_IPVersion (mres r))"
  by (simp_all add: plan_for_def)

text \<open>A datagram that fits everywhere gets the final answer.\<close>

lemma fits_answers:
  assumes "mres_IPVersion (mres r) = ver" "minProbeMTU ver \<le> probeMTU r" "probeMTU r \<le> links ! 0"
    "\<forall>k < min (nat ttl) (length links). probeMTU r \<le> links ! k" "attempt < mtu_Queries cfg"
  shows "\<exists>resp. resp_Event resp = (if ttl < int (length links) then EventTimeExceeded else EventDestination) \<and>
    ttl_loop (reporting_path links router ver) cfg ttl attempt v r = Inr (on_answer ttl (buildHop ttl resp) v (r\<lparr>sent := sent r + 1\<rparr>))"
proof -
  let ?resp = "\<lparr>resp_Event = (if ttl < int (length links) then EventTimeExceeded else EventDestination),
                 resp_IP = router ttl, resp_RTT = 1, resp_PMTU = 0\<rparr>"
  have "find (\<lambda>k. probeMTU r > links ! k) [0..<min (nat ttl) (length links)] = None"
    using assms(4) by (auto simp: find_None_iff not_less) (meson not_le)
  then have "reporting_path links router ver (sent r) (plan_for cfg ttl r) = Inr ?resp"
    using assms(1-3) by (simp add: reporting_path_def size_of_plan Let_def)
  then show ?thesis using assms(5)
    by (intro exI [of _ ?resp]) (subst ttl_loop.simps, simp add: Let_def)
qed

text \<open>The smallest MTU of the first links.\<close>

definition narrowest :: "int list \<Rightarrow> nat \<Rightarrow> int" where
  "narrowest links n = Min (set (take n links))"

lemma narrowest_Suc: "0 < n \<Longrightarrow> n < length links \<Longrightarrow> narrowest links (Suc n) = min (narrowest links n) (links ! n)"
  by (cases "take n links = []") (simp_all add: narrowest_def take_Suc_conv_app_nth min.commute)

lemma narrowest_le: "k < n \<Longrightarrow> k < length links \<Longrightarrow> narrowest links n \<le> links ! k"
  unfolding narrowest_def by (rule Min_le) (auto simp: in_set_conv_nth intro!: exI [of _ k])

lemma narrowest_ge:
  assumes "path_ok links ver" "0 < n"
  shows "minProbeMTU ver \<le> narrowest links n" "narrowest links n \<le> 65000" "0 < narrowest links n"
proof -
  have "set (take n links) \<noteq> {}" using assms by (auto simp: path_ok_def)
  then have "narrowest links n \<in> set (take n links)" unfolding narrowest_def by (intro Min_in) simp_all
  then have "narrowest links n \<in> set links" by (rule in_set_takeD)
  then show "minProbeMTU ver \<le> narrowest links n" "narrowest links n \<le> 65000" using assms(1) by (auto simp: path_ok_def list_all_iff)
  then show "0 < narrowest links n" by (simp add: minProbeMTU_def probePayloadMinLen_def split: if_splits)
qed


lemma answer_fields:
  assumes "on_answer ttl hop v r = (v', r')"
  shows "mres r' = mres r" "probeMTU r' = probeMTU r" "\<exists>h. v_hop v' = Some h \<and> mhop_Event h = mhop_Event hop"
  using assms by (auto simp: on_answer_def Let_def)

text \<open>What the runner knows before it turns to TTL \<open>t\<close>, counted from 1.\<close>

definition known_before :: "int list \<Rightarrow> nat \<Rightarrow> nat \<Rightarrow> mtu_run \<Rightarrow> bool" where
  "known_before links ver t r \<longleftrightarrow> mres_IPVersion (mres r) = ver \<and> mres_StartMTU (mres r) = links ! 0 \<and>
     probeMTU r = (if t = 1 then 65000 else narrowest links (t - 1)) \<and>
     mres_PathMTU (mres r) = narrowest links (max 1 (t - 1)) \<and> length (mres_Hops (mres r)) = t - 1"

text \<open>What a TTL finds out: the narrowest link up to it.\<close>

definition learned :: "int list \<Rightarrow> nat \<Rightarrow> mtu_run \<Rightarrow> ttl_vars \<Rightarrow> mtu_run \<Rightarrow> bool" where
  "learned links t r v' r' \<longleftrightarrow> probeMTU r' = narrowest links t \<and> mres_PathMTU (mres r') = narrowest links t \<and>
     mres_IPVersion (mres r') = mres_IPVersion (mres r) \<and> mres_StartMTU (mres r') = mres_StartMTU (mres r) \<and>
     mres_Hops (mres r') = mres_Hops (mres r) \<and>
     (\<exists>h. v_hop v' = Some h \<and> mhop_Event h = Some (if int t < int (length links) then EventTimeExceeded else EventDestination))"

lemma learned_answer:
  assumes "probeMTU r1 = narrowest links t" "mres_PathMTU (mres r1) = narrowest links t"
    "mres_IPVersion (mres r1) = mres_IPVersion (mres r)" "mres_StartMTU (mres r1) = mres_StartMTU (mres r)"
    "mres_Hops (mres r1) = mres_Hops (mres r)" "mres_IPVersion (mres r1) = ver" "path_ok links ver"
    "0 < t" "t \<le> length links" "attempt < mtu_Queries cfg"
  shows "\<exists>v' r'. ttl_loop (reporting_path links router ver) cfg (int t) attempt v r1 = Inr (v', r') \<and> learned links t r v' r'"
proof -
  have fits: "\<forall>k < min (nat (int t)) (length links). probeMTU r1 \<le> links ! k" using narrowest_le [of _ t links] assms(1) by auto
  have "minProbeMTU ver \<le> probeMTU r1" "probeMTU r1 \<le> links ! 0"
    using narrowest_ge [OF assms(7,8)] fits assms(1,8,9) by auto
  from fits_answers [OF assms(6) this fits assms(10), of router v]
  obtain resp where e: "resp_Event resp = (if int t < int (length links) then EventTimeExceeded else EventDestination)"
    and l: "ttl_loop (reporting_path links router ver) cfg (int t) attempt v r1 =
      Inr (on_answer (int t) (buildHop (int t) resp) v (r1\<lparr>sent := sent r1 + 1\<rparr>))" by blast
  obtain v' r' where a: "on_answer (int t) (buildHop (int t) resp) v (r1\<lparr>sent := sent r1 + 1\<rparr>) = (v', r')" by fastforce
  from answer_fields [OF a] show ?thesis
    using l a e assms by (auto simp: learned_def)
qed

lemma ttl_learns:
  assumes "path_ok links ver" "known_before links ver t r" "0 < t" "t \<le> length links" "2 \<le> mtu_Queries cfg"
  shows "\<exists>v' r'. ttl_loop (reporting_path links router ver) cfg (int t) 0 v r = Inr (v', r') \<and> learned links t r v' r'"
proof -
  let ?p = "reporting_path links router ver"
  have k: "mres_IPVersion (mres r) = ver" "mres_StartMTU (mres r) = links ! 0"
    "probeMTU r = (if t = 1 then 65000 else narrowest links (t - 1))"
    "mres_PathMTU (mres r) = narrowest links (max 1 (t - 1))"
    using assms(2) by (simp_all add: known_before_def)
  have one: "narrowest links 1 = links ! 0" using assms(1) by (cases links) (simp_all add: narrowest_def path_ok_def)
  have l0: "minProbeMTU ver \<le> links ! 0" "links ! 0 \<le> 65000" "0 < links ! 0"
    using narrowest_ge [OF assms(1), of 1] one by simp_all
  have q: "0 < mtu_Queries cfg" "1 < mtu_Queries cfg" using assms(5) by simp_all
  note ans = learned_answer [where router = router and ver = ver and cfg = cfg, OF _ _ _ _ _ _ assms(1,3,4)]
  show ?thesis
  proof (cases "t = 1")
    case True
    show ?thesis
    proof (cases "links ! 0 = 65000")
      case big: True
      then show ?thesis by (intro ans) (use k True one q(1) in simp_all)
    next
      case False
      let ?r = "r\<lparr>sent := sent r + 1\<rparr>"
      have "payloadSizeForMTU 65000 ver + overhead ver = 65000"
        by (simp add: size_of_plan minProbeMTU_def probePayloadMinLen_def)
      then have reply: "?p (sent r) (plan_for cfg (int t) r) = Inl (LocalMTU (links ! 0))"
        using k True False l0 by (simp add: reporting_path_def Let_def)
      have c: "candidatePathMTU 65000 (links ! 0) = links ! 0" "candidatePathMTU (links ! 0) (links ! 0) = links ! 0"
        using l0 False by (auto simp: candidatePathMTU_def)
      obtain v1 where o: "on_local_error cfg (int t) (links ! 0) v ?r =
          Some (v1, set_path (links ! 0) (?r\<lparr>probeMTU := links ! 0\<rparr>))"
        using k True False l0 one c by (auto simp: on_local_error_def nextLocalProbeMTU_def Let_def)
      have "ttl_loop ?p cfg (int t) 0 v r = ttl_loop ?p cfg (int t) 0 v1 (set_path (links ! 0) (?r\<lparr>probeMTU := links ! 0\<rparr>))"
        using q(1) o by (subst ttl_loop.simps) (simp add: reply Let_def)
      moreover have "\<exists>v' r'. ttl_loop ?p cfg (int t) 0 v1 (set_path (links ! 0) (?r\<lparr>probeMTU := links ! 0\<rparr>)) = Inr (v', r') \<and>
          learned links t r v' r'"
        by (rule ans) (use k(1,2) True one q(1) in simp_all)
      ultimately show ?thesis by simp
    qed
  next
    case False
    then have t2: "2 \<le> t" "max 1 (t - 1) = t - 1" using assms(3) by auto
    then have b: "probeMTU r = narrowest links (t - 1)" "mres_PathMTU (mres r) = narrowest links (t - 1)"
      using k False by simp_all
    have step: "narrowest links t = min (narrowest links (t - 1)) (links ! (t - 1))"
      using narrowest_Suc [of "t - 1" links] t2 assms(4) by simp
    show ?thesis
    proof (cases "narrowest links (t - 1) \<le> links ! (t - 1)")
      case True
      then have "narrowest links t = narrowest links (t - 1)" using step by linarith
      with b have "probeMTU r = narrowest links t" "mres_PathMTU (mres r) = narrowest links t" by (simp_all only:)
      then show ?thesis by (rule ans) (use k(1) q(1) in simp_all)
    next
      case narrow: False
      let ?r = "r\<lparr>sent := sent r + 1\<rparr>"
      note ge = narrowest_ge [OF assms(1), of "t - 1"]
      have size: "payloadSizeForMTU (probeMTU r) ver + overhead ver = probeMTU r"
        using ge(1) t2 b by (intro size_of_plan) simp
      have fit: "probeMTU r \<le> links ! j" if "j < t - 1" for j
        using narrowest_le [OF that] that assms(4) b by simp
      have f: "find (\<lambda>k. links ! k < probeMTU r) [0..<t] = Some (t - 1)"
        unfolding find_first using narrow b fit t2 by (auto simp: not_less)
      define resp where "resp = \<lparr>resp_Event = (if ver = 6 then EventPacketTooBig else EventFragNeeded),
                   resp_IP = router (int (t - 1)), resp_RTT = 1, resp_PMTU = links ! (t - 1)\<rparr>"
      have reply: "?p (sent r) (plan_for cfg (int t) r) = Inr resp"
        using size f fit [of 0] t2 k(1) assms(4) by (simp add: reporting_path_def resp_def Let_def min_absorb1)
      have pos: "0 < links ! (t - 1)" "0 < narrowest links (t - 1)"
      proof -
        have "t - 1 < t" "t - 1 < length links" "0 < t - 1" using t2(1) assms(4) by auto
        then show "0 < links ! (t - 1)" "0 < narrowest links (t - 1)"
          using narrowest_ge(3) [OF assms(1,3)] narrowest_le [of "t - 1" t links] ge(3) by linarith+
      qed
      have c: "candidatePathMTU (narrowest links (t - 1)) (links ! (t - 1)) = narrowest links t"
        using candidate_min [OF pos(2,1)] step by simp
      obtain v1 r1 where o: "on_too_big (buildHop (int t) resp) v ?r = (v1, r1)" by fastforce
      then have r1: "probeMTU r1 = narrowest links t" "mres_PathMTU (mres r1) = narrowest links t"
        "mres_IPVersion (mres r1) = ver" "mres_StartMTU (mres r1) = links ! 0" "mres_Hops (mres r1) = mres_Hops (mres r)"
        using k(1,2) b c by (simp_all add: on_too_big_def resp_def Let_def) auto
      have "resp_Event resp \<noteq> EventTimeout" "resp_Event resp = EventFragNeeded \<or> resp_Event resp = EventPacketTooBig"
        by (simp_all add: resp_def)
      then have "ttl_loop ?p cfg (int t) 0 v r = ttl_loop ?p cfg (int t) 1 v1 r1"
        using q(1) o by (subst ttl_loop.simps) (simp add: reply Let_def)
      moreover have "\<exists>v' r'. ttl_loop ?p cfg (int t) 1 v1 r1 = Inr (v', r') \<and> learned links t r v' r'"
        by (rule ans) (use r1 k(1,2) q(2) in simp_all)
      ultimately show ?thesis by simp
    qed
  qed
qed


lemma finish_fields:
  assumes "finish_ttl parse w cfg ttl (v, r) = (h, r')" "v_hop v = Some h0"
  shows "mres r' = (mres r)\<lparr>mres_Hops := mres_Hops (mres r) @ [h]\<rparr>" "probeMTU r' = probeMTU r"
    "mhop_Event h = mhop_Event h0"
  using assms by (auto simp: finish_ttl_def Let_def enrich_frame split: if_splits)

lemma loop_learns:
  assumes "path_ok links ver" "known_before links ver t r" "0 < t" "t \<le> length links"
    "2 \<le> mtu_Queries cfg" "int (length links) \<le> mtu_MaxHops cfg" "\<forall>u. \<not> interrupted u"
  shows "\<exists>r'. mtu_loop (reporting_path links router ver) parse world interrupted cfg [int t..mtu_MaxHops cfg] r = Inr r' \<and>
    mres_PathMTU (mres r') = narrowest links (length links) \<and> mres_StartMTU (mres r') = links ! 0 \<and>
    length (mres_Hops (mres r')) = length links \<and> mhop_Event (last (mres_Hops (mres r'))) = Some EventDestination"
  using assms(2-4)
proof (induction "length links - t" arbitrary: t r rule: less_induct)
  case (less t r)
  let ?p = "reporting_path links router ver" and ?v = "\<lparr>v_hop = None, ttlPMTU = 0, ttlSawRemote = False\<rparr>"
  let ?r = "emit StreamEventTTLStart (empty_mhop (int t)) r"
  have list: "[int t..mtu_MaxHops cfg] = int t # [int (Suc t)..mtu_MaxHops cfg]"
    using less.prems(3) assms(6) by (simp add: upto_rec1 add.commute)
  have "known_before links ver t ?r" using less.prems(1) by (simp add: known_before_def)
  from ttl_learns [OF assms(1) this less.prems(2,3) assms(5), of router ?v] obtain v1 r1
    where l: "ttl_loop ?p cfg (int t) 0 ?v ?r = Inr (v1, r1)" and k: "learned links t ?r v1 r1" by blast
  obtain h0 where h0: "v_hop v1 = Some h0"
      "mhop_Event h0 = Some (if int t < int (length links) then EventTimeExceeded else EventDestination)"
    using k by (auto simp: learned_def)
  obtain h r2 where f: "finish_ttl parse (world (int t)) cfg (int t) (v1, r1) = (h, r2)" by fastforce
  note ff = finish_fields [OF f h0(1)]
  have r2: "probeMTU r2 = narrowest links t" "mres_PathMTU (mres r2) = narrowest links t"
    "mres_IPVersion (mres r2) = ver" "mres_StartMTU (mres r2) = links ! 0"
    "mres_Hops (mres r2) = mres_Hops (mres r) @ [h]" "length (mres_Hops (mres r)) = t - 1"
    using k less.prems(1) ff by (simp_all add: learned_def known_before_def)
  show ?case
  proof (cases "t = length links")
    case True
    have "mtu_loop ?p parse world interrupted cfg [int t..mtu_MaxHops cfg] r = Inr r2"
      unfolding list using l f ff(3) h0(2) True by (simp add: Let_def)
    then show ?thesis using ff(3) h0(2) r2 less.prems(2) True by (intro exI [of _ r2]) simp
  next
    case False
    then have t: "t < length links" using less.prems(3) by simp
    have "known_before links ver (Suc t) r2"
      using r2 less.prems(2) by (simp add: known_before_def max_def)
    from less.hyps [OF _ this] t obtain r' where
      r': "mtu_loop ?p parse world interrupted cfg [int (Suc t)..mtu_MaxHops cfg] r2 = Inr r'"
        "mres_PathMTU (mres r') = narrowest links (length links)" "mres_StartMTU (mres r') = links ! 0"
        "length (mres_Hops (mres r')) = length links" "mhop_Event (last (mres_Hops (mres r'))) = Some EventDestination"
      by fastforce
    then show ?thesis using l f ff(3) h0(2) t assms(7) unfolding list by (intro exI [of _ r']) (simp add: Let_def)
  qed
qed

lemma reporting_run:
  assumes "normalizeConfig cfg0 = Inr cfg" "path_ok links (ipVersion cfg)" "mtu_BeginHop cfg = 1" "2 \<le> mtu_Queries cfg"
    "int (length links) \<le> mtu_MaxHops cfg" "\<forall>t. \<not> interrupted t"
  shows "\<exists>r. runStreamWithProber (reporting_path links router (ipVersion cfg)) parse world interrupted (links ! 0) cfg0 = Inr (Inr r) \<and>
    mres_PathMTU (mres r) = narrowest links (length links) \<and> length (mres_Hops (mres r)) = length links \<and>
    mhop_Event (last (mres_Hops (mres r))) = Some EventDestination"
proof -
  let ?r0 = "initial_run (links ! 0) cfg"
  have ne: "0 < length links" using assms(2) by (simp add: path_ok_def)
  have l0: "narrowest links 1 = links ! 0" using ne by (cases links) (simp_all add: narrowest_def)
  then have pos: "0 < links ! 0" using narrowest_ge(3) [OF assms(2), of 1] by simp
  have "known_before links (ipVersion cfg) 1 ?r0"
    using l0 pos by (simp add: known_before_def initial_run_def initialPathMTU_def initialProbeMTU_def Let_def)
  from loop_learns [OF assms(2) this _ _ assms(4,5,6), of router parse world] ne obtain r where
    r: "mtu_loop (reporting_path links router (ipVersion cfg)) parse world interrupted cfg [mtu_BeginHop cfg..mtu_MaxHops cfg] ?r0 = Inr r"
      "mres_PathMTU (mres r) = narrowest links (length links)" "mres_StartMTU (mres r) = links ! 0"
      "length (mres_Hops (mres r)) = length links" "mhop_Event (last (mres_Hops (mres r))) = Some EventDestination"
    by (auto simp: assms(3))
  have "candidatePathMTU (links ! 0) (narrowest links (length links)) = narrowest links (length links)"
    using narrowest_ge(3) [OF assms(2) ne] narrowest_le [OF ne ne] pos by (simp add: candidate_min)
  then show ?thesis using r by (simp add: runStreamWithProber_def assms(1) Let_def)
qed

text \<open>C19. Let discovery start at the first hop and have at least two probes per TTL, and let the path have at most \<open>MaxHops\<close> links, be without
  loss and report its MTUs (\<open>reporting_path\<close>, an idealised environment). Then discovery finds the destination and the
  smallest MTU of the path, for IPv4 and IPv6, wherever the bottlenecks are. With one probe per TTL, which the configuration
  allows, it need not find the destination: the report of a bottleneck uses up the only probe (\<open>one_query_stops_short\<close>).\<close>

theorem discovers_path_mtu:
  assumes "normalizeConfig cfg0 = Inr cfg" "path_ok links (ipVersion cfg)" "mtu_BeginHop cfg = 1" "2 \<le> mtu_Queries cfg"
    "int (length links) \<le> mtu_MaxHops cfg" "\<forall>t. \<not> interrupted t"
  shows "\<exists>r. runStreamWithProber (reporting_path links router (ipVersion cfg)) parse world interrupted (links ! 0) cfg0 = Inr (Inr r) \<and>
    mres_PathMTU (mres r) = Min (set links) \<and> length (mres_Hops (mres r)) = length links \<and>
    mhop_Event (last (mres_Hops (mres r))) = Some EventDestination"
  using reporting_run [OF assms, of router parse world] by (simp add: narrowest_def)

definition sample_mtu_config :: mtu_config where
  "sample_mtu_config = \<lparr>mtu_Target = ''t'', mtu_DstIP = [192, 0, 2, 1], mtu_SrcIP = [10, 0, 0, 2], mtu_DstPort = 0,
     mtu_BeginHop = 1, mtu_MaxHops = 8, mtu_Queries = 3, mtu_Timeout = 1000000000, mtu_TTLInterval = 0, mtu_RDNS = False,
     mtu_AlwaysWaitRDNS = False, mtu_IPGeoSource = None, mtu_Lang = ''en''\<rparr>"

definition quiet_world :: mtu_world where
  "quiet_world = \<lparr>mw_ctx_ended = False, mw_ptrs = [], mw_geo_call = 0, mw_ptr_in_time = False, mw_geo_in_time = False,
     mw_first = ContextFirst\<rparr>"

lemma sample_normal: "normalizeConfig sample_mtu_config = Inr (sample_mtu_config\<lparr>mtu_DstPort := 33494\<rparr>)"
  by (simp add: normalizeConfig_def sample_mtu_config_def ipVersion_def IsIPv6_def To4_def Let_def)

lemma sample_version: "ipVersion (sample_mtu_config\<lparr>mtu_DstPort := 33494\<rparr>) = 4"
  by (simp add: sample_mtu_config_def ipVersion_def IsIPv6_def To4_def)

abbreviation sample_path :: mtu_prober where
  "sample_path \<equiv> reporting_path [1500, 1400, 1480, 1280] (\<lambda>_. [10, 0, 0, 1]) 4"

theorem discovers_path_mtu_witness:
  "\<exists>r. runStreamWithProber sample_path (\<lambda>_. []) (\<lambda>_. quiet_world) (\<lambda>_. False) 1500 sample_mtu_config = Inr (Inr r) \<and>
     mres_PathMTU (mres r) = 1280 \<and> length (mres_Hops (mres r)) = 4"
  using discovers_path_mtu [OF sample_normal, of "[1500, 1400, 1480, 1280]" "\<lambda>_. False" "\<lambda>_. [10, 0, 0, 1]" "\<lambda>_. []" "\<lambda>_. quiet_world"]
  unfolding sample_version by (simp add: path_ok_def minProbeMTU_def probePayloadMinLen_def) (auto simp: sample_mtu_config_def)


text \<open>The second of two links is a bottleneck, the destination lies behind it, and one probe per TTL is sent: the probe of TTL 2 is
  refused by the router, and no probe of a smaller size follows that the destination could answer.\<close>

lemma one_query_stops_short:
  assumes "mtu_Queries cfg = 1" "probeMTU r = 1500" "mres_IPVersion (mres r) = 4"
  shows "\<exists>v' r' h. ttl_loop (reporting_path [1500, 1400] router 4) cfg 2 0 v r = Inr (v', r') \<and>
    v_hop v' = Some h \<and> mhop_Event h = Some EventFragNeeded"
proof -
  have size: "payloadSizeForMTU 1500 4 + overhead 4 = 1500"
    by (rule size_of_plan) (simp add: minProbeMTU_def probePayloadMinLen_def)
  have two: "[0..<2] = [0, Suc 0]" by (simp add: numeral_2_eq_2)
  let ?resp = "\<lparr>resp_Event = EventFragNeeded, resp_IP = router 1, resp_RTT = 1, resp_PMTU = 1400\<rparr>"
  have "reporting_path [1500, 1400] router 4 (sent r) (plan_for cfg 2 r) = Inr ?resp"
    using assms(2,3) size by (simp add: reporting_path_def two Let_def)
  moreover have "ttl_loop p cfg 2 1 w u = Inr (w, u)" for p w u using assms(1) by (subst ttl_loop.simps) simp
  ultimately have "ttl_loop (reporting_path [1500, 1400] router 4) cfg 2 0 v r =
      Inr (on_too_big (buildHop 2 ?resp) v (r\<lparr>sent := sent r + 1\<rparr>))"
    using assms(1) by (subst ttl_loop.simps) (simp add: Let_def split_beta)
  then show ?thesis by (simp add: on_too_big_def buildHop_def Let_def)
qed

lemma sample_run_exists:
  "\<exists>r. runStreamWithProber sample_path (\<lambda>_. []) (\<lambda>_. quiet_world) (\<lambda>_. False) 1500 sample_mtu_config = Inr (Inr r)"
  using reporting_run [OF sample_normal, of "[1500, 1400, 1480, 1280]" "\<lambda>_. False" "\<lambda>_. [10, 0, 0, 1]" "\<lambda>_. []" "\<lambda>_. quiet_world"]
  unfolding sample_version by (simp add: path_ok_def minProbeMTU_def probePayloadMinLen_def) (auto simp: sample_mtu_config_def)

theorem stream_refines_protocol_witness:
  "\<exists>r. runStreamWithProber sample_path (\<lambda>_. []) (\<lambda>_. quiet_world) (\<lambda>_. False) 1500 sample_mtu_config = Inr (Inr r) \<and>
     protocol_run (Between 1) (observed r) = Some Over \<and> mres_PathMTU (mres r) \<le> 1500"
proof -
  obtain r where r: "runStreamWithProber sample_path (\<lambda>_. []) (\<lambda>_. quiet_world) (\<lambda>_. False) 1500 sample_mtu_config = Inr (Inr r)"
    using sample_run_exists by blast
  from stream_refines_protocol [OF r sample_normal] r show ?thesis
    by (intro exI [of _ r]) (simp add: initialPathMTU_def, simp add: sample_mtu_config_def)
qed

theorem probes_bounded_witness:
  "\<exists>r. runStreamWithProber sample_path (\<lambda>_. []) (\<lambda>_. quiet_world) (\<lambda>_. False) 1500 sample_mtu_config = Inr (Inr r) \<and>
     sent r < 65024"
proof -
  obtain r where r: "runStreamWithProber sample_path (\<lambda>_. []) (\<lambda>_. quiet_world) (\<lambda>_. False) 1500 sample_mtu_config = Inr (Inr r)"
    using sample_run_exists by blast
  from probes_bounded [OF r sample_normal] r show ?thesis
    by (intro exI [of _ r]) (simp add: sample_mtu_config_def)
qed

end
