(* ===== verification/Tracer_Core.thy ===== *)
theory Tracer_Core
  imports Icmp_Tracer_Runs
begin

section \<open>What the TCP and UDP tracers share\<close>

text \<open>
  \<open>TCPTracer\<close>, \<open>UDPTracer\<close> and \<open>UDPTracerIPv6\<close> start, send, print and finish with the same
  statements as \<open>ICMPTracer\<close>; they differ in how a probe is identified and a reply is matched. The
  record below holds the common part of their states, with the same segments of goroutines as in
  \<open>Icmp_Tracer\<close>, and each tracer extends it with its own maps and queues. The functions are
  translated from \<open>trace/tcp_ipv4.go\<close>; the other files repeat them word for word.

  A tracer is verified by simulation: \<open>icmp_view\<close> shows its state as a state of the ICMP
  tracer whose match queue is empty, and the locale \<open>simulates_icmp\<close> carries the invariant of
  \<open>Icmp_Tracer\<close> over to every tracer whose steps are matched by steps of the ICMP tracer.
\<close>

record tracer_core =
  tr_res :: trace_result
  tr_final :: int
  tr_next_ttl :: int
  tr_next_i :: "int \<rightharpoonup> int"
  tr_spawned :: "(int \<times> int) set"
  tr_waiting :: "(int \<times> int) set"
  tr_sending :: "(int \<times> int) list"
  tr_timers :: "(int \<times> int) set"
  tr_lookups :: "(int \<times> int \<times> hop) list"
  tr_printed :: int
  tr_finished :: bool
  tr_recorded :: "(int \<times> int) set"
  tr_failed :: "(int \<times> int) set"

text \<open>What the listeners hand to the match workers.\<close>

record portTask =
  pt_srcPort :: nat
  pt_seq :: int
  pt_ack :: int
  pt_peer :: "addr option"
  pt_finish :: int
  pt_mpls :: "string list"

definition tr_init :: "Config \<Rightarrow> tracer_core" where
  "tr_init c = \<lparr>tr_res = setGeoWait (init_result (MaxHops c)) (NumMeasurements c), tr_final = -1,
     tr_next_ttl = BeginHop c, tr_next_i = Map.empty, tr_spawned = {}, tr_waiting = {}, tr_sending = [],
     tr_timers = {}, tr_lookups = [], tr_printed = BeginHop c - 1, tr_finished = False,
     tr_recorded = {}, tr_failed = {}\<rparr>"

definition tr_ttlComp :: "Config \<Rightarrow> 'a tracer_core_scheme \<Rightarrow> int \<Rightarrow> bool" where
  "tr_ttlComp c t ttl =
     (let idx = ttl - 1 in
      idx < int (length (Hops (tr_res t))) \<and> int (length (Hops (tr_res t) ! nat idx)) \<ge> NumMeasurements c)"

definition tr_past_final :: "'a tracer_core_scheme \<Rightarrow> int \<Rightarrow> bool" where
  "tr_past_final t ttl \<longleftrightarrow> tr_final t \<noteq> -1 \<and> ttl > tr_final t"

definition tr_addHopWithIndex ::
    "Config \<Rightarrow> 'a tracer_core_scheme \<Rightarrow> addr option \<Rightarrow> int \<Rightarrow> int \<Rightarrow> int \<Rightarrow> string list \<Rightarrow>
     (unit, 'a tracer_core_scheme) res" where
  "tr_addHopWithIndex c t peer ttl i rtt mpls =
     (if tr_past_final t ttl then Inr t
      else
        let ip = AddrIP peer;
            t = (if ip \<noteq> [] \<and> ip_Equal ip (DstIP c) then
                   (if tr_final t \<noteq> -1 \<and> ttl \<ge> tr_final t then t else t\<lparr>tr_final := ttl\<rparr>)
                 else t);
            h = \<lparr>Success = True, Address = peer, Hostname = [], TTL = ttl, RTT = rtt, Error = None,
                 Geo = None, Lang = [], MPLS = mpls\<rparr>
        in rbind (addWithGeoAsync (tr_res t) h i (NumMeasurements c) (MaxAttempts c) c) (\<lambda>(r, job).
             Inr (t\<lparr>tr_res := r, tr_lookups := tr_lookups t @ (case job of None \<Rightarrow> [] | Some j \<Rightarrow> [j]),
                   tr_recorded := insert (ttl, i) (tr_recorded t)\<rparr>)))"

text \<open>The checks of \<open>send\<close> before and after it waits for its permit, up to the registration of
  the attempt, which is \<open>register\<close>.\<close>

definition tr_send_enter ::
    "Config \<Rightarrow> ('a tracer_core_scheme \<Rightarrow> 'a tracer_core_scheme) \<Rightarrow> 'a tracer_core_scheme \<Rightarrow> int \<times> int \<Rightarrow> 'a tracer_core_scheme" where
  "tr_send_enter c register t a =
     (let t = t\<lparr>tr_waiting := tr_waiting t - {a}\<rparr> in
      if tr_ttlComp c t (fst a) then t
      else if tr_past_final t (fst a) then t
      else register (t\<lparr>tr_timers := insert a (tr_timers t), tr_sending := a # tr_sending t\<rparr>))"

text \<open>The timeout guard of an attempt after \<open>clearPending\<close> found it open; the flag tells whether
  the hop was added and its bookkeeping is to be dropped.\<close>

definition tr_report_timeout :: "Config \<Rightarrow> 'a tracer_core_scheme \<Rightarrow> int \<times> int \<Rightarrow> (unit, 'a tracer_core_scheme \<times> bool) res" where
  "tr_report_timeout c t a =
     (if tr_past_final t (fst a) then Inr (t, False)
      else if tr_ttlComp c t (fst a) then Inr (t, False)
      else
        let h = \<lparr>Success = False, Address = None, Hostname = [], TTL = fst a, RTT = 0,
                 Error = Some HopTimeout, Geo = None, Lang = [], MPLS = []\<rparr>
        in rbind (add (tr_res t) h (snd a) (NumMeasurements c) (MaxAttempts c)) (\<lambda>(r, added, idx).
             Inr (t\<lparr>tr_res := r, tr_recorded := insert a (tr_recorded t)\<rparr>, True)))"

definition tr_launch_ttl :: "Config \<Rightarrow> 'a tracer_core_scheme \<Rightarrow> 'a tracer_core_scheme" where
  "tr_launch_ttl c t =
     (if tr_next_ttl t \<noteq> BeginHop c \<and> (tr_next_ttl t > MaxHops c \<or> tr_past_final t (tr_next_ttl t)) then t
      else t\<lparr>tr_next_ttl := tr_next_ttl t + 1, tr_next_i := (tr_next_i t)(tr_next_ttl t \<mapsto> 0)\<rparr>)"

definition tr_launch_attempt :: "Config \<Rightarrow> 'a tracer_core_scheme \<Rightarrow> int \<Rightarrow> int \<Rightarrow> 'a tracer_core_scheme" where
  "tr_launch_attempt c t ttl i =
     (if i < MaxAttempts c \<and> \<not> tr_ttlComp c t ttl then
        t\<lparr>tr_spawned := insert (ttl, i) (tr_spawned t), tr_waiting := insert (ttl, i) (tr_waiting t),
          tr_next_i := (tr_next_i t)(ttl := if i + 1 = MaxAttempts c then None else Some (i + 1))\<rparr>
      else t\<lparr>tr_next_i := (tr_next_i t)(ttl := None)\<rparr>)"

definition tr_print_tick :: "Config \<Rightarrow> 'a tracer_core_scheme \<Rightarrow> 'a tracer_core_scheme" where
  "tr_print_tick c t =
     (if tr_ttlComp c t (tr_printed t + 1) then
        let t = t\<lparr>tr_printed := tr_printed t + 1\<rparr> in
        if tr_printed t = tr_final t \<or> tr_printed t \<ge> MaxHops c then t\<lparr>tr_finished := True\<rparr> else t
      else t)"

definition tr_execute_result :: "Config \<Rightarrow> 'a tracer_core_scheme \<Rightarrow> trace_result" where
  "tr_execute_result c t = reduce (tr_res t) (if tr_final t = -1 then MaxHops c else tr_final t)"

text \<open>The steps that concern only the common part.\<close>

inductive common_step :: "Config \<Rightarrow> 'a tracer_core_scheme \<Rightarrow> 'a tracer_core_scheme \<Rightarrow> bool" for c where
  Common_Launch_TTL: "\<not> tr_finished s \<Longrightarrow> common_step c s (tr_launch_ttl c s)"
| Common_Launch_Attempt: "\<not> tr_finished s \<Longrightarrow> tr_next_i s ttl = Some i \<Longrightarrow>
    common_step c s (tr_launch_attempt c s ttl i)"
| Common_Send_Cancelled: "tr_finished s \<Longrightarrow> a \<in> tr_waiting s \<Longrightarrow>
    common_step c s (s\<lparr>tr_waiting := tr_waiting s - {a}\<rparr>)"
| Common_Lookup: "tr_lookups s = xs @ (ttl, idx, h) # ys \<Longrightarrow>
    common_step c s (s\<lparr>tr_res := geo_goroutine (tr_res s) ttl idx h', tr_lookups := xs @ ys\<rparr>)"
| Common_Wait_Over: "common_step c s (s\<lparr>tr_res := markPendingGeoTimeout (tr_res s) k\<rparr>)"
| Common_Print: "\<not> tr_finished s \<Longrightarrow> common_step c s (tr_print_tick c s)"
| Common_Cancel: "common_step c s (s\<lparr>tr_finished := True\<rparr>)"

subsection \<open>The view of a tracer as the ICMP tracer\<close>

definition decode_seq :: "int \<Rightarrow> int \<times> int" where
  "decode_seq q = (q div 256, q mod 256)"

definition icmp_view :: "'a tracer_core_scheme \<Rightarrow> (int \<times> int) set \<Rightarrow> (int \<times> int \<rightharpoonup> int) \<Rightarrow> icmp_state" where
  "icmp_view s op st = \<lparr>res = tr_res s, pending = seqs op, sentAt = (\<lambda>q. st (decode_seq q)), final = tr_final s,
     matchQ = [], taken = [], next_ttl = tr_next_ttl s, next_i = tr_next_i s, spawned = tr_spawned s,
     waiting = tr_waiting s, sending = tr_sending s, timers = tr_timers s, lookups = tr_lookups s,
     printed = tr_printed s, finished = tr_finished s, recorded = tr_recorded s, failed = tr_failed s\<rparr>"

lemma icmp_view_sel [simp]:
  "res (icmp_view s op st) = tr_res s" "pending (icmp_view s op st) = seqs op"
  "sentAt (icmp_view s op st) = (\<lambda>q. st (decode_seq q))" "final (icmp_view s op st) = tr_final s"
  "matchQ (icmp_view s op st) = []" "taken (icmp_view s op st) = []"
  "next_ttl (icmp_view s op st) = tr_next_ttl s" "next_i (icmp_view s op st) = tr_next_i s"
  "spawned (icmp_view s op st) = tr_spawned s" "waiting (icmp_view s op st) = tr_waiting s"
  "sending (icmp_view s op st) = tr_sending s" "timers (icmp_view s op st) = tr_timers s"
  "lookups (icmp_view s op st) = tr_lookups s" "printed (icmp_view s op st) = tr_printed s"
  "finished (icmp_view s op st) = tr_finished s" "recorded (icmp_view s op st) = tr_recorded s"
  "failed (icmp_view s op st) = tr_failed s"
  by (simp_all add: icmp_view_def)

lemma view_ttlComp [simp]: "ttlComp c (icmp_view s op st) ttl = tr_ttlComp c s ttl"
  by (simp add: ttlComp_def tr_ttlComp_def)

lemma view_past_final [simp]: "past_final (icmp_view s op st) ttl = tr_past_final s ttl"
  by (simp add: past_final_def tr_past_final_def)

lemma view_launch_ttl: "launch_ttl c (icmp_view s op st) = icmp_view (tr_launch_ttl c s) op st"
  by (simp add: launch_ttl_def tr_launch_ttl_def)

lemma view_launch_attempt: "launch_attempt c (icmp_view s op st) ttl i = icmp_view (tr_launch_attempt c s ttl i) op st"
  by (simp add: launch_attempt_def tr_launch_attempt_def)

lemma view_print_tick: "print_tick c (icmp_view s op st) = icmp_view (tr_print_tick c s) op st"
  by (simp add: print_tick_def tr_print_tick_def Let_def)

lemma view_common:
  assumes "common_step c s t"
  shows "icmp_step c (icmp_view s op st) (icmp_view t op st)"
  using assms
proof cases
  case Common_Launch_TTL
  then show ?thesis using icmp_step.Launch_TTL [of "icmp_view s op st" c] by (simp add: view_launch_ttl)
next
  case (Common_Launch_Attempt ttl i)
  then show ?thesis using icmp_step.Launch_Attempt [of "icmp_view s op st" ttl i c] by (simp add: view_launch_attempt)
next
  case (Common_Send_Cancelled a)
  then show ?thesis using icmp_step.Send_Cancelled [of "icmp_view s op st" a c] by (simp add: icmp_view_def)
next
  case (Common_Lookup xs ttl idx h ys h')
  then show ?thesis using icmp_step.Lookup [of "icmp_view s op st" xs ttl idx h ys c h'] by (simp add: icmp_view_def)
next
  case (Common_Wait_Over k)
  then show ?thesis using icmp_step.Wait_Over [of c "icmp_view s op st" k] by (simp add: icmp_view_def)
next
  case Common_Print
  then show ?thesis using icmp_step.Print [of "icmp_view s op st" c] by (simp add: view_print_tick)
next
  case Common_Cancel
  then show ?thesis using icmp_step.Cancel [of c "icmp_view s op st"] by (simp add: icmp_view_def)
qed


lemma decode_seqOf: "wf_config c \<Longrightarrow> valid_attempt c a \<Longrightarrow> decode_seq (seqOf (fst a) (snd a)) = a"
  by (auto simp: decode_seq_def seqOf_eq valid_attempt_def wf_config_def prod_eq_iff)

lemma seqs_insert: "seqs (insert a A) = insert (seqOf (fst a) (snd a)) (seqs A)"
  by (simp add: seqs_def)

definition valid_attempts :: "Config \<Rightarrow> (int \<times> int) set" where
  "valid_attempts c = {a. valid_attempt c a}"

lemma seqs_minus:
  assumes "wf_config c" "A \<subseteq> valid_attempts c" "valid_attempt c a"
  shows "seqs A - {seqOf (fst a) (snd a)} = seqs (A - {a})"
  using assms seqOf_inj [OF assms(1)] by (fastforce simp: seqs_def valid_attempts_def)

lemma seqs_mem:
  assumes "wf_config c" "A \<subseteq> valid_attempts c" "valid_attempt c a"
  shows "seqOf (fst a) (snd a) \<in> seqs A \<longleftrightarrow> a \<in> A"
  using assms seqOf_inj [OF assms(1)] by (fastforce simp: seqs_def valid_attempts_def)

lemma sent_update:
  assumes "wf_config c" "valid_attempt c a"
  shows "(\<lambda>q. st (decode_seq q))(seqOf (fst a) (snd a) := x) = (\<lambda>q. (st(a := x)) (decode_seq q))"
proof -
  have "decode_seq q = a \<longleftrightarrow> q = seqOf (fst a) (snd a)" for q
  proof
    assume "decode_seq q = a"
    moreover have "q div 256 * 256 + q mod 256 = q" by simp
    ultimately show "q = seqOf (fst a) (snd a)" by (auto simp: decode_seq_def seqOf_eq)
  qed (simp add: decode_seqOf [OF assms])
  then show ?thesis by (auto simp: fun_eq_iff)
qed

lemma view_dropSent:
  "wf_config c \<Longrightarrow> valid_attempt c a \<Longrightarrow>
   dropSent (icmp_view s op st) (seqOf (fst a) (snd a)) = icmp_view s op (st(a := None))"
  by (simp add: dropSent_def sent_update)

lemma view_storeSent:
  "wf_config c \<Longrightarrow> valid_attempt c a \<Longrightarrow>
   storeSent (icmp_view s op st) (seqOf (fst a) (snd a)) start = icmp_view s op (st(a \<mapsto> start))"
  by (simp add: storeSent_def sent_update)

lemma view_clearPending:
  "wf_config c \<Longrightarrow> op \<subseteq> valid_attempts c \<Longrightarrow> valid_attempt c a \<Longrightarrow>
   clearPending (icmp_view s op st) (seqOf (fst a) (snd a)) = (icmp_view s (op - {a}) st, a \<in> op)"
  by (simp add: clearPending_def seqs_minus seqs_mem)

lemma view_updates:
  "(icmp_view s op st)\<lparr>final := f\<rparr> = icmp_view (s\<lparr>tr_final := f\<rparr>) op st"
  "(icmp_view s op st)\<lparr>res := r, lookups := l, recorded := R\<rparr> =
     icmp_view (s\<lparr>tr_res := r, tr_lookups := l, tr_recorded := R\<rparr>) op st"
  "(icmp_view s op st)\<lparr>res := r, recorded := R\<rparr> = icmp_view (s\<lparr>tr_res := r, tr_recorded := R\<rparr>) op st"
  "(icmp_view s op st)\<lparr>timers := T\<rparr> = icmp_view (s\<lparr>tr_timers := T\<rparr>) op st"
  "(icmp_view s op st)\<lparr>waiting := W\<rparr> = icmp_view (s\<lparr>tr_waiting := W\<rparr>) op st"
  by simp_all

lemma view_addHop:
  assumes "tr_addHopWithIndex c s peer ttl i rtt mpls = Inr t"
  shows "addHopWithIndex c (icmp_view s op st) peer ttl i rtt mpls = Inr (icmp_view t op st)"
  using assms
  by (cases "AddrIP peer \<noteq> [] \<and> ip_Equal (AddrIP peer) (DstIP c)"; cases "tr_final s \<noteq> -1 \<and> ttl \<ge> tr_final s")
    (auto simp: addHopWithIndex_def tr_addHopWithIndex_def Let_def rbind_eq_Inr view_updates simp del: icmp_state.simps
      split: if_split_asm)

text \<open>A matched reply, as three steps of the ICMP tracer: the message arrives, a worker takes it, and
  matches it.\<close>

lemma view_match:
  assumes "\<not> tr_finished s" "match_task c (icmp_view s op st) task = Inr v"
  shows "reaches (icmp_step c) (icmp_view s op st) v"
proof -
  let ?v = "icmp_view s op st"
  let ?v1 = "handleICMPMessage ?v task" and ?v2 = "?v\<lparr>matchQ := [], taken := [task]\<rparr>"
  have "icmp_step c ?v ?v1" by (rule icmp_step.Message)
  moreover have "icmp_step c ?v1 ?v2"
    using icmp_step.Take [of ?v1 task "[]" c] assms(1) by (simp add: handleICMPMessage_def)
  moreover have "icmp_step c ?v2 v"
    using icmp_step.Match [of ?v2 "[]" task "[]" c v] assms by (simp add: icmp_view_def)
  ultimately show ?thesis by (blast intro: reaches_step)
qed

lemma view_reply:
  assumes "wf_config c" "op \<subseteq> valid_attempts c" "valid_attempt c a" "st a = Some start" "\<not> tr_finished s"
    and "a \<in> op \<Longrightarrow> tr_addHopWithIndex c s peer (fst a) (snd a) (finish - start) mpls = Inr t"
    and "a \<notin> op \<Longrightarrow> t = s"
  shows "reaches (icmp_step c) (icmp_view s op st) (icmp_view t (op - {a}) (st(a := None)))"
proof (rule view_match [OF assms(5)])
  let ?task = "\<lparr>task_seq = seqOf (fst a) (snd a), task_peer = peer, task_finish = finish, task_mpls = mpls\<rparr>"
  show "match_task c (icmp_view s op st) ?task = Inr (icmp_view t (op - {a}) (st(a := None)))"
    using assms(4,6,7)
    by (auto simp: match_task_def lookupSent_def decode_seqOf [OF assms(1,3)] seq_decode [OF assms(3,1)] Let_def
        view_clearPending [OF assms(1-3)] view_addHop view_dropSent [OF assms(1,3)])
qed

lemma view_timeout:
  assumes "wf_config c" "op \<subseteq> valid_attempts c" "valid_attempt c a" "\<not> tr_finished s" "a \<in> tr_timers s"
    and "a \<in> op \<Longrightarrow> tr_report_timeout c (s\<lparr>tr_timers := tr_timers s - {a}\<rparr>) a = Inr (t, dropped)"
    and "a \<notin> op \<Longrightarrow> t = s\<lparr>tr_timers := tr_timers s - {a}\<rparr> \<and> \<not> dropped"
  shows "icmp_step c (icmp_view s op st) (icmp_view t (op - {a}) (if dropped then st(a := None) else st))"
proof (rule icmp_step.Timeout)
  let ?s = "s\<lparr>tr_timers := tr_timers s - {a}\<rparr>"
  have e: "(icmp_view s op st)\<lparr>timers := tr_timers s - {a}\<rparr> = icmp_view ?s op st" by (simp add: icmp_view_def)
  show "timeout_fires c (icmp_view s op st) a = Inr (icmp_view t (op - {a}) (if dropped then st(a := None) else st))"
  proof (cases "a \<in> op")
    case False
    then show ?thesis using assms(7) by (simp add: timeout_fires_def e view_clearPending [OF assms(1-3)] Let_def)
  next
    case True
    note r = assms(6) [OF True, unfolded tr_report_timeout_def]
    have d: "dropSent ((icmp_view ?s (op - {a}) st)\<lparr>res := r', recorded := insert a (tr_recorded ?s)\<rparr>) (seqOf (fst a) (snd a)) =
        icmp_view (?s\<lparr>tr_res := r', tr_recorded := insert a (tr_recorded ?s)\<rparr>) (op - {a}) (st(a := None))" for r'
      using view_dropSent [OF assms(1,3), of "?s\<lparr>tr_res := r', tr_recorded := insert a (tr_recorded ?s)\<rparr>" "op - {a}" st]
      by (simp add: icmp_view_def)
    show ?thesis
      using r True
      by (auto simp: timeout_fires_def e view_clearPending [OF assms(1-3)] Let_def rbind_eq_Inr d [simplified] split: if_splits)
  qed
qed (use assms in simp_all)


lemma waiting_irrelevant:
  "tr_ttlComp c (s\<lparr>tr_waiting := W\<rparr>) ttl = tr_ttlComp c s ttl" "tr_past_final (s\<lparr>tr_waiting := W\<rparr>) ttl = tr_past_final s ttl"
  "ttlComp c (t\<lparr>waiting := W\<rparr>) ttl = ttlComp c t ttl" "past_final (t\<lparr>waiting := W\<rparr>) ttl = past_final t ttl"
  by (simp_all add: tr_ttlComp_def tr_past_final_def ttlComp_def past_final_def)

lemma view_send_enter:
  assumes "\<And>u. icmp_view (register u) op' st = icmp_view u op' st"
    and "op' = (if tr_ttlComp c s (fst a) \<or> tr_past_final s (fst a) then op else insert a op)"
  shows "send_enter c (icmp_view s op st) a = icmp_view (tr_send_enter c register s a) op' st"
proof (cases "tr_ttlComp c s (fst a) \<or> tr_past_final s (fst a)")
  case True
  then show ?thesis using assms(2) by (auto simp: send_enter_def tr_send_enter_def Let_def waiting_irrelevant)
next
  case False
  then show ?thesis
    using assms by (simp add: send_enter_def tr_send_enter_def Let_def markPending_def seqs_insert waiting_irrelevant)
qed

lemma view_send_ok:
  "wf_config c \<Longrightarrow> valid_attempt c a \<Longrightarrow> send_ok (icmp_view s op st) a start =
   icmp_view (s\<lparr>tr_sending := remove1 a (tr_sending s)\<rparr>) op (st(a \<mapsto> start))"
  by (simp add: send_ok_def view_storeSent)

lemma view_send_error:
  "wf_config c \<Longrightarrow> op \<subseteq> valid_attempts c \<Longrightarrow> valid_attempt c a \<Longrightarrow> send_error (icmp_view s op st) a =
   icmp_view (s\<lparr>tr_sending := remove1 a (tr_sending s),
     tr_failed := if a \<in> op then insert a (tr_failed s) else tr_failed s\<rparr>) (op - {a}) st"
  by (simp add: send_error_def view_clearPending Let_def)

lemma view_attempts_valid:
  assumes "icmp_inv c (icmp_view s op st)"
  shows "a \<in> set (tr_sending s) \<Longrightarrow> valid_attempt c a" "a \<in> tr_timers s \<Longrightarrow> valid_attempt c a"
    "a \<in> tr_waiting s \<Longrightarrow> valid_attempt c a"
  using assms by (auto simp: icmp_inv_def inv_attempts_def entered_def)

lemma view_open:
  assumes "wf_config c" "icmp_inv c (icmp_view s op st)" "a \<in> op" "valid_attempt c a"
  shows "a \<in> tr_spawned s" "a \<notin> tr_recorded s"
proof -
  let ?v = "icmp_view s op st"
  have i: "inv_attempts c ?v" using assms(2) by (simp add: icmp_inv_def)
  have "seqOf (fst a) (snd a) \<in> pending ?v" using assms(3) by (simp add: seqs_def)
  from pendingE [OF i this] obtain b where b: "b \<in> entered ?v" "b \<notin> recorded ?v" "valid_attempt c b"
      "seqOf (fst a) (snd a) = seqOf (fst b) (snd b)" by metis
  then have "a = b" using seqOf_inj [OF assms(1,4)] by blast
  then show "a \<in> tr_spawned s" "a \<notin> tr_recorded s" using b by (auto simp: entered_def)
qed

lemma view_credit:
  assumes "icmp_inv c (icmp_view s op st)" "valid_attempt c a"
    "tr_addHopWithIndex c s peer (fst a) (snd a) rtt mpls = Inr t" "tr_res t \<noteq> tr_res s"
  shows "tr_recorded t = insert a (tr_recorded s)"
    "k \<noteq> nat (fst a - 1) \<Longrightarrow> Hops (tr_res t) ! k = Hops (tr_res s) ! k"
proof -
  show "tr_recorded t = insert a (tr_recorded s)"
    using assms(3,4) by (auto simp: tr_addHopWithIndex_def Let_def rbind_eq_Inr split: if_splits)
  assume k: "k \<noteq> nat (fst a - 1)"
  have "inv_result c (icmp_view s op st)" using assms(1) by (simp add: icmp_inv_def)
  then show "Hops (tr_res t) ! k = Hops (tr_res s) ! k"
    using addHop_views [OF view_addHop [OF assms(3), of op st] _ _ _ k] assms(2)
    by (auto simp: inv_result_def valid_attempt_def)
qed

subsection \<open>What every tracer guarantees\<close>

definition trace_ok :: "Config \<Rightarrow> 'a tracer_core_scheme \<Rightarrow> bool" where
  "trace_ok c s \<longleftrightarrow> int (length (tr_sending s)) \<le> max 0 (ParallelRequests c) \<and>
     (\<forall>k < nat (MaxHops c). int (length (Hops (tr_res s) ! k)) \<le> NumMeasurements c) \<and>
     (\<forall>ttl. BeginHop c \<le> ttl \<and> ttl \<le> tr_printed s \<longrightarrow>
        int (length (Hops (tr_res s) ! nat (ttl - 1))) = NumMeasurements c) \<and>
     (tr_final s = -1 \<or> BeginHop c \<le> tr_final s \<and> tr_final s \<le> MaxHops c \<and>
        (\<exists>i. (tr_final s, i) \<in> tr_spawned s \<inter> tr_recorded s))"

text \<open>The ICMP tracer with a map of start times that may change at any moment: what the invariant says does
  not depend on that map.\<close>

inductive loose_step :: "Config \<Rightarrow> icmp_state \<Rightarrow> icmp_state \<Rightarrow> bool" for c where
  Loose_Step: "icmp_step c s t \<Longrightarrow> loose_step c s t"
| Loose_Sent: "loose_step c s (s\<lparr>sentAt := m\<rparr>)"

lemma loose_reaches: "reaches (icmp_step c) s t \<Longrightarrow> reaches (loose_step c) s t"
  by (induction rule: reaches.induct) (auto intro: reaches_step Loose_Step)

lemma view_sentAt: "(icmp_view s op st)\<lparr>sentAt := (\<lambda>q. st' (decode_seq q))\<rparr> = icmp_view s op st'"
  by (simp add: icmp_view_def)

lemma loose_sent: "loose_step c (icmp_view s op st) (icmp_view s op st')"
  using Loose_Sent [of c "icmp_view s op st" "\<lambda>q. st' (decode_seq q)"] by (simp only: view_sentAt)

lemma loose_then: "loose_step c s t \<Longrightarrow> reaches (loose_step c) t u \<Longrightarrow> reaches (loose_step c) s u"
  by (rule reaches_trans [OF reaches_step [of "loose_step c", OF reaches_refl]])

lemma loose_reply:
  assumes "wf_config c" "op \<subseteq> valid_attempts c" "a \<in> op" "\<not> tr_finished s"
    and "tr_addHopWithIndex c s peer (fst a) (snd a) (finish - start) mpls = Inr t"
  shows "reaches (loose_step c) (icmp_view s op Map.empty) (icmp_view t (op - {a}) Map.empty)"
proof -
  have a: "valid_attempt c a" using assms(2,3) by (auto simp: valid_attempts_def)
  have "reaches (icmp_step c) (icmp_view s op [a \<mapsto> start]) (icmp_view t (op - {a}) ([a \<mapsto> start](a := None)))"
    by (rule view_reply [OF assms(1,2) a _ assms(4)]) (use assms(3,5) in simp_all)
  then have "reaches (loose_step c) (icmp_view s op [a \<mapsto> start]) (icmp_view t (op - {a}) Map.empty)"
    by (simp add: loose_reaches)
  then show ?thesis by (rule loose_then [OF loose_sent])
qed

lemma loose_send_ok:
  assumes "wf_config c" "valid_attempt c a" "a \<in> set (tr_sending s)"
  shows "reaches (loose_step c) (icmp_view s op Map.empty)
    (icmp_view (s\<lparr>tr_sending := remove1 a (tr_sending s)\<rparr>) op Map.empty)"
proof -
  let ?t = "s\<lparr>tr_sending := remove1 a (tr_sending s)\<rparr>"
  have "icmp_step c (icmp_view s op Map.empty) (send_ok (icmp_view s op Map.empty) a 0)"
    by (rule icmp_step.Send_OK) (simp add: assms(3))
  then have 1: "loose_step c (icmp_view s op Map.empty) (icmp_view ?t op [a \<mapsto> 0])"
    unfolding view_send_ok [OF assms(1,2)] by (rule Loose_Step)
  show ?thesis by (rule loose_then [OF 1 loose_then [OF loose_sent reaches_refl]])
qed

interpretation loose: step_monotone "loose_step c" "\<lambda>s. wf_config c \<and> icmp_inv c s" "final_rank c" for c
proof
  fix s t
  assume h: "wf_config c \<and> icmp_inv c s" "loose_step c s t"
  from h(2) show "wf_config c \<and> icmp_inv c t"
    by cases (use h(1) inv_step inv_sentAt in blast)+
  from h(2) show "final_rank c t \<le> final_rank c s"
    by cases (use h(1) icmp_final.rank_step in \<open>auto simp: final_rank_def\<close>)
qed

locale tracer_view =
  fixes c :: Config and step :: "'a tracer_core_scheme \<Rightarrow> 'a tracer_core_scheme \<Rightarrow> bool"
    and start :: "'a tracer_core_scheme" and view :: "'a tracer_core_scheme \<Rightarrow> icmp_state"
    and inv :: "'a tracer_core_scheme \<Rightarrow> bool"
  assumes view_start: "view start = icmp_init c" and inv_start: "inv start"
    and view_core: "\<exists>op st. view s = icmp_view s op st"
    and loose_simulation: "wf_config c \<Longrightarrow> inv s \<Longrightarrow> icmp_inv c (view s) \<Longrightarrow> step s t \<Longrightarrow>
      inv t \<and> reaches (loose_step c) (view s) (view t)"
begin

lemma run_keeps:
  assumes "reaches step s t" "wf_config c" "inv s" "icmp_inv c (view s)"
  shows "inv t \<and> icmp_inv c (view t) \<and> final_rank c (view t) \<le> final_rank c (view s)"
  using assms
proof (induction rule: reaches.induct)
  case (reaches_step s t u)
  then have t: "inv t" "icmp_inv c (view t)" "final_rank c (view t) \<le> final_rank c (view s)" by simp_all
  from loose_simulation [OF assms(2) t(1,2) reaches_step.hyps(2)]
  have u: "inv u" "reaches (loose_step c) (view t) (view u)" by simp_all
  then show ?case
    using loose.reachable_inv [OF u(2)] loose.rank_reaches [OF u(2)] t assms(2) by force
qed simp

lemma reachable:
  assumes "wf_config c" "reaches step start s"
  shows "inv s" "icmp_inv c (view s)"
  using run_keeps [OF assms(2,1) inv_start] icmp_inv_init [OF assms(1)] by (simp_all add: view_start)

lemma reachable_ok:
  assumes "wf_config c" "reaches step start s"
  shows "trace_ok c s"
proof -
  obtain op st where v: "view s = icmp_view s op st" using view_core by blast
  then show ?thesis using icmp_inv_ok [OF assms(1) reachable(2) [OF assms]] by (simp add: trace_ok_def)
qed

lemma final_monotone:
  assumes "wf_config c" "reaches step start s" "reaches step s t" "tr_final s \<noteq> -1"
  shows "tr_final t \<noteq> -1 \<and> tr_final t \<le> tr_final s"
proof -
  obtain op st op' st' where v: "view s = icmp_view s op st" "view t = icmp_view t op' st'" using view_core by metis
  have i: "inv s" "icmp_inv c (view s)" using reachable [OF assms(1,2)] by blast+
  have "final_rank c (view t) \<le> final_rank c (view s)" using run_keeps [OF assms(3,1) i] by blast
  moreover have "inv_final c (view s)" using i(2) by (simp add: icmp_inv_def)
  ultimately show ?thesis using assms(4) by (auto simp: v final_rank_def inv_final_def split: if_splits)
qed

end

locale simulates_icmp =
  fixes c :: Config and step :: "'a tracer_core_scheme \<Rightarrow> 'a tracer_core_scheme \<Rightarrow> bool"
    and start :: "'a tracer_core_scheme" and view :: "'a tracer_core_scheme \<Rightarrow> icmp_state"
    and inv :: "'a tracer_core_scheme \<Rightarrow> bool"
  assumes starts: "view start = icmp_init c" "inv start"
    and is_view: "\<exists>op st. view s = icmp_view s op st"
    and simulation: "wf_config c \<Longrightarrow> inv s \<Longrightarrow> icmp_inv c (view s) \<Longrightarrow> step s t \<Longrightarrow>
      inv t \<and> reaches (icmp_step c) (view s) (view t)"

sublocale simulates_icmp \<subseteq> tracer_view
  by unfold_locales (use starts is_view simulation loose_reaches in blast)+

context simulates_icmp
begin

lemma refines:
  assumes "wf_config c" "reaches step start s"
  shows "reaches (icmp_step c) (icmp_init c) (view s)"
proof -
  have "reaches step s0 s \<Longrightarrow> inv s0 \<Longrightarrow> icmp_inv c (view s0) \<Longrightarrow> reaches (icmp_step c) (view s0) (view s)" for s0
  proof (induction rule: reaches.induct)
    case (reaches_step s t u)
    have t: "inv t" "icmp_inv c (view t)" using run_keeps [OF reaches_step.hyps(1) assms(1)] reaches_step.prems by blast+
    show ?case
      using reaches_trans [OF reaches_step.IH [OF reaches_step.prems]] simulation [OF assms(1) t reaches_step.hyps(2)]
      by simp
  qed simp
  from this [OF assms(2) inv_start] show ?thesis by (simp add: view_start icmp_inv_init [OF assms(1)])
qed

end

end
