(* ===== verification/Mpls.thy ===== *)
theory Mpls
  imports Icmp_Decode
begin

unbundle bit_operations_syntax

section \<open>MPLS labels in ICMP extensions: \<open>extractMPLS\<close> of \<open>trace/trace.go\<close>\<close>

text \<open>
  The label stack a router appends to an ICMP error (RFC 4950) is read from the hexadecimal text
  of the message. The program has no length field to find the extension with: it scans the text
  from its end, four bytes at a time, for the version word \<open>2000\<close>. The slices of the text that
  the Go run time checks are \<open>go_slice\<close>.
\<close>

subsection \<open>Hexadecimal text\<close>

definition hex_digit :: "char \<Rightarrow> nat option" where
  "hex_digit c =
     (let n = of_char c :: nat in
      if 48 \<le> n \<and> n \<le> 57 then Some (n - 48)
      else if 97 \<le> n \<and> n \<le> 102 then Some (n - 87)
      else if 65 \<le> n \<and> n \<le> 70 then Some (n - 55)
      else None)"

fun hex_value :: "nat \<Rightarrow> string \<Rightarrow> nat option" where
  "hex_value acc [] = Some acc"
| "hex_value acc (c # cs) =
     (case hex_digit c of None \<Rightarrow> None | Some d \<Rightarrow> hex_value (16 * acc + d) cs)"

text \<open>\<open>parse\<close>; \<open>strconv.ParseUint\<close> with base 16 rejects other characters and values that need
  more bits.\<close>

definition parse :: "string \<Rightarrow> nat \<Rightarrow> nat option" where
  "parse s bitSize =
     (if s = [] then None
      else case hex_value 0 s of None \<Rightarrow> None | Some v \<Rightarrow> if v < 2 ^ bitSize then Some v else None)"

subsection \<open>The scan and the objects\<close>

function find_ext :: "string \<Rightarrow> int \<Rightarrow> string" where
  "find_ext hexStr i =
     (if i < 0 then []
      else if take 4 (drop (nat i) hexStr) \<noteq> ''2000'' then find_ext hexStr (i - 8)
      else let remHex = int (length hexStr) - (i + 8) in
        if remHex \<le> 0 then find_ext hexStr (i - 8)
        else if remHex div 2 \<ge> 8 then drop (nat i) hexStr
        else find_ext hexStr (i - 8))"
  by pat_completeness auto
termination by (relation "measure (\<lambda>(s, i). nat (i + 8))") auto

declare find_ext.simps [simp del]

definition findValid :: "string \<Rightarrow> string" where
  "findValid hexStr =
     (let n = length hexStr in if n < 8 \<or> n mod 2 \<noteq> 0 then [] else find_ext hexStr (int n - 8))"

definition format_lse :: "32 word \<Rightarrow> string" where
  "format_lse v =
     (let lbl = drop_bit 12 v AND 0xFFFFF; tc = drop_bit 9 v AND 7; s = drop_bit 8 v AND 1; ttl = v AND 0xFF
      in ''[MPLS: Lbl '' @ nat_dec (unat lbl) @ '', TC '' @ nat_dec (unat tc) @ '', S '' @ nat_dec (unat s) @
         '', TTL '' @ nat_dec (unat ttl) @ '']'')"

function lse_loop :: "string \<Rightarrow> string list option" where
  "lse_loop mplsPayload =
     (if length mplsPayload < 8 then Some []
      else case parse (take 8 mplsPayload) 32 of
        None \<Rightarrow> None
      | Some v \<Rightarrow> map_option (\<lambda>ls. format_lse (word_of_nat v) # ls) (lse_loop (drop 8 mplsPayload)))"
  by pat_completeness auto
termination by (relation "measure length") auto

declare lse_loop.simps [simp del]

lemma rbind_cong [fundef_cong]:
  "m = m' \<Longrightarrow> (\<And>x. m' = Inr x \<Longrightarrow> f x = g x) \<Longrightarrow> rbind m f = rbind m' g"
  by (cases m') simp_all

function mpls_objects :: "string \<Rightarrow> nat \<Rightarrow> string list \<Rightarrow> (unit, string list) res" where
  "mpls_objects extStr j acc =
     (if \<not> j + 8 \<le> length extStr then Inr acc
      else rbind (go_slice extStr j (j + 4)) (\<lambda>len.
        case parse len 16 of
          None \<Rightarrow> Inr []
        | Some lengthU \<Rightarrow>
            if lengthU < 4 then Inr []
            else if j + lengthU * 2 > length extStr then Inr []
            else rbind (go_slice extStr (j + 4) (j + 6)) (\<lambda>cls.
              case parse cls 8 of
                None \<Rightarrow> Inr []
              | Some classU \<Rightarrow>
                  if classU = 1 then
                    if j + lengthU * 2 \<le> j + 8 then Inr []
                    else rbind (go_slice extStr (j + 8) (j + lengthU * 2)) (\<lambda>mplsPayload.
                      if length mplsPayload mod 8 \<noteq> 0 then Inr []
                      else case lse_loop mplsPayload of
                        None \<Rightarrow> Inr []
                      | Some ls \<Rightarrow> mpls_objects extStr (j + lengthU * 2) (acc @ ls))
                  else mpls_objects extStr (j + lengthU * 2) acc)))"
  by pat_completeness auto
termination by (relation "measure (\<lambda>(s, j, acc). length s - j)") auto

declare mpls_objects.simps [simp del]

definition extractMPLS :: "received_message \<Rightarrow> bool \<Rightarrow> (unit, string list) res" where
  "extractMPLS msg disableMPLS =
     (if disableMPLS then Inr []
      else let extStr = findValid (hex_string (rm_Msg msg)) in
        if extStr = [] then Inr [] else mpls_objects extStr 8 [])"

subsection \<open>Reading back what was printed\<close>

lemma hex_digit_char: "d < 16 \<Longrightarrow> hex_digit (digit_char d) = Some d"
  by (auto simp: hex_digit_def digit_char_def Let_def)

lemma hex_value_bytes: "hex_value acc (hex_string bs) = Some (fold (\<lambda>b a. 256 * a + unat b) bs acc)"
proof (induction bs arbitrary: acc)
  case (Cons b bs)
  have "unat b div 16 < 16" using unat_byte_less [of b] by linarith
  then show ?case using Cons by (simp add: hex_string_def hex_byte_def hex_digit_char add.commute)
qed (simp add: hex_string_def)

lemma length_hex_string [simp]: "length (hex_string bs) = 2 * length bs"
  by (induction bs) (simp_all add: hex_string_def hex_byte_def)

lemma hex_string_append: "hex_string (xs @ ys) = hex_string xs @ hex_string ys"
  by (simp add: hex_string_def)

lemma take_hex [simp]: "take (2 * n) (hex_string bs) = hex_string (take n bs)"
proof (induction bs arbitrary: n)
  case (Cons b bs)
  then show ?case by (cases n) (simp_all add: hex_string_def hex_byte_def)
qed (simp add: hex_string_def)

lemma drop_hex [simp]: "drop (2 * n) (hex_string bs) = hex_string (drop n bs)"
proof (induction bs arbitrary: n)
  case (Cons b bs)
  then show ?case by (cases n) (simp_all add: hex_string_def hex_byte_def)
qed (simp add: hex_string_def)

lemma hex_string_inj: "hex_string xs = hex_string ys \<longleftrightarrow> xs = ys"
proof
  assume e: "hex_string xs = hex_string ys"
  show "xs = ys"
  proof (rule nth_equalityI)
    show l: "length xs = length ys" using arg_cong [OF e, of length] by simp
    show "xs ! i = ys ! i" if i: "i < length xs" for i
    proof -
      have "hex_string (take 1 (drop i xs)) = hex_string (take 1 (drop i ys))"
        using e by (simp flip: take_hex drop_hex)
      then have "hex_value 0 (hex_string [xs ! i]) = hex_value 0 (hex_string [ys ! i])"
        using i l by (simp add: take_Suc_conv_app_nth)
      then show ?thesis by (simp add: hex_value_bytes word_unat_eq_iff)
    qed
  qed
qed simp

lemma go_slice_hex: "a \<le> b \<Longrightarrow> b \<le> length bs \<Longrightarrow>
    go_slice (hex_string bs) (2 * a) (2 * b) = Inr (hex_string (take (b - a) (drop a bs)))"
  by (simp flip: diff_mult_distrib2)

lemma parse_hex: "parse (hex_string bs) k =
    (if bs = [] then None
     else let v = fold (\<lambda>b a. 256 * a + unat b) bs 0 in if v < 2 ^ k then Some v else None)"
proof -
  have "hex_string bs = [] \<longleftrightarrow> bs = []" using hex_string_inj [of bs "[]"] by (simp add: hex_string_def)
  then show ?thesis by (simp add: parse_def hex_value_bytes Let_def)
qed

subsection \<open>The scan finds the extension\<close>

definition version_at :: "byte list \<Rightarrow> bool" where
  "version_at bs \<longleftrightarrow> take 2 bs = [0x20, 0x00]"

text \<open>No later word of the message, at least eight bytes before its end, looks like a version.\<close>

definition unambiguous :: "byte list \<Rightarrow> bool" where
  "unambiguous ext \<longleftrightarrow> (\<forall>q. 3 \<le> q \<and> 4 * q < length ext \<longrightarrow> \<not> version_at (drop (length ext - 4 * q) ext))"

lemma take_hex_version: "take 4 (hex_string bs) = ''2000'' \<longleftrightarrow> version_at bs"
proof -
  have "hex_string [0x20, 0x00] = ''2000''" by code_simp
  moreover have "take 4 (hex_string bs) = hex_string (take 2 bs)" using take_hex [of 2 bs] by simp
  ultimately show ?thesis by (metis hex_string_inj version_at_def)
qed

lemma find_ext_step:
  assumes "m \<le> length bs"
  shows "find_ext (hex_string bs) (2 * int m) =
    (if version_at (drop m bs) \<and> m + 12 \<le> length bs then hex_string (drop m bs)
     else find_ext (hex_string bs) (2 * (int m - 4)))"
proof -
  have d: "drop (nat (2 * int m)) (hex_string bs) = hex_string (drop m bs)"
    using drop_hex [of m bs] by (simp add: nat_mult_distrib)
  have "(2 * int (length bs) - (2 * int m + 8)) div 2 = int (length bs) - int m - 4" by simp
  then show ?thesis
    by (subst find_ext.simps) (auto simp: d take_hex_version Let_def)
qed

lemma findValid_ext:
  assumes "version_at ext" "12 \<le> length ext" "4 dvd length ext" "unambiguous ext"
  shows "findValid (hex_string (pre @ ext)) = hex_string ext"
proof -
  let ?bs = "pre @ ext"
  have "find_ext (hex_string ?bs) (2 * int (length ?bs - 4 * q)) = hex_string ext"
    if "1 \<le> q" "4 * q \<le> length ext" for q
    using that
  proof (induction "length ext - 4 * q" arbitrary: q rule: less_induct)
    case less
    let ?m = "length ?bs - 4 * q"
    have dm: "drop ?m ?bs = drop (length ext - 4 * q) ext" using less.prems by simp
    show ?case
    proof (cases "4 * q = length ext")
      case True
      then show ?thesis using assms(1,2) less.prems by (subst find_ext_step) (simp_all add: dm)
    next
      case False
      then have q: "4 * (q + 1) \<le> length ext" using assms(3) less.prems by (auto elim!: dvdE)
      have "\<not> (version_at (drop ?m ?bs) \<and> ?m + 12 \<le> length ?bs)"
        using assms(4) q less.prems unfolding dm unambiguous_def by (cases "3 \<le> q") auto
      moreover have "2 * (int ?m - 4) = 2 * int (length ?bs - 4 * (q + 1))" using q less.prems by simp
      moreover have "find_ext (hex_string ?bs) (2 * int (length ?bs - 4 * (q + 1))) = hex_string ext"
        using q less.prems by (intro less.hyps) auto
      moreover have "?m \<le> length ?bs" by simp
      ultimately show ?thesis by (simp only: find_ext_step if_False)
    qed
  qed
  from this [of 1] have "find_ext (hex_string ?bs) (int (length (hex_string ?bs)) - 8) = hex_string ext"
    using assms(2) by (simp add: of_nat_diff)
  then show ?thesis using assms(2) by (simp add: findValid_def Let_def)
qed

subsection \<open>The label stack\<close>

definition enc32 :: "32 word \<Rightarrow> byte list" where
  "enc32 w = enc16 (unat w div 65536) @ enc16 (unat w mod 65536)"

lemma length_enc32 [simp]: "length (enc32 w) = 4"
  by (simp add: enc32_def)

lemma enc32_value: "fold (\<lambda>b a. 256 * a + unat b) (enc32 w) 0 = unat w"
proof -
  have "unat w < 4294967296" using unsigned_less [of w, where 'a = nat] by simp
  then have "unat w div 65536 < 65536" "unat w mod 65536 < 65536" by simp_all
  then have "unat w div 65536 div 256 < 256" "unat w mod 65536 div 256 < 256" by simp_all
  then show ?thesis by (simp add: enc32_def enc16_def)
qed

definition mpls_object :: "byte \<Rightarrow> 32 word list \<Rightarrow> byte list" where
  "mpls_object ctype ws = enc16 (4 + 4 * length ws) @ [1, ctype] @ concat (map enc32 ws)"

definition mpls_extension :: "byte list \<Rightarrow> byte \<Rightarrow> 32 word list \<Rightarrow> byte list" where
  "mpls_extension cks ctype ws = [0x20, 0x00] @ cks @ mpls_object ctype ws"

lemma lse_loop_hex: "lse_loop (hex_string (concat (map enc32 ws))) = Some (map format_lse ws)"
proof (induction ws)
  case (Cons w ws)
  have t: "take 8 (hex_string (enc32 w @ bs)) = hex_string (enc32 w)"
      "drop 8 (hex_string (enc32 w @ bs)) = hex_string bs" for bs
    using take_hex [of 4 "enc32 w @ bs"] drop_hex [of 4 "enc32 w @ bs"] by simp_all
  have "unat w < 2 ^ 32" using unsigned_less [of w, where 'a = nat] by simp
  moreover have "enc32 w \<noteq> []" by (simp add: enc32_def enc16_def)
  ultimately show ?case
    using Cons by (subst lse_loop.simps) (simp add: t parse_hex enc32_value Let_def)
qed (subst lse_loop.simps, simp add: hex_string_def)

lemma length_lses [simp]: "length (concat (map enc32 ws)) = 4 * length ws"
  by (induction ws) simp_all

lemma nth_hex_slices:
  fixes ctype :: byte and ws :: "32 word list"
  assumes "length cks = 2"
  defines "ext \<equiv> mpls_extension cks ctype ws" and "n \<equiv> 4 + 4 * length ws"
  shows "go_slice (hex_string ext) 8 12 = (Inr (hex_string (enc16 n)) :: (unit, string) res)"
    "go_slice (hex_string ext) 12 14 = (Inr (hex_string [1]) :: (unit, string) res)"
    "go_slice (hex_string ext) 16 (8 + n * 2) = (Inr (hex_string (concat (map enc32 ws))) :: (unit, string) res)"
    "length ext = 4 + n"
proof -
  have c: "length (concat (map enc32 ws)) = 4 * length ws" by (induction ws) simp_all
  show l: "length ext = 4 + n" using assms(1) by (simp add: ext_def n_def mpls_extension_def mpls_object_def c)
  obtain a b where cks: "cks = [a, b]" using assms(1) by (auto simp: length_Suc_conv numeral_2_eq_2)
  show "go_slice (hex_string ext) 8 12 = (Inr (hex_string (enc16 n)) :: (unit, string) res)"
    using go_slice_hex [of 4 6 ext] l
    by (simp add: ext_def n_def mpls_extension_def mpls_object_def cks enc16_def)
  show "go_slice (hex_string ext) 12 14 = (Inr (hex_string [1]) :: (unit, string) res)"
    using go_slice_hex [of 6 7 ext] l
    by (simp add: ext_def n_def mpls_extension_def mpls_object_def cks enc16_def)
  show "go_slice (hex_string ext) 16 (8 + n * 2) = (Inr (hex_string (concat (map enc32 ws))) :: (unit, string) res)"
    using go_slice_hex [of 8 "4 + n" ext] l
    by (simp add: ext_def n_def mpls_extension_def mpls_object_def cks enc16_def c)
qed

text \<open>C7. A router that reports the label stack of a packet (RFC 4884 and 4950) has its labels read back:
  from any message that ends in a well-formed extension with an MPLS object, \<open>extractMPLS\<close> returns
  exactly the entries of the stack, in order, whatever bytes were quoted before it, as long as no
  later word of the extension looks like the version of an extension header.\<close>

theorem labels_read_back:
  assumes "length cks = 2" "ws \<noteq> []" "length ws < 2047" "unambiguous (mpls_extension cks ctype ws)"
    "rm_Msg msg = quoted @ mpls_extension cks ctype ws"
  shows "extractMPLS msg False = Inr (map format_lse ws)"
proof -
  let ?ext = "mpls_extension cks ctype ws" and ?n = "4 + 4 * length ws"
  note slices = nth_hex_slices [OF assms(1), of ctype ws]
  have v: "version_at ?ext" by (simp add: version_at_def mpls_extension_def)
  have ws: "1 \<le> length ws" using assms(2) by (cases ws) simp_all
  then have l: "12 \<le> length ?ext" "4 dvd length ?ext" using slices(4) by simp_all
  have f: "findValid (hex_string (rm_Msg msg)) = hex_string ?ext"
    unfolding assms(5) by (rule findValid_ext [OF v l assms(4)])
  have "fold (\<lambda>b a. 256 * a + unat b) (enc16 ?n) 0 = ?n"
    using assms(3) by (simp add: enc16_def)
  then have p: "parse (hex_string (enc16 ?n)) 16 = Some ?n" using assms(3)
    by (simp add: parse_hex Let_def enc16_def)
  have q: "parse (hex_string [1]) 8 = Some 1" by (simp add: parse_hex)
  have "?ext \<noteq> []" using l(1) by (metis list.size(3) not_numeral_le_zero)
  then have ne: "hex_string ?ext \<noteq> []" using hex_string_inj [of ?ext "[]"] by (simp add: hex_string_def)
  have "mpls_objects (hex_string ?ext) 8 [] = Inr (map format_lse ws)"
  proof -
    have e: "mpls_objects (hex_string ?ext) (8 + ?n * 2) ls = Inr ls" for ls
      using slices(4) by (subst mpls_objects.simps) simp
    have c: "length (hex_string (concat (map enc32 ws))) mod 8 = 0"
      by (induction ws) (simp_all add: hex_string_append)
    have d: "take (?n * 2 - 8) (drop 16 (hex_string ?ext)) = hex_string (concat (map enc32 ws))"
      using slices(3,4) by (simp add: length_lses)
    show ?thesis
      using ws slices(4) e d
      by (subst mpls_objects.simps) (simp add: slices(1,2) p q c lse_loop_hex)
  qed
  then show ?thesis by (simp add: extractMPLS_def f ne Let_def)
qed


text \<open>All slices are in range.\<close>

lemma mpls_objects_eq:
  "mpls_objects extStr j acc =
     (if \<not> j + 8 \<le> length extStr then Inr acc
      else case parse (take 4 (drop j extStr)) 16 of
        None \<Rightarrow> Inr []
      | Some n \<Rightarrow>
          if n < 4 \<or> j + n * 2 > length extStr then Inr []
          else case parse (take 2 (drop (j + 4) extStr)) 8 of
            None \<Rightarrow> Inr []
          | Some classU \<Rightarrow>
              if classU = 1 then
                if n = 4 \<or> (n * 2 - 8) mod 8 \<noteq> 0 then Inr []
                else (case lse_loop (take (n * 2 - 8) (drop (j + 8) extStr)) of
                        None \<Rightarrow> Inr []
                      | Some ls \<Rightarrow> mpls_objects extStr (j + n * 2) (acc @ ls))
              else mpls_objects extStr (j + n * 2) acc)"
  by (subst mpls_objects.simps) (auto split: option.split)

lemma mpls_objects_total: "\<exists>ls. mpls_objects extStr j acc = Inr ls"
proof (induction "length extStr - j" arbitrary: j acc rule: less_induct)
  case less
  have ih: "\<exists>ls. mpls_objects extStr (j + n * 2) acc' = Inr ls"
    if "j + 8 \<le> length extStr" "4 \<le> n" for n acc'
    using that by (intro less) simp
  show ?case by (subst mpls_objects_eq) (auto split: option.split intro!: ih ih [of 4, simplified])
qed

lemma extractMPLS_total: "\<exists>ls. extractMPLS msg disableMPLS = Inr ls"
  by (simp add: extractMPLS_def Let_def mpls_objects_total)

text \<open>A label stack whose first entry has label 131072: its second word is taken for the version.\<close>

definition lost_stack :: "byte list" where
  "lost_stack = mpls_extension [0, 0] 1 [0x20000140, 0x00064140, 0x00065101]"

theorem stack_lost:
  "extractMPLS \<lparr>rm_Peer = None, rm_Msg = quoted @ lost_stack, rm_Err = False\<rparr> False = Inr []"
proof -
  let ?ext = "[0x20, 0, 1, 0x40, 0, 6, 0x41, 0x40, 0, 6, 0x51, 1] :: byte list"
  have s: "lost_stack = [0x20, 0, 0, 0, 0, 16, 1, 1] @ ?ext"
    by (simp add: lost_stack_def mpls_extension_def mpls_object_def enc32_def enc16_def)
  have f: "findValid (hex_string (quoted @ lost_stack)) = hex_string ?ext"
    unfolding s append_assoc [symmetric] 
  proof (rule findValid_ext)
    show "version_at ?ext" "12 \<le> length ?ext" by code_simp+
    have l: "length ?ext = 12" by simp
    show "4 dvd length ?ext" unfolding l by simp
    show "unambiguous ?ext" unfolding unambiguous_def l by auto
  qed
  have h: "hex_string ?ext = ''200001400006414000065101''" by code_simp
  have p: "parse ''0006'' 16 = Some 6" "parse ''41'' 8 = Some 65"
    by (simp_all add: parse_def hex_digit_def)
  have "take 4 (drop 8 (hex_string ?ext)) = ''0006''" "take 2 (drop 12 (hex_string ?ext)) = ''41''"
    unfolding h by simp_all
  then have "mpls_objects (hex_string ?ext) 8 [] = mpls_objects (hex_string ?ext) 20 []"
    by (subst mpls_objects_eq) (simp add: p)
  moreover have "mpls_objects (hex_string ?ext) 20 [] = Inr []"
    by (subst mpls_objects_eq) simp
  ultimately have "mpls_objects (hex_string ?ext) 8 [] = Inr []" by simp
  then show ?thesis unfolding extractMPLS_def by (simp add: f) (simp add: h)
qed

theorem labels_read_back_witness:
  "extractMPLS \<lparr>rm_Peer = None, rm_Msg = [0x45, 0, 0, 1] @ mpls_extension [7, 8] 1 [0x00064140, 0x00065101], rm_Err = False\<rparr> False =
    Inr [''[MPLS: Lbl 100, TC 0, S 1, TTL 64]'', ''[MPLS: Lbl 101, TC 0, S 1, TTL 1]'']"
proof -
  let ?ext = "mpls_extension [7, 8] 1 [0x00064140, 0x00065101]"
  have u: "unambiguous (mpls_extension [7, 8] 1 [0x00064140, 0x00065101])"
    unfolding unambiguous_def
  proof (intro allI impI, elim conjE)
    fix q assume q: "3 \<le> q" "4 * q < length ?ext"
    moreover have l: "length ?ext = 16" by (simp add: mpls_extension_def mpls_object_def enc32_def enc16_def)
    ultimately have "q = 3" by simp
    then show "\<not> version_at (drop (length ?ext - 4 * q) ?ext)"
      unfolding l by (simp add: mpls_extension_def mpls_object_def enc32_def enc16_def version_at_def)
  qed
  show ?thesis
    by (subst labels_read_back [of "[7, 8]" "[0x00064140, 0x00065101]" 1, OF _ _ _ u]) (simp, simp, simp, simp, code_simp)
qed

end
