(* ===== verification/Packet_Size.thy ===== *)
theory Packet_Size
  imports Trace_Config
begin

section \<open>Packet sizes: \<open>trace/packet_size.go\<close>\<close>

text \<open>
  A user gives the size of the whole IP packet, negative for a random size up to it; the tracers work
  with the size of the payload. \<open>draw n\<close> is \<open>rand.Intn(n)\<close>, a number below \<open>n\<close>. A Go \<open>int\<close> has
  64 bits, so its smallest value is its own negation.
\<close>

definition ipv4HeaderBytes :: int where "ipv4HeaderBytes = 20"
definition ipv6HeaderBytes :: int where "ipv6HeaderBytes = 40"
definition icmpHeaderBytes :: int where "icmpHeaderBytes = 8"
definition udpHeaderBytes :: int where "udpHeaderBytes = 8"
definition tcpProbeHeaderBytes :: int where "tcpProbeHeaderBytes = 24"
definition udpV6MinPayload :: int where "udpV6MinPayload = 2"

lemmas packet_size_consts = ipv4HeaderBytes_def ipv6HeaderBytes_def icmpHeaderBytes_def udpHeaderBytes_def
  tcpProbeHeaderBytes_def udpV6MinPayload_def

record PacketSizeSpec =
  PayloadSize :: int
  Random :: bool

definition packetSizeIPHeaderBytes :: "ip \<Rightarrow> int" where
  "packetSizeIPHeaderBytes dstIP = (if IsIPv6 dstIP then ipv6HeaderBytes else ipv4HeaderBytes)"

fun packetSizeProtocolHeaderBytes :: "Method \<Rightarrow> int" where
  "packetSizeProtocolHeaderBytes TCPTrace = tcpProbeHeaderBytes"
| "packetSizeProtocolHeaderBytes UDPTrace = udpHeaderBytes"
| "packetSizeProtocolHeaderBytes _ = icmpHeaderBytes"

definition packetSizeMinPayload :: "Method \<Rightarrow> ip \<Rightarrow> int" where
  "packetSizeMinPayload method dstIP = (if method = UDPTrace \<and> IsIPv6 dstIP then udpV6MinPayload else 0)"

definition MinPacketSize :: "Method \<Rightarrow> ip \<Rightarrow> int" where
  "MinPacketSize method dstIP =
     packetSizeIPHeaderBytes dstIP + packetSizeProtocolHeaderBytes method + packetSizeMinPayload method dstIP"

definition DefaultPacketSize :: "Method \<Rightarrow> ip \<Rightarrow> int" where
  "DefaultPacketSize = MinPacketSize"

definition packetSizeFamilyLabel :: "ip \<Rightarrow> string" where
  "packetSizeFamilyLabel dstIP = (if IsIPv6 dstIP then ''IPv6'' else ''IPv4'')"

fun method_string :: "Method \<Rightarrow> string" where
  "method_string ICMPTrace = ''icmp''"
| "method_string UDPTrace = ''udp''"
| "method_string TCPTrace = ''tcp''"
| "method_string (OtherMethod s) = s"

definition too_small :: "Method \<Rightarrow> ip \<Rightarrow> int \<Rightarrow> string" where
  "too_small method dstIP packetSize =
     ''packet size '' @ int_dec packetSize @ '' is too small for '' @ method_string method @ '' over '' @
     packetSizeFamilyLabel dstIP @ ''; minimum is '' @ int_dec (MinPacketSize method dstIP)"

definition neg64 :: "int \<Rightarrow> int" where
  "neg64 i = (if i = - (2 ^ 63) then i else - i)"

definition NormalizePacketSize :: "Method \<Rightarrow> ip \<Rightarrow> int \<Rightarrow> (string, PacketSizeSpec) res" where
  "NormalizePacketSize method dstIP packetSize =
     (let random = packetSize < 0;
          packetSizeAbs = (if random then neg64 packetSize else packetSize);
          minSize = MinPacketSize method dstIP
      in if packetSizeAbs < minSize then Inl (Err (too_small method dstIP packetSize))
         else
           let payloadSize = packetSizeAbs - packetSizeIPHeaderBytes dstIP - packetSizeProtocolHeaderBytes method in
           if payloadSize < packetSizeMinPayload method dstIP then Inl (Err (too_small method dstIP packetSize))
           else Inr \<lparr>PayloadSize = payloadSize, Random = random\<rparr>)"

definition resolveProbePayloadSize :: "(int \<Rightarrow> int) \<Rightarrow> Method \<Rightarrow> ip \<Rightarrow> int \<Rightarrow> bool \<Rightarrow> int" where
  "resolveProbePayloadSize draw method dstIP maxPayloadSize randomPerProbe =
     (let minPayload = packetSizeMinPayload method dstIP in
      if \<not> randomPerProbe \<or> maxPayloadSize \<le> minPayload then maxPayloadSize
      else minPayload + draw (maxPayloadSize - minPayload + 1))"

definition FormatPacketSizeLabel :: "int \<Rightarrow> string" where
  "FormatPacketSizeLabel packetSize =
     (if packetSize < 0 then ''random <= '' @ int_dec (neg64 packetSize) @ '' byte packets''
      else int_dec packetSize @ '' byte packets'')"

subsection \<open>The sizes on the wire\<close>

definition wire_size :: "Method \<Rightarrow> ip \<Rightarrow> int \<Rightarrow> int" where
  "wire_size method dstIP payload = packetSizeIPHeaderBytes dstIP + packetSizeProtocolHeaderBytes method + payload"

text \<open>The size a user asks for is the size on the wire: an accepted size is sent exactly, a
  negative one stands for sizes between the minimum of the protocol and its absolute value, whatever
  the random numbers are; a size is rejected exactly when its absolute value is below the minimum,
  and the payload always has room for the two bytes that steer the checksum of a UDP probe over IPv6.\<close>

theorem packet_size_respected:
  assumes "\<And>n. 0 < n \<Longrightarrow> 0 \<le> draw n \<and> draw n < n" "- (2 ^ 63) < packetSize"
  shows "(case NormalizePacketSize method dstIP packetSize of
      Inl e \<Rightarrow> \<bar>packetSize\<bar> < MinPacketSize method dstIP \<and> e = Err (too_small method dstIP packetSize)
    | Inr spec \<Rightarrow>
        let payload = resolveProbePayloadSize draw method dstIP (PayloadSize spec) (Random spec) in
        MinPacketSize method dstIP \<le> wire_size method dstIP payload \<and>
        wire_size method dstIP payload \<le> \<bar>packetSize\<bar> \<and>
        (0 \<le> packetSize \<longrightarrow> wire_size method dstIP payload = packetSize) \<and>
        packetSizeMinPayload method dstIP \<le> payload)"
proof -
  let ?min = "packetSizeMinPayload method dstIP"
  let ?p = "\<bar>packetSize\<bar> - packetSizeIPHeaderBytes dstIP - packetSizeProtocolHeaderBytes method"
  have a: "(if packetSize < 0 then neg64 packetSize else packetSize) = \<bar>packetSize\<bar>"
    using assms(2) by (simp add: neg64_def)
  have "0 \<le> draw (?p - ?min + 1) \<and> draw (?p - ?min + 1) < ?p - ?min + 1" if "?min < ?p"
    using that by (intro assms(1)) linarith
  then show ?thesis
    by (auto simp: NormalizePacketSize_def a Let_def MinPacketSize_def resolveProbePayloadSize_def wire_size_def)
qed

theorem packet_size_respected_witness:
  "NormalizePacketSize UDPTrace [192, 0, 2, 1] (-100) = Inr \<lparr>PayloadSize = 72, Random = True\<rparr> \<and>
   28 \<le> wire_size UDPTrace [192, 0, 2, 1] (resolveProbePayloadSize (\<lambda>n. n - 1) UDPTrace [192, 0, 2, 1] 72 True)"
proof -
  have n: "NormalizePacketSize UDPTrace [192, 0, 2, 1] (-100) = Inr \<lparr>PayloadSize = 72, Random = True\<rparr>"
    by code_simp
  have "MinPacketSize UDPTrace [192, 0, 2, 1] = 28" by code_simp
  then show ?thesis
    using packet_size_respected [of "\<lambda>n. n - 1" "-100" UDPTrace "[192, 0, 2, 1]"] n by (simp add: Let_def)
qed

end
