(* ===== verification/Tcp_Tracer.thy ===== *)
theory Tcp_Tracer
  imports Tracer_Core Icmp_Decode Mpls Packet_Size
begin

unbundle bit_operations_syntax

section \<open>The TCP tracer: \<open>trace/tcp_ipv4.go\<close> (and its IPv6 twin)\<close>

text \<open>
  A TCP probe carries its TTL and attempt in its sequence number. A router quotes that number in its
  ICMP error; the destination acknowledges it, in a SYN-ACK as the next number and in a reset as the
  number after the payload too, which \<open>lookupSentByAck\<close> searches for in the map of probes. The order
  in which Go iterates over that map is the parameter \<open>order\<close>.
\<close>

record tcp_state = tracer_core +
  tc_pending :: "int set"
  tc_sentAt :: "int \<rightharpoonup> sentInfo"
  tc_matchQ :: "portTask list"
  tc_taken :: "portTask list"
  tc_local :: "int \<times> int \<Rightarrow> nat \<times> int"

text \<open>\<open>tc_local\<close> holds the source port and the payload size that the goroutine of an attempt chose.\<close>

definition tcp_init :: "Config \<Rightarrow> tcp_state" where
  "tcp_init c = tracer_core.extend (tr_init c)
     \<lparr>tc_pending = {}, tc_sentAt = Map.empty, tc_matchQ = [], tc_taken = [], tc_local = (\<lambda>_. (0, 0))\<rparr>"

subsection \<open>The handlers\<close>

definition tcp_seqOf :: "int \<Rightarrow> int \<Rightarrow> int" where
  "tcp_seqOf ttl i = push_bit 24 ttl OR (i AND 0xFFFFFF)"

definition tcp_markPending :: "tcp_state \<Rightarrow> int \<Rightarrow> tcp_state" where
  "tcp_markPending t seq = t\<lparr>tc_pending := insert seq (tc_pending t)\<rparr>"

definition tcp_clearPending :: "tcp_state \<Rightarrow> int \<Rightarrow> tcp_state \<times> bool" where
  "tcp_clearPending t seq = (t\<lparr>tc_pending := tc_pending t - {seq}\<rparr>, seq \<in> tc_pending t)"

definition tcp_storeSent :: "tcp_state \<Rightarrow> int \<Rightarrow> nat \<Rightarrow> int \<Rightarrow> int \<Rightarrow> tcp_state" where
  "tcp_storeSent t seq srcPort payloadSize start =
     t\<lparr>tc_sentAt := (tc_sentAt t)(seq \<mapsto>
       \<lparr>si_ttl = 0, si_i = 0, si_srcPort = srcPort, si_payloadSize = payloadSize, si_start = start\<rparr>)\<rparr>"

definition tcp_lookupSent :: "tcp_state \<Rightarrow> int \<Rightarrow> (nat \<times> int) option" where
  "tcp_lookupSent t seq = map_option (\<lambda>si. (si_srcPort si, si_start si)) (tc_sentAt t seq)"

definition tcp_dropSent :: "tcp_state \<Rightarrow> int \<Rightarrow> tcp_state" where
  "tcp_dropSent t seq = t\<lparr>tc_sentAt := (tc_sentAt t)(seq := None)\<rparr>"

text \<open>The sequence number, source port and start time that one match attempt finds.\<close>

definition tcp_lookup :: "tcp_state \<Rightarrow> (int \<times> sentInfo) list \<Rightarrow> portTask \<Rightarrow> (int \<times> nat \<times> int) option" where
  "tcp_lookup t order task =
     (if pt_ack task \<noteq> 0
      then map_option (\<lambda>(seq, start). (seq, pt_srcPort task, start))
             (lookupTCPSentByAck order (pt_srcPort task) (pt_ack task))
      else map_option (\<lambda>(srcPort, start). (pt_seq task, srcPort, start)) (tcp_lookupSent t (pt_seq task)))"

definition tcp_match_task ::
    "Config \<Rightarrow> tcp_state \<Rightarrow> (int \<times> sentInfo) list \<Rightarrow> portTask \<Rightarrow> (unit, tcp_state) res" where
  "tcp_match_task c t order task =
     (case tcp_lookup t order task of
        None \<Rightarrow> Inr t
      | Some (seq, srcPort, start) \<Rightarrow>
          if pt_srcPort task \<noteq> srcPort then Inr t
          else
            let u = take_bit 32 seq;
                ttl = drop_bit 24 u AND 0xFF;
                i = u AND 0xFFFFFF;
                cl = tcp_clearPending t seq
            in rbind (if snd cl
                      then tr_addHopWithIndex c (fst cl) (pt_peer task) ttl i (pt_finish task - start) (pt_mpls task)
                      else Inr (fst cl))
                 (\<lambda>t. Inr (tcp_dropSent t seq)))"

definition tcp_enqueue :: "tcp_state \<Rightarrow> portTask \<Rightarrow> tcp_state" where
  "tcp_enqueue t task = (if length (tc_matchQ t) < 60 then t\<lparr>tc_matchQ := tc_matchQ t @ [task]\<rparr> else t)"

text \<open>The callback of \<open>ListenICMP\<close>: the task a quoted probe is turned into, and its non-blocking send.\<close>

definition tcp_quoted_task ::
    "Config \<Rightarrow> received_message \<Rightarrow> int \<Rightarrow> byte list \<Rightarrow> (unit, portTask option) res" where
  "tcp_quoted_task c msg finish data =
     rbind (extractMPLS msg (DisableMPLS c)) (\<lambda>mpls.
       or_return (GetICMPResponsePayload data) (\<lambda>header.
         or_return (GetTCPPorts header) (\<lambda>(srcPort, dstPort).
           if int dstPort \<noteq> DstPort c then Inr None
           else or_return (GetTCPSeq header) (\<lambda>seq.
             Inr (Some \<lparr>pt_srcPort = srcPort, pt_seq = int seq, pt_ack = 0, pt_peer = rm_Peer msg,
                        pt_finish = finish, pt_mpls = mpls\<rparr>)))))"

definition tcp_handleICMPMessage ::
    "Config \<Rightarrow> tcp_state \<Rightarrow> received_message \<Rightarrow> int \<Rightarrow> byte list \<Rightarrow> (unit, tcp_state) res" where
  "tcp_handleICMPMessage c t msg finish data =
     rbind (tcp_quoted_task c msg finish data) (\<lambda>m. case m of None \<Rightarrow> Inr t | Some task \<Rightarrow> Inr (tcp_enqueue t task))"

text \<open>The callback of \<open>ListenTCP\<close>.\<close>

definition tcp_handleTCP :: "tcp_state \<Rightarrow> nat \<times> int \<times> int \<times> addr \<Rightarrow> int \<Rightarrow> tcp_state" where
  "tcp_handleTCP t = (\<lambda>(srcPort, seq, ack, peer) finish.
     tcp_enqueue t \<lparr>pt_srcPort = srcPort, pt_seq = seq, pt_ack = ack, pt_peer = Some peer,
                    pt_finish = finish, pt_mpls = []\<rparr>)"

text \<open>\<open>send\<close> until \<open>SendTCP\<close>; the port is the configured or a free one, the size as resolved.\<close>

definition tcp_send_enter :: "Config \<Rightarrow> tcp_state \<Rightarrow> int \<times> int \<Rightarrow> nat \<Rightarrow> (int \<Rightarrow> int) \<Rightarrow> tcp_state" where
  "tcp_send_enter c t a srcPort draw =
     tr_send_enter c (\<lambda>t.
       let desiredPayloadSize = resolveProbePayloadSize draw TCPTrace (DstIP c) (PktSize c) (RandomPacketSize c)
       in (tcp_markPending t (tcp_seqOf (fst a) (snd a)))\<lparr>tc_local := (tc_local t)(a := (srcPort, desiredPayloadSize))\<rparr>) t a"

definition tcp_send_ok :: "tcp_state \<Rightarrow> int \<times> int \<Rightarrow> int \<Rightarrow> tcp_state" where
  "tcp_send_ok t a start =
     (tcp_storeSent t (tcp_seqOf (fst a) (snd a)) (fst (tc_local t a)) (snd (tc_local t a)) start)
       \<lparr>tr_sending := remove1 a (tr_sending t)\<rparr>"

definition tcp_send_error :: "tcp_state \<Rightarrow> int \<times> int \<Rightarrow> tcp_state" where
  "tcp_send_error t a =
     (let cl = tcp_clearPending t (tcp_seqOf (fst a) (snd a)) in
      (fst cl)\<lparr>tr_sending := remove1 a (tr_sending t),
        tr_failed := (if snd cl then insert a (tr_failed t) else tr_failed t)\<rparr>)"

definition tcp_timeout_fires :: "Config \<Rightarrow> tcp_state \<Rightarrow> int \<times> int \<Rightarrow> (unit, tcp_state) res" where
  "tcp_timeout_fires c t a =
     (let seq = tcp_seqOf (fst a) (snd a);
          cl = tcp_clearPending (t\<lparr>tr_timers := tr_timers t - {a}\<rparr>) seq
      in if \<not> snd cl then Inr (fst cl)
         else rbind (tr_report_timeout c (fst cl) a) (\<lambda>(t, dropped).
                Inr (if dropped then tcp_dropSent t seq else t)))"

definition tcp_timeout_cancelled :: "tcp_state \<Rightarrow> int \<times> int \<Rightarrow> tcp_state" where
  "tcp_timeout_cancelled t a =
     fst (tcp_clearPending (t\<lparr>tr_timers := tr_timers t - {a}\<rparr>) (tcp_seqOf (fst a) (snd a)))"

definition good_draw :: "(int \<Rightarrow> int) \<Rightarrow> bool" where
  "good_draw draw \<longleftrightarrow> (\<forall>n>0. 0 \<le> draw n \<and> draw n < n)"

inductive tcp_step :: "Config \<Rightarrow> tcp_state \<Rightarrow> tcp_state \<Rightarrow> bool" for c where
  TCP_Common: "common_step c s t \<Longrightarrow> tcp_step c s t"
| TCP_Send_Enter: "\<not> tr_finished s \<Longrightarrow> a \<in> tr_waiting s \<Longrightarrow>
    tr_ttlComp c s (fst a) \<or> int (length (tr_sending s)) < ParallelRequests c \<Longrightarrow>
    srcPort < 65536 \<Longrightarrow> good_draw draw \<Longrightarrow> tcp_step c s (tcp_send_enter c s a srcPort draw)"
| TCP_Send_OK: "a \<in> set (tr_sending s) \<Longrightarrow> tcp_step c s (tcp_send_ok s a start)"
| TCP_Send_Error: "a \<in> set (tr_sending s) \<Longrightarrow> tcp_step c s (tcp_send_error s a)"
| TCP_Timeout: "\<not> tr_finished s \<Longrightarrow> a \<in> tr_timers s \<Longrightarrow> tcp_timeout_fires c s a = Inr t \<Longrightarrow> tcp_step c s t"
| TCP_Timeout_Cancelled: "tr_finished s \<Longrightarrow> a \<in> tr_timers s \<Longrightarrow> tcp_step c s (tcp_timeout_cancelled s a)"
| TCP_Quoted: "tcp_handleICMPMessage c s msg finish data = Inr t \<Longrightarrow> tcp_step c s t"
| TCP_Answered: "tcp_step c s (tcp_handleTCP s reply finish)"
| TCP_Take: "\<not> tr_finished s \<Longrightarrow> tc_matchQ s = task # q \<Longrightarrow> length (tc_taken s) < 16 \<Longrightarrow>
    tcp_step c s (s\<lparr>tc_matchQ := q, tc_taken := tc_taken s @ [task]\<rparr>)"
| TCP_Match: "\<not> tr_finished s \<Longrightarrow> tc_taken s = xs @ task # ys \<Longrightarrow>
    map_of order = tc_sentAt s \<Longrightarrow> distinct (map fst order) \<Longrightarrow>
    tcp_match_task c (s\<lparr>tc_taken := xs @ ys\<rparr>) order task = Inr t \<Longrightarrow> tcp_step c s t"


subsection \<open>Sequence numbers\<close>

lemma and_FFFFFF: "i AND 0xFFFFFF = i mod (16777216 :: int)"
proof -
  have "(0xFFFFFF :: int) = mask 24" by (simp add: mask_eq_exp_minus_1)
  then have "i AND 0xFFFFFF = take_bit 24 i" by (simp only: take_bit_eq_mask)
  then show ?thesis by (simp add: take_bit_eq_mod)
qed

lemma tcp_seqOf_eq: "tcp_seqOf ttl i = ttl * 16777216 + i mod 16777216"
proof -
  have "bit (push_bit 24 ttl) k \<Longrightarrow> \<not> bit (take_bit 24 i) k" for k
    by (auto simp: bit_simps)
  then have "push_bit 24 ttl OR take_bit 24 i = push_bit 24 ttl + take_bit 24 i"
    by (intro disjunctive_add [symmetric]) blast
  then show ?thesis by (simp add: tcp_seqOf_def and_FFFFFF push_bit_eq_mult take_bit_eq_mod)
qed

lemma tcp_seq_range:
  assumes "valid_attempt c a" "wf_config c"
  shows "0 \<le> tcp_seqOf (fst a) (snd a)" "tcp_seqOf (fst a) (snd a) < 4294967296"
  using assms by (auto simp: tcp_seqOf_eq valid_attempt_def wf_config_def)

lemma tcp_seq_decode:
  assumes "valid_attempt c a" "wf_config c"
  shows "drop_bit 24 (take_bit 32 (tcp_seqOf (fst a) (snd a))) AND 0xFF = fst a"
    "take_bit 32 (tcp_seqOf (fst a) (snd a)) AND 0xFFFFFF = snd a"
proof -
  have r: "1 \<le> fst a" "fst a \<le> 255" "0 \<le> snd a" "snd a < 256"
    using assms by (auto simp: valid_attempt_def wf_config_def)
  then have s: "tcp_seqOf (fst a) (snd a) = fst a * 16777216 + snd a" by (simp add: tcp_seqOf_eq)
  have t: "take_bit 32 (fst a * 16777216 + snd a) = fst a * 16777216 + snd a"
    using r by (intro take_bit_int_eq_self) auto
  show "drop_bit 24 (take_bit 32 (tcp_seqOf (fst a) (snd a))) AND 0xFF = fst a"
    unfolding s t and_FF using r by (simp add: drop_bit_eq_div)
  show "take_bit 32 (tcp_seqOf (fst a) (snd a)) AND 0xFFFFFF = snd a"
    unfolding s t and_FFFFFF using r by simp
qed

lemma tcp_seqOf_inj:
  assumes "wf_config c" "valid_attempt c a" "valid_attempt c b"
    "tcp_seqOf (fst a) (snd a) = tcp_seqOf (fst b) (snd b)"
  shows "a = b"
  using tcp_seq_decode [OF assms(2,1)] tcp_seq_decode [OF assms(3,1)] assms(4) by (simp add: prod_eq_iff)

lemma tcp_seq_eq:
  "wf_config c \<Longrightarrow> valid_attempt c a \<Longrightarrow> valid_attempt c b \<Longrightarrow>
   tcp_seqOf (fst b) (snd b) = tcp_seqOf (fst a) (snd a) \<longleftrightarrow> b = a"
  using tcp_seqOf_inj by blast

subsection \<open>The simulation\<close>

definition tcp_seqs :: "Config \<Rightarrow> int set" where
  "tcp_seqs c = (\<lambda>a. tcp_seqOf (fst a) (snd a)) ` valid_attempts c"

definition tcp_open :: "Config \<Rightarrow> tcp_state \<Rightarrow> (int \<times> int) set" where
  "tcp_open c s = {a \<in> valid_attempts c. tcp_seqOf (fst a) (snd a) \<in> tc_pending s}"

definition tcp_sent :: "Config \<Rightarrow> tcp_state \<Rightarrow> int \<times> int \<rightharpoonup> int" where
  "tcp_sent c s a = (if valid_attempt c a then map_option si_start (tc_sentAt s (tcp_seqOf (fst a) (snd a))) else None)"

definition tcp_view :: "Config \<Rightarrow> tcp_state \<Rightarrow> icmp_state" where
  "tcp_view c s = icmp_view s (tcp_open c s) (tcp_sent c s)"

definition fixed_size :: "Config \<Rightarrow> nat \<times> int \<Rightarrow> bool" where
  "fixed_size c ps \<longleftrightarrow> fst ps < 65536 \<and> (\<not> RandomPacketSize c \<longrightarrow> snd ps = PktSize c)"

definition tcp_inv :: "Config \<Rightarrow> tcp_state \<Rightarrow> bool" where
  "tcp_inv c s \<longleftrightarrow> tc_pending s \<subseteq> tcp_seqs c \<and>
     (\<forall>seq si. tc_sentAt s seq = Some si \<longrightarrow> seq \<in> tcp_seqs c \<and> fixed_size c (si_srcPort si, si_payloadSize si)) \<and>
     (\<forall>a\<in>set (tr_sending s). fixed_size c (tc_local s a))"

lemma open_valid: "tcp_open c s \<subseteq> valid_attempts c"
  by (auto simp: tcp_open_def)

lemma tcp_seqsE:
  assumes "q \<in> tcp_seqs c"
  obtains a where "valid_attempt c a" "q = tcp_seqOf (fst a) (snd a)"
  using assms by (auto simp: tcp_seqs_def valid_attempts_def)

lemma open_mem: "valid_attempt c a \<Longrightarrow> a \<in> tcp_open c s \<longleftrightarrow> tcp_seqOf (fst a) (snd a) \<in> tc_pending s"
  by (simp add: tcp_open_def valid_attempts_def)

lemma tcp_open_cong: "tc_pending t = tc_pending s \<Longrightarrow> tcp_open c t = tcp_open c s"
  by (simp add: tcp_open_def)

lemma tcp_sent_cong: "tc_sentAt t = tc_sentAt s \<Longrightarrow> tcp_sent c t = tcp_sent c s"
  by (simp add: tcp_sent_def fun_eq_iff)

lemma open_insert:
  assumes "wf_config c" "valid_attempt c a" "tc_pending t = insert (tcp_seqOf (fst a) (snd a)) (tc_pending s)"
  shows "tcp_open c t = insert a (tcp_open c s)"
proof (rule set_eqI)
  fix b
  show "b \<in> tcp_open c t \<longleftrightarrow> b \<in> insert a (tcp_open c s)"
    using assms by (cases "valid_attempt c b") (auto simp: tcp_open_def valid_attempts_def tcp_seq_eq)
qed

lemma open_remove:
  assumes "wf_config c" "valid_attempt c a" "tc_pending t = tc_pending s - {tcp_seqOf (fst a) (snd a)}"
  shows "tcp_open c t = tcp_open c s - {a}"
proof (rule set_eqI)
  fix b
  show "b \<in> tcp_open c t \<longleftrightarrow> b \<in> tcp_open c s - {a}"
    using assms by (cases "valid_attempt c b") (auto simp: tcp_open_def valid_attempts_def tcp_seq_eq)
qed

lemma sent_set:
  assumes "wf_config c" "valid_attempt c a" "tc_sentAt t = (tc_sentAt s)(tcp_seqOf (fst a) (snd a) := x)"
  shows "tcp_sent c t = (tcp_sent c s)(a := map_option si_start x)"
proof
  fix b
  show "tcp_sent c t b = ((tcp_sent c s)(a := map_option si_start x)) b"
    using assms by (cases "valid_attempt c b") (auto simp: tcp_sent_def tcp_seq_eq)
qed

lemma common_frame_tcp:
  assumes "common_step c s t"
  shows "tc_pending t = tc_pending s" "tc_sentAt t = tc_sentAt s" "tc_local t = tc_local s" "tr_sending t = tr_sending s"
  using assms by (cases, simp_all add: tr_launch_ttl_def tr_launch_attempt_def tr_print_tick_def Let_def)+

lemma addHop_frame_tcp:
  assumes "tr_addHopWithIndex c s peer ttl i rtt mpls = Inr t"
  shows "tc_pending t = tc_pending s" "tc_sentAt t = tc_sentAt s" "tc_local t = tc_local s" "tr_sending t = tr_sending s"
  using assms by (auto simp: tr_addHopWithIndex_def Let_def rbind_eq_Inr split: if_splits)

lemma report_frame_tcp:
  assumes "tr_report_timeout c s a = Inr (t, dropped)"
  shows "tc_pending t = tc_pending s" "tc_sentAt t = tc_sentAt s" "tc_local t = tc_local s" "tr_sending t = tr_sending s"
  using assms by (auto simp: tr_report_timeout_def Let_def rbind_eq_Inr split: if_splits)

lemma view_extension [simp]:
  "icmp_view (s\<lparr>tc_pending := P\<rparr>) op st = icmp_view s op st" "icmp_view (s\<lparr>tc_sentAt := S\<rparr>) op st = icmp_view s op st"
  "icmp_view (s\<lparr>tc_matchQ := Q\<rparr>) op st = icmp_view s op st" "icmp_view (s\<lparr>tc_taken := T\<rparr>) op st = icmp_view s op st"
  "icmp_view (s\<lparr>tc_local := L\<rparr>) op st = icmp_view s op st"
  by (simp_all add: icmp_view_def)

lemma tcp_queue_step:
  assumes "tcp_inv c s" "t = s\<lparr>tc_matchQ := q, tc_taken := k\<rparr> \<or> t = s\<lparr>tc_matchQ := q\<rparr> \<or> t = s"
  shows "tcp_inv c t \<and> tcp_view c t = tcp_view c s"
proof -
  have "tcp_open c t = tcp_open c s" "tcp_sent c t = tcp_sent c s" "icmp_view t op st = icmp_view s op st" for op st
    using assms(2) by (auto simp: tcp_open_def tcp_sent_def fun_eq_iff)
  then show ?thesis using assms by (auto simp: tcp_view_def tcp_inv_def)
qed

lemma tcp_enqueue_view: "tcp_inv c s \<Longrightarrow> tcp_inv c (tcp_enqueue s task) \<and> tcp_view c (tcp_enqueue s task) = tcp_view c s"
  by (rule tcp_queue_step [where q = "tc_matchQ s @ [task]" and k = "tc_taken s"]) (auto simp: tcp_enqueue_def)

lemma tcp_inv_init: "tcp_inv c (tcp_init c)"
  by (simp add: tcp_inv_def tcp_init_def tr_init_def tracer_core.defs)

lemma tcp_view_init: "tcp_view c (tcp_init c) = icmp_init c"
proof -
  have "tcp_open c (tcp_init c) = {}" "tcp_sent c (tcp_init c) = Map.empty"
    by (simp_all add: tcp_open_def tcp_sent_def fun_eq_iff tcp_init_def tracer_core.defs tr_init_def)
  then show ?thesis
    by (simp add: tcp_view_def tcp_init_def tracer_core.defs tr_init_def icmp_init_def icmp_view_def seqs_def)
qed

text \<open>One lemma per kind of step.\<close>

lemma sim_common:
  assumes "tcp_inv c s" "common_step c s t"
  shows "tcp_inv c t \<and> reaches (icmp_step c) (tcp_view c s) (tcp_view c t)"
proof -
  note f = common_frame_tcp [OF assms(2)]
  have "tcp_view c t = icmp_view t (tcp_open c s) (tcp_sent c s)"
    by (simp add: tcp_view_def tcp_open_cong [OF f(1)] tcp_sent_cong [OF f(2)])
  then have "icmp_step c (tcp_view c s) (tcp_view c t)"
    using view_common [OF assms(2)] by (simp add: tcp_view_def)
  then show ?thesis using assms(1) f by (auto simp: tcp_inv_def intro: reaches_step)
qed

lemma sim_send_enter:
  assumes "wf_config c" "tcp_inv c s" "valid_attempt c a" "\<not> tr_finished s" "a \<in> tr_waiting s"
    "tr_ttlComp c s (fst a) \<or> int (length (tr_sending s)) < ParallelRequests c" "srcPort < 65536" "good_draw draw"
  defines "t \<equiv> tcp_send_enter c s a srcPort draw"
  shows "tcp_inv c t \<and> reaches (icmp_step c) (tcp_view c s) (tcp_view c t)"
proof -
  let ?skip = "tr_ttlComp c s (fst a) \<or> tr_past_final s (fst a)" and ?q = "tcp_seqOf (fst a) (snd a)"
  let ?size = "resolveProbePayloadSize draw TCPTrace (DstIP c) (PktSize c) (RandomPacketSize c)"
  define reg where "reg = (\<lambda>t. (tcp_markPending t ?q)\<lparr>tc_local := (tc_local t)(a := (srcPort, ?size))\<rparr>)"
  have t: "t = tr_send_enter c reg s a" by (simp add: t_def tcp_send_enter_def reg_def Let_def)
  have fields: "tc_pending t = (if ?skip then tc_pending s else insert ?q (tc_pending s))"
      "tc_sentAt t = tc_sentAt s"
      "tr_sending t = (if ?skip then tr_sending s else a # tr_sending s)"
      "tc_local t = (if ?skip then tc_local s else (tc_local s)(a := (srcPort, ?size)))"
    by (auto simp: t tr_send_enter_def reg_def tcp_markPending_def Let_def waiting_irrelevant)
  have op: "tcp_open c t = (if ?skip then tcp_open c s else insert a (tcp_open c s))"
    using fields(1) open_insert [OF assms(1,3), of t s] tcp_open_cong [of t s] by (simp split: if_splits)
  have "send_enter c (tcp_view c s) a = tcp_view c t"
    unfolding tcp_view_def tcp_sent_cong [OF fields(2)] unfolding t
  proof (rule view_send_enter)
    show "icmp_view (reg u) op' st = icmp_view u op' st" for u op' st
      by (simp add: reg_def tcp_markPending_def)
    show "tcp_open c (tr_send_enter c reg s a) =
        (if tr_ttlComp c s (fst a) \<or> tr_past_final s (fst a) then tcp_open c s else insert a (tcp_open c s))"
      using op by (simp add: t)
  qed
  then have "icmp_step c (tcp_view c s) (tcp_view c t)"
    using icmp_step.Send_Enter [of "tcp_view c s" a c] assms(4-6) by (simp add: tcp_view_def)
  moreover have "tcp_inv c t"
    using assms(2,3,7,8) fields
    by (auto simp: tcp_inv_def tcp_seqs_def valid_attempts_def fixed_size_def resolveProbePayloadSize_def Let_def)
  ultimately show ?thesis by (blast intro: reaches_step)
qed

lemma sim_send_ok:
  fixes start :: int
  assumes "wf_config c" "tcp_inv c s" "valid_attempt c a" "a \<in> set (tr_sending s)"
  defines "t \<equiv> tcp_send_ok s a start"
  shows "tcp_inv c t \<and> reaches (icmp_step c) (tcp_view c s) (tcp_view c t)"
proof -
  let ?q = "tcp_seqOf (fst a) (snd a)"
  have fields: "tc_pending t = tc_pending s" "tr_sending t = remove1 a (tr_sending s)" "tc_local t = tc_local s"
      "tc_sentAt t = (tc_sentAt s)(?q \<mapsto> \<lparr>si_ttl = 0, si_i = 0, si_srcPort = fst (tc_local s a),
         si_payloadSize = snd (tc_local s a), si_start = start\<rparr>)"
    by (simp_all add: t_def tcp_send_ok_def tcp_storeSent_def)
  have "tcp_view c t = icmp_view (s\<lparr>tr_sending := remove1 a (tr_sending s)\<rparr>) (tcp_open c s) ((tcp_sent c s)(a \<mapsto> start))"
    by (simp add: tcp_view_def tcp_open_cong [OF fields(1)] sent_set [OF assms(1,3) fields(4)])
      (simp add: t_def tcp_send_ok_def tcp_storeSent_def icmp_view_def)
  then have v: "send_ok (tcp_view c s) a start = tcp_view c t"
    by (simp only: tcp_view_def [of c s] view_send_ok [OF assms(1,3)])
  have "icmp_step c (tcp_view c s) (tcp_view c t)"
    unfolding v [symmetric] by (rule icmp_step.Send_OK) (simp add: tcp_view_def assms(4))
  moreover have "tcp_inv c t"
    using assms(2-4) fields set_remove1_subset [of a "tr_sending s"]
    by (auto simp: tcp_inv_def tcp_seqs_def valid_attempts_def)
  ultimately show ?thesis by (blast intro: reaches_step)
qed

lemma sim_send_error:
  assumes "wf_config c" "tcp_inv c s" "valid_attempt c a" "a \<in> set (tr_sending s)"
  defines "t \<equiv> tcp_send_error s a"
  shows "tcp_inv c t \<and> reaches (icmp_step c) (tcp_view c s) (tcp_view c t)"
proof -
  let ?q = "tcp_seqOf (fst a) (snd a)"
  have fields: "tc_pending t = tc_pending s - {?q}" "tc_sentAt t = tc_sentAt s" "tc_local t = tc_local s"
      "tr_sending t = remove1 a (tr_sending s)"
    by (simp_all add: t_def tcp_send_error_def tcp_clearPending_def Let_def)
  have "tcp_view c t = send_error (tcp_view c s) a"
    unfolding tcp_view_def view_send_error [OF assms(1) open_valid assms(3)] open_remove [OF assms(1,3) fields(1)]
      tcp_sent_cong [OF fields(2)]
    by (simp add: t_def tcp_send_error_def tcp_clearPending_def Let_def open_mem [OF assms(3)])
  then have "icmp_step c (tcp_view c s) (tcp_view c t)"
    using icmp_step.Send_Error [of a "tcp_view c s" c] assms(4) by (simp add: tcp_view_def)
  moreover have "tcp_inv c t"
    using assms(2) fields set_remove1_subset [of a "tr_sending s"] by (auto simp: tcp_inv_def)
  ultimately show ?thesis by (blast intro: reaches_step)
qed

lemma timers_pending:
  "s\<lparr>tr_timers := T, tc_pending := P\<rparr> = s\<lparr>tc_pending := P, tr_timers := T\<rparr>" for s :: tcp_state
  by simp

lemma sim_timeout:
  assumes "wf_config c" "tcp_inv c s" "valid_attempt c a" "\<not> tr_finished s" "a \<in> tr_timers s"
    "tcp_timeout_fires c s a = Inr t"
  shows "tcp_inv c t \<and> reaches (icmp_step c) (tcp_view c s) (tcp_view c t)"
proof -
  let ?q = "tcp_seqOf (fst a) (snd a)"
  define s' where "s' = s\<lparr>tc_pending := tc_pending s - {?q}\<rparr>"
  let ?s = "s'\<lparr>tr_timers := tr_timers s' - {a}\<rparr>"
  have m: "a \<in> tcp_open c s \<longleftrightarrow> ?q \<in> tc_pending s" by (rule open_mem [OF assms(3)])
  obtain u dropped where t: "t = (if dropped then tcp_dropSent u ?q else u)"
      and rep: "a \<in> tcp_open c s \<Longrightarrow> tr_report_timeout c ?s a = Inr (u, dropped)"
      and skip: "a \<notin> tcp_open c s \<Longrightarrow> u = ?s \<and> \<not> dropped"
    using assms(6) unfolding m
    by (cases "?q \<in> tc_pending s")
      (auto simp: tcp_timeout_fires_def tcp_clearPending_def Let_def rbind_eq_Inr s'_def timers_pending)
  have fr: "tc_pending u = tc_pending s - {?q}" "tc_sentAt u = tc_sentAt s" "tc_local u = tc_local s"
      "tr_sending u = tr_sending s"
    using report_frame_tcp [OF rep] skip by (cases "a \<in> tcp_open c s"; simp add: s'_def)+
  have ft: "tc_pending t = tc_pending s - {?q}" "tc_local t = tc_local s" "tr_sending t = tr_sending s"
      "tc_sentAt t = (if dropped then (tc_sentAt s)(?q := None) else tc_sentAt s)"
    by (simp_all add: t tcp_dropSent_def fr)
  have "tcp_sent c t = (if dropped then (tcp_sent c s)(a := None) else tcp_sent c s)"
    using sent_set [OF assms(1,3), of t s None] tcp_sent_cong [of t s] ft(4) by simp
  moreover have "icmp_view t op st = icmp_view u op st" for op st by (simp add: t tcp_dropSent_def)
  moreover have "icmp_view s' op st = icmp_view s op st" for op st by (simp add: s'_def)
  moreover have "icmp_step c (icmp_view s' (tcp_open c s) (tcp_sent c s))
      (icmp_view u (tcp_open c s - {a}) (if dropped then (tcp_sent c s)(a := None) else tcp_sent c s))"
    by (rule view_timeout [OF assms(1) open_valid assms(3)]) (use assms(4,5) rep skip in \<open>simp_all add: s'_def\<close>)
  ultimately have "icmp_step c (tcp_view c s) (tcp_view c t)"
    by (simp add: tcp_view_def open_remove [OF assms(1,3) ft(1)])
  moreover have "tcp_inv c t" using assms(2) ft by (auto simp: tcp_inv_def split: if_splits)
  ultimately show ?thesis by (blast intro: reaches_step)
qed

lemma sim_timeout_cancelled:
  assumes "wf_config c" "tcp_inv c s" "valid_attempt c a" "tr_finished s" "a \<in> tr_timers s"
  defines "t \<equiv> tcp_timeout_cancelled s a"
  shows "tcp_inv c t \<and> reaches (icmp_step c) (tcp_view c s) (tcp_view c t)"
proof -
  let ?q = "tcp_seqOf (fst a) (snd a)"
  have f: "tc_pending t = tc_pending s - {?q}" "tc_sentAt t = tc_sentAt s" "tc_local t = tc_local s"
      "tr_sending t = tr_sending s"
    by (simp_all add: t_def tcp_timeout_cancelled_def tcp_clearPending_def)
  have "tcp_view c t = timeout_cancelled (tcp_view c s) a"
    unfolding timeout_cancelled_def tcp_view_def open_remove [OF assms(1,3) f(1)] tcp_sent_cong [OF f(2)]
    by (simp add: t_def tcp_timeout_cancelled_def tcp_clearPending_def clearPending_def
        seqs_minus [OF assms(1) open_valid assms(3)])
  then have "icmp_step c (tcp_view c s) (tcp_view c t)"
    using icmp_step.Timeout_Cancelled [of "tcp_view c s" a c] assms(4,5) by (simp add: tcp_view_def)
  moreover have "tcp_inv c t" using assms(2) f by (auto simp: tcp_inv_def)
  ultimately show ?thesis by (blast intro: reaches_step)
qed

lemma lookupTCPSentByAck_mem:
  "lookupTCPSentByAck order srcPort ack = Some (seq, start) \<Longrightarrow>
   \<exists>si. (seq, si) \<in> set order \<and> si_start si = start \<and> si_srcPort si = srcPort \<and>
     tcpReplyAckForProbe seq (si_payloadSize si) = ack"
  by (induction order srcPort ack rule: lookupTCPSentByAck.induct) (auto split: if_splits)

lemma tcp_lookup_sent:
  assumes "map_of order = tc_sentAt s" "tcp_lookup s order task = Some (seq, srcPort, start)"
    "distinct (map fst order)"
  shows "\<exists>si. tc_sentAt s seq = Some si \<and> si_start si = start \<and> si_srcPort si = srcPort \<and>
    (if pt_ack task = 0 then pt_seq task = seq else pt_ack task = tcpReplyAckForProbe seq (si_payloadSize si))"
proof (cases "pt_ack task = 0")
  case True
  then show ?thesis using assms(2) by (auto simp: tcp_lookup_def tcp_lookupSent_def)
next
  case False
  then obtain si where "(seq, si) \<in> set order" "si_start si = start" "si_srcPort si = srcPort"
      "pt_ack task = tcpReplyAckForProbe seq (si_payloadSize si)"
    using assms(2) lookupTCPSentByAck_mem by (fastforce simp: tcp_lookup_def)
  with False show ?thesis using assms(1,3) by (metis map_of_eq_Some_iff)
qed

lemma sim_match:
  assumes "wf_config c" "tcp_inv c s" "\<not> tr_finished s" "map_of order = tc_sentAt s" "distinct (map fst order)"
    "tcp_match_task c s order task = Inr t"
  shows "tcp_inv c t \<and> reaches (icmp_step c) (tcp_view c s) (tcp_view c t)"
proof (cases "tcp_lookup s order task")
  case None
  then show ?thesis using assms(2,6) by (simp add: tcp_match_task_def)
next
  case (Some l)
  obtain seq srcPort start where l: "l = (seq, srcPort, start)" by (cases l) auto
  obtain si where si: "tc_sentAt s seq = Some si" "si_start si = start"
    using tcp_lookup_sent [OF assms(4) _ assms(5)] Some l by blast
  then have "seq \<in> tcp_seqs c" using assms(2) by (auto simp: tcp_inv_def)
  then obtain a where a: "valid_attempt c a" "seq = tcp_seqOf (fst a) (snd a)" by (rule tcp_seqsE)
  show ?thesis
  proof (cases "pt_srcPort task = srcPort")
    case False
    then show ?thesis using assms(2,6) Some l by (simp add: tcp_match_task_def)
  next
    case True
    define s' where "s' = s\<lparr>tc_pending := tc_pending s - {seq}\<rparr>"
    obtain u where t: "t = tcp_dropSent u seq"
      and u: "a \<in> tcp_open c s \<Longrightarrow> tr_addHopWithIndex c s' (pt_peer task) (fst a) (snd a) (pt_finish task - start) (pt_mpls task) = Inr u"
        "a \<notin> tcp_open c s \<Longrightarrow> u = s'"
      using assms(6) Some l True
      by (cases "seq \<in> tc_pending s")
        (auto simp: tcp_match_task_def tcp_clearPending_def Let_def rbind_eq_Inr s'_def open_mem [OF a(1)] a(2)
          tcp_seq_decode [OF a(1) assms(1)])
    have fr: "tc_pending u = tc_pending s - {seq}" "tc_sentAt u = tc_sentAt s" "tc_local u = tc_local s"
        "tr_sending u = tr_sending s"
      using addHop_frame_tcp [OF u(1)] u(2) by (cases "a \<in> tcp_open c s"; simp add: s'_def)+
    have ft: "tc_pending t = tc_pending s - {tcp_seqOf (fst a) (snd a)}" "tc_local t = tc_local s"
        "tr_sending t = tr_sending s" "tc_sentAt t = (tc_sentAt s)(tcp_seqOf (fst a) (snd a) := None)"
      by (simp_all add: t tcp_dropSent_def fr a(2))
    have v: "icmp_view t op st = icmp_view u op st" "icmp_view s' op st = icmp_view s op st" for op st
      by (simp_all add: t tcp_dropSent_def s'_def)
    have "reaches (icmp_step c) (icmp_view s' (tcp_open c s) (tcp_sent c s))
        (icmp_view u (tcp_open c s - {a}) ((tcp_sent c s)(a := None)))"
    proof (rule view_reply [OF assms(1) open_valid a(1)])
      show "tcp_sent c s a = Some start" using si a by (simp add: tcp_sent_def)
      show "\<not> tr_finished s'" using assms(3) by (simp add: s'_def)
    qed (use u in simp_all)
    then have "reaches (icmp_step c) (tcp_view c s) (tcp_view c t)"
      by (simp add: tcp_view_def v open_remove [OF assms(1) a(1) ft(1)] sent_set [OF assms(1) a(1) ft(4)])
    moreover have "tcp_inv c t" using assms(2) ft by (auto simp: tcp_inv_def split: if_splits)
    ultimately show ?thesis by blast
  qed
qed

lemma tcp_simulation:
  assumes "wf_config c" "tcp_inv c s" "icmp_inv c (tcp_view c s)" "tcp_step c s t"
  shows "tcp_inv c t \<and> reaches (icmp_step c) (tcp_view c s) (tcp_view c t)"
  using assms(4)
proof cases
  case TCP_Common
  then show ?thesis using sim_common [OF assms(2)] by blast
next
  case (TCP_Send_Enter a srcPort draw)
  then have "valid_attempt c a" using view_attempts_valid(3) assms(3) unfolding tcp_view_def by blast
  then show ?thesis using sim_send_enter [OF assms(1,2)] TCP_Send_Enter by blast
next
  case (TCP_Send_OK a start)
  then have "valid_attempt c a" using view_attempts_valid(1) assms(3) unfolding tcp_view_def by blast
  then show ?thesis using sim_send_ok [OF assms(1,2)] TCP_Send_OK by blast
next
  case (TCP_Send_Error a)
  then have "valid_attempt c a" using view_attempts_valid(1) assms(3) unfolding tcp_view_def by blast
  then show ?thesis using sim_send_error [OF assms(1,2)] TCP_Send_Error by blast
next
  case (TCP_Timeout a)
  then have "valid_attempt c a" using view_attempts_valid(2) assms(3) unfolding tcp_view_def by blast
  then show ?thesis using sim_timeout [OF assms(1,2)] TCP_Timeout by blast
next
  case (TCP_Timeout_Cancelled a)
  then have "valid_attempt c a" using view_attempts_valid(2) assms(3) unfolding tcp_view_def by blast
  then show ?thesis using sim_timeout_cancelled [OF assms(1,2)] TCP_Timeout_Cancelled by blast
next
  case (TCP_Quoted msg finish data)
  then have "t = s \<or> (\<exists>task. t = tcp_enqueue s task)"
    by (auto simp: tcp_handleICMPMessage_def rbind_eq_Inr split: option.splits)
  then show ?thesis using tcp_enqueue_view [OF assms(2)] assms(2) by auto
next
  case (TCP_Answered reply finish)
  then obtain task where "t = tcp_enqueue s task" by (cases reply) (auto simp: tcp_handleTCP_def)
  then show ?thesis using tcp_enqueue_view [OF assms(2)] by simp
next
  case (TCP_Take task q)
  then have "tcp_inv c t \<and> tcp_view c t = tcp_view c s" using tcp_queue_step [OF assms(2)] by blast
  then show ?thesis by simp
next
  case (TCP_Match xs task ys order)
  let ?s = "s\<lparr>tc_taken := xs @ ys\<rparr>"
  have q: "tcp_inv c ?s \<and> tcp_view c ?s = tcp_view c s"
    by (rule tcp_queue_step [OF assms(2), where q = "tc_matchQ s" and k = "xs @ ys"]) simp
  show ?thesis using sim_match [OF assms(1), of ?s order task t] q TCP_Match by simp
qed

interpretation tcp: simulates_icmp c "tcp_step c" "tcp_init c" "tcp_view c" "tcp_inv c" for c
proof unfold_locales
  show "\<exists>op st. tcp_view c s = icmp_view s op st" for s by (auto simp: tcp_view_def)
qed (use tcp_view_init tcp_inv_init tcp_simulation in auto)

subsection \<open>What a TCP trace guarantees\<close>

text \<open>C4. A TCP trace refines an ICMP trace: whatever the interleaving, its probes, ports, payload sizes and
  replies, every reachable state of the TCP tracer is, seen through \<open>tcp_view\<close>, a reachable state of
  the ICMP tracer. In particular the send parallelism is respected, no TTL holds more hops than
  configured, every printed TTL is complete and the final hop is one of the TTLs probed.\<close>

theorem tcp_refines_icmp:
  assumes "wf_config c" "reaches (tcp_step c) (tcp_init c) s"
  shows "reaches (icmp_step c) (icmp_init c) (tcp_view c s) \<and> trace_ok c s"
  using tcp.refines [OF assms] tcp.reachable_ok [OF assms] by blast

text \<open>A reply changes a TCP trace only for the probe it belongs to: the destination port of the
  reply is the source port of a probe that was sent and is still open, and the reply quotes that
  probe's sequence number or acknowledges the probe and its payload; one more attempt has then
  reported, and only hops of its TTL have changed.\<close>

theorem tcp_reply_credited:
  assumes "wf_config c" "reaches (tcp_step c) (tcp_init c) s" "map_of order = tc_sentAt s" "distinct (map fst order)"
    "tcp_match_task c s order task = Inr t" "tr_res t \<noteq> tr_res s"
  shows "\<exists>a si. a \<in> tr_spawned s \<and> a \<notin> tr_recorded s \<and>
    tc_sentAt s (tcp_seqOf (fst a) (snd a)) = Some si \<and> si_srcPort si = pt_srcPort task \<and>
    (if pt_ack task = 0 then pt_seq task = tcp_seqOf (fst a) (snd a)
     else pt_ack task = tcpReplyAckForProbe (tcp_seqOf (fst a) (snd a)) (si_payloadSize si)) \<and>
    tr_recorded t = insert a (tr_recorded s) \<and>
    (\<forall>k. k \<noteq> nat (fst a - 1) \<longrightarrow> Hops (tr_res t) ! k = Hops (tr_res s) ! k)"
proof (cases "tcp_lookup s order task")
  case None
  then show ?thesis using assms(5,6) by (simp add: tcp_match_task_def)
next
  case (Some l)
  obtain seq srcPort start where l: "l = (seq, srcPort, start)" by (cases l) auto
  obtain si where si: "tc_sentAt s seq = Some si" "si_start si = start" "si_srcPort si = srcPort"
      "if pt_ack task = 0 then pt_seq task = seq else pt_ack task = tcpReplyAckForProbe seq (si_payloadSize si)"
    using tcp_lookup_sent [OF assms(3) _ assms(4)] Some l by blast
  have inv: "tcp_inv c s" "icmp_inv c (tcp_view c s)" using tcp.reachable [OF assms(1,2)] by blast+
  then have "seq \<in> tcp_seqs c" using si(1) by (auto simp: tcp_inv_def)
  then obtain a where a: "valid_attempt c a" "seq = tcp_seqOf (fst a) (snd a)" by (rule tcp_seqsE)
  let ?s = "s\<lparr>tc_pending := tc_pending s - {seq}\<rparr>"
  have eq: "pt_srcPort task = srcPort" and p: "seq \<in> tc_pending s"
    using assms(5,6) Some l by (auto simp: tcp_match_task_def tcp_clearPending_def tcp_dropSent_def Let_def split: if_splits)
  then obtain u where u: "tr_addHopWithIndex c ?s (pt_peer task) (fst a) (snd a) (pt_finish task - start) (pt_mpls task) = Inr u"
      and t: "t = tcp_dropSent u seq"
    using assms(5) Some l
    by (auto simp: tcp_match_task_def tcp_clearPending_def Let_def rbind_eq_Inr a(2) tcp_seq_decode [OF a(1) assms(1)])
  have o: "a \<in> tcp_open c s" using p a by (simp add: open_mem)
  have v: "icmp_inv c (icmp_view ?s (tcp_open c s) (tcp_sent c s))" using inv(2) by (simp add: tcp_view_def)
  have "tr_res u \<noteq> tr_res ?s" using assms(6) by (simp add: t tcp_dropSent_def)
  note credit = view_credit [OF v a(1) u this]
  show ?thesis
    using view_open [OF assms(1) inv(2) [unfolded tcp_view_def] o a(1)] credit si eq a
    by (intro exI [of _ a] exI [of _ si]) (auto simp: t tcp_dropSent_def)
qed

text \<open>Without random packet sizes an acknowledgement identifies its probe: in every reachable
  state and for every iteration order of the map, the reverse lookup finds the probe whose payload
  was acknowledged, since all payloads have the same size and sequence numbers do not wrap.\<close>

theorem tcp_answer_identified:
  assumes "wf_config c" "reaches (tcp_step c) (tcp_init c) s" "\<not> RandomPacketSize c"
    "tc_sentAt s seq = Some si" "map_of order = tc_sentAt s" "distinct (map fst order)"
  shows "lookupTCPSentByAck order (si_srcPort si) (tcpReplyAckForProbe seq (si_payloadSize si)) = Some (seq, si_start si)"
proof (rule lookupTCPSentByAck_unique)
  have inv: "tcp_inv c s" by (rule tcp.reachable(1) [OF assms(1,2)])
  show "(seq, si) \<in> set order" using assms(4-6) by (metis map_of_eq_Some_iff)
  have range: "0 \<le> q \<and> q < 4294967296 \<and> si_payloadSize x = PktSize c" if "tc_sentAt s q = Some x" for q x
  proof -
    have "q \<in> tcp_seqs c" "fixed_size c (si_srcPort x, si_payloadSize x)" using inv that by (auto simp: tcp_inv_def)
    then show ?thesis using tcp_seq_range [OF _ assms(1)] assms(3) by (auto simp: fixed_size_def elim: tcp_seqsE)
  qed
  have "q = seq" if q: "tc_sentAt s q = Some x"
      and e: "tcpReplyAckForProbe q (si_payloadSize x) = tcpReplyAckForProbe seq (si_payloadSize si)" for q x
  proof -
    have "(word_of_int q :: 32 word) + 1 + word_of_int (PktSize c) = word_of_int seq + 1 + word_of_int (PktSize c)"
      using e range [OF q] range [OF assms(4)] unfolding word_uint_eq_iff by (simp add: tcpReplyAckForProbe_def)
    then have "(word_of_int q :: 32 word) = word_of_int seq" by simp
    then show ?thesis using range [OF q] range [OF assms(4)] by (metis uint_of_int_small)
  qed
  moreover have "tc_sentAt s q = Some x" if "(q, x) \<in> set order" for q x
    using that assms(5,6) by (metis map_of_eq_Some_iff)
  ultimately show "\<forall>(s', i')\<in>set order. si_srcPort i' = si_srcPort si \<longrightarrow>
      tcpReplyAckForProbe s' (si_payloadSize i') = tcpReplyAckForProbe seq (si_payloadSize si) \<longrightarrow> (s', i') = (seq, si)"
    using assms(4) by fastforce
qed simp_all

text \<open>With random packet sizes it need not: two attempts of one TTL from the same source port can
  expect the same acknowledgement, and which of them is credited depends on the iteration order.\<close>

theorem random_sizes_ambiguous:
  "let si = (\<lambda>size start. \<lparr>si_ttl = 0, si_i = 0, si_srcPort = 40000, si_payloadSize = size, si_start = start\<rparr>);
       p = (tcp_seqOf 3 0, si 5 10); q = (tcp_seqOf 3 1, si 4 20)
   in lookupTCPSentByAck [p, q] 40000 (tcpReplyAckForProbe (fst p) 5) = Some (tcp_seqOf 3 0, 10) \<and>
      lookupTCPSentByAck [q, p] 40000 (tcpReplyAckForProbe (fst p) 5) = Some (tcp_seqOf 3 1, 20)"
  by (simp add: tcp_seqOf_eq tcpReplyAckForProbe_def)

subsection \<open>A concrete run\<close>

text \<open>The first attempt of TTL 1 is sent from port 40000; the destination resets the connection.\<close>

definition tcp_run_sending :: tcp_state where
  "tcp_run_sending = tcp_send_enter run_config
     (tr_launch_attempt run_config (tr_launch_ttl run_config (tcp_init run_config)) 1 0) (1, 0) 40000 (\<lambda>n. 0)"

definition tcp_run_sent :: tcp_state where
  "tcp_run_sent = tcp_send_ok tcp_run_sending (1, 0) 5"

definition tcp_run_info :: sentInfo where
  "tcp_run_info = \<lparr>si_ttl = 0, si_i = 0, si_srcPort = 40000, si_payloadSize = PktSize run_config, si_start = 5\<rparr>"

definition tcp_run_task :: portTask where
  "tcp_run_task = \<lparr>pt_srcPort = 40000, pt_seq = 0, pt_ack = tcpReplyAckForProbe 16777216 (PktSize run_config),
     pt_peer = Some (IPAddr [8, 8, 8, 8] []), pt_finish = 9, pt_mpls = []\<rparr>"

lemmas tcp_run_defs = run_config_def sample_config_def tcp_init_def tr_init_def tracer_core.defs tr_launch_ttl_def
  tr_past_final_def tr_launch_attempt_def tr_ttlComp_def init_result_def setGeoWait_def tr_send_enter_def
  tcp_markPending_def Let_def

lemma tcp_seqOf_run: "tcp_seqOf 1 0 = 16777216" by (simp add: tcp_seqOf_eq)

lemma tcp_run_sent_eq:
  "tcp_run_sent = (tcp_init run_config)\<lparr>tr_next_ttl := 2, tr_next_i := [1 \<mapsto> 1], tr_spawned := {(1, 0)},
     tr_timers := {(1, 0)}, tc_pending := {16777216}, tc_sentAt := [16777216 \<mapsto> tcp_run_info],
     tc_local := (\<lambda>_. (0, 0))((1, 0) := (40000, PktSize run_config))\<rparr>"
  by (simp add: tcp_run_sent_def tcp_run_sending_def tcp_send_ok_def tcp_send_enter_def tcp_storeSent_def tcp_run_info_def
      resolveProbePayloadSize_def packetSizeMinPayload_def tcp_run_defs tcp_seqOf_run numeral_2_eq_2)

lemma tcp_run_reachable: "reaches (tcp_step run_config) (tcp_init run_config) tcp_run_sent"
proof -
  let ?c = run_config
  let ?s1 = "tr_launch_ttl ?c (tcp_init ?c)" and ?s2 = "tr_launch_attempt ?c (tr_launch_ttl ?c (tcp_init ?c)) 1 0"
  have 1: "tcp_step ?c (tcp_init ?c) ?s1"
    by (rule TCP_Common, rule Common_Launch_TTL) (simp add: tcp_run_defs)
  have 2: "tcp_step ?c ?s1 ?s2"
    by (rule TCP_Common, rule Common_Launch_Attempt) (simp_all add: tcp_run_defs)
  have 3: "tcp_step ?c ?s2 tcp_run_sending" unfolding tcp_run_sending_def
  proof (rule TCP_Send_Enter)
    show "good_draw (\<lambda>n. 0)" by (simp add: good_draw_def)
  qed (simp_all add: tcp_run_defs numeral_2_eq_2)
  have 4: "tcp_step ?c tcp_run_sending tcp_run_sent" unfolding tcp_run_sent_def
    by (rule TCP_Send_OK) (simp add: tcp_run_sending_def tcp_send_enter_def tcp_run_defs numeral_2_eq_2)
  note step = reaches_step [of "tcp_step ?c"]
  show ?thesis by (rule step [OF step [OF step [OF step [OF reaches_refl 1] 2] 3] 4])
qed

theorem tcp_refines_icmp_witness: "trace_ok run_config tcp_run_sent"
  using tcp_refines_icmp [OF wf_run_config tcp_run_reachable] by blast

theorem tcp_answer_identified_witness:
  "lookupTCPSentByAck [(16777216, tcp_run_info)] 40000 (tcpReplyAckForProbe 16777216 (PktSize run_config)) =
     Some (16777216, 5)"
  using tcp_answer_identified [OF wf_run_config tcp_run_reachable, of 16777216 tcp_run_info "[(16777216, tcp_run_info)]"]
  by (simp add: tcp_run_sent_eq) (simp add: tcp_run_info_def run_config_def sample_config_def)

definition tcp_run_matched :: tcp_state where
  "tcp_run_matched = projr (tcp_match_task run_config tcp_run_sent [(16777216, tcp_run_info)] tcp_run_task)"

lemma tcp_run_match:
  "tcp_match_task run_config tcp_run_sent [(16777216, tcp_run_info)] tcp_run_task =
     Inr (tcp_run_sent\<lparr>tc_pending := {}, tc_sentAt := Map.empty, tr_final := 1, tr_recorded := {(1, 0)},
       tr_res := (setGeoWait (init_result 2) 2)\<lparr>Hops := [[\<lparr>Success = True, Address = Some (IPAddr [8, 8, 8, 8] []),
         Hostname = [], TTL = 1, RTT = 4, Error = None, Geo = None, Lang = ''en'', MPLS = []\<rparr>], []]\<rparr>\<rparr>)"
proof -
  have l: "tcp_lookup tcp_run_sent [(16777216, tcp_run_info)] tcp_run_task = Some (16777216, 40000, 5)"
    by (simp add: tcp_lookup_def tcp_run_task_def tcp_run_info_def tcpReplyAckForProbe_def run_config_def sample_config_def)
  have d: "drop_bit 24 (take_bit 32 (16777216::int)) AND 0xFF = 1" "take_bit 32 (16777216::int) AND 0xFFFFFF = 0"
    by simp_all
  show ?thesis
    unfolding tcp_match_task_def l option.case prod.case
    by (simp add: d tcp_run_task_def tcp_run_sent_eq tcp_clearPending_def tr_addHopWithIndex_def
        ip_Equal_def addWithGeoAsync_def add_def numeral_2_eq_2 tcp_dropSent_def tcp_run_defs)
qed

theorem tcp_reply_credited_witness:
  "\<exists>a. a \<in> tr_spawned tcp_run_sent \<and> tr_recorded tcp_run_matched = insert a (tr_recorded tcp_run_sent) \<and>
     pt_ack tcp_run_task = tcpReplyAckForProbe (tcp_seqOf (fst a) (snd a)) (PktSize run_config)"
proof -
  have m: "tcp_match_task run_config tcp_run_sent [(16777216, tcp_run_info)] tcp_run_task = Inr tcp_run_matched"
    by (simp add: tcp_run_matched_def tcp_run_match)
  have r: "tr_res tcp_run_matched \<noteq> tr_res tcp_run_sent"
    by (simp add: tcp_run_matched_def tcp_run_match)
      (simp add: tcp_run_sent_eq tcp_run_defs numeral_2_eq_2)
  have o: "map_of [(16777216, tcp_run_info)] = tc_sentAt tcp_run_sent" by (simp add: tcp_run_sent_eq)
  have "pt_ack tcp_run_task \<noteq> 0"
    by (simp add: tcp_run_task_def tcpReplyAckForProbe_def run_config_def sample_config_def)
  then show ?thesis
    using tcp_reply_credited [OF wf_run_config tcp_run_reachable o _ m r]
    by (auto simp: tcp_run_sent_eq tcp_run_info_def split: if_splits)
qed

end
