(* ===== verification/Udp_Tracer.thy ===== *)
theory Udp_Tracer
  imports Tracer_Core Icmp_Decode Mpls Packet_Size
begin

unbundle bit_operations_syntax

section \<open>The UDP tracer: \<open>trace/udp_ipv4.go\<close>\<close>

text \<open>
  A UDP probe over IPv4 carries its TTL and attempt in the identification field of its IP header,
  which a router quotes. On macOS (\<open>osType = 1\<close>) the kernel overwrites that field, so the
  program listens to its own outgoing packets (\<open>ListenOut\<close>), assigns each to the oldest attempt of its
  TTL that waits for its source port, and learns the number the packet really carries. The
  functions have both branches; the simulation is proved for the other systems.
\<close>

record udp_state = tracer_core +
  ud_ttlQueues :: "int \<Rightarrow> (nat \<times> int) list"
  ud_pending :: "(int \<times> int) set"
  ud_sentAt :: "int \<rightharpoonup> sentInfo"
  ud_matchQ :: "portTask list"
  ud_taken :: "portTask list"
  ud_local :: "int \<times> int \<Rightarrow> nat"

definition udp_init :: "Config \<Rightarrow> udp_state" where
  "udp_init c = tracer_core.extend (tr_init c)
     \<lparr>ud_ttlQueues = (\<lambda>_. []), ud_pending = {}, ud_sentAt = Map.empty, ud_matchQ = [], ud_taken = [],
      ud_local = (\<lambda>_. 0)\<rparr>"

subsection \<open>The handlers\<close>

definition udp_tryMatchTTLPort :: "udp_state \<Rightarrow> int \<Rightarrow> nat \<Rightarrow> udp_state \<times> int option" where
  "udp_tryMatchTTLPort t ttl srcPort =
     (case ud_ttlQueues t ttl of
        [] \<Rightarrow> (t, None)
      | head # q \<Rightarrow>
          if fst head \<noteq> srcPort then (t, None)
          else (t\<lparr>ud_ttlQueues := (ud_ttlQueues t)(ttl := q)\<rparr>, Some (snd head)))"

definition udp_enqueueTTLPort :: "udp_state \<Rightarrow> int \<Rightarrow> int \<Rightarrow> nat \<Rightarrow> udp_state" where
  "udp_enqueueTTLPort t ttl i srcPort =
     t\<lparr>ud_ttlQueues := (ud_ttlQueues t)(ttl := ud_ttlQueues t ttl @ [(srcPort, i)])\<rparr>"

definition udp_markPending :: "udp_state \<Rightarrow> int \<Rightarrow> int \<Rightarrow> udp_state" where
  "udp_markPending t ttl i = t\<lparr>ud_pending := insert (ttl, i) (ud_pending t)\<rparr>"

definition udp_clearPending :: "udp_state \<Rightarrow> int \<Rightarrow> int \<Rightarrow> udp_state \<times> bool" where
  "udp_clearPending t ttl i = (t\<lparr>ud_pending := ud_pending t - {(ttl, i)}\<rparr>, (ttl, i) \<in> ud_pending t)"

definition udp_storeSent :: "int \<Rightarrow> udp_state \<Rightarrow> int \<Rightarrow> int \<Rightarrow> int \<Rightarrow> nat \<Rightarrow> int \<Rightarrow> udp_state" where
  "udp_storeSent osType t seq ttl i srcPort start =
     (if osType \<noteq> 1 then
        t\<lparr>ud_sentAt := (ud_sentAt t)(seq \<mapsto>
          \<lparr>si_ttl = 0, si_i = 0, si_srcPort = srcPort, si_payloadSize = 0, si_start = start\<rparr>)\<rparr>
      else
        t\<lparr>ud_sentAt := (ud_sentAt t)(seq \<mapsto>
          \<lparr>si_ttl = ttl, si_i = i, si_srcPort = srcPort, si_payloadSize = 0, si_start = start\<rparr>)\<rparr>)"

definition udp_lookupSent :: "udp_state \<Rightarrow> int \<Rightarrow> sentInfo option" where
  "udp_lookupSent t seq = ud_sentAt t seq"

definition udp_dropSent :: "udp_state \<Rightarrow> int \<Rightarrow> udp_state" where
  "udp_dropSent t seq = t\<lparr>ud_sentAt := (ud_sentAt t)(seq := None)\<rparr>"

text \<open>\<open>dropByAttempt\<close> deletes the first entry of the attempt in the iteration order of the map.\<close>

definition udp_dropByAttempt :: "(int \<times> sentInfo) list \<Rightarrow> udp_state \<Rightarrow> int \<Rightarrow> int \<Rightarrow> udp_state" where
  "udp_dropByAttempt order t ttl i =
     (case filter (\<lambda>(k, si). si_ttl si = ttl \<and> si_i si = i) order of
        [] \<Rightarrow> t
      | (k, si) # _ \<Rightarrow> t\<lparr>ud_sentAt := (ud_sentAt t)(k := None)\<rparr>)"

definition udp_match_task :: "int \<Rightarrow> Config \<Rightarrow> udp_state \<Rightarrow> portTask \<Rightarrow> (unit, udp_state) res" where
  "udp_match_task osType c t task =
     (case udp_lookupSent t (pt_seq task) of
        None \<Rightarrow> Inr t
      | Some si \<Rightarrow>
          if pt_srcPort task \<noteq> si_srcPort si then Inr t
          else
            let u = take_bit 16 (pt_seq task);
                ttl = (if osType \<noteq> 1 then drop_bit 8 u AND 0xFF else si_ttl si);
                i = (if osType \<noteq> 1 then u AND 0xFF else si_i si);
                cl = udp_clearPending t ttl i
            in rbind (if snd cl
                      then tr_addHopWithIndex c (fst cl) (pt_peer task) ttl i (pt_finish task - si_start si) (pt_mpls task)
                      else Inr (fst cl))
                 (\<lambda>t. Inr (udp_dropSent t (pt_seq task))))"

definition udp_enqueue :: "udp_state \<Rightarrow> portTask \<Rightarrow> udp_state" where
  "udp_enqueue t task = (if length (ud_matchQ t) < 60 then t\<lparr>ud_matchQ := ud_matchQ t @ [task]\<rparr> else t)"

definition udp_quoted_task ::
    "Config \<Rightarrow> received_message \<Rightarrow> int \<Rightarrow> byte list \<Rightarrow> (unit, portTask option) res" where
  "udp_quoted_task c msg finish data =
     rbind (extractMPLS msg (DisableMPLS c)) (\<lambda>mpls.
       or_return (GetUDPSeq data) (\<lambda>seq.
         or_return (GetICMPResponsePayload data) (\<lambda>header.
           or_return (GetUDPPorts header) (\<lambda>(srcPort, dstPort).
             if int dstPort \<noteq> DstPort c then Inr None
             else Inr (Some \<lparr>pt_srcPort = srcPort, pt_seq = int seq, pt_ack = 0, pt_peer = rm_Peer msg,
                             pt_finish = finish, pt_mpls = mpls\<rparr>)))))"

definition udp_handleICMPMessage ::
    "Config \<Rightarrow> udp_state \<Rightarrow> received_message \<Rightarrow> int \<Rightarrow> byte list \<Rightarrow> (unit, udp_state) res" where
  "udp_handleICMPMessage c t msg finish data =
     rbind (udp_quoted_task c msg finish data) (\<lambda>m. case m of None \<Rightarrow> Inr t | Some task \<Rightarrow> Inr (udp_enqueue t task))"

text \<open>The callback of \<open>ListenOut\<close>, started for \<open>osType = 1\<close> only.\<close>

definition udp_listen_out :: "int \<Rightarrow> udp_state \<Rightarrow> nat \<Rightarrow> int \<Rightarrow> int \<Rightarrow> int \<Rightarrow> udp_state" where
  "udp_listen_out osType t srcPort seq ttl start =
     (case udp_tryMatchTTLPort t ttl srcPort of
        (t, None) \<Rightarrow> t
      | (t, Some i) \<Rightarrow> udp_storeSent osType t seq ttl i srcPort start)"

text \<open>\<open>buildUDPPacket\<close>: the sequence number and the fields of the headers it sets.\<close>

record udp_packet =
  up_Id :: "16 word"
  up_TTL :: byte
  up_SrcPort :: "16 word"
  up_DstPort :: "16 word"
  up_payload :: int

definition udp_seqOf :: "int \<Rightarrow> int \<Rightarrow> int" where
  "udp_seqOf ttl i = push_bit 8 ttl OR (i AND 0xFF)"

definition udp_buildPacket :: "Config \<Rightarrow> (int \<Rightarrow> int) \<Rightarrow> int \<Rightarrow> int \<Rightarrow> nat \<Rightarrow> int \<times> udp_packet" where
  "udp_buildPacket c draw ttl i srcPort =
     (let seq = udp_seqOf ttl i;
          payloadSize = resolveProbePayloadSize draw UDPTrace (DstIP c) (PktSize c) (RandomPacketSize c)
      in (seq, \<lparr>up_Id = word_of_int seq, up_TTL = word_of_int ttl, up_SrcPort = word_of_nat srcPort,
                up_DstPort = word_of_int (DstPort c), up_payload = payloadSize\<rparr>))"

definition udp_prepareDarwinSend :: "int \<Rightarrow> udp_state \<Rightarrow> int \<Rightarrow> int \<Rightarrow> nat \<Rightarrow> udp_state" where
  "udp_prepareDarwinSend osType t ttl i srcPort = (if osType = 1 then udp_enqueueTTLPort t ttl i srcPort else t)"

definition udp_finalizeSent :: "int \<Rightarrow> udp_state \<Rightarrow> int \<Rightarrow> nat \<Rightarrow> int \<Rightarrow> udp_state" where
  "udp_finalizeSent osType t seq srcPort start =
     (if osType \<noteq> 1 then udp_storeSent osType t seq 0 0 srcPort start else t)"

definition udp_send_enter :: "int \<Rightarrow> Config \<Rightarrow> udp_state \<Rightarrow> int \<times> int \<Rightarrow> nat \<Rightarrow> udp_state" where
  "udp_send_enter osType c t a srcPort =
     tr_send_enter c (\<lambda>t.
       (udp_markPending (udp_prepareDarwinSend osType t (fst a) (snd a) srcPort) (fst a) (snd a))
         \<lparr>ud_local := (ud_local t)(a := srcPort)\<rparr>) t a"

definition udp_send_ok :: "int \<Rightarrow> udp_state \<Rightarrow> int \<times> int \<Rightarrow> int \<Rightarrow> udp_state" where
  "udp_send_ok osType t a start =
     (udp_finalizeSent osType t (udp_seqOf (fst a) (snd a)) (ud_local t a) start)
       \<lparr>tr_sending := remove1 a (tr_sending t)\<rparr>"

definition udp_send_error :: "udp_state \<Rightarrow> int \<times> int \<Rightarrow> udp_state" where
  "udp_send_error t a =
     (let cl = udp_clearPending t (fst a) (snd a) in
      (fst cl)\<lparr>tr_sending := remove1 a (tr_sending t),
        tr_failed := (if snd cl then insert a (tr_failed t) else tr_failed t)\<rparr>)"

definition udp_timeout_fires ::
    "int \<Rightarrow> Config \<Rightarrow> (int \<times> sentInfo) list \<Rightarrow> udp_state \<Rightarrow> int \<times> int \<Rightarrow> (unit, udp_state) res" where
  "udp_timeout_fires osType c order t a =
     (let cl = udp_clearPending (t\<lparr>tr_timers := tr_timers t - {a}\<rparr>) (fst a) (snd a)
      in if \<not> snd cl then Inr (fst cl)
         else rbind (tr_report_timeout c (fst cl) a) (\<lambda>(t, dropped).
                Inr (if \<not> dropped then t
                     else if osType \<noteq> 1 then udp_dropSent t (udp_seqOf (fst a) (snd a))
                     else udp_dropByAttempt order t (fst a) (snd a))))"

definition udp_timeout_cancelled :: "udp_state \<Rightarrow> int \<times> int \<Rightarrow> udp_state" where
  "udp_timeout_cancelled t a = fst (udp_clearPending (t\<lparr>tr_timers := tr_timers t - {a}\<rparr>) (fst a) (snd a))"

inductive udp_step :: "int \<Rightarrow> Config \<Rightarrow> udp_state \<Rightarrow> udp_state \<Rightarrow> bool" for osType c where
  UDP_Common: "common_step c s t \<Longrightarrow> udp_step osType c s t"
| UDP_Send_Enter: "\<not> tr_finished s \<Longrightarrow> a \<in> tr_waiting s \<Longrightarrow>
    tr_ttlComp c s (fst a) \<or> int (length (tr_sending s)) < ParallelRequests c \<Longrightarrow>
    udp_step osType c s (udp_send_enter osType c s a srcPort)"
| UDP_Send_OK: "a \<in> set (tr_sending s) \<Longrightarrow> udp_step osType c s (udp_send_ok osType s a start)"
| UDP_Send_Error: "a \<in> set (tr_sending s) \<Longrightarrow> udp_step osType c s (udp_send_error s a)"
| UDP_Timeout: "\<not> tr_finished s \<Longrightarrow> a \<in> tr_timers s \<Longrightarrow>
    map_of order = ud_sentAt s \<Longrightarrow> distinct (map fst order) \<Longrightarrow>
    udp_timeout_fires osType c order s a = Inr t \<Longrightarrow> udp_step osType c s t"
| UDP_Timeout_Cancelled: "tr_finished s \<Longrightarrow> a \<in> tr_timers s \<Longrightarrow> udp_step osType c s (udp_timeout_cancelled s a)"
| UDP_Quoted: "udp_handleICMPMessage c s msg finish data = Inr t \<Longrightarrow> udp_step osType c s t"
| UDP_Out: "osType = 1 \<Longrightarrow> udp_step osType c s (udp_listen_out osType s srcPort seq ttl start)"
| UDP_Take: "\<not> tr_finished s \<Longrightarrow> ud_matchQ s = task # q \<Longrightarrow> length (ud_taken s) < 16 \<Longrightarrow>
    udp_step osType c s (s\<lparr>ud_matchQ := q, ud_taken := ud_taken s @ [task]\<rparr>)"
| UDP_Match: "\<not> tr_finished s \<Longrightarrow> ud_taken s = xs @ task # ys \<Longrightarrow>
    udp_match_task osType c (s\<lparr>ud_taken := xs @ ys\<rparr>) task = Inr t \<Longrightarrow> udp_step osType c s t"


subsection \<open>Every step keeps the invariant of a tracer\<close>

definition udp_view :: "udp_state \<Rightarrow> icmp_state" where
  "udp_view s = icmp_view s (ud_pending s) Map.empty"

definition udp_inv :: "Config \<Rightarrow> udp_state \<Rightarrow> bool" where
  "udp_inv c s \<longleftrightarrow> ud_pending s \<subseteq> valid_attempts c"

lemma udp_inv_init: "udp_inv c (udp_init c)"
  by (simp add: udp_inv_def udp_init_def tr_init_def tracer_core.defs)

lemma udp_view_init: "udp_view (udp_init c) = icmp_init c"
  by (simp add: udp_view_def udp_init_def tracer_core.defs tr_init_def icmp_init_def icmp_view_def seqs_def)

lemma view_extension_udp [simp]:
  "icmp_view (s\<lparr>ud_ttlQueues := U\<rparr>) op st = icmp_view s op st" "icmp_view (s\<lparr>ud_pending := P\<rparr>) op st = icmp_view s op st"
  "icmp_view (s\<lparr>ud_sentAt := S\<rparr>) op st = icmp_view s op st" "icmp_view (s\<lparr>ud_matchQ := Q\<rparr>) op st = icmp_view s op st"
  "icmp_view (s\<lparr>ud_taken := T\<rparr>) op st = icmp_view s op st" "icmp_view (s\<lparr>ud_local := L\<rparr>) op st = icmp_view s op st"
  by (simp_all add: icmp_view_def)

lemma common_frame_udp: "common_step c s t \<Longrightarrow> ud_pending t = ud_pending s"
  by (cases rule: common_step.cases, assumption)
    (simp_all add: tr_launch_ttl_def tr_launch_attempt_def tr_print_tick_def Let_def)

lemma addHop_frame_udp: "tr_addHopWithIndex c s peer ttl i rtt mpls = Inr t \<Longrightarrow> ud_pending t = ud_pending s"
  by (auto simp: tr_addHopWithIndex_def Let_def rbind_eq_Inr split: if_splits)

lemma report_frame_udp: "tr_report_timeout c s a = Inr (t, dropped) \<Longrightarrow> ud_pending t = ud_pending s"
  by (auto simp: tr_report_timeout_def Let_def rbind_eq_Inr split: if_splits)

lemma same_view:
  assumes "udp_inv c s" "ud_pending t = ud_pending s" "icmp_view t (ud_pending s) Map.empty = icmp_view s (ud_pending s) Map.empty"
  shows "udp_inv c t \<and> reaches (loose_step c) (udp_view s) (udp_view t)"
  using assms by (simp add: udp_inv_def udp_view_def)

lemma drop_same [simp]:
  "ud_pending (udp_dropSent s q) = ud_pending s" "icmp_view (udp_dropSent s q) op st = icmp_view s op st"
  "ud_pending (udp_dropByAttempt order s ttl i) = ud_pending s"
  "icmp_view (udp_dropByAttempt order s ttl i) op st = icmp_view s op st"
  "ud_pending (udp_storeSent osType s q ttl i p b) = ud_pending s"
  "icmp_view (udp_storeSent osType s q ttl i p b) op st = icmp_view s op st"
  by (simp_all add: udp_dropSent_def udp_dropByAttempt_def udp_storeSent_def split: list.split)

lemma enqueue_same [simp]:
  "ud_pending (udp_enqueue s task) = ud_pending s" "icmp_view (udp_enqueue s task) op st = icmp_view s op st"
  by (simp_all add: udp_enqueue_def)

lemma udp_sim_send_enter:
  fixes osType :: int and srcPort :: nat
  assumes "udp_inv c s" "valid_attempt c a" "\<not> tr_finished s" "a \<in> tr_waiting s"
    "tr_ttlComp c s (fst a) \<or> int (length (tr_sending s)) < ParallelRequests c"
  defines "t \<equiv> udp_send_enter osType c s a srcPort"
  shows "udp_inv c t \<and> reaches (loose_step c) (udp_view s) (udp_view t)"
proof -
  let ?skip = "tr_ttlComp c s (fst a) \<or> tr_past_final s (fst a)"
  define reg where "reg = (\<lambda>t. (udp_markPending (udp_prepareDarwinSend osType t (fst a) (snd a) srcPort) (fst a) (snd a))
         \<lparr>ud_local := (ud_local t)(a := srcPort)\<rparr>)"
  have t: "t = tr_send_enter c reg s a" by (simp add: t_def udp_send_enter_def reg_def)
  have p: "ud_pending t = (if ?skip then ud_pending s else insert a (ud_pending s))"
    by (auto simp: t tr_send_enter_def reg_def udp_markPending_def udp_prepareDarwinSend_def udp_enqueueTTLPort_def
        Let_def waiting_irrelevant)
  have "send_enter c (udp_view s) a = udp_view t"
    unfolding udp_view_def p unfolding t
  proof (rule view_send_enter)
    show "icmp_view (reg u) op' st = icmp_view u op' st" for u op' st
      by (simp add: reg_def udp_markPending_def udp_prepareDarwinSend_def udp_enqueueTTLPort_def)
  qed simp
  then have "icmp_step c (udp_view s) (udp_view t)"
    using icmp_step.Send_Enter [of "udp_view s" a c] assms(3-5) by (simp add: udp_view_def)
  moreover have "udp_inv c t" using assms(1,2) p by (auto simp: udp_inv_def valid_attempts_def)
  ultimately show ?thesis by (auto intro: loose_then [OF Loose_Step])
qed

lemma udp_sim_send_error:
  assumes "wf_config c" "udp_inv c s" "valid_attempt c a" "a \<in> set (tr_sending s)"
  defines "t \<equiv> udp_send_error s a"
  shows "udp_inv c t \<and> reaches (loose_step c) (udp_view s) (udp_view t)"
proof -
  have p: "ud_pending t = ud_pending s - {a}" by (simp add: t_def udp_send_error_def udp_clearPending_def Let_def)
  have "udp_view t = send_error (udp_view s) a"
    unfolding udp_view_def view_send_error [OF assms(1) assms(2) [unfolded udp_inv_def] assms(3)] p
    by (simp add: t_def udp_send_error_def udp_clearPending_def Let_def)
  then have "icmp_step c (udp_view s) (udp_view t)"
    using icmp_step.Send_Error [of a "udp_view s" c] assms(4) by (simp add: udp_view_def)
  then show ?thesis using assms(2) p by (auto simp: udp_inv_def intro: loose_then [OF Loose_Step])
qed

lemma udp_sim_timeout:
  assumes "wf_config c" "udp_inv c s" "valid_attempt c a" "\<not> tr_finished s" "a \<in> tr_timers s"
    "udp_timeout_fires osType c order s a = Inr t"
  shows "udp_inv c t \<and> reaches (loose_step c) (udp_view s) (udp_view t)"
proof -
  define s' where "s' = s\<lparr>ud_pending := ud_pending s - {a}\<rparr>"
  let ?s = "s'\<lparr>tr_timers := tr_timers s' - {a}\<rparr>"
  have comm: "s\<lparr>tr_timers := T, ud_pending := P\<rparr> = s\<lparr>ud_pending := P, tr_timers := T\<rparr>" for T P by simp
  obtain u dropped where t': "t = (if \<not> dropped then u else if osType \<noteq> 1
        then udp_dropSent u (udp_seqOf (fst a) (snd a)) else udp_dropByAttempt order u (fst a) (snd a))"
      and rep: "a \<in> ud_pending s \<Longrightarrow> tr_report_timeout c ?s a = Inr (u, dropped)"
      and skip: "a \<notin> ud_pending s \<Longrightarrow> u = ?s \<and> \<not> dropped"
    using assms(6)
    by (cases "a \<in> ud_pending s") (auto simp: udp_timeout_fires_def udp_clearPending_def Let_def rbind_eq_Inr s'_def comm)
  have t: "ud_pending t = ud_pending u" "icmp_view t op st = icmp_view u op st" for op st by (simp_all add: t')
  have p: "ud_pending t = ud_pending s - {a}"
    using report_frame_udp [OF rep] skip t(1) by (cases "a \<in> ud_pending s") (simp_all add: s'_def)
  have "icmp_step c (icmp_view s' (ud_pending s) Map.empty)
      (icmp_view u (ud_pending s - {a}) (if dropped then Map.empty(a := None) else Map.empty))"
    by (rule view_timeout [OF assms(1) assms(2) [unfolded udp_inv_def] assms(3)])
      (use assms(4,5) rep skip in \<open>simp_all add: s'_def\<close>)
  then have "icmp_step c (udp_view s) (udp_view t)"
    by (simp add: udp_view_def p t(2) s'_def split: if_splits)
  then show ?thesis using assms(2) p by (auto simp: udp_inv_def intro: loose_then [OF Loose_Step])
qed

lemma udp_sim_timeout_cancelled:
  assumes "wf_config c" "udp_inv c s" "valid_attempt c a" "tr_finished s" "a \<in> tr_timers s"
  defines "t \<equiv> udp_timeout_cancelled s a"
  shows "udp_inv c t \<and> reaches (loose_step c) (udp_view s) (udp_view t)"
proof -
  have p: "ud_pending t = ud_pending s - {a}" by (simp add: t_def udp_timeout_cancelled_def udp_clearPending_def)
  have "udp_view t = timeout_cancelled (udp_view s) a"
    unfolding timeout_cancelled_def udp_view_def p
    by (simp add: t_def udp_timeout_cancelled_def udp_clearPending_def clearPending_def
        seqs_minus [OF assms(1) assms(2) [unfolded udp_inv_def] assms(3)])
  then have "icmp_step c (udp_view s) (udp_view t)"
    using icmp_step.Timeout_Cancelled [of "udp_view s" a c] assms(4,5) by (simp add: udp_view_def)
  then show ?thesis using assms(2) p by (auto simp: udp_inv_def intro: loose_then [OF Loose_Step])
qed

lemma udp_sim_match:
  assumes "wf_config c" "udp_inv c s" "\<not> tr_finished s" "udp_match_task osType c s task = Inr t"
  shows "udp_inv c t \<and> reaches (loose_step c) (udp_view s) (udp_view t)"
proof (cases "udp_lookupSent s (pt_seq task)")
  case None
  then show ?thesis using assms(2,4) by (simp add: udp_match_task_def)
next
  case (Some si)
  define a where "a = (if osType \<noteq> 1
    then (drop_bit 8 (take_bit 16 (pt_seq task)) AND 0xFF, take_bit 16 (pt_seq task) AND 0xFF) else (si_ttl si, si_i si))"
  show ?thesis
  proof (cases "pt_srcPort task = si_srcPort si")
    case False
    then show ?thesis using assms(2,4) Some by (simp add: udp_match_task_def)
  next
    case True
    define s' where "s' = s\<lparr>ud_pending := ud_pending s - {a}\<rparr>"
    obtain u where t: "t = udp_dropSent u (pt_seq task)"
      and u: "a \<in> ud_pending s \<Longrightarrow>
          tr_addHopWithIndex c s' (pt_peer task) (fst a) (snd a) (pt_finish task - si_start si) (pt_mpls task) = Inr u"
        "a \<notin> ud_pending s \<Longrightarrow> u = s'"
      using assms(4) Some True
      by (cases "a \<in> ud_pending s"; cases "osType = 1")
        (auto simp: udp_match_task_def udp_clearPending_def Let_def rbind_eq_Inr s'_def a_def)
    show ?thesis
    proof (cases "a \<in> ud_pending s")
      case False
      then show ?thesis using u(2) by (intro same_view [OF assms(2)]) (simp_all add: t s'_def)
    next
      case True
      note u = u(1) [OF True]
      have p: "ud_pending t = ud_pending s - {a}" using addHop_frame_udp [OF u] by (simp add: t s'_def)
      have "reaches (loose_step c) (icmp_view s' (ud_pending s) Map.empty) (icmp_view u (ud_pending s - {a}) Map.empty)"
        using assms(3) by (intro loose_reply [OF assms(1) assms(2) [unfolded udp_inv_def] True _ u]) (simp add: s'_def)
      then show ?thesis using assms(2) p by (auto simp: udp_view_def udp_inv_def t s'_def)
    qed
  qed
qed

lemma udp_simulation:
  assumes "wf_config c" "udp_inv c s" "icmp_inv c (udp_view s)" "udp_step osType c s t"
  shows "udp_inv c t \<and> reaches (loose_step c) (udp_view s) (udp_view t)"
  using assms(4)
proof cases
  case UDP_Common
  then have "icmp_step c (udp_view s) (udp_view t)"
    using view_common [OF UDP_Common, of "ud_pending s" Map.empty] by (simp add: udp_view_def common_frame_udp)
  then show ?thesis
    using assms(2) common_frame_udp [OF UDP_Common] by (auto simp: udp_inv_def intro: loose_then [OF Loose_Step])
next
  case (UDP_Send_Enter a srcPort)
  then have "valid_attempt c a" using view_attempts_valid(3) assms(3) unfolding udp_view_def by blast
  then show ?thesis using udp_sim_send_enter [OF assms(2)] UDP_Send_Enter by blast
next
  case (UDP_Send_OK a start)
  then have "valid_attempt c a" using view_attempts_valid(1) assms(3) unfolding udp_view_def by blast
  moreover have "ud_pending t = ud_pending s"
    "icmp_view t (ud_pending s) Map.empty = icmp_view (s\<lparr>tr_sending := remove1 a (tr_sending s)\<rparr>) (ud_pending s) Map.empty"
    by (simp_all add: UDP_Send_OK(1) udp_send_ok_def udp_finalizeSent_def udp_storeSent_def icmp_view_def)
  ultimately show ?thesis
    using loose_send_ok [OF assms(1) _ UDP_Send_OK(2)] assms(2) by (simp add: udp_view_def udp_inv_def)
next
  case (UDP_Send_Error a)
  then have "valid_attempt c a" using view_attempts_valid(1) assms(3) unfolding udp_view_def by blast
  then show ?thesis using udp_sim_send_error [OF assms(1,2)] UDP_Send_Error by blast
next
  case (UDP_Timeout a order)
  then have "valid_attempt c a" using view_attempts_valid(2) assms(3) unfolding udp_view_def by blast
  then show ?thesis using udp_sim_timeout [OF assms(1,2)] UDP_Timeout by blast
next
  case (UDP_Timeout_Cancelled a)
  then have "valid_attempt c a" using view_attempts_valid(2) assms(3) unfolding udp_view_def by blast
  then show ?thesis using udp_sim_timeout_cancelled [OF assms(1,2)] UDP_Timeout_Cancelled by blast
next
  case (UDP_Quoted msg finish data)
  then have "t = s \<or> (\<exists>task. t = udp_enqueue s task)"
    by (auto simp: udp_handleICMPMessage_def rbind_eq_Inr split: option.splits)
  then show ?thesis by (intro same_view [OF assms(2)]) auto
next
  case (UDP_Out srcPort seq ttl start)
  then show ?thesis
    by (intro same_view [OF assms(2)]) (auto simp: udp_listen_out_def udp_tryMatchTTLPort_def split: list.split)
next
  case (UDP_Take task q)
  then show ?thesis by (intro same_view [OF assms(2)]) simp_all
next
  case (UDP_Match xs task ys)
  let ?s = "s\<lparr>ud_taken := xs @ ys\<rparr>"
  have "udp_inv c ?s" "udp_view ?s = udp_view s" using assms(2) by (simp_all add: udp_inv_def udp_view_def)
  then show ?thesis using udp_sim_match [OF assms(1), of ?s osType task t] UDP_Match by simp
qed

interpretation udp: tracer_view c "udp_step osType c" "udp_init c" udp_view "udp_inv c" for osType c
proof unfold_locales
  show "\<exists>op st. udp_view s = icmp_view s op st" for s by (auto simp: udp_view_def)
qed (use udp_view_init udp_inv_init udp_simulation in auto)


lemma udp_seqOf_is: "udp_seqOf ttl i = seqOf ttl i"
  by (simp add: udp_seqOf_def seqOf_def)

subsection \<open>What a UDP trace guarantees\<close>

text \<open>C6. Every UDP trace, on every system and under every interleaving: the send parallelism is
  respected, no TTL holds more hops than configured, every printed TTL is complete, the final hop is
  one of the TTLs probed, and once set it stays set and only moves down.\<close>

theorem udp_trace_invariant:
  assumes "wf_config c" "reaches (udp_step osType c) (udp_init c) s" "reaches (udp_step osType c) s t"
  shows "trace_ok c s \<and> (tr_final s = -1 \<or> tr_final t \<noteq> -1 \<and> tr_final t \<le> tr_final s)"
  using udp.reachable_ok [OF assms(1,2)] udp.final_monotone [OF assms] by blast

text \<open>A quoted UDP probe changes the trace only for the attempt that was registered under its number,
  with the same source port, and is still open: elsewhere than on macOS the attempt whose TTL and index
  are the two bytes of the quoted identification, on macOS the one that \<open>ListenOut\<close> recorded.\<close>

theorem udp_reply_credited:
  assumes "wf_config c" "reaches (udp_step osType c) (udp_init c) s" "udp_match_task osType c s task = Inr t"
    "tr_res t \<noteq> tr_res s"
  shows "\<exists>a si. a \<in> tr_spawned s \<and> a \<notin> tr_recorded s \<and>
    ud_sentAt s (pt_seq task) = Some si \<and> si_srcPort si = pt_srcPort task \<and>
    (if osType = 1 then a = (si_ttl si, si_i si)
     else take_bit 16 (pt_seq task) = udp_seqOf (fst a) (snd a)) \<and>
    tr_recorded t = insert a (tr_recorded s) \<and>
    (\<forall>k. k \<noteq> nat (fst a - 1) \<longrightarrow> Hops (tr_res t) ! k = Hops (tr_res s) ! k)"
proof (cases "udp_lookupSent s (pt_seq task)")
  case None
  then show ?thesis using assms(3,4) by (simp add: udp_match_task_def)
next
  case (Some si)
  define u where "u = take_bit 16 (pt_seq task)"
  define a where "a = (if osType \<noteq> 1 then (drop_bit 8 u AND 0xFF, u AND 0xFF) else (si_ttl si, si_i si))"
  let ?s = "s\<lparr>ud_pending := ud_pending s - {a}\<rparr>"
  have inv: "udp_inv c s" "icmp_inv c (udp_view s)" using udp.reachable [OF assms(1,2)] by blast+
  have eq: "pt_srcPort task = si_srcPort si" and p: "a \<in> ud_pending s"
    using assms(3,4) Some
    by (cases "osType = 1";
        auto simp: udp_match_task_def udp_clearPending_def udp_dropSent_def Let_def a_def u_def split: if_splits)+
  then obtain v where v: "tr_addHopWithIndex c ?s (pt_peer task) (fst a) (snd a) (pt_finish task - si_start si) (pt_mpls task) = Inr v"
      and t: "t = udp_dropSent v (pt_seq task)"
    using assms(3) Some
    by (cases "osType = 1") (auto simp: udp_match_task_def udp_clearPending_def Let_def rbind_eq_Inr a_def u_def)
  have a: "valid_attempt c a" using inv(1) p by (auto simp: udp_inv_def valid_attempts_def)
  have w: "icmp_inv c (icmp_view ?s (ud_pending s) Map.empty)" using inv(2) by (simp add: udp_view_def)
  have "tr_res v \<noteq> tr_res ?s" using assms(4) by (simp add: t udp_dropSent_def)
  note credit = view_credit [OF w a v this]
  have "u = udp_seqOf (fst a) (snd a)" if "osType \<noteq> 1"
  proof -
    have "0 \<le> u" "u < 65536" by (simp_all add: u_def take_bit_int_less_exp [of 16, simplified])
    then have "u div 256 mod 256 = u div 256" by simp
    then show ?thesis
      using that by (simp add: udp_seqOf_is a_def and_FF drop_bit_eq_div seqOf_eq)
  qed
  then show ?thesis
    using view_open [OF assms(1) inv(2) [unfolded udp_view_def] p a] credit Some eq
    by (intro exI [of _ a] exI [of _ si]) (auto simp: t udp_dropSent_def udp_lookupSent_def u_def a_def)
qed

text \<open>The number under which a probe is registered is the one a router quotes: for the packet that
  \<open>buildUDPPacket\<close> describes, an ICMP error quoting its IP and UDP headers is turned into a task with the
  probe's source port and sequence number, from which a match worker reads back the probe's TTL and
  attempt.\<close>

theorem udp_probe_recognised:
  assumes "wf_config c" "valid_attempt c (ttl, i)" "srcPort < 65536" "0 \<le> DstPort c" "DstPort c < 65536"
    and "udp_buildPacket c draw ttl i srcPort = (seq, pkt)"
    and "ipv4_header h ihl 17 dst" "take 2 (drop 4 h) = enc16 (unat (up_Id pkt))"
    and "data = h @ enc16 (unat (up_SrcPort pkt)) @ enc16 (unat (up_DstPort pkt)) @ rest"
  shows "\<exists>labels. udp_quoted_task c msg finish data =
      Inr (Some \<lparr>pt_srcPort = srcPort, pt_seq = seq, pt_ack = 0, pt_peer = rm_Peer msg, pt_finish = finish,
                 pt_mpls = labels\<rparr>) \<and>
    drop_bit 8 (take_bit 16 seq) AND 0xFF = ttl \<and> take_bit 16 seq AND 0xFF = i"
proof -
  have r: "1 \<le> ttl" "ttl \<le> 255" "0 \<le> i" "i < 256" using assms(1,2) by (auto simp: valid_attempt_def wf_config_def)
  then have q: "seq = ttl * 256 + i" using assms(6) by (auto simp: udp_buildPacket_def Let_def udp_seqOf_is seqOf_eq)
  have pkt: "up_Id pkt = word_of_int seq" "up_SrcPort pkt = word_of_nat srcPort" "up_DstPort pkt = word_of_int (DstPort c)"
    using assms(6) by (auto simp: udp_buildPacket_def Let_def)
  have b: "0 \<le> seq" "seq < 65536" using r q by simp_all
  have id: "int (unat (up_Id pkt)) = seq"
    using b unfolding pkt by (simp add: unsigned_of_int take_bit_int_eq_self)
  then have id: "int (unat (up_Id pkt)) = seq" "unat (up_Id pkt) < 65536" using b by linarith+
  have sp: "unat (up_SrcPort pkt) = srcPort" using assms(3) by (simp add: pkt unsigned_of_nat take_bit_nat_eq_self)
  have dp: "int (unat (up_DstPort pkt)) = DstPort c"
    using assms(4,5) by (simp add: pkt unsigned_of_int take_bit_int_eq_self)
  then have dpn: "unat (up_DstPort pkt) < 65536" using assms(5) by linarith
  let ?u = "enc16 (unat (up_SrcPort pkt)) @ enc16 (unat (up_DstPort pkt)) @ rest"
  have h: "20 \<le> length h" using assms(7) by (auto simp: ipv4_header_def)
  have s: "GetUDPSeq data = Inr (unat (up_Id pkt))"
    using h GetIPHeaderLength_ipv4(1) [OF assms(7), of ?u] assms(8) id(2)
    by (simp add: GetUDPSeq_def assms(9))
  have p: "GetICMPResponsePayload data = Inr ?u"
    using GetICMPResponsePayload_ipv4 [OF assms(7)] by (simp add: assms(9))
  have g: "GetUDPPorts ?u = Inr (srcPort, unat (up_DstPort pkt))"
    using assms(3) dpn by (simp add: GetUDPPorts_def sp)
  obtain labels where l: "extractMPLS msg (DisableMPLS c) = Inr labels" using extractMPLS_total by blast
  have "seqOf ttl i = seq" using q r by (simp add: seqOf_eq)
  then have "drop_bit 8 (take_bit 16 seq) AND 0xFF = ttl" "take_bit 16 seq AND 0xFF = i"
    using seq_decode [OF assms(2,1)] by simp_all
  then show ?thesis using dp id(1) by (simp add: udp_quoted_task_def l s p g)
qed

text \<open>On macOS a probe that could not be sent stays in the queue of its TTL: the number of the next packet
  with that port is stored for the failed attempt, which is no longer open, so the reply to
  it is dropped.\<close>

theorem darwin_send_error_shifts:
  fixes p :: nat and i ttl seq start :: int
  assumes "ud_ttlQueues s ttl = (p, i) # q" "pt_seq task = seq"
  defines "t \<equiv> udp_listen_out 1 (udp_send_error s (ttl, i)) p seq ttl start"
  shows "\<exists>t'. udp_match_task 1 c t task = Inr t' \<and> tr_res t' = tr_res s \<and> tr_recorded t' = tr_recorded s"
  using assms(1,2) unfolding t_def
  by (simp add: udp_listen_out_def udp_send_error_def udp_clearPending_def udp_tryMatchTTLPort_def Let_def
      udp_storeSent_def udp_match_task_def udp_lookupSent_def udp_dropSent_def)

subsection \<open>A concrete run\<close>

definition udp_run_sending :: udp_state where
  "udp_run_sending = udp_send_enter 3 run_config
     (tr_launch_attempt run_config (tr_launch_ttl run_config (udp_init run_config)) 1 0) (1, 0) 40000"

definition udp_run_sent :: udp_state where
  "udp_run_sent = udp_send_ok 3 udp_run_sending (1, 0) 5"

definition udp_run_task :: portTask where
  "udp_run_task = \<lparr>pt_srcPort = 40000, pt_seq = 256, pt_ack = 0, pt_peer = Some (IPAddr [8, 8, 8, 8] []),
     pt_finish = 9, pt_mpls = []\<rparr>"

lemmas udp_run_defs = run_config_def sample_config_def udp_init_def tr_init_def tracer_core.defs tr_launch_ttl_def
  tr_past_final_def tr_launch_attempt_def tr_ttlComp_def init_result_def setGeoWait_def tr_send_enter_def
  udp_markPending_def udp_prepareDarwinSend_def Let_def

lemma udp_run_sent_eq:
  "udp_run_sent = (udp_init run_config)\<lparr>tr_next_ttl := 2, tr_next_i := [1 \<mapsto> 1], tr_spawned := {(1, 0)},
     tr_timers := {(1, 0)}, ud_pending := {(1, 0)}, ud_local := (\<lambda>_. 0)((1, 0) := 40000),
     ud_sentAt := [256 \<mapsto> \<lparr>si_ttl = 0, si_i = 0, si_srcPort = 40000, si_payloadSize = 0, si_start = 5\<rparr>]\<rparr>"
  by (simp add: udp_run_sent_def udp_run_sending_def udp_send_ok_def udp_send_enter_def udp_finalizeSent_def
      udp_storeSent_def udp_run_defs udp_seqOf_is seqOf_run numeral_2_eq_2)

lemma udp_run_reachable: "reaches (udp_step 3 run_config) (udp_init run_config) udp_run_sent"
proof -
  let ?c = run_config
  let ?s1 = "tr_launch_ttl ?c (udp_init ?c)" and ?s2 = "tr_launch_attempt ?c (tr_launch_ttl ?c (udp_init ?c)) 1 0"
  have 1: "udp_step 3 ?c (udp_init ?c) ?s1"
    by (rule UDP_Common, rule Common_Launch_TTL) (simp add: udp_run_defs)
  have 2: "udp_step 3 ?c ?s1 ?s2"
    by (rule UDP_Common, rule Common_Launch_Attempt) (simp_all add: udp_run_defs)
  have 3: "udp_step 3 ?c ?s2 udp_run_sending" unfolding udp_run_sending_def
    by (rule UDP_Send_Enter) (simp_all add: udp_run_defs numeral_2_eq_2)
  have 4: "udp_step 3 ?c udp_run_sending udp_run_sent" unfolding udp_run_sent_def
    by (rule UDP_Send_OK) (simp add: udp_run_sending_def udp_send_enter_def udp_run_defs numeral_2_eq_2)
  note step = reaches_step [of "udp_step 3 ?c"]
  show ?thesis by (rule step [OF step [OF step [OF step [OF reaches_refl 1] 2] 3] 4])
qed

theorem udp_trace_invariant_witness: "trace_ok run_config udp_run_sent"
  using udp_trace_invariant [OF wf_run_config udp_run_reachable reaches_refl] by blast

definition udp_run_matched :: udp_state where
  "udp_run_matched = projr (udp_match_task 3 run_config udp_run_sent udp_run_task)"

lemma udp_run_match:
  "udp_match_task 3 run_config udp_run_sent udp_run_task =
     Inr (udp_run_sent\<lparr>ud_pending := {}, ud_sentAt := Map.empty, tr_final := 1, tr_recorded := {(1, 0)},
       tr_res := (setGeoWait (init_result 2) 2)\<lparr>Hops := [[\<lparr>Success = True, Address = Some (IPAddr [8, 8, 8, 8] []),
         Hostname = [], TTL = 1, RTT = 4, Error = None, Geo = None, Lang = ''en'', MPLS = []\<rparr>], []]\<rparr>\<rparr>)"
  by (simp add: udp_match_task_def udp_lookupSent_def udp_run_task_def udp_run_sent_eq udp_clearPending_def
      tr_addHopWithIndex_def ip_Equal_def addWithGeoAsync_def add_def numeral_2_eq_2 udp_dropSent_def udp_run_defs)

theorem udp_reply_credited_witness:
  "\<exists>a. a \<in> tr_spawned udp_run_sent \<and> take_bit 16 256 = udp_seqOf (fst a) (snd a) \<and>
     tr_recorded udp_run_matched = insert a (tr_recorded udp_run_sent)"
proof -
  have m: "udp_match_task 3 run_config udp_run_sent udp_run_task = Inr udp_run_matched"
    by (simp add: udp_run_matched_def udp_run_match)
  have r: "tr_res udp_run_matched \<noteq> tr_res udp_run_sent"
    by (simp add: udp_run_matched_def udp_run_match) (simp add: udp_run_sent_eq udp_run_defs numeral_2_eq_2)
  show ?thesis
    using udp_reply_credited [OF wf_run_config udp_run_reachable m r] by (auto simp: udp_run_task_def)
qed

definition udp_run_header :: "byte list" where
  "udp_run_header = [0x45, 0, 0, 0, 1, 0, 0, 0, 1, 17, 0, 0, 10, 0, 0, 1, 8, 8, 8, 8]"

theorem udp_probe_recognised_witness:
  "\<exists>labels. udp_quoted_task run_config \<lparr>rm_Peer = None, rm_Msg = [], rm_Err = False\<rparr> 9
     (udp_run_header @ enc16 40000 @ enc16 (nat (DstPort run_config))) =
     Inr (Some \<lparr>pt_srcPort = 40000, pt_seq = 256, pt_ack = 0, pt_peer = None, pt_finish = 9, pt_mpls = labels\<rparr>)"
proof -
  have b: "udp_buildPacket run_config (\<lambda>n. 0) 1 0 40000 = (256, \<lparr>up_Id = 256, up_TTL = 1, up_SrcPort = 40000,
      up_DstPort = word_of_int (DstPort run_config), up_payload = PktSize run_config\<rparr>)"
    by (simp add: udp_buildPacket_def udp_seqOf_is seqOf_run resolveProbePayloadSize_def run_config_def sample_config_def Let_def)
  have h: "ipv4_header udp_run_header 5 17 [8, 8, 8, 8]" by (simp add: ipv4_header_def udp_run_header_def)
  show ?thesis
    using udp_probe_recognised [OF wf_run_config _ _ _ _ b h _ refl, where rest = "[]" and finish = 9 and
        msg = "\<lparr>rm_Peer = None, rm_Msg = [], rm_Err = False\<rparr>"]
    by (simp add: valid_attempt_def run_config_def sample_config_def) (simp add: udp_run_header_def enc16_def)
qed

end
