(* ===== verification/Udp6_Tracer.thy ===== *)
theory Udp6_Tracer
  imports Udp_Tracer Udp_Checksum
begin

unbundle bit_operations_syntax

section \<open>The UDP tracer over IPv6: \<open>trace/udp_ipv6.go\<close>\<close>

text \<open>
  An IPv6 header has no identification field, so the probe carries its TTL and attempt in the UDP
  checksum, which the first two bytes of the payload steer (\<open>Udp_Checksum\<close>). The rest is
  the UDP tracer with its pending attempts keyed by sequence number. \<open>src\<close> is the local address
  that \<open>Execute\<close> found.
\<close>

record udp6_state = tracer_core +
  u6_pending :: "int set"
  u6_sentAt :: "int \<rightharpoonup> sentInfo"
  u6_matchQ :: "portTask list"
  u6_taken :: "portTask list"
  u6_local :: "int \<times> int \<Rightarrow> nat"

definition udp6_init :: "Config \<Rightarrow> udp6_state" where
  "udp6_init c = tracer_core.extend (tr_init c)
     \<lparr>u6_pending = {}, u6_sentAt = Map.empty, u6_matchQ = [], u6_taken = [], u6_local = (\<lambda>_. 0)\<rparr>"

subsection \<open>The handlers\<close>

definition udp6_markPending :: "udp6_state \<Rightarrow> int \<Rightarrow> udp6_state" where
  "udp6_markPending t seq = t\<lparr>u6_pending := insert seq (u6_pending t)\<rparr>"

definition udp6_clearPending :: "udp6_state \<Rightarrow> int \<Rightarrow> udp6_state \<times> bool" where
  "udp6_clearPending t seq = (t\<lparr>u6_pending := u6_pending t - {seq}\<rparr>, seq \<in> u6_pending t)"

definition udp6_storeSent :: "udp6_state \<Rightarrow> int \<Rightarrow> nat \<Rightarrow> int \<Rightarrow> udp6_state" where
  "udp6_storeSent t seq srcPort start = t\<lparr>u6_sentAt := (u6_sentAt t)(seq \<mapsto>
     \<lparr>si_ttl = 0, si_i = 0, si_srcPort = srcPort, si_payloadSize = 0, si_start = start\<rparr>)\<rparr>"

definition udp6_lookupSent :: "udp6_state \<Rightarrow> int \<Rightarrow> (nat \<times> int) option" where
  "udp6_lookupSent t seq = map_option (\<lambda>si. (si_srcPort si, si_start si)) (u6_sentAt t seq)"

definition udp6_dropSent :: "udp6_state \<Rightarrow> int \<Rightarrow> udp6_state" where
  "udp6_dropSent t seq = t\<lparr>u6_sentAt := (u6_sentAt t)(seq := None)\<rparr>"

definition udp6_match_task :: "Config \<Rightarrow> udp6_state \<Rightarrow> portTask \<Rightarrow> (unit, udp6_state) res" where
  "udp6_match_task c t task =
     (case udp6_lookupSent t (pt_seq task) of
        None \<Rightarrow> Inr t
      | Some (srcPort, start) \<Rightarrow>
          if pt_srcPort task \<noteq> srcPort then Inr t
          else
            let u = take_bit 16 (pt_seq task);
                ttl = drop_bit 8 u AND 0xFF;
                i = u AND 0xFF;
                cl = udp6_clearPending t (pt_seq task)
            in rbind (if snd cl
                      then tr_addHopWithIndex c (fst cl) (pt_peer task) ttl i (pt_finish task - start) (pt_mpls task)
                      else Inr (fst cl))
                 (\<lambda>t. Inr (udp6_dropSent t (pt_seq task))))"

definition udp6_enqueue :: "udp6_state \<Rightarrow> portTask \<Rightarrow> udp6_state" where
  "udp6_enqueue t task = (if length (u6_matchQ t) < 60 then t\<lparr>u6_matchQ := u6_matchQ t @ [task]\<rparr> else t)"

definition udp6_quoted_task ::
    "Config \<Rightarrow> received_message \<Rightarrow> int \<Rightarrow> byte list \<Rightarrow> (unit, portTask option) res" where
  "udp6_quoted_task c msg finish data =
     rbind (extractMPLS msg (DisableMPLS c)) (\<lambda>mpls.
       or_return (GetICMPResponsePayload data) (\<lambda>header.
         or_return (GetUDPPorts header) (\<lambda>(srcPort, dstPort).
           if int dstPort \<noteq> DstPort c then Inr None
           else or_return (GetUDPSeqv6 header) (\<lambda>seq.
             Inr (Some \<lparr>pt_srcPort = srcPort, pt_seq = int seq, pt_ack = 0, pt_peer = rm_Peer msg,
                        pt_finish = finish, pt_mpls = mpls\<rparr>)))))"

definition udp6_handleICMPMessage ::
    "Config \<Rightarrow> udp6_state \<Rightarrow> received_message \<Rightarrow> int \<Rightarrow> byte list \<Rightarrow> (unit, udp6_state) res" where
  "udp6_handleICMPMessage c t msg finish data =
     rbind (udp6_quoted_task c msg finish data) (\<lambda>m. case m of None \<Rightarrow> Inr t | Some task \<Rightarrow> Inr (udp6_enqueue t task))"

text \<open>The payload of a probe: two zero bytes and \<open>noise\<close>, the random bytes, with the checksum steered to the
  sequence number. The local size is the one \<open>resolveProbePayloadSize\<close> returns.\<close>

definition udp6_payload ::
    "Config \<Rightarrow> ip \<Rightarrow> (int \<Rightarrow> int) \<Rightarrow> (nat \<Rightarrow> byte) \<Rightarrow> int \<times> int \<Rightarrow> nat \<Rightarrow> (checksum_error, byte list) res" where
  "udp6_payload c src draw noise a srcPort =
     (let desiredPayloadSize = resolveProbePayloadSize draw UDPTrace (DstIP c) (PktSize c) (RandomPacketSize c);
          payload = map (\<lambda>k. if k < 2 then 0 else noise k) [0..<nat desiredPayloadSize]
      in if desiredPayloadSize < 0 then Inl Panic
         else MakePayloadWithTargetChecksum payload src (DstIP c) (int srcPort) (DstPort c)
           (word_of_int (udp_seqOf (fst a) (snd a))))"

text \<open>\<open>send\<close> up to the transmission. An attempt whose payload cannot be built returns its error before it is
  registered and reports nothing.\<close>

definition udp6_send_enter ::
    "Config \<Rightarrow> ip \<Rightarrow> udp6_state \<Rightarrow> int \<times> int \<Rightarrow> nat \<Rightarrow> (int \<Rightarrow> int) \<Rightarrow> (nat \<Rightarrow> byte) \<Rightarrow> (checksum_error, udp6_state) res" where
  "udp6_send_enter c src t a srcPort draw noise =
     (if tr_ttlComp c t (fst a) \<or> tr_past_final t (fst a) then Inr (t\<lparr>tr_waiting := tr_waiting t - {a}\<rparr>)
      else case udp6_payload c src draw noise a srcPort of
        Inl Panic \<Rightarrow> Inl Panic
      | Inl (Err e) \<Rightarrow> Inr (t\<lparr>tr_waiting := tr_waiting t - {a}, tr_failed := insert a (tr_failed t)\<rparr>)
      | Inr p \<Rightarrow> Inr (tr_send_enter c (\<lambda>t.
          (udp6_markPending t (udp_seqOf (fst a) (snd a)))\<lparr>u6_local := (u6_local t)(a := srcPort)\<rparr>) t a))"

definition udp6_send_ok :: "udp6_state \<Rightarrow> int \<times> int \<Rightarrow> int \<Rightarrow> udp6_state" where
  "udp6_send_ok t a start =
     (udp6_storeSent t (udp_seqOf (fst a) (snd a)) (u6_local t a) start)\<lparr>tr_sending := remove1 a (tr_sending t)\<rparr>"

definition udp6_send_error :: "udp6_state \<Rightarrow> int \<times> int \<Rightarrow> udp6_state" where
  "udp6_send_error t a =
     (let cl = udp6_clearPending t (udp_seqOf (fst a) (snd a)) in
      (fst cl)\<lparr>tr_sending := remove1 a (tr_sending t),
        tr_failed := (if snd cl then insert a (tr_failed t) else tr_failed t)\<rparr>)"

definition udp6_timeout_fires :: "Config \<Rightarrow> udp6_state \<Rightarrow> int \<times> int \<Rightarrow> (unit, udp6_state) res" where
  "udp6_timeout_fires c t a =
     (let seq = udp_seqOf (fst a) (snd a);
          cl = udp6_clearPending (t\<lparr>tr_timers := tr_timers t - {a}\<rparr>) seq
      in if \<not> snd cl then Inr (fst cl)
         else rbind (tr_report_timeout c (fst cl) a) (\<lambda>(t, dropped).
                Inr (if dropped then udp6_dropSent t seq else t)))"

definition udp6_timeout_cancelled :: "udp6_state \<Rightarrow> int \<times> int \<Rightarrow> udp6_state" where
  "udp6_timeout_cancelled t a =
     fst (udp6_clearPending (t\<lparr>tr_timers := tr_timers t - {a}\<rparr>) (udp_seqOf (fst a) (snd a)))"

inductive udp6_step :: "ip \<Rightarrow> Config \<Rightarrow> udp6_state \<Rightarrow> udp6_state \<Rightarrow> bool" for src c where
  UDP6_Common: "common_step c s t \<Longrightarrow> udp6_step src c s t"
| UDP6_Send_Enter: "\<not> tr_finished s \<Longrightarrow> a \<in> tr_waiting s \<Longrightarrow>
    tr_ttlComp c s (fst a) \<or> int (length (tr_sending s)) < ParallelRequests c \<Longrightarrow>
    udp6_send_enter c src s a srcPort draw noise = Inr t \<Longrightarrow> udp6_step src c s t"
| UDP6_Send_OK: "a \<in> set (tr_sending s) \<Longrightarrow> udp6_step src c s (udp6_send_ok s a start)"
| UDP6_Send_Error: "a \<in> set (tr_sending s) \<Longrightarrow> udp6_step src c s (udp6_send_error s a)"
| UDP6_Timeout: "\<not> tr_finished s \<Longrightarrow> a \<in> tr_timers s \<Longrightarrow> udp6_timeout_fires c s a = Inr t \<Longrightarrow> udp6_step src c s t"
| UDP6_Timeout_Cancelled: "tr_finished s \<Longrightarrow> a \<in> tr_timers s \<Longrightarrow> udp6_step src c s (udp6_timeout_cancelled s a)"
| UDP6_Quoted: "udp6_handleICMPMessage c s msg finish data = Inr t \<Longrightarrow> udp6_step src c s t"
| UDP6_Take: "\<not> tr_finished s \<Longrightarrow> u6_matchQ s = task # q \<Longrightarrow> length (u6_taken s) < 16 \<Longrightarrow>
    udp6_step src c s (s\<lparr>u6_matchQ := q, u6_taken := u6_taken s @ [task]\<rparr>)"
| UDP6_Match: "\<not> tr_finished s \<Longrightarrow> u6_taken s = xs @ task # ys \<Longrightarrow>
    udp6_match_task c (s\<lparr>u6_taken := xs @ ys\<rparr>) task = Inr t \<Longrightarrow> udp6_step src c s t"

subsection \<open>Every step keeps the invariant of a tracer\<close>

definition udp6_open :: "Config \<Rightarrow> udp6_state \<Rightarrow> (int \<times> int) set" where
  "udp6_open c s = {a \<in> valid_attempts c. udp_seqOf (fst a) (snd a) \<in> u6_pending s}"

definition udp6_view :: "Config \<Rightarrow> udp6_state \<Rightarrow> icmp_state" where
  "udp6_view c s = icmp_view s (udp6_open c s) Map.empty"

definition udp6_inv :: "Config \<Rightarrow> udp6_state \<Rightarrow> bool" where
  "udp6_inv c s \<longleftrightarrow> u6_pending s \<subseteq> seqs (valid_attempts c)"

lemma udp6_open_valid: "udp6_open c s \<subseteq> valid_attempts c"
  by (auto simp: udp6_open_def)

lemma udp6_open_mem: "valid_attempt c a \<Longrightarrow> a \<in> udp6_open c s \<longleftrightarrow> udp_seqOf (fst a) (snd a) \<in> u6_pending s"
  by (simp add: udp6_open_def valid_attempts_def)

lemma udp6_open_cong: "u6_pending t = u6_pending s \<Longrightarrow> udp6_open c t = udp6_open c s"
  by (simp add: udp6_open_def)

lemma udp_seq_eq:
  assumes "wf_config c" "valid_attempt c a" "valid_attempt c b"
  shows "udp_seqOf (fst b) (snd b) = udp_seqOf (fst a) (snd a) \<longleftrightarrow> b = a"
  using seqOf_inj [OF assms(1,3,2)] by (auto simp: udp_seqOf_is)

lemma udp6_open_insert:
  assumes "wf_config c" "valid_attempt c a" "u6_pending t = insert (udp_seqOf (fst a) (snd a)) (u6_pending s)"
  shows "udp6_open c t = insert a (udp6_open c s)"
proof (rule set_eqI)
  fix b
  show "b \<in> udp6_open c t \<longleftrightarrow> b \<in> insert a (udp6_open c s)"
    using assms by (cases "valid_attempt c b") (auto simp: udp6_open_def valid_attempts_def udp_seq_eq)
qed

lemma udp6_open_remove:
  assumes "wf_config c" "valid_attempt c a" "u6_pending t = u6_pending s - {udp_seqOf (fst a) (snd a)}"
  shows "udp6_open c t = udp6_open c s - {a}"
proof (rule set_eqI)
  fix b
  show "b \<in> udp6_open c t \<longleftrightarrow> b \<in> udp6_open c s - {a}"
    using assms by (cases "valid_attempt c b") (auto simp: udp6_open_def valid_attempts_def udp_seq_eq)
qed

lemma udp6_inv_init: "udp6_inv c (udp6_init c)"
  by (simp add: udp6_inv_def udp6_init_def tr_init_def tracer_core.defs)

lemma udp6_view_init: "udp6_view c (udp6_init c) = icmp_init c"
  by (simp add: udp6_view_def udp6_open_def udp6_init_def tracer_core.defs tr_init_def icmp_init_def icmp_view_def seqs_def)

lemma view_extension_udp6 [simp]:
  "icmp_view (s\<lparr>u6_pending := P\<rparr>) op st = icmp_view s op st"
  "icmp_view (s\<lparr>u6_sentAt := S\<rparr>) op st = icmp_view s op st" "icmp_view (s\<lparr>u6_matchQ := Q\<rparr>) op st = icmp_view s op st"
  "icmp_view (s\<lparr>u6_taken := T\<rparr>) op st = icmp_view s op st" "icmp_view (s\<lparr>u6_local := L\<rparr>) op st = icmp_view s op st"
  by (simp_all add: icmp_view_def)

lemma common_frame_udp6: "common_step c s t \<Longrightarrow> u6_pending t = u6_pending s"
  by (cases rule: common_step.cases, assumption)
    (simp_all add: tr_launch_ttl_def tr_launch_attempt_def tr_print_tick_def Let_def)

lemma addHop_frame_udp6: "tr_addHopWithIndex c s peer ttl i rtt mpls = Inr t \<Longrightarrow> u6_pending t = u6_pending s"
  by (auto simp: tr_addHopWithIndex_def Let_def rbind_eq_Inr split: if_splits)

lemma report_frame_udp6: "tr_report_timeout c s a = Inr (t, dropped) \<Longrightarrow> u6_pending t = u6_pending s"
  by (auto simp: tr_report_timeout_def Let_def rbind_eq_Inr split: if_splits)

lemma udp6_same_view:
  assumes "udp6_inv c s" "u6_pending t = u6_pending s" "icmp_view t (udp6_open c s) Map.empty = icmp_view s (udp6_open c s) Map.empty"
  shows "udp6_inv c t \<and> reaches (loose_step c) (udp6_view c s) (udp6_view c t)"
  using assms udp6_open_cong [OF assms(2)] by (simp add: udp6_inv_def udp6_view_def)

lemma udp6_drop_same [simp]:
  "u6_pending (udp6_dropSent s q) = u6_pending s" "icmp_view (udp6_dropSent s q) op st = icmp_view s op st"
  by (simp_all add: udp6_dropSent_def)

lemma udp6_enqueue_same [simp]:
  "u6_pending (udp6_enqueue s task) = u6_pending s" "icmp_view (udp6_enqueue s task) op st = icmp_view s op st"
  by (simp_all add: udp6_enqueue_def)

text \<open>An attempt that gives up before it registers looks like one whose transmission failed at once and whose
  timer found nothing to do.\<close>

lemma view_abandoned:
  assumes "wf_config c" "icmp_inv c (icmp_view s op st)" "op \<subseteq> valid_attempts c" "\<not> tr_finished s" "a \<in> tr_waiting s"
    "int (length (tr_sending s)) < ParallelRequests c" "\<not> (tr_ttlComp c s (fst a) \<or> tr_past_final s (fst a))"
  shows "reaches (icmp_step c) (icmp_view s op st)
    (icmp_view (s\<lparr>tr_waiting := tr_waiting s - {a}, tr_failed := insert a (tr_failed s)\<rparr>) op st)"
proof -
  have a: "valid_attempt c a" using view_attempts_valid(3) [OF assms(2,5)] .
  have i: "inv_attempts c (icmp_view s op st)" using assms(2) by (simp add: icmp_inv_def)
  then have t: "a \<notin> tr_timers s" using assms(5) by (auto simp: inv_attempts_def entered_def)
  have o: "a \<notin> op"
  proof
    assume "a \<in> op"
    then have "seqOf (fst a) (snd a) \<in> pending (icmp_view s op st)" by (simp add: seqs_def)
    from pendingE [OF i this] obtain b where "b \<in> entered (icmp_view s op st)" "valid_attempt c b"
        "seqOf (fst a) (snd a) = seqOf (fst b) (snd b)" by metis
    then show False using seqOf_inj [OF assms(1) a] assms(5) by (auto simp: entered_def)
  qed
  let ?w = "tr_waiting s - {a}"
  let ?s1 = "s\<lparr>tr_waiting := ?w, tr_timers := insert a (tr_timers s), tr_sending := a # tr_sending s\<rparr>"
  let ?s2 = "s\<lparr>tr_waiting := ?w, tr_timers := insert a (tr_timers s), tr_failed := insert a (tr_failed s)\<rparr>"
  let ?s3 = "s\<lparr>tr_waiting := ?w, tr_failed := insert a (tr_failed s)\<rparr>"
  have e: "send_enter c (icmp_view s op st) a = icmp_view ?s1 (insert a op) st"
    using view_send_enter [where register = "\<lambda>u. u" and op' = "insert a op" and c = c and s = s and a = a and op = op and st = st] assms(7)
    by (simp add: tr_send_enter_def Let_def waiting_irrelevant)
  have 1: "icmp_step c (icmp_view s op st) (icmp_view ?s1 (insert a op) st)"
    unfolding e [symmetric] by (rule icmp_step.Send_Enter) (simp_all add: assms)
  have "send_error (icmp_view ?s1 (insert a op) st) a = icmp_view ?s2 op st"
    using o a assms(3) by (subst view_send_error [OF assms(1)]) (auto simp: valid_attempts_def icmp_view_def)
  then have 2: "icmp_step c (icmp_view ?s1 (insert a op) st) (icmp_view ?s2 op st)"
    using icmp_step.Send_Error [of a "icmp_view ?s1 (insert a op) st" c] by simp
  have "icmp_step c (icmp_view ?s2 op st) (icmp_view ?s3 (op - {a}) (if False then st(a := None) else st))"
    by (rule view_timeout [OF assms(1,3) a]) (use assms(4) o t in \<open>simp_all add: icmp_view_def\<close>)
  then have 3: "icmp_step c (icmp_view ?s2 op st) (icmp_view ?s3 op st)" using o by simp
  note step = reaches_step [of "icmp_step c"]
  show ?thesis by (rule step [OF step [OF step [OF reaches_refl 1] 2] 3])
qed

lemma udp6_sim_send_enter:
  fixes srcPort :: nat
  assumes "wf_config c" "udp6_inv c s" "icmp_inv c (udp6_view c s)" "\<not> tr_finished s" "a \<in> tr_waiting s"
    "tr_ttlComp c s (fst a) \<or> int (length (tr_sending s)) < ParallelRequests c"
    "udp6_send_enter c src s a srcPort draw noise = Inr t"
  shows "udp6_inv c t \<and> reaches (loose_step c) (udp6_view c s) (udp6_view c t)"
proof -
  let ?skip = "tr_ttlComp c s (fst a) \<or> tr_past_final s (fst a)"
  define reg where "reg = (\<lambda>t. (udp6_markPending t (udp_seqOf (fst a) (snd a)))\<lparr>u6_local := (u6_local t)(a := srcPort)\<rparr>)"
  have a: "valid_attempt c a" using view_attempts_valid(3) assms(3,5) unfolding udp6_view_def by blast
  consider (enter) "t = tr_send_enter c reg s a"
    | (lost) "\<not> ?skip" "t = s\<lparr>tr_waiting := tr_waiting s - {a}, tr_failed := insert a (tr_failed s)\<rparr>"
  proof (cases ?skip)
    case True
    then have "t = tr_send_enter c reg s a"
      using assms(7) by (auto simp: udp6_send_enter_def tr_send_enter_def Let_def waiting_irrelevant)
    then show ?thesis by (rule enter)
  next
    case False
    note e = assms(7) [unfolded udp6_send_enter_def if_not_P [OF False]]
    show ?thesis
    proof (cases "udp6_payload c src draw noise a srcPort")
      case (Inl err)
      then have "t = s\<lparr>tr_waiting := tr_waiting s - {a}, tr_failed := insert a (tr_failed s)\<rparr>"
        using e by (cases err) simp_all
      then show ?thesis by (rule lost [OF False])
    next
      case (Inr p)
      then have "t = tr_send_enter c reg s a" using e by (simp add: reg_def)
      then show ?thesis by (rule enter)
    qed
  qed
  then show ?thesis
  proof cases
    case lost
    then have l: "int (length (tr_sending s)) < ParallelRequests c" using assms(6) by simp
    have o: "udp6_open c t = udp6_open c s" using lost by (intro udp6_open_cong) simp
    show ?thesis
      using view_abandoned [OF assms(1) assms(3) [unfolded udp6_view_def] udp6_open_valid assms(4,5) l lost(1)] assms(2)
      by (simp add: udp6_view_def o loose_reaches udp6_inv_def) (simp add: lost(2) loose_reaches)
  next
    case t: enter
    have p: "u6_pending t = (if ?skip then u6_pending s else insert (udp_seqOf (fst a) (snd a)) (u6_pending s))"
      by (auto simp: t tr_send_enter_def reg_def udp6_markPending_def Let_def waiting_irrelevant)
    then have op: "udp6_open c t = (if ?skip then udp6_open c s else insert a (udp6_open c s))"
      using udp6_open_insert [OF assms(1) a, of t s] udp6_open_cong [of t s] by (simp split: if_splits)
    have "send_enter c (udp6_view c s) a = udp6_view c t"
      unfolding udp6_view_def op unfolding t
    proof (rule view_send_enter)
      show "icmp_view (reg u) op' st = icmp_view u op' st" for u op' st
        by (simp add: reg_def udp6_markPending_def)
    qed simp
    then have "icmp_step c (udp6_view c s) (udp6_view c t)"
      using icmp_step.Send_Enter [of "udp6_view c s" a c] assms(4-6) by (simp add: udp6_view_def)
    moreover have "udp6_inv c t" using assms(2) a p by (auto simp: udp6_inv_def valid_attempts_def seqs_def udp_seqOf_is)
    ultimately show ?thesis by (auto intro: loose_then [OF Loose_Step])
  qed
qed

lemma udp6_sim_send_error:
  assumes "wf_config c" "udp6_inv c s" "valid_attempt c a" "a \<in> set (tr_sending s)"
  defines "t \<equiv> udp6_send_error s a"
  shows "udp6_inv c t \<and> reaches (loose_step c) (udp6_view c s) (udp6_view c t)"
proof -
  have p: "u6_pending t = u6_pending s - {udp_seqOf (fst a) (snd a)}"
    by (simp add: t_def udp6_send_error_def udp6_clearPending_def Let_def)
  have "udp6_view c t = send_error (udp6_view c s) a"
    unfolding udp6_view_def view_send_error [OF assms(1) udp6_open_valid assms(3)] udp6_open_remove [OF assms(1,3) p]
    by (simp add: t_def udp6_send_error_def udp6_clearPending_def Let_def udp6_open_mem assms(3))
  then have "icmp_step c (udp6_view c s) (udp6_view c t)"
    using icmp_step.Send_Error [of a "udp6_view c s" c] assms(4) by (simp add: udp6_view_def)
  then show ?thesis using assms(2) p by (auto simp: udp6_inv_def intro: loose_then [OF Loose_Step])
qed

lemma udp6_sim_timeout:
  assumes "wf_config c" "udp6_inv c s" "valid_attempt c a" "\<not> tr_finished s" "a \<in> tr_timers s"
    "udp6_timeout_fires c s a = Inr t"
  shows "udp6_inv c t \<and> reaches (loose_step c) (udp6_view c s) (udp6_view c t)"
proof -
  let ?q = "udp_seqOf (fst a) (snd a)"
  define s' where "s' = s\<lparr>u6_pending := u6_pending s - {?q}\<rparr>"
  let ?s = "s'\<lparr>tr_timers := tr_timers s' - {a}\<rparr>"
  note o = udp6_open_mem [OF assms(3), of s]
  have comm: "s\<lparr>tr_timers := T, u6_pending := P\<rparr> = s\<lparr>u6_pending := P, tr_timers := T\<rparr>" for T P by simp
  obtain u dropped where t': "t = (if dropped then udp6_dropSent u ?q else u)"
      and rep: "?q \<in> u6_pending s \<Longrightarrow> tr_report_timeout c ?s a = Inr (u, dropped)"
      and skip: "?q \<notin> u6_pending s \<Longrightarrow> u = ?s \<and> \<not> dropped"
    using assms(6)
    by (cases "?q \<in> u6_pending s") (auto simp: udp6_timeout_fires_def udp6_clearPending_def Let_def rbind_eq_Inr s'_def comm)
  have t: "u6_pending t = u6_pending u" "icmp_view t op st = icmp_view u op st" for op st by (simp_all add: t')
  have p: "u6_pending t = u6_pending s - {?q}"
    using report_frame_udp6 [OF rep] skip t(1) by (cases "?q \<in> u6_pending s") (simp_all add: s'_def)
  have "icmp_step c (icmp_view s' (udp6_open c s) Map.empty)
      (icmp_view u (udp6_open c s - {a}) (if dropped then Map.empty(a := None) else Map.empty))"
    by (rule view_timeout [OF assms(1) udp6_open_valid assms(3)])
      (use assms(4,5) rep skip o in \<open>simp_all add: s'_def\<close>)
  then have "icmp_step c (udp6_view c s) (udp6_view c t)"
    by (simp add: udp6_view_def udp6_open_remove [OF assms(1,3) p] t(2) s'_def split: if_splits)
  then show ?thesis using assms(2) p by (auto simp: udp6_inv_def intro: loose_then [OF Loose_Step])
qed

lemma udp6_sim_timeout_cancelled:
  assumes "wf_config c" "udp6_inv c s" "valid_attempt c a" "tr_finished s" "a \<in> tr_timers s"
  defines "t \<equiv> udp6_timeout_cancelled s a"
  shows "udp6_inv c t \<and> reaches (loose_step c) (udp6_view c s) (udp6_view c t)"
proof -
  have p: "u6_pending t = u6_pending s - {udp_seqOf (fst a) (snd a)}"
    by (simp add: t_def udp6_timeout_cancelled_def udp6_clearPending_def)
  have "udp6_view c t = timeout_cancelled (udp6_view c s) a"
    unfolding timeout_cancelled_def udp6_view_def udp6_open_remove [OF assms(1,3) p]
    by (simp add: t_def udp6_timeout_cancelled_def udp6_clearPending_def clearPending_def
        seqs_minus [OF assms(1) udp6_open_valid assms(3)])
  then have "icmp_step c (udp6_view c s) (udp6_view c t)"
    using icmp_step.Timeout_Cancelled [of "udp6_view c s" a c] assms(4,5) by (simp add: udp6_view_def)
  then show ?thesis using assms(2) p by (auto simp: udp6_inv_def intro: loose_then [OF Loose_Step])
qed

text \<open>A reply whose sequence number is open belongs to the attempt the number encodes.\<close>

lemma udp6_reply_attempt:
  assumes "wf_config c" "udp6_inv c s" "q \<in> u6_pending s"
  defines "a \<equiv> (drop_bit 8 (take_bit 16 q) AND 0xFF, take_bit 16 q AND 0xFF)"
  shows "valid_attempt c a" "q = udp_seqOf (fst a) (snd a)" "a \<in> udp6_open c s"
proof -
  obtain b where b: "valid_attempt c b" "q = seqOf (fst b) (snd b)"
    using assms(2,3) by (auto simp: udp6_inv_def seqs_def valid_attempts_def)
  then have "a = b" using seq_decode [OF b(1) assms(1)] by (simp add: a_def prod_eq_iff)
  then show "valid_attempt c a" "q = udp_seqOf (fst a) (snd a)" using b by (simp_all add: udp_seqOf_is)
  then show "a \<in> udp6_open c s" using assms(3) by (simp add: udp6_open_mem)
qed

lemma udp6_match_cases:
  assumes "udp6_match_task c s task = Inr t"
  obtains (same) "u6_pending t = u6_pending s" "tr_res t = tr_res s" "\<And>op st. icmp_view t op st = icmp_view s op st"
    | (credited) start u si where "pt_seq task \<in> u6_pending s"
      "u6_sentAt s (pt_seq task) = Some si" "pt_srcPort task = si_srcPort si"
      "tr_addHopWithIndex c (s\<lparr>u6_pending := u6_pending s - {pt_seq task}\<rparr>) (pt_peer task)
         (drop_bit 8 (take_bit 16 (pt_seq task)) AND 0xFF) (take_bit 16 (pt_seq task) AND 0xFF)
         (pt_finish task - start) (pt_mpls task) = Inr u"
      "t = udp6_dropSent u (pt_seq task)"
proof (cases "u6_sentAt s (pt_seq task)")
  case None
  then show ?thesis using assms by (intro same) (simp_all add: udp6_match_task_def udp6_lookupSent_def)
next
  case (Some si)
  show ?thesis
  proof (cases "pt_srcPort task = si_srcPort si \<and> pt_seq task \<in> u6_pending s")
    case True
    then show ?thesis
      using assms Some
      by (auto simp: udp6_match_task_def udp6_lookupSent_def udp6_clearPending_def Let_def rbind_eq_Inr intro: credited)
  next
    case False
    then have "t = s \<or> t = udp6_dropSent (s\<lparr>u6_pending := u6_pending s - {pt_seq task}\<rparr>) (pt_seq task) \<and> pt_seq task \<notin> u6_pending s"
      using assms Some
      by (auto simp: udp6_match_task_def udp6_lookupSent_def udp6_clearPending_def Let_def split: if_splits)
    then show ?thesis by (intro same) (auto simp: udp6_dropSent_def)
  qed
qed

lemma udp6_sim_match:
  assumes "wf_config c" "udp6_inv c s" "\<not> tr_finished s" "udp6_match_task c s task = Inr t"
  shows "udp6_inv c t \<and> reaches (loose_step c) (udp6_view c s) (udp6_view c t)"
  using assms(4)
proof (cases rule: udp6_match_cases)
  case same
  then show ?thesis by (intro udp6_same_view [OF assms(2)]) simp_all
next
  case (credited start u)
  define a where "a = (drop_bit 8 (take_bit 16 (pt_seq task)) AND 0xFF, take_bit 16 (pt_seq task) AND 0xFF)"
  note a = udp6_reply_attempt [OF assms(1,2) credited(1), folded a_def]
  have u: "tr_addHopWithIndex c (s\<lparr>u6_pending := u6_pending s - {pt_seq task}\<rparr>) (pt_peer task) (fst a) (snd a)
      (pt_finish task - start) (pt_mpls task) = Inr u"
    using credited(4) by (simp add: a_def)
  have p: "u6_pending t = u6_pending s - {udp_seqOf (fst a) (snd a)}"
    using addHop_frame_udp6 [OF u] a(2) by (simp add: credited(5))
  have "reaches (loose_step c) (icmp_view (s\<lparr>u6_pending := u6_pending s - {pt_seq task}\<rparr>) (udp6_open c s) Map.empty)
      (icmp_view u (udp6_open c s - {a}) Map.empty)"
    using assms(3) by (intro loose_reply [OF assms(1) udp6_open_valid a(3) _ u]) simp
  then show ?thesis
    using assms(2) p unfolding udp6_view_def udp6_open_remove [OF assms(1) a(1) p]
    by (auto simp: udp6_inv_def credited(5))
qed

lemma udp6_simulation:
  assumes "wf_config c" "udp6_inv c s" "icmp_inv c (udp6_view c s)" "udp6_step src c s t"
  shows "udp6_inv c t \<and> reaches (loose_step c) (udp6_view c s) (udp6_view c t)"
  using assms(4)
proof cases
  case UDP6_Common
  note f = common_frame_udp6 [OF UDP6_Common]
  have "icmp_step c (udp6_view c s) (udp6_view c t)"
    using view_common [OF UDP6_Common, of "udp6_open c s" Map.empty] by (simp add: udp6_view_def udp6_open_cong [OF f])
  then show ?thesis using assms(2) f by (auto simp: udp6_inv_def intro: loose_then [OF Loose_Step])
next
  case UDP6_Send_Enter
  then show ?thesis by (rule udp6_sim_send_enter [OF assms(1-3)])
next
  case (UDP6_Send_OK a start)
  then have "valid_attempt c a" using view_attempts_valid(1) assms(3) unfolding udp6_view_def by blast
  moreover have f: "u6_pending t = u6_pending s"
    and "icmp_view t (udp6_open c s) Map.empty = icmp_view (s\<lparr>tr_sending := remove1 a (tr_sending s)\<rparr>) (udp6_open c s) Map.empty"
    by (simp_all add: UDP6_Send_OK(1) udp6_send_ok_def udp6_storeSent_def icmp_view_def)
  ultimately show ?thesis
    using loose_send_ok [OF assms(1) _ UDP6_Send_OK(2)] assms(2)
    by (simp add: udp6_view_def udp6_inv_def udp6_open_cong [OF f])
next
  case (UDP6_Send_Error a)
  then have "valid_attempt c a" using view_attempts_valid(1) assms(3) unfolding udp6_view_def by blast
  then show ?thesis using udp6_sim_send_error [OF assms(1,2)] UDP6_Send_Error by blast
next
  case (UDP6_Timeout a)
  then have "valid_attempt c a" using view_attempts_valid(2) assms(3) unfolding udp6_view_def by blast
  then show ?thesis using udp6_sim_timeout [OF assms(1,2)] UDP6_Timeout by blast
next
  case (UDP6_Timeout_Cancelled a)
  then have "valid_attempt c a" using view_attempts_valid(2) assms(3) unfolding udp6_view_def by blast
  then show ?thesis using udp6_sim_timeout_cancelled [OF assms(1,2)] UDP6_Timeout_Cancelled by blast
next
  case (UDP6_Quoted msg finish data)
  then have "t = s \<or> (\<exists>task. t = udp6_enqueue s task)"
    by (auto simp: udp6_handleICMPMessage_def rbind_eq_Inr split: option.splits)
  then show ?thesis by (intro udp6_same_view [OF assms(2)]) auto
next
  case (UDP6_Take task q)
  then show ?thesis by (intro udp6_same_view [OF assms(2)]) simp_all
next
  case (UDP6_Match xs task ys)
  let ?s = "s\<lparr>u6_taken := xs @ ys\<rparr>"
  have "udp6_open c ?s = udp6_open c s" by (intro udp6_open_cong) simp
  then have "udp6_inv c ?s" "udp6_view c ?s = udp6_view c s"
    using assms(2) by (simp_all add: udp6_inv_def udp6_view_def)
  then show ?thesis using udp6_sim_match [OF assms(1), of ?s task t] UDP6_Match by simp
qed

interpretation udp6: tracer_view c "udp6_step src c" "udp6_init c" "udp6_view c" "udp6_inv c" for src c
proof unfold_locales
  show "\<exists>op st. udp6_view c s = icmp_view s op st" for s by (auto simp: udp6_view_def)
qed (use udp6_view_init udp6_inv_init udp6_simulation in auto)

subsection \<open>What a UDP trace over IPv6 guarantees\<close>

text \<open>Every UDP trace over IPv6, under every interleaving: the send parallelism is respected, no TTL holds
  more hops than configured, every printed TTL is complete, the final hop is one of the TTLs probed,
  and once set it stays set and only moves down.\<close>

theorem udp6_trace_invariant:
  assumes "wf_config c" "reaches (udp6_step src c) (udp6_init c) s" "reaches (udp6_step src c) s t"
  shows "trace_ok c s \<and> (tr_final s = -1 \<or> tr_final t \<noteq> -1 \<and> tr_final t \<le> tr_final s)"
  using udp6.reachable_ok [OF assms(1,2)] udp6.final_monotone [OF assms] by blast

text \<open>A quoted UDP probe over IPv6 changes the trace only for the open attempt whose sequence number is the
  quoted checksum, sent from the quoted source port, and then only that attempt's TTL.\<close>

theorem udp6_reply_credited:
  assumes "wf_config c" "reaches (udp6_step src c) (udp6_init c) s" "udp6_match_task c s task = Inr t"
    "tr_res t \<noteq> tr_res s"
  shows "\<exists>a si. a \<in> tr_spawned s \<and> a \<notin> tr_recorded s \<and> pt_seq task = udp_seqOf (fst a) (snd a) \<and>
    u6_sentAt s (pt_seq task) = Some si \<and> si_srcPort si = pt_srcPort task \<and>
    tr_recorded t = insert a (tr_recorded s) \<and>
    (\<forall>k. k \<noteq> nat (fst a - 1) \<longrightarrow> Hops (tr_res t) ! k = Hops (tr_res s) ! k)"
  using assms(3)
proof (cases rule: udp6_match_cases)
  case same
  then show ?thesis using assms(4) by simp
next
  case (credited start u si)
  have inv: "udp6_inv c s" "icmp_inv c (udp6_view c s)" using udp6.reachable [OF assms(1,2)] by blast+
  define a where "a = (drop_bit 8 (take_bit 16 (pt_seq task)) AND 0xFF, take_bit 16 (pt_seq task) AND 0xFF)"
  note a = udp6_reply_attempt [OF assms(1) inv(1) credited(1), folded a_def]
  let ?s = "s\<lparr>u6_pending := u6_pending s - {pt_seq task}\<rparr>"
  have u: "tr_addHopWithIndex c ?s (pt_peer task) (fst a) (snd a) (pt_finish task - start) (pt_mpls task) = Inr u"
    using credited(4) by (simp add: a_def)
  have w: "icmp_inv c (icmp_view ?s (udp6_open c s) Map.empty)" using inv(2) by (simp add: udp6_view_def)
  have "tr_res u \<noteq> tr_res ?s" using assms(4) by (simp add: credited(5) udp6_dropSent_def)
  note credit = view_credit [OF w a(1) u this]
  show ?thesis
    using view_open [OF assms(1) inv(2) [unfolded udp6_view_def] a(3,1)] credit credited(2,3) a(2)
    by (intro exI [of _ a] exI [of _ si]) (auto simp: credited(5) udp6_dropSent_def)
qed

text \<open>C5. The checksum carries the attempt: a probe whose payload \<open>send\<close> built, quoted by a router behind any
  chain of IPv6 extension headers and with the checksum that the wire requires for that payload, is turned
  into a task with the probe's source port and sequence number, from which a match worker reads
  back the probe's TTL and attempt. (A checksum of zero is sent as 0xFFFF, so
  the number 0xFFFF is excepted.)\<close>

theorem udp6_probe_recognised:
  assumes "wf_config c" "valid_attempt c (ttl, i)" "srcPort < 65536" "DstPort c = int dstPort" "dstPort < 65536"
    and "same_family src (DstIP c)" "2 \<le> resolveProbePayloadSize draw UDPTrace (DstIP c) (PktSize c) (RandomPacketSize c)"
      "resolveProbePayloadSize draw UDPTrace (DstIP c) (PktSize c) (RandomPacketSize c) < 65528"
    and "udp_seqOf ttl i \<noteq> 65535"
    and "ipv6_header h (first_type es 17) dst" "\<forall>e\<in>set es. wf_ext e"
  shows "\<exists>p labels. udp6_payload c src draw noise (ttl, i) srcPort = Inr p \<and>
    udp6_quoted_task c msg finish
      (h @ encode_chain es 17 @ enc16 srcPort @ enc16 dstPort @ enc16 (8 + length p) @
       enc16 (udp_checksum (udp_segment src (DstIP c) srcPort dstPort p)) @ rest) =
      Inr (Some \<lparr>pt_srcPort = srcPort, pt_seq = udp_seqOf ttl i, pt_ack = 0, pt_peer = rm_Peer msg,
                 pt_finish = finish, pt_mpls = labels\<rparr>) \<and>
    drop_bit 8 (take_bit 16 (udp_seqOf ttl i)) AND 0xFF = ttl \<and> take_bit 16 (udp_seqOf ttl i) AND 0xFF = i"
proof -
  let ?n = "resolveProbePayloadSize draw UDPTrace (DstIP c) (PktSize c) (RandomPacketSize c)"
  let ?p0 = "map (\<lambda>k. if k < 2 then 0 else noise k) [0..<nat ?n]" and ?q = "udp_seqOf ttl i"
  have r: "1 \<le> ttl" "ttl \<le> 255" "0 \<le> i" "i < 256" using assms(1,2) by (auto simp: valid_attempt_def wf_config_def)
  then have q: "?q = ttl * 256 + i" by (simp add: udp_seqOf_is seqOf_eq)
  have q': "0 \<le> ?q" "?q < 65535" using r q assms(9) by linarith+
  then have w: "int (unat (word_of_int ?q :: 16 word)) = ?q" by (simp add: unsigned_of_int take_bit_int_eq_self)
  then have w': "(word_of_int ?q :: 16 word) \<noteq> 0xFFFF" using assms(9) by auto
  have l: "2 \<le> length ?p0" "length ?p0 < 65528" using assms(7,8) by simp_all
  obtain p where p: "MakePayloadWithTargetChecksum ?p0 src (DstIP c) (int srcPort) (int dstPort) (word_of_int ?q) = Inr p"
      and sum: "udp_checksum (udp_segment src (DstIP c) srcPort dstPort p) = unat (word_of_int ?q :: 16 word)"
      and len: "length p = length ?p0"
    using steered_checksum [OF assms(6,3,5) l, of "word_of_int ?q"] w' by auto
  have "udp6_payload c src draw noise (ttl, i) srcPort = Inr p"
    using p assms(4,7) by (simp add: udp6_payload_def Let_def)
  moreover have "\<exists>labels. udp6_quoted_task c msg finish
      (h @ encode_chain es 17 @ enc16 srcPort @ enc16 dstPort @ enc16 (8 + length p) @
       enc16 (udp_checksum (udp_segment src (DstIP c) srcPort dstPort p)) @ rest) =
      Inr (Some \<lparr>pt_srcPort = srcPort, pt_seq = ?q, pt_ack = 0, pt_peer = rm_Peer msg,
                 pt_finish = finish, pt_mpls = labels\<rparr>)"
  proof -
    let ?u = "enc16 srcPort @ enc16 dstPort @ enc16 (8 + length p) @ enc16 (unat (word_of_int ?q :: 16 word)) @ rest"
    have "(17 :: byte) \<notin> ext_types" "(17 :: byte) \<noteq> 50" by (simp_all add: ext_types_def)
    then have g: "GetICMPResponsePayload (h @ encode_chain es 17 @ ?u) = Inr ?u"
      using GetICMPResponsePayload_ipv6 [OF assms(10,11), of ?u] by simp
    have b: "unat (word_of_int ?q :: 16 word) < 65536" using w q' by linarith
    have "GetUDPPorts ?u = Inr (srcPort, dstPort)" using assms(3,5) by (simp add: GetUDPPorts_def)
    moreover have "GetUDPSeqv6 ?u = Inr (unat (word_of_int ?q :: 16 word))"
      using b by (simp add: GetUDPSeqv6_def)
    moreover obtain labels where "extractMPLS msg (DisableMPLS c) = Inr labels" using extractMPLS_total by blast
    ultimately show ?thesis using assms(4) w by (simp add: udp6_quoted_task_def g sum)
  qed
  moreover have "drop_bit 8 (take_bit 16 ?q) AND 0xFF = ttl \<and> take_bit 16 ?q AND 0xFF = i"
    using seq_decode [OF assms(2,1)] by (simp add: udp_seqOf_is)
  ultimately show ?thesis by blast
qed

subsection \<open>A concrete run\<close>

definition run6_config :: Config where
  "run6_config = run_config\<lparr>DstIP := [0x20, 1, 0x0d, 0xb8, 0, 0, 0, 0, 0, 0, 0, 0, 0, 0, 0, 1], PktSize := 2\<rparr>"

definition run6_src :: ip where
  "run6_src = [0x20, 1, 0x0d, 0xb8, 0, 0, 0, 0, 0, 0, 0, 0, 0, 0, 0, 2]"

definition udp6_run_sending :: udp6_state where
  "udp6_run_sending = projr (udp6_send_enter run6_config run6_src
     (tr_launch_attempt run6_config (tr_launch_ttl run6_config (udp6_init run6_config)) 1 0) (1, 0) 40000 (\<lambda>n. 0) (\<lambda>k. 0))"

definition udp6_run_sent :: udp6_state where
  "udp6_run_sent = udp6_send_ok udp6_run_sending (1, 0) 5"

definition udp6_run_task :: portTask where
  "udp6_run_task = \<lparr>pt_srcPort = 40000, pt_seq = 256, pt_ack = 0, pt_peer = Some (IPAddr [8, 8, 8, 8] []),
     pt_finish = 9, pt_mpls = []\<rparr>"

lemma wf_run6_config [simp]: "wf_config run6_config"
  using wf_run_config by (simp add: run6_config_def wf_config_def)

lemma run6_family: "same_family run6_src (DstIP run6_config)" "length (DstIP run6_config) = 16"
  by (simp_all add: same_family_def run6_src_def run6_config_def To4_def v4InV6Prefix_def numeral_eq_Suc)

lemma run6_size: "resolveProbePayloadSize draw UDPTrace (DstIP run6_config) (PktSize run6_config) (RandomPacketSize run6_config) = 2"
  by (simp add: resolveProbePayloadSize_def run6_config_def run_config_def sample_config_def Let_def)

lemma run6_port: "DstPort run6_config = 80"
  by (simp add: run6_config_def run_config_def sample_config_def)

lemma valid_attempt_run6: "valid_attempt run6_config (1, 0)"
  by (simp add: valid_attempt_def run6_config_def run_config_def sample_config_def)

lemma run6_payload: "\<exists>p. udp6_payload run6_config run6_src draw noise (1, 0) 40000 = Inr p"
proof -
  have "DstPort run6_config = int 80" by (simp add: run6_config_def run_config_def sample_config_def)
  then show ?thesis
    using steered_checksum [OF run6_family(1), of 40000 80 "map (\<lambda>k. if k < 2 then 0 else noise k) [0..<2]"
        "word_of_int (udp_seqOf 1 0)"]
    by (auto simp: udp6_payload_def run6_size Let_def)
qed

lemmas udp6_run_defs = run6_config_def run_config_def sample_config_def udp6_init_def tr_init_def tracer_core.defs
  tr_launch_ttl_def tr_past_final_def tr_launch_attempt_def tr_ttlComp_def init_result_def setGeoWait_def
  tr_send_enter_def udp6_markPending_def Let_def

lemma udp6_run_enter:
  "udp6_send_enter run6_config run6_src
     (tr_launch_attempt run6_config (tr_launch_ttl run6_config (udp6_init run6_config)) 1 0) (1, 0) 40000 (\<lambda>n. 0) (\<lambda>k. 0) =
   Inr ((udp6_init run6_config)\<lparr>tr_next_ttl := 2, tr_next_i := [1 \<mapsto> 1], tr_spawned := {(1, 0)}, tr_sending := [(1, 0)],
     tr_timers := {(1, 0)}, u6_pending := {256}, u6_local := (\<lambda>_. 0)((1, 0) := 40000)\<rparr>)"
proof -
  obtain p where "udp6_payload run6_config run6_src (\<lambda>n. 0) (\<lambda>k. 0) (1, 0) 40000 = Inr p" using run6_payload by blast
  then show ?thesis
    by (simp add: udp6_send_enter_def) (simp add: udp6_run_defs udp_seqOf_is seqOf_run numeral_2_eq_2)
qed

lemma udp6_run_sent_eq:
  "udp6_run_sent = (udp6_init run6_config)\<lparr>tr_next_ttl := 2, tr_next_i := [1 \<mapsto> 1], tr_spawned := {(1, 0)},
     tr_timers := {(1, 0)}, u6_pending := {256}, u6_local := (\<lambda>_. 0)((1, 0) := 40000),
     u6_sentAt := [256 \<mapsto> \<lparr>si_ttl = 0, si_i = 0, si_srcPort = 40000, si_payloadSize = 0, si_start = 5\<rparr>]\<rparr>"
  by (simp add: udp6_run_sent_def udp6_run_sending_def udp6_run_enter udp6_send_ok_def udp6_storeSent_def)
    (simp add: udp_seqOf_is seqOf_run udp6_init_def tr_init_def tracer_core.defs)

lemma udp6_run_reachable: "reaches (udp6_step run6_src run6_config) (udp6_init run6_config) udp6_run_sent"
proof -
  let ?c = run6_config
  let ?s1 = "tr_launch_ttl ?c (udp6_init ?c)" and ?s2 = "tr_launch_attempt ?c (tr_launch_ttl ?c (udp6_init ?c)) 1 0"
  have 1: "udp6_step run6_src ?c (udp6_init ?c) ?s1"
    by (rule UDP6_Common, rule Common_Launch_TTL) (simp add: udp6_run_defs)
  have 2: "udp6_step run6_src ?c ?s1 ?s2"
    by (rule UDP6_Common, rule Common_Launch_Attempt) (simp_all add: udp6_run_defs)
  have "udp6_send_enter ?c run6_src ?s2 (1, 0) 40000 (\<lambda>n. 0) (\<lambda>k. 0) = Inr udp6_run_sending"
    by (simp add: udp6_run_sending_def udp6_run_enter)
  then have 3: "udp6_step run6_src ?c ?s2 udp6_run_sending"
    by (intro UDP6_Send_Enter) (simp_all add: udp6_run_defs numeral_2_eq_2)
  have 4: "udp6_step run6_src ?c udp6_run_sending udp6_run_sent" unfolding udp6_run_sent_def
    by (rule UDP6_Send_OK) (simp add: udp6_run_sending_def udp6_run_enter)
  note step = reaches_step [of "udp6_step run6_src ?c"]
  show ?thesis by (rule step [OF step [OF step [OF step [OF reaches_refl 1] 2] 3] 4])
qed

theorem udp6_trace_invariant_witness: "trace_ok run6_config udp6_run_sent"
  using udp6_trace_invariant [OF wf_run6_config udp6_run_reachable reaches_refl] by blast

definition udp6_run_matched :: udp6_state where
  "udp6_run_matched = projr (udp6_match_task run6_config udp6_run_sent udp6_run_task)"

lemma not_dst6: "\<not> ip_Equal [8, 8, 8, 8] [0x20, 1, 0x0d, 0xb8, 0, 0, 0, 0, 0, 0, 0, 0, 0, 0, 0, 1]"
  by code_simp

lemma udp6_run_match:
  "udp6_match_task run6_config udp6_run_sent udp6_run_task =
     Inr (udp6_run_sent\<lparr>u6_pending := {}, u6_sentAt := Map.empty, tr_recorded := {(1, 0)},
       tr_res := (setGeoWait (init_result 2) 2)\<lparr>Hops := [[\<lparr>Success = True, Address = Some (IPAddr [8, 8, 8, 8] []),
         Hostname = [], TTL = 1, RTT = 4, Error = None, Geo = None, Lang = ''en'', MPLS = []\<rparr>], []]\<rparr>\<rparr>)"
  by (simp add: udp6_match_task_def udp6_lookupSent_def udp6_run_task_def udp6_run_sent_eq udp6_clearPending_def
      tr_addHopWithIndex_def not_dst6 addWithGeoAsync_def add_def numeral_2_eq_2 udp6_dropSent_def udp6_run_defs)

theorem udp6_reply_credited_witness:
  "\<exists>a. a \<in> tr_spawned udp6_run_sent \<and> 256 = udp_seqOf (fst a) (snd a) \<and>
     tr_recorded udp6_run_matched = insert a (tr_recorded udp6_run_sent)"
proof -
  have m: "udp6_match_task run6_config udp6_run_sent udp6_run_task = Inr udp6_run_matched"
    by (simp add: udp6_run_matched_def udp6_run_match)
  have r: "tr_res udp6_run_matched \<noteq> tr_res udp6_run_sent"
    by (simp add: udp6_run_matched_def udp6_run_match) (simp add: udp6_run_sent_eq udp6_run_defs numeral_2_eq_2)
  show ?thesis
    using udp6_reply_credited [OF wf_run6_config udp6_run_reachable m r] by (auto simp: udp6_run_task_def)
qed

definition udp6_run_header :: "byte list" where
  "udp6_run_header = [0x60, 0, 0, 0, 0, 0, 17, 1] @ replicate 32 0"

theorem udp6_probe_recognised_witness:
  "\<exists>p labels. udp6_payload run6_config run6_src (\<lambda>n. 0) (\<lambda>k. 0) (1, 0) 40000 = Inr p \<and>
    udp6_quoted_task run6_config \<lparr>rm_Peer = None, rm_Msg = [], rm_Err = False\<rparr> 9
      (udp6_run_header @ encode_chain [] 17 @ enc16 40000 @ enc16 80 @ enc16 (8 + length p) @
       enc16 (udp_checksum (udp_segment run6_src (DstIP run6_config) 40000 80 p)) @ []) =
      Inr (Some \<lparr>pt_srcPort = 40000, pt_seq = 256, pt_ack = 0, pt_peer = None, pt_finish = 9, pt_mpls = labels\<rparr>)"
proof -
  have "ipv6_header udp6_run_header (first_type [] 17) (replicate 16 0)"
    by (simp add: ipv6_header_def udp6_run_header_def)
  moreover have "udp_seqOf 1 0 \<noteq> 65535" by (simp add: udp_seqOf_is seqOf_run)
  ultimately have "\<exists>p labels. udp6_payload run6_config run6_src (\<lambda>n. 0) (\<lambda>k. 0) (1, 0) 40000 = Inr p \<and>
    udp6_quoted_task run6_config \<lparr>rm_Peer = None, rm_Msg = [], rm_Err = False\<rparr> 9
      (udp6_run_header @ encode_chain [] 17 @ enc16 40000 @ enc16 80 @ enc16 (8 + length p) @
       enc16 (udp_checksum (udp_segment run6_src (DstIP run6_config) 40000 80 p)) @ []) =
      Inr (Some \<lparr>pt_srcPort = 40000, pt_seq = udp_seqOf 1 0, pt_ack = 0,
        pt_peer = rm_Peer \<lparr>rm_Peer = None, rm_Msg = [], rm_Err = False\<rparr>, pt_finish = 9, pt_mpls = labels\<rparr>) \<and>
      drop_bit 8 (take_bit 16 (udp_seqOf 1 0)) AND 0xFF = (1 :: int) \<and> take_bit 16 (udp_seqOf 1 0) AND 0xFF = (0 :: int)"
    by (intro udp6_probe_recognised [OF wf_run6_config valid_attempt_run6])
      (simp_all add: run6_port run6_family(1) run6_size)
  then show ?thesis by (simp only: udp_seqOf_is seqOf_run received_message.simps) blast
qed

end
