(* ===== verification/Mtr_Engine.thy ===== *)
theory Mtr_Engine
  imports Icmp_Decode Mpls Packet_Size Mtr_Scheduler Tracer_Core
begin

section \<open>The state of the persistent ICMP engine: \<open>trace/mtr_runner.go\<close>\<close>

text \<open>
  MTR keeps one ICMP socket over all its probes. The engine numbers the probes with a 16-bit counter, keeps
  for each outstanding number when and for which TTL it was sent, stores the replies, and replaces the
  socket and the echo identifier before the counter wraps. Two kinds of clients use it: the
  round-based loop, which sends a sweep over all TTLs and waits (\<open>probeRound\<close>), and the per-hop
  scheduler, which calls \<open>ProbeTTL\<close> from many goroutines at once.

  \<open>en_notify\<close> is \<open>probeNotify\<close>: the channel of a call, named by the number of the call; closing a
  closed channel panics, so the closed ones are kept in the ghost field \<open>en_closed\<close>.
  \<open>en_spec\<close> tells whether \<open>e.spec\<close> is set; a method call on the nil pointer panics. \<open>en_epoch\<close> is a ghost
  field that counts the rotations. A time stamp is in nanoseconds, and \<open>roundID\<close> wraps like the code's.
\<close>

record mtrProbeMeta =
  pm_ttl :: int
  pm_start :: int
  pm_roundID :: "32 word"

record mtrProbeReply =
  rp_peer :: "addr option"
  rp_rtt :: int
  rp_mpls :: "string list"

record mtrICMPEngine =
  en_spec :: bool
  en_seqCounter :: "32 word"
  en_sentAt :: "int \<rightharpoonup> mtrProbeMeta"
  en_replied :: "int \<rightharpoonup> mtrProbeReply"
  en_notifyCh :: bool
  en_roundID :: "32 word"
  en_knownFinalTTL :: int
  en_roundFinalTTL :: int
  en_curTtlSeq :: "(int \<rightharpoonup> int) option"
  en_curBeginHop :: int
  en_curEffectiveMax :: int
  en_notify :: "int \<rightharpoonup> nat"
  en_closed :: "nat set"
  en_epoch :: nat

text \<open>The state after \<open>newMTRICMPEngine\<close> and \<open>start\<close>.\<close>

definition newMTRICMPEngine :: mtrICMPEngine where
  "newMTRICMPEngine = \<lparr>en_spec = True, en_seqCounter = 0, en_sentAt = Map.empty, en_replied = Map.empty,
     en_notifyCh = False, en_roundID = 0, en_knownFinalTTL = -1, en_roundFinalTTL = 0, en_curTtlSeq = None,
     en_curBeginHop = 0, en_curEffectiveMax = 0, en_notify = Map.empty, en_closed = {}, en_epoch = 0\<rparr>"

definition resetFinalTTL :: "'a mtrICMPEngine_scheme \<Rightarrow> 'a mtrICMPEngine_scheme" where
  "resetFinalTTL e = e\<lparr>en_knownFinalTTL := -1\<rparr>"

subsection \<open>Sequence numbers\<close>

definition seqWillWrap :: "32 word \<Rightarrow> int \<Rightarrow> bool" where
  "seqWillWrap seqCounter probeCount =
     (if probeCount \<le> 0 then False
      else (seqCounter AND 0xFFFF) + word_of_int probeCount > 0xFFFF)"

text \<open>\<open>int(atomic.AddUint32(&e.seqCounter, 1) & 0xFFFF)\<close>\<close>

definition next_seq :: "'a mtrICMPEngine_scheme \<Rightarrow> 'a mtrICMPEngine_scheme \<times> int" where
  "next_seq e = (e\<lparr>en_seqCounter := en_seqCounter e + 1\<rparr>, uint ((en_seqCounter e + 1) AND 0xFFFF))"

subsection \<open>Channels\<close>

definition close_channel :: "'a mtrICMPEngine_scheme \<Rightarrow> nat \<Rightarrow> (unit, 'a mtrICMPEngine_scheme) res" where
  "close_channel e ch = (if ch \<in> en_closed e then Inl Panic else Inr (e\<lparr>en_closed := insert ch (en_closed e)\<rparr>))"

definition closeProbeNotify :: "'a mtrICMPEngine_scheme \<Rightarrow> int \<Rightarrow> (unit, 'a mtrICMPEngine_scheme) res" where
  "closeProbeNotify e seq =
     (case en_notify e seq of
        None \<Rightarrow> Inr e
      | Some ch \<Rightarrow> rbind (close_channel e ch) (\<lambda>e. Inr (e\<lparr>en_notify := (en_notify e)(seq := None)\<rparr>)))"

text \<open>The loop over \<open>probeNotify\<close>, in the iteration order of the map.\<close>

fun close_each :: "(int \<times> nat) list \<Rightarrow> 'a mtrICMPEngine_scheme \<Rightarrow> (unit, 'a mtrICMPEngine_scheme) res" where
  "close_each [] e = Inr e"
| "close_each ((seq, ch) # order) e =
     rbind (close_channel e ch) (\<lambda>e. close_each order (e\<lparr>en_notify := (en_notify e)(seq := None)\<rparr>))"

definition signalReplyReady :: "'a mtrICMPEngine_scheme \<Rightarrow> 'a mtrICMPEngine_scheme" where
  "signalReplyReady e = e\<lparr>en_notifyCh := True\<rparr>"

definition drainNotifySignal :: "'a mtrICMPEngine_scheme \<Rightarrow> 'a mtrICMPEngine_scheme" where
  "drainNotifySignal e = e\<lparr>en_notifyCh := False\<rparr>"

text \<open>\<open>rotateEngine\<close>: the socket is closed (a nil \<open>spec\<close> panics) and opened again, the counter starts over,
  every waiting call is woken and the maps are emptied. The new listener may fail to get \<open>ready\<close>: the context ends or
  5 seconds pass.\<close>

definition rotateEngine ::
    "(int \<times> nat) list \<Rightarrow> bool \<Rightarrow> 'a mtrICMPEngine_scheme \<Rightarrow> (unit, 'a mtrICMPEngine_scheme \<times> bool) res" where
  "rotateEngine order isReady e =
     (if \<not> en_spec e then Inl Panic
      else rbind (close_each order (e\<lparr>en_seqCounter := 0\<rparr>)) (\<lambda>e.
        let e = e\<lparr>en_notifyCh := False, en_sentAt := Map.empty, en_replied := Map.empty, en_notify := Map.empty,
                  en_epoch := en_epoch e + 1\<rparr>
        in Inr (if isReady then (e, True) else (e\<lparr>en_spec := False\<rparr>, False))))"

subsection \<open>Replies\<close>

definition probe_timeout :: "Config \<Rightarrow> int" where
  "probe_timeout c = (if Timeout c \<le> 0 then 2000000000 else Timeout c)"

definition validProbeRTT :: "Config \<Rightarrow> int \<Rightarrow> bool" where
  "validProbeRTT c rtt \<longleftrightarrow> 0 < rtt \<and> rtt \<le> probe_timeout c"

definition discardProbe :: "'a mtrICMPEngine_scheme \<Rightarrow> int \<Rightarrow> (unit, 'a mtrICMPEngine_scheme) res" where
  "discardProbe e seq = closeProbeNotify (e\<lparr>en_sentAt := (en_sentAt e)(seq := None)\<rparr>) seq"

definition storeProbeReply ::
    "Config \<Rightarrow> 'a mtrICMPEngine_scheme \<Rightarrow> int \<Rightarrow> received_message \<Rightarrow> int \<Rightarrow> (unit, 'a mtrICMPEngine_scheme) res" where
  "storeProbeReply c e seq msg rtt =
     rbind (extractMPLS msg (DisableMPLS c)) (\<lambda>mpls.
       closeProbeNotify
         (e\<lparr>en_replied := (en_replied e)(seq \<mapsto> \<lparr>rp_peer = rm_Peer msg, rp_rtt = rtt, rp_mpls = mpls\<rparr>),
            en_sentAt := (en_sentAt e)(seq := None)\<rparr>) seq)"

definition discards :: "Config \<Rightarrow> 'a mtrICMPEngine_scheme \<Rightarrow> mtrProbeMeta \<Rightarrow> int \<Rightarrow> bool" where
  "discards c e start finish \<longleftrightarrow>
     pm_roundID start \<noteq> en_roundID e \<or> \<not> validProbeRTT c (finish - pm_start start)"

definition detectRoundFinalTTLCandidate :: "Config \<Rightarrow> addr option \<Rightarrow> int \<Rightarrow> int" where
  "detectRoundFinalTTLCandidate c peer ttl =
     (let peerIP = mtrPeerIP peer in
      if peerIP = [] \<or> \<not> ip_Equal peerIP (DstIP c) then -1 else ttl)"

text \<open>\<open>onICMP\<close> while it holds the lock; the result is the candidate for the final TTL that it passes on
  after releasing the lock, \<open>None\<close> if it returned before.\<close>

definition onICMP_locked ::
    "Config \<Rightarrow> 'a mtrICMPEngine_scheme \<Rightarrow> received_message \<Rightarrow> int \<Rightarrow> int \<Rightarrow> (unit, 'a mtrICMPEngine_scheme \<times> int option) res" where
  "onICMP_locked c e msg finish seq =
     (case en_sentAt e seq of
        None \<Rightarrow> Inr (e, None)
      | Some start \<Rightarrow>
          if discards c e start finish then rbind (discardProbe e seq) (\<lambda>e. Inr (e, None))
          else rbind (storeProbeReply c e seq msg (finish - pm_start start)) (\<lambda>e.
            Inr (e, Some (detectRoundFinalTTLCandidate c (rm_Peer msg) (pm_ttl start)))))"

definition updateRoundFinalTTL :: "'a mtrICMPEngine_scheme \<Rightarrow> int \<Rightarrow> 'a mtrICMPEngine_scheme" where
  "updateRoundFinalTTL e ttl =
     (if ttl < 0 then e
      else if en_roundFinalTTL e < 0 \<or> ttl < en_roundFinalTTL e then e\<lparr>en_roundFinalTTL := ttl\<rparr>
      else e)"

text \<open>The rest of \<open>onICMP\<close>, without the lock.\<close>

definition onICMP_unlocked :: "'a mtrICMPEngine_scheme \<Rightarrow> int \<Rightarrow> 'a mtrICMPEngine_scheme" where
  "onICMP_unlocked e finalTTL = signalReplyReady (updateRoundFinalTTL e finalTTL)"

text \<open>The update of a start time after the probe was sent.\<close>

definition update_start :: "'a mtrICMPEngine_scheme \<Rightarrow> int \<Rightarrow> int \<Rightarrow> 'a mtrICMPEngine_scheme" where
  "update_start e seq start =
     (case en_sentAt e seq of
        None \<Rightarrow> e
      | Some meta \<Rightarrow> e\<lparr>en_sentAt := (en_sentAt e)(seq \<mapsto> meta\<lparr>pm_start := start\<rparr>)\<rparr>)"

subsection \<open>Numbers do not wrap within an epoch\<close>

lemma and_FFFF32: "uint (w AND 0xFFFF :: 32 word) = uint w mod 65536"
proof -
  have "(0xFFFF :: 32 word) = mask 16" by (simp add: mask_eq_exp_minus_1)
  then have "w AND 0xFFFF = take_bit 16 w" by (simp only: take_bit_eq_mask)
  then show ?thesis by (simp add: take_bit_eq_mod uint_mod)
qed

lemma seqWillWrap_iff:
  assumes "0 < n" "n < 65536"
  shows "seqWillWrap w n \<longleftrightarrow> 65535 < uint w mod 65536 + n"
proof -
  have "uint (word_of_int n :: 32 word) = n" using assms by (intro uint_of_int_small) simp_all
  then have "uint ((w AND 0xFFFF) + word_of_int n) = uint w mod 65536 + n"
    using assms by (simp add: uint_word_ariths and_FFFF32)
  moreover have "(w AND 0xFFFF) + word_of_int n > 0xFFFF \<longleftrightarrow> uint ((w AND 0xFFFF) + word_of_int n) > 65535"
    by (simp add: word_less_def)
  ultimately show ?thesis using assms(1) by (simp add: seqWillWrap_def)
qed

lemma next_seq_eq:
  assumes "uint (en_seqCounter e) < 65535"
  shows "uint (en_seqCounter (fst (next_seq e))) = uint (en_seqCounter e) + 1" "snd (next_seq e) = uint (en_seqCounter e) + 1"
proof -
  show u: "uint (en_seqCounter (fst (next_seq e))) = uint (en_seqCounter e) + 1"
    using assms by (simp add: next_seq_def uint_word_ariths)
  show "snd (next_seq e) = uint (en_seqCounter e) + 1"
    using assms u by (simp add: next_seq_def and_FFFF32)
qed

end
