(* ===== verification/Mtr_Rounds.thy ===== *)
theory Mtr_Rounds
  imports Mtr_Engine Trace_Result
begin

section \<open>Rounds of probes: \<open>probeRound\<close> of \<open>trace/mtr_runner.go\<close>\<close>

text \<open>
  The round-based MTR loop sends one probe per TTL, waits for the answers and builds a result in the shape of a
  trace. One goroutine runs the round; the listener calls \<open>onICMP\<close>, and a third goroutine may ask for a preview at
  any moment. A step is what runs between two points where another goroutine can intervene: a lock region together
  with the atomic operations beside it. \<open>rd_late\<close> holds the candidates for the final TTL that an \<open>onICMP\<close> computed
  under the lock and has not yet stored. \<open>rd_answers\<close> is a ghost field: the reply accepted for each TTL of the round.
\<close>

record mtrProbeRoundState =
  ps_beginHop :: int
  ps_effectiveMax :: int
  ps_roundID :: "32 word"

datatype round_pc =
    Round_Idle
  | Round_Maps
  | Round_Rotate
  | Round_Preview
  | Round_Sweep int
  | Round_Sending int int
  | Round_Pause int
  | Round_Wait
  | Round_Known
  | Round_Max
  | Round_Build int
  | Round_Result trace_result
  | Round_Failed

record round_state = mtrICMPEngine +
  rd_pc :: round_pc
  rd_round :: mtrProbeRoundState
  rd_late :: "int list"
  rd_answers :: "int \<rightharpoonup> mtrProbeReply"

definition round_init :: round_state where
  "round_init = mtrICMPEngine.extend newMTRICMPEngine
     \<lparr>rd_pc = Round_Idle, rd_round = \<lparr>ps_beginHop = 0, ps_effectiveMax = 0, ps_roundID = 0\<rparr>, rd_late = [],
      rd_answers = Map.empty\<rparr>"

subsection \<open>Preparing a round\<close>

definition round_beginHop :: "Config \<Rightarrow> int" where
  "round_beginHop c = (if BeginHop c \<le> 0 then 1 else BeginHop c)"

definition round_probeCount :: "Config \<Rightarrow> int" where
  "round_probeCount c =
     (let probeCount = MaxHops c - round_beginHop c + 1 in if probeCount < 1 then 1 else probeCount)"

definition round_begin :: "Config \<Rightarrow> round_state \<Rightarrow> round_state" where
  "round_begin c s = s\<lparr>en_roundID := en_roundID s + 1, en_roundFinalTTL := -1, rd_pc := Round_Maps,
     rd_round := \<lparr>ps_beginHop = round_beginHop c, ps_effectiveMax = 0, ps_roundID = en_roundID s + 1\<rparr>,
     rd_answers := Map.empty\<rparr>"

definition resetProbeRoundMaps :: "'a mtrICMPEngine_scheme \<Rightarrow> 'a mtrICMPEngine_scheme" where
  "resetProbeRoundMaps e = e\<lparr>en_sentAt := Map.empty, en_replied := Map.empty\<rparr>"

definition round_maps :: "round_state \<Rightarrow> round_state" where
  "round_maps s = (drainNotifySignal (resetProbeRoundMaps s))\<lparr>rd_pc := Round_Rotate\<rparr>"

definition rotateProbeEngineIfNeeded ::
    "(int \<times> nat) list \<Rightarrow> bool \<Rightarrow> int \<Rightarrow> 'a mtrICMPEngine_scheme \<Rightarrow> (unit, 'a mtrICMPEngine_scheme \<times> bool) res" where
  "rotateProbeEngineIfNeeded order isReady probeCount e =
     (if \<not> seqWillWrap (en_seqCounter e) probeCount then Inr (e, True) else rotateEngine order isReady e)"

definition round_rotate :: "(int \<times> nat) list \<Rightarrow> bool \<Rightarrow> Config \<Rightarrow> round_state \<Rightarrow> (unit, round_state) res" where
  "round_rotate order isReady c s =
     rbind (rotateProbeEngineIfNeeded order isReady (round_probeCount c) s) (\<lambda>(s, ok).
       Inr (s\<lparr>rd_pc := if ok then Round_Preview else Round_Failed\<rparr>))"

definition effectiveProbeRoundMax :: "'a mtrICMPEngine_scheme \<Rightarrow> int \<Rightarrow> int" where
  "effectiveProbeRoundMax e maxTTL =
     (if 0 < en_knownFinalTTL e \<and> en_knownFinalTTL e < maxTTL then en_knownFinalTTL e else maxTTL)"

definition initProbeRoundPreview :: "int \<Rightarrow> int \<Rightarrow> 'a mtrICMPEngine_scheme \<Rightarrow> 'a mtrICMPEngine_scheme" where
  "initProbeRoundPreview bh effMax e =
     e\<lparr>en_curTtlSeq := Some Map.empty, en_curBeginHop := bh, en_curEffectiveMax := effMax\<rparr>"

definition round_preview :: "Config \<Rightarrow> round_state \<Rightarrow> round_state" where
  "round_preview c s =
     (let effMax = effectiveProbeRoundMax s (MaxHops c); bh = ps_beginHop (rd_round s) in
      (initProbeRoundPreview bh effMax s)
        \<lparr>rd_pc := Round_Sweep bh, rd_round := (rd_round s)\<lparr>ps_effectiveMax := effMax\<rparr>\<rparr>)"

subsection \<open>The sweep\<close>

definition round_send :: "round_state \<Rightarrow> int \<Rightarrow> int \<Rightarrow> (unit, round_state) res" where
  "round_send s ttl preStart =
     (let (s, seq) = next_seq s in
      case en_curTtlSeq s of
        None \<Rightarrow> Inl Panic
      | Some cur \<Rightarrow> Inr (s
          \<lparr>en_sentAt := (en_sentAt s)(seq \<mapsto> \<lparr>pm_ttl = ttl, pm_start = preStart, pm_roundID = ps_roundID (rd_round s)\<rparr>),
           en_curTtlSeq := Some (cur(ttl \<mapsto> seq)), rd_pc := Round_Sending ttl seq\<rparr>))"

definition round_send_ok :: "round_state \<Rightarrow> int \<Rightarrow> int \<Rightarrow> int \<Rightarrow> (unit, round_state) res" where
  "round_send_ok s ttl seq start =
     (if \<not> en_spec s then Inl Panic else Inr ((update_start s seq start)\<lparr>rd_pc := Round_Pause ttl\<rparr>))"

text \<open>A failed transmission is rolled back; the TTL is skipped unless the context ended. A missing entry of the Go map
  reads as 0.\<close>

definition round_send_error :: "round_state \<Rightarrow> int \<Rightarrow> int \<Rightarrow> bool \<Rightarrow> (unit, round_state) res" where
  "round_send_error s ttl seq cancelled =
     (if \<not> en_spec s then Inl Panic
      else
        let cur = (case en_curTtlSeq s of None \<Rightarrow> Map.empty | Some m \<Rightarrow> m) in
        Inr (s
          \<lparr>en_sentAt := (en_sentAt s)(seq := None),
           en_curTtlSeq := (if (case cur ttl of None \<Rightarrow> 0 | Some q \<Rightarrow> q) = seq
             then map_option (\<lambda>m. m(ttl := None)) (en_curTtlSeq s) else en_curTtlSeq s),
           rd_pc := (if cancelled then Round_Failed else Round_Sweep (ttl + 1)),
           rd_answers := (rd_answers s)(ttl := None)\<rparr>))"

subsection \<open>The result and the preview\<close>

definition updateKnownFinalTTLFromRound :: "'a mtrICMPEngine_scheme \<Rightarrow> 'a mtrICMPEngine_scheme" where
  "updateKnownFinalTTLFromRound e =
     (if 0 < en_roundFinalTTL e then
        (if en_knownFinalTTL e < 0 \<or> en_roundFinalTTL e < en_knownFinalTTL e
         then e\<lparr>en_knownFinalTTL := en_roundFinalTTL e\<rparr> else e)
      else e)"

definition roundFinalMax :: "'a mtrICMPEngine_scheme \<Rightarrow> int \<Rightarrow> int" where
  "roundFinalMax e effMax =
     (if 0 < en_roundFinalTTL e \<and> en_roundFinalTTL e < effMax then en_roundFinalTTL e else effMax)"

definition answered_hop :: "int \<Rightarrow> mtrProbeReply \<Rightarrow> hop" where
  "answered_hop ttl reply = \<lparr>Success = True, Address = rp_peer reply, Hostname = [], TTL = ttl, RTT = rp_rtt reply,
     Error = None, Geo = None, Lang = [], MPLS = rp_mpls reply\<rparr>"

definition lost_hop :: "int \<Rightarrow> hop_error option \<Rightarrow> hop" where
  "lost_hop ttl err = \<lparr>Success = False, Address = None, Hostname = [], TTL = ttl, RTT = 0, Error = err, Geo = None,
     Lang = [], MPLS = []\<rparr>"

definition probeRoundHop :: "'a mtrICMPEngine_scheme \<Rightarrow> int \<Rightarrow> hop" where
  "probeRoundHop e ttl =
     (case (case en_curTtlSeq e of None \<Rightarrow> None | Some cur \<Rightarrow> cur ttl) of
        None \<Rightarrow> lost_hop ttl (Some HopTimeout)
      | Some seq \<Rightarrow> (case en_replied e seq of
          None \<Rightarrow> lost_hop ttl (Some HopTimeout) | Some reply \<Rightarrow> answered_hop ttl reply))"

text \<open>A \<open>Result\<close> literal with one slot per TTL up to \<open>n\<close>; the loop fills those from \<open>beginHop\<close> on.\<close>

definition result_of :: "int \<Rightarrow> int \<Rightarrow> (int \<Rightarrow> hop list) \<Rightarrow> trace_result" where
  "result_of bh n f = \<lparr>Hops = map (\<lambda>ttl. if ttl < bh then [] else f ttl) [1..n],
     tailDone = [], geoWait = 0, geoCanceled = False\<rparr>"

definition buildProbeRoundResult :: "'a mtrICMPEngine_scheme \<Rightarrow> int \<Rightarrow> int \<Rightarrow> (unit, trace_result) res" where
  "buildProbeRoundResult e bh finalMax =
     (if finalMax < 0 then Inl Panic else Inr (result_of bh finalMax (\<lambda>ttl. [probeRoundHop e ttl])))"

definition peekPartialResult :: "'a mtrICMPEngine_scheme \<Rightarrow> trace_result option" where
  "peekPartialResult e =
     (case en_curTtlSeq e of
        None \<Rightarrow> None
      | Some cur \<Rightarrow>
          if en_curEffectiveMax e \<le> 0 then None
          else Some (result_of (en_curBeginHop e) (roundFinalMax e (en_curEffectiveMax e)) (\<lambda>ttl.
            case cur ttl of
              None \<Rightarrow> []
            | Some seq \<Rightarrow> (case en_replied e seq of
                None \<Rightarrow> [lost_hop ttl None] | Some reply \<Rightarrow> [answered_hop ttl reply]))))"

subsection \<open>The round as a step relation\<close>

text \<open>\<open>onICMP\<close> up to the release of the lock, and the rest.\<close>

definition round_message :: "Config \<Rightarrow> round_state \<Rightarrow> received_message \<Rightarrow> int \<Rightarrow> int \<Rightarrow> (unit, round_state) res" where
  "round_message c s msg finish seq =
     rbind (onICMP_locked c s msg finish seq) (\<lambda>(t, candidate).
       Inr (case candidate of
              None \<Rightarrow> t
            | Some finalTTL \<Rightarrow> t\<lparr>rd_late := rd_late t @ [finalTTL],
                rd_answers := (rd_answers t)((case en_sentAt s seq of Some meta \<Rightarrow> pm_ttl meta | None \<Rightarrow> 0) := en_replied t seq)\<rparr>))"

definition round_deliver :: "round_state \<Rightarrow> nat \<Rightarrow> round_state" where
  "round_deliver s k =
     (onICMP_unlocked s (rd_late s ! k))\<lparr>rd_late := take k (rd_late s) @ drop (Suc k) (rd_late s)\<rparr>"

definition round_over :: "round_pc \<Rightarrow> bool" where
  "round_over pc \<longleftrightarrow> pc = Round_Idle \<or> pc = Round_Failed \<or> (\<exists>r. pc = Round_Result r)"

inductive round_step :: "Config \<Rightarrow> round_state \<Rightarrow> round_state \<Rightarrow> bool" for c where
  Round_Begin: "round_over (rd_pc s) \<Longrightarrow> round_step c s (round_begin c s)"
| Round_Reset: "round_over (rd_pc s) \<Longrightarrow> round_step c s (resetFinalTTL s)"
| Round_Maps: "rd_pc s = Round_Maps \<Longrightarrow> round_step c s (round_maps s)"
| Round_Rotate: "rd_pc s = Round_Rotate \<Longrightarrow> map_of order = en_notify s \<Longrightarrow> round_rotate order isReady c s = Inr t \<Longrightarrow>
    round_step c s t"
| Round_Preview: "rd_pc s = Round_Preview \<Longrightarrow> round_step c s (round_preview c s)"
| Sweep_Cancelled: "rd_pc s = Round_Sweep ttl \<Longrightarrow> ttl \<le> ps_effectiveMax (rd_round s) \<Longrightarrow>
    round_step c s (s\<lparr>rd_pc := Round_Failed\<rparr>)"
| Sweep_Send: "rd_pc s = Round_Sweep ttl \<Longrightarrow> ttl \<le> ps_effectiveMax (rd_round s) \<Longrightarrow> round_send s ttl preStart = Inr t \<Longrightarrow>
    round_step c s t"
| Sweep_Sent: "rd_pc s = Round_Sending ttl seq \<Longrightarrow> round_send_ok s ttl seq start = Inr t \<Longrightarrow> round_step c s t"
| Sweep_Error: "rd_pc s = Round_Sending ttl seq \<Longrightarrow> round_send_error s ttl seq cancelled = Inr t \<Longrightarrow> round_step c s t"
| Sweep_Pause: "rd_pc s = Round_Pause ttl \<Longrightarrow>
    round_step c s (s\<lparr>rd_pc := (if cancelled then Round_Failed else Round_Sweep (ttl + 1))\<rparr>)"
| Sweep_End: "rd_pc s = Round_Sweep ttl \<Longrightarrow> ps_effectiveMax (rd_round s) < ttl \<Longrightarrow> round_step c s (s\<lparr>rd_pc := Round_Wait\<rparr>)"
| Wait_Signal: "rd_pc s = Round_Wait \<Longrightarrow> en_sentAt s \<noteq> Map.empty \<Longrightarrow> en_notifyCh s \<Longrightarrow>
    round_step c s (s\<lparr>en_notifyCh := False\<rparr>)"
| Wait_End: "rd_pc s = Round_Wait \<Longrightarrow> round_step c s (s\<lparr>rd_pc := Round_Known\<rparr>)"
| Round_Known: "rd_pc s = Round_Known \<Longrightarrow> round_step c s ((updateKnownFinalTTLFromRound s)\<lparr>rd_pc := Round_Max\<rparr>)"
| Round_Max: "rd_pc s = Round_Max \<Longrightarrow>
    round_step c s (s\<lparr>rd_pc := Round_Build (roundFinalMax s (ps_effectiveMax (rd_round s)))\<rparr>)"
| Round_Build: "rd_pc s = Round_Build n \<Longrightarrow> buildProbeRoundResult s (ps_beginHop (rd_round s)) n = Inr r \<Longrightarrow>
    round_step c s (s\<lparr>rd_pc := Round_Result r\<rparr>)"
| Round_Message: "round_message c s msg finish seq = Inr t \<Longrightarrow> round_step c s t"
| Round_Deliver: "k < length (rd_late s) \<Longrightarrow> round_step c s (round_deliver s k)"


subsection \<open>The invariant of a round\<close>

definition cur_map :: "'a mtrICMPEngine_scheme \<Rightarrow> (int \<rightharpoonup> int)" where
  "cur_map e = (case en_curTtlSeq e of None \<Rightarrow> Map.empty | Some m \<Rightarrow> m)"

definition in_sweep :: "round_pc \<Rightarrow> bool" where
  "in_sweep pc \<longleftrightarrow> (\<exists>n. pc = Round_Sweep n \<or> pc = Round_Pause n \<or> (\<exists>q. pc = Round_Sending n q))"

definition active :: "round_pc \<Rightarrow> bool" where
  "active pc \<longleftrightarrow> in_sweep pc \<or> pc = Round_Wait \<or> pc = Round_Known \<or> pc = Round_Max \<or> (\<exists>n. pc = Round_Build n)"

text \<open>The last TTL that may have been probed.\<close>

fun probed_up_to :: "round_pc \<Rightarrow> int \<Rightarrow> int" where
  "probed_up_to (Round_Sweep n) m = n - 1"
| "probed_up_to (Round_Sending n q) m = n"
| "probed_up_to (Round_Pause n) m = n"
| "probed_up_to pc m = m"

definition round_cfg :: "Config \<Rightarrow> bool" where
  "round_cfg c \<longleftrightarrow> round_beginHop c \<le> MaxHops c \<and> MaxHops c < 65536"

definition ttl_ok :: "Config \<Rightarrow> int \<Rightarrow> bool" where
  "ttl_ok c n \<longleftrightarrow> round_beginHop c \<le> n \<and> n \<le> MaxHops c"

text \<open>The rest of the sweep does not wrap the counter.\<close>

definition room_ok :: "Config \<Rightarrow> round_state \<Rightarrow> bool" where
  "room_ok c s \<longleftrightarrow> uint (en_seqCounter s) \<le> 65535 \<and>
     (rd_pc s = Round_Preview \<longrightarrow> uint (en_seqCounter s) + round_probeCount c \<le> 65535) \<and>
     (in_sweep (rd_pc s) \<longrightarrow>
        uint (en_seqCounter s) + (ps_effectiveMax (rd_round s) - probed_up_to (rd_pc s) 0) \<le> 65535)"

definition bounds_ok :: "Config \<Rightarrow> round_state \<Rightarrow> bool" where
  "bounds_ok c s \<longleftrightarrow>
     (active (rd_pc s) \<longrightarrow> ps_effectiveMax (rd_round s) \<le> MaxHops c \<and> round_beginHop c \<le> ps_effectiveMax (rd_round s) \<and>
        en_curEffectiveMax s = ps_effectiveMax (rd_round s) \<and> en_curBeginHop s = ps_beginHop (rd_round s) \<and>
        en_curTtlSeq s \<noteq> None) \<and>
     (rd_pc s \<noteq> Round_Idle \<longrightarrow> ps_beginHop (rd_round s) = round_beginHop c \<and> ps_roundID (rd_round s) = en_roundID s)"

definition position_ok :: "Config \<Rightarrow> round_state \<Rightarrow> bool" where
  "position_ok c s \<longleftrightarrow>
     (case rd_pc s of
        Round_Sweep n \<Rightarrow> round_beginHop c \<le> n
      | Round_Sending n q \<Rightarrow> round_beginHop c \<le> n \<and> n \<le> ps_effectiveMax (rd_round s) \<and> cur_map s n = Some q
      | Round_Pause n \<Rightarrow> round_beginHop c \<le> n \<and> n \<le> ps_effectiveMax (rd_round s)
      | Round_Build n \<Rightarrow> round_beginHop c \<le> n \<and> n \<le> ps_effectiveMax (rd_round s)
      | _ \<Rightarrow> True)"

definition cur_ok :: "Config \<Rightarrow> round_state \<Rightarrow> bool" where
  "cur_ok c s \<longleftrightarrow> (\<forall>ttl q. cur_map s ttl = Some q \<longrightarrow> ttl_ok c ttl \<and>
     (active (rd_pc s) \<longrightarrow> ttl \<le> ps_effectiveMax (rd_round s) \<and>
        ttl \<le> probed_up_to (rd_pc s) (ps_effectiveMax (rd_round s))) \<and>
     (in_sweep (rd_pc s) \<longrightarrow> q \<le> uint (en_seqCounter s)))"

definition inj_ok :: "round_state \<Rightarrow> bool" where
  "inj_ok s \<longleftrightarrow> (\<forall>t t' q. cur_map s t = Some q \<longrightarrow> cur_map s t' = Some q \<longrightarrow> t = t')"

definition outstanding_ok :: "round_state \<Rightarrow> bool" where
  "outstanding_ok s \<longleftrightarrow> (\<forall>q meta. en_sentAt s q = Some meta \<longrightarrow>
     (if rd_pc s = Round_Maps then pm_roundID meta \<noteq> en_roundID s
      else cur_map s (pm_ttl meta) = Some q \<and> en_replied s q = None \<and> pm_roundID meta = en_roundID s))"

definition fresh_ok :: "round_state \<Rightarrow> bool" where
  "fresh_ok s \<longleftrightarrow>
     (rd_pc s = Round_Rotate \<or> rd_pc s = Round_Preview \<longrightarrow>
        en_sentAt s = Map.empty \<and> en_replied s = Map.empty \<and> rd_answers s = Map.empty) \<and>
     (rd_pc s = Round_Maps \<longrightarrow> rd_answers s = Map.empty) \<and>
     (in_sweep (rd_pc s) \<longrightarrow> (\<forall>q. en_replied s q \<noteq> None \<longrightarrow> q \<le> uint (en_seqCounter s))) \<and> en_notify s = Map.empty"

definition answers_ok :: "round_state \<Rightarrow> bool" where
  "answers_ok s \<longleftrightarrow> (rd_pc s \<noteq> Round_Maps \<longrightarrow>
     (\<forall>ttl. rd_answers s ttl = Option.bind (cur_map s ttl) (en_replied s)))"

definition rtt_ok :: "Config \<Rightarrow> round_state \<Rightarrow> bool" where
  "rtt_ok c s \<longleftrightarrow> (\<forall>q r. en_replied s q = Some r \<longrightarrow> validProbeRTT c (rp_rtt r))"

definition final_ok :: "Config \<Rightarrow> round_state \<Rightarrow> bool" where
  "final_ok c s \<longleftrightarrow> (\<forall>v\<in>set (rd_late s). v = -1 \<or> ttl_ok c v) \<and>
     (en_roundFinalTTL s \<le> 0 \<or> ttl_ok c (en_roundFinalTTL s)) \<and>
     (en_knownFinalTTL s = -1 \<or> ttl_ok c (en_knownFinalTTL s))"

definition round_inv :: "Config \<Rightarrow> round_state \<Rightarrow> bool" where
  "round_inv c s \<longleftrightarrow> room_ok c s \<and> bounds_ok c s \<and> position_ok c s \<and> cur_ok c s \<and> inj_ok s \<and> outstanding_ok s \<and>
     fresh_ok s \<and> answers_ok s \<and> rtt_ok c s \<and> final_ok c s"

lemmas round_inv_parts = room_ok_def bounds_ok_def position_ok_def cur_ok_def inj_ok_def outstanding_ok_def fresh_ok_def
  answers_ok_def rtt_ok_def final_ok_def

lemmas pc_kinds = in_sweep_def active_def round_over_def

lemma begin_pos: "1 \<le> round_beginHop c"
  by (simp add: round_beginHop_def)


lemma cur_map_simps [simp]:
  "cur_map (e\<lparr>en_roundFinalTTL := x1\<rparr>) = cur_map e" "cur_map (e\<lparr>en_knownFinalTTL := x1\<rparr>) = cur_map e"
  "cur_map (e\<lparr>en_roundID := x2\<rparr>) = cur_map e" "cur_map (e\<lparr>en_notifyCh := x3\<rparr>) = cur_map e"
  "cur_map (e\<lparr>en_sentAt := x4\<rparr>) = cur_map e" "cur_map (e\<lparr>en_replied := x5\<rparr>) = cur_map e"
  "cur_map (e\<lparr>en_seqCounter := x6\<rparr>) = cur_map e" "cur_map (e\<lparr>en_curBeginHop := x7\<rparr>) = cur_map e"
  "cur_map (e\<lparr>en_curEffectiveMax := x7\<rparr>) = cur_map e" "cur_map (e\<lparr>en_spec := x8\<rparr>) = cur_map e"
  "cur_map (e\<lparr>en_notify := x9\<rparr>) = cur_map e" "cur_map (e\<lparr>en_epoch := x10\<rparr>) = cur_map e"
  "cur_map (e\<lparr>en_curTtlSeq := Some m\<rparr>) = m" "cur_map (e\<lparr>en_closed := x11\<rparr>) = cur_map e"
  "cur_map (s\<lparr>rd_pc := pc\<rparr>) = cur_map s" "cur_map (s\<lparr>rd_round := r\<rparr>) = cur_map s"
  "cur_map (s\<lparr>rd_late := l\<rparr>) = cur_map s" "cur_map (s\<lparr>rd_answers := a\<rparr>) = cur_map s"
  by (simp_all add: cur_map_def)

lemma over_kinds: "round_over pc \<Longrightarrow> \<not> active pc \<and> \<not> in_sweep pc \<and> pc \<noteq> Round_Maps \<and> pc \<noteq> Round_Rotate \<and> pc \<noteq> Round_Preview"
  by (auto simp: pc_kinds)

lemma kinds [simp]:
  "\<not> active Round_Maps" "\<not> active Round_Rotate" "\<not> active Round_Preview" "\<not> active Round_Failed" "\<not> active (Round_Result r)"
  "\<not> active Round_Idle" "active (Round_Sweep n)" "active (Round_Sending n q)" "active (Round_Pause n)" "active Round_Wait"
  "active Round_Known" "active Round_Max" "active (Round_Build n)"
  "\<not> in_sweep Round_Maps" "\<not> in_sweep Round_Rotate" "\<not> in_sweep Round_Preview" "\<not> in_sweep Round_Failed"
  "\<not> in_sweep (Round_Result r)" "\<not> in_sweep Round_Idle" "in_sweep (Round_Sweep n)" "in_sweep (Round_Sending n q)"
  "in_sweep (Round_Pause n)" "\<not> in_sweep Round_Wait" "\<not> in_sweep Round_Known" "\<not> in_sweep Round_Max"
  "\<not> in_sweep (Round_Build n)"
  by (simp_all add: pc_kinds)

lemma round_inv_begin:
  assumes "round_inv c s" "round_over (rd_pc s)"
  shows "round_inv c (round_begin c s)"
proof -
  note o = over_kinds [OF assms(2)]
  have i: "room_ok c s" "bounds_ok c s" "cur_ok c s" "inj_ok s" "outstanding_ok s" "fresh_ok s" "rtt_ok c s" "final_ok c s"
    using assms(1) by (simp_all add: round_inv_def)
  show ?thesis
    unfolding round_inv_def
  proof (intro conjI)
    show "outstanding_ok (round_begin c s)"
      using i(5) o by (auto simp: outstanding_ok_def round_begin_def)
  qed (use i o in \<open>simp_all add: round_inv_parts round_begin_def\<close>)
qed

lemma round_inv_reset:
  assumes "round_inv c s" "round_over (rd_pc s)"
  shows "round_inv c (resetFinalTTL s)"
proof -
  have "round_inv c (s\<lparr>en_knownFinalTTL := -1\<rparr>)" if "rd_pc s = pc" "round_over pc" for pc
    using that assms(1) by (cases pc) (simp_all add: pc_kinds round_inv_def round_inv_parts)
  then show ?thesis using assms(2) by (simp add: resetFinalTTL_def)
qed

lemma round_inv_maps:
  assumes "round_inv c s" "rd_pc s = Round_Maps"
  shows "round_inv c (round_maps s)"
  using assms by (simp add: round_inv_def round_inv_parts round_maps_def resetProbeRoundMaps_def drainNotifySignal_def
      split: option.splits)


lemma ttl_range: "round_cfg c \<Longrightarrow> ttl_ok c n \<Longrightarrow> 1 \<le> n \<and> n \<le> MaxHops c"
  using begin_pos [of c] by (simp add: ttl_ok_def)

lemma probeCount_bound:
  assumes "round_cfg c"
  shows "0 < round_probeCount c" "round_probeCount c < 65536" "MaxHops c - round_beginHop c + 1 \<le> round_probeCount c"
  using assms begin_pos [of c] by (auto simp: round_cfg_def round_probeCount_def Let_def)

lemma round_inv_rotate:
  assumes "round_inv c s" "round_cfg c" "rd_pc s = Round_Rotate" "map_of order = en_notify s"
    "round_rotate order isReady c s = Inr t"
  shows "round_inv c t"
proof -
  have "order = []" using assms(1,4) by (simp add: round_inv_def fresh_ok_def)
  have empty: "cur_map s ttl = Some q \<Longrightarrow> ttl_ok c ttl" for ttl q using assms(1) by (simp add: round_inv_def cur_ok_def)
  show ?thesis
  proof (cases "seqWillWrap (en_seqCounter s) (round_probeCount c)")
    case True
    have "round_inv c (s\<lparr>en_seqCounter := 0, en_notifyCh := False, en_sentAt := Map.empty, en_replied := Map.empty,
        en_notify := Map.empty, en_epoch := en_epoch s + 1, rd_pc := Round_Preview\<rparr>)"
      using assms(1,3) probeCount_bound [OF assms(2)] by (simp add: round_inv_def round_inv_parts split: option.splits)
    moreover have "round_inv c (s\<lparr>en_seqCounter := 0, en_notifyCh := False, en_sentAt := Map.empty, en_replied := Map.empty,
        en_notify := Map.empty, en_epoch := en_epoch s + 1, en_spec := False, rd_pc := Round_Failed\<rparr>)"
      using assms(1,3) by (simp add: round_inv_def round_inv_parts split: option.splits)
    ultimately show ?thesis
      using assms(5) True \<open>order = []\<close>
      by (auto simp: round_rotate_def rotateProbeEngineIfNeeded_def rotateEngine_def Let_def split: if_splits)
  next
    case False
    have r: "uint (en_seqCounter s) \<le> 65535" using assms(1) by (simp add: round_inv_def room_ok_def)
    have "\<not> 65535 < uint (en_seqCounter s) mod 65536 + round_probeCount c"
      using False seqWillWrap_iff [OF probeCount_bound(1,2) [OF assms(2)]] by blast
    then have "uint (en_seqCounter s) + round_probeCount c \<le> 65535" using r by simp
    then have "round_inv c (s\<lparr>rd_pc := Round_Preview\<rparr>)"
      using assms(1,3) by (simp add: round_inv_def round_inv_parts)
    then show ?thesis
      using assms(5) False by (auto simp: round_rotate_def rotateProbeEngineIfNeeded_def)
  qed
qed

lemma round_inv_preview:
  assumes "round_inv c s" "round_cfg c" "rd_pc s = Round_Preview"
  shows "round_inv c (round_preview c s)"
proof -
  let ?m = "effectiveProbeRoundMax s (MaxHops c)"
  have f: "en_knownFinalTTL s = -1 \<or> ttl_ok c (en_knownFinalTTL s)" using assms(1) by (simp add: round_inv_def final_ok_def)
  have m: "?m \<le> MaxHops c" "round_beginHop c \<le> ?m"
    using f assms(2) begin_pos [of c] by (auto simp: effectiveProbeRoundMax_def round_cfg_def ttl_ok_def)
  show ?thesis
    using assms(1,3) m begin_pos [of c] probeCount_bound [OF assms(2)]
    by (simp add: round_inv_def round_inv_parts round_preview_def Let_def initProbeRoundPreview_def)
qed

lemma round_inv_send:
  assumes "round_inv c s" "round_cfg c" "rd_pc s = Round_Sweep ttl" "ttl \<le> ps_effectiveMax (rd_round s)"
    "round_send s ttl preStart = Inr t"
  shows "round_inv c t"
proof -
  obtain cur where cur: "en_curTtlSeq s = Some cur" using assms(1,3) by (auto simp: round_inv_def bounds_ok_def)
  then have m: "cur_map s = cur" by (simp add: cur_map_def)
  have i: "room_ok c s" "bounds_ok c s" "position_ok c s" "cur_ok c s" "inj_ok s" "outstanding_ok s" "fresh_ok s"
    "answers_ok s" "rtt_ok c s" "final_ok c s"
    using assms(1) by (simp_all add: round_inv_def)
  define q where "q = uint (en_seqCounter s) + 1"
  have room: "uint (en_seqCounter s) + (ps_effectiveMax (rd_round s) - ttl + 1) \<le> 65535"
    using i(1) by (simp add: room_ok_def assms(3))
  then have "uint (en_seqCounter s) < 65535" using assms(4) by simp
  note n = next_seq_eq [OF this, folded q_def]
  have n': "next_seq s = (s\<lparr>en_seqCounter := en_seqCounter s + 1\<rparr>, q)" using n(2) by (simp add: next_seq_def)
  have cnt: "uint (en_seqCounter s + 1) = q" using n(1) by (simp add: n')
  have t: "t = s\<lparr>en_seqCounter := en_seqCounter s + 1,
      en_sentAt := (en_sentAt s)(q \<mapsto> \<lparr>pm_ttl = ttl, pm_start = preStart, pm_roundID = ps_roundID (rd_round s)\<rparr>),
      en_curTtlSeq := Some (cur(ttl \<mapsto> q)), rd_pc := Round_Sending ttl q\<rparr>"
    using assms(5) by (simp add: round_send_def n' cur)
  have old: "cur t' = Some q' \<Longrightarrow> q' < q \<and> t' < ttl" for t' q'
    using i(4) by (fastforce simp: cur_ok_def m q_def assms(3))
  have new: "cur ttl = None" using old [of ttl] by (cases "cur ttl") auto
  have fresh: "en_replied s q = None" using i(7) by (fastforce simp: fresh_ok_def assms(3) q_def)
  have mt: "cur_map t = cur(ttl \<mapsto> q)" by (simp add: t cur_map_def)
  have fr: "rd_pc t = Round_Sending ttl q" "rd_round t = rd_round s" "en_seqCounter t = en_seqCounter s + 1"
    "en_replied t = en_replied s" "en_roundID t = en_roundID s" "rd_answers t = rd_answers s"
    "en_sentAt t = (en_sentAt s)(q \<mapsto> \<lparr>pm_ttl = ttl, pm_start = preStart, pm_roundID = ps_roundID (rd_round s)\<rparr>)"
    "en_curTtlSeq t = Some (cur(ttl \<mapsto> q))" "en_curEffectiveMax t = en_curEffectiveMax s" "en_curBeginHop t = en_curBeginHop s"
    "en_notify t = en_notify s" "rd_late t = rd_late s" "en_roundFinalTTL t = en_roundFinalTTL s"
    "en_knownFinalTTL t = en_knownFinalTTL s"
    by (simp_all add: t)
  have b: "round_beginHop c \<le> ttl" using i(3) by (simp add: position_ok_def assms(3))
  show ?thesis
    unfolding round_inv_def
  proof (intro conjI)
    show "room_ok c t" using room assms(4) by (simp add: room_ok_def fr cnt q_def)
    show bt: "bounds_ok c t" using i(2) by (simp add: bounds_ok_def fr assms(3))
    show "position_ok c t" using b assms(4) by (simp add: position_ok_def fr mt)
    have "ttl_ok c ttl" using b assms(4) i(2) by (simp add: ttl_ok_def bounds_ok_def assms(3))
    then show "cur_ok c t"
      using old i(4) assms(4) by (fastforce simp: cur_ok_def fr mt m cnt assms(3))
    show "inj_ok t" using i(5) old by (fastforce simp: inj_ok_def mt m)
    show "outstanding_ok t"
      using i(6) fresh i(2) new by (auto simp: outstanding_ok_def fr mt m assms(3) bounds_ok_def)
    show "fresh_ok t" using i(7) by (fastforce simp: fresh_ok_def fr cnt assms(3) q_def)
    show "answers_ok t" using i(8) new fresh by (auto simp: answers_ok_def fr mt m assms(3))
    show "rtt_ok c t" using i(9) by (simp add: rtt_ok_def fr)
    show "final_ok c t" using i(10) by (simp add: final_ok_def fr)
  qed
qed


lemma round_inv_send_ok:
  assumes "round_inv c s" "rd_pc s = Round_Sending ttl seq" "round_send_ok s ttl seq start = Inr t"
  shows "round_inv c t"
proof -
  have t: "t = (update_start s seq start)\<lparr>rd_pc := Round_Pause ttl\<rparr>"
    using assms(3) by (simp add: round_send_ok_def split: if_splits)
  show ?thesis
  proof (cases "en_sentAt s seq")
    case None
    then show ?thesis using assms(1,2) by (simp add: t update_start_def round_inv_def round_inv_parts)
  next
    case (Some meta)
    have o: "outstanding_ok s" using assms(1) by (simp add: round_inv_def)
    have t': "t = s\<lparr>en_sentAt := (en_sentAt s)(seq \<mapsto> meta\<lparr>pm_start := start\<rparr>), rd_pc := Round_Pause ttl\<rparr>"
      by (simp add: t update_start_def Some)
    have "outstanding_ok t" using o Some assms(2) by (auto simp: outstanding_ok_def t')
    moreover have "room_ok c t \<and> bounds_ok c t \<and> position_ok c t \<and> cur_ok c t \<and> inj_ok t \<and> fresh_ok t \<and> answers_ok t \<and>
        rtt_ok c t \<and> final_ok c t"
      using assms(1,2) by (simp add: t' round_inv_def round_inv_parts)
    ultimately show ?thesis by (simp add: round_inv_def)
  qed
qed

lemma round_inv_send_error:
  assumes "round_inv c s" "rd_pc s = Round_Sending ttl seq" "round_send_error s ttl seq cancelled = Inr t"
  shows "round_inv c t"
proof -
  obtain cur where cur: "en_curTtlSeq s = Some cur" using assms(1,2) by (auto simp: round_inv_def bounds_ok_def)
  then have m: "cur_map s = cur" by (simp add: cur_map_def)
  have i: "room_ok c s" "bounds_ok c s" "position_ok c s" "cur_ok c s" "inj_ok s" "outstanding_ok s" "fresh_ok s"
    "answers_ok s" "rtt_ok c s" "final_ok c s"
    using assms(1) by (simp_all add: round_inv_def)
  have q: "cur ttl = Some seq" using i(3) by (simp add: position_ok_def assms(2) m)
  have t: "t = s\<lparr>en_sentAt := (en_sentAt s)(seq := None), en_curTtlSeq := Some (cur(ttl := None)),
      rd_pc := (if cancelled then Round_Failed else Round_Sweep (ttl + 1)), rd_answers := (rd_answers s)(ttl := None)\<rparr>"
    using assms(3) by (simp add: round_send_error_def cur q split: if_splits)
  have mt: "cur_map t = cur(ttl := None)" by (simp add: t cur_map_def)
  have fr: "rd_pc t = (if cancelled then Round_Failed else Round_Sweep (ttl + 1))" "rd_round t = rd_round s"
    "en_seqCounter t = en_seqCounter s" "en_replied t = en_replied s" "en_roundID t = en_roundID s"
    "rd_answers t = (rd_answers s)(ttl := None)" "en_sentAt t = (en_sentAt s)(seq := None)"
    "en_curTtlSeq t = Some (cur(ttl := None))" "en_curEffectiveMax t = en_curEffectiveMax s"
    "en_curBeginHop t = en_curBeginHop s" "en_notify t = en_notify s" "rd_late t = rd_late s"
    "en_roundFinalTTL t = en_roundFinalTTL s" "en_knownFinalTTL t = en_knownFinalTTL s"
    by (simp_all add: t)
  have uniq: "cur t' = Some seq \<Longrightarrow> t' = ttl" for t' using i(5) q by (auto simp: inj_ok_def m)
  show ?thesis
    unfolding round_inv_def
  proof (intro conjI)
    show "room_ok c t" using i(1) by (simp add: room_ok_def fr assms(2))
    show "bounds_ok c t" using i(2) by (simp add: bounds_ok_def fr assms(2))
    show "position_ok c t" using i(3) by (simp add: position_ok_def fr assms(2))
    show "cur_ok c t" using i(4) by (fastforce simp: cur_ok_def fr mt m assms(2))
    show "inj_ok t" using i(5) by (simp add: inj_ok_def mt m)
    show "outstanding_ok t"
      using i(6) q by (auto simp: outstanding_ok_def fr mt m assms(2))
    show "fresh_ok t" using i(7) by (simp add: fresh_ok_def fr assms(2))
    show "answers_ok t" using i(8) by (simp add: answers_ok_def fr mt m assms(2))
    show "rtt_ok c t" using i(9) by (simp add: rtt_ok_def fr)
    show "final_ok c t" using i(10) by (simp add: final_ok_def fr)
  qed
qed

lemma round_inv_pause:
  assumes "round_inv c s" "rd_pc s = Round_Pause ttl"
  shows "round_inv c (s\<lparr>rd_pc := if cancelled then Round_Failed else Round_Sweep (ttl + 1)\<rparr>)"
    (is "round_inv c ?t")
proof -
  have "cur_ok c s" using assms(1) by (simp add: round_inv_def)
  then have "cur_ok c ?t" using assms(2) by (fastforce simp: cur_ok_def)
  then show ?thesis using assms by (cases cancelled) (simp_all add: round_inv_def round_inv_parts)
qed

lemma round_inv_cancel:
  assumes "round_inv c s" "rd_pc s = Round_Sweep ttl"
  shows "round_inv c (s\<lparr>rd_pc := Round_Failed\<rparr>)"
  using assms by (simp add: round_inv_def round_inv_parts)

lemma round_inv_end:
  assumes "round_inv c s" "rd_pc s = Round_Sweep ttl" "ps_effectiveMax (rd_round s) < ttl"
  shows "round_inv c (s\<lparr>rd_pc := Round_Wait\<rparr>)"
proof -
  have "cur_ok c s" using assms(1) by (simp add: round_inv_def)
  then have "cur_ok c (s\<lparr>rd_pc := Round_Wait\<rparr>)" using assms(2) by (fastforce simp: cur_ok_def)
  then show ?thesis using assms by (simp add: round_inv_def round_inv_parts)
qed

lemma round_inv_signal:
  assumes "round_inv c s" "rd_pc s = Round_Wait"
  shows "round_inv c (s\<lparr>en_notifyCh := False\<rparr>)"
  using assms by (simp add: round_inv_def round_inv_parts)

lemma round_inv_wait:
  assumes "round_inv c s" "rd_pc s = Round_Wait"
  shows "round_inv c (s\<lparr>rd_pc := Round_Known\<rparr>)"
  using assms by (simp add: round_inv_def round_inv_parts)

lemma round_inv_known:
  assumes "round_inv c s" "rd_pc s = Round_Known"
  shows "round_inv c ((updateKnownFinalTTLFromRound s)\<lparr>rd_pc := Round_Max\<rparr>)"
proof -
  have "final_ok c s" using assms(1) by (simp add: round_inv_def)
  then have "final_ok c ((updateKnownFinalTTLFromRound s)\<lparr>rd_pc := Round_Max\<rparr>)"
    by (auto simp: final_ok_def updateKnownFinalTTLFromRound_def)
  then show ?thesis
    using assms by (simp add: round_inv_def round_inv_parts updateKnownFinalTTLFromRound_def)
qed

lemma round_inv_max:
  assumes "round_inv c s" "rd_pc s = Round_Max"
  shows "round_inv c (s\<lparr>rd_pc := Round_Build (roundFinalMax s (ps_effectiveMax (rd_round s)))\<rparr>)" (is "round_inv c ?t")
proof -
  have i: "bounds_ok c s" "final_ok c s" using assms(1) by (simp_all add: round_inv_def)
  then have "position_ok c ?t"
    using assms(2) by (auto simp: position_ok_def bounds_ok_def final_ok_def roundFinalMax_def ttl_ok_def)
  then show ?thesis using assms by (simp add: round_inv_def round_inv_parts)
qed

lemma round_inv_build:
  assumes "round_inv c s" "rd_pc s = Round_Build n"
  shows "round_inv c (s\<lparr>rd_pc := Round_Result r\<rparr>)"
  using assms by (simp add: round_inv_def round_inv_parts)


lemma round_inv_deliver:
  assumes "round_inv c s" "k < length (rd_late s)"
  shows "round_inv c (round_deliver s k)"
proof -
  let ?t = "round_deliver s k"
  have fr: "rd_pc ?t = rd_pc s" "rd_round ?t = rd_round s" "en_seqCounter ?t = en_seqCounter s"
    "en_replied ?t = en_replied s" "en_roundID ?t = en_roundID s" "rd_answers ?t = rd_answers s"
    "en_sentAt ?t = en_sentAt s" "en_curTtlSeq ?t = en_curTtlSeq s" "en_curEffectiveMax ?t = en_curEffectiveMax s"
    "en_curBeginHop ?t = en_curBeginHop s" "en_notify ?t = en_notify s" "en_knownFinalTTL ?t = en_knownFinalTTL s"
    "cur_map ?t = cur_map s"
    by (simp_all add: round_deliver_def onICMP_unlocked_def signalReplyReady_def updateRoundFinalTTL_def cur_map_def)
  have rf: "en_roundFinalTTL ?t = en_roundFinalTTL s \<or>
      0 \<le> rd_late s ! k \<and> en_roundFinalTTL ?t = rd_late s ! k"
    by (simp add: round_deliver_def onICMP_unlocked_def signalReplyReady_def updateRoundFinalTTL_def)
  have "set (rd_late ?t) \<subseteq> set (rd_late s)"
    using set_take_subset [of k "rd_late s"] set_drop_subset [of "Suc k" "rd_late s"]
    by (auto simp: round_deliver_def)
  moreover have f: "final_ok c s" using assms(1) by (simp add: round_inv_def)
  moreover have "rd_late s ! k = -1 \<or> ttl_ok c (rd_late s ! k)" using f nth_mem [OF assms(2)] by (auto simp: final_ok_def)
  ultimately have "final_ok c ?t" using rf by (auto simp: final_ok_def fr)
  moreover have i: "room_ok c s" "bounds_ok c s" "position_ok c s" "cur_ok c s" "inj_ok s" "outstanding_ok s" "fresh_ok s"
    "answers_ok s" "rtt_ok c s"
    using assms(1) by (simp_all add: round_inv_def)
  moreover have "room_ok c ?t" using i(1) unfolding room_ok_def fr .
  moreover have "bounds_ok c ?t" using i(2) unfolding bounds_ok_def fr .
  moreover have "position_ok c ?t" using i(3) unfolding position_ok_def fr .
  moreover have "cur_ok c ?t" using i(4) unfolding cur_ok_def fr .
  moreover have "inj_ok ?t" using i(5) unfolding inj_ok_def fr .
  moreover have "outstanding_ok ?t" using i(6) unfolding outstanding_ok_def fr .
  moreover have "fresh_ok ?t" using i(7) unfolding fresh_ok_def fr .
  moreover have "answers_ok ?t" using i(8) unfolding answers_ok_def fr .
  moreover have "rtt_ok c ?t" using i(9) unfolding rtt_ok_def fr .
  ultimately show ?thesis by (simp add: round_inv_def)
qed

lemma round_message_cases:
  assumes "round_message c s msg finish seq = Inr t" "en_notify s = Map.empty"
  obtains "t = s" "en_sentAt s seq = None"
  | meta where "en_sentAt s seq = Some meta" "t = s\<lparr>en_sentAt := (en_sentAt s)(seq := None)\<rparr>"
  | meta mpls where "en_sentAt s seq = Some meta" "pm_roundID meta = en_roundID s"
      "validProbeRTT c (finish - pm_start meta)" "extractMPLS msg (DisableMPLS c) = Inr mpls"
      "t = s\<lparr>en_sentAt := (en_sentAt s)(seq := None),
             en_replied := (en_replied s)(seq \<mapsto> \<lparr>rp_peer = rm_Peer msg, rp_rtt = finish - pm_start meta, rp_mpls = mpls\<rparr>),
             rd_late := rd_late s @ [detectRoundFinalTTLCandidate c (rm_Peer msg) (pm_ttl meta)],
             rd_answers := (rd_answers s)(pm_ttl meta \<mapsto>
               \<lparr>rp_peer = rm_Peer msg, rp_rtt = finish - pm_start meta, rp_mpls = mpls\<rparr>)\<rparr>"
proof (cases "en_sentAt s seq")
  case None
  then show ?thesis using that(1) assms(1) by (simp add: round_message_def onICMP_locked_def)
next
  case (Some meta)
  show ?thesis
  proof (cases "discards c s meta finish")
    case True
    then have "t = s\<lparr>en_sentAt := (en_sentAt s)(seq := None)\<rparr>"
      using assms Some by (simp add: round_message_def onICMP_locked_def discardProbe_def closeProbeNotify_def)
    then show ?thesis using that(2) Some by blast
  next
    case False
    then have d: "pm_roundID meta = en_roundID s" "validProbeRTT c (finish - pm_start meta)"
      by (simp_all add: discards_def)
    obtain mpls where m: "extractMPLS msg (DisableMPLS c) = Inr mpls"
      using assms Some False by (cases "extractMPLS msg (DisableMPLS c)")
        (auto simp: round_message_def onICMP_locked_def storeProbeReply_def)
    show ?thesis
      using assms Some False m by (intro that(3) [OF Some d m])
        (auto simp: round_message_def onICMP_locked_def storeProbeReply_def closeProbeNotify_def)
  qed
qed

lemma round_inv_message:
  assumes "round_inv c s" "round_message c s msg finish seq = Inr t"
  shows "round_inv c t"
proof -
  have i: "room_ok c s" "bounds_ok c s" "position_ok c s" "cur_ok c s" "inj_ok s" "outstanding_ok s" "fresh_ok s"
    "answers_ok s" "rtt_ok c s" "final_ok c s"
    using assms(1) by (simp_all add: round_inv_def)
  have n: "en_notify s = Map.empty" using i(7) by (simp add: fresh_ok_def)
  from assms(2) n show ?thesis
  proof (cases rule: round_message_cases)
    case (2 meta)
    have "outstanding_ok t" using i(6) by (auto simp: outstanding_ok_def 2)
    moreover have "fresh_ok t" using i(7) by (auto simp: fresh_ok_def 2)
    ultimately show ?thesis
      using i by (simp add: round_inv_def room_ok_def bounds_ok_def cur_ok_def inj_ok_def answers_ok_def rtt_ok_def final_ok_def
          position_ok_def 2 cong: round_pc.case_cong)
  next
    case (3 meta mpls)
    have p: "rd_pc s \<noteq> Round_Maps" using i(6) 3(1,2) by (auto simp: outstanding_ok_def)
    have cu: "cur_map s (pm_ttl meta) = Some seq" "en_replied s seq = None" using i(6) 3(1) p by (auto simp: outstanding_ok_def)
    have q: "ttl_ok c (pm_ttl meta)" "in_sweep (rd_pc s) \<Longrightarrow> seq \<le> uint (en_seqCounter s)"
      using i(4) cu(1) by (auto simp: cur_ok_def)
    have uniq: "cur_map s t' = Some seq \<Longrightarrow> t' = pm_ttl meta" for t' using i(5) cu(1) by (auto simp: inj_ok_def)
    have fr: "rd_pc t = rd_pc s" "rd_round t = rd_round s" "en_seqCounter t = en_seqCounter s"
      "en_roundID t = en_roundID s" "en_curTtlSeq t = en_curTtlSeq s" "en_curEffectiveMax t = en_curEffectiveMax s"
      "en_curBeginHop t = en_curBeginHop s" "en_notify t = en_notify s" "en_knownFinalTTL t = en_knownFinalTTL s"
      "en_roundFinalTTL t = en_roundFinalTTL s" "cur_map t = cur_map s" "en_sentAt t = (en_sentAt s)(seq := None)"
      by (simp_all add: 3)
    have nf: "rd_pc s \<noteq> Round_Rotate" "rd_pc s \<noteq> Round_Preview" using i(7) 3(1) by (auto simp: fresh_ok_def)
    show ?thesis
      unfolding round_inv_def
    proof (intro conjI)
      show "room_ok c t" using i(1) unfolding room_ok_def fr .
      show "bounds_ok c t" using i(2) unfolding bounds_ok_def fr .
      show "position_ok c t" using i(3) unfolding position_ok_def fr .
      show "cur_ok c t" using i(4) unfolding cur_ok_def fr .
      show "inj_ok t" using i(5) unfolding inj_ok_def fr .
      show "outstanding_ok t" using i(6) p uniq by (auto simp: outstanding_ok_def 3(5))
      show "fresh_ok t" using i(7) q(2) p nf by (auto simp: fresh_ok_def 3(5))
      show "answers_ok t"
        unfolding answers_ok_def
      proof (intro impI allI)
        fix ttl
        have "rd_answers s ttl = Option.bind (cur_map s ttl) (en_replied s)" using i(8) p by (simp add: answers_ok_def)
        then show "rd_answers t ttl = Option.bind (cur_map t ttl) (en_replied t)"
          using uniq [of ttl] cu(1) by (cases "cur_map s ttl") (auto simp: 3(5))
      qed
      show "rtt_ok c t" using i(9) 3(3) by (simp add: rtt_ok_def 3(5))
      show "final_ok c t" using i(10) q(1) by (auto simp: final_ok_def 3(5) detectRoundFinalTTLCandidate_def Let_def)
    qed
  qed (use assms(1) in simp)
qed

lemma round_inv_init: "round_inv c round_init"
  by (simp add: round_inv_def round_inv_parts round_init_def mtrICMPEngine.defs newMTRICMPEngine_def cur_map_def)

lemma inv_round_step:
  assumes "round_inv c s" "round_cfg c" "round_step c s t"
  shows "round_inv c t"
  using assms(3)
proof (cases rule: round_step.cases)
  case Round_Begin then show ?thesis using round_inv_begin [OF assms(1)] by simp
next
  case Round_Reset then show ?thesis using round_inv_reset [OF assms(1)] by simp
next
  case Round_Maps then show ?thesis using round_inv_maps [OF assms(1)] by simp
next
  case Round_Rotate then show ?thesis using round_inv_rotate [OF assms(1,2)] by blast
next
  case Round_Preview then show ?thesis using round_inv_preview [OF assms(1,2)] by simp
next
  case Sweep_Cancelled then show ?thesis using round_inv_cancel [OF assms(1)] by blast
next
  case Sweep_Send then show ?thesis using round_inv_send [OF assms(1,2)] by blast
next
  case Sweep_Sent then show ?thesis using round_inv_send_ok [OF assms(1)] by blast
next
  case Sweep_Error then show ?thesis using round_inv_send_error [OF assms(1)] by blast
next
  case (Sweep_Pause ttl cancelled) then show ?thesis using round_inv_pause [OF assms(1), of ttl cancelled] by (simp only:)
next
  case Sweep_End then show ?thesis using round_inv_end [OF assms(1)] by blast
next
  case Wait_Signal then show ?thesis using round_inv_signal [OF assms(1)] by blast
next
  case Wait_End then show ?thesis using round_inv_wait [OF assms(1)] by blast
next
  case Round_Known then show ?thesis using round_inv_known [OF assms(1)] by blast
next
  case Round_Max then show ?thesis using round_inv_max [OF assms(1)] by blast
next
  case Round_Build then show ?thesis using round_inv_build [OF assms(1)] by blast
next
  case Round_Message then show ?thesis using round_inv_message [OF assms(1)] by blast
next
  case Round_Deliver then show ?thesis using round_inv_deliver [OF assms(1)] by blast
qed

interpretation rounds: step_invariant "round_step c" "\<lambda>s. round_cfg c \<longrightarrow> round_inv c s" for c
  by unfold_locales (blast intro: inv_round_step)

lemma reach_round_inv: "reaches (round_step c) round_init s \<Longrightarrow> round_cfg c \<Longrightarrow> round_inv c s"
  using rounds.reachable_inv round_inv_init by blast

end
