(* ===== verification/Mtr_Calls.thy ===== *)
theory Mtr_Calls
  imports Mtr_Engine
begin

section \<open>Concurrent single probes: \<open>ProbeTTL\<close> and \<open>Reset\<close> of \<open>trace/mtr_runner.go\<close>\<close>

text \<open>
  The per-hop scheduler calls \<open>ProbeTTL\<close> from a goroutine per probe. A call is a state machine: it draws a number
  under \<open>sendMu\<close>, reads the round, registers, sends, and then waits for its channel, its timer or the
  end of the context. Every statement sequence between two points where another goroutine can intervene
  is one function; a lock region is one such sequence. \<open>en_credit\<close> is a ghost field: the reply that
  \<open>onICMP\<close> stored for a call.
\<close>

datatype call_pc =
    Call_Numbered int
  | Call_Ready int "32 word"
  | Call_Sending int
  | Call_Waiting int
  | Call_Returned mtrProbeResult
  | Call_Failed

record probe_call =
  pc_ttl :: int
  pc_epoch :: nat
  pc_at :: call_pc

record call_state = mtrICMPEngine +
  en_calls :: "nat \<rightharpoonup> probe_call"
  en_credit :: "nat \<rightharpoonup> mtrProbeReply"

definition call_init :: call_state where
  "call_init = mtrICMPEngine.extend newMTRICMPEngine \<lparr>en_calls = Map.empty, en_credit = Map.empty\<rparr>"

definition no_reply :: "int \<Rightarrow> mtrProbeResult" where
  "no_reply ttl = \<lparr>pr_TTL = ttl, pr_Success = False, pr_Addr = None, pr_RTT = 0, pr_MPLS = [],
     pr_Hostname = [], pr_Geo = None\<rparr>"

definition reply_result :: "int \<Rightarrow> mtrProbeReply \<Rightarrow> mtrProbeResult" where
  "reply_result ttl reply = \<lparr>pr_TTL = ttl, pr_Success = True, pr_Addr = rp_peer reply, pr_RTT = rp_rtt reply,
     pr_MPLS = rp_mpls reply, pr_Hostname = [], pr_Geo = None\<rparr>"

definition goto :: "call_state \<Rightarrow> nat \<Rightarrow> call_pc \<Rightarrow> call_state" where
  "goto s i pc = s\<lparr>en_calls := (en_calls s)(i := map_option (\<lambda>k. k\<lparr>pc_at := pc\<rparr>) (en_calls s i))\<rparr>"

subsection \<open>The segments of a call\<close>

definition call_number :: "call_state \<Rightarrow> nat \<Rightarrow> int \<Rightarrow> call_state" where
  "call_number s i ttl =
     (let r = next_seq s in
      (fst r)\<lparr>en_calls := (en_calls s)(i \<mapsto> \<lparr>pc_ttl = ttl, pc_epoch = en_epoch s, pc_at = Call_Numbered (snd r)\<rparr>)\<rparr>)"

definition call_start ::
    "(int \<times> nat) list \<Rightarrow> bool \<Rightarrow> call_state \<Rightarrow> nat \<Rightarrow> int \<Rightarrow> (unit, call_state) res" where
  "call_start order isReady s i ttl =
     (if seqWillWrap (en_seqCounter s) 1 then
        rbind (rotateEngine order isReady s) (\<lambda>(s, ok).
          Inr (if ok then call_number s i ttl
               else s\<lparr>en_calls := (en_calls s)(i \<mapsto> \<lparr>pc_ttl = ttl, pc_epoch = en_epoch s, pc_at = Call_Failed\<rparr>)\<rparr>))
      else Inr (call_number s i ttl))"

definition call_read :: "call_state \<Rightarrow> nat \<Rightarrow> int \<Rightarrow> call_state" where
  "call_read s i seq = goto s i (Call_Ready seq (en_roundID s))"

definition call_register :: "call_state \<Rightarrow> nat \<Rightarrow> probe_call \<Rightarrow> int \<Rightarrow> 32 word \<Rightarrow> int \<Rightarrow> call_state" where
  "call_register s i k seq rnd preStart =
     (goto s i (Call_Sending seq))
       \<lparr>en_sentAt := (en_sentAt s)(seq \<mapsto> \<lparr>pm_ttl = pc_ttl k, pm_start = preStart, pm_roundID = rnd\<rparr>),
        en_notify := (en_notify s)(seq \<mapsto> i)\<rparr>"

definition call_send_ok :: "call_state \<Rightarrow> nat \<Rightarrow> int \<Rightarrow> int \<Rightarrow> (unit, call_state) res" where
  "call_send_ok s i seq sendStart =
     (if \<not> en_spec s then Inl Panic else Inr (goto (update_start s seq sendStart) i (Call_Waiting seq)))"

definition call_send_error :: "call_state \<Rightarrow> nat \<Rightarrow> probe_call \<Rightarrow> int \<Rightarrow> bool \<Rightarrow> (unit, call_state) res" where
  "call_send_error s i k seq cancelled =
     (if \<not> en_spec s then Inl Panic
      else rbind (discardProbe s seq) (\<lambda>s.
        Inr (goto s i (if cancelled then Call_Failed else Call_Returned (no_reply (pc_ttl k))))))"

definition call_done :: "call_state \<Rightarrow> nat \<Rightarrow> probe_call \<Rightarrow> int \<Rightarrow> call_state" where
  "call_done s i k seq =
     (case en_replied s seq of
        Some reply \<Rightarrow> (goto s i (Call_Returned (reply_result (pc_ttl k) reply)))\<lparr>en_replied := (en_replied s)(seq := None)\<rparr>
      | None \<Rightarrow> goto s i (Call_Returned (no_reply (pc_ttl k))))"

definition call_timer :: "call_state \<Rightarrow> nat \<Rightarrow> probe_call \<Rightarrow> int \<Rightarrow> bool \<Rightarrow> call_state" where
  "call_timer s i k seq cancelled =
     (goto s i (if cancelled then Call_Failed else Call_Returned (no_reply (pc_ttl k))))
       \<lparr>en_sentAt := (en_sentAt s)(seq := None), en_notify := (en_notify s)(seq := None)\<rparr>"

definition onICMP ::
    "Config \<Rightarrow> 'a mtrICMPEngine_scheme \<Rightarrow> received_message \<Rightarrow> int \<Rightarrow> int \<Rightarrow> (unit, 'a mtrICMPEngine_scheme) res" where
  "onICMP c e msg finish seq =
     rbind (onICMP_locked c e msg finish seq) (\<lambda>(e, candidate).
       Inr (case candidate of None \<Rightarrow> e | Some finalTTL \<Rightarrow> onICMP_unlocked e finalTTL))"

definition accepts :: "Config \<Rightarrow> 'a mtrICMPEngine_scheme \<Rightarrow> int \<Rightarrow> int \<Rightarrow> bool" where
  "accepts c e finish seq =
     (case en_sentAt e seq of None \<Rightarrow> False | Some start \<Rightarrow> \<not> discards c e start finish)"

definition call_message ::
    "Config \<Rightarrow> call_state \<Rightarrow> received_message \<Rightarrow> int \<Rightarrow> int \<Rightarrow> (unit, call_state) res" where
  "call_message c s msg finish seq =
     rbind (onICMP c s msg finish seq) (\<lambda>t.
       Inr (if accepts c s finish seq
            then (case en_notify s seq of
                    None \<Rightarrow> t
                  | Some i \<Rightarrow> t\<lparr>en_credit := (en_credit t)(i := en_replied t seq)\<rparr>)
            else t))"

text \<open>\<open>Reset\<close>: the two atomic updates and the lock region.\<close>

definition reset_begin :: "'a mtrICMPEngine_scheme \<Rightarrow> 'a mtrICMPEngine_scheme" where
  "reset_begin e = (resetFinalTTL e)\<lparr>en_roundID := en_roundID e + 1\<rparr>"

definition reset_end :: "(int \<times> nat) list \<Rightarrow> 'a mtrICMPEngine_scheme \<Rightarrow> (unit, 'a mtrICMPEngine_scheme) res" where
  "reset_end order e =
     rbind (close_each order e) (\<lambda>e. Inr (e\<lparr>en_sentAt := Map.empty, en_replied := Map.empty\<rparr>))"

subsection \<open>The engine under concurrent calls\<close>

fun call_seq :: "call_pc \<Rightarrow> int option" where
  "call_seq (Call_Numbered q) = Some q"
| "call_seq (Call_Ready q r) = Some q"
| "call_seq (Call_Sending q) = Some q"
| "call_seq (Call_Waiting q) = Some q"
| "call_seq _ = None"

definition live_seq :: "call_state \<Rightarrow> nat \<Rightarrow> int option" where
  "live_seq s i = (case en_calls s i of None \<Rightarrow> None | Some k \<Rightarrow> call_seq (pc_at k))"

definition iteration_of :: "(int \<times> nat) list \<Rightarrow> 'a mtrICMPEngine_scheme \<Rightarrow> bool" where
  "iteration_of order e \<longleftrightarrow> map_of order = en_notify e \<and> distinct (map fst order)"

text \<open>Two assumptions on timing, both far from what a run does: a number is not drawn again while the call that drew it
  65535 probes before is still running (a call ends within its timeout), and a call does not sleep between drawing its
  number and registering it while another one replaces the socket.\<close>

inductive call_step :: "Config \<Rightarrow> call_state \<Rightarrow> call_state \<Rightarrow> bool" for c where
  Probe_Start: "en_calls s i = None \<Longrightarrow> iteration_of order s \<Longrightarrow> call_start order isReady s i ttl = Inr t \<Longrightarrow>
    (\<forall>j q. live_seq t i = Some q \<and> live_seq s j = Some q \<longrightarrow> j = i) \<Longrightarrow> call_step c s t"
| Probe_Read: "en_calls s i = Some k \<Longrightarrow> pc_at k = Call_Numbered seq \<Longrightarrow> call_step c s (call_read s i seq)"
| Probe_Register: "en_calls s i = Some k \<Longrightarrow> pc_at k = Call_Ready seq rnd \<Longrightarrow> pc_epoch k = en_epoch s \<Longrightarrow>
    call_step c s (call_register s i k seq rnd preStart)"
| Probe_Sent: "en_calls s i = Some k \<Longrightarrow> pc_at k = Call_Sending seq \<Longrightarrow> call_send_ok s i seq start = Inr t \<Longrightarrow> call_step c s t"
| Probe_Send_Error: "en_calls s i = Some k \<Longrightarrow> pc_at k = Call_Sending seq \<Longrightarrow>
    call_send_error s i k seq cancelled = Inr t \<Longrightarrow> call_step c s t"
| Probe_Done: "en_calls s i = Some k \<Longrightarrow> pc_at k = Call_Waiting seq \<Longrightarrow> i \<in> en_closed s \<Longrightarrow>
    call_step c s (call_done s i k seq)"
| Probe_Timer: "en_calls s i = Some k \<Longrightarrow> pc_at k = Call_Waiting seq \<Longrightarrow>
    call_step c s (call_timer s i k seq cancelled)"
| Probe_Message: "call_message c s msg finish seq = Inr t \<Longrightarrow> call_step c s t"
| Probe_Reset_Begin: "call_step c s (reset_begin s)"
| Probe_Reset_End: "iteration_of order s \<Longrightarrow> reset_end order s = Inr t \<Longrightarrow> call_step c s t"

text \<open>A call that has registered its number, and one that has not.\<close>

definition registered :: "call_state \<Rightarrow> nat \<Rightarrow> int \<Rightarrow> bool" where
  "registered s i q \<longleftrightarrow> (\<exists>k. en_calls s i = Some k \<and> (pc_at k = Call_Sending q \<or> pc_at k = Call_Waiting q))"

definition about_to :: "call_state \<Rightarrow> nat \<Rightarrow> int \<Rightarrow> bool" where
  "about_to s i q \<longleftrightarrow> (\<exists>k r. en_calls s i = Some k \<and> (pc_at k = Call_Numbered q \<or> pc_at k = Call_Ready q r))"

text \<open>The invariant, part by part: numbers of the current epoch are below the counter and held by one call only;
  the notification map and the open channels of registered calls agree; a stored reply was credited to the call that
  registered its number.\<close>

definition counter_ok :: "call_state \<Rightarrow> bool" where
  "counter_ok s \<longleftrightarrow> uint (en_seqCounter s) \<le> 65535"

definition live_ok :: "call_state \<Rightarrow> bool" where
  "live_ok s \<longleftrightarrow> (\<forall>i j q. live_seq s i = Some q \<longrightarrow> live_seq s j = Some q \<longrightarrow> i = j)"

definition stored_le :: "call_state \<Rightarrow> bool" where
  "stored_le s \<longleftrightarrow> (\<forall>q. en_sentAt s q \<noteq> None \<or> en_replied s q \<noteq> None \<longrightarrow> q \<le> uint (en_seqCounter s))"

definition about_ok :: "call_state \<Rightarrow> bool" where
  "about_ok s \<longleftrightarrow> (\<forall>i k q. about_to s i q \<longrightarrow> en_calls s i = Some k \<longrightarrow> pc_epoch k = en_epoch s \<longrightarrow>
     q \<le> uint (en_seqCounter s) \<and> en_replied s q = None)"

definition notify_ok :: "call_state \<Rightarrow> bool" where
  "notify_ok s \<longleftrightarrow> (\<forall>q i. en_notify s q = Some i \<longleftrightarrow> registered s i q \<and> i \<notin> en_closed s)"

definition epoch_ok :: "call_state \<Rightarrow> bool" where
  "epoch_ok s \<longleftrightarrow> (\<forall>i k. en_calls s i = Some k \<longrightarrow> pc_epoch k \<le> en_epoch s)"

definition closed_ok :: "call_state \<Rightarrow> bool" where
  "closed_ok s \<longleftrightarrow> (\<forall>i. i \<in> en_closed s \<longrightarrow> en_calls s i \<noteq> None \<and> (\<forall>q. \<not> about_to s i q))"

definition sent_ok :: "call_state \<Rightarrow> bool" where
  "sent_ok s \<longleftrightarrow> (\<forall>q. en_sentAt s q = None \<longleftrightarrow> en_notify s q = None)"

definition reply_ok :: "call_state \<Rightarrow> bool" where
  "reply_ok s \<longleftrightarrow> (\<forall>q i r. en_replied s q = Some r \<longrightarrow> registered s i q \<longrightarrow> i \<in> en_closed s \<and> en_credit s i = Some r)"

definition credit_ok :: "Config \<Rightarrow> call_state \<Rightarrow> bool" where
  "credit_ok c s \<longleftrightarrow> (\<forall>i r. en_credit s i = Some r \<longrightarrow> i \<in> en_closed s \<and> validProbeRTT c (rp_rtt r))"

definition call_result_ok :: "call_state \<Rightarrow> bool" where
  "call_result_ok s \<longleftrightarrow> (\<forall>i k res. en_calls s i = Some k \<longrightarrow> pc_at k = Call_Returned res \<longrightarrow>
     res = no_reply (pc_ttl k) \<or> (\<exists>r. en_credit s i = Some r \<and> res = reply_result (pc_ttl k) r))"

definition call_inv :: "Config \<Rightarrow> call_state \<Rightarrow> bool" where
  "call_inv c s \<longleftrightarrow> counter_ok s \<and> live_ok s \<and> stored_le s \<and> about_ok s \<and> notify_ok s \<and> closed_ok s \<and> sent_ok s \<and>
     reply_ok s \<and> credit_ok c s \<and> call_result_ok s \<and> epoch_ok s"

lemmas call_inv_parts = counter_ok_def live_ok_def stored_le_def about_ok_def notify_ok_def closed_ok_def sent_ok_def
  reply_ok_def credit_ok_def call_result_ok_def epoch_ok_def

subsection \<open>Closing channels\<close>

lemma close_each_ok:
  assumes "distinct (map snd order)" "set (map snd order) \<inter> en_closed e = {}"
  shows "close_each order e = Inr (e\<lparr>en_closed := en_closed e \<union> set (map snd order),
    en_notify := (\<lambda>q. if q \<in> set (map fst order) then None else en_notify e q)\<rparr>)"
  using assms
proof (induction order arbitrary: e)
  case (Cons p order)
  obtain q ch where p: "p = (q, ch)" by (cases p)
  let ?e = "e\<lparr>en_closed := insert ch (en_closed e), en_notify := (en_notify e)(q := None)\<rparr>"
  have "close_each (p # order) e = close_each order ?e" using Cons.prems by (simp add: p close_channel_def)
  also have "\<dots> = Inr (?e\<lparr>en_closed := en_closed ?e \<union> set (map snd order),
      en_notify := (\<lambda>q. if q \<in> set (map fst order) then None else en_notify ?e q)\<rparr>)"
    using Cons.prems by (intro Cons.IH) (auto simp: p)
  finally show ?case by (auto simp: p fun_eq_iff intro!: arg_cong2 [where f = "\<lambda>a b. e\<lparr>en_closed := a, en_notify := b\<rparr>"])
qed simp

lemma close_each_all:
  assumes "iteration_of order e" "\<And>q q' i. en_notify e q = Some i \<Longrightarrow> en_notify e q' = Some i \<Longrightarrow> q = q'"
    "\<And>q i. en_notify e q = Some i \<Longrightarrow> i \<notin> en_closed e"
  shows "close_each order e = Inr (e\<lparr>en_closed := en_closed e \<union> ran (en_notify e), en_notify := Map.empty\<rparr>)"
proof -
  have m: "map_of order = en_notify e" and d: "distinct (map fst order)" using assms(1) by (simp_all add: iteration_of_def)
  have mem: "(q, i) \<in> set order \<longleftrightarrow> en_notify e q = Some i" for q i using m d by (metis map_of_eq_Some_iff)
  have "inj_on snd (set order)" using assms(2) mem by (auto simp: inj_on_def)
  then have ds: "distinct (map snd order)" using d by (simp add: distinct_map)
  have r: "set (map snd order) = ran (en_notify e)" by (simp add: m [symmetric] ran_distinct [OF d])
  have k: "q \<notin> set (map fst order) \<Longrightarrow> en_notify e q = None" for q using m by (metis map_of_eq_None_iff set_map)
  have "ran (en_notify e) \<inter> en_closed e = {}" using assms(3) by (auto simp: ran_def)
  then have "close_each order e = Inr (e\<lparr>en_closed := en_closed e \<union> ran (en_notify e),
    en_notify := (\<lambda>q. if q \<in> set (map fst order) then None else en_notify e q)\<rparr>)"
    using close_each_ok [OF ds, of e] by (simp only: r)
  moreover have "(\<lambda>q. if q \<in> set (map fst order) then None else en_notify e q) = Map.empty"
    using k by (auto simp: fun_eq_iff)
  ultimately show ?thesis by simp
qed

subsection \<open>How a step changes the calls\<close>

lemma calls_update:
  assumes "en_calls t = (en_calls s)(i \<mapsto> k')"
  shows "live_seq t j = (if j = i then call_seq (pc_at k') else live_seq s j)"
    "registered t j q \<longleftrightarrow> (if j = i then pc_at k' = Call_Sending q \<or> pc_at k' = Call_Waiting q else registered s j q)"
    "about_to t j q \<longleftrightarrow> (if j = i then \<exists>r. pc_at k' = Call_Numbered q \<or> pc_at k' = Call_Ready q r else about_to s j q)"
  using assms by (simp_all add: live_seq_def registered_def about_to_def)

lemma calls_same:
  assumes "en_calls t = en_calls s"
  shows "live_seq t = live_seq s" "registered t = registered s" "about_to t = about_to s"
  using assms by (simp_all add: live_seq_def registered_def about_to_def fun_eq_iff)

lemma registered_live: "registered s i q \<Longrightarrow> live_seq s i = Some q"
  by (auto simp: registered_def live_seq_def)

lemma about_live: "about_to s i q \<Longrightarrow> live_seq s i = Some q"
  by (auto simp: about_to_def live_seq_def)

lemma about_not_registered: "about_to s i q \<Longrightarrow> \<not> registered s i q'"
  by (auto simp: about_to_def registered_def)

lemma goto_fields [simp]:
  "en_calls (goto s i pc) = (en_calls s)(i := map_option (\<lambda>k. k\<lparr>pc_at := pc\<rparr>) (en_calls s i))"
  "en_credit (goto s i pc) = en_credit s" "en_sentAt (goto s i pc) = en_sentAt s" "en_replied (goto s i pc) = en_replied s"
  "en_notify (goto s i pc) = en_notify s" "en_closed (goto s i pc) = en_closed s" "en_epoch (goto s i pc) = en_epoch s"
  "en_seqCounter (goto s i pc) = en_seqCounter s" "en_roundID (goto s i pc) = en_roundID s" "en_spec (goto s i pc) = en_spec s"
  by (simp_all add: goto_def)

lemma notify_inj:
  assumes "notify_ok s" "en_notify s q = Some i" "en_notify s q' = Some i"
  shows "q = q'"
proof -
  have "registered s i q" "registered s i q'" using assms unfolding notify_ok_def by blast+
  then show ?thesis by (auto dest!: registered_live)
qed

lemma close_calls:
  assumes "notify_ok s" "iteration_of order s" "en_notify e = en_notify s" "en_closed e = en_closed s"
  shows "close_each order e = Inr (e\<lparr>en_closed := en_closed s \<union> ran (en_notify s), en_notify := Map.empty\<rparr>)"
proof -
  have "close_each order e = Inr (e\<lparr>en_closed := en_closed e \<union> ran (en_notify e), en_notify := Map.empty\<rparr>)"
  proof (rule close_each_all)
    show "iteration_of order e" using assms(2,3) by (simp add: iteration_of_def)
    show "q = q'" if "en_notify e q = Some i" "en_notify e q' = Some i" for q q' i
      using notify_inj [OF assms(1)] that by (simp add: assms(3))
    show "i \<notin> en_closed e" if "en_notify e q = Some i" for q i
      using assms(1,3,4) that unfolding notify_ok_def by metis
  qed
  then show ?thesis by (simp add: assms(3,4))
qed

subsection \<open>Every step keeps the invariant\<close>

lemma call_inv_init: "call_inv c call_init"
  by (simp add: call_inv_def call_init_def newMTRICMPEngine_def mtrICMPEngine.defs call_inv_parts
      live_seq_def registered_def about_to_def)

text \<open>What a step that moves one call has to show, beside what it does to the maps.\<close>

lemma live_ok_update:
  assumes "live_ok s" "en_calls t = (en_calls s)(i \<mapsto> k')"
    "call_seq (pc_at k') = None \<or> call_seq (pc_at k') = live_seq s i"
  shows "live_ok t"
proof -
  have "live_seq t j = Some q \<Longrightarrow> live_seq s j = Some q" for j q
    using assms(3) by (auto simp: calls_update(1) [OF assms(2)] split: if_splits)
  then show ?thesis using assms(1) unfolding live_ok_def by blast
qed

lemma call_result_ok_update:
  assumes "call_result_ok s" "en_calls t = (en_calls s)(i \<mapsto> k')" "\<And>j. j \<noteq> i \<Longrightarrow> en_credit t j = en_credit s j"
    "\<And>res. pc_at k' = Call_Returned res \<Longrightarrow>
       res = no_reply (pc_ttl k') \<or> (\<exists>r. en_credit t i = Some r \<and> res = reply_result (pc_ttl k') r)"
  shows "call_result_ok t"
  unfolding call_result_ok_def
proof (intro allI impI)
  fix j k res
  assume h: "en_calls t j = Some k" "pc_at k = Call_Returned res"
  show "res = no_reply (pc_ttl k) \<or> (\<exists>r. en_credit t j = Some r \<and> res = reply_result (pc_ttl k) r)"
  proof (cases "j = i")
    case True
    then show ?thesis using h assms(2,4) by simp
  next
    case False
    then show ?thesis using h assms(1,2,3) by (simp add: call_result_ok_def)
  qed
qed

lemma epoch_ok_update:
  assumes "epoch_ok s" "en_calls s i = Some k" "en_calls t = (en_calls s)(i \<mapsto> k\<lparr>pc_at := pc\<rparr>)" "en_epoch t = en_epoch s"
  shows "epoch_ok t"
  using assms by (auto simp: epoch_ok_def)

text \<open>A step that moves one call from a state to another with the same number and leaves the maps alone.\<close>

lemma inv_moved:
  assumes "call_inv c s" "en_calls s i = Some k" "en_calls t = (en_calls s)(i \<mapsto> k\<lparr>pc_at := pc\<rparr>)"
    "call_seq pc = call_seq (pc_at k)" "\<And>q. registered t i q = registered s i q" "\<And>q. about_to t i q \<Longrightarrow> about_to s i q"
    "\<And>res. pc \<noteq> Call_Returned res"
    "en_sentAt t = en_sentAt s" "en_replied t = en_replied s" "en_notify t = en_notify s" "en_closed t = en_closed s"
    "en_epoch t = en_epoch s" "en_seqCounter t = en_seqCounter s" "en_credit t = en_credit s"
  shows "call_inv c t"
proof -
  have i: "counter_ok s" "live_ok s" "stored_le s" "about_ok s" "notify_ok s" "closed_ok s" "sent_ok s" "reply_ok s"
      "credit_ok c s" "call_result_ok s" "epoch_ok s" using assms(1) by (simp_all add: call_inv_def)
  have r: "registered t j q = registered s j q" for j q
    using assms(5) by (cases "j = i") (simp_all add: calls_update(2) [OF assms(3)])
  have a: "about_to t j q \<Longrightarrow> about_to s j q" for j q
    using assms(6) by (cases "j = i") (simp_all add: calls_update(3) [OF assms(3)])
  have l: "live_seq s i = call_seq (pc_at k)" using assms(2) by (simp add: live_seq_def)
  note frame = assms(8-14)
  have "counter_ok t" "stored_le t" using i by (simp_all add: counter_ok_def stored_le_def frame)
  moreover have "live_ok t" using i(2) assms(4) l by (intro live_ok_update [OF _ assms(3)]) simp_all
  moreover have "about_ok t" unfolding about_ok_def
  proof (intro allI impI)
    fix j k' q
    assume h: "about_to t j q" "en_calls t j = Some k'" "pc_epoch k' = en_epoch t"
    then obtain k0 where "en_calls s j = Some k0" "pc_epoch k0 = en_epoch s"
      using assms(2,3) by (cases "j = i") (auto simp: frame)
    then show "q \<le> uint (en_seqCounter t) \<and> en_replied t q = None"
      using i(4) a [OF h(1)] by (simp add: about_ok_def frame)
  qed
  moreover have "notify_ok t" using i(5) by (simp add: notify_ok_def frame r)
  moreover have "closed_ok t" unfolding closed_ok_def
  proof (intro allI impI conjI)
    fix j assume j: "j \<in> en_closed t"
    show "en_calls t j \<noteq> None" using j i(6) assms(3) by (auto simp: closed_ok_def frame)
    show "\<not> about_to t j q" for q using j i(6) a by (auto simp: closed_ok_def frame)
  qed
  moreover have "sent_ok t" "reply_ok t" "credit_ok c t"
    using i(7-9) by (simp_all add: sent_ok_def reply_ok_def credit_ok_def frame r)
  moreover have "call_result_ok t" using i(10) assms(7) by (intro call_result_ok_update [OF _ assms(3)]) (simp_all add: frame)
  moreover have "epoch_ok t" by (rule epoch_ok_update [OF i(11) assms(2,3)]) (simp add: frame)
  ultimately show ?thesis by (simp add: call_inv_def)
qed

lemma inv_register:
  fixes preStart :: int
  assumes "call_inv c s" "en_calls s i = Some k" "pc_at k = Call_Ready seq rnd" "pc_epoch k = en_epoch s"
  defines "t \<equiv> call_register s i k seq rnd preStart"
  shows "call_inv c t"
proof -
  have i: "counter_ok s" "live_ok s" "stored_le s" "about_ok s" "notify_ok s" "closed_ok s" "sent_ok s" "reply_ok s"
      "credit_ok c s" "call_result_ok s" "epoch_ok s" using assms(1) by (simp_all add: call_inv_def)
  have calls: "en_calls t = (en_calls s)(i \<mapsto> k\<lparr>pc_at := Call_Sending seq\<rparr>)" by (simp add: t_def call_register_def assms(2))
  have frame: "en_replied t = en_replied s" "en_closed t = en_closed s" "en_epoch t = en_epoch s"
      "en_seqCounter t = en_seqCounter s" "en_credit t = en_credit s"
    and sent: "en_sentAt t q = None \<longleftrightarrow> q \<noteq> seq \<and> en_sentAt s q = None"
    and notify: "en_notify t = (en_notify s)(seq \<mapsto> i)" for q
    by (simp_all add: t_def call_register_def)
  have about: "about_to s i seq" using assms(2,3) by (auto simp: about_to_def)
  have num: "seq \<le> uint (en_seqCounter s)" "en_replied s seq = None"
    using i(4) about assms(2,4) by (auto simp: about_ok_def)
  have only: "live_seq s j = Some seq \<Longrightarrow> j = i" for j
    using i(2) about_live [OF about] unfolding live_ok_def by blast
  have r: "registered t j q \<longleftrightarrow> (if j = i then q = seq else registered s j q)" for j q
    by (auto simp: calls_update(2) [OF calls])
  have a: "about_to t j q \<longleftrightarrow> j \<noteq> i \<and> about_to s j q" for j q by (simp add: calls_update(3) [OF calls])
  have open_i: "i \<notin> en_closed s" using i(6) about by (auto simp: closed_ok_def)
  have "counter_ok t" using i(1) by (simp add: counter_ok_def frame)
  moreover have "live_ok t"
    by (rule live_ok_update [OF i(2) calls]) (simp add: live_seq_def assms(2,3))
  moreover have "stored_le t" using i(3) num(1) by (auto simp: stored_le_def frame sent)
  moreover have "about_ok t" using i(4) by (auto simp: about_ok_def frame a calls)
  moreover have "notify_ok t" unfolding notify_ok_def
  proof (intro allI)
    fix q j
    show "en_notify t q = Some j \<longleftrightarrow> registered t j q \<and> j \<notin> en_closed t"
      using i(5) only open_i registered_live [of s j q] about_not_registered [OF about]
      by (cases "q = seq"; cases "j = i") (auto simp: notify_ok_def notify r frame)
  qed
  moreover have "closed_ok t" using i(6) by (auto simp: closed_ok_def frame a calls)
  moreover have "sent_ok t" using i(7) by (simp add: sent_ok_def sent notify)
  moreover have "reply_ok t" using i(8) num(2) by (auto simp: reply_ok_def frame r split: if_splits)
  moreover have "credit_ok c t" using i(9) by (simp add: credit_ok_def frame)
  moreover have "call_result_ok t" by (rule call_result_ok_update [OF i(10) calls]) (simp_all add: frame)
  moreover have "epoch_ok t" by (rule epoch_ok_update [OF i(11) assms(2) calls]) (simp add: frame)
  ultimately show ?thesis by (simp add: call_inv_def)
qed

text \<open>A registered call that ends: its entries go away, its channel may be closed.\<close>

lemma inv_finish:
  assumes "call_inv c s" "en_calls s i = Some k" "registered s i seq"
    "en_calls t = (en_calls s)(i \<mapsto> k\<lparr>pc_at := pc\<rparr>)" "call_seq pc = None"
    "\<And>res. pc = Call_Returned res \<Longrightarrow> res = no_reply (pc_ttl k) \<or> (\<exists>r. en_credit s i = Some r \<and> res = reply_result (pc_ttl k) r)"
    "en_sentAt t = (en_sentAt s)(seq := None)" "en_notify t = (en_notify s)(seq := None)"
    "en_closed t = en_closed s \<or> en_closed t = insert i (en_closed s)"
    "en_replied t = en_replied s \<or> en_replied t = (en_replied s)(seq := None)"
    "en_epoch t = en_epoch s" "en_seqCounter t = en_seqCounter s" "en_credit t = en_credit s"
  shows "call_inv c t"
proof -
  have i: "counter_ok s" "live_ok s" "stored_le s" "about_ok s" "notify_ok s" "closed_ok s" "sent_ok s" "reply_ok s"
      "credit_ok c s" "call_result_ok s" "epoch_ok s" using assms(1) by (simp_all add: call_inv_def)
  note calls = assms(4) and frame = assms(11-13)
  have only: "registered s j seq \<Longrightarrow> j = i" for j
    using i(2) registered_live [OF assms(3)] registered_live [of s j seq] unfolding live_ok_def by blast
  have own: "registered s i q \<Longrightarrow> q = seq" for q
    using registered_live [OF assms(3)] registered_live [of s i q] by simp
  have r: "registered t j q \<longleftrightarrow> j \<noteq> i \<and> registered s j q" for j q
    using assms(5) by (auto simp: calls_update(2) [OF calls])
  have a: "about_to t j q \<longleftrightarrow> j \<noteq> i \<and> about_to s j q" for j q
    using assms(5) by (auto simp: calls_update(3) [OF calls])
  have cl: "j \<noteq> i \<Longrightarrow> j \<in> en_closed t \<longleftrightarrow> j \<in> en_closed s" "j \<in> en_closed s \<Longrightarrow> j \<in> en_closed t" for j
    using assms(9) by auto
  have rp: "en_replied t q = Some x \<Longrightarrow> en_replied s q = Some x" "en_replied s q = None \<Longrightarrow> en_replied t q = None" for q x
    using assms(10) by (auto split: if_splits)
  have "counter_ok t" using i(1) by (simp add: counter_ok_def frame)
  moreover have "live_ok t" by (rule live_ok_update [OF i(2) calls]) (simp add: assms(5))
  moreover have "stored_le t" unfolding stored_le_def
  proof (intro allI impI)
    fix q assume "en_sentAt t q \<noteq> None \<or> en_replied t q \<noteq> None"
    then have "en_sentAt s q \<noteq> None \<or> en_replied s q \<noteq> None" using rp(2) by (auto simp: assms(7) split: if_splits)
    then show "q \<le> uint (en_seqCounter t)" using i(3) unfolding stored_le_def frame by blast
  qed
  moreover have "about_ok t" using i(4) rp(2) by (auto simp: about_ok_def frame a calls)
  moreover have "notify_ok t" unfolding notify_ok_def
  proof (intro allI)
    fix q j
    have n: "en_notify s q = Some j \<longleftrightarrow> registered s j q \<and> j \<notin> en_closed s" using i(5) by (simp add: notify_ok_def)
    show "en_notify t q = Some j \<longleftrightarrow> registered t j q \<and> j \<notin> en_closed t"
    proof (cases "q = seq \<or> j = i")
      case True
      then have "\<not> (registered t j q \<and> j \<notin> en_closed t)" using only by (auto simp: r)
      moreover have "en_notify t q \<noteq> Some j" using True n own by (auto simp: assms(8))
      ultimately show ?thesis by simp
    next
      case False
      then show ?thesis using n cl(1) by (simp add: assms(8) r)
    qed
  qed
  moreover have "closed_ok t" unfolding closed_ok_def
  proof (intro allI impI)
    fix j assume "j \<in> en_closed t"
    then have "j = i \<or> j \<in> en_closed s" using cl(1) by blast
    then show "en_calls t j \<noteq> None \<and> (\<forall>q. \<not> about_to t j q)" using i(6) by (auto simp: closed_ok_def a calls)
  qed
  moreover have "sent_ok t" using i(7) by (simp add: sent_ok_def assms(7,8))
  moreover have "reply_ok t" using i(8) rp(1) cl(2) unfolding reply_ok_def frame r by blast
  moreover have "credit_ok c t" using i(9) cl(2) unfolding credit_ok_def frame by blast
  moreover have "call_result_ok t" by (rule call_result_ok_update [OF i(10) calls]) (use assms(6) in \<open>simp_all add: frame\<close>)
  moreover have "epoch_ok t" by (rule epoch_ok_update [OF i(11) assms(2) calls]) (simp add: frame)
  ultimately show ?thesis by (simp add: call_inv_def)
qed

text \<open>A message for an outstanding number: the call is woken, and its reply stored unless it is discarded.\<close>

lemma inv_answered:
  assumes "call_inv c s" "en_notify s seq = Some i" "en_calls t = en_calls s"
    "en_sentAt t = (en_sentAt s)(seq := None)" "en_notify t = (en_notify s)(seq := None)"
    "en_closed t = insert i (en_closed s)"
    "en_replied t = en_replied s \<and> en_credit t = en_credit s \<or>
     en_replied t = (en_replied s)(seq \<mapsto> r) \<and> en_credit t = (en_credit s)(i \<mapsto> r) \<and> validProbeRTT c (rp_rtt r)"
    "en_epoch t = en_epoch s" "en_seqCounter t = en_seqCounter s"
  shows "call_inv c t"
proof -
  have i: "counter_ok s" "live_ok s" "stored_le s" "about_ok s" "notify_ok s" "closed_ok s" "sent_ok s" "reply_ok s"
      "credit_ok c s" "call_result_ok s" "epoch_ok s" using assms(1) by (simp_all add: call_inv_def)
  note frame = assms(3,8,9)
  have reg: "registered s i seq" "i \<notin> en_closed s" using i(5) assms(2) by (auto simp: notify_ok_def)
  have only: "live_seq s j = Some seq \<Longrightarrow> j = i" for j
    using i(2) registered_live [OF reg(1)] unfolding live_ok_def by blast
  have only_registered: "registered s j seq \<Longrightarrow> j = i" for j using only registered_live by blast
  have own: "registered s i q \<Longrightarrow> q = seq" for q
    using registered_live [OF reg(1)] registered_live [of s i q] by simp
  have about: "about_to s j q \<Longrightarrow> q \<noteq> seq \<and> j \<noteq> i" for j q
    using only about_live [of s j q] about_not_registered [of s j q seq] reg(1) by auto
  have seq_le: "seq \<le> uint (en_seqCounter s)"
    using i(3,7) assms(2) unfolding stored_le_def sent_ok_def by (metis option.distinct(1))
  note same = calls_same [OF assms(3)]
  have rp: "q \<noteq> seq \<Longrightarrow> en_replied t q = en_replied s q" "j \<noteq> i \<Longrightarrow> en_credit t j = en_credit s j" for q j
    using assms(7) by auto
  have "counter_ok t" "epoch_ok t" using i(1,11) by (simp_all add: counter_ok_def epoch_ok_def frame)
  moreover have "live_ok t" using i(2) by (simp add: live_ok_def same)
  moreover have "stored_le t" using i(3) seq_le assms(7) by (auto simp: stored_le_def frame assms(4))
  moreover have "about_ok t" using i(4) about rp(1) by (auto simp: about_ok_def frame same)
  moreover have "notify_ok t" unfolding notify_ok_def
  proof (intro allI)
    fix q j
    have n: "en_notify s q = Some j \<longleftrightarrow> registered s j q \<and> j \<notin> en_closed s" using i(5) by (simp add: notify_ok_def)
    show "en_notify t q = Some j \<longleftrightarrow> registered t j q \<and> j \<notin> en_closed t"
    proof (cases "q = seq \<or> j = i")
      case True
      then have "\<not> (registered t j q \<and> j \<notin> en_closed t)" using only_registered by (auto simp: same assms(6))
      moreover have "en_notify t q \<noteq> Some j" using True n own by (auto simp: assms(5))
      ultimately show ?thesis by simp
    next
      case False
      then show ?thesis using n  by (simp add: assms(5) same assms(6))
    qed
  qed
  moreover have "closed_ok t" using i(6) reg(1) about by (auto simp: closed_ok_def assms(3,6) same registered_def)
  moreover have "sent_ok t" using i(7) by (simp add: sent_ok_def assms(4,5))
  moreover have "reply_ok t" unfolding reply_ok_def
  proof (intro allI impI)
    fix q j x
    assume h: "en_replied t q = Some x" "registered t j q"
    show "j \<in> en_closed t \<and> en_credit t j = Some x"
    proof (cases "q = seq")
      case True
      then have "j = i" using h(2) only_registered by (simp add: same)
      then show ?thesis using h True assms(7) i(8) reg by (auto simp: assms(6) reply_ok_def same)
    next
      case False
      then have "j \<noteq> i" using h(2) own by (auto simp: same)
      then show ?thesis using h False i(8) rp by (simp add: assms(6) reply_ok_def same)
    qed
  qed
  moreover have "credit_ok c t" using i(9) assms(7) by (auto simp: credit_ok_def assms(6) split: if_splits)
  moreover have "call_result_ok t" unfolding call_result_ok_def
  proof (intro allI impI)
    fix j k res
    assume h: "en_calls t j = Some k" "pc_at k = Call_Returned res"
    then have "j \<noteq> i" using reg(1) by (auto simp: registered_def assms(3))
    then show "res = no_reply (pc_ttl k) \<or> (\<exists>r. en_credit t j = Some r \<and> res = reply_result (pc_ttl k) r)"
      using h i(10) rp(2) by (simp add: call_result_ok_def assms(3))
  qed
  ultimately show ?thesis by (simp add: call_inv_def)
qed

text \<open>All calls woken and the maps emptied: \<open>Reset\<close>, or a rotation, which starts the numbers again.\<close>

lemma inv_woken:
  assumes "call_inv c s" "en_calls t = en_calls s" "en_credit t = en_credit s"
    "en_sentAt t = Map.empty" "en_replied t = Map.empty" "en_notify t = Map.empty"
    "en_closed t = en_closed s \<union> ran (en_notify s)"
    "en_epoch t = en_epoch s \<and> en_seqCounter t = en_seqCounter s \<or> en_epoch t = en_epoch s + 1 \<and> uint (en_seqCounter t) \<le> 65535"
  shows "call_inv c t"
proof -
  have i: "counter_ok s" "live_ok s" "stored_le s" "about_ok s" "notify_ok s" "closed_ok s" "sent_ok s" "reply_ok s"
      "credit_ok c s" "call_result_ok s" "epoch_ok s" using assms(1) by (simp_all add: call_inv_def)
  note same = calls_same [OF assms(2)]
  have "counter_ok t" "live_ok t" "stored_le t" "sent_ok t" "reply_ok t"
    using i(1,2) assms(8) by (auto simp: counter_ok_def live_ok_def stored_le_def sent_ok_def reply_ok_def same assms(4-6))
  moreover have "epoch_ok t" using i(11) assms(8) unfolding epoch_ok_def assms(2) by (metis le_add1 order_trans order_refl)
  moreover have "about_ok t" unfolding about_ok_def
  proof (intro allI impI conjI)
    fix j k q
    assume h: "about_to t j q" "en_calls t j = Some k" "pc_epoch k = en_epoch t"
    have "pc_epoch k \<le> en_epoch s" using h(2) i(11) by (simp add: epoch_ok_def assms(2))
    then have "en_epoch t = en_epoch s" "en_seqCounter t = en_seqCounter s" using assms(8) h(3) by auto
    then show "q \<le> uint (en_seqCounter t)" using i(4) h by (simp add: about_ok_def same assms(2))
  qed (simp add: assms(5))
  moreover have "notify_ok t" using i(5) by (auto simp: notify_ok_def assms(6,7) same ran_def)
  moreover have "closed_ok t" unfolding closed_ok_def
  proof (intro allI impI)
    fix j assume "j \<in> en_closed t"
    then consider "j \<in> en_closed s" | q where "en_notify s q = Some j" by (auto simp: assms(7) ran_def)
    then show "en_calls t j \<noteq> None \<and> (\<forall>q. \<not> about_to t j q)"
    proof cases
      case 1
      then show ?thesis using i(6) by (simp add: closed_ok_def same assms(2))
    next
      case 2
      then have "registered s j q" using i(5) by (simp add: notify_ok_def)
      then show ?thesis using about_not_registered [of s j] by (auto simp: same assms(2) registered_def)
    qed
  qed
  moreover have "credit_ok c t" using i(9) by (simp add: credit_ok_def assms(3,7))
  moreover have "call_result_ok t" using i(10) by (simp add: call_result_ok_def assms(2,3))
  ultimately show ?thesis by (simp add: call_inv_def)
qed

lemma inv_number:
  assumes "call_inv c s" "en_calls s i = None" "uint (en_seqCounter s) < 65535"
    "\<forall>j q. live_seq (call_number s i ttl) i = Some q \<and> live_seq s j = Some q \<longrightarrow> j = i"
  shows "call_inv c (call_number s i ttl)"
proof -
  let ?t = "call_number s i ttl" and ?q = "uint (en_seqCounter s) + 1"
  have i: "counter_ok s" "live_ok s" "stored_le s" "about_ok s" "notify_ok s" "closed_ok s" "sent_ok s" "reply_ok s"
      "credit_ok c s" "call_result_ok s" "epoch_ok s" using assms(1) by (simp_all add: call_inv_def)
  note n = next_seq_eq [OF assms(3)]
  have calls: "en_calls ?t = (en_calls s)(i \<mapsto> \<lparr>pc_ttl = ttl, pc_epoch = en_epoch s, pc_at = Call_Numbered ?q\<rparr>)"
    by (simp add: call_number_def Let_def n)
  have counter: "uint (en_seqCounter ?t) = ?q" by (simp add: call_number_def Let_def n)
  have frame: "en_sentAt ?t = en_sentAt s" "en_replied ?t = en_replied s" "en_notify ?t = en_notify s"
      "en_closed ?t = en_closed s" "en_epoch ?t = en_epoch s" "en_credit ?t = en_credit s"
    by (simp_all add: call_number_def Let_def next_seq_def)
  have none: "\<not> registered s i q" "\<not> about_to s i q" "i \<notin> en_closed s" for q
    using assms(2) i(6) by (auto simp: registered_def about_to_def closed_ok_def)
  have r: "registered ?t = registered s"
    using none by (auto simp: fun_eq_iff calls_update(2) [OF calls])
  have a: "about_to ?t j q \<longleftrightarrow> j = i \<and> q = ?q \<or> j \<noteq> i \<and> about_to s j q" for j q
    by (auto simp: calls_update(3) [OF calls])
  have fresh: "en_replied s ?q = None" using i(3) unfolding stored_le_def by (smt (verit))
  have "counter_ok ?t" using assms(3) by (simp add: counter_ok_def counter)
  moreover have "live_ok ?t" unfolding live_ok_def
  proof (intro allI impI)
    fix j j' q
    assume h: "live_seq ?t j = Some q" "live_seq ?t j' = Some q"
    have "live_seq s i = None" using assms(2) by (simp add: live_seq_def)
    then show "j = j'"
      using h assms(4) i(2) calls_update(1) [OF calls] unfolding live_ok_def by (metis option.distinct(1))
  qed
  moreover have "stored_le ?t" using i(3) unfolding stored_le_def frame counter by force
  moreover have "about_ok ?t" unfolding about_ok_def
  proof (intro allI impI)
    fix j k q
    assume h: "about_to ?t j q" "en_calls ?t j = Some k" "pc_epoch k = en_epoch ?t"
    show "q \<le> uint (en_seqCounter ?t) \<and> en_replied ?t q = None"
    proof (cases "j = i")
      case True
      then show ?thesis using h(1) fresh by (simp add: a counter frame)
    next
      case False
      then have "q \<le> uint (en_seqCounter s) \<and> en_replied s q = None"
        using h i(4) by (simp add: about_ok_def a calls frame)
      then show ?thesis by (simp add: counter frame)
    qed
  qed
  moreover have "notify_ok ?t" "sent_ok ?t" "reply_ok ?t" "credit_ok c ?t"
    using i(5,7-9) by (simp_all add: notify_ok_def sent_ok_def reply_ok_def credit_ok_def frame r)
  moreover have "closed_ok ?t" using i(6) none(3) by (auto simp: closed_ok_def frame a calls)
  moreover have "call_result_ok ?t" by (rule call_result_ok_update [OF i(10) calls]) (simp_all add: frame)
  moreover have "epoch_ok ?t" using i(11) by (auto simp: epoch_ok_def frame calls)
  ultimately show ?thesis by (simp add: call_inv_def)
qed

text \<open>The maps of the engine alone: what a step that leaves them and the calls alone keeps.\<close>

lemma call_inv_cong:
  assumes "call_inv c s" "en_calls t = en_calls s" "en_credit t = en_credit s" "en_sentAt t = en_sentAt s"
    "en_replied t = en_replied s" "en_notify t = en_notify s" "en_closed t = en_closed s" "en_epoch t = en_epoch s"
    "en_seqCounter t = en_seqCounter s"
  shows "call_inv c t"
  using assms(1) unfolding call_inv_def call_inv_parts calls_same [OF assms(2)] assms(2-9) .

lemma inv_failed_start:
  assumes "call_inv c s" "en_calls s i = None" "en_calls t = (en_calls s)(i \<mapsto> k)" "pc_at k = Call_Failed" "pc_epoch k \<le> en_epoch s"
    "en_credit t = en_credit s" "en_sentAt t = en_sentAt s"
    "en_replied t = en_replied s" "en_notify t = en_notify s" "en_closed t = en_closed s" "en_epoch t = en_epoch s"
    "en_seqCounter t = en_seqCounter s"
  shows "call_inv c t"
proof -
  have i: "counter_ok s" "live_ok s" "stored_le s" "about_ok s" "notify_ok s" "closed_ok s" "sent_ok s" "reply_ok s"
      "credit_ok c s" "call_result_ok s" "epoch_ok s" using assms(1) by (simp_all add: call_inv_def)
  note frame = assms(6-12)
  have "live_seq s i = None" "\<not> registered s i q" "\<not> about_to s i q" for q
    using assms(2) by (simp_all add: live_seq_def registered_def about_to_def)
  then have l: "live_seq t = live_seq s" and r: "registered t = registered s" and a: "about_to t = about_to s"
    by (auto simp: fun_eq_iff calls_update [OF assms(3)] assms(4))
  have "counter_ok t" "live_ok t" "stored_le t" "notify_ok t" "sent_ok t" "reply_ok t" "credit_ok c t"
    using i(1-3,5,7-9) unfolding call_inv_parts frame l r .
  moreover have "about_ok t" using i(4) assms(2) by (auto simp: about_ok_def frame a assms(3) about_to_def)
  moreover have "closed_ok t" using i(6) by (auto simp: closed_ok_def frame a assms(3))
  moreover have "call_result_ok t" by (rule call_result_ok_update [OF i(10) assms(3)]) (simp_all add: frame assms(4))
  moreover have "epoch_ok t" using i(11) assms(5) by (auto simp: epoch_ok_def frame assms(3))
  ultimately show ?thesis by (simp add: call_inv_def)
qed

lemma next_seq_fields [simp]:
  "en_calls (fst (next_seq s)) = en_calls s" "en_credit (fst (next_seq s)) = en_credit s"
  by (simp_all add: next_seq_def)

lemma rotate_calls:
  assumes "call_inv c s" "iteration_of order s" "rotateEngine order isReady s = Inr (t, ok)"
  shows "call_inv c t" "en_calls t = en_calls s" "en_seqCounter t = 0" "ok = isReady"
proof -
  have n: "notify_ok s" using assms(1) by (simp add: call_inv_def)
  have c: "close_each order (s\<lparr>en_seqCounter := 0\<rparr>) = Inr (s\<lparr>en_seqCounter := 0, en_closed := en_closed s \<union> ran (en_notify s),
      en_notify := Map.empty\<rparr>)"
    using close_calls [OF n assms(2), of "s\<lparr>en_seqCounter := 0\<rparr>"] by simp
  have t: "en_calls t = en_calls s" "en_credit t = en_credit s" "en_sentAt t = Map.empty" "en_replied t = Map.empty"
      "en_notify t = Map.empty" "en_closed t = en_closed s \<union> ran (en_notify s)" "en_epoch t = en_epoch s + 1"
      "en_seqCounter t = 0" "ok = isReady"
    using assms(3) by (auto simp: rotateEngine_def c Let_def split: if_splits)
  show "call_inv c t" by (rule inv_woken [OF assms(1) t(1-6)]) (simp add: t)
  show "en_calls t = en_calls s" "en_seqCounter t = 0" "ok = isReady" using t by simp_all
qed

lemma inv_start:
  assumes "call_inv c s" "en_calls s i = None" "iteration_of order s" "call_start order isReady s i ttl = Inr t"
    "\<forall>j q. live_seq t i = Some q \<and> live_seq s j = Some q \<longrightarrow> j = i"
  shows "call_inv c t"
proof (cases "seqWillWrap (en_seqCounter s) 1")
  case False
  have "uint (en_seqCounter s) \<le> 65535" using assms(1) by (simp add: call_inv_def counter_ok_def)
  then have "uint (en_seqCounter s) < 65535" using False by (simp add: seqWillWrap_iff)
  moreover have "t = call_number s i ttl" using assms(4) False by (simp add: call_start_def)
  ultimately show ?thesis using inv_number [OF assms(1,2)] assms(5) by blast
next
  case True
  obtain u ok where r: "rotateEngine order isReady s = Inr (u, ok)"
      and t: "t = (if ok then call_number u i ttl
               else u\<lparr>en_calls := (en_calls u)(i \<mapsto> \<lparr>pc_ttl = ttl, pc_epoch = en_epoch u, pc_at = Call_Failed\<rparr>)\<rparr>)"
    using assms(4) True by (auto simp: call_start_def rbind_eq_Inr)
  note u = rotate_calls [OF assms(1,3) r]
  have none: "en_calls u i = None" using assms(2) u(2) by simp
  show ?thesis
  proof (cases ok)
    case True
    then have "t = call_number u i ttl" by (simp add: t)
    moreover have "uint (en_seqCounter u) < 65535" by (simp add: u(3))
    ultimately show ?thesis using inv_number [OF u(1) none] assms(5) calls_same(1) [OF u(2)] by metis
  next
    case False
    then show ?thesis by (intro inv_failed_start [OF u(1) none, where k = "\<lparr>pc_ttl = ttl, pc_epoch = en_epoch u, pc_at = Call_Failed\<rparr>"]) (simp_all add: t)
  qed
qed

lemma discard_fields:
  assumes "en_notify e seq = Some i" "i \<notin> en_closed e"
  shows "closeProbeNotify e seq = Inr (e\<lparr>en_closed := insert i (en_closed e), en_notify := (en_notify e)(seq := None)\<rparr>)"
  using assms by (simp add: closeProbeNotify_def close_channel_def)

lemma inv_call_send_error:
  assumes "call_inv c s" "en_calls s i = Some k" "pc_at k = Call_Sending seq" "call_send_error s i k seq cancelled = Inr t"
  shows "call_inv c t"
proof -
  have reg: "registered s i seq" using assms(2,3) by (simp add: registered_def)
  have n: "notify_ok s" using assms(1) by (simp add: call_inv_def)
  let ?e = "s\<lparr>en_sentAt := (en_sentAt s)(seq := None)\<rparr>"
  let ?pc = "if cancelled then Call_Failed else Call_Returned (no_reply (pc_ttl k))"
  obtain u where u: "closeProbeNotify ?e seq = Inr u" and t: "t = goto u i ?pc"
    using assms(4) by (auto simp: call_send_error_def discardProbe_def rbind_eq_Inr split: if_splits)
  have f: "en_calls u = en_calls s" "en_sentAt u = (en_sentAt s)(seq := None)" "en_notify u = (en_notify s)(seq := None)"
      "en_closed u = en_closed s \<or> en_closed u = insert i (en_closed s)" "en_replied u = en_replied s"
      "en_epoch u = en_epoch s" "en_seqCounter u = en_seqCounter s" "en_credit u = en_credit s"
  proof -
    have "en_notify s seq = None" if "i \<in> en_closed s"
    proof (rule ccontr)
      assume "en_notify s seq \<noteq> None"
      then obtain j where "registered s j seq" "j \<notin> en_closed s" using n by (auto simp: notify_ok_def)
      moreover from this have "j = i" using assms(1) registered_live [OF reg] registered_live [of s j seq]
          unfolding call_inv_def live_ok_def by blast
      ultimately show False using that by simp
    qed
    moreover have "en_notify s seq = Some i" if "i \<notin> en_closed s" using that n reg by (simp add: notify_ok_def)
    ultimately have "u = ?e \<and> (en_notify s)(seq := None) = en_notify s \<or>
        u = ?e\<lparr>en_closed := insert i (en_closed s), en_notify := (en_notify s)(seq := None)\<rparr>"
      using u by (cases "i \<in> en_closed s") (auto simp: closeProbeNotify_def close_channel_def)
    then show "en_calls u = en_calls s" "en_sentAt u = (en_sentAt s)(seq := None)" "en_notify u = (en_notify s)(seq := None)"
      "en_closed u = en_closed s \<or> en_closed u = insert i (en_closed s)" "en_replied u = en_replied s"
      "en_epoch u = en_epoch s" "en_seqCounter u = en_seqCounter s" "en_credit u = en_credit s"
      by (elim disjE conjE; simp)+
  qed
  show ?thesis
    by (rule inv_finish [OF assms(1,2) reg, of t ?pc]) (use f in \<open>simp_all add: t assms(2) split: if_splits\<close>)
qed

lemma inv_done:
  assumes "call_inv c s" "en_calls s i = Some k" "pc_at k = Call_Waiting seq" "i \<in> en_closed s"
  shows "call_inv c (call_done s i k seq)"
proof -
  let ?t = "call_done s i k seq"
  have reg: "registered s i seq" using assms(2,3) by (simp add: registered_def)
  have n: "notify_ok s" "sent_ok s" "reply_ok s" using assms(1) by (simp_all add: call_inv_def)
  have none: "en_notify s seq = None"
  proof (rule ccontr)
    assume "en_notify s seq \<noteq> None"
    then obtain j where "registered s j seq" "j \<notin> en_closed s" using n(1) by (auto simp: notify_ok_def)
    moreover from this have "j = i" using assms(1) registered_live [OF reg] registered_live [of s j seq]
        unfolding call_inv_def live_ok_def by blast
    ultimately show False using assms(4) by simp
  qed
  then have "en_sentAt s seq = None" using n(2) by (simp add: sent_ok_def)
  then have idle: "(en_sentAt s)(seq := None) = en_sentAt s" "(en_notify s)(seq := None) = en_notify s"
    using none by (simp_all add: fun_upd_idem)
  show ?thesis
  proof (cases "en_replied s seq")
    case None
    show ?thesis
      by (rule inv_finish [OF assms(1,2) reg, where pc = "Call_Returned (no_reply (pc_ttl k))"])
        (simp_all add: call_done_def None assms(2) idle)
  next
    case (Some r)
    then have "en_credit s i = Some r" using n(3) reg by (simp add: reply_ok_def)
    then show ?thesis
      by (intro inv_finish [OF assms(1,2) reg, where pc = "Call_Returned (reply_result (pc_ttl k) r)"])
        (simp_all add: call_done_def Some assms(2) idle)
  qed
qed

lemma inv_timer:
  assumes "call_inv c s" "en_calls s i = Some k" "pc_at k = Call_Waiting seq"
  shows "call_inv c (call_timer s i k seq cancelled)"
proof -
  have reg: "registered s i seq" using assms(2,3) by (simp add: registered_def)
  show ?thesis
    by (rule inv_finish [OF assms(1,2) reg, where pc = "if cancelled then Call_Failed else Call_Returned (no_reply (pc_ttl k))"])
      (simp_all add: call_timer_def assms(2) split: if_splits)
qed

lemma unlocked_fields [simp]:
  "en_calls (onICMP_unlocked s f) = en_calls s" "en_credit (onICMP_unlocked s f) = en_credit s"
  "en_sentAt (onICMP_unlocked e f) = en_sentAt e" "en_replied (onICMP_unlocked e f) = en_replied e"
  "en_notify (onICMP_unlocked e f) = en_notify e" "en_closed (onICMP_unlocked e f) = en_closed e"
  "en_epoch (onICMP_unlocked e f) = en_epoch e" "en_seqCounter (onICMP_unlocked e f) = en_seqCounter e"
  by (simp_all add: onICMP_unlocked_def signalReplyReady_def updateRoundFinalTTL_def)

text \<open>The reply that a message carries for a number: the message's sender, the time since the recorded transmission,
  and the message's MPLS labels.\<close>

definition carried_by :: "Config \<Rightarrow> 'a mtrICMPEngine_scheme \<Rightarrow> received_message \<Rightarrow> int \<Rightarrow> int \<Rightarrow> mtrProbeReply \<Rightarrow> bool" where
  "carried_by c e msg finish seq r \<longleftrightarrow> (\<exists>start mpls. en_sentAt e seq = Some start \<and>
     extractMPLS msg (DisableMPLS c) = Inr mpls \<and>
     r = \<lparr>rp_peer = rm_Peer msg, rp_rtt = finish - pm_start start, rp_mpls = mpls\<rparr>)"

text \<open>What \<open>onICMP\<close> does to a registered number, its ghost bookkeeping included.\<close>

lemma message_cases:
  assumes "call_inv c s" "call_message c s msg finish seq = Inr t"
  obtains (unknown) "en_sentAt s seq = None" "t = s"
    | (answered) i r where "en_notify s seq = Some i" "en_calls t = en_calls s"
      "en_sentAt t = (en_sentAt s)(seq := None)" "en_notify t = (en_notify s)(seq := None)"
      "en_closed t = insert i (en_closed s)"
      "\<not> accepts c s finish seq \<and> en_replied t = en_replied s \<and> en_credit t = en_credit s \<or>
       accepts c s finish seq \<and> en_replied t = (en_replied s)(seq \<mapsto> r) \<and> en_credit t = (en_credit s)(i \<mapsto> r) \<and>
       validProbeRTT c (rp_rtt r) \<and> carried_by c s msg finish seq r"
      "en_epoch t = en_epoch s" "en_seqCounter t = en_seqCounter s"
proof (cases "en_sentAt s seq")
  case None
  then show ?thesis
    using assms(2) by (intro unknown) (simp_all add: call_message_def onICMP_def onICMP_locked_def accepts_def)
next
  case (Some start)
  have n: "notify_ok s" "sent_ok s" using assms(1) by (simp_all add: call_inv_def)
  obtain i where i: "en_notify s seq = Some i" using n(2) [unfolded sent_ok_def, rule_format, of seq] Some by auto
  have open_i: "i \<notin> en_closed s" using n(1) i by (simp add: notify_ok_def)
  let ?e = "s\<lparr>en_closed := insert i (en_closed s), en_notify := (en_notify s)(seq := None)\<rparr>"
  show ?thesis
  proof (cases "discards c s start finish")
    case True
    then have "t = ?e\<lparr>en_sentAt := (en_sentAt s)(seq := None)\<rparr>"
      using assms(2) Some i open_i
      by (auto simp: call_message_def onICMP_def onICMP_locked_def accepts_def discardProbe_def closeProbeNotify_def
          close_channel_def)
    moreover have "\<not> accepts c s finish seq" using True Some by (simp add: accepts_def)
    ultimately show ?thesis using i by (intro answered) simp_all
  next
    case False
    obtain mpls where m: "extractMPLS msg (DisableMPLS c) = Inr mpls" using extractMPLS_total by blast
    let ?r = "\<lparr>rp_peer = rm_Peer msg, rp_rtt = finish - pm_start start, rp_mpls = mpls\<rparr>"
    let ?u = "s\<lparr>en_replied := (en_replied s)(seq \<mapsto> ?r), en_sentAt := (en_sentAt s)(seq := None),
      en_closed := insert i (en_closed s), en_notify := (en_notify s)(seq := None)\<rparr>"
    have acc: "accepts c s finish seq" using False Some by (simp add: accepts_def)
    have "onICMP c s msg finish seq = Inr (onICMP_unlocked ?u (detectRoundFinalTTLCandidate c (rm_Peer msg) (pm_ttl start)))"
      using Some False i open_i
      by (simp add: onICMP_def onICMP_locked_def storeProbeReply_def m closeProbeNotify_def close_channel_def)
    then have t: "t = (onICMP_unlocked ?u (detectRoundFinalTTLCandidate c (rm_Peer msg) (pm_ttl start)))
        \<lparr>en_credit := (en_credit s)(i \<mapsto> ?r)\<rparr>"
      using assms(2) acc i
      by (simp add: call_message_def)
    have "validProbeRTT c (rp_rtt ?r)" using False by (simp add: discards_def)
    moreover have "carried_by c s msg finish seq ?r" using Some m by (simp add: carried_by_def)
    ultimately show ?thesis
      using i acc by (intro answered [of i ?r])
        (simp_all add: t)
  qed
qed

lemma inv_call_message:
  assumes "call_inv c s" "call_message c s msg finish seq = Inr t"
  shows "call_inv c t"
  using assms
proof (cases rule: message_cases)
  case unknown
  then show ?thesis using assms(1) by simp
next
  case (answered i r)
  then show ?thesis by (intro inv_answered [OF assms(1) answered(1-5)]) auto
qed

lemma inv_sentAt_same:
  assumes "call_inv c s" "\<And>q. m q = None \<longleftrightarrow> en_sentAt s q = None"
  shows "call_inv c (s\<lparr>en_sentAt := m\<rparr>)"
proof -
  have same: "live_seq (s\<lparr>en_sentAt := m\<rparr>) = live_seq s" "registered (s\<lparr>en_sentAt := m\<rparr>) = registered s"
      "about_to (s\<lparr>en_sentAt := m\<rparr>) = about_to s"
    using calls_same [of "s\<lparr>en_sentAt := m\<rparr>" s] by simp_all
  have "stored_le (s\<lparr>en_sentAt := m\<rparr>) = stored_le s" "sent_ok (s\<lparr>en_sentAt := m\<rparr>) = sent_ok s"
    by (simp_all add: stored_le_def sent_ok_def assms(2) del: not_None_eq)
  moreover have "counter_ok (s\<lparr>en_sentAt := m\<rparr>) = counter_ok s" "live_ok (s\<lparr>en_sentAt := m\<rparr>) = live_ok s"
    "about_ok (s\<lparr>en_sentAt := m\<rparr>) = about_ok s" "notify_ok (s\<lparr>en_sentAt := m\<rparr>) = notify_ok s"
    "closed_ok (s\<lparr>en_sentAt := m\<rparr>) = closed_ok s" "reply_ok (s\<lparr>en_sentAt := m\<rparr>) = reply_ok s"
    "credit_ok c (s\<lparr>en_sentAt := m\<rparr>) = credit_ok c s" "call_result_ok (s\<lparr>en_sentAt := m\<rparr>) = call_result_ok s"
    "epoch_ok (s\<lparr>en_sentAt := m\<rparr>) = epoch_ok s"
    by (simp_all add: call_inv_parts same)
  ultimately show ?thesis using assms(1) by (simp add: call_inv_def)
qed

lemma inv_step_call:
  assumes "call_inv c s" "call_step c s t"
  shows "call_inv c t"
  using assms(2)
proof cases
  case (Probe_Start i order isReady ttl)
  then show ?thesis using inv_start [OF assms(1)] by blast
next
  case (Probe_Read i k seq)
  then show ?thesis
    by (intro inv_moved [OF assms(1) Probe_Read(2), where pc = "Call_Ready seq (en_roundID s)"])
      (auto simp: call_read_def registered_def about_to_def)
next
  case (Probe_Register i k seq rnd preStart)
  then show ?thesis using inv_register [OF assms(1)] by blast
next
  case (Probe_Sent i k seq start)
  define m where "m = en_sentAt (update_start s seq start)"
  have u: "update_start s seq start = s\<lparr>en_sentAt := m\<rparr>" "m q = None \<longleftrightarrow> en_sentAt s q = None" for q
    by (simp_all add: m_def update_start_def split: option.split)
  have v: "call_inv c (s\<lparr>en_sentAt := m\<rparr>)" using inv_sentAt_same [OF assms(1)] u(2) by simp
  show ?thesis
    by (rule inv_moved [OF v, of i k _ "Call_Waiting seq"])
      (use Probe_Sent in \<open>auto simp: call_send_ok_def u registered_def about_to_def split: if_splits\<close>)
next
  case (Probe_Send_Error i k seq cancelled)
  then show ?thesis using inv_call_send_error [OF assms(1)] by blast
next
  case (Probe_Done i k seq)
  then show ?thesis using inv_done [OF assms(1)] by blast
next
  case (Probe_Timer i k seq cancelled)
  then show ?thesis using inv_timer [OF assms(1)] by blast
next
  case (Probe_Message msg finish seq)
  then show ?thesis using inv_call_message [OF assms(1)] by blast
next
  case Probe_Reset_Begin
  then show ?thesis by (intro call_inv_cong [OF assms(1)]) (simp_all add: reset_begin_def resetFinalTTL_def)
next
  case (Probe_Reset_End order)
  have n: "notify_ok s" using assms(1) by (simp add: call_inv_def)
  have "t = s\<lparr>en_closed := en_closed s \<union> ran (en_notify s), en_notify := Map.empty, en_sentAt := Map.empty, en_replied := Map.empty\<rparr>"
    using Probe_Reset_End close_calls [OF n, of order s] by (simp add: reset_end_def)
  then show ?thesis by (intro inv_woken [OF assms(1)]) simp_all
qed

interpretation calls: step_invariant "call_step c" "call_inv c" for c
  by unfold_locales (rule inv_step_call)

lemma reach_call_inv: "reaches (call_step c) call_init s \<Longrightarrow> call_inv c s"
  by (rule calls.reachable_inv [OF _ call_inv_init])

end
