(* ===== verification/Mtr_Calls_Props.thy ===== *)
theory Mtr_Calls_Props
  imports Mtr_Calls
begin

section \<open>What concurrent calls of the engine may rely on\<close>

text \<open>
  The properties of \<open>Mtr_Calls\<close>: where a reply goes, that no channel is closed twice, what \<open>Reset\<close> cancels,
  and a run that witnesses them.
\<close>

subsection \<open>Replies\<close>

lemma credit_kept:
  assumes "call_inv c s" "call_step c s t" "i \<in> en_closed s"
  shows "i \<in> en_closed t \<and> en_credit t i = en_credit s i"
  using assms(2)
proof cases
  case (Probe_Start j order isReady ttl)
  show ?thesis
  proof (cases "seqWillWrap (en_seqCounter s) 1")
    case False
    then show ?thesis
      using Probe_Start(3) assms(3) by (auto simp: call_start_def call_number_def Let_def next_seq_def)
  next
    case True
    have n: "notify_ok s" using assms(1) by (simp add: call_inv_def)
    have c: "close_each order (s\<lparr>en_seqCounter := 0\<rparr>) = Inr (s\<lparr>en_seqCounter := 0, en_closed := en_closed s \<union> ran (en_notify s),
        en_notify := Map.empty\<rparr>)"
      using close_calls [OF n Probe_Start(2), of "s\<lparr>en_seqCounter := 0\<rparr>"] by simp
    obtain u ok where r: "rotateEngine order isReady s = Inr (u, ok)"
        and t: "t = (if ok then call_number u j ttl
                 else u\<lparr>en_calls := (en_calls u)(j \<mapsto> \<lparr>pc_ttl = ttl, pc_epoch = en_epoch u, pc_at = Call_Failed\<rparr>)\<rparr>)"
      using Probe_Start(3) True by (auto simp: call_start_def rbind_eq_Inr)
    have "en_closed u = en_closed s \<union> ran (en_notify s)" "en_credit u = en_credit s"
      using r by (auto simp: rotateEngine_def c Let_def split: if_splits)
    then show ?thesis using assms(3) by (simp add: t call_number_def Let_def next_seq_def)
  qed
next
  case (Probe_Send_Error j k seq cancelled)
  then obtain u where "closeProbeNotify (s\<lparr>en_sentAt := (en_sentAt s)(seq := None)\<rparr>) seq = Inr u"
      "t = goto u j (if cancelled then Call_Failed else Call_Returned (no_reply (pc_ttl k)))"
    by (auto simp: call_send_error_def discardProbe_def rbind_eq_Inr split: if_splits)
  then show ?thesis
    using assms(3) by (auto simp: closeProbeNotify_def close_channel_def split: option.splits if_splits)
next
  case (Probe_Message msg finish seq)
  show ?thesis using assms(1) Probe_Message
  proof (cases rule: message_cases)
    case (answered j r)
    have "j \<noteq> i" using assms(1,3) answered(1) by (auto simp: call_inv_def notify_ok_def)
    then show ?thesis using answered assms(3) by auto
  qed (simp add: assms(3))
next
  case (Probe_Reset_End order)
  have n: "notify_ok s" using assms(1) by (simp add: call_inv_def)
  show ?thesis using Probe_Reset_End close_calls [OF n, of order s] assms(3) by (auto simp: reset_end_def)
qed (use assms(3) in \<open>auto simp: call_read_def call_register_def call_send_ok_def call_done_def call_timer_def
    reset_begin_def resetFinalTTL_def update_start_def split: option.splits if_splits\<close>)

lemma credit_stays:
  assumes "reaches (call_step c) s t" "call_inv c s" "i \<in> en_closed s"
  shows "i \<in> en_closed t \<and> en_credit t i = en_credit s i"
  using assms
proof (induction rule: reaches.induct)
  case (reaches_step s t u)
  then show ?case using credit_kept [of c t u i] calls.reachable_inv by metis
qed simp

text \<open>Steps other than the replacement of the socket and the end of a \<open>Reset\<close>, the two places where the code
  throws away every stored reply.\<close>

definition quiet_step :: "Config \<Rightarrow> call_state \<Rightarrow> call_state \<Rightarrow> bool" where
  "quiet_step c s t \<longleftrightarrow> call_step c s t \<and> en_epoch t = en_epoch s \<and> (\<forall>order. reset_end order s \<noteq> Inr t)"

lemma other_number:
  assumes "call_inv c s" "registered s i q" "registered s j q'" "i \<noteq> j"
  shows "q \<noteq> q'"
  using assms(1,4) registered_live [OF assms(2)] registered_live [OF assms(3)] unfolding call_inv_def live_ok_def by blast

lemma stored_kept:
  assumes "call_inv c s" "quiet_step c s t" "i \<in> en_closed s" "registered s i q \<Longrightarrow> en_replied s q = Some r" "registered t i q"
  shows "en_replied t q = Some r"
proof -
  have st: "call_step c s t" and ep: "en_epoch t = en_epoch s" and nr: "\<And>order. reset_end order s \<noteq> Inr t"
    using assms(2) by (simp_all add: quiet_step_def)
  have known: "en_calls s i \<noteq> None" "\<not> about_to s i p" for p
    using assms(1,3) unfolding call_inv_def closed_ok_def by blast+
  from st show ?thesis
  proof cases
    case (Probe_Start j order isReady ttl)
    have "j \<noteq> i" using Probe_Start(1) known(1) by auto
    have "\<not> seqWillWrap (en_seqCounter s) 1"
    proof
      assume "seqWillWrap (en_seqCounter s) 1"
      then obtain u ok where r: "rotateEngine order isReady s = Inr (u, ok)"
          "t = (if ok then call_number u j ttl
             else u\<lparr>en_calls := (en_calls u)(j \<mapsto> \<lparr>pc_ttl = ttl, pc_epoch = en_epoch u, pc_at = Call_Failed\<rparr>)\<rparr>)"
        using Probe_Start(3) by (auto simp: call_start_def rbind_eq_Inr)
      have n: "notify_ok s" using assms(1) by (simp add: call_inv_def)
      have "close_each order (s\<lparr>en_seqCounter := 0\<rparr>) = Inr (s\<lparr>en_seqCounter := 0, en_closed := en_closed s \<union> ran (en_notify s),
          en_notify := Map.empty\<rparr>)"
        using close_calls [OF n Probe_Start(2), of "s\<lparr>en_seqCounter := 0\<rparr>"] by simp
      then have "en_epoch u = en_epoch s + 1" using r(1) by (auto simp: rotateEngine_def Let_def split: if_splits)
      then show False using ep r(2) by (simp add: call_number_def Let_def next_seq_def split: if_splits)
    qed
    then show ?thesis
      using Probe_Start(3) assms(4,5) \<open>j \<noteq> i\<close> by (auto simp: call_start_def call_number_def Let_def next_seq_def registered_def)
  next
    case (Probe_Read j k p)
    then have "j \<noteq> i" using known(2) [of p] by (auto simp: about_to_def)
    then show ?thesis using assms(4,5) by (simp add: Probe_Read(1) call_read_def registered_def)
  next
    case (Probe_Register j k p rnd start)
    then have "j \<noteq> i" using known(2) [of p] by (auto simp: about_to_def)
    then show ?thesis using assms(4,5) by (simp add: Probe_Register(1) call_register_def registered_def)
  next
    case (Probe_Sent j k p start)
    have t: "t = goto (update_start s p start) j (Call_Waiting p)" using Probe_Sent(3) by (simp add: call_send_ok_def split: if_splits)
    have f: "en_calls (update_start s p start) = en_calls s" "en_replied (update_start s p start) = en_replied s"
      by (simp_all add: update_start_def split: option.split)
    show ?thesis using assms(4,5) Probe_Sent(1,2) by (auto simp: t f registered_def split: if_splits)
  next
    case (Probe_Send_Error j k p cancelled)
    then obtain u where u: "closeProbeNotify (s\<lparr>en_sentAt := (en_sentAt s)(p := None)\<rparr>) p = Inr u"
        and t: "t = goto u j (if cancelled then Call_Failed else Call_Returned (no_reply (pc_ttl k)))"
      by (auto simp: call_send_error_def discardProbe_def rbind_eq_Inr split: if_splits)
    have f: "en_calls u = en_calls s" "en_replied u = en_replied s"
      using u by (auto simp: closeProbeNotify_def close_channel_def split: option.splits if_splits)
    show ?thesis using assms(4,5) Probe_Send_Error(1) by (auto simp: t f registered_def split: if_splits)
  next
    case (Probe_Done j k p)
    have reg: "registered s j p" using Probe_Done by (simp add: registered_def)
    have "j \<noteq> i" using assms(5) Probe_Done(1,2) by (auto simp: registered_def call_done_def split: option.splits)
    then have own: "registered s i q"
      using assms(5) Probe_Done(1,2) by (auto simp: registered_def call_done_def split: option.splits)
    then have "q \<noteq> p" using other_number [OF assms(1) own reg] \<open>j \<noteq> i\<close> by blast
    then show ?thesis using assms(4) [OF own] by (simp add: Probe_Done(1) call_done_def split: option.split)
  next
    case (Probe_Timer j k p cancelled)
    then show ?thesis using assms(4,5) by (auto simp: call_timer_def registered_def split: if_splits)
  next
    case (Probe_Message msg finish p)
    show ?thesis using assms(1) Probe_Message
    proof (cases rule: message_cases)
      case unknown
      then show ?thesis using assms(4,5) by simp
    next
      case (answered j r')
      have reg: "registered s j p" "j \<noteq> i" using assms(1,3) answered(1) by (auto simp: call_inv_def notify_ok_def)
      have own: "registered s i q" using assms(5) by (simp add: registered_def answered(2))
      then have "q \<noteq> p" using other_number [OF assms(1) own reg(1)] reg(2) by blast
      then show ?thesis using assms(4) [OF own] answered(6) by auto
    qed
  next
    case Probe_Reset_Begin
    then show ?thesis using assms(4,5) by (simp add: reset_begin_def resetFinalTTL_def registered_def)
  next
    case (Probe_Reset_End order)
    then show ?thesis using nr by blast
  qed
qed

lemma stored_stays:
  assumes "reaches (quiet_step c) s t" "call_inv c s" "i \<in> en_closed s" "en_replied s q = Some r"
  shows "call_inv c t \<and> i \<in> en_closed t \<and> (registered t i q \<longrightarrow> en_replied t q = Some r)"
  using assms
proof (induction rule: reaches.induct)
  case (reaches_step s t u)
  then have t: "call_inv c t" "i \<in> en_closed t" "registered t i q \<Longrightarrow> en_replied t q = Some r" by simp_all
  have st: "call_step c t u" using reaches_step.hyps(2) by (simp add: quiet_step_def)
  show ?case
    using credit_kept [OF t(1) st t(2)] stored_kept [OF t(1) reaches_step.hyps(2) t(2,3)] calls.preserved [OF t(1) st] by blast
qed simp

text \<open>C8. A reply reaches the call that sent the probe, once. Let a message carry the number of a recorded transmission and
  pass the checks of round, time and socket. Then exactly one call is registered under that number, it had no reply yet, and
  the message stores for it the message's sender, the time since the transmission and the message's labels, wakes
  it, and changes no other call's bookkeeping. Whenever that call takes its wake-up, after whatever further steps except a replacement of the
  socket or the end of a \<open>Reset\<close> (which throw all replies away), it returns exactly that reply, under its own TTL; and
  in any later state, whatever happened, it has returned either that reply or none.\<close>

theorem reply_reaches_its_call:
  assumes "reaches (call_step c) call_init s" "call_message c s msg finish seq = Inr t"
    "en_sentAt s seq = Some start" "\<not> discards c s start finish" "extractMPLS msg (DisableMPLS c) = Inr mpls"
    "r = \<lparr>rp_peer = rm_Peer msg, rp_rtt = finish - pm_start start, rp_mpls = mpls\<rparr>"
  shows "\<exists>i. registered s i seq \<and> (\<forall>j. registered s j seq \<longrightarrow> j = i) \<and> en_credit s i = None \<and>
    en_replied t = (en_replied s)(seq \<mapsto> r) \<and> en_credit t = (en_credit s)(i \<mapsto> r) \<and>
    en_calls t = en_calls s \<and> en_closed t = insert i (en_closed s) \<and>
    0 < rp_rtt r \<and> rp_rtt r \<le> probe_timeout c \<and>
    (\<forall>u k. reaches (quiet_step c) t u \<longrightarrow> en_calls u i = Some k \<longrightarrow> pc_at k = Call_Waiting seq \<longrightarrow>
       call_step c u (call_done u i k seq) \<and>
       en_calls (call_done u i k seq) i = Some (k\<lparr>pc_at := Call_Returned (reply_result (pc_ttl k) r)\<rparr>)) \<and>
    (\<forall>u k res. reaches (call_step c) t u \<longrightarrow> en_calls u i = Some k \<longrightarrow> pc_at k = Call_Returned res \<longrightarrow>
       res = no_reply (pc_ttl k) \<or> res = reply_result (pc_ttl k) r)"
proof -
  have inv: "call_inv c s" "call_inv c t" using reach_call_inv [OF assms(1)] inv_call_message [OF _ assms(2)] by blast+
  have acc: "accepts c s finish seq" using assms(3,4) by (simp add: accepts_def)
  show ?thesis using inv(1) assms(2)
  proof (cases rule: message_cases)
    case unknown
    then show ?thesis using assms(3) by simp
  next
    case (answered i r')
    have eq: "r' = r" using answered(6) acc assms(3,5,6) by (auto simp: carried_by_def)
    then have credit: "en_replied t = (en_replied s)(seq \<mapsto> r)" "en_credit t = (en_credit s)(i \<mapsto> r)" "validProbeRTT c (rp_rtt r)"
      using answered(6) acc by auto
    have reg: "registered s i seq" "i \<notin> en_closed s" using inv(1) answered(1) by (auto simp: call_inv_def notify_ok_def)
    have none: "en_credit s i = None"
      using inv(1) reg(2) unfolding call_inv_def credit_ok_def by (metis not_None_eq)
    have only: "\<forall>j. registered s j seq \<longrightarrow> j = i" using other_number [OF inv(1) _ reg(1)] by blast
    have closed: "i \<in> en_closed t" using answered(5) by simp
    have wakes: "call_step c u (call_done u i k seq) \<and>
        en_calls (call_done u i k seq) i = Some (k\<lparr>pc_at := Call_Returned (reply_result (pc_ttl k) r)\<rparr>)"
      if u: "reaches (quiet_step c) t u" "en_calls u i = Some k" "pc_at k = Call_Waiting seq" for u k
    proof -
      have "registered u i seq" using u(2,3) by (simp add: registered_def)
      moreover have "en_replied t seq = Some r" by (simp add: credit(1))
      ultimately have "i \<in> en_closed u" "en_replied u seq = Some r"
        using stored_stays [OF u(1) inv(2) closed] by blast+
      then show ?thesis using Probe_Done [OF u(2,3)] u(2) by (simp add: call_done_def)
    qed
    have later: "res = no_reply (pc_ttl k) \<or> res = reply_result (pc_ttl k) r"
      if u: "reaches (call_step c) t u" "en_calls u i = Some k" "pc_at k = Call_Returned res" for u k res
    proof -
      have "en_credit u i = Some r" using credit_stays [OF u(1) inv(2) closed] credit(2) by simp
      moreover have "call_result_ok u" using calls.reachable_inv [OF u(1) inv(2)] by (simp add: call_inv_def)
      ultimately show ?thesis using u(2,3) unfolding call_result_ok_def by (metis option.inject)
    qed
    have rtt: "0 < rp_rtt r" "rp_rtt r \<le> probe_timeout c" using credit(3) by (simp_all add: validProbeRTT_def)
    show ?thesis
      by (rule exI [of _ i], intro conjI reg(1) only none credit(1,2) answered(2,5) rtt)
        (use wakes in blast, use later in blast)
  qed
qed

text \<open>C9. No wakeup is lost and none is doubled: in every reachable state with a socket, no handler closes a channel
  twice, and a call that still waits is either registered under its number or its channel is closed already.\<close>

theorem engine_no_panic:
  assumes "reaches (call_step c) call_init s" "en_spec s" "iteration_of order s"
  shows "call_message c s msg finish seq \<noteq> Inl Panic \<and> reset_end order s \<noteq> Inl Panic \<and>
    call_start order isReady s i ttl \<noteq> Inl Panic \<and> call_send_error s j k q cancelled \<noteq> Inl Panic \<and>
    (registered s j q \<longrightarrow> j \<in> en_closed s \<or> en_notify s q = Some j)"
proof -
  have inv: "call_inv c s" by (rule reach_call_inv [OF assms(1)])
  then have n: "notify_ok s" by (simp add: call_inv_def)
  have close: "closeProbeNotify e q \<noteq> Inl Panic" if "en_notify e = en_notify s" "en_closed e = en_closed s" for e :: call_state and q
    using n that by (auto simp: closeProbeNotify_def close_channel_def notify_ok_def split: option.splits)
  obtain mpls where m: "extractMPLS msg (DisableMPLS c) = Inr mpls" using extractMPLS_total by blast
  have "call_message c s msg finish seq \<noteq> Inl Panic"
    using close by (auto simp: call_message_def onICMP_def onICMP_locked_def discardProbe_def storeProbeReply_def m rbind_eq_Inl
        split: option.splits)
  moreover have "reset_end order s \<noteq> Inl Panic" using close_calls [OF n assms(3), of s] by (simp add: reset_end_def)
  moreover have "call_start order isReady s i ttl \<noteq> Inl Panic"
    using close_calls [OF n assms(3), of "s\<lparr>en_seqCounter := 0\<rparr>"] assms(2)
    by (simp add: call_start_def rotateEngine_def Let_def)
  moreover have "call_send_error s j k q cancelled \<noteq> Inl Panic"
    using close assms(2) by (auto simp: call_send_error_def discardProbe_def rbind_eq_Inl)
  moreover have "registered s j q \<longrightarrow> j \<in> en_closed s \<or> en_notify s q = Some j" using n by (simp add: notify_ok_def)
  ultimately show ?thesis by blast
qed

definition silent :: "call_state \<Rightarrow> nat \<Rightarrow> bool" where
  "silent s i \<longleftrightarrow> i \<in> en_closed s \<and> (\<forall>q. registered s i q \<longrightarrow> en_replied s q = None) \<and>
     (\<forall>k res. en_calls s i = Some k \<longrightarrow> pc_at k = Call_Returned res \<longrightarrow> res = no_reply (pc_ttl k))"

lemma silent_moved:
  assumes "silent s i" "i \<in> en_closed t" "en_calls t i = en_calls s i" "\<And>q. en_replied s q = None \<Longrightarrow> en_replied t q = None"
  shows "silent t i"
  using assms unfolding silent_def registered_def by simp

lemma silent_step:
  assumes "call_inv c s" "call_step c s t" "silent s i"
  shows "silent t i"
proof -
  have cl: "i \<in> en_closed s" using assms(3) by (simp add: silent_def)
  then have cl': "i \<in> en_closed t" using credit_kept [OF assms(1,2)] by blast
  have known: "en_calls s i \<noteq> None" "\<not> about_to s i q" for q
    using assms(1) cl unfolding call_inv_def closed_ok_def by blast+
  have own: "en_replied s q = None" if "registered s i q" for q using assms(3) that by (simp add: silent_def)
  note moved = silent_moved [OF assms(3) cl']
  from assms(2) show ?thesis
  proof cases
    case (Probe_Start j order isReady ttl)
    have "j \<noteq> i" using Probe_Start(1) known(1) by auto
    show ?thesis
    proof (cases "seqWillWrap (en_seqCounter s) 1")
      case False
      then have "t = call_number s j ttl" using Probe_Start(3) by (simp add: call_start_def)
      then show ?thesis using \<open>j \<noteq> i\<close> by (intro moved) (simp_all add: call_number_def Let_def next_seq_def)
    next
      case True
      obtain u ok where r: "rotateEngine order isReady s = Inr (u, ok)"
          and t: "t = (if ok then call_number u j ttl
                   else u\<lparr>en_calls := (en_calls u)(j \<mapsto> \<lparr>pc_ttl = ttl, pc_epoch = en_epoch u, pc_at = Call_Failed\<rparr>)\<rparr>)"
        using Probe_Start(3) True by (auto simp: call_start_def rbind_eq_Inr)
      have "en_replied u = Map.empty" using r by (auto simp: rotateEngine_def rbind_eq_Inr Let_def split: if_splits)
      then show ?thesis
        using rotate_calls(2) [OF assms(1) Probe_Start(2) r] \<open>j \<noteq> i\<close>
        by (intro moved) (simp_all add: t call_number_def Let_def next_seq_def)
    qed
  next
    case (Probe_Read j k q)
    then have "j \<noteq> i" using known(2) [of q] by (auto simp: about_to_def)
    then show ?thesis by (intro moved) (simp_all add: Probe_Read(1) call_read_def)
  next
    case (Probe_Register j k q r start)
    then have "j \<noteq> i" using known(2) [of q] by (auto simp: about_to_def)
    then show ?thesis by (intro moved) (simp_all add: Probe_Register(1) call_register_def)
  next
    case (Probe_Sent j k q start)
    have t: "t = goto (update_start s q start) j (Call_Waiting q)" using Probe_Sent(3) by (simp add: call_send_ok_def split: if_splits)
    have f: "en_calls (update_start s q start) = en_calls s" "en_replied (update_start s q start) = en_replied s"
      by (simp_all add: update_start_def split: option.split)
    show ?thesis
    proof (cases "j = i")
      case True
      then have "registered s i q" using Probe_Sent by (simp add: registered_def)
      then show ?thesis using own cl' True Probe_Sent(1) by (simp add: silent_def registered_def t f)
    next
      case False
      then show ?thesis by (intro moved) (simp_all add: t f)
    qed
  next
    case (Probe_Send_Error j k q cancelled)
    obtain u where u: "closeProbeNotify (s\<lparr>en_sentAt := (en_sentAt s)(q := None)\<rparr>) q = Inr u"
        and t: "t = goto u j (if cancelled then Call_Failed else Call_Returned (no_reply (pc_ttl k)))"
      using Probe_Send_Error(3) by (auto simp: call_send_error_def discardProbe_def rbind_eq_Inr split: if_splits)
    have f: "en_calls u = en_calls s" "en_replied u = en_replied s"
      using u by (auto simp: closeProbeNotify_def close_channel_def split: option.splits if_splits)
    show ?thesis
    proof (cases "j = i")
      case True
      then show ?thesis using cl' Probe_Send_Error(1) by (auto simp: silent_def registered_def t f split: if_splits)
    next
      case False
      then show ?thesis by (intro moved) (simp_all add: t f)
    qed
  next
    case (Probe_Done j k q)
    show ?thesis
    proof (cases "j = i")
      case True
      then have "en_replied s q = None" using own [of q] Probe_Done by (simp add: registered_def)
      then show ?thesis using cl' Probe_Done True by (auto simp: silent_def registered_def call_done_def)
    next
      case False
      then show ?thesis by (intro moved) (auto simp: Probe_Done(1) call_done_def split: option.splits)
    qed
  next
    case (Probe_Timer j k q cancelled)
    show ?thesis
    proof (cases "j = i")
      case True
      then show ?thesis using cl' Probe_Timer by (auto simp: silent_def registered_def call_timer_def split: if_splits)
    next
      case False
      then show ?thesis by (intro moved) (simp_all add: Probe_Timer(1) call_timer_def)
    qed
  next
    case (Probe_Message msg finish q)
    show ?thesis using assms(1) Probe_Message
    proof (cases rule: message_cases)
      case unknown
      then show ?thesis using assms(3) by simp
    next
      case (answered j r)
      have reg: "registered s j q" "j \<noteq> i" using assms(1) answered(1) cl by (auto simp: call_inv_def notify_ok_def)
      have "\<not> registered s i q"
        using assms(1) reg registered_live [OF reg(1)] registered_live [of s i q] unfolding call_inv_def live_ok_def by blast
      then have "registered s i q' \<Longrightarrow> en_replied t q' = None" for q' using own [of q'] answered(6) by auto
      then show ?thesis using cl' assms(3) by (simp add: silent_def registered_def answered(2))
    qed
  next
    case Probe_Reset_Begin
    then show ?thesis by (intro moved) (simp_all add: reset_begin_def resetFinalTTL_def)
  next
    case (Probe_Reset_End order)
    have n: "notify_ok s" using assms(1) by (simp add: call_inv_def)
    have "t = s\<lparr>en_closed := en_closed s \<union> ran (en_notify s), en_notify := Map.empty, en_sentAt := Map.empty, en_replied := Map.empty\<rparr>"
      using Probe_Reset_End close_calls [OF n, of order s] by (simp add: reset_end_def)
    then show ?thesis by (intro moved) simp_all
  qed
qed

lemma silent_stays:
  assumes "reaches (call_step c) s t" "call_inv c s" "silent s i"
  shows "silent t i"
  using assms
proof (induction rule: reaches.induct)
  case (reaches_step s t u)
  then show ?case using silent_step [of c t u i] calls.reachable_inv by metis
qed simp

text \<open>C10. \<open>Reset\<close> cancels what is in flight: every call that was registered has its channel closed, and in no later state,
  whatever messages still arrive, does it report a reply.\<close>

theorem reset_silences:
  assumes "reaches (call_step c) call_init s" "iteration_of order s" "reset_end order s = Inr t" "registered s i q"
    "reaches (call_step c) t u" "en_calls u i = Some k" "pc_at k = Call_Returned out"
  shows "i \<in> en_closed t \<and> out = no_reply (pc_ttl k)"
proof -
  have inv: "call_inv c s" by (rule reach_call_inv [OF assms(1)])
  have n: "notify_ok s" using inv by (simp add: call_inv_def)
  have t: "t = s\<lparr>en_closed := en_closed s \<union> ran (en_notify s), en_notify := Map.empty, en_sentAt := Map.empty, en_replied := Map.empty\<rparr>"
    using assms(3) close_calls [OF n assms(2), of s] by (simp add: reset_end_def)
  have "i \<in> en_closed s \<or> en_notify s q = Some i" using n assms(4) by (simp add: notify_ok_def)
  then have c: "i \<in> en_closed t" by (auto simp: t ran_def)
  then have "silent t i" using assms(4) by (auto simp: silent_def t registered_def)
  moreover have "call_inv c t" by (rule inv_step_call [OF inv Probe_Reset_End [OF assms(2,3)]])
  ultimately have "silent u i" using silent_stays [OF assms(5)] by blast
  then show ?thesis using c assms(6,7) by (simp add: silent_def)
qed

text \<open>When a rotation fails because the new listener does not get ready, the engine has no socket any more, and nothing
  opens one: the next probe and the next rotation dereference a nil pointer.\<close>

theorem restart_failure_panics:
  assumes "rotateEngine order False s = Inr (t, ok)"
  shows "\<not> ok \<and> call_send_ok t i seq start = Inl Panic \<and> call_send_error t i k seq cancelled = Inl Panic \<and>
    rotateEngine order' isReady t = Inl Panic"
proof -
  have "\<not> en_spec t \<and> \<not> ok" using assms by (auto simp: rotateEngine_def rbind_eq_Inr Let_def split: if_splits)
  then show ?thesis by (simp add: call_send_ok_def call_send_error_def rotateEngine_def)
qed

subsection \<open>A concrete run\<close>

text \<open>One probe at TTL 3 with the number 1.\<close>

definition probe_run_call :: probe_call where
  "probe_run_call = \<lparr>pc_ttl = 3, pc_epoch = 0, pc_at = Call_Waiting 1\<rparr>"

definition probe_run_sent :: call_state where
  "probe_run_sent = call_init\<lparr>en_seqCounter := 1, en_calls := [0 \<mapsto> probe_run_call],
     en_sentAt := [1 \<mapsto> \<lparr>pm_ttl = 3, pm_start = 150, pm_roundID = 0\<rparr>], en_notify := [1 \<mapsto> 0]\<rparr>"

definition probe_run_msg :: received_message where
  "probe_run_msg = \<lparr>rm_Peer = Some (IPAddr [8, 8, 8, 8] []), rm_Msg = [], rm_Err = False\<rparr>"

lemmas probe_run_defs = call_init_def newMTRICMPEngine_def mtrICMPEngine.defs probe_run_call_def probe_run_sent_def

lemma and_one [simp]: "uint (1 AND 0xFFFF :: 32 word) = 1"
  by (simp add: and_FFFF32)

lemma probe_run_reachable: "reaches (call_step run_config) call_init probe_run_sent"
proof -
  let ?k = "\<lparr>pc_ttl = 3, pc_epoch = 0, pc_at = Call_Numbered 1\<rparr>"
  let ?s1 = "call_number call_init 0 3"
  let ?s2 = "call_read ?s1 0 1"
  let ?s3 = "call_register ?s2 0 (?k\<lparr>pc_at := Call_Ready 1 0\<rparr>) 1 0 100"
  have w: "\<not> seqWillWrap 0 1" by (simp add: seqWillWrap_iff)
  have 1: "call_step run_config call_init ?s1"
    by (rule Probe_Start [of _ 0 "[]"])
      (simp_all add: iteration_of_def call_start_def w live_seq_def call_number_def Let_def next_seq_def probe_run_defs)
  have 2: "call_step run_config ?s1 ?s2"
    by (rule Probe_Read [of _ _ ?k]) (simp_all add: call_number_def Let_def next_seq_def probe_run_defs)
  have 3: "call_step run_config ?s2 ?s3"
    by (rule Probe_Register) (simp_all add: call_read_def goto_def call_number_def Let_def next_seq_def probe_run_defs)
  have "call_send_ok ?s3 0 1 150 = Inr probe_run_sent"
    by (simp add: call_send_ok_def update_start_def call_register_def call_read_def goto_def call_number_def Let_def
        next_seq_def probe_run_defs)
  then have 4: "call_step run_config ?s3 probe_run_sent"
    by (intro Probe_Sent [of _ 0 "?k\<lparr>pc_at := Call_Sending 1\<rparr>" 1])
      (simp_all add: call_register_def call_read_def goto_def call_number_def Let_def next_seq_def probe_run_defs)
  note step = reaches_step [of "call_step run_config"]
  show ?thesis by (rule step [OF step [OF step [OF step [OF reaches_refl 1] 2] 3] 4])
qed

lemma probe_run_mpls: "extractMPLS probe_run_msg d = Inr []"
  by (simp add: extractMPLS_def probe_run_msg_def findValid_def)

definition probe_run_answered :: call_state where
  "probe_run_answered = projr (call_message run_config probe_run_sent probe_run_msg 300 1)"

lemma probe_run_message: "call_message run_config probe_run_sent probe_run_msg 300 1 = Inr probe_run_answered"
  "en_credit probe_run_answered = [0 \<mapsto> \<lparr>rp_peer = Some (IPAddr [8, 8, 8, 8] []), rp_rtt = 150, rp_mpls = []\<rparr>]"
proof -
  have "\<exists>t. call_message run_config probe_run_sent probe_run_msg 300 1 = Inr t \<and>
      en_credit t = [0 \<mapsto> \<lparr>rp_peer = Some (IPAddr [8, 8, 8, 8] []), rp_rtt = 150, rp_mpls = []\<rparr>]"
    by (simp add: call_message_def onICMP_def onICMP_locked_def discards_def validProbeRTT_def probe_timeout_def
        storeProbeReply_def probe_run_mpls closeProbeNotify_def close_channel_def accepts_def run_config_def
        sample_config_def probe_run_defs) (simp add: probe_run_msg_def)
  then obtain t where t: "call_message run_config probe_run_sent probe_run_msg 300 1 = Inr t"
      "en_credit t = [0 \<mapsto> \<lparr>rp_peer = Some (IPAddr [8, 8, 8, 8] []), rp_rtt = 150, rp_mpls = []\<rparr>]" by blast
  then show "call_message run_config probe_run_sent probe_run_msg 300 1 = Inr probe_run_answered"
    "en_credit probe_run_answered = [0 \<mapsto> \<lparr>rp_peer = Some (IPAddr [8, 8, 8, 8] []), rp_rtt = 150, rp_mpls = []\<rparr>]"
    by (simp_all add: probe_run_answered_def)
qed

lemma probe_run_start: "en_sentAt probe_run_sent 1 = Some \<lparr>pm_ttl = 3, pm_start = 150, pm_roundID = 0\<rparr>"
  "\<not> discards run_config probe_run_sent \<lparr>pm_ttl = 3, pm_start = 150, pm_roundID = 0\<rparr> 300"
  by (simp_all add: probe_run_defs discards_def validProbeRTT_def probe_timeout_def run_config_def sample_config_def)

theorem reply_reaches_its_call_witness:
  "en_calls (call_done probe_run_answered 0 probe_run_call 1) 0 = Some (probe_run_call\<lparr>pc_at :=
     Call_Returned (reply_result 3 \<lparr>rp_peer = Some (IPAddr [8, 8, 8, 8] []), rp_rtt = 150, rp_mpls = []\<rparr>)\<rparr>)"
proof -
  obtain i where i: "registered probe_run_sent i 1" "en_calls probe_run_answered = en_calls probe_run_sent"
      "\<forall>u k. reaches (quiet_step run_config) probe_run_answered u \<longrightarrow> en_calls u i = Some k \<longrightarrow> pc_at k = Call_Waiting 1 \<longrightarrow>
         call_step run_config u (call_done u i k 1) \<and> en_calls (call_done u i k 1) i = Some (k\<lparr>pc_at := Call_Returned (reply_result (pc_ttl k)
           \<lparr>rp_peer = rm_Peer probe_run_msg, rp_rtt = 300 - 150, rp_mpls = []\<rparr>)\<rparr>)"
    using reply_reaches_its_call [OF probe_run_reachable probe_run_message(1) probe_run_start probe_run_mpls refl] by auto
  have "i = 0" using i(1) by (simp add: registered_def probe_run_defs split: if_splits)
  moreover have "en_calls probe_run_answered 0 = Some probe_run_call" "pc_at probe_run_call = Call_Waiting 1" "pc_ttl probe_run_call = 3"
    using i(2) by (simp_all add: probe_run_defs)
  ultimately show ?thesis
    using i(3) [rule_format, OF reaches_refl, of probe_run_call] by (simp add: probe_run_msg_def)
qed

theorem engine_no_panic_witness:
  "call_message run_config probe_run_sent probe_run_msg 300 1 \<noteq> Inl Panic \<and> reset_end [(1, 0)] probe_run_sent \<noteq> Inl Panic"
proof -
  have "en_spec probe_run_sent" "iteration_of [(1, 0)] probe_run_sent" by (simp_all add: iteration_of_def probe_run_defs)
  from engine_no_panic [OF probe_run_reachable this] show ?thesis by blast
qed

definition probe_run_reset :: call_state where
  "probe_run_reset = probe_run_sent\<lparr>en_closed := {0}, en_notify := Map.empty, en_sentAt := Map.empty, en_replied := Map.empty\<rparr>"

theorem reset_silences_witness:
  "0 \<in> en_closed probe_run_reset \<and> no_reply 3 = no_reply (pc_ttl (probe_run_call\<lparr>pc_at := Call_Returned (no_reply 3)\<rparr>))"
proof -
  have i: "iteration_of [(1, 0)] probe_run_sent" by (simp add: iteration_of_def probe_run_defs)
  have r: "reset_end [(1, 0)] probe_run_sent = Inr probe_run_reset"
    by (simp add: reset_end_def close_channel_def probe_run_reset_def probe_run_defs fun_eq_iff)
  have g: "registered probe_run_sent 0 1" by (simp add: registered_def probe_run_defs)
  have k: "en_calls probe_run_reset 0 = Some probe_run_call" "pc_at probe_run_call = Call_Waiting 1"
    "0 \<in> en_closed probe_run_reset" "en_replied probe_run_reset 1 = None"
    by (simp_all add: probe_run_reset_def probe_run_sent_def probe_run_call_def)
  let ?u = "call_done probe_run_reset 0 probe_run_call 1"
  have d: "reaches (call_step run_config) probe_run_reset ?u"
    by (rule reaches_step [of "call_step run_config", OF reaches_refl Probe_Done [OF k(1-3)]])
  have "en_calls ?u 0 = Some (probe_run_call\<lparr>pc_at := Call_Returned (no_reply 3)\<rparr>)"
    by (simp add: call_done_def k) (simp add: probe_run_call_def)
  from reset_silences [OF probe_run_reachable i r g d this] show ?thesis by simp
qed

end
