(* ===== verification/Mtr_Rounds_Props.thy ===== *)
theory Mtr_Rounds_Props
  imports Mtr_Rounds Mtr_Calls_Props
begin

section \<open>What a round of probes reports\<close>

text \<open>
  The result of a round has one hop per TTL, which is the reply accepted for the probe of that TTL in this round, and
  the previews never show an answer that the result does not have.
\<close>

subsection \<open>Results\<close>

lemma length_result_of: "length (Hops (result_of b n f)) = nat n"
  by (simp add: result_of_def)

lemma nth_result_of:
  "1 \<le> ttl \<Longrightarrow> ttl \<le> n \<Longrightarrow> Hops (result_of b n f) ! nat (ttl - 1) = (if ttl < b then [] else f ttl)"
  by (simp add: result_of_def nth_upto)

lemma probeRoundHop_answer:
  "probeRoundHop e ttl = (case Option.bind (cur_map e ttl) (en_replied e) of
     None \<Rightarrow> lost_hop ttl (Some HopTimeout) | Some a \<Rightarrow> answered_hop ttl a)"
  by (auto simp: probeRoundHop_def cur_map_def split: option.splits)

lemma build_hop:
  assumes "round_inv c s" "rd_pc s = Round_Build n" "buildProbeRoundResult s (ps_beginHop (rd_round s)) n = Inr r"
  shows "length (Hops r) = nat n" "1 \<le> n" "n \<le> MaxHops c" "round_beginHop c \<le> n"
    "1 \<le> ttl \<Longrightarrow> ttl \<le> n \<Longrightarrow> Hops r ! nat (ttl - 1) =
       (if ttl < round_beginHop c then []
        else [case rd_answers s ttl of None \<Rightarrow> lost_hop ttl (Some HopTimeout) | Some a \<Rightarrow> answered_hop ttl a])"
proof -
  have i: "bounds_ok c s" "position_ok c s" "answers_ok s" using assms(1) by (simp_all add: round_inv_def)
  show n: "1 \<le> n" "round_beginHop c \<le> n"
    using i(2) begin_pos [of c] by (simp_all add: position_ok_def assms(2))
  show "n \<le> MaxHops c" using i(1,2) by (simp add: position_ok_def bounds_ok_def assms(2))
  have r: "r = result_of (ps_beginHop (rd_round s)) n (\<lambda>ttl. [probeRoundHop s ttl])"
    using assms(3) n by (simp add: buildProbeRoundResult_def)
  show "length (Hops r) = nat n" by (simp add: r length_result_of)
  have b: "ps_beginHop (rd_round s) = round_beginHop c" using i(1) by (simp add: bounds_ok_def assms(2))
  have a: "rd_answers s t = Option.bind (cur_map s t) (en_replied s)" for t using i(3) by (simp add: answers_ok_def assms(2))
  show "1 \<le> ttl \<Longrightarrow> ttl \<le> n \<Longrightarrow> Hops r ! nat (ttl - 1) =
       (if ttl < round_beginHop c then []
        else [case rd_answers s ttl of None \<Rightarrow> lost_hop ttl (Some HopTimeout) | Some a \<Rightarrow> answered_hop ttl a])"
    by (simp add: r nth_result_of b a probeRoundHop_answer)
qed

lemma closeProbeNotify_pc: "closeProbeNotify s q = Inr t \<Longrightarrow> rd_pc t = rd_pc s"
  by (auto simp: closeProbeNotify_def close_channel_def rbind_eq_Inr split: option.splits if_splits)

lemma message_pc:
  assumes "round_message c s msg finish seq = Inr t"
  shows "rd_pc t = rd_pc s"
proof -
  obtain u x where u: "onICMP_locked c s msg finish seq = Inr (u, x)" and t: "rd_pc t = rd_pc u"
    using assms by (auto simp: round_message_def rbind_eq_Inr split: option.splits)
  have "rd_pc u = rd_pc s"
    using u by (auto simp: onICMP_locked_def discardProbe_def storeProbeReply_def rbind_eq_Inr
        dest!: closeProbeNotify_pc split: option.splits if_splits)
  then show ?thesis using t by simp
qed

lemma build_step:
  assumes "round_step c s t" "rd_pc t = Round_Result r" "rd_pc s \<noteq> Round_Result r"
  obtains n where "rd_pc s = Round_Build n" "buildProbeRoundResult s (ps_beginHop (rd_round s)) n = Inr r"
    "t = s\<lparr>rd_pc := Round_Result r\<rparr>"
  using assms(1)
proof (cases rule: round_step.cases)
  case (Round_Message msg finish seq) then show ?thesis using message_pc assms(2,3) by metis
next
  case (Round_Build n r') then show ?thesis using assms(2) that by auto
next
  case Round_Rotate then show ?thesis using assms(2) by (auto simp: round_rotate_def rbind_eq_Inr split: if_splits)
next
  case Sweep_Send then show ?thesis using assms(2) by (auto simp: round_send_def Let_def split: prod.splits option.splits)
next
  case Sweep_Sent then show ?thesis using assms(2) by (auto simp: round_send_ok_def split: if_splits)
next
  case Sweep_Error then show ?thesis using assms(2) by (auto simp: round_send_error_def Let_def split: if_splits)
next
  case Round_Deliver
  then have "rd_pc t = rd_pc s"
    by (simp add: round_deliver_def onICMP_unlocked_def signalReplyReady_def updateRoundFinalTTL_def)
  then show ?thesis using assms(2,3) by simp
qed (use assms(2,3) in \<open>simp_all add: round_begin_def resetFinalTTL_def round_maps_def round_preview_def Let_def split: if_splits\<close>)

text \<open>C11. The result of a round is exact: it has one slot for each TTL up to the last one, empty before the first TTL, and
  otherwise with a single hop, which is the reply that was accepted for the probe of this TTL in this round, or a
  timeout when there was none; an accepted reply has a round-trip time within the timeout.\<close>

theorem round_result_exact:
  assumes "round_cfg c" "reaches (round_step c) round_init s" "round_step c s t" "rd_pc t = Round_Result r"
    "rd_pc s \<noteq> Round_Result r" "1 \<le> ttl" "ttl \<le> int (length (Hops r))"
  shows "round_beginHop c \<le> int (length (Hops r)) \<and> int (length (Hops r)) \<le> MaxHops c \<and>
    Hops r ! nat (ttl - 1) =
      (if ttl < round_beginHop c then []
       else [case rd_answers s ttl of None \<Rightarrow> lost_hop ttl (Some HopTimeout) | Some a \<Rightarrow> answered_hop ttl a]) \<and>
    (case rd_answers s ttl of None \<Rightarrow> True | Some a \<Rightarrow> validProbeRTT c (rp_rtt a))"
proof -
  have i: "round_inv c s" by (rule reach_round_inv [OF assms(2,1)])
  obtain n where n: "rd_pc s = Round_Build n" "buildProbeRoundResult s (ps_beginHop (rd_round s)) n = Inr r"
    using build_step [OF assms(3-5)] .
  have a: "answers_ok s" "rtt_ok c s" using i by (simp_all add: round_inv_def)
  have "validProbeRTT c (rp_rtt a)" if "rd_answers s ttl = Some a" for a
    using a that by (auto simp: answers_ok_def n(1) rtt_ok_def bind_eq_Some_conv)
  then show ?thesis
    using build_hop(1-4) [OF i n] build_hop(5) [OF i n, of ttl] assms(6,7) by (auto split: option.splits)
qed

subsection \<open>Previews\<close>

definition within_round :: "Config \<Rightarrow> round_state \<Rightarrow> round_state \<Rightarrow> bool" where
  "within_round c s t \<longleftrightarrow> round_step c s t \<and> rd_pc t \<noteq> Round_Maps"

text \<open>An answer that is not going to be forgotten in this round.\<close>

definition settled :: "Config \<Rightarrow> int \<Rightarrow> mtrProbeReply \<Rightarrow> round_state \<Rightarrow> bool" where
  "settled c ttl a s \<longleftrightarrow> rd_answers s ttl = Some a \<and> (\<forall>q. rd_pc s \<noteq> Round_Sending ttl q) \<and>
     rd_pc s \<noteq> Round_Maps \<and> rd_pc s \<noteq> Round_Rotate \<and> rd_pc s \<noteq> Round_Preview \<and>
     (\<forall>r. rd_pc s = Round_Result r \<longrightarrow> ttl \<le> int (length (Hops r)) \<longrightarrow> Hops r ! nat (ttl - 1) = [answered_hop ttl a])"

lemma answered_probed:
  assumes "round_inv c s" "rd_answers s ttl = Some a" "rd_pc s \<noteq> Round_Maps"
  obtains q where "cur_map s ttl = Some q" "en_replied s q = Some a" "ttl_ok c ttl"
    "active (rd_pc s) \<Longrightarrow> ttl \<le> probed_up_to (rd_pc s) (ps_effectiveMax (rd_round s))"
proof -
  have i: "cur_ok c s" "answers_ok s" using assms(1) by (simp_all add: round_inv_def)
  obtain q where q: "cur_map s ttl = Some q" "en_replied s q = Some a"
    using i(2) assms(2,3) by (auto simp: answers_ok_def bind_eq_Some_conv)
  show ?thesis using that [OF q] i(1) q(1) by (auto simp: cur_ok_def)
qed

lemma settled_step:
  assumes "round_inv c s" "round_cfg c" "settled c ttl a s" "within_round c s t"
  shows "settled c ttl a t"
proof -
  have st: "round_step c s t" "rd_pc t \<noteq> Round_Maps" using assms(4) by (simp_all add: within_round_def)
  have s: "rd_answers s ttl = Some a" "\<And>q. rd_pc s \<noteq> Round_Sending ttl q" "rd_pc s \<noteq> Round_Maps" "rd_pc s \<noteq> Round_Rotate"
    "rd_pc s \<noteq> Round_Preview"
    "\<And>r. rd_pc s = Round_Result r \<Longrightarrow> ttl \<le> int (length (Hops r)) \<Longrightarrow> Hops r ! nat (ttl - 1) = [answered_hop ttl a]"
    using assms(3) by (auto simp: settled_def)
  obtain q where q: "cur_map s ttl = Some q" "en_replied s q = Some a" "ttl_ok c ttl"
    and up: "active (rd_pc s) \<Longrightarrow> ttl \<le> probed_up_to (rd_pc s) (ps_effectiveMax (rd_round s))"
    using answered_probed [OF assms(1) s(1,3)] by metis
  have low: "round_beginHop c \<le> ttl" "1 \<le> ttl" using q(3) begin_pos [of c] by (simp_all add: ttl_ok_def)
  from st(1) show ?thesis
  proof (cases rule: round_step.cases)
    case Round_Begin then show ?thesis using st(2) by (simp add: round_begin_def)
  next
    case (Sweep_Send n pre)
    have "ttl < n" using up by (simp add: Sweep_Send(1))
    then have "rd_pc t \<noteq> Round_Sending ttl q \<and> (\<exists>q. rd_pc t = Round_Sending n q) \<and> rd_answers t = rd_answers s" for q
      using Sweep_Send(3) by (auto simp: round_send_def Let_def split: prod.splits option.splits) (auto simp: next_seq_def)
    then show ?thesis using s(1) \<open>ttl < n\<close> by (auto simp: settled_def)
  next
    case (Sweep_Error n m cancelled)
    then have "n \<noteq> ttl" using s(2) [of m] by auto
    then show ?thesis
      using Sweep_Error(2) s(1) by (auto simp: settled_def round_send_error_def Let_def split: if_splits)
  next
    case (Round_Build n r)
    then have "ttl \<le> int (length (Hops r)) \<Longrightarrow> Hops r ! nat (ttl - 1) = [answered_hop ttl a]"
      using build_hop(1) [OF assms(1) Round_Build(2,3)] build_hop(5) [OF assms(1) Round_Build(2,3), of ttl] s(1) low
      by (auto split: if_splits)
    then show ?thesis using s(1) by (simp add: settled_def Round_Build(1))
  next
    case (Round_Message msg finish seq)
    have i: "fresh_ok s" "outstanding_ok s" using assms(1) by (simp_all add: round_inv_def)
    then have "en_notify s = Map.empty" by (simp add: fresh_ok_def)
    with Round_Message have "rd_pc t = rd_pc s \<and> rd_answers t ttl = Some a"
    proof (cases rule: round_message_cases)
      case (3 meta mpls)
      have "cur_map s (pm_ttl meta) = Some seq" "en_replied s seq = None"
        using i(2) 3(1) s(3) by (auto simp: outstanding_ok_def)
      then have "pm_ttl meta \<noteq> ttl" using q by auto
      then show ?thesis by (simp add: 3(5) s(1))
    qed (use s(1) in simp_all)
    then show ?thesis using s by (simp add: settled_def)
  qed (use s in \<open>auto simp: settled_def resetFinalTTL_def round_send_ok_def update_start_def round_deliver_def
      onICMP_unlocked_def signalReplyReady_def updateRoundFinalTTL_def updateKnownFinalTTLFromRound_def
      split: if_splits option.splits\<close>)
qed

lemma settled_run:
  assumes "reaches (within_round c) s t" "reaches (round_step c) round_init s" "round_cfg c" "settled c ttl a s"
  shows "settled c ttl a t \<and> reaches (round_step c) round_init t"
  using assms(1,2,4)
proof (induction rule: reaches.induct)
  case (reaches_step s t u)
  then have t: "settled c ttl a t" "reaches (round_step c) round_init t" by blast+
  have "round_step c t u" using reaches_step.hyps(2) by (simp add: within_round_def)
  then show ?case
    using settled_step [OF reach_round_inv [OF t(2) assms(3)] assms(3) t(1) reaches_step.hyps(2)]
      reaches.reaches_step [OF t(2)] by blast
qed simp

lemma peek_hop:
  assumes "peekPartialResult s = Some p" "1 \<le> ttl" "ttl \<le> int (length (Hops p))" "Hops p ! nat (ttl - 1) = [h]" "Success h"
  obtains q a where "cur_map s ttl = Some q" "en_replied s q = Some a" "h = answered_hop ttl a"
proof -
  obtain cur where cur: "en_curTtlSeq s = Some cur"
      "p = result_of (en_curBeginHop s) (roundFinalMax s (en_curEffectiveMax s)) (\<lambda>ttl.
            case cur ttl of None \<Rightarrow> [] | Some seq \<Rightarrow> (case en_replied s seq of
                None \<Rightarrow> [lost_hop ttl None] | Some reply \<Rightarrow> [answered_hop ttl reply]))"
    using assms(1) by (auto simp: peekPartialResult_def split: option.splits if_splits)
  have "ttl \<le> roundFinalMax s (en_curEffectiveMax s)" using assms(2,3) by (auto simp: cur(2) length_result_of split: if_splits)
  then have "(if ttl < en_curBeginHop s then [] else case cur ttl of None \<Rightarrow> [] | Some seq \<Rightarrow> (case en_replied s seq of
                None \<Rightarrow> [lost_hop ttl None] | Some reply \<Rightarrow> [answered_hop ttl reply])) = [h]"
    using assms(4) unfolding cur(2) by (simp add: nth_result_of assms(2))
  then show ?thesis
    using assms(5) cur(1) that by (auto simp: cur_map_def lost_hop_def split: if_splits option.splits)
qed

text \<open>A preview never shows an answer that the round then loses: while the round runs, every answered hop of a preview
  is the hop of its TTL in the result, whatever replies, timers and errors come in between, unless the probe is still being
  sent (its transmission may then fail) or the result ends before this TTL.\<close>

theorem preview_kept:
  assumes "round_cfg c" "reaches (round_step c) round_init s" "active (rd_pc s)" "\<And>q. rd_pc s \<noteq> Round_Sending ttl q"
    "peekPartialResult s = Some p" "1 \<le> ttl" "ttl \<le> int (length (Hops p))" "Hops p ! nat (ttl - 1) = [h]" "Success h"
    "reaches (within_round c) s t" "rd_pc t = Round_Result r" "ttl \<le> int (length (Hops r))"
  shows "Hops r ! nat (ttl - 1) = [h]"
proof -
  have i: "round_inv c s" by (rule reach_round_inv [OF assms(2,1)])
  have k: "rd_pc s \<noteq> Round_Maps" "rd_pc s \<noteq> Round_Rotate" "rd_pc s \<noteq> Round_Preview" "\<And>r. rd_pc s \<noteq> Round_Result r"
    using assms(3) by (auto simp: pc_kinds)
  obtain q a where q: "cur_map s ttl = Some q" "en_replied s q = Some a" "h = answered_hop ttl a"
    using peek_hop [OF assms(5-9)] .
  have "answers_ok s" using i by (simp add: round_inv_def)
  then have "rd_answers s ttl = Some a" by (simp add: answers_ok_def k(1) q)
  then have "settled c ttl a s" using assms(4) k by (simp add: settled_def)
  from settled_run [OF assms(10,2,1) this] show ?thesis using assms(11,12) by (simp add: settled_def q(3))
qed

text \<open>Between the moment a new round empties the maps and the moment it starts its own preview, which includes a
  rotation of the engine and its wait of up to five seconds for the new listener, a preview still has the TTLs of the last
  round but none of its replies: it shows every hop as lost.\<close>

theorem preview_between_rounds_lost:
  assumes "round_cfg c" "reaches (round_step c) round_init s" "rd_pc s = Round_Rotate \<or> rd_pc s = Round_Preview"
    "peekPartialResult s = Some p" "hops \<in> set (Hops p)" "h \<in> set hops"
  shows "\<not> Success h"
proof -
  have "fresh_ok s" using reach_round_inv [OF assms(2,1)] by (simp add: round_inv_def)
  then have "en_replied s = Map.empty" using assms(3) by (auto simp: fresh_ok_def)
  then show ?thesis
    using assms(4-6) by (auto simp: peekPartialResult_def result_of_def lost_hop_def split: option.splits if_splits)
qed


subsection \<open>A concrete round\<close>

definition round_config :: Config where
  "round_config = run_config\<lparr>MaxHops := 1\<rparr>"

lemma round_config_ok [simp]: "round_cfg round_config"
  by (simp add: round_cfg_def round_config_def round_beginHop_def run_config_def sample_config_def)

definition one_prepared :: round_state where
  "one_prepared = round_preview round_config (round_maps (round_begin round_config round_init)\<lparr>rd_pc := Round_Preview\<rparr>)"

definition one_waiting :: round_state where
  "one_waiting = one_prepared\<lparr>en_seqCounter := 1, en_sentAt := [1 \<mapsto> \<lparr>pm_ttl = 1, pm_start = 150, pm_roundID = 1\<rparr>],
     en_curTtlSeq := Some [1 \<mapsto> 1], rd_pc := Round_Wait\<rparr>"

definition one_reply :: mtrProbeReply where
  "one_reply = \<lparr>rp_peer = Some (IPAddr [8, 8, 8, 8] []), rp_rtt = 150, rp_mpls = []\<rparr>"

definition one_answered :: round_state where
  "one_answered = one_waiting\<lparr>en_sentAt := Map.empty, en_replied := [1 \<mapsto> one_reply],
     rd_late := [detectRoundFinalTTLCandidate round_config (Some (IPAddr [8, 8, 8, 8] [])) 1], rd_answers := [1 \<mapsto> one_reply]\<rparr>"

lemmas one_defs = round_init_def newMTRICMPEngine_def mtrICMPEngine.defs one_prepared_def round_preview_def Let_def
  round_maps_def round_begin_def resetProbeRoundMaps_def drainNotifySignal_def initProbeRoundPreview_def
  effectiveProbeRoundMax_def round_beginHop_def round_config_def run_config_def sample_config_def

lemma one_fields:
  "rd_pc one_prepared = Round_Sweep 1" "rd_round one_prepared = \<lparr>ps_beginHop = 1, ps_effectiveMax = 1, ps_roundID = 1\<rparr>"
  "en_seqCounter one_prepared = 0" "en_sentAt one_prepared = Map.empty" "en_curTtlSeq one_prepared = Some Map.empty"
  "en_spec one_prepared" "en_roundID one_prepared = 1" "en_notify one_prepared = Map.empty" "en_replied one_prepared = Map.empty"
  "rd_late one_prepared = []" "rd_answers one_prepared = Map.empty" "en_curEffectiveMax one_prepared = 1"
  "en_curBeginHop one_prepared = 1" "en_roundFinalTTL one_prepared = -1" "en_knownFinalTTL one_prepared = -1"
  by (simp_all add: one_defs)

lemma one_prepared_reachable: "reaches (round_step round_config) round_init one_prepared"
proof -
  let ?s = "round_maps (round_begin round_config round_init)"
  have 1: "round_step round_config round_init (round_begin round_config round_init)"
    by (rule round_step.Round_Begin) (simp add: round_over_def round_init_def mtrICMPEngine.defs)
  have 2: "round_step round_config (round_begin round_config round_init) ?s"
    by (rule round_step.Round_Maps) (simp add: round_begin_def)
  have w: "\<not> seqWillWrap 0 1" by (simp add: seqWillWrap_iff)
  have "round_rotate [] True round_config ?s = Inr (?s\<lparr>rd_pc := Round_Preview\<rparr>)"
    by (simp add: round_rotate_def rotateProbeEngineIfNeeded_def round_probeCount_def w one_defs)
  then have 3: "round_step round_config ?s (?s\<lparr>rd_pc := Round_Preview\<rparr>)"
    by (intro round_step.Round_Rotate [of _ "[]"]) (simp_all add: one_defs)
  have 4: "round_step round_config (?s\<lparr>rd_pc := Round_Preview\<rparr>) one_prepared"
    unfolding one_prepared_def by (rule round_step.Round_Preview) simp
  note step = reaches_step [of "round_step round_config"]
  show ?thesis by (rule step [OF step [OF step [OF step [OF reaches_refl 1] 2] 3] 4])
qed

lemma one_waiting_reachable: "reaches (round_step round_config) round_init one_waiting"
proof -
  let ?a = "one_prepared\<lparr>en_seqCounter := 1, en_sentAt := [1 \<mapsto> \<lparr>pm_ttl = 1, pm_start = 100, pm_roundID = 1\<rparr>],
      en_curTtlSeq := Some [1 \<mapsto> 1], rd_pc := Round_Sending 1 1\<rparr>"
  let ?b = "one_prepared\<lparr>en_seqCounter := 1, en_sentAt := [1 \<mapsto> \<lparr>pm_ttl = 1, pm_start = 150, pm_roundID = 1\<rparr>],
      en_curTtlSeq := Some [1 \<mapsto> 1], rd_pc := Round_Pause 1\<rparr>"
  let ?d = "?b\<lparr>rd_pc := Round_Sweep 2\<rparr>"
  have "round_send one_prepared 1 100 = Inr ?a" by (simp add: round_send_def next_seq_def one_fields)
  then have 1: "round_step round_config one_prepared ?a"
    by (intro round_step.Sweep_Send [of _ 1]) (simp_all add: one_fields)
  have "round_send_ok ?a 1 1 150 = Inr ?b" by (simp add: round_send_ok_def update_start_def one_fields)
  then have 2: "round_step round_config ?a ?b" by (intro round_step.Sweep_Sent [of _ 1 1]) simp_all
  have 3: "round_step round_config ?b ?d" using round_step.Sweep_Pause [of ?b 1 round_config False] by simp
  have 4: "round_step round_config ?d one_waiting"
    using round_step.Sweep_End [of ?d 2 round_config] by (simp add: one_fields one_waiting_def)
  note step = reaches_step [of "round_step round_config"]
  show ?thesis by (rule step [OF step [OF step [OF step [OF one_prepared_reachable 1] 2] 3] 4])
qed

lemma one_answered_step: "round_step round_config one_waiting one_answered"
proof -
  have "round_message round_config one_waiting probe_run_msg 300 1 = Inr one_answered"
    by (simp add: round_message_def onICMP_locked_def one_waiting_def one_fields discards_def validProbeRTT_def probe_timeout_def
        storeProbeReply_def probe_run_mpls closeProbeNotify_def one_answered_def)
      (simp add: round_config_def run_config_def sample_config_def probe_run_msg_def one_reply_def one_answered_def)
  then show ?thesis by (rule round_step.Round_Message)
qed


definition one_built :: round_state where
  "one_built = one_answered\<lparr>rd_pc := Round_Build 1\<rparr>"

definition one_result :: trace_result where
  "one_result = \<lparr>Hops = [[answered_hop 1 one_reply]], tailDone = [], geoWait = 0, geoCanceled = False\<rparr>"

lemma one_built_steps:
  "reaches (within_round round_config) one_answered one_built"
  "within_round round_config one_built (one_built\<lparr>rd_pc := Round_Result one_result\<rparr>)"
proof -
  let ?a = "one_answered\<lparr>rd_pc := Round_Known\<rparr>"
  let ?b = "one_answered\<lparr>rd_pc := Round_Max\<rparr>"
  have f: "en_roundFinalTTL one_answered = -1" "rd_pc one_answered = Round_Wait" "ps_effectiveMax (rd_round one_answered) = 1"
    "ps_beginHop (rd_round one_answered) = 1"
    by (simp_all add: one_answered_def one_waiting_def one_fields)
  have 1: "within_round round_config one_answered ?a"
    using round_step.Wait_End [OF f(2)] by (simp add: within_round_def)
  have "round_step round_config ?a ?b"
    using round_step.Round_Known [of ?a round_config] by (simp add: updateKnownFinalTTLFromRound_def f)
  then have 2: "within_round round_config ?a ?b" by (simp add: within_round_def)
  have "round_step round_config ?b one_built"
    using round_step.Round_Max [of ?b round_config] by (simp add: roundFinalMax_def f one_built_def)
  then have 3: "within_round round_config ?b one_built" by (simp add: within_round_def one_built_def)
  note step = reaches_step [of "within_round round_config"]
  show "reaches (within_round round_config) one_answered one_built"
    by (rule step [OF step [OF step [OF reaches_refl 1] 2] 3])
  have "buildProbeRoundResult one_built 1 1 = Inr one_result"
    by (simp add: buildProbeRoundResult_def result_of_def one_result_def probeRoundHop_def one_built_def one_answered_def
        one_waiting_def)
  then have "round_step round_config one_built (one_built\<lparr>rd_pc := Round_Result one_result\<rparr>)"
    using round_step.Round_Build [of one_built 1 one_result round_config] f(4) by (simp add: one_built_def)
  then show "within_round round_config one_built (one_built\<lparr>rd_pc := Round_Result one_result\<rparr>)"
    by (simp add: within_round_def)
qed

lemma one_answered_reachable: "reaches (round_step round_config) round_init one_answered"
  by (rule reaches_step [of "round_step round_config", OF one_waiting_reachable one_answered_step])

lemma one_answered_settled: "settled round_config 1 one_reply one_answered"
  by (simp add: settled_def one_answered_def one_waiting_def)

lemma one_built_reachable: "reaches (round_step round_config) round_init one_built"
  using settled_run [OF one_built_steps(1) one_answered_reachable round_config_ok one_answered_settled] by blast

theorem round_result_exact_witness: "Hops one_result ! 0 = [answered_hop 1 one_reply] \<and> 150 \<le> probe_timeout round_config"
proof -
  have st: "round_step round_config one_built (one_built\<lparr>rd_pc := Round_Result one_result\<rparr>)"
    using one_built_steps(2) by (simp add: within_round_def)
  have "rd_answers one_built 1 = Some one_reply" "rd_pc one_built \<noteq> Round_Result one_result"
    by (simp_all add: one_built_def one_answered_def one_waiting_def)
  moreover have "int (length (Hops one_result)) = 1" "\<not> 1 < round_beginHop round_config"
    by (simp_all add: one_result_def round_beginHop_def round_config_def run_config_def sample_config_def)
  ultimately show ?thesis
    using round_result_exact [OF round_config_ok one_built_reachable st, of one_result 1]
    by (simp add: validProbeRTT_def one_reply_def)
qed

theorem preview_kept_witness:
  "\<exists>p. peekPartialResult one_answered = Some p \<and> Hops p ! 0 = Hops one_result ! 0"
proof -
  let ?p = "\<lparr>Hops = [[answered_hop 1 one_reply]], tailDone = [], geoWait = 0, geoCanceled = False\<rparr>"
  have p: "peekPartialResult one_answered = Some ?p"
    by (simp add: peekPartialResult_def one_answered_def one_waiting_def one_fields result_of_def roundFinalMax_def)
  have a: "active (rd_pc one_answered)" "\<And>q. rd_pc one_answered \<noteq> Round_Sending 1 q"
    by (simp_all add: one_answered_def one_waiting_def)
  have h: "Hops ?p ! nat (1 - 1) = [answered_hop 1 one_reply]" "Success (answered_hop 1 one_reply)"
    "int (length (Hops ?p)) = 1" "int (length (Hops one_result)) = 1"
    by (simp_all add: answered_hop_def one_result_def)
  have "reaches (within_round round_config) one_answered (one_built\<lparr>rd_pc := Round_Result one_result\<rparr>)"
    by (rule reaches_step [of "within_round round_config", OF one_built_steps])
  from preview_kept [OF round_config_ok one_answered_reachable a p _ _ h(1,2) this, of one_result]
  show ?thesis using p h by simp
qed

text \<open>After this round, when the next one begins.\<close>

theorem preview_loses_answers:
  "\<exists>s t p. reaches (round_step round_config) round_init s \<and> rd_pc s = Round_Result one_result \<and>
     reaches (round_step round_config) s t \<and> peekPartialResult t = Some p \<and> Hops p = [[lost_hop 1 None]]"
proof -
  let ?s = "one_built\<lparr>rd_pc := Round_Result one_result\<rparr>"
  let ?t = "round_begin round_config ?s"
  have s: "reaches (round_step round_config) round_init ?s"
    using reaches_step [of "round_step round_config", OF one_built_reachable] one_built_steps(2) by (simp add: within_round_def)
  have 1: "round_step round_config ?s ?t" by (rule round_step.Round_Begin) (simp add: round_over_def)
  have 2: "round_step round_config ?t (round_maps ?t)" by (rule round_step.Round_Maps) (simp add: round_begin_def)
  have "reaches (round_step round_config) ?s (round_maps ?t)"
    by (rule reaches_step [of "round_step round_config", OF reaches_step [of "round_step round_config", OF reaches_refl 1] 2])
  moreover have "peekPartialResult (round_maps ?t) =
      Some \<lparr>Hops = [[lost_hop 1 None]], tailDone = [], geoWait = 0, geoCanceled = False\<rparr>"
    by (simp add: peekPartialResult_def round_maps_def resetProbeRoundMaps_def drainNotifySignal_def round_begin_def
        one_built_def one_answered_def one_waiting_def one_fields result_of_def roundFinalMax_def)
  moreover have "rd_pc ?s = Round_Result one_result" by simp
  moreover have "Hops \<lparr>Hops = [[lost_hop 1 None]], tailDone = [], geoWait = 0, geoCanceled = False\<rparr> = [[lost_hop 1 None]]"
    by simp
  ultimately show ?thesis using s by blast
qed

end
