(* ===== verification/Mtr_Loop.thy ===== *)
theory Mtr_Loop
  imports Mtr_Rounds_Props Mtr_Stats_Props Mtr_Scheduler_Events
begin

section \<open>The round-based MTR loop: \<open>trace/mtr_loop_runtime.go\<close>\<close>

text \<open>
  The loop asks its prober for one round after the other, adds each result to the statistics and calls
  \<open>onSnapshot\<close>; rounds that fail are retried after a delay that doubles. \<open>lp_snaps\<close> lists the calls of
  \<open>onSnapshot\<close>, and \<open>lp_results\<close>, a ghost field, the rounds counted since the last reset; \<open>lp_rounds\<close>, another one,
  counts the rounds asked for since then. The prober is a parameter: a step brings its result or its error. The prober of ICMP is
  the engine of \<open>Mtr_Rounds\<close>. \<open>fetch\<close> is what \<open>fetchIPData\<close> makes of a hop, and the cancellation of the context
  is a choice of the step, since it may happen at any time.
\<close>

record mtrBackoffCfg =
  Initial :: int
  Max_delay :: int
  MaxConsec :: int

definition defaultBackoff :: mtrBackoffCfg where
  "defaultBackoff = \<lparr>Initial = 500000000, Max_delay = 30000000000, MaxConsec = 10\<rparr>"

record loop_options =
  opt_Interval :: int
  opt_MaxRounds :: int
  opt_ProgressThrottle :: int
  opt_fillGeo :: bool
  opt_hasSnapshot :: bool
  opt_canPeek :: bool

datatype loop_error = Ctx_Error | Too_Many_Errors int string

datatype loop_pc =
    Loop_Top
  | Loop_Paused
  | Loop_Probing
  | Loop_Backoff
  | Loop_Interval
  | Loop_Returned "loop_error option"

record mtrLoopRuntime =
  lp_agg :: MTRAggregator
  lp_iteration :: int
  lp_consecutiveErrors :: int
  lp_backoff :: int
  lp_snaps :: "(int \<times> MTRHopStat list) list"
  lp_pc :: loop_pc
  lp_results :: "hop list list list"
  lp_rounds :: int

text \<open>\<open>newMTRLoopRuntime\<close>; a missing back-off configuration is the default one.\<close>

definition newMTRLoopRuntime :: "mtrBackoffCfg \<Rightarrow> MTRAggregator \<Rightarrow> mtrLoopRuntime" where
  "newMTRLoopRuntime bo ag = \<lparr>lp_agg = ag, lp_iteration = 0, lp_consecutiveErrors = 0, lp_backoff = Initial bo,
     lp_snaps = [], lp_pc = Loop_Top, lp_results = [], lp_rounds = 0\<rparr>"

definition loop_throttle :: "loop_options \<Rightarrow> int" where
  "loop_throttle o' = (if opt_ProgressThrottle o' \<le> 0 then 200000000 else opt_ProgressThrottle o')"

definition on_snapshot :: "loop_options \<Rightarrow> mtrLoopRuntime \<Rightarrow> int \<Rightarrow> MTRHopStat list \<Rightarrow> mtrLoopRuntime" where
  "on_snapshot o' rt n rows = (if opt_hasSnapshot o' then rt\<lparr>lp_snaps := lp_snaps rt @ [(n, rows)]\<rparr> else rt)"

definition emitSnapshot :: "loop_options \<Rightarrow> mtrLoopRuntime \<Rightarrow> mtrLoopRuntime" where
  "emitSnapshot o' rt = on_snapshot o' rt (lp_iteration rt) (snapshot (lp_agg rt))"

text \<open>\<open>snapshotContextError\<close> once the context has ended: every caller returns its error.\<close>

definition snapshotContextError :: "loop_options \<Rightarrow> mtrLoopRuntime \<Rightarrow> mtrLoopRuntime" where
  "snapshotContextError o' rt = (emitSnapshot o' rt)\<lparr>lp_pc := Loop_Returned (Some Ctx_Error)\<rparr>"

definition loop_handleReset :: "mtrBackoffCfg \<Rightarrow> bool \<Rightarrow> mtrLoopRuntime \<Rightarrow> mtrLoopRuntime" where
  "loop_handleReset bo requested rt =
     (if \<not> requested then rt
      else rt\<lparr>lp_agg := agg_Reset (lp_agg rt), lp_iteration := 0, lp_consecutiveErrors := 0, lp_backoff := Initial bo,
              lp_results := [], lp_rounds := 0\<rparr>)"

definition agg_Clone :: "MTRAggregator \<Rightarrow> MTRAggregator" where
  "agg_Clone ag = \<lparr>stats = map (\<lambda>(ttl, accMap). (ttl, map (\<lambda>(key, acc). (key, acc)) accMap)) (stats ag),
     nextOrder = nextOrder ag\<rparr>"

text \<open>A tick of the preview ticker; \<open>partial\<close> is what \<open>peekPartialResult\<close> returned.\<close>

definition emitPreview :: "loop_options \<Rightarrow> hop list list option \<Rightarrow> mtrLoopRuntime \<Rightarrow> mtrLoopRuntime" where
  "emitPreview o' partial rt =
     (case partial of
        None \<Rightarrow> rt
      | Some hops \<Rightarrow> let preview = agg_Clone (lp_agg rt) in
          on_snapshot o' rt (lp_iteration rt + 1) (snapshot (agg_Update preview hops)))"

definition recordSuccess :: "(hop \<Rightarrow> hop) \<Rightarrow> mtrBackoffCfg \<Rightarrow> loop_options \<Rightarrow> Config \<Rightarrow> hop list list \<Rightarrow> mtrLoopRuntime \<Rightarrow> mtrLoopRuntime" where
  "recordSuccess fetch bo o' cfg hops rt =
     (let hops = (if opt_fillGeo o' then mtrFillGeoRDNS fetch cfg hops else hops);
          rt = rt\<lparr>lp_consecutiveErrors := 0, lp_backoff := Initial bo, lp_iteration := lp_iteration rt + 1\<rparr>;
          rt = rt\<lparr>lp_agg := agg_Update (lp_agg rt) hops, lp_results := lp_results rt @ [hops]\<rparr>
      in on_snapshot o' rt (lp_iteration rt) (snapshot (lp_agg rt)))"

text \<open>What follows a round that succeeded: the loop ends or waits.\<close>

definition after_success :: "loop_options \<Rightarrow> mtrLoopRuntime \<Rightarrow> mtrLoopRuntime" where
  "after_success o' rt =
     (if 0 < opt_MaxRounds o' \<and> opt_MaxRounds o' \<le> lp_iteration rt then rt\<lparr>lp_pc := Loop_Returned None\<rparr>
      else if opt_Interval o' \<le> 0 then rt\<lparr>lp_pc := Loop_Top\<rparr>
      else rt\<lparr>lp_pc := Loop_Interval\<rparr>)"

text \<open>\<open>handleProbeError\<close> up to its wait, and what follows the wait.\<close>

definition handleProbeError :: "mtrBackoffCfg \<Rightarrow> loop_options \<Rightarrow> bool \<Rightarrow> string \<Rightarrow> mtrLoopRuntime \<Rightarrow> mtrLoopRuntime" where
  "handleProbeError bo o' ctx_ended err rt =
     (if ctx_ended then snapshotContextError o' rt
      else
        let rt = rt\<lparr>lp_consecutiveErrors := lp_consecutiveErrors rt + 1\<rparr> in
        if lp_consecutiveErrors rt \<ge> MaxConsec bo
        then rt\<lparr>lp_pc := Loop_Returned (Some (Too_Many_Errors (lp_consecutiveErrors rt) err))\<rparr>
        else rt\<lparr>lp_pc := Loop_Backoff\<rparr>)"

definition backoff_over :: "mtrBackoffCfg \<Rightarrow> mtrLoopRuntime \<Rightarrow> mtrLoopRuntime" where
  "backoff_over bo rt =
     (let rt = rt\<lparr>lp_backoff := lp_backoff rt * 2\<rparr>;
          rt = (if lp_backoff rt > Max_delay bo then rt\<lparr>lp_backoff := Max_delay bo\<rparr> else rt)
      in rt\<lparr>lp_pc := Loop_Top\<rparr>)"

text \<open>\<open>run\<close>, for a prober whose results are \<open>good\<close>. A round that ends when the context has ended is an error when
  previews are on.\<close>

inductive loop_step ::
    "(hop list list \<Rightarrow> bool) \<Rightarrow> (hop \<Rightarrow> hop) \<Rightarrow> mtrBackoffCfg \<Rightarrow> loop_options \<Rightarrow> Config \<Rightarrow> mtrLoopRuntime \<Rightarrow> mtrLoopRuntime \<Rightarrow> bool"
  for good fetch bo o' cfg where
  Loop_Ended: "lp_pc rt \<in> {Loop_Top, Loop_Paused, Loop_Backoff, Loop_Interval} \<Longrightarrow>
    loop_step good fetch bo o' cfg rt (snapshotContextError o' rt)"
| Loop_Begin: "lp_pc rt = Loop_Top \<Longrightarrow>
    loop_step good fetch bo o' cfg rt ((loop_handleReset bo requested rt)\<lparr>lp_pc := Loop_Paused\<rparr>)"
| Loop_Go: "lp_pc rt = Loop_Paused \<Longrightarrow>
    loop_step good fetch bo o' cfg rt (rt\<lparr>lp_pc := Loop_Probing, lp_rounds := lp_rounds rt + 1\<rparr>)"
| Loop_Preview: "lp_pc rt = Loop_Probing \<Longrightarrow> opt_hasSnapshot o' \<Longrightarrow> opt_canPeek o' \<Longrightarrow>
    loop_step good fetch bo o' cfg rt (emitPreview o' partial rt)"
| Loop_Success: "lp_pc rt = Loop_Probing \<Longrightarrow> good hops \<Longrightarrow>
    loop_step good fetch bo o' cfg rt (after_success o' (recordSuccess fetch bo o' cfg hops rt))"
| Loop_Failure: "lp_pc rt = Loop_Probing \<Longrightarrow>
    loop_step good fetch bo o' cfg rt (handleProbeError bo o' ctx_ended err rt)"
| Loop_Again: "lp_pc rt = Loop_Backoff \<Longrightarrow> loop_step good fetch bo o' cfg rt (backoff_over bo rt)"
| Loop_Next: "lp_pc rt = Loop_Interval \<Longrightarrow> loop_step good fetch bo o' cfg rt (rt\<lparr>lp_pc := Loop_Top\<rparr>)"


subsection \<open>Errors and delays\<close>

definition backoff_ok :: "mtrBackoffCfg \<Rightarrow> bool" where
  "backoff_ok bo \<longleftrightarrow> 0 \<le> Initial bo \<and> Initial bo \<le> Max_delay bo \<and> 1 \<le> MaxConsec bo"

definition delay_after :: "mtrBackoffCfg \<Rightarrow> int \<Rightarrow> int" where
  "delay_after bo n = min (Max_delay bo) (Initial bo * 2 ^ nat n)"

lemma delay_double:
  assumes "backoff_ok bo" "0 \<le> n"
  shows "min (Max_delay bo) (delay_after bo n * 2) = delay_after bo (n + 1)"
proof -
  have "nat (n + 1) = Suc (nat n)" using assms(2) by simp
  then show ?thesis using assms(1) by (auto simp: delay_after_def backoff_ok_def)
qed

definition errors_ok :: "mtrBackoffCfg \<Rightarrow> mtrLoopRuntime \<Rightarrow> bool" where
  "errors_ok bo rt \<longleftrightarrow> 0 \<le> lp_consecutiveErrors rt \<and>
     ((\<forall>n err. lp_pc rt \<noteq> Loop_Returned (Some (Too_Many_Errors n err))) \<longrightarrow> lp_consecutiveErrors rt < MaxConsec bo) \<and>
     (lp_pc rt = Loop_Backoff \<longrightarrow> 1 \<le> lp_consecutiveErrors rt \<and> lp_backoff rt = delay_after bo (lp_consecutiveErrors rt - 1)) \<and>
     ((\<forall>e. lp_pc rt \<noteq> Loop_Returned e) \<longrightarrow> lp_pc rt \<noteq> Loop_Backoff \<longrightarrow> lp_backoff rt = delay_after bo (lp_consecutiveErrors rt)) \<and>
     (lp_pc rt = Loop_Returned None \<longrightarrow> lp_consecutiveErrors rt = 0) \<and>
     (\<forall>n err. lp_pc rt = Loop_Returned (Some (Too_Many_Errors n err)) \<longrightarrow>
        n = MaxConsec bo \<and> lp_consecutiveErrors rt = MaxConsec bo)"

definition rounds_ok :: "mtrBackoffCfg \<Rightarrow> loop_options \<Rightarrow> mtrLoopRuntime \<Rightarrow> bool" where
  "rounds_ok bo o' rt \<longleftrightarrow> 0 \<le> lp_iteration rt \<and>
     lp_rounds rt \<le> lp_iteration rt * MaxConsec bo + lp_consecutiveErrors rt + of_bool (lp_pc rt = Loop_Probing \<or> lp_pc rt = Loop_Returned (Some Ctx_Error)) \<and>
     (0 < opt_MaxRounds o' \<longrightarrow> lp_iteration rt \<le> opt_MaxRounds o' \<and>
        (lp_pc rt \<noteq> Loop_Returned None \<longrightarrow> lp_iteration rt < opt_MaxRounds o') \<and>
        (lp_pc rt = Loop_Returned None \<longrightarrow> lp_iteration rt = opt_MaxRounds o')) \<and>
     (lp_pc rt = Loop_Returned None \<longrightarrow> 0 < opt_MaxRounds o')"

lemmas loop_defs = newMTRLoopRuntime_def on_snapshot_def emitSnapshot_def snapshotContextError_def loop_handleReset_def
  emitPreview_def recordSuccess_def after_success_def handleProbeError_def backoff_over_def Let_def

lemma success_fields:
  fixes rt :: mtrLoopRuntime and fetch bo o' cfg hops
  defines "t \<equiv> after_success o' (recordSuccess fetch bo o' cfg hops rt)"
  defines "filled \<equiv> (if opt_fillGeo o' then mtrFillGeoRDNS fetch cfg hops else hops)"
  shows "lp_iteration t = lp_iteration rt + 1" "lp_consecutiveErrors t = 0" "lp_backoff t = Initial bo"
    "lp_agg t = agg_Update (lp_agg rt) filled" "lp_results t = lp_results rt @ [filled]" "lp_rounds t = lp_rounds rt"
    "lp_pc t = (if 0 < opt_MaxRounds o' \<and> opt_MaxRounds o' \<le> lp_iteration rt + 1 then Loop_Returned None
       else if opt_Interval o' \<le> 0 then Loop_Top else Loop_Interval)"
    "lp_snaps t = (if opt_hasSnapshot o' then lp_snaps rt @ [(lp_iteration t, snapshot (lp_agg t))] else lp_snaps rt)"
  by (simp_all add: t_def filled_def after_success_def recordSuccess_def on_snapshot_def Let_def)

lemma delay_zero: "backoff_ok bo \<Longrightarrow> delay_after bo 0 = Initial bo"
  by (simp add: delay_after_def backoff_ok_def)

lemma errors_step:
  assumes "backoff_ok bo" "errors_ok bo rt" "loop_step good fetch bo o' cfg rt rt'"
  shows "errors_ok bo rt'"
  using assms(3)
proof (cases rule: loop_step.cases)
  case Loop_Ended
  then show ?thesis using assms(2) by (auto simp: errors_ok_def loop_defs)
next
  case (Loop_Begin requested)
  then show ?thesis using assms(1,2) delay_zero [OF assms(1)] by (auto simp: errors_ok_def loop_defs backoff_ok_def)
next
  case (Loop_Success hops)
  then show ?thesis using assms(1) delay_zero [OF assms(1)] by (auto simp: errors_ok_def success_fields backoff_ok_def)
next
  case Loop_Again
  have "backoff_over bo rt = rt\<lparr>lp_backoff := min (Max_delay bo) (lp_backoff rt * 2), lp_pc := Loop_Top\<rparr>"
    by (simp add: backoff_over_def Let_def)
  then show ?thesis
    using Loop_Again assms(1,2) delay_double [OF assms(1), of "lp_consecutiveErrors rt - 1"] by (auto simp: errors_ok_def)
next
  case (Loop_Preview partial)
  then show ?thesis using assms(2) by (cases partial) (auto simp: errors_ok_def loop_defs)
qed (use assms(1,2) in \<open>auto simp: errors_ok_def loop_defs backoff_ok_def\<close>)

lemma rounds_step:
  assumes "backoff_ok bo" "errors_ok bo rt" "rounds_ok bo o' rt" "loop_step good fetch bo o' cfg rt rt'"
  shows "rounds_ok bo o' rt'"
  using assms(4)
proof (cases rule: loop_step.cases)
  case (Loop_Success hops)
  have "lp_rounds rt \<le> (lp_iteration rt + 1) * MaxConsec bo"
    using assms(2,3) Loop_Success(2) by (simp add: rounds_ok_def errors_ok_def algebra_simps)
  then show ?thesis using Loop_Success assms(3) by (auto simp: rounds_ok_def success_fields)
next
  case (Loop_Preview partial)
  then show ?thesis using assms(3) by (cases partial) (auto simp: rounds_ok_def loop_defs)
next
  case Loop_Ended
  then show ?thesis using assms(3) by (cases "opt_hasSnapshot o'") (auto simp: rounds_ok_def loop_defs)
next
  case (Loop_Failure ctx_ended err)
  then show ?thesis using assms(3) by (cases "opt_hasSnapshot o'") (auto simp: rounds_ok_def loop_defs)
qed (use assms(1,3) in \<open>auto simp: rounds_ok_def loop_defs backoff_ok_def\<close>)

definition loop_ok :: "mtrBackoffCfg \<Rightarrow> loop_options \<Rightarrow> mtrLoopRuntime \<Rightarrow> bool" where
  "loop_ok bo o' rt \<longleftrightarrow> errors_ok bo rt \<and> rounds_ok bo o' rt"

interpretation mtr_loop: step_invariant "loop_step good fetch bo o' cfg" "\<lambda>rt. backoff_ok bo \<longrightarrow> loop_ok bo o' rt"
  for good fetch bo o' cfg
  by unfold_locales (auto simp: loop_ok_def intro: errors_step rounds_step)

lemma loop_ok_init: "backoff_ok bo \<Longrightarrow> loop_ok bo o' (newMTRLoopRuntime bo ag)"
  by (auto simp: loop_ok_def errors_ok_def rounds_ok_def newMTRLoopRuntime_def delay_zero backoff_ok_def)

lemma reach_loop_ok:
  "reaches (loop_step good fetch bo o' cfg) (newMTRLoopRuntime bo ag) rt \<Longrightarrow> backoff_ok bo \<Longrightarrow> loop_ok bo o' rt"
  using mtr_loop.reachable_inv loop_ok_init by blast

text \<open>C13. The retries of the MTR loop are bounded and spaced: after the n-th failed round in a row it waits
  \<open>Initial * 2^(n-1)\<close>, at most \<open>Max\<close>; it gives up exactly when \<open>MaxConsec\<close> rounds have failed in a row, and with a
  limit on the rounds it asks the prober at most \<open>MaxRounds * MaxConsec\<close> times between two resets.\<close>

theorem loop_retries:
  assumes "reaches (loop_step good fetch bo o' cfg) (newMTRLoopRuntime bo ag) rt" "backoff_ok bo"
  shows "(if lp_pc rt = Loop_Backoff
          then lp_backoff rt = min (Max_delay bo) (Initial bo * 2 ^ nat (lp_consecutiveErrors rt - 1)) else True) \<and>
    (case lp_pc rt of Loop_Returned (Some (Too_Many_Errors n err)) \<Rightarrow> n = MaxConsec bo
       | _ \<Rightarrow> lp_consecutiveErrors rt < MaxConsec bo) \<and>
    (if 0 < opt_MaxRounds o' then lp_rounds rt \<le> opt_MaxRounds o' * MaxConsec bo else lp_pc rt \<noteq> Loop_Returned None)"
proof -
  have e: "errors_ok bo rt" and r: "rounds_ok bo o' rt" using reach_loop_ok [OF assms] by (simp_all add: loop_ok_def)
  have mc: "1 \<le> MaxConsec bo" using assms(2) by (simp add: backoff_ok_def)
  have "lp_rounds rt \<le> opt_MaxRounds o' * MaxConsec bo" if m: "0 < opt_MaxRounds o'"
  proof (cases "lp_pc rt = Loop_Returned None")
    case True
    then have "lp_iteration rt = opt_MaxRounds o'" "lp_rounds rt \<le> lp_iteration rt * MaxConsec bo + lp_consecutiveErrors rt"
      using r m by (auto simp: rounds_ok_def)
    moreover have "lp_consecutiveErrors rt = 0" using e True by (simp add: errors_ok_def)
    ultimately show ?thesis by simp
  next
    case False
    have i: "lp_iteration rt \<le> opt_MaxRounds o' - 1" using r m False by (simp add: rounds_ok_def)
    have "lp_rounds rt \<le> lp_iteration rt * MaxConsec bo + MaxConsec bo"
    proof (cases "\<exists>n err. lp_pc rt = Loop_Returned (Some (Too_Many_Errors n err))")
      case True
      then show ?thesis using r e by (auto simp: rounds_ok_def errors_ok_def)
    next
      case False
      then have "lp_consecutiveErrors rt < MaxConsec bo" using e by (auto simp: errors_ok_def)
      then show ?thesis using r by (auto simp: rounds_ok_def of_bool_def split: if_splits)
    qed
    also have "\<dots> \<le> (opt_MaxRounds o' - 1) * MaxConsec bo + MaxConsec bo"
      using i mc by (simp add: mult_right_mono)
    finally have "lp_rounds rt \<le> (opt_MaxRounds o' - 1) * MaxConsec bo + MaxConsec bo" .
    then show ?thesis by (simp add: algebra_simps)
  qed
  moreover have "lp_pc rt = Loop_Backoff \<Longrightarrow> lp_backoff rt = delay_after bo (lp_consecutiveErrors rt - 1)"
    using e by (simp add: errors_ok_def)
  moreover have "case lp_pc rt of Loop_Returned (Some (Too_Many_Errors n err)) \<Rightarrow> n = MaxConsec bo
       | _ \<Rightarrow> lp_consecutiveErrors rt < MaxConsec bo"
    using e by (auto simp: errors_ok_def split: loop_pc.split option.split loop_error.split)
  moreover have "\<not> 0 < opt_MaxRounds o' \<Longrightarrow> lp_pc rt \<noteq> Loop_Returned None" using r by (auto simp: rounds_ok_def)
  ultimately show ?thesis by (simp add: delay_after_def)
qed


subsection \<open>What the loop shows\<close>

text \<open>The statistics are those of the rounds counted since the last reset, and the last snapshot of a run that ends
  without an error of its own shows exactly them.\<close>

definition shown_ok :: "loop_options \<Rightarrow> mtrLoopRuntime \<Rightarrow> bool" where
  "shown_ok o' rt \<longleftrightarrow> lp_iteration rt = int (length (lp_results rt)) \<and>
     lp_agg rt = fold (\<lambda>hops ag. agg_Update ag hops) (lp_results rt) NewMTRAggregator \<and>
     (lp_pc rt \<in> {Loop_Returned None, Loop_Returned (Some Ctx_Error)} \<and> opt_hasSnapshot o' \<longrightarrow>
        lp_snaps rt \<noteq> [] \<and> last (lp_snaps rt) = (lp_iteration rt, snapshot (lp_agg rt)))"

lemma clone_same [simp]: "agg_Clone ag = ag"
  by (simp add: agg_Clone_def)

lemma shown_step:
  assumes "shown_ok o' rt" "loop_step good fetch bo o' cfg rt rt'"
  shows "shown_ok o' rt'"
  using assms(2)
proof (cases rule: loop_step.cases)
  case (Loop_Preview partial)
  then show ?thesis using assms(1) by (cases partial) (auto simp: shown_ok_def loop_defs)
next
  case (Loop_Begin requested)
  then show ?thesis using assms(1) by (auto simp: shown_ok_def loop_defs agg_Reset_def NewMTRAggregator_def)
next
  case (Loop_Success hops)
  then show ?thesis using assms(1) by (auto simp: shown_ok_def success_fields)
qed (use assms(1) in \<open>auto simp: shown_ok_def loop_defs\<close>)

interpretation mtr_shown: step_invariant "loop_step good fetch bo o' cfg" "shown_ok o'" for good fetch bo o' cfg
  by unfold_locales (rule shown_step)

lemma reach_shown_ok:
  "reaches (loop_step good fetch bo o' cfg) (newMTRLoopRuntime bo NewMTRAggregator) rt \<Longrightarrow> shown_ok o' rt"
  by (erule mtr_shown.reachable_inv) (simp add: shown_ok_def newMTRLoopRuntime_def)

subsection \<open>The rounds of the ICMP engine\<close>

text \<open>The results that the engine can give to the loop.\<close>

definition engine_result :: "Config \<Rightarrow> hop list list \<Rightarrow> bool" where
  "engine_result c hops \<longleftrightarrow> (\<exists>s t r. reaches (round_step c) round_init s \<and> round_step c s t \<and>
     rd_pc t = Round_Result r \<and> rd_pc s \<noteq> Round_Result r \<and> hops = Hops r)"

text \<open>A slot per TTL, with one hop from the first TTL on.\<close>

definition round_shaped :: "Config \<Rightarrow> hop list list \<Rightarrow> bool" where
  "round_shaped c hops \<longleftrightarrow> round_beginHop c \<le> int (length hops) \<and> hops_ok hops \<and>
     (\<forall>k<length hops. length (hops ! k) = (if int k + 1 < round_beginHop c then 0 else 1))"

lemma engine_result_shaped:
  assumes "round_cfg c" "probe_timeout c < 2 ^ 63" "engine_result c hops"
  shows "round_shaped c hops"
proof -
  obtain s t r where s: "reaches (round_step c) round_init s" "round_step c s t" "rd_pc t = Round_Result r"
      "rd_pc s \<noteq> Round_Result r" and h: "hops = Hops r"
    using assms(3) by (auto simp: engine_result_def)
  have i: "round_inv c s" by (rule reach_round_inv [OF s(1) assms(1)])
  obtain n where n: "rd_pc s = Round_Build n" "buildProbeRoundResult s (ps_beginHop (rd_round s)) n = Inr r"
    using build_step [OF s(2-4)] .
  note b = build_hop [OF i n]
  have rtt: "hop_ok (answered_hop ttl a)" if "rd_answers s ttl = Some a" for ttl a
  proof -
    have "validProbeRTT c (rp_rtt a)"
      using i that by (auto simp: round_inv_def answers_ok_def n(1) rtt_ok_def bind_eq_Some_conv)
    then show ?thesis using assms(2) by (simp add: hop_ok_def answered_hop_def validProbeRTT_def)
  qed
  have slot: "hops ! k = (if int k + 1 < round_beginHop c then []
      else [case rd_answers s (int k + 1) of None \<Rightarrow> lost_hop (int k + 1) (Some HopTimeout)
            | Some a \<Rightarrow> answered_hop (int k + 1) a])" if "k < length hops" for k
  proof -
    have "int k + 1 \<le> n" using that b(1,2) unfolding h by linarith
    moreover have "nat (int k + 1 - 1) = k" by simp
    moreover have "1 \<le> int k + 1" by simp
    ultimately show ?thesis using b(5) [of "int k + 1"] by (simp only: h)
  qed
  have "hop_ok x" if m: "attempts \<in> set hops" and x: "x \<in> set attempts" for attempts x
  proof -
    obtain k where k: "k < length hops" "attempts = hops ! k" using m unfolding in_set_conv_nth by blast
    show ?thesis
      using x rtt [of "int k + 1"] unfolding k(2) slot [OF k(1)]
      by (auto simp: hop_ok_def lost_hop_def split: if_splits option.splits)
  qed
  then have "hops_ok hops" by (auto simp: hops_ok_def)
  moreover have "round_beginHop c \<le> int (length hops)" using b(1,2,4) by (simp add: h)
  moreover have "length (hops ! k) = (if int k + 1 < round_beginHop c then 0 else 1)" if "k < length hops" for k
    unfolding slot [OF that] by simp
  ultimately show ?thesis unfolding round_shaped_def by blast
qed

lemma filled_shaped:
  assumes "fetch_ok fetch" "round_shaped c hops"
  shows "round_shaped c (mtrFillGeoRDNS fetch cfg hops)"
proof -
  have "hop_ok (fetch h) = hop_ok h" "hop_ok (h\<lparr>Lang := l\<rparr>) = hop_ok h" for h l
    using fetch_ok_fields [OF assms(1), of h] by (simp_all add: hop_ok_def)
  then show ?thesis using assms(2) by (auto simp: round_shaped_def mtrFillGeoRDNS_def hops_ok_def)
qed


definition results_ok :: "(hop list list \<Rightarrow> bool) \<Rightarrow> mtrLoopRuntime \<Rightarrow> bool" where
  "results_ok P rt \<longleftrightarrow> (\<forall>hops\<in>set (lp_results rt). P hops)"

lemma results_step:
  assumes "results_ok P rt" "loop_step good fetch bo o' cfg rt rt'"
    "\<And>hops. good hops \<Longrightarrow> P (if opt_fillGeo o' then mtrFillGeoRDNS fetch cfg hops else hops)"
  shows "results_ok P rt'"
  using assms(2)
proof (cases rule: loop_step.cases)
  case (Loop_Preview partial)
  then show ?thesis using assms(1) by (cases partial) (auto simp: results_ok_def loop_defs)
next
  case (Loop_Success hops)
  then show ?thesis using assms(1) assms(3) [of hops] by (auto simp: results_ok_def success_fields)
qed (use assms(1) in \<open>auto simp: results_ok_def loop_defs\<close>)

lemma results_run:
  assumes "reaches (loop_step good fetch bo o' cfg) rt rt'" "results_ok P rt"
    "\<And>hops. good hops \<Longrightarrow> P (if opt_fillGeo o' then mtrFillGeoRDNS fetch cfg hops else hops)"
  shows "results_ok P rt'"
  using assms(1,2)
proof (induction rule: reaches.induct)
  case (reaches_step s t u)
  then have "results_ok P t" by blast
  then show ?case using reaches_step.hyps(2) assms(3) by (rule results_step)
qed

text \<open>Attempts counted for a TTL after a list of rounds.\<close>

lemma fold_sent_at:
  assumes "agg_ok ag" "\<And>hops. hops \<in> set rs \<Longrightarrow> round_shaped c hops" "1 \<le> t"
  shows "agg_ok (fold (\<lambda>hops ag. agg_Update ag hops) rs ag) \<and>
    sent_at (fold (\<lambda>hops ag. agg_Update ag hops) rs ag) t =
      sent_at ag t + int (length (filter (\<lambda>hops. round_beginHop c \<le> t \<and> t \<le> int (length hops)) rs))"
  using assms(1,2)
proof (induction rs arbitrary: ag)
  case (Cons hops rs)
  have h: "round_shaped c hops" using Cons.prems(2) by simp
  then have ok: "hops_ok hops" by (simp add: round_shaped_def)
  note a = agg_ok_Update [OF Cons.prems(1) ok]
  have len: "int (length (hops ! nat (t - 1))) = (if t < round_beginHop c then 0 else 1)" if "t \<le> int (length hops)"
  proof -
    have "nat (t - 1) < length hops" "int (nat (t - 1)) + 1 = t" using that assms(3) by linarith+
    then show ?thesis using h by (auto simp: round_shaped_def)
  qed
  have "sent_at (agg_Update ag hops) t =
      sent_at ag t + (if round_beginHop c \<le> t \<and> t \<le> int (length hops) then 1 else 0)"
    using len assms(3) by (auto simp: sent_at_Update [OF Cons.prems(1) ok])
  then show ?case using Cons.IH [OF a] Cons.prems(2) by simp
qed simp

text \<open>C12. The counters of the round-based MTR agree with its header: with the ICMP engine as prober, in every reachable
  state the first TTL counts exactly as many probes as the iteration number says, no TTL counts more and none below the
  first one counts any; and when the loop ends with its limit or because the context ended, the last snapshot handed out
  is the final one, not a preview.\<close>

theorem mtr_rounds_counted:
  assumes "round_cfg c" "probe_timeout c < 2 ^ 63" "fetch_ok fetch"
    "reaches (loop_step (engine_result c) fetch bo o' cfg) (newMTRLoopRuntime bo NewMTRAggregator) rt" "1 \<le> t"
  shows "sent_at (lp_agg rt) (round_beginHop c) = lp_iteration rt \<and> sent_at (lp_agg rt) t \<le> lp_iteration rt \<and>
    (if t < round_beginHop c then sent_at (lp_agg rt) t = 0 else True) \<and>
    (if lp_pc rt \<in> {Loop_Returned None, Loop_Returned (Some Ctx_Error)} \<and> opt_hasSnapshot o'
     then last (lp_snaps rt) = (lp_iteration rt, snapshot (lp_agg rt)) else True)"
proof -
  have s: "shown_ok o' rt" by (rule reach_shown_ok [OF assms(4)])
  have "results_ok (round_shaped c) rt"
  proof (rule results_run [OF assms(4)])
    show "results_ok (round_shaped c) (newMTRLoopRuntime bo NewMTRAggregator)"
      by (simp add: results_ok_def newMTRLoopRuntime_def)
    show "round_shaped c (if opt_fillGeo o' then mtrFillGeoRDNS fetch cfg hops else hops)" if "engine_result c hops" for hops
      using engine_result_shaped [OF assms(1,2) that] filled_shaped [OF assms(3)] by simp
  qed
  then have r: "\<And>hops. hops \<in> set (lp_results rt) \<Longrightarrow> round_shaped c hops" by (simp add: results_ok_def)
  have "agg_ok NewMTRAggregator" by (simp add: agg_ok_def NewMTRAggregator_def)
  note f = fold_sent_at [OF this r, THEN conjunct2]
  have z: "sent_at NewMTRAggregator u = 0" for u by (simp add: sent_at_def accMapForTTL_def NewMTRAggregator_def)
  have a: "lp_agg rt = fold (\<lambda>hops ag. agg_Update ag hops) (lp_results rt) NewMTRAggregator"
    "lp_iteration rt = int (length (lp_results rt))"
    using s by (simp_all add: shown_ok_def)
  have "filter (\<lambda>hops. round_beginHop c \<le> round_beginHop c \<and> round_beginHop c \<le> int (length hops)) (lp_results rt) = lp_results rt"
    using r by (auto simp: filter_id_conv round_shaped_def)
  then have "sent_at (lp_agg rt) (round_beginHop c) = lp_iteration rt"
    using f [of "lp_results rt" "round_beginHop c"] begin_pos [of c] r by (simp add: a z)
  moreover have "sent_at (lp_agg rt) t = int (length (filter (\<lambda>hops. round_beginHop c \<le> t \<and> t \<le> int (length hops)) (lp_results rt)))"
    using f [of "lp_results rt" t] assms(5) r by (simp add: a z)
  moreover have "length (filter (\<lambda>hops. round_beginHop c \<le> t \<and> t \<le> int (length hops)) (lp_results rt)) \<le> length (lp_results rt)"
    by simp
  ultimately show ?thesis using s by (auto simp: shown_ok_def a(2))
qed


subsection \<open>Concrete runs\<close>

definition once :: loop_options where
  "once = \<lparr>opt_Interval = 1000000000, opt_MaxRounds = 1, opt_ProgressThrottle = 0, opt_fillGeo = True,
     opt_hasSnapshot = True, opt_canPeek = True\<rparr>"

abbreviation loop_start :: mtrLoopRuntime where
  "loop_start \<equiv> newMTRLoopRuntime defaultBackoff NewMTRAggregator"

lemma loop_probing:
  "reaches (loop_step good fetch defaultBackoff o' cfg) loop_start (loop_start\<lparr>lp_pc := Loop_Probing, lp_rounds := 1\<rparr>)"
proof -
  have 1: "loop_step good fetch defaultBackoff o' cfg loop_start (loop_start\<lparr>lp_pc := Loop_Paused\<rparr>)"
    using loop_step.Loop_Begin [of loop_start good fetch defaultBackoff o' cfg False]
    by (simp add: newMTRLoopRuntime_def loop_handleReset_def)
  have 2: "loop_step good fetch defaultBackoff o' cfg (loop_start\<lparr>lp_pc := Loop_Paused\<rparr>)
      (loop_start\<lparr>lp_pc := Loop_Probing, lp_rounds := 1\<rparr>)"
    using loop_step.Loop_Go [of "loop_start\<lparr>lp_pc := Loop_Paused\<rparr>" good fetch defaultBackoff o' cfg]
    by (simp add: newMTRLoopRuntime_def)
  note step = reaches_step [of "loop_step good fetch defaultBackoff o' cfg"]
  show ?thesis by (rule step [OF step [OF reaches_refl 1] 2])
qed

lemma default_fields: "Initial defaultBackoff = 500000000" "Max_delay defaultBackoff = 30000000000" "MaxConsec defaultBackoff = 10"
  by (simp_all add: defaultBackoff_def)

lemma default_ok [simp]: "backoff_ok defaultBackoff"
  by (simp add: backoff_ok_def defaultBackoff_def)

text \<open>One failed round: half a second of delay.\<close>

theorem loop_retries_witness:
  "lp_backoff (handleProbeError defaultBackoff once False ''no route'' (loop_start\<lparr>lp_pc := Loop_Probing, lp_rounds := 1\<rparr>)) = 500000000"
proof -
  let ?t = "handleProbeError defaultBackoff once False ''no route'' (loop_start\<lparr>lp_pc := Loop_Probing, lp_rounds := 1\<rparr>)"
  have "loop_step (\<lambda>_. True) id defaultBackoff once round_config (loop_start\<lparr>lp_pc := Loop_Probing, lp_rounds := 1\<rparr>) ?t"
    by (rule loop_step.Loop_Failure) simp
  then have "reaches (loop_step (\<lambda>_. True) id defaultBackoff once round_config) loop_start ?t"
    by (rule reaches_step [of "loop_step (\<lambda>_. True) id defaultBackoff once round_config", OF loop_probing])
  moreover have "lp_pc ?t = Loop_Backoff" "lp_consecutiveErrors ?t = 1"
    by (simp_all add: handleProbeError_def newMTRLoopRuntime_def defaultBackoff_def)
  ultimately show ?thesis
    using loop_retries [of "\<lambda>_. True" id defaultBackoff once round_config NewMTRAggregator ?t]
    by (simp add: default_fields)
qed

theorem mtr_rounds_counted_witness:
  "\<exists>rt :: mtrLoopRuntime. lp_pc rt = Loop_Returned None \<and> sent_at (lp_agg rt) 1 = 1 \<and> last (lp_snaps rt) = (1, snapshot (lp_agg rt))"
proof -
  let ?p = "loop_start\<lparr>lp_pc := Loop_Probing, lp_rounds := 1\<rparr>"
  let ?t = "after_success once (recordSuccess id defaultBackoff once round_config (Hops one_result) ?p)"
  let ?step = "loop_step (engine_result round_config) id defaultBackoff once round_config"
  have "rd_pc one_built \<noteq> Round_Result one_result" by (simp add: one_built_def)
  then have "engine_result round_config (Hops one_result)"
    unfolding engine_result_def using one_built_reachable one_built_steps(2)
    by (intro exI [of _ one_built] exI [of _ "one_built\<lparr>rd_pc := Round_Result one_result\<rparr>"] exI [of _ one_result])
      (simp add: within_round_def)
  then have "?step ?p ?t" by (intro loop_step.Loop_Success) simp_all
  then have r: "reaches ?step loop_start ?t" by (rule reaches_step [of ?step, OF loop_probing])
  have f: "fetch_ok id" by (simp add: fetch_ok_def)
  have b: "round_beginHop round_config = 1"
    by (simp add: round_beginHop_def round_config_def run_config_def sample_config_def)
  have t: "probe_timeout round_config < 2 ^ 63"
    by (simp add: probe_timeout_def round_config_def run_config_def sample_config_def)
  have "lp_iteration ?t = 1" "lp_pc ?t = Loop_Returned None"
    by (simp_all add: recordSuccess_def after_success_def on_snapshot_def Let_def newMTRLoopRuntime_def once_def)
  moreover have "opt_hasSnapshot once" by (simp add: once_def)
  ultimately have "lp_pc ?t = Loop_Returned None \<and> sent_at (lp_agg ?t) 1 = 1 \<and> last (lp_snaps ?t) = (1, snapshot (lp_agg ?t))"
    using mtr_rounds_counted [OF round_config_ok t f r, of 1] b by simp
  then show ?thesis by blast
qed

end
