(* ===== verification/Netip.thy ===== *)
theory Netip
  imports Net_Addr
begin

section \<open>Parsing addresses: \<open>netip.ParseAddr\<close> and \<open>net.ParseIP\<close> of Go's library\<close>

text \<open>
  The grammar of addresses that the program's text tools rely on. \<open>Addr4\<close> and \<open>Addr6\<close> are the two valid kinds of a
  \<open>netip.Addr\<close>; an IPv6 address has a zone, empty for none. An error is \<open>None\<close>.
\<close>

datatype netip = Addr4 ip | Addr6 ip string

definition is_digit :: "char \<Rightarrow> bool" where
  "is_digit c \<longleftrightarrow> (let n = of_char c :: nat in 48 \<le> n \<and> n \<le> 57)"

definition is_xdigit :: "char \<Rightarrow> bool" where
  "is_xdigit c \<longleftrightarrow> (let n = of_char c :: nat in (48 \<le> n \<and> n \<le> 57) \<or> (97 \<le> n \<and> n \<le> 102) \<or> (65 \<le> n \<and> n \<le> 70))"

definition xdigit_value :: "char \<Rightarrow> nat" where
  "xdigit_value c = (let n = of_char c :: nat in if n \<le> 57 then n - 48 else if 97 \<le> n then n - 87 else n - 55)"

definition digits_value :: "nat \<Rightarrow> string \<Rightarrow> nat" where
  "digits_value b s = fold (\<lambda>c n. n * b + xdigit_value c) s 0"

text \<open>A field of a dotted address: one to three digits without a leading zero, at most 255.\<close>

definition parse_octet :: "string \<Rightarrow> byte option" where
  "parse_octet s =
     (if s \<noteq> [] \<and> list_all is_digit s \<and> (hd s = CHR ''0'' \<longrightarrow> length s = 1) \<and> digits_value 10 s \<le> 255
      then Some (word_of_nat (digits_value 10 s)) else None)"

definition parseIPv4 :: "string \<Rightarrow> ip option" where
  "parseIPv4 s =
     (case map parse_octet (split_on (CHR ''.'') s) of
        [Some a, Some b, Some c, Some d] \<Rightarrow> Some [a, b, c, d]
      | _ \<Rightarrow> None)"

text \<open>The loop of \<open>parseIPv6\<close> over the groups: what one iteration makes of the rest of the text, the bytes so far and
  the position of the ellipsis.\<close>

datatype v6_next = V6_Error | V6_Done ip "nat option" string | V6_More string ip "nat option"

definition v6_colon :: "string \<Rightarrow> ip \<Rightarrow> nat option \<Rightarrow> v6_next" where
  "v6_colon s p e =
     (if hd s = CHR '':'' then
        (if e \<noteq> None then V6_Error
         else if tl s = [] then V6_Done p (Some (length p)) []
         else V6_More (tl s) p (Some (length p)))
      else V6_More s p e)"

definition v6_group :: "string \<Rightarrow> ip \<Rightarrow> nat option \<Rightarrow> v6_next" where
  "v6_group s p e =
     (let ds = takeWhile is_xdigit s; off = length ds in
      if off = 0 \<or> 4 < off then V6_Error
      else if off < length s \<and> s ! off = CHR ''.'' then
        (if e = None \<and> length p \<noteq> 12 \<or> 16 < length p + 4 then V6_Error
         else case parseIPv4 s of None \<Rightarrow> V6_Error | Some v \<Rightarrow> V6_Done (p @ v) e [])
      else
        let p = p @ enc16 (digits_value 16 ds); s = drop off s in
        if s = [] then V6_Done p e []
        else if hd s \<noteq> CHR '':'' \<or> length s = 1 then V6_Error
        else v6_colon (tl s) p e)"

lemma v6_group_shorter: "v6_group s p e = V6_More s' p' e' \<Longrightarrow> length s' < length s"
proof -
  assume a: "v6_group s p e = V6_More s' p' e'"
  let ?off = "length (takeWhile is_xdigit s)"
  have "s \<noteq> []" using a by (auto simp: v6_group_def Let_def)
  moreover have "length s' \<le> length (tl (drop ?off s))"
    using a by (auto simp: v6_group_def v6_colon_def Let_def split: if_splits option.splits)
  moreover have "0 < ?off" using a by (auto simp: v6_group_def Let_def split: if_splits)
  ultimately show ?thesis by (cases s) auto
qed

function v6_loop :: "string \<Rightarrow> ip \<Rightarrow> nat option \<Rightarrow> (ip \<times> nat option \<times> string) option" where
  "v6_loop s p e =
     (case (if 16 \<le> length p then V6_Done p e s else v6_group s p e) of
        V6_Error \<Rightarrow> None
      | V6_Done p e s \<Rightarrow> Some (p, e, s)
      | V6_More s p e \<Rightarrow> v6_loop s p e)"
  by auto
termination
  by (relation "measure (\<lambda>(s, p, e). length s)") (auto split: if_splits intro: v6_group_shorter)

declare v6_loop.simps [simp del]

definition v6_close :: "ip \<times> nat option \<times> string \<Rightarrow> ip option" where
  "v6_close r =
     (case r of (p, e, rest) \<Rightarrow>
        if rest \<noteq> [] then None
        else case e of
          None \<Rightarrow> if length p < 16 then None else Some p
        | Some k \<Rightarrow> if length p < 16 then Some (take k p @ replicate (16 - length p) 0 @ drop k p) else None)"

definition parseIPv6 :: "string \<Rightarrow> netip option" where
  "parseIPv6 s =
     (let i = IndexByte s (CHR ''%'');
          zone = (case i of None \<Rightarrow> [] | Some i \<Rightarrow> drop (i + 1) s);
          t = (case i of None \<Rightarrow> s | Some i \<Rightarrow> take i s)
      in if i \<noteq> None \<and> zone = [] then None
         else if HasPrefix t ''::'' then
           (if length t = 2 then Some (Addr6 (replicate 16 0) zone)
            else map_option (\<lambda>p. Addr6 p zone) (Option.bind (v6_loop (drop 2 t) [] (Some 0)) v6_close))
         else map_option (\<lambda>p. Addr6 p zone) (Option.bind (v6_loop t [] None) v6_close))"

definition ParseAddr :: "string \<Rightarrow> netip option" where
  "ParseAddr s =
     (case find (\<lambda>c. c = CHR ''.'' \<or> c = CHR '':'' \<or> c = CHR ''%'') s of
        None \<Rightarrow> None
      | Some c \<Rightarrow> if c = CHR ''.'' then map_option Addr4 (parseIPv4 s)
                  else if c = CHR '':'' then parseIPv6 s else None)"

fun Is4 :: "netip \<Rightarrow> bool" where
  "Is4 (Addr4 p) = True"
| "Is4 (Addr6 p z) = False"

fun Zone :: "netip \<Rightarrow> string" where
  "Zone (Addr4 p) = []"
| "Zone (Addr6 p z) = z"

text \<open>\<open>addr.WithZone("").String()\<close>\<close>

fun unzoned_string :: "netip \<Rightarrow> string" where
  "unzoned_string (Addr4 p) = dotted p"
| "unzoned_string (Addr6 p z) = (if take 12 p = v4InV6Prefix then ''::ffff:'' @ dotted (drop 12 p) else v6_string p)"

definition ParseIP :: "string \<Rightarrow> ip" where
  "ParseIP s =
     (case ParseAddr s of
        None \<Rightarrow> []
      | Some (Addr4 p) \<Rightarrow> v4InV6Prefix @ p
      | Some (Addr6 p z) \<Rightarrow> if z = [] then p else [])"

subsection \<open>Printed IPv4 addresses are read back\<close>

lemma xdigit_digit_char [simp]: "d < 16 \<Longrightarrow> xdigit_value (digit_char d) = d"
  by (auto simp: xdigit_value_def digit_char_def Let_def)

lemma digits_value_snoc: "digits_value b (s @ [c]) = digits_value b s * b + xdigit_value c"
  by (simp add: digits_value_def)

lemma digits_value_base: "2 \<le> b \<Longrightarrow> b \<le> 16 \<Longrightarrow> digits_value b (base_digits b n) = n"
proof (induction b n rule: base_digits.induct)
  case (1 b n)
  have "n mod b < 16" using 1(2,3) mod_less_divisor [of b n] by linarith
  then show ?case
    using 1 by (subst base_digits.simps) (auto simp: digits_value_snoc, auto simp: digits_value_def)
qed

lemma base_digits_hd: "2 \<le> b \<Longrightarrow> 0 < n \<Longrightarrow> b \<le> 10 \<Longrightarrow> hd (base_digits b n) \<noteq> CHR ''0''"
proof (induction b n rule: base_digits.induct)
  case (1 b n)
  have c: "hd (base_digits b m) = hd (base_digits b m @ [x])" for m x
    by (subst (1 2) base_digits.simps) auto
  show ?case
  proof (cases "b < 2 \<or> n < b")
    case True
    then have "xdigit_value (digit_char n) = n" using 1(2,4) by simp
    then have "digit_char n \<noteq> CHR ''0''" using 1(3) by (auto simp: xdigit_value_def)
    then show ?thesis using True 1(2) by (subst base_digits.simps) auto
  next
    case False
    then have "0 < n div b" by (simp add: div_greater_zero_iff)
    then have "hd (base_digits b (n div b)) \<noteq> CHR ''0''" using 1 False by blast
    then show ?thesis using False c by (subst base_digits.simps) simp
  qed
qed

lemma digit_char_digit [simp]: "d < 10 \<Longrightarrow> is_digit (digit_char d)"
  by (simp add: is_digit_def digit_char_def)

lemma nat_dec_digits: "list_all is_digit (nat_dec n)"
  unfolding nat_dec_def
proof (induction "10 :: nat" n rule: base_digits.induct)
  case (1 n)
  then show ?case by (subst base_digits.simps) auto
qed

lemma octet_read: "parse_octet (nat_dec (unat b)) = Some (b :: byte)"
proof -
  have v: "digits_value 10 (nat_dec (unat b)) = unat b" by (simp add: nat_dec_def digits_value_base)
  have n: "nat_dec (unat b) \<noteq> []" unfolding nat_dec_def by (subst base_digits.simps) simp
  have "hd (nat_dec (unat b)) = CHR ''0'' \<Longrightarrow> length (nat_dec (unat b)) = 1"
    using base_digits_hd [of 10 "unat b"] by (cases "unat b = 0") (auto simp: nat_dec_def base_digits.simps [of 10 0])
  then show ?thesis by (simp add: parse_octet_def v n nat_dec_digits)
qed

lemma digit_not_dot: "list_all is_digit s \<Longrightarrow> CHR ''.'' \<notin> set s"
  by (auto simp: list_all_iff is_digit_def)

lemma parse_dotted:
  assumes "length p = 4"
  shows "ParseAddr (dotted p) = Some (Addr4 p)"
proof -
  obtain a b c d where p: "p = [a, b, c, d]" using assms by (auto simp: numeral_eq_Suc length_Suc_conv)
  let ?f = "\<lambda>b :: byte. nat_dec (unat b)"
  have no: "CHR ''.'' \<notin> set (?f x)" for x using digit_not_dot nat_dec_digits by blast
  have s: "split_on (CHR ''.'') (dotted p) = map ?f p"
    unfolding dotted_def by (rule split_on_join) (use no in \<open>auto simp: p\<close>)
  have v: "parseIPv4 (dotted p) = Some p" unfolding parseIPv4_def s by (simp add: p octet_read)
  have "find (\<lambda>c. c = CHR ''.'' \<or> c = CHR '':'' \<or> c = CHR ''%'') (xs @ CHR ''.'' # ys) = Some (CHR ''.'')"
    if "list_all is_digit xs" for xs ys
    using that by (induction xs) (auto simp: is_digit_def)
  then have "find (\<lambda>c. c = CHR ''.'' \<or> c = CHR '':'' \<or> c = CHR ''%'') (dotted p) = Some (CHR ''.'')"
    using nat_dec_digits by (simp add: dotted_def p)
  then show ?thesis by (simp add: ParseAddr_def v)
qed

end
