(* ===== verification/Nali.thy ===== *)
theory Nali
  imports Netip Geo_Filter Geo_Lookup
begin

section \<open>Annotating addresses in text: \<open>internal/nali/nali.go\<close>\<close>

text \<open>
  The nali mode copies its input line by line and writes the geo data of every IP address in a line behind the address.
  \<open>FindIPSpans\<close> scans a line from left to right for the longest texts that may be an address; \<open>AnnotateLine\<close> copies
  the line with the labels inserted; the labels come from the filter of reserved ranges, a cache, or the geo source.
  The cache is bounded: a ring of the last 4096 addresses. A read outside of the line is \<open>Panic\<close>. The mutex makes
  each operation of the cache atomic, and \<open>Run\<close> annotates one line after the other.
\<close>

datatype Family = FamilyAll | Family4 | Family6

definition maxCacheEntries :: nat where "maxCacheEntries = 4096"

record nali_config =
  nc_Source :: "geo_source option"
  nc_Timeout :: int
  nc_Lang :: string
  nc_Family :: Family

record Span =
  sp_Start :: nat
  sp_End :: nat
  sp_InsertEnd :: nat
  sp_Text :: string
  sp_LookupIP :: string
  sp_Family :: Family

record Annotator =
  an_cfg :: nali_config
  an_cache :: "string \<rightharpoonup> string"
  an_ring :: "string list"
  an_next :: nat
  an_calls :: nat

definition New :: "nali_config \<Rightarrow> Annotator" where
  "New cfg = \<lparr>an_cfg = (if nc_Timeout cfg \<le> 0 then cfg\<lparr>nc_Timeout := 1000000000\<rparr> else cfg), an_cache = Map.empty,
     an_ring = [], an_next = 0, an_calls = 0\<rparr>"

subsection \<open>Scanning a line\<close>

definition isHexByte :: "char \<Rightarrow> bool" where
  "isHexByte c \<longleftrightarrow> (let n = of_char c :: nat in (48 \<le> n \<and> n \<le> 57) \<or> (97 \<le> n \<and> n \<le> 102) \<or> (65 \<le> n \<and> n \<le> 70))"

definition isWordByte :: "char \<Rightarrow> bool" where
  "isWordByte c \<longleftrightarrow> (let n = of_char c :: nat in
     (48 \<le> n \<and> n \<le> 57) \<or> (97 \<le> n \<and> n \<le> 122) \<or> (65 \<le> n \<and> n \<le> 90) \<or> n = 95 \<or> n = 45)"

definition isZoneByte :: "char \<Rightarrow> bool" where
  "isZoneByte c \<longleftrightarrow> (let n = of_char c :: nat in
     (48 \<le> n \<and> n \<le> 57) \<or> (97 \<le> n \<and> n \<le> 122) \<or> (65 \<le> n \<and> n \<le> 90) \<or> n = 95 \<or> n = 45)"

definition isIPStart :: "char \<Rightarrow> bool" where
  "isIPStart c \<longleftrightarrow> isHexByte c \<or> c = CHR '':''"

definition isIPLeftBoundary :: "string \<Rightarrow> nat \<Rightarrow> bool" where
  "isIPLeftBoundary s start \<longleftrightarrow> (if start = 0 then True else \<not> isWordByte (s ! (start - 1)))"

text \<open>\<open>scanCandidateEnd\<close>, by the rest of the text.\<close>

fun candidate_length :: "string \<Rightarrow> nat" where
  "candidate_length [] = 0"
| "candidate_length (c # s) =
     (if isHexByte c \<or> c = CHR ''.'' \<or> c = CHR '':'' then Suc (candidate_length s)
      else if c = CHR ''%'' then Suc (length (takeWhile isZoneByte s))
      else 0)"

definition scanCandidateEnd :: "string \<Rightarrow> nat \<Rightarrow> nat" where
  "scanCandidateEnd s start = start + candidate_length (drop start s)"

text \<open>\<open>strconv.Atoi\<close> succeeds.\<close>

definition atoi_ok :: "string \<Rightarrow> bool" where
  "atoi_ok s \<longleftrightarrow>
     (let neg = (s \<noteq> [] \<and> hd s = CHR ''-'');
          ds = (if s \<noteq> [] \<and> (hd s = CHR ''-'' \<or> hd s = CHR ''+'') then tl s else s)
      in ds \<noteq> [] \<and> list_all is_digit ds \<and> digits_value 10 ds < (if neg then 2 ^ 63 + 1 else 2 ^ 63))"

definition splitIPv4Port :: "string \<Rightarrow> string option" where
  "splitIPv4Port token =
     (case LastIndexByte token (CHR '':'') of
        None \<Rightarrow> None
      | Some idx \<Rightarrow>
          if idx = 0 \<or> idx = length token - 1 then None
          else if \<not> atoi_ok (drop (idx + 1) token) then None
          else case ParseAddr (take idx token) of
                 None \<Rightarrow> None
               | Some addr \<Rightarrow> if Is4 addr then Some (take idx token) else None)"

definition parseAddr :: "string \<Rightarrow> nat \<Rightarrow> nat \<Rightarrow> Span option" where
  "parseAddr raw start stop =
     (case ParseAddr raw of
        None \<Rightarrow> None
      | Some addr \<Rightarrow> Some \<lparr>sp_Start = start, sp_End = stop, sp_InsertEnd = stop, sp_Text = raw,
          sp_LookupIP = (if Zone addr \<noteq> [] then unzoned_string addr else raw),
          sp_Family = (if Is4 addr then Family4 else Family6)\<rparr>)"

function parseCandidate :: "string \<Rightarrow> nat \<Rightarrow> Span option" where
  "parseCandidate token base =
     (if token = [] then None
      else if TrimRight token ''.'' \<noteq> token then parseCandidate (TrimRight token ''.'') base
      else if CHR ''.'' \<notin> set token \<and> CHR '':'' \<notin> set token then None
      else if HasPrefix token '':'' \<and> \<not> HasPrefix token ''::'' then parseCandidate (drop 1 token) (base + 1)
      else case splitIPv4Port token of
             Some host \<Rightarrow> parseAddr host base (base + length host)
           | None \<Rightarrow> parseAddr token base (base + length token))"
  by auto

lemma TrimRight_prefix: "\<exists>n. TrimRight s cs = take n s"
proof -
  obtain p where "rev s = p @ dropWhile (\<lambda>c. c \<in> set cs) (rev s)" by (metis takeWhile_dropWhile_id)
  then have "s = TrimRight s cs @ rev p" unfolding TrimRight_def by (metis rev_append rev_rev_ident)
  then show ?thesis by (metis append_eq_conv_conj)
qed

lemma TrimRight_shorter: "TrimRight s cs \<noteq> s \<Longrightarrow> length (TrimRight s cs) < length s"
proof -
  assume d: "TrimRight s cs \<noteq> s"
  obtain n where n: "TrimRight s cs = take n s" using TrimRight_prefix by blast
  then have "n < length s" using d by (cases "n < length s") auto
  then show ?thesis by (simp add: n)
qed

termination parseCandidate
  by (relation "measure (\<lambda>(token, base). length token)") (auto intro: TrimRight_shorter)

declare parseCandidate.simps [simp del]

definition insertionEnd :: "string \<Rightarrow> Span \<Rightarrow> nat" where
  "insertionEnd line sp =
     (if 0 < sp_Start sp \<and> line ! (sp_Start sp - 1) = CHR ''['' \<and> sp_End sp < length line \<and>
         line ! sp_End sp = CHR '']''
      then sp_End sp + 1 else sp_End sp)"

text \<open>One turn of the loop of \<open>FindIPSpans\<close> at position \<open>i\<close>: a sp, and where the loop goes on.\<close>

definition scan_at :: "string \<Rightarrow> nat \<Rightarrow> Span option \<times> nat" where
  "scan_at line i =
     (if \<not> isIPStart (line ! i) \<or> \<not> isIPLeftBoundary line i then (None, i + 1)
      else
        let stop = scanCandidateEnd line i in
        if stop \<le> i then (None, i + 1)
        else
          let candidate = take (stop - i) (drop i line) in
          case parseCandidate candidate i of
            None \<Rightarrow> (None, if HasPrefix candidate ''::'' then stop else i + 1)
          | Some sp \<Rightarrow>
              let sp = sp\<lparr>sp_InsertEnd := insertionEnd line sp\<rparr>
              in (Some sp, if sp_InsertEnd sp > stop then sp_InsertEnd sp else stop))"

lemma scan_at_progress: "i < snd (scan_at line i)"
  by (auto simp: scan_at_def Let_def split: option.splits)

function find_spans :: "string \<Rightarrow> nat \<Rightarrow> Span list" where
  "find_spans line i =
     (if length line \<le> i then []
      else case scan_at line i of
             (None, j) \<Rightarrow> find_spans line j
           | (Some sp, j) \<Rightarrow> sp # find_spans line j)"
  by auto
termination
proof (relation "measure (\<lambda>(line, i). length line - i)")
  fix line :: string and i j :: nat and x sp
  assume "\<not> length line \<le> i" "(x, j) = scan_at line i"
  then have "i < j" using scan_at_progress [of i line] by (metis snd_conv)
  then show "((line, j), (line, i)) \<in> measure (\<lambda>(line, i). length line - i)" using \<open>\<not> length line \<le> i\<close> by simp
next
  fix line :: string and i j :: nat and x sp
  assume "\<not> length line \<le> i" "(x, j) = scan_at line i"
  then have "i < j" using scan_at_progress [of i line] by (metis snd_conv)
  then show "((line, j), (line, i)) \<in> measure (\<lambda>(line, i). length line - i)" using \<open>\<not> length line \<le> i\<close> by simp
qed simp

declare find_spans.simps [simp del]

definition FindIPSpans :: "string \<Rightarrow> Span list" where
  "FindIPSpans line = find_spans line 0"


subsection \<open>Labels\<close>

definition localized :: "string \<Rightarrow> string \<Rightarrow> string \<Rightarrow> string" where
  "localized cn en lang =
     (let cn = TrimSpace cn; en = TrimSpace en in
      if EqualFold lang ''en'' then (if en \<noteq> [] then en else cn)
      else if cn \<noteq> [] then cn else en)"

definition normalizeASN :: "string \<Rightarrow> string" where
  "normalizeASN asn0 =
     (let asn = TrimSpace asn0;
          asn = (if 2 \<le> length asn \<and> EqualFold (take 2 asn) ''as'' then TrimSpace (drop 2 asn) else asn)
      in ''AS'' @ asn)"

definition appendUnique :: "string \<Rightarrow> string list \<Rightarrow> string list" where
  "appendUnique v fs =
     (let v = TrimSpace v in if v = [] then fs else if v \<in> set fs then fs else fs @ [v])"

definition FormatGeo :: "geo_data option \<Rightarrow> string \<Rightarrow> string" where
  "FormatGeo data lang =
     (case data of
        None \<Rightarrow> []
      | Some g \<Rightarrow>
          let asn = TrimSpace (Asnumber g); whois = TrimSpace (Whois g);
              country = localized (Country g) (CountryEn g) lang; prov = localized (Prov g) (ProvEn g) lang;
              city = localized (City g) (CityEn g) lang; district = TrimSpace (District g);
              owner = (let o1 = TrimSpace (Owner g) in if o1 = [] then TrimSpace (Isp g) else o1)
          in if asn = [] \<and> country = [] \<and> prov = [] \<and> city = [] \<and> district = [] \<and> owner = [] then whois
             else
               let fs = (if asn \<noteq> [] then [normalizeASN asn] else []);
                   fs = fold appendUnique [country, prov, city, district, owner] fs
               in if fs = [] then whois else join '', '' fs)"

definition familyAllowed :: "Annotator \<Rightarrow> Family \<Rightarrow> bool" where
  "familyAllowed a f \<longleftrightarrow> nc_Family (an_cfg a) = FamilyAll \<or> nc_Family (an_cfg a) = f"

text \<open>The cache: a new address takes a place of the ring, once it is full that of the oldest one.\<close>

definition storeLabel :: "Annotator \<Rightarrow> string \<Rightarrow> string \<Rightarrow> Annotator" where
  "storeLabel a ip label =
     (if an_cache a ip \<noteq> None then a\<lparr>an_cache := (an_cache a)(ip \<mapsto> label)\<rparr>
      else
        let a = (if length (an_ring a) < maxCacheEntries then a\<lparr>an_ring := an_ring a @ [ip]\<rparr>
                 else a\<lparr>an_cache := (an_cache a)(an_ring a ! an_next a := None),
                        an_ring := (an_ring a)[an_next a := ip],
                        an_next := (an_next a + 1) mod maxCacheEntries\<rparr>)
        in a\<lparr>an_cache := (an_cache a)(ip \<mapsto> label)\<rparr>)"

text \<open>\<open>lookupLabel\<close>; \<open>live\<close> tells whether the context has not ended. The calls of the source are counted.\<close>

definition lookupLabel :: "bool \<Rightarrow> Annotator \<Rightarrow> string \<Rightarrow> string \<times> Annotator" where
  "lookupLabel live a ip =
     (if ip = [] then ([], a)
      else case an_cache a ip of
        Some label \<Rightarrow> (label, a)
      | None \<Rightarrow>
          let r = (case Filter ParseIP ip of
                Some geo \<Rightarrow> (FormatGeo (Some geo) (nc_Lang (an_cfg a)), True, a)
              | None \<Rightarrow>
                  (case nc_Source (an_cfg a) of
                     None \<Rightarrow> ([], False, a)
                   | Some src \<Rightarrow>
                       if \<not> live then ([], False, a)
                       else case src (an_calls a) ip (nc_Timeout (an_cfg a)) (nc_Lang (an_cfg a)) False of
                              Inl e \<Rightarrow> ([], False, a\<lparr>an_calls := an_calls a + 1\<rparr>)
                            | Inr geo \<Rightarrow> (FormatGeo geo (nc_Lang (an_cfg a)), True, a\<lparr>an_calls := an_calls a + 1\<rparr>)))
          in case r of (label, shouldCache, a) \<Rightarrow>
               if shouldCache \<and> label \<noteq> [] then (label, storeLabel a ip label) else (label, a))"

subsection \<open>Annotating a line\<close>

fun annotate_spans :: "(nat \<Rightarrow> bool) \<Rightarrow> string \<Rightarrow> Span list \<Rightarrow> nat \<Rightarrow> string \<Rightarrow> nat \<Rightarrow> Annotator \<Rightarrow>
    (unit, string \<times> nat \<times> Annotator) res" where
  "annotate_spans live line [] k out cursor a = Inr (out, cursor, a)"
| "annotate_spans live line (sp # sps) k out cursor a =
     (if \<not> familyAllowed a (sp_Family sp) then annotate_spans live line sps (k + 1) out cursor a
      else case lookupLabel (live k) a (sp_LookupIP sp) of (label, a) \<Rightarrow>
        if label = [] then annotate_spans live line sps (k + 1) out cursor a
        else rbind (go_slice line cursor (sp_InsertEnd sp)) (\<lambda>piece.
          annotate_spans live line sps (k + 1) (out @ piece @ '' ['' @ label @ '']'') (sp_InsertEnd sp) a))"

definition AnnotateLine :: "(nat \<Rightarrow> bool) \<Rightarrow> string \<Rightarrow> Annotator \<Rightarrow> (unit, string \<times> Annotator) res" where
  "AnnotateLine live line a =
     (let spans = FindIPSpans line in
      if spans = [] then Inr (line, a)
      else rbind (annotate_spans live line spans 0 [] 0 a) (\<lambda>(out, cursor, a).
        if cursor = 0 then Inr (line, a)
        else rbind (go_slice line cursor (length line)) (\<lambda>piece. Inr (out @ piece, a))))"

text \<open>\<open>isExitLine\<close>, and \<open>processLine\<close> for an output that can be written: whether to stop, and what is written.\<close>

definition isExitLine :: "string \<Rightarrow> bool" where
  "isExitLine line \<longleftrightarrow> TrimSpace line = ''quit'' \<or> TrimSpace line = ''exit''"

definition processLine :: "bool \<Rightarrow> (nat \<Rightarrow> bool) \<Rightarrow> string \<Rightarrow> Annotator \<Rightarrow> (string, bool \<times> string \<times> Annotator) res" where
  "processLine ctx_ended live line a =
     (if line = [] then Inr (False, [], a)
      else if isExitLine line then Inr (True, [], a)
      else if ctx_ended then Inl (Err ''context ended'')
      else case AnnotateLine live line a of
             Inl e \<Rightarrow> Inl Panic
           | Inr (out, a) \<Rightarrow> Inr (False, out, a))"

subsection \<open>The spans of a line\<close>

text \<open>The address that a text denotes: what is looked up for it (an address with a zone is looked up without it), its family.\<close>

definition lookup_text :: "string \<Rightarrow> netip \<Rightarrow> string" where
  "lookup_text t addr = (if Zone addr \<noteq> [] then unzoned_string addr else t)"

definition family_of :: "netip \<Rightarrow> Family" where
  "family_of addr = (if Is4 addr then Family4 else Family6)"

definition address_of :: "Span \<Rightarrow> string \<Rightarrow> bool" where
  "address_of sp t \<longleftrightarrow> (\<exists>addr. ParseAddr t = Some addr \<and> sp_Family sp = family_of addr \<and> sp_LookupIP sp = lookup_text t addr)"

text \<open>Where the label of the address from \<open>b\<close> to \<open>e\<close> goes: behind it, or behind the bracket that closes the one before it.\<close>

definition insert_at :: "string \<Rightarrow> nat \<Rightarrow> nat \<Rightarrow> nat" where
  "insert_at line b e =
     (if 0 < b \<and> line ! (b - 1) = CHR ''['' \<and> e < length line \<and> line ! e = CHR '']'' then e + 1 else e)"

definition span_ok :: "string \<Rightarrow> Span \<Rightarrow> bool" where
  "span_ok line sp \<longleftrightarrow> sp_Start sp < sp_End sp \<and> sp_End sp \<le> sp_InsertEnd sp \<and> sp_InsertEnd sp \<le> length line \<and>
     sp_InsertEnd sp = insert_at line (sp_Start sp) (sp_End sp) \<and>
     sp_Text sp = take (sp_End sp - sp_Start sp) (drop (sp_Start sp) line) \<and>
     address_of sp (sp_Text sp)"

fun spans_from :: "string \<Rightarrow> nat \<Rightarrow> Span list \<Rightarrow> bool" where
  "spans_from line i [] = True"
| "spans_from line i (sp # sps) \<longleftrightarrow> i \<le> sp_Start sp \<and> span_ok line sp \<and> spans_from line (sp_InsertEnd sp) sps"

lemma spans_from_mono: "spans_from line j sps \<Longrightarrow> i \<le> j \<Longrightarrow> spans_from line i sps"
  by (cases sps) auto

lemma ParseAddr_Nil: "ParseAddr [] = None"
  by (simp add: ParseAddr_def)

lemma parseAddr_SomeD:
  assumes "parseAddr raw start stop = Some sp"
  shows "sp_Start sp = start" "sp_End sp = stop" "sp_InsertEnd sp = stop" "sp_Text sp = raw" "raw \<noteq> []"
    "address_of sp raw"
  using assms ParseAddr_Nil
  by (auto simp: parseAddr_def address_of_def family_of_def lookup_text_def split: option.splits)

lemma parseCandidate_SomeD:
  assumes "parseCandidate token base = Some sp"
  shows "base \<le> sp_Start sp \<and> sp_Start sp < sp_End sp \<and> sp_End sp \<le> base + length token \<and> sp_InsertEnd sp = sp_End sp \<and>
    sp_Text sp = take (sp_End sp - sp_Start sp) (drop (sp_Start sp - base) token) \<and>
    address_of sp (sp_Text sp)"
  using assms
proof (induction token base rule: parseCandidate.induct)
  case (1 token base)
  note r = 1(3) [unfolded parseCandidate.simps [of token base]]
  show ?case
  proof (cases "TrimRight token ''.'' \<noteq> token")
    case True
    then have ne: "token \<noteq> []" by (auto simp: TrimRight_def)
    obtain n where n: "TrimRight token ''.'' = take n token" using TrimRight_prefix by blast
    have "parseCandidate (TrimRight token ''.'') base = Some sp" using r True ne by simp
    from 1(1) [OF ne True this] show ?thesis
      unfolding n by (auto simp: take_drop min_def split: if_splits)
  next
    case False
    show ?thesis
    proof (cases "token = [] \<or> CHR ''.'' \<notin> set token \<and> CHR '':'' \<notin> set token")
      case True
      then show ?thesis using r False by (auto split: if_splits)
    next
      case ne: False
      show ?thesis
      proof (cases "HasPrefix token '':'' \<and> \<not> HasPrefix token ''::''")
        case True
        then have p: "parseCandidate (drop 1 token) (base + 1) = Some sp" using r False ne by (auto split: if_splits)
        have l: "1 \<le> length token" using ne by (cases token) auto
        have d: "drop (n - (base + 1)) (drop 1 token) = drop (n - base) token" if "base + 1 \<le> n" for n
          using that Suc_diff_Suc [of base n] by simp
        have i: "base + 1 \<le> sp_Start sp \<and> sp_Start sp < sp_End sp \<and> sp_End sp \<le> base + 1 + length (drop 1 token) \<and>
            sp_InsertEnd sp = sp_End sp \<and>
            sp_Text sp = take (sp_End sp - sp_Start sp) (drop (sp_Start sp - (base + 1)) (drop 1 token)) \<and>
            address_of sp (sp_Text sp)"
          using 1(2) [OF _ _ _ True p] False ne by blast
        then have t: "drop (sp_Start sp - (base + 1)) (drop 1 token) = drop (sp_Start sp - base) token" using d by blast
        have "sp_End sp \<le> base + 1 + length (drop 1 token)" using i by blast
        then have "sp_End sp \<le> base + length token" unfolding length_drop using l by linarith
        moreover have "base \<le> sp_Start sp" using i by linarith
        ultimately show ?thesis using i [unfolded t] by blast
      next
        case no: False
        show ?thesis
        proof (cases "splitIPv4Port token")
          case None
          then have "parseAddr token base (base + length token) = Some sp" using r False ne no by (auto split: if_splits)
          from parseAddr_SomeD [OF this] show ?thesis by simp
        next
          case (Some host)
          then obtain n where n: "host = take n token" by (auto simp: splitIPv4Port_def split: option.splits if_splits)
          have h: "take (length host) token = host" "length host \<le> length token" by (simp_all add: n min_def)
          have "parseAddr host base (base + length host) = Some sp" using r False ne no Some by (auto split: if_splits)
          note p = parseAddr_SomeD [OF this]
          have "sp_Text sp = take (sp_End sp - sp_Start sp) (drop (sp_Start sp - base) token)" using p(1,2,4) h by simp
          moreover have "base \<le> sp_Start sp" "sp_Start sp < sp_End sp" "sp_End sp \<le> base + length token"
            "sp_InsertEnd sp = sp_End sp"
            using p(1,2,3,5) h by simp_all
          moreover have "address_of sp (sp_Text sp)"
            unfolding p(4) by (rule p(6))
          ultimately show ?thesis by blast
        qed
      qed
    qed
  qed
qed


lemma candidate_length_le: "candidate_length s \<le> length s"
proof (induction s)
  case (Cons c s)
  then show ?case using length_takeWhile_le [of isZoneByte s] by simp
qed simp

lemma scan_at_span:
  assumes "scan_at line i = (Some sp, j)" "i < length line"
  shows "i \<le> sp_Start sp \<and> span_ok line sp \<and> sp_InsertEnd sp \<le> j"
proof -
  let ?stop = "scanCandidateEnd line i"
  let ?cand = "take (?stop - i) (drop i line)"
  obtain s0 where s0: "parseCandidate ?cand i = Some s0" and sp: "sp = s0\<lparr>sp_InsertEnd := insertionEnd line s0\<rparr>"
      and j: "j = (if sp_InsertEnd sp > ?stop then sp_InsertEnd sp else ?stop)"
    using assms(1) by (auto simp: scan_at_def Let_def split: if_splits option.splits)
  have stop: "i \<le> ?stop" "?stop \<le> length line"
    using candidate_length_le [of "drop i line"] assms(2) by (simp_all add: scanCandidateEnd_def)
  note p = parseCandidate_SomeD [OF s0]
  have e: "sp_End s0 \<le> ?stop" using p stop by simp
  have t: "sp_Text s0 = take (sp_End s0 - sp_Start s0) (drop (sp_Start s0) line)"
    using p e stop by (simp add: take_drop min_def)
  have "sp_End s0 \<le> insertionEnd line s0 \<and> insertionEnd line s0 \<le> length line"
    using e stop by (auto simp: insertionEnd_def)
  then show ?thesis using p t by (auto simp: sp span_ok_def j address_of_def insertionEnd_def insert_at_def)
qed

lemma spans_from_member: "spans_from line i sps \<Longrightarrow> sp \<in> set sps \<Longrightarrow> span_ok line sp"
  by (induction sps arbitrary: i) auto

lemma find_spans_from: "spans_from line i (find_spans line i)"
proof (induction line i rule: find_spans.induct)
  case (1 line i)
  show ?case
  proof (cases "length line \<le> i")
    case True
    then show ?thesis by (subst find_spans.simps) simp
  next
    case False
    obtain x j where s: "scan_at line i = (x, j)" by (cases "scan_at line i")
    have j: "i < j" using scan_at_progress [of i line] by (simp add: s)
    show ?thesis
    proof (cases x)
      case None
      then have "spans_from line j (find_spans line j)" using 1(1) [OF False] s by simp
      then have "spans_from line i (find_spans line j)" using j by (auto intro: spans_from_mono)
      then show ?thesis using False None by (subst find_spans.simps) (simp add: s)
    next
      case (Some sp)
      then have "spans_from line j (find_spans line j)" using 1(2) [OF False] s by simp
      moreover have "i \<le> sp_Start sp \<and> span_ok line sp \<and> sp_InsertEnd sp \<le> j"
        using scan_at_span [of line i sp j] s Some False by simp
      ultimately have "spans_from line i (sp # find_spans line j)" by (auto intro: spans_from_mono)
      then show ?thesis using False Some by (subst find_spans.simps) (simp add: s)
    qed
  qed
qed

subsection \<open>The cache\<close>

definition ring_ok :: "Annotator \<Rightarrow> bool" where
  "ring_ok a \<longleftrightarrow> dom (an_cache a) = set (an_ring a) \<and> distinct (an_ring a) \<and> length (an_ring a) \<le> maxCacheEntries \<and>
     an_next a < maxCacheEntries \<and> (length (an_ring a) < maxCacheEntries \<longrightarrow> an_next a = 0)"

text \<open>The abstract cache: a queue of addresses, the oldest first, and what is stored for them.\<close>

definition fifo :: "Annotator \<Rightarrow> string list" where
  "fifo a = drop (an_next a) (an_ring a) @ take (an_next a) (an_ring a)"

definition fifo_store :: "string list \<Rightarrow> string \<Rightarrow> string list" where
  "fifo_store q ip = (if ip \<in> set q then q else (if length q < maxCacheEntries then q else tl q) @ [ip])"

lemma fifo_set: "set (fifo a) = set (an_ring a)" "length (fifo a) = length (an_ring a)"
proof -
  have "set (an_ring a) = set (take (an_next a) (an_ring a)) \<union> set (drop (an_next a) (an_ring a))"
    by (metis append_take_drop_id set_append)
  then show "set (fifo a) = set (an_ring a)" by (auto simp: fifo_def)
  show "length (fifo a) = length (an_ring a)" by (simp add: fifo_def)
qed

lemma storeLabel_refines:
  assumes "ring_ok a"
  shows "ring_ok (storeLabel a ip label) \<and> fifo (storeLabel a ip label) = fifo_store (fifo a) ip \<and>
    an_cache (storeLabel a ip label) k =
      (if k = ip then Some label else if k \<in> set (fifo_store (fifo a) ip) then an_cache a k else None) \<and>
    an_cfg (storeLabel a ip label) = an_cfg a"
proof -
  let ?r = "an_ring a" and ?n = "an_next a" and ?M = maxCacheEntries
  have d: "dom (an_cache a) = set ?r" "distinct ?r" "length ?r \<le> ?M" "?n < ?M" "length ?r < ?M \<Longrightarrow> ?n = 0"
    using assms by (auto simp: ring_ok_def)
  have none: "k \<notin> set ?r \<Longrightarrow> an_cache a k = None" using d(1) by auto
  show ?thesis
  proof (cases "an_cache a ip = None")
    case False
    then have m: "ip \<in> set ?r" using d(1) by auto
    have s: "storeLabel a ip label = a\<lparr>an_cache := (an_cache a)(ip \<mapsto> label)\<rparr>" using False by (simp add: storeLabel_def)
    have "fifo (storeLabel a ip label) = fifo a" by (simp add: s fifo_def)
    moreover have "ring_ok (storeLabel a ip label)" using assms m by (auto simp: s ring_ok_def)
    moreover have "fifo_store (fifo a) ip = fifo a" using m by (simp add: fifo_store_def fifo_set)
    ultimately show ?thesis using none by (simp add: s fifo_set)
  next
    case new: True
    then have m: "ip \<notin> set ?r" using d(1) by auto
    show ?thesis
    proof (cases "length ?r < ?M")
      case True
      have n: "?n = 0" by (rule d(5) [OF True])
      have s: "storeLabel a ip label = a\<lparr>an_ring := ?r @ [ip], an_cache := (an_cache a)(ip \<mapsto> label)\<rparr>"
        using new True by (simp add: storeLabel_def Let_def)
      have "ring_ok (storeLabel a ip label)" using d m True by (auto simp: s ring_ok_def n)
      then show ?thesis using m True none by (auto simp: s fifo_def fifo_store_def n)
    next
      case False
      then have len: "length ?r = ?M" using d(3) by simp
      let ?old = "?r ! ?n"
      have s: "storeLabel a ip label = a\<lparr>an_cache := ((an_cache a)(?old := None))(ip \<mapsto> label), an_ring := ?r[?n := ip],
          an_next := (?n + 1) mod ?M\<rparr>"
        using new False by (simp add: storeLabel_def Let_def)
      have split: "?r = take ?n ?r @ ?old # drop (Suc ?n) ?r" using d(4) by (simp add: len id_take_nth_drop)
      have old: "?old \<in> set ?r" using d(4) by (simp add: len)
      have upd: "?r[?n := ip] = take ?n ?r @ ip # drop (Suc ?n) ?r" using d(4) by (simp add: len upd_conv_take_nth_drop)
      have q: "fifo a = ?old # drop (Suc ?n) ?r @ take ?n ?r"
        unfolding fifo_def using d(4) by (simp add: len Cons_nth_drop_Suc [symmetric])
      have st: "fifo_store (fifo a) ip = drop (Suc ?n) ?r @ take ?n ?r @ [ip]"
        using m len by (simp add: fifo_store_def fifo_set q [symmetric]) (simp add: q)
      have f: "fifo (storeLabel a ip label) = fifo_store (fifo a) ip"
        unfolding st using d(4) len by (cases "Suc ?n = ?M") (simp_all add: s fifo_def upd)
      have dis: "?old \<notin> set (drop (Suc ?n) ?r @ take ?n ?r)"
      proof -
        have "distinct (take ?n ?r @ ?old # drop (Suc ?n) ?r)" using d(2) split by simp
        then show ?thesis by auto
      qed
      have rest: "set ?r = insert ?old (set (drop (Suc ?n) ?r @ take ?n ?r))"
        by (subst split) auto
      have "ring_ok (storeLabel a ip label)"
      proof -
        have "set (?r[?n := ip]) = insert ip (set ?r - {?old})"
          unfolding upd using rest dis by auto
        moreover have "distinct (?r[?n := ip])" using d(2) m by (simp add: distinct_list_update)
        moreover have "dom (((an_cache a)(?old := None))(ip \<mapsto> label)) = insert ip (set ?r - {?old})" using d(1) by auto
        ultimately show ?thesis using d(4) by (simp add: s ring_ok_def len)
      qed
      moreover have "an_cache (storeLabel a ip label) k =
          (if k = ip then Some label else if k \<in> set (fifo_store (fifo a) ip) then an_cache a k else None)"
        using none rest dis unfolding st by (auto simp: s)
      ultimately show ?thesis using f by (simp add: s)
    qed
  qed
qed


text \<open>The label cache of nali refines a bounded first-in first-out queue: storing the label of a new address appends
  it, and once 4096 addresses are held drops exactly the oldest one with its label; the label of an address already held
  is replaced in place; nothing else changes, and the cache never holds a label for an address outside of the queue.\<close>

theorem label_cache_fifo:
  assumes "ring_ok a"
  shows "ring_ok (storeLabel a ip label) \<and> fifo (storeLabel a ip label) = fifo_store (fifo a) ip \<and>
    length (fifo (storeLabel a ip label)) \<le> 4096 \<and>
    an_cache (storeLabel a ip label) k =
      (if k = ip then Some label else if k \<in> set (fifo_store (fifo a) ip) then an_cache a k else None)"
proof -
  have "ring_ok (storeLabel a ip label)" using storeLabel_refines [OF assms] by blast
  then have "length (fifo (storeLabel a ip label)) \<le> 4096" by (simp add: fifo_set ring_ok_def maxCacheEntries_def)
  then show ?thesis using storeLabel_refines [OF assms, of ip label k] by blast
qed

lemma ring_ok_New [simp]: "ring_ok (New cfg)"
  by (simp add: ring_ok_def New_def maxCacheEntries_def)

subsection \<open>Annotation without a cache\<close>

text \<open>The reference: a label is computed anew each time.\<close>

definition source_label :: "nali_config \<Rightarrow> string \<Rightarrow> string" where
  "source_label cfg ip =
     (if ip = [] then []
      else case Filter ParseIP ip of
        Some geo \<Rightarrow> FormatGeo (Some geo) (nc_Lang cfg)
      | None \<Rightarrow> (case nc_Source cfg of
          None \<Rightarrow> []
        | Some src \<Rightarrow> (case src 0 ip (nc_Timeout cfg) (nc_Lang cfg) False of
            Inl e \<Rightarrow> [] | Inr geo \<Rightarrow> FormatGeo geo (nc_Lang cfg))))"

text \<open>A place is an address in a line: where it begins, where it ends, and where its label goes. The text to be written depends on the
  places only; what is looked up, and the family, are those of the text between their ends.\<close>

type_synonym place = "nat \<times> nat \<times> nat"

definition label_of :: "nali_config \<Rightarrow> string \<Rightarrow> string" where
  "label_of cfg t =
     (case ParseAddr t of
        None \<Rightarrow> []
      | Some addr \<Rightarrow> if nc_Family cfg = FamilyAll \<or> nc_Family cfg = family_of addr then source_label cfg (lookup_text t addr) else [])"

fun weave :: "nali_config \<Rightarrow> string \<Rightarrow> nat \<Rightarrow> place list \<Rightarrow> string" where
  "weave cfg line cursor [] = drop cursor line"
| "weave cfg line cursor ((b, e, q) # places) =
     (let label = label_of cfg (take (e - b) (drop b line)) in
      if label = [] then weave cfg line cursor places
      else take (q - cursor) (drop cursor line) @ '' ['' @ label @ '']'' @ weave cfg line q places)"

fun places_from :: "string \<Rightarrow> nat \<Rightarrow> place list \<Rightarrow> bool" where
  "places_from line i [] = True"
| "places_from line i ((b, e, q) # places) \<longleftrightarrow> i \<le> b \<and> b < e \<and> q \<le> length line \<and> q = insert_at line b e \<and>
     ParseAddr (take (e - b) (drop b line)) \<noteq> None \<and> places_from line q places"

definition place_of :: "Span \<Rightarrow> place" where
  "place_of sp = (sp_Start sp, sp_End sp, sp_InsertEnd sp)"

lemma places_of_spans: "spans_from line i sps \<Longrightarrow> places_from line i (map place_of sps)"
  by (induction sps arbitrary: i) (auto simp: place_of_def span_ok_def address_of_def)

definition steady_source :: "nali_config \<Rightarrow> bool" where
  "steady_source cfg \<longleftrightarrow> (case nc_Source cfg of None \<Rightarrow> True | Some src \<Rightarrow> (\<forall>n. src n = src 0))"

definition labels_ok :: "nali_config \<Rightarrow> Annotator \<Rightarrow> bool" where
  "labels_ok cfg a \<longleftrightarrow> an_cfg a = cfg \<and> ring_ok a \<and>
     (\<forall>ip label. an_cache a ip = Some label \<longrightarrow> label = source_label cfg ip)"

lemma store_labels_ok:
  assumes "labels_ok cfg a" "label = source_label cfg ip"
  shows "labels_ok cfg (storeLabel a ip label)"
  using assms storeLabel_refines [of a ip label]
  by (auto simp: labels_ok_def split: if_splits)

lemma calls_labels_ok [simp]: "labels_ok cfg (a\<lparr>an_calls := n\<rparr>) \<longleftrightarrow> labels_ok cfg a"
  by (simp add: labels_ok_def ring_ok_def)

lemma lookup_steady:
  assumes "labels_ok cfg a" "steady_source cfg"
  shows "fst (lookupLabel True a ip) = source_label cfg ip" "labels_ok cfg (snd (lookupLabel True a ip))"
proof -
  have c: "an_cfg a = cfg" using assms(1) by (simp add: labels_ok_def)
  have s: "src n = src 0" if "nc_Source cfg = Some src" for src n
    using assms(2) that by (simp add: steady_source_def)
  have "fst (lookupLabel True a ip) = source_label cfg ip \<and> labels_ok cfg (snd (lookupLabel True a ip))"
  proof (cases "ip = [] \<or> an_cache a ip \<noteq> None")
    case True
    moreover have "an_cache a ip = Some label \<Longrightarrow> label = source_label cfg ip" for label
      using assms(1) by (simp add: labels_ok_def)
    moreover have "source_label cfg [] = []" by (simp add: source_label_def)
    ultimately show ?thesis using assms(1) by (auto simp: lookupLabel_def)
  next
    case False
    show ?thesis
    proof (cases "Filter ParseIP ip")
      case (Some geo)
      then have "source_label cfg ip = FormatGeo (Some geo) (nc_Lang cfg)" using False by (simp add: source_label_def)
      then show ?thesis using False Some assms(1) by (simp add: lookupLabel_def c store_labels_ok)
    next
      case None
      show ?thesis
      proof (cases "nc_Source cfg")
        case n: None
        then show ?thesis using False None assms(1) by (simp add: lookupLabel_def source_label_def c)
      next
        case (Some src)
        let ?r = "src 0 ip (nc_Timeout cfg) (nc_Lang cfg) False"
        show ?thesis
        proof (cases ?r)
          case (Inl e)
          then show ?thesis
            using False None Some s [OF Some, of "an_calls a"] assms(1) by (simp add: lookupLabel_def source_label_def c)
        next
          case (Inr geo)
          then have "source_label cfg ip = FormatGeo geo (nc_Lang cfg)"
            using False None Some by (simp add: source_label_def)
          then show ?thesis
            using False None Some Inr s [OF Some, of "an_calls a"] assms(1)
            by (simp add: lookupLabel_def c store_labels_ok)
        qed
      qed
    qed
  qed
  then show "fst (lookupLabel True a ip) = source_label cfg ip" "labels_ok cfg (snd (lookupLabel True a ip))" by blast+
qed


lemma annotate_steady:
  assumes "labels_ok cfg a" "steady_source cfg" "spans_from line cursor sps" "cursor \<le> length line"
  shows "\<exists>out' cursor' a'. annotate_spans (\<lambda>_. True) line sps k out cursor a = Inr (out', cursor', a') \<and>
     cursor' \<le> length line \<and> out' @ drop cursor' line = out @ weave cfg line cursor (map place_of sps) \<and> labels_ok cfg a' \<and>
     (cursor' = 0 \<longrightarrow> out' = out \<and> cursor = 0)"
  using assms(1,3,4)
proof (induction sps arbitrary: k out cursor a)
  case Nil
  then show ?case by simp
next
  case (Cons sp sps)
  have c: "an_cfg a = cfg" using Cons.prems(1) by (simp add: labels_ok_def)
  let ?l = "source_label cfg (sp_LookupIP sp)" and ?t = "take (sp_End sp - sp_Start sp) (drop (sp_Start sp) line)"
  obtain a1 where lk: "lookupLabel True a (sp_LookupIP sp) = (?l, a1)" and a1: "labels_ok cfg a1"
    using lookup_steady [OF Cons.prems(1) assms(2), of "sp_LookupIP sp"] by (metis prod.collapse)
  have so: "cursor \<le> sp_Start sp" "span_ok line sp" "spans_from line (sp_InsertEnd sp) sps" using Cons.prems(2) by simp_all
  have ie: "cursor \<le> sp_InsertEnd sp" "sp_InsertEnd sp \<le> length line" "0 < sp_InsertEnd sp"
    using so(1,2) by (auto simp: span_ok_def)
  have skip: "spans_from line cursor sps" using so(3) ie(1) by (rule spans_from_mono)
  have lab: "label_of cfg ?t = (if familyAllowed a (sp_Family sp) then ?l else [])"
    using so(2) by (auto simp: span_ok_def address_of_def label_of_def familyAllowed_def c)
  show ?case
  proof (cases "familyAllowed a (sp_Family sp)")
    case False
    then show ?thesis using Cons.IH [OF Cons.prems(1) skip Cons.prems(3)] lab by (simp add: place_of_def)
  next
    case al: True
    show ?thesis
    proof (cases "?l = []")
      case True
      then show ?thesis using Cons.IH [OF a1 skip Cons.prems(3)] al lab by (simp add: place_of_def lk)
    next
      case False
      let ?piece = "take (sp_InsertEnd sp - cursor) (drop cursor line)"
      have "annotate_spans (\<lambda>_. True) line (sp # sps) k out cursor a =
          annotate_spans (\<lambda>_. True) line sps (k + 1) (out @ ?piece @ '' ['' @ ?l @ '']'') (sp_InsertEnd sp) a1"
        using al False ie by (simp add: lk)
      moreover have "weave cfg line cursor (map place_of (sp # sps)) =
          ?piece @ '' ['' @ ?l @ '']'' @ weave cfg line (sp_InsertEnd sp) (map place_of sps)"
        using al False lab by (simp add: place_of_def)
      ultimately show ?thesis
        using Cons.IH [OF a1 so(3) ie(2), of "k + 1" "out @ ?piece @ '' ['' @ ?l @ '']''"] ie(3) by auto
    qed
  qed
qed

text \<open>What nali writes contains the line it read: only labels are added.\<close>

lemma places_mono: "places_from line j ps \<Longrightarrow> i \<le> j \<Longrightarrow> places_from line i ps"
  by (cases ps) auto

lemma weave_subseq: "places_from line cursor ps \<Longrightarrow> cursor \<le> length line \<Longrightarrow> subseq (drop cursor line) (weave cfg line cursor ps)"
proof (induction ps arbitrary: cursor)
  case (Cons x ps)
  obtain b e q where x: "x = (b, e, q)" by (cases x)
  have "e \<le> q" using Cons.prems by (simp add: x insert_at_def)
  then have ie: "cursor \<le> q" "q \<le> length line" using Cons.prems by (simp_all add: x)
  have s: "places_from line q ps" using Cons.prems(1) unfolding x places_from.simps by (elim conjE)
  have "drop cursor line = take (q - cursor) (drop cursor line) @ drop q line"
    using ie by (metis append_take_drop_id drop_drop le_add_diff_inverse2)
  moreover have "subseq (drop q line) (weave cfg line q ps)"
    by (rule Cons.IH [OF s ie(2)])
  ultimately have "subseq (drop cursor line) (take (q - cursor) (drop cursor line) @
      (('' ['' @ label_of cfg (take (e - b) (drop b line)) @ '']'') @ weave cfg line q ps))"
    by (metis list_emb_append_mono list_emb_append2 subseq_order.refl)
  then show ?case
    using Cons.IH [OF places_mono [OF s ie(1)] Cons.prems(2)] by (simp add: x Let_def)
qed simp

subsection \<open>Addresses are found\<close>

definition candidate_char :: "char \<Rightarrow> bool" where
  "candidate_char c \<longleftrightarrow> isHexByte c \<or> c = CHR ''.'' \<or> c = CHR '':''"

lemma candidate_stops:
  "s \<noteq> [] \<Longrightarrow> \<not> candidate_char (last s) \<Longrightarrow> CHR ''%'' \<notin> set s \<Longrightarrow> candidate_length (s @ t) < length s"
proof (induction s)
  case (Cons c s)
  then show ?case by (cases "s = []") (auto simp: candidate_char_def)
qed simp

lemma candidate_exact:
  "list_all candidate_char s \<Longrightarrow> t = [] \<or> \<not> candidate_char (hd t) \<and> hd t \<noteq> CHR ''%'' \<Longrightarrow>
   candidate_length (s @ t) = length s"
proof (induction s)
  case Nil
  then show ?case by (cases t) (auto simp: candidate_char_def)
qed (auto simp: candidate_char_def)

lemma scan_before:
  assumes "i < length pre" "\<not> candidate_char (last pre)" "CHR ''%'' \<notin> set pre"
  shows "snd (scan_at (pre @ t) i) \<le> length pre"
proof -
  have "last (drop i pre) = last pre" "set (drop i pre) \<subseteq> set pre" "drop i pre \<noteq> []"
    using assms(1) by (auto simp: set_drop_subset)
  then have "candidate_length (drop i pre @ t) < length (drop i pre)"
    using assms(2,3) by (intro candidate_stops) auto
  then have st: "scanCandidateEnd (pre @ t) i < length pre"
    using assms(1) by (simp add: scanCandidateEnd_def)
  show ?thesis
  proof (cases "fst (scan_at (pre @ t) i)")
    case None
    then show ?thesis using assms(1) st by (auto simp: scan_at_def Let_def split: if_splits option.splits)
  next
    case (Some sp)
    let ?stop = "scanCandidateEnd (pre @ t) i"
    let ?cand = "take (?stop - i) (drop i (pre @ t))"
    obtain s0 where s0: "parseCandidate ?cand i = Some s0" and sp: "sp = s0\<lparr>sp_InsertEnd := insertionEnd (pre @ t) s0\<rparr>"
        and j: "snd (scan_at (pre @ t) i) = (if sp_InsertEnd sp > ?stop then sp_InsertEnd sp else ?stop)"
      using Some by (auto simp: scan_at_def Let_def split: if_splits option.splits)
    have "i \<le> ?stop" by (simp add: scanCandidateEnd_def)
    moreover have "length ?cand \<le> ?stop - i" by simp
    ultimately have "sp_End s0 \<le> ?stop" using parseCandidate_SomeD [OF s0] by linarith
    then show ?thesis using j st by (auto simp: sp insertionEnd_def)
  qed
qed

lemma find_reaches:
  assumes "pre = [] \<or> \<not> candidate_char (last pre)" "CHR ''%'' \<notin> set pre" "i \<le> length pre"
  shows "\<exists>sps. find_spans (pre @ t) i = sps @ find_spans (pre @ t) (length pre)"
  using assms(3)
proof (induction "pre @ t" i rule: find_spans.induct)
  case (1 i)
  show ?case
  proof (cases "i = length pre")
    case False
    then have i: "i < length pre" "\<not> length (pre @ t) \<le> i" using 1(3) by auto
    then have nl: "\<not> candidate_char (last pre)" using assms(1) by auto
    obtain x j where s: "scan_at (pre @ t) i = (x, j)" by (cases "scan_at (pre @ t) i")
    have j: "j \<le> length pre" using scan_before [OF i(1) nl assms(2), of t] by (simp add: s)
    show ?thesis
    proof (cases x)
      case None
      then obtain sps where "find_spans (pre @ t) j = sps @ find_spans (pre @ t) (length pre)"
        using 1(1) [OF i(2) _ refl j] s by auto
      then show ?thesis using i(2) None by (subst find_spans.simps) (simp add: s)
    next
      case (Some sp)
      then obtain sps where "find_spans (pre @ t) j = sps @ find_spans (pre @ t) (length pre)"
        using 1(2) [OF i(2) _ refl j] s by auto
      then have "find_spans (pre @ t) i = (sp # sps) @ find_spans (pre @ t) (length pre)"
        using i(2) Some by (subst find_spans.simps) (simp add: s)
      then show ?thesis by blast
    qed
  qed (auto intro: exI [of _ "[]"])
qed


lemma digit_kinds: "is_digit c \<Longrightarrow> candidate_char c \<and> isHexByte c \<and> c \<noteq> CHR ''.'' \<and> c \<noteq> CHR '':''"
  by (auto simp: is_digit_def candidate_char_def isHexByte_def Let_def)

lemma split_on_chars: "list_all (list_all Q) (split_on c s) \<Longrightarrow> list_all (\<lambda>x. Q x \<or> x = c) s"
  by (induction c s rule: split_on.induct) (auto split: if_splits list.splits)

lemma split_on_ends:
  "hd (split_on c s) = [] \<longleftrightarrow> s = [] \<or> hd s = c" "last (split_on c s) = [] \<longleftrightarrow> s = [] \<or> last s = c"
proof -
  show "hd (split_on c s) = [] \<longleftrightarrow> s = [] \<or> hd s = c" by (cases s) (auto split: list.splits)
  show "last (split_on c s) = [] \<longleftrightarrow> s = [] \<or> last s = c"
  proof (induction s)
    case (Cons x s)
    obtain p ps where s: "split_on c s = p # ps" by (cases "split_on c s") auto
    show ?case
    proof (cases "s = []")
      case False
      have "\<not> (ps = [] \<and> p = [])" using False s by (cases s) (auto split: if_splits list.splits)
      then show ?thesis using Cons.IH s False by (cases "ps = []") auto
    qed simp
  qed simp
qed

lemma parseIPv4_shape:
  assumes "parseIPv4 s = Some p"
  shows "list_all (\<lambda>c. is_digit c \<or> c = CHR ''.'') s" "s \<noteq> []" "hd s \<noteq> CHR ''.''" "last s \<noteq> CHR ''.''"
proof -
  let ?f = "split_on (CHR ''.'') s"
  have "list_all (\<lambda>q. parse_octet q \<noteq> None) ?f"
    using assms by (auto simp: parseIPv4_def split: list.splits option.splits)
  then have q: "list_all (\<lambda>q. q \<noteq> [] \<and> list_all is_digit q) ?f"
    by (auto simp: list_all_iff parse_octet_def split: if_splits)
  then show "list_all (\<lambda>c. is_digit c \<or> c = CHR ''.'') s" by (intro split_on_chars) (auto simp: list_all_iff)
  have "hd ?f \<noteq> []" "last ?f \<noteq> []" using q by (simp_all add: list_all_iff)
  then show "s \<noteq> []" "hd s \<noteq> CHR ''.''" "last s \<noteq> CHR ''.''" by (simp_all add: split_on_ends)
qed

definition v6_text :: "string \<Rightarrow> bool" where
  "v6_text s \<longleftrightarrow> list_all candidate_char s \<and> (s = [] \<or> last s \<noteq> CHR ''.'')"

lemma hex_kinds: "is_xdigit c \<longleftrightarrow> isHexByte c"
  by (simp add: is_xdigit_def isHexByte_def)

lemma v6_text_append: "v6_text t \<Longrightarrow> list_all candidate_char s \<Longrightarrow> s \<noteq> [] \<Longrightarrow> last s \<noteq> CHR ''.'' \<Longrightarrow> v6_text (s @ t)"
  by (cases "t = []") (auto simp: v6_text_def)

lemma digits_v6: "s \<noteq> [] \<Longrightarrow> list_all is_xdigit s \<Longrightarrow> v6_text s"
proof -
  assume s: "s \<noteq> []" "list_all is_xdigit s"
  then have "is_xdigit (last s)" by (simp add: list_all_iff)
  then have "last s \<noteq> CHR ''.''" by (auto simp: is_xdigit_def)
  then show ?thesis using s by (auto simp: v6_text_def list_all_iff hex_kinds candidate_char_def)
qed

lemma v6_group_rest:
  "v6_group s p e =
     (let ds = takeWhile is_xdigit s; p1 = p @ enc16 (digits_value 16 ds) in
      if ds = [] \<or> 4 < length ds then V6_Error
      else case drop (length ds) s of
        [] \<Rightarrow> V6_Done p1 e []
      | c # r \<Rightarrow>
          if c = CHR ''.'' then
            (if e = None \<and> length p \<noteq> 12 \<or> 16 < length p + 4 then V6_Error
             else case parseIPv4 s of None \<Rightarrow> V6_Error | Some v \<Rightarrow> V6_Done (p @ v) e [])
          else if c \<noteq> CHR '':'' \<or> r = [] then V6_Error else v6_colon r p1 e)"
proof -
  let ?n = "length (takeWhile is_xdigit s)"
  show ?thesis
  proof (cases "drop ?n s")
    case Nil
    then show ?thesis by (simp add: v6_group_def Let_def)
  next
    case (Cons c r)
    have n: "?n < length s" using Cons by (metis drop_all leI list.distinct(1))
    have "s ! ?n = c" using Cons by (simp add: nth_via_drop)
    have "length s = ?n + Suc (length r)" using arg_cong [OF Cons, of length] n(1) by simp
    then show ?thesis using Cons n \<open>s ! ?n = c\<close> by (auto simp: v6_group_def Let_def)
  qed
qed

lemma v6_group_text:
  "v6_group s p e = V6_Done p' e' [] \<Longrightarrow> v6_text s"
  "v6_group s p e = V6_More s' p' e' \<Longrightarrow> v6_text s' \<Longrightarrow> v6_text s"
proof -
  let ?ds = "takeWhile is_xdigit s"
  have ds: "list_all is_xdigit ?ds" by (auto simp: list_all_iff dest: set_takeWhileD)
  have s: "s = ?ds @ drop (length ?ds) s" by (simp flip: dropWhile_eq_drop)
  have colon: "list_all candidate_char (?ds @ '':'')" "list_all candidate_char (?ds @ ''::'')"
    using ds by (auto simp: list_all_iff hex_kinds candidate_char_def)
  { assume g: "v6_group s p e = V6_Done p' e' []"
    show "v6_text s"
    proof (cases "parseIPv4 s")
      case (Some v)
      show ?thesis using parseIPv4_shape [OF Some] digit_kinds by (auto simp: v6_text_def list_all_iff candidate_char_def)
    next
      case None
      show ?thesis
      proof (cases "drop (length ?ds) s")
        case Nil
        then have "s = ?ds" using s by simp
        moreover have "?ds \<noteq> []" using g by (auto simp: v6_group_rest Let_def)
        ultimately show ?thesis using ds digits_v6 by metis
      next
        case (Cons c r)
        have "c = CHR '':'' \<and> r = '':''"
          using g None Cons by (cases r) (auto simp: v6_group_rest v6_colon_def Let_def split: if_splits)
        then have "s = ?ds @ ''::''" using s Cons by simp
        moreover have "v6_text (?ds @ ''::'')" using colon by (simp add: v6_text_def)
        ultimately show ?thesis by metis
      qed
    qed }
  { assume g: "v6_group s p e = V6_More s' p' e'" "v6_text s'"
    obtain c r where r: "drop (length ?ds) s = c # r" using g(1) by (cases "drop (length ?ds) s") (auto simp: v6_group_rest Let_def split: if_splits)
    have "c = CHR '':'' \<and> (r = s' \<or> r = CHR '':'' # s')"
      using g(1) r by (cases r) (auto simp: v6_group_rest v6_colon_def Let_def split: if_splits option.splits)
    then have "s = (?ds @ '':'') @ s' \<or> s = (?ds @ ''::'') @ s'" using s r by auto
    moreover have "v6_text ((?ds @ '':'') @ s')" "v6_text ((?ds @ ''::'') @ s')"
      using v6_text_append [OF g(2), of "?ds @ '':''"] v6_text_append [OF g(2), of "?ds @ ''::''"] colon by simp_all
    ultimately show "v6_text s" by metis }
qed

lemma v6_loop_text: "v6_loop s p e = Some (p', e', []) \<Longrightarrow> v6_text s"
proof (induction s p e rule: v6_loop.induct)
  case (1 s p e)
  note l = 1(2) [unfolded v6_loop.simps [of s]]
  show ?case
  proof (cases "16 \<le> length p")
    case True
    then show ?thesis using l by (simp add: v6_text_def)
  next
    case False
    then show ?thesis using l 1(1) v6_group_text by (cases "v6_group s p e") auto
  qed
qed

lemma v6_close_text: "Option.bind (v6_loop s p e) v6_close = Some q \<Longrightarrow> v6_text s"
  by (auto simp: bind_eq_Some_conv v6_close_def split: if_splits prod.splits intro: v6_loop_text)

lemma parseIPv6_text:
  assumes "parseIPv6 s = Some a" "CHR ''%'' \<notin> set s"
  shows "v6_text s" "hd s = CHR '':'' \<longrightarrow> HasPrefix s ''::''"
proof -
  have i: "IndexByte s (CHR ''%'') = None" using assms(2) by (auto simp: IndexByte_def find_None_iff in_set_conv_nth)
  have d: "s = ''::'' @ drop 2 s" if "HasPrefix s ''::''" using that by (metis HasPrefix_def append_take_drop_id length_Cons list.size(3) numeral_2_eq_2)
  show "v6_text s"
  proof (cases "HasPrefix s ''::''")
    case True
    have "v6_text (drop 2 s)"
    proof (cases "length s = 2")
      case two: True
      then show ?thesis by (simp add: v6_text_def)
    next
      case False
      then show ?thesis using assms(1) True by (auto simp: parseIPv6_def i intro: v6_close_text)
    qed
    then have "v6_text (''::'' @ drop 2 s)" by (intro v6_text_append) (auto simp: candidate_char_def)
    then show ?thesis using d [OF True] by simp
  next
    case False
    then show ?thesis using assms(1) by (auto simp: parseIPv6_def i intro: v6_close_text)
  qed
  show "hd s = CHR '':'' \<longrightarrow> HasPrefix s ''::''"
  proof (intro impI, rule ccontr)
    assume h: "hd s = CHR '':''" "\<not> HasPrefix s ''::''"
    have "takeWhile is_xdigit s = []" if "s \<noteq> []" using h(1) that by (cases s) (auto simp: is_xdigit_def)
    then have "v6_group s [] None = V6_Error" by (cases "s = []") (simp_all add: v6_group_def)
    then have "v6_loop s [] None = None" by (subst v6_loop.simps) simp
    then show False using assms(1) h(2) by (simp add: parseIPv6_def i)
  qed
qed

text \<open>What \<open>ParseAddr\<close> accepts without a zone is read as a whole by the scanner.\<close>

lemma ParseAddr_kinds:
  assumes "ParseAddr s = Some a"
  shows "find (\<lambda>c. c = CHR ''.'' \<or> c = CHR '':'' \<or> c = CHR ''%'') s = Some (CHR ''.'') \<and> (\<exists>p. parseIPv4 s = Some p \<and> a = Addr4 p) \<or>
    find (\<lambda>c. c = CHR ''.'' \<or> c = CHR '':'' \<or> c = CHR ''%'') s = Some (CHR '':'') \<and> parseIPv6 s = Some a"
  using assms by (auto simp: ParseAddr_def split: option.splits if_splits)

lemma parseIPv6_kind: "parseIPv6 s = Some b \<Longrightarrow> \<not> Is4 b"
  by (auto simp: parseIPv6_def Let_def split: if_splits)

lemma find_prefix: "find P xs = Some x \<Longrightarrow> find P (xs @ ys) = Some x"
  by (induction xs) auto

lemma LastIndexByte_None: "c \<notin> set s \<Longrightarrow> LastIndexByte s c = None"
  by (auto simp: LastIndexByte_def find_None_iff in_set_conv_nth)

lemma address_text:
  assumes "ParseAddr s = Some a" "CHR ''%'' \<notin> set s"
  shows "list_all candidate_char s" "s \<noteq> []" "last s \<noteq> CHR ''.''" "isIPStart (hd s)"
    "hd s = CHR '':'' \<longrightarrow> HasPrefix s ''::''" "CHR ''.'' \<in> set s \<or> CHR '':'' \<in> set s" "splitIPv4Port s = None"
proof -
  let ?P = "\<lambda>c. c = CHR ''.'' \<or> c = CHR '':'' \<or> c = CHR ''%''"
  show ne: "s \<noteq> []" using assms(1) by (auto simp: ParseAddr_Nil)
  show "CHR ''.'' \<in> set s \<or> CHR '':'' \<in> set s"
  proof -
    obtain c where c: "find ?P s = Some c" "c = CHR ''.'' \<or> c = CHR '':''" using ParseAddr_kinds [OF assms(1)] by blast
    then have "c \<in> set s" by (metis find_Some_iff nth_mem)
    then show ?thesis using c(2) by blast
  qed
  have v4: "list_all candidate_char s \<and> last s \<noteq> CHR ''.'' \<and> isIPStart (hd s) \<and> CHR '':'' \<notin> set s \<and> hd s \<noteq> CHR '':''"
    if "parseIPv4 s = Some p" for p
  proof -
    note h = parseIPv4_shape [OF that]
    have d: "\<forall>c\<in>set s. is_digit c \<or> c = CHR ''.''" using h(1) by (simp add: list_all_iff)
    have hd: "is_digit (hd s)" using d h(2,3) by (metis hd_in_set)
    have no: "\<not> is_digit (CHR '':'')" by (simp add: is_digit_def)
    have "list_all candidate_char s" unfolding list_all_iff using d digit_kinds by (metis candidate_char_def)
    moreover have "isIPStart (hd s)" using digit_kinds [OF hd] by (simp add: isIPStart_def)
    moreover have "CHR '':'' \<notin> set s"
    proof
      assume "CHR '':'' \<in> set s"
      then have "is_digit (CHR '':'') \<or> CHR '':'' = CHR ''.''" using d by blast
      then show False using no by simp
    qed
    moreover have "hd s \<noteq> CHR '':''" using hd no by metis
    ultimately show ?thesis using h(4) by simp
  qed
  have v6: "list_all candidate_char s \<and> last s \<noteq> CHR ''.'' \<and> isIPStart (hd s) \<and> (hd s = CHR '':'' \<longrightarrow> HasPrefix s ''::'')"
    if f: "find ?P s = Some (CHR '':'')" and p: "parseIPv6 s = Some a"
  proof -
    have "hd s \<noteq> CHR ''.''" using f ne by (cases s) auto
    moreover have "candidate_char (hd s)" using parseIPv6_text(1) [OF p assms(2)] ne by (auto simp: v6_text_def list_all_iff)
    ultimately show ?thesis
      using parseIPv6_text [OF p assms(2)] ne by (auto simp: v6_text_def isIPStart_def candidate_char_def)
  qed
  show "list_all candidate_char s" "last s \<noteq> CHR ''.''" "isIPStart (hd s)" "hd s = CHR '':'' \<longrightarrow> HasPrefix s ''::''"
    using ParseAddr_kinds [OF assms(1)] v4 v6 by blast+
  show "splitIPv4Port s = None"
    using ParseAddr_kinds [OF assms(1)]
  proof (elim disjE conjE exE)
    fix p
    assume "parseIPv4 s = Some p"
    then show ?thesis using v4 LastIndexByte_None by (simp add: splitIPv4Port_def)
  next
    assume f: "find ?P s = Some (CHR '':'')"
    have "\<not> Is4 b" if "ParseAddr (take n s) = Some b" for n b
    proof -
      have "find ?P (take n s) \<noteq> Some (CHR ''.'')" using find_prefix [of ?P "take n s" _ "drop n s"] f by force
      then show ?thesis using ParseAddr_kinds [OF that] parseIPv6_kind by blast
    qed
    then show ?thesis by (auto simp: splitIPv4Port_def split: option.splits)
  qed
qed

lemma parse_address_candidate:
  assumes "ParseAddr s = Some a" "CHR ''%'' \<notin> set s"
  shows "parseCandidate s base = parseAddr s base (base + length s)"
proof -
  note t = address_text [OF assms]
  have "hd (rev s) \<noteq> CHR ''.''" using t(2,3) by (simp add: hd_rev)
  then have "TrimRight s ''.'' = s" using t(2) by (cases "rev s") (auto simp: TrimRight_def)
  moreover have "HasPrefix s '':'' \<longrightarrow> HasPrefix s ''::''" using t(2,5) by (cases s) (auto simp: HasPrefix_def)
  ultimately show ?thesis using t by (subst parseCandidate.simps) auto
qed

text \<open>An address stands clear in a line if no zone was opened before it, the character before it could not be part of an address
  or a word, and the character behind it could not be part of an address or open a zone.\<close>

definition stands_clear :: "string \<Rightarrow> string \<Rightarrow> string \<Rightarrow> bool" where
  "stands_clear pre t post \<longleftrightarrow> ParseAddr t \<noteq> None \<and> CHR ''%'' \<notin> set pre \<and> CHR ''%'' \<notin> set t \<and>
     (pre = [] \<or> \<not> candidate_char (last pre) \<and> \<not> isWordByte (last pre)) \<and>
     (post = [] \<or> \<not> candidate_char (hd post) \<and> hd post \<noteq> CHR ''%'')"

lemma finds_address:
  assumes "stands_clear pre t post"
  shows "\<exists>sp\<in>set (FindIPSpans (pre @ t @ post)). sp_Start sp = length pre \<and> sp_End sp = length pre + length t"
proof -
  let ?line = "pre @ t @ post" and ?i = "length pre"
  obtain a where a: "ParseAddr t = Some a" "CHR ''%'' \<notin> set t" using assms by (auto simp: stands_clear_def)
  have b: "CHR ''%'' \<notin> set pre" "pre = [] \<or> \<not> candidate_char (last pre)" "pre = [] \<or> \<not> isWordByte (last pre)"
    "post = [] \<or> \<not> candidate_char (hd post) \<and> hd post \<noteq> CHR ''%''"
    using assms by (auto simp: stands_clear_def)
  note t = address_text [OF a]
  have stop: "scanCandidateEnd ?line ?i = ?i + length t"
    using candidate_exact [OF t(1) b(4)] by (simp add: scanCandidateEnd_def)
  have start: "isIPStart (?line ! ?i)" using t(2,4) by (simp add: nth_append hd_conv_nth)
  have left: "isIPLeftBoundary ?line ?i" using b(3) by (auto simp: isIPLeftBoundary_def nth_append last_conv_nth)
  obtain sp j where sa: "scan_at ?line ?i = (Some sp, j)" and sp: "sp_Start sp = ?i" "sp_End sp = ?i + length t"
    using start left t(2) by (simp add: scan_at_def stop Let_def parse_address_candidate [OF a] parseAddr_def a(1))
  from find_reaches [OF b(2,1), of 0 "t @ post"]
  obtain sps where "find_spans ?line 0 = sps @ find_spans ?line ?i" by auto
  moreover have "find_spans ?line ?i = sp # find_spans ?line j"
    using t(2) by (subst find_spans.simps) (simp add: sa)
  ultimately have "sp \<in> set (FindIPSpans ?line)" by (simp add: FindIPSpans_def)
  then show ?thesis using sp by blast
qed

subsection \<open>Annotated lines\<close>

lemma annotate_reference:
  assumes "labels_ok cfg a" "steady_source cfg"
  shows "\<exists>a'. AnnotateLine (\<lambda>_. True) line a = Inr (weave cfg line 0 (map place_of (FindIPSpans line)), a') \<and> labels_ok cfg a'"
proof (cases "FindIPSpans line = []")
  case True
  then show ?thesis using assms(1) by (simp add: AnnotateLine_def)
next
  case False
  let ?w = "weave cfg line 0 (map place_of (FindIPSpans line))"
  have sp: "spans_from line 0 (FindIPSpans line)" by (simp add: FindIPSpans_def find_spans_from)
  obtain out' cursor' a' where r: "annotate_spans (\<lambda>_. True) line (FindIPSpans line) 0 [] 0 a = Inr (out', cursor', a')"
      "cursor' \<le> length line" "out' @ drop cursor' line = ?w" "labels_ok cfg a'" "cursor' = 0 \<longrightarrow> out' = []"
    using annotate_steady [OF assms sp, of 0 "[]"] by auto
  show ?thesis
  proof (cases "cursor' = 0")
    case True
    then have "?w = line" using r(3,5) by simp
    then show ?thesis using False r(1,4) True by (simp add: AnnotateLine_def Let_def)
  next
    case n: False
    have "drop cursor' line = take (length line - cursor') (drop cursor' line)" by simp
    then show ?thesis using False n r(1-4) by (simp add: AnnotateLine_def Let_def)
  qed
qed

text \<open>C25. Annotation is exact and its cache invisible. With a geo source that always gives the same answer, whatever lines
  were annotated before, \<open>AnnotateLine\<close> never reads outside of the line and writes it with labels inserted and nothing else changed,
  for a list of places that are in order and do not overlap. The text of each place is an address; its label, if it is not empty and the address
  is of the chosen family, is what the ranges or the source say of that very text (without its zone), in brackets behind the text or behind the bracket
  that closes the one before it. No address is missed: the places contain every text without a zone, IPv4 or IPv6, that \<open>ParseAddr\<close> accepts and that stands clear
  in the line.\<close>

theorem annotate_exact:
  assumes "labels_ok cfg a" "steady_source cfg"
  shows "\<exists>places a'. AnnotateLine (\<lambda>_. True) line a = Inr (weave cfg line 0 places, a') \<and> labels_ok cfg a' \<and>
    subseq line (weave cfg line 0 places) \<and> places_from line 0 places \<and>
    (\<forall>pre t post. line = pre @ t @ post \<longrightarrow> stands_clear pre t post \<longrightarrow>
       (length pre, length pre + length t, insert_at line (length pre) (length pre + length t)) \<in> set places)"
proof -
  let ?ps = "map place_of (FindIPSpans line)"
  have sp: "spans_from line 0 (FindIPSpans line)" by (simp add: FindIPSpans_def find_spans_from)
  note ps = places_of_spans [OF sp]
  have "(length pre, length pre + length t, insert_at line (length pre) (length pre + length t)) \<in> set ?ps"
    if l: "line = pre @ t @ post" "stands_clear pre t post" for pre t post
  proof -
    obtain s where s: "s \<in> set (FindIPSpans line)" "sp_Start s = length pre" "sp_End s = length pre + length t"
      using finds_address [OF l(2)] l(1) by blast
    have "sp_InsertEnd s = insert_at line (sp_Start s) (sp_End s)" using spans_from_member [OF sp s(1)] by (simp add: span_ok_def)
    then have "place_of s = (length pre, length pre + length t, insert_at line (length pre) (length pre + length t))"
      using s(2,3) by (simp add: place_of_def)
    then show ?thesis using s(1) by (metis image_eqI list.set_map)
  qed
  moreover have "subseq line (weave cfg line 0 ?ps)" using weave_subseq [OF ps] by simp
  moreover obtain a' where "AnnotateLine (\<lambda>_. True) line a = Inr (weave cfg line 0 ?ps, a')" "labels_ok cfg a'"
    using annotate_reference [OF assms] by blast
  ultimately show ?thesis using ps by (intro exI [of _ ?ps] exI [of _ a']) blast
qed

subsection \<open>Concrete lines\<close>

definition nali_sample :: nali_config where
  "nali_sample = \<lparr>nc_Source = None, nc_Timeout = 1, nc_Lang = ''en'', nc_Family = FamilyAll\<rparr>"

theorem label_cache_fifo_witness:
  "an_cache (storeLabel (New nali_sample) ''192.0.2.1'' ''RFC5737'') ''192.0.2.1'' = Some ''RFC5737'' \<and>
   fifo (storeLabel (New nali_sample) ''192.0.2.1'' ''RFC5737'') = [''192.0.2.1'']"
proof -
  have "fifo (New nali_sample) = []" by (simp add: fifo_def New_def)
  then show ?thesis
    using label_cache_fifo [OF ring_ok_New [of nali_sample], of "''192.0.2.1''" "''RFC5737''" "''192.0.2.1''"]
    by (simp add: fifo_store_def maxCacheEntries_def)
qed

theorem annotate_exact_witness:
  "\<exists>a places. AnnotateLine (\<lambda>_. True) ''a 0.0.0.1 b'' (New nali_sample) = Inr (weave nali_sample ''a 0.0.0.1 b'' 0 places, a) \<and>
     (2, 9, 9) \<in> set places"
proof -
  have "labels_ok nali_sample (New nali_sample)" by (simp add: labels_ok_def) (simp add: New_def nali_sample_def)
  moreover have "steady_source nali_sample" by (simp add: steady_source_def nali_sample_def)
  ultimately obtain places a where p: "AnnotateLine (\<lambda>_. True) ''a 0.0.0.1 b'' (New nali_sample) = Inr (weave nali_sample ''a 0.0.0.1 b'' 0 places, a)"
      "\<forall>pre t post. ''a 0.0.0.1 b'' = pre @ t @ post \<longrightarrow> stands_clear pre t post \<longrightarrow>
       (length pre, length pre + length t, insert_at ''a 0.0.0.1 b'' (length pre) (length pre + length t)) \<in> set places"
    using annotate_exact [of nali_sample "New nali_sample" "''a 0.0.0.1 b''"] by blast
  have "stands_clear ''a '' ''0.0.0.1'' '' b''" by code_simp
  then have "(length ''a '', length ''a '' + length ''0.0.0.1'', insert_at ''a 0.0.0.1 b'' (length ''a '') (length ''a '' + length ''0.0.0.1'')) \<in> set places"
    using p(2) [rule_format, of "''a ''" "''0.0.0.1''" "'' b''"] by simp
  then have "(2, 9, 9) \<in> set places" by (simp add: insert_at_def eval_nat_numeral)
  then show ?thesis using p(1) by blast
qed

end
