(* ===== verification/Mtr_Raw.thy ===== *)
theory Mtr_Raw
  imports Mtr_Scheduler_Props Icmp_Tracer_Runs
begin

section \<open>Raw MTR output: \<open>trace/mtr_raw.go\<close>\<close>

text \<open>
  The raw mode writes one record per probe, either from the round-based traces (through the callback
  that the printer of a trace calls for each TTL) or from the scheduler (through \<open>onProbe\<close>). Both
  streams are modelled here on top of the tracer and of the scheduler. \<open>fetch\<close> is what
  \<open>fetchIPData\<close> makes of a hop. Round-trip times are real numbers of milliseconds.
\<close>

subsection \<open>Records\<close>

record MTRRawRecord =
  rec_Iteration :: int
  rec_TTL :: int
  rec_Success :: bool
  rec_IP :: string
  rec_Host :: string
  rec_RTTMs :: real
  rec_ASN :: string
  rec_Country :: string
  rec_Prov :: string
  rec_City :: string
  rec_District :: string
  rec_Owner :: string
  rec_Lat :: real
  rec_Lng :: real
  rec_MPLS :: "string list"

text \<open>\<open>addrToIPString\<close>; of the dynamic types of \<open>net.Addr\<close> it knows three.\<close>

fun known_ip :: "addr \<Rightarrow> ip" where
  "known_ip (IPAddr p z) = p"
| "known_ip (UDPAddr p n z) = p"
| "known_ip (TCPAddr p n z) = p"
| "known_ip _ = []"

definition addrToIPString :: "addr \<Rightarrow> string" where
  "addrToIPString a =
     (if known_ip a \<noteq> [] then ip_string (known_ip a)
      else let s = TrimSpace (addr_String a) in
        case split_host s of Some host \<Rightarrow> Trim host ''[]'' | None \<Rightarrow> Trim s ''[]'')"

definition geoTextByLang :: "string \<Rightarrow> string \<Rightarrow> string \<Rightarrow> string" where
  "geoTextByLang lang cn en =
     (let cn = TrimSpace cn; en = TrimSpace en in
      if EqualFold lang ''en'' then (if en \<noteq> [] then en else cn) else (if cn \<noteq> [] then cn else en))"

definition applyMTRRawGeo :: "geo_data option \<Rightarrow> string \<Rightarrow> MTRRawRecord \<Rightarrow> MTRRawRecord" where
  "applyMTRRawGeo geo lang r =
     (case geo of None \<Rightarrow> r
      | Some g \<Rightarrow> r\<lparr>rec_ASN := TrimSpace (Asnumber g), rec_Country := geoTextByLang lang (Country g) (CountryEn g),
          rec_Prov := geoTextByLang lang (Prov g) (ProvEn g), rec_City := geoTextByLang lang (City g) (CityEn g),
          rec_District := TrimSpace (District g),
          rec_Owner := (if TrimSpace (Owner g) = [] then TrimSpace (Isp g) else TrimSpace (Owner g)),
          rec_Lat := Lat g, rec_Lng := Lng g\<rparr>)"

definition applyMTRRawHostname :: "string \<Rightarrow> MTRRawRecord \<Rightarrow> MTRRawRecord" where
  "applyMTRRawHostname hostname r = (if hostname \<noteq> [] then r\<lparr>rec_Host := TrimSpace hostname\<rparr> else r)"

text \<open>What both constructors take from a probe before any metadata.\<close>

definition probe_record :: "int \<Rightarrow> int \<Rightarrow> bool \<Rightarrow> addr option \<Rightarrow> int \<Rightarrow> string list \<Rightarrow> MTRRawRecord" where
  "probe_record iteration ttl success a rtt mpls =
     \<lparr>rec_Iteration = iteration, rec_TTL = ttl, rec_Success = success \<and> a \<noteq> None,
      rec_IP = (case a of None \<Rightarrow> [] | Some x \<Rightarrow> addrToIPString x), rec_Host = [],
      rec_RTTMs = (if rtt > 0 then real_of_int rtt / 1000000 else 0),
      rec_ASN = [], rec_Country = [], rec_Prov = [], rec_City = [], rec_District = [], rec_Owner = [],
      rec_Lat = 0, rec_Lng = 0, rec_MPLS = mpls\<rparr>"

definition buildMTRRawRecord :: "(hop \<Rightarrow> hop) \<Rightarrow> int \<Rightarrow> hop \<Rightarrow> Config \<Rightarrow> MTRRawRecord" where
  "buildMTRRawRecord fetch iteration h cfg =
     (let r = (probe_record iteration (TTL h) (Success h) (Address h) (RTT h) (MPLS h))\<lparr>rec_Host := TrimSpace (Hostname h)\<rparr>;
          h = (if Address h \<noteq> None \<and> (Geo h = None \<or> isPendingGeo (Geo h))
               then fetch (if Lang h = [] then h\<lparr>Lang := cfg_Lang cfg\<rparr> else h) else h)
      in applyMTRRawGeo (Geo h) (cfg_Lang cfg) r)"

definition newMTRRawRecord :: "int \<Rightarrow> mtrProbeResult \<Rightarrow> MTRRawRecord" where
  "newMTRRawRecord iteration pr =
     probe_record iteration (pr_TTL pr) (pr_Success pr) (pr_Addr pr) (pr_RTT pr) (pr_MPLS pr)"

definition address_hop :: "addr option \<Rightarrow> string \<Rightarrow> hop" where
  "address_hop a lang = \<lparr>Success = False, Address = a, Hostname = [], TTL = 0, RTT = 0, Error = None, Geo = None,
     Lang = lang, MPLS = []\<rparr>"

definition applyMTRRawProbeMetadata :: "(hop \<Rightarrow> hop) \<Rightarrow> mtrProbeResult \<Rightarrow> Config \<Rightarrow> MTRRawRecord \<Rightarrow> MTRRawRecord" where
  "applyMTRRawProbeMetadata fetch pr cfg r =
     (if pr_Geo pr \<noteq> None \<or> pr_Hostname pr \<noteq> []
      then applyMTRRawHostname (pr_Hostname pr) (applyMTRRawGeo (pr_Geo pr) (cfg_Lang cfg) r)
      else if IPGeoSource cfg = None \<and> \<not> RDNS cfg then r
      else let h = fetch (address_hop (pr_Addr pr) (cfg_Lang cfg))
           in applyMTRRawHostname (Hostname h) (applyMTRRawGeo (Geo h) (cfg_Lang cfg) r))"

definition buildMTRRawRecordFromProbe :: "(hop \<Rightarrow> hop) \<Rightarrow> int \<Rightarrow> mtrProbeResult \<Rightarrow> Config \<Rightarrow> MTRRawRecord" where
  "buildMTRRawRecordFromProbe fetch iteration pr cfg =
     (let r = newMTRRawRecord iteration pr in
      if pr_Addr pr = None then r else applyMTRRawProbeMetadata fetch pr cfg r)"

text \<open>The part of a record that metadata does not touch.\<close>

definition record_view :: "MTRRawRecord \<Rightarrow> int \<times> int \<times> bool \<times> string \<times> real \<times> string list" where
  "record_view r = (rec_Iteration r, rec_TTL r, rec_Success r, rec_IP r, rec_RTTMs r, rec_MPLS r)"

lemma record_view_apply [simp]:
  "record_view (applyMTRRawGeo g l r) = record_view r"
  "record_view (applyMTRRawHostname n r) = record_view r"
  "record_view (r\<lparr>rec_Host := n\<rparr>) = record_view r"
  by (simp_all add: record_view_def applyMTRRawGeo_def applyMTRRawHostname_def split: option.split)

lemma build_view:
  "record_view (buildMTRRawRecord fetch i h cfg) = record_view (probe_record i (TTL h) (Success h) (Address h) (RTT h) (MPLS h))"
  by (simp add: buildMTRRawRecord_def Let_def)

lemma build_probe_view:
  "record_view (buildMTRRawRecordFromProbe fetch i pr cfg) =
   record_view (probe_record i (pr_TTL pr) (pr_Success pr) (pr_Addr pr) (pr_RTT pr) (pr_MPLS pr))"
  by (simp add: buildMTRRawRecordFromProbe_def newMTRRawRecord_def applyMTRRawProbeMetadata_def Let_def)

lemma view_fields:
  "record_view r = record_view s \<Longrightarrow> rec_Iteration r = rec_Iteration s \<and> rec_TTL r = rec_TTL s \<and>
     rec_Success r = rec_Success s \<and> rec_IP r = rec_IP s \<and> rec_RTTMs r = rec_RTTMs s \<and> rec_MPLS r = rec_MPLS s"
  by (simp add: record_view_def)

subsection \<open>One round\<close>

text \<open>
  A trace with \<open>PrintFunc\<close> calling the callback of the round. The printer is a goroutine of its own:
  it sees that the next TTL is complete, waits for pending metadata, calls the callback and ends the
  trace after the last TTL. While it waits the tracer goes on. After a cancellation it may still print a TTL,
  because \<open>select\<close> may prefer the ticker. \<open>ended\<close> is the end of the caller's context; the callback writes
  nothing after it. \<open>seen\<close> maps an index of \<open>Hops\<close> to the number of hops already written.
\<close>

record raw_trace =
  rw_tracer :: icmp_state
  rw_ttl :: int
  rw_waiting :: bool
  rw_stopped :: bool
  rw_ended :: bool
  rw_seen :: "int \<Rightarrow> nat"
  rw_records :: "MTRRawRecord list"

definition raw_init :: "Config \<Rightarrow> raw_trace" where
  "raw_init c = \<lparr>rw_tracer = icmp_init c, rw_ttl = BeginHop c - 1, rw_waiting = False, rw_stopped = False,
     rw_ended = False, rw_seen = (\<lambda>_. 0), rw_records = []\<rparr>"

definition raw_callback :: "(hop \<Rightarrow> hop) \<Rightarrow> int \<Rightarrow> Config \<Rightarrow> hop list list \<Rightarrow> int \<Rightarrow> raw_trace \<Rightarrow> raw_trace" where
  "raw_callback fetch iteration cfg hops ttl s =
     (if rw_ended s then s
      else if ttl < 0 \<or> int (length hops) \<le> ttl then s
      else
        let start = rw_seen s ttl; bucket = hops ! nat ttl; stop = length bucket;
            s = s\<lparr>rw_seen := (rw_seen s)(ttl := stop)\<rparr>
        in if start \<ge> stop then s
           else s\<lparr>rw_records := rw_records s @ map (\<lambda>h. buildMTRRawRecord fetch iteration h cfg) (drop start bucket)\<rparr>)"

definition raw_advance :: "Config \<Rightarrow> raw_trace \<Rightarrow> raw_trace" where
  "raw_advance c s =
     (let s = s\<lparr>rw_ttl := rw_ttl s + 1, rw_waiting := False\<rparr> in
      if rw_ttl s = final (rw_tracer s) \<or> rw_ttl s \<ge> MaxHops c
      then s\<lparr>rw_tracer := (rw_tracer s)\<lparr>finished := True\<rparr>, rw_stopped := True\<rparr> else s)"

inductive raw_step :: "int \<Rightarrow> Config \<Rightarrow> raw_trace \<Rightarrow> raw_trace \<Rightarrow> bool" for it :: int and c :: Config where
  Raw_Tracer: "icmp_step c (rw_tracer s) t \<Longrightarrow> printed t = printed (rw_tracer s) \<Longrightarrow> raw_step it c s (s\<lparr>rw_tracer := t\<rparr>)"
| Raw_Wait: "\<not> rw_stopped s \<Longrightarrow> \<not> rw_waiting s \<Longrightarrow> ttlComp c (rw_tracer s) (rw_ttl s + 1) \<Longrightarrow>
    raw_step it c s (s\<lparr>rw_waiting := True\<rparr>)"
| Raw_Print: "\<not> rw_stopped s \<Longrightarrow> rw_waiting s \<Longrightarrow>
    raw_step it c s (raw_advance c (raw_callback fetch it c (Hops (res (rw_tracer s))) (rw_ttl s) s))"
| Raw_Return: "finished (rw_tracer s) \<Longrightarrow> \<not> rw_waiting s \<Longrightarrow> raw_step it c s (s\<lparr>rw_stopped := True\<rparr>)"
| Raw_End: "raw_step it c s (s\<lparr>rw_ended := True\<rparr>)"


subsection \<open>Buckets only grow\<close>

abbreviation view_ttl :: "bool \<times> addr option \<times> int \<times> 'a \<Rightarrow> int" where
  "view_ttl v \<equiv> fst (snd (snd v))"

definition grown :: "trace_result \<Rightarrow> trace_result \<Rightarrow> bool" where
  "grown r r' \<longleftrightarrow> length (Hops r') = length (Hops r) \<and>
     (\<forall>k < length (Hops r). \<exists>vs. map probe_view (Hops r' ! k) = map probe_view (Hops r ! k) @ vs \<and>
        (\<forall>v\<in>set vs. view_ttl v = int k + 1))"

lemma grown_views: "views r' = views r \<Longrightarrow> grown r r'"
proof -
  assume v: "views r' = views r"
  then have l: "length (Hops r') = length (Hops r)" by (metis views_def length_map)
  have "map probe_view (Hops r' ! k) = map probe_view (Hops r ! k)" if "k < length (Hops r)" for k
    using v that l by (metis views_def nth_map)
  then show ?thesis using l by (simp add: grown_def)
qed

lemma grown_refl: "grown r r"
  by (rule grown_views) simp

lemma grown_trans:
  assumes "grown r s" "grown s t"
  shows "grown r t"
  unfolding grown_def
proof (intro conjI allI impI)
  show "length (Hops t) = length (Hops r)" using assms by (simp add: grown_def)
  fix k assume k: "k < length (Hops r)"
  then have ks: "k < length (Hops s)" using assms(1) by (simp add: grown_def)
  obtain a where a: "map probe_view (Hops s ! k) = map probe_view (Hops r ! k) @ a" "\<forall>v\<in>set a. view_ttl v = int k + 1"
    using assms(1) k unfolding grown_def by blast
  obtain b where b: "map probe_view (Hops t ! k) = map probe_view (Hops s ! k) @ b" "\<forall>v\<in>set b. view_ttl v = int k + 1"
    using assms(2) ks unfolding grown_def by blast
  show "\<exists>vs. map probe_view (Hops t ! k) = map probe_view (Hops r ! k) @ vs \<and> (\<forall>v\<in>set vs. view_ttl v = int k + 1)"
    using a b by (intro exI [of _ "a @ b"]) auto
qed

lemma add_grown: "add s h i n m = Inr (r, b, idx) \<Longrightarrow> grown s r"
proof -
  assume a: "add s h i n m = Inr (r, b, idx)"
  let ?k = "nat (TTL h - 1)"
  from a have "r = s \<or> (?k < length (Hops s) \<and> 0 \<le> TTL h - 1 \<and> Hops r = (Hops s)[?k := Hops s ! ?k @ [h]])"
    by (auto simp: add_def Let_def rbind_eq_Inr go_index_def split: if_splits)
  then show ?thesis
  proof
    assume g: "?k < length (Hops s) \<and> 0 \<le> TTL h - 1 \<and> Hops r = (Hops s)[?k := Hops s ! ?k @ [h]]"
    have "view_ttl (probe_view h) = int ?k + 1" using g by (simp add: probe_view_def)
    then have "\<exists>vs. map probe_view (Hops r ! k) = map probe_view (Hops s ! k) @ vs \<and> (\<forall>v\<in>set vs. view_ttl v = int k + 1)"
      if "k < length (Hops s)" for k
      using g that by (cases "k = ?k") (auto intro: exI [of _ "[probe_view h]"])
    then show ?thesis using g by (simp add: grown_def)
  qed (simp add: grown_refl)
qed

lemma addHop_grown:
  assumes "addHopWithIndex c s peer ttl i rtt mpls = Inr t"
  shows "grown (res s) (res t)"
proof (cases "past_final s ttl")
  case False
  then obtain r job h where "res t = r" "addWithGeoAsync (res s) h i (NumMeasurements c) (MaxAttempts c) c = Inr (r, job)"
    using assms by (auto simp: addHopWithIndex_def Let_def rbind_eq_Inr split: if_splits)
  moreover from this obtain h' b idx where "add (res s) h' i (NumMeasurements c) (MaxAttempts c) = Inr (r, b, idx)"
    by (auto simp: addWithGeoAsync_def Let_def rbind_eq_Inr)
  ultimately show ?thesis using add_grown by blast
qed (use assms in \<open>simp add: addHopWithIndex_def grown_refl\<close>)

lemma match_grown: "match_task c s task = Inr t \<Longrightarrow> grown (res s) (res t)"
proof (cases "lookupSent s (task_seq task)")
  case (Some start)
  assume "match_task c s task = Inr t"
  then show ?thesis using addHop_grown Some
    by (force simp: match_task_def Let_def rbind_eq_Inr clearPending_def dropSent_def grown_refl split: if_splits)
qed (simp add: match_task_def grown_refl)

lemma timeout_grown: "timeout_fires c s a = Inr t \<Longrightarrow> grown (res s) (res t)"
  using add_grown
  by (force simp: timeout_fires_def Let_def rbind_eq_Inr clearPending_def dropSent_def grown_refl split: if_splits)

lemma icmp_step_grown: "icmp_step c s t \<Longrightarrow> grown (res s) (res t)"
proof (induction rule: icmp_step.induct)
  case (Timeout s a t)
  then show ?case using timeout_grown by blast
next
  case (Match s xs task ys t)
  then show ?case using match_grown by fastforce
next
  case (Lookup s xs ttl idx h ys h')
  then show ?case by (simp add: grown_views geo_goroutine_def)
next
  case (Wait_Over s k)
  then show ?case by (simp add: grown_views)
qed (simp_all add: launch_ttl_def launch_attempt_def send_enter_def send_ok_def send_error_def
    timeout_cancelled_def clearPending_def markPending_def storeSent_def handleICMPMessage_def print_tick_def Let_def grown_refl)

lemma tracer_hops:
  assumes "reaches (icmp_step c) (icmp_init c) s" "1 \<le> MaxHops c"
  shows "length (Hops (res s)) = nat (MaxHops c) \<and> (\<forall>k < nat (MaxHops c). \<forall>h\<in>set (Hops (res s) ! k). TTL h = int k + 1)"
proof -
  have "grown (res (icmp_init c)) (res s)"
    using assms(1) by (induction rule: reaches.induct) (auto intro: grown_refl grown_trans icmp_step_grown)
  moreover have i: "Hops (res (icmp_init c)) = replicate (nat (MaxHops c)) []"
    by (simp add: icmp_init_def init_result_def setGeoWait_def Let_def)
  moreover have "TTL h = view_ttl (probe_view h)" for h by (simp add: probe_view_def)
  ultimately show ?thesis
    unfolding grown_def by simp
qed


subsection \<open>Each TTL is reported once\<close>

text \<open>The bucket that a waiting printer looks at has exactly one hop, and that stays so.\<close>

lemma ttlComp_index: "ttlComp c t ttl \<Longrightarrow> 1 \<le> ttl \<Longrightarrow> nat (ttl - 1) < length (Hops (res t))"
  by (simp add: ttlComp_def Let_def nat_less_iff)

lemma icmp_ttlComp_stays:
  assumes "icmp_step c s t" "ttlComp c s ttl" "0 \<le> ttl - 1"
  shows "ttlComp c t ttl"
proof -
  have g: "grown (res s) (res t)" using icmp_step_grown [OF assms(1)] .
  let ?k = "nat (ttl - 1)"
  have k: "?k < length (Hops (res s))" using ttlComp_index [OF assms(2)] assms(3) by simp
  obtain vs where "map probe_view (Hops (res t) ! ?k) = map probe_view (Hops (res s) ! ?k) @ vs"
    using g k unfolding grown_def by blast
  then have "length (Hops (res t) ! ?k) = length (Hops (res s) ! ?k) + length vs" by (metis length_append length_map)
  then show ?thesis using assms(2) g by (simp add: ttlComp_def Let_def grown_def)
qed

definition raw_base :: "Config \<Rightarrow> raw_trace \<Rightarrow> bool" where
  "raw_base c s \<longleftrightarrow> reaches (icmp_step c) (icmp_init c) (rw_tracer s) \<and> BeginHop c - 1 \<le> rw_ttl s \<and>
     (rw_waiting s \<longrightarrow> ttlComp c (rw_tracer s) (rw_ttl s + 1))"

definition raw_seen_ok :: "Config \<Rightarrow> raw_trace \<Rightarrow> bool" where
  "raw_seen_ok c s \<longleftrightarrow> (\<forall>k. rw_seen s k = (if BeginHop c - 1 \<le> k \<and> k < BeginHop c - 1 + int (length (rw_records s)) then 1 else 0)) \<and>
     BeginHop c - 1 + int (length (rw_records s)) \<le> rw_ttl s \<and>
     (\<not> rw_ended s \<longrightarrow> BeginHop c - 1 + int (length (rw_records s)) = rw_ttl s)"

definition reports :: "int \<Rightarrow> MTRRawRecord \<Rightarrow> hop \<Rightarrow> bool" where
  "reports it r h \<longleftrightarrow> record_view r = record_view (probe_record it (TTL h) (Success h) (Address h) (RTT h) (MPLS h))"

definition raw_records_ok :: "int \<Rightarrow> Config \<Rightarrow> raw_trace \<Rightarrow> bool" where
  "raw_records_ok it c s \<longleftrightarrow> (\<forall>j < length (rw_records s). \<exists>h. reports it (rw_records s ! j) h \<and>
     map probe_view (Hops (res (rw_tracer s)) ! nat (BeginHop c - 1 + int j)) = [probe_view h] \<and>
     nat (BeginHop c - 1 + int j) < length (Hops (res (rw_tracer s))) \<and> TTL h = BeginHop c + int j)"

lemma one_hop:
  assumes "wf_config c" "NumMeasurements c = 1" "reaches (icmp_step c) (icmp_init c) t" "ttlComp c t ttl" "1 \<le> ttl"
  shows "\<exists>h. Hops (res t) ! nat (ttl - 1) = [h] \<and> TTL h = ttl \<and> nat (ttl - 1) < length (Hops (res t))"
proof -
  let ?k = "nat (ttl - 1)"
  have m: "1 \<le> MaxHops c" using assms(1) by (simp add: wf_config_def)
  note th = tracer_hops [OF assms(3) m]
  have k: "?k < length (Hops (res t))" using ttlComp_index assms(4,5) by blast
  then have "?k < nat (MaxHops c)" using th by simp
  moreover have "icmp_inv c t" by (rule icmp_reachable_inv [OF assms(1,3)])
  ultimately have "int (length (Hops (res t) ! ?k)) \<le> 1"
    using bucket_le [OF assms(1), of t ?k] assms(2) by (simp add: icmp_inv_def)
  moreover have "1 \<le> int (length (Hops (res t) ! ?k))" using assms(2,4) by (simp add: ttlComp_def Let_def)
  ultimately have "length (Hops (res t) ! ?k) = 1" by simp
  then obtain h where h: "Hops (res t) ! ?k = [h]" by (auto simp: length_Suc_conv)
  then have "TTL h = int ?k + 1" using th \<open>?k < nat (MaxHops c)\<close> by (metis list.set_intros(1))
  then show ?thesis using h k assms(5) by simp
qed

lemma records_grown:
  assumes "raw_records_ok it c s" "grown (res (rw_tracer s)) (res t)" "wf_config c" "NumMeasurements c = 1"
    "reaches (icmp_step c) (icmp_init c) t" "1 \<le> BeginHop c"
  shows "raw_records_ok it c (s\<lparr>rw_tracer := t\<rparr>)"
  unfolding raw_records_ok_def
proof (intro allI impI)
  fix j assume j: "j < length (rw_records (s\<lparr>rw_tracer := t\<rparr>))"
  let ?k = "nat (BeginHop c - 1 + int j)"
  obtain h where h: "reports it (rw_records s ! j) h" "map probe_view (Hops (res (rw_tracer s)) ! ?k) = [probe_view h]"
      "?k < length (Hops (res (rw_tracer s)))" "TTL h = BeginHop c + int j"
    using assms(1) j unfolding raw_records_ok_def by auto
  obtain vs where vs: "map probe_view (Hops (res t) ! ?k) = probe_view h # vs"
    using assms(2) h(2,3) unfolding grown_def by fastforce
  have kt: "?k < length (Hops (res t))" using assms(2) h(3) by (simp add: grown_def)
  have "ttlComp c t (BeginHop c + int j)"
  proof -
    have "length (Hops (res t) ! ?k) = Suc (length vs)" using vs by (metis length_Cons length_map)
    then have "Hops (res t) ! nat (BeginHop c + int j - 1) = Hops (res t) ! ?k" by (simp add: algebra_simps)
    then show ?thesis using kt assms(4) \<open>length (Hops (res t) ! ?k) = Suc (length vs)\<close>
      by (simp add: ttlComp_def Let_def algebra_simps)
  qed
  from one_hop [OF assms(3-5) this] obtain h' where "Hops (res t) ! ?k = [h']"
    using assms(6) by (auto simp: algebra_simps)
  then have "map probe_view (Hops (res t) ! ?k) = [probe_view h]" using vs by simp
  then show "\<exists>h. reports it (rw_records (s\<lparr>rw_tracer := t\<rparr>) ! j) h \<and>
       map probe_view (Hops (res (rw_tracer (s\<lparr>rw_tracer := t\<rparr>))) ! ?k) = [probe_view h] \<and>
       ?k < length (Hops (res (rw_tracer (s\<lparr>rw_tracer := t\<rparr>)))) \<and> TTL h = BeginHop c + int j"
    using h kt by auto
qed

definition raw_inv :: "int \<Rightarrow> Config \<Rightarrow> raw_trace \<Rightarrow> bool" where
  "raw_inv it c s \<longleftrightarrow> raw_base c s \<and> raw_seen_ok c s \<and> raw_records_ok it c s"

lemma raw_inv_stopped [simp]: "raw_inv it c (s\<lparr>rw_stopped := b\<rparr>) = raw_inv it c s"
  by (simp add: raw_inv_def raw_base_def raw_seen_ok_def raw_records_ok_def)

lemma raw_inv_tracer:
  assumes "raw_inv it c s" "icmp_step c (rw_tracer s) t" "wf_config c" "NumMeasurements c = 1"
  shows "raw_inv it c (s\<lparr>rw_tracer := t\<rparr>)"
proof -
  have b: "1 \<le> BeginHop c" using assms(3) by (simp add: wf_config_def)
  have r: "reaches (icmp_step c) (icmp_init c) t"
    using assms(1,2) by (auto simp: raw_inv_def raw_base_def intro: reaches_step)
  have "raw_base c (s\<lparr>rw_tracer := t\<rparr>)"
    using assms(1) r icmp_ttlComp_stays [OF assms(2), of "rw_ttl s + 1"] b by (auto simp: raw_inv_def raw_base_def)
  moreover have "raw_seen_ok c (s\<lparr>rw_tracer := t\<rparr>)" using assms(1) by (simp add: raw_inv_def raw_seen_ok_def)
  moreover have "raw_records_ok it c (s\<lparr>rw_tracer := t\<rparr>)"
    using records_grown [OF _ icmp_step_grown [OF assms(2)] assms(3,4) r b] assms(1) by (simp add: raw_inv_def)
  ultimately show ?thesis by (simp add: raw_inv_def)
qed

lemma raw_callback_fields [simp]:
  "rw_tracer (raw_callback f it c hops ttl s) = rw_tracer s" "rw_ttl (raw_callback f it c hops ttl s) = rw_ttl s"
  "rw_ended (raw_callback f it c hops ttl s) = rw_ended s"
  by (simp_all add: raw_callback_def Let_def)

lemma raw_callback_one:
  assumes "raw_inv it c s" "\<not> rw_ended s" "Hops (res (rw_tracer s)) ! nat (rw_ttl s) = [h]"
    "nat (rw_ttl s) < length (Hops (res (rw_tracer s)))" "1 \<le> BeginHop c"
  shows "raw_callback f it c (Hops (res (rw_tracer s))) (rw_ttl s) s =
    s\<lparr>rw_seen := (rw_seen s)(rw_ttl s := 1), rw_records := rw_records s @ [buildMTRRawRecord f it h c]\<rparr>"
proof -
  have "rw_seen s (rw_ttl s) = 0" "0 \<le> rw_ttl s"
    using assms(1,2,5) by (auto simp: raw_inv_def raw_seen_ok_def raw_base_def)
  then show ?thesis using assms(2-4) by (simp add: raw_callback_def Let_def)
qed

lemma raw_inv_print:
  assumes i: "raw_inv it c s" and w: "rw_waiting s" and wf: "wf_config c" "NumMeasurements c = 1"
  shows "raw_inv it c (raw_advance c (raw_callback f it c (Hops (res (rw_tracer s))) (rw_ttl s) s))"
proof -
  let ?hops = "Hops (res (rw_tracer s))"
  have b: "1 \<le> BeginHop c" using wf(1) by (simp add: wf_config_def)
  have base: "raw_base c s" "raw_seen_ok c s" "raw_records_ok it c s" using i by (simp_all add: raw_inv_def)
  have ttl: "0 \<le> rw_ttl s" using base(1) b by (simp add: raw_base_def)
  obtain h where h: "?hops ! nat (rw_ttl s) = [h]" "TTL h = rw_ttl s + 1" "nat (rw_ttl s) < length ?hops"
    using one_hop [OF wf, of "rw_tracer s" "rw_ttl s + 1"] base(1) w ttl by (auto simp: raw_base_def)
  let ?s = "raw_callback f it c ?hops (rw_ttl s) s"
  have s: "?s = (if rw_ended s then s
      else s\<lparr>rw_seen := (rw_seen s)(rw_ttl s := 1), rw_records := rw_records s @ [buildMTRRawRecord f it h c]\<rparr>)"
    using raw_callback_one [OF i _ h(1,3) b] by (simp add: raw_callback_def)
  let ?n = "BeginHop c - 1 + int (length (rw_records s))"
  have seen: "raw_seen_ok c (?s\<lparr>rw_ttl := rw_ttl s + 1, rw_waiting := False\<rparr>)"
    using base(2) by (auto simp: s raw_seen_ok_def)
  have rec: "raw_records_ok it c (?s\<lparr>rw_ttl := rw_ttl s + 1, rw_waiting := False\<rparr>)"
  proof (cases "rw_ended s")
    case False
    then have n: "?n = rw_ttl s" using base(2) by (simp add: raw_seen_ok_def)
    have "\<exists>h'. reports it ((rw_records s @ [buildMTRRawRecord f it h c]) ! j) h' \<and>
        map probe_view (?hops ! nat (BeginHop c - 1 + int j)) = [probe_view h'] \<and>
        nat (BeginHop c - 1 + int j) < length ?hops \<and> TTL h' = BeginHop c + int j"
      if j: "j < Suc (length (rw_records s))" for j
    proof (cases "j = length (rw_records s)")
      case True
      then show ?thesis using h n by (intro exI [of _ h]) (simp add: reports_def build_view)
    next
      case False
      then show ?thesis using base(3) j by (simp add: raw_records_ok_def nth_append)
    qed
    then show ?thesis using False by (simp add: s raw_records_ok_def)
  qed (use base(3) in \<open>simp add: s raw_records_ok_def\<close>)
  let ?t = "?s\<lparr>rw_ttl := rw_ttl s + 1, rw_waiting := False\<rparr>"
  have "raw_inv it c ?t"
    using base(1) seen rec by (simp add: raw_inv_def raw_base_def)
  moreover have "raw_inv it c (?t\<lparr>rw_tracer := (rw_tracer s)\<lparr>finished := True\<rparr>\<rparr>)"
    using raw_inv_tracer [OF calculation _ wf] by (simp add: icmp_step.Cancel)
  ultimately show ?thesis by (simp add: raw_advance_def Let_def)
qed

lemma raw_inv_step: "raw_step it c s t \<Longrightarrow> wf_config c \<Longrightarrow> NumMeasurements c = 1 \<Longrightarrow> raw_inv it c s \<Longrightarrow> raw_inv it c t"
proof (induction rule: raw_step.induct)
  case (Raw_Tracer s t)
  then show ?case using raw_inv_tracer by blast
next
  case (Raw_Print s fetch)
  then show ?case using raw_inv_print by blast
qed (auto simp: raw_inv_def raw_base_def raw_seen_ok_def raw_records_ok_def)

lemma raw_inv_init: "raw_inv it c (raw_init c)"
  by (simp add: raw_inv_def raw_base_def raw_seen_ok_def raw_records_ok_def raw_init_def)

lemma raw_reach:
  assumes "reaches (raw_step it c) (raw_init c) s" "wf_config c" "NumMeasurements c = 1"
  shows "raw_inv it c s"
proof -
  have "raw_inv it c s0 \<Longrightarrow> raw_inv it c s" if "reaches (raw_step it c) s0 s" for s0
    using that by (induction rule: reaches.induct) (auto intro: raw_inv_step assms(2,3))
  then show ?thesis using assms(1) raw_inv_init by blast
qed


text \<open>C26. A round of the raw mode writes exactly one record for each TTL that its trace has passed, in the order of
  the TTLs, whatever the interleaving of the trace's goroutines: the record carries the number of the
  round and the reply (or the timeout) of the one probe of that TTL. Once the caller's context has ended no more are written.\<close>

theorem raw_round_exact:
  assumes "wf_config c" "NumMeasurements c = 1" "reaches (raw_step it c) (raw_init c) s"
  shows "\<exists>k. k \<le> rw_ttl s \<and> (\<not> rw_ended s \<longrightarrow> k = rw_ttl s) \<and> map rec_TTL (rw_records s) = [BeginHop c..k] \<and>
    (\<forall>r\<in>set (rw_records s). \<exists>h. Hops (res (rw_tracer s)) ! nat (rec_TTL r - 1) = [h] \<and> rec_Iteration r = it \<and>
       rec_Success r = (Success h \<and> Address h \<noteq> None) \<and> rec_MPLS r = MPLS h \<and>
       rec_IP r = (case Address h of None \<Rightarrow> [] | Some a \<Rightarrow> addrToIPString a) \<and>
       rec_RTTMs r = (if RTT h > 0 then real_of_int (RTT h) / 1000000 else 0))"
proof (rule exI [of _ "BeginHop c - 1 + int (length (rw_records s))"], intro conjI ballI)
  have i: "raw_seen_ok c s" "raw_records_ok it c s" using raw_reach [OF assms(3,1,2)] by (simp_all add: raw_inv_def)
  let ?k = "BeginHop c - 1 + int (length (rw_records s))"
  show "?k \<le> rw_ttl s" "\<not> rw_ended s \<longrightarrow> ?k = rw_ttl s" using i(1) by (simp_all add: raw_seen_ok_def)
  have rec: "\<exists>h. Hops (res (rw_tracer s)) ! nat (BeginHop c - 1 + int j) = [h] \<and> TTL h = BeginHop c + int j \<and>
      reports it (rw_records s ! j) h" if j: "j < length (rw_records s)" for j
  proof -
    from i(2) [unfolded raw_records_ok_def, rule_format, OF j]
    obtain h where h: "reports it (rw_records s ! j) h" "TTL h = BeginHop c + int j"
        "map probe_view (Hops (res (rw_tracer s)) ! nat (BeginHop c - 1 + int j)) = [probe_view h]"
      by (elim exE conjE)
    obtain h' where h': "Hops (res (rw_tracer s)) ! nat (BeginHop c - 1 + int j) = [h']" "probe_view h' = probe_view h"
      using h(3) unfolding map_eq_Cons_conv by blast
    have "TTL h' = BeginHop c + int j" "reports it (rw_records s ! j) h'"
      using h(1,2) h'(2) by (simp_all add: reports_def probe_view_def)
    then show ?thesis using h'(1) by blast
  qed
  have ttl: "rec_TTL (rw_records s ! j) = BeginHop c + int j" if "j < length (rw_records s)" for j
  proof -
    from rec [OF that] obtain h where "TTL h = BeginHop c + int j" "reports it (rw_records s ! j) h" by blast
    then show ?thesis by (simp add: reports_def record_view_def probe_record_def)
  qed
  show "map rec_TTL (rw_records s) = [BeginHop c..?k]"
    by (rule nth_equalityI) (simp_all add: ttl)
  fix r assume "r \<in> set (rw_records s)"
  then obtain j where j: "j < length (rw_records s)" "r = rw_records s ! j" by (auto simp: in_set_conv_nth)
  from rec [OF j(1)] obtain h where h: "Hops (res (rw_tracer s)) ! nat (BeginHop c - 1 + int j) = [h]" "reports it r h"
    using j(2) by blast
  have "nat (rec_TTL r - 1) = nat (BeginHop c - 1 + int j)" using ttl [OF j(1)] j(2) by simp
  then have "Hops (res (rw_tracer s)) ! nat (rec_TTL r - 1) = [h]" using h(1) by simp
  moreover have "rec_Iteration r = it \<and> rec_Success r = (Success h \<and> Address h \<noteq> None) \<and> rec_MPLS r = MPLS h \<and>
       rec_IP r = (case Address h of None \<Rightarrow> [] | Some a \<Rightarrow> addrToIPString a) \<and>
       rec_RTTMs r = (if RTT h > 0 then real_of_int (RTT h) / 1000000 else 0)"
    using h(2) by (simp add: reports_def record_view_def probe_record_def)
  ultimately show "\<exists>h. Hops (res (rw_tracer s)) ! nat (rec_TTL r - 1) = [h] \<and> rec_Iteration r = it \<and>
       rec_Success r = (Success h \<and> Address h \<noteq> None) \<and> rec_MPLS r = MPLS h \<and>
       rec_IP r = (case Address h of None \<Rightarrow> [] | Some a \<Rightarrow> addrToIPString a) \<and>
       rec_RTTMs r = (if RTT h > 0 then real_of_int (RTT h) / 1000000 else 0)" by blast
qed

subsection \<open>The rounds\<close>

text \<open>
  \<open>runMTRRawRoundBased\<close>. What happens around one round: whether the context has ended before it, the records and
  the error of its trace, whether the context ended during it, and during the pause after it.
\<close>

record raw_round_run =
  rr_ended_before :: bool
  rr_records :: "MTRRawRecord list"
  rr_error :: "string option"
  rr_ended_during :: bool
  rr_ended_after :: bool

datatype raw_stop = RawEnded | RawError string | RawDone

definition raw_round_config :: "Config \<Rightarrow> Config" where
  "raw_round_config cfg = cfg\<lparr>NumMeasurements := 1, MaxAttempts := 1\<rparr>"

fun runMTRRawRoundBased :: "int \<Rightarrow> (int \<Rightarrow> raw_round_run) \<Rightarrow> nat \<Rightarrow> int \<Rightarrow> MTRRawRecord list \<Rightarrow>
    (MTRRawRecord list \<times> int \<times> raw_stop) option" where
  "runMTRRawRoundBased maxRounds w 0 iteration out = None"
| "runMTRRawRoundBased maxRounds w (Suc fuel) iteration out =
     (let r = w (iteration + 1) in
      if rr_ended_before r then Some (out, iteration, RawEnded)
      else
        let iteration = iteration + 1; out = out @ rr_records r in
        if rr_ended_during r then Some (out, iteration, RawEnded)
        else case rr_error r of
          Some e \<Rightarrow> Some (out, iteration, RawError e)
        | None \<Rightarrow>
            if maxRounds > 0 \<and> iteration \<ge> maxRounds then Some (out, iteration, RawDone)
            else if rr_ended_after r then Some (out, iteration, RawEnded)
            else runMTRRawRoundBased maxRounds w fuel iteration out)"

text \<open>With a bound the loop returns after at most that many rounds, and a run that is neither cancelled nor failing
  has written the records of all its rounds in order.\<close>

lemma raw_rounds_bounded:
  assumes "0 < maxRounds" "iteration < maxRounds" "nat (maxRounds - iteration) \<le> fuel" "0 \<le> iteration"
  shows "\<exists>recs n stop. runMTRRawRoundBased maxRounds w fuel iteration out = Some (recs, n, stop) \<and> n \<le> maxRounds \<and>
    (stop = RawDone \<longrightarrow> n = maxRounds \<and> recs = out @ concat (map (rr_records \<circ> w) [iteration + 1..maxRounds]))"
  using assms
proof (induction fuel arbitrary: iteration out)
  case (Suc fuel)
  have up: "[iteration + 1..maxRounds] = (iteration + 1) # [2 + iteration..maxRounds]"
    using Suc.prems by (subst upto.simps) (simp add: algebra_simps)
  show ?case
  proof (cases "iteration + 1 \<ge> maxRounds")
    case True
    then have "[2 + iteration..maxRounds] = []" by simp
    then show ?thesis using Suc.prems True by (auto simp: Let_def up split: option.split)
  next
    case False
    then show ?thesis
      using Suc.prems Suc.IH [of "iteration + 1" "out @ rr_records (w (iteration + 1))"]
      by (auto simp: Let_def up split: option.split)
  qed
qed simp

subsection \<open>The records of the scheduler\<close>

text \<open>What \<open>onProbe\<close> receives while the scheduler handles a result: nothing, or a probe result.\<close>

definition probe_reported ::
    "sched_params \<Rightarrow> bool \<Rightarrow> int \<Rightarrow> probe_outcome \<Rightarrow> nat \<Rightarrow> mtrSchedulerRuntime \<Rightarrow> mtrProbeResult option" where
  "probe_reported p ctx_ended ttl outcome gen rt =
     (if gen \<noteq> generation rt \<or> ttl < beginHop p \<or> ttl > maxHops p \<or> disabled (hop_state rt ttl) then None
      else case outcome of
        Inl err \<Rightarrow>
          if ctx_ended \<or> consecutiveErrs (hop_state rt ttl) + 1 < maxConsecErrs p then None
          else Some \<lparr>pr_TTL = ttl, pr_Success = False, pr_Addr = None, pr_RTT = 0, pr_MPLS = [], pr_Hostname = [], pr_Geo = None\<rparr>
      | Inr result \<Rightarrow>
          if probeBudgetReached p (detectDestination p ttl result rt) ttl then None
          else Some (applyMetadataCache (markProbeCompleted ttl (detectDestination p ttl result rt)) result))"

text \<open>The scheduler with \<open>runMTRRawPerHop\<close>'s callback: each record is kept with the generation (the number of resets) it
  belongs to.\<close>

definition raw_records_of ::
    "(hop \<Rightarrow> hop) \<Rightarrow> sched_params \<Rightarrow> int \<Rightarrow> Config \<Rightarrow> sched_event \<Rightarrow> mtrSchedulerRuntime \<Rightarrow> (nat \<times> MTRRawRecord) list" where
  "raw_records_of fetch p now cfg ev rt =
     (case ev of
        ResultReady ttl gen outcome ctx_ended f \<Rightarrow>
          (case probe_reported p ctx_ended ttl outcome gen rt of
             None \<Rightarrow> []
           | Some pr \<Rightarrow> [(generation rt, buildMTRRawRecordFromProbe fetch
                           (computeIteration p (processResult f p ctx_ended now ttl outcome gen rt)) pr cfg)])
      | _ \<Rightarrow> [])"

type_synonym raw_stream = "(mtrSchedulerRuntime \<times> loop_status) \<times> (nat \<times> MTRRawRecord) list"

text \<open>\<open>stamped\<close>: both probers return the TTL they were asked for.\<close>

fun stamped :: "sched_event \<Rightarrow> bool" where
  "stamped (ResultReady ttl gen (Inr result) e f) \<longleftrightarrow> pr_TTL result = ttl"
| "stamped _ \<longleftrightarrow> True"

inductive raw_sched_step ::
    "(string \<Rightarrow> ip) \<Rightarrow> sched_params \<Rightarrow> Config \<Rightarrow> raw_stream \<Rightarrow> raw_stream \<Rightarrow> bool"
  for parse :: "string \<Rightarrow> ip" and p :: sched_params and cfg :: Config where
  raw_turn: "event_ok p rt ev \<Longrightarrow> stamped ev \<Longrightarrow>
    raw_sched_step parse p cfg ((rt, Loop_Running), recs)
      (run_event parse p now paused ev rt, recs @ raw_records_of fetch p now cfg ev rt)"


subsection \<open>Counting the records\<close>

text \<open>The numbers of completed probes, per TTL.\<close>

definition counts :: "mtrSchedulerRuntime \<Rightarrow> int list" where
  "counts rt = map completed (states rt)"

lemma counts_set_hop: "nat ttl < length (states rt) \<Longrightarrow> counts (set_hop rt ttl st) = (counts rt)[nat ttl := completed st]"
  by (simp add: counts_def set_hop_def map_update)

lemma counts_frame [simp]:
  "counts (rt\<lparr>agg := a\<rparr>) = counts rt" "counts (rt\<lparr>geo_book := b\<rparr>) = counts rt" "counts (rt\<lparr>host_book := b\<rparr>) = counts rt"
  "counts (rt\<lparr>metadataCache := m\<rparr>) = counts rt" "counts (rt\<lparr>lookup_jobs := j\<rparr>) = counts rt"
  "counts (rt\<lparr>knownFinalTTL := k\<rparr>) = counts rt" "counts (rt\<lparr>inFlight := n\<rparr>) = counts rt"
  "counts (rt\<lparr>outstanding := l\<rparr>) = counts rt"
  by (simp_all add: counts_def)

lemma counts_same:
  assumes "nat ttl < length (states rt)"
  shows "completed st = completed (hop_state rt ttl) \<Longrightarrow> counts (set_hop rt ttl st) = counts rt"
  using assms by (simp add: counts_set_hop) (simp add: counts_def hop_state_def list_update_same_conv)

lemma counts_metadata [simp]:
  "counts (maybeLaunchGeoMetadataLookup p now ip r gen a rt) = counts rt"
  "counts (maybeLaunchHostMetadataLookup p now ip r gen rt) = counts rt"
  "counts (maybeLaunchMetadataLookup p now r rt) = counts rt"
  by (simp_all add: maybeLaunchGeoMetadataLookup_def maybeLaunchHostMetadataLookup_def maybeLaunchMetadataLookup_def
      Let_def split: prod.split)

lemma counts_patch [simp]:
  "counts (clearMetadataInFlight kind ip rt) = counts rt"
  "counts (cacheMetadataPatch kind patch rt) = counts rt"
  "counts (maybeRetryMetadataLookup parse p now kind patch gen rt) = counts rt"
  "counts (maybeLaunchDN42GeoAfterHostResult parse p now kind patch gen rt) = counts rt"
  subgoal by (cases kind) (simp_all add: clearMetadataInFlight_def)
  subgoal by (cases kind) (simp_all add: cacheMetadataPatch_def Let_def)
  subgoal by (cases kind) (simp_all add: maybeRetryMetadataLookup_def Let_def split_beta)
  subgoal by (simp add: maybeLaunchDN42GeoAfterHostResult_def Let_def split_beta)
  done

lemma counts_processMetadata [simp]: "counts (processMetadataResult parse p now kind patch gen rt) = counts rt"
  by (simp add: processMetadataResult_def Let_def)

lemma length_counts [simp]: "length (counts rt) = length (states rt)"
  by (simp add: counts_def)


text \<open>An invariant of the scheduler that is enough here: as many hop states as TTLs.\<close>

definition shaped :: "sched_params \<Rightarrow> mtrSchedulerRuntime \<Rightarrow> bool" where
  "shaped p rt \<longleftrightarrow> 1 \<le> beginHop p \<and> int (length (states rt)) = maxHops p + 1"

lemma counts_detect [simp]:
  assumes "shaped p rt" "1 \<le> ttl"
  shows "counts (detectDestination p ttl r rt) = counts rt"
proof -
  have d: "counts (fold (\<lambda>ttl rt. set_hop rt ttl ((hop_state rt ttl)\<lparr>disabled := True\<rparr>)) ts rt) = counts rt"
    if "\<forall>t\<in>set ts. nat t < length (states rt)" for ts rt
    using that by (induction ts arbitrary: rt) (simp_all add: counts_same)
  have "counts (disableHigherTTLs p (ttl + 1) (rt\<lparr>knownFinalTTL := ttl\<rparr>)) = counts rt"
    unfolding disableHigherTTLs_def using assms by (subst d) (auto simp: shaped_def)
  then show ?thesis by (simp add: detectDestination_def Let_def)
qed

lemma counts_launch [simp]: "nat ttl < length (states rt) \<Longrightarrow> counts (launchProbe p now rt ttl) = counts rt"
  by (simp add: launchProbe_def Let_def counts_same)

lemma states_launch [simp]: "length (states (launchProbe p now rt ttl)) = length (states rt)"
  by (simp add: launchProbe_def Let_def)

lemma counts_schedule_loop:
  "\<forall>t\<in>set ts. nat t < length (states rt) \<Longrightarrow> counts (schedule_loop p now ts rt) = counts rt"
  by (induction ts arbitrary: rt) simp_all

lemma counts_schedule [simp]: "shaped p rt \<Longrightarrow> counts (scheduleReady p paused now rt) = counts rt"
  by (auto simp: scheduleReady_def shaped_def effectiveMax_def Let_def intro!: counts_schedule_loop)

lemma shaped_frame [simp]:
  "shaped p (rt\<lparr>agg := a\<rparr>) = shaped p rt" "shaped p (rt\<lparr>inFlight := n\<rparr>) = shaped p rt"
  "shaped p (rt\<lparr>outstanding := l\<rparr>) = shaped p rt" "shaped p (set_hop rt ttl st) = shaped p rt"
  by (simp_all add: shaped_def)

lemma shaped_counts: "counts rt' = counts rt \<Longrightarrow> shaped p rt' = shaped p rt"
  by (metis length_counts shaped_def)

lemma counts_nth: "nat ttl < length (states rt) \<Longrightarrow> counts rt ! nat ttl = completed (hop_state rt ttl)"
  by (simp add: counts_def hop_state_def)

lemma counts_success:
  assumes "shaped p rt" "1 \<le> ttl" "ttl \<le> maxHops p"
  shows "counts (processProbeSuccess f p now ttl result rt) =
    (if probeBudgetReached p (detectDestination p ttl result rt) ttl then counts rt
     else (counts rt)[nat ttl := counts rt ! nat ttl + 1])"
proof -
  let ?d = "detectDestination p ttl result rt"
  have d: "counts ?d = counts rt" using assms(1,2) by simp
  have l2: "nat ttl < length (states rt)" using assms by (auto simp: shaped_def)
  have l: "nat ttl < length (states ?d)" "nat ttl < length (states rt)" using l2 d by (metis length_counts)+
  have m: "counts (markProbeCompleted ttl ?d) = (counts rt)[nat ttl := counts rt ! nat ttl + 1]"
    using l by (simp add: markProbeCompleted_def Let_def counts_set_hop d flip: counts_nth)
  show ?thesis
    using l by (simp add: processProbeSuccess_def Let_def counts_same d m)
qed

lemma counts_error:
  assumes "nat ttl < length (states rt)" "0 \<le> ttl"
  shows "counts (processProbeError p e ttl rt) =
    (if e \<or> consecutiveErrs (hop_state rt ttl) + 1 < maxConsecErrs p then counts rt
     else (counts rt)[nat ttl := counts rt ! nat ttl + 1])"
  using assms
  by (simp add: processProbeError_def recordSyntheticTimeout_def Let_def counts_same counts_set_hop flip: counts_nth)

lemma counts_processResult:
  assumes "shaped p rt"
  shows "counts (processResult f p e now ttl outcome gen rt) =
    (if probe_reported p e ttl outcome gen rt = None then counts rt
     else (counts rt)[nat ttl := counts rt ! nat ttl + 1])"
proof (cases "gen \<noteq> generation rt \<or> ttl < beginHop p \<or> ttl > maxHops p")
  case True
  then show ?thesis by (auto simp: processResult_def probe_reported_def Let_def)
next
  case False
  then have t: "1 \<le> ttl" "ttl \<le> maxHops p" "nat ttl < length (states rt)" using assms by (auto simp: shaped_def)
  let ?rt = "rt\<lparr>inFlight := inFlight rt - 1, outstanding := remove1 (ttl, gen) (outstanding rt)\<rparr>"
  let ?st = "hop_state rt ttl"
  let ?s = "set_hop ?rt ttl (?st\<lparr>inFlightCount := inFlightCount ?st - 1\<rparr>)"
  have h: "hop_state ?rt ttl = ?st" by (simp add: hop_state_def)
  have s: "counts ?s = counts rt" using t h by (simp add: counts_same)
  have sh: "shaped p ?s" "nat ttl < length (states ?s)" using assms t by simp_all
  have hs: "hop_state ?s ttl = ?st\<lparr>inFlightCount := inFlightCount ?st - 1\<rparr>" using t by simp
  have b: "probeBudgetReached p (detectDestination p ttl r ?s) ttl = probeBudgetReached p (detectDestination p ttl r rt) ttl" for r
    using counts_detect [OF sh(1) t(1), of r] counts_detect [OF assms t(1), of r] s t sh(2)
    by (metis counts_nth length_counts probeBudgetReached_def)
  show ?thesis
  proof (cases outcome)
    case (Inl err)
    then show ?thesis using False s h counts_error [OF sh(2), of p e] t hs
      by (simp add: processResult_def probe_reported_def Let_def)
  next
    case (Inr r)
    then show ?thesis using False s h counts_success [OF sh(1) t(1,2), of f now r] t b [of r]
      by (simp add: processResult_def probe_reported_def Let_def)
  qed
qed


text \<open>The records of the current generation, per TTL.\<close>

definition records_at :: "nat \<Rightarrow> int \<Rightarrow> (nat \<times> MTRRawRecord) list \<Rightarrow> int" where
  "records_at g ttl recs = int (length (filter (\<lambda>r. fst r = g \<and> rec_TTL (snd r) = ttl) recs))"

definition stream_inv :: "sched_params \<Rightarrow> raw_stream \<Rightarrow> bool" where
  "stream_inv p s \<longleftrightarrow> shaped p (fst (fst s)) \<and> (\<forall>r\<in>set (snd s). fst r \<le> generation (fst (fst s))) \<and>
     (\<forall>ttl. 1 \<le> ttl \<and> ttl \<le> maxHops p \<longrightarrow>
        records_at (generation (fst (fst s))) ttl (snd s) = completed (hop_state (fst (fst s)) ttl))"

lemma rec_TTL_reported:
  assumes "probe_reported p e ttl outcome gen rt = Some pr" "stamped (ResultReady ttl gen outcome e f)"
  shows "rec_TTL (buildMTRRawRecordFromProbe fetch it pr cfg) = ttl"
proof -
  have "pr_TTL pr = ttl"
    using assms by (auto simp: probe_reported_def applyMetadataCache_def Let_def split: if_splits sum.splits option.splits)
  then show ?thesis using view_fields [OF build_probe_view, of fetch it pr cfg] by (simp add: probe_record_def)
qed

lemma generation_frame [simp]:
  "generation (maybeLaunchGeoMetadataLookup p now ip r gen a rt) = generation rt"
  "generation (maybeLaunchHostMetadataLookup p now ip r gen rt) = generation rt"
  "generation (clearMetadataInFlight kind ip rt) = generation rt"
  "generation (cacheMetadataPatch kind patch rt) = generation rt"
  "generation (launchProbe p now rt ttl) = generation rt"
  by (cases kind; simp add: maybeLaunchGeoMetadataLookup_def maybeLaunchHostMetadataLookup_def clearMetadataInFlight_def
      cacheMetadataPatch_def launchProbe_def Let_def split_beta)+

lemma generation_metadata [simp]:
  "generation (maybeLaunchMetadataLookup p now r rt) = generation rt"
  "generation (maybeRetryMetadataLookup parse p now kind patch gen rt) = generation rt"
  "generation (maybeLaunchDN42GeoAfterHostResult parse p now kind patch gen rt) = generation rt"
  by (cases kind; simp add: maybeLaunchMetadataLookup_def maybeRetryMetadataLookup_def
      maybeLaunchDN42GeoAfterHostResult_def Let_def split_beta)+

lemma generation_schedule [simp]: "generation (scheduleReady p paused now rt) = generation rt"
proof -
  have "generation (schedule_loop p now ts rt) = generation rt" for ts
    by (induction ts arbitrary: rt) simp_all
  then show ?thesis by (simp add: scheduleReady_def)
qed

lemma generation_detect [simp]: "generation (detectDestination p ttl r rt) = generation rt"
proof -
  have "generation (fold (\<lambda>ttl rt. set_hop rt ttl (g rt ttl)) ts rt) = generation rt" for g and ts :: "int list" and rt
    by (induction ts arbitrary: rt) simp_all
  then show ?thesis by (simp add: detectDestination_def disableHigherTTLs_def Let_def)
qed

lemma generation_result [simp]:
  "generation (processProbeSuccess f p now ttl r rt) = generation rt"
  "generation (processProbeError p e ttl rt) = generation rt"
  "generation (processMetadataResult parse p now kind patch gen rt) = generation rt"
  by (simp_all add: processProbeSuccess_def processProbeError_def processMetadataResult_def markProbeCompleted_def
      recordSyntheticTimeout_def Let_def)

lemma generation_processResult [simp]: "generation (processResult f p e now ttl outcome gen rt) = generation rt"
  by (simp add: processResult_def Let_def split: sum.split)

lemma stream_inv_quiet:
  assumes "stream_inv p ((rt, b), recs)" "counts rt' = counts rt" "generation rt' = generation rt"
  shows "stream_inv p ((rt', b'), recs)"
proof -
  have sh: "shaped p rt" using assms(1) by (simp add: stream_inv_def)
  have "length (states rt') = length (states rt)" using assms(2) by (metis length_counts)
  moreover have "nat ttl < length (states rt)" if "1 \<le> ttl" "ttl \<le> maxHops p" for ttl
    using that sh by (auto simp: shaped_def)
  ultimately have "completed (hop_state rt' ttl) = completed (hop_state rt ttl)" if "1 \<le> ttl" "ttl \<le> maxHops p" for ttl
    using that assms(2) counts_nth [of ttl rt] counts_nth [of ttl rt'] by simp
  then show ?thesis using assms shaped_counts [OF assms(2)] by (simp add: stream_inv_def)
qed

lemma stream_inv_result:
  assumes "stream_inv p ((rt, b), recs)" "stamped (ResultReady ttl gen outcome e f)"
  shows "stream_inv p ((processResult f p e now ttl outcome gen rt, b'),
           recs @ raw_records_of fetch p now cfg (ResultReady ttl gen outcome e f) rt)"
proof (cases "probe_reported p e ttl outcome gen rt")
  case None
  have sh: "shaped p rt" using assms(1) by (simp add: stream_inv_def)
  show ?thesis
    using stream_inv_quiet [OF assms(1), of "processResult f p e now ttl outcome gen rt"] counts_processResult [OF sh] None
    by (simp add: raw_records_of_def)
next
  case (Some pr)
  let ?rt = "processResult f p e now ttl outcome gen rt"
  have sh: "shaped p rt" using assms(1) by (simp add: stream_inv_def)
  have t: "1 \<le> ttl" "ttl \<le> maxHops p" "nat ttl < length (states rt)"
    using Some sh by (auto simp: probe_reported_def shaped_def split: if_splits)
  have c: "counts ?rt = (counts rt)[nat ttl := counts rt ! nat ttl + 1]" using counts_processResult [OF sh] Some by simp
  then have l: "length (states ?rt) = length (states rt)" by (metis length_counts length_list_update)
  have h: "completed (hop_state ?rt k) = (if k = ttl then completed (hop_state rt k) + 1 else completed (hop_state rt k))"
    if k: "1 \<le> k" "k \<le> maxHops p" for k
  proof -
    have "nat k < length (states rt)" using k sh by (auto simp: shaped_def)
    then show ?thesis using c l k t by (simp flip: counts_nth add: nth_list_update nat_eq_iff)
  qed
  show ?thesis
    using assms(1) h Some rec_TTL_reported [OF Some assms(2)] l
    by (auto simp: stream_inv_def shaped_def raw_records_of_def records_at_def)
qed

lemma records_at_later: "\<forall>r\<in>set recs. fst r \<le> g \<Longrightarrow> records_at (Suc g) ttl recs = 0"
  by (auto simp: records_at_def filter_empty_conv)

lemma stream_inv_reset:
  assumes "stream_inv p ((rt, b), recs)"
  shows "stream_inv p ((handleReset q rt, b'), recs)"
proof (cases q)
  case True
  have r: "\<forall>r\<in>set recs. fst r \<le> generation rt" and sh: "shaped p rt" using assms by (simp_all add: stream_inv_def)
  have "completed (hop_state (handleReset True rt) ttl) = 0" if "1 \<le> ttl" "ttl \<le> maxHops p" for ttl
    using that sh by (auto simp: handleReset_def hop_state_def shaped_def fresh_hop_def)
  then show ?thesis using True sh r records_at_later [OF r]
    by (auto simp: stream_inv_def handleReset_def shaped_def records_at_later intro: le_SucI)
qed (use stream_inv_quiet [OF assms] in \<open>simp add: handleReset_def\<close>)

lemma stream_inv_step: "raw_sched_step parse p cfg s t \<Longrightarrow> stream_inv p s \<Longrightarrow> stream_inv p t"
proof (induction rule: raw_sched_step.induct)
  case (raw_turn rt ev recs now paused fetch)
  have quiet: "raw_records_of fetch p now cfg ev rt = []" if "\<And>ttl gen outcome e f. ev \<noteq> ResultReady ttl gen outcome e f"
    using that by (cases ev) (simp_all add: raw_records_of_def, metis)
  show ?case
  proof (cases ev)
    case (ResultReady ttl gen outcome e f)
    let ?r = "processResult f p e now ttl outcome gen rt"
    let ?recs = "recs @ raw_records_of fetch p now cfg (ResultReady ttl gen outcome e f) rt"
    have i: "stream_inv p ((?r, b), ?recs)" for b
      using stream_inv_result raw_turn ResultReady by blast
    then have "shaped p ?r" by (simp add: stream_inv_def)
    then have "stream_inv p ((scheduleReady p paused now ?r, Loop_Running), ?recs)" using stream_inv_quiet [OF i] by simp
    then show ?thesis using i ResultReady by (simp add: Let_def)
  next
    case (MetadataReady kind patch gen)
    then show ?thesis using stream_inv_quiet [OF raw_turn.prems] quiet by (simp add: Let_def)
  next
    case (Tick reset)
    have i: "stream_inv p ((handleReset reset rt, b), recs)" for b using stream_inv_reset [OF raw_turn.prems] .
    then have "shaped p (handleReset reset rt)" by (simp add: stream_inv_def)
    then show ?thesis using Tick stream_inv_quiet [OF i] quiet by (simp add: Let_def)
  next
    case (Dropped kind ip gen)
    then show ?thesis using stream_inv_quiet [OF raw_turn.prems] quiet by simp
  next
    case (CtxDone n)
    obtain k where "handleCancel n rt = rt\<lparr>inFlight := k\<rparr>" using drain_only [of rt n] by (auto simp: handleCancel_def)
    then show ?thesis using CtxDone stream_inv_quiet [OF raw_turn.prems] quiet by simp
  qed
qed


lemma raw_stream_sched:
  assumes "reaches (raw_sched_step parse p c) (s0, recs0) s"
  shows "reaches (sched_step parse p) s0 (fst s)"
  using assms
proof (induction "(s0, recs0)" s rule: reaches.induct)
  case (reaches_step s t)
  then have "sched_step parse p (fst s) (fst t)" by (auto elim!: raw_sched_step.cases intro: sched_step.turn)
  then show ?case using reaches_step by (blast intro: reaches.reaches_step)
qed simp

lemma stream_inv_start:
  assumes "newMTRSchedulerRuntime cfg a = Inr (p, rt0)"
  shows "stream_inv p (run_start p paused now rt0, [])"
proof -
  have n: "params_ok p" "states rt0 = replicate (nat (maxHops p) + 1) fresh_hop"
    using new_params [OF assms] by simp_all
  then have sh: "shaped p rt0" by (simp add: shaped_def params_ok_def)
  have "completed (hop_state rt0 ttl) = 0" if "1 \<le> ttl" "ttl \<le> maxHops p" for ttl
  proof -
    have "nat ttl < nat (maxHops p) + 1" using that by simp
    then have "hop_state rt0 ttl = fresh_hop" unfolding hop_state_def n(2) by (rule nth_replicate)
    then show ?thesis by (simp add: fresh_hop_def)
  qed
  then have "stream_inv p ((rt0, Loop_Running), [])" using sh by (simp add: stream_inv_def records_at_def)
  then show ?thesis unfolding run_start_def
    by (rule stream_inv_quiet) (use sh in simp_all)
qed

text \<open>C27. The raw stream of the scheduler is complete: since the last reset, in whatever order results and
  resets arrive, exactly as many records were written for a TTL as the scheduler counts completed probes there, which for an
  active TTL is the number of probes in its statistics; when the scheduler returns without an error it is the number of probes asked for.\<close>

theorem raw_stream_counts:
  assumes "newMTRSchedulerRuntime cfg NewMTRAggregator = Inr (p, rt0)"
    "reaches (raw_sched_step parse p c) (run_start p paused now rt0, []) ((rt, fin), recs)"
    "beginHop p \<le> ttl" "ttl \<le> maxHops p"
  shows "records_at (generation rt) ttl recs = completed (hop_state rt ttl) \<and>
    (ttl \<le> effectiveMax p rt \<longrightarrow> records_at (generation rt) ttl recs = sent_at (agg rt) ttl \<and>
       (fin = Loop_Done \<longrightarrow> records_at (generation rt) ttl recs = maxPerHop p))"
proof -
  have step: "stream_inv p s \<Longrightarrow> stream_inv p t" if "reaches (raw_sched_step parse p c) s t" for s t
    using that by (induction rule: reaches.induct) (auto intro: stream_inv_step)
  have si: "stream_inv p ((rt, fin), recs)" using step [OF assms(2) stream_inv_start [OF assms(1)]] .
  then have r: "records_at (generation rt) ttl recs = completed (hop_state rt ttl)"
    using assms(3,4) by (auto simp: stream_inv_def shaped_def)
  have sr: "sched_reach parse cfg p rt fin"
    using raw_stream_sched [OF assms(2)] assms(1) by (auto simp: sched_reach_def)
  then have inv: "params_ok p" "final_inv p rt" "fin = Loop_Done \<Longrightarrow> isDone p rt"
    using sched_inv_parts [OF reach_inv [OF sr]] by blast+
  have "completed (hop_state rt ttl) = sent_at (agg rt) ttl \<and> (fin = Loop_Done \<longrightarrow> completed (hop_state rt ttl) = maxPerHop p)"
    if le: "ttl \<le> effectiveMax p rt"
  proof -
    note a = active_range [OF inv(1,2) assms(3) le]
    have h: "hop_inv p (knownFinalTTL rt) (running rt ttl) (sent_at (agg rt) ttl) ttl (hop_state rt ttl)"
      using reach_hop [OF sr a(1)] .
    have "hop_finished p (hop_state rt ttl) \<and> 0 < maxPerHop p" if "fin = Loop_Done"
      using inv(3) [OF that] assms(3) le by (auto simp: isDone_def list_all_iff split: if_splits)
    moreover have "0 \<le> running rt ttl" by (simp add: running_def)
    ultimately show ?thesis using h a(2) by (auto simp: hop_inv_def hop_finished_def)
  qed
  then show ?thesis using r by metis
qed


text \<open>The host name is read before the metadata is looked up, so a name that only this lookup finds is not written
  (unlike in \<open>applyMTRRawProbeMetadata\<close>).\<close>

lemma raw_host_before_lookup: "rec_Host (buildMTRRawRecord fetch it h cfg) = TrimSpace (Hostname h)"
  by (simp add: buildMTRRawRecord_def applyMTRRawGeo_def Let_def split: option.split)

subsection \<open>The entry points of the MTR modes\<close>

text \<open>The configuration that \<open>runMTRPerHop\<close>, \<open>runMTRRoundBased\<close> and \<open>runMTRRawPerHop\<close> derive with the same statements,
  and the configuration of the scheduler in the two per-hop modes.\<close>

definition mtr_config :: "env \<Rightarrow> Config \<Rightarrow> Config" where
  "mtr_config e c =
     (let c = (normalizeRuntimeConfig e c)\<lparr>NumMeasurements := 1, MaxAttempts := 1\<rparr>;
          c = (if MaxHops c = 0 then c\<lparr>MaxHops := 30\<rparr> else c);
          c = (if ICMPMode c \<le> 0 \<and> EnvICMPMode e > 0 then c\<lparr>ICMPMode := EnvICMPMode e\<rparr> else c)
      in if ICMPMode c \<in> {0, 1, 2} then c else c\<lparr>ICMPMode := 0\<rparr>)"

definition scheduler_config :: "Config \<Rightarrow> int \<Rightarrow> int \<Rightarrow> bool \<Rightarrow> mtrSchedulerConfig" where
  "scheduler_config c interval perHop async =
     \<lparr>mc_BeginHop = BeginHop c, mc_MaxHops = MaxHops c, mc_HopInterval = interval, mc_Timeout = Timeout c,
      mc_MaxPerHop = perHop, mc_MaxConsecErrors = 0, mc_MaxInFlightPerHop = 0, mc_ParallelRequests = ParallelRequests c,
      mc_FillGeo = True, mc_AsyncMetadata = async, mc_BaseConfig = c, mc_DstIP = DstIP c\<rparr>"

definition runMTRPerHop_config :: "env \<Rightarrow> Config \<Rightarrow> int \<Rightarrow> int \<Rightarrow> bool \<Rightarrow> mtrSchedulerConfig" where
  "runMTRPerHop_config e c interval perHop async = scheduler_config (mtr_config e c) interval perHop async"

definition runMTRRawPerHop_config :: "env \<Rightarrow> Config \<Rightarrow> int \<Rightarrow> int \<Rightarrow> mtrSchedulerConfig" where
  "runMTRRawPerHop_config e c interval perHop = scheduler_config (mtr_config e c) interval perHop False"

text \<open>\<open>mtrFallbackTTLProber.ProbeTTL\<close>: a whole trace for a single TTL, and what it makes of the result.\<close>

definition fallback_config :: "bool \<Rightarrow> int \<Rightarrow> Config \<Rightarrow> Config" where
  "fallback_config async ttl c =
     (let c = c\<lparr>BeginHop := ttl, MaxHops := ttl, NumMeasurements := 1, MaxAttempts := 1, ParallelRequests := 1\<rparr>
      in if async then c\<lparr>IPGeoSource := None, RDNS := False, AlwaysWaitRDNS := False\<rparr> else c)"

definition fallback_result :: "int \<Rightarrow> hop list list \<Rightarrow> mtrProbeResult" where
  "fallback_result ttl hops =
     (let idx = ttl - 1;
          none = \<lparr>pr_TTL = ttl, pr_Success = False, pr_Addr = None, pr_RTT = 0, pr_MPLS = [], pr_Hostname = [], pr_Geo = None\<rparr>
      in if idx < 0 \<or> int (length hops) \<le> idx then none
         else case hops ! nat idx of
           [] \<Rightarrow> none
         | h # _ \<Rightarrow> \<lparr>pr_TTL = ttl, pr_Success = Success h \<and> Address h \<noteq> None, pr_Addr = Address h, pr_RTT = RTT h,
               pr_MPLS = MPLS h, pr_Hostname = Hostname h, pr_Geo = Geo h\<rparr>)"

text \<open>The scheduler accepts every configuration whose first TTL is not beyond its last, the traces of the fallback prober
  are well configured, and its results are stamped with their TTL.\<close>

lemma mtr_config_fields:
  "BeginHop (mtr_config e c) = BeginHop c" "MaxHops (mtr_config e c) = (if MaxHops c = 0 then 30 else MaxHops c)"
  "NumMeasurements (mtr_config e c) = 1" "MaxAttempts (mtr_config e c) = 1"
  by (simp_all add: mtr_config_def normalizeRuntimeConfig_def Let_def)

lemma scheduler_accepts:
  assumes "1 \<le> BeginHop c" "0 \<le> MaxHops c" "BeginHop c \<le> (if MaxHops c = 0 then 30 else min (MaxHops c) 255)"
  shows "\<exists>p rt. newMTRSchedulerRuntime (runMTRPerHop_config e c iv n async) NewMTRAggregator = Inr (p, rt) \<and>
    beginHop p = BeginHop c \<and> maxPerHop p = n"
proof -
  have "\<not> (if mc_BeginHop s \<le> 0 then 1 else mc_BeginHop s) >
      (if (if mc_MaxHops s \<le> 0 then 30 else mc_MaxHops s) > maxMTRHopCount then maxMTRHopCount
       else (if mc_MaxHops s \<le> 0 then 30 else mc_MaxHops s))"
    if "s = runMTRPerHop_config e c iv n async" for s
    using assms that
    by (simp add: runMTRPerHop_config_def scheduler_config_def mtr_config_fields maxMTRHopCount_def split: if_splits)
  note le = this [OF refl]
  have b: "mc_BeginHop (runMTRPerHop_config e c iv n async) = BeginHop c"
      "mc_MaxPerHop (runMTRPerHop_config e c iv n async) = n"
    by (simp_all add: runMTRPerHop_config_def scheduler_config_def mtr_config_fields)
  show ?thesis
    unfolding newMTRSchedulerRuntime_def Let_def using le assms(1) by (simp only: if_False b) simp
qed

lemma fallback_well_configured:
  assumes "1 \<le> ttl" "ttl \<le> 255"
  shows "wf_config (prepared e (fallback_config async ttl c))"
proof -
  let ?a = "fallback_config async ttl c"
  let ?b = "normalizeICMPMode e (applyTracerouteDefaults (normalizeRuntimeConfig e ?a))"
  have a: "BeginHop ?a = ttl" "MaxHops ?a = ttl" "NumMeasurements ?a = 1" "MaxAttempts ?a = 1"
    by (simp_all add: fallback_config_def Let_def)
  have r: "BeginHop (normalizeRuntimeConfig e x) = BeginHop x" "MaxHops (normalizeRuntimeConfig e x) = MaxHops x"
      "NumMeasurements (normalizeRuntimeConfig e x) = NumMeasurements x" "MaxAttempts (normalizeRuntimeConfig e x) = MaxAttempts x"
      for x by (simp_all add: normalizeRuntimeConfig_def)
  have m: "BeginHop (normalizeICMPMode e x) = BeginHop x" "MaxAttempts (normalizeICMPMode e x) = MaxAttempts x" for x
    by (simp_all add: normalizeICMPMode_def Let_def)
  have d: "BeginHop (applyTracerouteDefaults x) = BeginHop x" "MaxAttempts (applyTracerouteDefaults x) = MaxAttempts x"
      "NumMeasurements x \<noteq> 0 \<Longrightarrow> NumMeasurements (applyTracerouteDefaults x) = NumMeasurements x"
      "MaxHops x \<noteq> 0 \<Longrightarrow> MaxHops (applyTracerouteDefaults x) = MaxHops x" for x
    by (simp_all add: applyTracerouteDefaults_def Let_def)
  have b: "BeginHop ?b = ttl" "MaxHops ?b = ttl" "NumMeasurements ?b = 1" "MaxAttempts ?b = 1"
    using a assms by (simp_all add: r m d)
  have "deriveMaxAttempts e ?b = ?b" using b by (simp add: deriveMaxAttempts_def)
  then show ?thesis using b assms by (simp add: prepared_def wf_config_def)
qed

lemma fallback_stamped: "stamped (ResultReady ttl gen (Inr (fallback_result ttl hops)) e f)"
  by (simp add: fallback_result_def Let_def split: list.split)

subsection \<open>A concrete stream and a concrete round\<close>

theorem raw_stream_counts_witness:
  "\<exists>recs. records_at 0 1 recs = 1 \<and> sent_at (agg sample_finished) 1 = 1"
proof -
  let ?ev = "ResultReady 1 0 (Inl ''send'') False id"
  have e: "event_ok sample_params sample_started ?ev" by (simp add: sample_started_eq fetch_ok_def)
  have s: "run_start sample_params False 0 sample_rt = (sample_started, Loop_Running)"
    by (simp add: sample_started_def run_start_def)
  have f: "run_event (\<lambda>_. []) sample_params 5 False ?ev sample_started = (sample_finished, Loop_Done)"
    unfolding sample_finished_def by (metis sample_finished_eq fst_conv)
  let ?recs = "[] @ raw_records_of id sample_params 5 sample_config ?ev sample_started"
  have "raw_sched_step (\<lambda>_. []) sample_params sample_config ((sample_started, Loop_Running), [])
      (run_event (\<lambda>_. []) sample_params 5 False ?ev sample_started, ?recs)"
    using e by (rule raw_turn) simp
  then have "reaches (raw_sched_step (\<lambda>_. []) sample_params sample_config) (run_start sample_params False 0 sample_rt, [])
      ((sample_finished, Loop_Done), ?recs)"
    unfolding f s by (rule reaches_step [OF reaches_refl])
  note stream = raw_stream_counts [OF sample_new this, of 1]
  have "knownFinalTTL sample_finished = -1"
    by (simp add: sample_finished_state sample_started_eq sample_rt_def)
  then have "beginHop sample_params = 1" "maxHops sample_params = 1" "maxPerHop sample_params = 1"
      "effectiveMax sample_params sample_finished = 1"
    by (simp_all add: sample_params_def effectiveMax_def)
  with stream have "records_at (generation sample_finished) 1 ?recs = 1 \<and> sent_at (agg sample_finished) 1 = 1"
    by (metis order_refl)
  moreover have "generation sample_finished = 0"
    by (simp add: sample_finished_state sample_started_eq sample_rt_def)
  ultimately show ?thesis by metis
qed

definition raw_config :: Config where
  "raw_config = raw_round_config (sample_config\<lparr>MaxHops := 2, ParallelRequests := 10\<rparr>)"

lemma wf_raw_config: "wf_config raw_config" "NumMeasurements raw_config = 1"
  by (simp_all add: raw_config_def raw_round_config_def sample_config_def wf_config_def)

lemmas raw_config_defs = raw_config_def raw_round_config_def sample_config_def icmp_init_def init_result_def setGeoWait_def

text \<open>A run of a round: the first probe is launched, runs out of time, and its TTL is printed.\<close>

definition raw_run_sent :: icmp_state where
  "raw_run_sent = send_enter raw_config
     (launch_attempt raw_config (launch_ttl raw_config (icmp_init raw_config)) 1 0) (1, 0)"

lemma raw_run_sent_eq:
  "raw_run_sent = (icmp_init raw_config)\<lparr>next_ttl := 2, next_i := (\<lambda>_. None)(1 := None), spawned := {(1, 0)},
     waiting := {}, pending := {256}, timers := {(1, 0)}, sending := [(1, 0)]\<rparr>"
  by (simp add: raw_run_sent_def raw_config_defs launch_ttl_def past_final_def launch_attempt_def ttlComp_def
      send_enter_def markPending_def Let_def seqOf_run numeral_2_eq_2)

definition raw_run_late :: icmp_state where
  "raw_run_late = projr (timeout_fires raw_config raw_run_sent (1, 0))"

lemma raw_run_late_eq: "timeout_fires raw_config raw_run_sent (1, 0) = Inr raw_run_late"
  "raw_run_late = raw_run_sent\<lparr>pending := {}, timers := {}, recorded := {(1, 0)}, sentAt := (\<lambda>_. None)(256 := None),
     res := (setGeoWait (init_result 2) 1)\<lparr>Hops := [[\<lparr>Success = False, Address = None, Hostname = [], TTL = 1, RTT = 0,
         Error = Some HopTimeout, Geo = None, Lang = [], MPLS = []\<rparr>], []], tailDone := [True, False]\<rparr>\<rparr>"
  unfolding raw_run_late_def
  by (simp_all add: timeout_fires_def raw_run_sent_eq raw_config_defs clearPending_def seqOf_run past_final_def ttlComp_def
      add_def dropSent_def Let_def numeral_2_eq_2)


lemma raw_run_reachable: "reaches (icmp_step raw_config) (icmp_init raw_config) raw_run_late"
proof -
  let ?c = raw_config
  let ?s1 = "launch_ttl ?c (icmp_init ?c)" and ?s2 = "launch_attempt ?c (launch_ttl ?c (icmp_init ?c)) 1 0"
  have s1: "icmp_step ?c (icmp_init ?c) ?s1" by (rule Launch_TTL) (simp add: icmp_init_def)
  have s2: "icmp_step ?c ?s1 ?s2"
    by (rule Launch_Attempt) (simp_all add: raw_config_defs launch_ttl_def past_final_def)
  have s3: "icmp_step ?c ?s2 raw_run_sent" unfolding raw_run_sent_def
    by (rule Send_Enter) (simp_all add: raw_config_defs launch_ttl_def past_final_def launch_attempt_def ttlComp_def Let_def)
  have s4: "icmp_step ?c raw_run_sent raw_run_late"
    by (rule Timeout [where a = "(1, 0)"]) (simp_all add: raw_run_late_eq(1), simp_all add: raw_run_sent_eq icmp_init_def)
  note st = reaches_step [of "icmp_step raw_config"]
  show ?thesis by (rule st [OF st [OF st [OF st [OF reaches_refl s1] s2] s3] s4])
qed

lemma raw_lift:
  assumes "reaches (icmp_step c) (icmp_init c) t" "printed t = BeginHop c - 1"
    and mono: "\<And>s t. icmp_step c s t \<Longrightarrow> printed s \<le> printed t"
  shows "reaches (raw_step it c) (raw_init c) ((raw_init c)\<lparr>rw_tracer := t\<rparr>)"
  using assms(1,2)
proof (induction "icmp_init c" t rule: reaches.induct)
  case reaches_refl
  have "(raw_init c)\<lparr>rw_tracer := icmp_init c\<rparr> = raw_init c" by (simp add: raw_init_def)
  then show ?case by simp
next
  case (reaches_step s t)
  have "BeginHop c - 1 \<le> printed u" if "reaches (icmp_step c) (icmp_init c) u" for u
    using that by (induction "icmp_init c" u rule: reaches.induct) (auto dest: mono simp: icmp_init_def)
  then have p: "printed s = BeginHop c - 1" using mono [OF reaches_step(3)] reaches_step(1,4) by force
  then have "raw_step it c ((raw_init c)\<lparr>rw_tracer := s\<rparr>) (((raw_init c)\<lparr>rw_tracer := s\<rparr>)\<lparr>rw_tracer := t\<rparr>)"
    using reaches_step(3,4) by (intro Raw_Tracer) simp_all
  then show ?case using reaches_step(2) [OF p] by (simp add: reaches.reaches_step)
qed


lemma printed_up: "icmp_step c s t \<Longrightarrow> printed s \<le> printed t"
proof (induction rule: icmp_step.induct)
  case (Timeout s a t)
  then show ?case
    by (auto simp: timeout_fires_def Let_def clearPending_def rbind_eq_Inr dropSent_def split: if_splits)
next
  case (Match s xs task ys t)
  then show ?case
    by (auto simp: match_task_def Let_def clearPending_def rbind_eq_Inr dropSent_def addHopWithIndex_def
        split: if_splits option.splits)
qed (simp_all add: launch_ttl_def launch_attempt_def send_enter_def send_ok_def send_error_def
    timeout_cancelled_def clearPending_def markPending_def storeSent_def handleICMPMessage_def print_tick_def Let_def)

theorem raw_round_exact_witness:
  "\<exists>s r. reaches (raw_step 7 raw_config) (raw_init raw_config) s \<and> rw_records s = [r] \<and> rec_TTL r = 1 \<and>
     rec_Iteration r = 7 \<and> \<not> rec_Success r"
proof -
  let ?c = raw_config
  let ?s = "(raw_init ?c)\<lparr>rw_tracer := raw_run_late\<rparr>"
  let ?w = "?s\<lparr>rw_waiting := True\<rparr>"
  let ?p = "raw_advance ?c (raw_callback id 7 ?c (Hops (res (rw_tracer ?w))) (rw_ttl ?w) ?w)"
  have late: "printed raw_run_late = BeginHop ?c - 1" "ttlComp ?c raw_run_late (rw_ttl ?s + 1)" "BeginHop ?c = 1"
      "rw_ttl ?s = 0" "Address (Hops (res raw_run_late) ! 0 ! 0) = None"
    by (simp_all add: raw_run_late_eq(2) raw_run_sent_eq raw_config_defs raw_init_def ttlComp_def Let_def)
  have r0: "reaches (raw_step 7 ?c) (raw_init ?c) ?s"
    by (rule raw_lift [OF raw_run_reachable late(1) printed_up])
  have s1: "raw_step 7 ?c ?s ?w" using late(2) by (intro Raw_Wait) (simp_all add: raw_init_def)
  have s2: "raw_step 7 ?c ?w ?p" by (rule Raw_Print) (simp_all add: raw_init_def)
  have r: "reaches (raw_step 7 ?c) (raw_init ?c) ?p" by (rule reaches_step [OF reaches_step [OF r0 s1] s2])
  have "rw_ttl ?p = 1" "rw_ended ?p = rw_ended ?w" "rw_tracer ?p = raw_run_late \<or> res (rw_tracer ?p) = res raw_run_late"
    using late(4) by (simp_all add: raw_advance_def Let_def raw_init_def)
  then have p: "rw_ttl ?p = 1" "\<not> rw_ended ?p" "Hops (res (rw_tracer ?p)) = Hops (res raw_run_late)"
    by (auto simp: raw_init_def)
  obtain h where rec: "map rec_TTL (rw_records ?p) = [1]"
      "\<forall>x\<in>set (rw_records ?p). \<exists>h. Hops (res raw_run_late) ! nat (rec_TTL x - 1) = [h] \<and> rec_Iteration x = 7 \<and>
         rec_Success x = (Success h \<and> Address h \<noteq> None)"
    using raw_round_exact [OF wf_raw_config r] p late(3) by fastforce
  then obtain x where x: "rw_records ?p = [x]" "rec_TTL x = 1" by (auto simp: map_eq_Cons_conv)
  moreover have "rec_Iteration x = 7" "\<not> rec_Success x" using rec(2) x late(5) by auto
  ultimately show ?thesis using r by blast
qed

end
