(* ===== verification/Ws_Client.thy ===== *)
theory Ws_Client
  imports Go_Text
begin

section \<open>The WebSocket client of the geo service: \<open>wshandle/client.go\<close>\<close>

text \<open>
  One \<open>WsConn\<close> is shared by a keep-alive loop, a sender, a writer, one receiver per connection that was made, a possible
  first connection attempt (\<open>reconnectNow\<close>), the goroutine that runs \<open>Close\<close>, and the users of its two channels. Their
  blocking points and the boundaries of their critical sections split the code into segments; \<open>ws_exec\<close> runs one segment,
  named by a label, if it is enabled. The outcomes of the network are arguments of the labels. \<open>None\<close> as the
  program counter of a loop says that the loop has returned (and its \<open>loopWG.Done\<close> was called). Connections and
  \<open>Done\<close> channels are numbered in the order they are made. \<open>w_panic\<close> records a send on a closed channel. The
  development mode, in which errors of the token service panic, is left out.
\<close>

datatype ws_job = TextJob string | CloseJob

datatype recreate_pc = R_Start | R_FastIP | R_Token | R_Dial | R_Dialled "nat option" | R_Replace nat | R_Replaced | R_Connected

datatype keep_pc = K_Top | K_Ping | K_Check | K_Run recreate_pc

datatype async_pc = A_Call | A_Check | A_Run recreate_pc | A_Over

datatype rcv_pc = Rcv_Enter | Rcv_Top nat | Rcv_Check nat | Rcv_Conn nat | Rcv_Read nat nat | Rcv_Deliver nat string | Rcv_Sleep nat

datatype snd_pc = S_Loop | S_Select nat | S_WaitDone nat | S_Msg string | S_Enqueue string | S_Fail string | S_Interrupt

datatype writer_pc = W_Top | W_Write nat

datatype close_pc = C_Idle | C_Flagged | C_State | C_CloseCh | C_WriteStop | C_DoneCh | C_Conn nat | C_ConnClosed | C_Wait | C_Finished

record ws_config =
  wc_envToken :: string
  wc_refreshIP :: bool

record ws_state =
  w_connected :: bool
  w_connecting :: bool
  w_conn :: "nat option"
  w_open :: "nat set"
  w_conns :: nat
  w_done :: nat
  w_doneClosed :: "nat set"
  w_dones :: nat
  w_closed :: bool
  w_closeCh :: bool
  w_writeStop :: bool
  w_baseEnded :: bool
  w_recvClosed :: bool
  w_send :: "string list"
  w_recv :: "string list"
  w_write :: "ws_job list"
  w_cacheToken :: string
  w_failures :: nat
  w_keep :: "keep_pc option"
  w_async :: async_pc
  w_sender :: "snd_pc option"
  w_writer :: "writer_pc option"
  w_rcv :: "nat \<rightharpoonup> rcv_pc"
  w_rcvs :: nat
  w_close :: close_pc
  w_panic :: bool

definition wsClientWriteQueueSize :: nat where "wsClientWriteQueueSize = 1024"

definition channel_cap :: nat where "channel_cap = 10"

subsection \<open>Shared operations\<close>

definition setConnectionState :: "bool \<Rightarrow> bool \<Rightarrow> ws_state \<Rightarrow> ws_state" where
  "setConnectionState connected connecting s = s\<lparr>w_connected := connected, w_connecting := connecting\<rparr>"

definition setConnected :: "bool \<Rightarrow> ws_state \<Rightarrow> ws_state" where
  "setConnected v s = s\<lparr>w_connected := v\<rparr>"

text \<open>\<open>enqueueWrite\<close>: \<open>None\<close> is an error. \<open>writeStop\<close> is closed after \<open>closed\<close> was set, so the first check decides.\<close>

definition enqueueWrite :: "ws_job \<Rightarrow> ws_state \<Rightarrow> ws_state option" where
  "enqueueWrite j s =
     (if w_closed s then None
      else if length (w_write s) < wsClientWriteQueueSize then Some (s\<lparr>w_write := w_write s @ [j]\<rparr>) else None)"

definition replaceConn :: "nat \<Rightarrow> ws_state \<Rightarrow> ws_state" where
  "replaceConn k s =
     s\<lparr>w_conn := Some k, w_open := (case w_conn s of None \<Rightarrow> w_open s | Some p \<Rightarrow> if p \<noteq> k then w_open s - {p} else w_open s)\<rparr>"

definition apiServerErrorMessage :: "string \<Rightarrow> string" where
  "apiServerErrorMessage ip = ''{\"ip\":\"'' @ ip @ ''\", \"asnumber\":\"API Server Error\"}''"

definition formatHostPort :: "string \<Rightarrow> string \<Rightarrow> string" where
  "formatHostPort a port =
     (let clean = Trim (TrimSpace a) ''[]'' in
      if CHR '':'' \<in> set clean then ''['' @ clean @ '']:'' @ port else clean @ '':'' @ port)"

subsection \<open>Making a connection\<close>

text \<open>\<open>recreateWsConn\<close>; an outcome of a blocking call is the label of its segment. The second component of the result is
  the next program counter, \<open>None\<close> when the function has returned.\<close>

datatype rec_event = RecGo | RecIP bool | RecToken "string option" | RecDial bool

definition new_receiver :: "ws_state \<Rightarrow> ws_state" where
  "new_receiver s = s\<lparr>w_rcv := (w_rcv s)(w_rcvs s \<mapsto> Rcv_Enter), w_rcvs := w_rcvs s + 1\<rparr>"

fun recreateWsConn :: "ws_config \<Rightarrow> rec_event \<Rightarrow> recreate_pc \<Rightarrow> ws_state \<Rightarrow> (ws_state \<times> recreate_pc option) option" where
  "recreateWsConn c RecGo R_Start s =
     Some (if w_closeCh s then (s, None)
           else if w_baseEnded s then (setConnectionState False False s, None)
           else (setConnected False s, Some (if wc_refreshIP c then R_FastIP else R_Token)))"
| "recreateWsConn c (RecIP ok) R_FastIP s =
     Some (if ok then (s, Some R_Token) else (setConnectionState False False s, None))"
| "recreateWsConn c (RecToken fetched) R_Token s =
     Some (if wc_envToken c \<noteq> [] then (s\<lparr>w_cacheToken := wc_envToken c\<rparr>, Some R_Dial)
           else if w_cacheToken s \<noteq> [] then (s, Some R_Dial)
           else case fetched of
             None \<Rightarrow> (setConnectionState False False (s\<lparr>w_cacheToken := [], w_failures := w_failures s + 1\<rparr>), None)
           | Some t \<Rightarrow> (s\<lparr>w_cacheToken := t\<rparr>, Some R_Dial))"
| "recreateWsConn c (RecDial ok) R_Dial s =
     Some (if ok then (s\<lparr>w_open := insert (w_conns s) (w_open s), w_conns := w_conns s + 1\<rparr>, Some (R_Dialled (Some (w_conns s))))
           else (s, Some (R_Dialled None)))"
| "recreateWsConn c RecGo (R_Dialled ws) s =
     Some (if w_closeCh s then (s\<lparr>w_open := (case ws of None \<Rightarrow> w_open s | Some k \<Rightarrow> w_open s - {k})\<rparr>, None)
           else case ws of
             None \<Rightarrow> (setConnectionState False False (s\<lparr>w_failures := w_failures s + 1\<rparr>), None)
           | Some k \<Rightarrow> (s, Some (R_Replace k)))"
| "recreateWsConn c RecGo (R_Replace k) s = Some (replaceConn k s, Some R_Replaced)"
| "recreateWsConn c RecGo R_Replaced s = Some (setConnectionState True False s, Some R_Connected)"
| "recreateWsConn c RecGo R_Connected s =
     Some (new_receiver (s\<lparr>w_done := w_dones s, w_dones := w_dones s + 1\<rparr>), None)"
| "recreateWsConn c _ _ s = None"

text \<open>The two parts of \<open>startReconnecting\<close>: the checks, and the compare-and-set under the lock.\<close>

definition reconnect_checks :: "ws_state \<Rightarrow> ws_state \<times> bool" where
  "reconnect_checks s =
     (if w_closeCh s then (s, False)
      else if w_baseEnded s then (setConnectionState False False s, False) else (s, True))"

definition reconnect_claim :: "ws_state \<Rightarrow> ws_state \<times> bool" where
  "reconnect_claim s = (if w_connected s \<or> w_connecting s then (s, False) else (s\<lparr>w_connecting := True\<rparr>, True))"

subsection \<open>The loops\<close>

datatype keep_event = KeepExit | KeepPing | KeepTick | KeepGo | KeepRec rec_event

fun keepAlive :: "ws_config \<Rightarrow> keep_event \<Rightarrow> keep_pc \<Rightarrow> ws_state \<Rightarrow> (ws_state \<times> keep_pc option) option" where
  "keepAlive c KeepExit K_Top s =
     (if w_closeCh s then Some (s, None)
      else if w_baseEnded s then Some (setConnectionState False False s, None) else None)"
| "keepAlive c KeepPing K_Top s = Some (s, Some (if w_connected s then K_Ping else K_Top))"
| "keepAlive c KeepGo K_Ping s =
     Some (case enqueueWrite (TextJob ''ping'') s of None \<Rightarrow> (setConnected False s, Some K_Top) | Some t \<Rightarrow> (t, Some K_Top))"
| "keepAlive c KeepTick K_Top s = (case reconnect_checks s of (t, ok) \<Rightarrow> Some (t, Some (if ok then K_Check else K_Top)))"
| "keepAlive c KeepGo K_Check s = (case reconnect_claim s of (t, ok) \<Rightarrow> Some (t, Some (if ok then K_Run R_Start else K_Top)))"
| "keepAlive c (KeepRec e) (K_Run pc) s =
     map_option (\<lambda>(t, pc'). (t, Some (case pc' of None \<Rightarrow> K_Top | Some r \<Rightarrow> K_Run r))) (recreateWsConn c e pc s)"
| "keepAlive c _ _ s = None"

text \<open>\<open>reconnectNow\<close> of the asynchronous constructor.\<close>

fun reconnectNow :: "ws_config \<Rightarrow> rec_event \<Rightarrow> async_pc \<Rightarrow> ws_state \<Rightarrow> (ws_state \<times> async_pc) option" where
  "reconnectNow c RecGo A_Call s = (case reconnect_checks s of (t, ok) \<Rightarrow> Some (t, if ok then A_Check else A_Over))"
| "reconnectNow c RecGo A_Check s = (case reconnect_claim s of (t, ok) \<Rightarrow> Some (t, if ok then A_Run R_Start else A_Over))"
| "reconnectNow c e (A_Run pc) s =
     map_option (\<lambda>(t, pc'). (t, case pc' of None \<Rightarrow> A_Over | Some r \<Rightarrow> A_Run r)) (recreateWsConn c e pc s)"
| "reconnectNow c _ _ s = None"

text \<open>\<open>messageReceiveHandler\<close>. Leaving it closes its \<open>Done\<close> channel.\<close>

datatype rcv_event = RcvGo | RcvStop | RcvMessage string | RcvError

definition rcv_leave :: "nat \<Rightarrow> ws_state \<Rightarrow> ws_state \<times> rcv_pc option" where
  "rcv_leave d s = (s\<lparr>w_doneClosed := insert d (w_doneClosed s)\<rparr>, None)"

fun messageReceiveHandler :: "rcv_event \<Rightarrow> rcv_pc \<Rightarrow> ws_state \<Rightarrow> (ws_state \<times> rcv_pc option) option" where
  "messageReceiveHandler RcvGo Rcv_Enter s = Some (s, Some (Rcv_Top (w_done s)))"
| "messageReceiveHandler RcvGo (Rcv_Top d) s =
     Some (if w_closeCh s \<or> w_baseEnded s then rcv_leave d s else (s, Some (Rcv_Check d)))"
| "messageReceiveHandler RcvGo (Rcv_Check d) s = Some (s, Some (if w_connected s then Rcv_Conn d else Rcv_Sleep d))"
| "messageReceiveHandler RcvGo (Rcv_Conn d) s =
     Some (case w_conn s of None \<Rightarrow> (setConnected False s, Some (Rcv_Top d)) | Some k \<Rightarrow> (s, Some (Rcv_Read d k)))"
| "messageReceiveHandler (RcvMessage m) (Rcv_Read d k) s = Some (s, Some (if m \<noteq> ''pong'' then Rcv_Deliver d m else Rcv_Top d))"
| "messageReceiveHandler RcvError (Rcv_Read d k) s = Some (rcv_leave d (setConnected False s))"
| "messageReceiveHandler RcvGo (Rcv_Deliver d m) s =
     (if w_recvClosed s then Some (s\<lparr>w_panic := True\<rparr>, None)
      else if length (w_recv s) < channel_cap then Some (s\<lparr>w_recv := w_recv s @ [m]\<rparr>, Some (Rcv_Top d)) else None)"
| "messageReceiveHandler RcvStop (Rcv_Deliver d m) s = (if w_closeCh s then Some (rcv_leave d s) else None)"
| "messageReceiveHandler RcvGo (Rcv_Sleep d) s = Some (s, Some (Rcv_Top d))"
| "messageReceiveHandler RcvStop (Rcv_Sleep d) s = (if w_closeCh s \<or> w_baseEnded s then Some (rcv_leave d s) else None)"
| "messageReceiveHandler _ _ s = None"

text \<open>\<open>messageSendHandler\<close> with \<open>sendQueuedMessage\<close>, \<open>trySendReceiveMessage\<close>, \<open>waitForNextDoneChan\<close> and \<open>handleInterrupt\<close>.
  When several cases of a \<open>select\<close> are ready any of them may be taken.\<close>

datatype snd_event = SndGo | SndStop | SndDone | SndTake | SndInterrupt

definition trySendReceiveMessage :: "string \<Rightarrow> ws_state \<Rightarrow> ws_state" where
  "trySendReceiveMessage m s =
     (if w_recvClosed s then s\<lparr>w_panic := True\<rparr>
      else if length (w_recv s) < channel_cap then s\<lparr>w_recv := w_recv s @ [m]\<rparr> else s)"

fun messageSendHandler :: "snd_event \<Rightarrow> snd_pc \<Rightarrow> ws_state \<Rightarrow> (ws_state \<times> snd_pc option) option" where
  "messageSendHandler SndGo S_Loop s = Some (s, Some (S_Select (w_done s)))"
| "messageSendHandler SndStop (S_Select d) s = (if w_closeCh s \<or> w_baseEnded s then Some (s, None) else None)"
| "messageSendHandler SndDone (S_Select d) s = (if d \<in> w_doneClosed s then Some (s, Some (S_WaitDone d)) else None)"
| "messageSendHandler SndTake (S_Select d) s =
     (case w_send s of [] \<Rightarrow> None | m # q \<Rightarrow> Some (s\<lparr>w_send := q\<rparr>, Some (S_Msg m)))"
| "messageSendHandler SndInterrupt (S_Select d) s =
     Some (case enqueueWrite CloseJob s of None \<Rightarrow> s | Some t \<Rightarrow> t, Some S_Interrupt)"
| "messageSendHandler SndGo (S_WaitDone d) s = (if w_done s \<noteq> d then Some (s, Some S_Loop) else None)"
| "messageSendHandler SndStop (S_WaitDone d) s = (if w_closeCh s \<or> w_baseEnded s then Some (s, None) else None)"
| "messageSendHandler SndGo (S_Msg m) s = Some (s, Some (if w_connected s then S_Enqueue m else S_Fail m))"
| "messageSendHandler SndGo (S_Enqueue m) s =
     Some (case enqueueWrite (TextJob m) s of None \<Rightarrow> (setConnected False s, Some (S_Fail m)) | Some t \<Rightarrow> (t, Some S_Loop))"
| "messageSendHandler SndGo (S_Fail m) s = Some (trySendReceiveMessage (apiServerErrorMessage m) s, Some S_Loop)"
| "messageSendHandler SndStop (S_Fail m) s = (if w_closeCh s then Some (s, Some S_Loop) else None)"
| "messageSendHandler SndGo S_Interrupt s = Some (s, None)"
| "messageSendHandler _ _ s = None"

datatype writer_event = WriterStop | WriterTake | WriterWrote bool

fun writeLoop :: "writer_event \<Rightarrow> writer_pc \<Rightarrow> ws_state \<Rightarrow> (ws_state \<times> writer_pc option) option" where
  "writeLoop WriterStop W_Top s = (if w_writeStop s then Some (s, None) else None)"
| "writeLoop WriterTake W_Top s =
     (case w_write s of [] \<Rightarrow> None
      | j # q \<Rightarrow> Some (case w_conn s of None \<Rightarrow> (setConnected False (s\<lparr>w_write := q\<rparr>), Some W_Top)
                      | Some k \<Rightarrow> (s\<lparr>w_write := q\<rparr>, Some (W_Write k))))"
| "writeLoop (WriterWrote ok) (W_Write k) s = Some (if ok then s else setConnected False s, Some W_Top)"
| "writeLoop _ _ s = None"

text \<open>\<open>Close\<close>, run once by whoever calls it first.\<close>

definition loops_over :: "ws_state \<Rightarrow> bool" where
  "loops_over s \<longleftrightarrow> w_keep s = None \<and> w_sender s = None \<and> w_writer s = None \<and> w_rcv s = Map.empty \<and>
     (case w_async s of A_Run pc \<Rightarrow> False | _ \<Rightarrow> True)"

fun ws_Close :: "close_pc \<Rightarrow> ws_state \<Rightarrow> ws_state option" where
  "ws_Close C_Idle s = Some (s\<lparr>w_closed := True, w_close := C_Flagged\<rparr>)"
| "ws_Close C_Flagged s = Some ((setConnectionState False False s)\<lparr>w_close := C_State\<rparr>)"
| "ws_Close C_State s = Some (s\<lparr>w_closeCh := True, w_close := C_CloseCh\<rparr>)"
| "ws_Close C_CloseCh s = Some (s\<lparr>w_writeStop := True, w_close := C_WriteStop\<rparr>)"
| "ws_Close C_WriteStop s = Some (s\<lparr>w_doneClosed := insert (w_done s) (w_doneClosed s), w_close := C_DoneCh\<rparr>)"
| "ws_Close C_DoneCh s = Some (s\<lparr>w_close := (case w_conn s of None \<Rightarrow> C_Wait | Some k \<Rightarrow> C_Conn k)\<rparr>)"
| "ws_Close (C_Conn k) s = Some (s\<lparr>w_open := w_open s - {k}, w_close := C_ConnClosed\<rparr>)"
| "ws_Close C_ConnClosed s = Some (s\<lparr>w_conn := None, w_close := C_Wait\<rparr>)"
| "ws_Close C_Wait s = (if loops_over s then Some (s\<lparr>w_recvClosed := True, w_close := C_Finished\<rparr>) else None)"
| "ws_Close C_Finished s = None"

datatype ws_label = BaseEnd | Closing | UserSend string | UserReceive | Keep keep_event | Async rec_event
  | Rcv nat rcv_event | Snd snd_event | Writer writer_event

fun ws_exec :: "ws_config \<Rightarrow> ws_label \<Rightarrow> ws_state \<Rightarrow> ws_state option" where
  "ws_exec c BaseEnd s = Some (s\<lparr>w_baseEnded := True\<rparr>)"
| "ws_exec c Closing s = ws_Close (w_close s) s"
| "ws_exec c (UserSend m) s = (if length (w_send s) < channel_cap then Some (s\<lparr>w_send := w_send s @ [m]\<rparr>) else None)"
| "ws_exec c UserReceive s = (case w_recv s of [] \<Rightarrow> None | m # q \<Rightarrow> Some (s\<lparr>w_recv := q\<rparr>))"
| "ws_exec c (Keep e) s =
     Option.bind (w_keep s) (\<lambda>pc. map_option (\<lambda>(t, pc'). t\<lparr>w_keep := pc'\<rparr>) (keepAlive c e pc s))"
| "ws_exec c (Async e) s = map_option (\<lambda>(t, pc'). t\<lparr>w_async := pc'\<rparr>) (reconnectNow c e (w_async s) s)"
| "ws_exec c (Rcv i e) s =
     Option.bind (w_rcv s i) (\<lambda>pc. map_option (\<lambda>(t, pc'). t\<lparr>w_rcv := (w_rcv t)(i := pc')\<rparr>) (messageReceiveHandler e pc s))"
| "ws_exec c (Snd e) s =
     Option.bind (w_sender s) (\<lambda>pc. map_option (\<lambda>(t, pc'). t\<lparr>w_sender := pc'\<rparr>) (messageSendHandler e pc s))"
| "ws_exec c (Writer e) s =
     Option.bind (w_writer s) (\<lambda>pc. map_option (\<lambda>(t, pc'). t\<lparr>w_writer := pc'\<rparr>) (writeLoop e pc s))"

definition ws_step :: "ws_config \<Rightarrow> ws_state \<Rightarrow> ws_state \<Rightarrow> bool" where
  "ws_step c = exec_step (ws_exec c)"

text \<open>What the constructors return: a live connection, no connection yet, no connection and a first attempt on its own
  goroutine, or (when the context has ended) only the writer.\<close>

datatype ws_start = StartConnected | StartReconnectable | StartAsync | StartEnded

definition newWsConn :: "string \<Rightarrow> ws_start \<Rightarrow> ws_state" where
  "newWsConn token how =
     \<lparr>w_connected = (how = StartConnected), w_connecting = False, w_conn = (if how = StartConnected then Some 0 else None),
      w_open = (if how = StartConnected then {0} else {}), w_conns = (if how = StartConnected then 1 else 0),
      w_done = 0, w_doneClosed = {}, w_dones = 1, w_closed = False, w_closeCh = False, w_writeStop = False,
      w_baseEnded = (how = StartEnded), w_recvClosed = False, w_send = [], w_recv = [], w_write = [],
      w_cacheToken = token, w_failures = 0,
      w_keep = (if how = StartEnded then None else Some K_Top),
      w_async = (if how = StartAsync then A_Call else A_Over),
      w_sender = (if how = StartEnded then None else Some S_Loop), w_writer = Some W_Top,
      w_rcv = (if how = StartConnected then [0 \<mapsto> Rcv_Enter] else Map.empty),
      w_rcvs = (if how = StartConnected then 1 else 0), w_close = C_Idle, w_panic = False\<rparr>"

text \<open>The constructors; the outcomes of the fast-IP probe, of the token service and of the dialling are arguments. A direct address needs no
  probe; with a token in the environment the service is not asked.\<close>

definition newReconnectableWsConn :: "bool \<Rightarrow> string \<Rightarrow> ws_state" where
  "newReconnectableWsConn ctx_ended token = newWsConn token (if ctx_ended then StartEnded else StartReconnectable)"

definition createWsConn :: "ws_config \<Rightarrow> bool \<Rightarrow> bool \<Rightarrow> bool \<Rightarrow> string option \<Rightarrow> bool \<Rightarrow> string \<Rightarrow> ws_state" where
  "createWsConn c direct ctx_ended probed fetched dialled token =
     (if \<not> direct \<and> \<not> probed then newReconnectableWsConn ctx_ended token
      else case (if wc_envToken c \<noteq> [] then Some (wc_envToken c) else fetched) of
        None \<Rightarrow> newReconnectableWsConn ctx_ended token
      | Some t \<Rightarrow>
          if dialled then newWsConn t StartConnected
          else (newReconnectableWsConn ctx_ended t)\<lparr>w_failures := 1\<rparr>)"

definition createWsConnAsync :: "bool \<Rightarrow> string \<Rightarrow> ws_state" where
  "createWsConnAsync ctx_ended token = newWsConn token (if ctx_ended then StartEnded else StartAsync)"

text \<open>\<open>replaceGlobalWsConn\<close>: the new global connection, and the one to be closed. \<open>isClosed\<close> of a handle is a parameter.\<close>

definition replaceGlobalWsConn :: "bool \<Rightarrow> ('h \<Rightarrow> bool) \<Rightarrow> 'h option \<Rightarrow> 'h option \<Rightarrow> 'h option \<times> 'h option" where
  "replaceGlobalWsConn ctx_ended is_closed old new =
     (if ctx_ended \<or> (case new of None \<Rightarrow> False | Some n \<Rightarrow> is_closed n)
      then (old, if new \<noteq> old then new else None)
      else (new, if old \<noteq> new then old else None))"


subsection \<open>What a segment leaves alone\<close>

lemmas ws_setters = setConnectionState_def setConnected_def new_receiver_def replaceConn_def rcv_leave_def
  reconnect_checks_def reconnect_claim_def enqueueWrite_def trySendReceiveMessage_def

text \<open>The fields that only \<open>Close\<close>, the end of the context and panics change, and the other loops' counters.\<close>

definition ws_rest :: "ws_state \<Rightarrow> _" where
  "ws_rest s = (w_closed s, w_closeCh s, w_writeStop s, w_baseEnded s, w_recvClosed s, w_close s)"

lemma recreate_rest: "recreateWsConn c e pc s = Some (t, pc') \<Longrightarrow> ws_rest t = ws_rest s \<and> w_panic t = w_panic s \<and>
    w_keep t = w_keep s \<and> w_async t = w_async s \<and> w_sender t = w_sender s \<and> w_writer t = w_writer s \<and> w_send t = w_send s"
  by (induction c e pc s rule: recreateWsConn.induct)
    (auto simp: ws_rest_def ws_setters split: if_splits option.splits)

lemma keep_rest:
  assumes "keepAlive c e pc s = Some (t, pc')"
  shows "ws_rest t = ws_rest s \<and> w_panic t = w_panic s \<and> w_async t = w_async s \<and> w_sender t = w_sender s \<and> w_writer t = w_writer s"
proof (cases pc)
  case (K_Run r)
  then obtain e' r' where "recreateWsConn c e' r s = Some (t, r')" using assms by (cases e) auto
  then show ?thesis using recreate_rest by blast
qed (use assms in \<open>cases e; auto simp: ws_rest_def ws_setters split: if_splits\<close>)+

lemma async_rest:
  assumes "reconnectNow c e pc s = Some (t, pc')"
  shows "ws_rest t = ws_rest s \<and> w_panic t = w_panic s \<and> w_keep t = w_keep s \<and> w_sender t = w_sender s \<and> w_writer t = w_writer s"
proof (cases pc)
  case (A_Run r)
  then obtain r' where "recreateWsConn c e r s = Some (t, r')" using assms by (cases e) auto
  then show ?thesis using recreate_rest by blast
qed (use assms in \<open>cases e; auto simp: ws_rest_def ws_setters split: if_splits\<close>)+

lemma receiver_rest: "messageReceiveHandler e pc s = Some (t, pc') \<Longrightarrow> ws_rest t = ws_rest s \<and>
    (w_recvClosed s \<or> w_panic t = w_panic s) \<and> w_keep t = w_keep s \<and> w_async t = w_async s \<and> w_sender t = w_sender s \<and>
    w_writer t = w_writer s \<and> w_rcv t = w_rcv s \<and> w_conn t = w_conn s \<and> w_open t = w_open s \<and> w_conns t = w_conns s \<and>
    w_connecting t = w_connecting s \<and> w_cacheToken t = w_cacheToken s"
  by (induction e pc s rule: messageReceiveHandler.induct)
    (auto simp: ws_rest_def ws_setters split: if_splits option.splits)

lemma sender_rest: "messageSendHandler e pc s = Some (t, pc') \<Longrightarrow> ws_rest t = ws_rest s \<and>
    (w_recvClosed s \<or> w_panic t = w_panic s) \<and> w_keep t = w_keep s \<and> w_async t = w_async s \<and> w_rcv t = w_rcv s \<and>
    w_writer t = w_writer s \<and> w_conn t = w_conn s \<and> w_open t = w_open s \<and> w_conns t = w_conns s \<and> w_connecting t = w_connecting s \<and>
    w_cacheToken t = w_cacheToken s"
  by (induction e pc s rule: messageSendHandler.induct)
    (auto simp: ws_rest_def ws_setters split: if_splits option.splits list.splits)

lemma writer_rest: "writeLoop e pc s = Some (t, pc') \<Longrightarrow> ws_rest t = ws_rest s \<and> w_panic t = w_panic s \<and>
    w_keep t = w_keep s \<and> w_async t = w_async s \<and> w_sender t = w_sender s \<and> w_rcv t = w_rcv s \<and>
    w_conn t = w_conn s \<and> w_open t = w_open s \<and> w_conns t = w_conns s \<and> w_connecting t = w_connecting s \<and>
    w_cacheToken t = w_cacheToken s"
  by (induction e pc s rule: writeLoop.induct)
    (auto simp: ws_rest_def ws_setters split: if_splits option.splits list.splits)

subsection \<open>No send on a closed channel\<close>

text \<open>When \<open>Close\<close> has closed the receive channel every loop has returned; only a first attempt that was claimed
  before may still start, and it returns at its first check.\<close>

definition ws_quiet :: "ws_state \<Rightarrow> bool" where
  "ws_quiet s \<longleftrightarrow> w_keep s = None \<and> w_sender s = None \<and> w_writer s = None \<and> w_rcv s = Map.empty \<and>
     w_async s \<in> {A_Call, A_Check, A_Run R_Start, A_Over}"

definition close_order :: "ws_state \<Rightarrow> bool" where
  "close_order s \<longleftrightarrow> (w_closed s \<longleftrightarrow> w_close s \<noteq> C_Idle) \<and> (w_closeCh s \<longleftrightarrow> w_close s \<notin> {C_Idle, C_Flagged, C_State}) \<and>
     (w_recvClosed s \<longleftrightarrow> w_close s = C_Finished)"

definition ws_safe :: "ws_state \<Rightarrow> bool" where
  "ws_safe s \<longleftrightarrow> close_order s \<and> (w_close s = C_Finished \<longrightarrow> ws_quiet s) \<and> \<not> w_panic s"

lemma close_order_rest: "ws_rest t = ws_rest s \<Longrightarrow> close_order t = close_order s"
  by (simp add: ws_rest_def close_order_def)

lemma ws_Close_safe: "ws_Close (w_close s) s = Some t \<Longrightarrow> ws_safe s \<Longrightarrow> ws_safe t"
  by (cases "w_close s")
    (auto simp: ws_safe_def close_order_def ws_quiet_def loops_over_def setConnectionState_def split: option.splits if_splits async_pc.splits)

lemma ws_exec_safe:
  assumes "ws_exec c l s = Some t" "ws_safe s"
  shows "ws_safe t"
proof (cases "w_close s = C_Finished")
  case True
  then have q: "ws_quiet s" "w_closeCh s" "close_order s" "\<not> w_panic s" using assms(2) by (auto simp: ws_safe_def close_order_def)
  have n: "w_keep s = None" "w_sender s = None" "w_writer s = None" "w_rcv s = Map.empty" using q(1) by (simp_all add: ws_quiet_def)
  show ?thesis
  proof (cases l)
    case (Async e)
    then obtain u a where u: "reconnectNow c e (w_async s) s = Some (u, a)" "t = u\<lparr>w_async := a\<rparr>"
      using assms(1) by auto
    have "a \<in> {A_Call, A_Check, A_Run R_Start, A_Over} \<and> w_rcv u = w_rcv s"
    proof (cases "w_async s")
      case A_Call
      then show ?thesis using u(1) q(2) by (cases e) (auto simp: reconnect_checks_def)
    next
      case A_Check
      then show ?thesis using u(1) by (cases e) (auto simp: reconnect_claim_def split: if_splits)
    next
      case (A_Run r)
      then have "r = R_Start" using q(1) by (simp add: ws_quiet_def)
      then show ?thesis using A_Run u(1) q(2) by (cases e) auto
    next
      case A_Over
      then show ?thesis using u(1) by (cases e) auto
    qed
    then show ?thesis using async_rest [OF u(1)] q n True u(2)
      by (simp add: ws_safe_def ws_quiet_def close_order_def ws_rest_def)
  qed (use assms(1,2) True n in \<open>simp_all add: ws_safe_def ws_quiet_def close_order_def split: if_splits list.splits\<close>,
    use assms(1,2) True n in \<open>auto simp: ws_safe_def ws_quiet_def close_order_def\<close>)
next
  case False
  then have o: "close_order s" "\<not> w_panic s" "\<not> w_recvClosed s" using assms(2) by (auto simp: ws_safe_def close_order_def)
  show ?thesis
  proof (cases l)
    case Closing
    then show ?thesis using assms ws_Close_safe by simp
  next
    case (Keep e)
    then obtain pc u pc' where u: "keepAlive c e pc s = Some (u, pc')" "t = u\<lparr>w_keep := pc'\<rparr>"
      using assms(1) by (auto simp: bind_eq_Some_conv)
    then show ?thesis using keep_rest [OF u(1)] o False by (simp add: ws_safe_def close_order_def ws_rest_def)
  next
    case (Async e)
    then obtain u pc' where u: "reconnectNow c e (w_async s) s = Some (u, pc')" "t = u\<lparr>w_async := pc'\<rparr>"
      using assms(1) by auto
    then show ?thesis using async_rest [OF u(1)] o False by (simp add: ws_safe_def close_order_def ws_rest_def)
  next
    case (Rcv i e)
    then obtain pc u pc' where u: "messageReceiveHandler e pc s = Some (u, pc')" "t = u\<lparr>w_rcv := (w_rcv u)(i := pc')\<rparr>"
      using assms(1) by (auto simp: bind_eq_Some_conv)
    then show ?thesis using receiver_rest [OF u(1)] o False by (simp add: ws_safe_def close_order_def ws_rest_def)
  next
    case (Snd e)
    then obtain pc u pc' where u: "messageSendHandler e pc s = Some (u, pc')" "t = u\<lparr>w_sender := pc'\<rparr>"
      using assms(1) by (auto simp: bind_eq_Some_conv)
    then show ?thesis using sender_rest [OF u(1)] o False by (simp add: ws_safe_def close_order_def ws_rest_def)
  next
    case (Writer e)
    then obtain pc u pc' where u: "writeLoop e pc s = Some (u, pc')" "t = u\<lparr>w_writer := pc'\<rparr>"
      using assms(1) by (auto simp: bind_eq_Some_conv)
    then show ?thesis using writer_rest [OF u(1)] o False by (simp add: ws_safe_def close_order_def ws_rest_def)
  qed (use o False assms(1) in \<open>auto simp: ws_safe_def close_order_def split: if_splits list.splits\<close>)
qed

interpretation ws_run: step_invariant "ws_step c" ws_safe for c
  by unfold_locales (auto simp: ws_step_def exec_step_def intro: ws_exec_safe)

lemma ws_safe_new: "ws_safe (newWsConn tok how)"
  by (simp add: ws_safe_def close_order_def newWsConn_def)

lemma ws_safe_created: "ws_safe (createWsConn c direct ctx_ended probed fetched dialled token)" "ws_safe (createWsConnAsync e token)"
  by (auto simp: createWsConn_def createWsConnAsync_def newReconnectableWsConn_def ws_safe_def close_order_def newWsConn_def
      split: option.split)

text \<open>C28. No loop of the client ever sends on a closed channel, whatever connections fail and whoever closes the handle at which moment:
  the receive channel is closed once, after every loop has returned, and no loop runs again after it.\<close>

theorem ws_no_panic:
  assumes "reaches (ws_step c) (newWsConn tok how) s"
  shows "\<not> w_panic s \<and> (w_recvClosed s \<longrightarrow> w_close s = C_Finished \<and> w_keep s = None \<and> w_sender s = None \<and> w_writer s = None \<and>
    w_rcv s = Map.empty \<and> w_async s \<in> {A_Call, A_Check, A_Run R_Start, A_Over})"
proof -
  have "ws_safe s" using ws_run.reachable_inv [OF assms ws_safe_new] .
  then show ?thesis by (auto simp: ws_safe_def close_order_def ws_quiet_def)
qed

end
