(* ===== verification/Ws_Dial.thy ===== *)
theory Ws_Dial
  imports Ws_Client
begin

section \<open>Reconnecting the WebSocket client\<close>

text \<open>
  The invariant of the connection attempts, and the defects that runs of the model show.
\<close>

subsection \<open>One attempt at a time\<close>

definition keep_rec :: "ws_state \<Rightarrow> recreate_pc option" where
  "keep_rec s = (case w_keep s of Some (K_Run r) \<Rightarrow> Some r | _ \<Rightarrow> None)"

definition async_rec :: "ws_state \<Rightarrow> recreate_pc option" where
  "async_rec s = (case w_async s of A_Run r \<Rightarrow> Some r | _ \<Rightarrow> None)"

text \<open>An attempt that holds the claim, and the connection it has made but not yet published.\<close>

definition dialling :: "recreate_pc option \<Rightarrow> bool" where
  "dialling r \<longleftrightarrow> r \<noteq> None \<and> r \<noteq> Some R_Connected"

fun held :: "recreate_pc option \<Rightarrow> nat set" where
  "held (Some (R_Dialled (Some k))) = {k}"
| "held (Some (R_Replace k)) = {k}"
| "held _ = {}"

definition dial_inv :: "ws_state \<Rightarrow> bool" where
  "dial_inv s \<longleftrightarrow> \<not> (dialling (keep_rec s) \<and> dialling (async_rec s)) \<and>
     w_connecting s = (dialling (keep_rec s) \<or> dialling (async_rec s)) \<and>
     w_open s = set_option (w_conn s) \<union> held (keep_rec s) \<union> held (async_rec s)"

lemma held_dialling: "\<not> dialling r \<Longrightarrow> held r = {}"
  by (cases r rule: held.cases) (auto simp: dialling_def)

lemma recreate_dial:
  assumes "recreateWsConn c e r s = Some (t, r')" "\<not> w_closeCh s" "\<not> w_baseEnded s"
  shows "(if r = R_Connected then r' = None \<and> w_connecting t = w_connecting s \<and> w_open t = w_open s \<and> w_conn t = w_conn s
    else (w_connecting s \<longrightarrow> w_connecting t = dialling r') \<and>
      (w_open s = set_option (w_conn s) \<union> held (Some r) \<longrightarrow> w_open t = set_option (w_conn t) \<union> held r'))"
proof (cases r)
  case (R_Dialled ws)
  then have t: "case ws of None \<Rightarrow> t = setConnectionState False False (s\<lparr>w_failures := w_failures s + 1\<rparr>) \<and> r' = None
      | Some k \<Rightarrow> t = s \<and> r' = Some (R_Replace k)"
    using assms by (cases e) (auto split: option.splits)
  show ?thesis
  proof (cases ws)
    case None
    then have "t = setConnectionState False False (s\<lparr>w_failures := w_failures s + 1\<rparr>)" "r' = None" using t by simp_all
    then show ?thesis using R_Dialled None by (simp add: dialling_def setConnectionState_def)
  next
    case (Some k)
    then have "t = s" "r' = Some (R_Replace k)" using t by simp_all
    then show ?thesis using R_Dialled Some by (simp add: dialling_def)
  qed
next
  case (R_Replace k)
  then have t: "t = replaceConn k s \<and> r' = Some R_Replaced" using assms by (cases e) auto
  show ?thesis using R_Replace conjunct1 [OF t] conjunct2 [OF t] by (cases "w_conn s") (auto simp: replaceConn_def dialling_def)
next
  case R_Start
  then have "t = setConnected False s \<and> r' \<in> {Some R_FastIP, Some R_Token}"
    using assms by (cases e) (auto split: if_splits)
  then show ?thesis using R_Start by (elim conjE insertE) (simp_all add: dialling_def setConnected_def)
next
  case R_FastIP
  then have "t = s \<and> r' = Some R_Token \<or> t = setConnectionState False False s \<and> r' = None"
    using assms by (cases e) (auto split: if_splits)
  then show ?thesis using R_FastIP by (elim disjE conjE) (simp_all add: dialling_def setConnectionState_def)
next
  case R_Token
  then have "w_conn t = w_conn s \<and> w_open t = w_open s \<and> (r' = Some R_Dial \<and> w_connecting t = w_connecting s \<or> r' = None \<and> \<not> w_connecting t)"
    using assms by (cases e) (auto simp: setConnectionState_def split: if_splits option.splits)
  then show ?thesis using R_Token by (elim conjE disjE) (simp_all add: dialling_def)
next
  case R_Dial
  then have "t = s \<and> r' = Some (R_Dialled None) \<or>
      t = s\<lparr>w_open := insert (w_conns s) (w_open s), w_conns := w_conns s + 1\<rparr> \<and> r' = Some (R_Dialled (Some (w_conns s)))"
    using assms by (cases e) (auto split: if_splits)
  then show ?thesis using R_Dial by (elim conjE disjE) (simp_all add: dialling_def)
next
  case R_Replaced
  then have "t = setConnectionState True False s \<and> r' = Some R_Connected" using assms by (cases e) auto
  then show ?thesis using R_Replaced by (simp add: dialling_def setConnectionState_def)
next
  case R_Connected
  then have "t = new_receiver (s\<lparr>w_done := w_dones s, w_dones := w_dones s + 1\<rparr>) \<and> r' = None" using assms by (cases e) auto
  then show ?thesis using R_Connected by (simp add: new_receiver_def)
qed

lemma dial_inv_swap:
  assumes "dial_inv s" "\<not> w_closeCh s" "\<not> w_baseEnded s" "recreateWsConn c e r s = Some (t, r')"
    "keep_rec s = Some r \<and> other = async_rec s \<or> async_rec s = Some r \<and> other = keep_rec s"
  shows "\<not> (dialling r' \<and> dialling other) \<and> w_connecting t = (dialling r' \<or> dialling other) \<and>
    w_open t = set_option (w_conn t) \<union> held r' \<union> held other"
proof (cases "r = R_Connected")
  case True
  then have n: "\<not> dialling (Some r)" "held (Some r) = {}" by (simp_all add: dialling_def)
  have "r' = None" "w_connecting t = w_connecting s" "w_open t = w_open s" "w_conn t = w_conn s"
    using recreate_dial [OF assms(4,2,3)] True by simp_all
  then show ?thesis using assms(1,5) n by (auto simp: dial_inv_def dialling_def)
next
  case False
  then have d: "dialling (Some r)" by (simp add: dialling_def)
  then have o: "\<not> dialling other" "held other = {}" "w_connecting s" "w_open s = set_option (w_conn s) \<union> held (Some r)"
    using assms(1,5) held_dialling by (auto simp: dial_inv_def)
  then show ?thesis using recreate_dial [OF assms(4,2,3)] False by auto
qed

text \<open>A segment of another loop only may change \<open>w_connected\<close>.\<close>

lemma dial_inv_frame:
  assumes "w_connecting t = w_connecting s" "w_open t = w_open s" "w_conn t = w_conn s" "keep_rec t = keep_rec s" "async_rec t = async_rec s"
  shows "dial_inv t = dial_inv s"
  using assms by (simp add: dial_inv_def)

lemma keep_rec_K [simp]: "keep_rec (t\<lparr>w_keep := k\<rparr>) = (case k of Some (K_Run r) \<Rightarrow> Some r | _ \<Rightarrow> None)"
  by (simp add: keep_rec_def)

lemma async_rec_A [simp]: "async_rec (t\<lparr>w_async := a\<rparr>) = (case a of A_Run r \<Rightarrow> Some r | _ \<Rightarrow> None)"
  by (simp add: async_rec_def)

lemma rec_frame [simp]:
  "async_rec (t\<lparr>w_keep := k\<rparr>) = async_rec t" "keep_rec (t\<lparr>w_async := a\<rparr>) = keep_rec t"
  "keep_rec (t\<lparr>w_rcv := r\<rparr>) = keep_rec t" "async_rec (t\<lparr>w_rcv := r\<rparr>) = async_rec t"
  "keep_rec (t\<lparr>w_sender := x\<rparr>) = keep_rec t" "async_rec (t\<lparr>w_sender := x\<rparr>) = async_rec t"
  "keep_rec (t\<lparr>w_writer := y\<rparr>) = keep_rec t" "async_rec (t\<lparr>w_writer := y\<rparr>) = async_rec t"
  by (simp_all add: keep_rec_def async_rec_def)

lemma keep_dial:
  assumes "keepAlive c e pc s = Some (u, pc')" "w_keep s = Some pc" "dial_inv s" "\<not> w_closeCh s" "\<not> w_baseEnded s"
  shows "dial_inv (u\<lparr>w_keep := pc'\<rparr>)"
proof (cases pc)
  case (K_Run r)
  then obtain e' r' where r: "recreateWsConn c e' r s = Some (u, r')" "pc' = Some (case r' of None \<Rightarrow> K_Top | Some x \<Rightarrow> K_Run x)"
    using assms(1) by (cases e) auto
  have "keep_rec (u\<lparr>w_keep := pc'\<rparr>) = r'" using r(2) by (simp split: option.split)
  moreover have "async_rec u = async_rec s" using recreate_rest [OF r(1)] by (simp add: async_rec_def)
  moreover have "keep_rec s = Some r" using K_Run assms(2) by (simp add: keep_rec_def)
  ultimately show ?thesis using dial_inv_swap [OF assms(3-5) r(1), of "async_rec s"] by (simp add: dial_inv_def)
next
  case K_Top
  then have "u = s \<and> pc' \<in> {None, Some K_Top, Some K_Ping, Some K_Check}" using assms(1,4,5)
    by (cases e) (auto simp: reconnect_checks_def split: if_splits)
  then have "u = s" "(case pc' of Some (K_Run r) \<Rightarrow> Some r | _ \<Rightarrow> None) = keep_rec s"
    using K_Top assms(2) by (auto simp: keep_rec_def)
  then show ?thesis using assms(3) by (simp add: dial_inv_def)
next
  case K_Ping
  then have e: "e = KeepGo" using assms(1) by (cases e) auto
  then have "(u = setConnected False s \<or> (\<exists>q. u = s\<lparr>w_write := q\<rparr>)) \<and> pc' = Some K_Top"
    using assms(1) K_Ping by (auto simp: enqueueWrite_def split: if_splits)
  then have u: "w_connecting u = w_connecting s" "w_open u = w_open s" "w_conn u = w_conn s" "w_async u = w_async s" "pc' = Some K_Top"
    by (auto simp: setConnected_def)
  have "keep_rec s = None" using K_Ping assms(2) by (simp add: keep_rec_def)
  then show ?thesis using assms(3) u by (simp add: dial_inv_def async_rec_def)
next
  case K_Check
  then have e: "e = KeepGo" using assms(1) by (cases e) auto
  have n: "keep_rec s = None" using K_Check assms(2) by (simp add: keep_rec_def)
  show ?thesis
  proof (cases "w_connected s \<or> w_connecting s")
    case True
    then have "u = s" "pc' = Some K_Top" using assms(1) K_Check e by (simp_all add: reconnect_claim_def)
    then show ?thesis using n assms(3) by (simp add: dial_inv_def)
  next
    case False
    then have u: "u = s\<lparr>w_connecting := True\<rparr>" "pc' = Some (K_Run R_Start)"
      using assms(1) K_Check e by (simp_all add: reconnect_claim_def)
    have "async_rec u = async_rec s" using u(1) by (simp add: async_rec_def)
    then show ?thesis using u n assms(3) False by (simp add: dial_inv_def dialling_def)
  qed
qed

lemma async_dial:
  assumes "reconnectNow c e (w_async s) s = Some (u, pc')" "dial_inv s" "\<not> w_closeCh s" "\<not> w_baseEnded s"
  shows "dial_inv (u\<lparr>w_async := pc'\<rparr>)"
proof (cases "w_async s")
  case (A_Run r)
  then obtain r' where r: "recreateWsConn c e r s = Some (u, r')" "pc' = (case r' of None \<Rightarrow> A_Over | Some x \<Rightarrow> A_Run x)"
    using assms(1) by (cases e) auto
  have "async_rec (u\<lparr>w_async := pc'\<rparr>) = r'" using r(2) by (simp split: option.split)
  moreover have "keep_rec u = keep_rec s" using recreate_rest [OF r(1)] by (simp add: keep_rec_def)
  moreover have "async_rec s = Some r" using A_Run by (simp add: async_rec_def)
  ultimately show ?thesis using dial_inv_swap [OF assms(2-4) r(1), of "keep_rec s"] by (auto simp: dial_inv_def)
next
  case A_Call
  then have "u = s \<and> pc' \<in> {A_Check, A_Over}" using assms(1,3,4)
    by (cases e) (simp_all add: reconnect_checks_def)
  then have "u = s" "(case pc' of A_Run r \<Rightarrow> Some r | _ \<Rightarrow> None) = async_rec s"
    using A_Call by (auto simp: async_rec_def)
  then show ?thesis using assms(2) by (simp add: dial_inv_def)
next
  case A_Check
  then have e: "e = RecGo" using assms(1) by (cases e) auto
  have n: "async_rec s = None" using A_Check by (simp add: async_rec_def)
  show ?thesis
  proof (cases "w_connected s \<or> w_connecting s")
    case True
    then have "u = s" "pc' = A_Over" using assms(1) A_Check e by (simp_all add: reconnect_claim_def)
    then show ?thesis using n assms(2) by (simp add: dial_inv_def)
  next
    case False
    then have u: "u = s\<lparr>w_connecting := True\<rparr>" "pc' = A_Run R_Start"
      using assms(1) A_Check e by (simp_all add: reconnect_claim_def)
    have "keep_rec u = keep_rec s" using u(1) by (simp add: keep_rec_def)
    then show ?thesis using u n assms(2) False by (simp add: dial_inv_def dialling_def)
  qed
next
  case A_Over
  then show ?thesis using assms by (cases e) auto
qed

definition ws_active :: "ws_state \<Rightarrow> bool" where
  "ws_active s \<longleftrightarrow> w_close s = C_Idle \<and> \<not> w_baseEnded s"

lemma ws_exec_dial:
  assumes "ws_exec c l s = Some t" "ws_safe s" "ws_active s \<longrightarrow> dial_inv s" "ws_active t"
  shows "dial_inv t"
proof -
  have act: "ws_active s"
  proof (cases l)
    case Closing
    then show ?thesis using assms(1,4) by (cases "w_close s") (auto simp: ws_active_def setConnectionState_def split: if_splits option.splits)
  next
    case (Keep e)
    then show ?thesis using assms(1,4) keep_rest by (fastforce simp: bind_eq_Some_conv ws_active_def ws_rest_def)
  next
    case (Async e)
    then show ?thesis using assms(1,4) async_rest by (fastforce simp: ws_active_def ws_rest_def)
  next
    case (Rcv i e)
    then show ?thesis using assms(1,4) receiver_rest by (fastforce simp: bind_eq_Some_conv ws_active_def ws_rest_def)
  next
    case (Snd e)
    then show ?thesis using assms(1,4) sender_rest by (fastforce simp: bind_eq_Some_conv ws_active_def ws_rest_def)
  next
    case (Writer e)
    then show ?thesis using assms(1,4) writer_rest by (fastforce simp: bind_eq_Some_conv ws_active_def ws_rest_def)
  qed (use assms(1,4) in \<open>auto simp: ws_active_def split: if_splits list.splits\<close>)
  then have i: "dial_inv s" "\<not> w_closeCh s" "\<not> w_baseEnded s"
    using assms(2,3) by (auto simp: ws_active_def ws_safe_def close_order_def)
  show ?thesis
  proof (cases l)
    case Closing
    then show ?thesis using assms(1,4) act by (simp add: ws_active_def) (auto simp: ws_active_def)
  next
    case (Keep e)
    then show ?thesis using assms(1) keep_dial i by (auto simp: bind_eq_Some_conv)
  next
    case (Async e)
    then show ?thesis using assms(1) async_dial i by auto
  next
    case (Rcv j e)
    then obtain pc u pc' where u: "messageReceiveHandler e pc s = Some (u, pc')" "t = u\<lparr>w_rcv := (w_rcv u)(j := pc')\<rparr>"
      using assms(1) by (auto simp: bind_eq_Some_conv)
    have "dial_inv t = dial_inv s"
      by (rule dial_inv_frame) (use receiver_rest [OF u(1)] u(2) in \<open>simp_all add: keep_rec_def async_rec_def\<close>)
    then show ?thesis using i(1) by simp
  next
    case (Snd e)
    then obtain pc u pc' where u: "messageSendHandler e pc s = Some (u, pc')" "t = u\<lparr>w_sender := pc'\<rparr>"
      using assms(1) by (auto simp: bind_eq_Some_conv)
    have "dial_inv t = dial_inv s"
      by (rule dial_inv_frame) (use sender_rest [OF u(1)] u(2) in \<open>simp_all add: keep_rec_def async_rec_def\<close>)
    then show ?thesis using i(1) by simp
  next
    case (Writer e)
    then obtain pc u pc' where u: "writeLoop e pc s = Some (u, pc')" "t = u\<lparr>w_writer := pc'\<rparr>"
      using assms(1) by (auto simp: bind_eq_Some_conv)
    have "dial_inv t = dial_inv s"
      by (rule dial_inv_frame) (use writer_rest [OF u(1)] u(2) in \<open>simp_all add: keep_rec_def async_rec_def\<close>)
    then show ?thesis using i(1) by simp
  qed (use i(1) assms(1,4) in \<open>auto simp: ws_active_def dial_inv_def keep_rec_def async_rec_def split: if_splits list.splits\<close>)
qed


interpretation dial_run: step_invariant "ws_step c" "\<lambda>s. ws_safe s \<and> (ws_active s \<longrightarrow> dial_inv s)" for c
  by unfold_locales (auto simp: ws_step_def exec_step_def intro: ws_exec_safe ws_exec_dial)

lemma dial_inv_new: "dial_inv (newWsConn tok how)"
  by (cases how) (simp_all add: dial_inv_def newWsConn_def keep_rec_def async_rec_def dialling_def)

lemma held_one: "held r = {} \<or> (\<exists>k. held r = {k})"
  by (cases r rule: held.cases) auto

text \<open>C29. Until the handle is closed or its context ends, at most one attempt to connect runs at a time, whoever starts it, and the flag
  \<open>Connecting\<close> says exactly whether one runs; the only connections open are the current one and the one the attempt has just made,
  so none is leaked by reconnecting.\<close>

theorem ws_one_dial:
  assumes "reaches (ws_step c) (newWsConn tok how) s" "w_close s = C_Idle" "\<not> w_baseEnded s"
  shows "\<not> (dialling (keep_rec s) \<and> dialling (async_rec s)) \<and>
    w_connecting s = (dialling (keep_rec s) \<or> dialling (async_rec s)) \<and>
    w_open s = set_option (w_conn s) \<union> held (keep_rec s) \<union> held (async_rec s) \<and> card (w_open s) \<le> 2"
proof -
  have "ws_safe s \<and> (ws_active s \<longrightarrow> dial_inv s)"
    by (rule dial_run.reachable_inv [OF assms(1)]) (simp add: ws_safe_new dial_inv_new)
  then have i: "dial_inv s" using assms by (simp add: ws_active_def)
  moreover have "card (w_open s) \<le> 2"
  proof -
    have "held (keep_rec s) = {} \<or> held (async_rec s) = {}" using i held_dialling by (auto simp: dial_inv_def)
    then obtain k where "held (keep_rec s) \<union> held (async_rec s) \<subseteq> {k}"
      using held_one [of "keep_rec s"] held_one [of "async_rec s"] by auto
    moreover obtain p where "set_option (w_conn s) \<subseteq> {p}" by (cases "w_conn s") auto
    ultimately have "w_open s \<subseteq> {p, k}" using i by (auto simp: dial_inv_def)
    then have "card (w_open s) \<le> card {p, k}" by (intro card_mono) simp_all
    also have "\<dots> \<le> 2" by (simp add: card_insert_if)
    finally show ?thesis .
  qed
  ultimately show ?thesis by (simp add: dial_inv_def)
qed

subsection \<open>Defects\<close>

text \<open>A token is fetched at most once: no later failure empties the cache, so a token that the service rejects is sent again in every
  attempt.\<close>

lemma recreate_token:
  "recreateWsConn c e pc s = Some (t, pc') \<Longrightarrow> wc_envToken c = [] \<Longrightarrow> w_cacheToken s \<noteq> [] \<Longrightarrow> w_cacheToken t = w_cacheToken s"
  by (induction c e pc s rule: recreateWsConn.induct)
    (auto simp: ws_setters split: if_splits option.splits)

lemma token_step:
  assumes "ws_exec c l s = Some t" "wc_envToken c = []" "w_cacheToken s \<noteq> []"
  shows "w_cacheToken t = w_cacheToken s"
proof -
  have k: "w_cacheToken u = w_cacheToken s" if "keepAlive c e pc s = Some (u, pc')" for e pc u pc'
  proof (cases pc)
    case (K_Run r)
    then obtain e' r' where "recreateWsConn c e' r s = Some (u, r')" using \<open>keepAlive c e pc s = Some (u, pc')\<close> by (cases e) auto
    then show ?thesis using recreate_token assms(2,3) by blast
  qed (use that in \<open>cases e; simp add: ws_setters split: if_splits; fastforce\<close>)+
  have a: "w_cacheToken u = w_cacheToken s" if "reconnectNow c e pc s = Some (u, pc')" for e pc u pc'
  proof (cases pc)
    case (A_Run r)
    then obtain r' where "recreateWsConn c e r s = Some (u, r')" using \<open>reconnectNow c e pc s = Some (u, pc')\<close> by (cases e) auto
    then show ?thesis using recreate_token assms(2,3) by blast
  qed (use that in \<open>cases e; simp add: ws_setters split: if_splits; fastforce\<close>)+
  have c: "w_cacheToken u = w_cacheToken s" if "ws_Close pc s = Some u" for pc u
    using that by (cases pc) (auto simp: ws_setters split: if_splits option.splits)
  show ?thesis
    using assms(1) k a receiver_rest sender_rest writer_rest c
    by (cases l) (fastforce simp: bind_eq_Some_conv split: if_splits list.splits)+
qed

lemma token_never_refreshed:
  assumes "reaches (ws_step c) s t" "wc_envToken c = []" "w_cacheToken s \<noteq> []"
  shows "w_cacheToken t = w_cacheToken s"
  using assms(1) unfolding ws_step_def
  by (rule exec_inv [where I = "\<lambda>u. w_cacheToken u = w_cacheToken s"]) (use token_step assms(2,3) in auto)

definition ws_sample :: ws_config where "ws_sample = \<lparr>wc_envToken = [], wc_refreshIP = False\<rparr>"

definition reconnect_run :: "ws_label list" where
  "reconnect_run = [Keep KeepTick, Keep KeepGo, Keep (KeepRec RecGo), Keep (KeepRec (RecToken (Some ''t''))), Keep (KeepRec (RecDial True)),
     Keep (KeepRec RecGo)]"

definition finish_run :: "ws_label list" where
  "finish_run = [Keep (KeepRec RecGo), Keep (KeepRec RecGo), Keep (KeepRec RecGo)]"

definition two_readers_run :: "ws_label list" where
  "two_readers_run = [Rcv 0 RcvGo, Rcv 0 RcvGo, UserSend ''8.8.8.8'', Snd SndGo, Snd SndTake, Snd SndGo, Snd SndGo, Writer WriterTake,
     Writer (WriterWrote False), Rcv 0 RcvGo] @ reconnect_run @ finish_run @
     [Rcv 0 RcvGo, Rcv 0 RcvGo, Rcv 0 RcvGo, Rcv 0 RcvGo, Rcv 1 RcvGo, Rcv 1 RcvGo, Rcv 1 RcvGo, Rcv 1 RcvGo]"

definition leak_run :: "ws_label list" where
  "leak_run = [Rcv 0 RcvGo, Rcv 0 RcvGo, Rcv 0 RcvGo, Rcv 0 RcvGo, Rcv 0 RcvError] @ reconnect_run @
     [Closing, Closing, Closing, Closing, Closing, Closing, Closing, Closing] @ finish_run @
     [Keep KeepExit, Rcv 1 RcvGo, Rcv 1 RcvGo, Snd SndGo, Snd SndStop, Writer WriterStop, Closing]"

lemmas ws_run_simps = exec_run.simps two_readers_run_def leak_run_def reconnect_run_def finish_run_def newWsConn_def ws_sample_def ws_setters
   channel_cap_def wsClientWriteQueueSize_def

text \<open>Two receivers read from the same connection.\<close>

lemma two_readers:
  "\<exists>s k. reaches (ws_step ws_sample) (newWsConn ''t'' StartConnected) s \<and> w_rcv s 0 = Some (Rcv_Read 0 k) \<and> w_rcv s 1 = Some (Rcv_Read 1 k)"
proof -
  let ?s = "exec_run (ws_exec ws_sample) two_readers_run (newWsConn ''t'' StartConnected)"
  have "?s \<noteq> None \<and> w_rcv (the ?s) 0 = Some (Rcv_Read 0 1) \<and> w_rcv (the ?s) 1 = Some (Rcv_Read 1 1)"
    by (simp add: ws_run_simps)
  then obtain s where s: "?s = Some s" "w_rcv s 0 = Some (Rcv_Read 0 1)" "w_rcv s 1 = Some (Rcv_Read 1 1)" by auto
  show ?thesis using exec_run_reaches [OF s(1), folded ws_step_def] s(2-) by blast
qed

text \<open>A connection made while the handle is being closed stays open.\<close>

lemma close_leaks:
  "\<exists>s. reaches (ws_step ws_sample) (newWsConn ''t'' StartConnected) s \<and> w_close s = C_Finished \<and> w_conn s = Some 1 \<and> w_open s = {1} \<and>
     w_connected s"
proof -
  let ?s = "exec_run (ws_exec ws_sample) leak_run (newWsConn ''t'' StartConnected)"
  have "?s \<noteq> None \<and> w_close (the ?s) = C_Finished \<and> w_conn (the ?s) = Some 1 \<and> w_open (the ?s) = {1} \<and> w_connected (the ?s)"
    by (simp add: ws_run_simps loops_over_def fun_eq_iff insert_Diff_if)
  then obtain s where s: "?s = Some s" "w_close s = C_Finished" "w_conn s = Some 1" "w_open s = {1}" "w_connected s" by auto
  show ?thesis using exec_run_reaches [OF s(1), folded ws_step_def] s(2-) by blast
qed


theorem ws_no_panic_witness:
  "\<exists>s. reaches (ws_step ws_sample) (newWsConn ''t'' StartConnected) s \<and> w_close s = C_Finished \<and> \<not> w_panic s"
  using close_leaks ws_no_panic by blast

theorem ws_one_dial_witness:
  "\<exists>s. reaches (ws_step ws_sample) (newWsConn ''t'' StartReconnectable) s \<and> w_connecting s \<and> w_open s = {0} \<and>
     dialling (keep_rec s) \<and> \<not> dialling (async_rec s) \<and> card (w_open s) \<le> 2"
proof -
  let ?s = "exec_run (ws_exec ws_sample) reconnect_run (newWsConn ''t'' StartReconnectable)"
  have "?s \<noteq> None \<and> w_close (the ?s) = C_Idle \<and> \<not> w_baseEnded (the ?s) \<and> w_connecting (the ?s) \<and> w_open (the ?s) = {0} \<and>
      keep_rec (the ?s) = Some (R_Replace 0)"
    by (simp add: ws_run_simps) (simp add: keep_rec_def)
  then obtain s where s: "?s = Some s" "w_close s = C_Idle" "\<not> w_baseEnded s" "w_connecting s" "w_open s = {0}" "keep_rec s = Some (R_Replace 0)"
    by auto
  note r = exec_run_reaches [OF s(1), folded ws_step_def]
  have "dialling (keep_rec s)" using s(6) by (simp add: dialling_def)
  then show ?thesis using ws_one_dial [OF r s(2,3)] s r by blast
qed

end
