(* ===== verification/Leo_Client.thy ===== *)
theory Leo_Client
  imports Ws_Client Trace_Config
begin

section \<open>Geo requests over the WebSocket: \<open>ipgeo/leo.go\<close>\<close>

text \<open>
  Many calls of \<open>LeoIP\<close> share the global handle of \<open>wshandle\<close>, one channel of capacity 1 per address, and one goroutine that dispatches
  what arrives. The handles are those of \<open>Ws_Client\<close>, numbered as they are made: \<open>CreateConn\<close> and \<open>ReplaceConn\<close> are the two halves of
  \<open>NewWithContext\<close> and \<open>NewWithContextAsync\<close>, which hold \<open>wsconnNewMu\<close> (\<open>le_making\<close>) and leave the replaced handle to be closed
  (\<open>le_due\<close>); \<open>Close\<close> of a handle may also be called by anybody at any moment. The calls and the dispatcher are step machines on top of
  the steps of the handles; they are the users of their two channels. The mutex of \<open>receiveParseConn\<close> is only ever taken by the one
  dispatcher. \<open>field\<close> stands for \<open>gjson\<close>'s \<open>Get(name).String()\<close> on a message, \<open>number\<close> for
  \<open>strconv.ParseFloat\<close> and \<open>router\<close> for the decoded \<open>router\<close> member. \<open>le_log\<close> is a ghost: the messages dispatched so far.
\<close>

record json_reader =
  js_field :: "string \<Rightarrow> string \<Rightarrow> string"
  js_number :: "string \<Rightarrow> real"
  js_router :: "string \<Rightarrow> (string \<times> string list) list"

text \<open>The state of a call: its address, the number of messages dispatched when it emptied its channel (a ghost), and how far it is, with
  the handle it has read.\<close>

datatype call_at = L_Begin | L_Drain | L_Get | L_Connect nat | L_Send nat | L_Start nat | L_Wait nat | L_Returned "string + geo_data"

record leo_call =
  lc_ip :: string
  lc_mark :: nat
  lc_at :: call_at

datatype parse_at = P_Idle | P_Enter | P_Range nat | P_Dispatch nat string | P_Check nat | P_Left

record leo_state =
  le_handles :: "nat \<rightharpoonup> ws_state"
  le_global :: "nat option"
  le_making :: "nat option"
  le_due :: "nat set"
  le_pool :: "string \<rightharpoonup> geo_data option"
  le_calls :: "nat \<rightharpoonup> leo_call"
  le_running :: bool
  le_restart :: bool
  le_parse :: parse_at
  le_log :: "string list"

definition leo_init :: "(nat \<rightharpoonup> ws_state) \<Rightarrow> nat option \<Rightarrow> leo_state" where
  "leo_init handles global = \<lparr>le_handles = handles, le_global = global, le_making = None, le_due = {}, le_pool = Map.empty,
     le_calls = Map.empty, le_running = False, le_restart = False, le_parse = P_Idle, le_log = []\<rparr>"

subsection \<open>Dispatching a message\<close>

definition leo_geo :: "json_reader \<Rightarrow> string \<Rightarrow> geo_data" where
  "leo_geo j data =
     (let get = js_field j data;
          domain = (if get ''domain'' = [] then get ''owner'' else get ''domain'')
      in empty_geo\<lparr>Asnumber := get ''asnumber'', Country := get ''country'', CountryEn := get ''country_en'', Prov := get ''prov'',
           ProvEn := get ''prov_en'', City := get ''city'', CityEn := get ''city_en'', District := get ''district'', Owner := domain,
           Lat := js_number j (get ''lat''), Lng := js_number j (get ''lng''), Isp := get ''isp'', Whois := get ''whois'',
           Prefix := get ''prefix'', Router := js_router j (get ''router'')\<rparr>)"

text \<open>\<open>deliverGeo\<close>: there is one dispatcher, so after its three attempts the new data is in the channel.\<close>

definition deliverGeo :: "geo_data \<Rightarrow> geo_data option \<Rightarrow> geo_data option" where
  "deliverGeo g ch = (case ch of None \<Rightarrow> Some g | Some old \<Rightarrow> Some g)"

definition drainStaleGeo :: "geo_data option \<Rightarrow> geo_data option" where
  "drainStaleGeo ch = None"

definition ensure_channel :: "string \<Rightarrow> leo_state \<Rightarrow> leo_state" where
  "ensure_channel ip s = (if le_pool s ip = None then s\<lparr>le_pool := (le_pool s)(ip \<mapsto> None)\<rparr> else s)"

definition channel_of :: "leo_state \<Rightarrow> string \<Rightarrow> geo_data option" where
  "channel_of s ip = (case le_pool s ip of None \<Rightarrow> None | Some ch \<Rightarrow> ch)"

definition dispatchLeoMessage :: "json_reader \<Rightarrow> string \<Rightarrow> leo_state \<Rightarrow> leo_state" where
  "dispatchLeoMessage j data s =
     (let ip = js_field j data ''ip''; s = ensure_channel ip s
      in s\<lparr>le_pool := (le_pool s)(ip \<mapsto> deliverGeo (leo_geo j data) (channel_of s ip)), le_log := le_log s @ [data]\<rparr>)"

subsection \<open>A call\<close>

text \<open>\<open>startReceiveParse\<close>\<close>

definition startReceiveParse :: "leo_state \<Rightarrow> leo_state" where
  "startReceiveParse s =
     (if le_running s then s\<lparr>le_restart := True\<rparr>
      else s\<lparr>le_running := True, le_restart := False, le_parse := P_Enter\<rparr>)"

definition put_call :: "nat \<Rightarrow> leo_call \<Rightarrow> leo_state \<Rightarrow> leo_state" where
  "put_call i c s = s\<lparr>le_calls := (le_calls s)(i \<mapsto> c)\<rparr>"

definition leoTimeOut :: "string + geo_data" where "leoTimeOut = Inl ''TimeOut''"

text \<open>The segments of \<open>LeoIP\<close>. \<open>expired\<close> says that the deadline of the call (at least 2 s) has passed; when it has and the other case of a
  \<open>select\<close> is ready as well, either may be taken.\<close>

fun LeoIP :: "bool \<Rightarrow> nat \<Rightarrow> leo_call \<Rightarrow> leo_state \<Rightarrow> leo_state option" where
  "LeoIP expired i (\<lparr>lc_ip = ip, lc_mark = n, lc_at = L_Begin\<rparr>) s =
     Some (put_call i \<lparr>lc_ip = ip, lc_mark = n, lc_at = L_Drain\<rparr> (ensure_channel ip s))"
| "LeoIP expired i (\<lparr>lc_ip = ip, lc_mark = n, lc_at = L_Drain\<rparr>) s =
     Some (put_call i \<lparr>lc_ip = ip, lc_mark = length (le_log s), lc_at = L_Get\<rparr>
       (s\<lparr>le_pool := (le_pool s)(ip \<mapsto> drainStaleGeo (channel_of s ip))\<rparr>))"
| "LeoIP expired i (\<lparr>lc_ip = ip, lc_mark = n, lc_at = L_Get\<rparr>) s =
     Some (put_call i \<lparr>lc_ip = ip, lc_mark = n,
       lc_at = (case le_global s of None \<Rightarrow> L_Returned leoTimeOut | Some h \<Rightarrow> L_Connect h)\<rparr> s)"
| "LeoIP expired i (\<lparr>lc_ip = ip, lc_mark = n, lc_at = L_Connect h\<rparr>) s =
     Option.bind (le_handles s h) (\<lambda>w.
       if w_connected w \<and> \<not> expired then Some (put_call i \<lparr>lc_ip = ip, lc_mark = n, lc_at = L_Send h\<rparr> s)
       else if expired then Some (put_call i \<lparr>lc_ip = ip, lc_mark = n, lc_at = L_Returned leoTimeOut\<rparr> s)
       else if w_closeCh w then
         Some (put_call i \<lparr>lc_ip = ip, lc_mark = n, lc_at = L_Returned (Inl ''wshandle: connection closed'')\<rparr> s)
       else None)"
| "LeoIP expired i (\<lparr>lc_ip = ip, lc_mark = n, lc_at = L_Send h\<rparr>) s =
     Option.bind (le_handles s h) (\<lambda>w.
       if expired then Some (put_call i \<lparr>lc_ip = ip, lc_mark = n, lc_at = L_Returned leoTimeOut\<rparr> s)
       else if length (w_send w) < channel_cap then
         Some (put_call i \<lparr>lc_ip = ip, lc_mark = n, lc_at = L_Start h\<rparr>
           (s\<lparr>le_handles := (le_handles s)(h \<mapsto> w\<lparr>w_send := w_send w @ [ip]\<rparr>)\<rparr>))
       else None)"
| "LeoIP expired i (\<lparr>lc_ip = ip, lc_mark = n, lc_at = L_Start h\<rparr>) s =
     Some (put_call i \<lparr>lc_ip = ip, lc_mark = n, lc_at = L_Wait h\<rparr> (startReceiveParse s))"
| "LeoIP expired i (\<lparr>lc_ip = ip, lc_mark = n, lc_at = L_Wait h\<rparr>) s =
     (if expired then Some (put_call i \<lparr>lc_ip = ip, lc_mark = n, lc_at = L_Returned leoTimeOut\<rparr> s)
      else case channel_of s ip of
        None \<Rightarrow> None
      | Some g \<Rightarrow> Some (put_call i \<lparr>lc_ip = ip, lc_mark = n, lc_at = L_Returned (Inr g)\<rparr>
          (s\<lparr>le_pool := (le_pool s)(ip \<mapsto> None)\<rparr>)))"
| "LeoIP expired i (\<lparr>lc_ip = ip, lc_mark = n, lc_at = L_Returned r\<rparr>) s = None"

subsection \<open>The dispatcher\<close>

text \<open>\<open>runReceiveParseLoop\<close> with \<open>receiveParse\<close> and \<open>receiveParseConn\<close>: the range over the receive channel of a handle ends when the
  channel is closed and empty, and \<open>receiveParse\<close> goes on while the global handle is another one by then.\<close>

fun runReceiveParseLoop :: "json_reader \<Rightarrow> parse_at \<Rightarrow> leo_state \<Rightarrow> leo_state option" where
  "runReceiveParseLoop j P_Idle s = None"
| "runReceiveParseLoop j P_Enter s =
     Some (s\<lparr>le_parse := (case le_global s of None \<Rightarrow> P_Left | Some h \<Rightarrow> P_Range h)\<rparr>)"
| "runReceiveParseLoop j (P_Range h) s =
     Option.bind (le_handles s h) (\<lambda>w. case w_recv w of
        m # q \<Rightarrow> Some (s\<lparr>le_handles := (le_handles s)(h \<mapsto> w\<lparr>w_recv := q\<rparr>), le_parse := P_Dispatch h m\<rparr>)
      | [] \<Rightarrow> if w_recvClosed w then Some (s\<lparr>le_parse := P_Check h\<rparr>) else None)"
| "runReceiveParseLoop j (P_Dispatch h m) s = Some ((dispatchLeoMessage j m s)\<lparr>le_parse := P_Range h\<rparr>)"
| "runReceiveParseLoop j (P_Check h) s = Some (s\<lparr>le_parse := (if le_global s \<noteq> Some h then P_Enter else P_Left)\<rparr>)"
| "runReceiveParseLoop j P_Left s =
     Some (if \<not> le_restart s then s\<lparr>le_running := False, le_parse := P_Idle\<rparr> else s\<lparr>le_restart := False, le_parse := P_Enter\<rparr>)"

subsection \<open>Handles, calls and the dispatcher together\<close>

text \<open>How a handle is made: the outcomes of the probe, of the token service and of the dialling.\<close>

datatype conn_maker = MakeConn bool bool bool "string option" bool string | MakeAsync bool string

fun made_conn :: "ws_config \<Rightarrow> conn_maker \<Rightarrow> ws_state" where
  "made_conn c (MakeConn direct ctx_ended probed fetched dialled token) = createWsConn c direct ctx_ended probed fetched dialled token"
| "made_conn c (MakeAsync ctx_ended token) = createWsConnAsync ctx_ended token"

datatype leo_label = Handle nat ws_label | CreateConn nat conn_maker | ReplaceConn bool | NewCall nat string | CallStep nat bool | Dispatcher

definition own_label :: "ws_label \<Rightarrow> bool" where
  "own_label l \<longleftrightarrow> (case l of UserSend m \<Rightarrow> False | UserReceive \<Rightarrow> False | _ \<Rightarrow> True)"

definition handle_closed :: "leo_state \<Rightarrow> nat \<Rightarrow> bool" where
  "handle_closed s h = (case le_handles s h of None \<Rightarrow> False | Some w \<Rightarrow> w_closeCh w)"

fun leo_exec :: "json_reader \<Rightarrow> ws_config \<Rightarrow> leo_label \<Rightarrow> leo_state \<Rightarrow> leo_state option" where
  "leo_exec j c (Handle h l) s =
     (if own_label l
      then Option.bind (le_handles s h) (\<lambda>w. map_option (\<lambda>v. s\<lparr>le_handles := (le_handles s)(h \<mapsto> v)\<rparr>) (ws_exec c l w))
      else None)"
| "leo_exec j c (CreateConn h how) s =
     (if le_making s = None \<and> le_handles s h = None
      then Some (s\<lparr>le_handles := (le_handles s)(h \<mapsto> made_conn c how), le_making := Some h\<rparr>) else None)"
| "leo_exec j c (ReplaceConn ctx_ended) s =
     Option.bind (le_making s) (\<lambda>h. case replaceGlobalWsConn ctx_ended (handle_closed s) (le_global s) (Some h) of
        (global, due) \<Rightarrow> Some (s\<lparr>le_global := global, le_due := le_due s \<union> set_option due, le_making := None\<rparr>))"
| "leo_exec j c (NewCall i ip) s =
     (if le_calls s i = None then Some (put_call i \<lparr>lc_ip = ip, lc_mark = 0, lc_at = L_Begin\<rparr> s) else None)"
| "leo_exec j c (CallStep i expired) s = Option.bind (le_calls s i) (\<lambda>k. LeoIP expired i k s)"
| "leo_exec j c Dispatcher s = runReceiveParseLoop j (le_parse s) s"

definition leo_step :: "json_reader \<Rightarrow> ws_config \<Rightarrow> leo_state \<Rightarrow> leo_state \<Rightarrow> bool" where
  "leo_step j c = exec_step (leo_exec j c)"

subsection \<open>The handles below\<close>

text \<open>Seen from a handle, the calls and the dispatcher are users of its channels: every step is a step of one handle, makes a new one, or
  leaves them alone.\<close>

definition handles_step :: "ws_config \<Rightarrow> (nat \<rightharpoonup> ws_state) \<Rightarrow> (nat \<rightharpoonup> ws_state) \<Rightarrow> bool" where
  "handles_step c hs hs' \<longleftrightarrow> hs' = hs \<or> (\<exists>h w l v. hs h = Some w \<and> ws_exec c l w = Some v \<and> hs' = hs(h \<mapsto> v)) \<or>
     (\<exists>h how. hs h = None \<and> hs' = hs(h \<mapsto> made_conn c how))"

lemma handles_user:
  assumes "ws_exec c l w = Some v" "hs h = Some w"
  shows "handles_step c hs (hs(h \<mapsto> v))"
  using assms unfolding handles_step_def by blast

lemma handles_made: "hs h = None \<Longrightarrow> handles_step c hs (hs(h \<mapsto> made_conn c how))"
  unfolding handles_step_def by blast

lemma ReplaceConn_cases:
  assumes "leo_exec j c (ReplaceConn e) s = Some t"
  obtains h global due where "le_making s = Some h"
    "replaceGlobalWsConn e (handle_closed s) (le_global s) (Some h) = (global, due)"
    "t = s\<lparr>le_global := global, le_due := le_due s \<union> set_option due, le_making := None\<rparr>"
proof -
  obtain h where h: "le_making s = Some h" using assms by (auto simp: bind_eq_Some_conv)
  obtain global due where r: "replaceGlobalWsConn e (handle_closed s) (le_global s) (Some h) = (global, due)"
    by (rule prod.exhaust)
  show ?thesis using that [OF h r] assms h r by simp
qed

lemma LeoIP_handles:
  assumes "LeoIP expired i k s = Some t"
  shows "handles_step c (le_handles s) (le_handles t)"
  using assms
proof (induction expired i k s rule: LeoIP.induct)
  case (5 expired i ip n h s)
  then obtain w where w: "le_handles s h = Some w" by (auto simp: bind_eq_Some_conv)
  show ?case
  proof (cases "expired \<or> \<not> length (w_send w) < channel_cap")
    case True
    then show ?thesis using 5 w by (auto simp: handles_step_def put_call_def split: if_splits)
  next
    case False
    then have "ws_exec c (UserSend ip) w = Some (w\<lparr>w_send := w_send w @ [ip]\<rparr>)"
        "le_handles t = (le_handles s)(h \<mapsto> w\<lparr>w_send := w_send w @ [ip]\<rparr>)"
      using 5 w by (auto simp: put_call_def)
    then show ?thesis using handles_user [of c _ w _ "le_handles s", OF _ w] by metis
  qed
qed (auto simp: handles_step_def put_call_def ensure_channel_def startReceiveParse_def bind_eq_Some_conv split: if_splits option.splits)

lemma dispatcher_handles:
  assumes "runReceiveParseLoop j pc s = Some t"
  shows "handles_step c (le_handles s) (le_handles t)"
proof (cases pc)
  case (P_Range h)
  then obtain w where w: "le_handles s h = Some w" using assms by (auto simp: bind_eq_Some_conv)
  show ?thesis
  proof (cases "w_recv w")
    case Nil
    then show ?thesis using assms P_Range w by (auto simp: handles_step_def split: if_splits)
  next
    case (Cons m q)
    then have "ws_exec c UserReceive w = Some (w\<lparr>w_recv := q\<rparr>)" "le_handles t = (le_handles s)(h \<mapsto> w\<lparr>w_recv := q\<rparr>)"
      using assms P_Range w by auto
    then show ?thesis using handles_user [of c _ w _ "le_handles s", OF _ w] by metis
  qed
qed (use assms in \<open>auto simp: handles_step_def dispatchLeoMessage_def ensure_channel_def Let_def split: if_splits\<close>)

lemma leo_handles_step:
  assumes "leo_exec j c l s = Some t"
  shows "handles_step c (le_handles s) (le_handles t)"
proof (cases l)
  case (Handle h w)
  then obtain u v where "le_handles s h = Some u" "ws_exec c w u = Some v" "t = s\<lparr>le_handles := (le_handles s)(h \<mapsto> v)\<rparr>"
    using assms by (auto simp: bind_eq_Some_conv split: if_splits)
  then show ?thesis using handles_user [of c w u v "le_handles s" h] by simp
next
  case (CreateConn h how)
  then show ?thesis using assms handles_made [of "le_handles s" h c how] by (auto split: if_splits)
next
  case (ReplaceConn e)
  then show ?thesis using assms by (auto simp: handles_step_def elim: ReplaceConn_cases simp del: leo_exec.simps)
next
  case (NewCall i ip)
  then show ?thesis using assms by (auto simp: handles_step_def put_call_def split: if_splits)
next
  case (CallStep i e)
  then show ?thesis using assms LeoIP_handles by (auto simp: bind_eq_Some_conv)
next
  case Dispatcher
  then show ?thesis using assms dispatcher_handles by simp
qed

definition handles_safe :: "leo_state \<Rightarrow> bool" where
  "handles_safe s \<longleftrightarrow> (\<forall>h w. le_handles s h = Some w \<longrightarrow> ws_safe w)"

lemma made_safe: "ws_safe (made_conn c how)"
  by (cases how) (simp_all add: ws_safe_created)

lemma leo_exec_handles: "leo_exec j c l s = Some t \<Longrightarrow> handles_safe s \<Longrightarrow> handles_safe t"
  using leo_handles_step [of j c l s t] ws_exec_safe made_safe unfolding handles_safe_def handles_step_def
  by (auto split: if_splits)

interpretation leo_handles: step_invariant "leo_step j c" handles_safe for j c
  by unfold_locales (auto simp: leo_step_def exec_step_def intro: leo_exec_handles)

subsection \<open>Answers\<close>

definition answers :: "json_reader \<Rightarrow> leo_state \<Rightarrow> nat \<Rightarrow> string \<Rightarrow> geo_data \<Rightarrow> bool" where
  "answers j s n ip g \<longleftrightarrow> n < length (le_log s) \<and> js_field j (le_log s ! n) ''ip'' = ip \<and> g = leo_geo j (le_log s ! n)"

definition drained :: "call_at \<Rightarrow> bool" where
  "drained a \<longleftrightarrow> a \<noteq> L_Begin \<and> a \<noteq> L_Drain"

definition channels_ok :: "json_reader \<Rightarrow> leo_state \<Rightarrow> bool" where
  "channels_ok j s \<longleftrightarrow> (\<forall>ip g. channel_of s ip = Some g \<longrightarrow>
     (\<exists>n. answers j s n ip g \<and> (\<forall>i k. le_calls s i = Some k \<longrightarrow> lc_ip k = ip \<longrightarrow> drained (lc_at k) \<longrightarrow> lc_mark k \<le> n)))"

definition calls_ok :: "json_reader \<Rightarrow> leo_state \<Rightarrow> bool" where
  "calls_ok j s \<longleftrightarrow> (\<forall>i k. le_calls s i = Some k \<longrightarrow> lc_mark k \<le> length (le_log s) \<and>
     (\<forall>g. lc_at k = L_Returned (Inr g) \<longrightarrow> (\<exists>n \<ge> lc_mark k. answers j s n (lc_ip k) g)))"

definition leo_inv :: "json_reader \<Rightarrow> leo_state \<Rightarrow> bool" where
  "leo_inv j s \<longleftrightarrow> channels_ok j s \<and> calls_ok j s"

lemma answers_frame: "le_log t = le_log s \<Longrightarrow> answers j t n ip g = answers j s n ip g"
  by (simp add: answers_def)

lemma leo_inv_frame:
  "le_pool t = le_pool s \<Longrightarrow> le_calls t = le_calls s \<Longrightarrow> le_log t = le_log s \<Longrightarrow> leo_inv j t = leo_inv j s"
  by (simp add: leo_inv_def channels_ok_def calls_ok_def answers_def channel_of_def)


text \<open>A step of call \<open>i\<close>: channels are only emptied, and the call is either the drained one it was, not yet drained, or just emptied its
  channel.\<close>

lemma leo_inv_call:
  assumes inv: "leo_inv j s" and log: "le_log t = le_log s" and calls: "le_calls t = (le_calls s)(i \<mapsto> k')"
    and chan: "\<And>ip g. channel_of t ip = Some g \<Longrightarrow> channel_of s ip = Some g"
    and mark: "lc_mark k' \<le> length (le_log s)"
    and was: "drained (lc_at k') \<Longrightarrow> channel_of t (lc_ip k') \<noteq> None \<Longrightarrow>
       \<exists>k. le_calls s i = Some k \<and> lc_ip k = lc_ip k' \<and> lc_mark k = lc_mark k' \<and> drained (lc_at k)"
    and ret: "\<And>g. lc_at k' = L_Returned (Inr g) \<Longrightarrow> \<exists>n \<ge> lc_mark k'. answers j s n (lc_ip k') g"
  shows "leo_inv j t"
proof -
  have "channels_ok j t" unfolding channels_ok_def
  proof (intro allI impI)
    fix ip g assume g: "channel_of t ip = Some g"
    then obtain n where n: "answers j s n ip g"
        "\<And>i k. le_calls s i = Some k \<Longrightarrow> lc_ip k = ip \<Longrightarrow> drained (lc_at k) \<Longrightarrow> lc_mark k \<le> n"
      using inv chan unfolding leo_inv_def channels_ok_def by blast
    have "lc_mark k \<le> n" if k: "le_calls t i' = Some k" "lc_ip k = ip" "drained (lc_at k)" for i' k
    proof (cases "i' = i")
      case True
      then have "k = k'" using k(1) calls by simp
      then show ?thesis using was k g n(2) by fastforce
    next
      case False
      then show ?thesis using k n(2) calls by simp
    qed
    then show "\<exists>n. answers j t n ip g \<and> (\<forall>i k. le_calls t i = Some k \<longrightarrow> lc_ip k = ip \<longrightarrow> drained (lc_at k) \<longrightarrow> lc_mark k \<le> n)"
      using n(1) answers_frame [OF log] by blast
  qed
  moreover have "calls_ok j t"
    using inv mark ret log calls answers_frame [OF log] by (auto simp: leo_inv_def calls_ok_def)
  ultimately show ?thesis by (simp add: leo_inv_def)
qed

lemma channel_ensure [simp]: "channel_of (ensure_channel ip s) = channel_of s"
  by (auto simp: ensure_channel_def channel_of_def fun_eq_iff)

lemma channel_frame [simp]:
  "channel_of (put_call i k s) = channel_of s" "channel_of (startReceiveParse s) = channel_of s"
  "channel_of (s\<lparr>le_handles := w\<rparr>) = channel_of s" "channel_of (s\<lparr>le_parse := a\<rparr>) = channel_of s"
  "channel_of (s\<lparr>le_log := l\<rparr>) = channel_of s"
  "channel_of (s\<lparr>le_pool := (le_pool s)(ip \<mapsto> v)\<rparr>) = (channel_of s)(ip := v)"
  by (auto simp: put_call_def startReceiveParse_def channel_of_def fun_eq_iff)

lemma call_frame [simp]:
  "le_log (put_call i k s) = le_log s" "le_log (ensure_channel ip s) = le_log s" "le_log (startReceiveParse s) = le_log s"
  "le_calls (put_call i k s) = (le_calls s)(i \<mapsto> k)" "le_calls (ensure_channel ip s) = le_calls s"
  "le_calls (startReceiveParse s) = le_calls s"
  by (simp_all add: put_call_def ensure_channel_def startReceiveParse_def)

lemma LeoIP_inv:
  assumes "le_calls s i = Some k" "LeoIP expired i k s = Some t" "leo_inv j s"
  shows "leo_inv j t"
proof -
  have m: "lc_mark k \<le> length (le_log s)" using assms(1,3) by (auto simp: leo_inv_def calls_ok_def)
  obtain ip n a where k: "k = \<lparr>lc_ip = ip, lc_mark = n, lc_at = a\<rparr>" by (cases k)
  have same: "leo_inv j (put_call i \<lparr>lc_ip = ip, lc_mark = n, lc_at = a'\<rparr> s')"
    if "le_calls s' = le_calls s" "le_log s' = le_log s" "channel_of s' = channel_of s" "drained a" "\<And>g. a' \<noteq> L_Returned (Inr g)" for a' s'
    by (rule leo_inv_call [OF assms(3), where i = i and k' = "\<lparr>lc_ip = ip, lc_mark = n, lc_at = a'\<rparr>"])
      (use m k assms(1) that in auto)
  show ?thesis
  proof (cases a)
    case L_Begin
    then have t: "t = put_call i \<lparr>lc_ip = ip, lc_mark = n, lc_at = L_Drain\<rparr> (ensure_channel ip s)" using assms(2) k by simp
    show ?thesis by (rule leo_inv_call [OF assms(3), where i = i and k' = "\<lparr>lc_ip = ip, lc_mark = n, lc_at = L_Drain\<rparr>"])
        (use m k t in \<open>simp_all add: drained_def\<close>)
  next
    case L_Drain
    let ?k = "\<lparr>lc_ip = ip, lc_mark = length (le_log s), lc_at = L_Get\<rparr>"
    have t: "t = put_call i ?k (s\<lparr>le_pool := (le_pool s)(ip \<mapsto> None)\<rparr>)"
      using assms(2) k L_Drain by (simp add: drainStaleGeo_def)
    show ?thesis by (rule leo_inv_call [OF assms(3), where i = i and k' = ?k])
        (simp_all add: t split: if_splits)
  next
    case L_Get
    then show ?thesis using assms(2) k by (auto simp: drained_def leoTimeOut_def split: option.splits intro!: same)
  next
    case L_Connect
    then show ?thesis using assms(2) k by (auto simp: drained_def leoTimeOut_def bind_eq_Some_conv split: if_splits intro!: same)
  next
    case L_Send
    then show ?thesis using assms(2) k by (auto simp: drained_def leoTimeOut_def bind_eq_Some_conv split: if_splits intro!: same)
  next
    case L_Start
    then show ?thesis using assms(2) k by (auto simp: drained_def intro!: same)
  next
    case L_Wait
    show ?thesis
    proof (cases expired)
      case True
      then show ?thesis using assms(2) k L_Wait by (auto simp: drained_def leoTimeOut_def intro!: same)
    next
      case False
      then obtain g where g: "channel_of s ip = Some g"
          "t = put_call i \<lparr>lc_ip = ip, lc_mark = n, lc_at = L_Returned (Inr g)\<rparr> (s\<lparr>le_pool := (le_pool s)(ip \<mapsto> None)\<rparr>)"
        using assms(2) k L_Wait by (auto split: option.splits)
      obtain q where "answers j s q ip g" "n \<le> q"
        using assms(1,3) g(1) k L_Wait unfolding leo_inv_def channels_ok_def drained_def by fastforce
      then show ?thesis
        by (intro leo_inv_call [OF assms(3), where i = i and k' = "\<lparr>lc_ip = ip, lc_mark = n, lc_at = L_Returned (Inr g)\<rparr>"])
          (use m k g(2) in \<open>auto split: if_splits\<close>)
    qed
  qed (use assms(2) k in simp)
qed

lemma dispatch_inv:
  assumes "leo_inv j s"
  shows "leo_inv j (dispatchLeoMessage j data s)"
proof -
  let ?t = "dispatchLeoMessage j data s" and ?ip = "js_field j data ''ip''"
  have t: "le_log ?t = le_log s @ [data]" "le_calls ?t = le_calls s"
      "channel_of ?t = (channel_of s)(?ip \<mapsto> leo_geo j data)"
    by (simp_all add: dispatchLeoMessage_def Let_def deliverGeo_def split: option.split)
  have old: "answers j s n ip g \<Longrightarrow> answers j ?t n ip g" for n ip g
    using t(1) by (auto simp: answers_def nth_append)
  have new: "answers j ?t (length (le_log s)) ?ip (leo_geo j data)" using t(1) by (simp add: answers_def)
  have marks: "le_calls s i = Some k \<Longrightarrow> lc_mark k \<le> length (le_log s)" for i k
    using assms by (auto simp: leo_inv_def calls_ok_def)
  have "channels_ok j ?t" unfolding channels_ok_def t(2,3)
  proof (intro allI impI)
    fix ip g assume g: "((channel_of s)(?ip \<mapsto> leo_geo j data)) ip = Some g"
    show "\<exists>n. answers j ?t n ip g \<and> (\<forall>i k. le_calls s i = Some k \<longrightarrow> lc_ip k = ip \<longrightarrow> drained (lc_at k) \<longrightarrow> lc_mark k \<le> n)"
    proof (cases "ip = ?ip")
      case True
      then show ?thesis using new g marks by (intro exI [of _ "length (le_log s)"]) auto
    next
      case False
      then have "channel_of s ip = Some g" using g by simp
      then show ?thesis using assms old unfolding leo_inv_def channels_ok_def by blast
    qed
  qed
  moreover have "calls_ok j ?t"
    using assms old marks t(1,2) unfolding leo_inv_def calls_ok_def by (fastforce intro: le_SucI)
  ultimately show ?thesis by (simp add: leo_inv_def)
qed

lemma leo_exec_inv:
  assumes "leo_exec j c l s = Some t" "leo_inv j s"
  shows "leo_inv j t"
proof (cases l)
  case (Handle h w)
  then obtain hs where "t = s\<lparr>le_handles := hs\<rparr>" using assms(1) by (auto simp: bind_eq_Some_conv split: if_splits)
  then show ?thesis using assms(2) leo_inv_frame [of t s] by simp
next
  case (CreateConn h how)
  then have "le_pool t = le_pool s \<and> le_calls t = le_calls s \<and> le_log t = le_log s" using assms(1) by (auto split: if_splits)
  then show ?thesis using assms(2) leo_inv_frame [of t s] by simp
next
  case (ReplaceConn e)
  then have "le_pool t = le_pool s \<and> le_calls t = le_calls s \<and> le_log t = le_log s"
    using assms(1) by (auto elim: ReplaceConn_cases simp del: leo_exec.simps)
  then show ?thesis using assms(2) leo_inv_frame [of t s] by simp
next
  case (NewCall i ip)
  then have t: "t = put_call i \<lparr>lc_ip = ip, lc_mark = 0, lc_at = L_Begin\<rparr> s" using assms(1) by (simp split: if_splits)
  show ?thesis by (rule leo_inv_call [OF assms(2), where i = i and k' = "\<lparr>lc_ip = ip, lc_mark = 0, lc_at = L_Begin\<rparr>"])
      (simp_all add: t drained_def)
next
  case (CallStep i e)
  then show ?thesis using assms LeoIP_inv by (auto simp: bind_eq_Some_conv)
next
  case Dispatcher
  show ?thesis
  proof (cases "le_parse s")
    case (P_Dispatch h m)
    then have "t = (dispatchLeoMessage j m s)\<lparr>le_parse := P_Range h\<rparr>" using assms(1) Dispatcher by simp
    then show ?thesis using dispatch_inv [OF assms(2), of m] leo_inv_frame [of t "dispatchLeoMessage j m s"] by simp
  next
    case (P_Range h)
    then obtain w where "le_handles s h = Some w" using assms(1) Dispatcher by (auto simp: bind_eq_Some_conv)
    then have "le_pool t = le_pool s \<and> le_calls t = le_calls s \<and> le_log t = le_log s"
      using assms(1) Dispatcher P_Range by (cases "w_recv w") (auto split: if_splits)
    then show ?thesis using assms(2) leo_inv_frame [of t s] by simp
  next
    case P_Left
    then have "le_pool t = le_pool s \<and> le_calls t = le_calls s \<and> le_log t = le_log s"
      using assms(1) Dispatcher by (auto split: if_splits)
    then show ?thesis using assms(2) leo_inv_frame [of t s] by simp
  qed (use assms(1,2) Dispatcher leo_inv_frame [of t s] in auto)
qed

interpretation leo_run: step_invariant "leo_step j c" "leo_inv j" for j c
  by unfold_locales (auto simp: leo_step_def exec_step_def intro: leo_exec_inv)

text \<open>C30. What a call returns is an answer about its own address, and a fresh one: it was built from a message whose \<open>ip\<close> member is the address of the
  call and which the dispatcher took after the call had emptied its channel, however many calls, reconnections and messages
  run in between.\<close>

theorem leo_answer_fresh:
  assumes "reaches (leo_step j c) (leo_init handles global) s" "le_calls s i = Some k" "lc_at k = L_Returned (Inr g)"
  shows "\<exists>n. lc_mark k \<le> n \<and> n < length (le_log s) \<and> js_field j (le_log s ! n) ''ip'' = lc_ip k \<and> g = leo_geo j (le_log s ! n)"
proof -
  have "leo_inv j (leo_init handles global)" by (simp add: leo_inv_def channels_ok_def calls_ok_def leo_init_def channel_of_def)
  then have "calls_ok j s" using leo_run.reachable_inv [OF assms(1)] by (simp add: leo_inv_def)
  then show ?thesis using assms(2,3) unfolding calls_ok_def answers_def by blast
qed


subsection \<open>The dispatcher does not stop while somebody waits\<close>

lemma recvClosed_stays: "ws_exec c l s = Some t \<Longrightarrow> w_recvClosed s \<Longrightarrow> w_recvClosed t"
proof (cases l)
  case Closing
  then show "ws_exec c l s = Some t \<Longrightarrow> w_recvClosed s \<Longrightarrow> w_recvClosed t"
    by (cases "w_close s") (auto simp: setConnectionState_def split: option.splits if_splits)
next
  case (Keep e)
  then show "ws_exec c l s = Some t \<Longrightarrow> w_recvClosed s \<Longrightarrow> w_recvClosed t"
    by (auto simp: bind_eq_Some_conv ws_rest_def dest!: keep_rest)
next
  case (Async e)
  then show "ws_exec c l s = Some t \<Longrightarrow> w_recvClosed s \<Longrightarrow> w_recvClosed t" by (auto simp: ws_rest_def dest!: async_rest)
next
  case (Rcv i e)
  then show "ws_exec c l s = Some t \<Longrightarrow> w_recvClosed s \<Longrightarrow> w_recvClosed t"
    by (auto simp: bind_eq_Some_conv ws_rest_def dest!: receiver_rest)
next
  case (Snd e)
  then show "ws_exec c l s = Some t \<Longrightarrow> w_recvClosed s \<Longrightarrow> w_recvClosed t"
    by (auto simp: bind_eq_Some_conv ws_rest_def dest!: sender_rest)
next
  case (Writer e)
  then show "ws_exec c l s = Some t \<Longrightarrow> w_recvClosed s \<Longrightarrow> w_recvClosed t"
    by (auto simp: bind_eq_Some_conv ws_rest_def dest!: writer_rest)
qed (auto split: if_splits list.splits)

text \<open>The handle whose receive channel the dispatcher ranges over, and a handle that can still deliver.\<close>

definition serving :: "leo_state \<Rightarrow> nat option" where
  "serving s = (case le_parse s of P_Range h \<Rightarrow> Some h | P_Dispatch h m \<Rightarrow> Some h | _ \<Rightarrow> None)"

definition delivers :: "leo_state \<Rightarrow> nat \<Rightarrow> bool" where
  "delivers s h \<longleftrightarrow> (\<exists>w. le_handles s h = Some w \<and> \<not> w_recvClosed w)"

text \<open>A call waits on the global handle, and the handle can still deliver.\<close>

definition awaited :: "leo_state \<Rightarrow> bool" where
  "awaited s \<longleftrightarrow> (\<exists>i k h. le_calls s i = Some k \<and> lc_at k = L_Wait h \<and> le_global s = Some h \<and> delivers s h)"

definition conn_of :: "call_at \<Rightarrow> nat option" where
  "conn_of a = (case a of L_Connect h \<Rightarrow> Some h | L_Send h \<Rightarrow> Some h | L_Start h \<Rightarrow> Some h | L_Wait h \<Rightarrow> Some h | _ \<Rightarrow> None)"

text \<open>The handles: the one being made is nobody's yet, and every other one is the global one or due to be closed.\<close>

definition registry_ok :: "leo_state \<Rightarrow> bool" where
  "registry_ok s \<longleftrightarrow> set_option (le_global s) \<union> set_option (le_making s) \<subseteq> dom (le_handles s) \<and>
     (\<forall>h. le_making s = Some h \<longrightarrow> le_global s \<noteq> Some h \<and> serving s \<noteq> Some h \<and> le_parse s \<noteq> P_Check h) \<and>
     (\<forall>h \<in> dom (le_handles s). le_global s = Some h \<or> le_making s = Some h \<or> h \<in> le_due s) \<and>
     (\<forall>i k h. le_calls s i = Some k \<longrightarrow> conn_of (lc_at k) = Some h \<longrightarrow> h \<in> dom (le_handles s) \<and> le_making s \<noteq> Some h)"

definition dispatcher_ok :: "leo_state \<Rightarrow> bool" where
  "dispatcher_ok s \<longleftrightarrow> le_running s = (le_parse s \<noteq> P_Idle) \<and>
     (\<forall>h. serving s = Some h \<longrightarrow> h \<in> dom (le_handles s)) \<and>
     (\<forall>h. le_parse s = P_Check h \<longrightarrow> h \<in> dom (le_handles s) \<and> \<not> delivers s h) \<and>
     (awaited s \<longrightarrow> le_running s \<and> (le_parse s = P_Left \<longrightarrow> le_restart s))"

definition leo_alive :: "leo_state \<Rightarrow> bool" where
  "leo_alive s \<longleftrightarrow> registry_ok s \<and> dispatcher_ok s"

text \<open>Registering handles, and the steps of one handle.\<close>

lemma leo_alive_frame:
  assumes "leo_alive s" "\<And>h. delivers t h \<Longrightarrow> delivers s h" "dom (le_handles t) = dom (le_handles s)"
    "le_global t = le_global s" "le_making t = le_making s" "le_due t = le_due s" "le_parse t = le_parse s"
    "le_running t = le_running s" "le_restart t = le_restart s"
    "\<And>i k h. le_calls t i = Some k \<Longrightarrow> conn_of (lc_at k) = Some h \<Longrightarrow>
       (\<exists>k'. le_calls s i = Some k' \<and> conn_of (lc_at k') = Some h \<and> (lc_at k = L_Wait h \<longrightarrow> lc_at k' = L_Wait h)) \<or>
       lc_at k \<noteq> L_Wait h \<and> le_global s = Some h"
  shows "leo_alive t"
proof -
  have v: "serving t = serving s" using assms(7) by (simp add: serving_def)
  have r: "registry_ok s" using assms(1) by (simp add: leo_alive_def)
  have g: "h \<in> dom (le_handles s) \<and> le_making s \<noteq> Some h" if "le_global s = Some h" for h
    using r that unfolding registry_ok_def by auto
  have "registry_ok t"
    unfolding registry_ok_def assms(3-7) v
  proof (intro conjI allI impI)
    fix i k h assume "le_calls t i = Some k" "conn_of (lc_at k) = Some h"
    then have "(\<exists>k'. le_calls s i = Some k' \<and> conn_of (lc_at k') = Some h) \<or> le_global s = Some h" using assms(10) by blast
    then have "h \<in> dom (le_handles s) \<and> le_making s \<noteq> Some h" using r g unfolding registry_ok_def by blast
    then show "h \<in> dom (le_handles s)" "le_making s \<noteq> Some h" by simp_all
  qed (use r in \<open>simp_all add: registry_ok_def\<close>)
  moreover have "awaited s" if aw: "awaited t"
  proof -
    obtain i k h where a: "le_calls t i = Some k" "lc_at k = L_Wait h" "le_global t = Some h" "delivers t h"
      using aw unfolding awaited_def by blast
    then obtain k' where "le_calls s i = Some k'" "lc_at k' = L_Wait h" using assms(10) [of i k h] by (auto simp: conn_of_def)
    then show ?thesis using a(3,4) assms(2,4) unfolding awaited_def by auto
  qed
  ultimately show ?thesis using assms(1,2) unfolding leo_alive_def dispatcher_ok_def assms(3,7-9) v by blast
qed

lemma handle_alive:
  assumes "leo_alive s" "le_handles s h = Some w" "w_recvClosed w \<Longrightarrow> w_recvClosed v"
  shows "leo_alive (s\<lparr>le_handles := (le_handles s)(h \<mapsto> v)\<rparr>)"
  by (rule leo_alive_frame [OF assms(1)]) (use assms(2,3) in \<open>auto simp: delivers_def split: if_splits\<close>)

lemma create_alive:
  assumes "leo_alive s" "le_making s = None" "le_handles s h = None"
  shows "leo_alive (s\<lparr>le_handles := (le_handles s)(h \<mapsto> w), le_making := Some h\<rparr>)" (is "leo_alive ?t")
proof -
  have r: "registry_ok s" and d: "dispatcher_ok s" using assms(1) by (simp_all add: leo_alive_def)
  have g: "le_global s \<noteq> Some h" using r assms(3) by (auto simp: registry_ok_def)
  have v: "serving s \<noteq> Some h" "le_parse s \<noteq> P_Check h" using d assms(3) by (auto simp: dispatcher_ok_def)
  have dl: "delivers ?t h' = delivers s h'" if "h' \<noteq> h" for h' using that by (simp add: delivers_def)
  have c: "conn_of (lc_at k) \<noteq> Some h" if "le_calls s i = Some k" for i k
    using r that assms(3) unfolding registry_ok_def by blast
  have sv: "serving ?t = serving s" by (simp add: serving_def)
  have "registry_ok ?t"
    using r g v c assms(2) unfolding registry_ok_def sv by auto
  moreover have "awaited s" if aw: "awaited ?t"
  proof -
    obtain i k q where a: "le_calls s i = Some k" "lc_at k = L_Wait q" "le_global s = Some q" "delivers ?t q"
      using aw by (auto simp: awaited_def)
    moreover have "q \<noteq> h" using a(3) g by auto
    ultimately show ?thesis using dl [of q] unfolding awaited_def by blast
  qed
  moreover have "\<not> delivers ?t h'" if "le_parse s = P_Check h'" for h'
    using d that dl [of h'] v(2) by (auto simp: dispatcher_ok_def)
  moreover have "h' \<in> dom (le_handles ?t)" if "h' \<in> dom (le_handles s)" for h' using that by auto
  moreover have e: "le_parse ?t = le_parse s" "le_running ?t = le_running s" "le_restart ?t = le_restart s" by simp_all
  ultimately show ?thesis using d unfolding leo_alive_def dispatcher_ok_def sv e by blast
qed

lemma replace_alive:
  assumes "leo_alive s" "leo_exec j c (ReplaceConn e) s = Some t"
  shows "leo_alive t"
  using assms(2)
proof (rule ReplaceConn_cases)
  fix h g due
  assume h: "le_making s = Some h" and gd: "replaceGlobalWsConn e (handle_closed s) (le_global s) (Some h) = (g, due)"
    and t: "t = s\<lparr>le_global := g, le_due := le_due s \<union> set_option due, le_making := None\<rparr>"
  have r: "registry_ok s" and d: "dispatcher_ok s" using assms(1) by (simp_all add: leo_alive_def)
  have ne: "le_global s \<noteq> Some h" using r h by (simp add: registry_ok_def)
  have alt: "g = le_global s \<and> due = Some h \<or> g = Some h \<and> due = le_global s"
    using gd ne by (auto simp: replaceGlobalWsConn_def split: if_splits)
  have sv: "serving t = serving s" "\<And>h. delivers t h = delivers s h" by (auto simp: t serving_def delivers_def)
  have "registry_ok t"
    using r alt h unfolding registry_ok_def sv by (auto simp: t)
  moreover have "awaited s" if aw: "awaited t"
  proof -
    obtain i k q where a: "le_calls s i = Some k" "lc_at k = L_Wait q" "g = Some q" "delivers s q"
      using aw sv(2) by (auto simp: awaited_def t)
    moreover have "conn_of (lc_at k) = Some q" using a(2) by (simp add: conn_of_def)
    ultimately have "q \<noteq> h" using r h unfolding registry_ok_def by blast
    then have "le_global s = Some q" using alt a(3) by auto
    then show ?thesis using a unfolding awaited_def by blast
  qed
  moreover have e: "le_parse t = le_parse s" "le_running t = le_running s" "le_restart t = le_restart s" "le_handles t = le_handles s"
    by (simp_all add: t)
  ultimately show ?thesis using d unfolding leo_alive_def dispatcher_ok_def sv e by blast
qed
text \<open>The steps of a call. Starting to wait sees that the dispatcher looks at the global handle again.\<close>

lemma start_alive:
  assumes "leo_alive s" "le_calls s i = Some \<lparr>lc_ip = ip, lc_mark = n, lc_at = L_Start h\<rparr>"
  shows "leo_alive (put_call i \<lparr>lc_ip = ip, lc_mark = n, lc_at = L_Wait h\<rparr> (startReceiveParse s))" (is "leo_alive ?t")
proof -
  have r: "registry_ok s" and d: "dispatcher_ok s" using assms(1) by (simp_all add: leo_alive_def)
  have c: "h \<in> dom (le_handles s) \<and> le_making s \<noteq> Some h" using r assms(2) unfolding registry_ok_def by (fastforce simp: conn_of_def)
  have e: "le_handles ?t = le_handles s" "le_global ?t = le_global s" "le_making ?t = le_making s" "le_due ?t = le_due s"
      "\<And>h. delivers ?t h = delivers s h" "le_running ?t" "serving ?t = Some h' \<Longrightarrow> serving s = Some h'" for h'
    by (auto simp: put_call_def startReceiveParse_def delivers_def serving_def split: if_splits)
  have p: "le_parse ?t = (if le_running s then le_parse s else P_Enter)" "le_running s \<Longrightarrow> le_restart ?t"
    by (simp_all add: put_call_def startReceiveParse_def)
  have calls: "le_calls ?t = (le_calls s)(i \<mapsto> \<lparr>lc_ip = ip, lc_mark = n, lc_at = L_Wait h\<rparr>)" by simp
  have "registry_ok ?t"
    unfolding registry_ok_def e(1-4) calls
  proof (intro conjI allI impI)
    fix i' k q assume "((le_calls s)(i \<mapsto> \<lparr>lc_ip = ip, lc_mark = n, lc_at = L_Wait h\<rparr>)) i' = Some k" "conn_of (lc_at k) = Some q"
    then have "q \<in> dom (le_handles s) \<and> le_making s \<noteq> Some q"
      using r c by (cases "i' = i") (auto simp: registry_ok_def conn_of_def split: if_splits)
    then show "q \<in> dom (le_handles s)" "le_making s \<noteq> Some q" by simp_all
  qed (use r e(7) p(1) in \<open>auto simp: registry_ok_def split: if_splits\<close>)
  moreover have "dispatcher_ok ?t"
    using d e(5,6,7) p unfolding dispatcher_ok_def e(1,2) by (auto split: if_splits)
  ultimately show ?thesis by (simp add: leo_alive_def)
qed

lemma LeoIP_alive:
  assumes "le_calls s i = Some k" "LeoIP expired i k s = Some t" "leo_alive s"
  shows "leo_alive t"
proof -
  obtain ip n a where k: "k = \<lparr>lc_ip = ip, lc_mark = n, lc_at = a\<rparr>" by (cases k)
  have other: "leo_alive (put_call i \<lparr>lc_ip = ip, lc_mark = m, lc_at = a'\<rparr> s')"
    if q: "le_calls s' = le_calls s" "\<And>h. delivers s' h \<Longrightarrow> delivers s h" "dom (le_handles s') = dom (le_handles s)"
      "le_global s' = le_global s" "le_making s' = le_making s" "le_due s' = le_due s" "le_parse s' = le_parse s"
      "le_running s' = le_running s" "le_restart s' = le_restart s"
      "\<And>h. conn_of a' = Some h \<Longrightarrow> a' \<noteq> L_Wait h \<and> (conn_of a = Some h \<or> le_global s = Some h)" for m a' s'
    by (rule leo_alive_frame [OF assms(3)])
      (use q assms(1) k in \<open>auto simp: put_call_def delivers_def split: if_splits\<close>)
  show ?thesis
  proof (cases a)
    case (L_Send h)
    show ?thesis
    proof (cases expired)
      case True
      then show ?thesis using assms(2) k L_Send by (auto simp: bind_eq_Some_conv leoTimeOut_def conn_of_def intro!: other)
    next
      case False
      then obtain w where "le_handles s h = Some w"
          "t = put_call i \<lparr>lc_ip = ip, lc_mark = n, lc_at = L_Start h\<rparr> (s\<lparr>le_handles := (le_handles s)(h \<mapsto> w\<lparr>w_send := w_send w @ [ip]\<rparr>)\<rparr>)"
        using assms(2) k L_Send by (auto simp: bind_eq_Some_conv split: if_splits)
      then show ?thesis using L_Send by (auto simp: delivers_def conn_of_def split: if_splits intro!: other)
    qed
  next
    case (L_Start h)
    then show ?thesis using assms k start_alive by auto
  qed (use assms(2) k in \<open>auto simp: conn_of_def leoTimeOut_def bind_eq_Some_conv ensure_channel_def delivers_def
      split: if_splits option.splits intro!: other\<close>)
qed
text \<open>The steps of the dispatcher. It only stops when no call waits on the global handle, and it leaves \<open>receiveParse\<close> with such
  a call around only if it has been told to start over.\<close>

lemma parse_alive:
  assumes "leo_alive s"
    "le_handles t = le_handles s" "le_global t = le_global s" "le_making t = le_making s" "le_due t = le_due s" "le_calls t = le_calls s"
    "le_running t = (le_parse t \<noteq> P_Idle)" "awaited s \<Longrightarrow> le_parse t \<noteq> P_Idle \<and> (le_parse t = P_Left \<longrightarrow> le_restart t)"
    "\<And>h. serving t = Some h \<Longrightarrow> serving s = Some h \<or> le_global s = Some h"
    "\<And>h. le_parse t = P_Check h \<Longrightarrow> serving s = Some h \<and> \<not> delivers s h"
  shows "leo_alive t"
proof -
  have r: "registry_ok s" and d: "dispatcher_ok s" using assms(1) by (simp_all add: leo_alive_def)
  have e: "\<And>h. delivers t h = delivers s h" "awaited t = awaited s" using assms(2,3,6) by (simp_all add: delivers_def awaited_def)
  have "serving t \<noteq> Some h \<and> le_parse t \<noteq> P_Check h" if "le_making s = Some h" for h
    using r that assms(9,10) [of h] unfolding registry_ok_def by auto
  then have "registry_ok t" using r unfolding registry_ok_def assms(2-6) by simp
  moreover have "h \<in> dom (le_handles s)" if "serving s = Some h \<or> le_global s = Some h" for h
    using that r d unfolding registry_ok_def dispatcher_ok_def by auto
  then have "dispatcher_ok t" using assms(7-10) unfolding dispatcher_ok_def assms(2) e by blast
  ultimately show ?thesis by (simp add: leo_alive_def)
qed

lemma dispatcher_alive:
  assumes "runReceiveParseLoop j (le_parse s) s = Some t" "leo_alive s"
  shows "leo_alive t"
proof -
  have d: "dispatcher_ok s" using assms(2) by (simp add: leo_alive_def)
  show ?thesis
  proof (cases "le_parse s")
    case P_Idle
    then show ?thesis using assms(1) by simp
  next
    case P_Enter
    then have t: "t = s\<lparr>le_parse := (case le_global s of None \<Rightarrow> P_Left | Some h \<Rightarrow> P_Range h)\<rparr>" using assms(1) by simp
    show ?thesis by (rule parse_alive [OF assms(2)])
        (use d P_Enter in \<open>auto simp: t dispatcher_ok_def serving_def awaited_def split: option.splits\<close>)
  next
    case (P_Range h)
    then obtain w where w: "le_handles s h = Some w" using assms(1) by (auto simp: bind_eq_Some_conv)
    show ?thesis
    proof (cases "w_recv w")
      case Nil
      then have t: "t = s\<lparr>le_parse := P_Check h\<rparr>" "w_recvClosed w" using assms(1) P_Range w by (auto split: if_splits)
      show ?thesis by (rule parse_alive [OF assms(2)])
          (use d P_Range w t(2) in \<open>auto simp: t(1) dispatcher_ok_def serving_def delivers_def\<close>)
    next
      case (Cons m q)
      let ?u = "s\<lparr>le_handles := (le_handles s)(h \<mapsto> w\<lparr>w_recv := q\<rparr>)\<rparr>"
      have t: "t = ?u\<lparr>le_parse := P_Dispatch h m\<rparr>" using assms(1) P_Range w Cons by simp
      have u: "leo_alive ?u" using handle_alive [OF assms(2) w] by simp
      show ?thesis by (rule parse_alive [OF u])
          (use d P_Range in \<open>auto simp: t dispatcher_ok_def serving_def\<close>)
    qed
  next
    case (P_Dispatch h m)
    let ?u = "dispatchLeoMessage j m s"
    have t: "t = ?u\<lparr>le_parse := P_Range h\<rparr>" using assms(1) P_Dispatch by simp
    show ?thesis by (rule parse_alive [OF assms(2)])
        (use d P_Dispatch in \<open>auto simp: t dispatcher_ok_def serving_def dispatchLeoMessage_def ensure_channel_def Let_def\<close>)
  next
    case (P_Check h)
    then have t: "t = s\<lparr>le_parse := (if le_global s \<noteq> Some h then P_Enter else P_Left)\<rparr>" using assms(1) by simp
    have "le_global s \<noteq> Some h" if "awaited s" using that d P_Check by (auto simp: dispatcher_ok_def awaited_def)
    then show ?thesis by (intro parse_alive [OF assms(2)])
        (use d P_Check in \<open>auto simp: t dispatcher_ok_def serving_def split: if_splits\<close>)
  next
    case P_Left
    then have t: "t = (if \<not> le_restart s then s\<lparr>le_running := False, le_parse := P_Idle\<rparr> else s\<lparr>le_restart := False, le_parse := P_Enter\<rparr>)"
      using assms(1) by simp
    show ?thesis by (rule parse_alive [OF assms(2)])
        (use d P_Left in \<open>auto simp: t dispatcher_ok_def serving_def split: if_splits\<close>)
  qed
qed

lemma leo_exec_alive:
  assumes "leo_exec j c l s = Some t" "leo_alive s"
  shows "leo_alive t"
proof (cases l)
  case (Handle h w)
  then obtain u v where u: "le_handles s h = Some u" "ws_exec c w u = Some v" "t = s\<lparr>le_handles := (le_handles s)(h \<mapsto> v)\<rparr>"
    using assms(1) by (auto simp: bind_eq_Some_conv split: if_splits)
  then show ?thesis using handle_alive [OF assms(2) u(1)] recvClosed_stays [OF u(2)] by simp
next
  case (CreateConn h how)
  then show ?thesis using assms create_alive by (auto split: if_splits)
next
  case (ReplaceConn e)
  then show ?thesis using assms replace_alive by blast
next
  case (NewCall i ip)
  then have t: "t = put_call i \<lparr>lc_ip = ip, lc_mark = 0, lc_at = L_Begin\<rparr> s" using assms(1) by (simp split: if_splits)
  show ?thesis by (rule leo_alive_frame [OF assms(2)])
      (auto simp: t put_call_def delivers_def conn_of_def split: if_splits)
next
  case (CallStep i e)
  then show ?thesis using assms LeoIP_alive by (auto simp: bind_eq_Some_conv)
next
  case Dispatcher
  then show ?thesis using assms dispatcher_alive by simp
qed

interpretation leo_dispatcher: step_invariant "leo_step j c" leo_alive for j c
  by unfold_locales (auto simp: leo_step_def exec_step_def intro: leo_exec_alive)

lemma leo_alive_init: "leo_alive (leo_init Map.empty None)"
  by (simp add: leo_alive_def registry_ok_def dispatcher_ok_def leo_init_def serving_def awaited_def)

text \<open>Left to itself the dispatcher empties a closed handle and leaves it.\<close>

lemma exec_run_app: "exec_run f ls s = Some t \<Longrightarrow> exec_run f ls' t = Some u \<Longrightarrow> exec_run f (ls @ ls') s = Some u"
  by (induction ls arbitrary: s) (auto simp: bind_eq_Some_conv)

definition dispatches_to :: "json_reader \<Rightarrow> ws_config \<Rightarrow> leo_state \<Rightarrow> leo_state \<Rightarrow> bool" where
  "dispatches_to j c s t \<longleftrightarrow> (\<exists>n. exec_run (leo_exec j c) (replicate n Dispatcher) s = Some t)"

lemma dispatches_refl: "dispatches_to j c s s"
  unfolding dispatches_to_def by (rule exI [of _ 0]) simp

lemma dispatches_step: "leo_exec j c Dispatcher s = Some t \<Longrightarrow> dispatches_to j c t u \<Longrightarrow> dispatches_to j c s u"
  unfolding dispatches_to_def
proof (elim exE)
  fix n assume "leo_exec j c Dispatcher s = Some t" "exec_run (leo_exec j c) (replicate n Dispatcher) t = Some u"
  then show "\<exists>n. exec_run (leo_exec j c) (replicate n Dispatcher) s = Some u" by (intro exI [of _ "Suc n"]) simp
qed

lemma dispatches_trans: "dispatches_to j c s t \<Longrightarrow> dispatches_to j c t u \<Longrightarrow> dispatches_to j c s u"
  unfolding dispatches_to_def
proof (elim exE)
  fix m n assume "exec_run (leo_exec j c) (replicate m Dispatcher) s = Some t" "exec_run (leo_exec j c) (replicate n Dispatcher) t = Some u"
  then show "\<exists>n. exec_run (leo_exec j c) (replicate n Dispatcher) s = Some u"
    by (intro exI [of _ "m + n"]) (simp add: replicate_add exec_run_app)
qed

lemma dispatch_frame [simp]:
  "le_handles (dispatchLeoMessage j m s) = le_handles s" "le_global (dispatchLeoMessage j m s) = le_global s"
  "le_log (dispatchLeoMessage j m s) = le_log s @ [m]" "le_restart (dispatchLeoMessage j m s) = le_restart s"
  by (simp_all add: dispatchLeoMessage_def ensure_channel_def Let_def)

lemma leaves_closed:
  assumes "le_handles s q = Some v" "w_recvClosed v" "le_parse s = P_Range q"
  shows "\<exists>t. dispatches_to j c s t \<and> le_parse t = P_Check q \<and> le_global t = le_global s \<and> (\<forall>h. h \<noteq> q \<longrightarrow> le_handles t h = le_handles s h)"
  using assms
proof (induction "w_recv v" arbitrary: s v)
  case Nil
  then have "leo_exec j c Dispatcher s = Some (s\<lparr>le_parse := P_Check q\<rparr>)" by simp
  then show ?case using dispatches_step [OF _ dispatches_refl]
    by (intro exI [of _ "s\<lparr>le_parse := P_Check q\<rparr>"]) simp
next
  case (Cons m ms)
  let ?v = "v\<lparr>w_recv := ms\<rparr>"
  let ?s1 = "s\<lparr>le_handles := (le_handles s)(q \<mapsto> ?v), le_parse := P_Dispatch q m\<rparr>"
  let ?s2 = "(dispatchLeoMessage j m ?s1)\<lparr>le_parse := P_Range q\<rparr>"
  have st: "leo_exec j c Dispatcher s = Some ?s1" "leo_exec j c Dispatcher ?s1 = Some ?s2"
    using Cons.prems by (simp_all flip: Cons.hyps(2))
  have "\<exists>t. dispatches_to j c ?s2 t \<and> le_parse t = P_Check q \<and> le_global t = le_global ?s2 \<and>
      (\<forall>h. h \<noteq> q \<longrightarrow> le_handles t h = le_handles ?s2 h)"
    by (rule Cons.hyps(1) [of ?v]) (use Cons.prems in simp_all)
  then obtain t where "dispatches_to j c ?s2 t" "le_parse t = P_Check q" "le_global t = le_global s"
      "\<forall>h. h \<noteq> q \<longrightarrow> le_handles t h = le_handles s h" by auto
  then show ?case using dispatches_step [OF st(1) dispatches_step [OF st(2)]] by blast
qed

lemma takes_next:
  assumes "le_handles s h = Some w" "w_recv w = m # q" "le_parse s = P_Range h"
  shows "\<exists>t. dispatches_to j c s t \<and> le_handles t h = Some (w\<lparr>w_recv := q\<rparr>) \<and> le_log t \<noteq> [] \<and> last (le_log t) = m"
proof -
  let ?s1 = "s\<lparr>le_handles := (le_handles s)(h \<mapsto> w\<lparr>w_recv := q\<rparr>), le_parse := P_Dispatch h m\<rparr>"
  let ?s2 = "(dispatchLeoMessage j m ?s1)\<lparr>le_parse := P_Range h\<rparr>"
  have st: "leo_exec j c Dispatcher s = Some ?s1" "leo_exec j c Dispatcher ?s1 = Some ?s2" using assms by simp_all
  then show ?thesis using dispatches_step [OF st(1) dispatches_step [OF st(2) dispatches_refl]]
    by (intro exI [of _ ?s2]) simp
qed

lemma enters_global:
  assumes "le_handles s h = Some w" "w_recv w = m # q" "le_global s = Some h" "le_parse s = P_Enter"
  shows "\<exists>t. dispatches_to j c s t \<and> le_handles t h = Some (w\<lparr>w_recv := q\<rparr>) \<and> le_log t \<noteq> [] \<and> last (le_log t) = m"
proof -
  have st: "leo_exec j c Dispatcher s = Some (s\<lparr>le_parse := P_Range h\<rparr>)" using assms by simp
  have "\<exists>t. dispatches_to j c (s\<lparr>le_parse := P_Range h\<rparr>) t \<and> le_handles t h = Some (w\<lparr>w_recv := q\<rparr>) \<and> le_log t \<noteq> [] \<and> last (le_log t) = m"
    by (rule takes_next) (use assms in simp_all)
  then show ?thesis using dispatches_step [OF st] by blast
qed

lemma leaves_then_takes:
  assumes "le_handles s q' = Some v" "w_recvClosed v" "le_parse s = P_Range q'" "q' \<noteq> h"
    "le_handles s h = Some w" "w_recv w = m # q" "le_global s = Some h"
  shows "\<exists>t. dispatches_to j c s t \<and> le_handles t h = Some (w\<lparr>w_recv := q\<rparr>) \<and> le_log t \<noteq> [] \<and> last (le_log t) = m"
proof -
  obtain u where u: "dispatches_to j c s u" "le_parse u = P_Check q'" "le_global u = Some h" "le_handles u h = Some w"
    using leaves_closed [OF assms(1-3), of j c] assms(4,5,7) by metis
  have st: "leo_exec j c Dispatcher u = Some (u\<lparr>le_parse := P_Enter\<rparr>)" using u(2,3) assms(4) by simp
  have "\<exists>t. dispatches_to j c (u\<lparr>le_parse := P_Enter\<rparr>) t \<and> le_handles t h = Some (w\<lparr>w_recv := q\<rparr>) \<and> le_log t \<noteq> [] \<and> last (le_log t) = m"
    by (rule enters_global) (use u assms(6) in simp_all)
  then obtain t where t: "dispatches_to j c u t" "le_handles t h = Some (w\<lparr>w_recv := q\<rparr>)" "le_log t \<noteq> []" "last (le_log t) = m"
    using dispatches_step [OF st] by blast
  then show ?thesis using dispatches_trans [OF u(1)] by blast
qed

text \<open>C31. While a call waits for its answer on the global handle and that handle can still deliver, the dispatcher is running; the handle it
  ranges over is that handle or a replaced one that is to be closed; and as soon as the replaced one is closed, the dispatcher by
  its own steps takes and dispatches the next message the handle has received. So no message is left lying in the receive channel
  because the dispatcher was leaving just when the handle was replaced and the call was started: this is what the restart flag is for.
  And with the calls and the dispatcher as its users no handle sends on a closed channel.\<close>

theorem leo_dispatcher_alive:
  assumes "reaches (leo_step j c) (leo_init Map.empty None) s"
    "le_calls s i = Some k" "lc_at k = L_Wait h" "le_global s = Some h" "le_handles s h = Some w" "\<not> w_recvClosed w"
  shows "le_running s \<and> (\<forall>q v. le_handles s q = Some v \<longrightarrow> \<not> w_panic v) \<and>
    (\<forall>q. serving s = Some q \<longrightarrow> q = h \<or> q \<in> le_due s) \<and>
    (\<forall>m ms. w_recv w = m # ms \<longrightarrow> (\<forall>q v. serving s = Some q \<longrightarrow> q \<noteq> h \<longrightarrow> le_handles s q = Some v \<longrightarrow> w_recvClosed v) \<longrightarrow>
       (\<exists>n t. exec_run (leo_exec j c) (replicate n Dispatcher) s = Some t \<and> le_handles t h = Some (w\<lparr>w_recv := ms\<rparr>) \<and>
          le_log t \<noteq> [] \<and> last (le_log t) = m))"
proof -
  have "leo_alive s" by (rule leo_dispatcher.reachable_inv [OF assms(1) leo_alive_init])
  then have r: "registry_ok s" and d: "dispatcher_ok s" by (simp_all add: leo_alive_def)
  have dl: "delivers s h" using assms(5,6) by (simp add: delivers_def)
  have aw: "awaited s" using assms(2-4) dl unfolding awaited_def by blast
  have run: "le_running s" "le_parse s \<noteq> P_Idle" "le_parse s = P_Left \<Longrightarrow> le_restart s" using d aw by (auto simp: dispatcher_ok_def)
  have "handles_safe (leo_init Map.empty None)" by (simp add: handles_safe_def leo_init_def)
  then have "handles_safe s" by (rule leo_handles.reachable_inv [OF assms(1)])
  then have safe: "\<not> w_panic v" if "le_handles s q = Some v" for q v using that by (auto simp: handles_safe_def ws_safe_def)
  have due: "q = h \<or> q \<in> le_due s" if "serving s = Some q" for q
    using that r d assms(4) unfolding registry_ok_def dispatcher_ok_def by auto
  have "\<exists>t. dispatches_to j c s t \<and> le_handles t h = Some (w\<lparr>w_recv := ms\<rparr>) \<and> le_log t \<noteq> [] \<and> last (le_log t) = m"
    if m: "w_recv w = m # ms" and old: "\<And>q v. serving s = Some q \<Longrightarrow> q \<noteq> h \<Longrightarrow> le_handles s q = Some v \<Longrightarrow> w_recvClosed v" for m ms
  proof -
    have range: ?thesis if s': "dispatches_to j c s u" "le_parse u = P_Range q" "le_handles u = le_handles s" "le_global u = Some h"
        "serving s = Some q" for u q
    proof -
      obtain v where v: "le_handles s q = Some v" using d s'(5) by (auto simp: dispatcher_ok_def)
      have "\<exists>t. dispatches_to j c u t \<and> le_handles t h = Some (w\<lparr>w_recv := ms\<rparr>) \<and> le_log t \<noteq> [] \<and> last (le_log t) = m"
        by (cases "q = h") (use s' v m old [OF s'(5) _ v] assms(5) in \<open>simp_all add: takes_next leaves_then_takes\<close>)
      then show ?thesis using dispatches_trans [OF s'(1)] by blast
    qed
    have enter: ?thesis if "leo_exec j c Dispatcher s = Some (u\<lparr>le_parse := P_Enter\<rparr>)" "le_handles u = le_handles s" "le_global u = le_global s" for u
    proof -
      have "\<exists>t. dispatches_to j c (u\<lparr>le_parse := P_Enter\<rparr>) t \<and> le_handles t h = Some (w\<lparr>w_recv := ms\<rparr>) \<and> le_log t \<noteq> [] \<and> last (le_log t) = m"
        by (rule enters_global) (use that assms(4,5) m in simp_all)
      then show ?thesis using dispatches_step [OF that(1)] by blast
    qed
    show ?thesis
    proof (cases "le_parse s")
      case P_Idle
      then show ?thesis using run by simp
    next
      case P_Enter
      then show ?thesis by (intro enters_global [OF assms(5) m assms(4)])
    next
      case (P_Range q)
      then show ?thesis by (intro range [of s q]) (simp_all add: dispatches_refl serving_def assms(4))
    next
      case (P_Dispatch q a)
      have "leo_exec j c Dispatcher s = Some ((dispatchLeoMessage j a s)\<lparr>le_parse := P_Range q\<rparr>)" using P_Dispatch by simp
      then show ?thesis using P_Dispatch assms(4) dispatches_step [OF _ dispatches_refl]
        by (intro range [of "(dispatchLeoMessage j a s)\<lparr>le_parse := P_Range q\<rparr>" q]) (simp_all add: serving_def)
    next
      case (P_Check q)
      then have "q \<noteq> h" using d dl by (auto simp: dispatcher_ok_def)
      then show ?thesis using P_Check assms(4) by (intro enter [of s]) simp_all
    next
      case P_Left
      then show ?thesis using run(3) by (intro enter [of "s\<lparr>le_restart := False\<rparr>"]) simp_all
    qed
  qed
  then show ?thesis using run(1) safe due unfolding dispatches_to_def by blast
qed
subsection \<open>Concrete calls\<close>

definition leo_reader :: json_reader where
  "leo_reader = \<lparr>js_field = (\<lambda>d n. if n = ''ip'' then ''8.8.8.8'' else if n = ''asnumber'' then ''15169'' else []),
     js_number = (\<lambda>_. 0), js_router = (\<lambda>_. [])\<rparr>"

definition leo_sample :: ws_config where "leo_sample = \<lparr>wc_envToken = [], wc_refreshIP = False\<rparr>"

text \<open>A new connected handle, a call up to its wait, and an answer that arrives.\<close>

definition new_handle :: "nat \<Rightarrow> leo_label list" where
  "new_handle h = [CreateConn h (MakeConn True False True (Some ''t'') True ''t''), ReplaceConn False]"

definition asking :: "nat \<Rightarrow> leo_label list" where
  "asking i = [NewCall i ''8.8.8.8'', CallStep i False, CallStep i False, CallStep i False, CallStep i False, CallStep i False, CallStep i False]"

definition receiving :: "nat \<Rightarrow> leo_label list" where
  "receiving h = [Handle h (Rcv 0 RcvGo), Handle h (Rcv 0 RcvGo), Handle h (Rcv 0 RcvGo), Handle h (Rcv 0 RcvGo),
     Handle h (Rcv 0 (RcvMessage ''{}'')), Handle h (Rcv 0 RcvGo)]"

definition leo_answered :: "leo_label list" where
  "leo_answered = new_handle 0 @ asking 0 @ receiving 0 @ [Dispatcher, Dispatcher, Dispatcher, CallStep 0 False]"

text \<open>The handle is closed, the dispatcher is about to stop, and only now a new handle is made and asked.\<close>

definition closing_handle :: "leo_label list" where
  "closing_handle = [Handle 0 Closing, Handle 0 Closing, Handle 0 Closing, Handle 0 Closing, Handle 0 Closing, Handle 0 Closing,
     Handle 0 Closing, Handle 0 Closing, Handle 0 (Keep KeepExit), Handle 0 (Rcv 0 RcvGo), Handle 0 (Rcv 0 RcvGo),
     Handle 0 (Snd SndGo), Handle 0 (Snd SndStop), Handle 0 (Writer WriterStop), Handle 0 Closing]"

definition leo_raced :: "leo_label list" where
  "leo_raced = new_handle 0 @ asking 0 @ [Dispatcher] @ closing_handle @ [Dispatcher, Dispatcher] @ new_handle 1 @ asking 1 @ receiving 1"

lemmas leo_run_simps = exec_run.simps new_handle_def asking_def receiving_def leo_answered_def leo_raced_def closing_handle_def
  leo_init_def newWsConn_def createWsConn_def replaceGlobalWsConn_def handle_closed_def ws_setters own_label_def
  channel_cap_def put_call_def ensure_channel_def channel_of_def drainStaleGeo_def startReceiveParse_def leo_sample_def
  rcv_leave_def loops_over_def setConnectionState_def

theorem leo_answer_fresh_witness:
  "\<exists>(s :: leo_state) k g. le_calls s 0 = Some k \<and> lc_at k = L_Returned (Inr g) \<and> Asnumber g = ''15169'' \<and> lc_mark k = 0 \<and> length (le_log s) = 1"
proof -
  let ?s = "exec_run (leo_exec leo_reader leo_sample) leo_answered (leo_init Map.empty None)"
  have "\<exists>g. ?s \<noteq> None \<and> le_calls (the ?s) 0 = Some \<lparr>lc_ip = ''8.8.8.8'', lc_mark = 0, lc_at = L_Returned (Inr g)\<rparr> \<and> le_log (the ?s) = [''{}'']"
    by (simp add: leo_run_simps leo_reader_def dispatchLeoMessage_def deliverGeo_def Let_def)
  then obtain s g where s: "?s = Some s" "le_calls s 0 = Some \<lparr>lc_ip = ''8.8.8.8'', lc_mark = 0, lc_at = L_Returned (Inr g)\<rparr>" "le_log s = [''{}'']"
    by auto
  have "\<exists>n. n < length (le_log s) \<and> g = leo_geo leo_reader (le_log s ! n)"
    using leo_answer_fresh [OF exec_run_reaches [OF s(1), folded leo_step_def] s(2)] by auto
  then have "Asnumber g = ''15169''" by (auto simp: leo_geo_def leo_reader_def Let_def)
  then show ?thesis using s(2,3) by (intro exI [of _ s] exI [of _ "\<lparr>lc_ip = ''8.8.8.8'', lc_mark = 0, lc_at = L_Returned (Inr g)\<rparr>"] exI [of _ g]) simp
qed

text \<open>The dispatcher was leaving with the old handle; the message on the new one is dispatched all the same.\<close>

theorem leo_dispatcher_alive_witness:
  "\<exists>s n t. le_parse s = P_Left \<and> le_restart s \<and> le_log s = [] \<and>
     exec_run (leo_exec leo_reader leo_sample) (replicate n Dispatcher) s = Some t \<and> last (le_log t) = ''{}''"
proof -
  let ?s = "exec_run (leo_exec leo_reader leo_sample) leo_raced (leo_init Map.empty None)"
  let ?k = "\<lparr>lc_ip = ''8.8.8.8'', lc_mark = 0, lc_at = L_Wait 1\<rparr>"
  have "?s \<noteq> None \<and> le_calls (the ?s) 1 = Some ?k \<and> le_global (the ?s) = Some 1 \<and> le_parse (the ?s) = P_Left \<and> le_restart (the ?s) \<and>
      le_log (the ?s) = [] \<and> (\<exists>w. le_handles (the ?s) 1 = Some w \<and> \<not> w_recvClosed w \<and> w_recv w = [''{}''])"
    by (simp add: leo_run_simps)
  then obtain s w where s: "?s = Some s" "le_calls s 1 = Some ?k" "le_global s = Some 1" "le_parse s = P_Left" "le_restart s" "le_log s = []"
      "le_handles s 1 = Some w" "\<not> w_recvClosed w" "w_recv w = [''{}'']" by auto
  have k: "lc_at ?k = L_Wait 1" "serving s = None" using s(4) by (simp_all add: serving_def)
  have "\<exists>n t. exec_run (leo_exec leo_reader leo_sample) (replicate n Dispatcher) s = Some t \<and> last (le_log t) = ''{}''"
    using leo_dispatcher_alive [OF exec_run_reaches [OF s(1), folded leo_step_def] s(2) k(1) s(3,7,8)] s(9) k(2) by auto
  then show ?thesis using s(4-6) by blast
qed

end
