(* ===== verification/Hop_Groups.thy ===== *)
theory Hop_Groups
  imports Trace_Config
begin

section \<open>Grouping the attempts of a TTL\<close>

text \<open>
  \<open>internal/hoprender/group.go\<close>, which the printers use to show one line per address of a TTL. \<open>show_ms\<close> stands for
  \<open>fmt.Sprintf("%.2f ms", \<dots>)\<close> of a round-trip time in nanoseconds.
\<close>

subsection \<open>\<open>GroupHopAttempts\<close>\<close>

record Group =
  gr_IP :: string
  gr_Index :: nat
  gr_Timings :: "string list"

record grouping =
  gp_latest :: string
  gp_index :: "string \<rightharpoonup> nat"
  gp_groups :: "Group list"

definition lost_timing :: string where "lost_timing = ''* ms''"

definition add_timing :: "nat \<Rightarrow> string \<Rightarrow> grouping \<Rightarrow> grouping" where
  "add_timing k t s = s\<lparr>gp_groups := (gp_groups s)[k := (gp_groups s ! k)\<lparr>gr_Timings := gr_Timings (gp_groups s ! k) @ [t]\<rparr>]\<rparr>"

text \<open>One turn of the loop.\<close>

definition group_attempt :: "(int \<Rightarrow> string) \<Rightarrow> nat \<times> hop \<Rightarrow> grouping \<Rightarrow> grouping" where
  "group_attempt show_ms ih s =
     (case Address (snd ih) of
        None \<Rightarrow> if gp_latest s \<noteq> [] then add_timing (case gp_index s (gp_latest s) of None \<Rightarrow> 0 | Some k \<Rightarrow> k) lost_timing s else s
      | Some a \<Rightarrow>
          let ip = addr_String a;
              s = (case gp_index s ip of
                     Some k \<Rightarrow> s
                   | None \<Rightarrow> s\<lparr>gp_groups := gp_groups s @ [\<lparr>gr_IP = ip, gr_Index = fst ih,
                               gr_Timings = (if gp_latest s = [] then replicate (fst ih) lost_timing else [])\<rparr>],
                              gp_index := (gp_index s)(ip \<mapsto> length (gp_groups s))\<rparr>)
          in (add_timing (the (gp_index s ip)) (show_ms (RTT (snd ih))) s)\<lparr>gp_latest := ip\<rparr>)"

definition GroupHopAttempts :: "(int \<Rightarrow> string) \<Rightarrow> hop list \<Rightarrow> Group list" where
  "GroupHopAttempts show_ms hops =
     (let s = fold (group_attempt show_ms) (enumerate 0 hops) \<lparr>gp_latest = [], gp_index = Map.empty, gp_groups = []\<rparr>
      in if gp_latest s = [] then [] else gp_groups s)"

text \<open>After the first \<open>n\<close> attempts: the index knows exactly the groups, and every attempt has its timing.\<close>

definition grouped :: "grouping \<Rightarrow> hop list \<Rightarrow> bool" where
  "grouped s hops \<longleftrightarrow> (\<forall>ip k. gp_index s ip = Some k \<longleftrightarrow> k < length (gp_groups s) \<and> gr_IP (gp_groups s ! k) = ip) \<and>
     (if gp_latest s = [] then gp_groups s = [] \<and> (\<forall>h\<in>set hops. Address h = None)
      else gp_index s (gp_latest s) \<noteq> None \<and> (\<exists>h\<in>set hops. Address h \<noteq> None) \<and> sum_list (map (length \<circ> gr_Timings) (gp_groups s)) = length hops)"

text \<open>Attempts for the concrete case below.\<close>

definition lost_attempt :: hop where
  "lost_attempt = \<lparr>Success = False, Address = None, Hostname = [], TTL = 3, RTT = 0, Error = None, Geo = None, Lang = [], MPLS = []\<rparr>"

definition answered_attempt :: "string \<Rightarrow> hop" where
  "answered_attempt a = lost_attempt\<lparr>Success := True, Address := Some (OtherAddr a), RTT := 1000000\<rparr>"

lemma sum_list_update_Suc:
  "k < length xs \<Longrightarrow> f y = Suc (f (xs ! k)) \<Longrightarrow> sum_list (map f (xs[k := y])) = Suc (sum_list (map f xs))"
  by (induction xs arbitrary: k) (auto split: nat.split simp: nth_Cons')

lemma grouped_add_timing:
  assumes "k < length (gp_groups s)"
  shows "sum_list (map (length \<circ> gr_Timings) (gp_groups (add_timing k t s))) = Suc (sum_list (map (length \<circ> gr_Timings) (gp_groups s)))"
    "gp_index (add_timing k t s) = gp_index s" "gp_latest (add_timing k t s) = gp_latest s"
    "length (gp_groups (add_timing k t s)) = length (gp_groups s)"
    "j < length (gp_groups s) \<Longrightarrow> gr_IP (gp_groups (add_timing k t s) ! j) = gr_IP (gp_groups s ! j)"
    "j < length (gp_groups s) \<Longrightarrow> gr_Index (gp_groups (add_timing k t s) ! j) = gr_Index (gp_groups s ! j)"
  using assms by (auto simp: add_timing_def nth_list_update sum_list_update_Suc)

lemma grouped_step:
  assumes "grouped s hops" "\<And>a. Address h = Some a \<Longrightarrow> addr_String a \<noteq> []"
  shows "grouped (group_attempt show_ms (length hops, h) s) (hops @ [h])"
proof (cases "Address h")
  case None
  show ?thesis
  proof (cases "gp_latest s = []")
    case True
    then show ?thesis using assms(1) None by (simp add: group_attempt_def grouped_def)
  next
    case False
    then obtain k where k: "gp_index s (gp_latest s) = Some k" "k < length (gp_groups s)"
      using assms(1) by (auto simp: grouped_def)
    then have "group_attempt show_ms (length hops, h) s = add_timing k lost_timing s"
      using None False by (simp add: group_attempt_def)
    then show ?thesis using assms(1) False k grouped_add_timing [OF k(2)] by (auto simp: grouped_def)
  qed
next
  case (Some a)
  let ?ip = "addr_String a"
  have ne: "?ip \<noteq> []" using assms(2) Some by simp
  show ?thesis
  proof (cases "gp_index s ?ip")
    case (Some k)
    then have l: "k < length (gp_groups s)" "gp_latest s \<noteq> []" using assms(1) by (auto simp: grouped_def split: if_splits)
    have "group_attempt show_ms (length hops, h) s = (add_timing k (show_ms (RTT h)) s)\<lparr>gp_latest := ?ip\<rparr>"
      using \<open>Address h = Some a\<close> Some by (simp add: group_attempt_def)
    then show ?thesis using assms(1) l ne Some \<open>Address h = Some a\<close> grouped_add_timing [OF l(1)] by (auto simp: grouped_def)
  next
    case None
    let ?g = "\<lparr>gr_IP = ?ip, gr_Index = length hops, gr_Timings = (if gp_latest s = [] then replicate (length hops) lost_timing else [])\<rparr>"
    let ?s = "s\<lparr>gp_groups := gp_groups s @ [?g], gp_index := (gp_index s)(?ip \<mapsto> length (gp_groups s))\<rparr>"
    have e: "group_attempt show_ms (length hops, h) s = (add_timing (length (gp_groups s)) (show_ms (RTT h)) ?s)\<lparr>gp_latest := ?ip\<rparr>"
      using \<open>Address h = Some a\<close> None by (simp add: group_attempt_def Let_def)
    have l: "length (gp_groups s) < length (gp_groups ?s)" by simp
    have "gr_IP (gp_groups s ! k) \<noteq> ?ip" if "k < length (gp_groups s)" for k
    proof
      assume "gr_IP (gp_groups s ! k) = ?ip"
      then have "gp_index s ?ip = Some k" using assms(1) that by (simp add: grouped_def)
      then show False using None by simp
    qed
    then have "\<forall>ip k. gp_index ?s ip = Some k \<longleftrightarrow> k < length (gp_groups ?s) \<and> gr_IP (gp_groups ?s ! k) = ip"
      using assms(1) by (auto simp: grouped_def nth_append less_Suc_eq)
    moreover have "sum_list (map (length \<circ> gr_Timings) (gp_groups ?s)) = length hops"
      using assms(1) by (auto simp: grouped_def)
    ultimately show ?thesis unfolding e using grouped_add_timing [OF l] ne \<open>Address h = Some a\<close> by (auto simp: grouped_def)
  qed
qed

lemma enumerate_snoc: "enumerate n (xs @ [x]) = enumerate n xs @ [(n + length xs, x)]"
  by (induction xs arbitrary: n) simp_all

text \<open>Grouping loses no attempt: the groups have different addresses, and together they hold exactly one timing per attempt (leading
  timeouts count for the first address, later ones for the address that answered last); there are no groups exactly when
  nothing answered.\<close>

theorem group_conserves:
  assumes "\<forall>h\<in>set hops. \<forall>a. Address h = Some a \<longrightarrow> addr_String a \<noteq> []"
  shows "distinct (map gr_IP (GroupHopAttempts show_ms hops)) \<and>
    (GroupHopAttempts show_ms hops = [] \<longleftrightarrow> list_all (\<lambda>h. Address h = None) hops) \<and>
    (GroupHopAttempts show_ms hops \<noteq> [] \<longrightarrow> length (concat (map gr_Timings (GroupHopAttempts show_ms hops))) = length hops)"
proof -
  let ?s = "fold (group_attempt show_ms) (enumerate 0 hops) \<lparr>gp_latest = [], gp_index = Map.empty, gp_groups = []\<rparr>"
  have g: "grouped ?s hops"
    using assms
  proof (induction hops rule: rev_induct)
    case (snoc h hops)
    have "grouped (fold (group_attempt show_ms) (enumerate 0 hops) \<lparr>gp_latest = [], gp_index = Map.empty, gp_groups = []\<rparr>) hops"
      by (intro snoc.IH) (use snoc.prems in auto)
    from grouped_step [OF this, of h show_ms] show ?case using snoc.prems by (simp add: enumerate_snoc)
  qed (simp add: grouped_def)
  show ?thesis
  proof (cases "gp_latest ?s = []")
    case True
    then show ?thesis using g by (simp add: GroupHopAttempts_def grouped_def list_all_iff)
  next
    case False
    then have e: "GroupHopAttempts show_ms hops = gp_groups ?s" by (simp add: GroupHopAttempts_def)
    have d: "distinct (map gr_IP (gp_groups ?s))"
      using g unfolding grouped_def distinct_conv_nth by simp (metis option.inject)
    have "length (concat (map gr_Timings (gp_groups ?s))) = length hops" "gp_groups ?s \<noteq> []"
      using g False by (auto simp: grouped_def length_concat comp_def)
    moreover have "\<not> list_all (\<lambda>h. Address h = None) hops"
      using g False by (auto simp: grouped_def list_all_iff)
    ultimately show ?thesis using e d by simp
  qed
qed

lemma group_conserves_witness:
  "length (concat (map gr_Timings (GroupHopAttempts (\<lambda>_. ''1.00 ms'')
     [lost_attempt, answered_attempt ''a'', lost_attempt, answered_attempt ''b'', lost_attempt, answered_attempt ''a'']))) = 6"
  (is "length (concat (map _ (GroupHopAttempts _ ?hops))) = _")
proof -
  have "\<forall>h\<in>set ?hops. \<forall>a. Address h = Some a \<longrightarrow> addr_String a \<noteq> []"
    by (simp add: lost_attempt_def answered_attempt_def)
  from group_conserves [OF this, of "\<lambda>_. ''1.00 ms''"] show ?thesis by (simp add: lost_attempt_def answered_attempt_def)
qed

end
