(* ===== verification/Mtr_History.thy ===== *)
theory Mtr_History
  imports Prelude
begin

section \<open>The history of an MTR run\<close>

text \<open>
  \<open>printer/mtr_history.go\<close>: \<open>MTRHistoryStore\<close> keeps, per TTL, the probe samples of the last minutes for the charts of the MTR
  screen. Times are nanoseconds (a zero \<open>time.Time\<close> is \<open>None\<close>); every operation takes the value that \<open>time.Now()\<close> returns in
  it, and its body is one step, as the store's mutex makes it. The methods' first test, for a nil store, has no state to model.

  The abstract view of the store is a log: all samples since the last \<open>Reset\<close>, in the order they came. The refinement
  theorem says that pruning on every insertion loses nothing that a later snapshot would show.
\<close>

subsection \<open>The store\<close>

definition MTRHistoryWindow :: int where "MTRHistoryWindow = 180000000000"

record MTRHistorySample =
  sm_At :: int
  sm_RTT :: int
  sm_Timeout :: bool

record MTRProbeEvent =
  ev_TTL :: int
  ev_Success :: bool
  ev_RTT :: int
  ev_Timestamp :: "int option"

record MTRHistoryStore =
  hs_window :: int
  hs_byTTL :: "(int \<times> MTRHistorySample list) list"

definition NewMTRHistoryStore :: "int \<Rightarrow> MTRHistoryStore" where
  "NewMTRHistoryStore w = \<lparr>hs_window = (if w \<le> 0 then MTRHistoryWindow else w), hs_byTTL = []\<rparr>"

text \<open>\<open>s.byTTL[ttl]\<close>: the zero value of a missing key is the nil slice.\<close>

definition samples_of :: "(int \<times> MTRHistorySample list) list \<Rightarrow> int \<Rightarrow> MTRHistorySample list" where
  "samples_of m ttl = (case map_of m ttl of None \<Rightarrow> [] | Some xs \<Rightarrow> xs)"

definition pruneTTLLocked :: "int \<Rightarrow> int \<Rightarrow> MTRHistoryStore \<Rightarrow> MTRHistoryStore" where
  "pruneTTLLocked ttl now s =
     (let cutoff = now - hs_window s;
          kept = List.filter (\<lambda>x. \<not> sm_At x < cutoff) (samples_of (hs_byTTL s) ttl)
      in s\<lparr>hs_byTTL := (if kept = [] then AList.delete ttl (hs_byTTL s) else AList.update ttl kept (hs_byTTL s))\<rparr>)"

definition pruneLocked :: "int \<Rightarrow> MTRHistoryStore \<Rightarrow> MTRHistoryStore" where
  "pruneLocked now s = fold (\<lambda>ttl. pruneTTLLocked ttl now) (map fst (hs_byTTL s)) s"

definition history_sample :: "MTRProbeEvent \<Rightarrow> int \<Rightarrow> MTRHistorySample" where
  "history_sample event now =
     \<lparr>sm_At = (case ev_Timestamp event of None \<Rightarrow> now | Some t \<Rightarrow> if now < t then now else t),
      sm_RTT = ev_RTT event, sm_Timeout = (\<not> ev_Success event)\<rparr>"

definition AddProbeEvent :: "MTRProbeEvent \<Rightarrow> int \<Rightarrow> MTRHistoryStore \<Rightarrow> MTRHistoryStore" where
  "AddProbeEvent event now s =
     (if ev_TTL event \<le> 0 then s
      else pruneTTLLocked (ev_TTL event) now
             (s\<lparr>hs_byTTL := AList.update (ev_TTL event) (samples_of (hs_byTTL s) (ev_TTL event) @ [history_sample event now]) (hs_byTTL s)\<rparr>))"

definition history_Reset :: "MTRHistoryStore \<Rightarrow> MTRHistoryStore" where
  "history_Reset s = s\<lparr>hs_byTTL := []\<rparr>"

text \<open>\<open>Snapshot\<close>, which prunes as well; \<open>clock\<close> is \<open>time.Now()\<close> for a zero argument.\<close>

definition history_Snapshot :: "int option \<Rightarrow> int \<Rightarrow> MTRHistoryStore \<Rightarrow> MTRHistoryStore \<times> (int \<times> MTRHistorySample list) list" where
  "history_Snapshot now clock s =
     (let now = (case now of None \<Rightarrow> clock | Some t \<Rightarrow> t);
          s = pruneLocked now s;
          ttls = sort (map fst (hs_byTTL s))
      in (s, map (\<lambda>ttl. (ttl, samples_of (hs_byTTL s) ttl)) ttls))"

subsection \<open>Pruning\<close>

text \<open>The invariant of the map: its keys are distinct and none has an empty list.\<close>

definition history_wf :: "MTRHistoryStore \<Rightarrow> bool" where
  "history_wf s \<longleftrightarrow> distinct (map fst (hs_byTTL s)) \<and> (\<forall>ttl. map_of (hs_byTTL s) ttl \<noteq> Some [])"

lemma samples_of_update: "samples_of (AList.update k xs m) j = (if j = k then xs else samples_of m j)"
  by (simp add: samples_of_def update_conv)

lemma samples_of_delete: "samples_of (AList.delete k m) j = (if j = k then [] else samples_of m j)"
  by (simp add: samples_of_def delete_conv)

lemma hs_window_prune [simp]: "hs_window (pruneTTLLocked ttl now s) = hs_window s"
  by (simp add: pruneTTLLocked_def Let_def)

lemma samples_prune: "samples_of (hs_byTTL (pruneTTLLocked ttl now s)) j =
    (if j = ttl then List.filter (\<lambda>x. now - hs_window s \<le> sm_At x) (samples_of (hs_byTTL s) j) else samples_of (hs_byTTL s) j)"
  by (simp add: pruneTTLLocked_def Let_def samples_of_update samples_of_delete not_less)

lemma prune_wf:
  assumes "distinct (map fst (hs_byTTL s))" "\<And>k. k \<noteq> ttl \<Longrightarrow> map_of (hs_byTTL s) k \<noteq> Some []"
  shows "history_wf (pruneTTLLocked ttl now s)"
  using assms by (auto simp: history_wf_def pruneTTLLocked_def Let_def distinct_delete distinct_update update_conv delete_conv simp del: map_of_eq_Some_iff)

lemma samples_prune_all: "samples_of (hs_byTTL (fold (\<lambda>ttl. pruneTTLLocked ttl now) ks s)) j =
    (if j \<in> set ks then List.filter (\<lambda>x. now - hs_window s \<le> sm_At x) (samples_of (hs_byTTL s) j) else samples_of (hs_byTTL s) j)"
  by (induction ks arbitrary: s) (auto simp: samples_prune)

lemma prune_all_wf: "history_wf s \<Longrightarrow> history_wf (fold (\<lambda>ttl. pruneTTLLocked ttl now) ks s)"
proof (induction ks arbitrary: s)
  case (Cons k ks)
  have "history_wf (pruneTTLLocked k now s)" using Cons.prems by (intro prune_wf) (auto simp: history_wf_def)
  then show ?case using Cons.IH by simp
qed simp

lemma samples_pruneLocked: "samples_of (hs_byTTL (pruneLocked now s)) j = List.filter (\<lambda>x. now - hs_window s \<le> sm_At x) (samples_of (hs_byTTL s) j)"
proof (cases "j \<in> fst ` set (hs_byTTL s)")
  case False
  then have "map_of (hs_byTTL s) j = None" by (simp add: map_of_eq_None_iff)
  then have "samples_of (hs_byTTL s) j = []" by (simp add: samples_of_def)
  then show ?thesis by (simp add: pruneLocked_def samples_prune_all)
qed (simp add: pruneLocked_def samples_prune_all)

lemma wf_keys: "history_wf s \<Longrightarrow> j \<in> fst ` set (hs_byTTL s) \<longleftrightarrow> samples_of (hs_byTTL s) j \<noteq> []"
proof (cases "map_of (hs_byTTL s) j")
  case None
  then have "samples_of (hs_byTTL s) j = []" by (simp add: samples_of_def)
  moreover have "j \<notin> fst ` set (hs_byTTL s)" using None by (simp add: map_of_eq_None_iff)
  ultimately show ?thesis by simp
next
  case (Some xs)
  then have "j \<in> fst ` set (hs_byTTL s)" by (metis map_of_eq_None_iff option.distinct(1))
  moreover assume "history_wf s"
  ultimately show ?thesis using Some by (auto simp: history_wf_def samples_of_def simp del: map_of_eq_Some_iff)
qed

subsection \<open>Refinement of the log\<close>

datatype history_op = Hadd MTRProbeEvent int | Hreset int | Hsnap "int option" int

primrec op_clock :: "history_op \<Rightarrow> int" where
  "op_clock (Hadd e now) = now"
| "op_clock (Hreset now) = now"
| "op_clock (Hsnap t now) = (case t of None \<Rightarrow> now | Some u \<Rightarrow> u)"

primrec history_exec :: "history_op \<Rightarrow> MTRHistoryStore \<Rightarrow> MTRHistoryStore" where
  "history_exec (Hadd e now) s = AddProbeEvent e now s"
| "history_exec (Hreset now) s = history_Reset s"
| "history_exec (Hsnap t now) s = fst (history_Snapshot t now s)"

primrec log_exec :: "history_op \<Rightarrow> (int \<times> MTRHistorySample) list \<Rightarrow> (int \<times> MTRHistorySample) list" where
  "log_exec (Hadd e now) L = (if ev_TTL e \<le> 0 then L else L @ [(ev_TTL e, history_sample e now)])"
| "log_exec (Hreset now) L = []"
| "log_exec (Hsnap t now) L = L"

definition log_of :: "(int \<times> MTRHistorySample) list \<Rightarrow> int \<Rightarrow> MTRHistorySample list" where
  "log_of L ttl = map snd (List.filter (\<lambda>p. fst p = ttl) L)"

definition log_view :: "int \<Rightarrow> int \<Rightarrow> (int \<times> MTRHistorySample) list \<Rightarrow> (int \<times> MTRHistorySample list) list" where
  "log_view w now L =
     (let F = List.filter (\<lambda>p. now - w \<le> sm_At (snd p)) L
      in map (\<lambda>ttl. (ttl, log_of F ttl)) (sort (remdups (map fst F))))"

definition refines :: "int \<Rightarrow> MTRHistoryStore \<Rightarrow> (int \<times> MTRHistorySample) list \<Rightarrow> bool" where
  "refines t s L \<longleftrightarrow> history_wf s \<and>
     (\<forall>ttl. List.filter (\<lambda>x. t - hs_window s \<le> sm_At x) (samples_of (hs_byTTL s) ttl) = List.filter (\<lambda>x. t - hs_window s \<le> sm_At x) (log_of L ttl))"

lemma filter_later: "u \<le> (v :: int) \<Longrightarrow> List.filter (\<lambda>x. v \<le> f x) xs = List.filter (\<lambda>x. v \<le> f x) (List.filter (\<lambda>x. u \<le> f x) xs)"
  by (induction xs) auto

lemma refines_later:
  assumes "refines t s L" "t \<le> u"
  shows "refines u s L"
proof -
  let ?later = "List.filter (\<lambda>x. u - hs_window s \<le> sm_At x)" and ?earlier = "List.filter (\<lambda>x. t - hs_window s \<le> sm_At x)"
  have e: "?later xs = ?later (?earlier xs)" for xs
    by (rule filter_later) (use assms(2) in simp)
  have "?later (samples_of (hs_byTTL s) ttl) = ?later (log_of L ttl)" for ttl
    using e [of "samples_of (hs_byTTL s) ttl"] e [of "log_of L ttl"] assms(1) [unfolded refines_def] by metis
  then show ?thesis using assms(1) by (simp add: refines_def)
qed

lemma log_of_snoc: "log_of (L @ [(k, x)]) j = log_of L j @ (if j = k then [x] else [])"
  by (simp add: log_of_def)

lemma history_Snapshot_fst: "fst (history_Snapshot t c s) = pruneLocked (case t of None \<Rightarrow> c | Some u \<Rightarrow> u) s"
  by (simp add: history_Snapshot_def Let_def)

lemma hs_window_prune_all [simp]: "hs_window (fold (\<lambda>ttl. pruneTTLLocked ttl now) ks s) = hs_window s"
  by (induction ks arbitrary: s) simp_all

lemma refines_add:
  assumes "refines now s L"
  shows "refines now (AddProbeEvent e now s) (log_exec (Hadd e now) L)"
proof (cases "ev_TTL e \<le> 0")
  case True
  then show ?thesis using assms by (simp add: AddProbeEvent_def)
next
  case False
  let ?s = "s\<lparr>hs_byTTL := AList.update (ev_TTL e) (samples_of (hs_byTTL s) (ev_TTL e) @ [history_sample e now]) (hs_byTTL s)\<rparr>"
  have "history_wf (pruneTTLLocked (ev_TTL e) now ?s)"
    using assms by (intro prune_wf) (auto simp: refines_def history_wf_def distinct_update update_conv)
  then show ?thesis
    using assms False by (simp add: refines_def AddProbeEvent_def samples_prune samples_of_update log_of_snoc)
qed

lemma refines_prune: "refines now s L \<Longrightarrow> refines now (pruneLocked now s) L"
  by (simp add: refines_def samples_pruneLocked) (simp add: pruneLocked_def prune_all_wf)

lemma refines_step:
  assumes "refines t s L" "t \<le> op_clock op"
  shows "refines (op_clock op) (history_exec op s) (log_exec op L)"
proof -
  note r = refines_later [OF assms]
  show ?thesis
  proof (cases op)
    case (Hadd e now)
    then show ?thesis using refines_add [of now s L e] r by simp
  next
    case (Hreset now)
    then show ?thesis by (simp add: refines_def history_Reset_def history_wf_def samples_of_def log_of_def)
  next
    case (Hsnap n now)
    then show ?thesis using refines_prune r by (simp add: history_Snapshot_fst)
  qed
qed

lemma history_exec_window: "hs_window (history_exec op s) = hs_window s"
  by (cases op) (simp_all add: AddProbeEvent_def history_Reset_def history_Snapshot_fst pruneLocked_def)

lemma refines_run:
  "refines t s L \<Longrightarrow> sorted (t # map op_clock ops) \<Longrightarrow>
     refines (last (t # map op_clock ops)) (fold history_exec ops s) (fold log_exec ops L) \<and> hs_window (fold history_exec ops s) = hs_window s"
proof (induction ops arbitrary: t s L)
  case (Cons op ops)
  have "refines (op_clock op) (history_exec op s) (log_exec op L)" using Cons.prems by (intro refines_step) auto
  from Cons.IH [OF this] Cons.prems(2) show ?case by (auto simp: history_exec_window)
qed simp

lemma log_of_filter: "log_of (List.filter (\<lambda>p. c \<le> sm_At (snd p)) L) j = List.filter (\<lambda>x. c \<le> sm_At x) (log_of L j)"
  by (induction L) (auto simp: log_of_def)

lemma log_of_nonempty: "log_of L j \<noteq> [] \<longleftrightarrow> j \<in> fst ` set L"
  by (force simp: log_of_def filter_empty_conv)

lemma snapshot_view:
  assumes "refines t s L"
  shows "snd (history_Snapshot (Some t) c s) = log_view (hs_window s) t L"
proof -
  let ?p = "pruneLocked t s" and ?F = "List.filter (\<lambda>p. t - hs_window s \<le> sm_At (snd p)) L"
  have samples: "samples_of (hs_byTTL ?p) j = log_of ?F j" for j
    using assms by (simp add: refines_def samples_pruneLocked log_of_filter)
  have wf: "history_wf ?p" using refines_prune [OF assms] by (simp add: refines_def)
  then have d: "distinct (map fst (hs_byTTL ?p))" by (simp add: history_wf_def)
  have "set (map fst (hs_byTTL ?p)) = set (map fst ?F)"
  proof (rule set_eqI)
    fix j
    have "j \<in> fst ` set (hs_byTTL ?p) \<longleftrightarrow> log_of ?F j \<noteq> []" using wf_keys [OF wf] samples by simp
    also have "\<dots> \<longleftrightarrow> j \<in> fst ` set ?F" by (rule log_of_nonempty)
    finally show "j \<in> set (map fst (hs_byTTL ?p)) \<longleftrightarrow> j \<in> set (map fst ?F)" by (simp only: set_map)
  qed
  then have "sort (map fst (hs_byTTL ?p)) = sort (remdups (map fst ?F))"
    using d by (intro sorted_distinct_set_unique) simp_all
  then show ?thesis by (simp add: history_Snapshot_def log_view_def Let_def samples)
qed

text \<open>C32. The charts show exactly the window: after any sequence of insertions, resets and snapshots with a clock that does not go
  backwards, a snapshot lists, by increasing TTL, exactly the samples since the last reset that are not older than the window, in the
  order they came; no pruning on the way removes one of them or leaves an old one.\<close>

theorem history_refines_log:
  assumes "sorted (map op_clock ops)" "\<And>op. op \<in> set ops \<Longrightarrow> op_clock op \<le> now" "0 < w"
  shows "snd (history_Snapshot (Some now) c (fold history_exec ops (NewMTRHistoryStore w))) = log_view w now (fold log_exec ops [])"
proof -
  let ?t = "case ops of [] \<Rightarrow> now | op # _ \<Rightarrow> op_clock op"
  have "refines ?t (NewMTRHistoryStore w) []"
    by (simp add: refines_def NewMTRHistoryStore_def history_wf_def samples_of_def log_of_def)
  moreover have "sorted (?t # map op_clock ops)" using assms(1) by (cases ops) auto
  ultimately have r: "refines (last (?t # map op_clock ops)) (fold history_exec ops (NewMTRHistoryStore w)) (fold log_exec ops [])"
    "hs_window (fold history_exec ops (NewMTRHistoryStore w)) = w"
    using refines_run [of ?t "NewMTRHistoryStore w" "[]" ops] assms(3) by (simp_all add: NewMTRHistoryStore_def)
  have "last (?t # map op_clock ops) \<le> now" using assms(2) by (cases ops) (auto simp: last_map)
  from refines_later [OF r(1) this] show ?thesis using snapshot_view r(2) by metis
qed

lemma history_refines_log_witness:
  "map (\<lambda>p. (fst p, map sm_RTT (snd p))) (snd (history_Snapshot (Some 120) 0 (fold history_exec
     [Hadd \<lparr>ev_TTL = 2, ev_Success = True, ev_RTT = 5, ev_Timestamp = None\<rparr> 10, Hadd \<lparr>ev_TTL = 1, ev_Success = True, ev_RTT = 6, ev_Timestamp = Some 300\<rparr> 30,
      Hsnap None 60, Hadd \<lparr>ev_TTL = 2, ev_Success = False, ev_RTT = 7, ev_Timestamp = Some 90\<rparr> 100] (NewMTRHistoryStore 100)))) = [(1, [6]), (2, [7])]"
  by (subst history_refines_log) (auto simp: log_view_def Let_def history_sample_def log_of_def)

end
