(* ===== verification/Api_V4.thy ===== *)
theory Api_V4
  imports Geo_Filter Net_Addr "HOL-Library.Sublist"
begin

section \<open>The HTTP geo service\<close>

text \<open>
  \<open>ipgeo/nexttrace_api_v4.go\<close>: the client of the NextTrace API v4, which replaces the WebSocket client when a token is configured. Modelled
  are the cache of clients, the choice of the dialer, one lookup with all its errors, the retries, and the removal of the token from
  error texts. Parsing of URLs, JSON and time stamps, the HTTP transport and the resolver are arguments. Error values keep
  what the code asks of them: the text, whether they are a deadline and whether they are a network time-out.
\<close>

subsection \<open>Constants\<close>

definition api_v4_host :: string where "api_v4_host = ''api.nxtrace.org''"
definition api_v4_path :: string where "api_v4_path = ''/v4/ipGeo''"
definition nextTraceAPIV4GeoEndpoint :: string where "nextTraceAPIV4GeoEndpoint = ''https://api.nxtrace.org/v4/ipGeo''"
definition nextTraceAPIV4MaxErrorBody :: nat where "nextTraceAPIV4MaxErrorBody = 512"
definition nextTraceAPIV4MaxGeoBody :: nat where "nextTraceAPIV4MaxGeoBody = 1048576"
definition nextTraceAPIV4MinTimeout :: int where "nextTraceAPIV4MinTimeout = 2000000000"
definition nextTraceAPIV4MaxAttempts :: nat where "nextTraceAPIV4MaxAttempts = 3"
definition nextTraceAPIV4CacheMaxSize :: nat where "nextTraceAPIV4CacheMaxSize = 32"
definition nextTraceAPIV4RetryDelays :: "int list" where "nextTraceAPIV4RetryDelays = [200000000, 500000000]"

subsection \<open>Errors and texts\<close>

record go_error =
  ge_msg :: string
  ge_deadline :: bool
  ge_timeout :: bool

datatype v4_error =
    Retryable string
  | HTTPError (he_statusCode: int) (he_status: string) (he_message: string)
  | OtherError go_error

fun v4_error_text :: "v4_error \<Rightarrow> string" where
  "v4_error_text (Retryable m) = m"
| "v4_error_text (HTTPError code status m) = ''NextTrace API v4 GeoIP returned HTTP '' @ status @ '': '' @ m"
| "v4_error_text (OtherError g) = ge_msg g"

text \<open>\<open>strings.ReplaceAll\<close> with a non-empty old text: from left to right, without overlaps.\<close>

function ReplaceAll :: "string \<Rightarrow> string \<Rightarrow> string \<Rightarrow> string" where
  "ReplaceAll old new s =
     (if old = [] \<or> s = [] then s
      else if HasPrefix s old then new @ ReplaceAll old new (drop (length old) s)
      else hd s # ReplaceAll old new (tl s))"
  by pat_completeness auto
termination by (relation "measure (\<lambda>(old, new, s). length s)") auto

declare ReplaceAll.simps [simp del]

definition redacted_mark :: string where "redacted_mark = ''[REDACTED]''"

definition redactNextTraceAPIV4Token :: "string \<Rightarrow> string \<Rightarrow> string" where
  "redactNextTraceAPIV4Token s token = (let token = TrimSpace token in if token = [] then s else ReplaceAll token redacted_mark s)"

definition retryableNextTraceAPIV4Error :: "string \<Rightarrow> go_error \<Rightarrow> string \<Rightarrow> v4_error" where
  "retryableNextTraceAPIV4Error before e token = Retryable (before @ redactNextTraceAPIV4Token (ge_msg e) token)"

fun shouldRetryNextTraceAPIV4Lookup :: "v4_error \<Rightarrow> bool" where
  "shouldRetryNextTraceAPIV4Lookup (Retryable m) = True"
| "shouldRetryNextTraceAPIV4Lookup (HTTPError code status m) = (code = 408 \<or> 500 \<le> code)"
| "shouldRetryNextTraceAPIV4Lookup (OtherError g) = (ge_deadline g \<or> ge_timeout g)"

definition nextTraceAPIV4RetryDelay :: "nat \<Rightarrow> int" where
  "nextTraceAPIV4RetryDelay attempt = (if length nextTraceAPIV4RetryDelays \<le> attempt then 0 else nextTraceAPIV4RetryDelays ! attempt)"

definition normalizeNextTraceAPIV4Timeout :: "int \<Rightarrow> int" where
  "normalizeNextTraceAPIV4Timeout timeout = (if timeout < nextTraceAPIV4MinTimeout then nextTraceAPIV4MinTimeout else timeout)"

definition normalizeNextTraceAPIV4Endpoint :: "string \<Rightarrow> string" where
  "normalizeNextTraceAPIV4Endpoint endpoint = (let endpoint = TrimSpace endpoint in if endpoint = [] then nextTraceAPIV4GeoEndpoint else endpoint)"

subsection \<open>Endpoint and dialer\<close>

record url_parts =
  u_Scheme :: string
  u_Hostname :: string
  u_EscapedPath :: string
  u_Port :: string

definition nextTraceAPIV4APIEndpointHostPort :: "(string \<Rightarrow> url_parts option) \<Rightarrow> string \<Rightarrow> (string \<times> string) option" where
  "nextTraceAPIV4APIEndpointHostPort parse endpoint =
     (case parse (normalizeNextTraceAPIV4Endpoint endpoint) of None \<Rightarrow> None
      | Some u \<Rightarrow>
          let scheme = ToLower (u_Scheme u) in
          if scheme \<noteq> ''https'' \<and> scheme \<noteq> ''http'' then None
          else if \<not> EqualFold (u_Hostname u) api_v4_host \<or> u_EscapedPath u \<noteq> api_v4_path then None
          else Some (api_v4_host, if u_Port u = [] then (if scheme = ''http'' then ''80'' else ''443'') else u_Port u))"

text \<open>The proxy: the one set by the user, or what the environment says for the URL (\<open>Inl\<close> is an error, \<open>Inr True\<close> a proxy).\<close>

definition nextTraceAPIV4ProxyConfigured :: "bool \<Rightarrow> (string \<Rightarrow> (unit + bool) option) \<Rightarrow> string \<Rightarrow> bool" where
  "nextTraceAPIV4ProxyConfigured user env_proxy endpoint =
     (user \<or> (case env_proxy (normalizeNextTraceAPIV4Endpoint endpoint) of None \<Rightarrow> False | Some (Inl e) \<Rightarrow> True | Some (Inr p) \<Rightarrow> p))"

text \<open>The address that is measured in advance, if any.\<close>

definition prepareNextTraceAPIV4FastIP ::
    "(string \<Rightarrow> url_parts option) \<Rightarrow> bool \<Rightarrow> (string \<Rightarrow> (unit + bool) option) \<Rightarrow> string \<Rightarrow> (string \<times> string) option" where
  "prepareNextTraceAPIV4FastIP parse user env_proxy endpoint =
     (case nextTraceAPIV4APIEndpointHostPort parse endpoint of None \<Rightarrow> None
      | Some hp \<Rightarrow> if nextTraceAPIV4ProxyConfigured user env_proxy endpoint then None else Some hp)"

datatype transport = Geo_Dial | User_Proxy | Fast_Dial string string

record http_client =
  hc_Timeout :: int
  hc_transport :: transport

definition newNextTraceAPIV4HTTPClient ::
    "(string \<Rightarrow> url_parts option) \<Rightarrow> bool \<Rightarrow> (string \<Rightarrow> (unit + bool) option) \<Rightarrow> string \<Rightarrow> int \<Rightarrow> http_client" where
  "newNextTraceAPIV4HTTPClient parse user env_proxy endpoint timeout =
     \<lparr>hc_Timeout = timeout, hc_transport =
        (case nextTraceAPIV4APIEndpointHostPort parse endpoint of None \<Rightarrow> Geo_Dial
         | Some (host, port) \<Rightarrow> if user then User_Proxy
             else if nextTraceAPIV4ProxyConfigured user env_proxy endpoint then Geo_Dial else Fast_Dial host port)\<rparr>"

text \<open>\<open>dialGeoResolved\<close> tries the resolved addresses in their order; \<open>dial\<close> is one attempt. \<open>%q\<close> of a host name adds the quotes only.\<close>

definition host_port :: "string \<Rightarrow> string \<Rightarrow> string" where
  "host_port h p = (if CHR '':'' \<in> set h then ''['' @ h @ '']:'' @ p else h @ '':'' @ p)"

fun dial_first :: "(string \<Rightarrow> go_error + 'c) \<Rightarrow> string \<Rightarrow> ip list \<Rightarrow> go_error option \<Rightarrow> go_error option + 'c" where
  "dial_first dial port [] lastErr = Inl lastErr"
| "dial_first dial port (p # ps) lastErr =
     (case dial (host_port (ip_empty_string p) port) of Inr c \<Rightarrow> Inr c | Inl e \<Rightarrow> dial_first dial port ps (Some e))"

definition quoted :: "string \<Rightarrow> string" where "quoted s = CHR 0x22 # s @ [CHR 0x22]"

definition dialGeoResolved :: "(string \<Rightarrow> go_error + ip list) \<Rightarrow> (string \<Rightarrow> go_error + 'c) \<Rightarrow> string \<Rightarrow> string \<Rightarrow> go_error + 'c" where
  "dialGeoResolved resolve dial host port =
     (case resolve host of Inl e \<Rightarrow> Inl e
      | Inr ips \<Rightarrow> case dial_first dial port ips None of Inr c \<Rightarrow> Inr c
          | Inl (Some e) \<Rightarrow> Inl e
          | Inl None \<Rightarrow> Inl \<lparr>ge_msg = ''geo DNS returned no IPs for host '' @ quoted host, ge_deadline = False, ge_timeout = False\<rparr>)"

text \<open>\<open>split\<close> is \<open>net.SplitHostPort\<close>, \<open>fast\<close> the cached fast address.\<close>

definition dialNextTraceAPIV4 ::
    "(string \<Rightarrow> go_error + ip list) \<Rightarrow> (string \<Rightarrow> go_error + 'c) \<Rightarrow> (string \<Rightarrow> (string \<times> string) option) \<Rightarrow> string \<Rightarrow> string \<Rightarrow> string \<Rightarrow> string
      \<Rightarrow> go_error + 'c" where
  "dialNextTraceAPIV4 resolve dial split fast addr apiHost apiPort =
     (case split addr of None \<Rightarrow> dial addr
      | Some (host, port) \<Rightarrow>
          let fastIP = Trim fast ''[]'';
              attempt = (if EqualFold host apiHost \<and> port = apiPort \<and> fastIP \<noteq> [] then dial (host_port fastIP port)
                         else Inl \<lparr>ge_msg = [], ge_deadline = False, ge_timeout = False\<rparr>)
          in case attempt of Inr c \<Rightarrow> Inr c | Inl e \<Rightarrow> dialGeoResolved resolve dial host port)"

subsection \<open>The cache of clients\<close>

record v4_client =
  cl_endpoint :: string
  cl_token :: string
  cl_http :: http_client

record v4_key =
  ck_endpoint :: string
  ck_token :: string
  ck_timeout :: int
  ck_resolver :: string

record v4_cache =
  cc_map :: "(v4_key \<times> v4_client) list"
  cc_order :: "v4_key list"

definition NewNextTraceAPIV4Client :: "(string \<Rightarrow> int \<Rightarrow> http_client) \<Rightarrow> string \<Rightarrow> string \<Rightarrow> http_client option \<Rightarrow> v4_client" where
  "NewNextTraceAPIV4Client factory endpoint token hc =
     (let endpoint = normalizeNextTraceAPIV4Endpoint endpoint
      in \<lparr>cl_endpoint = endpoint, cl_token = TrimSpace token,
          cl_http = (case hc of None \<Rightarrow> factory endpoint nextTraceAPIV4MinTimeout | Some h \<Rightarrow> h)\<rparr>)"

definition evictNextTraceAPIV4ClientCacheLocked :: "v4_cache \<Rightarrow> v4_cache" where
  "evictNextTraceAPIV4ClientCacheLocked s =
     (let evictCount = min (length (cc_map s) - nextTraceAPIV4CacheMaxSize) (length (cc_order s))
      in if length (cc_map s) \<le> nextTraceAPIV4CacheMaxSize then s
         else \<lparr>cc_map = fold AList.delete (take evictCount (cc_order s)) (cc_map s), cc_order = drop evictCount (cc_order s)\<rparr>)"

text \<open>The part of \<open>cachedNextTraceAPIV4Client\<close> under the write lock, which repeats the lookup made under the read lock.\<close>

definition cached_locked :: "(string \<Rightarrow> int \<Rightarrow> http_client) \<Rightarrow> v4_key \<Rightarrow> v4_cache \<Rightarrow> v4_client \<times> v4_cache" where
  "cached_locked factory key s =
     (case map_of (cc_map s) key of Some c \<Rightarrow> (c, s)
      | None \<Rightarrow>
          let c = NewNextTraceAPIV4Client factory (ck_endpoint key) (ck_token key) (Some (factory (ck_endpoint key) (ck_timeout key)))
          in (c, evictNextTraceAPIV4ClientCacheLocked \<lparr>cc_map = AList.update key c (cc_map s), cc_order = cc_order s @ [key]\<rparr>))"

definition v4_key_of :: "string \<Rightarrow> string \<Rightarrow> int \<Rightarrow> string \<Rightarrow> v4_key" where
  "v4_key_of endpoint token timeout resolver =
     \<lparr>ck_endpoint = normalizeNextTraceAPIV4Endpoint endpoint, ck_token = TrimSpace token,
      ck_timeout = normalizeNextTraceAPIV4Timeout timeout, ck_resolver = resolver\<rparr>"

definition cachedNextTraceAPIV4Client ::
    "(string \<Rightarrow> int \<Rightarrow> http_client) \<Rightarrow> string \<Rightarrow> string \<Rightarrow> int \<Rightarrow> string \<Rightarrow> v4_cache \<Rightarrow> v4_client \<times> v4_cache" where
  "cachedNextTraceAPIV4Client factory endpoint token timeout resolver s =
     (let key = v4_key_of endpoint token timeout resolver
      in case map_of (cc_map s) key of Some c \<Rightarrow> (c, s) | None \<Rightarrow> cached_locked factory key s)"

subsection \<open>Decoding an answer\<close>

record geo_wire =
  gw_IP :: string
  gw_Asnumber :: string
  gw_Country :: string
  gw_CountryEn :: string
  gw_Prov :: string
  gw_ProvEn :: string
  gw_City :: string
  gw_CityEn :: string
  gw_District :: string
  gw_Owner :: string
  gw_Isp :: string
  gw_Domain :: string
  gw_Whois :: string
  gw_Lat :: real
  gw_Lng :: real
  gw_Prefix :: string
  gw_Router :: string
  gw_Source :: string

text \<open>The JSON decoders and the parser of RFC 3339 time stamps.\<close>

record v4_json =
  js_geo :: "string \<Rightarrow> go_error + geo_wire"
  js_router :: "string \<Rightarrow> go_error + (string \<times> string list) list"
  js_error :: "string \<Rightarrow> string option"
  js_time :: "string \<Rightarrow> int option"

definition wrapped :: "string \<Rightarrow> go_error \<Rightarrow> go_error" where
  "wrapped text e = e\<lparr>ge_msg := text @ ge_msg e\<rparr>"

definition decodeNextTraceAPIV4Router :: "v4_json \<Rightarrow> string \<Rightarrow> go_error + (string \<times> string list) list" where
  "decodeNextTraceAPIV4Router js raw =
     (let trimmed = TrimSpace raw
      in if trimmed = [] \<or> trimmed = ''null'' \<or> trimmed = [CHR 0x22, CHR 0x22] then Inr []
         else case js_router js raw of Inl e \<Rightarrow> Inl (wrapped ''decode router: '' e) | Inr r \<Rightarrow> Inr r)"

definition decodeNextTraceAPIV4Geo :: "v4_json \<Rightarrow> string \<Rightarrow> go_error + geo_data" where
  "decodeNextTraceAPIV4Geo js body =
     rbind (js_geo js body) (\<lambda>wire. rbind (decodeNextTraceAPIV4Router js (gw_Router wire)) (\<lambda>router.
       Inr \<lparr>geo_IP = gw_IP wire, Asnumber = gw_Asnumber wire, Country = gw_Country wire, CountryEn = gw_CountryEn wire,
         Prov = gw_Prov wire, ProvEn = gw_ProvEn wire, City = gw_City wire, CityEn = gw_CityEn wire, District = gw_District wire,
         Owner = gw_Owner wire, Isp = gw_Isp wire, Domain = gw_Domain wire, Whois = gw_Whois wire, Lat = gw_Lat wire, Lng = gw_Lng wire,
         Prefix = gw_Prefix wire, Router = router, Source = gw_Source wire\<rparr>))"

text \<open>The quota headers: each number with its \<open>Has\<close> flag is an option. \<open>strconv.ParseUint\<close> takes digits only and at most 64 bits.\<close>

record NextTraceAPIV4Quota =
  qt_Remaining :: "nat option"
  qt_ExpiresAt :: "int option"
  qt_Cost :: "nat option"
  qt_Source :: string

definition decimal_value :: "string \<Rightarrow> nat" where
  "decimal_value s = foldl (\<lambda>n c. 10 * n + (of_char c - 48)) 0 s"

definition ParseUint64 :: "string \<Rightarrow> nat option" where
  "ParseUint64 s = (if s \<noteq> [] \<and> list_all (\<lambda>c. 48 \<le> (of_char c :: nat) \<and> (of_char c :: nat) \<le> 57) s \<and> decimal_value s < 2 ^ 64
                    then Some (decimal_value s) else None)"

definition parseNextTraceAPIV4UintHeader :: "(string \<Rightarrow> string) \<Rightarrow> string \<Rightarrow> nat option" where
  "parseNextTraceAPIV4UintHeader header key = (let raw = TrimSpace (header key) in if raw = [] then None else ParseUint64 raw)"

definition parseNextTraceAPIV4Quota :: "v4_json \<Rightarrow> (string \<Rightarrow> string) \<Rightarrow> NextTraceAPIV4Quota" where
  "parseNextTraceAPIV4Quota js header =
     \<lparr>qt_Remaining = parseNextTraceAPIV4UintHeader header ''X-NextTrace-Quota-Remaining'',
      qt_ExpiresAt = (let expires = TrimSpace (header ''X-NextTrace-Quota-Expires-At'') in if expires = [] then None else js_time js expires),
      qt_Cost = parseNextTraceAPIV4UintHeader header ''X-NextTrace-Quota-Cost'',
      qt_Source = TrimSpace (header ''X-NextTrace-Quota-Source'')\<rparr>"

definition parseNextTraceAPIV4ErrorMessage :: "v4_json \<Rightarrow> string \<Rightarrow> string" where
  "parseNextTraceAPIV4ErrorMessage js body = (case js_error js body of None \<Rightarrow> [] | Some m \<Rightarrow> TrimSpace m)"

definition boundedNextTraceAPIV4Body :: "string \<Rightarrow> bool \<Rightarrow> string" where
  "boundedNextTraceAPIV4Body body truncated =
     (let msg = take nextTraceAPIV4MaxErrorBody (TrimSpace body)
      in if truncated then (if msg = [] then ''response body truncated at 512 bytes'' else msg @ ''... [truncated at 512 bytes]'')
         else msg)"

definition v4_httpError :: "v4_json \<Rightarrow> v4_client \<Rightarrow> int \<Rightarrow> string \<Rightarrow> string \<Rightarrow> bool \<Rightarrow> v4_error" where
  "v4_httpError js c statusCode status body truncated =
     (let msg = parseNextTraceAPIV4ErrorMessage js body;
          msg = (if msg = [] then boundedNextTraceAPIV4Body body truncated else msg);
          msg = (if msg = [] then status else msg)
      in HTTPError statusCode status (redactNextTraceAPIV4Token msg (cl_token c)))"

subsection \<open>One lookup\<close>

record http_request =
  rq_url :: string
  rq_headers :: "(string \<times> string) list"

text \<open>The body of a response delivers its bytes and then the end or an error.\<close>

record http_response =
  rs_StatusCode :: int
  rs_Status :: string
  rs_Header :: "string \<Rightarrow> string"
  rs_Body :: string
  rs_fault :: "go_error option"

text \<open>\<open>io.ReadAll\<close> of a reader limited to one byte more than the limit: an error after these bytes is not seen.\<close>

definition readNextTraceAPIV4Body :: "http_response \<Rightarrow> nat \<Rightarrow> go_error + string \<times> bool" where
  "readNextTraceAPIV4Body r limit =
     (if limit < length (rs_Body r) then Inr (take limit (rs_Body r), True)
      else case rs_fault r of Some e \<Rightarrow> Inl e | None \<Rightarrow> Inr (rs_Body r, False))"

text \<open>\<open>with_ip endpoint ip\<close> parses the endpoint and sets the query parameter; \<open>req_ok\<close> is \<open>http.NewRequestWithContext\<close>'s check of the URL.\<close>

record v4_env =
  env_json :: v4_json
  env_with_ip :: "string \<Rightarrow> string \<Rightarrow> go_error + string"
  env_req_ok :: "string \<Rightarrow> go_error option"
  env_UserAgent :: string

definition newLookupRequest :: "v4_env \<Rightarrow> v4_client \<Rightarrow> string \<Rightarrow> go_error + http_request" where
  "newLookupRequest env c ip =
     (case env_with_ip env (cl_endpoint c) ip of
        Inl e \<Rightarrow> Inl (wrapped ''NextTrace API v4 GeoIP endpoint is invalid: '' e)
      | Inr u \<Rightarrow> case env_req_ok env u of
            Some e \<Rightarrow> Inl (wrapped ''NextTrace API v4 GeoIP request build failed: '' e)
          | None \<Rightarrow> Inr \<lparr>rq_url = u, rq_headers = [(''Accept'', ''application/json''), (''User-Agent'', env_UserAgent env),
                                               (''X-NextTrace-Token'', cl_token c)]\<rparr>)"

definition lookupOnce :: "v4_env \<Rightarrow> (http_request \<Rightarrow> go_error + http_response) \<Rightarrow> v4_client \<Rightarrow> string \<Rightarrow> v4_error + geo_data \<times> NextTraceAPIV4Quota" where
  "lookupOnce env send c ip =
     (case newLookupRequest env c ip of Inl e \<Rightarrow> Inl (OtherError e)
      | Inr req \<Rightarrow> case send req of
            Inl e \<Rightarrow> Inl (retryableNextTraceAPIV4Error ''NextTrace API v4 GeoIP request failed: '' e (cl_token c))
          | Inr resp \<Rightarrow>
              let bad = (rs_StatusCode resp < 200 \<or> 300 \<le> rs_StatusCode resp) in
              case readNextTraceAPIV4Body resp (if bad then nextTraceAPIV4MaxErrorBody else nextTraceAPIV4MaxGeoBody) of
                Inl e \<Rightarrow> Inl (retryableNextTraceAPIV4Error ''NextTrace API v4 GeoIP read failed: '' e (cl_token c))
              | Inr (body, truncated) \<Rightarrow>
                  if bad then Inl (v4_httpError (env_json env) c (rs_StatusCode resp) (rs_Status resp) body truncated)
                  else if truncated then Inl (OtherError \<lparr>ge_msg = ''NextTrace API v4 GeoIP response body exceeds 1048576 bytes'', ge_deadline = False, ge_timeout = False\<rparr>)
                  else case decodeNextTraceAPIV4Geo (env_json env) body of
                         Inl e \<Rightarrow> Inl (OtherError (wrapped ''NextTrace API v4 GeoIP returned invalid JSON: '' e))
                       | Inr geo \<Rightarrow> Inr (geo, parseNextTraceAPIV4Quota (env_json env) (rs_Header resp)))"

subsection \<open>Retries\<close>

text \<open>What happens around the attempts: the transport of each one, whether the context is over after it, and whether the timer of
  the delay fires before the context ends.\<close>

record v4_run =
  rn_send :: "nat \<Rightarrow> http_request \<Rightarrow> go_error + http_response"
  rn_ctx_over :: "nat \<Rightarrow> bool"
  rn_timer_first :: "nat \<Rightarrow> bool"

definition sleepBeforeNextTraceAPIV4Retry :: "v4_run \<Rightarrow> nat \<Rightarrow> bool" where
  "sleepBeforeNextTraceAPIV4Retry w attempt = (nextTraceAPIV4RetryDelay attempt \<le> 0 \<or> rn_timer_first w attempt)"

text \<open>The loop of \<open>Lookup\<close>; it also counts its attempts and adds up the delays.\<close>

fun v4_attempts :: "v4_env \<Rightarrow> v4_run \<Rightarrow> v4_client \<Rightarrow> string \<Rightarrow> v4_error option \<Rightarrow> nat list
    \<Rightarrow> (v4_error option + geo_data \<times> NextTraceAPIV4Quota) \<times> nat \<times> int" where
  "v4_attempts env w c ip lastErr [] = (Inl lastErr, 0, 0)"
| "v4_attempts env w c ip lastErr (attempt # as) =
     (case lookupOnce env (rn_send w attempt) c ip of
        Inr g \<Rightarrow> (Inr g, 1, 0)
      | Inl e \<Rightarrow>
          if \<not> shouldRetryNextTraceAPIV4Lookup e \<or> attempt = nextTraceAPIV4MaxAttempts - 1 \<or> rn_ctx_over w attempt then (Inl (Some e), 1, 0)
          else if \<not> sleepBeforeNextTraceAPIV4Retry w attempt then (Inl (Some e), 1, 0)
          else case v4_attempts env w c ip (Some e) as of (r, n, d) \<Rightarrow> (r, Suc n, d + nextTraceAPIV4RetryDelay attempt))"

definition v4_Lookup :: "v4_env \<Rightarrow> v4_run \<Rightarrow> v4_client option \<Rightarrow> string \<Rightarrow> (v4_error option + geo_data \<times> NextTraceAPIV4Quota) \<times> nat \<times> int" where
  "v4_Lookup env w c ip =
     (case c of
        None \<Rightarrow> (Inl (Some (OtherError \<lparr>ge_msg = ''NextTrace API v4 GeoIP client is nil'', ge_deadline = False, ge_timeout = False\<rparr>)), 0, 0)
      | Some c \<Rightarrow> v4_attempts env w c ip None [0..<nextTraceAPIV4MaxAttempts])"

definition NextTraceAPIV4TokenConfigured :: "string \<Rightarrow> bool" where
  "NextTraceAPIV4TokenConfigured token = (TrimSpace token \<noteq> [])"

definition LeoIPNextTraceAPIV4HTTP ::
    "(string \<Rightarrow> int \<Rightarrow> http_client) \<Rightarrow> v4_env \<Rightarrow> v4_run \<Rightarrow> string \<Rightarrow> string \<Rightarrow> string \<Rightarrow> int \<Rightarrow> v4_cache
      \<Rightarrow> (v4_error option + geo_data) \<times> v4_cache" where
  "LeoIPNextTraceAPIV4HTTP factory env w token resolver ip timeout s =
     (let timeout = normalizeNextTraceAPIV4Timeout timeout in
      case cachedNextTraceAPIV4Client factory nextTraceAPIV4GeoEndpoint token timeout resolver s of
        (c, s) \<Rightarrow> (case fst (v4_Lookup env w (Some c) ip) of Inl e \<Rightarrow> Inl e | Inr (geo, q) \<Rightarrow> Inr geo, s))"

subsection \<open>No token in error texts\<close>

lemma HasPrefix_prefix: "HasPrefix s p \<longleftrightarrow> prefix p s"
  by (auto simp: HasPrefix_def prefix_def) (metis append_take_drop_id)

lemma redacted_mark_ends: "redacted_mark = CHR ''['' # ''REDACTED'' @ '']''"
  by (simp add: redacted_mark_def)

lemma ReplaceAll_step:
  "old \<noteq> [] \<Longrightarrow> \<not> HasPrefix (c # u) old \<Longrightarrow> ReplaceAll old new (c # u) = c # ReplaceAll old new u"
  by (simp add: ReplaceAll.simps [of old _ "c # u"])

text \<open>Up to the first mark the result is the text itself.\<close>

lemma ReplaceAll_prefix:
  "prefix x (ReplaceAll old redacted_mark s) \<Longrightarrow> CHR ''['' \<notin> set x \<Longrightarrow> prefix x s"
proof (induction "length s" arbitrary: s x rule: less_induct)
  case less
  consider "old = [] \<or> s = []" | "old \<noteq> []" "s \<noteq> []" "HasPrefix s old" | "old \<noteq> []" "s \<noteq> []" "\<not> HasPrefix s old" by blast
  then show ?case
  proof cases
    case 1
    then show ?thesis using less.prems(1) by (simp add: ReplaceAll.simps [of old _ s])
  next
    case 2
    then have "prefix x (redacted_mark @ ReplaceAll old redacted_mark (drop (length old) s))"
      using less.prems(1) by (simp add: ReplaceAll.simps [of old _ s])
    then show ?thesis using less.prems(2) by (cases x) (auto simp: redacted_mark_def)
  next
    case 3
    then obtain c u where s: "s = c # u" by (cases s) auto
    then have "prefix x (c # ReplaceAll old redacted_mark u)"
      using less.prems(1) 3 by (simp add: ReplaceAll_step)
    then show ?thesis using less.prems(2) less.hyps [of u] s by (cases x) auto
  qed
qed

lemma prefix_before: "prefix t (xs @ c # ys) \<Longrightarrow> c \<notin> set t \<Longrightarrow> prefix t xs"
  by (auto simp: prefix_append prefix_Cons)

lemma length_mark [simp]: "length redacted_mark = 10"
  by (simp add: redacted_mark_def)

lemma sublist_mark:
  assumes "prefix t (drop i (redacted_mark @ r))" "i < 10" "CHR ''['' \<notin> set t" "CHR '']'' \<notin> set t" "t \<noteq> []"
  shows "sublist t ''REDACTED''"
proof (cases i)
  case 0
  then show ?thesis using assms by (cases t) (auto simp: redacted_mark_def)
next
  case (Suc j)
  define m where "m = ''REDACTED''"
  have m: "length m = 8" "redacted_mark @ r = CHR ''['' # m @ CHR '']'' # r" by (simp_all add: m_def redacted_mark_def)
  then have "drop i (redacted_mark @ r) = drop j ''REDACTED'' @ CHR '']'' # r"
    using assms(2) Suc unfolding m(2) m_def [symmetric] by (simp add: drop_append)
  then have "prefix t (drop j ''REDACTED'')" using assms(1,4) prefix_before by metis
  then show ?thesis
    using sublist_drop prefix_imp_sublist sublist_order.order_trans by blast
qed

lemma ReplaceAll_removes:
  assumes "CHR ''['' \<notin> set t" "CHR '']'' \<notin> set t" "\<not> sublist t ''REDACTED''"
  shows "\<not> sublist t (ReplaceAll t redacted_mark s)"
proof (induction "length s" arbitrary: s rule: less_induct)
  case less
  have t: "t \<noteq> []" using assms(3) by auto
  consider "s = []" | "s \<noteq> []" "HasPrefix s t" | "s \<noteq> []" "\<not> HasPrefix s t" by blast
  then show ?case
  proof cases
    case 1
    then show ?thesis using t by (simp add: ReplaceAll.simps)
  next
    case 2
    let ?R = "ReplaceAll t redacted_mark (drop (length t) s)"
    have e: "ReplaceAll t redacted_mark s = redacted_mark @ ?R" using 2 t by (simp add: ReplaceAll.simps [of t _ s])
    have "\<not> sublist t (redacted_mark @ ?R)"
    proof
      assume "sublist t (redacted_mark @ ?R)"
      then obtain i where i: "prefix t (drop i (redacted_mark @ ?R))"
        unfolding sublist_def by (metis append_eq_conv_conj prefixI)
      show False
      proof (cases "i < 10")
        case True
        then show ?thesis using sublist_mark [OF i] assms t by simp
      next
        case False
        then have "drop i (redacted_mark @ ?R) = drop (i - 10) ?R" by (simp add: drop_append)
        then have "sublist t ?R" using i sublist_drop prefix_imp_sublist sublist_order.order_trans by metis
        then show ?thesis using less.hyps [of "drop (length t) s"] 2 t by simp
      qed
    qed
    then show ?thesis by (simp add: e)
  next
    case 3
    then obtain c u where s: "s = c # u" by (cases s) auto
    then have e: "ReplaceAll t redacted_mark s = c # ReplaceAll t redacted_mark u" using 3 t by (simp add: ReplaceAll_step)
    show ?thesis
    proof
      assume "sublist t (ReplaceAll t redacted_mark s)"
      then have "prefix t (ReplaceAll t redacted_mark s) \<or> sublist t (ReplaceAll t redacted_mark u)"
        unfolding e sublist_Cons_right .
      then show False
      proof
        assume "prefix t (ReplaceAll t redacted_mark s)"
        then have "prefix t s" using ReplaceAll_prefix assms(1) by blast
        then show False using 3 by (simp add: HasPrefix_prefix)
      qed (use less.hyps [of u] s in simp)
    qed
  qed
qed

text \<open>No error text that the client derives from a transport error, an error body or a status contains the token: for a
  token without brackets that is not itself part of the mark's word, redaction leaves no occurrence, also none that arises where
  replaced and kept text meet.\<close>

theorem redaction_complete:
  assumes "TrimSpace token = token" "token \<noteq> []" "CHR ''['' \<notin> set token" "CHR '']'' \<notin> set token" "\<not> sublist token ''REDACTED''"
  shows "\<not> sublist token (redactNextTraceAPIV4Token s token)"
  using assms ReplaceAll_removes by (auto simp: redactNextTraceAPIV4Token_def)

lemma redaction_complete_witness:
  "\<not> sublist ''abcab'' (redactNextTraceAPIV4Token ''bad token abcabcabcab: abcab'' ''abcab'')"
proof (rule redaction_complete)
  show "TrimSpace ''abcab'' = ''abcab''" by (rule TrimSpace_id) (simp_all add: space_edge_def)
  show "\<not> sublist ''abcab'' ''REDACTED''" by (simp add: sublist_Cons_right)
qed simp_all

text \<open>The text of an HTTP error also contains the status line of the response, which is not redacted.\<close>

lemma status_not_redacted:
  assumes "sublist (cl_token c) status"
  shows "sublist (cl_token c) (v4_error_text (v4_httpError js c code status body truncated))"
proof -
  have "v4_error_text (v4_httpError js c code status body truncated) =
      ''NextTrace API v4 GeoIP returned HTTP '' @ status @ '': '' @ he_message (v4_httpError js c code status body truncated)"
    by (simp add: v4_httpError_def Let_def)
  then show ?thesis using assms sublist_order.order_trans [OF assms sublist_appendI] by metis
qed

subsection \<open>The lookup as a whole\<close>

lemma v4_attempts_exact:
  assumes "as = [a..<3]" "a < 3"
  shows "\<exists>k. a \<le> k \<and> k < 3 \<and>
    v4_attempts env w c ip lastErr as =
      (map_sum Some (\<lambda>g. g) (lookupOnce env (rn_send w k) c ip), k - a + 1, sum_list (map nextTraceAPIV4RetryDelay [a..<k])) \<and>
    (\<forall>j\<in>{a..<k}. \<exists>e. lookupOnce env (rn_send w j) c ip = Inl e \<and> shouldRetryNextTraceAPIV4Lookup e \<and>
       \<not> rn_ctx_over w j \<and> sleepBeforeNextTraceAPIV4Retry w j) \<and>
    (\<forall>e. lookupOnce env (rn_send w k) c ip = Inl e \<longrightarrow>
       k = 2 \<or> \<not> shouldRetryNextTraceAPIV4Lookup e \<or> rn_ctx_over w k \<or> \<not> sleepBeforeNextTraceAPIV4Retry w k)"
  using assms
proof (induction as arbitrary: a lastErr)
  case (Cons b as)
  have b: "b = a" "as = [Suc a..<3]" using Cons.prems by (simp_all add: upt_conv_Cons)
  show ?case
  proof (cases "\<exists>e. lookupOnce env (rn_send w a) c ip = Inl e \<and> a \<noteq> 2 \<and> shouldRetryNextTraceAPIV4Lookup e \<and>
      \<not> rn_ctx_over w a \<and> sleepBeforeNextTraceAPIV4Retry w a")
    case False
    have "v4_attempts env w c ip lastErr (b # as) = (map_sum Some (\<lambda>g. g) (lookupOnce env (rn_send w a) c ip), 1, 0)"
      using False b(1) by (cases "lookupOnce env (rn_send w a) c ip") (auto simp: nextTraceAPIV4MaxAttempts_def)
    then show ?thesis using False Cons.prems(2) by (intro exI [of _ a]) auto
  next
    case True
    then obtain e where e: "lookupOnce env (rn_send w a) c ip = Inl e" "a \<noteq> 2" "shouldRetryNextTraceAPIV4Lookup e"
      "\<not> rn_ctx_over w a" "sleepBeforeNextTraceAPIV4Retry w a" by blast
    have "Suc a < 3" using e(2) Cons.prems(2) by simp
    from Cons.IH [OF b(2) this, of "Some e"] obtain k where k: "Suc a \<le> k" "k < 3"
      "v4_attempts env w c ip (Some e) as = (map_sum Some (\<lambda>g. g) (lookupOnce env (rn_send w k) c ip), k - Suc a + 1,
         sum_list (map nextTraceAPIV4RetryDelay [Suc a..<k]))"
      "\<forall>j\<in>{Suc a..<k}. \<exists>e. lookupOnce env (rn_send w j) c ip = Inl e \<and> shouldRetryNextTraceAPIV4Lookup e \<and>
         \<not> rn_ctx_over w j \<and> sleepBeforeNextTraceAPIV4Retry w j"
      "\<forall>e. lookupOnce env (rn_send w k) c ip = Inl e \<longrightarrow>
         k = 2 \<or> \<not> shouldRetryNextTraceAPIV4Lookup e \<or> rn_ctx_over w k \<or> \<not> sleepBeforeNextTraceAPIV4Retry w k"
      by (elim exE conjE)
    have "v4_attempts env w c ip lastErr (b # as) =
        (map_sum Some (\<lambda>g. g) (lookupOnce env (rn_send w k) c ip), k - a + 1, sum_list (map nextTraceAPIV4RetryDelay [a..<k]))"
      using e k(1-3) b(1) by (simp add: nextTraceAPIV4MaxAttempts_def upt_conv_Cons)
    moreover have "\<exists>e. lookupOnce env (rn_send w j) c ip = Inl e \<and> shouldRetryNextTraceAPIV4Lookup e \<and>
       \<not> rn_ctx_over w j \<and> sleepBeforeNextTraceAPIV4Retry w j" if "j \<in> {a..<k}" for j
      using that k(4) e by (cases "j = a") auto
    ultimately show ?thesis using k by (intro exI [of _ k]) simp
  qed
next
  case Nil
  then have "[a..<3] = []" by simp
  then show ?case using Nil.prems(2) by (simp only: upt_eq_Nil_conv) simp
qed

text \<open>C34. A lookup returns the outcome of its last attempt, makes at most three attempts with at most 0.7 s of delays between them,
  goes on only after a failure worth repeating, while the context lives, and stops only for a result, a failure not worth repeating,
  the end of the context or the third attempt.\<close>

theorem api_lookup_exact:
  "\<exists>k<3. v4_Lookup env w (Some c) ip =
      (map_sum Some (\<lambda>g. g) (lookupOnce env (rn_send w k) c ip), Suc k, sum_list (map nextTraceAPIV4RetryDelay [0..<k])) \<and>
    sum_list (map nextTraceAPIV4RetryDelay [0..<k]) \<le> 700000000 \<and>
    (\<forall>j<k. \<exists>e. lookupOnce env (rn_send w j) c ip = Inl e \<and> shouldRetryNextTraceAPIV4Lookup e \<and> \<not> rn_ctx_over w j \<and> rn_timer_first w j) \<and>
    (\<forall>e. lookupOnce env (rn_send w k) c ip = Inl e \<longrightarrow>
       k = 2 \<or> \<not> shouldRetryNextTraceAPIV4Lookup e \<or> rn_ctx_over w k \<or> \<not> rn_timer_first w k)"
proof -
  have delay: "sleepBeforeNextTraceAPIV4Retry w j \<longleftrightarrow> rn_timer_first w j" if "j < 2" for j
    using that by (auto simp: sleepBeforeNextTraceAPIV4Retry_def nextTraceAPIV4RetryDelay_def nextTraceAPIV4RetryDelays_def less_2_cases_iff)
  obtain k where k: "k < 3"
    "v4_attempts env w c ip None [0..<3] =
      (map_sum Some (\<lambda>g. g) (lookupOnce env (rn_send w k) c ip), k - 0 + 1, sum_list (map nextTraceAPIV4RetryDelay [0..<k]))"
    "\<forall>j\<in>{0..<k}. \<exists>e. lookupOnce env (rn_send w j) c ip = Inl e \<and> shouldRetryNextTraceAPIV4Lookup e \<and>
       \<not> rn_ctx_over w j \<and> sleepBeforeNextTraceAPIV4Retry w j"
    "\<forall>e. lookupOnce env (rn_send w k) c ip = Inl e \<longrightarrow>
       k = 2 \<or> \<not> shouldRetryNextTraceAPIV4Lookup e \<or> rn_ctx_over w k \<or> \<not> sleepBeforeNextTraceAPIV4Retry w k"
    using v4_attempts_exact [of "[0..<3]" 0 env w c ip None] by auto
  have "k = 0 \<or> k = 1 \<or> k = 2" using k(1) by auto
  then have "sum_list (map nextTraceAPIV4RetryDelay [0..<k]) \<le> 700000000"
    by (elim disjE) (simp_all add: nextTraceAPIV4RetryDelay_def nextTraceAPIV4RetryDelays_def upt_rec)
  moreover have "rn_timer_first w j" if "j < k" "sleepBeforeNextTraceAPIV4Retry w j" for j
    using delay [of j] that k(1) by simp
  moreover have "k = 2 \<or> (sleepBeforeNextTraceAPIV4Retry w k \<longleftrightarrow> rn_timer_first w k)" using delay [of k] k(1) by auto
  ultimately have *: "sum_list (map nextTraceAPIV4RetryDelay [0..<k]) \<le> 700000000"
    "\<forall>j<k. \<exists>e. lookupOnce env (rn_send w j) c ip = Inl e \<and> shouldRetryNextTraceAPIV4Lookup e \<and> \<not> rn_ctx_over w j \<and> rn_timer_first w j"
    "\<forall>e. lookupOnce env (rn_send w k) c ip = Inl e \<longrightarrow>
       k = 2 \<or> \<not> shouldRetryNextTraceAPIV4Lookup e \<or> rn_ctx_over w k \<or> \<not> rn_timer_first w k"
    using k(3,4) by (simp, meson atLeastLessThan_iff le0, blast)
  have "v4_Lookup env w (Some c) ip = v4_attempts env w c ip None [0..<3]" by (simp add: v4_Lookup_def nextTraceAPIV4MaxAttempts_def)
  then show ?thesis using k(1,2) * by (intro exI [of _ k]) simp
qed

text \<open>A server that answers every request with a transport error.\<close>

definition dead_env :: v4_env where
  "dead_env = \<lparr>env_json = \<lparr>js_geo = \<lambda>b. Inl \<lparr>ge_msg = [], ge_deadline = False, ge_timeout = False\<rparr>,
       js_router = \<lambda>b. Inr [], js_error = \<lambda>b. None, js_time = \<lambda>b. None\<rparr>,
     env_with_ip = \<lambda>e ip. Inr (e @ ''?ip='' @ ip), env_req_ok = \<lambda>u. None, env_UserAgent = ''nt''\<rparr>"

definition dead_run :: v4_run where
  "dead_run = \<lparr>rn_send = \<lambda>a req. Inl \<lparr>ge_msg = ''refused'', ge_deadline = False, ge_timeout = False\<rparr>,
     rn_ctx_over = \<lambda>a. False, rn_timer_first = \<lambda>a. True\<rparr>"

definition dead_client :: v4_client where
  "dead_client = \<lparr>cl_endpoint = nextTraceAPIV4GeoEndpoint, cl_token = ''tok'', cl_http = \<lparr>hc_Timeout = 2000000000, hc_transport = Geo_Dial\<rparr>\<rparr>"

lemma api_lookup_exact_witness: "fst (snd (v4_Lookup dead_env dead_run (Some dead_client) ''8.8.8.8'')) = 3"
proof -
  have l: "lookupOnce dead_env (rn_send dead_run k) dead_client ''8.8.8.8'' =
      Inl (Retryable (''NextTrace API v4 GeoIP request failed: '' @ redactNextTraceAPIV4Token ''refused'' (cl_token dead_client)))" for k
    by (simp add: lookupOnce_def newLookupRequest_def dead_env_def dead_run_def retryableNextTraceAPIV4Error_def)
  show ?thesis
    using api_lookup_exact [of dead_env dead_run dead_client "''8.8.8.8''"] unfolding l by (auto simp: dead_run_def)
qed

subsection \<open>The cache of clients is a queue\<close>

text \<open>The map and the order have the same keys, without duplicates and in the same order, and never more than 32; every client was made for
  its key.\<close>

definition cache_ok :: "(string \<Rightarrow> int \<Rightarrow> http_client) \<Rightarrow> v4_cache \<Rightarrow> bool" where
  "cache_ok factory s \<longleftrightarrow> map fst (cc_map s) = cc_order s \<and> distinct (cc_order s) \<and> length (cc_order s) \<le> nextTraceAPIV4CacheMaxSize \<and>
     (\<forall>(key, c)\<in>set (cc_map s). c = NewNextTraceAPIV4Client factory (ck_endpoint key) (ck_token key) (Some (factory (ck_endpoint key) (ck_timeout key))))"

lemma delete_prefix: "distinct (map fst m) \<Longrightarrow> fold AList.delete (take n (map fst m)) m = drop n m"
proof (induction n arbitrary: m)
  case (Suc n)
  show ?case
  proof (cases m)
    case (Cons p m')
    then have "AList.delete (fst p) m = m'" using Suc.prems by (simp add: delete_id)
    then show ?thesis using Suc Cons by simp
  qed simp
qed simp

lemma update_new: "k \<notin> fst ` set m \<Longrightarrow> AList.update k v m = m @ [(k, v)]"
  by (induction m) auto

lemma cache_ok_drop:
  assumes "distinct (map fst m)"
    "\<forall>(key, c)\<in>set m. c = NewNextTraceAPIV4Client factory (ck_endpoint key) (ck_token key) (Some (factory (ck_endpoint key) (ck_timeout key)))"
    "length m \<le> 32 + n"
  shows "cache_ok factory \<lparr>cc_map = drop n m, cc_order = drop n (map fst m)\<rparr>"
proof -
  have "distinct (drop n (map fst m))" using assms(1) by (rule distinct_drop)
  then show ?thesis using assms(2,3) by (auto simp: cache_ok_def nextTraceAPIV4CacheMaxSize_def drop_map dest: in_set_dropD)
qed

lemma cached_locked_ok:
  assumes "cache_ok factory s"
  shows "cache_ok factory (snd (cached_locked factory key s))"
    "fst (cached_locked factory key s) = NewNextTraceAPIV4Client factory (ck_endpoint key) (ck_token key) (Some (factory (ck_endpoint key) (ck_timeout key)))"
    "key \<in> set (cc_order (snd (cached_locked factory key s)))"
    "cc_order (snd (cached_locked factory key s)) =
       (if key \<in> set (cc_order s) then cc_order s
        else (if length (cc_order s) = nextTraceAPIV4CacheMaxSize then tl (cc_order s) else cc_order s) @ [key])"
proof -
  let ?c = "NewNextTraceAPIV4Client factory (ck_endpoint key) (ck_token key) (Some (factory (ck_endpoint key) (ck_timeout key)))"
  have "cache_ok factory (snd (cached_locked factory key s)) \<and> fst (cached_locked factory key s) = ?c \<and>
    cc_order (snd (cached_locked factory key s)) = (if key \<in> set (cc_order s) then cc_order s
        else (if length (cc_order s) = nextTraceAPIV4CacheMaxSize then tl (cc_order s) else cc_order s) @ [key])"
  proof (cases "map_of (cc_map s) key")
    case (Some c)
    then have "(key, c) \<in> set (cc_map s)" by (rule map_of_SomeD)
    then have "c = ?c" "key \<in> fst ` set (cc_map s)" using assms by (auto simp: cache_ok_def intro: rev_image_eqI)
    moreover have "cc_order s = map fst (cc_map s)" using assms by (simp add: cache_ok_def)
    ultimately show ?thesis using Some assms by (simp add: cached_locked_def)
  next
    case None
    have order: "cc_order s = map fst (cc_map s)" "length (cc_map s) \<le> 32"
      using assms by (simp_all add: cache_ok_def nextTraceAPIV4CacheMaxSize_def flip: length_map [of fst])
    have new: "key \<notin> fst ` set (cc_map s)" using None by (simp add: map_of_eq_None_iff)
    let ?m = "cc_map s @ [(key, ?c)]"
    have d: "distinct (map fst ?m)" using assms new by (simp add: cache_ok_def order(1))
    have r: "cached_locked factory key s = (?c, evictNextTraceAPIV4ClientCacheLocked \<lparr>cc_map = ?m, cc_order = map fst ?m\<rparr>)"
      using None by (simp add: cached_locked_def Let_def update_new [OF new] order(1))
    have e: "evictNextTraceAPIV4ClientCacheLocked \<lparr>cc_map = ?m, cc_order = map fst ?m\<rparr> =
        (if length (cc_map s) = 32 then \<lparr>cc_map = drop 1 ?m, cc_order = drop 1 (map fst ?m)\<rparr> else \<lparr>cc_map = ?m, cc_order = map fst ?m\<rparr>)"
      using delete_prefix [OF d, of 1] order(2)
      by (cases "length (cc_map s) = 32") (simp_all add: evictNextTraceAPIV4ClientCacheLocked_def nextTraceAPIV4CacheMaxSize_def Let_def)
    have "\<forall>(k, c)\<in>set ?m. c = NewNextTraceAPIV4Client factory (ck_endpoint k) (ck_token k) (Some (factory (ck_endpoint k) (ck_timeout k)))"
      using assms by (auto simp: cache_ok_def)
    then have "cache_ok factory (evictNextTraceAPIV4ClientCacheLocked \<lparr>cc_map = ?m, cc_order = map fst ?m\<rparr>)"
      using cache_ok_drop [OF d, of factory 1] cache_ok_drop [OF d, of factory 0] order(2) unfolding e by (cases "length (cc_map s) = 32") simp_all
    moreover have "cc_order (evictNextTraceAPIV4ClientCacheLocked \<lparr>cc_map = ?m, cc_order = map fst ?m\<rparr>) =
        (if length (cc_order s) = nextTraceAPIV4CacheMaxSize then tl (cc_order s) else cc_order s) @ [key]"
      unfolding e by (cases "cc_map s") (simp_all add: order(1) nextTraceAPIV4CacheMaxSize_def)
    moreover have "key \<notin> set (cc_order s)" using new order(1) by simp
    ultimately show ?thesis unfolding r by simp
  qed
  then show "cache_ok factory (snd (cached_locked factory key s))" "fst (cached_locked factory key s) = ?c"
    "key \<in> set (cc_order (snd (cached_locked factory key s)))"
    "cc_order (snd (cached_locked factory key s)) = (if key \<in> set (cc_order s) then cc_order s
        else (if length (cc_order s) = nextTraceAPIV4CacheMaxSize then tl (cc_order s) else cc_order s) @ [key])"
    by auto
qed

lemma cached_client_locked: "cachedNextTraceAPIV4Client factory endpoint token timeout resolver s = cached_locked factory (v4_key_of endpoint token timeout resolver) s"
  by (simp add: cachedNextTraceAPIV4Client_def cached_locked_def Let_def split: option.split)

lemma normalize_endpoint_idem [simp]: "normalizeNextTraceAPIV4Endpoint (normalizeNextTraceAPIV4Endpoint e) = normalizeNextTraceAPIV4Endpoint e"
proof -
  have "TrimSpace nextTraceAPIV4GeoEndpoint = nextTraceAPIV4GeoEndpoint"
    by (rule TrimSpace_id) (simp_all add: space_edge_def nextTraceAPIV4GeoEndpoint_def)
  then show ?thesis by (simp add: normalizeNextTraceAPIV4Endpoint_def Let_def)
qed

text \<open>The cache of HTTP clients is a first-in first-out queue of at most 32 keys: a call returns a
  client of exactly the endpoint, token and time-out asked for, its key is in the cache afterwards, and a new key pushes out the oldest one
  only when the cache is full.\<close>

theorem client_cache_fifo:
  assumes "cache_ok factory s" "key = v4_key_of endpoint token timeout resolver"
    "cachedNextTraceAPIV4Client factory endpoint token timeout resolver s = (c, s')"
  shows "cache_ok factory s' \<and> cl_endpoint c = normalizeNextTraceAPIV4Endpoint endpoint \<and> cl_token c = TrimSpace token \<and>
    cl_http c = factory (normalizeNextTraceAPIV4Endpoint endpoint) (normalizeNextTraceAPIV4Timeout timeout) \<and>
    cc_order s' = (if key \<in> set (cc_order s) then cc_order s
                   else (if length (cc_order s) = 32 then tl (cc_order s) else cc_order s) @ [key])"
proof -
  have r: "c = fst (cached_locked factory key s)" "s' = snd (cached_locked factory key s)"
    using assms(2,3) by (simp_all add: cached_client_locked)
  show ?thesis
    unfolding r using cached_locked_ok [OF assms(1), of key] assms(2)
    by (simp add: NewNextTraceAPIV4Client_def v4_key_of_def nextTraceAPIV4CacheMaxSize_def Let_def)
qed


lemma client_cache_empty: "cache_ok factory \<lparr>cc_map = [], cc_order = []\<rparr>"
  by (simp add: cache_ok_def)

lemma client_cache_fifo_witness:
  "cc_order (snd (cachedNextTraceAPIV4Client (\<lambda>e t. \<lparr>hc_Timeout = t, hc_transport = Geo_Dial\<rparr>) [] ''tok'' 5 [] \<lparr>cc_map = [], cc_order = []\<rparr>)) =
     [v4_key_of [] ''tok'' 5 []]"
  (is "cc_order (snd (cachedNextTraceAPIV4Client ?f _ _ _ _ ?s)) = _")
  using client_cache_fifo [OF client_cache_empty refl prod.collapse [symmetric], of ?f "[]" "''tok''" 5 "[]"] by simp

end
