(* ===== verification/Deploy_Auth.thy ===== *)
theory Deploy_Auth
  imports Go_Text "HOL-Library.Sublist"
begin

section \<open>Access to the web console\<close>

text \<open>
  \<open>server/auth.go\<close>, \<open>server/browser_access.go\<close> and the assembly of the router in \<open>server/server.go\<close>: who reaches the console's
  handlers. A request carries what the code reads of it: header values by their canonical names, the value of the deployment
  cookie, the \<open>token\<close> of a form body and of a JSON body. Arguments are \<open>mac\<close> (SHA-256 and base64 of a text, for the cookie), \<open>host_of\<close>
  (\<open>url.Parse\<close> and its \<open>Host\<close>), and whether cross-origin access is switched on. The comparison in constant time is equality. Hosts
  are ASCII. Redirections that the router makes by itself are outside the model.
\<close>

record server_request =
  sr_Method :: string
  sr_Path :: string
  sr_Host :: string
  sr_Header :: "string \<Rightarrow> string"
  sr_Cookie :: "string option"
  sr_TLS :: bool
  sr_form_token :: string
  sr_json_token :: string

record cookie =
  co_Name :: string
  co_Value :: string
  co_Path :: string
  co_HttpOnly :: bool
  co_SameSiteLax :: bool
  co_Secure :: bool

datatype reply_body = Login_Page string | Json_Error string | Json_OK | Redirect_To string | Empty_Body

record reply =
  rp_Code :: nat
  rp_Body :: reply_body
  rp_Cookie :: "cookie option"

datatype outcome = Reply reply | To_Handler "(string \<times> string) list"

record deployAuth =
  da_Enabled :: bool
  da_Token :: string

definition tokenConfigured :: "deployAuth \<Rightarrow> bool" where
  "tokenConfigured a = (TrimSpace (da_Token a) \<noteq> [])"

subsection \<open>Tokens\<close>

text \<open>\<open>strings.Fields\<close>.\<close>

function fields_from :: "string \<Rightarrow> string \<Rightarrow> string list" where
  "fields_from cur s =
     (if s = [] then (if cur = [] then [] else [cur])
      else case List.find (\<lambda>w. w \<noteq> [] \<and> HasPrefix s w) space_encodings of
             Some w \<Rightarrow> (if cur = [] then [] else [cur]) @ fields_from [] (drop (length w) s)
           | None \<Rightarrow> fields_from (cur @ [hd s]) (tl s))"
  by pat_completeness auto
termination by (relation "measure (\<lambda>(cur, s). length s)") (auto simp: find_Some_iff)

declare fields_from.simps [simp del]

definition Fields :: "string \<Rightarrow> string list" where
  "Fields s = fields_from [] s"

definition bearerToken :: "string \<Rightarrow> string" where
  "bearerToken header =
     (case Fields (TrimSpace header) of [b, t] \<Rightarrow> if EqualFold b ''bearer'' then t else [] | _ \<Rightarrow> [])"

definition deployTokenMatches :: "string \<Rightarrow> string \<Rightarrow> bool" where
  "deployTokenMatches got want =
     (let got = TrimSpace got; want = TrimSpace want in if got = [] \<or> want = [] then False else got = want)"

definition deployAuthCookieName :: string where "deployAuthCookieName = ''nexttrace_deploy_auth''"

definition deployCookieValue :: "(string \<Rightarrow> string) \<Rightarrow> string \<Rightarrow> string" where
  "deployCookieValue mac token = mac (''nexttrace-deploy-auth'' @ CHR 0x00 # token)"

definition deployRequestAuthorized :: "(string \<Rightarrow> string) \<Rightarrow> server_request \<Rightarrow> string \<Rightarrow> bool" where
  "deployRequestAuthorized mac r token =
     (if deployTokenMatches (bearerToken (sr_Header r ''Authorization'')) token then True
      else if deployTokenMatches (sr_Header r ''X-Nexttrace-Token'') token then True
      else case sr_Cookie r of Some v \<Rightarrow> deployTokenMatches v (deployCookieValue mac token) | None \<Rightarrow> False)"

subsection \<open>Was the request made over HTTPS?\<close>

definition forwardedProtoIsHTTPS :: "string \<Rightarrow> bool" where
  "forwardedProtoIsHTTPS v = list_ex (\<lambda>part. EqualFold (TrimSpace part) ''https'') (split_on CHR '','' v)"

text \<open>\<open>strings.Cut\<close> at a byte.\<close>

definition cut_at :: "char \<Rightarrow> string \<Rightarrow> (string \<times> string) option" where
  "cut_at c s = (case IndexByte s c of None \<Rightarrow> None | Some i \<Rightarrow> Some (take i s, drop (Suc i) s))"

definition forwardedHeaderProtoIsHTTPS :: "string \<Rightarrow> bool" where
  "forwardedHeaderProtoIsHTTPS v =
     list_ex (\<lambda>forwarded. list_ex (\<lambda>part.
         case cut_at CHR ''='' (TrimSpace part) of None \<Rightarrow> False
         | Some (key, val) \<Rightarrow> EqualFold key ''proto'' \<and> EqualFold (Trim (TrimSpace val) [CHR 0x22]) ''https'')
       (split_on CHR '';'' forwarded)) (split_on CHR '','' v)"

definition deployRequestIsHTTPS :: "server_request \<Rightarrow> bool" where
  "deployRequestIsHTTPS r =
     (if sr_TLS r then True
      else if forwardedProtoIsHTTPS (sr_Header r ''X-Forwarded-Proto'') then True
      else forwardedHeaderProtoIsHTTPS (sr_Header r ''Forwarded''))"

subsection \<open>Handlers\<close>

definition acceptsHTML :: "server_request \<Rightarrow> bool" where
  "acceptsHTML r = (let accept = sr_Header r ''Accept'' in accept = [] \<or> sublist ''text/html'' accept)"

definition plain_reply :: "nat \<Rightarrow> reply_body \<Rightarrow> reply" where
  "plain_reply code body = \<lparr>rp_Code = code, rp_Body = body, rp_Cookie = None\<rparr>"

definition writeDeployUnauthorized :: "server_request \<Rightarrow> reply" where
  "writeDeployUnauthorized r =
     (if sr_Method r = ''GET'' \<and> acceptsHTML r then plain_reply 401 (Login_Page []) else plain_reply 401 (Json_Error ''deploy token required''))"

definition writeDeployAuthConfigError :: "server_request \<Rightarrow> reply" where
  "writeDeployAuthConfigError r =
     (if sr_Method r = ''GET'' \<and> acceptsHTML r then plain_reply 500 (Login_Page ''Deploy auth token is not configured'')
      else plain_reply 500 (Json_Error ''deploy auth token is not configured''))"

definition isDeployAuthRoute :: "string \<Rightarrow> bool" where
  "isDeployAuthRoute path = (path = ''/auth/login'')"

text \<open>The middleware: \<open>None\<close> is \<open>c.Next()\<close>.\<close>

definition deployAuthMiddleware :: "(string \<Rightarrow> string) \<Rightarrow> deployAuth \<Rightarrow> server_request \<Rightarrow> reply option" where
  "deployAuthMiddleware mac auth r =
     (if \<not> da_Enabled auth \<or> sr_Method r = ''OPTIONS'' \<or> isDeployAuthRoute (sr_Path r) then None
      else if \<not> tokenConfigured auth then Some (writeDeployUnauthorized r)
      else if deployRequestAuthorized mac r (da_Token auth) then None
      else Some (writeDeployUnauthorized r))"

definition login_get :: "deployAuth \<Rightarrow> server_request \<Rightarrow> reply" where
  "login_get auth r =
     (if \<not> da_Enabled auth then plain_reply 302 (Redirect_To ''/'')
      else if \<not> tokenConfigured auth then writeDeployAuthConfigError r
      else plain_reply 200 (Login_Page []))"

definition login_post :: "(string \<Rightarrow> string) \<Rightarrow> deployAuth \<Rightarrow> server_request \<Rightarrow> reply" where
  "login_post mac auth r =
     (if \<not> da_Enabled auth then plain_reply 200 Json_OK
      else if \<not> tokenConfigured auth then writeDeployAuthConfigError r
      else
        let token = TrimSpace (sr_form_token r);
            token = (if token = [] then TrimSpace (sr_json_token r) else token)
        in if \<not> deployTokenMatches token (da_Token auth) then
             (if acceptsHTML r then plain_reply 401 (Login_Page ''Invalid token'') else plain_reply 401 (Json_Error ''invalid token''))
           else
             (if acceptsHTML r then plain_reply 302 (Redirect_To ''/'') else plain_reply 200 Json_OK)
               \<lparr>rp_Cookie := Some \<lparr>co_Name = deployAuthCookieName, co_Value = deployCookieValue mac (da_Token auth), co_Path = ''/'',
                  co_HttpOnly = True, co_SameSiteLax = True, co_Secure = deployRequestIsHTTPS r\<rparr>\<rparr>)"

definition browserOriginAllowed :: "bool \<Rightarrow> (string \<Rightarrow> string option) \<Rightarrow> server_request \<Rightarrow> bool" where
  "browserOriginAllowed cross host_of r =
     (if cross then True
      else let origin = TrimSpace (sr_Header r ''Origin'') in
        if origin = [] then True
        else case host_of origin of None \<Rightarrow> False | Some h \<Rightarrow> if h = [] then False else fold_text h = fold_text (sr_Host r))"

text \<open>A refusal, or the headers that are added.\<close>

definition browserAccessMiddleware :: "bool \<Rightarrow> (string \<Rightarrow> string option) \<Rightarrow> server_request \<Rightarrow> reply + (string \<times> string) list" where
  "browserAccessMiddleware cross host_of r =
     (if \<not> browserOriginAllowed cross host_of r then Inl (plain_reply 403 (Json_Error ''cross-origin browser access is disabled''))
      else let origin = TrimSpace (sr_Header r ''Origin'') in
        Inr (if cross \<and> origin \<noteq> []
             then [(''Access-Control-Allow-Origin'', origin), (''Vary'', ''Origin''), (''Access-Control-Allow-Methods'', ''GET, POST, DELETE, OPTIONS''),
                   (''Access-Control-Allow-Headers'', ''Content-Type, Authorization, X-NextTrace-Token'')]
             else []))"

text \<open>The router: the login routes are registered before the token check, every other route and every unknown path after it.\<close>

definition serve :: "bool \<Rightarrow> (string \<Rightarrow> string option) \<Rightarrow> (string \<Rightarrow> string) \<Rightarrow> deployAuth \<Rightarrow> server_request \<Rightarrow> outcome" where
  "serve cross host_of mac auth r =
     (case browserAccessMiddleware cross host_of r of Inl rep \<Rightarrow> Reply rep
      | Inr headers \<Rightarrow>
          if sr_Path r = ''/auth/login'' \<and> sr_Method r = ''GET'' then Reply (login_get auth r)
          else if sr_Path r = ''/auth/login'' \<and> sr_Method r = ''POST'' then Reply (login_post mac auth r)
          else case deployAuthMiddleware mac auth r of Some rep \<Rightarrow> Reply rep
               | None \<Rightarrow> if sr_Method r = ''OPTIONS'' then Reply (plain_reply 204 Empty_Body) else To_Handler headers)"

record server_options =
  so_ListenAddr :: string
  so_EnableMCP :: bool
  so_AuthEnabled :: bool
  so_DeployToken :: string

text \<open>The start of \<open>RunWithOptions\<close>: the listen address and the access rules, or the refusal to start.\<close>

definition run_settings :: "server_options \<Rightarrow> string + string \<times> deployAuth" where
  "run_settings opts =
     (let listenAddr = (if so_ListenAddr opts = [] then '':1080'' else so_ListenAddr opts);
          deployToken = TrimSpace (so_DeployToken opts)
      in if so_AuthEnabled opts \<and> deployToken = [] then Inl ''deploy auth enabled without token''
         else Inr (listenAddr, \<lparr>da_Enabled = so_AuthEnabled opts, da_Token = deployToken\<rparr>))"

subsection \<open>Who gets in\<close>

lemma deployTokenMatches_iff: "deployTokenMatches got want \<longleftrightarrow> TrimSpace got = TrimSpace want \<and> TrimSpace want \<noteq> []"
  by (auto simp: deployTokenMatches_def Let_def)

lemma bearerToken_iff:
  "t \<noteq> [] \<Longrightarrow> bearerToken h = t \<longleftrightarrow> (\<exists>b. Fields (TrimSpace h) = [b, t] \<and> EqualFold b ''bearer'')"
  by (auto simp: bearerToken_def split: list.splits)

text \<open>C35. The console is closed to strangers: with the access check on, a request other than a preflight or a login reaches a handler
  exactly if its origin is accepted, a token is configured, and the request carries that token (up to surrounding space) as bearer
  token or in the token header, or the cookie derived from it. Nothing else, in particular no empty token, opens it.\<close>

theorem auth_gate:
  assumes "da_Enabled auth" "sr_Method r \<noteq> ''OPTIONS''" "sr_Path r \<noteq> ''/auth/login''"
  shows "(\<exists>hs. serve cross host_of mac auth r = To_Handler hs) \<longleftrightarrow>
    browserOriginAllowed cross host_of r \<and> TrimSpace (da_Token auth) \<noteq> [] \<and>
    ((\<exists>b t. Fields (TrimSpace (sr_Header r ''Authorization'')) = [b, t] \<and> EqualFold b ''bearer'' \<and> TrimSpace t = TrimSpace (da_Token auth)) \<or>
     TrimSpace (sr_Header r ''X-Nexttrace-Token'') = TrimSpace (da_Token auth) \<or>
     (\<exists>v. sr_Cookie r = Some v \<and> TrimSpace v = TrimSpace (deployCookieValue mac (da_Token auth)) \<and> TrimSpace v \<noteq> []))"
proof -
  have b: "deployTokenMatches (bearerToken h) token \<longleftrightarrow> TrimSpace token \<noteq> [] \<and>
      (\<exists>b t. Fields (TrimSpace h) = [b, t] \<and> EqualFold b ''bearer'' \<and> TrimSpace t = TrimSpace token)" for h token
    by (auto simp: deployTokenMatches_iff bearerToken_def split: list.splits)
  have a: "deployRequestAuthorized mac r (da_Token auth) \<longleftrightarrow> TrimSpace (da_Token auth) \<noteq> [] \<and>
      ((\<exists>b t. Fields (TrimSpace (sr_Header r ''Authorization'')) = [b, t] \<and> EqualFold b ''bearer'' \<and> TrimSpace t = TrimSpace (da_Token auth)) \<or>
       TrimSpace (sr_Header r ''X-Nexttrace-Token'') = TrimSpace (da_Token auth)) \<or>
      (\<exists>v. sr_Cookie r = Some v \<and> TrimSpace v = TrimSpace (deployCookieValue mac (da_Token auth)) \<and> TrimSpace v \<noteq> [])"
    unfolding deployRequestAuthorized_def b by (auto simp: deployTokenMatches_iff split: option.splits)
  have "(\<exists>hs. serve cross host_of mac auth r = To_Handler hs) \<longleftrightarrow>
      browserOriginAllowed cross host_of r \<and> tokenConfigured auth \<and> deployRequestAuthorized mac r (da_Token auth)"
    using assms by (simp add: serve_def browserAccessMiddleware_def deployAuthMiddleware_def isDeployAuthRoute_def Let_def)
  then show ?thesis unfolding a by (auto simp: tokenConfigured_def)
qed

text \<open>Logging in works and is the only way to a cookie: a login with the configured token (up to surrounding space) answers with a
  cookie that is not readable by scripts and that opens every later request of an accepted origin under the same configuration;
  any other login, also one while no token is configured, gets no cookie.\<close>

theorem login_roundtrip:
  assumes "da_Enabled auth" "TrimSpace (deployCookieValue mac (da_Token auth)) \<noteq> []"
  shows "(case rp_Cookie (login_post mac auth r) of
      None \<Rightarrow> TrimSpace (da_Token auth) = [] \<or>
        TrimSpace (if TrimSpace (sr_form_token r) = [] then sr_json_token r else sr_form_token r) \<noteq> TrimSpace (da_Token auth)
    | Some c \<Rightarrow> TrimSpace (if TrimSpace (sr_form_token r) = [] then sr_json_token r else sr_form_token r) = TrimSpace (da_Token auth) \<and>
        co_HttpOnly c \<and> co_Secure c = deployRequestIsHTTPS r \<and>
        (\<forall>r'. sr_Cookie r' = Some (co_Value c) \<longrightarrow> deployAuthMiddleware mac auth r' = None))"
proof -
  let ?given = "TrimSpace (if TrimSpace (sr_form_token r) = [] then sr_json_token r else sr_form_token r)"
  let ?cookie = "\<lparr>co_Name = deployAuthCookieName, co_Value = deployCookieValue mac (da_Token auth), co_Path = ''/'',
                  co_HttpOnly = True, co_SameSiteLax = True, co_Secure = deployRequestIsHTTPS r\<rparr>"
  have opens: "deployAuthMiddleware mac auth r' = None"
    if "tokenConfigured auth" "sr_Cookie r' = Some (deployCookieValue mac (da_Token auth))" for r'
    using that assms(2) by (simp add: deployAuthMiddleware_def deployRequestAuthorized_def deployTokenMatches_iff)
  have "rp_Cookie (login_post mac auth r) =
      (if tokenConfigured auth \<and> ?given = TrimSpace (da_Token auth) then Some ?cookie else None)"
    using assms(1)
    by (auto simp: login_post_def Let_def deployTokenMatches_iff tokenConfigured_def plain_reply_def writeDeployAuthConfigError_def)
  then show ?thesis using opens by (auto simp: tokenConfigured_def)
qed

text \<open>A concrete console: token \<open>secret\<close>, and a stand-in for the digest.\<close>

definition secret_auth :: deployAuth where "secret_auth = \<lparr>da_Enabled = True, da_Token = ''secret''\<rparr>"

definition plain_request :: server_request where
  "plain_request = \<lparr>sr_Method = ''GET'', sr_Path = ''/mcp'', sr_Host = ''a'', sr_Header = (\<lambda>h. []), sr_Cookie = None, sr_TLS = False,
     sr_form_token = [], sr_json_token = []\<rparr>"

lemma secret_trim [simp]: "TrimSpace ''secret'' = ''secret''" "TrimSpace ''wrong'' = ''wrong''"
  by (rule TrimSpace_id; simp add: space_edge_def)+

lemma Fields_Nil [simp]: "Fields [] = []"
  by (simp add: Fields_def fields_from.simps)

lemma auth_gate_witness:
  "(\<nexists>hs. serve False (\<lambda>_. None) (\<lambda>_. ''m'') secret_auth (plain_request\<lparr>sr_Header := (\<lambda>h. if h = ''X-Nexttrace-Token'' then ''wrong'' else [])\<rparr>) = To_Handler hs) \<and>
   (\<exists>hs. serve False (\<lambda>_. None) (\<lambda>_. ''m'') secret_auth (plain_request\<lparr>sr_Header := (\<lambda>h. if h = ''X-Nexttrace-Token'' then ''secret'' else [])\<rparr>) = To_Handler hs)"
  using auth_gate [of secret_auth "plain_request\<lparr>sr_Header := (\<lambda>h. if h = ''X-Nexttrace-Token'' then ''wrong'' else [])\<rparr>" False "\<lambda>_. None" "\<lambda>_. ''m''"]
    auth_gate [of secret_auth "plain_request\<lparr>sr_Header := (\<lambda>h. if h = ''X-Nexttrace-Token'' then ''secret'' else [])\<rparr>" False "\<lambda>_. None" "\<lambda>_. ''m''"]
  by (simp add: secret_auth_def plain_request_def browserOriginAllowed_def)

lemma login_roundtrip_witness:
  "\<exists>c. rp_Cookie (login_post (\<lambda>x. ''secret'') secret_auth (plain_request\<lparr>sr_Method := ''POST'', sr_form_token := ''secret''\<rparr>)) = Some c \<and>
    deployAuthMiddleware (\<lambda>x. ''secret'') secret_auth (plain_request\<lparr>sr_Cookie := Some (co_Value c)\<rparr>) = None"
proof -
  have h: "da_Enabled secret_auth" "TrimSpace (deployCookieValue (\<lambda>x. ''secret'') (da_Token secret_auth)) \<noteq> []"
    by (simp_all add: secret_auth_def deployCookieValue_def)
  show ?thesis
    using login_roundtrip [OF h, of "plain_request\<lparr>sr_Method := ''POST'', sr_form_token := ''secret''\<rparr>"]
    by (auto simp: secret_auth_def plain_request_def split: option.splits)
qed

end
