(* ===== verification/Source_Config.thy ===== *)
theory Source_Config
  imports Geo_Filter Trace_Config
begin

section \<open>The source address of a trace\<close>

text \<open>
  \<open>trace/source_config.go\<close>: which local address and which device the probes of a trace leave from. Arguments are the interfaces of the
  host (\<open>lookup\<close>, by name) and their addresses (\<open>addrs_of\<close>), the address the kernel would choose (\<open>route\<close>), and the operating
  system. The remaining fields of \<open>Config\<close> that concern the source and the packets are the extension \<open>SourceConfig\<close>.
\<close>

record SourceConfig = Config +
  OSType :: int
  SrcAddr :: string
  SrcPort :: int
  PacketInterval :: int
  TTLInterval :: int
  TOS :: int

subsection \<open>Kinds of addresses\<close>

definition IsLoopback :: "ip \<Rightarrow> bool" where
  "IsLoopback p = (if To4 p \<noteq> [] then To4 p ! 0 = 127 else ip_Equal p (replicate 15 0 @ [1]))"

definition IsLinkLocalUnicast :: "ip \<Rightarrow> bool" where
  "IsLinkLocalUnicast p =
     (if To4 p \<noteq> [] then To4 p ! 0 = 169 \<and> To4 p ! 1 = 254 else length p = 16 \<and> p ! 0 = 0xFE \<and> p ! 1 AND 0xC0 = 0x80)"

definition IsLinkLocalMulticast :: "ip \<Rightarrow> bool" where
  "IsLinkLocalMulticast p =
     (if To4 p \<noteq> [] then To4 p ! 0 = 224 \<and> To4 p ! 1 = 0 \<and> To4 p ! 2 = 0 else length p = 16 \<and> p ! 0 = 0xFF \<and> p ! 1 AND 0x0F = 0x02)"

subsection \<open>Devices\<close>

text \<open>An interface is its name; \<open>lookup\<close> gives an error, no interface, or one.\<close>

definition quote :: "string \<Rightarrow> string" where "quote s = CHR 0x22 # s @ [CHR 0x22]"

definition ResolveSourceDevice :: "(string \<Rightarrow> string + string option) \<Rightarrow> string \<Rightarrow> string + string option" where
  "ResolveSourceDevice lookup device =
     (let trimmed = TrimSpace device in
      if trimmed = [] then Inr None
      else case lookup trimmed of
             Inl e \<Rightarrow> Inl (''unable to resolve source device '' @ quote trimmed @ '': '' @ e)
           | Inr None \<Rightarrow> Inl (''source device '' @ quote trimmed @ '' not found'')
           | Inr (Some d) \<Rightarrow> Inr (Some d))"

text \<open>The loop over the addresses with its three fallbacks; a public address ends it.\<close>

fun scan_addrs :: "ip \<Rightarrow> addr option list \<Rightarrow> string \<Rightarrow> string \<Rightarrow> string \<Rightarrow> string" where
  "scan_addrs dstIP [] preferred loopback linkLocal =
     (if preferred \<noteq> [] then preferred else if loopback \<noteq> [] then loopback else linkLocal)"
| "scan_addrs dstIP (a # as) preferred loopback linkLocal =
     (let p = AddrIP a in
      if p = [] then scan_addrs dstIP as preferred loopback linkLocal
      else if (To4 p = []) \<noteq> (To4 dstIP = []) then scan_addrs dstIP as preferred loopback linkLocal
      else
        let candidate = ip_string p in
        if \<not> (IsPrivate p \<or> IsLoopback p \<or> IsLinkLocalUnicast p \<or> IsLinkLocalMulticast p) then candidate
        else if IsLoopback p then scan_addrs dstIP as preferred (if loopback = [] then candidate else loopback) linkLocal
        else if \<not> (IsLinkLocalUnicast p \<or> IsLinkLocalMulticast p) then
          scan_addrs dstIP as (if preferred = [] then candidate else preferred) loopback linkLocal
        else scan_addrs dstIP as preferred loopback (if linkLocal = [] then candidate else linkLocal))"

definition ResolveSourceDeviceAddr :: "(string \<Rightarrow> string + addr option list) \<Rightarrow> string option \<Rightarrow> ip \<Rightarrow> string + string" where
  "ResolveSourceDeviceAddr addrs_of dev dstIP =
     (case dev of None \<Rightarrow> Inr []
      | Some d \<Rightarrow> if dstIP = [] then Inr []
          else case addrs_of d of
                 Inl e \<Rightarrow> Inl (''load source device '' @ quote d @ '' addresses: '' @ e)
               | Inr addrs \<Rightarrow> Inr (scan_addrs dstIP addrs [] [] []))"

text \<open>\<open>route\<close> is \<open>util.LocalIPPort\<close> or, for IPv6, \<open>util.LocalIPPortv6\<close>, which ask the kernel.\<close>

definition ResolveFallbackSrcAddr :: "(bool \<Rightarrow> ip \<Rightarrow> ip) \<Rightarrow> ip \<Rightarrow> string" where
  "ResolveFallbackSrcAddr route dstIP =
     (if dstIP = [] then []
      else let resolved = route (IsIPv6 dstIP) dstIP in if resolved \<noteq> [] then ip_string resolved else [])"

definition ResolveConfiguredSrcAddr ::
    "(string \<Rightarrow> string + string option) \<Rightarrow> (string \<Rightarrow> string + addr option list) \<Rightarrow> (bool \<Rightarrow> ip \<Rightarrow> ip) \<Rightarrow> ip \<Rightarrow> string \<Rightarrow> string
      \<Rightarrow> string + string \<times> bool" where
  "ResolveConfiguredSrcAddr lookup addrs_of route dstIP srcAddr srcDev =
     (let trimmed = TrimSpace srcAddr in
      if trimmed \<noteq> [] then Inr (trimmed, True)
      else rbind (ResolveSourceDevice lookup srcDev) (\<lambda>dev.
        rbind (ResolveSourceDeviceAddr addrs_of dev dstIP) (\<lambda>resolved.
          if resolved \<noteq> [] then Inr (resolved, False) else Inr (ResolveFallbackSrcAddr route dstIP, False))))"

definition sourceFamilyLabel :: "ip \<Rightarrow> string" where
  "sourceFamilyLabel dstIP = (if IsIPv6 dstIP then ''IPv6'' else ''IPv4'')"

definition supportsSourceDeviceBinding :: "string \<Rightarrow> bool" where
  "supportsSourceDeviceBinding goos = (goos = ''darwin'' \<or> goos = ''linux'')"

definition osTypeWindows :: int where "osTypeWindows = 2"

definition NormalizeExplicitSourceConfig ::
    "string \<Rightarrow> (string \<Rightarrow> string + string option) \<Rightarrow> (string \<Rightarrow> string + addr option list) \<Rightarrow> SourceConfig \<Rightarrow> string + SourceConfig" where
  "NormalizeExplicitSourceConfig goos lookup addrs_of config =
     (let config = config\<lparr>SrcAddr := TrimSpace (SrcAddr config)\<rparr>;
          config = config\<lparr>SourceDevice := TrimSpace (SourceDevice config)\<rparr>;
          explicitSource = (SrcAddr config \<noteq> [])
      in if SrcAddr config = [] \<and> SourceDevice config = [] then Inr config
         else if SourceDevice config = [] then Inr config
         else if OSType config = osTypeWindows \<and> explicitSource then Inr (config\<lparr>SourceDevice := []\<rparr>)
         else rbind (ResolveSourceDevice lookup (SourceDevice config)) (\<lambda>dev.
           rbind (if explicitSource then Inr config
                  else rbind (ResolveSourceDeviceAddr addrs_of dev (DstIP config)) (\<lambda>resolved.
                    if resolved = []
                    then Inl (''source device '' @ quote (SourceDevice config) @ '' has no usable '' @ sourceFamilyLabel (DstIP config) @ '' address'')
                    else Inr (config\<lparr>SrcAddr := resolved\<rparr>))) (\<lambda>config.
             if OSType config = osTypeWindows then Inr (config\<lparr>SourceDevice := []\<rparr>)
             else Inr (if supportsSourceDeviceBinding goos then config else config\<lparr>SourceDevice := []\<rparr>))))"

subsection \<open>The choice is by kind of address\<close>

text \<open>Public addresses come first, then private ones, the loopback, and link-local ones last.\<close>

definition address_rank :: "ip \<Rightarrow> nat" where
  "address_rank p =
     (if \<not> (IsPrivate p \<or> IsLoopback p \<or> IsLinkLocalUnicast p \<or> IsLinkLocalMulticast p) then 0
      else if IsLoopback p then 2
      else if \<not> (IsLinkLocalUnicast p \<or> IsLinkLocalMulticast p) then 1 else 3)"

definition candidates :: "ip \<Rightarrow> addr option list \<Rightarrow> ip list" where
  "candidates dstIP addrs = List.filter (\<lambda>p. p \<noteq> [] \<and> (To4 p = []) = (To4 dstIP = [])) (map AddrIP addrs)"

text \<open>The first candidate of a rank, as a string.\<close>

definition first_ranked :: "nat \<Rightarrow> ip list \<Rightarrow> string" where
  "first_ranked n ps = (case List.filter (\<lambda>p. address_rank p = n) ps of [] \<Rightarrow> [] | p # _ \<Rightarrow> ip_string p)"

definition else_text :: "string \<Rightarrow> string \<Rightarrow> string" where
  "else_text a b = (if a = [] then b else a)"

lemma else_text_assoc: "else_text (else_text a b) c = else_text a (else_text b c)"
  by (simp add: else_text_def)

lemma else_text_Nil [simp]: "else_text [] a = a" "else_text a [] = a"
  by (simp_all add: else_text_def)

lemma first_ranked_Cons:
  "first_ranked n (p # ps) = (if address_rank p = n then ip_string p else first_ranked n ps)"
  by (simp add: first_ranked_def)

lemma base_digits_nonempty: "base_digits b n \<noteq> []"
  by (subst base_digits.simps) simp

lemma ip_string_nonempty: "ip_string p \<noteq> []"
proof -
  have "v6_string p \<noteq> []"
    using render_groups.simps(2) [of "v6_groups p" "fst (best_zero_run (v6_groups p))" "snd (best_zero_run (v6_groups p))" 0 7]
    by (simp add: v6_string_def Let_def nat_hex_def base_digits_nonempty)
  moreover have "dotted q \<noteq> []" if "q \<noteq> []" for q
    using that by (cases q rule: list.exhaust; cases "tl q") (auto simp: dotted_def nat_dec_def base_digits_nonempty)
  ultimately show ?thesis by (simp add: ip_string_def)
qed

lemma scan_addrs_ranked:
  "scan_addrs dstIP addrs preferred loopback linkLocal =
     else_text (first_ranked 0 (candidates dstIP addrs))
       (else_text (else_text preferred (first_ranked 1 (candidates dstIP addrs)))
         (else_text (else_text loopback (first_ranked 2 (candidates dstIP addrs)))
           (else_text linkLocal (first_ranked 3 (candidates dstIP addrs)))))"
proof (induction addrs arbitrary: preferred loopback linkLocal)
  case Nil
  then show ?case by (simp add: candidates_def first_ranked_def else_text_def)
next
  case (Cons a as)
  let ?p = "AddrIP a"
  show ?case
  proof (cases "?p \<noteq> [] \<and> (To4 ?p = []) = (To4 dstIP = [])")
    case False
    then have "candidates dstIP (a # as) = candidates dstIP as" by (auto simp: candidates_def)
    then show ?thesis using False Cons.IH by (auto simp: Let_def)
  next
    case True
    then have c: "candidates dstIP (a # as) = ?p # candidates dstIP as" by (auto simp: candidates_def)
    have "address_rank ?p = 0 \<or> address_rank ?p = 1 \<or> address_rank ?p = 2 \<or> address_rank ?p = 3" by (simp add: address_rank_def)
    then show ?thesis
      using True Cons.IH ip_string_nonempty [of ?p]
      by (elim disjE) (auto simp: c first_ranked_Cons address_rank_def else_text_def Let_def split: if_splits)
  qed
qed

lemma first_ranked_exists:
  "first_ranked n ps \<noteq> [] \<longleftrightarrow> (\<exists>p\<in>set ps. address_rank p = n)"
proof (induction ps)
  case Nil
  then show ?case by (simp add: first_ranked_def)
qed (auto simp: first_ranked_Cons ip_string_nonempty)

lemma first_ranked_find:
  "\<exists>p\<in>set ps. address_rank p = n \<Longrightarrow> \<exists>p. first_ranked n ps = ip_string p \<and> List.find (\<lambda>q. address_rank q = n) ps = Some p"
  by (induction ps) (auto simp: first_ranked_Cons)

text \<open>The address of a device is chosen by its kind, not by the order of the addresses: of the addresses of the destination's family
  it is the first one of the best kind there is (public, private, loopback, link-local), and there is none exactly if the device has no
  address of that family.\<close>

theorem source_addr_best:
  assumes "addrs_of d = Inr addrs" "dstIP \<noteq> []"
  shows "(if candidates dstIP addrs = [] then ResolveSourceDeviceAddr addrs_of (Some d) dstIP = Inr []
    else \<exists>p n. ResolveSourceDeviceAddr addrs_of (Some d) dstIP = Inr (ip_string p) \<and>
      List.find (\<lambda>q. address_rank q = n) (candidates dstIP addrs) = Some p \<and>
      (\<forall>q\<in>set (candidates dstIP addrs). n \<le> address_rank q))"
proof -
  let ?ps = "candidates dstIP addrs"
  have r: "ResolveSourceDeviceAddr addrs_of (Some d) dstIP =
      Inr (else_text (first_ranked 0 ?ps) (else_text (first_ranked 1 ?ps) (else_text (first_ranked 2 ?ps) (first_ranked 3 ?ps))))"
    using assms by (simp add: ResolveSourceDeviceAddr_def scan_addrs_ranked)
  show ?thesis
  proof (cases "?ps = []")
    case True
    then show ?thesis using r by (simp add: first_ranked_def)
  next
    case False
    define n where "n = Min (address_rank ` set ?ps)"
    have "n \<in> address_rank ` set ?ps" unfolding n_def using False by (intro Min_in) auto
    then have n: "\<exists>p\<in>set ?ps. address_rank p = n" "\<forall>q\<in>set ?ps. n \<le> address_rank q" by (auto simp: n_def)
    have less: "first_ranked k ?ps = []" if "k < n" for k
      using n(2) that first_ranked_exists [of k ?ps] by fastforce
    have "n \<le> 3" using n(1) by (auto simp: address_rank_def split: if_splits)
    then have "n = 0 \<or> n = 1 \<or> n = 2 \<or> n = 3" by auto
    moreover have "first_ranked n ?ps \<noteq> []" using n(1) first_ranked_exists by blast
    ultimately have "ResolveSourceDeviceAddr addrs_of (Some d) dstIP = Inr (first_ranked n ?ps)"
      unfolding r using less by (elim disjE) (simp_all add: else_text_def)
    then show ?thesis using first_ranked_find [OF n(1)] n(2) False by auto
  qed
qed

lemma source_addr_best_witness:
  "ResolveSourceDeviceAddr (\<lambda>_. Inr [Some (IPNet [127, 0, 0, 1] []), Some (IPNet [10, 0, 0, 2] []), Some (IPNet [192, 0, 2, 7] [])]) (Some ''eth0'') [8, 8, 8, 8]
     = Inr (ip_string [192, 0, 2, 7])"
  (is "ResolveSourceDeviceAddr ?f _ _ = _")
proof -
  have c: "candidates [8, 8, 8, 8] [Some (IPNet [127, 0, 0, 1] []), Some (IPNet [10, 0, 0, 2] []), Some (IPNet [192, 0, 2, 7] [])] =
      [[127, 0, 0, 1], [10, 0, 0, 2], [192, 0, 2, 7]]"
    by (simp add: candidates_def To4_def)
  have k: "address_rank [127, 0, 0, 1] = 2" "address_rank [10, 0, 0, 2] = 1" "address_rank [192, 0, 2, 7] = 0"
    by code_simp+
  show ?thesis
    using source_addr_best [of ?f "''eth0''" _ "[8, 8, 8, 8]", OF refl] unfolding c by (auto simp: k split: if_splits)
qed

text \<open>Normalising the configuration changes nothing but the source: an address the user gave is kept, a device without one gives a
  usable address, and the device itself only stays where the operating system can bind to it.\<close>

lemma source_normalized:
  assumes "NormalizeExplicitSourceConfig goos lookup addrs_of c = Inr c'"
  shows "c' = c\<lparr>SrcAddr := SrcAddr c', SourceDevice := SourceDevice c'\<rparr>"
    "TrimSpace (SrcAddr c) \<noteq> [] \<Longrightarrow> SrcAddr c' = TrimSpace (SrcAddr c)"
    "TrimSpace (SourceDevice c) \<noteq> [] \<Longrightarrow> SrcAddr c' \<noteq> []"
    "SourceDevice c' \<noteq> [] \<Longrightarrow> SourceDevice c' = TrimSpace (SourceDevice c) \<and> OSType c \<noteq> osTypeWindows \<and>
       supportsSourceDeviceBinding goos \<and> (\<exists>d. lookup (TrimSpace (SourceDevice c)) = Inr (Some d))"
proof -
  define sa sd where "sa = TrimSpace (SrcAddr c)" and "sd = TrimSpace (SourceDevice c)"
  have t [simp]: "TrimSpace sd = sd" by (simp add: sd_def)
  let ?c = "\<lambda>a d. c\<lparr>SrcAddr := a, SourceDevice := d\<rparr>"
  let ?stay = "\<lambda>a. ?c a (if OSType c = osTypeWindows \<or> \<not> supportsSourceDeviceBinding goos then [] else sd)"
  have e: "NormalizeExplicitSourceConfig goos lookup addrs_of c =
      (if sd = [] \<or> OSType c = osTypeWindows \<and> sa \<noteq> [] then Inr (?c sa [])
       else rbind (ResolveSourceDevice lookup sd) (\<lambda>dev.
         if sa \<noteq> [] then Inr (?stay sa)
         else rbind (ResolveSourceDeviceAddr addrs_of dev (DstIP c)) (\<lambda>r.
           if r = [] then Inl (''source device '' @ quote sd @ '' has no usable '' @ sourceFamilyLabel (DstIP c) @ '' address'')
           else Inr (?stay r))))"
    by (cases "ResolveSourceDevice lookup sd"; cases "sd = []"; cases "sa = []")
      (simp_all add: NormalizeExplicitSourceConfig_def Let_def rbind_def flip: sa_def sd_def split: sum.split)
  consider "sd = []" "c' = ?c sa []" | "sd \<noteq> []" "sa \<noteq> []" "c' = ?c sa []"
    | r where "sd \<noteq> []" "\<exists>d. lookup sd = Inr (Some d)" "r \<noteq> []" "sa \<noteq> [] \<longrightarrow> r = sa" "c' = ?stay r"
  proof (cases "sd = [] \<or> OSType c = osTypeWindows \<and> sa \<noteq> []")
    case True
    then show ?thesis using assms that(1,2) unfolding e by auto
  next
    case False
    then obtain dev where dev: "ResolveSourceDevice lookup sd = Inr dev" using assms unfolding e by (auto simp: rbind_eq_Inr)
    then have l: "\<exists>d. lookup sd = Inr (Some d)" using False by (auto simp: ResolveSourceDevice_def Let_def split: sum.splits option.splits)
    show ?thesis
    proof (cases "sa = []")
      case True
      then obtain r where "r \<noteq> []" "c' = ?stay r" using assms False dev unfolding e by (auto simp: rbind_eq_Inr split: if_splits)
      then show ?thesis using that(3) [of r] False l True by blast
    next
      case sa: False
      then have "c' = ?stay sa" using assms False dev unfolding e by (simp split: if_splits)
      then show ?thesis using that(3) [of sa] False l sa by blast
    qed
  qed
  then have "c' = c\<lparr>SrcAddr := SrcAddr c', SourceDevice := SourceDevice c'\<rparr> \<and> (sa \<noteq> [] \<longrightarrow> SrcAddr c' = sa) \<and> (sd \<noteq> [] \<longrightarrow> SrcAddr c' \<noteq> []) \<and>
    (SourceDevice c' \<noteq> [] \<longrightarrow> SourceDevice c' = sd \<and> OSType c \<noteq> osTypeWindows \<and> supportsSourceDeviceBinding goos \<and> (\<exists>d. lookup sd = Inr (Some d)))"
    by cases (simp_all split: if_splits)
  then show "c' = c\<lparr>SrcAddr := SrcAddr c', SourceDevice := SourceDevice c'\<rparr>"
    "TrimSpace (SrcAddr c) \<noteq> [] \<Longrightarrow> SrcAddr c' = TrimSpace (SrcAddr c)"
    "TrimSpace (SourceDevice c) \<noteq> [] \<Longrightarrow> SrcAddr c' \<noteq> []"
    "SourceDevice c' \<noteq> [] \<Longrightarrow> SourceDevice c' = TrimSpace (SourceDevice c) \<and> OSType c \<noteq> osTypeWindows \<and>
       supportsSourceDeviceBinding goos \<and> (\<exists>d. lookup (TrimSpace (SourceDevice c)) = Inr (Some d))"
    unfolding sa_def sd_def by blast+
qed

end
