(* ===== verification/Geo_Dns.thy ===== *)
theory Geo_Dns
  imports Go_Text Net_Addr
begin

section \<open>The resolver for geo lookups\<close>

text \<open>
  \<open>util/dns_resolver.go\<close>: which DNS resolver the geo services use. The choice is a package variable; \<open>WithGeoDNSResolver\<close> changes it for
  the time of a callback, lets callbacks with the same resolver share the change and makes others wait. Several goroutines are
  inside this function at once, so each of its critical sections is one step of a transition system; the phase of a goroutine says
  which section comes next. The callback's own code does not appear: it runs while the phase is \<open>Inside\<close> (or \<open>Plain\<close>, for an
  empty resolver name).
\<close>

subsection \<open>The variables\<close>

datatype phase =
    Idle
  | Plain
  | Entering string
  | Acquired string
  | Saved string string bool
  | Switched string string bool
  | Inside string
  | Restoring string bool
  | Restoring_Fallback bool
  | Unlocking

record dns_state =
  geoDotServer :: string
  geoFallback :: bool
  geoScopeDot :: string
  geoScopePrev :: "string \<times> bool"
  geoScopeDepth :: int
  geoScopeMu :: bool
  phase_of :: "nat \<Rightarrow> phase"

definition normalizeGeoDNSResolver :: "string \<Rightarrow> string" where
  "normalizeGeoDNSResolver dotServer = ToLower (TrimSpace dotServer)"

definition SetGeoDNSResolver :: "string \<Rightarrow> dns_state \<Rightarrow> dns_state" where
  "SetGeoDNSResolver dotServer s = s\<lparr>geoDotServer := normalizeGeoDNSResolver dotServer\<rparr>"

definition SetGeoDNSFallback :: "bool \<Rightarrow> dns_state \<Rightarrow> dns_state" where
  "SetGeoDNSFallback enabled s = s\<lparr>geoFallback := enabled\<rparr>"

definition getGeoDNSConfig :: "dns_state \<Rightarrow> string \<times> bool" where
  "getGeoDNSConfig s = (geoDotServer s, geoFallback s)"

definition dns_init :: "string \<Rightarrow> bool \<Rightarrow> dns_state" where
  "dns_init dot fb = \<lparr>geoDotServer = normalizeGeoDNSResolver dot, geoFallback = fb, geoScopeDot = [], geoScopePrev = ([], False),
     geoScopeDepth = 0, geoScopeMu = False, phase_of = (\<lambda>_. Idle)\<rparr>"

subsection \<open>The critical sections\<close>

definition goto :: "nat \<Rightarrow> phase \<Rightarrow> dns_state \<Rightarrow> dns_state" where
  "goto t ph s = s\<lparr>phase_of := (phase_of s)(t := ph)\<rparr>"

text \<open>The beginning of \<open>WithGeoDNSResolver\<close>: no name, joining the running scope, or queueing for a scope of its own.\<close>

definition dns_enter :: "nat \<Rightarrow> string \<Rightarrow> dns_state \<Rightarrow> dns_state" where
  "dns_enter t dotServer s =
     (let dotServer = normalizeGeoDNSResolver dotServer in
      if dotServer = [] then goto t Plain s
      else if 0 < geoScopeDepth s \<and> geoScopeDot s = dotServer then goto t (Inside dotServer) (s\<lparr>geoScopeDepth := geoScopeDepth s + 1\<rparr>)
      else goto t (Entering dotServer) s)"

text \<open>The end of its setup: the scope becomes visible.\<close>

definition dns_publish :: "nat \<Rightarrow> string \<Rightarrow> string \<Rightarrow> bool \<Rightarrow> dns_state \<Rightarrow> dns_state" where
  "dns_publish t d p f s = goto t (Inside d) (s\<lparr>geoScopeDot := d, geoScopePrev := (p, f), geoScopeDepth := 1\<rparr>)"

text \<open>The first section of \<open>releaseGeoDNSResolverScope\<close>: the last callback of a scope takes on restoring the variables.\<close>

definition dns_release :: "nat \<Rightarrow> dns_state \<Rightarrow> dns_state" where
  "dns_release t s =
     (if geoScopeDepth s \<le> 0 then goto t Idle s
      else
        let s = s\<lparr>geoScopeDepth := geoScopeDepth s - 1\<rparr> in
        if 0 < geoScopeDepth s then goto t Idle s
        else
          let prevDotServer = fst (geoScopePrev s); prevFallback = snd (geoScopePrev s)
          in goto t (Restoring prevDotServer prevFallback) (s\<lparr>geoScopeDot := [], geoScopePrev := ([], True)\<rparr>))"

inductive dns_step :: "dns_state \<Rightarrow> dns_state \<Rightarrow> bool" where
  enter: "phase_of s t = Idle \<Longrightarrow> dns_step s (dns_enter t dot s)"
| leave_plain: "phase_of s t = Plain \<Longrightarrow> dns_step s (goto t Idle s)"
| lock: "phase_of s t = Entering d \<Longrightarrow> \<not> geoScopeMu s \<Longrightarrow> dns_step s (goto t (Acquired d) (s\<lparr>geoScopeMu := True\<rparr>))"
| save: "phase_of s t = Acquired d \<Longrightarrow> dns_step s (goto t (Saved d (fst (getGeoDNSConfig s)) (snd (getGeoDNSConfig s))) s)"
| switch: "phase_of s t = Saved d p f \<Longrightarrow> dns_step s (goto t (Switched d p f) (SetGeoDNSResolver d s))"
| publish: "phase_of s t = Switched d p f \<Longrightarrow> dns_step s (dns_publish t d p f s)"
| release: "phase_of s t = Inside d \<Longrightarrow> dns_step s (dns_release t s)"
| restore: "phase_of s t = Restoring p f \<Longrightarrow> dns_step s (goto t (Restoring_Fallback f) (SetGeoDNSResolver p s))"
| restore_fallback: "phase_of s t = Restoring_Fallback f \<Longrightarrow> dns_step s (goto t Unlocking (SetGeoDNSFallback f s))"
| unlock: "phase_of s t = Unlocking \<Longrightarrow> dns_step s (goto t Idle (s\<lparr>geoScopeMu := False\<rparr>))"

subsection \<open>Lookups\<close>

text \<open>The resolvers of \<open>ResolverForDot\<close>, the system's, and the one that tests put in.\<close>

datatype resolver = Dot string | System | Override

definition ResolverForDot :: "string \<Rightarrow> resolver option" where
  "ResolverForDot dotServer =
     (if dotServer \<in> {''dnssb'', ''aliyun'', ''dnspod'', ''google'', ''cloudflare''} then Some (Dot dotServer) else None)"

text \<open>\<open>lookup\<close> is \<open>LookupHost\<close> of a resolver, \<open>parse\<close> is \<open>net.ParseIP\<close>.\<close>

definition resolveHost :: "(resolver \<Rightarrow> string \<Rightarrow> string + string list) \<Rightarrow> (string \<Rightarrow> ip) \<Rightarrow> resolver \<Rightarrow> string \<Rightarrow> string + ip list" where
  "resolveHost lookup parse r host =
     (case lookup r host of Inl e \<Rightarrow> Inl e
      | Inr addrs \<Rightarrow>
          let ips = List.filter (\<lambda>p. p \<noteq> []) (map parse addrs)
          in if ips = [] then Inl ''no addresses found'' else Inr ips)"

definition LookupHostForGeo ::
    "(resolver \<Rightarrow> string \<Rightarrow> string + string list) \<Rightarrow> (string \<Rightarrow> ip) \<Rightarrow> bool \<Rightarrow> dns_state \<Rightarrow> string \<Rightarrow> string + ip list" where
  "LookupHostForGeo lookup parse override s host =
     (if parse host \<noteq> [] then Inr [parse host]
      else
        let (dotServer, fallback) = getGeoDNSConfig s;
            r = (if override then Some Override else ResolverForDot dotServer)
        in case r of None \<Rightarrow> resolveHost lookup parse System host
           | Some r \<Rightarrow>
               (case resolveHost lookup parse r host of
                  Inr ips \<Rightarrow> if ips \<noteq> [] then Inr ips
                    else if \<not> fallback then Inl ''no addresses found via DoT'' else resolveHost lookup parse System host
                | Inl e \<Rightarrow> if \<not> fallback then Inl e else resolveHost lookup parse System host))"

subsection \<open>Normal forms of names\<close>

lemma lower_char_upper:
  "65 \<le> (of_char c :: nat) \<Longrightarrow> (of_char c :: nat) \<le> 90 \<Longrightarrow> of_char (lower_char c) = (of_char c + 32 :: nat)"
  by (simp add: lower_char_def Let_def take_bit_eq_mod)

lemma lower_char_id: "\<not> (65 \<le> (of_char c :: nat) \<and> (of_char c :: nat) \<le> 90) \<Longrightarrow> lower_char c = c"
  unfolding lower_char_def Let_def by (rule if_not_P)

lemma lower_char_space: "space_edge b \<Longrightarrow> lower_char c = b \<longleftrightarrow> c = b"
proof (cases "65 \<le> (of_char c :: nat) \<and> (of_char c :: nat) \<le> 90")
  case True
  then have "of_char (lower_char c) = (of_char c + 32 :: nat)" by (simp add: lower_char_upper)
  moreover assume "space_edge b"
  ultimately have "lower_char c \<noteq> b" "c \<noteq> b" using True by (auto simp: space_edge_def Let_def)
  then show ?thesis by simp
next
  case False
  then show ?thesis using lower_char_id by simp
qed

lemma lower_char_idem [simp]: "lower_char (lower_char c) = lower_char c"
proof (cases "65 \<le> (of_char c :: nat) \<and> (of_char c :: nat) \<le> 90")
  case True
  then show ?thesis by (intro lower_char_id) (simp add: lower_char_upper)
next
  case False
  then show ?thesis by (simp add: lower_char_id)
qed

lemma map_lower_spaces: "list_all space_edge w \<Longrightarrow> map lower_char x = w \<longleftrightarrow> x = w"
proof (induction w arbitrary: x)
  case (Cons b w)
  then show ?case by (cases x) (simp_all add: lower_char_space)
qed simp

lemma HasPrefix_lower: "list_all space_edge w \<Longrightarrow> HasPrefix (map lower_char s) w \<longleftrightarrow> HasPrefix s w"
  by (simp add: HasPrefix_def take_map map_lower_spaces)

lemma strip_all_lower:
  assumes "\<And>w. w \<in> set ws \<Longrightarrow> list_all space_edge w"
  shows "strip_all ws (map lower_char s) = map lower_char (strip_all ws s)"
  using assms
proof (induction ws s rule: strip_all.induct)
  case (1 ws s)
  have f: "find (\<lambda>w. w \<noteq> [] \<and> HasPrefix (map lower_char s) w) ws = find (\<lambda>w. w \<noteq> [] \<and> HasPrefix s w) ws"
    using 1(2) by (intro find_cong refl) (auto simp: HasPrefix_lower)
  show ?case
  proof (cases "find (\<lambda>w. w \<noteq> [] \<and> HasPrefix s w) ws")
    case None
    then show ?thesis using f by (simp add: strip_all.simps [of ws s] strip_all.simps [of ws "map lower_char s"])
  next
    case (Some w)
    then show ?thesis
      using f 1(1) [OF Some] 1(2) by (simp add: strip_all.simps [of ws s] strip_all.simps [of ws "map lower_char s"] drop_map)
  qed
qed

lemma TrimSpace_lower: "TrimSpace (map lower_char s) = map lower_char (TrimSpace s)"
proof -
  have e: "list_all space_edge w" if "w \<in> set space_encodings" for w
    using that by (auto simp: space_encodings_def space_edge_def)
  then have r: "list_all space_edge w" if "w \<in> set (map rev space_encodings)" for w using that by auto
  have a: "strip_all space_encodings (map lower_char s) = map lower_char (strip_all space_encodings s)"
    by (rule strip_all_lower) (rule e)
  have b: "strip_all (map rev space_encodings) (map lower_char t) = map lower_char (strip_all (map rev space_encodings) t)" for t
    by (rule strip_all_lower) (rule r)
  show ?thesis unfolding TrimSpace_def a by (simp only: rev_map b)
qed

lemma normalize_idem [simp]: "normalizeGeoDNSResolver (normalizeGeoDNSResolver d) = normalizeGeoDNSResolver d"
  by (simp add: normalizeGeoDNSResolver_def ToLower_def TrimSpace_lower)

subsection \<open>The invariant\<close>

primrec holds_lock :: "phase \<Rightarrow> bool" where
  "holds_lock Idle = False" | "holds_lock Plain = False" | "holds_lock (Entering d) = False"
| "holds_lock (Acquired d) = True" | "holds_lock (Saved d p f) = True" | "holds_lock (Switched d p f) = True"
| "holds_lock (Inside d) = False"
| "holds_lock (Restoring p f) = True" | "holds_lock (Restoring_Fallback f) = True" | "holds_lock Unlocking = True"

definition insiders :: "dns_state \<Rightarrow> nat set" where
  "insiders s = {t. \<exists>d. phase_of s t = Inside d}"

definition holders :: "dns_state \<Rightarrow> nat set" where
  "holders s = {t. holds_lock (phase_of s t)}"

text \<open>What the variables are while one goroutine is in a given phase, \<open>dot\<close> and \<open>fb\<close> being their values outside of all scopes.\<close>

primrec phase_ok :: "string \<Rightarrow> bool \<Rightarrow> dns_state \<Rightarrow> phase \<Rightarrow> bool" where
  "phase_ok dot fb s Idle = True" | "phase_ok dot fb s Plain = True"
| "phase_ok dot fb s (Entering d) = (normalizeGeoDNSResolver d = d)"
| "phase_ok dot fb s (Acquired d) = (normalizeGeoDNSResolver d = d \<and> geoDotServer s = dot \<and> geoFallback s = fb)"
| "phase_ok dot fb s (Saved d p f) = (normalizeGeoDNSResolver d = d \<and> geoDotServer s = dot \<and> geoFallback s = fb \<and> p = dot \<and> f = fb)"
| "phase_ok dot fb s (Switched d p f) = (geoDotServer s = d \<and> geoFallback s = fb \<and> p = dot \<and> f = fb)"
| "phase_ok dot fb s (Inside d) = (geoScopeDot s = d)"
| "phase_ok dot fb s (Restoring p f) = (p = dot \<and> f = fb \<and> geoFallback s = fb)"
| "phase_ok dot fb s (Restoring_Fallback f) = (f = fb \<and> geoDotServer s = dot \<and> geoFallback s = fb)"
| "phase_ok dot fb s Unlocking = (geoDotServer s = dot \<and> geoFallback s = fb)"

text \<open>No scope; a goroutine between two scopes; callbacks running in a scope.\<close>

definition dns_free :: "string \<Rightarrow> bool \<Rightarrow> dns_state \<Rightarrow> bool" where
  "dns_free dot fb s \<longleftrightarrow> insiders s = {} \<and> holders s = {} \<and> \<not> geoScopeMu s \<and> geoDotServer s = dot \<and> geoFallback s = fb"

definition dns_held :: "nat \<Rightarrow> dns_state \<Rightarrow> bool" where
  "dns_held t s \<longleftrightarrow> insiders s = {} \<and> holders s = {t} \<and> geoScopeMu s"

definition dns_scoped :: "string \<Rightarrow> bool \<Rightarrow> dns_state \<Rightarrow> bool" where
  "dns_scoped dot fb s \<longleftrightarrow> insiders s \<noteq> {} \<and> holders s = {} \<and> geoScopeMu s \<and> geoDotServer s = geoScopeDot s \<and>
     geoFallback s = fb \<and> geoScopePrev s = (dot, fb)"

definition dns_inv :: "string \<Rightarrow> bool \<Rightarrow> dns_state \<Rightarrow> bool" where
  "dns_inv dot fb s \<longleftrightarrow> (\<forall>t. phase_ok dot fb s (phase_of s t)) \<and> finite (insiders s) \<and> geoScopeDepth s = int (card (insiders s)) \<and>
     (dns_free dot fb s \<or> (\<exists>t. dns_held t s) \<or> dns_scoped dot fb s)"

lemma insiders_goto: "insiders (goto t ph s) = (if \<exists>d. ph = Inside d then insert t (insiders s) else insiders s - {t})"
  by (auto simp: insiders_def goto_def)

lemma holders_goto: "holders (goto t ph s) = (if holds_lock ph then insert t (holders s) else holders s - {t})"
  by (auto simp: holders_def goto_def)

lemma same_phases: "phase_of s' = phase_of s \<Longrightarrow> insiders s' = insiders s \<and> holders s' = holders s"
  by (simp add: insiders_def holders_def)

lemma phase_ok_goto [simp]: "phase_ok dot fb (goto t ph s) p = phase_ok dot fb s p"
  by (cases p) (simp_all add: goto_def)

lemma dns_goto_fields [simp]:
  "geoDotServer (goto t ph s) = geoDotServer s" "geoFallback (goto t ph s) = geoFallback s" "geoScopeDot (goto t ph s) = geoScopeDot s"
  "geoScopePrev (goto t ph s) = geoScopePrev s" "geoScopeDepth (goto t ph s) = geoScopeDepth s" "geoScopeMu (goto t ph s) = geoScopeMu s"
  by (simp_all add: goto_def)

text \<open>A goroutine outside of all scopes does not depend on the variables.\<close>

lemma phase_ok_outside: "\<not> holds_lock ph \<Longrightarrow> (\<And>d. ph \<noteq> Inside d) \<Longrightarrow> phase_ok dot fb s ph \<Longrightarrow> phase_ok dot fb s' ph"
  by (cases ph) auto

lemma held_others:
  assumes "dns_inv dot fb s" "dns_held t s" "u \<noteq> t"
  shows "phase_ok dot fb s' (phase_of s u)"
proof (rule phase_ok_outside)
  show "\<not> holds_lock (phase_of s u)" "\<And>d. phase_of s u \<noteq> Inside d"
    using assms(2,3) by (auto simp: dns_held_def holders_def insiders_def)
  show "phase_ok dot fb s (phase_of s u)" using assms(1) by (simp add: dns_inv_def)
qed

lemma inv_goto:
  assumes "dns_inv dot fb s" "phase_of s1 = phase_of s" "phase_ok dot fb s1 ph" "\<And>u. u \<noteq> t \<Longrightarrow> phase_ok dot fb s1 (phase_of s u)"
    "geoScopeDepth s1 = int (card (insiders (goto t ph s1)))"
    "dns_free dot fb (goto t ph s1) \<or> (\<exists>t'. dns_held t' (goto t ph s1)) \<or> dns_scoped dot fb (goto t ph s1)"
  shows "dns_inv dot fb (goto t ph s1)"
proof -
  have "phase_ok dot fb s1 (phase_of (goto t ph s1) u)" for u
    using assms(2-4) by (simp add: goto_def)
  moreover have "finite (insiders (goto t ph s1))"
    using assms(1) same_phases [OF assms(2)] by (simp add: insiders_goto dns_inv_def)
  ultimately show ?thesis using assms(5,6) by (simp add: dns_inv_def)
qed

lemma mode_holder: "dns_inv dot fb s \<Longrightarrow> holds_lock (phase_of s t) \<Longrightarrow> dns_held t s"
proof -
  assume i: "dns_inv dot fb s" and "holds_lock (phase_of s t)"
  then have "t \<in> holders s" by (simp add: holders_def)
  then show ?thesis using i by (auto simp: dns_inv_def dns_free_def dns_held_def dns_scoped_def)
qed

lemma mode_inside: "dns_inv dot fb s \<Longrightarrow> phase_of s t = Inside d \<Longrightarrow> dns_scoped dot fb s"
  by (auto simp: dns_inv_def dns_free_def dns_held_def insiders_def)

lemma mode_unlocked: "dns_inv dot fb s \<Longrightarrow> \<not> geoScopeMu s \<Longrightarrow> dns_free dot fb s"
  by (auto simp: dns_inv_def dns_held_def dns_scoped_def)

text \<open>A step of the goroutine that holds the lock, to another phase under the lock.\<close>

lemma inv_held_step:
  assumes "dns_inv dot fb s" "holds_lock (phase_of s t)" "phase_of s1 = phase_of s" "phase_ok dot fb s1 ph" "holds_lock ph"
    "geoScopeMu s1 = geoScopeMu s" "geoScopeDepth s1 = geoScopeDepth s"
  shows "dns_inv dot fb (goto t ph s1)"
proof (rule inv_goto [OF assms(1,3,4)])
  note h = mode_holder [OF assms(1,2)]
  have i: "insiders (goto t ph s1) = {}" "holders (goto t ph s1) = {t}"
    using h assms(5) same_phases [OF assms(3)] by (auto simp: dns_held_def insiders_goto holders_goto)
  show "phase_ok dot fb s1 (phase_of s u)" if "u \<noteq> t" for u using held_others [OF assms(1) h that] .
  show "geoScopeDepth s1 = int (card (insiders (goto t ph s1)))"
    using h assms(1,7) i by (simp add: dns_inv_def dns_held_def)
  show "dns_free dot fb (goto t ph s1) \<or> (\<exists>t'. dns_held t' (goto t ph s1)) \<or> dns_scoped dot fb (goto t ph s1)"
    using i h assms(6) by (auto simp: dns_held_def)
qed

text \<open>A step that neither touches the variables nor enters or leaves a scope.\<close>

lemma inv_outside_step:
  assumes "dns_inv dot fb s" "\<not> holds_lock (phase_of s t)" "\<And>d. phase_of s t \<noteq> Inside d" "phase_ok dot fb s ph" "\<not> holds_lock ph" "\<And>d. ph \<noteq> Inside d"
  shows "dns_inv dot fb (goto t ph s)"
proof (rule inv_goto [OF assms(1) refl assms(4)])
  have "t \<notin> insiders s" "t \<notin> holders s" using assms(2,3) by (simp_all add: insiders_def holders_def)
  then have i: "insiders (goto t ph s) = insiders s" "holders (goto t ph s) = holders s"
    using assms(5,6) by (simp_all add: insiders_goto holders_goto)
  show "phase_ok dot fb s (phase_of s u)" for u using assms(1) by (simp add: dns_inv_def)
  show "geoScopeDepth s = int (card (insiders (goto t ph s)))" using assms(1) i by (simp add: dns_inv_def)
  show "dns_free dot fb (goto t ph s) \<or> (\<exists>t'. dns_held t' (goto t ph s)) \<or> dns_scoped dot fb (goto t ph s)"
    using assms(1) i by (simp add: dns_inv_def dns_free_def dns_held_def dns_scoped_def)
qed

lemma inv_enter:
  assumes "dns_inv dot fb s" "phase_of s t = Idle"
  shows "dns_inv dot fb (dns_enter t d s)"
proof -
  let ?d = "normalizeGeoDNSResolver d"
  consider "?d = []" | "?d \<noteq> []" "0 < geoScopeDepth s \<and> geoScopeDot s = ?d" | "?d \<noteq> []" "\<not> (0 < geoScopeDepth s \<and> geoScopeDot s = ?d)" by blast
  then show ?thesis
  proof cases
    case 1
    then have "dns_enter t d s = goto t Plain s" by (simp add: dns_enter_def Let_def)
    then show ?thesis using inv_outside_step [OF assms(1), of t Plain] assms(2) by simp
  next
    case 3
    then have "dns_enter t d s = goto t (Entering ?d) s" by (auto simp add: dns_enter_def Let_def)
    then show ?thesis using inv_outside_step [OF assms(1), of t "Entering ?d"] assms(2) by simp
  next
    case 2
    let ?s = "s\<lparr>geoScopeDepth := geoScopeDepth s + 1\<rparr>"
    have e: "dns_enter t d s = goto t (Inside ?d) ?s" using 2 by (simp add: dns_enter_def Let_def)
    have ne: "insiders s \<noteq> {}" using 2(2) assms(1) by (auto simp: dns_inv_def)
    then have m: "dns_scoped dot fb s" using assms(1) by (auto simp: dns_inv_def dns_free_def dns_held_def)
    have p: "phase_of ?s = phase_of s" by simp
    note sp = same_phases [OF p]
    have t: "t \<notin> insiders s" "t \<notin> holders s" using assms(2) by (auto simp: insiders_def holders_def)
    have v: "phase_ok dot fb ?s ph = phase_ok dot fb s ph" for ph by (cases ph) simp_all
    show ?thesis
      unfolding e
    proof (rule inv_goto [OF assms(1) p])
      show "phase_ok dot fb ?s (Inside ?d)" using 2 by simp
      show "phase_ok dot fb ?s (phase_of s u)" for u unfolding v using assms(1) by (simp add: dns_inv_def)
      show "geoScopeDepth ?s = int (card (insiders (goto t (Inside ?d) ?s)))"
        using assms(1) t sp by (simp add: insiders_goto dns_inv_def)
      show "dns_free dot fb (goto t (Inside ?d) ?s) \<or> (\<exists>t'. dns_held t' (goto t (Inside ?d) ?s)) \<or> dns_scoped dot fb (goto t (Inside ?d) ?s)"
        using m sp t by (simp add: dns_scoped_def insiders_goto holders_goto)
    qed
  qed
qed

lemma inv_lock:
  assumes "dns_inv dot fb s" "phase_of s t = Entering d" "\<not> geoScopeMu s"
  shows "dns_inv dot fb (goto t (Acquired d) (s\<lparr>geoScopeMu := True\<rparr>))"
proof -
  let ?s = "s\<lparr>geoScopeMu := True\<rparr>"
  have p: "phase_of ?s = phase_of s" by simp
  note m = mode_unlocked [OF assms(1,3)] and sp = same_phases [OF p]
  have v: "phase_ok dot fb ?s ph = phase_ok dot fb s ph" for ph by (cases ph) simp_all
  have "phase_ok dot fb s (phase_of s t)" using assms(1) by (simp add: dns_inv_def)
  then have n: "normalizeGeoDNSResolver d = d" using assms(2) by simp
  show ?thesis
  proof (rule inv_goto [OF assms(1) p])
    show "phase_ok dot fb ?s (Acquired d)" using m n by (simp add: dns_free_def)
    show "phase_ok dot fb ?s (phase_of s u)" for u unfolding v using assms(1) by (simp add: dns_inv_def)
    show "geoScopeDepth ?s = int (card (insiders (goto t (Acquired d) ?s)))"
      using m sp assms(1) by (simp add: insiders_goto dns_free_def dns_inv_def)
    show "dns_free dot fb (goto t (Acquired d) ?s) \<or> (\<exists>t'. dns_held t' (goto t (Acquired d) ?s)) \<or> dns_scoped dot fb (goto t (Acquired d) ?s)"
      using m sp by (auto simp: dns_free_def dns_held_def insiders_goto holders_goto)
  qed
qed

lemma inv_publish:
  assumes "dns_inv dot fb s" "phase_of s t = Switched d p f"
  shows "dns_inv dot fb (dns_publish t d p f s)"
proof -
  let ?s = "s\<lparr>geoScopeDot := d, geoScopePrev := (p, f), geoScopeDepth := 1\<rparr>"
  have ph: "phase_of ?s = phase_of s" by simp
  have h: "dns_held t s" using mode_holder [OF assms(1), of t] assms(2) by simp
  have "phase_ok dot fb s (phase_of s t)" using assms(1) by (simp add: dns_inv_def)
  then have o: "geoDotServer s = d" "geoFallback s = fb" "p = dot" "f = fb" using assms(2) by simp_all
  show ?thesis
    unfolding dns_publish_def
  proof (rule inv_goto [OF assms(1) ph])
    show "phase_ok dot fb ?s (Inside d)" by simp
    show "phase_ok dot fb ?s (phase_of s u)" if "u \<noteq> t" for u using held_others [OF assms(1) h that] .
    show "geoScopeDepth ?s = int (card (insiders (goto t (Inside d) ?s)))"
      using h same_phases [OF ph] by (simp add: insiders_goto dns_held_def)
    show "dns_free dot fb (goto t (Inside d) ?s) \<or> (\<exists>t'. dns_held t' (goto t (Inside d) ?s)) \<or> dns_scoped dot fb (goto t (Inside d) ?s)"
      using h o same_phases [OF ph] by (simp add: dns_scoped_def dns_held_def insiders_goto holders_goto)
  qed
qed

lemma inv_release:
  assumes "dns_inv dot fb s" "phase_of s t = Inside d"
  shows "dns_inv dot fb (dns_release t s)"
proof -
  note m = mode_inside [OF assms]
  have t: "t \<in> insiders s" using assms(2) by (simp add: insiders_def)
  have c: "geoScopeDepth s = int (card (insiders s))" "finite (insiders s)" using assms(1) by (simp_all add: dns_inv_def)
  have pos: "0 < geoScopeDepth s" using c t by (auto simp: card_gt_0_iff)
  have d1: "geoScopeDepth s - 1 = int (card (insiders s - {t}))" using c t pos by (simp add: of_nat_diff)
  show ?thesis
  proof (cases "0 < geoScopeDepth s - 1")
    case True
    let ?s = "s\<lparr>geoScopeDepth := geoScopeDepth s - 1\<rparr>"
    have e: "dns_release t s = goto t Idle ?s" using True by (simp add: dns_release_def Let_def)
    have ph: "phase_of ?s = phase_of s" by simp
    have v: "phase_ok dot fb ?s q = phase_ok dot fb s q" for q by (cases q) simp_all
    have "0 < card (insiders s - {t})" using True d1 by simp
    then have ne: "insiders s - {t} \<noteq> {}" by (metis card.empty less_irrefl)
    show ?thesis
      unfolding e
    proof (rule inv_goto [OF assms(1) ph])
      show "phase_ok dot fb ?s Idle" by simp
      show "phase_ok dot fb ?s (phase_of s u)" for u unfolding v using assms(1) by (simp add: dns_inv_def)
      show "geoScopeDepth ?s = int (card (insiders (goto t Idle ?s)))" using d1 same_phases [OF ph] by (simp add: insiders_goto)
      show "dns_free dot fb (goto t Idle ?s) \<or> (\<exists>t'. dns_held t' (goto t Idle ?s)) \<or> dns_scoped dot fb (goto t Idle ?s)"
        using m ne same_phases [OF ph] by (simp add: dns_scoped_def insiders_goto holders_goto)
    qed
  next
    case False
    let ?s = "s\<lparr>geoScopeDepth := geoScopeDepth s - 1, geoScopeDot := [], geoScopePrev := ([], True)\<rparr>"
    have e: "dns_release t s = goto t (Restoring dot fb) ?s"
      using False pos m by (simp add: dns_release_def Let_def dns_scoped_def)
    have ph: "phase_of ?s = phase_of s" by simp
    have "card (insiders s - {t}) = 0" using False d1 by linarith
    then have only: "insiders s - {t} = {}" using c(2) by simp
    have others: "phase_ok dot fb ?s (phase_of s u)" if "u \<noteq> t" for u
    proof (rule phase_ok_outside)
      show "\<not> holds_lock (phase_of s u)" using m by (auto simp: dns_scoped_def holders_def)
      show "phase_of s u \<noteq> Inside d'" for d' using only that by (auto simp: insiders_def)
      show "phase_ok dot fb s (phase_of s u)" using assms(1) by (simp add: dns_inv_def)
    qed
    show ?thesis
      unfolding e
    proof (rule inv_goto [OF assms(1) ph])
      show "phase_ok dot fb ?s (Restoring dot fb)" using m by (simp add: dns_scoped_def)
      show "phase_ok dot fb ?s (phase_of s u)" if "u \<noteq> t" for u using others [OF that] .
      show "geoScopeDepth ?s = int (card (insiders (goto t (Restoring dot fb) ?s)))" using d1 same_phases [OF ph] by (simp add: insiders_goto)
      show "dns_free dot fb (goto t (Restoring dot fb) ?s) \<or> (\<exists>t'. dns_held t' (goto t (Restoring dot fb) ?s)) \<or> dns_scoped dot fb (goto t (Restoring dot fb) ?s)"
        using m only same_phases [OF ph] by (simp add: dns_scoped_def dns_held_def insiders_goto holders_goto)
    qed
  qed
qed

lemma inv_unlock:
  assumes "dns_inv dot fb s" "phase_of s t = Unlocking"
  shows "dns_inv dot fb (goto t Idle (s\<lparr>geoScopeMu := False\<rparr>))"
proof -
  let ?s = "s\<lparr>geoScopeMu := False\<rparr>"
  have ph: "phase_of ?s = phase_of s" by simp
  have h: "dns_held t s" using mode_holder [OF assms(1), of t] assms(2) by simp
  have "phase_ok dot fb s (phase_of s t)" using assms(1) by (simp add: dns_inv_def)
  then have o: "geoDotServer s = dot" "geoFallback s = fb" using assms(2) by simp_all
  show ?thesis
  proof (rule inv_goto [OF assms(1) ph])
    show "phase_ok dot fb ?s Idle" by simp
    show "phase_ok dot fb ?s (phase_of s u)" if "u \<noteq> t" for u using held_others [OF assms(1) h that] .
    show "geoScopeDepth ?s = int (card (insiders (goto t Idle ?s)))"
      using h same_phases [OF ph] assms(1) by (simp add: insiders_goto dns_held_def dns_inv_def)
    show "dns_free dot fb (goto t Idle ?s) \<or> (\<exists>t'. dns_held t' (goto t Idle ?s)) \<or> dns_scoped dot fb (goto t Idle ?s)"
      using h o same_phases [OF ph] by (simp add: dns_free_def dns_held_def insiders_goto holders_goto)
  qed
qed

lemma dns_step_inv:
  assumes "dns_step s s'" "dns_inv dot fb s" "normalizeGeoDNSResolver dot = dot"
  shows "dns_inv dot fb s'"
  using assms(1)
proof (cases rule: dns_step.cases)
  case (enter t d)
  then show ?thesis using inv_enter [OF assms(2)] by simp
next
  case (leave_plain t)
  then show ?thesis using inv_outside_step [OF assms(2), of t Idle] by simp
next
  case (lock t d)
  then show ?thesis using inv_lock [OF assms(2)] by simp
next
  case (save t d)
  moreover have "phase_ok dot fb s (phase_of s t)" using assms(2) by (simp add: dns_inv_def)
  ultimately show ?thesis using inv_held_step [OF assms(2), of t s "Saved d (geoDotServer s) (geoFallback s)"] by (simp add: getGeoDNSConfig_def)
next
  case (switch t d p f)
  moreover have "phase_ok dot fb s (phase_of s t)" using assms(2) by (simp add: dns_inv_def)
  ultimately show ?thesis
    using inv_held_step [OF assms(2), of t "SetGeoDNSResolver d s" "Switched d p f"] by (simp add: SetGeoDNSResolver_def)
next
  case (publish t d p f)
  then show ?thesis using inv_publish [OF assms(2)] by simp
next
  case (release t d)
  then show ?thesis using inv_release [OF assms(2)] by simp
next
  case (restore t p f)
  moreover have "phase_ok dot fb s (phase_of s t)" using assms(2) by (simp add: dns_inv_def)
  ultimately show ?thesis
    using inv_held_step [OF assms(2), of t "SetGeoDNSResolver p s" "Restoring_Fallback f"] assms(3) by (simp add: SetGeoDNSResolver_def)
next
  case (restore_fallback t f)
  moreover have "phase_ok dot fb s (phase_of s t)" using assms(2) by (simp add: dns_inv_def)
  ultimately show ?thesis
    using inv_held_step [OF assms(2), of t "SetGeoDNSFallback f s" Unlocking] by (simp add: SetGeoDNSFallback_def)
next
  case (unlock t)
  then show ?thesis using inv_unlock [OF assms(2)] by simp
qed

lemma dns_init_inv: "dns_inv (normalizeGeoDNSResolver dot) fb (dns_init dot fb)"
  by (simp add: dns_inv_def dns_free_def dns_init_def insiders_def holders_def)

interpretation dns: step_invariant dns_step "dns_inv (normalizeGeoDNSResolver dot) fb" for dot fb
  by unfold_locales (rule dns_step_inv [OF _ _ normalize_idem])

text \<open>C37. Callbacks see their own resolver: under every interleaving of goroutines, while a callback runs in a scope the geo services use
  exactly the resolver it asked for, all running scopes have the same one, and whenever no goroutine is inside the function past
  its queue the resolver and the fallback rule are those from before.\<close>

theorem dns_scope_exact:
  assumes "reaches dns_step (dns_init dot fb) s"
  shows "(\<forall>t d. phase_of s t = Inside d \<longrightarrow> geoDotServer s = d \<and> geoFallback s = fb) \<and>
    ((\<forall>t. \<not> holds_lock (phase_of s t) \<and> (\<forall>d. phase_of s t \<noteq> Inside d)) \<longrightarrow>
       geoDotServer s = normalizeGeoDNSResolver dot \<and> geoFallback s = fb \<and> geoScopeDepth s = 0)"
proof -
  have i: "dns_inv (normalizeGeoDNSResolver dot) fb s" by (rule dns.reachable_inv [OF assms dns_init_inv])
  have "geoDotServer s = d \<and> geoFallback s = fb" if "phase_of s t = Inside d" for t d
  proof -
    have "phase_ok (normalizeGeoDNSResolver dot) fb s (phase_of s t)" using i by (simp add: dns_inv_def)
    then show ?thesis using mode_inside [OF i that] that by (simp add: dns_scoped_def)
  qed
  moreover have "geoDotServer s = normalizeGeoDNSResolver dot \<and> geoFallback s = fb \<and> geoScopeDepth s = 0"
    if "\<forall>t. \<not> holds_lock (phase_of s t) \<and> (\<forall>d. phase_of s t \<noteq> Inside d)"
  proof -
    have n: "insiders s = {}" "holders s = {}" using that by (auto simp: insiders_def holders_def)
    then show ?thesis using i by (auto simp: dns_inv_def dns_free_def dns_held_def dns_scoped_def)
  qed
  ultimately show ?thesis by blast
qed

text \<open>C38. Nobody waits for ever on a scope that is over: as long as some goroutine is inside the function, some goroutine inside it can
  take its next step (running callbacks can return).\<close>

theorem dns_no_deadlock:
  assumes "reaches dns_step (dns_init dot fb) s" "phase_of s t \<notin> {Idle, Plain}"
  shows "\<exists>u s'. phase_of s u \<notin> {Idle, Plain} \<and> dns_step s s' \<and> phase_of s' u \<noteq> phase_of s u"
proof -
  have i: "dns_inv (normalizeGeoDNSResolver dot) fb s" by (rule dns.reachable_inv [OF assms(1) dns_init_inv])
  then consider "dns_free (normalizeGeoDNSResolver dot) fb s" | h where "dns_held h s" | "dns_scoped (normalizeGeoDNSResolver dot) fb s"
    by (auto simp: dns_inv_def)
  then show ?thesis
  proof cases
    case 1
    then obtain d where d: "phase_of s t = Entering d" "\<not> geoScopeMu s"
      using assms(2) by (cases "phase_of s t") (auto simp: dns_free_def insiders_def holders_def set_eq_iff dest: spec [of _ t])
    show ?thesis using dns_step.lock [OF d] d(1) by (intro exI [of _ t] exI conjI) (auto simp: goto_def)
  next
    case 2
    then have h: "holds_lock (phase_of s h)" by (auto simp: dns_held_def holders_def)
    then have "\<exists>s'. dns_step s s' \<and> phase_of s' h \<noteq> phase_of s h"
    proof (cases "phase_of s h")
      case (Acquired d) then show ?thesis using dns_step.save [OF Acquired] by (intro exI conjI) (auto simp: goto_def)
    next
      case (Saved d p f) then show ?thesis using dns_step.switch [OF Saved] by (intro exI conjI) (auto simp: goto_def)
    next
      case (Switched d p f) then show ?thesis using dns_step.publish [OF Switched] by (intro exI conjI) (auto simp: dns_publish_def goto_def)
    next
      case (Restoring p f) then show ?thesis using dns_step.restore [OF Restoring] by (intro exI conjI) (auto simp: goto_def)
    next
      case (Restoring_Fallback f) then show ?thesis using dns_step.restore_fallback [OF Restoring_Fallback] by (intro exI conjI) (auto simp: goto_def)
    next
      case Unlocking then show ?thesis using dns_step.unlock [OF Unlocking] by (intro exI conjI) (auto simp: goto_def)
    qed simp_all
    moreover have "phase_of s h \<notin> {Idle, Plain}" using h by auto
    ultimately show ?thesis by blast
  next
    case 3
    then obtain u d where u: "phase_of s u = Inside d" by (auto simp: dns_scoped_def insiders_def)
    have "phase_of (dns_release u s) u \<noteq> phase_of s u" using u by (auto simp: dns_release_def goto_def Let_def)
    then show ?thesis using dns_step.release [OF u] u by (intro exI [of _ u] exI [of _ "dns_release u s"]) simp
  qed
qed

text \<open>A run with two goroutines: the first opens a scope, the second joins it.\<close>

definition dns_run :: "dns_state list" where
  "dns_run =
     (let s0 = dns_init [] True; s1 = dns_enter 1 ''google'' s0; s2 = goto 1 (Acquired ''google'') (s1\<lparr>geoScopeMu := True\<rparr>);
          s3 = goto 1 (Saved ''google'' (fst (getGeoDNSConfig s2)) (snd (getGeoDNSConfig s2))) s2;
          s4 = goto 1 (Switched ''google'' [] True) (SetGeoDNSResolver ''google'' s3);
          s5 = dns_publish 1 ''google'' [] True s4; s6 = dns_enter 2 ''google'' s5
      in [s0, s1, s2, s3, s4, s5, s6])"

lemma google_normal [simp]: "normalizeGeoDNSResolver ''google'' = ''google''"
proof -
  have "TrimSpace ''google'' = ''google''" by (rule TrimSpace_id) (simp add: space_edge_def)
  then show ?thesis by (simp add: normalizeGeoDNSResolver_def ToLower_def lower_char_def)
qed

lemma normalize_Nil [simp]: "normalizeGeoDNSResolver [] = []"
  by (simp add: normalizeGeoDNSResolver_def ToLower_def)

lemmas dns_run_defs = dns_run_def Let_def dns_init_def dns_enter_def goto_def getGeoDNSConfig_def SetGeoDNSResolver_def dns_publish_def

lemma dns_run_reaches: "reaches dns_step (dns_init [] True) (dns_run ! 6)"
proof -
  have r: "dns_step (dns_run ! 0) (dns_run ! 1)" "dns_step (dns_run ! 1) (dns_run ! 2)" "dns_step (dns_run ! 2) (dns_run ! 3)"
    "dns_step (dns_run ! 3) (dns_run ! 4)" "dns_step (dns_run ! 4) (dns_run ! 5)" "dns_step (dns_run ! 5) (dns_run ! 6)"
    using dns_step.enter [of "dns_run ! 0" 1 "''google''"] dns_step.lock [of "dns_run ! 1" 1 "''google''"]
      dns_step.save [of "dns_run ! 2" 1 "''google''"] dns_step.switch [of "dns_run ! 3" 1 "''google''" "[]" True]
      dns_step.publish [of "dns_run ! 4" 1 "''google''" "[]" True] dns_step.enter [of "dns_run ! 5" 2 "''google''"]
    by (simp_all add: dns_run_defs)
  have "dns_run ! 0 = dns_init [] True" by (simp add: dns_run_def Let_def)
  then show ?thesis using r by (metis reaches.intros)
qed

lemma dns_scope_exact_witness: "geoDotServer (dns_run ! 6) = ''google'' \<and> geoScopeDepth (dns_run ! 6) = 2"
proof -
  have p: "phase_of (dns_run ! 6) 2 = Inside ''google''" "geoScopeDepth (dns_run ! 6) = 2" by (simp_all add: dns_run_defs)
  then show ?thesis using dns_scope_exact [OF dns_run_reaches] by blast
qed

lemma dns_no_deadlock_witness: "\<exists>u s'. dns_step (dns_run ! 6) s' \<and> phase_of s' u \<noteq> phase_of (dns_run ! 6) u"
proof -
  have "phase_of (dns_run ! 6) 2 \<notin> {Idle, Plain}" by (simp add: dns_run_defs)
  from dns_no_deadlock [OF dns_run_reaches this] show ?thesis by blast
qed

end
