(* ===== verification/Web_Trace.thy ===== *)
theory Web_Trace
  imports Source_Config Packet_Size Icmp_Tracer
begin

section \<open>Trace requests of the web console\<close>

text \<open>
  \<open>server/trace_handler.go\<close> with the choice of a provider in \<open>ipgeo/ipgeo.go\<close>: from a JSON request to the configuration of a trace, and from
  its result to the JSON answer. Arguments are the resolver of names, \<open>url.Parse\<close>, the geo clients behind the providers, the
  interfaces of the host, and the operating system. Numbers are Go's 64-bit integers, so a time-out in nanoseconds may
  wrap. Log lines, and the database that DN42 loads, are outside the model.
\<close>

subsection \<open>Requests\<close>

record traceRequest =
  tq_Target :: string
  tq_Protocol :: string
  tq_Port :: int
  tq_Queries :: int
  tq_MaxHops :: int
  tq_TimeoutMs :: int
  tq_PacketSize :: "int option"
  tq_TOS :: "int option"
  tq_ParallelRequests :: int
  tq_BeginHop :: int
  tq_IPv4Only :: bool
  tq_IPv6Only :: bool
  tq_DataProvider :: string
  tq_PowProvider :: string
  tq_DotServer :: string
  tq_DisableRDNS :: bool
  tq_AlwaysRDNS :: bool
  tq_DisableMaptrace :: bool
  tq_DisableMPLS :: bool
  tq_Language :: string
  tq_DN42 :: bool
  tq_SourceAddress :: string
  tq_SourcePort :: int
  tq_SourceDevice :: string
  tq_ICMPMode :: int
  tq_PacketInterval :: int
  tq_TTLInterval :: int
  tq_MaxAttempts :: int
  tq_AlwaysWaitRDNS :: bool
  tq_Maptrace :: "bool option"
  tq_LanguageOverride :: string
  tq_DataProviderAlias :: string
  tq_Mode :: string
  tq_IntervalMs :: int
  tq_HopIntervalMs :: int
  tq_MaxRounds :: int

type_synonym http_error = "int \<times> string"

definition normalizeTraceRequest :: "traceRequest \<Rightarrow> http_error + traceRequest" where
  "normalizeTraceRequest req =
     (let req = req\<lparr>tq_Mode := ToLower (TrimSpace (tq_Mode req))\<rparr>;
          req = (case tq_Maptrace req of None \<Rightarrow> req | Some m \<Rightarrow> req\<lparr>tq_DisableMaptrace := \<not> m\<rparr>)
      in if tq_IPv4Only req \<and> tq_IPv6Only req then Inl (400, ''ipv4_only and ipv6_only cannot be true at the same time'')
         else
           let req = (if tq_IntervalMs req \<le> 0 then req\<lparr>tq_IntervalMs := 0\<rparr> else req);
               req = (if tq_MaxRounds req < 0 then req\<lparr>tq_MaxRounds := 0\<rparr> else req)
           in case tq_TOS req of
                None \<Rightarrow> Inr req
              | Some t \<Rightarrow> if t < 0 \<or> t > 255 then Inl (400, ''tos must be within range 0-255'') else Inr req)"

definition supportedProtocols :: "string list" where
  "supportedProtocols = [''icmp'', ''udp'', ''tcp'']"

text \<open>The function \<open>contains\<close> of the handler, for a list of lower-case names.\<close>

definition contains_fold :: "string list \<Rightarrow> string \<Rightarrow> bool" where
  "contains_fold names v = list_ex (\<lambda>item. EqualFold v item) names"

record traceProtocolSelection =
  ps_protocol :: string
  ps_method :: Method
  ps_dstPort :: int

definition resolveTraceProtocol :: "traceRequest \<Rightarrow> http_error + traceProtocolSelection" where
  "resolveTraceProtocol req =
     (let protocol = ToLower (TrimSpace (tq_Protocol req));
          protocol = (if protocol = [] then ''icmp'' else protocol)
      in if \<not> contains_fold supportedProtocols protocol then Inl (400, ''unsupported protocol '' @ quote protocol)
         else
           let method = (if protocol = ''udp'' then UDPTrace else if protocol = ''tcp'' then TCPTrace else ICMPTrace);
               dstPort = (if tq_Port req = 0 then (case method of UDPTrace \<Rightarrow> 33494 | TCPTrace \<Rightarrow> 80 | _ \<Rightarrow> tq_Port req) else tq_Port req)
           in Inr \<lparr>ps_protocol = protocol, ps_method = method, ps_dstPort = dstPort\<rparr>)"

subsection \<open>Providers\<close>

text \<open>\<open>strings.ToUpper\<close>, as a comparison with capital ASCII letters sees it: besides the small letters, the dotless i (U+0131) becomes I and the
  long s (U+017F) becomes S.\<close>

fun ToUpper :: "string \<Rightarrow> string" where
  "ToUpper [] = []"
| "ToUpper (c # s) =
     (if c = CHR 0xC4 \<and> s \<noteq> [] \<and> hd s = CHR 0xB1 then CHR ''I'' # ToUpper (tl s)
      else if c = CHR 0xC5 \<and> s \<noteq> [] \<and> hd s = CHR 0xBF then CHR ''S'' # ToUpper (tl s)
      else (let n = of_char c :: nat in if 97 \<le> n \<and> n \<le> 122 then char_of (n - 32) else c) # ToUpper s)"

definition normalizeDataProvider :: "string \<Rightarrow> string \<Rightarrow> string" where
  "normalizeDataProvider provider alias =
     (let candidate = TrimSpace provider;
          candidate = (if candidate = [] then TrimSpace alias else candidate);
          upper = ToUpper candidate
      in if candidate = [] then []
         else if upper = ''IP.SB'' then ''IP.SB''
         else if upper \<in> {''IP-API.COM'', ''IPAPI.COM''} then ''IPAPI.com''
         else if upper \<in> {''IPINFO'', ''IP INFO''} then ''IPInfo''
         else if upper \<in> {''IPINSIGHT'', ''IP INSIGHT''} then ''IPInsight''
         else if upper \<in> {''IPINFOLOCAL'', ''IP INFO LOCAL''} then ''IPInfoLocal''
         else if upper \<in> {''LEOMOEAPI'', ''LEOMOE''} then ''LeoMoeAPI''
         else if upper = ''CHUNZHEN'' then ''chunzhen''
         else if upper = ''DN42'' then ''DN42''
         else if upper \<in> {''DISABLE-GEOIP'', ''DISABLE_GEOIP''} then ''disable-geoip''
         else if upper = ''IPDB.ONE'' then ''ipdb.one''
         else candidate)"

text \<open>\<open>ipgeo.GetSource\<close>; \<open>tokened\<close> says whether a token for the HTTP service is configured.\<close>

datatype geo_provider = P_DN42 | P_LeoWebSocket | P_LeoHTTP | P_IPSB | P_IPInSight | P_IPApiCom | P_IPInfo | P_IPInfoLocal | P_Chunzhen | P_Disabled | P_IPDBOne

definition LeoMoeAPISource :: "bool \<Rightarrow> geo_provider" where
  "LeoMoeAPISource tokened = (if tokened then P_LeoHTTP else P_LeoWebSocket)"

definition GetSource :: "bool \<Rightarrow> string \<Rightarrow> geo_provider" where
  "GetSource tokened s =
     (let u = ToUpper s in
      if u = ''DN42'' then P_DN42
      else if u = ''LEOMOEAPI'' then LeoMoeAPISource tokened
      else if u = ''IP.SB'' then P_IPSB
      else if u = ''IPINSIGHT'' then P_IPInSight
      else if u = ''IPAPI.COM'' then P_IPApiCom
      else if u = ''IP-API.COM'' then P_IPApiCom
      else if u = ''IPINFO'' then P_IPInfo
      else if u = ''IPINFOLOCAL'' then P_IPInfoLocal
      else if u = ''CHUNZHEN'' then P_Chunzhen
      else if u = ''DISABLE-GEOIP'' then P_Disabled
      else if u = ''IPDB.ONE'' then P_IPDBOne
      else LeoMoeAPISource tokened)"

text \<open>\<open>client p dot\<close> is the client of a provider that runs in the resolver scope \<open>dot\<close>, in none for an empty name.\<close>

definition GetSourceWithGeoDNS :: "(geo_provider \<Rightarrow> string \<Rightarrow> geo_source) \<Rightarrow> bool \<Rightarrow> string \<Rightarrow> string \<Rightarrow> geo_source" where
  "GetSourceWithGeoDNS client tokened s dotServer = client (GetSource tokened s) (TrimSpace (ToLower dotServer))"

text \<open>\<open>env_provider\<close> is the provider set in the environment. The result has the changed request as well.\<close>

definition resolveTraceDataProvider :: "string \<Rightarrow> traceRequest \<Rightarrow> string \<times> bool \<times> traceRequest" where
  "resolveTraceDataProvider env_provider req =
     (let dataProvider = normalizeDataProvider (tq_DataProvider req) (tq_DataProviderAlias req);
          dataProvider = (if dataProvider = [] then ''LeoMoeAPI'' else dataProvider);
          req = (if EqualFold dataProvider ''dn42'' then req\<lparr>tq_DN42 := True\<rparr> else req);
          (dataProvider, req) = (if tq_DN42 req then (''DN42'', req\<lparr>tq_DisableMaptrace := True\<rparr>) else (dataProvider, req));
          needsLeoWS = EqualFold dataProvider ''leomoeapi''
      in if needsLeoWS \<and> env_provider \<noteq> [] then (env_provider, EqualFold env_provider ''leomoeapi'', req)
         else (dataProvider, needsLeoWS, req))"

definition resolveTraceIPVersion :: "traceRequest \<Rightarrow> string" where
  "resolveTraceIPVersion req = (if tq_IPv4Only req then ''4'' else if tq_IPv6Only req then ''6'' else ''all'')"

definition shouldGenerateMap :: "string \<Rightarrow> bool" where
  "shouldGenerateMap provider = contains_fold [''leomoeapi'', ''ipinfo'', ''ip-api.com'', ''ipapi.com''] provider"

subsection \<open>Targets\<close>

record parsed_url =
  pu_Scheme :: string
  pu_Host :: string
  pu_Path :: string

definition has_scheme_mark :: "string \<Rightarrow> bool" where
  "has_scheme_mark s = list_ex (\<lambda>i. HasPrefix (drop i s) ''://'') [0..<length s]"

definition TrimPrefix :: "string \<Rightarrow> string \<Rightarrow> string" where
  "TrimPrefix s p = (if HasPrefix s p then drop (length p) s else s)"

text \<open>The host of a target with a scheme, and the text to fall back to.\<close>

definition parseTargetURLHost :: "(string \<Rightarrow> string + parsed_url) \<Rightarrow> string \<Rightarrow> string + string \<times> string" where
  "parseTargetURLHost parse target =
     (if \<not> has_scheme_mark target then Inr ([], target)
      else case parse target of
             Inl e \<Rightarrow> Inl (''invalid target format: '' @ e)
           | Inr u \<Rightarrow> if pu_Host u \<noteq> [] then Inr (pu_Host u, target)
               else Inr ([], if pu_Path u \<noteq> [] then TrimPrefix target (pu_Scheme u @ ''://'') else target))"

definition extractTargetHost :: "(string \<Rightarrow> string + parsed_url) \<Rightarrow> string \<Rightarrow> string \<Rightarrow> string + string" where
  "extractTargetHost parse target fallbackSource =
     (let by_slashes = (if CHR ''/'' \<in> set target
                        then (case parse (if HasPrefix target ''//'' then target else ''//'' @ target) of
                                Inr u \<Rightarrow> pu_Host u | Inl e \<Rightarrow> [])
                        else [])
      in if by_slashes \<noteq> [] then Inr by_slashes
         else case IndexByte fallbackSource CHR ''/'' of
                None \<Rightarrow> Inr []
              | Some idx \<Rightarrow>
                  if idx = 0 then Inl ''invalid target format''
                  else let candidate = TrimSpace (take idx fallbackSource) in
                    if candidate = [] then Inl ''invalid target format'' else Inr candidate)"

text \<open>The text between the first opening bracket and the next closing one, if there is any.\<close>

definition bracketed :: "string \<Rightarrow> string option" where
  "bracketed target =
     (case IndexByte target CHR ''['' of None \<Rightarrow> None
      | Some i \<Rightarrow> case IndexByte (drop i target) CHR '']'' of None \<Rightarrow> None
          | Some j \<Rightarrow> if 1 < j then Some (take (j - 1) (drop (i + 1) target)) else None)"

definition stripTargetPort :: "string \<Rightarrow> string" where
  "stripTargetPort target =
     (case split_host target of Some h \<Rightarrow> h
      | None \<Rightarrow> case bracketed target of Some h \<Rightarrow> h
          | None \<Rightarrow> if count_list target CHR '':'' = 1
              then (case IndexByte target CHR '':'' of Some i \<Rightarrow> take i target | None \<Rightarrow> target) else target)"

definition normalizeTarget :: "(string \<Rightarrow> string + parsed_url) \<Rightarrow> string \<Rightarrow> string + string" where
  "normalizeTarget parse input =
     (let target = TrimSpace input in
      if target = [] then Inl ''target is required''
      else rbind (parseTargetURLHost parse target) (\<lambda>(host, fallbackSource).
        rbind (if host = [] then extractTargetHost parse target fallbackSource else Inr host) (\<lambda>host.
          Inr (TrimSpace (stripTargetPort (if host \<noteq> [] then host else target))))))"

subsection \<open>The configuration\<close>

text \<open>\<open>time.Duration(ms) * time.Millisecond\<close> on 64 bits.\<close>

definition ms_duration :: "int \<Rightarrow> int" where
  "ms_duration ms = (ms * 1000000 + 2 ^ 63) mod 2 ^ 64 - 2 ^ 63"

text \<open>The world of a request: resolver, URL parser, interfaces, geo clients, environment.\<close>

record web_world =
  ww_resolve :: "string \<Rightarrow> string \<Rightarrow> string \<Rightarrow> string + ip"
  ww_parse :: "string \<Rightarrow> string + parsed_url"
  ww_lookup :: "string \<Rightarrow> string + string option"
  ww_addrs :: "string \<Rightarrow> string + addr option list"
  ww_client :: "geo_provider \<Rightarrow> string \<Rightarrow> geo_source"
  ww_tokened :: bool
  ww_EnvDataProvider :: string
  ww_GOOS :: string

definition positive_or :: "int \<Rightarrow> int \<Rightarrow> int" where
  "positive_or v d = (if v \<le> 0 then d else v)"

definition buildTraceConfig :: "web_world \<Rightarrow> traceRequest \<Rightarrow> Method \<Rightarrow> ip \<Rightarrow> string \<Rightarrow> int \<Rightarrow> (string, SourceConfig) res" where
  "buildTraceConfig w req method dst dataProvider port =
     (let lang = TrimSpace (tq_Language req);
          lang = (if lang = [] then ''cn'' else lang);
          timeout = positive_or (tq_TimeoutMs req) 1000;
          packetSize = (case tq_PacketSize req of None \<Rightarrow> DefaultPacketSize method dst | Some n \<Rightarrow> n)
      in rbind (NormalizePacketSize method dst packetSize) (\<lambda>spec.
        Inr \<lparr>ICMPMode = tq_ICMPMode req, SourceDevice = TrimSpace (tq_SourceDevice req),
             BeginHop = positive_or (tq_BeginHop req) 1, MaxHops = positive_or (tq_MaxHops req) 30,
             NumMeasurements = positive_or (tq_Queries req) 3, MaxAttempts = tq_MaxAttempts req,
             ParallelRequests = positive_or (tq_ParallelRequests req) 18, Timeout = ms_duration timeout, DstIP = dst, DstPort = port,
             IPGeoSource = Some (GetSourceWithGeoDNS (ww_client w) (ww_tokened w) dataProvider (tq_DotServer req)), GeoLookupOffset = 0,
             RDNS = (\<not> tq_DisableRDNS req), AlwaysWaitRDNS = (tq_AlwaysWaitRDNS req \<or> tq_AlwaysRDNS req), cfg_Lang = lang,
             DN42 = tq_DN42 req, PktSize = PayloadSize spec, RandomPacketSize = Random spec, Maptrace = (\<not> tq_DisableMaptrace req),
             DisableMPLS = tq_DisableMPLS req,
             OSType = (if ww_GOOS w = ''darwin'' then 1 else if ww_GOOS w = ''windows'' then 2 else 3),
             SrcAddr = tq_SourceAddress req, SrcPort = tq_SourcePort req,
             PacketInterval = positive_or (tq_PacketInterval req) 50, TTLInterval = positive_or (tq_TTLInterval req) 50,
             TOS = (case tq_TOS req of None \<Rightarrow> 0 | Some t \<Rightarrow> t)\<rparr>))"

record traceExecution =
  ex_Req :: traceRequest
  ex_Target :: string
  ex_Protocol :: string
  ex_DataProvider :: string
  ex_Method :: Method
  ex_IP :: ip
  ex_Config :: SourceConfig
  ex_NeedsLeoWS :: bool
  ex_PowProvider :: string

text \<open>A bad request is answered with status 400.\<close>

definition bad_request :: "string + 'a \<Rightarrow> http_error + 'a" where
  "bad_request r = (case r of Inl e \<Rightarrow> Inl (400, e) | Inr x \<Rightarrow> Inr x)"

fun fault_text :: "string fault \<Rightarrow> string" where
  "fault_text (Err e) = e" | "fault_text Panic = ''panic''"

definition prepareTrace :: "web_world \<Rightarrow> traceRequest \<Rightarrow> http_error + traceExecution" where
  "prepareTrace w req =
     rbind (normalizeTraceRequest req) (\<lambda>req.
       rbind (bad_request (normalizeTarget (ww_parse w) (tq_Target req))) (\<lambda>target.
         rbind (resolveTraceProtocol req) (\<lambda>protocol.
           let (dataProvider, needsLeoWS, req) = resolveTraceDataProvider (ww_EnvDataProvider w) req in
           case ww_resolve w target (resolveTraceIPVersion req) (ToLower (tq_DotServer req)) of
             Inl e \<Rightarrow> Inl (500, e)
           | Inr dst \<Rightarrow>
               rbind (bad_request (map_sum fault_text (\<lambda>c. c) (buildTraceConfig w req (ps_method protocol) dst dataProvider (ps_dstPort protocol)))) (\<lambda>config.
                 rbind (bad_request (NormalizeExplicitSourceConfig (ww_GOOS w) (ww_lookup w) (ww_addrs w) config)) (\<lambda>config.
                   Inr \<lparr>ex_Req = req, ex_Target = target, ex_Protocol = ps_protocol protocol, ex_DataProvider = dataProvider,
                        ex_Method = ps_method protocol, ex_IP = dst, ex_Config = config, ex_NeedsLeoWS = needsLeoWS,
                        ex_PowProvider = TrimSpace (tq_PowProvider req)\<rparr>)))))"

subsection \<open>The answer\<close>

definition localizeGeo :: "geo_data option \<Rightarrow> string \<Rightarrow> geo_data option" where
  "localizeGeo src lang = map_option (\<lambda>dst.
     if ToLower lang = ''en'' then
       let dst = (if CountryEn dst \<noteq> [] then dst\<lparr>Country := CountryEn dst\<rparr> else dst);
           dst = (if ProvEn dst \<noteq> [] then dst\<lparr>Prov := ProvEn dst\<rparr> else dst)
       in if CityEn dst \<noteq> [] then dst\<lparr>City := CityEn dst\<rparr> else dst
     else
       let dst = (if Country dst = [] \<and> CountryEn dst \<noteq> [] then dst\<lparr>Country := CountryEn dst\<rparr> else dst);
           dst = (if Prov dst = [] \<and> ProvEn dst \<noteq> [] then dst\<lparr>Prov := ProvEn dst\<rparr> else dst)
       in if City dst = [] \<and> CityEn dst \<noteq> [] then dst\<lparr>City := CityEn dst\<rparr> else dst) src"

record hopAttempt =
  ha_Success :: bool
  ha_IP :: string
  ha_Hostname :: string
  ha_RTT :: real
  ha_Error :: string
  ha_MPLS :: "string list"
  ha_Geo :: "geo_data option"

record hopResponse =
  hr_TTL :: int
  hr_Attempts :: "hopAttempt list"

text \<open>The text of an attempt's error; the one for a time-out is the constant of the tracers.\<close>

fun hop_error_text :: "hop_error option \<Rightarrow> string" where
  "hop_error_text None = []"
| "hop_error_text (Some HopTimeout) = ''hop timeout''"
| "hop_error_text (Some (OtherError e)) = e"

definition hop_attempt :: "string \<Rightarrow> hop \<Rightarrow> hopAttempt" where
  "hop_attempt lang a =
     \<lparr>ha_Success = Success a, ha_IP = (case Address a of None \<Rightarrow> [] | Some x \<Rightarrow> addr_String x), ha_Hostname = Hostname a,
      ha_RTT = (if 0 < RTT a then real_of_int (RTT a) / 1000000 else 0), ha_Error = hop_error_text (Error a), ha_MPLS = MPLS a,
      ha_Geo = localizeGeo (Geo a) lang\<rparr>"

definition buildHopResponse :: "hop list \<Rightarrow> nat \<Rightarrow> string \<Rightarrow> hopResponse" where
  "buildHopResponse atts idx lang = \<lparr>hr_TTL = int idx + 1, hr_Attempts = map (hop_attempt lang) atts\<rparr>"

definition convertHops :: "hop list list \<Rightarrow> string \<Rightarrow> hopResponse list" where
  "convertHops hops lang =
     List.filter (\<lambda>r. hr_Attempts r \<noteq> []) (map (\<lambda>(idx, atts). buildHopResponse atts idx lang) (enumerate 0 hops))"

record traceResponse =
  te_Target :: string
  te_ResolvedIP :: string
  te_Protocol :: string
  te_DataProvider :: string
  te_TraceMapURL :: string
  te_Language :: string
  te_Hops :: "hopResponse list"
  te_DurationMs :: int

text \<open>The handler: what the body decodes to, the connection to the geo service, the trace and the map service are given; \<open>None\<close> is an
  answer that is not written because the client has gone.\<close>

datatype body_result = Body_Too_Large | Body_Invalid | Body traceRequest
datatype trace_run = Run_Cancelled | Run_Failed string | Run_Done "hop list list" int
datatype web_answer = Status int string | Answer traceResponse

definition traceMapURLForResult :: "(hop list list \<Rightarrow> string option) \<Rightarrow> traceExecution \<Rightarrow> hop list list \<Rightarrow> string" where
  "traceMapURLForResult map_url setup hops =
     (if \<not> Maptrace (ex_Config setup) \<or> \<not> shouldGenerateMap (ex_DataProvider setup) then []
      else case map_url hops of None \<Rightarrow> [] | Some u \<Rightarrow> u)"

definition traceHandler :: "web_world \<Rightarrow> (traceExecution \<Rightarrow> string option) \<Rightarrow> (Method \<Rightarrow> SourceConfig \<Rightarrow> trace_run) \<Rightarrow> (hop list list \<Rightarrow> string option)
    \<Rightarrow> (http_error \<Rightarrow> bool) \<Rightarrow> body_result \<Rightarrow> web_answer option" where
  "traceHandler w connect run map_url cancelled body =
     (case body of
        Body_Too_Large \<Rightarrow> Some (Status 413 ''request payload too large'')
      | Body_Invalid \<Rightarrow> Some (Status 400 ''invalid request payload'')
      | Body req \<Rightarrow>
          (case prepareTrace w req of
             Inl e \<Rightarrow> if cancelled e then None else Some (Status (if fst e = 0 then 500 else fst e) (snd e))
           | Inr setup \<Rightarrow>
               (case (if ex_NeedsLeoWS setup then connect setup else None) of
                  Some e \<Rightarrow> Some (Status 500 e)
                | None \<Rightarrow>
                    (case run (ex_Method setup) (ex_Config setup) of
                       Run_Cancelled \<Rightarrow> None
                     | Run_Failed e \<Rightarrow> Some (Status 500 e)
                     | Run_Done hops ms \<Rightarrow>
                         Some (Answer \<lparr>te_Target = ex_Target setup, te_ResolvedIP = ip_string (ex_IP setup), te_Protocol = ex_Protocol setup,
                           te_DataProvider = ex_DataProvider setup, te_TraceMapURL = traceMapURLForResult map_url setup hops,
                           te_Language = cfg_Lang (ex_Config setup), te_Hops = convertHops hops (cfg_Lang (ex_Config setup)),
                           te_DurationMs = ms\<rparr>)))))"

subsection \<open>A request becomes a sound configuration\<close>

lemma positive_or_pos: "0 < d \<Longrightarrow> 1 \<le> positive_or v d"
  by (simp add: positive_or_def)

lemma bad_request_Inr [simp]: "bad_request r = Inr x \<longleftrightarrow> r = Inr x"
  by (simp add: bad_request_def split: sum.splits)

lemma bad_ok: "bad_request (Inr x) = Inr x"
  by simp

lemma map_sum_Inr: "map_sum f (\<lambda>c. c) r = Inr x \<longleftrightarrow> r = Inr x"
  by (cases r) simp_all

lemma normalizeTraceRequest_ok:
  "normalizeTraceRequest req = Inr req' \<Longrightarrow> \<not> (tq_IPv4Only req' \<and> tq_IPv6Only req') \<and> (\<forall>t. tq_TOS req' = Some t \<longrightarrow> 0 \<le> t \<and> t \<le> 255)"
  by (auto simp: normalizeTraceRequest_def Let_def split: if_splits option.splits)

lemma resolveTraceDataProvider_frame:
  "resolveTraceDataProvider ep req = (dp, leo, req') \<Longrightarrow> tq_TOS req' = tq_TOS req \<and> tq_MaxHops req' = tq_MaxHops req \<and>
     (tq_DN42 req' \<longrightarrow> dp = ''DN42'' \<and> \<not> leo \<and> tq_DisableMaptrace req')"
  by (auto simp: resolveTraceDataProvider_def Let_def EqualFold_def lower_char_def split: if_splits prod.splits)

lemma buildTraceConfig_ok:
  assumes "buildTraceConfig w req method dst dp port = Inr c"
  shows "1 \<le> BeginHop c \<and> 1 \<le> MaxHops c \<and> 1 \<le> NumMeasurements c \<and> 1 \<le> ParallelRequests c \<and> 1 \<le> PacketInterval c \<and> 1 \<le> TTLInterval c \<and>
     DstIP c = dst \<and> DstPort c = port \<and> packetSizeMinPayload method dst \<le> PktSize c \<and> DN42 c = tq_DN42 req \<and>
     Maptrace c = (\<not> tq_DisableMaptrace req) \<and> TOS c = (case tq_TOS req of None \<Rightarrow> 0 | Some t \<Rightarrow> t)"
proof -
  obtain spec where spec: "NormalizePacketSize method dst (case tq_PacketSize req of None \<Rightarrow> DefaultPacketSize method dst | Some n \<Rightarrow> n) = Inr spec"
    using assms by (auto simp: buildTraceConfig_def Let_def rbind_eq_Inr)
  then have "packetSizeMinPayload method dst \<le> PayloadSize spec"
    by (auto simp: NormalizePacketSize_def Let_def split: if_splits)
  then show ?thesis using assms spec by (auto simp: buildTraceConfig_def Let_def rbind_eq_Inr positive_or_pos)
qed

lemma prepareTrace_ok:
  assumes "prepareTrace w req = Inr x"
  obtains req1 sel c where "normalizeTraceRequest req = Inr req1" "normalizeTarget (ww_parse w) (tq_Target req1) = Inr (ex_Target x)"
    "resolveTraceProtocol req1 = Inr sel" "ps_method sel = ex_Method x"
    "resolveTraceDataProvider (ww_EnvDataProvider w) req1 = (ex_DataProvider x, ex_NeedsLeoWS x, ex_Req x)"
    "ww_resolve w (ex_Target x) (resolveTraceIPVersion (ex_Req x)) (ToLower (tq_DotServer (ex_Req x))) = Inr (ex_IP x)"
    "buildTraceConfig w (ex_Req x) (ex_Method x) (ex_IP x) (ex_DataProvider x) (ps_dstPort sel) = Inr c"
    "NormalizeExplicitSourceConfig (ww_GOOS w) (ww_lookup w) (ww_addrs w) c = Inr (ex_Config x)"
proof -
  obtain req1 target sel where 1: "normalizeTraceRequest req = Inr req1" "normalizeTarget (ww_parse w) (tq_Target req1) = Inr target"
    "resolveTraceProtocol req1 = Inr sel"
    using assms unfolding prepareTrace_def rbind_eq_Inr [of "normalizeTraceRequest req"] rbind_eq_Inr [of "bad_request (normalizeTarget p t)" for p t]
      rbind_eq_Inr [of "resolveTraceProtocol q" for q] bad_request_Inr by (elim exE conjE) (rule that)
  obtain dp leo req2 where 2: "resolveTraceDataProvider (ww_EnvDataProvider w) req1 = (dp, leo, req2)" by (rule prod_cases3)
  have r: "(case ww_resolve w target (resolveTraceIPVersion req2) (ToLower (tq_DotServer req2)) of
             Inl e \<Rightarrow> Inl (500, e)
           | Inr dst \<Rightarrow>
               rbind (bad_request (map_sum fault_text (\<lambda>c. c) (buildTraceConfig w req2 (ps_method sel) dst dp (ps_dstPort sel)))) (\<lambda>config.
                 rbind (bad_request (NormalizeExplicitSourceConfig (ww_GOOS w) (ww_lookup w) (ww_addrs w) config)) (\<lambda>config.
                   Inr \<lparr>ex_Req = req2, ex_Target = target, ex_Protocol = ps_protocol sel, ex_DataProvider = dp,
                        ex_Method = ps_method sel, ex_IP = dst, ex_Config = config, ex_NeedsLeoWS = leo,
                        ex_PowProvider = TrimSpace (tq_PowProvider req2)\<rparr>))) = Inr x"
    using assms by (simp only: prepareTrace_def 1 2 rbind_simps bad_ok Let_def prod.case)
  obtain dst where 3: "ww_resolve w target (resolveTraceIPVersion req2) (ToLower (tq_DotServer req2)) = Inr dst"
  proof (cases "ww_resolve w target (resolveTraceIPVersion req2) (ToLower (tq_DotServer req2))")
    case (Inl e)
    then show ?thesis using r by (simp only: sum.case) simp
  qed (rule that)
  obtain c c' where "buildTraceConfig w req2 (ps_method sel) dst dp (ps_dstPort sel) = Inr c"
    "NormalizeExplicitSourceConfig (ww_GOOS w) (ww_lookup w) (ww_addrs w) c = Inr c'"
    and x: "\<lparr>ex_Req = req2, ex_Target = target, ex_Protocol = ps_protocol sel, ex_DataProvider = dp,
        ex_Method = ps_method sel, ex_IP = dst, ex_Config = c', ex_NeedsLeoWS = leo, ex_PowProvider = TrimSpace (tq_PowProvider req2)\<rparr> = x"
    using r by (simp only: 3 sum.case rbind_eq_Inr bad_request_Inr map_sum_Inr sum.inject) (elim exE conjE, rule that)
  then show thesis using that [of req1 sel c] 1 2 3 unfolding x [symmetric] by simp
qed

lemma deriveMaxAttempts_le:
  assumes "NumMeasurements c \<le> 256" "MaxAttempts c \<le> 256" "EnvMaxAttempts e \<le> 256"
  shows "MaxAttempts (deriveMaxAttempts e c) \<le> 256"
  using assms by (simp add: deriveMaxAttempts_def Let_def)

text \<open>C39. Whatever a browser asks for, the trace that is started has a sound configuration: its counts are positive, the type of service
  fits a byte, the packets have room for their headers, the destination is an address the resolver returned for the target in the
  family asked for, DN42 traces have DN42 data and no map. Beyond that the console checks no upper bound: after the preparation in
  \<open>Traceroute\<close> the configuration satisfies everything the tracers rely on (\<open>wf_config\<close>) exactly if the first hop is at most the last,
  the last at most 255, and the attempts derived for a hop are at most 256; for the last it is enough that the probes per hop and the
  attempts asked for and those of the environment are at most 256. Requests outside these bounds are accepted all the same
  (\<open>console_accepts_any_first_hop\<close>).\<close>

theorem web_config_sound:
  assumes "prepareTrace w req = Inr x"
  defines "c \<equiv> ex_Config x"
  shows "1 \<le> BeginHop c \<and> 1 \<le> MaxHops c \<and> 1 \<le> NumMeasurements c \<and> 1 \<le> ParallelRequests c \<and> 0 \<le> TOS c \<and> TOS c \<le> 255 \<and>
    packetSizeMinPayload (ex_Method x) (ex_IP x) \<le> PktSize c \<and> DstIP c = ex_IP x \<and>
    ww_resolve w (ex_Target x) (resolveTraceIPVersion (ex_Req x)) (ToLower (tq_DotServer (ex_Req x))) = Inr (ex_IP x) \<and>
    (DN42 c \<longrightarrow> ex_DataProvider x = ''DN42'' \<and> \<not> Maptrace c) \<and>
    (wf_config (prepared e (Config.truncate c)) \<longleftrightarrow>
       BeginHop c \<le> MaxHops c \<and> MaxHops c \<le> 255 \<and> MaxAttempts (prepared e (Config.truncate c)) \<le> 256) \<and>
    (NumMeasurements c \<le> 256 \<and> MaxAttempts c \<le> 256 \<and> EnvMaxAttempts e \<le> 256 \<longrightarrow>
       MaxAttempts (prepared e (Config.truncate c)) \<le> 256)"
proof -
  from assms(1) obtain req1 sel c0 where all: "normalizeTraceRequest req = Inr req1"
    "normalizeTarget (ww_parse w) (tq_Target req1) = Inr (ex_Target x)"
    "resolveTraceProtocol req1 = Inr sel" "ps_method sel = ex_Method x"
    "resolveTraceDataProvider (ww_EnvDataProvider w) req1 = (ex_DataProvider x, ex_NeedsLeoWS x, ex_Req x)"
    "ww_resolve w (ex_Target x) (resolveTraceIPVersion (ex_Req x)) (ToLower (tq_DotServer (ex_Req x))) = Inr (ex_IP x)"
    "buildTraceConfig w (ex_Req x) (ex_Method x) (ex_IP x) (ex_DataProvider x) (ps_dstPort sel) = Inr c0"
    "NormalizeExplicitSourceConfig (ww_GOOS w) (ww_lookup w) (ww_addrs w) c0 = Inr c"
    unfolding c_def by (rule prepareTrace_ok)
  note p = all(1,5-8)
  note b = buildTraceConfig_ok [OF p(4)] and f = resolveTraceDataProvider_frame [OF p(2)] and n = normalizeTraceRequest_ok [OF p(1)]
  have c: "c = c0\<lparr>SrcAddr := SrcAddr c, SourceDevice := SourceDevice c\<rparr>" by (rule source_normalized(1) [OF p(5)])
  have eq: "BeginHop c = BeginHop c0" "MaxHops c = MaxHops c0" "NumMeasurements c = NumMeasurements c0" "ParallelRequests c = ParallelRequests c0"
    "TOS c = TOS c0" "PktSize c = PktSize c0" "DstIP c = DstIP c0" "DN42 c = DN42 c0" "Maptrace c = Maptrace c0"
    by (subst c, simp)+
  have tos: "0 \<le> TOS c \<and> TOS c \<le> 255" using b f n eq(5) by (auto split: option.splits)
  let ?c = "Config.truncate c"
  let ?d = "normalizeICMPMode e (applyTracerouteDefaults (normalizeRuntimeConfig e ?c))"
  have t: "BeginHop ?c = BeginHop c" "MaxHops ?c = MaxHops c" "NumMeasurements ?c = NumMeasurements c" "MaxAttempts ?c = MaxAttempts c"
    by (simp_all add: Config.truncate_def)
  have pos: "1 \<le> BeginHop c" "1 \<le> MaxHops c" "1 \<le> NumMeasurements c" using b eq by simp_all
  have d: "BeginHop ?d = BeginHop c" "MaxHops ?d = MaxHops c" "NumMeasurements ?d = NumMeasurements c" "MaxAttempts ?d = MaxAttempts c"
    using pos t by (simp_all add: normalizeICMPMode_def applyTracerouteDefaults_def normalizeRuntimeConfig_def Let_def)
  have "BeginHop (deriveMaxAttempts e ?d) = BeginHop ?d" by (simp add: deriveMaxAttempts_def Let_def)
  then have "wf_config (prepared e ?c) \<longleftrightarrow> BeginHop c \<le> MaxHops c \<and> MaxHops c \<le> 255 \<and> MaxAttempts (prepared e ?c) \<le> 256"
    using pos d deriveMaxAttempts_ge [of ?d e] by (auto simp: wf_config_def prepared_def)
  moreover have "MaxAttempts (prepared e ?c) \<le> 256"
    if "NumMeasurements c \<le> 256" "MaxAttempts c \<le> 256" "EnvMaxAttempts e \<le> 256"
    unfolding prepared_def using that d by (intro deriveMaxAttempts_le) simp_all
  ultimately show ?thesis using b f p(3) tos eq by auto
qed

subsection \<open>Ports are stripped from targets\<close>

text \<open>Texts without separators and without the bytes that trimming may remove.\<close>

definition plain_text :: "string \<Rightarrow> bool" where
  "plain_text s = list_all (\<lambda>c. \<not> space_edge c \<and> c \<notin> {CHR ''['', CHR '']'', CHR ''/''}) s"

lemma plain_TrimSpace: "plain_text s \<Longrightarrow> TrimSpace s = s"
proof (cases s)
  case (Cons c t)
  assume "plain_text s"
  then have "\<not> space_edge (hd s)" "\<not> space_edge (last s)" using Cons by (auto simp: plain_text_def list_all_iff)
  then show ?thesis by (intro TrimSpace_id) simp
qed simp

lemma IndexByte_None: "c \<notin> set s \<Longrightarrow> IndexByte s c = None"
  by (auto simp: IndexByte_def find_None_iff)

lemma IndexByte_append: "c \<notin> set p \<Longrightarrow> IndexByte (p @ c # r) c = Some (length p)"
  unfolding IndexByte_def find_Some_iff
  by (intro exI [of _ "length p"]) (auto simp: nth_append in_set_conv_nth)

lemma LastIndexByte_append:
  assumes "c \<notin> set r"
  shows "LastIndexByte (p @ c # r) c = Some (length p)"
proof -
  let ?n = "length (p @ c # r)"
  have j: "rev [0..<?n] ! j = length p + length r - j" if "j \<le> length p + length r" for j
    using that by (simp add: rev_nth del: upt_Suc)
  have "(p @ c # r) ! (length p + length r - j) \<noteq> c" if "j < length r" for j
  proof -
    have a: "length p + length r - j = length p + Suc (length r - j - 1)" using that by simp
    have "(p @ c # r) ! (length p + length r - j) = r ! (length r - j - 1)" unfolding a nth_append_length_plus by simp
    then show ?thesis using assms that nth_mem [of "length r - j - 1" r] by auto
  qed
  then show ?thesis
    unfolding LastIndexByte_def find_Some_iff using j
    by (intro exI [of _ "length r"]) (simp del: upt_Suc)
qed

lemma last_colon: "c \<in> set s \<Longrightarrow> \<exists>p r. s = p @ c # r \<and> c \<notin> set r"
  by (metis split_list_last)

lemma normalizeTarget_plain:
  assumes "CHR ''/'' \<notin> set s" "s \<noteq> []" "TrimSpace s = s"
  shows "normalizeTarget parse s = Inr (TrimSpace (stripTargetPort s))"
proof -
  have "\<not> HasPrefix (drop i s) ''://''" for i
  proof
    assume "HasPrefix (drop i s) ''://''"
    then have "set ''://'' \<subseteq> set (drop i s)" unfolding HasPrefix_def by (metis set_take_subset)
    then show False using assms(1) set_drop_subset [of i s] by auto
  qed
  then have "\<not> has_scheme_mark s" by (simp add: has_scheme_mark_def list_ex_iff)
  then show ?thesis
    using assms by (simp add: normalizeTarget_def parseTargetURLHost_def extractTargetHost_def IndexByte_None Let_def)
qed

lemma strip_plain:
  assumes "CHR ''['' \<notin> set host" "count_list host CHR '':'' \<noteq> 1"
  shows "stripTargetPort host = host"
proof -
  have b: "bracketed host = None" using assms(1) by (simp add: bracketed_def IndexByte_None)
  have "split_host host = None"
  proof (cases "CHR '':'' \<in> set host")
    case False
    then have "LastIndexByte host CHR '':'' = None" by (auto simp: LastIndexByte_def find_None_iff) (metis nth_mem)
    then show ?thesis by (simp add: split_host_def)
  next
    case True
    then obtain p r where pr: "host = p @ CHR '':'' # r" "CHR '':'' \<notin> set r" using last_colon by metis
    have "count_list r CHR '':'' = 0" using pr(2) by (simp add: count_notin)
    then have "CHR '':'' \<in> set p" using assms(2) pr by (cases "CHR '':'' \<in> set p") (simp_all add: count_notin)
    moreover have "host ! 0 \<noteq> CHR ''[''" using assms(1) True by (cases host) auto
    ultimately show ?thesis
      using LastIndexByte_append [OF pr(2), of p] by (simp add: split_host_def Let_def pr(1) [symmetric]) (simp add: pr(1))
  qed
  then show ?thesis using b assms(2) by (simp add: stripTargetPort_def)
qed

lemma strip_host_port:
  assumes "CHR '':'' \<notin> set host" "CHR '':'' \<notin> set port" "CHR ''['' \<notin> set host \<union> set port" "CHR '']'' \<notin> set host \<union> set port" "host \<noteq> []"
  shows "stripTargetPort (host @ CHR '':'' # port) = host"
proof -
  have "(host @ CHR '':'' # port) ! 0 \<noteq> CHR ''[''" using assms(3,5) by (cases host) auto
  then have "split_host (host @ CHR '':'' # port) = Some host"
    using assms LastIndexByte_append [of "CHR '':''" port host] by (simp add: split_host_def Let_def)
  then show ?thesis by (simp add: stripTargetPort_def)
qed

lemma strip_brackets:
  assumes "CHR '':'' \<in> set host" "CHR '']'' \<notin> set host"
  shows "stripTargetPort (CHR ''['' # host @ '']'') = host"
proof -
  obtain p r where pr: "host = p @ CHR '':'' # r" "CHR '':'' \<notin> set r" using last_colon [OF assms(1)] by metis
  have l: "LastIndexByte (CHR ''['' # host @ '']'') CHR '':'' = Some (Suc (length p))"
    using LastIndexByte_append [of "CHR '':''" "r @ '']''" "CHR ''['' # p"] pr by simp
  have i: "IndexByte (CHR ''['' # host @ '']'') CHR '']'' = Some (Suc (length host))"
    using IndexByte_append [of "CHR '']''" "CHR ''['' # host" "[]"] assms(2) by simp
  have o: "IndexByte (CHR ''['' # host @ '']'') CHR ''['' = Some 0"
    using IndexByte_append [of "CHR ''[''" "[]" "host @ '']''"] by simp
  have "split_host (CHR ''['' # host @ '']'') = None"
    using l i pr(1) by (simp add: split_host_def)
  moreover have "bracketed (CHR ''['' # host @ '']'') = Some host"
    using i o pr(1) by (simp add: bracketed_def)
  ultimately show ?thesis by (simp add: stripTargetPort_def)
qed

lemma strip_brackets_port:
  assumes "CHR '':'' \<notin> set port" "CHR ''['' \<notin> set host \<union> set port" "CHR '']'' \<notin> set host \<union> set port"
  shows "stripTargetPort (CHR ''['' # host @ '']:'' @ port) = host"
proof -
  have l: "LastIndexByte (CHR ''['' # host @ '']:'' @ port) CHR '':'' = Some (Suc (Suc (length host)))"
    using LastIndexByte_append [of "CHR '':''" port "CHR ''['' # host @ '']''"] assms(1) by simp
  have i: "IndexByte (CHR ''['' # host @ '']:'' @ port) CHR '']'' = Some (Suc (length host))"
    using IndexByte_append [of "CHR '']''" "CHR ''['' # host" "CHR '':'' # port"] assms(3) by simp
  have "split_host (CHR ''['' # host @ '']:'' @ port) = Some host"
    using l i assms(2,3) by (simp add: split_host_def)
  then show ?thesis by (simp add: stripTargetPort_def)
qed

text \<open>The port of a target is stripped and nothing else: a host name or IPv4 address with or without a port, and an IPv6 address bare, in
  brackets, or in brackets with a port, all give the host itself.\<close>

theorem target_stripped:
  assumes "plain_text host" "plain_text port" "host \<noteq> []" "CHR '':'' \<notin> set port"
  shows "(CHR '':'' \<notin> set host \<longrightarrow> normalizeTarget parse host = Inr host \<and> normalizeTarget parse (host @ '':'' @ port) = Inr host) \<and>
    (2 \<le> count_list host CHR '':'' \<longrightarrow> normalizeTarget parse host = Inr host \<and>
       normalizeTarget parse (''['' @ host @ '']'') = Inr host \<and> normalizeTarget parse (''['' @ host @ '']:'' @ port) = Inr host)"
proof -
  have h: "CHR ''['' \<notin> set host" "CHR '']'' \<notin> set host" "CHR ''/'' \<notin> set host" "\<forall>c\<in>set host. \<not> space_edge c"
    and p: "CHR ''['' \<notin> set port" "CHR '']'' \<notin> set port" "CHR ''/'' \<notin> set port" "\<forall>c\<in>set port. \<not> space_edge c"
    using assms(1,2) by (auto simp: plain_text_def list_all_iff)
  have sep: "\<not> space_edge CHR '':''" "\<not> space_edge CHR ''[''" "\<not> space_edge CHR '']''" by (simp_all add: space_edge_def)
  have trim: "TrimSpace s = s" if "\<forall>c\<in>set s. \<not> space_edge c" for s
    using that by (intro TrimSpace_id) (cases s; auto)
  have n: "normalizeTarget parse s = Inr (TrimSpace (stripTargetPort s))" if "s \<noteq> []" "CHR ''/'' \<notin> set s" "\<forall>c\<in>set s. \<not> space_edge c" for s
    using normalizeTarget_plain that trim by blast
  have t: "TrimSpace host = host" using trim h(4) .
  have 1: "normalizeTarget parse host = Inr host" if "count_list host CHR '':'' \<noteq> 1"
    using n [of host] strip_plain [OF h(1) that] assms(3) h t by simp
  have 2: "normalizeTarget parse (host @ '':'' @ port) = Inr host" if "CHR '':'' \<notin> set host"
    using n [of "host @ '':'' @ port"] strip_host_port [OF that assms(4)] h p sep assms(3) t by auto
  have 3: "normalizeTarget parse (''['' @ host @ '']'') = Inr host" "normalizeTarget parse (''['' @ host @ '']:'' @ port) = Inr host"
    if "2 \<le> count_list host CHR '':''"
  proof -
    have c: "CHR '':'' \<in> set host" using that by (metis count_notin not_numeral_le_zero)
    show "normalizeTarget parse (''['' @ host @ '']'') = Inr host"
      using n [of "''['' @ host @ '']''"] strip_brackets [OF c h(2)] h sep t by auto
    show "normalizeTarget parse (''['' @ host @ '']:'' @ port) = Inr host"
      using n [of "''['' @ host @ '']:'' @ port"] strip_brackets_port [OF assms(4), of host] h p sep t by auto
  qed
  show ?thesis using 1 2 3 by (auto simp: count_notin)
qed

text \<open>A concrete request: all defaults, for an IPv4 literal.\<close>

definition demo_world :: web_world where
  "demo_world = \<lparr>ww_resolve = \<lambda>t v d. Inr [192, 0, 2, 1], ww_parse = \<lambda>u. Inl u, ww_lookup = \<lambda>d. Inr None, ww_addrs = \<lambda>d. Inr [],
     ww_client = \<lambda>p d a ip t l m. Inr None, ww_tokened = False, ww_EnvDataProvider = [], ww_GOOS = ''linux''\<rparr>"

definition demo_request :: traceRequest where
  "demo_request = \<lparr>tq_Target = ''192.0.2.1'', tq_Protocol = [], tq_Port = 0, tq_Queries = 0, tq_MaxHops = 0, tq_TimeoutMs = 0,
     tq_PacketSize = None, tq_TOS = None, tq_ParallelRequests = 0, tq_BeginHop = 0, tq_IPv4Only = False, tq_IPv6Only = False,
     tq_DataProvider = [], tq_PowProvider = [], tq_DotServer = [], tq_DisableRDNS = False, tq_AlwaysRDNS = False,
     tq_DisableMaptrace = False, tq_DisableMPLS = False, tq_Language = [], tq_DN42 = False, tq_SourceAddress = [], tq_SourcePort = 0,
     tq_SourceDevice = [], tq_ICMPMode = 0, tq_PacketInterval = 0, tq_TTLInterval = 0, tq_MaxAttempts = 0, tq_AlwaysWaitRDNS = False,
     tq_Maptrace = None, tq_LanguageOverride = [], tq_DataProviderAlias = [], tq_Mode = [], tq_IntervalMs = 0, tq_HopIntervalMs = 0,
     tq_MaxRounds = 0\<rparr>"

lemma demo_prepared_from:
  "\<exists>x. prepareTrace demo_world (demo_request\<lparr>tq_BeginHop := b\<rparr>) = Inr x \<and> BeginHop (ex_Config x) = positive_or b 1 \<and> MaxHops (ex_Config x) = 30 \<and>
     NumMeasurements (ex_Config x) = 3 \<and> MaxAttempts (ex_Config x) = 0"
proof -
  let ?req = "demo_request\<lparr>tq_BeginHop := b\<rparr>"
  have n: "normalizeTraceRequest ?req = Inr ?req"
    by (simp add: normalizeTraceRequest_def demo_request_def ToLower_def)
  have t: "normalizeTarget (ww_parse demo_world) (tq_Target ?req) = Inr ''192.0.2.1''"
    using normalizeTarget_plain [of "''192.0.2.1''"] strip_plain [of "''192.0.2.1''"] TrimSpace_id [of "''192.0.2.1''"]
    by (simp add: demo_request_def space_edge_def)
  have p: "resolveTraceProtocol ?req = Inr \<lparr>ps_protocol = ''icmp'', ps_method = ICMPTrace, ps_dstPort = 0\<rparr>"
  proof -
    have "ToLower (tq_Protocol ?req) = []" "TrimSpace (tq_Protocol ?req) = []" "tq_Port ?req = 0"
      by (simp_all add: demo_request_def ToLower_def)
    moreover have "contains_fold supportedProtocols ''icmp''" by code_simp
    ultimately show ?thesis by (simp add: resolveTraceProtocol_def ToLower_def)
  qed
  have d: "resolveTraceDataProvider (ww_EnvDataProvider demo_world) ?req = (''LeoMoeAPI'', True, ?req)"
  proof -
    have "EqualFold ''LeoMoeAPI'' ''leomoeapi''" "\<not> EqualFold ''LeoMoeAPI'' ''dn42''" by code_simp+
    then show ?thesis
      by (simp add: demo_world_def resolveTraceDataProvider_def demo_request_def normalizeDataProvider_def)
  qed
  have s: "NormalizePacketSize ICMPTrace [192, 0, 2, 1] (DefaultPacketSize ICMPTrace [192, 0, 2, 1]) = Inr \<lparr>PayloadSize = 0, Random = False\<rparr>"
    by code_simp
  show ?thesis
    unfolding prepareTrace_def n t p d rbind_simps bad_request_def
    by (simp add: demo_world_def demo_request_def buildTraceConfig_def s positive_or_def NormalizeExplicitSourceConfig_def Let_def)
qed

lemma demo_prepared:
  "\<exists>x. prepareTrace demo_world demo_request = Inr x \<and> BeginHop (ex_Config x) = 1 \<and> MaxHops (ex_Config x) = 30 \<and>
     NumMeasurements (ex_Config x) = 3 \<and> MaxAttempts (ex_Config x) = 0"
proof -
  have "demo_request\<lparr>tq_BeginHop := 0\<rparr> = demo_request" by (simp add: demo_request_def)
  then show ?thesis using demo_prepared_from [of 0] by (simp add: positive_or_def)
qed

text \<open>A first hop beyond the last is accepted (and the tracer then panics: \<open>begin_beyond_max_panics\<close>).\<close>

lemma console_accepts_any_first_hop:
  "\<exists>x. prepareTrace demo_world (demo_request\<lparr>tq_BeginHop := 40\<rparr>) = Inr x \<and> MaxHops (ex_Config x) < BeginHop (ex_Config x)"
  using demo_prepared_from [of 40] by (auto simp: positive_or_def)

lemma web_config_sound_witness:
  "\<exists>x. prepareTrace demo_world demo_request = Inr x \<and> wf_config (prepared sample_env (Config.truncate (ex_Config x)))"
proof -
  obtain x where x: "prepareTrace demo_world demo_request = Inr x" "BeginHop (ex_Config x) = 1" "MaxHops (ex_Config x) = 30"
    "NumMeasurements (ex_Config x) = 3" "MaxAttempts (ex_Config x) = 0"
    using demo_prepared by blast
  then show ?thesis using web_config_sound [OF x(1), of sample_env] by (simp add: sample_env_def)
qed

text \<open>Every provider on offer in the console has a client of its own; only LeoMoeAPI is also the answer to unknown names.\<close>

definition dataProviders :: "string list" where
  "dataProviders = [''LeoMoeAPI'', ''IP.SB'', ''IPInsight'', ''IPInfo'', ''IPInfoLocal'', ''ip-api.com'', ''chunzhen'', ''DN42'', ''disable-geoip'', ''ipdb.one'']"

lemma offered_providers:
  "map (\<lambda>p. GetSource False (normalizeDataProvider p [])) dataProviders =
     [P_LeoWebSocket, P_IPSB, P_IPInSight, P_IPInfo, P_IPInfoLocal, P_IPApiCom, P_Chunzhen, P_DN42, P_Disabled, P_IPDBOne]"
proof -
  have t: "TrimSpace ''LeoMoeAPI'' = ''LeoMoeAPI''" "TrimSpace ''IP.SB'' = ''IP.SB''" "TrimSpace ''IPInsight'' = ''IPInsight''"
    "TrimSpace ''IPInfo'' = ''IPInfo''" "TrimSpace ''IPInfoLocal'' = ''IPInfoLocal''" "TrimSpace ''ip-api.com'' = ''ip-api.com''"
    "TrimSpace ''chunzhen'' = ''chunzhen''" "TrimSpace ''DN42'' = ''DN42''" "TrimSpace ''disable-geoip'' = ''disable-geoip''"
    "TrimSpace ''ipdb.one'' = ''ipdb.one''"
    by (rule TrimSpace_id; simp add: space_edge_def)+
  have u: "ToUpper ''LeoMoeAPI'' = ''LEOMOEAPI''" "ToUpper ''IP.SB'' = ''IP.SB''" "ToUpper ''IPInsight'' = ''IPINSIGHT''"
    "ToUpper ''IPInfo'' = ''IPINFO''" "ToUpper ''IPInfoLocal'' = ''IPINFOLOCAL''" "ToUpper ''ip-api.com'' = ''IP-API.COM''"
    "ToUpper ''chunzhen'' = ''CHUNZHEN''" "ToUpper ''DN42'' = ''DN42''" "ToUpper ''disable-geoip'' = ''DISABLE-GEOIP''"
    "ToUpper ''ipdb.one'' = ''IPDB.ONE''" "ToUpper ''IPAPI.com'' = ''IPAPI.COM''"
    by code_simp+
  have n: "normalizeDataProvider p [] = (if p = ''ip-api.com'' then ''IPAPI.com'' else p)" if "p \<in> set dataProviders" for p
    using that unfolding dataProviders_def
    by (simp only: set_simps insert_iff empty_iff) (elim disjE; simp add: normalizeDataProvider_def Let_def t u del: ToUpper.simps)
  have g: "GetSource False ''LeoMoeAPI'' = P_LeoWebSocket" "GetSource False ''IP.SB'' = P_IPSB" "GetSource False ''IPInsight'' = P_IPInSight"
    "GetSource False ''IPInfo'' = P_IPInfo" "GetSource False ''IPInfoLocal'' = P_IPInfoLocal" "GetSource False ''IPAPI.com'' = P_IPApiCom"
    "GetSource False ''chunzhen'' = P_Chunzhen" "GetSource False ''DN42'' = P_DN42" "GetSource False ''disable-geoip'' = P_Disabled"
    "GetSource False ''ipdb.one'' = P_IPDBOne"
    by (simp_all add: GetSource_def LeoMoeAPISource_def Let_def u del: ToUpper.simps)
  have "map (\<lambda>p. GetSource False (normalizeDataProvider p [])) dataProviders =
      map (\<lambda>p. GetSource False (if p = ''ip-api.com'' then ''IPAPI.com'' else p)) dataProviders"
    using n by (intro map_cong) auto
  then show ?thesis by (simp add: dataProviders_def g)
qed

lemma target_stripped_witness:
  "normalizeTarget (\<lambda>u. Inl u) ''[2001:db8::1]:443'' = Inr ''2001:db8::1'' \<and> normalizeTarget (\<lambda>u. Inl u) ''nxtrace.org:80'' = Inr ''nxtrace.org''"
  using target_stripped [of "''2001:db8::1''" "''443''" "\<lambda>u. Inl u"] target_stripped [of "''nxtrace.org''" "''80''" "\<lambda>u. Inl u"]
  by (simp add: plain_text_def space_edge_def)

end
