(* ===== verification/Ws_Session.thy ===== *)
theory Ws_Session
  imports Web_Trace Mtr_Raw
begin

section \<open>The WebSocket session of the web console\<close>

text \<open>
  \<open>server/ws_handler.go\<close>: \<open>wsTraceSession\<close> passes the messages of a running trace to a browser. Any number of goroutines call \<open>send\<close>
  and \<open>closeWithCode\<close>, one loop writes to the connection, and the handler calls \<open>finish\<close> at its end. Each lock, channel
  operation, atomic access and call of the connection is one step, so that the theorems hold for every interleaving. The fields
  \<open>ss_accepted\<close> and \<open>ss_written\<close> are ghosts: the messages \<open>send\<close> took and those the connection was given. \<open>ss_mu\<close> and \<open>ss_once\<close> also
  record who is inside.
\<close>

subsection \<open>The state\<close>

text \<open>The payloads the console sends; \<open>StartData\<close> and \<open>IterationData\<close> are the two literal JSON objects.\<close>

datatype ws_data =
    NoData
  | StartData string string string string string
  | HopData hopResponse
  | TraceData traceResponse
  | RawData MTRRawRecord
  | IterationData int

record wsEnvelope =
  we_Type :: string
  we_Data :: ws_data
  we_Error :: string
  we_Status :: int

definition envelope :: "string \<Rightarrow> ws_data \<Rightarrow> wsEnvelope" where
  "envelope t d = \<lparr>we_Type = t, we_Data = d, we_Error = [], we_Status = 0\<rparr>"

datatype agent = A_Thread nat | A_Writer | A_Finish

text \<open>The positions in \<open>closeWithCode\<close>: setting \<open>closed\<close>, entering \<open>closeOnce\<close>, closing \<open>stopCh\<close>, closing the connection.\<close>

datatype abort_pc = K_Store | K_Once | K_Stop | K_Conn | K_End

datatype thread_pc = T_Idle | T_Lock wsEnvelope | T_Locked wsEnvelope | T_Checked wsEnvelope | T_Close abort_pc | T_Unlock | T_Kill abort_pc

datatype session_writer_pc = W_Select | W_Write wsEnvelope | W_Close abort_pc | W_Returned | W_Done

datatype finish_pc = F_Idle | F_Lock | F_Swap | F_CloseCh | F_Unlock | F_Wait | F_Once | F_Conn | F_Over

datatype once = Once_Fresh | Once_Running agent | Once_Done

record ws_session =
  ss_cap :: nat
  ss_queue :: "wsEnvelope list"
  ss_sendClosed :: bool
  ss_stopClosed :: bool
  ss_writerDone :: bool
  ss_closed :: bool
  ss_once :: once
  ss_connClosed :: bool
  ss_mu :: "agent option"
  ss_thread :: "nat \<Rightarrow> thread_pc"
  ss_loop :: session_writer_pc
  ss_finish :: finish_pc
  ss_panic :: bool
  ss_accepted :: "wsEnvelope list"
  ss_written :: "wsEnvelope list"

definition wsSendQueueSize :: int where "wsSendQueueSize = 1024"

definition newWSTraceSession :: "int \<Rightarrow> ws_session" where
  "newWSTraceSession queueSize =
     \<lparr>ss_cap = nat (if queueSize \<le> 0 then wsSendQueueSize else queueSize), ss_queue = [], ss_sendClosed = False, ss_stopClosed = False,
      ss_writerDone = False, ss_closed = False, ss_once = Once_Fresh, ss_connClosed = False, ss_mu = None, ss_thread = (\<lambda>t. T_Idle),
      ss_loop = W_Select, ss_finish = F_Idle, ss_panic = False, ss_accepted = [], ss_written = []\<rparr>"

subsection \<open>The steps\<close>

text \<open>A step of \<open>closeWithCode\<close> by one agent; \<open>None\<close> while another one is inside \<open>closeOnce\<close>.\<close>

fun closeWithCode :: "agent \<Rightarrow> abort_pc \<Rightarrow> ws_session \<Rightarrow> (abort_pc \<times> ws_session) option" where
  "closeWithCode a K_Store s = Some (K_Once, s\<lparr>ss_closed := True\<rparr>)"
| "closeWithCode a K_Once s =
     (case ss_once s of
        Once_Fresh \<Rightarrow> Some (K_Stop, s\<lparr>ss_once := Once_Running a\<rparr>)
      | Once_Running b \<Rightarrow> None
      | Once_Done \<Rightarrow> Some (K_End, s))"
| "closeWithCode a K_Stop s = Some (K_Conn, if ss_stopClosed s then s\<lparr>ss_panic := True\<rparr> else s\<lparr>ss_stopClosed := True\<rparr>)"
| "closeWithCode a K_Conn s = Some (K_End, s\<lparr>ss_connClosed := True, ss_once := Once_Done\<rparr>)"
| "closeWithCode a K_End s = None"

definition set_thread :: "nat \<Rightarrow> thread_pc \<Rightarrow> ws_session \<Rightarrow> ws_session" where
  "set_thread t pc s = s\<lparr>ss_thread := (ss_thread s)(t := pc)\<rparr>"

text \<open>\<open>send\<close>, and \<open>closeWithCode\<close> called by the goroutine that notices that the browser is gone.\<close>

fun thread_exec :: "nat \<Rightarrow> thread_pc \<Rightarrow> ws_session \<Rightarrow> ws_session option" where
  "thread_exec t T_Idle s = None"
| "thread_exec t (T_Lock m) s = (if ss_mu s = None then Some (set_thread t (T_Locked m) (s\<lparr>ss_mu := Some (A_Thread t)\<rparr>)) else None)"
| "thread_exec t (T_Locked m) s = Some (set_thread t (if ss_closed s then T_Unlock else T_Checked m) s)"
| "thread_exec t (T_Checked m) s =
     (if ss_sendClosed s then Some (set_thread t T_Unlock (s\<lparr>ss_panic := True\<rparr>))
      else if length (ss_queue s) < ss_cap s
        then Some (set_thread t T_Unlock (s\<lparr>ss_queue := ss_queue s @ [m], ss_accepted := ss_accepted s @ [m]\<rparr>))
      else Some (set_thread t (T_Close K_Store) s))"
| "thread_exec t (T_Close k) s =
     (if k = K_End then Some (set_thread t T_Unlock s) else map_option (\<lambda>(k, s). set_thread t (T_Close k) s) (closeWithCode (A_Thread t) k s))"
| "thread_exec t T_Unlock s = Some (set_thread t T_Idle (s\<lparr>ss_mu := None\<rparr>))"
| "thread_exec t (T_Kill k) s =
     (if k = K_End then Some (set_thread t T_Idle s) else map_option (\<lambda>(k, s). set_thread t (T_Kill k) s) (closeWithCode (A_Thread t) k s))"

text \<open>\<open>writeLoop\<close>. Its \<open>select\<close> may take either ready case: \<open>stop\<close> is the choice of \<open>stopCh\<close>. \<open>ok\<close> says whether the connection took
  the message; a panic in \<open>WriteJSON\<close> leads through the deferred functions to the same call of \<open>closeWithCode\<close>.\<close>

fun session_writeLoop :: "bool \<Rightarrow> bool \<Rightarrow> session_writer_pc \<Rightarrow> ws_session \<Rightarrow> ws_session option" where
  "session_writeLoop stop ok W_Select s =
     (if stop then (if ss_stopClosed s then Some (s\<lparr>ss_loop := W_Returned\<rparr>) else None)
      else case ss_queue s of
             m # q \<Rightarrow> Some (s\<lparr>ss_queue := q, ss_loop := W_Write m\<rparr>)
           | [] \<Rightarrow> if ss_sendClosed s then Some (s\<lparr>ss_loop := W_Returned\<rparr>) else None)"
| "session_writeLoop stop ok (W_Write m) s =
     Some (if ok then s\<lparr>ss_written := ss_written s @ [m], ss_loop := W_Select\<rparr> else s\<lparr>ss_loop := W_Close K_Store\<rparr>)"
| "session_writeLoop stop ok (W_Close k) s =
     (if k = K_End then Some (s\<lparr>ss_loop := W_Returned\<rparr>) else map_option (\<lambda>(k, s). s\<lparr>ss_loop := W_Close k\<rparr>) (closeWithCode A_Writer k s))"
| "session_writeLoop stop ok W_Returned s = Some (s\<lparr>ss_writerDone := True, ss_loop := W_Done\<rparr>)"
| "session_writeLoop stop ok W_Done s = None"

text \<open>\<open>finish\<close>, the deferred call of the handler.\<close>

fun session_finish :: "finish_pc \<Rightarrow> ws_session \<Rightarrow> ws_session option" where
  "session_finish F_Idle s = Some (s\<lparr>ss_finish := F_Lock\<rparr>)"
| "session_finish F_Lock s = (if ss_mu s = None then Some (s\<lparr>ss_mu := Some A_Finish, ss_finish := F_Swap\<rparr>) else None)"
| "session_finish F_Swap s = Some (s\<lparr>ss_closed := True, ss_finish := (if ss_closed s then F_Unlock else F_CloseCh)\<rparr>)"
| "session_finish F_CloseCh s = Some ((if ss_sendClosed s then s\<lparr>ss_panic := True\<rparr> else s\<lparr>ss_sendClosed := True\<rparr>)\<lparr>ss_finish := F_Unlock\<rparr>)"
| "session_finish F_Unlock s = Some (s\<lparr>ss_mu := None, ss_finish := F_Wait\<rparr>)"
| "session_finish F_Wait s = (if ss_writerDone s then Some (s\<lparr>ss_finish := F_Once\<rparr>) else None)"
| "session_finish F_Once s =
     (case ss_once s of
        Once_Fresh \<Rightarrow> Some (s\<lparr>ss_once := Once_Running A_Finish, ss_finish := F_Conn\<rparr>)
      | Once_Running b \<Rightarrow> None
      | Once_Done \<Rightarrow> Some (s\<lparr>ss_finish := F_Over\<rparr>))"
| "session_finish F_Conn s = Some (s\<lparr>ss_connClosed := True, ss_once := Once_Done, ss_finish := F_Over\<rparr>)"
| "session_finish F_Over s = None"

datatype session_label = Send nat wsEnvelope | Disconnect nat | Thread nat | Loop bool bool | Finish

fun session_exec :: "session_label \<Rightarrow> ws_session \<Rightarrow> ws_session option" where
  "session_exec (Send t m) s = (if ss_thread s t = T_Idle then Some (set_thread t (T_Lock m) s) else None)"
| "session_exec (Disconnect t) s = (if ss_thread s t = T_Idle then Some (set_thread t (T_Kill K_Store) s) else None)"
| "session_exec (Thread t) s = thread_exec t (ss_thread s t) s"
| "session_exec (Loop stop ok) s = session_writeLoop stop ok (ss_loop s) s"
| "session_exec Finish s = session_finish (ss_finish s) s"

definition session_step :: "ws_session \<Rightarrow> ws_session \<Rightarrow> bool" where
  "session_step = exec_step session_exec"

subsection \<open>Who is where\<close>

fun inside_send :: "thread_pc \<Rightarrow> bool" where
  "inside_send T_Idle = False"
| "inside_send (T_Lock m) = False"
| "inside_send (T_Kill k) = False"
| "inside_send pc = True"

fun inside_finish :: "finish_pc \<Rightarrow> bool" where
  "inside_finish F_Swap = True"
| "inside_finish F_CloseCh = True"
| "inside_finish F_Unlock = True"
| "inside_finish pc = False"

fun thread_closing :: "thread_pc \<Rightarrow> abort_pc option" where
  "thread_closing (T_Close k) = Some k"
| "thread_closing (T_Kill k) = Some k"
| "thread_closing pc = None"

fun loop_closing :: "session_writer_pc \<Rightarrow> abort_pc option" where
  "loop_closing (W_Close k) = Some k"
| "loop_closing pc = None"

primrec closing :: "agent \<Rightarrow> ws_session \<Rightarrow> abort_pc option" where
  "closing (A_Thread t) s = thread_closing (ss_thread s t)"
| "closing A_Writer s = loop_closing (ss_loop s)"
| "closing A_Finish s = (if ss_finish s = F_Conn then Some K_Conn else None)"

text \<open>The lock is held by the one goroutine inside \<open>send\<close> or by \<open>finish\<close>.\<close>

primrec holding :: "agent \<Rightarrow> ws_session \<Rightarrow> bool" where
  "holding (A_Thread t) s = inside_send (ss_thread s t)"
| "holding A_Writer s = False"
| "holding A_Finish s = inside_finish (ss_finish s)"

definition inv_mu :: "ws_session \<Rightarrow> bool" where
  "inv_mu s \<longleftrightarrow> (\<forall>a. holding a s \<longleftrightarrow> ss_mu s = Some a)"

text \<open>\<open>closeOnce\<close> runs for one agent, and its function sees an open \<open>stopCh\<close>.\<close>

fun in_once :: "abort_pc option \<Rightarrow> bool" where
  "in_once (Some K_Stop) = True"
| "in_once (Some K_Conn) = True"
| "in_once k = False"

definition inv_once :: "ws_session \<Rightarrow> bool" where
  "inv_once s \<longleftrightarrow> (\<forall>a. (in_once (closing a s) \<longleftrightarrow> ss_once s = Once_Running a) \<and>
       (closing a s = Some K_Stop \<longrightarrow> \<not> ss_stopClosed s) \<and> (closing a s = Some K_Conn \<longrightarrow> ss_stopClosed s \<or> a = A_Finish) \<and>
       (closing a s = Some K_End \<longrightarrow> ss_once s = Once_Done)) \<and>
     (ss_once s = Once_Fresh \<longrightarrow> \<not> ss_stopClosed s) \<and>
     (ss_once s = Once_Done \<longrightarrow> ss_connClosed s \<and> (ss_stopClosed s \<or> ss_finish s = F_Over))"

text \<open>The send channel is closed by \<open>finish\<close> only, under the lock.\<close>

definition inv_send :: "ws_session \<Rightarrow> bool" where
  "inv_send s \<longleftrightarrow> (ss_sendClosed s \<longrightarrow> ss_closed s \<and> ss_finish s \<in> {F_Unlock, F_Wait, F_Once, F_Conn, F_Over}) \<and>
     (\<forall>t m. ss_thread s t = T_Checked m \<longrightarrow> \<not> ss_sendClosed s) \<and> \<not> ss_panic s"

text \<open>Who set \<open>closed\<close> without closing the send channel will close \<open>stopCh\<close>.\<close>

definition to_stop :: "abort_pc option \<Rightarrow> bool" where
  "to_stop k \<longleftrightarrow> k = Some K_Once \<or> k = Some K_Stop"

definition inv_stop :: "ws_session \<Rightarrow> bool" where
  "inv_stop s \<longleftrightarrow> (ss_closed s \<and> \<not> ss_sendClosed s \<longrightarrow> ss_stopClosed s \<or> ss_finish s = F_CloseCh \<or> (\<exists>a. to_stop (closing a s))) \<and>
     (ss_finish s \<in> {F_CloseCh, F_Unlock, F_Wait, F_Once, F_Conn, F_Over} \<longrightarrow> ss_closed s)"

text \<open>Messages are written in the order they were accepted; only a failed write loses one. The loop ends when \<open>stopCh\<close> is closed or
  everything is written, and \<open>finish\<close> waits for it.\<close>

primrec in_flight :: "session_writer_pc \<Rightarrow> wsEnvelope list \<Rightarrow> bool" where
  "in_flight W_Select l \<longleftrightarrow> l = []"
| "in_flight (W_Write m) l \<longleftrightarrow> l = [m]"
| "in_flight (W_Close k) l \<longleftrightarrow> length l \<le> 1"
| "in_flight W_Returned l \<longleftrightarrow> length l \<le> 1"
| "in_flight W_Done l \<longleftrightarrow> length l \<le> 1"

definition inv_order :: "ws_session \<Rightarrow> bool" where
  "inv_order s \<longleftrightarrow> (\<exists>l. in_flight (ss_loop s) l \<and> ss_accepted s = ss_written s @ l @ ss_queue s) \<and>
     (ss_loop s = W_Returned \<or> ss_loop s = W_Done \<longrightarrow> ss_stopClosed s \<or> ss_sendClosed s \<and> ss_accepted s = ss_written s) \<and>
     (ss_writerDone s \<longleftrightarrow> ss_loop s = W_Done) \<and> (ss_finish s \<in> {F_Once, F_Conn, F_Over} \<longrightarrow> ss_writerDone s) \<and>
     (ss_finish s = F_Over \<longrightarrow> ss_once s = Once_Done \<and> ss_connClosed s)"

subsection \<open>Every step keeps the invariants\<close>

lemma agent_all: "(\<forall>a. P a) \<longleftrightarrow> (\<forall>t. P (A_Thread t)) \<and> P A_Writer \<and> P A_Finish"
  by (metis agent.exhaust)

fun_cases closeWithCode_SomeE: "closeWithCode a k s = Some r"
fun_cases thread_exec_SomeE: "thread_exec t pc s = Some s'"
fun_cases writeLoop_SomeE: "session_writeLoop stop ok pc s = Some s'"
fun_cases session_finish_SomeE: "session_finish pc s = Some s'"
fun_cases session_exec_SomeE: "session_exec l s = Some s'"

lemmas session_elims = session_exec_SomeE thread_exec_SomeE writeLoop_SomeE session_finish_SomeE closeWithCode_SomeE



text \<open>What \<open>closeWithCode\<close> leaves alone.\<close>

lemma closeWithCode_frame:
  assumes "closeWithCode a k s = Some (k', s')"
  shows "ss_cap s' = ss_cap s \<and> ss_queue s' = ss_queue s \<and> ss_sendClosed s' = ss_sendClosed s \<and> ss_writerDone s' = ss_writerDone s \<and>
    ss_mu s' = ss_mu s \<and> ss_thread s' = ss_thread s \<and> ss_loop s' = ss_loop s \<and> ss_finish s' = ss_finish s \<and>
    ss_accepted s' = ss_accepted s \<and> ss_written s' = ss_written s"
  using assms by (cases k) (auto split: once.splits if_splits)

lemma mu_put:
  assumes "inv_mu s" "ss_thread s' = (ss_thread s)(t := pc)" "ss_finish s' = ss_finish s" "ss_mu s' = ss_mu s"
    "inside_send pc = inside_send (ss_thread s t)"
  shows "inv_mu s'"
  using assms by (auto simp: inv_mu_def agent_all)

lemma mu_take: "inv_mu s \<Longrightarrow> ss_mu s = None \<Longrightarrow> inside_send pc \<Longrightarrow> inv_mu (set_thread t pc (s\<lparr>ss_mu := Some (A_Thread t)\<rparr>))"
  by (auto simp: inv_mu_def agent_all set_thread_def)

lemma mu_drop: "inv_mu s \<Longrightarrow> inside_send (ss_thread s t) \<Longrightarrow> \<not> inside_send pc \<Longrightarrow> inv_mu (set_thread t pc (s\<lparr>ss_mu := None\<rparr>))"
  by (auto simp: inv_mu_def agent_all set_thread_def)

lemma mu_thread:
  assumes e: "thread_exec t (ss_thread s t) s = Some s'" and i: "inv_mu s"
  shows "inv_mu s'"
proof (cases "ss_thread s t")
  case (T_Lock m)
  then show ?thesis using e by (auto split: if_splits intro: mu_take[OF i])
next
  case T_Unlock
  then show ?thesis using e mu_drop[OF i, of t T_Idle] by simp
next
  case (T_Close k)
  show ?thesis
  proof (cases "k = K_End")
    case True
    then show ?thesis using e T_Close mu_put[OF i, of s' t T_Unlock] by (auto simp: set_thread_def)
  next
    case False
    then obtain k' s'' where "closeWithCode (A_Thread t) k s = Some (k', s'')" "s' = set_thread t (T_Close k') s''"
      using e T_Close by auto
    then show ?thesis using closeWithCode_frame[of "A_Thread t" k s k' s''] T_Close mu_put[OF i, of s' t "T_Close k'"] by (simp add: set_thread_def)
  qed
next
  case (T_Kill k)
  show ?thesis
  proof (cases "k = K_End")
    case True
    then show ?thesis using e T_Kill mu_put[OF i, of s' t T_Idle] by (auto simp: set_thread_def)
  next
    case False
    then obtain k' s'' where "closeWithCode (A_Thread t) k s = Some (k', s'')" "s' = set_thread t (T_Kill k') s''"
      using e T_Kill by auto
    then show ?thesis using closeWithCode_frame[of "A_Thread t" k s k' s''] T_Kill mu_put[OF i, of s' t "T_Kill k'"] by (simp add: set_thread_def)
  qed
next
  case (T_Checked m)
  then show ?thesis using e
    by (auto split: if_splits intro!: mu_put[OF i, of _ t] simp: set_thread_def)
next
  case (T_Locked m)
  then show ?thesis using e
    by (auto split: if_splits intro!: mu_put[OF i, of _ t] simp: set_thread_def)
qed (use e in simp)

lemma mu_step: "session_exec l s = Some s' \<Longrightarrow> inv_mu s \<Longrightarrow> inv_mu s'"
proof (cases l)
  case (Thread t)
  then show "session_exec l s = Some s' \<Longrightarrow> inv_mu s \<Longrightarrow> inv_mu s'" by (simp add: mu_thread)
next
  case Finish
  then show "session_exec l s = Some s' \<Longrightarrow> inv_mu s \<Longrightarrow> inv_mu s'"
    by (cases "ss_finish s") (auto simp: inv_mu_def agent_all split: if_splits once.splits)
next
  case (Loop a b)
  then show "session_exec l s = Some s' \<Longrightarrow> inv_mu s \<Longrightarrow> inv_mu s'"
    by (cases "ss_loop s") (auto simp: inv_mu_def agent_all split: if_splits list.splits once.splits elim!: closeWithCode_SomeE)
next
  case (Send t m)
  then show "session_exec l s = Some s' \<Longrightarrow> inv_mu s \<Longrightarrow> inv_mu s'"
    by (auto simp: inv_mu_def agent_all set_thread_def split: if_splits) (metis inside_send.simps(1))
next
  case (Disconnect t)
  then show "session_exec l s = Some s' \<Longrightarrow> inv_mu s \<Longrightarrow> inv_mu s'"
    by (auto simp: inv_mu_def agent_all set_thread_def split: if_splits) (metis inside_send.simps(1))
qed


text \<open>A step of an agent in \<open>closeWithCode\<close>, and a step that takes an agent to its start or away from its end.\<close>

lemma once_close:
  assumes i: "inv_once s" and e: "closeWithCode a k s = Some (k', s1)" and c: "closing a s = Some k" "a \<noteq> A_Finish"
    and f: "ss_once s' = ss_once s1" "ss_stopClosed s' = ss_stopClosed s1" "ss_connClosed s' = ss_connClosed s1"
    "ss_finish s' = ss_finish s" "closing a s' = Some k'" "\<And>b. b \<noteq> a \<Longrightarrow> closing b s' = closing b s"
  shows "inv_once s'"
proof -
  have o: "in_once (closing b s') \<longleftrightarrow> ss_once s' = Once_Running b" "closing b s' = Some K_Stop \<longrightarrow> \<not> ss_stopClosed s'"
    "closing b s' = Some K_Conn \<longrightarrow> ss_stopClosed s' \<or> b = A_Finish" "closing b s' = Some K_End \<longrightarrow> ss_once s' = Once_Done" for b
  proof -
    have "in_once (closing b s) \<longleftrightarrow> ss_once s = Once_Running b" "closing b s = Some K_Stop \<longrightarrow> \<not> ss_stopClosed s"
      "closing b s = Some K_Conn \<longrightarrow> ss_stopClosed s \<or> b = A_Finish" "closing b s = Some K_End \<longrightarrow> ss_once s = Once_Done"
      "in_once (closing a s) \<longleftrightarrow> ss_once s = Once_Running a" "closing a s = Some K_Stop \<longrightarrow> \<not> ss_stopClosed s"
      "ss_once s = Once_Fresh \<longrightarrow> \<not> ss_stopClosed s"
      using i unfolding inv_once_def by metis+
    then show "in_once (closing b s') \<longleftrightarrow> ss_once s' = Once_Running b" "closing b s' = Some K_Stop \<longrightarrow> \<not> ss_stopClosed s'"
      "closing b s' = Some K_Conn \<longrightarrow> ss_stopClosed s' \<or> b = A_Finish" "closing b s' = Some K_End \<longrightarrow> ss_once s' = Once_Done"
      using e c f by (cases k; cases "b = a"; auto split: once.splits if_splits)+
  qed
  have "closing a s = Some K_Conn \<longrightarrow> ss_stopClosed s" "ss_once s = Once_Fresh \<longrightarrow> \<not> ss_stopClosed s"
    "ss_once s = Once_Done \<longrightarrow> ss_connClosed s \<and> (ss_stopClosed s \<or> ss_finish s = F_Over)"
    "in_once (closing a s) \<longleftrightarrow> ss_once s = Once_Running a"
    using i c(2) unfolding inv_once_def by metis+
  then have p: "ss_once s' = Once_Fresh \<longrightarrow> \<not> ss_stopClosed s'"
    "ss_once s' = Once_Done \<longrightarrow> ss_connClosed s' \<and> (ss_stopClosed s' \<or> ss_finish s' = F_Over)"
    using e c f by (cases k; auto split: once.splits if_splits)+
  show ?thesis using o p unfolding inv_once_def by blast
qed

lemma once_put:
  assumes i: "inv_once s" and c: "\<not> in_once (closing a s)" "closing a s' \<in> {None, Some K_Store}" "a \<noteq> A_Finish"
    and f: "ss_once s' = ss_once s" "ss_stopClosed s' = ss_stopClosed s" "ss_connClosed s' = ss_connClosed s"
    "ss_finish s' = ss_finish s" "\<And>b. b \<noteq> a \<Longrightarrow> closing b s' = closing b s"
  shows "inv_once s'"
proof -
  have "in_once (closing b s') \<longleftrightarrow> ss_once s' = Once_Running b" "closing b s' = Some K_Stop \<longrightarrow> \<not> ss_stopClosed s'"
    "closing b s' = Some K_Conn \<longrightarrow> ss_stopClosed s' \<or> b = A_Finish" "closing b s' = Some K_End \<longrightarrow> ss_once s' = Once_Done" for b
  proof -
    have n: "in_once (closing b s) \<longleftrightarrow> ss_once s = Once_Running b" "closing b s = Some K_Stop \<longrightarrow> \<not> ss_stopClosed s"
      "closing b s = Some K_Conn \<longrightarrow> ss_stopClosed s \<or> b = A_Finish" "closing b s = Some K_End \<longrightarrow> ss_once s = Once_Done"
      using i unfolding inv_once_def by metis+
    have "closing b s' = closing b s \<or> b = a \<and> (closing b s' = None \<or> closing b s' = Some K_Store)" using f(5)[of b] c(2) by auto
    then show "in_once (closing b s') \<longleftrightarrow> ss_once s' = Once_Running b" "closing b s' = Some K_Stop \<longrightarrow> \<not> ss_stopClosed s'"
      "closing b s' = Some K_Conn \<longrightarrow> ss_stopClosed s' \<or> b = A_Finish" "closing b s' = Some K_End \<longrightarrow> ss_once s' = Once_Done"
      using n c(1) unfolding f(1,2) by (elim disjE conjE; simp)+
  qed
  moreover have "ss_once s' = Once_Fresh \<longrightarrow> \<not> ss_stopClosed s'"
    "ss_once s' = Once_Done \<longrightarrow> ss_connClosed s' \<and> (ss_stopClosed s' \<or> ss_finish s' = F_Over)"
    using i unfolding inv_once_def f(1-4) by simp_all
  ultimately show ?thesis unfolding inv_once_def by blast
qed

lemma closing_set_thread [simp]:
  "closing a (set_thread t pc s) = (if a = A_Thread t then thread_closing pc else closing a s)"
  by (cases a) (auto simp: set_thread_def)

lemma set_thread_fields [simp]:
  "ss_cap (set_thread t pc s) = ss_cap s" "ss_queue (set_thread t pc s) = ss_queue s" "ss_sendClosed (set_thread t pc s) = ss_sendClosed s"
  "ss_stopClosed (set_thread t pc s) = ss_stopClosed s" "ss_writerDone (set_thread t pc s) = ss_writerDone s"
  "ss_closed (set_thread t pc s) = ss_closed s" "ss_once (set_thread t pc s) = ss_once s" "ss_connClosed (set_thread t pc s) = ss_connClosed s"
  "ss_mu (set_thread t pc s) = ss_mu s" "ss_thread (set_thread t pc s) = (ss_thread s)(t := pc)" "ss_loop (set_thread t pc s) = ss_loop s"
  "ss_finish (set_thread t pc s) = ss_finish s" "ss_panic (set_thread t pc s) = ss_panic s" "ss_accepted (set_thread t pc s) = ss_accepted s"
  "ss_written (set_thread t pc s) = ss_written s"
  by (simp_all add: set_thread_def)

lemma closing_cong: "ss_thread s' = ss_thread s \<Longrightarrow> ss_loop s' = ss_loop s \<Longrightarrow> ss_finish s' = ss_finish s \<Longrightarrow> closing a s' = closing a s"
  by (cases a) auto

lemma closing_update [simp]:
  "closing a (s\<lparr>ss_mu := mu\<rparr>) = closing a s" "closing a (s\<lparr>ss_queue := q\<rparr>) = closing a s" "closing a (s\<lparr>ss_accepted := l\<rparr>) = closing a s"
  "closing a (s\<lparr>ss_written := l\<rparr>) = closing a s" "closing a (s\<lparr>ss_panic := p\<rparr>) = closing a s" "closing a (s\<lparr>ss_closed := p\<rparr>) = closing a s"
  "closing a (s\<lparr>ss_sendClosed := p\<rparr>) = closing a s" "closing a (s\<lparr>ss_writerDone := p\<rparr>) = closing a s"
  "closing a (s\<lparr>ss_once := o'\<rparr>) = closing a s" "closing a (s\<lparr>ss_connClosed := p\<rparr>) = closing a s"
  by (cases a; simp)+

lemma once_thread:
  assumes e: "thread_exec t (ss_thread s t) s = Some s'" and i: "inv_once s"
  shows "inv_once s'"
proof (cases "ss_thread s t")
  case (T_Close k)
  show ?thesis
  proof (cases "k = K_End")
    case True
    then show ?thesis using e T_Close by (intro once_put[OF i, of "A_Thread t"]) auto
  next
    case False
    then obtain k' s'' where k: "closeWithCode (A_Thread t) k s = Some (k', s'')" "s' = set_thread t (T_Close k') s''"
      using e T_Close by auto
    have "closing b s'' = closing b s" for b using closeWithCode_frame[OF k(1)] by (intro closing_cong) auto
    then show ?thesis using k closeWithCode_frame[OF k(1)] T_Close by (intro once_close[OF i k(1)]) auto
  qed
next
  case (T_Kill k)
  show ?thesis
  proof (cases "k = K_End")
    case True
    then show ?thesis using e T_Kill by (intro once_put[OF i, of "A_Thread t"]) auto
  next
    case False
    then obtain k' s'' where k: "closeWithCode (A_Thread t) k s = Some (k', s'')" "s' = set_thread t (T_Kill k') s''"
      using e T_Kill by auto
    have "closing b s'' = closing b s" for b using closeWithCode_frame[OF k(1)] by (intro closing_cong) auto
    then show ?thesis using k closeWithCode_frame[OF k(1)] T_Kill by (intro once_close[OF i k(1)]) auto
  qed
qed (use e in \<open>auto split: if_splits intro!: once_put[OF i, of "A_Thread t"]\<close>)


lemma once_loop:
  assumes e: "session_writeLoop stop ok (ss_loop s) s = Some s'" and i: "inv_once s"
  shows "inv_once s'"
proof (cases "ss_loop s")
  case (W_Close k)
  show ?thesis
  proof (cases "k = K_End")
    case True
    then have "closing b s' = closing b s" if "b \<noteq> A_Writer" for b using e W_Close that by (cases b) auto
    then show ?thesis using True e W_Close by (intro once_put[OF i, of A_Writer]) auto
  next
    case False
    then obtain k' s'' where k: "closeWithCode A_Writer k s = Some (k', s'')" "s' = s''\<lparr>ss_loop := W_Close k'\<rparr>"
      using e W_Close by auto
    have "closing b s' = closing b s" if "b \<noteq> A_Writer" for b using closeWithCode_frame[OF k(1)] k(2) that by (cases b) auto
    then show ?thesis using k closeWithCode_frame[OF k(1)] W_Close by (intro once_close[OF i k(1)]) auto
  qed
next
  case W_Select
  then have c: "closing b s' = closing b s" for b using e by (cases b) (auto split: if_splits list.splits)
  show ?thesis using e W_Select c by (intro once_put[OF i, of A_Writer]) (auto split: if_splits list.splits)
next
  case (W_Write m)
  then have c: "closing b s' = closing b s" if "b \<noteq> A_Writer" for b using e that by (cases b) (auto split: if_splits)
  show ?thesis using e W_Write c by (intro once_put[OF i, of A_Writer]) (auto split: if_splits)
next
  case W_Returned
  then have c: "closing b s' = closing b s" for b using e by (cases b) auto
  show ?thesis using e W_Returned c by (intro once_put[OF i, of A_Writer]) auto
qed (use e in simp)

lemma once_same:
  assumes i: "inv_once s" and f: "ss_once s' = ss_once s" "ss_stopClosed s' = ss_stopClosed s" "ss_connClosed s' = ss_connClosed s"
    "ss_finish s = F_Over \<Longrightarrow> ss_finish s' = F_Over" "\<And>b. closing b s' = closing b s"
  shows "inv_once s'"
  using i f(4) unfolding inv_once_def f(1-3,5) by blast

lemma once_finish:
  assumes e: "session_finish (ss_finish s) s = Some s'" and i: "inv_once s"
  shows "inv_once s'"
proof (cases "ss_finish s = F_Once \<and> ss_once s = Once_Fresh \<or> ss_finish s = F_Conn")
  case False
  then have "closing b s' = closing b s" for b using e by (cases "ss_finish s"; cases b) (auto split: if_splits once.splits)
  then show ?thesis using e False by (intro once_same[OF i]) (cases "ss_finish s"; auto split: if_splits once.splits)+
next
  case True
  have c: "closing b s' = closing b s" if "b \<noteq> A_Finish" for b
    using e that True by (cases b) auto
  have n: "in_once (closing b s) \<longleftrightarrow> ss_once s = Once_Running b" "closing b s = Some K_End \<longrightarrow> ss_once s = Once_Done" for b
    using i unfolding inv_once_def by metis+
  show ?thesis
  proof (cases "ss_finish s = F_Conn")
    case True
    then have o: "ss_once s = Once_Running A_Finish" using n(1)[of A_Finish] by simp
    have s': "s' = s\<lparr>ss_connClosed := True, ss_once := Once_Done, ss_finish := F_Over\<rparr>" using e True by simp
    have m: "\<not> in_once (closing b s')" for b
      by (cases "b = A_Finish") (use n(1)[of b] o c[of b] s' in auto)
    have "closing b s' \<noteq> Some K_Stop" "closing b s' \<noteq> Some K_Conn" for b using m[of b] by auto
    then show ?thesis using m unfolding inv_once_def by (simp add: s')
  next
    case False
    then have t: "ss_finish s = F_Once" "ss_once s = Once_Fresh" using True by auto
    have s': "s' = s\<lparr>ss_once := Once_Running A_Finish, ss_finish := F_Conn\<rparr>" using e t by simp
    have m: "\<not> in_once (closing b s')" if "b \<noteq> A_Finish" for b using n(1)[of b] t c[OF that] by simp
    have "closing b s' \<noteq> Some K_Stop" for b by (cases "b = A_Finish") (use m[of b] in \<open>auto simp: s'\<close>)
    moreover have "closing b s' = Some K_Conn \<longrightarrow> b = A_Finish" for b by (cases "b = A_Finish") (use m[of b] in auto)
    moreover have "closing b s' \<noteq> Some K_End" for b
      by (cases "b = A_Finish") (use n(2)[of b] c[of b] t s' in auto)
    moreover have "in_once (closing b s') \<longleftrightarrow> b = A_Finish" for b using m[of b] by (auto simp: s')
    ultimately show ?thesis unfolding inv_once_def by (auto simp: s')
  qed
qed

lemma once_step: "session_exec l s = Some s' \<Longrightarrow> inv_once s \<Longrightarrow> inv_once s'"
  by (cases l) (auto simp: once_thread once_loop once_finish split: if_splits intro!: once_put[of s "A_Thread _"])


lemma closeWithCode_flags:
  assumes "closeWithCode a k s = Some (k', s')"
  shows "(ss_closed s' \<longleftrightarrow> ss_closed s \<or> k = K_Store) \<and> (ss_stopClosed s' \<longleftrightarrow> ss_stopClosed s \<or> k = K_Stop) \<and>
    (ss_panic s' \<longleftrightarrow> ss_panic s \<or> k = K_Stop \<and> ss_stopClosed s)"
  using assms by (cases k) (auto split: once.splits if_splits)

lemma thread_closeE:
  assumes "thread_exec t (ss_thread s t) s = Some s'" "thread_closing (ss_thread s t) = Some k" "k \<noteq> K_End"
  obtains k' s1 pc where "closeWithCode (A_Thread t) k s = Some (k', s1)" "s' = set_thread t pc s1" "thread_closing pc = Some k'"
  using assms by (cases "ss_thread s t") auto

lemma send_thread:
  assumes e: "thread_exec t (ss_thread s t) s = Some s'" and i: "inv_mu s" "inv_once s" "inv_send s"
  shows "inv_send s'"
proof -
  have c: "ss_sendClosed s \<longrightarrow> ss_closed s" "\<not> ss_panic s" "\<forall>u m. ss_thread s u = T_Checked m \<longrightarrow> \<not> ss_sendClosed s"
    using i(3) unfolding inv_send_def by blast+
  show ?thesis
  proof (cases "\<exists>k. thread_closing (ss_thread s t) = Some k \<and> k \<noteq> K_End")
    case True
    then obtain k k' s1 pc where k: "thread_closing (ss_thread s t) = Some k" "k \<noteq> K_End"
      "closeWithCode (A_Thread t) k s = Some (k', s1)" "s' = set_thread t pc s1" "thread_closing pc = Some k'"
      using thread_closeE[OF e] by metis
    have "k = K_Stop \<longrightarrow> \<not> ss_stopClosed s" using i(2) k(1) unfolding inv_once_def by (metis closing.simps(1))
    then have "ss_panic s1 = ss_panic s" "ss_closed s \<longrightarrow> ss_closed s1" "ss_thread s1 = ss_thread s" "ss_sendClosed s1 = ss_sendClosed s"
      "ss_finish s1 = ss_finish s"
      using closeWithCode_flags[OF k(3)] closeWithCode_frame[OF k(3)] by auto
    moreover have "pc \<noteq> T_Checked m" for m using k(5) by auto
    ultimately show ?thesis using i(3) unfolding inv_send_def k(4) by auto
  next
    case False
    then show ?thesis using e i(3) c
      by (cases "ss_thread s t") (auto simp: inv_send_def split: if_splits)
  qed
qed

lemma send_loop:
  assumes e: "session_writeLoop stop ok (ss_loop s) s = Some s'" and i: "inv_once s" "inv_send s"
  shows "inv_send s'"
proof (cases "\<exists>k. ss_loop s = W_Close k \<and> k \<noteq> K_End")
  case True
  then obtain k k' s1 where k: "ss_loop s = W_Close k" "closeWithCode A_Writer k s = Some (k', s1)" "s' = s1\<lparr>ss_loop := W_Close k'\<rparr>"
    using e by auto
  have "k = K_Stop \<longrightarrow> \<not> ss_stopClosed s" using i(1) k(1) unfolding inv_once_def by (metis closing.simps(2) loop_closing.simps(1))
  then have "ss_panic s1 = ss_panic s" "ss_closed s \<longrightarrow> ss_closed s1" "ss_thread s1 = ss_thread s" "ss_sendClosed s1 = ss_sendClosed s"
    "ss_finish s1 = ss_finish s"
    using closeWithCode_flags[OF k(2)] closeWithCode_frame[OF k(2)] by auto
  then show ?thesis using i(2) unfolding inv_send_def k(3) by auto
next
  case False
  then have "ss_panic s' = ss_panic s" "ss_closed s' = ss_closed s" "ss_thread s' = ss_thread s" "ss_sendClosed s' = ss_sendClosed s"
    "ss_finish s' = ss_finish s"
    using e by (cases "ss_loop s"; auto split: if_splits list.splits)+
  then show ?thesis using i(2) unfolding inv_send_def by simp
qed

lemma send_finish:
  assumes e: "session_finish (ss_finish s) s = Some s'" and i: "inv_mu s" "inv_send s" "inv_stop s"
  shows "inv_send s'"
proof -
  have "ss_thread s u \<noteq> T_Checked m" if "ss_finish s = F_CloseCh" for u m
  proof
    assume "ss_thread s u = T_Checked m"
    then have "holding (A_Thread u) s" "holding A_Finish s" using that by auto
    then show False using i(1) unfolding inv_mu_def by (metis agent.distinct(3) option.inject)
  qed
  moreover have "ss_finish s = F_CloseCh \<longrightarrow> ss_closed s" using i(3) unfolding inv_stop_def by simp
  ultimately show ?thesis using e i(2)
    by (cases "ss_finish s") (auto simp: inv_send_def split: if_splits once.splits)
qed

lemma send_step: "session_exec l s = Some s' \<Longrightarrow> inv_mu s \<Longrightarrow> inv_once s \<Longrightarrow> inv_stop s \<Longrightarrow> inv_send s \<Longrightarrow> inv_send s'"
proof (cases l)
  case (Send t m)
  then show "session_exec l s = Some s' \<Longrightarrow> inv_send s \<Longrightarrow> inv_send s'" by (auto simp: inv_send_def split: if_splits)
next
  case (Disconnect t)
  then show "session_exec l s = Some s' \<Longrightarrow> inv_send s \<Longrightarrow> inv_send s'" by (auto simp: inv_send_def split: if_splits)
qed (simp_all add: send_thread send_loop send_finish)


lemma stop_close:
  assumes i: "inv_once s" "inv_stop s" "inv_order s" and e: "closeWithCode a k s = Some (k', s1)" and c: "closing a s = Some k" "a \<noteq> A_Finish"
    and f: "ss_closed s' = ss_closed s1" "ss_sendClosed s' = ss_sendClosed s" "ss_stopClosed s' = ss_stopClosed s1" "ss_finish s' = ss_finish s"
    "closing a s' = Some k'" "\<And>b. b \<noteq> a \<Longrightarrow> closing b s' = closing b s"
  shows "inv_stop s'"
proof -
  have o: "closing a s = Some K_Conn \<longrightarrow> ss_stopClosed s" "ss_once s = Once_Done \<longrightarrow> ss_stopClosed s \<or> ss_finish s = F_Over"
    using i(1) c(2) unfolding inv_once_def by metis+
  have q: "ss_finish s = F_Over \<longrightarrow> ss_stopClosed s \<or> ss_sendClosed s"
    using i(3) unfolding inv_order_def by auto
  have g: "ss_stopClosed s' \<or> ss_finish s' = F_CloseCh \<or> (\<exists>b. to_stop (closing b s'))" if "ss_closed s'" "\<not> ss_sendClosed s'"
  proof (cases "k = K_Store \<or> to_stop (Some k')")
    case True
    then have "to_stop (closing a s')" using e f(5) by (auto simp: to_stop_def)
    then show ?thesis by blast
  next
    case False
    then have n: "k \<noteq> K_Store" by simp
    then have "ss_closed s" using that(1) f(1) closeWithCode_flags[OF e] by simp
    then have "ss_stopClosed s \<or> ss_finish s = F_CloseCh \<or> (\<exists>b. to_stop (closing b s))"
      using i(2) that(2) f(2) unfolding inv_stop_def by simp
    moreover have "ss_stopClosed s'" if "k = K_Stop" using closeWithCode_flags[OF e] f(3) that by simp
    moreover have "ss_stopClosed s'" if k: "k = K_Once"
    proof -
      have "ss_once s = Once_Done" using e False k by (auto simp: to_stop_def split: once.splits)
      then have "ss_stopClosed s" using o(2) q that f(2) \<open>\<not> ss_sendClosed s'\<close> by auto
      then show ?thesis using closeWithCode_flags[OF e] f(3) by simp
    qed
    moreover have "ss_stopClosed s' \<or> (\<exists>b. to_stop (closing b s'))" if "to_stop (closing b s)" for b
    proof (cases "b = a")
      case True
      then have "k = K_Once \<or> k = K_Stop" using that c(1) by (simp add: to_stop_def)
      then show ?thesis using calculation(2,3) by blast
    qed (use that f(6) in metis)
    ultimately show ?thesis using closeWithCode_flags[OF e] f(3,4) by metis
  qed
  have "ss_finish s' \<in> {F_CloseCh, F_Unlock, F_Wait, F_Once, F_Conn, F_Over} \<longrightarrow> ss_closed s'"
    using i(2) closeWithCode_flags[OF e] f(1,4) unfolding inv_stop_def by simp
  then show ?thesis using g unfolding inv_stop_def by blast
qed

lemma stop_put:
  assumes i: "inv_stop s" and f: "ss_closed s' = ss_closed s" "ss_sendClosed s' = ss_sendClosed s" "ss_stopClosed s' = ss_stopClosed s"
    "ss_finish s' = ss_finish s" "\<And>b. to_stop (closing b s) \<Longrightarrow> to_stop (closing b s')"
  shows "inv_stop s'"
  using i f(5) unfolding inv_stop_def f(1-4) by blast

lemma stop_thread:
  assumes e: "thread_exec t (ss_thread s t) s = Some s'" and i: "inv_once s" "inv_stop s" "inv_order s"
  shows "inv_stop s'"
proof (cases "\<exists>k. thread_closing (ss_thread s t) = Some k \<and> k \<noteq> K_End")
  case True
  then obtain k k' s1 pc where k: "thread_closing (ss_thread s t) = Some k" "k \<noteq> K_End"
    "closeWithCode (A_Thread t) k s = Some (k', s1)" "s' = set_thread t pc s1" "thread_closing pc = Some k'"
    using thread_closeE[OF e] by metis
  have "closing b s1 = closing b s" for b using closeWithCode_frame[OF k(3)] by (intro closing_cong) auto
  then show ?thesis using k closeWithCode_frame[OF k(3)] by (intro stop_close[OF i k(3)]) auto
next
  case False
  then have n: "\<not> to_stop (thread_closing (ss_thread s t))" by (auto simp: to_stop_def)
  have c: "to_stop (closing b s')" if "to_stop (closing b s)" for b
  proof -
    have "b \<noteq> A_Thread t" using that n by auto
    then have "closing b s' = closing b s" using e False by (cases "ss_thread s t") (auto split: if_splits)
    then show ?thesis using that by simp
  qed
  show ?thesis using e False c by (intro stop_put[OF i(2)]) (cases "ss_thread s t"; auto split: if_splits)+
qed

lemma stop_loop:
  assumes e: "session_writeLoop stop ok (ss_loop s) s = Some s'" and i: "inv_once s" "inv_stop s" "inv_order s"
  shows "inv_stop s'"
proof (cases "\<exists>k. ss_loop s = W_Close k \<and> k \<noteq> K_End")
  case True
  then obtain k k' s1 where k: "ss_loop s = W_Close k" "closeWithCode A_Writer k s = Some (k', s1)" "s' = s1\<lparr>ss_loop := W_Close k'\<rparr>"
    using e by auto
  have "closing b s' = closing b s" if "b \<noteq> A_Writer" for b using closeWithCode_frame[OF k(2)] k(3) that by (cases b) auto
  then show ?thesis using k closeWithCode_frame[OF k(2)] by (intro stop_close[OF i k(2)]) auto
next
  case False
  then have n: "\<not> to_stop (loop_closing (ss_loop s))" by (cases "ss_loop s") (auto simp: to_stop_def)
  have c: "to_stop (closing b s')" if "to_stop (closing b s)" for b
  proof -
    have "b \<noteq> A_Writer" using that n by auto
    then have "closing b s' = closing b s" using e False by (cases "ss_loop s"; cases b) (auto split: if_splits list.splits)
    then show ?thesis using that by simp
  qed
  show ?thesis using e False c by (intro stop_put[OF i(2)]) (cases "ss_loop s"; auto split: if_splits list.splits)+
qed

lemma stop_finish:
  assumes e: "session_finish (ss_finish s) s = Some s'" and i: "inv_stop s"
  shows "inv_stop s'"
proof -
  have c: "to_stop (closing b s')" if "to_stop (closing b s)" for b
    using e that by (cases "ss_finish s"; cases b) (auto simp: to_stop_def split: if_splits once.splits)
  have "ss_closed s \<and> \<not> ss_sendClosed s \<longrightarrow> ss_stopClosed s \<or> ss_finish s = F_CloseCh \<or> (\<exists>b. to_stop (closing b s'))"
    "ss_finish s \<in> {F_CloseCh, F_Unlock, F_Wait, F_Once, F_Conn, F_Over} \<longrightarrow> ss_closed s"
    using i c unfolding inv_stop_def by blast+
  then show ?thesis using e
    by (cases "ss_finish s") (simp_all add: inv_stop_def split: if_splits once.splits; auto)+
qed

lemma stop_step: "session_exec l s = Some s' \<Longrightarrow> inv_once s \<Longrightarrow> inv_order s \<Longrightarrow> inv_stop s \<Longrightarrow> inv_stop s'"
proof (cases l)
  case (Send t m)
  then show "session_exec l s = Some s' \<Longrightarrow> inv_stop s \<Longrightarrow> inv_stop s'"
    by (auto split: if_splits intro!: stop_put[of s] simp: to_stop_def)
next
  case (Disconnect t)
  then show "session_exec l s = Some s' \<Longrightarrow> inv_stop s \<Longrightarrow> inv_stop s'"
    by (auto split: if_splits intro!: stop_put[of s] simp: to_stop_def)
qed (simp_all add: stop_thread stop_loop stop_finish)


lemma order_put:
  assumes i: "inv_order s" and f: "ss_accepted s' = ss_accepted s" "ss_written s' = ss_written s" "ss_queue s' = ss_queue s"
    "ss_loop s' = ss_loop s" "ss_sendClosed s' = ss_sendClosed s" "ss_writerDone s' = ss_writerDone s" "ss_finish s' = ss_finish s"
    "ss_stopClosed s \<Longrightarrow> ss_stopClosed s'" "ss_once s = Once_Done \<Longrightarrow> ss_once s' = Once_Done" "ss_connClosed s \<Longrightarrow> ss_connClosed s'"
  shows "inv_order s'"
  using i f(8-10) unfolding inv_order_def f(1-7) by blast

lemma closeWithCode_grow:
  assumes "closeWithCode a k s = Some (k', s')"
  shows "(ss_stopClosed s \<longrightarrow> ss_stopClosed s') \<and> (ss_once s = Once_Done \<longrightarrow> ss_once s' = Once_Done) \<and> (ss_connClosed s \<longrightarrow> ss_connClosed s')"
  using assms by (cases k) (auto split: once.splits if_splits)

lemma order_thread:
  assumes e: "thread_exec t (ss_thread s t) s = Some s'" and i: "inv_order s"
  shows "inv_order s'"
proof (cases "\<exists>k. thread_closing (ss_thread s t) = Some k \<and> k \<noteq> K_End")
  case True
  then obtain k k' s1 pc where k: "closeWithCode (A_Thread t) k s = Some (k', s1)" "s' = set_thread t pc s1"
    using thread_closeE[OF e] by metis
  then show ?thesis using closeWithCode_frame[OF k(1)] closeWithCode_grow[OF k(1)] by (intro order_put[OF i]) auto
next
  case False
  show ?thesis
  proof (cases "ss_queue s' = ss_queue s")
    case True
    then show ?thesis using e False by (intro order_put[OF i]) (cases "ss_thread s t"; auto split: if_splits)+
  next
    case n: False
    then obtain m where s': "s' = set_thread t T_Unlock (s\<lparr>ss_queue := ss_queue s @ [m], ss_accepted := ss_accepted s @ [m]\<rparr>)"
      "\<not> ss_sendClosed s"
      using e False by (cases "ss_thread s t") (auto split: if_splits)
    obtain l where "in_flight (ss_loop s) l" "ss_accepted s = ss_written s @ l @ ss_queue s" using i unfolding inv_order_def by blast
    then have "in_flight (ss_loop s') l" "ss_accepted s' = ss_written s' @ l @ ss_queue s'" using s' by auto
    then show ?thesis using i s' unfolding inv_order_def by auto
  qed
qed

lemma order_loop:
  assumes e: "session_writeLoop stop ok (ss_loop s) s = Some s'" and i: "inv_once s" "inv_order s"
  shows "inv_order s'"
proof -
  obtain l where l: "in_flight (ss_loop s) l" "ss_accepted s = ss_written s @ l @ ss_queue s" using i unfolding inv_order_def by blast
  have w: "ss_writerDone s \<longleftrightarrow> ss_loop s = W_Done" "ss_finish s \<in> {F_Once, F_Conn, F_Over} \<longrightarrow> ss_writerDone s"
    "ss_finish s = F_Over \<longrightarrow> ss_once s = Once_Done \<and> ss_connClosed s"
    "ss_loop s = W_Returned \<or> ss_loop s = W_Done \<longrightarrow> ss_stopClosed s \<or> ss_sendClosed s \<and> ss_accepted s = ss_written s"
    using i(2) unfolding inv_order_def by blast+
  show ?thesis
  proof (cases "\<exists>k. ss_loop s = W_Close k")
    case True
    then obtain k where k: "ss_loop s = W_Close k" by blast
    have n: "\<not> ss_writerDone s" "ss_finish s \<notin> {F_Once, F_Conn, F_Over}" using w(1,2) k by auto
    show ?thesis
    proof (cases "k = K_End")
      case True
      have "ss_once s = Once_Done \<longrightarrow> ss_stopClosed s \<or> ss_finish s = F_Over" "closing A_Writer s = Some K_End \<longrightarrow> ss_once s = Once_Done"
        using i(1) unfolding inv_once_def by blast+
      then have "ss_stopClosed s" using True k n by auto
      then show ?thesis using e k True l n by (auto simp: inv_order_def)
    next
      case False
      then obtain k' s1 where c: "closeWithCode A_Writer k s = Some (k', s1)" "s' = s1\<lparr>ss_loop := W_Close k'\<rparr>"
        using e k by auto
      then show ?thesis using closeWithCode_frame[OF c(1)] k l n by (auto simp: inv_order_def)
    qed
  next
    case False
    then show ?thesis
    proof (cases "ss_loop s")
      case W_Select
      then have n: "\<not> ss_writerDone s" "ss_finish s \<notin> {F_Once, F_Conn, F_Over}" "l = []" using w(1,2) l by auto
      then show ?thesis using e W_Select l by (auto simp: inv_order_def split: if_splits list.splits)
    next
      case (W_Write m)
      then have n: "\<not> ss_writerDone s" "ss_finish s \<notin> {F_Once, F_Conn, F_Over}" "l = [m]" using w(1,2) l by auto
      then show ?thesis using e W_Write l by (auto simp: inv_order_def split: if_splits)
    next
      case W_Returned
      then have n: "\<not> ss_writerDone s" "ss_finish s \<notin> {F_Once, F_Conn, F_Over}" using w(1,2) by auto
      then show ?thesis using e W_Returned l w(4) by (auto simp: inv_order_def)
    qed (use e False in auto)
  qed
qed

lemma order_finish:
  assumes e: "session_finish (ss_finish s) s = Some s'" and i: "inv_once s" "inv_order s"
  shows "inv_order s'"
proof -
  have c: "ss_once s = Once_Done \<longrightarrow> ss_connClosed s" using i(1) unfolding inv_once_def by blast
  have f: "ss_accepted s' = ss_accepted s" "ss_written s' = ss_written s" "ss_queue s' = ss_queue s" "ss_loop s' = ss_loop s"
    "ss_writerDone s' = ss_writerDone s" "ss_stopClosed s' = ss_stopClosed s" "ss_sendClosed s \<longrightarrow> ss_sendClosed s'"
    using e by (cases "ss_finish s"; auto split: if_splits once.splits)+
  have w: "ss_finish s \<in> {F_Once, F_Conn, F_Over} \<longrightarrow> ss_writerDone s" using i(2) unfolding inv_order_def by blast
  have g: "ss_finish s' \<in> {F_Once, F_Conn, F_Over} \<longrightarrow> ss_writerDone s"
    using e w by (cases "ss_finish s") (auto split: if_splits once.splits)
  have o: "ss_finish s' = F_Over \<longrightarrow> ss_once s' = Once_Done \<and> ss_connClosed s'"
    using e c by (cases "ss_finish s") (auto split: if_splits once.splits)
  show ?thesis using i(2) f(7) g o unfolding inv_order_def f(1-6) by blast
qed

lemma order_step: "session_exec l s = Some s' \<Longrightarrow> inv_once s \<Longrightarrow> inv_order s \<Longrightarrow> inv_order s'"
proof (cases l)
  case (Send t m)
  then show "session_exec l s = Some s' \<Longrightarrow> inv_order s \<Longrightarrow> inv_order s'" by (auto split: if_splits intro: order_put)
next
  case (Disconnect t)
  then show "session_exec l s = Some s' \<Longrightarrow> inv_order s \<Longrightarrow> inv_order s'" by (auto split: if_splits intro: order_put)
qed (simp_all add: order_thread order_loop order_finish)

definition session_inv :: "ws_session \<Rightarrow> bool" where
  "session_inv s \<longleftrightarrow> inv_mu s \<and> inv_once s \<and> inv_send s \<and> inv_stop s \<and> inv_order s"

lemma session_inv_step: "session_exec l s = Some s' \<Longrightarrow> session_inv s \<Longrightarrow> session_inv s'"
  unfolding session_inv_def using mu_step once_step send_step stop_step order_step by blast

lemma session_inv_start: "session_inv (newWSTraceSession q)"
  by (simp add: session_inv_def inv_mu_def inv_once_def inv_send_def inv_stop_def inv_order_def agent_all newWSTraceSession_def)

lemma session_inv_reaches: "reaches session_step (newWSTraceSession q) s \<Longrightarrow> session_inv s"
  unfolding session_step_def by (rule exec_inv[where I = session_inv]) (auto intro: session_inv_start session_inv_step)


subsection \<open>The session ends\<close>

text \<open>What is left to do, for an agent in \<open>closeWithCode\<close>, a goroutine, the loop and \<open>finish\<close>. A queued message costs two steps.\<close>

primrec close_weight :: "abort_pc \<Rightarrow> nat" where
  "close_weight K_Store = 5"
| "close_weight K_Once = 4"
| "close_weight K_Stop = 3"
| "close_weight K_Conn = 2"
| "close_weight K_End = 1"

primrec thread_weight :: "thread_pc \<Rightarrow> nat" where
  "thread_weight T_Idle = 0"
| "thread_weight (T_Lock m) = 9"
| "thread_weight (T_Locked m) = 8"
| "thread_weight (T_Checked m) = 7"
| "thread_weight (T_Close k) = Suc (close_weight k)"
| "thread_weight T_Unlock = 1"
| "thread_weight (T_Kill k) = close_weight k"

primrec loop_weight :: "session_writer_pc \<Rightarrow> nat" where
  "loop_weight W_Select = 7"
| "loop_weight (W_Write m) = 8"
| "loop_weight (W_Close k) = Suc (close_weight k)"
| "loop_weight W_Returned = 1"
| "loop_weight W_Done = 0"

primrec finish_weight :: "finish_pc \<Rightarrow> nat" where
  "finish_weight F_Idle = 8"
| "finish_weight F_Lock = 7"
| "finish_weight F_Swap = 6"
| "finish_weight F_CloseCh = 5"
| "finish_weight F_Unlock = 4"
| "finish_weight F_Wait = 3"
| "finish_weight F_Once = 2"
| "finish_weight F_Conn = 1"
| "finish_weight F_Over = 0"

definition session_weight :: "nat set \<Rightarrow> ws_session \<Rightarrow> nat" where
  "session_weight A s = (\<Sum>t\<in>A. thread_weight (ss_thread s t)) + loop_weight (ss_loop s) + finish_weight (ss_finish s) + 2 * length (ss_queue s)"

text \<open>The steps of calls that have begun, of the loop and of the handler's end.\<close>

fun internal :: "session_label \<Rightarrow> bool" where
  "internal (Send t m) = False"
| "internal (Disconnect t) = False"
| "internal l = True"

definition busy :: "ws_session \<Rightarrow> nat set" where
  "busy s = {t. ss_thread s t \<noteq> T_Idle}"

lemma sum_put_less:
  fixes w w' :: "nat \<Rightarrow> nat"
  assumes "finite A" "t \<in> A" "\<And>u. u \<noteq> t \<Longrightarrow> w' u = w u" "w' t + c < w t + d"
  shows "(\<Sum>u\<in>A. w' u) + c < (\<Sum>u\<in>A. w u) + d"
proof -
  have "(\<Sum>u\<in>A - {t}. w' u) = (\<Sum>u\<in>A - {t}. w u)" using assms(3) by (intro sum.cong) auto
  then show ?thesis using assms by (simp add: sum.remove)
qed

lemma closeWithCode_weight:
  assumes "closeWithCode a k s = Some (k', s')"
  shows "close_weight k' < close_weight k \<and> ss_queue s' = ss_queue s \<and> ss_thread s' = ss_thread s \<and> ss_loop s' = ss_loop s \<and> ss_finish s' = ss_finish s"
  using closeWithCode_frame[OF assms] assms by (cases k) (auto split: once.splits)

lemma weight_thread:
  assumes e: "thread_exec t (ss_thread s t) s = Some s'" and A: "finite A" "busy s \<subseteq> A"
  shows "session_weight A s' < session_weight A s \<and> busy s' \<subseteq> A"
proof -
  have t: "t \<in> A" using e A(2) by (cases "ss_thread s t") (auto simp: busy_def)
  have f: "ss_loop s' = ss_loop s \<and> ss_finish s' = ss_finish s \<and> (\<forall>u. u \<noteq> t \<longrightarrow> ss_thread s' u = ss_thread s u) \<and>
      thread_weight (ss_thread s' t) + 2 * length (ss_queue s') < thread_weight (ss_thread s t) + 2 * length (ss_queue s)"
  proof (cases "\<exists>k. thread_closing (ss_thread s t) = Some k \<and> k \<noteq> K_End")
    case True
    then obtain k where k: "thread_closing (ss_thread s t) = Some k" "k \<noteq> K_End" by blast
    then show ?thesis using e
      by (cases "ss_thread s t") (auto dest!: closeWithCode_weight simp del: closeWithCode.simps)
  next
    case False
    then show ?thesis using e by (cases "ss_thread s t") (auto split: if_splits)
  qed
  have "(\<Sum>u\<in>A. thread_weight (ss_thread s' u)) + 2 * length (ss_queue s') < (\<Sum>u\<in>A. thread_weight (ss_thread s u)) + 2 * length (ss_queue s)"
    using f by (intro sum_put_less[OF A(1) t]) auto
  moreover have "busy s' \<subseteq> insert t (busy s)" using f by (auto simp: busy_def)
  ultimately show ?thesis using f A(2) t by (auto simp: session_weight_def)
qed

lemma weight_loop:
  assumes e: "session_writeLoop stop ok (ss_loop s) s = Some s'"
  shows "session_weight A s' < session_weight A s \<and> busy s' = busy s"
proof -
  have "ss_thread s' = ss_thread s \<and> ss_finish s' = ss_finish s \<and>
      loop_weight (ss_loop s') + 2 * length (ss_queue s') < loop_weight (ss_loop s) + 2 * length (ss_queue s)"
  proof (cases "\<exists>k. ss_loop s = W_Close k \<and> k \<noteq> K_End")
    case True
    then obtain k where k: "ss_loop s = W_Close k" "k \<noteq> K_End" by blast
    then show ?thesis using e by (auto dest!: closeWithCode_weight simp del: closeWithCode.simps)
  next
    case False
    then show ?thesis using e by (cases "ss_loop s") (auto split: if_splits list.splits)
  qed
  then show ?thesis by (auto simp: session_weight_def busy_def)
qed

lemma weight_finish: "session_finish (ss_finish s) s = Some s' \<Longrightarrow> session_weight A s' < session_weight A s \<and> busy s' = busy s"
  by (cases "ss_finish s") (auto simp: session_weight_def busy_def split: if_splits once.splits)

lemma weight_step:
  assumes "session_exec l s = Some s'" "internal l" "finite A" "busy s \<subseteq> A"
  shows "session_weight A s' < session_weight A s \<and> busy s' \<subseteq> A"
  using assms by (cases l) (auto dest!: weight_loop[where A = A] weight_finish[where A = A] weight_thread[where A = A])

lemma weight_run:
  assumes "exec_run session_exec ls s = Some s'" "list_all internal ls" "finite A" "busy s \<subseteq> A"
  shows "length ls + session_weight A s' \<le> session_weight A s"
  using assms
proof (induction ls arbitrary: s)
  case (Cons l ls)
  then obtain v where v: "session_exec l s = Some v" "exec_run session_exec ls v = Some s'" by (auto simp: bind_eq_Some_conv)
  then have "session_weight A v < session_weight A s" "busy v \<subseteq> A" using weight_step[OF v(1)] Cons.prems by auto
  then show ?case using Cons.IH[OF v(2)] Cons.prems by simp
qed simp

lemma busy_step: "session_exec l s = Some s' \<Longrightarrow> finite (busy s) \<Longrightarrow> finite (busy s')"
proof (cases "internal l")
  case True
  then show "session_exec l s = Some s' \<Longrightarrow> finite (busy s) \<Longrightarrow> finite (busy s')" using weight_step[of l s s' "busy s"] finite_subset by blast
next
  case False
  assume e: "session_exec l s = Some s'" "finite (busy s)"
  obtain t where "busy s' \<subseteq> insert t (busy s)"
    using False e(1) by (cases l) (auto simp: busy_def split: if_splits intro!: that[of "_ :: nat"])
  then show "finite (busy s')" using e(2) finite_subset by blast
qed

lemma busy_start: "busy (newWSTraceSession q) = {}"
  by (simp add: busy_def newWSTraceSession_def)

lemma busy_reaches: "reaches session_step (newWSTraceSession q) s \<Longrightarrow> finite (busy s)"
  unfolding session_step_def by (rule exec_inv[where I = "\<lambda>s. finite (busy s)"]) (auto intro: busy_step simp: busy_start)

text \<open>When no call that has begun can go on, \<open>finish\<close> is over.\<close>

lemma stuck_over:
  assumes v: "session_inv s" and n: "\<And>l. internal l \<Longrightarrow> session_exec l s = None"
  shows "ss_finish s = F_Over"
proof -
  have i: "inv_mu s" "inv_once s" "inv_stop s" "inv_order s" using v unfolding session_inv_def by blast+
  have t: "thread_exec t (ss_thread s t) s = None" for t using n[of "Thread t"] by simp
  have f: "session_finish (ss_finish s) s = None" using n[of Finish] by simp
  have w: "session_writeLoop True True (ss_loop s) s = None" "session_writeLoop False True (ss_loop s) s = None"
    using n[of "Loop True True"] n[of "Loop False True"] by simp_all
  have "\<not> in_once (closing a s)" for a
  proof (cases a)
    case (A_Thread u)
    then show ?thesis using t[of u] by (cases "ss_thread s u"; cases "closing a s" rule: in_once.cases) auto
  next
    case A_Writer
    then show ?thesis using w(1) by (cases "ss_loop s"; cases "closing a s" rule: in_once.cases) auto
  next
    case A_Finish
    then show ?thesis using f by auto
  qed
  then have o: "ss_once s \<noteq> Once_Running a" for a using i(2) unfolding inv_once_def by metis
  have k: "k = K_End" if "closeWithCode a k s = None" for a k using that o by (cases k) (auto split: once.splits)
  have c: "closing a s = None" for a
  proof (cases a)
    case (A_Thread u)
    then show ?thesis using t[of u] k by (cases "ss_thread s u") (auto split: if_splits)
  next
    case A_Writer
    then show ?thesis using w(1) k by (cases "ss_loop s") (auto split: if_splits)
  next
    case A_Finish
    then show ?thesis using f by auto
  qed
  have "\<not> holding a s" for a
  proof (cases a)
    case (A_Thread u)
    then show ?thesis using t[of u] c[of a] by (cases "ss_thread s u") (auto split: if_splits)
  next
    case A_Finish
    then show ?thesis using f by (cases "ss_finish s") auto
  qed simp
  then have "ss_mu s = None" using i(1) unfolding inv_mu_def by (cases "ss_mu s") auto
  then consider "ss_finish s = F_Over" | "ss_finish s = F_Wait" "\<not> ss_writerDone s"
    using f o by (cases "ss_finish s") (auto split: if_splits once.splits)
  then show ?thesis
  proof cases
    case 2
    then have "ss_loop s \<noteq> W_Done" using i(4) unfolding inv_order_def by blast
    then have "ss_loop s = W_Select" using w(1) c[of A_Writer] by (cases "ss_loop s") auto
    then have "\<not> ss_stopClosed s" "\<not> ss_sendClosed s" using w by (auto split: if_splits list.splits)
    then show ?thesis using 2 c i(3) unfolding inv_stop_def to_stop_def by auto
  qed
qed

subsection \<open>The properties\<close>

text \<open>C33. Whatever the interleaving, no step panics: the send channel is not sent to after it is closed, and neither channel is closed twice.
  The messages that \<open>send\<close> took are those written, in order, then at most one that a failed write lost or that is being written,
  then the queue.\<close>

theorem session_safe:
  assumes "reaches session_step (newWSTraceSession queueSize) s"
  shows "\<not> ss_panic s \<and> (\<exists>l. length l \<le> 1 \<and> ss_accepted s = ss_written s @ l @ ss_queue s)"
proof -
  have v: "inv_send s" "inv_order s" using session_inv_reaches[OF assms] unfolding session_inv_def by blast+
  obtain l where l: "in_flight (ss_loop s) l" "ss_accepted s = ss_written s @ l @ ss_queue s" using v(2) unfolding inv_order_def by blast
  then have "length l \<le> 1" by (cases "ss_loop s") auto
  then show ?thesis using l v(1) unfolding inv_send_def by blast
qed

definition session_script :: "session_label list" where
  "session_script =
     [Send 0 (envelope ''error'' NoData), Send 1 (envelope ''complete'' (IterationData 1)),
      Thread 0, Thread 0, Thread 0, Thread 0, Thread 1, Thread 1, Thread 1, Loop False True, Thread 1, Finish, Finish, Finish, Finish, Finish,
      Loop False True, Loop False True, Loop False True, Loop False True, Loop False True, Finish, Finish, Finish]"

definition session_end :: ws_session where
  "session_end = the (exec_run session_exec session_script (newWSTraceSession 2))"

lemma session_script_run: "exec_run session_exec session_script (newWSTraceSession 2) = Some session_end"
  unfolding session_end_def
  by (simp add: session_script_def newWSTraceSession_def set_thread_def)

lemma session_end_reached: "reaches session_step (newWSTraceSession 2) session_end"
  unfolding session_step_def using session_script_run by (rule exec_run_reaches)


lemma session_safe_witness: "\<not> ss_panic session_end \<and> (\<exists>l. length l \<le> 1 \<and> ss_accepted session_end = ss_written session_end @ l @ ss_queue session_end)"
  by (rule session_safe[OF session_end_reached])

text \<open>C40. When \<open>finish\<close> is over, the writer has ended and the connection is closed; unless the session was aborted, the browser has been sent
  every message that \<open>send\<close> took.\<close>

theorem session_delivers:
  assumes "reaches session_step (newWSTraceSession queueSize) s" "ss_finish s = F_Over"
  shows "ss_connClosed s \<and> ss_writerDone s \<and> ss_closed s \<and> (\<not> ss_stopClosed s \<longrightarrow> ss_written s = ss_accepted s)"
proof -
  have v: "inv_stop s" "inv_order s" using session_inv_reaches[OF assms(1)] unfolding session_inv_def by blast+
  then have w: "ss_writerDone s" "ss_connClosed s" "ss_closed s" using assms(2) unfolding inv_stop_def inv_order_def by blast+
  moreover have "\<not> ss_stopClosed s \<longrightarrow> ss_written s = ss_accepted s" using v(2) w(1) unfolding inv_order_def by metis
  ultimately show ?thesis by blast
qed

lemma session_end_over: "ss_finish session_end = F_Over" "\<not> ss_stopClosed session_end" "length (ss_written session_end) = 2"
  by (simp_all add: session_end_def session_script_def newWSTraceSession_def set_thread_def)

lemma session_delivers_witness: "ss_connClosed session_end \<and> \<not> ss_stopClosed session_end \<and> ss_written session_end = ss_accepted session_end"
  using session_delivers[OF session_end_reached session_end_over(1)] session_end_over(2) by blast

text \<open>C36. From any moment of a session the calls that have begun, the loop and \<open>finish\<close> make at most \<open>session_weight\<close> steps, in whatever
  order, and when none of them can go on \<open>finish\<close> has returned: nothing waits for ever.\<close>

theorem session_ends:
  assumes "reaches session_step (newWSTraceSession queueSize) s" "exec_run session_exec ls s = Some s'" "list_all internal ls"
  shows "length ls \<le> session_weight (busy s) s \<and> ((\<forall>l. internal l \<longrightarrow> session_exec l s' = None) \<longrightarrow> ss_finish s' = F_Over)"
proof
  show "length ls \<le> session_weight (busy s) s" using weight_run[OF assms(2,3) busy_reaches[OF assms(1)] order_refl] by simp
  have "reaches session_step s s'" unfolding session_step_def using assms(2) by (rule exec_run_reaches)
  then have "session_inv s'" using session_inv_reaches[OF assms(1)] unfolding session_step_def
    by (rule exec_inv[where I = session_inv]) (rule session_inv_step)
  then show "(\<forall>l. internal l \<longrightarrow> session_exec l s' = None) \<longrightarrow> ss_finish s' = F_Over" using stuck_over by blast
qed

lemma session_ends_witness:
  "length [Finish, Finish] \<le> session_weight (busy (newWSTraceSession 0)) (newWSTraceSession 0)"
proof -
  have "exec_run session_exec [Finish, Finish] (newWSTraceSession 0) \<noteq> None" by (simp add: newWSTraceSession_def)
  then obtain s' where "exec_run session_exec [Finish, Finish] (newWSTraceSession 0) = Some s'" by blast
  from session_ends[OF reaches_refl this] show ?thesis by simp
qed

end
