(* ===== verification/Ws_Messages.thy ===== *)
theory Ws_Messages
  imports Ws_Session
begin

section \<open>The messages of a trace in the web console\<close>

text \<open>
  \<open>server/ws_handler.go\<close>: how the console turns the intermediate results of a trace and the records of MTR into messages. The session
  is any state \<open>'s\<close> with a function that sends a message, as \<open>send\<close> of \<open>Ws_Session\<close> does; so the code is proved right on its own, and the
  properties use a session that keeps what it is sent.
\<close>

type_synonym 's sender = "wsEnvelope \<Rightarrow> 's \<Rightarrow> bool \<times> 's"

definition error_envelope :: "string \<Rightarrow> int \<Rightarrow> wsEnvelope" where
  "error_envelope e status = \<lparr>we_Type = ''error'', we_Data = NoData, we_Error = e, we_Status = status\<rparr>"

subsection \<open>A single trace\<close>

text \<open>The \<open>AsyncPrinter\<close> of \<open>runSingleTrace\<close>: a hop is sent when it has more attempts than when it was last sent.\<close>

fun asyncPrinter :: "string \<Rightarrow> 's sender \<Rightarrow> (nat \<times> hop list) list \<Rightarrow> (nat \<rightharpoonup> nat) \<Rightarrow> 's \<Rightarrow> (nat \<rightharpoonup> nat) \<times> 's" where
  "asyncPrinter lang send [] seen \<sigma> = (seen, \<sigma>)"
| "asyncPrinter lang send ((idx, atts) # hops) seen \<sigma> =
     (if atts = [] \<or> (case seen idx of None \<Rightarrow> False | Some prevLen \<Rightarrow> length atts \<le> prevLen) then asyncPrinter lang send hops seen \<sigma>
      else let seen = seen(idx \<mapsto> length atts);
               hop = buildHopResponse atts idx lang
           in if hr_Attempts hop = [] then asyncPrinter lang send hops seen \<sigma>
              else case send (envelope ''hop'' (HopData hop)) \<sigma> of
                     (ok, \<sigma>) \<Rightarrow> if ok then asyncPrinter lang send hops seen \<sigma> else (seen, \<sigma>))"

definition print_result :: "string \<Rightarrow> 's sender \<Rightarrow> hop list list \<Rightarrow> (nat \<rightharpoonup> nat) \<times> 's \<Rightarrow> (nat \<rightharpoonup> nat) \<times> 's" where
  "print_result lang send hops = (\<lambda>(seen, \<sigma>). asyncPrinter lang send (enumerate 0 hops) seen \<sigma>)"

text \<open>\<open>runSingleTrace\<close>: \<open>results\<close> are the states of the result at the calls of the printer, \<open>run\<close> is how \<open>executeTrace\<close> ended.\<close>

definition runSingleTrace :: "(hop list list \<Rightarrow> string option) \<Rightarrow> 's sender \<Rightarrow> ('s \<Rightarrow> bool) \<Rightarrow> traceExecution \<Rightarrow> hop list list list \<Rightarrow> trace_run
    \<Rightarrow> 's \<Rightarrow> 's" where
  "runSingleTrace map_url send aborted setup results run \<sigma> =
     (let lang = cfg_Lang (ex_Config setup); \<sigma> = snd (foldl (\<lambda>p r. print_result lang send r p) (Map.empty, \<sigma>) results) in
      case run of
        Run_Cancelled \<Rightarrow> \<sigma>
      | Run_Failed e \<Rightarrow> snd (send (error_envelope e 500) \<sigma>)
      | Run_Done hops ms \<Rightarrow>
          if aborted \<sigma> then \<sigma>
          else snd (send (envelope ''complete'' (TraceData
            \<lparr>te_Target = ex_Target setup, te_ResolvedIP = ip_string (ex_IP setup), te_Protocol = ex_Protocol setup,
             te_DataProvider = ex_DataProvider setup, te_TraceMapURL = traceMapURLForResult map_url setup hops,
             te_Language = lang, te_Hops = convertHops hops lang, te_DurationMs = ms\<rparr>)) \<sigma>))"

subsection \<open>MTR\<close>

definition resolveWebMTRHopInterval :: "traceRequest \<Rightarrow> int" where
  "resolveWebMTRHopInterval req =
     (if 0 < tq_HopIntervalMs req then ms_duration (tq_HopIntervalMs req)
      else if 0 < tq_IntervalMs req then ms_duration (tq_IntervalMs req)
      else 1000000000)"

text \<open>The callback of \<open>runMTRTrace\<close>: the highest iteration, whether the trace was cancelled, the session.\<close>

fun mtr_callback :: "'s sender \<Rightarrow> int \<times> bool \<times> 's \<Rightarrow> MTRRawRecord \<Rightarrow> int \<times> bool \<times> 's" where
  "mtr_callback send (iteration, cancelled, \<sigma>) r =
     (case send (envelope ''mtr_raw'' (RawData r)) \<sigma> of
        (ok, \<sigma>) \<Rightarrow> (if iteration < rec_Iteration r then rec_Iteration r else iteration, cancelled \<or> \<not> ok, \<sigma>))"

datatype mtr_outcome = Mtr_Ended | Mtr_Cancelled | Mtr_Failed string

definition runMTRTrace :: "'s sender \<Rightarrow> ('s \<Rightarrow> bool) \<Rightarrow> MTRRawRecord list \<Rightarrow> mtr_outcome \<Rightarrow> 's \<Rightarrow> 's" where
  "runMTRTrace send aborted recs outcome \<sigma> =
     (case foldl (mtr_callback send) (0, False, \<sigma>) recs of
        (iteration, cancelled, \<sigma>) \<Rightarrow>
          (case outcome of
             Mtr_Failed e \<Rightarrow> snd (send (error_envelope e 500) \<sigma>)
           | _ \<Rightarrow> if aborted \<sigma> then \<sigma> else snd (send (envelope ''complete'' (IterationData iteration)) \<sigma>)))"

subsection \<open>The handler\<close>

text \<open>The first message of the browser. Before the session exists the handler writes to the connection itself: \<open>Inl\<close>, at most one message.\<close>

datatype init_message = Init_Unread | Init_Invalid | Init traceRequest

definition traceWebsocketHandler :: "web_world \<Rightarrow> (http_error \<Rightarrow> bool) \<Rightarrow> 's sender \<Rightarrow> (traceExecution \<Rightarrow> 's \<Rightarrow> 's) \<Rightarrow> (traceExecution \<Rightarrow> 's \<Rightarrow> 's)
    \<Rightarrow> init_message \<Rightarrow> 's \<Rightarrow> wsEnvelope option + 's" where
  "traceWebsocketHandler w cancelled send single mtr message \<sigma> =
     (case message of
        Init_Unread \<Rightarrow> Inl None
      | Init_Invalid \<Rightarrow> Inl (Some (error_envelope ''invalid request payload'' 400))
      | Init req \<Rightarrow>
          (case prepareTrace w req of
             Inl e \<Rightarrow> if cancelled e then Inl None else Inl (Some (error_envelope (snd e) (if fst e = 0 then 500 else fst e)))
           | Inr setup \<Rightarrow>
               (case send (envelope ''start'' (StartData (ex_Target setup) (ip_string (ex_IP setup)) (ex_Protocol setup)
                      (ex_DataProvider setup) (cfg_Lang (ex_Config setup)))) \<sigma> of
                  (ok, \<sigma>) \<Rightarrow>
                    if \<not> ok then Inr \<sigma>
                    else if tq_Mode (ex_Req setup) = ''mtr'' \<or> tq_Mode (ex_Req setup) = ''continuous'' then Inr (mtr setup \<sigma>)
                    else Inr (single setup \<sigma>))))"

subsection \<open>What the browser shows\<close>

fun keep :: "wsEnvelope list sender" where
  "keep m out = (True, out @ [m])"

text \<open>\<open>server/web/assets/app.js\<close>: the page keeps the hops in \<open>hopStore\<close>, a JavaScript map from TTLs (a new key goes to the end); a \<open>hop\<close>
  message replaces the entry of its TTL, \<open>complete\<close> empties the map and fills it with the hops of the answer, and
  \<open>renderHopsFromStore\<close> shows the entries in the order of their TTLs. Of \<open>handleSocketMessage\<close> only what it does to \<open>hopStore\<close> is modelled, and the
  list of hops in an answer is an array (\<open>convertHops\<close> returns a list that is not nil unless the result has no TTLs at all).\<close>

type_synonym hop_store = "(int \<times> hopResponse) list"

definition store_hop :: "hop_store \<Rightarrow> hopResponse \<Rightarrow> hop_store" where
  "store_hop store h = AList.update (hr_TTL h) h store"

definition handleSocketMessage :: "string \<Rightarrow> wsEnvelope \<Rightarrow> hop_store \<Rightarrow> hop_store" where
  "handleSocketMessage currentMode m store =
     (if we_Type m = ''hop'' then
        (case we_Data m of HopData h \<Rightarrow> if currentMode \<noteq> ''mtr'' then store_hop store h else store | _ \<Rightarrow> store)
      else if we_Type m = ''complete'' then
        (if currentMode = ''mtr'' then store
         else case we_Data m of TraceData t \<Rightarrow> foldl store_hop [] (te_Hops t) | _ \<Rightarrow> store)
      else store)"

definition hopStore :: "string \<Rightarrow> wsEnvelope list \<Rightarrow> hop_store" where
  "hopStore currentMode out = foldl (\<lambda>store m. handleSocketMessage currentMode m store) [] out"

definition renderHopsFromStore :: "hop_store \<Rightarrow> hopResponse list" where
  "renderHopsFromStore store = sort_key hr_TTL (map snd store)"

text \<open>The first of the longest lists of attempts of a hop.\<close>

definition longest :: "nat \<Rightarrow> hop list list list \<Rightarrow> hop list" where
  "longest idx rs = foldl (\<lambda>best r. if idx < length r \<and> length best < length (r ! idx) then r ! idx else best) [] rs"

definition rows_shown :: "string \<Rightarrow> (nat \<rightharpoonup> nat) \<Rightarrow> wsEnvelope list \<Rightarrow> nat \<Rightarrow> hop list \<Rightarrow> bool" where
  "rows_shown lang seen out idx best \<longleftrightarrow>
     map_of (hopStore ''single'' out) (int idx + 1) = (if best = [] then None else Some (buildHopResponse best idx lang)) \<and>
     seen idx = (if best = [] then None else Some (length best))"

lemma keep_fields [simp]: "fst (keep m out) = True" "snd (keep m out) = out @ [m]"
  by simp_all

declare keep.simps [simp del]

text \<open>The printer with a session that keeps every message.\<close>

lemma asyncPrinter_keep:
  "asyncPrinter lang keep ((idx, atts) # hops) seen out =
     (if atts = [] \<or> (case seen idx of None \<Rightarrow> False | Some n \<Rightarrow> length atts \<le> n) then asyncPrinter lang keep hops seen out
      else asyncPrinter lang keep hops (seen(idx \<mapsto> length atts)) (out @ [envelope ''hop'' (HopData (buildHopResponse atts idx lang))]))"
  by (simp add: Let_def split_beta) (simp add: buildHopResponse_def)

declare asyncPrinter.simps(2) [simp del]
declare asyncPrinter_keep [simp]

lemma longest_snoc: "longest idx (rs @ [r]) =
   (if idx < length r \<and> length (longest idx rs) < length (r ! idx) then r ! idx else longest idx rs)"
  by (simp add: longest_def)

lemma hopStore_snoc: "hopStore mode (out @ [m]) = handleSocketMessage mode m (hopStore mode out)"
  by (simp add: hopStore_def)

lemma hopStore_hop:
  "map_of (hopStore ''single'' (out @ [envelope ''hop'' (HopData (buildHopResponse atts i lang))])) =
     (map_of (hopStore ''single'' out))(int i + 1 \<mapsto> buildHopResponse atts i lang)"
  by (simp add: hopStore_snoc handleSocketMessage_def envelope_def store_hop_def update_conv') (simp add: buildHopResponse_def)

lemma asyncPrinter_other:
  assumes "idx \<notin> fst ` set hops" "rows_shown lang seen out idx best" "asyncPrinter lang keep hops seen out = (seen', out')"
  shows "rows_shown lang seen' out' idx best"
  using assms
proof (induction hops arbitrary: seen out)
  case (Cons x hops)
  obtain i atts where x: "x = (i, atts)" by (cases x)
  show ?case
  proof (cases "atts = [] \<or> (case seen i of None \<Rightarrow> False | Some n \<Rightarrow> length atts \<le> n)")
    case True
    then show ?thesis using Cons by (auto simp: x)
  next
    case False
    have "rows_shown lang (seen(i \<mapsto> length atts)) (out @ [envelope ''hop'' (HopData (buildHopResponse atts i lang))]) idx best"
      using Cons.prems(1,2) by (auto simp: rows_shown_def hopStore_hop x)
    then show ?thesis using Cons.IH Cons.prems(1,3) False by (auto simp: x)
  qed
qed simp

lemma asyncPrinter_hop:
  assumes "distinct (map fst hops)" "(idx, atts) \<in> set hops" "rows_shown lang seen out idx best"
    "asyncPrinter lang keep hops seen out = (seen', out')"
  shows "rows_shown lang seen' out' idx (if length best < length atts then atts else best)"
  using assms
proof (induction hops arbitrary: seen out)
  case (Cons x hops)
  obtain i as where x: "x = (i, as)" by (cases x)
  let ?out = "out @ [envelope ''hop'' (HopData (buildHopResponse as i lang))]"
  show ?case
  proof (cases "i = idx")
    case True
    then have a: "as = atts" "idx \<notin> fst ` set hops" using Cons.prems(1,2) x by (auto simp: rev_image_eqI)
    show ?thesis
    proof (cases "atts = [] \<or> (case seen idx of None \<Rightarrow> False | Some n \<Rightarrow> length atts \<le> n)")
      case skip: True
      then have "\<not> length best < length atts" using Cons.prems(3) by (auto simp: rows_shown_def split: if_splits)
      then show ?thesis using Cons.prems(3,4) skip a True asyncPrinter_other[OF a(2)] by (auto simp: x)
    next
      case False
      then have "length best < length atts" using Cons.prems(3) by (auto simp: rows_shown_def split: if_splits)
      moreover have "rows_shown lang (seen(idx \<mapsto> length atts)) ?out idx atts"
        using False a True by (auto simp: rows_shown_def hopStore_hop)
      ultimately show ?thesis using Cons.prems(4) False a True asyncPrinter_other[OF a(2)]
        by (auto simp: x)
    qed
  next
    case False
    then have m: "(idx, atts) \<in> set hops" "distinct (map fst hops)" using Cons.prems(1,2) x by auto
    show ?thesis
    proof (cases "as = [] \<or> (case seen i of None \<Rightarrow> False | Some n \<Rightarrow> length as \<le> n)")
      case True
      then show ?thesis using Cons.IH[OF m(2,1) Cons.prems(3)] Cons.prems(4) by (auto simp: x)
    next
      case n: False
      have "rows_shown lang (seen(i \<mapsto> length as)) ?out idx best"
        using Cons.prems(3) False by (auto simp: rows_shown_def hopStore_hop)
      then show ?thesis using Cons.IH[OF m(2,1)] Cons.prems(4) n by (auto simp: x)
    qed
  qed
qed simp

lemma print_result_shown:
  assumes "rows_shown lang seen out idx best" "print_result lang keep r (seen, out) = (seen', out')"
  shows "rows_shown lang seen' out' idx (if idx < length r \<and> length best < length (r ! idx) then r ! idx else best)"
proof (cases "idx < length r")
  case True
  have "distinct (map fst (enumerate 0 r))" by simp
  moreover have "(idx, r ! idx) \<in> set (enumerate 0 r)" using True by (simp add: in_set_enumerate_eq)
  ultimately show ?thesis using asyncPrinter_hop assms True unfolding print_result_def by fastforce
next
  case False
  have "idx \<notin> fst ` set (enumerate 0 r)" using False by (auto simp: in_set_enumerate_eq)
  then show ?thesis using asyncPrinter_other assms False unfolding print_result_def by fastforce
qed

lemma print_results_shown:
  assumes "foldl (\<lambda>p r. print_result lang keep r p) (Map.empty, out) rs = (seen, out')" "hopStore ''single'' out = []"
  shows "rows_shown lang seen out' idx (longest idx rs)"
  using assms(1)
proof (induction rs arbitrary: seen out' rule: rev_induct)
  case Nil
  then show ?case using assms(2) by (auto simp: rows_shown_def longest_def)
next
  case (snoc r rs)
  obtain seen1 out1 where p: "foldl (\<lambda>p r. print_result lang keep r p) (Map.empty, out) rs = (seen1, out1)" by (rule prod.exhaust)
  then show ?case using print_result_shown[OF snoc.IH[OF p]] snoc.prems by (simp add: longest_snoc)
qed

text \<open>The answer of a finished trace: its hops come in the order of their TTLs, each TTL once.\<close>

lemma store_fresh:
  assumes "distinct (map fst store @ map hr_TTL hs)"
  shows "foldl store_hop store hs = store @ map (\<lambda>h. (hr_TTL h, h)) hs"
  using assms
proof (induction hs arbitrary: store)
  case (Cons h hs)
  have new: "AList.update k v al = al @ [(k, v)]" if "k \<notin> fst ` set al" for k v and al :: hop_store
    using that by (induction al) auto
  have "hr_TTL h \<notin> fst ` set store" using Cons.prems by auto
  then have "store_hop store h = store @ [(hr_TTL h, h)]" by (simp add: store_hop_def new)
  then show ?case using Cons.IH [of "store @ [(hr_TTL h, h)]"] Cons.prems by auto
qed simp

lemma convertHops_ttls: "sorted (map hr_TTL (convertHops hops lang))" "distinct (map hr_TTL (convertHops hops lang))"
proof -
  let ?all = "map (\<lambda>(idx, atts). buildHopResponse atts idx lang) (enumerate 0 hops)"
  have t: "map hr_TTL ?all = map (\<lambda>i. int i + 1) [0..<length hops]"
  proof -
    have "map hr_TTL ?all = map ((\<lambda>i. int i + 1) \<circ> fst) (enumerate 0 hops)" by (simp add: buildHopResponse_def split_beta comp_def)
    then show ?thesis by (simp flip: map_map)
  qed
  have "sorted (map hr_TTL ?all)" "distinct (map hr_TTL ?all)"
    unfolding t by (simp_all add: sorted_map distinct_map inj_on_def sorted_wrt_iff_nth_less)
  then show "sorted (map hr_TTL (convertHops hops lang))" "distinct (map hr_TTL (convertHops hops lang))"
    unfolding convertHops_def by (simp_all only: sorted_filter distinct_map_filter)
qed

lemma complete_shown:
  assumes "te_Hops answer = convertHops hops lang"
  shows "renderHopsFromStore (handleSocketMessage ''single'' (envelope ''complete'' (TraceData answer)) store) = convertHops hops lang"
  using store_fresh [of "[]" "convertHops hops lang"] convertHops_ttls [of hops lang] assms
  by (simp add: handleSocketMessage_def envelope_def renderHopsFromStore_def comp_def sort_key_id_if_sorted)

text \<open>C22. Whatever the intermediate results of a single trace whose final result has at least one TTL: until the final message, the page has for a hop the
  attempts of the first of the hop's longest lists among the results so far, localised, and no entry as long as there are none; the final
  message carries the answer that the HTTP handler gives for the trace, and after it the page shows exactly the hops of that answer,
  in the order of their TTLs, whatever was shown before.\<close>

theorem single_trace_shown:
  assumes "hops \<noteq> []"
  shows "\<exists>before final answer.
     runSingleTrace map_url keep (\<lambda>_. False) setup rs (Run_Done hops ms) [envelope ''start'' d] = before @ [final] \<and>
     map_of (hopStore ''single'' before) (int idx + 1) =
       (if longest idx rs = [] then None else Some (buildHopResponse (longest idx rs) idx (cfg_Lang (ex_Config setup)))) \<and>
     final = envelope ''complete'' (TraceData answer) \<and> te_Hops answer = convertHops hops (cfg_Lang (ex_Config setup)) \<and>
     renderHopsFromStore (hopStore ''single'' (before @ [final])) = convertHops hops (cfg_Lang (ex_Config setup))"
proof -
  let ?lang = "cfg_Lang (ex_Config setup)" and ?start = "[envelope ''start'' d]"
  obtain seen out where p: "foldl (\<lambda>p r. print_result ?lang keep r p) (Map.empty, ?start) rs = (seen, out)"
    by (rule prod.exhaust)
  have "hopStore ''single'' ?start = []" by (simp add: hopStore_def handleSocketMessage_def envelope_def)
  from print_results_shown [OF p this] have "rows_shown ?lang seen out idx (longest idx rs)" .
  moreover define answer where "answer = \<lparr>te_Target = ex_Target setup, te_ResolvedIP = ip_string (ex_IP setup),
      te_Protocol = ex_Protocol setup, te_DataProvider = ex_DataProvider setup,
      te_TraceMapURL = traceMapURLForResult map_url setup hops, te_Language = ?lang, te_Hops = convertHops hops ?lang,
      te_DurationMs = ms\<rparr>"
  moreover have "te_Hops answer = convertHops hops ?lang" by (simp add: answer_def)
  moreover have "runSingleTrace map_url keep (\<lambda>_. False) setup rs (Run_Done hops ms) ?start =
      out @ [envelope ''complete'' (TraceData answer)]"
    by (simp add: runSingleTrace_def Let_def p answer_def)
  ultimately show ?thesis
    using complete_shown [of answer hops ?lang "hopStore ''single'' out"]
    by (intro exI [of _ out] exI [of _ "envelope ''complete'' (TraceData answer)"] exI [of _ answer])
      (simp add: rows_shown_def hopStore_snoc)
qed

theorem single_trace_shown_witness:
  "\<exists>setup before final. prepareTrace demo_world demo_request = Inr setup \<and>
     runSingleTrace (\<lambda>_. None) keep (\<lambda>_. False) setup [[[]], [[timeout_hop 1]]] (Run_Done [[timeout_hop 1], []] 7)
       [envelope ''start'' NoData] = before @ [final] \<and>
     map_of (hopStore ''single'' before) 1 \<noteq> None \<and>
     map hr_TTL (renderHopsFromStore (hopStore ''single'' (before @ [final]))) = [1]"
proof -
  obtain x where x: "prepareTrace demo_world demo_request = Inr x" using demo_prepared by blast
  have l: "longest 0 [[[]], [[timeout_hop 1]]] = [timeout_hop 1]" by (simp add: longest_def)
  have h: "map hr_TTL (convertHops [[timeout_hop 1], []] lang) = [1]" for lang by (simp add: convertHops_def buildHopResponse_def)
  show ?thesis
    using single_trace_shown [of "[[timeout_hop 1], []]" "\<lambda>_. None" x "[[[]], [[timeout_hop 1]]]" 7 NoData 0] x
    by (intro exI [of _ x]) (auto simp: l h)
qed

lemma mtr_messages:
  "foldl (mtr_callback keep) (i, c, out) recs =
     (foldl max i (map rec_Iteration recs), c, out @ map (\<lambda>r. envelope ''mtr_raw'' (RawData r)) recs)"
  by (induction recs arbitrary: i out) (simp_all add: max_def split_beta)

text \<open>MTR sends every record, in order, and ends with the highest iteration.\<close>

theorem mtr_stream:
  "runMTRTrace keep (\<lambda>_. False) recs Mtr_Ended out =
     out @ map (\<lambda>r. envelope ''mtr_raw'' (RawData r)) recs @ [envelope ''complete'' (IterationData (foldl max 0 (map rec_Iteration recs)))]"
  by (simp add: runMTRTrace_def mtr_messages)

lemma single_trace_answer:
  assumes "prepareTrace w req = Inr setup" "ex_NeedsLeoWS setup \<Longrightarrow> connect setup = None"
    "run (ex_Method setup) (ex_Config setup) = Run_Done hops ms"
  shows "\<exists>answer. traceHandler w connect run map_url gone (Body req) = Some (Answer answer) \<and>
    last (runSingleTrace map_url keep (\<lambda>_. False) setup rs (Run_Done hops ms) out) = envelope ''complete'' (TraceData answer)"
proof -
  obtain seen out' where p: "foldl (\<lambda>p r. print_result (cfg_Lang (ex_Config setup)) keep r p) (Map.empty, out) rs = (seen, out')"
    by (rule prod.exhaust)
  show ?thesis using assms by (auto simp: traceHandler_def runSingleTrace_def Let_def p)
qed

text \<open>The WebSocket and the HTTP handler reject the same requests with the same status and text.\<close>

lemma ws_errors_agree:
  assumes "traceWebsocketHandler w gone send single mtr (Init req) \<sigma> = Inl r"
  shows "traceHandler w connect run map_url gone (Body req) = map_option (\<lambda>m. Status (we_Status m) (we_Error m)) r"
  using assms by (auto simp: traceWebsocketHandler_def traceHandler_def error_envelope_def split: sum.splits if_splits prod.splits)

end
