(* ===== verification/Spec2Isabelle.thy ===== *)
theory Spec2Isabelle
  imports Icmp_Decode Mtu_Decode Ip_Fragment Udp_Checksum Icmp_Tracer_Runs Mtr_Scheduler_Props Mtu_Discovery_Props
    Tcp_Tracer Udp_Tracer Udp6_Tracer Mtr_Loop Nali Mtr_Raw Ws_Dial Leo_Client Hop_Groups Mtr_History Api_V4 Deploy_Auth
    Source_Config Geo_Dns Web_Trace Ws_Session Ws_Messages
begin

text \<open>
  \<^bold>\<open>A model of NextTrace\<close>

  NextTrace is a traceroute program in Go. It sends probes with increasing TTL over ICMP, UDP or TCP, recognises the answers of
  routers and of the destination, looks up what is known about each address, and prints or serves the result: once
  (\<open>trace.Traceroute\<close>), continuously (MTR mode), as a path-MTU discovery (\<open>trace/mtu\<close>), as JSON in a web console (\<open>server\<close>),
  or as annotations in a text (nali mode). These theories translate the packages that hold this logic and prove what makes
  each of them correct.

  \<^bold>\<open>How the parts interact\<close>

  A front end fills a \<open>Config\<close>; \<open>Traceroute\<close> completes it and starts a tracer. The tracer's goroutines share one \<open>Result\<close>. Replies
  arrive through a listener, which unwraps the quoted packet, recognises the probe, and queues a match for a worker, which adds a
  hop; the hop's metadata come later from a geo source, through a cache. MTR either repeats short traces (\<open>runMTRLoop\<close> with a
  prober per round) or schedules each TTL by itself (\<open>runMTRScheduler\<close>); both feed an aggregator, whose snapshots are printed, and
  the raw mode writes one record per probe. The geo sources are HTTP services or one WebSocket connection with a dispatcher.

  \<^bold>\<open>Conventions\<close>

  \<^item> A Go string or \<open>[]byte\<close> is a list; reads outside of it are the value \<open>Inl Panic\<close>. Errors are the left side of a sum or
    \<open>None\<close>. Wrap-around is on words or written out. Durations and times are nanoseconds as integers.
  \<^item> A Go map is a function to options, or an association list where its order of iteration matters.
  \<^item> Code with goroutines is a transition system: every critical section, channel operation and blocking point is one step, and
    the theorems hold for every interleaving. Steps are an inductive relation, or an executable function from a state and a labelled
    event to the next state (\<open>exec_step\<close>, \<open>exec_run\<close> in \<open>Prelude\<close>).
  \<^item> Code outside of the repository (\<open>golang.org/x/net\<close>, the kernel, DNS, HTTP, JSON and URL parsers, random numbers, clocks) is an
    argument of the definitions that use it.

  \<^bold>\<open>Theories\<close>

  Foundations.

  \<^item> \<open>Prelude\<close>: results, run-time checks, byte order, runs of transition systems and the locale \<open>step_invariant\<close> with its
    interpretations in the theories below.
  \<^item> \<open>Go_Text\<close>, \<open>Net_Addr\<close>, \<open>Netip\<close>: the functions of \<open>strings\<close>, \<open>strconv\<close>, \<open>net\<close> and \<open>net/netip\<close> that the code uses, with the
    address helpers of \<open>util/util.go\<close> and \<open>util/frag.go\<close>.
  \<^item> \<open>Trace_Config\<close>: \<open>Config\<close>, \<open>Hop\<close>, \<open>IPGeoData\<close> and the preparation in \<open>trace/trace.go\<close>. \<open>Packet_Size\<close>: \<open>trace/packet_size.go\<close>.
    \<open>Source_Config\<close>: \<open>trace/source_config.go\<close>, with the choice of a device's address shown to be the choice of the best kind.

  Packets.

  \<^item> \<open>Ext_Headers\<close>, \<open>Ip_Header\<close>: the two walkers of IPv6 extension headers (\<open>util/trace.go\<close>, \<open>trace/mtu/decode.go\<close>) as interpretations
    of one locale; they end, never panic, and find the payload behind any well-formed chain.
  \<^item> \<open>Icmp_Decode\<close>: \<open>trace/internal/icmp_decode.go\<close>, the decoders of the specs and of TCP answers. \<open>Mtu_Decode\<close>: the probe decoder of
    the MTU discovery. \<open>Mpls\<close>: \<open>extractMPLS\<close>, with the label stacks it reads back and those it loses.
  \<^item> \<open>Ip_Fragment\<close>: \<open>IPv4Fragmentize\<close>, whose fragments reassemble. \<open>Udp_Checksum\<close>: the payload that steers a UDP checksum.

  Traces.

  \<^item> \<open>Trace_Result\<close>: \<open>Result\<close> (\<open>add\<close>, \<open>reduce\<close>, \<open>updateHop\<close>, pending geo data). \<open>Icmp_Tracer\<close>, \<open>Icmp_Tracer_Runs\<close>: the ICMP tracer with all
    its goroutines, and what holds in every reachable state.
  \<^item> \<open>Tracer_Core\<close>: what the other tracers share with it. \<open>Tcp_Tracer\<close>, \<open>Udp_Tracer\<close>, \<open>Udp6_Tracer\<close>: \<open>trace/tcp_ipv4.go\<close>,
    \<open>trace/udp_ipv4.go\<close> (with the macOS path) and \<open>trace/udp_ipv6.go\<close>, as refinements of the core.
  \<^item> \<open>Geo_Filter\<close>, \<open>Geo_Lookup\<close>: which addresses are never asked for, and lookups with retries and cache.
  \<^item> \<open>Mtu_Discovery\<close>, \<open>Mtu_Discovery_Props\<close>: \<open>trace/mtu/runner.go\<close>; it ends, reports a protocol of events, and finds the path MTU (from the
    first hop, with at least two queries per hop, on a path that reports).

  MTR.

  \<^item> \<open>Mtr_Stats\<close>, \<open>Mtr_Stats_Props\<close>: the aggregator. \<open>Mtr_Scheduler\<close> and \<open>_Inv\<close>, \<open>_Events\<close>, \<open>_Props\<close>: the per-hop scheduler with
    background lookups, pause, reset and the cancellation of its context (\<open>loop_status\<close> says whether and how the loop has returned).
  \<^item> \<open>Mtr_Engine\<close>, \<open>Mtr_Calls\<close>, \<open>Mtr_Rounds\<close> and their \<open>_Props\<close>: the long-lived ICMP engine of \<open>trace/mtr_runner.go\<close>, its calls of one
    probe and its rounds with previews. \<open>Mtr_Loop\<close>: the loop over rounds. \<open>Mtr_Raw\<close>: the streams of raw records.
  \<^item> \<open>Mtr_History\<close>, \<open>Hop_Groups\<close>: the sample history and the grouping of attempts for the printers.

  Services.

  \<^item> \<open>Ws_Client\<close>, \<open>Ws_Dial\<close>: \<open>wshandle/client.go\<close> with its loops, reconnections and \<open>Close\<close>. \<open>Leo_Client\<close>: the requests and the
    dispatcher of \<open>ipgeo/leo.go\<close> on top of it, while handles are made, replaced and closed. \<open>Api_V4\<close>: the HTTP service. \<open>Geo_Dns\<close>: the resolver scopes of
    \<open>util/dns_resolver.go\<close>.
  \<^item> \<open>Nali\<close>: \<open>internal/nali/nali.go\<close>, against a specification of where addresses stand in a line and what each is labelled with that does
    not use its scanner. \<open>Deploy_Auth\<close>: who may use the web console. \<open>Web_Trace\<close>: its trace requests and answers, with
    the proof of exactly when what it starts satisfies the configuration hypothesis of the tracers. \<open>Ws_Session\<close>: the session of a
    WebSocket of the console (\<open>server/ws_handler.go\<close>), each lock and channel operation a step, with a measure that bounds what is left
    to do. \<open>Ws_Messages\<close>: its handler, the messages of a trace, and the store of hops from which the page
    (\<open>server/web/assets/app.js\<close>) draws its rows.

  \<^bold>\<open>Bounds\<close>

  Loops are structural recursions or have a measure: the remaining text or packet, the untried lengths, and for the MTU discovery the pair
  of remaining attempts and the MTU, which is below 65536 (\<open>probes_bounded\<close>). Fuel appears twice: eight units print the eight groups of
  an IPv6 address, and the round-based raw mode takes one unit per round, of which \<open>MaxRounds\<close> are proved to be enough for a
  bounded run; without a bound the code runs until it is cancelled. The MTR loops, the tracers and the clients, which run as
  long as the world keeps them busy, are transition systems and need no bound.

  \<^bold>\<open>Hypotheses\<close>

  \<^item> \<open>wf_config\<close>: hops from 1 to 255 and at most 256 attempts, what a TTL and the low byte of a sequence number can hold.
    \<open>web_config_sound\<close> says which requests of the console satisfy it: those whose first hop is not beyond the last, with at most 255 hops
    and 256 attempts of every kind. The console itself checks none of these (\<open>begin_beyond_max_panics\<close> shows what follows).
  \<^item> \<open>result_ok\<close>, \<open>fetch_ok\<close>, \<open>event_ok\<close>, \<open>stamped\<close>: the addresses, attempts and time stamps the kernel and the probers deliver
    are well-formed. \<open>good_draw\<close>: random numbers are in their range.
  \<^item> The rules for the calls of the MTR engine exclude two delays: a number is not drawn again while the call that drew it 65535
    probes before still runs, and a call does not sleep between drawing a number and registering it while another one replaces
    the socket.
  \<^item> \<open>steady_source\<close>: a geo source answers the same question alike. The development mode of \<open>wshandle\<close> is off.
  \<^item> \<open>history_refines_log\<close> assumes a clock that does not go backwards, as Go's monotonic readings provide.

  \<^bold>\<open>Not modelled\<close>

  \<^item> Sockets and platforms: raw sockets, packet capture, WinDivert and binding to devices under \<open>trace/internal\<close>, \<open>trace/mtu\<close> and
    \<open>assets\<close>: system calls with build tags per platform. The decoders they feed are modelled.
  \<^item> \<open>trace/icmp_ipv6.go\<close> and \<open>trace/tcp_ipv6.go\<close> repeat their IPv4 counterparts statement by statement with other socket types; the
    theorems on the counterparts are about the same statements, but these files have no definitions of their own.
  \<^item> The command line (\<open>cmd\<close>), the printers' layout and terminal screens (\<open>printer\<close> but the history), the reporter, the fast traces to fixed
    targets (\<open>fast_trace\<close>) and the log file (\<open>tracelog\<close>): flags, prompts, colours and text.
  \<^item> The MCP service (\<open>internal/service\<close>, \<open>server/mcp.go\<close>), the deprecated \<open>server/mtr.go\<close>, Globalping, the speed test
    (\<open>internal/speedtest\<close>), the map upload (\<open>tracemap\<close>), the proof-of-work client (\<open>pow\<close>), the DN42 database (\<open>dn42\<close>), the other geo
    services of \<open>ipgeo\<close>: clients of remote services and files, most of whose lines assemble requests and unpack answers.
  \<^item> The contents of packets beyond the fields that identify a probe, the bodies of logging calls, and localisation.
\<close>

end
